(* ===== verification/Prelude.thy ===== *)
theory Prelude
  imports Main "HOL-Library.Word"
begin

text \<open>
  Shared vocabulary of the development: the ways a C routine of the back end can stop
  (\<open>c_error\<close>) and the result type of a fallible routine, the alignment macros of
  \<^verbatim>\<open>src/src/include/rdbms/c.h\<close>, and byte-addressed memory with the little-endian loads and
  stores, \<open>memmove\<close>, \<open>memset\<close> and \<open>memcmp\<close> that the page, tuple and datum code uses.
  The data model is LP64 on x86-64, the target of the build directory of the repository:
  \<open>int\<close> is 32 bits, \<open>long\<close>, \<open>size_t\<close> and pointers are 64 bits, \<open>max_align_t\<close> is
  aligned to 16.
\<close>

unbundle bit_operations_syntax

named_theorems mem_simps \<open>loads and stores of byte-addressed memory\<close>
named_theorems align_simps \<open>facts on the alignment macros\<close>
named_theorems ring_simps \<open>links of circular doubly linked lists\<close>

section \<open>Results of fallible routines\<close>

text \<open>
  \<open>Assert_failed\<close>: a failed \<open>assert\<close>; \<open>Elog_ERROR\<close> and \<open>Elog_FATAL\<close>: control left the
  routine through \<open>elog\<close>; \<open>Bad_pointer\<close>: a NULL or dangling pointer was dereferenced, or an
  array was indexed out of its bounds, and \<open>Int_overflow\<close>: arithmetic on \<open>int\<close> left its range, both undefined
  behaviour in C.
\<close>

datatype c_error = Assert_failed | Elog_ERROR | Elog_FATAL | Bad_pointer | Int_overflow

type_synonym 'a cres = "c_error + 'a"

definition cbind :: "'a cres \<Rightarrow> ('a \<Rightarrow> 'b cres) \<Rightarrow> 'b cres" where
  "cbind r f = (case r of Inl e \<Rightarrow> Inl e | Inr x \<Rightarrow> f x)"

definition c_assert :: "bool \<Rightarrow> 'a cres \<Rightarrow> 'a cres" where
  "c_assert b k = (if b then k else Inl Assert_failed)"

lemma cbind_Inr [simp]: "cbind (Inr x) f = f x"
  by (simp add: cbind_def)

lemma cbind_Inl [simp]: "cbind (Inl e) f = Inl e"
  by (simp add: cbind_def)

lemma cbind_eq_Inr: "cbind r f = Inr y \<longleftrightarrow> (\<exists>x. r = Inr x \<and> f x = Inr y)"
  by (cases r) auto

lemma c_assert_True [simp]: "b \<Longrightarrow> c_assert b k = k"
  by (simp add: c_assert_def)

lemma c_assert_False [simp]: "\<not> b \<Longrightarrow> c_assert b k = Inl Assert_failed"
  by (simp add: c_assert_def)

lemma c_assert_eq_Inr: "c_assert b k = Inr y \<longleftrightarrow> b \<and> k = Inr y"
  by (simp add: c_assert_def)

text \<open>The value of an expression of type \<open>int\<close>.\<close>

definition c_int :: "int \<Rightarrow> int cres" where
  "c_int i = (if -(2 ^ 31) \<le> i \<and> i < 2 ^ 31 then Inr i else Inl Int_overflow)"

lemma c_int_ok [simp]: "-(2 ^ 31) \<le> i \<Longrightarrow> i < 2 ^ 31 \<Longrightarrow> c_int i = Inr i"
  by (simp add: c_int_def)

text \<open>Results of routines that may also not return (\<open>None\<close>), and assertions in them.\<close>

definition rbind :: "'a cres option \<Rightarrow> ('a \<Rightarrow> 'b cres option) \<Rightarrow> 'b cres option" where
  "rbind r f = (case r of None \<Rightarrow> None | Some (Inl e) \<Rightarrow> Some (Inl e) | Some (Inr x) \<Rightarrow> f x)"

definition r_assert :: "bool \<Rightarrow> 'a cres option \<Rightarrow> 'a cres option" where
  "r_assert b k = (if b then k else Some (Inl Assert_failed))"

lemma rbind_simps [simp]: "rbind None f = None" "rbind (Some (Inl e)) f = Some (Inl e)" "rbind (Some (Inr x)) f = f x"
  by (simp_all add: rbind_def)

lemma outcome_cases:
  assumes "elog \<or> null \<or> done_it"
  obtains elog | null | done_it
  using assms by blast

section \<open>Alignment\<close>

text \<open>
  \<open>TYPE_ALIGN(alignment, size)\<close> of \<^verbatim>\<open>c.h\<close>, on the mathematical integers (the macro computes
  in \<open>long\<close>; the sizes it is used on are far below \<open>2^63\<close>).
\<close>

definition TYPE_ALIGN :: "nat \<Rightarrow> nat \<Rightarrow> nat" where
  "TYPE_ALIGN alignment len =
     nat ((int len + (int alignment - 1)) AND NOT (int alignment - 1))"

definition SHORT_ALIGN :: "nat \<Rightarrow> nat" where
  "SHORT_ALIGN len = TYPE_ALIGN 2 len"

definition INT_ALIGN :: "nat \<Rightarrow> nat" where
  "INT_ALIGN len = TYPE_ALIGN 4 len"

definition LONG_ALIGN :: "nat \<Rightarrow> nat" where
  "LONG_ALIGN len = TYPE_ALIGN 8 len"

definition DOUBLE_ALIGN :: "nat \<Rightarrow> nat" where
  "DOUBLE_ALIGN len = TYPE_ALIGN 8 len"

definition MAX_ALIGN :: "nat \<Rightarrow> nat" where
  "MAX_ALIGN len = TYPE_ALIGN 16 len"

lemma int_and_not_mask: "(x::int) AND NOT (2 ^ k - 1) = x div 2 ^ k * 2 ^ k"
proof -
  have "x AND NOT (mask k) = push_bit k (drop_bit k x)"
    by (rule bit_eqI) (auto simp: bit_simps)
  then show ?thesis
    by (simp add: mask_eq_exp_minus_1 push_bit_eq_mult drop_bit_eq_div)
qed

lemma TYPE_ALIGN_pow2: "TYPE_ALIGN (2 ^ k) n = (n + (2 ^ k - 1)) div 2 ^ k * 2 ^ k"
proof -
  have y: "int n + (int (2 ^ k) - 1) = int (n + (2 ^ k - 1))"
    by (simp only: of_nat_add of_nat_diff [OF one_le_power] one_le_numeral of_nat_1)
  have m: "int (2 ^ k) - 1 = 2 ^ k - 1" by simp
  have "(int n + (int (2 ^ k) - 1)) AND NOT (int (2 ^ k) - 1)
      = int (n + (2 ^ k - 1)) div 2 ^ k * 2 ^ k"
    unfolding y unfolding m by (rule int_and_not_mask)
  also have "\<dots> = int ((n + (2 ^ k - 1)) div 2 ^ k * 2 ^ k)"
    by (simp add: zdiv_int)
  finally show ?thesis by (simp only: TYPE_ALIGN_def nat_int)
qed

lemma TYPE_ALIGN_2: "TYPE_ALIGN 2 n = (n + 1) div 2 * 2"
  using TYPE_ALIGN_pow2 [of 1 n] by simp

lemma TYPE_ALIGN_4: "TYPE_ALIGN 4 n = (n + 3) div 4 * 4"
  using TYPE_ALIGN_pow2 [of 2 n] by simp

lemma TYPE_ALIGN_8: "TYPE_ALIGN 8 n = (n + 7) div 8 * 8"
  using TYPE_ALIGN_pow2 [of 3 n] by simp

lemma TYPE_ALIGN_16: "TYPE_ALIGN 16 n = (n + 15) div 16 * 16"
  using TYPE_ALIGN_pow2 [of 4 n] by simp

lemmas align_defs [align_simps] =
  SHORT_ALIGN_def INT_ALIGN_def LONG_ALIGN_def DOUBLE_ALIGN_def MAX_ALIGN_def
  TYPE_ALIGN_2 TYPE_ALIGN_4 TYPE_ALIGN_8 TYPE_ALIGN_16

lemma MAX_ALIGN_eq: "MAX_ALIGN n = (n + 15) div 16 * 16"
  by (simp add: align_simps)

lemma MAX_ALIGN_ge [simp]: "n \<le> MAX_ALIGN n"
  by (simp add: MAX_ALIGN_eq; arith)

lemma MAX_ALIGN_less: "MAX_ALIGN n < n + 16"
  by (simp add: MAX_ALIGN_eq; arith)

lemma MAX_ALIGN_dvd [simp]: "16 dvd MAX_ALIGN n"
  by (simp add: MAX_ALIGN_eq)

lemma MAX_ALIGN_mono: "m \<le> n \<Longrightarrow> MAX_ALIGN m \<le> MAX_ALIGN n"
  by (simp add: MAX_ALIGN_eq div_le_mono)

lemma MAX_ALIGN_id: "16 dvd n \<Longrightarrow> MAX_ALIGN n = n"
  by (auto simp: MAX_ALIGN_eq elim!: dvdE)

section \<open>Byte-addressed memory\<close>

text \<open>
  A region of memory (a page, a tuple) is a function from byte offsets to bytes. Words are
  stored in little-endian order, as on x86-64.
\<close>

type_synonym byte = "8 word"
type_synonym mem = "nat \<Rightarrow> byte"

definition get16 :: "mem \<Rightarrow> nat \<Rightarrow> 16 word" where
  "get16 m a = ucast (m a) OR push_bit 8 (ucast (m (a + 1)))"

definition put16 :: "mem \<Rightarrow> nat \<Rightarrow> 16 word \<Rightarrow> mem" where
  "put16 m a w = m(a := ucast w, a + 1 := ucast (drop_bit 8 w))"

definition get32 :: "mem \<Rightarrow> nat \<Rightarrow> 32 word" where
  "get32 m a = ucast (m a) OR push_bit 8 (ucast (m (a + 1)))
     OR push_bit 16 (ucast (m (a + 2))) OR push_bit 24 (ucast (m (a + 3)))"

definition put32 :: "mem \<Rightarrow> nat \<Rightarrow> 32 word \<Rightarrow> mem" where
  "put32 m a w = m(a := ucast w, a + 1 := ucast (drop_bit 8 w),
     a + 2 := ucast (drop_bit 16 w), a + 3 := ucast (drop_bit 24 w))"

text \<open>\<open>memmove(dst, src, n)\<close> and \<open>memcpy\<close> copy as if through a temporary.\<close>

definition memmove :: "mem \<Rightarrow> nat \<Rightarrow> nat \<Rightarrow> nat \<Rightarrow> mem" where
  "memmove m dst src n = (\<lambda>i. if dst \<le> i \<and> i < dst + n then m (src + (i - dst)) else m i)"

definition memcpy_list :: "mem \<Rightarrow> nat \<Rightarrow> byte list \<Rightarrow> mem" where
  "memcpy_list m dst bs =
     (\<lambda>i. if dst \<le> i \<and> i < dst + length bs then bs ! (i - dst) else m i)"

definition memset :: "mem \<Rightarrow> nat \<Rightarrow> byte \<Rightarrow> nat \<Rightarrow> mem" where
  "memset m dst v n = (\<lambda>i. if dst \<le> i \<and> i < dst + n then v else m i)"

definition bytes_at :: "mem \<Rightarrow> nat \<Rightarrow> nat \<Rightarrow> byte list" where
  "bytes_at m a n = map (\<lambda>i. m (a + i)) [0..<n]"

lemma bit_ucast_byte: "bit (ucast (b::byte) :: 'a::len word) n \<longleftrightarrow> n < LENGTH('a) \<and> n < 8 \<and> bit b n"
  by (auto simp: bit_simps dest: bit_imp_le_length)

lemma get16_put16 [mem_simps]: "get16 (put16 m a w) a = w"
  by (rule bit_word_eqI) (auto simp: get16_def put16_def bit_simps)

lemma get32_put32 [mem_simps]: "get32 (put32 m a w) a = w"
proof (rule bit_word_eqI)
  fix n assume n: "n < LENGTH(32)"
  then consider "n < 8" | "8 \<le> n" "n < 16" | "16 \<le> n" "n < 24" | "24 \<le> n"
    by linarith
  then show "bit (get32 (put32 m a w) a) n = bit w n"
    using n by cases (auto simp: get32_def put32_def bit_simps)
qed

lemma get16_cong: "m a = m' b \<Longrightarrow> m (a + 1) = m' (b + 1) \<Longrightarrow> get16 m a = get16 m' b"
  by (simp add: get16_def)

lemma get32_cong: "(\<And>i. i < 4 \<Longrightarrow> m (a + i) = m' (b + i)) \<Longrightarrow> get32 m a = get32 m' b"
proof -
  assume eq: "\<And>i. i < 4 \<Longrightarrow> m (a + i) = m' (b + i)"
  have "m (a + 0) = m' (b + 0)" "m (a + 1) = m' (b + 1)" "m (a + 2) = m' (b + 2)"
    "m (a + 3) = m' (b + 3)"
    by (rule eq, simp)+
  then show ?thesis by (simp add: get32_def)
qed

lemma put16_other [mem_simps]: "i < a \<or> a + 2 \<le> i \<Longrightarrow> put16 m a w i = m i"
  by (auto simp: put16_def)

lemma put32_other [mem_simps]: "i < a \<or> a + 4 \<le> i \<Longrightarrow> put32 m a w i = m i"
  by (auto simp: put32_def)

lemma get16_put16_other [mem_simps]:
  "b + 2 \<le> a \<or> a + 2 \<le> b \<Longrightarrow> get16 (put16 m a w) b = get16 m b"
  by (rule get16_cong) (auto simp: mem_simps)

lemma get16_put32_other [mem_simps]:
  "b + 2 \<le> a \<or> a + 4 \<le> b \<Longrightarrow> get16 (put32 m a w) b = get16 m b"
  by (rule get16_cong) (auto simp: mem_simps)

lemma get32_put16_other [mem_simps]:
  "b + 4 \<le> a \<or> a + 2 \<le> b \<Longrightarrow> get32 (put16 m a w) b = get32 m b"
  by (rule get32_cong) (auto simp: mem_simps)

lemma get32_put32_other [mem_simps]:
  "b + 4 \<le> a \<or> a + 4 \<le> b \<Longrightarrow> get32 (put32 m a w) b = get32 m b"
  by (rule get32_cong) (auto simp: mem_simps)

lemma memmove_in [mem_simps]:
  "dst \<le> i \<Longrightarrow> i < dst + n \<Longrightarrow> memmove m dst src n i = m (src + (i - dst))"
  by (simp add: memmove_def)

lemma memmove_out [mem_simps]: "i < dst \<or> dst + n \<le> i \<Longrightarrow> memmove m dst src n i = m i"
  by (auto simp: memmove_def)

lemma get16_memmove_out [mem_simps]:
  "b + 2 \<le> dst \<or> dst + n \<le> b \<Longrightarrow> get16 (memmove m dst src n) b = get16 m b"
  by (rule get16_cong) (auto simp: mem_simps)

lemma get32_memmove_out [mem_simps]:
  "b + 4 \<le> dst \<or> dst + n \<le> b \<Longrightarrow> get32 (memmove m dst src n) b = get32 m b"
  by (rule get32_cong) (auto simp: mem_simps)

lemma get32_memmove_in [mem_simps]:
  assumes "k + 4 \<le> n"
  shows "get32 (memmove m dst src n) (dst + k) = get32 m (src + k)"
proof (rule get32_cong)
  fix i :: nat assume "i < 4"
  with assms show "memmove m dst src n (dst + k + i) = m (src + k + i)"
    by (simp add: memmove_def add.assoc)
qed

lemma memcpy_list_out [mem_simps]:
  "i < dst \<or> dst + length bs \<le> i \<Longrightarrow> memcpy_list m dst bs i = m i"
  by (auto simp: memcpy_list_def)

lemma get16_memcpy_list_out [mem_simps]:
  "b + 2 \<le> dst \<or> dst + length bs \<le> b \<Longrightarrow> get16 (memcpy_list m dst bs) b = get16 m b"
  by (rule get16_cong) (auto simp: mem_simps)

lemma get32_memcpy_list_out [mem_simps]:
  "b + 4 \<le> dst \<or> dst + length bs \<le> b \<Longrightarrow> get32 (memcpy_list m dst bs) b = get32 m b"
  by (rule get32_cong) (auto simp: mem_simps)

lemma length_bytes_at [simp]: "length (bytes_at m a n) = n"
  by (simp add: bytes_at_def)

lemma nth_bytes_at [simp]: "i < n \<Longrightarrow> bytes_at m a n ! i = m (a + i)"
  by (simp add: bytes_at_def)

lemma bytes_at_eqI:
  "(\<And>i. i < n \<Longrightarrow> m (a + i) = m' (b + i)) \<Longrightarrow> bytes_at m a n = bytes_at m' b n"
  by (simp add: bytes_at_def)

lemma bytes_at_memcpy_list [mem_simps]: "bytes_at (memcpy_list m a bs) a (length bs) = bs"
  by (rule nth_equalityI) (auto simp: memcpy_list_def)

lemma bytes_at_memmove [mem_simps]: "bytes_at (memmove m dst src n) dst n = bytes_at m src n"
  by (rule bytes_at_eqI) (simp add: memmove_def)

lemma memset_in [mem_simps]: "dst \<le> i \<Longrightarrow> i < dst + n \<Longrightarrow> memset m dst v n i = v"
  by (simp add: memset_def)

lemma memset_out [mem_simps]: "i < dst \<or> dst + n \<le> i \<Longrightarrow> memset m dst v n i = m i"
  by (auto simp: memset_def)

end
