(* ===== verification/Ring.thy ===== *)
theory Ring
  imports Prelude
begin

text \<open>
  Circular doubly linked lists with a head element that is not itself a member. The same
  structure occurs three times in the back end: the shared-memory queues of
  \<^verbatim>\<open>storage/ipc/shmqueue.c\<close>, the free list of buffer descriptors of
  \<^verbatim>\<open>storage/buffer/freelist.c\<close> and the recency ring of virtual file descriptors of
  \<^verbatim>\<open>storage/file/fd.c\<close>. \<open>ring nxt prv h xs\<close> says that following \<open>nxt\<close> from \<open>h\<close> visits
  exactly \<open>xs\<close> and comes back to \<open>h\<close>, and that \<open>prv\<close> does the same backwards. The locale
  \<open>ring_ops\<close> states what a client needs of the two link-updating routines; its lemmas are
  proved once and each of the three components interprets it on its own routines.
\<close>

section \<open>Chains and rings\<close>

fun chain :: "('a \<Rightarrow> 'a) \<Rightarrow> 'a \<Rightarrow> 'a list \<Rightarrow> 'a \<Rightarrow> bool" where
  "chain f a [] b = (f a = b)"
| "chain f a (x # xs) b = (f a = x \<and> chain f x xs b)"

definition ring :: "('a \<Rightarrow> 'a) \<Rightarrow> ('a \<Rightarrow> 'a) \<Rightarrow> 'a \<Rightarrow> 'a list \<Rightarrow> bool" where
  "ring nxt prv h xs \<longleftrightarrow>
     distinct (h # xs) \<and> chain nxt h xs h \<and> chain prv h (rev xs) h"

lemma chain_append [simp]: "chain f a (xs @ y # ys) b \<longleftrightarrow> chain f a xs y \<and> chain f y ys b"
  by (induction xs arbitrary: a) auto

lemma chain_cong:
  "(\<And>x. x \<in> set (a # xs) \<Longrightarrow> f x = g x) \<Longrightarrow> chain f a xs b = chain g a xs b"
  by (induction xs arbitrary: a) auto

lemma chain_upd: "u \<notin> set (a # xs) \<Longrightarrow> chain (f(u := v)) a xs b = chain f a xs b"
  by (rule chain_cong) auto

lemma chain_redirect:
  "chain f a xs b \<Longrightarrow> distinct (a # xs) \<Longrightarrow> chain (f(last (a # xs) := c)) a xs c"
proof (induction xs arbitrary: a)
  case Nil
  then show ?case by simp
next
  case (Cons x xs)
  then have "chain (f(last (x # xs) := c)) x xs c" by (intro Cons.IH) auto
  moreover have "last (x # xs) \<noteq> a"
    using Cons.prems(2) last_in_set [of "x # xs"] by (auto simp del: last.simps)
  ultimately show ?case using Cons.prems by (cases "xs = []") (auto simp: fun_upd_def)
qed

lemma chain_last: "chain f a xs b \<Longrightarrow> f (last (a # xs)) = b"
  by (induction xs arbitrary: a) auto

lemma chain_hd: "chain f a xs b \<Longrightarrow> f a = hd (xs @ [b])"
  by (cases xs) auto

lemma ring_Nil [simp]: "ring nxt prv h [] \<longleftrightarrow> nxt h = h \<and> prv h = h"
  by (auto simp: ring_def)

lemma ring_nxt_head: "ring nxt prv h xs \<Longrightarrow> nxt h = hd (xs @ [h])"
  by (auto simp: ring_def dest: chain_hd)

lemma ring_prv_head: "ring nxt prv h xs \<Longrightarrow> prv h = last (h # xs)"
  by (auto simp: ring_def hd_append hd_rev dest!: chain_hd)

lemma ring_nxt_member:
  "ring nxt prv h (ys @ e # zs) \<Longrightarrow> nxt e = hd (zs @ [h])"
  by (auto simp: ring_def dest: chain_hd)

lemma ring_prv_member:
  "ring nxt prv h (ys @ e # zs) \<Longrightarrow> prv e = last (h # ys)"
  by (auto simp: ring_def hd_append hd_rev dest!: chain_hd)

lemma ring_cong:
  assumes "\<And>x. x \<in> set (h # xs) \<Longrightarrow> nxt x = nxt' x" and "\<And>x. x \<in> set (h # xs) \<Longrightarrow> prv x = prv' x"
  shows "ring nxt prv h xs = ring nxt' prv' h xs"
  using chain_cong [of h xs nxt nxt' h] chain_cong [of h "rev xs" prv prv' h] assms
  by (simp add: ring_def)

lemma ring_unique: "ring nxt prv h xs \<Longrightarrow> ring nxt prv h ys \<Longrightarrow> xs = ys"
proof -
  have *: "chain nxt a xs h \<Longrightarrow> chain nxt a ys h \<Longrightarrow> h \<notin> set xs \<Longrightarrow> h \<notin> set ys \<Longrightarrow> xs = ys" for a
  proof (induction xs arbitrary: a ys)
    case Nil
    then show ?case by (cases ys) auto
  next
    case (Cons x xs)
    then show ?case by (cases ys) auto
  qed
  show "ring nxt prv h xs \<Longrightarrow> ring nxt prv h ys \<Longrightarrow> xs = ys"
    by (auto simp: ring_def intro: *)
qed

text \<open>An empty ring is one whose head points to itself, in either direction.\<close>

lemma ring_empty_iff: "ring nxt prv h xs \<Longrightarrow> prv h = h \<longleftrightarrow> xs = []"
  by (cases xs rule: rev_cases) (auto simp: ring_def)

lemma ring_empty_iff_nxt: "ring nxt prv h xs \<Longrightarrow> nxt h = h \<longleftrightarrow> xs = []"
  by (cases xs) (auto simp: ring_def)

text \<open>Insertion at the tail, that is, before the head.\<close>

lemma ring_insert_tail:
  assumes r: "ring nxt prv h xs" and e: "e \<notin> set (h # xs)"
  shows "ring (nxt(prv h := e, e := h)) (prv(e := prv h, h := e)) h (xs @ [e])"
proof -
  let ?p = "prv h"
  from r have p: "?p = last (h # xs)" by (rule ring_prv_head)
  then have pe: "?p \<noteq> e" using e last_in_set [of "h # xs"] by (auto simp del: last.simps)
  have "chain (nxt(?p := e)) h xs e"
    using r p chain_redirect [of nxt h xs h e] by (simp add: ring_def)
  then have n: "chain (nxt(?p := e, e := h)) h (xs @ [e]) h"
    using e chain_upd [of e h xs "nxt(?p := e)" h e] by simp
  have "chain prv h (rev xs) h" using r by (simp add: ring_def)
  then have "chain (prv(e := ?p, h := e)) e (rev xs) h"
    using e r by (cases "rev xs") (auto simp: ring_def chain_upd)
  then have q: "chain (prv(e := ?p, h := e)) h (rev (xs @ [e])) h" by simp
  show ?thesis using r e n q by (auto simp: ring_def)
qed

text \<open>Removal of a member.\<close>

lemma ring_delete:
  assumes r: "ring nxt prv h (ys @ e # zs)"
  shows "ring (nxt(prv e := nxt e)) (prv(nxt e := prv e)) h (ys @ zs)"
proof -
  have d: "distinct (h # ys @ e # zs)" and c: "chain nxt h ys e" "chain nxt e zs h"
    and c': "chain prv h (rev zs) e" "chain prv e (rev ys) h"
    using r by (auto simp: ring_def)
  have p: "prv e = last (h # ys)" using r by (rule ring_prv_member)
  have n: "nxt e = hd (zs @ [h])" using r by (rule ring_nxt_member)
  have n': "nxt e = last (h # rev zs)" using n by (cases zs) auto
  have "chain (nxt(prv e := nxt e)) h ys (nxt e)"
    using c(1) d unfolding p by (intro chain_redirect) auto
  moreover have "prv e \<notin> set zs"
    unfolding p using d by (auto simp del: last.simps dest: last_in_set split: if_splits)
      (metis Un_iff disjoint_iff last.simps last_in_set list.set_intros(1,2) set_ConsD)
  ultimately have 1: "chain (nxt(prv e := nxt e)) h (ys @ zs) h"
    using c(2) n by (cases zs) (auto simp: chain_upd)
  have "chain (prv(nxt e := prv e)) h (rev zs) (prv e)"
    using c'(1) d unfolding n' by (intro chain_redirect) auto
  moreover have "nxt e \<notin> set ys"
    using d n by (cases zs) auto
  moreover have "prv e = hd (rev ys @ [h])" using c'(2) by (rule chain_hd)
  ultimately have 2: "chain (prv(nxt e := prv e)) h (rev (ys @ zs)) h"
    using c'(2) by (cases "rev ys") (auto simp: chain_upd)
  show ?thesis using 1 2 d by (simp add: ring_def)
qed

text \<open>Any member of a ring can play the part of the head.\<close>

lemma ring_rotate: "ring nxt prv h (ys @ q # zs) \<longleftrightarrow> ring nxt prv q (zs @ h # ys)"
  by (auto simp: ring_def)

section \<open>The interface of the link-updating routines\<close>

text \<open>
  \<open>nxt\<close> and \<open>prv\<close> read the links of the store; \<open>ins s h e\<close> links \<open>e\<close> in before the head
  \<open>h\<close>; \<open>del s e\<close> unlinks \<open>e\<close>. \<open>ok s x\<close> says that \<open>x\<close> is an element the store holds.
  The laws fix the links of all elements after the two routines, on rings of valid elements;
  the links of a removed element itself are left open.
\<close>

locale ring_ops =
  fixes nxt :: "'s \<Rightarrow> 'a \<Rightarrow> 'a" and prv :: "'s \<Rightarrow> 'a \<Rightarrow> 'a"
    and ok :: "'s \<Rightarrow> 'a \<Rightarrow> bool"
    and ins :: "'s \<Rightarrow> 'a \<Rightarrow> 'a \<Rightarrow> 's" and del :: "'s \<Rightarrow> 'a \<Rightarrow> 's"
  assumes nxt_ins: "ok s h \<Longrightarrow> ok s e \<Longrightarrow> ok s (prv s h) \<Longrightarrow> e \<noteq> h \<Longrightarrow> prv s h \<noteq> e \<Longrightarrow>
      nxt s (prv s h) = h \<Longrightarrow> ok s x \<Longrightarrow>
      nxt (ins s h e) x = (if x = e then h else if x = prv s h then e else nxt s x)"
    and prv_ins: "ok s h \<Longrightarrow> ok s e \<Longrightarrow> ok s (prv s h) \<Longrightarrow> e \<noteq> h \<Longrightarrow> prv s h \<noteq> e \<Longrightarrow>
      nxt s (prv s h) = h \<Longrightarrow> ok s x \<Longrightarrow>
      prv (ins s h e) x = (if x = e then prv s h else if x = h then e else prv s x)"
    and nxt_del: "ok s e \<Longrightarrow> ok s (nxt s e) \<Longrightarrow> ok s (prv s e) \<Longrightarrow> nxt s e \<noteq> e \<Longrightarrow> prv s e \<noteq> e \<Longrightarrow>
      ok s x \<Longrightarrow> x \<noteq> e \<Longrightarrow> nxt (del s e) x = (if x = prv s e then nxt s e else nxt s x)"
    and prv_del: "ok s e \<Longrightarrow> ok s (nxt s e) \<Longrightarrow> ok s (prv s e) \<Longrightarrow> nxt s e \<noteq> e \<Longrightarrow> prv s e \<noteq> e \<Longrightarrow>
      ok s x \<Longrightarrow> x \<noteq> e \<Longrightarrow> prv (del s e) x = (if x = nxt s e then prv s e else prv s x)"
    and ok_ins: "ok s h \<Longrightarrow> ok s e \<Longrightarrow> ok s (prv s h) \<Longrightarrow> e \<noteq> h \<Longrightarrow> prv s h \<noteq> e \<Longrightarrow>
      nxt s (prv s h) = h \<Longrightarrow> ok (ins s h e) x = ok s x"
    and ok_del: "ok s e \<Longrightarrow> ok s (nxt s e) \<Longrightarrow> ok s (prv s e) \<Longrightarrow> nxt s e \<noteq> e \<Longrightarrow> prv s e \<noteq> e \<Longrightarrow>
      ok (del s e) x = ok s x"
begin

definition ring_of :: "'s \<Rightarrow> 'a \<Rightarrow> 'a list \<Rightarrow> bool" where
  "ring_of s h xs \<longleftrightarrow> ring (nxt s) (prv s) h xs \<and> (\<forall>x \<in> set (h # xs). ok s x)"

lemma ins_pre:
  assumes r: "ring_of s h xs" and e: "e \<notin> set (h # xs)" "ok s e"
  shows "ok s h" "ok s e" "ok s (prv s h)" "e \<noteq> h" "prv s h \<noteq> e" "nxt s (prv s h) = h"
proof -
  have rg: "ring (nxt s) (prv s) h xs" and ok: "\<forall>x \<in> set (h # xs). ok s x"
    using r by (auto simp: ring_of_def)
  have p: "prv s h = last (h # xs)" using rg by (rule ring_prv_head)
  then have pin: "prv s h \<in> set (h # xs)" using last_in_set [of "h # xs"] by simp
  show "nxt s (prv s h) = h" using rg p by (auto simp: ring_def dest: chain_last)
  show "ok s h" "ok s e" "ok s (prv s h)" "e \<noteq> h" "prv s h \<noteq> e"
    using ok pin e by auto
qed

lemma del_pre:
  assumes r: "ring_of s h (ys @ e # zs)"
  shows "ok s e" "ok s (nxt s e)" "ok s (prv s e)" "nxt s e \<noteq> e" "prv s e \<noteq> e"
proof -
  have rg: "ring (nxt s) (prv s) h (ys @ e # zs)"
    and ok: "\<forall>x \<in> set (h # ys @ e # zs). ok s x"
    using r by (auto simp: ring_of_def)
  have d: "distinct (h # ys @ e # zs)" using rg by (simp add: ring_def)
  have nin: "nxt s e \<in> set (h # zs)" using ring_nxt_member [OF rg] by (cases zs) auto
  have pin: "prv s e \<in> set (h # ys)"
    using ring_prv_member [OF rg] last_in_set [of "h # ys"] by simp
  show "ok s e" "ok s (nxt s e)" "ok s (prv s e)" "nxt s e \<noteq> e" "prv s e \<noteq> e"
    using ok nin pin d by auto
qed

lemma ring_of_insert:
  assumes r: "ring_of s h xs" and e: "e \<notin> set (h # xs)" "ok s e"
  shows "ring_of (ins s h e) h (xs @ [e])"
proof -
  have rg: "ring (nxt s) (prv s) h xs" and ok: "\<forall>x \<in> set (h # xs). ok s x"
    using r by (auto simp: ring_of_def)
  note pre = ins_pre [OF r e]
  have okx: "ok s x" if "x \<in> set (h # xs @ [e])" for x using ok e(2) that by auto
  have "ring (nxt (ins s h e)) (prv (ins s h e)) h (xs @ [e]) =
      ring ((nxt s)(prv s h := e, e := h)) ((prv s)(e := prv s h, h := e)) h (xs @ [e])"
    using pre(4) by (intro ring_cong) (simp_all add: nxt_ins [OF pre okx] prv_ins [OF pre okx])
  then show ?thesis
    using ring_insert_tail [OF rg e(1)] ok e by (auto simp: ring_of_def ok_ins [OF pre])
qed

lemma ring_of_rotate: "ring_of s h (ys @ q # zs) \<longleftrightarrow> ring_of s q (zs @ h # ys)"
  by (auto simp: ring_of_def ring_rotate [of "nxt s" "prv s" h])

lemma ring_of_insert_before:
  assumes r: "ring_of s h (ys @ q # zs)" and e: "e \<notin> set (h # ys @ q # zs)" "ok s e"
  shows "ring_of (ins s q e) h (ys @ e # q # zs)"
proof -
  have "ring_of (ins s q e) q ((zs @ h # ys) @ [e])"
    using r e by (intro ring_of_insert) (auto simp: ring_of_rotate [of s h])
  then have "ring_of (ins s q e) q (zs @ h # (ys @ [e]))" by simp
  then have "ring_of (ins s q e) h ((ys @ [e]) @ q # zs)" by (simp only: ring_of_rotate [of _ q])
  then show ?thesis by simp
qed

lemma ring_of_delete:
  assumes r: "ring_of s h (ys @ e # zs)"
  shows "ring_of (del s e) h (ys @ zs)"
proof -
  have rg: "ring (nxt s) (prv s) h (ys @ e # zs)"
    and ok: "\<forall>x \<in> set (h # ys @ e # zs). ok s x"
    using r by (auto simp: ring_of_def)
  have d: "distinct (h # ys @ e # zs)" using rg by (simp add: ring_def)
  note pre = del_pre [OF r]
  have okx: "ok s x" "x \<noteq> e" if "x \<in> set (h # ys @ zs)" for x using ok d that by auto
  have "ring (nxt (del s e)) (prv (del s e)) h (ys @ zs) =
      ring ((nxt s)(prv s e := nxt s e)) ((prv s)(nxt s e := prv s e)) h (ys @ zs)"
    by (intro ring_cong) (simp_all add: nxt_del [OF pre okx] prv_del [OF pre okx])
  then show ?thesis
    using ring_delete [OF rg] ok by (auto simp: ring_of_def ok_del [OF pre])
qed

lemma ring_of_delete_first: "ring_of s h (e # zs) \<Longrightarrow> ring_of (del s e) h zs"
  using ring_of_delete [of s h "[]" e zs] by simp

lemma ring_of_remove1:
  assumes "ring_of s h xs" and "e \<in> set xs"
  shows "ring_of (del s e) h (remove1 e xs)"
proof -
  from assms(2) obtain ys zs where xs: "xs = ys @ e # zs" and "e \<notin> set ys"
    by (meson split_list_first)
  then have "remove1 e xs = ys @ zs" by (simp add: remove1_append)
  with assms(1) xs show ?thesis by (simp add: ring_of_delete)
qed

text \<open>Unlinking a member and linking it in again moves it to the tail.\<close>

lemma ring_of_move_to_tail:
  assumes r: "ring_of s h (ys @ e # zs)"
  shows "ring_of (ins (del s e) h e) h (ys @ zs @ [e])"
proof -
  have d: "distinct (h # ys @ e # zs)" and ok: "ok s e"
    using r by (auto simp: ring_of_def ring_def)
  have "ring_of (ins (del s e) h e) h ((ys @ zs) @ [e])"
    using ring_of_delete [OF r] d ok
    by (intro ring_of_insert) (auto simp: ok_del [OF del_pre [OF r]])
  then show ?thesis by simp
qed

end

end
