(* ===== verification/ShmQueue.thy ===== *)
theory ShmQueue
  imports Ring
begin

text \<open>
  Doubly linked queues in shared memory, \<^verbatim>\<open>storage/ipc/shmqueue.c\<close>. Links are offsets from
  \<open>ShmemBase\<close> (macros \<open>MAKE_PTR\<close>, \<open>MAKE_OFFSET\<close>, \<open>SHM_PTR_VALID\<close> of \<^verbatim>\<open>shmem.h\<close>), so the
  arithmetic is that of 64-bit words. The store maps addresses to the \<open>ShmemQueue\<close> structs that
  lie there. The routines interpret \<open>ring_ops\<close>; the debug routine \<open>dumpq\<close> (printing only) is
  left out.
\<close>

record ShmemQueue =
  sq_prev :: "64 word"
  sq_next :: "64 word"

record shm =
  ShmemBase :: "64 word"
  queues :: "64 word \<Rightarrow> ShmemQueue"

definition INVALID_OFFSET :: "64 word" where
  "INVALID_OFFSET = - 1"

definition MAKE_PTR :: "shm \<Rightarrow> 64 word \<Rightarrow> 64 word" where
  "MAKE_PTR s offs = ShmemBase s + offs"

definition MAKE_OFFSET :: "shm \<Rightarrow> 64 word \<Rightarrow> 64 word" where
  "MAKE_OFFSET s ptr = ptr - ShmemBase s"

definition SHM_PTR_VALID :: "shm \<Rightarrow> 64 word \<Rightarrow> bool" where
  "SHM_PTR_VALID s ptr \<longleftrightarrow> ShmemBase s < ptr"

definition set_prev :: "shm \<Rightarrow> 64 word \<Rightarrow> 64 word \<Rightarrow> shm" where
  "set_prev s p v = s\<lparr>queues := (queues s)(p := (queues s p)\<lparr>sq_prev := v\<rparr>)\<rparr>"

definition set_next :: "shm \<Rightarrow> 64 word \<Rightarrow> 64 word \<Rightarrow> shm" where
  "set_next s p v = s\<lparr>queues := (queues s)(p := (queues s p)\<lparr>sq_next := v\<rparr>)\<rparr>"

definition shm_queue_init :: "shm \<Rightarrow> 64 word \<Rightarrow> shm cres" where
  "shm_queue_init s queue = c_assert (SHM_PTR_VALID s queue)
     (Inr (set_prev (set_next s queue (MAKE_OFFSET s queue)) queue (MAKE_OFFSET s queue)))"

definition shm_queue_elem_init :: "shm \<Rightarrow> 64 word \<Rightarrow> shm cres" where
  "shm_queue_elem_init s queue = c_assert (SHM_PTR_VALID s queue)
     (Inr (set_prev (set_next s queue INVALID_OFFSET) queue INVALID_OFFSET))"

definition shm_queue_delete :: "shm \<Rightarrow> 64 word \<Rightarrow> shm cres" where
  "shm_queue_delete s queue =
     (let next_elem = MAKE_PTR s (sq_next (queues s queue));
          prev_elem = MAKE_PTR s (sq_prev (queues s queue))
      in c_assert (SHM_PTR_VALID s queue) (c_assert (SHM_PTR_VALID s next_elem)
         (c_assert (SHM_PTR_VALID s prev_elem)
           (let s1 = set_next s prev_elem (sq_next (queues s queue));
                s2 = set_prev s1 next_elem (sq_prev (queues s1 queue));
                s3 = set_next s2 queue INVALID_OFFSET
            in Inr (set_prev s3 queue INVALID_OFFSET)))))"

definition shm_queue_insert_before :: "shm \<Rightarrow> 64 word \<Rightarrow> 64 word \<Rightarrow> shm cres" where
  "shm_queue_insert_before s queue elem =
     (let prev_ptr = MAKE_PTR s (sq_prev (queues s queue));
          elem_offset = MAKE_OFFSET s elem
      in c_assert (SHM_PTR_VALID s queue) (c_assert (SHM_PTR_VALID s elem)
           (let s1 = set_next s elem (sq_next (queues s prev_ptr));
                s2 = set_prev s1 elem (sq_prev (queues s1 queue));
                s3 = set_prev s2 queue elem_offset
            in Inr (set_next s3 prev_ptr elem_offset))))"

text \<open>The record that embeds the next link, or NULL (0) when back at the head.\<close>

definition shm_queue_next :: "shm \<Rightarrow> 64 word \<Rightarrow> 64 word \<Rightarrow> 64 word \<Rightarrow> 64 word cres" where
  "shm_queue_next s queue cur_elem link_offset =
     (let elem_ptr = MAKE_PTR s (sq_next (queues s cur_elem))
      in c_assert (SHM_PTR_VALID s cur_elem)
           (if elem_ptr = queue then Inr 0 else Inr (elem_ptr - link_offset)))"

definition shm_queue_empty :: "shm \<Rightarrow> 64 word \<Rightarrow> bool cres" where
  "shm_queue_empty s queue = c_assert (SHM_PTR_VALID s queue)
     (if sq_prev (queues s queue) = MAKE_OFFSET s queue
      then c_assert (sq_next (queues s queue) = MAKE_OFFSET s queue) (Inr True)
      else Inr False)"

section \<open>The queue as a ring\<close>

definition q_nxt :: "shm \<Rightarrow> 64 word \<Rightarrow> 64 word" where
  "q_nxt s p = MAKE_PTR s (sq_next (queues s p))"

definition q_prv :: "shm \<Rightarrow> 64 word \<Rightarrow> 64 word" where
  "q_prv s p = MAKE_PTR s (sq_prev (queues s p))"

definition q_ins :: "shm \<Rightarrow> 64 word \<Rightarrow> 64 word \<Rightarrow> shm" where
  "q_ins s q e = (case shm_queue_insert_before s q e of Inl _ \<Rightarrow> s | Inr s' \<Rightarrow> s')"

definition q_del :: "shm \<Rightarrow> 64 word \<Rightarrow> shm" where
  "q_del s e = (case shm_queue_delete s e of Inl _ \<Rightarrow> s | Inr s' \<Rightarrow> s')"

text \<open>\<open>shm_queue s q xs\<close>: the queue with head \<open>q\<close> holds exactly the elements \<open>xs\<close>, in order.\<close>

definition shm_queue :: "shm \<Rightarrow> 64 word \<Rightarrow> 64 word list \<Rightarrow> bool" where
  "shm_queue s q xs \<longleftrightarrow> ring (q_nxt s) (q_prv s) q xs \<and> (\<forall>x \<in> set (q # xs). SHM_PTR_VALID s x)"

lemmas shm_defs = set_prev_def set_next_def MAKE_PTR_def MAKE_OFFSET_def SHM_PTR_VALID_def

lemmas q_defs = q_nxt_def q_prv_def q_ins_def q_del_def shm_queue_insert_before_def
  shm_queue_delete_def shm_defs

lemma q_ins_Inr:
  "SHM_PTR_VALID s q \<Longrightarrow> SHM_PTR_VALID s e \<Longrightarrow> shm_queue_insert_before s q e = Inr (q_ins s q e)"
  by (simp add: q_ins_def shm_queue_insert_before_def Let_def)

lemma q_del_Inr:
  "SHM_PTR_VALID s e \<Longrightarrow> SHM_PTR_VALID s (q_nxt s e) \<Longrightarrow> SHM_PTR_VALID s (q_prv s e) \<Longrightarrow>
   shm_queue_delete s e = Inr (q_del s e)"
  by (simp add: q_del_def shm_queue_delete_def Let_def q_nxt_def q_prv_def)

interpretation shmq: ring_ops q_nxt q_prv SHM_PTR_VALID q_ins q_del
proof
  fix s :: shm and h e x :: "64 word"
  assume "SHM_PTR_VALID s h" "SHM_PTR_VALID s e" "SHM_PTR_VALID s (q_prv s h)" "e \<noteq> h"
    "q_prv s h \<noteq> e" "q_nxt s (q_prv s h) = h" "SHM_PTR_VALID s x"
  then show "q_nxt (q_ins s h e) x = (if x = e then h else if x = q_prv s h then e else q_nxt s x)"
    and "q_prv (q_ins s h e) x = (if x = e then q_prv s h else if x = h then e else q_prv s x)"
    by (auto simp: q_defs Let_def)
next
  fix s :: shm and e x :: "64 word"
  assume "SHM_PTR_VALID s e" "SHM_PTR_VALID s (q_nxt s e)" "SHM_PTR_VALID s (q_prv s e)"
    "q_nxt s e \<noteq> e" "q_prv s e \<noteq> e" "SHM_PTR_VALID s x" "x \<noteq> e"
  then show "q_nxt (q_del s e) x = (if x = q_prv s e then q_nxt s e else q_nxt s x)"
    and "q_prv (q_del s e) x = (if x = q_nxt s e then q_prv s e else q_prv s x)"
    by (auto simp: q_defs Let_def)
next
  fix s :: shm and h e x :: "64 word"
  show "SHM_PTR_VALID (q_ins s h e) x = SHM_PTR_VALID s x"
    by (auto simp: q_defs Let_def c_assert_def)
  show "SHM_PTR_VALID (q_del s e) x = SHM_PTR_VALID s x"
    by (auto simp: q_defs Let_def c_assert_def)
qed

lemma shm_queue_ring_of: "shm_queue s q xs \<longleftrightarrow> shmq.ring_of s q xs"
  by (simp add: shm_queue_def shmq.ring_of_def)

lemma shm_queue_init_empty:
  assumes "SHM_PTR_VALID s q"
  shows "\<exists>s'. shm_queue_init s q = Inr s' \<and> shm_queue s' q []"
  using assms by (simp add: shm_queue_init_def shm_queue_def q_nxt_def q_prv_def shm_defs)

lemma MAKE_PTR_OFFSET [simp]: "MAKE_PTR s (MAKE_OFFSET s p) = p"
  by (simp add: MAKE_PTR_def MAKE_OFFSET_def)

lemma MAKE_OFFSET_eq_iff: "v = MAKE_OFFSET s p \<longleftrightarrow> MAKE_PTR s v = p"
  by (auto simp: MAKE_PTR_def MAKE_OFFSET_def)

lemma shm_queue_delete_clears:
  assumes "shm_queue_delete s e = Inr s'"
  shows "sq_next (queues s' e) = INVALID_OFFSET" and "sq_prev (queues s' e) = INVALID_OFFSET"
proof -
  from assms obtain s3 where "s' = set_prev (set_next s3 e INVALID_OFFSET) e INVALID_OFFSET"
    by (simp add: shm_queue_delete_def Let_def c_assert_eq_Inr) blast
  then show "sq_next (queues s' e) = INVALID_OFFSET" and "sq_prev (queues s' e) = INVALID_OFFSET"
    by (simp_all add: set_prev_def set_next_def)
qed

text \<open>A queue of two elements, used to apply the properties below to concrete data.\<close>

definition shm_example :: shm where
  "shm_example = \<lparr>ShmemBase = 8, queues = (\<lambda>_. \<lparr>sq_prev = 0, sq_next = 0\<rparr>)
     (16 := \<lparr>sq_prev = 40, sq_next = 24\<rparr>, 32 := \<lparr>sq_prev = 8, sq_next = 40\<rparr>,
      48 := \<lparr>sq_prev = 24, sq_next = 8\<rparr>)\<rparr>"

lemma shm_example_queue: "shm_queue shm_example 16 [32, 48]"
  by (simp add: shm_queue_def ring_def q_nxt_def q_prv_def shm_defs shm_example_def)

section \<open>Properties\<close>

text \<open>
  C40. \<open>shm_queue_insert_before\<close> implements insertion into a sequence: inserting \<open>e\<close> before the
  first element of \<open>zs\<close>, or before the queue head when \<open>zs\<close> is empty, turns the queue
  \<open>ys @ zs\<close> into \<open>ys @ e # zs\<close>; no assertion fails. In particular, inserting before the head
  puts the element at the tail, as the comment on the routine says.
\<close>

theorem shm_queue_insert_before_correct:
  assumes "shm_queue s q (ys @ zs)" and "e \<notin> set (q # ys @ zs)" and "SHM_PTR_VALID s e"
  shows "\<exists>s'. shm_queue_insert_before s (hd (zs @ [q])) e = Inr s' \<and> shm_queue s' q (ys @ e # zs)"
proof (cases zs)
  case Nil
  with assms have "shmq.ring_of (q_ins s q e) q (ys @ [e])"
    by (intro shmq.ring_of_insert) (auto simp: shm_queue_ring_of)
  moreover have "SHM_PTR_VALID s q" using assms by (simp add: shm_queue_def)
  ultimately show ?thesis using Nil assms(3) by (simp add: q_ins_Inr shm_queue_ring_of)
next
  case (Cons z zs')
  with assms have "shmq.ring_of (q_ins s z e) q (ys @ e # z # zs')"
    by (intro shmq.ring_of_insert_before) (auto simp: shm_queue_ring_of)
  moreover have "SHM_PTR_VALID s z" using assms Cons by (simp add: shm_queue_def)
  ultimately show ?thesis using Cons assms(3) by (simp add: q_ins_Inr shm_queue_ring_of)
qed

theorem shm_queue_insert_before_correct_witness:
  "\<exists>s'. shm_queue_insert_before shm_example 48 64 = Inr s' \<and> shm_queue s' 16 [32, 64, 48]"
  using shm_queue_insert_before_correct [of shm_example 16 "[32]" "[48]" 64] shm_example_queue
  by (simp add: SHM_PTR_VALID_def shm_example_def)

text \<open>
  \<open>shm_queue_delete\<close> removes exactly the given element from its queue, keeps the order of the
  others, fails no assertion, and leaves the element with cleared links.
\<close>

theorem shm_queue_delete_correct:
  assumes "shm_queue s q (ys @ e # zs)"
  shows "\<exists>s'. shm_queue_delete s e = Inr s' \<and> shm_queue s' q (ys @ zs) \<and>
    sq_next (queues s' e) = INVALID_OFFSET \<and> sq_prev (queues s' e) = INVALID_OFFSET"
proof -
  have r: "ring (q_nxt s) (q_prv s) q (ys @ e # zs)"
    and ok: "\<forall>x \<in> set (q # ys @ e # zs). SHM_PTR_VALID s x"
    using assms by (auto simp: shm_queue_def)
  have "q_nxt s e \<in> set (q # zs)" using ring_nxt_member [OF r] by (cases zs) auto
  moreover have "q_prv s e \<in> set (q # ys)"
    using ring_prv_member [OF r] last_in_set [of "q # ys"] by simp
  ultimately have del: "shm_queue_delete s e = Inr (q_del s e)"
    using ok by (intro q_del_Inr) auto
  have "shm_queue (q_del s e) q (ys @ zs)"
    using assms by (simp add: shm_queue_ring_of shmq.ring_of_delete)
  moreover have "sq_next (queues (q_del s e) e) = INVALID_OFFSET"
    "sq_prev (queues (q_del s e) e) = INVALID_OFFSET"
    using shm_queue_delete_clears [OF del] by simp_all
  ultimately show ?thesis using del by blast
qed

theorem shm_queue_delete_correct_witness:
  "\<exists>s'. shm_queue_delete shm_example 32 = Inr s' \<and> shm_queue s' 16 [48]"
  using shm_queue_delete_correct [of shm_example 16 "[]" 32 "[48]"] shm_example_queue by auto

text \<open>
  Iteration and emptiness: from the head, or from any element, \<open>shm_queue_next\<close> yields the
  following element (less the offset of the link in its record) and NULL exactly at the end of
  the queue, and \<open>shm_queue_empty\<close> decides emptiness without failing its assertion.
\<close>

theorem shm_queue_next_empty_correct:
  assumes "shm_queue s q xs" and "q # xs = ys @ c # zs"
  shows "shm_queue_next s q c off = Inr (case zs of [] \<Rightarrow> 0 | z # _ \<Rightarrow> z - off) \<and>
    shm_queue_empty s q = Inr (xs = [])"
proof
  have r: "ring (q_nxt s) (q_prv s) q xs" and ok: "\<forall>x \<in> set (q # xs). SHM_PTR_VALID s x"
    using assms by (auto simp: shm_queue_def)
  have n: "q_nxt s c = hd (zs @ [q])"
    using ring_nxt_head [OF r] ring_nxt_member [of "q_nxt s" "q_prv s" q "tl ys" c zs] r assms(2)
    by (cases ys) auto
  have "q \<notin> set zs" and "SHM_PTR_VALID s c"
    using r ok assms(2) by (cases ys; auto simp: ring_def)+
  then show "shm_queue_next s q c off = Inr (case zs of [] \<Rightarrow> 0 | z # _ \<Rightarrow> z - off)"
    using n by (cases zs) (auto simp: shm_queue_next_def q_nxt_def [symmetric])
  show "shm_queue_empty s q = Inr (xs = [])"
    using ok ring_empty_iff [OF r] ring_empty_iff_nxt [OF r]
    by (auto simp: shm_queue_empty_def MAKE_OFFSET_eq_iff q_nxt_def [symmetric] q_prv_def [symmetric])
qed

theorem shm_queue_next_empty_correct_witness:
  "shm_queue_next shm_example 16 32 4 = Inr 44 \<and> shm_queue_empty shm_example 16 = Inr False"
  using shm_queue_next_empty_correct [of shm_example 16 "[32, 48]" "[16]" 32 "[48]" 4]
    shm_example_queue by simp

end
