(* ===== verification/BufFreelist.thy ===== *)
theory BufFreelist
  imports Ring
begin

text \<open>
  The replacement free list of the shared buffer pool: \<^verbatim>\<open>storage/buffer/freelist.c\<close>, the
  descriptor set-up of \<open>init_buffer_pool\<close> in \<^verbatim>\<open>storage/buffer/buf_init.c\<close>, and the descriptor
  struct of \<^verbatim>\<open>buf_internals.h\<close>. Descriptors are an array; the free list is threaded through it
  by array indices, with one extra descriptor, \<open>Free_List_Descriptor\<close>, as the head. A descriptor
  pointer \<open>buf_desc\<close> of the source is the index of the descriptor it points to. An index outside
  the array is \<open>Bad_pointer\<close>. The locks that callers hold and the trace hooks are not modelled.
\<close>

section \<open>Descriptors\<close>

record BufferTag =
  tbl_node :: "32 word"
  rel_node :: "32 word"
  block_num :: "32 word"

record BufferDesc =
  free_next :: int
  free_prev :: int
  data :: "64 word"
  tag :: BufferTag
  buf_id :: int
  flags :: "16 word"
  refcount :: "32 word"

record bufpool =
  BufferDescriptors :: "BufferDesc list"
  Free_List_Descriptor :: int
  PrivateRefCount :: "int list"

definition INVALID_DESCRIPTOR :: int where "INVALID_DESCRIPTOR = - 3"

definition BM_VALID :: "16 word" where "BM_VALID = push_bit 2 1"
definition BM_DELETED :: "16 word" where "BM_DELETED = push_bit 3 1"
definition BM_FREE :: "16 word" where "BM_FREE = push_bit 4 1"

definition bd_at :: "bufpool \<Rightarrow> int \<Rightarrow> BufferDesc" where
  "bd_at s i = BufferDescriptors s ! nat i"

definition bd_in :: "bufpool \<Rightarrow> int \<Rightarrow> bool" where
  "bd_in s i \<longleftrightarrow> 0 \<le> i \<and> nat i < length (BufferDescriptors s)"

definition bd_upd :: "bufpool \<Rightarrow> int \<Rightarrow> (BufferDesc \<Rightarrow> BufferDesc) \<Rightarrow> bufpool" where
  "bd_upd s i f = s\<lparr>BufferDescriptors := (BufferDescriptors s)[nat i := f (bd_at s i)]\<rparr>"

definition bd_deref :: "bufpool \<Rightarrow> int \<Rightarrow> 'a cres \<Rightarrow> 'a cres" where
  "bd_deref s i k = (if bd_in s i then k else Inl Bad_pointer)"

section \<open>The routines of freelist.c\<close>

text \<open>The assertion macros \<open>IsInQueue\<close> and \<open>NotInQueue\<close>.\<close>

definition IsInQueue :: "BufferDesc \<Rightarrow> bool" where
  "IsInQueue bf \<longleftrightarrow> free_next bf \<noteq> INVALID_DESCRIPTOR \<and> free_prev bf \<noteq> INVALID_DESCRIPTOR \<and>
     flags bf AND BM_FREE \<noteq> 0"

definition NotInQueue :: "BufferDesc \<Rightarrow> bool" where
  "NotInQueue bf \<longleftrightarrow> free_next bf = INVALID_DESCRIPTOR \<and> free_prev bf = INVALID_DESCRIPTOR \<and>
     \<not> flags bf AND BM_FREE \<noteq> 0"

text \<open>The four link assignments of \<open>add_buffer_to_freelist\<close>, after its assertion.\<close>

definition fl_link :: "bufpool \<Rightarrow> int \<Rightarrow> bufpool cres" where
  "fl_link s b =
     (let s1 = bd_upd s b (free_prev_update (\<lambda>_. free_prev (bd_at s (Free_List_Descriptor s))));
          s2 = bd_upd s1 b (free_next_update (\<lambda>_. Free_List_Descriptor s1))
      in bd_deref s2 (free_next (bd_at s2 b))
        (let s3 = bd_upd s2 (free_next (bd_at s2 b)) (free_prev_update (\<lambda>_. buf_id (bd_at s2 b)))
         in bd_deref s3 (free_prev (bd_at s3 b))
           (Inr (bd_upd s3 (free_prev (bd_at s3 b)) (free_next_update (\<lambda>_. buf_id (bd_at s3 b)))))))"

definition add_buffer_to_freelist :: "bufpool \<Rightarrow> int \<Rightarrow> bufpool cres" where
  "add_buffer_to_freelist s b = bd_deref s b (c_assert (NotInQueue (bd_at s b)) (fl_link s b))"

text \<open>The unlinking sequence that \<open>pin_buffer\<close> and \<open>get_free_buffer\<close> share.\<close>

definition fl_unlink :: "bufpool \<Rightarrow> int \<Rightarrow> bufpool cres" where
  "fl_unlink s b =
     bd_deref s (free_next (bd_at s b))
       (let s1 = bd_upd s (free_next (bd_at s b)) (free_prev_update (\<lambda>_. free_prev (bd_at s b)))
        in bd_deref s1 (free_prev (bd_at s1 b))
          (let s2 = bd_upd s1 (free_prev (bd_at s1 b)) (free_next_update (\<lambda>_. free_next (bd_at s1 b)))
           in Inr (bd_upd s2 b (\<lambda>d. d\<lparr>free_next := INVALID_DESCRIPTOR,
                                       free_prev := INVALID_DESCRIPTOR\<rparr>))))"

definition pin_buffer :: "bufpool \<Rightarrow> int \<Rightarrow> bufpool cres" where
  "pin_buffer s buf = bd_deref s buf
     (cbind
       (if refcount (bd_at s buf) = 0
        then c_assert (IsInQueue (bd_at s buf))
               (cbind (fl_unlink s buf) (\<lambda>s1.
                  Inr (bd_upd s1 buf (\<lambda>d. d\<lparr>flags := flags d AND NOT BM_FREE\<rparr>))))
        else c_assert (NotInQueue (bd_at s buf)) (Inr s))
       (\<lambda>s2. let b = buf_id (bd_at s2 buf) + 1 - 1
         in if 0 \<le> b \<and> nat b < length (PrivateRefCount s2)
            then c_assert (PrivateRefCount s2 ! nat b \<ge> 0)
              (let s3 = (if PrivateRefCount s2 ! nat b = 0
                         then bd_upd s2 buf (\<lambda>d. d\<lparr>refcount := refcount d + 1\<rparr>) else s2)
               in Inr (s3\<lparr>PrivateRefCount :=
                     (PrivateRefCount s3)[nat b := PrivateRefCount s3 ! nat b + 1]\<rparr>))
            else Inl Bad_pointer))"

definition unpin_buffer :: "bufpool \<Rightarrow> int \<Rightarrow> bufpool cres" where
  "unpin_buffer s buf = bd_deref s buf
     (let b = buf_id (bd_at s buf) + 1 - 1
      in if 0 \<le> b \<and> nat b < length (PrivateRefCount s)
         then c_assert (refcount (bd_at s buf) > 0) (c_assert (PrivateRefCount s ! nat b > 0)
           (let s1 = s\<lparr>PrivateRefCount :=
                  (PrivateRefCount s)[nat b := PrivateRefCount s ! nat b - 1]\<rparr>;
                s2 = (if PrivateRefCount s1 ! nat b = 0
                      then bd_upd s1 buf (\<lambda>d. d\<lparr>refcount := refcount d - 1\<rparr>) else s1)
            in if refcount (bd_at s2 buf) = 0
               then cbind (add_buffer_to_freelist s2 buf) (\<lambda>s3.
                      Inr (bd_upd s3 buf (\<lambda>d. d\<lparr>flags := flags d OR BM_FREE\<rparr>)))
               else Inr s2))
         else Inl Bad_pointer)"

text \<open>Returns the descriptor (None for NULL) and the pool.\<close>

definition get_free_buffer :: "bufpool \<Rightarrow> (int option \<times> bufpool) cres" where
  "get_free_buffer s =
     (if Free_List_Descriptor s = free_next (bd_at s (Free_List_Descriptor s)) then Inr (None, s)
      else let b = free_next (bd_at s (Free_List_Descriptor s))
        in bd_deref s b (cbind (fl_unlink s b) (\<lambda>s1.
             Inr (Some b, bd_upd s1 b (\<lambda>d. d\<lparr>flags := flags d AND NOT BM_FREE\<rparr>)))))"

definition init_freelist :: "bufpool \<Rightarrow> bool \<Rightarrow> bufpool cres" where
  "init_freelist s init =
     (let h = Free_List_Descriptor s
      in bd_deref s h
       (if init then
          let s1 = bd_upd s h (\<lambda>d. d\<lparr>data := - 1, flags := 0 AND NOT (BM_VALID OR BM_DELETED OR BM_FREE),
                                     buf_id := h, free_next := free_next (bd_at s 0), free_prev := 0\<rparr>)
          in bd_deref s1 (free_next (bd_at s1 h))
            (let s2 = bd_upd s1 (free_next (bd_at s1 h)) (free_prev_update (\<lambda>_. h))
             in bd_deref s2 (free_prev (bd_at s2 h))
               (Inr (bd_upd s2 (free_prev (bd_at s2 h)) (free_next_update (\<lambda>_. h)))))
        else Inr s))"

text \<open>
  The descriptor loop of \<open>init_buffer_pool\<close>: descriptor \<open>i\<close> of \<open>n\<close> is linked to its two
  neighbours, cleared and marked free; then the circle is closed. \<open>dt i\<close> is the shared-memory
  offset of block \<open>i\<close>, and \<open>spare\<close> the uninitialised descriptor after the array's data part.
\<close>

definition CLEAR_BUFFERTAG :: BufferTag where
  "CLEAR_BUFFERTAG = \<lparr>tbl_node = 0, rel_node = 0, block_num = 0xFFFFFFFF\<rparr>"

definition init_desc :: "(nat \<Rightarrow> 64 word) \<Rightarrow> nat \<Rightarrow> BufferDesc" where
  "init_desc dt i = \<lparr>free_next = int i + 1, free_prev = int i - 1, data = dt i,
     tag = CLEAR_BUFFERTAG, buf_id = int i, flags = BM_DELETED OR BM_FREE OR BM_VALID,
     refcount = 0\<rparr>"

definition init_buffer_pool :: "nat \<Rightarrow> (nat \<Rightarrow> 64 word) \<Rightarrow> BufferDesc \<Rightarrow> bufpool cres" where
  "init_buffer_pool n dt spare =
     (let s0 = \<lparr>BufferDescriptors = map (init_desc dt) [0..<n] @ [spare],
                Free_List_Descriptor = int n, PrivateRefCount = []\<rparr>;
          s1 = bd_upd s0 0 (free_prev_update (\<lambda>_. int n - 1));
          s2 = bd_upd s1 (int n - 1) (free_next_update (\<lambda>_. 0))
      in cbind (init_freelist s2 True)
           (\<lambda>s3. Inr (s3\<lparr>PrivateRefCount := replicate n 0\<rparr>)))"

section \<open>The free list as a ring\<close>

definition fl_nxt :: "bufpool \<Rightarrow> int \<Rightarrow> int" where "fl_nxt s i = free_next (bd_at s i)"
definition fl_prv :: "bufpool \<Rightarrow> int \<Rightarrow> int" where "fl_prv s i = free_prev (bd_at s i)"

definition fl_ok :: "bufpool \<Rightarrow> int \<Rightarrow> bool" where
  "fl_ok s i \<longleftrightarrow> bd_in s i \<and> buf_id (bd_at s i) = i"

text \<open>
  Linking with an explicit head, and the two routines on pools where they succeed.
\<close>

definition fl_ins :: "bufpool \<Rightarrow> int \<Rightarrow> int \<Rightarrow> bufpool" where
  "fl_ins s h e = (case fl_link (s\<lparr>Free_List_Descriptor := h\<rparr>) e of
     Inl _ \<Rightarrow> s | Inr s' \<Rightarrow> s'\<lparr>Free_List_Descriptor := Free_List_Descriptor s\<rparr>)"

definition fl_del :: "bufpool \<Rightarrow> int \<Rightarrow> bufpool" where
  "fl_del s e = (case fl_unlink s e of Inl _ \<Rightarrow> s | Inr s' \<Rightarrow> s')"

lemma bd_in_upd [simp]: "bd_in (bd_upd s i f) j = bd_in s j"
  by (simp add: bd_in_def bd_upd_def)

lemma bd_at_upd: "bd_in s i \<Longrightarrow> bd_in s j \<Longrightarrow>
    bd_at (bd_upd s i f) j = (if j = i then f (bd_at s i) else bd_at s j)"
  by (auto simp: bd_at_def bd_upd_def bd_in_def)

lemma bd_upd_cong: "f (bd_at s i) = g (bd_at s i) \<Longrightarrow> bd_upd s i f = bd_upd s i g"
  by (simp add: bd_upd_def)

lemma bd_upd_fields [simp]:
  "Free_List_Descriptor (bd_upd s i f) = Free_List_Descriptor s"
  "PrivateRefCount (bd_upd s i f) = PrivateRefCount s"
  "length (BufferDescriptors (bd_upd s i f)) = length (BufferDescriptors s)"
  by (simp_all add: bd_upd_def)

lemma bd_other_fields [simp]:
  "bd_at (s\<lparr>Free_List_Descriptor := h\<rparr>) i = bd_at s i"
  "bd_at (s\<lparr>PrivateRefCount := p\<rparr>) i = bd_at s i"
  "bd_in (s\<lparr>Free_List_Descriptor := h\<rparr>) i = bd_in s i"
  "bd_in (s\<lparr>PrivateRefCount := p\<rparr>) i = bd_in s i"
  by (simp_all add: bd_at_def bd_in_def)

lemma bd_deref_in [simp]: "bd_in s i \<Longrightarrow> bd_deref s i k = k"
  by (simp add: bd_deref_def)

text \<open>The effect of the two sequences on every descriptor.\<close>

lemma fl_link_eq:
  assumes "bd_in s b" "bd_in s (Free_List_Descriptor s)"
    "bd_in s (free_prev (bd_at s (Free_List_Descriptor s)))"
    "b \<noteq> Free_List_Descriptor s" "free_prev (bd_at s (Free_List_Descriptor s)) \<noteq> b"
  shows "\<exists>s'. fl_link s b = Inr s' \<and> (\<forall>j. bd_in s' j = bd_in s j) \<and>
    Free_List_Descriptor s' = Free_List_Descriptor s \<and> PrivateRefCount s' = PrivateRefCount s \<and>
    length (BufferDescriptors s') = length (BufferDescriptors s) \<and>
    (\<forall>j. bd_in s j \<longrightarrow> bd_at s' j = (bd_at s j)\<lparr>
        free_next := (if j = free_prev (bd_at s (Free_List_Descriptor s)) then buf_id (bd_at s b)
                      else if j = b then Free_List_Descriptor s else free_next (bd_at s j)),
        free_prev := (if j = Free_List_Descriptor s then buf_id (bd_at s b)
                      else if j = b then free_prev (bd_at s (Free_List_Descriptor s))
                      else free_prev (bd_at s j))\<rparr>)"
  using assms by (auto simp: fl_link_def Let_def bd_at_upd)

lemma fl_unlink_eq:
  assumes "bd_in s b" "bd_in s (free_next (bd_at s b))" "bd_in s (free_prev (bd_at s b))"
    "free_next (bd_at s b) \<noteq> b" "free_prev (bd_at s b) \<noteq> b"
  shows "\<exists>s'. fl_unlink s b = Inr s' \<and> (\<forall>j. bd_in s' j = bd_in s j) \<and>
    Free_List_Descriptor s' = Free_List_Descriptor s \<and> PrivateRefCount s' = PrivateRefCount s \<and>
    length (BufferDescriptors s') = length (BufferDescriptors s) \<and>
    (\<forall>j. bd_in s j \<longrightarrow> bd_at s' j = (bd_at s j)\<lparr>
        free_next := (if j = b then INVALID_DESCRIPTOR
                      else if j = free_prev (bd_at s b) then free_next (bd_at s b)
                      else free_next (bd_at s j)),
        free_prev := (if j = b then INVALID_DESCRIPTOR
                      else if j = free_next (bd_at s b) then free_prev (bd_at s b)
                      else free_prev (bd_at s j))\<rparr>)"
  using assms by (auto simp: fl_unlink_def Let_def bd_at_upd)

lemma fl_ins_eq:
  assumes "fl_ok s h" "fl_ok s e" "fl_ok s (fl_prv s h)" "e \<noteq> h" "fl_prv s h \<noteq> e" "bd_in s j"
  shows "bd_at (fl_ins s h e) j = (bd_at s j)\<lparr>
        free_next := (if j = fl_prv s h then e else if j = e then h else free_next (bd_at s j)),
        free_prev := (if j = h then e else if j = e then fl_prv s h else free_prev (bd_at s j))\<rparr>"
  using assms fl_link_eq [of "s\<lparr>Free_List_Descriptor := h\<rparr>" e]
  by (auto simp: fl_ok_def fl_prv_def fl_ins_def)

lemma fl_del_eq:
  assumes "bd_in s e" "bd_in s (fl_nxt s e)" "bd_in s (fl_prv s e)" "fl_nxt s e \<noteq> e" "fl_prv s e \<noteq> e"
    "bd_in s j"
  shows "bd_at (fl_del s e) j = (bd_at s j)\<lparr>
        free_next := (if j = e then INVALID_DESCRIPTOR
                      else if j = fl_prv s e then fl_nxt s e else free_next (bd_at s j)),
        free_prev := (if j = e then INVALID_DESCRIPTOR
                      else if j = fl_nxt s e then fl_prv s e else free_prev (bd_at s j))\<rparr>"
  using assms fl_unlink_eq [of s e] by (auto simp: fl_nxt_def fl_prv_def fl_del_def)

lemma fl_ins_frame:
  assumes "fl_ok s h" "fl_ok s e" "fl_ok s (fl_prv s h)" "e \<noteq> h" "fl_prv s h \<noteq> e"
  shows "fl_link (s\<lparr>Free_List_Descriptor := h\<rparr>) e = Inr ((fl_ins s h e)\<lparr>Free_List_Descriptor := h\<rparr>)"
    and "bd_in (fl_ins s h e) j = bd_in s j"
    and "Free_List_Descriptor (fl_ins s h e) = Free_List_Descriptor s"
    and "PrivateRefCount (fl_ins s h e) = PrivateRefCount s"
    and "length (BufferDescriptors (fl_ins s h e)) = length (BufferDescriptors s)"
  using assms fl_link_eq [of "s\<lparr>Free_List_Descriptor := h\<rparr>" e]
  by (auto simp: fl_ok_def fl_prv_def fl_ins_def bd_in_def)

lemma fl_del_frame:
  assumes "bd_in s e" "bd_in s (fl_nxt s e)" "bd_in s (fl_prv s e)" "fl_nxt s e \<noteq> e" "fl_prv s e \<noteq> e"
  shows "fl_unlink s e = Inr (fl_del s e)"
    and "bd_in (fl_del s e) j = bd_in s j"
    and "Free_List_Descriptor (fl_del s e) = Free_List_Descriptor s"
    and "PrivateRefCount (fl_del s e) = PrivateRefCount s"
    and "length (BufferDescriptors (fl_del s e)) = length (BufferDescriptors s)"
  using assms fl_unlink_eq [of s e] by (auto simp: fl_nxt_def fl_prv_def fl_del_def)

interpretation fl: ring_ops fl_nxt fl_prv fl_ok fl_ins fl_del
proof
  fix s :: bufpool and h e x :: int
  assume pre: "fl_ok s h" "fl_ok s e" "fl_ok s (fl_prv s h)" "e \<noteq> h" "fl_prv s h \<noteq> e"
  show "fl_ok (fl_ins s h e) x = fl_ok s x"
    by (cases "bd_in s x") (auto simp: fl_ok_def fl_ins_frame [OF pre] fl_ins_eq [OF pre])
  assume "fl_ok s x"
  then have "bd_in s x" by (simp add: fl_ok_def)
  then show "fl_nxt (fl_ins s h e) x = (if x = e then h else if x = fl_prv s h then e else fl_nxt s x)"
    and "fl_prv (fl_ins s h e) x = (if x = e then fl_prv s h else if x = h then e else fl_prv s x)"
    using pre fl_ins_eq [OF pre, of x] by (auto simp: fl_nxt_def [of "fl_ins s h e"] fl_prv_def
      [of "fl_ins s h e"] fl_nxt_def [of s x] fl_prv_def [of s x])
next
  fix s :: bufpool and e x :: int
  assume ok: "fl_ok s e" "fl_ok s (fl_nxt s e)" "fl_ok s (fl_prv s e)" "fl_nxt s e \<noteq> e" "fl_prv s e \<noteq> e"
  then have pre: "bd_in s e" "bd_in s (fl_nxt s e)" "bd_in s (fl_prv s e)" "fl_nxt s e \<noteq> e" "fl_prv s e \<noteq> e"
    by (auto simp: fl_ok_def)
  show "fl_ok (fl_del s e) x = fl_ok s x"
    by (cases "bd_in s x") (auto simp: fl_ok_def fl_del_frame [OF pre] fl_del_eq [OF pre])
  assume x: "fl_ok s x" "x \<noteq> e"
  then have "bd_in s x" by (simp add: fl_ok_def)
  then show "fl_nxt (fl_del s e) x = (if x = fl_prv s e then fl_nxt s e else fl_nxt s x)"
    and "fl_prv (fl_del s e) x = (if x = fl_nxt s e then fl_prv s e else fl_prv s x)"
    using x(2) fl_del_eq [OF pre, of x] by (auto simp: fl_nxt_def [of "fl_del s e"] fl_prv_def
      [of "fl_del s e"] fl_nxt_def [of s x] fl_prv_def [of s x])
qed

section \<open>The invariant of the free list\<close>

text \<open>
  \<open>fl_inv s xs\<close>: the free list, from its head on, is \<open>xs\<close>; its members are unpinned and carry
  \<open>BM_FREE\<close>; every other data descriptor is out of the queue in the sense of \<open>NotInQueue\<close>.
\<close>

definition fl_inv :: "bufpool \<Rightarrow> int list \<Rightarrow> bool" where
  "fl_inv s xs \<longleftrightarrow>
     length (BufferDescriptors s) = length (PrivateRefCount s) + 1 \<and>
     Free_List_Descriptor s = int (length (PrivateRefCount s)) \<and>
     (\<forall>i. bd_in s i \<longrightarrow> buf_id (bd_at s i) = i) \<and>
     ring (fl_nxt s) (fl_prv s) (Free_List_Descriptor s) xs \<and>
     (\<forall>x \<in> set xs. bd_in s x \<and> refcount (bd_at s x) = 0 \<and> flags (bd_at s x) AND BM_FREE \<noteq> 0 \<and>
        PrivateRefCount s ! nat x = 0) \<and>
     (\<forall>x. bd_in s x \<longrightarrow> x \<noteq> Free_List_Descriptor s \<longrightarrow> x \<notin> set xs \<longrightarrow> NotInQueue (bd_at s x)) \<and>
     (\<forall>p \<in> set (PrivateRefCount s). 0 \<le> p)"

lemma fl_invD:
  assumes "fl_inv s xs"
  shows "length (BufferDescriptors s) = length (PrivateRefCount s) + 1"
    and "Free_List_Descriptor s = int (length (PrivateRefCount s))"
    and "ring (fl_nxt s) (fl_prv s) (Free_List_Descriptor s) xs"
    and "bd_in s x \<Longrightarrow> buf_id (bd_at s x) = x"
    and "x \<in> set xs \<Longrightarrow> bd_in s x \<and> refcount (bd_at s x) = 0 \<and> flags (bd_at s x) AND BM_FREE \<noteq> 0 \<and>
        PrivateRefCount s ! nat x = 0"
    and "bd_in s x \<Longrightarrow> x \<noteq> Free_List_Descriptor s \<Longrightarrow> x \<notin> set xs \<Longrightarrow> NotInQueue (bd_at s x)"
    and "\<forall>p \<in> set (PrivateRefCount s). 0 \<le> p"
  using assms unfolding fl_inv_def by blast+

lemma clear_BM_FREE [simp]: "(f AND NOT BM_FREE) AND BM_FREE = 0"
  by (rule bit_word_eqI) (auto simp: bit_simps)

lemma BM_FREE_nonzero [simp]: "BM_FREE \<noteq> 0"
  by (simp add: BM_FREE_def)

lemma set_BM_FREE [simp]: "(f OR BM_FREE) AND BM_FREE \<noteq> 0"
proof -
  have "bit ((f OR BM_FREE) AND BM_FREE) 4" by (simp add: BM_FREE_def bit_simps)
  then show ?thesis by auto
qed

lemma fl_inv_ring_of: "fl_inv s xs \<Longrightarrow> fl.ring_of s (Free_List_Descriptor s) xs"
  by (auto simp: fl_inv_def fl.ring_of_def fl_ok_def bd_in_def)

lemma fl_inv_data:
  assumes "fl_inv s xs" "bd_in s x" "x \<noteq> Free_List_Descriptor s"
  shows "0 \<le> x" "nat x < length (PrivateRefCount s)" "0 \<le> PrivateRefCount s ! nat x"
    "buf_id (bd_at s x) = x"
  using assms by (auto simp: fl_inv_def bd_in_def)

lemma fl_inv_member:
  assumes "fl_inv s xs" "x \<in> set xs"
  shows "bd_in s x" "x \<noteq> Free_List_Descriptor s" "IsInQueue (bd_at s x)"
proof -
  have r: "ring (fl_nxt s) (fl_prv s) (Free_List_Descriptor s) xs" and n: "bd_in s x"
    using assms by (auto simp: fl_inv_def)
  obtain ys zs where xs: "xs = ys @ x # zs" using assms(2) by (meson split_list)
  have "bd_in s (fl_nxt s x)" "bd_in s (fl_prv s x)"
    using fl.del_pre [OF fl_inv_ring_of [OF assms(1), unfolded xs]] by (auto simp: fl_ok_def)
  then show "IsInQueue (bd_at s x)"
    using assms by (auto simp: IsInQueue_def INVALID_DESCRIPTOR_def fl_inv_def bd_in_def fl_nxt_def fl_prv_def)
  show "bd_in s x" by (rule n)
  show "x \<noteq> Free_List_Descriptor s" using r assms(2) by (auto simp: ring_def)
qed

text \<open>
  How a pool with known descriptors meets the invariant: the links agree with a pool that already
  has the ring, up to the fields the free list does not use.
\<close>

lemma fl_invI:
  assumes r: "fl.ring_of s1 (Free_List_Descriptor s) xs"
    and len: "length (BufferDescriptors s) = length (PrivateRefCount s) + 1"
      "Free_List_Descriptor s = int (length (PrivateRefCount s))"
    and same: "\<And>x. bd_in s x \<Longrightarrow> free_next (bd_at s x) = free_next (bd_at s1 x) \<and>
        free_prev (bd_at s x) = free_prev (bd_at s1 x)"
    and len1: "\<And>x. bd_in s1 x = bd_in s x"
    and ids: "\<And>x. bd_in s x \<Longrightarrow> buf_id (bd_at s x) = x"
    and mem: "\<And>x. x \<in> set xs \<Longrightarrow> refcount (bd_at s x) = 0 \<and> flags (bd_at s x) AND BM_FREE \<noteq> 0 \<and>
        PrivateRefCount s ! nat x = 0"
    and out: "\<And>x. bd_in s x \<Longrightarrow> x \<noteq> Free_List_Descriptor s \<Longrightarrow> x \<notin> set xs \<Longrightarrow> NotInQueue (bd_at s x)"
    and pos: "\<forall>p \<in> set (PrivateRefCount s). 0 \<le> p"
  shows "fl_inv s xs"
proof -
  have ok: "bd_in s x" if "x \<in> set (Free_List_Descriptor s # xs)" for x
    using r that len1 by (auto simp: fl.ring_of_def fl_ok_def)
  have "ring (fl_nxt s) (fl_prv s) (Free_List_Descriptor s) xs =
      ring (fl_nxt s1) (fl_prv s1) (Free_List_Descriptor s) xs"
    using ok same by (intro ring_cong) (auto simp: fl_nxt_def fl_prv_def)
  then show ?thesis
    using r len ids mem out pos ok unfolding fl_inv_def by (auto simp: fl.ring_of_def)
qed

text \<open>Removing a member from the free list and clearing its \<open>BM_FREE\<close> flag.\<close>

lemma fl_remove_member:
  assumes inv: "fl_inv s (ys @ b # zs)"
  shows "\<exists>s1. fl_unlink s b = Inr s1 \<and>
    fl_inv (bd_upd s1 b (\<lambda>d. d\<lparr>flags := flags d AND NOT BM_FREE\<rparr>)) (ys @ zs) \<and>
    (\<forall>j. bd_in s1 j = bd_in s j) \<and> Free_List_Descriptor s1 = Free_List_Descriptor s \<and>
    PrivateRefCount s1 = PrivateRefCount s \<and>
    (\<forall>j. bd_in s j \<longrightarrow> refcount (bd_at s1 j) = refcount (bd_at s j) \<and> buf_id (bd_at s1 j) = buf_id (bd_at s j))"
proof -
  let ?s1 = "fl_del s b"
  let ?s2 = "bd_upd ?s1 b (\<lambda>d. d\<lparr>flags := flags d AND NOT BM_FREE\<rparr>)"
  note ro = fl_inv_ring_of [OF inv]
  have pre: "bd_in s b" "bd_in s (fl_nxt s b)" "bd_in s (fl_prv s b)" "fl_nxt s b \<noteq> b" "fl_prv s b \<noteq> b"
    using fl.del_pre [OF ro] by (auto simp: fl_ok_def)
  note fr = fl_del_frame [OF pre]
  have at1: "bd_at ?s1 j = (bd_at s j)\<lparr>
        free_next := (if j = b then INVALID_DESCRIPTOR else if j = fl_prv s b then fl_nxt s b
                      else free_next (bd_at s j)),
        free_prev := (if j = b then INVALID_DESCRIPTOR else if j = fl_nxt s b then fl_prv s b
                      else free_prev (bd_at s j))\<rparr>" if "bd_in s j" for j
    using fl_del_eq [OF pre that] .
  have at2: "bd_at ?s2 j = (if j = b then (bd_at ?s1 j)\<lparr>flags := flags (bd_at ?s1 j) AND NOT BM_FREE\<rparr>
      else bd_at ?s1 j)" if "bd_in s j" for j
    using that pre fr by (simp add: bd_at_upd)
  have d: "distinct (ys @ b # zs)" using inv by (simp add: fl_inv_def ring_def)
  have mem: "bd_in s x \<and> refcount (bd_at s x) = 0 \<and> flags (bd_at s x) AND BM_FREE \<noteq> 0 \<and>
      PrivateRefCount s ! nat x = 0" if "x \<in> set (ys @ b # zs)" for x
    using inv that unfolding fl_inv_def by blast
  have inq: "fl_nxt s b \<in> set (Free_List_Descriptor s # zs)" "fl_prv s b \<in> set (Free_List_Descriptor s # ys)"
    using ring_nxt_member [of "fl_nxt s" "fl_prv s" _ ys b zs] ring_prv_member [of "fl_nxt s" "fl_prv s" _ ys b zs]
      inv last_in_set [of "Free_List_Descriptor s # ys"] by (cases zs; auto simp: fl_inv_def)+
  have "fl_inv ?s2 (ys @ zs)"
  proof (rule fl_invI [where ?s1.0 = ?s1])
    show "fl.ring_of ?s1 (Free_List_Descriptor ?s2) (ys @ zs)"
      using fl.ring_of_delete [OF ro] fr by simp
    show "NotInQueue (bd_at ?s2 x)" if "bd_in ?s2 x" "x \<noteq> Free_List_Descriptor ?s2" "x \<notin> set (ys @ zs)" for x
    proof (cases "x = b")
      case True
      then show ?thesis using pre at2 at1 by (simp add: NotInQueue_def)
    next
      case False
      have "bd_in s x" using that fr by simp
      moreover have "x \<noteq> fl_nxt s b" "x \<noteq> fl_prv s b" using inq that fr by auto
      moreover have "NotInQueue (bd_at s x)"
        using inv False that fr by (auto simp: fl_inv_def)
      ultimately show ?thesis using at2 at1 False by (simp add: NotInQueue_def)
    qed
    show "refcount (bd_at ?s2 x) = 0 \<and> flags (bd_at ?s2 x) AND BM_FREE \<noteq> 0 \<and> PrivateRefCount ?s2 ! nat x = 0"
      if "x \<in> set (ys @ zs)" for x
    proof -
      have "x \<noteq> b" "x \<in> set (ys @ b # zs)" using that d by auto
      then show ?thesis using mem at2 at1 fr by auto
    qed
  qed (use fl_invD [OF inv] fr at2 at1 pre in auto)
  then show ?thesis using fr at1 by auto
qed

text \<open>Adding an unpinned descriptor that is out of the queue.\<close>

lemma fl_add_member:
  assumes inv: "fl_inv s xs" and b: "bd_in s b" "b \<noteq> Free_List_Descriptor s" "b \<notin> set xs"
    and zero: "refcount (bd_at s b) = 0" "PrivateRefCount s ! nat b = 0"
  shows "\<exists>s1. add_buffer_to_freelist s b = Inr s1 \<and>
    fl_inv (bd_upd s1 b (\<lambda>d. d\<lparr>flags := flags d OR BM_FREE\<rparr>)) (xs @ [b])"
proof -
  let ?h = "Free_List_Descriptor s"
  let ?s1 = "fl_ins s ?h b"
  let ?s2 = "bd_upd ?s1 b (\<lambda>d. d\<lparr>flags := flags d OR BM_FREE\<rparr>)"
  note ro = fl_inv_ring_of [OF inv]
  have okb: "fl_ok s b" using inv b by (simp add: fl_inv_def fl_ok_def)
  have nb: "b \<notin> set (?h # xs)" using b by simp
  note pre = fl.ins_pre [OF ro nb okb]
  note fr = fl_ins_frame [OF pre(1-5)]
  note at1 = fl_ins_eq [OF pre(1-5)]
  have "fl_link s b = Inr (?s1\<lparr>Free_List_Descriptor := Free_List_Descriptor ?s1\<rparr>)"
    using fr(1,3) by simp
  moreover have "NotInQueue (bd_at s b)" using inv b by (simp add: fl_inv_def)
  ultimately have add: "add_buffer_to_freelist s b = Inr ?s1"
    using b by (simp add: add_buffer_to_freelist_def)
  have at2: "bd_at ?s2 j = (if j = b then (bd_at ?s1 j)\<lparr>flags := flags (bd_at ?s1 j) OR BM_FREE\<rparr>
      else bd_at ?s1 j)" if "bd_in s j" for j
    using that b fr by (simp add: bd_at_upd)
  have inp: "fl_prv s ?h \<in> set (?h # xs)"
    using ring_prv_head [OF fl_invD(3) [OF inv]] last_in_set [of "?h # xs"] by simp
  have "fl_inv ?s2 (xs @ [b])"
  proof (rule fl_invI [where ?s1.0 = ?s1])
    show "fl.ring_of ?s1 (Free_List_Descriptor ?s2) (xs @ [b])"
      using fl.ring_of_insert [OF ro nb okb] fr by simp
    show "NotInQueue (bd_at ?s2 x)" if "bd_in ?s2 x" "x \<noteq> Free_List_Descriptor ?s2" "x \<notin> set (xs @ [b])" for x
    proof -
      have "bd_in s x" "x \<noteq> b" "x \<noteq> ?h" "x \<noteq> fl_prv s ?h" using that fr inp by auto
      moreover have "NotInQueue (bd_at s x)" using fl_invD(6) [OF inv, of x] that fr by auto
      ultimately show ?thesis using at2 at1 by (simp add: NotInQueue_def)
    qed
    show "refcount (bd_at ?s2 x) = 0 \<and> flags (bd_at ?s2 x) AND BM_FREE \<noteq> 0 \<and> PrivateRefCount ?s2 ! nat x = 0"
      if "x \<in> set (xs @ [b])" for x
    proof (cases "x = b")
      case True
      then show ?thesis using zero b fr at2 at1 by simp
    next
      case False
      then have "x \<in> set xs" using that by simp
      then show ?thesis using fl_invD(5) [OF inv] False fr at2 at1 by simp
    qed
  qed (use fl_invD [OF inv] fr at2 at1 b in auto)
  then show ?thesis using add by blast
qed

text \<open>The invariant only reads the pin counts of members, so other counts may change.\<close>

lemma fl_inv_counts:
  assumes inv: "fl_inv s xs" and b: "bd_in s b" "b \<noteq> Free_List_Descriptor s" "b \<notin> set xs"
    and p: "0 \<le> p"
  shows "fl_inv ((bd_upd s b (\<lambda>d. d\<lparr>refcount := r\<rparr>))
      \<lparr>PrivateRefCount := (PrivateRefCount s)[nat b := p]\<rparr>) xs" (is "fl_inv ?s' xs")
proof (rule fl_invI [where ?s1.0 = s])
  have at: "bd_at ?s' x = (if x = b then (bd_at s x)\<lparr>refcount := r\<rparr> else bd_at s x)" if "bd_in s x" for x
    using that b by (simp add: bd_at_upd)
  have ne: "nat x \<noteq> nat b" if "x \<in> set xs" for x
  proof
    assume "nat x = nat b"
    moreover have "0 \<le> x" "0 \<le> b" using inv b that by (auto simp: fl_inv_def bd_in_def)
    ultimately show False using b that by (auto simp: eq_nat_nat_iff)
  qed
  show "fl.ring_of s (Free_List_Descriptor ?s') xs" using fl_inv_ring_of [OF inv] by simp
  show "\<forall>p \<in> set (PrivateRefCount ?s'). 0 \<le> p"
    using inv p set_update_subset_insert by (fastforce simp: fl_inv_def)
  show "NotInQueue (bd_at ?s' x)" if "bd_in ?s' x" "x \<noteq> Free_List_Descriptor ?s'" "x \<notin> set xs" for x
    using that inv at by (auto simp: fl_inv_def NotInQueue_def)
  show "refcount (bd_at ?s' x) = 0 \<and> flags (bd_at ?s' x) AND BM_FREE \<noteq> 0 \<and> PrivateRefCount ?s' ! nat x = 0"
    if "x \<in> set xs" for x
  proof -
    have "x \<noteq> b" "bd_in s x" using that b inv by (auto simp: fl_inv_def)
    then show ?thesis using fl_invD(5) [OF inv that] ne [OF that, symmetric] at by simp
  qed
qed (use fl_invD [OF inv] b in \<open>auto simp: bd_at_upd\<close>)

section \<open>Properties\<close>

text \<open>The effect of \<open>pin_buffer\<close> on a free buffer, used below and by the LRU property.\<close>

lemma pin_free_buffer:
  assumes inv: "fl_inv s (ys @ b # zs)"
  shows "\<exists>s'. pin_buffer s b = Inr s' \<and> fl_inv s' (ys @ zs) \<and> refcount (bd_at s' b) = 1 \<and>
    PrivateRefCount s' ! nat b = 1 \<and> bd_in s' b \<and> b \<noteq> Free_List_Descriptor s' \<and>
    length (PrivateRefCount s') = length (PrivateRefCount s)"
proof -
  have mem: "bd_in s b" "b \<noteq> Free_List_Descriptor s" "IsInQueue (bd_at s b)"
    using fl_inv_member [OF inv] by auto
  note dat = fl_inv_data [OF inv mem(1,2)]
  have z: "refcount (bd_at s b) = 0" "PrivateRefCount s ! nat b = 0" and nin: "b \<notin> set (ys @ zs)"
    using fl_invD(5) [OF inv, of b] fl_invD(3) [OF inv] by (auto simp: ring_def)
  obtain s1 where s1: "fl_unlink s b = Inr s1"
    and inv2: "fl_inv (bd_upd s1 b (\<lambda>d. d\<lparr>flags := flags d AND NOT BM_FREE\<rparr>)) (ys @ zs)"
    and f0: "\<forall>j. bd_in s1 j = bd_in s j" "Free_List_Descriptor s1 = Free_List_Descriptor s"
      "PrivateRefCount s1 = PrivateRefCount s" "\<forall>j. bd_in s j \<longrightarrow>
        refcount (bd_at s1 j) = refcount (bd_at s j) \<and> buf_id (bd_at s1 j) = buf_id (bd_at s j)"
    using fl_remove_member [OF inv] by blast
  have f1: "\<And>j. bd_in s1 j = bd_in s j" "Free_List_Descriptor s1 = Free_List_Descriptor s"
      "PrivateRefCount s1 = PrivateRefCount s" "refcount (bd_at s1 b) = 0" "buf_id (bd_at s1 b) = b"
    using f0 mem z dat by auto
  let ?s2 = "bd_upd s1 b (\<lambda>d. d\<lparr>flags := flags d AND NOT BM_FREE\<rparr>)"
  let ?s3 = "(bd_upd ?s2 b (\<lambda>d. d\<lparr>refcount := 1\<rparr>))\<lparr>PrivateRefCount := (PrivateRefCount ?s2)[nat b := 1]\<rparr>"
  have eq: "bd_upd ?s2 b (\<lambda>d. d\<lparr>refcount := refcount d + 1\<rparr>) = bd_upd ?s2 b (\<lambda>d. d\<lparr>refcount := 1\<rparr>)"
    using f1 mem by (intro bd_upd_cong) (simp add: bd_at_upd)
  have "pin_buffer s b = Inr ?s3"
    using mem z s1 dat f1 eq by (simp add: pin_buffer_def bd_at_upd Let_def)
  moreover have "fl_inv ?s3 (ys @ zs)"
    using fl_inv_counts [OF inv2] mem nin f1 by simp
  moreover have "refcount (bd_at ?s3 b) = 1" "PrivateRefCount ?s3 ! nat b = 1"
    using mem f1 dat by (simp_all add: bd_at_upd)
  ultimately show ?thesis using mem f1 by auto
qed

lemma unpin_last:
  assumes inv: "fl_inv s xs" and b: "bd_in s b" "b \<noteq> Free_List_Descriptor s" "b \<notin> set xs"
    and cnt: "refcount (bd_at s b) = 1" "PrivateRefCount s ! nat b = 1"
  shows "\<exists>s'. unpin_buffer s b = Inr s' \<and> fl_inv s' (xs @ [b])"
proof -
  note dat = fl_inv_data [OF inv b(1,2)]
  let ?s2 = "(bd_upd s b (\<lambda>d. d\<lparr>refcount := 0\<rparr>))\<lparr>PrivateRefCount := (PrivateRefCount s)[nat b := 0]\<rparr>"
  have eq: "bd_upd (s\<lparr>PrivateRefCount := (PrivateRefCount s)[nat b := 0]\<rparr>) b
      (\<lambda>d. d\<lparr>refcount := refcount d - 1\<rparr>) = ?s2"
    using cnt by (simp add: bd_upd_def bd_at_def)
  have "fl_inv ?s2 xs" using fl_inv_counts [OF inv b] by simp
  then obtain s1 where s1: "add_buffer_to_freelist ?s2 b = Inr s1"
    "fl_inv (bd_upd s1 b (\<lambda>d. d\<lparr>flags := flags d OR BM_FREE\<rparr>)) (xs @ [b])"
    using fl_add_member [of ?s2 xs b] b dat by (auto simp: bd_at_upd)
  have "unpin_buffer s b = Inr (bd_upd s1 b (\<lambda>d. d\<lparr>flags := flags d OR BM_FREE\<rparr>))"
    using b dat cnt eq s1(1) by (simp add: unpin_buffer_def Let_def bd_at_upd)
  then show ?thesis using s1(2) by blast
qed

lemma chain_up:
  "a < b \<Longrightarrow> (\<And>i. a \<le> i \<Longrightarrow> i + 1 < b \<Longrightarrow> f (int i) = int (i + 1)) \<Longrightarrow> f (int (b - 1)) = c \<Longrightarrow>
   chain f (int a) (map int [Suc a..<b]) c"
proof (induction "b - a" arbitrary: a)
  case 0
  then show ?case by simp
next
  case (Suc k)
  show ?case
  proof (cases "Suc a < b")
    case True
    then have "chain f (int (Suc a)) (map int [Suc (Suc a)..<b]) c"
      using Suc.hyps(2) Suc.prems by (intro Suc.hyps(1)) auto
    then show ?thesis using True Suc.prems by (simp add: upt_conv_Cons)
  next
    case False
    then have "b = Suc a" using Suc.prems by simp
    then show ?thesis using Suc.prems by simp
  qed
qed

lemma chain_down:
  "a \<le> b \<Longrightarrow> (\<And>i. a \<le> i \<Longrightarrow> i < b \<Longrightarrow> g (int (i + 1)) = int i) \<Longrightarrow> g (int a) = c \<Longrightarrow>
   chain g (int b) (rev (map int [a..<b])) c"
proof (induction b)
  case 0
  then show ?case by simp
next
  case (Suc b)
  show ?case
  proof (cases "a \<le> b")
    case True
    then have "chain g (int b) (rev (map int [a..<b])) c" using Suc by auto
    then show ?thesis using True Suc.prems(2) [of b] by simp
  next
    case False
    then have "a = Suc b" using Suc.prems by simp
    then show ?thesis using Suc.prems by simp
  qed
qed

text \<open>The descriptors after initialisation.\<close>

lemma init_buffer_pool_descs:
  assumes n: "0 < n"
  shows "\<exists>s. init_buffer_pool n dt spare = Inr s \<and> PrivateRefCount s = replicate n 0 \<and>
    Free_List_Descriptor s = int n \<and> length (BufferDescriptors s) = n + 1 \<and>
    fl_nxt s (int n) = (if n = 1 then 0 else 1) \<and> fl_prv s (int n) = 0 \<and> buf_id (bd_at s (int n)) = int n \<and>
    (\<forall>i < n. bd_at s (int i) = (init_desc dt i)\<lparr>
        free_next := (if i = 0 then int n else if i = n - 1 then 0 else int i + 1),
        free_prev := (if i = 1 \<or> n = 1 then int n else if i = 0 then int n - 1 else int i - 1)\<rparr>)"
proof -
  define s0 where "s0 = \<lparr>BufferDescriptors = map (init_desc dt) [0..<n] @ [spare],
                Free_List_Descriptor = int n, PrivateRefCount = []\<rparr>"
  have inb: "bd_in s0 j \<longleftrightarrow> 0 \<le> j \<and> j \<le> int n" for j by (auto simp: bd_in_def s0_def)
  have at0: "bd_at s0 (int i) = init_desc dt i" if "i < n" for i
    using that by (simp add: bd_at_def nth_append s0_def)
  have z: "bd_at s0 0 = init_desc dt 0" using at0 [of 0] n by simp
  have l: "bd_at s0 (int n - 1) = init_desc dt (n - 1)" using at0 [of "n - 1"] n by (simp add: of_nat_diff)
  have o: "bd_at s0 1 = init_desc dt 1" if "n \<noteq> 1" using at0 [of 1] n that by simp
  have f: "Free_List_Descriptor s0 = int n" "length (BufferDescriptors s0) = n + 1"
    by (simp_all add: s0_def)
  let ?s2 = "bd_upd (bd_upd s0 0 (free_prev_update (\<lambda>_. int n - 1))) (int n - 1) (free_next_update (\<lambda>_. 0))"
  have "\<exists>s. init_freelist ?s2 True = Inr s \<and>
    Free_List_Descriptor s = int n \<and> length (BufferDescriptors s) = n + 1 \<and>
    fl_nxt s (int n) = (if n = 1 then 0 else 1) \<and> fl_prv s (int n) = 0 \<and> buf_id (bd_at s (int n)) = int n \<and>
    (\<forall>i < n. bd_at s (int i) = (init_desc dt i)\<lparr>
        free_next := (if i = 0 then int n else if i = n - 1 then 0 else int i + 1),
        free_prev := (if i = 1 \<or> n = 1 then int n else if i = 0 then int n - 1 else int i - 1)\<rparr>)"
    using n f
    by (cases "n = 1") (auto simp: init_freelist_def Let_def bd_at_upd inb z l at0 o
        init_desc_def fl_nxt_def fl_prv_def of_nat_diff)
  then obtain s where "init_freelist ?s2 True = Inr s" and r: "Free_List_Descriptor s = int n \<and> length (BufferDescriptors s) = n + 1 \<and>
    fl_nxt s (int n) = (if n = 1 then 0 else 1) \<and> fl_prv s (int n) = 0 \<and> buf_id (bd_at s (int n)) = int n \<and>
    (\<forall>i < n. bd_at s (int i) = (init_desc dt i)\<lparr>
        free_next := (if i = 0 then int n else if i = n - 1 then 0 else int i + 1),
        free_prev := (if i = 1 \<or> n = 1 then int n else if i = 0 then int n - 1 else int i - 1)\<rparr>)"
    by blast
  then have "init_buffer_pool n dt spare = Inr (s\<lparr>PrivateRefCount := replicate n 0\<rparr>)"
    unfolding init_buffer_pool_def s0_def [symmetric] by (simp add: Let_def)
  then show ?thesis using r by (auto simp: fl_nxt_def fl_prv_def)
qed

lemma init_flags: "(BM_DELETED OR BM_FREE OR BM_VALID) AND BM_FREE \<noteq> 0"
  by (simp add: BM_DELETED_def BM_FREE_def BM_VALID_def)

lemma init_buffer_pool_fl_inv:
  assumes n: "0 < n"
  shows "\<exists>s. init_buffer_pool n dt spare = Inr s \<and> fl_inv s (map int [1..<n] @ [0])"
proof -
  obtain s where s: "init_buffer_pool n dt spare = Inr s"
    and pr: "PrivateRefCount s = replicate n 0" and fd: "Free_List_Descriptor s = int n"
    and len: "length (BufferDescriptors s) = n + 1"
    and hn: "fl_nxt s (int n) = (if n = 1 then 0 else 1)" and hp: "fl_prv s (int n) = 0"
    and hid: "buf_id (bd_at s (int n)) = int n"
    and at: "\<forall>i < n. bd_at s (int i) = (init_desc dt i)\<lparr>
        free_next := (if i = 0 then int n else if i = n - 1 then 0 else int i + 1),
        free_prev := (if i = 1 \<or> n = 1 then int n else if i = 0 then int n - 1 else int i - 1)\<rparr>"
    using init_buffer_pool_descs [OF n, of dt spare] by blast
  have bin: "bd_in s j \<longleftrightarrow> 0 \<le> j \<and> j \<le> int n" for j using len by (auto simp: bd_in_def)
  have nx: "fl_nxt s (int i) = (if i = 0 then int n else if i = n - 1 then 0 else int i + 1)"
    and pv: "fl_prv s (int i) = (if i = 1 \<or> n = 1 then int n else if i = 0 then int n - 1 else int i - 1)"
    and fl: "flags (bd_at s (int i)) AND BM_FREE \<noteq> 0" "refcount (bd_at s (int i)) = 0" "buf_id (bd_at s (int i)) = int i"
    if "i < n" for i
    using at that by (auto simp: fl_nxt_def fl_prv_def init_desc_def init_flags)
  have z: "fl_nxt s 0 = int n" "fl_prv s 0 = (if n = 1 then int n else int n - 1)"
    using nx [of 0] pv [of 0] n by auto
  have mem: "x \<in> set (map int [1..<n] @ [0]) \<longleftrightarrow> (\<exists>i < n. x = int i)" for x
    using n by (auto simp: image_iff)
  have "chain (fl_nxt s) (int n) (map int [1..<n] @ [0]) (int n)"
  proof (cases "n = 1")
    case True
    then show ?thesis using hn z by simp
  next
    case False
    then have "chain (fl_nxt s) (int 1) (map int [Suc 1..<n]) 0"
      using n nx nx [of "n - 1"] by (intro chain_up) (auto simp: of_nat_diff)
    then show ?thesis using False n hn z by (simp add: upt_conv_Cons)
  qed
  moreover have "chain (fl_prv s) (int n) (rev (map int [1..<n] @ [0])) (int n)"
  proof (cases "n = 1")
    case True
    then show ?thesis using hp z by simp
  next
    case False
    have "chain (fl_prv s) (int (n - 1)) (rev (map int [1..<n - 1])) (int n)"
    proof (rule chain_down)
      show "fl_prv s (int (i + 1)) = int i" if "1 \<le> i" "i < n - 1" for i
        using pv [of "i + 1"] that False by simp
      show "fl_prv s (int 1) = int n" using pv [of 1] n False by simp
    qed (use n False in simp)
    moreover have "[1..<n] = [1..<n - 1] @ [n - 1]" using False n
      by (metis One_nat_def Suc_diff_1 Suc_lessI less_Suc_eq_le upt_Suc)
    ultimately show ?thesis using False n hp z by (simp add: of_nat_diff)
  qed
  ultimately have "ring (fl_nxt s) (fl_prv s) (Free_List_Descriptor s) (map int [1..<n] @ [0])"
    using n fd by (auto simp: ring_def distinct_map inj_on_def)
  moreover have "\<forall>i. bd_in s i \<longrightarrow> buf_id (bd_at s i) = i"
    using fl(3) hid bin by (metis nonneg_int_cases of_nat_le_iff order_le_less)
  moreover have "\<forall>x \<in> set (map int [1..<n] @ [0]). bd_in s x \<and> refcount (bd_at s x) = 0 \<and>
      flags (bd_at s x) AND BM_FREE \<noteq> 0 \<and> PrivateRefCount s ! nat x = 0"
  proof
    fix x assume "x \<in> set (map int [1..<n] @ [0])"
    then obtain i where "i < n" "x = int i" using mem by blast
    then show "bd_in s x \<and> refcount (bd_at s x) = 0 \<and> flags (bd_at s x) AND BM_FREE \<noteq> 0 \<and>
        PrivateRefCount s ! nat x = 0"
      using fl bin pr by simp
  qed
  moreover have "\<forall>x. bd_in s x \<longrightarrow> x \<noteq> Free_List_Descriptor s \<longrightarrow> x \<in> set (map int [1..<n] @ [0])"
    unfolding mem fd bin by (metis nonneg_int_cases of_nat_le_iff order_le_less)
  ultimately have "fl_inv s (map int [1..<n] @ [0])"
    unfolding fl_inv_def using pr fd len by auto
  then show ?thesis using s by blast
qed

text \<open>A pool of three buffers right after initialisation, for the concrete applications.\<close>

lemma pool_of_three: "\<exists>s. fl_inv s [1, 2, 0]"
proof -
  have "map int [1..<3] @ [0] = [1, 2, 0]" by code_simp
  then show ?thesis using init_buffer_pool_fl_inv [of 3] by auto
qed

text \<open>
  Initialisation of the shared buffer pool (the descriptor loop of \<open>init_buffer_pool\<close>, then
  \<open>init_freelist\<close>) always succeeds for at least one buffer, and leaves every buffer on the free
  list exactly once, in the order 1, 2, \<dots>, n - 1, 0, with consistent forward and backward links.
\<close>

theorem init_buffer_pool_inv:
  "0 < n \<Longrightarrow> \<exists>s. init_buffer_pool n dt spare = Inr s \<and> fl_inv s (map int [1..<n] @ [0])"
  by (rule init_buffer_pool_fl_inv)

theorem init_buffer_pool_inv_witness:
  "\<exists>s. init_buffer_pool 3 (\<lambda>i. of_nat (8192 * i)) (init_desc (\<lambda>_. 0) 99) = Inr s \<and> fl_inv s [1, 2, 0]"
proof -
  have "map int [1..<3] @ [0] = [1, 2, 0]" by code_simp
  then show ?thesis
    using init_buffer_pool_inv [of 3 "\<lambda>i. of_nat (8192 * i)" "init_desc (\<lambda>_. 0) 99"] by simp
qed

text \<open>
  \<open>get_free_buffer\<close> takes the buffer at the front of the free list: on an empty list it
  returns NULL and changes nothing; otherwise it returns the first buffer, and the list is the
  rest; the buffer returned is out of the queue and not marked free.
\<close>

theorem get_free_buffer_correct:
  assumes inv: "fl_inv s xs"
  shows "case xs of
      [] \<Rightarrow> get_free_buffer s = Inr (None, s)
    | b # ys \<Rightarrow> (\<exists>s'. get_free_buffer s = Inr (Some b, s') \<and> fl_inv s' ys \<and> NotInQueue (bd_at s' b))"
proof (cases xs)
  case Nil
  then have "fl_nxt s (Free_List_Descriptor s) = Free_List_Descriptor s"
    using fl_invD(3) [OF inv] by simp
  then show ?thesis using Nil by (simp add: get_free_buffer_def fl_nxt_def)
next
  case (Cons b ys)
  have h: "free_next (bd_at s (Free_List_Descriptor s)) = b"
    using ring_nxt_head [OF fl_invD(3) [OF inv]] Cons by (simp add: fl_nxt_def)
  have b: "bd_in s b" "b \<noteq> Free_List_Descriptor s" "b \<notin> set ys"
    using fl_inv_member [OF inv, of b] fl_invD(3) [OF inv] Cons by (auto simp: ring_def)
  obtain s1 where s1: "fl_unlink s b = Inr s1" "\<forall>j. bd_in s1 j = bd_in s j"
    "Free_List_Descriptor s1 = Free_List_Descriptor s"
    and inv': "fl_inv (bd_upd s1 b (\<lambda>d. d\<lparr>flags := flags d AND NOT BM_FREE\<rparr>)) ([] @ ys)"
    using fl_remove_member [of s "[]" b ys] inv Cons by auto
  have "NotInQueue (bd_at (bd_upd s1 b (\<lambda>d. d\<lparr>flags := flags d AND NOT BM_FREE\<rparr>)) b)"
    using b s1 by (intro fl_invD(6) [OF inv']) auto
  then show ?thesis using Cons h b s1 inv' by (simp add: get_free_buffer_def Let_def)
qed

theorem get_free_buffer_correct_witness:
  "\<exists>s s'. fl_inv s [1, 2, 0] \<and> get_free_buffer s = Inr (Some 1, s') \<and> fl_inv s' [2, 0]"
  using pool_of_three get_free_buffer_correct [of _ "[1, 2, 0]"] by fastforce

text \<open>
  The replacement policy is least recently used: pinning a free buffer takes it off the free
  list wherever it stands (no assertion fails, its count becomes 1), and unpinning it puts it at
  the end, behind every other free buffer.
\<close>

theorem pin_unpin_lru:
  assumes inv: "fl_inv s (ys @ b # zs)"
  shows "\<exists>s1 s2. pin_buffer s b = Inr s1 \<and> fl_inv s1 (ys @ zs) \<and> refcount (bd_at s1 b) = 1 \<and>
    unpin_buffer s1 b = Inr s2 \<and> fl_inv s2 (ys @ zs @ [b])"
proof -
  obtain s1 where s1: "pin_buffer s b = Inr s1" "fl_inv s1 (ys @ zs)" "refcount (bd_at s1 b) = 1"
    "PrivateRefCount s1 ! nat b = 1" "bd_in s1 b" "b \<noteq> Free_List_Descriptor s1"
    using pin_free_buffer [OF inv] by blast
  have "b \<notin> set (ys @ zs)" using fl_invD(3) [OF inv] by (simp add: ring_def)
  then obtain s2 where "unpin_buffer s1 b = Inr s2" "fl_inv s2 ((ys @ zs) @ [b])"
    using unpin_last [OF s1(2,5,6) _ s1(3,4)] by blast
  then show ?thesis using s1 by auto
qed

theorem pin_unpin_lru_witness:
  "\<exists>s s1 s2. fl_inv s [1, 2, 0] \<and> pin_buffer s 2 = Inr s1 \<and> unpin_buffer s1 2 = Inr s2 \<and>
     fl_inv s2 [1, 0, 2]"
  using pool_of_three pin_unpin_lru [of _ "[1]" 2 "[0]"] by fastforce

end
