(* ===== verification/Hashfn.thy ===== *)
theory Hashfn
  imports Prelude "HOL-Library.Signed_Division"
begin

text \<open>
  The hash functions of \<^verbatim>\<open>utils/hash/hashfn.c\<close> on the bytes of a key. \<open>string_hash\<close> computes in
  a 32-bit \<open>int\<close>, \<open>tag_hash\<close> in a 64-bit \<open>long\<close>, both with wrap-around; the final remainder is
  C's, which takes the sign of the dividend.
\<close>

definition PRIME1 :: int where "PRIME1 = 37"
definition PRIME2 :: int where "PRIME2 = 1048583"

text \<open>The loop of \<open>string_hash\<close> up to the terminating zero byte.\<close>

fun string_hash_loop :: "32 word \<Rightarrow> byte list \<Rightarrow> 32 word" where
  "string_hash_loop h [] = h"
| "string_hash_loop h (k # ks) =
     (if k = 0 then h else string_hash_loop ((h * of_int PRIME1) XOR (ucast k - 32)) ks)"

definition string_hash :: "byte list \<Rightarrow> nat \<Rightarrow> int" where
  "string_hash key keysize = sint (string_hash_loop 0 key) smod PRIME2"

text \<open>The \<open>int\<close> at the start of the remaining key, and one round on an \<open>int\<close> or a (signed) \<open>char\<close>.\<close>

definition int_at :: "byte list \<Rightarrow> 32 word" where
  "int_at ks = get32 (\<lambda>i. ks ! i) 0"

definition hash_int :: "64 word \<Rightarrow> byte list \<Rightarrow> 64 word" where
  "hash_int h ks = (h * of_int PRIME1) XOR scast (int_at ks)"

definition hash_char :: "64 word \<Rightarrow> byte \<Rightarrow> 64 word" where
  "hash_char h k = (h * of_int PRIME1) XOR scast k"

text \<open>The cases of the jump table fall through: entering at \<open>n * sizeof(int)\<close> runs \<open>n\<close> rounds.\<close>

fun tag_cases :: "nat \<Rightarrow> 64 word \<Rightarrow> byte list \<Rightarrow> 64 word" where
  "tag_cases 0 h key = h"
| "tag_cases (Suc n) h key = tag_cases n (hash_int h key) (drop 4 key)"

text \<open>The default case: a loop over whole \<open>int\<close>s, then the last one to three bytes.\<close>

function tag_loop :: "64 word \<Rightarrow> byte list \<Rightarrow> nat \<Rightarrow> 64 word \<times> byte list \<times> nat" where
  "tag_loop h key keysize =
     (if keysize \<ge> 4 then tag_loop (hash_int h key) (drop 4 key) (keysize - 4) else (h, key, keysize))"
  by pat_completeness auto
termination by (relation "measure (\<lambda>(h, key, keysize). keysize)") auto

declare tag_loop.simps [simp del]

definition tag_default :: "64 word \<Rightarrow> byte list \<Rightarrow> nat \<Rightarrow> 64 word" where
  "tag_default h key keysize =
     (case tag_loop h key keysize of (h, key, keysize) \<Rightarrow>
        if keysize = 3 then hash_char (hash_char (hash_char h (key ! 0)) (key ! 1)) (key ! 2)
        else if keysize = 2 then hash_char (hash_char h (key ! 0)) (key ! 1)
        else if keysize = 1 then hash_char h (key ! 0) else h)"

definition tag_hash :: "byte list \<Rightarrow> nat \<Rightarrow> int" where
  "tag_hash key keysize =
     sint (if keysize = 6 * 4 then tag_cases 6 0 key
           else if keysize = 5 * 4 then tag_cases 5 0 key
           else if keysize = 4 * 4 then tag_cases 4 0 key
           else if keysize = 3 * 4 then tag_cases 3 0 key
           else if keysize = 2 * 4 then tag_cases 2 0 key
           else if keysize = 4 then tag_cases 1 0 key
           else tag_default 0 key keysize) smod PRIME2"

section \<open>Lemmas\<close>

lemma tag_loop_cases: "tag_loop h key (4 * n) = (tag_cases n h key, drop (4 * n) key, 0)"
proof (induction n arbitrary: h key)
  case 0
  show ?case by (subst tag_loop.simps) simp
next
  case (Suc n)
  show ?case by (subst tag_loop.simps) (simp add: Suc add.commute)
qed

lemma smod_bound:
  fixes a m :: int
  assumes "0 < m"
  shows "\<bar>a smod m\<bar> < m"
proof -
  have "a smod m = (if a < 0 then - (- a mod m) else a mod m)"
    using assms by (auto simp: signed_modulo_int_def signed_divide_int_def sgn_if
        minus_mult_div_eq_mod minus_div_mult_eq_mod)
  moreover have "\<bar>x mod m\<bar> < m" for x using assms by simp
  ultimately show ?thesis by simp
qed

lemma int_at_cong: "take 4 a = take 4 b \<Longrightarrow> 4 \<le> length a \<Longrightarrow> 4 \<le> length b \<Longrightarrow> int_at a = int_at b"
  unfolding int_at_def by (rule get32_cong) (metis add_0 nth_take)

section \<open>Properties\<close>

text \<open>
  C23. The jump table of \<open>tag_hash\<close> is an optimisation only: for every key and key size the result
  is the one of the general loop over whole integers and trailing bytes.
\<close>

theorem tag_hash_jump_table: "tag_hash key n = sint (tag_default 0 key n) smod PRIME2"
proof -
  have "tag_default 0 key (4 * m) = tag_cases m 0 key" for m
    by (simp add: tag_default_def tag_loop_cases)
  from this [of 1] this [of 2] this [of 3] this [of 4] this [of 5] this [of 6] show ?thesis
    by (auto simp: tag_hash_def)
qed

text \<open>
  Both hash functions return a value strictly between \<open>-PRIME2\<close> and \<open>PRIME2\<close> on every key,
  wrap-around of the accumulator included.
\<close>

theorem hash_functions_bounded: "\<bar>string_hash key n\<bar> < PRIME2 \<and> \<bar>tag_hash key n\<bar> < PRIME2"
  by (auto simp: string_hash_def tag_hash_def PRIME2_def intro!: smod_bound)

end
