(* ===== verification/Links.thy ===== *)
theory Links
  imports Prelude
begin

text \<open>
  Two things the pointer-based components share: singly linked structures threaded through a memory
  of words, and the interface of a memory allocator with a concrete instance of it.
\<close>

section \<open>Linked paths\<close>

text \<open>\<open>path m i xs\<close>: following the words of \<open>m\<close> from index \<open>i\<close> visits exactly \<open>xs\<close>, then ends with 0.\<close>

fun path :: "(nat \<Rightarrow> nat) \<Rightarrow> nat \<Rightarrow> nat list \<Rightarrow> bool" where
  "path m i [] = (i = 0)"
| "path m i (x # xs) = (i = x \<and> x \<noteq> 0 \<and> path m (m x) xs)"

lemma path_cong: "(\<And>x. x \<in> set xs \<Longrightarrow> m' x = m x) \<Longrightarrow> path m' i xs = path m i xs"
  by (induction xs arbitrary: i) auto

lemma path_nonzero: "path m i xs \<Longrightarrow> x \<in> set xs \<Longrightarrow> x \<noteq> 0"
  by (induction xs arbitrary: i) auto

lemma path_append_end:
  assumes "path m (m a) xs" "distinct xs" "a \<notin> set xs" "e \<noteq> 0" "e \<notin> set xs" "e \<noteq> a"
    "m' (last (a # xs)) = e" "m' e = 0" "\<And>z. z \<noteq> last (a # xs) \<Longrightarrow> z \<noteq> e \<Longrightarrow> m' z = m z"
  shows "path m' (m' a) (xs @ [e])"
  using assms
proof (induction xs arbitrary: a)
  case (Cons x xs)
  have l: "last (a # x # xs) = last (x # xs)" "last (x # xs) \<noteq> a"
    using Cons.prems(3) last_in_set [of "x # xs"] by auto
  have "path m' (m' x) (xs @ [e])"
    by (rule Cons.IH) (use Cons.prems l in auto)
  moreover have "m' a = x" using Cons.prems(1,6) Cons.prems(9) [of a] l by simp
  ultimately show ?case using Cons.prems(1) by simp
qed auto

lemma path_remove:
  assumes "path m (m a) (ys @ x # zs)" "distinct (ys @ x # zs)" "a \<notin> set (ys @ x # zs)"
    "m' (last (a # ys)) = m x" "\<And>z. z \<noteq> last (a # ys) \<Longrightarrow> z \<noteq> x \<Longrightarrow> m' z = m z"
  shows "path m' (m' a) (ys @ zs)"
  using assms
proof (induction ys arbitrary: a)
  case Nil
  have "path m' (m x) zs = path m (m x) zs"
  proof (rule path_cong)
    fix z assume "z \<in> set zs"
    then have "z \<noteq> a" "z \<noteq> x" using Nil by auto
    then show "m' z = m z" using Nil.prems(5) [of z] by simp
  qed
  then show ?case using Nil by auto
next
  case (Cons y ys)
  have l: "last (a # y # ys) = last (y # ys)" "last (y # ys) \<noteq> a"
    using Cons.prems(3) last_in_set [of "y # ys"] by auto
  have "path m' (m' y) (ys @ zs)"
    by (rule Cons.IH) (use Cons.prems l in auto)
  moreover have "m' a = y" using Cons.prems(1,3) Cons.prems(5) [of a] l by simp
  ultimately show ?case using Cons.prems(1) by simp
qed

lemma path_replace:
  assumes "path m i (ys @ b # zs)" "distinct (ys @ b # zs)" "n \<notin> set (ys @ zs)" "n \<noteq> 0" "m' n = m b"
    "ys \<noteq> [] \<Longrightarrow> m' (last ys) = n" "\<And>z. z \<in> set (butlast ys @ zs) \<Longrightarrow> m' z = m z"
  shows "path m' (if ys = [] then n else i) (ys @ n # zs)"
  using assms
proof (induction ys arbitrary: i)
  case Nil
  then have "path m' (m b) zs = path m (m b) zs" by (intro path_cong) simp
  then show ?case using Nil by simp
next
  case (Cons y ys)
  have "path m' (if ys = [] then n else m y) (ys @ n # zs)"
    using Cons.prems by (intro Cons.IH) (auto split: if_splits)
  moreover have "m' y = (if ys = [] then n else m y)" using Cons.prems(6) Cons.prems(7) [of y] by auto
  ultimately show ?case using Cons.prems(1) by simp
qed

section \<open>The allocator interface\<close>

text \<open>
  \<open>blocks hp\<close> maps the addresses of the live blocks of the heap \<open>hp\<close> to their sizes. An allocation
  fails with 0 and changes no block, or returns a new block of at least the requested size that
  overlaps no live block.
\<close>

locale allocator =
  fixes alloc :: "'h \<Rightarrow> nat \<Rightarrow> nat \<times> 'h"
    and mfree :: "'h \<Rightarrow> nat \<Rightarrow> 'h"
    and blocks :: "'h \<Rightarrow> nat \<Rightarrow> nat option"
    and valid :: "'h \<Rightarrow> bool"
  assumes alloc_null: "valid hp \<Longrightarrow> alloc hp n = (0, hp') \<Longrightarrow> valid hp' \<and> blocks hp' = blocks hp"
    and alloc_block: "valid hp \<Longrightarrow> alloc hp n = (a, hp') \<Longrightarrow> a \<noteq> 0 \<Longrightarrow>
      valid hp' \<and> blocks hp a = None \<and>
      (\<exists>m \<ge> n. blocks hp' = (blocks hp)(a \<mapsto> m) \<and>
        (\<forall>b k. blocks hp b = Some k \<longrightarrow> {a..<a + m} \<inter> {b..<b + k} = {}))"
    and free_block: "valid hp \<Longrightarrow> blocks hp a = Some n \<Longrightarrow>
      valid (mfree hp a) \<and> blocks (mfree hp a) = (blocks hp)(a := None)"

section \<open>A concrete allocator\<close>

text \<open>It never fails and never reuses an address.\<close>

type_synonym bump = "nat \<times> (nat \<rightharpoonup> nat)"

definition bump_alloc :: "bump \<Rightarrow> nat \<Rightarrow> nat \<times> bump" where
  "bump_alloc hp n = (fst hp, (fst hp + n + 1, (snd hp)(fst hp \<mapsto> n)))"

definition bump_free :: "bump \<Rightarrow> nat \<Rightarrow> bump" where
  "bump_free hp a = (fst hp, (snd hp)(a := None))"

definition bump_valid :: "bump \<Rightarrow> bool" where
  "bump_valid hp \<longleftrightarrow> 0 < fst hp \<and> (\<forall>b m. snd hp b = Some m \<longrightarrow> b + m < fst hp)"

interpretation bump: allocator bump_alloc bump_free snd bump_valid
proof unfold_locales
  fix hp hp' :: bump and n a
  assume v: "bump_valid hp" and r: "bump_alloc hp n = (a, hp')" "a \<noteq> 0"
  have none: "snd hp (fst hp) = None" using v by (cases "snd hp (fst hp)") (auto simp: bump_valid_def)
  have bound: "b + m < fst hp" if "snd hp b = Some m" for b m using v that by (simp add: bump_valid_def)
  have disj: "{fst hp..<fst hp + n} \<inter> {b..<b + m} = {}" if "snd hp b = Some m" for b m
    using bound [OF that] by auto
  have eq: "a = fst hp" "hp' = (fst hp + n + 1, (snd hp)(fst hp \<mapsto> n))" using r by (auto simp: bump_alloc_def)
  have "bump_valid hp'"
    using bound unfolding bump_valid_def eq by (auto simp: less_Suc_eq_le less_imp_le trans_le_add1 split: if_splits)
  then show "bump_valid hp' \<and> snd hp a = None \<and>
      (\<exists>m \<ge> n. snd hp' = (snd hp)(a \<mapsto> m) \<and> (\<forall>b k. snd hp b = Some k \<longrightarrow> {a..<a + m} \<inter> {b..<b + k} = {}))"
    using disj none by (intro conjI exI [of _ n]) (simp_all add: eq)
qed (auto simp: bump_alloc_def bump_valid_def bump_free_def)

lemmas bump_allocator = bump.allocator_axioms

end
