(* ===== verification/Dynahash.thy ===== *)
theory Dynahash
  imports Hashfn Links
begin

text \<open>
  Dynamic (linear) hashing: \<^verbatim>\<open>utils/hash/dynahash.c\<close> with the constants and structures of
  \<^verbatim>\<open>hsearch.h\<close>. A table is a directory of segments, each an array of bucket heads; the elements of a
  bucket hang on its head through their \<open>next\<close> word. Memory is explicit: \<open>wmem\<close> holds the words at
  the addresses of bucket heads and of the \<open>next\<close> fields (the first word of an element), \<open>kmem\<close> and
  \<open>dmem\<close> the key bytes and the client's data of the element at an address. Addresses are taken
  relative to \<open>segbase\<close>, so 0 is both \<open>INVALID_INDEX\<close> and the null pointer. The allocator is a
  function pointer of the table, as in the program, over an abstract heap state. Loops along chains
  are partial functions: \<open>None\<close> is a loop that does not end.
\<close>

section \<open>Tables\<close>

definition DEF_SEGSIZE :: nat where "DEF_SEGSIZE = 256"
definition DEF_SEGSIZE_SHIFT :: nat where "DEF_SEGSIZE_SHIFT = 8"
definition DEF_DIRSIZE :: nat where "DEF_DIRSIZE = 256"
definition DEF_FFACTOR :: nat where "DEF_FFACTOR = 1"
definition INVALID_INDEX :: nat where "INVALID_INDEX = 0"
definition NO_MAX_DSIZE :: int where "NO_MAX_DSIZE = - 1"
definition BUCKET_ALLOC_INCR :: nat where "BUCKET_ALLOC_INCR = 30"

definition sizeof_HTAB :: nat where "sizeof_HTAB = 40"
definition sizeof_HHDR :: nat where "sizeof_HHDR = 120"
definition sizeof_BUCKET_INDEX :: nat where "sizeof_BUCKET_INDEX = 8"
definition sizeof_SEG_OFFSET :: nat where "sizeof_SEG_OFFSET = 8"
definition sizeof_pointer :: nat where "sizeof_pointer = 8"

lemmas hash_consts [simp] = DEF_SEGSIZE_def DEF_SEGSIZE_SHIFT_def DEF_DIRSIZE_def DEF_FFACTOR_def
  INVALID_INDEX_def NO_MAX_DSIZE_def BUCKET_ALLOC_INCR_def sizeof_HTAB_def sizeof_HHDR_def
  sizeof_BUCKET_INDEX_def sizeof_SEG_OFFSET_def sizeof_pointer_def

text \<open>
  The header (\<open>HashHeader\<close>), the handle (\<open>HashTable\<close>) and the memory the table uses. \<open>save_state\<close>
  is the static variable of \<open>hash_search\<close>.
\<close>

record 'h HTAB =
  dsize :: nat
  ssize :: nat
  sshift :: nat
  max_bucket :: nat
  high_mask :: nat
  low_mask :: nat
  ffactor :: nat
  nkeys :: nat
  nsegs :: nat
  keysize :: nat
  datasize :: nat
  max_dsize :: int
  free_bucket_index :: nat
  hctl_ptr :: nat
  hashp_ptr :: nat
  hash_fn :: "byte list \<Rightarrow> nat \<Rightarrow> int"
  shared :: bool
  default_alloc :: bool
  alloc_fn :: "'h \<Rightarrow> nat \<Rightarrow> nat \<times> 'h"
  dir_ptr :: nat
  dir :: "nat \<Rightarrow> nat"
  wmem :: "nat \<Rightarrow> nat"
  kmem :: "nat \<Rightarrow> byte list"
  dmem :: "nat \<Rightarrow> nat"
  heap :: 'h
  save_state :: "nat \<times> nat \<times> nat"

datatype HASHACTION = HASH_FIND | HASH_ENTER | HASH_REMOVE | HASH_FIND_SAVE | HASH_REMOVE_SAVED

text \<open>A result pointer: \<open>NULL\<close>, the constant \<open>(long*)true\<close>, or the key field of an element.\<close>

datatype hresult = HNull | HTrue | HElem nat

definition MOD :: "nat \<Rightarrow> nat \<Rightarrow> nat" where
  "MOD x y = x AND (y - 1)"

definition call_hash :: "'h HTAB \<Rightarrow> byte list \<Rightarrow> nat" where
  "call_hash h k =
     (let hash_val = hash_fn h k (keysize h);
          bucket = nat (hash_val AND int (high_mask h))
      in if bucket > max_bucket h then bucket AND low_mask h else bucket)"

definition slot_addr :: "'h HTAB \<Rightarrow> nat \<Rightarrow> nat" where
  "slot_addr h bucket = dir h (drop_bit (sshift h) bucket) + sizeof_BUCKET_INDEX * MOD bucket (ssize h)"

section \<open>Growing the table\<close>

definition seg_alloc :: "'h HTAB \<Rightarrow> nat \<times> 'h HTAB" where
  "seg_alloc h =
     (case alloc_fn h (heap h) (sizeof_BUCKET_INDEX * ssize h) of (segp, hp) \<Rightarrow>
        if segp = 0 then (0, h\<lparr>heap := hp\<rparr>)
        else (segp, h\<lparr>heap := hp,
               wmem := (\<lambda>a. if segp \<le> a \<and> a < segp + sizeof_BUCKET_INDEX * ssize h then 0 else wmem h a)\<rparr>))"

text \<open>The loop of \<open>bucket_alloc\<close>: link each new bucket to the one behind it.\<close>

fun link_buckets :: "(nat \<Rightarrow> nat) \<Rightarrow> nat \<Rightarrow> nat \<Rightarrow> nat \<Rightarrow> nat \<Rightarrow> (nat \<Rightarrow> nat) \<times> nat" where
  "link_buckets m tmp_bucket tmp_index bucket_size 0 = (m, tmp_bucket)"
| "link_buckets m tmp_bucket tmp_index bucket_size (Suc i) =
     link_buckets (m(tmp_index := tmp_index + bucket_size)) tmp_index (tmp_index + bucket_size) bucket_size i"

definition bucket_size_of :: "'h HTAB \<Rightarrow> nat" where
  "bucket_size_of h = MAX_ALIGN (sizeof_BUCKET_INDEX + keysize h + datasize h)"

definition bucket_alloc :: "'h HTAB \<Rightarrow> bool \<times> 'h HTAB" where
  "bucket_alloc h =
     (case alloc_fn h (heap h) (BUCKET_ALLOC_INCR * bucket_size_of h) of (tmp_bucket, hp) \<Rightarrow>
        if tmp_bucket = 0 then (False, h\<lparr>heap := hp\<rparr>)
        else let last_index = free_bucket_index h;
                 (m, tmp) = link_buckets (wmem h) tmp_bucket tmp_bucket (bucket_size_of h) BUCKET_ALLOC_INCR
             in (True, h\<lparr>heap := hp, free_bucket_index := tmp_bucket, wmem := m(tmp := last_index)\<rparr>))"

definition dir_realloc :: "('h \<Rightarrow> nat \<Rightarrow> 'h) \<Rightarrow> 'h HTAB \<Rightarrow> bool \<times> 'h HTAB" where
  "dir_realloc MEM_FREE h =
     (if max_dsize h \<noteq> NO_MAX_DSIZE then (False, h)
      else let new_dsize = push_bit 1 (dsize h)
           in case alloc_fn h (heap h) (new_dsize * sizeof_SEG_OFFSET) of (p, hp) \<Rightarrow>
             if p \<noteq> 0
             then (True, h\<lparr>dir := (\<lambda>i. if dsize h \<le> i \<and> i < new_dsize then 0 else dir h i),
                           heap := MEM_FREE hp (dir_ptr h), dir_ptr := p, dsize := new_dsize\<rparr>)
             else (False, h\<lparr>heap := hp\<rparr>))"

text \<open>The relocation loop of \<open>expand_table\<close>; \<open>stays ci\<close> is the comparison of the new hash with the old bucket.\<close>

partial_function (option) relocate ::
  "(nat \<Rightarrow> bool) \<Rightarrow> (nat \<Rightarrow> nat) \<Rightarrow> nat \<Rightarrow> nat \<Rightarrow> nat \<Rightarrow> (nat \<Rightarrow> nat) option" where
  "relocate stays m old newbi chain_index =
     (if chain_index \<noteq> INVALID_INDEX then
        if stays chain_index then relocate stays (m(old := chain_index)) chain_index newbi (m chain_index)
        else relocate stays (m(newbi := chain_index)) old chain_index (m chain_index)
      else Some (m(old := INVALID_INDEX, newbi := INVALID_INDEX)))"

text \<open>
  The two parts of \<open>expand_table\<close>: room for the new bucket in the directory and its segment, and
  the split of one old bucket.
\<close>

definition expand_segment :: "('h \<Rightarrow> nat \<Rightarrow> 'h) \<Rightarrow> 'h HTAB \<Rightarrow> bool \<times> 'h HTAB" where
  "expand_segment MEM_FREE h =
     (let new_segnum = drop_bit (sshift h) (max_bucket h + 1)
      in if new_segnum \<ge> nsegs h then
           case (if new_segnum \<ge> dsize h then dir_realloc MEM_FREE h else (True, h)) of (ok, h1) \<Rightarrow>
             if \<not> ok then (False, h1)
             else case seg_alloc h1 of (segp, h2) \<Rightarrow>
               let h3 = h2\<lparr>dir := (dir h2)(new_segnum := segp)\<rparr>
               in if segp = 0 then (False, h3) else (True, h3\<lparr>nsegs := nsegs h3 + 1\<rparr>)
         else (True, h))"

definition split_bucket :: "'h HTAB \<Rightarrow> 'h HTAB option" where
  "split_bucket h0 =
     (let new_bucket = max_bucket h0 + 1;
          h1 = h0\<lparr>max_bucket := max_bucket h0 + 1\<rparr>;
          old_bucket = new_bucket AND low_mask h1;
          h2 = (if new_bucket > high_mask h1
                then h1\<lparr>low_mask := high_mask h1, high_mask := new_bucket OR high_mask h1\<rparr> else h1);
          old = slot_addr h2 old_bucket; newbi = slot_addr h2 new_bucket
      in case relocate (\<lambda>e. call_hash h2 (kmem h2 e) = old_bucket) (wmem h2) old newbi (wmem h2 old) of
           None \<Rightarrow> None
         | Some m \<Rightarrow> Some (h2\<lparr>wmem := m\<rparr>))"

definition expand_table :: "('h \<Rightarrow> nat \<Rightarrow> 'h) \<Rightarrow> 'h HTAB \<Rightarrow> (bool \<times> 'h HTAB) option" where
  "expand_table MEM_FREE h =
     (case expand_segment MEM_FREE h of (ok, h1) \<Rightarrow>
        if \<not> ok then Some (False, h1)
        else case split_bucket h1 of None \<Rightarrow> None | Some h2 \<Rightarrow> Some (True, h2))"

section \<open>Search\<close>

text \<open>
  The loop that follows a collision chain: the address of the link reached (\<open>prev_index_ptr\<close>) and
  the index in it (\<open>curr_index\<close>), 0 at the end of the chain.
\<close>

partial_function (option) chain_walk ::
  "(nat \<Rightarrow> nat) \<Rightarrow> (nat \<Rightarrow> byte list) \<Rightarrow> byte list \<Rightarrow> nat \<Rightarrow> (nat \<times> nat) option" where
  "chain_walk m km key prev_index_ptr =
     (let curr_index = m prev_index_ptr
      in if curr_index \<noteq> INVALID_INDEX then
           if km curr_index = key then Some (prev_index_ptr, curr_index)
           else chain_walk m km key curr_index
         else Some (prev_index_ptr, curr_index))"

text \<open>The last part of \<open>hash_search\<close>, reached by \<open>HASH_ENTER\<close> when the key is absent.\<close>

definition hash_enter_new ::
  "bool \<Rightarrow> ('h \<Rightarrow> nat \<Rightarrow> 'h) \<Rightarrow> 'h HTAB \<Rightarrow> byte list \<Rightarrow> nat \<Rightarrow> (hresult \<times> 'h HTAB) cres option" where
  "hash_enter_new asserts MEM_FREE h key prev_index_ptr =
     (case (if free_bucket_index h = INVALID_INDEX then bucket_alloc h else (True, h)) of (ok, h1) \<Rightarrow>
        if \<not> ok then Some (Inr (HNull, h1))
        else let curr_index = free_bucket_index h1
             in if asserts \<and> curr_index \<noteq> INVALID_INDEX then Some (Inl Assert_failed)
                else if curr_index = 0 then Some (Inl Bad_pointer)
                else let h2 = h1\<lparr>free_bucket_index := wmem h1 curr_index,
                                 wmem := (wmem h1)(prev_index_ptr := curr_index, curr_index := INVALID_INDEX),
                                 kmem := (kmem h1)(curr_index := key), nkeys := nkeys h1 + 1\<rparr>
                     in if nkeys h2 div (max_bucket h2 + 1) > ffactor h2
                        then case expand_table MEM_FREE h2 of None \<Rightarrow> None
                             | Some (_, h3) \<Rightarrow> Some (Inr (HElem curr_index, h3))
                        else Some (Inr (HElem curr_index, h2)))"

text \<open>
  \<open>hash_search\<close> returns the result pointer, \<open>*found_ptr\<close> and the table. \<open>HASH_REMOVE_SAVED\<close> reads
  the uninitialised local variables \<open>curr_index\<close>, \<open>curr\<close> and \<open>prev_index_ptr\<close>. The flag \<open>asserts\<close>
  tells a build with assertions from one compiled with \<open>NDEBUG\<close>.
\<close>

definition hash_search ::
  "bool \<Rightarrow> ('h \<Rightarrow> nat \<Rightarrow> 'h) \<Rightarrow> 'h HTAB \<Rightarrow> byte list \<Rightarrow> HASHACTION \<Rightarrow> (hresult \<times> bool \<times> 'h HTAB) cres option" where
  "hash_search asserts MEM_FREE h key action =
     (if action = HASH_REMOVE_SAVED then Some (Inl Bad_pointer)
      else let bucket = call_hash h key;
               segp = dir h (drop_bit (sshift h) bucket)
      in if segp = 0 then Some (Inl (if asserts then Assert_failed else Bad_pointer))
      else case chain_walk (wmem h) (kmem h) key (slot_addr h bucket) of None \<Rightarrow> None
      | Some (prev_index_ptr, curr_index) \<Rightarrow>
        let found = (curr_index \<noteq> INVALID_INDEX) in
        case action of
          HASH_FIND \<Rightarrow> Some (Inr (if found then HElem curr_index else HTrue, found, h))
        | HASH_FIND_SAVE \<Rightarrow>
            Some (Inr (if found then HElem curr_index else HTrue, found,
                  if found then h\<lparr>save_state := (curr_index, curr_index, prev_index_ptr)\<rparr> else h))
        | HASH_ENTER \<Rightarrow>
            if found then Some (Inr (HElem curr_index, found, h))
            else (case hash_enter_new asserts MEM_FREE h key prev_index_ptr of None \<Rightarrow> None
                  | Some (Inl e) \<Rightarrow> Some (Inl e)
                  | Some (Inr (r, h')) \<Rightarrow> Some (Inr (r, found, h')))
        | _ \<Rightarrow>
            if found then
              if asserts \<and> \<not> nkeys h > 0 then Some (Inl Assert_failed)
              else let m1 = (wmem h)(prev_index_ptr := wmem h curr_index)
                   in Some (Inr (HElem curr_index, found,
                        h\<lparr>nkeys := nkeys h - 1, wmem := m1(curr_index := free_bucket_index h),
                          free_bucket_index := curr_index\<rparr>))
            else Some (Inr (HTrue, found, h)))"

text \<open>
  \<open>hash_seq\<close> with its static cursor \<open>S_CurBucket\<close>, \<open>S_CurIndex\<close>; \<open>None\<close> as table resets it.
\<close>

function hash_seq_loop :: "'h HTAB \<Rightarrow> nat \<Rightarrow> nat \<Rightarrow> hresult \<times> nat \<times> nat" where
  "hash_seq_loop h S_CurBucket S_CurIndex =
     (if S_CurBucket \<le> max_bucket h then
        if S_CurIndex \<noteq> INVALID_INDEX then
          let nxt = wmem h S_CurIndex
          in (HElem S_CurIndex, if nxt = INVALID_INDEX then S_CurBucket + 1 else S_CurBucket, nxt)
        else let segp = dir h (drop_bit (sshift h) S_CurBucket)
             in if segp = 0 then (HNull, S_CurBucket, S_CurIndex)
                else let i = wmem h (slot_addr h S_CurBucket)
                     in if i = INVALID_INDEX then hash_seq_loop h (S_CurBucket + 1) i
                        else (HElem i, if wmem h i = INVALID_INDEX then S_CurBucket + 1 else S_CurBucket, wmem h i)
      else (HTrue, S_CurBucket, S_CurIndex))"
  by pat_completeness auto
termination by (relation "measure (\<lambda>(h, b, i). max_bucket h + 1 - b)") auto

declare hash_seq_loop.simps [simp del]

definition hash_seq :: "'h HTAB option \<Rightarrow> nat \<times> nat \<Rightarrow> hresult \<times> nat \<times> nat" where
  "hash_seq hashp cursor =
     (case hashp of None \<Rightarrow> (HNull, 0, INVALID_INDEX)
      | Some h \<Rightarrow> hash_seq_loop h (fst cursor) (snd cursor))"

section \<open>Creating and destroying tables\<close>

function my_log2_loop :: "nat \<Rightarrow> int \<Rightarrow> int \<Rightarrow> nat" where
  "my_log2_loop i limit num =
     (if limit < num \<and> 0 < limit then my_log2_loop (i + 1) (push_bit 1 limit) num else i)"
  by pat_completeness auto
termination by (relation "measure (\<lambda>(i, limit, num). nat (num - limit))") (auto simp: push_bit_eq_mult)

declare my_log2_loop.simps [simp del]

definition my_log2 :: "int \<Rightarrow> nat" where
  "my_log2 num = my_log2_loop 0 1 num"

function double_until :: "nat \<Rightarrow> nat \<Rightarrow> nat" where
  "double_until ndir_entries nsegments =
     (if ndir_entries < nsegments \<and> 0 < ndir_entries then double_until (push_bit 1 ndir_entries) nsegments
      else ndir_entries)"
  by pat_completeness auto
termination by (relation "measure (\<lambda>(n, s). s - n)") (auto simp: push_bit_eq_mult)

declare double_until.simps [simp del]

definition wanted_buckets :: "int \<Rightarrow> int" where
  "wanted_buckets num_entries = push_bit (my_log2 ((num_entries - 1) sdiv int DEF_FFACTOR + 1)) 1"

definition wanted_segments :: "int \<Rightarrow> int" where
  "wanted_segments nbuckets = push_bit (my_log2 ((nbuckets - 1) sdiv int DEF_SEGSIZE + 1)) 1"

definition hash_select_dirsize :: "int \<Rightarrow> nat" where
  "hash_select_dirsize num_entries =
     double_until DEF_DIRSIZE (nat (wanted_segments (wanted_buckets num_entries)))"

definition hash_estimate_size :: "int \<Rightarrow> nat \<Rightarrow> nat \<Rightarrow> int" where
  "hash_estimate_size num_entries ksize dtsize =
     (let nbuckets = wanted_buckets num_entries;
          nsegments = wanted_segments nbuckets;
          ndir_entries = double_until DEF_DIRSIZE (nat nsegments);
          record_size = MAX_ALIGN (sizeof_BUCKET_INDEX + ksize + dtsize);
          nrecord_allocs = (num_entries - 1) sdiv int BUCKET_ALLOC_INCR + 1
      in int (MAX_ALIGN sizeof_HHDR) + int (MAX_ALIGN (ndir_entries * sizeof_SEG_OFFSET)) +
         nsegments * int (MAX_ALIGN (DEF_SEGSIZE * sizeof_BUCKET_INDEX)) +
         nrecord_allocs * int BUCKET_ALLOC_INCR * int record_size)"

definition hdefault :: "'h HTAB \<Rightarrow> 'h HTAB" where
  "hdefault h = h\<lparr>dsize := DEF_DIRSIZE, ssize := DEF_SEGSIZE, sshift := DEF_SEGSIZE_SHIFT, max_bucket := 0,
     high_mask := 0, low_mask := 0, ffactor := DEF_FFACTOR, nkeys := 0, nsegs := 0,
     keysize := sizeof_pointer, datasize := sizeof_pointer, max_dsize := NO_MAX_DSIZE,
     free_bucket_index := INVALID_INDEX\<rparr>"

text \<open>The loop that allocates the initial segments, \<open>k\<close> of them from number \<open>nsegs\<close> on.\<close>

fun alloc_segs :: "'h HTAB \<Rightarrow> nat \<Rightarrow> bool \<times> 'h HTAB" where
  "alloc_segs h 0 = (True, h)"
| "alloc_segs h (Suc k) =
     (case seg_alloc h of (segp, h1) \<Rightarrow>
        let h2 = h1\<lparr>dir := (dir h1)(nsegs h1 := segp)\<rparr>
        in if segp = 0 then (False, h2) else alloc_segs (h2\<lparr>nsegs := nsegs h2 + 1\<rparr>) k)"

definition init_htab :: "'h HTAB \<Rightarrow> int \<Rightarrow> bool \<times> 'h HTAB" where
  "init_htab h nelem0 =
     (let nelem = (nelem0 - 1) sdiv int (ffactor h) + 1;
          nbuckets = push_bit (my_log2 nelem) 1 :: nat;
          h1 = h\<lparr>max_bucket := nbuckets - 1, low_mask := nbuckets - 1, high_mask := push_bit 1 nbuckets - 1\<rparr>;
          segs = push_bit (my_log2 ((int nbuckets - 1) sdiv int (ssize h) + 1)) 1 :: nat
      in if segs > dsize h1 \<and> dir_ptr h1 \<noteq> 0 then (False, h1)
         else let h2 = (if segs > dsize h1 then h1\<lparr>dsize := segs\<rparr> else h1)
         in case (if dir_ptr h2 = 0
                  then case alloc_fn h2 (heap h2) (dsize h2 * sizeof_SEG_OFFSET) of (p, hp) \<Rightarrow>
                         (p \<noteq> 0, h2\<lparr>dir_ptr := p, heap := hp\<rparr>)
                  else (True, h2)) of (ok, h3) \<Rightarrow>
           if \<not> ok then (False, h3) else alloc_segs h3 (segs - nsegs h3))"

text \<open>
  \<open>hash_destroy\<close> hands every element of every chain, every segment, the directory, the header and
  the handle to \<open>MEM_FREE\<close>, one by one.
\<close>

partial_function (option) free_chain ::
  "('h \<Rightarrow> nat \<Rightarrow> 'h) \<Rightarrow> (nat \<Rightarrow> nat) \<Rightarrow> 'h \<Rightarrow> nat \<Rightarrow> 'h option" where
  "free_chain MEM_FREE m hp p =
     (if p \<noteq> INVALID_INDEX then free_chain MEM_FREE m (MEM_FREE hp p) (m p) else Some hp)"

fun free_chains :: "('h \<Rightarrow> nat \<Rightarrow> 'h) \<Rightarrow> (nat \<Rightarrow> nat) \<Rightarrow> 'h \<Rightarrow> nat \<Rightarrow> nat \<Rightarrow> 'h option" where
  "free_chains MEM_FREE m hp elp 0 = Some hp"
| "free_chains MEM_FREE m hp elp (Suc j) =
     (case free_chain MEM_FREE m hp (m elp) of None \<Rightarrow> None
      | Some hp' \<Rightarrow> free_chains MEM_FREE m hp' (elp + sizeof_BUCKET_INDEX) j)"

fun free_segs :: "('h \<Rightarrow> nat \<Rightarrow> 'h) \<Rightarrow> 'h HTAB \<Rightarrow> 'h \<Rightarrow> nat \<Rightarrow> nat \<Rightarrow> 'h option" where
  "free_segs MEM_FREE h hp seg_num 0 = Some hp"
| "free_segs MEM_FREE h hp seg_num (Suc n) =
     (case free_chains MEM_FREE (wmem h) hp (dir h seg_num) (ssize h) of None \<Rightarrow> None
      | Some hp' \<Rightarrow> free_segs MEM_FREE h (MEM_FREE hp' (dir h seg_num)) (seg_num + 1) n)"

definition hash_destroy :: "('h \<Rightarrow> nat \<Rightarrow> 'h) \<Rightarrow> 'h HTAB \<Rightarrow> 'h cres option" where
  "hash_destroy MEM_FREE h =
     (if shared h \<or> \<not> default_alloc h then Some (Inl Assert_failed)
      else case free_segs MEM_FREE h (heap h) 0 (nsegs h) of None \<Rightarrow> None
        | Some hp \<Rightarrow> Some (Inr (MEM_FREE (MEM_FREE (MEM_FREE hp (dir_ptr h)) (hctl_ptr h)) (hashp_ptr h))))"

text \<open>
  The argument record of \<open>hash_create\<close>. For a table in shared memory \<open>info_table\<close> is the state of
  the header, the directory and the segments that \<open>info->hctl\<close>, \<open>info->dir\<close> and \<open>info->segbase\<close>
  point to.
\<close>

record 'h HASHCTL =
  info_ssize :: nat
  info_dsize :: nat
  info_ffactor :: nat
  info_hash :: "byte list \<Rightarrow> nat \<Rightarrow> int"
  info_keysize :: nat
  info_datasize :: nat
  info_max_dsize :: int
  info_alloc :: "'h \<Rightarrow> nat \<Rightarrow> nat \<times> 'h"
  info_table :: "'h HTAB"

definition HASH_SEGMENT :: nat where "HASH_SEGMENT = 0x002"
definition HASH_DIRSIZE :: nat where "HASH_DIRSIZE = 0x004"
definition HASH_FFACTOR :: nat where "HASH_FFACTOR = 0x008"
definition HASH_FUNCTION :: nat where "HASH_FUNCTION = 0x010"
definition HASH_ELEM :: nat where "HASH_ELEM = 0x020"
definition HASH_SHARED_MEM :: nat where "HASH_SHARED_MEM = 0x040"
definition HASH_ATTACH :: nat where "HASH_ATTACH = 0x080"
definition HASH_ALLOC :: nat where "HASH_ALLOC = 0x100"

lemmas hash_flags = HASH_SEGMENT_def HASH_DIRSIZE_def HASH_FFACTOR_def HASH_FUNCTION_def HASH_ELEM_def
  HASH_SHARED_MEM_def HASH_ATTACH_def HASH_ALLOC_def

text \<open>
  The result is the table (or \<open>NULL\<close>) and the heap. Fields that \<open>MemSet\<close> clears in the handle are
  set by the branches below; the words, keys and data in memory are those of \<open>info_table\<close>.
\<close>

definition create_handle ::
  "('h \<Rightarrow> nat \<Rightarrow> nat \<times> 'h) \<Rightarrow> 'h HASHCTL \<Rightarrow> nat \<Rightarrow> nat \<Rightarrow> 'h \<Rightarrow> 'h HTAB" where
  "create_handle MEM_ALLOC info flags hashp hp =
     (let h = (info_table info)\<lparr>hashp_ptr := hashp, heap := hp,
                hash_fn := (if flags AND HASH_FUNCTION \<noteq> 0 then info_hash info else string_hash)\<rparr>
      in if flags AND HASH_SHARED_MEM \<noteq> 0
         then h\<lparr>shared := True, alloc_fn := info_alloc info, default_alloc := False\<rparr>
         else h\<lparr>hctl_ptr := 0, alloc_fn := MEM_ALLOC, default_alloc := True, dir_ptr := 0, shared := False\<rparr>)"

definition apply_info :: "'h HASHCTL \<Rightarrow> nat \<Rightarrow> 'h HTAB \<Rightarrow> 'h HTAB" where
  "apply_info info flags h =
     (let h1 = (if flags AND HASH_SEGMENT \<noteq> 0
                then h\<lparr>ssize := info_ssize info, sshift := my_log2 (int (info_ssize info))\<rparr> else h);
          h2 = (if flags AND HASH_FFACTOR \<noteq> 0 then h1\<lparr>ffactor := info_ffactor info\<rparr> else h1);
          h3 = (if flags AND HASH_DIRSIZE \<noteq> 0
                then h2\<lparr>max_dsize := info_max_dsize info, dsize := info_dsize info\<rparr> else h2);
          h4 = (if flags AND HASH_ELEM \<noteq> 0
                then h3\<lparr>keysize := info_keysize info, datasize := info_datasize info\<rparr> else h3)
      in if flags AND HASH_ALLOC \<noteq> 0 then h4\<lparr>alloc_fn := info_alloc info, default_alloc := False\<rparr> else h4)"

definition hash_create ::
  "('h \<Rightarrow> nat \<Rightarrow> nat \<times> 'h) \<Rightarrow> ('h \<Rightarrow> nat \<Rightarrow> 'h) \<Rightarrow> int \<Rightarrow> 'h HASHCTL \<Rightarrow> nat \<Rightarrow>
   ('h HTAB option \<times> 'h) cres option" where
  "hash_create MEM_ALLOC MEM_FREE nelem info flags =
     (case MEM_ALLOC (heap (info_table info)) sizeof_HTAB of (hashp, hp) \<Rightarrow>
      if hashp = 0 then Some (Inl Bad_pointer)
      else let h0 = create_handle MEM_ALLOC info flags hashp hp
      in if flags AND HASH_SHARED_MEM \<noteq> 0 \<and> flags AND HASH_ATTACH \<noteq> 0 then Some (Inr (Some h0, heap h0))
      else case (if hctl_ptr h0 = 0
                 then case alloc_fn h0 (heap h0) sizeof_HHDR of (p, hp) \<Rightarrow> h0\<lparr>hctl_ptr := p, heap := hp\<rparr>
                 else h0) of h1 \<Rightarrow>
        if hctl_ptr h1 = 0 then Some (Inr (None, heap h1))
        else let h2 = apply_info info flags (hdefault h1)
        in if flags AND HASH_SEGMENT \<noteq> 0 \<and> ssize h2 \<noteq> push_bit (sshift h2) 1 then Some (Inl Assert_failed)
        else case init_htab h2 nelem of (ok, h3) \<Rightarrow>
          if ok then Some (Inr (Some h3, heap h3))
          else case hash_destroy MEM_FREE h3 of None \<Rightarrow> None
            | Some (Inl e) \<Rightarrow> Some (Inl e)
            | Some (Inr hp) \<Rightarrow> Some (Inr (None, hp)))"

section \<open>Chains\<close>

lemma chain_walk_miss:
  assumes "path m (m a) xs" "\<forall>x\<in>set xs. km x \<noteq> key"
  shows "chain_walk m km key a = Some (last (a # xs), 0)"
  using assms
proof (induction xs arbitrary: a)
  case Nil
  then show ?case by (subst chain_walk.simps) simp
next
  case (Cons x xs)
  then have "chain_walk m km key a = chain_walk m km key x"
    by (subst chain_walk.simps) simp
  then show ?case using Cons by auto
qed

lemma chain_walk_hit:
  assumes "path m (m a) (ys @ x # zs)" "\<forall>y\<in>set ys. km y \<noteq> key" "km x = key"
  shows "chain_walk m km key a = Some (last (a # ys), x)"
  using assms
proof (induction ys arbitrary: a)
  case Nil
  then show ?case by (subst chain_walk.simps) simp
next
  case (Cons y ys)
  then have "chain_walk m km key a = chain_walk m km key y"
    by (subst chain_walk.simps) simp
  then show ?case using Cons by auto
qed

lemma relocate_path:
  assumes "path m ci xs" "distinct xs" "old \<notin> set xs" "newbi \<notin> set xs" "old \<noteq> newbi"
  shows "\<exists>m'. relocate stays m old newbi ci = Some m' \<and> path m' (m' old) (filter stays xs) \<and>
    path m' (m' newbi) (filter (\<lambda>x. \<not> stays x) xs) \<and>
    (\<forall>a. a \<noteq> old \<longrightarrow> a \<noteq> newbi \<longrightarrow> a \<notin> set xs \<longrightarrow> m' a = m a)"
  using assms
proof (induction xs arbitrary: m old newbi ci)
  case Nil
  then show ?case by (subst relocate.simps) auto
next
  case (Cons x xs)
  have ci: "ci = x" "x \<noteq> 0" "path m (m x) xs" using Cons.prems by auto
  define o' n' p where "o' = (if stays x then x else old)" "n' = (if stays x then newbi else x)"
    "p = (if stays x then old else newbi)"
  define m1 where "m1 = m(p := x)"
  have m1: "m1 p = x" "\<And>a. a \<noteq> p \<Longrightarrow> m1 a = m a" by (simp_all add: m1_def)
  have "path m1 (m x) xs"
  proof (subst path_cong)
    fix z assume "z \<in> set xs"
    then have "z \<noteq> p" using Cons.prems by (auto simp: o'_n'_p_def split: if_splits)
    then show "m1 z = m z" by (rule m1(2))
  qed (rule ci)
  moreover have "distinct xs" "o' \<notin> set xs" "n' \<notin> set xs" "o' \<noteq> n'"
    using Cons.prems by (auto simp: o'_n'_p_def)
  ultimately obtain m' where
    m': "relocate stays m1 o' n' (m x) = Some m'" "path m' (m' o') (filter stays xs)"
    "path m' (m' n') (filter (\<lambda>x. \<not> stays x) xs)"
    "\<forall>a. a \<noteq> o' \<longrightarrow> a \<noteq> n' \<longrightarrow> a \<notin> set xs \<longrightarrow> m' a = m1 a"
    using Cons.IH [of m1 "m x" o' n'] by blast
  have "relocate stays m old newbi ci = Some m'"
    using m'(1) ci by (subst relocate.simps) (cases "stays x"; simp add: o'_n'_p_def m1_def)
  moreover have "m' p = x" using m'(4) m1(1) Cons.prems by (auto simp: o'_n'_p_def split: if_splits)
  moreover have "m' a = m a" if "a \<noteq> old" "a \<noteq> newbi" "a \<notin> set (x # xs)" for a
  proof -
    have "a \<noteq> o'" "a \<noteq> n'" "a \<noteq> p" using that by (auto simp: o'_n'_p_def)
    then show ?thesis using m'(4) m1(2) that by simp
  qed
  ultimately show ?case using m'(2,3) ci(2) by (cases "stays x") (auto simp: o'_n'_p_def)
qed

section \<open>Linear hashing\<close>

text \<open>\<open>masks_ok k h\<close>: the table is between \<open>2 ^ k\<close> and \<open>2 ^ (k + 1)\<close> buckets.\<close>

definition masks_ok :: "nat \<Rightarrow> 'h HTAB \<Rightarrow> bool" where
  "masks_ok k h \<longleftrightarrow> low_mask h = 2 ^ k - 1 \<and> high_mask h = 2 ^ (k + 1) - 1 \<and>
     low_mask h \<le> max_bucket h \<and> max_bucket h \<le> high_mask h"

lemma nat_and_mask: "(n::nat) AND (2 ^ k - 1) = n mod 2 ^ k"
  by (metis mask_eq_exp_minus_1 take_bit_eq_mask take_bit_eq_mod)

lemma int_and_mask: "(v::int) AND int (2 ^ k - 1) = v mod 2 ^ k"
proof -
  have "int (2 ^ k - 1) = mask k" by (simp add: mask_eq_exp_minus_1 of_nat_diff)
  then show ?thesis by (metis take_bit_eq_mask take_bit_eq_mod)
qed

lemma MOD_pow2: "y = 2 ^ k \<Longrightarrow> MOD x y = x mod 2 ^ k"
  by (simp only: MOD_def nat_and_mask)

lemma call_hash_eq:
  assumes "masks_ok k h"
  shows "call_hash h key = (let b = nat (hash_fn h key (keysize h) mod 2 ^ (k + 1))
    in if b > max_bucket h then b mod 2 ^ k else b)"
  using assms unfolding call_hash_def masks_ok_def Let_def
  by (simp only: int_and_mask nat_and_mask)

lemma call_hash_le:
  assumes "masks_ok k h"
  shows "call_hash h key \<le> max_bucket h"
proof -
  have "x mod 2 ^ k \<le> max_bucket h" for x :: nat
  proof -
    have "x mod 2 ^ k < 2 ^ k" by simp
    then show ?thesis using assms unfolding masks_ok_def by linarith
  qed
  then show ?thesis by (simp add: call_hash_eq [OF assms] Let_def)
qed

text \<open>The masks after the table has grown by one bucket, and the effect on the hash values.\<close>

definition grow_masks :: "'h HTAB \<Rightarrow> 'h HTAB" where
  "grow_masks h0 =
     (let new_bucket = max_bucket h0 + 1; h1 = h0\<lparr>max_bucket := max_bucket h0 + 1\<rparr>
      in if new_bucket > high_mask h1
         then h1\<lparr>low_mask := high_mask h1, high_mask := new_bucket OR high_mask h1\<rparr> else h1)"

lemma or_exp_mask: "(2::nat) ^ n OR (2 ^ n - 1) = 2 ^ (n + 1) - 1"
proof -
  have "(2::nat) ^ n OR mask n = mask (Suc n)"
    by (rule bit_eqI) (auto simp: bit_simps less_Suc_eq)
  then show ?thesis by (simp add: mask_eq_exp_minus_1)
qed

lemma grow_masks_ok:
  assumes "masks_ok k h"
  shows "\<exists>k'. masks_ok k' (grow_masks h)"
proof (cases "max_bucket h + 1 > high_mask h")
  case True
  moreover have "(0::nat) < 2 ^ (k + 1)" by simp
  ultimately have m: "max_bucket h + 1 = 2 ^ (k + 1)" "high_mask h = 2 ^ (k + 1) - 1"
    using assms unfolding masks_ok_def by linarith+
  have "masks_ok (k + 1) (grow_masks h)"
    using True m or_exp_mask [of "k + 1"] by (simp add: masks_ok_def grow_masks_def Let_def)
  then show ?thesis ..
next
  case False
  then have "masks_ok k (grow_masks h)" using assms by (simp add: masks_ok_def grow_masks_def Let_def)
  then show ?thesis ..
qed

lemma grow_masks_simps [simp]:
  "max_bucket (grow_masks h) = max_bucket h + 1" "hash_fn (grow_masks h) = hash_fn h"
  "keysize (grow_masks h) = keysize h" "slot_addr (grow_masks h) = slot_addr h" "kmem (grow_masks h) = kmem h"
  "wmem (grow_masks h) = wmem h" "dmem (grow_masks h) = dmem h" "nsegs (grow_masks h) = nsegs h"
  "ssize (grow_masks h) = ssize h" "sshift (grow_masks h) = sshift h" "dsize (grow_masks h) = dsize h"
  "dir (grow_masks h) = dir h" "dir_ptr (grow_masks h) = dir_ptr h" "heap (grow_masks h) = heap h"
  "nkeys (grow_masks h) = nkeys h" "free_bucket_index (grow_masks h) = free_bucket_index h"
  "max_dsize (grow_masks h) = max_dsize h" "alloc_fn (grow_masks h) = alloc_fn h"
  "datasize (grow_masks h) = datasize h" "ffactor (grow_masks h) = ffactor h"
  by (simp_all add: grow_masks_def Let_def slot_addr_def fun_eq_iff)

lemma nat_mod_exp: "nat (v mod 2 ^ n) = nat (v mod 2 ^ (n + 1)) mod 2 ^ n" for v :: int
proof -
  have "v mod 2 ^ n = v mod 2 ^ (n + 1) mod 2 ^ n" by (simp add: mod_mod_cancel)
  then show ?thesis by (simp add: nat_mod_distrib nat_power_eq)
qed

lemma grow_call_hash:
  assumes mk: "masks_ok k h" and ob: "ob = (max_bucket h + 1) AND low_mask h"
  shows "ob \<le> max_bucket h"
    "call_hash h key \<noteq> ob \<Longrightarrow> call_hash (grow_masks h) key = call_hash h key"
    "call_hash h key = ob \<Longrightarrow> call_hash (grow_masks h) key \<in> {ob, max_bucket h + 1}"
proof -
  define v where "v = hash_fn h key (keysize h)"
  have m: "low_mask h = 2 ^ k - 1" "high_mask h = 2 ^ (k + 1) - 1" "2 ^ k - 1 \<le> max_bucket h"
    "max_bucket h \<le> 2 ^ (k + 1) - 1"
    using mk by (auto simp: masks_ok_def)
  have ob': "ob = (max_bucket h + 1) mod 2 ^ k" using ob m(1) by (simp only: nat_and_mask)
  have "ob < 2 ^ k" by (simp add: ob')
  then show "ob \<le> max_bucket h" using m(3) by linarith
  have co: "call_hash h key = (let b = nat (v mod 2 ^ (k + 1)) in if b > max_bucket h then b mod 2 ^ k else b)"
    using call_hash_eq [OF mk] by (simp add: v_def)
  have "(call_hash h key \<noteq> ob \<longrightarrow> call_hash (grow_masks h) key = call_hash h key) \<and>
      (call_hash h key = ob \<longrightarrow> call_hash (grow_masks h) key \<in> {ob, max_bucket h + 1})"
  proof (cases "max_bucket h + 1 > high_mask h")
    case False
    then have "masks_ok k (grow_masks h)" using mk by (simp add: masks_ok_def grow_masks_def Let_def)
    then have cn: "call_hash (grow_masks h) key =
        (let b = nat (v mod 2 ^ (k + 1)) in if b > max_bucket h + 1 then b mod 2 ^ k else b)"
      unfolding v_def by (simp add: call_hash_eq)
    show ?thesis unfolding co cn Let_def ob' by (cases "nat (v mod 2 ^ (k + 1)) = max_bucket h + 1") auto
  next
    case True
    define N :: nat where "N = 2 ^ (k + 1)"
    have "0 < N" by (simp add: N_def)
    then have mx: "max_bucket h + 1 = N" using True m unfolding N_def [symmetric] by linarith
    have "masks_ok (k + 1) (grow_masks h)"
      using True mx m(2) or_exp_mask [of "k + 1"] by (simp add: masks_ok_def grow_masks_def Let_def N_def)
    from call_hash_eq [OF this, of key] have cn: "call_hash (grow_masks h) key =
        (let b = nat (v mod 2 ^ (k + 1 + 1)) in if b > max_bucket h + 1 then b mod 2 ^ (k + 1) else b)"
      by (simp only: v_def grow_masks_simps)
    define b2 where "b2 = nat (v mod 2 ^ (k + 1 + 1))"
    have b: "nat (v mod 2 ^ (k + 1)) = b2 mod N" unfolding b2_def N_def by (rule nat_mod_exp)
    have "b2 mod N < N" using \<open>0 < N\<close> by simp
    then have "\<not> b2 mod N > max_bucket h" using mx by linarith
    then have co': "call_hash h key = b2 mod N" unfolding co Let_def b by (simp only: if_False)
    have cn': "call_hash (grow_masks h) key = (if b2 > N then b2 mod N else b2)"
      using mx unfolding cn Let_def b2_def [symmetric] N_def [symmetric] by simp
    have "N mod 2 ^ k = 0" by (simp add: N_def)
    then have "ob = 0" using ob' mx by simp
    then show ?thesis using mx unfolding co' cn' by (cases "b2 < N"; cases "b2 = N") auto
  qed
  then show "call_hash h key \<noteq> ob \<Longrightarrow> call_hash (grow_masks h) key = call_hash h key"
    "call_hash h key = ob \<Longrightarrow> call_hash (grow_masks h) key \<in> {ob, max_bucket h + 1}" by blast+
qed

section \<open>The table invariant and the map it represents\<close>

definition nslots :: "'h HTAB \<Rightarrow> nat" where
  "nslots h = nsegs h * ssize h"

definition elems :: "'h HTAB \<Rightarrow> (nat \<Rightarrow> nat list) \<Rightarrow> nat set" where
  "elems h cs = (\<Union>b\<le>max_bucket h. set (cs b))"

text \<open>
  Directory and segments: every bucket head up to \<open>max_bucket\<close> lies in an allocated segment, and
  different heads have different addresses.
\<close>

definition geometry_ok :: "'h HTAB \<Rightarrow> bool" where
  "geometry_ok h \<longleftrightarrow> ssize h = 2 ^ sshift h \<and> max_bucket h < nslots h \<and> nsegs h \<le> dsize h \<and>
     (\<forall>s < nsegs h. dir h s \<noteq> 0) \<and> inj_on (slot_addr h) {..<nslots h}"

text \<open>\<open>cs b\<close> is the chain of bucket \<open>b\<close>, \<open>fl\<close> the list of free elements.\<close>

definition chains_ok :: "'h HTAB \<Rightarrow> (nat \<Rightarrow> nat list) \<Rightarrow> nat list \<Rightarrow> bool" where
  "chains_ok h cs fl \<longleftrightarrow>
     (\<forall>b\<le>max_bucket h. path (wmem h) (wmem h (slot_addr h b)) (cs b) \<and> distinct (cs b)) \<and>
     path (wmem h) (free_bucket_index h) fl \<and> distinct fl \<and> elems h cs \<inter> set fl = {} \<and>
     slot_addr h ` {..<nslots h} \<inter> (elems h cs \<union> set fl) = {}"

definition keys_ok :: "'h HTAB \<Rightarrow> (nat \<Rightarrow> nat list) \<Rightarrow> bool" where
  "keys_ok h cs \<longleftrightarrow> (\<forall>b\<le>max_bucket h. \<forall>e\<in>set (cs b). call_hash h (kmem h e) = b) \<and>
     inj_on (kmem h) (elems h cs) \<and> nkeys h = card (elems h cs)"

text \<open>
  Heads and elements lie in live blocks of the heap, and in blocks other than the directory when
  that can be reallocated.
\<close>

definition owned :: "('h \<Rightarrow> nat \<Rightarrow> nat option) \<Rightarrow> ('h \<Rightarrow> bool) \<Rightarrow> 'h HTAB \<Rightarrow> nat set \<Rightarrow> bool" where
  "owned blocks valid h A \<longleftrightarrow> valid (heap h) \<and>
     (max_dsize h = NO_MAX_DSIZE \<longrightarrow> blocks (heap h) (dir_ptr h) \<noteq> None) \<and>
     (\<forall>a\<in>A. \<exists>b n. blocks (heap h) b = Some n \<and> (max_dsize h = NO_MAX_DSIZE \<longrightarrow> b \<noteq> dir_ptr h) \<and>
        b \<le> a \<and> a < b + n)"

definition ht_ok ::
  "('h \<Rightarrow> nat \<Rightarrow> nat option) \<Rightarrow> ('h \<Rightarrow> bool) \<Rightarrow> 'h HTAB \<Rightarrow> (nat \<Rightarrow> nat list) \<Rightarrow> nat list \<Rightarrow> bool" where
  "ht_ok blocks valid h cs fl \<longleftrightarrow> (\<exists>k. masks_ok k h) \<and> geometry_ok h \<and> chains_ok h cs fl \<and> keys_ok h cs \<and>
     owned blocks valid h (slot_addr h ` {..<nslots h} \<union> elems h cs \<union> set fl)"

text \<open>The table represents the map \<open>M\<close> from keys to element addresses.\<close>

definition ht_rep ::
  "('h \<Rightarrow> nat \<Rightarrow> nat option) \<Rightarrow> ('h \<Rightarrow> bool) \<Rightarrow> 'h HTAB \<Rightarrow> (byte list \<rightharpoonup> nat) \<Rightarrow> bool" where
  "ht_rep blocks valid h M \<longleftrightarrow> (\<exists>cs fl. ht_ok blocks valid h cs fl \<and>
     (\<forall>k e. M k = Some e \<longleftrightarrow> e \<in> elems h cs \<and> kmem h e = k))"

lemma owned_mono: "owned blocks valid h A \<Longrightarrow> B \<subseteq> A \<Longrightarrow> owned blocks valid h B"
  unfolding owned_def by (meson subsetD)

lemma slot_addr_eq:
  assumes "geometry_ok h"
  shows "slot_addr h b = dir h (b div ssize h) + 8 * (b mod ssize h)"
proof -
  have s: "ssize h = 2 ^ sshift h" using assms by (simp add: geometry_ok_def)
  have "MOD b (ssize h) = b mod ssize h" using MOD_pow2 [OF s, of b] s by simp
  then show ?thesis using s by (simp add: slot_addr_def drop_bit_eq_div)
qed

lemma dir_nonzero:
  assumes "geometry_ok h" "b \<le> max_bucket h"
  shows "dir h (drop_bit (sshift h) b) \<noteq> 0"
proof -
  have "b < nsegs h * ssize h" "ssize h = 2 ^ sshift h" using assms by (auto simp: geometry_ok_def nslots_def)
  then have "b div 2 ^ sshift h < nsegs h" by (simp add: less_mult_imp_div_less)
  then show ?thesis using assms by (simp add: geometry_ok_def drop_bit_eq_div)
qed

lemma ht_okD:
  assumes "ht_ok blocks valid h cs fl"
  shows "geometry_ok h" "chains_ok h cs fl" "keys_ok h cs" "\<exists>k. masks_ok k h"
    "owned blocks valid h (slot_addr h ` {..<nslots h} \<union> elems h cs \<union> set fl)"
  using assms by (simp_all add: ht_ok_def)

lemma bucket_facts:
  assumes "ht_ok blocks valid h cs fl" "b \<le> max_bucket h"
  shows "path (wmem h) (wmem h (slot_addr h b)) (cs b)" "distinct (cs b)" "slot_addr h b \<notin> set (cs b)"
    "b < nslots h" "\<And>e. e \<in> set (cs b) \<Longrightarrow> call_hash h (kmem h e) = b" "\<And>e. e \<in> set (cs b) \<Longrightarrow> e \<in> elems h cs"
proof -
  note O = ht_okD [OF assms(1)]
  show "b < nslots h" using O(1) assms(2) by (simp add: geometry_ok_def)
  then have "slot_addr h b \<in> slot_addr h ` {..<nslots h}" by simp
  then show "slot_addr h b \<notin> set (cs b)" using O(2) assms(2) by (auto simp: chains_ok_def elems_def)
qed (use ht_okD [OF assms(1)] assms(2) in \<open>auto simp: chains_ok_def keys_ok_def elems_def\<close>)

lemma call_hash_upd [simp]:
  "call_hash (h\<lparr>wmem := w\<rparr>) = call_hash h" "call_hash (h\<lparr>kmem := km\<rparr>) = call_hash h"
  "call_hash (h\<lparr>nkeys := n\<rparr>) = call_hash h" "call_hash (h\<lparr>free_bucket_index := f\<rparr>) = call_hash h"
  "call_hash (h\<lparr>heap := hp\<rparr>) = call_hash h" "call_hash (h\<lparr>dir := d\<rparr>) = call_hash h"
  "call_hash (h\<lparr>dir_ptr := dp\<rparr>) = call_hash h" "call_hash (h\<lparr>dsize := ds\<rparr>) = call_hash h"
  "call_hash (h\<lparr>nsegs := ns\<rparr>) = call_hash h" "call_hash (h\<lparr>save_state := ss\<rparr>) = call_hash h"
  "call_hash (h\<lparr>dmem := dm\<rparr>) = call_hash h"
  by (auto simp: call_hash_def fun_eq_iff Let_def)

lemma slot_addr_upd [simp]:
  "slot_addr (h\<lparr>wmem := w\<rparr>) = slot_addr h" "slot_addr (h\<lparr>kmem := km\<rparr>) = slot_addr h"
  "slot_addr (h\<lparr>nkeys := n\<rparr>) = slot_addr h" "slot_addr (h\<lparr>free_bucket_index := f\<rparr>) = slot_addr h"
  "slot_addr (h\<lparr>heap := hp\<rparr>) = slot_addr h" "slot_addr (h\<lparr>dir_ptr := dp\<rparr>) = slot_addr h"
  "slot_addr (h\<lparr>dsize := ds\<rparr>) = slot_addr h" "slot_addr (h\<lparr>nsegs := ns\<rparr>) = slot_addr h"
  "slot_addr (h\<lparr>save_state := ss\<rparr>) = slot_addr h" "slot_addr (h\<lparr>dmem := dm\<rparr>) = slot_addr h"
  by (auto simp: slot_addr_def fun_eq_iff)

lemma nslots_upd [simp]:
  "nslots (h\<lparr>wmem := w\<rparr>) = nslots h" "nslots (h\<lparr>kmem := km\<rparr>) = nslots h" "nslots (h\<lparr>nkeys := n\<rparr>) = nslots h"
  "nslots (h\<lparr>free_bucket_index := f\<rparr>) = nslots h" "nslots (h\<lparr>heap := hp\<rparr>) = nslots h"
  "nslots (h\<lparr>dir := d\<rparr>) = nslots h" "nslots (h\<lparr>dir_ptr := dp\<rparr>) = nslots h" "nslots (h\<lparr>dsize := ds\<rparr>) = nslots h"
  "nslots (h\<lparr>save_state := ss\<rparr>) = nslots h" "nslots (h\<lparr>dmem := dm\<rparr>) = nslots h"
  by (auto simp: nslots_def)

lemma elems_upd [simp]:
  "elems (h\<lparr>wmem := w\<rparr>) = elems h" "elems (h\<lparr>kmem := km\<rparr>) = elems h" "elems (h\<lparr>nkeys := n\<rparr>) = elems h"
  "elems (h\<lparr>free_bucket_index := f\<rparr>) = elems h" "elems (h\<lparr>heap := hp\<rparr>) = elems h"
  "elems (h\<lparr>dir := d\<rparr>) = elems h" "elems (h\<lparr>dir_ptr := dp\<rparr>) = elems h" "elems (h\<lparr>dsize := ds\<rparr>) = elems h"
  "elems (h\<lparr>nsegs := ns\<rparr>) = elems h" "elems (h\<lparr>save_state := ss\<rparr>) = elems h" "elems (h\<lparr>dmem := dm\<rparr>) = elems h"
  by (auto simp: elems_def fun_eq_iff)

lemma elems_fun_upd:
  "b \<le> max_bucket h \<Longrightarrow> elems h (cs(b := xs)) = set xs \<union> (\<Union>b'\<in>{..max_bucket h} - {b}. set (cs b'))"
  by (auto simp: elems_def split: if_splits)

lemma elems_split: "b \<le> max_bucket h \<Longrightarrow> elems h cs = set (cs b) \<union> (\<Union>b'\<in>{..max_bucket h} - {b}. set (cs b'))"
  by (auto simp: elems_def)

lemma other_disjoint:
  assumes "ht_ok blocks valid h cs fl" "b \<le> max_bucket h" "b' \<le> max_bucket h" "b' \<noteq> b"
  shows "set (cs b') \<inter> set (cs b) = {}" "slot_addr h b' \<noteq> slot_addr h b" "slot_addr h b \<notin> set (cs b')"
    "set (cs b) \<inter> set fl = {}" "slot_addr h b' \<notin> set (cs b) \<union> set fl"
proof -
  note B = bucket_facts [OF assms(1,2)] and B' = bucket_facts [OF assms(1,3)] and O = ht_okD [OF assms(1)]
  show "set (cs b') \<inter> set (cs b) = {}" using B(5) B'(5) assms(4) by fastforce
  show "slot_addr h b' \<noteq> slot_addr h b"
    using O(1) B(4) B'(4) assms(4) by (auto simp: geometry_ok_def inj_on_def)
  have "slot_addr h b \<in> slot_addr h ` {..<nslots h}" "slot_addr h b' \<in> slot_addr h ` {..<nslots h}"
    using B(4) B'(4) by auto
  then show "slot_addr h b \<notin> set (cs b')" "slot_addr h b' \<notin> set (cs b) \<union> set fl"
    using O(2) B(6) B'(6) unfolding chains_ok_def by blast+
  show "set (cs b) \<inter> set fl = {}" using O(2) B(6) unfolding chains_ok_def by blast
qed

lemma other_bucket_path:
  assumes ok: "ht_ok blocks valid h cs fl" and b: "b \<le> max_bucket h" "b' \<le> max_bucket h" "b' \<noteq> b"
    and m': "\<And>z. z \<notin> insert (slot_addr h b) (set (cs b) \<union> set fl) \<Longrightarrow> m' z = wmem h z"
  shows "path m' (m' (slot_addr h b')) (cs b')"
proof -
  note D = other_disjoint [OF ok b] and B' = bucket_facts [OF ok b(2)] and O = ht_okD [OF ok]
  have "m' (slot_addr h b') = wmem h (slot_addr h b')" using D(2,5) by (intro m') simp
  moreover have "path m' i (cs b') = path (wmem h) i (cs b')" for i
  proof (rule path_cong)
    fix z assume "z \<in> set (cs b')"
    moreover have "z \<notin> set fl" using B'(6) [OF calculation] O(2) unfolding chains_ok_def by blast
    ultimately show "m' z = wmem h z" using D(1,3) by (intro m') blast
  qed
  ultimately show ?thesis using B'(1) by simp
qed

lemma chain_lookup:
  assumes ok: "ht_ok blocks valid h cs fl" and M: "\<And>k e. M k = Some e \<longleftrightarrow> e \<in> elems h cs \<and> kmem h e = k"
    and b: "b = call_hash h k"
  shows "M k = None \<Longrightarrow> chain_walk (wmem h) (kmem h) k (slot_addr h b) = Some (last (slot_addr h b # cs b), 0)"
    "M k = Some e \<Longrightarrow> \<exists>ys zs. cs b = ys @ e # zs \<and>
       chain_walk (wmem h) (kmem h) k (slot_addr h b) = Some (last (slot_addr h b # ys), e)"
    "b \<le> max_bucket h" "dir h (drop_bit (sshift h) b) \<noteq> 0"
proof -
  obtain n where "masks_ok n h" using ht_okD(4) [OF ok] by blast
  then show bm: "b \<le> max_bucket h" unfolding b by (rule call_hash_le)
  then show "dir h (drop_bit (sshift h) b) \<noteq> 0" by (rule dir_nonzero [OF ht_okD(1) [OF ok]])
  note B = bucket_facts [OF ok bm]
  show "chain_walk (wmem h) (kmem h) k (slot_addr h b) = Some (last (slot_addr h b # cs b), 0)" if "M k = None" for k
  proof (rule chain_walk_miss [OF B(1)], rule ballI, rule notI)
    fix x assume "x \<in> set (cs b)" "kmem h x = k"
    then show False using M [of k x] B(6) that by simp
  qed
  assume e: "M k = Some e"
  then have ek: "e \<in> elems h cs" "kmem h e = k" using M by auto
  then obtain b' where b': "b' \<le> max_bucket h" "e \<in> set (cs b')" by (auto simp: elems_def)
  then have "b' = b" using bucket_facts(5) [OF ok b'(1,2)] ek b by simp
  then obtain ys zs where ys: "cs b = ys @ e # zs" using b'(2) by (auto dest: split_list)
  have "\<forall>y\<in>set ys. kmem h y \<noteq> k"
  proof (rule ballI, rule notI)
    fix y assume "y \<in> set ys" "kmem h y = k"
    then have "M k = Some y" using M [of k y] B(6) [of y] ys by simp
    then show False using e ys B(2) \<open>y \<in> set ys\<close> by auto
  qed
  then show "\<exists>ys zs. cs b = ys @ e # zs \<and>
       chain_walk (wmem h) (kmem h) k (slot_addr h b) = Some (last (slot_addr h b # ys), e)"
    using chain_walk_hit [OF B(1) [unfolded ys], of "kmem h" k] ek ys by auto
qed

section \<open>Removing and linking an element\<close>

text \<open>
  A change of one bucket \<open>b\<close>: its chain becomes \<open>xs\<close>, the free list \<open>fl'\<close>, and memory changes only
  at the head of \<open>b\<close>, the elements of its chain and the free elements.
\<close>

lemma ht_ok_change_bucket:
  assumes ok: "ht_ok blocks valid h cs fl" and b: "b \<le> max_bucket h"
    and h': "h' = h\<lparr>wmem := m', kmem := km, free_bucket_index := f, nkeys := n\<rparr>"
    and m': "\<And>z. z \<notin> insert (slot_addr h b) (set (cs b) \<union> set fl) \<Longrightarrow> m' z = wmem h z"
    and km: "\<And>e. e \<in> elems h cs \<Longrightarrow> km e = kmem h e"
    and xs: "path m' (m' (slot_addr h b)) xs" "distinct xs" "\<And>e. e \<in> set xs \<Longrightarrow> call_hash h (km e) = b"
    and fl': "path m' f fl'" "distinct fl'" "set xs \<inter> set fl' = {}" "set xs \<union> set fl' = set (cs b) \<union> set fl"
    and inj: "inj_on km (elems h (cs(b := xs)))" and n: "n = card (elems h (cs(b := xs)))"
  shows "ht_ok blocks valid h' (cs(b := xs)) fl'"
proof -
  note O = ht_okD [OF ok] and B = bucket_facts [OF ok b]
  let ?rest = "\<Union>b'\<in>{..max_bucket h} - {b}. set (cs b')"
  have E: "elems h (cs(b := xs)) \<union> set fl' = elems h cs \<union> set fl"
    using fl'(4) by (simp add: elems_fun_upd [OF b] elems_split [OF b]) blast
  have rest: "?rest \<inter> set (cs b) = {}" "?rest \<inter> set fl = {}"
    using other_disjoint(1) [OF ok b] O(2) by (auto simp: chains_ok_def elems_def)
  have D: "elems h (cs(b := xs)) \<inter> set fl' = {}"
    using fl'(3,4) rest by (simp add: elems_fun_upd [OF b]) blast
  have "chains_ok h' (cs(b := xs)) fl'"
    unfolding chains_ok_def
  proof (intro conjI allI impI)
    fix b' assume b': "b' \<le> max_bucket h'"
    then have "b' \<le> max_bucket h" by (simp add: h')
    then show "path (wmem h') (wmem h' (slot_addr h' b')) ((cs(b := xs)) b')" "distinct ((cs(b := xs)) b')"
      using xs(1,2) other_bucket_path [OF ok b _ _ m', of b'] bucket_facts(2) [OF ok]
      by (cases "b' = b"; simp add: h')+
  qed (use fl' D E O(2) in \<open>auto simp: h' chains_ok_def\<close>)
  moreover have "keys_ok h' (cs(b := xs))"
    unfolding keys_ok_def
  proof (intro conjI allI impI ballI)
    fix b' e assume b': "b' \<le> max_bucket h'" "e \<in> set ((cs(b := xs)) b')"
    show "call_hash h' (kmem h' e) = b'"
    proof (cases "b' = b")
      case True
      then show ?thesis using b' xs(3) by (simp add: h')
    next
      case False
      then have "b' \<le> max_bucket h" "e \<in> set (cs b')" using b' by (simp_all add: h')
      then show ?thesis using bucket_facts(5,6) [OF ok] km by (simp add: h')
    qed
  qed (use inj n in \<open>simp_all add: h'\<close>)
  moreover have "owned blocks valid h' (slot_addr h' ` {..<nslots h'} \<union> elems h' (cs(b := xs)) \<union> set fl')"
    using O(5) unfolding owned_def Un_assoc h' by (simp add: E)
  moreover have "geometry_ok h'" "\<exists>k. masks_ok k h'"
    using O(1,4) by (simp_all add: h' geometry_ok_def masks_ok_def)
  ultimately show ?thesis by (simp add: ht_ok_def)
qed

lemma finite_elems [simp]: "finite (elems h cs)"
  by (simp add: elems_def)

lemma ht_ok_remove:
  assumes ok: "ht_ok blocks valid h cs fl" and b: "b \<le> max_bucket h" and cs: "cs b = ys @ e # zs"
    and h': "h' = h\<lparr>nkeys := nkeys h - 1,
      wmem := (wmem h)(last (slot_addr h b # ys) := wmem h e, e := free_bucket_index h), free_bucket_index := e\<rparr>"
  shows "ht_ok blocks valid h' (cs(b := ys @ zs)) (e # fl)" "elems h' (cs(b := ys @ zs)) = elems h cs - {e}"
    "0 < nkeys h" "\<And>e. kmem h' e = kmem h e"
proof -
  note O = ht_okD [OF ok] and B = bucket_facts [OF ok b]
  define m' where "m' = (wmem h)(last (slot_addr h b # ys) := wmem h e, e := free_bucket_index h)"
  have l: "last (slot_addr h b # ys) \<in> insert (slot_addr h b) (set ys)" by (simp add: last_in_set)
  have d: "distinct (ys @ e # zs)" "slot_addr h b \<notin> set (ys @ e # zs)" using B(2,3) by (simp_all add: cs)
  have ne: "last (slot_addr h b # ys) \<noteq> e" using l d by auto
  have mp: "m' (last (slot_addr h b # ys)) = wmem h e" "m' e = free_bucket_index h"
    "\<And>z. z \<noteq> last (slot_addr h b # ys) \<Longrightarrow> z \<noteq> e \<Longrightarrow> m' z = wmem h z"
    using ne by (simp_all add: m'_def)
  have ef: "e \<notin> set fl" "slot_addr h b \<notin> set fl" "set ys \<inter> set fl = {}" "set zs \<inter> set fl = {}"
    using O(2) B(4,6) cs unfolding chains_ok_def by auto
  have path_fl: "path m' (free_bucket_index h) fl"
  proof (subst path_cong)
    fix z assume "z \<in> set fl"
    then have "z \<noteq> last (slot_addr h b # ys)" "z \<noteq> e" using l ef by auto
    then show "m' z = wmem h z" by (rule mp(3))
  qed (use O(2) in \<open>simp add: chains_ok_def\<close>)
  have e0: "e \<noteq> 0" "e \<in> elems h cs" using path_nonzero [OF B(1)] B(6) cs by auto
  have el: "elems h (cs(b := ys @ zs)) = elems h cs - {e}"
    using other_disjoint(1) [OF ok b] d by (auto simp: elems_fun_upd [OF b] elems_split [OF b] cs)
  have card: "nkeys h = card (elems h cs)" using O(3) by (simp add: keys_ok_def)
  show "0 < nkeys h" using card e0(2) by (auto simp: card_gt_0_iff)
  show "elems h' (cs(b := ys @ zs)) = elems h cs - {e}" using el by (simp add: h')
  show "kmem h' e = kmem h e" for e by (simp add: h')
  show "ht_ok blocks valid h' (cs(b := ys @ zs)) (e # fl)"
  proof (rule ht_ok_change_bucket [OF ok b])
    show "h' = h\<lparr>wmem := m', kmem := kmem h, free_bucket_index := e, nkeys := nkeys h - 1\<rparr>"
      by (simp add: h' m'_def)
    show "path m' (m' (slot_addr h b)) (ys @ zs)"
      using B(1) d mp by (intro path_remove [of "wmem h" _ ys e zs]) (simp_all add: cs)
    show "path m' e (e # fl)" using path_fl mp(2) e0 by simp
    show "m' z = wmem h z" if "z \<notin> insert (slot_addr h b) (set (cs b) \<union> set fl)" for z
      using that l cs by (intro mp(3)) auto
    show "inj_on (kmem h) (elems h (cs(b := ys @ zs)))"
      using O(3) by (auto simp: el keys_ok_def intro: inj_on_subset)
    show "nkeys h - 1 = card (elems h (cs(b := ys @ zs)))" using card e0(2) by (simp add: el)
  qed (use B(5) d ef O(2) cs in \<open>auto simp: chains_ok_def\<close>)
qed

lemma ht_ok_link:
  assumes ok: "ht_ok blocks valid h cs (e # fl)" and b: "b \<le> max_bucket h" "b = call_hash h k"
    and k: "\<And>x. x \<in> elems h cs \<Longrightarrow> kmem h x \<noteq> k"
    and h': "h' = h\<lparr>free_bucket_index := wmem h e,
      wmem := (wmem h)(last (slot_addr h b # cs b) := e, e := 0),
      kmem := (kmem h)(e := k), nkeys := nkeys h + 1\<rparr>"
  shows "ht_ok blocks valid h' (cs(b := cs b @ [e])) fl" "elems h' (cs(b := cs b @ [e])) = insert e (elems h cs)"
    "kmem h' e = k" "\<And>x. x \<in> elems h cs \<Longrightarrow> kmem h' x = kmem h x" "e \<notin> elems h cs"
proof -
  note O = ht_okD [OF ok] and B = bucket_facts [OF ok b(1)]
  define m' where "m' = (wmem h)(last (slot_addr h b # cs b) := e, e := 0)"
  have l: "last (slot_addr h b # cs b) \<in> insert (slot_addr h b) (set (cs b))" by (simp add: last_in_set)
  have fl: "path (wmem h) (free_bucket_index h) (e # fl)" "distinct (e # fl)" "elems h cs \<inter> set (e # fl) = {}"
    "slot_addr h b \<notin> set (e # fl)"
    using O(2) B(4) unfolding chains_ok_def by blast+
  have csf: "set (cs b) \<inter> set (e # fl) = {}" using fl(3) B(6) by blast
  have ne: "last (slot_addr h b # cs b) \<noteq> e" using l fl(4) csf by auto
  have mp: "m' (last (slot_addr h b # cs b)) = e" "m' e = 0"
    "\<And>z. z \<noteq> last (slot_addr h b # cs b) \<Longrightarrow> z \<noteq> e \<Longrightarrow> m' z = wmem h z"
    using ne by (simp_all add: m'_def)
  show ee: "e \<notin> elems h cs" using fl(3) by auto
  have el: "elems h (cs(b := cs b @ [e])) = insert e (elems h cs)"
    by (auto simp: elems_fun_upd [OF b(1)] elems_split [OF b(1)])
  show "elems h' (cs(b := cs b @ [e])) = insert e (elems h cs)" using el by (simp add: h')
  show "kmem h' e = k" "\<And>x. x \<in> elems h cs \<Longrightarrow> kmem h' x = kmem h x" using ee by (auto simp: h')
  have km: "((kmem h)(e := k)) x = kmem h x" if "x \<in> elems h cs" for x using that ee by auto
  show "ht_ok blocks valid h' (cs(b := cs b @ [e])) fl"
  proof (rule ht_ok_change_bucket [OF ok b(1)])
    show "h' = h\<lparr>wmem := m', kmem := (kmem h)(e := k), free_bucket_index := wmem h e, nkeys := nkeys h + 1\<rparr>"
      by (simp add: h' m'_def)
    show "path m' (m' (slot_addr h b)) (cs b @ [e])"
      using B(1-3) fl csf mp by (intro path_append_end [of "wmem h"]) auto
    show "path m' (wmem h e) fl"
    proof (subst path_cong)
      fix z assume "z \<in> set fl"
      then have "z \<noteq> last (slot_addr h b # cs b)" "z \<noteq> e" using l fl csf by auto
      then show "m' z = wmem h z" by (rule mp(3))
    qed (use fl in simp)
    show "m' z = wmem h z" if "z \<notin> insert (slot_addr h b) (set (cs b) \<union> set (e # fl))" for z
      using that l by (intro mp(3)) auto
    show "call_hash h (((kmem h)(e := k)) x) = b" if "x \<in> set (cs b @ [e])" for x
      using that B(5,6) b(2) ee by auto
    show "inj_on ((kmem h)(e := k)) (elems h (cs(b := cs b @ [e])))"
      unfolding el inj_on_insert
    proof (intro conjI)
      show "inj_on ((kmem h)(e := k)) (elems h cs)"
        using O(3) km by (auto simp: keys_ok_def inj_on_def)
      show "((kmem h)(e := k)) e \<notin> ((kmem h)(e := k)) ` (elems h cs - {e})"
        using k by auto
    qed
    show "nkeys h + 1 = card (elems h (cs(b := cs b @ [e])))"
      using O(3) ee by (simp add: el keys_ok_def)
  qed (use fl csf B(2) ee in auto)
qed

section \<open>Splitting a bucket\<close>

lemma split_bucket_ok:
  assumes ok: "ht_ok blocks valid h cs fl" and room: "max_bucket h + 1 < nslots h"
  shows "\<exists>h' cs'. split_bucket h = Some h' \<and> ht_ok blocks valid h' cs' fl \<and> elems h' cs' = elems h cs \<and>
    kmem h' = kmem h \<and> dmem h' = dmem h \<and> alloc_fn h' = alloc_fn h \<and> max_bucket h' = max_bucket h + 1"
proof -
  note O = ht_okD [OF ok]
  obtain k where mk: "masks_ok k h" using O(4) by blast
  define ob where "ob = (max_bucket h + 1) AND low_mask h"
  note G = grow_call_hash [OF mk ob_def]
  define g where "g = grow_masks h"
  define stays where "stays = (\<lambda>e. call_hash g (kmem h e) = ob)"
  define nb where "nb = max_bucket h + 1"
  note B = bucket_facts [OF ok G(1)]
  have obn: "ob \<noteq> nb" "ob < nslots h" using G(1) B(4) by (auto simp: nb_def)
  have slots: "slot_addr h ob \<noteq> slot_addr h nb"
    using O(1) obn room by (auto simp: geometry_ok_def inj_on_def nb_def)
  have nbi: "slot_addr h nb \<in> slot_addr h ` {..<nslots h}" "slot_addr h ob \<in> slot_addr h ` {..<nslots h}"
    using room obn by (auto simp: nb_def)
  then have nbe: "slot_addr h nb \<notin> elems h cs \<union> set fl" "slot_addr h ob \<notin> elems h cs \<union> set fl"
    using O(2) unfolding chains_ok_def by blast+
  obtain m' where m': "relocate stays (wmem h) (slot_addr h ob) (slot_addr h nb) (wmem h (slot_addr h ob)) = Some m'"
    "path m' (m' (slot_addr h ob)) (filter stays (cs ob))"
    "path m' (m' (slot_addr h nb)) (filter (\<lambda>x. \<not> stays x) (cs ob))"
    "\<And>a. a \<noteq> slot_addr h ob \<Longrightarrow> a \<noteq> slot_addr h nb \<Longrightarrow> a \<notin> set (cs ob) \<Longrightarrow> m' a = wmem h a"
    using relocate_path [OF B(1,2,3) _ slots, of stays] nbe B(6) by blast
  define cs' where "cs' = cs(ob := filter stays (cs ob), nb := filter (\<lambda>x. \<not> stays x) (cs ob))"
  define h' where "h' = g\<lparr>wmem := m'\<rparr>"
  have split: "split_bucket h = Some h'"
    using m'(1) unfolding split_bucket_def Let_def h'_def stays_def g_def grow_masks_def nb_def ob_def
    by (auto simp: slot_addr_def)
  have hf: "max_bucket h' = nb" "slot_addr h' = slot_addr h" "nslots h' = nslots h" "kmem h' = kmem h" "wmem h' = m'"
    "free_bucket_index h' = free_bucket_index h" "call_hash h' = call_hash g"
    by (simp_all add: h'_def g_def nb_def nslots_def)
  have cs': "cs' b = (if b = ob then filter stays (cs ob) else if b = nb then filter (\<lambda>x. \<not> stays x) (cs ob) else cs b)" for b
    using obn by (simp add: cs'_def)
  have leq: "b \<le> nb \<longleftrightarrow> b \<le> max_bucket h \<or> b = nb" for b by (auto simp: nb_def)
  have el: "elems h' cs' = elems h cs"
  proof -
    have "elems h' cs' = set (cs' nb) \<union> (\<Union>b\<le>max_bucket h. set (cs' b))"
      by (auto simp: elems_def hf leq)
    also have "\<dots> = set (cs' nb) \<union> set (cs' ob) \<union> (\<Union>b\<in>{..max_bucket h} - {ob}. set (cs' b))"
      using G(1) by auto
    also have "(\<Union>b\<in>{..max_bucket h} - {ob}. set (cs' b)) = (\<Union>b\<in>{..max_bucket h} - {ob}. set (cs b))"
      by (auto simp: cs' nb_def split: if_splits)
    also have "set (cs' nb) \<union> set (cs' ob) = set (cs ob)" using obn by (auto simp: cs')
    finally show ?thesis by (simp add: elems_split [OF G(1)])
  qed
  have other: "m' z = wmem h z" if "z \<notin> insert (slot_addr h ob) (set (cs ob) \<union> set fl)" "z \<noteq> slot_addr h nb" for z
    using that m'(4) by auto
  have ch: "chains_ok h' cs' fl"
    unfolding chains_ok_def hf el
  proof (intro conjI allI impI)
    fix b assume b: "b \<le> nb"
    consider "b = ob" | "b = nb" | "b \<le> max_bucket h" "b \<noteq> ob" "b \<noteq> nb" using b leq by auto
    then show "path m' (m' (slot_addr h b)) (cs' b)"
    proof cases
      case 3
      have "path m' (m' (slot_addr h b)) (cs b) = path (wmem h) (m' (slot_addr h b)) (cs b)"
      proof (rule path_cong)
        fix z assume "z \<in> set (cs b)"
        then have "z \<notin> set (cs ob)" "z \<in> elems h cs"
          using other_disjoint(1) [OF ok G(1) 3(1,2)] bucket_facts(6) [OF ok 3(1)] by auto
        then show "m' z = wmem h z" using nbe by (intro m'(4)) auto
      qed
      moreover have "m' (slot_addr h b) = wmem h (slot_addr h b)"
      proof (rule m'(4))
        show "slot_addr h b \<noteq> slot_addr h ob" "slot_addr h b \<notin> set (cs ob)"
          using other_disjoint(2,5) [OF ok G(1) 3(1,2)] by auto
        show "slot_addr h b \<noteq> slot_addr h nb"
          using inj_on_eq_iff [of "slot_addr h" "{..<nslots h}" b nb] O(1) 3 room bucket_facts(4) [OF ok 3(1)]
          by (simp add: geometry_ok_def nb_def)
      qed
      ultimately show "path m' (m' (slot_addr h b)) (cs' b)" using 3 bucket_facts(1) [OF ok 3(1)] by (simp add: cs')
    qed (use m' obn in \<open>auto simp: cs'\<close>)
    show "distinct (cs' b)" using b B(2) bucket_facts(2) [OF ok] leq by (auto simp: cs')
  next
    show "path m' (free_bucket_index h) fl"
    proof (subst path_cong)
      fix z assume "z \<in> set fl"
      moreover have "z \<notin> set (cs ob)" using B(6) O(2) calculation unfolding chains_ok_def by blast
      ultimately show "m' z = wmem h z" using nbe by (intro m'(4)) auto
    qed (use O(2) in \<open>simp add: chains_ok_def\<close>)
  qed (use O(2) in \<open>auto simp: chains_ok_def\<close>)
  have ky: "keys_ok h' cs'"
    unfolding keys_ok_def hf el
  proof (intro conjI allI impI ballI)
    fix b e assume b: "b \<le> nb" "e \<in> set (cs' b)"
    consider "b = ob" | "b = nb" | "b \<le> max_bucket h" "b \<noteq> ob" "b \<noteq> nb" using b leq by auto
    then show "call_hash g (kmem h e) = b"
    proof cases
      case 1
      then show ?thesis using b by (simp add: cs' stays_def)
    next
      case 2
      then have "e \<in> set (cs ob)" "call_hash g (kmem h e) \<noteq> ob" using b obn by (auto simp: cs' stays_def)
      then show ?thesis using G(3) [of "kmem h e"] B(5) 2 by (simp add: g_def nb_def)
    next
      case 3
      then have "call_hash h (kmem h e) = b" using b bucket_facts(5) [OF ok 3(1)] by (simp add: cs')
      then show ?thesis using G(2) [of "kmem h e"] 3 by (simp add: g_def)
    qed
  qed (use O(3) in \<open>simp_all add: keys_ok_def h'_def g_def\<close>)
  have "\<exists>k. masks_ok k h'" using grow_masks_ok [OF mk] by (simp add: h'_def g_def masks_ok_def)
  moreover have "geometry_ok h'"
    using O(1) room unfolding geometry_ok_def hf by (simp add: h'_def g_def nb_def)
  moreover have "owned blocks valid h' (slot_addr h ` {..<nslots h} \<union> elems h cs \<union> set fl)"
    using O(5) by (simp add: owned_def h'_def g_def)
  ultimately have "ht_ok blocks valid h' cs' fl" using ch ky unfolding ht_ok_def hf el by blast
  moreover have "dmem h' = dmem h" "alloc_fn h' = alloc_fn h" "max_bucket h' = max_bucket h + 1"
    by (simp_all add: h'_def g_def)
  ultimately show ?thesis using split el hf(4) by blast
qed

section \<open>New buckets and segments\<close>

text \<open>The addresses of \<open>n\<close> consecutive buckets.\<close>

fun addrs :: "nat \<Rightarrow> nat \<Rightarrow> nat \<Rightarrow> nat list" where
  "addrs a sz 0 = []"
| "addrs a sz (Suc n) = a # addrs (a + sz) sz n"

lemma set_addrs: "x \<in> set (addrs a sz n) \<Longrightarrow> a \<le> x \<and> x + sz \<le> a + n * sz"
proof (induction n arbitrary: a)
  case (Suc n)
  then consider "x = a" | "x \<in> set (addrs (a + sz) sz n)" by auto
  then show ?case using Suc.IH [of "a + sz"] by cases auto
qed simp

lemma distinct_addrs: "0 < sz \<Longrightarrow> distinct (addrs a sz n)"
  by (induction n arbitrary: a) (auto dest: set_addrs)

lemma link_buckets_below: "z < ti \<Longrightarrow> fst (link_buckets m t ti sz n) z = m z"
  by (induction n arbitrary: m t ti) auto

lemma link_buckets_above: "ti + n * sz \<le> z \<Longrightarrow> 0 < sz \<Longrightarrow> fst (link_buckets m t ti sz n) z = m z"
proof (induction n arbitrary: m t ti)
  case (Suc n)
  then show ?case by (simp add: Suc.IH add.assoc)
qed simp

lemma snd_link_buckets: "snd (link_buckets m t ti sz (Suc n)) = ti + n * sz"
  by (induction n arbitrary: m t ti) simp_all

lemma link_buckets_path:
  assumes "0 < sz" "ti \<noteq> 0"
    and m': "\<And>z. z \<noteq> ti + n * sz \<Longrightarrow> m' z = fst (link_buckets m t ti sz (Suc n)) z"
    and f: "m' (ti + n * sz) = f" "path m' f fl"
  shows "path m' ti (addrs ti sz (Suc n) @ fl)"
  using assms(2-)
proof (induction n arbitrary: m t ti)
  case 0
  then show ?case by simp
next
  case (Suc n)
  have "path m' (ti + sz) (addrs (ti + sz) sz (Suc n) @ fl)"
    by (rule Suc.IH) (use Suc.prems in \<open>simp_all add: add.assoc\<close>)
  moreover have "m' ti = fst (link_buckets m t ti sz (Suc (Suc n))) ti"
    using assms(1) by (intro Suc.prems(2)) simp
  then have "m' ti = ti + sz" using assms(1) by (simp add: link_buckets_below)
  ultimately show ?case using Suc.prems(1) by simp
qed

context allocator
begin

lemma fresh_block:
  assumes own: "owned blocks valid h A" and al: "alloc (heap h) n = (a, hp)" "a \<noteq> 0"
  shows "A \<inter> {a..<a + n} = {}" "owned blocks valid (h\<lparr>heap := hp\<rparr>) (A \<union> {a..<a + n})"
    "max_dsize h = NO_MAX_DSIZE \<Longrightarrow> a \<noteq> dir_ptr h" "valid hp" "\<exists>m. blocks hp = (blocks (heap h))(a \<mapsto> m)"
    "blocks (heap h) a = None"
proof -
  have v: "valid (heap h)" using own by (simp add: owned_def)
  obtain k where k: "n \<le> k" "blocks hp = (blocks (heap h))(a \<mapsto> k)"
    "\<And>b m. blocks (heap h) b = Some m \<Longrightarrow> {a..<a + k} \<inter> {b..<b + m} = {}"
    and ab: "valid hp" "blocks (heap h) a = None"
    using alloc_block [OF v al] by blast
  show d: "A \<inter> {a..<a + n} = {}"
  proof (rule ccontr)
    assume "A \<inter> {a..<a + n} \<noteq> {}"
    then obtain x where x: "x \<in> A" "a \<le> x" "x < a + n" by auto
    then obtain b m where b: "blocks (heap h) b = Some m" "b \<le> x" "x < b + m"
      using own unfolding owned_def by meson
    have "x \<in> {a..<a + k} \<inter> {b..<b + m}" using x b k(1) by simp
    then show False using k(3) [OF b(1)] by blast
  qed
  show dp: "a \<noteq> dir_ptr h" if "max_dsize h = NO_MAX_DSIZE"
    using own ab that by (auto simp: owned_def)
  show "valid hp" "\<exists>m. blocks hp = (blocks (heap h))(a \<mapsto> m)" "blocks (heap h) a = None" using ab k by auto
  show "owned blocks valid (h\<lparr>heap := hp\<rparr>) (A \<union> {a..<a + n})"
    unfolding owned_def
  proof (intro conjI ballI)
    show "valid (heap (h\<lparr>heap := hp\<rparr>))" using ab by simp
    show "max_dsize (h\<lparr>heap := hp\<rparr>) = NO_MAX_DSIZE \<longrightarrow> blocks (heap (h\<lparr>heap := hp\<rparr>)) (dir_ptr (h\<lparr>heap := hp\<rparr>)) \<noteq> None"
      using own k(2) by (auto simp: owned_def)
    fix x assume "x \<in> A \<union> {a..<a + n}"
    then show "\<exists>b m. blocks (heap (h\<lparr>heap := hp\<rparr>)) b = Some m \<and>
        (max_dsize (h\<lparr>heap := hp\<rparr>) = NO_MAX_DSIZE \<longrightarrow> b \<noteq> dir_ptr (h\<lparr>heap := hp\<rparr>)) \<and> b \<le> x \<and> x < b + m"
    proof
      assume "x \<in> A"
      then obtain b m where b: "blocks (heap h) b = Some m" "max_dsize h = NO_MAX_DSIZE \<longrightarrow> b \<noteq> dir_ptr h"
        "b \<le> x" "x < b + m" using own unfolding owned_def by meson
      then have "b \<noteq> a" using ab by auto
      then show ?thesis using b k(2) by auto
    next
      assume "x \<in> {a..<a + n}"
      then show ?thesis using k(1,2) dp by (intro exI [of _ a] exI [of _ k]) auto
    qed
  qed
qed

lemma failed_block:
  assumes "owned blocks valid h A" "alloc (heap h) n = (0, hp)"
  shows "owned blocks valid (h\<lparr>heap := hp\<rparr>) A"
  using assms alloc_null [of "heap h" n hp] by (auto simp: owned_def)

lemma bucket_alloc_ok:
  assumes ok: "ht_ok blocks valid h cs fl" and al: "alloc_fn h = alloc" and r: "bucket_alloc h = (s, h')"
  shows "alloc_fn h' = alloc" "kmem h' = kmem h" "dmem h' = dmem h" "max_bucket h' = max_bucket h"
    "call_hash h' = call_hash h" "slot_addr h' = slot_addr h" "\<not> s \<Longrightarrow> ht_ok blocks valid h' cs fl"
    "s \<Longrightarrow> \<exists>e es. ht_ok blocks valid h' cs (e # es @ fl)" "\<forall>b \<le> max_bucket h. wmem h' (slot_addr h b) = wmem h (slot_addr h b)"
proof -
  note O = ht_okD [OF ok]
  let ?sz = "bucket_size_of h"
  have sz: "0 < ?sz"
    using MAX_ALIGN_ge [of "8 + keysize h + datasize h"] unfolding bucket_size_of_def hash_consts by linarith
  obtain a hp where a: "alloc (heap h) (30 * ?sz) = (a, hp)" by (cases "alloc (heap h) (30 * ?sz)")
  obtain m t where l: "link_buckets (wmem h) a a ?sz 30 = (m, t)" by (cases "link_buckets (wmem h) a a ?sz 30")
  have thirty: "30 = Suc 29" by simp
  have t: "t = a + 29 * ?sz" using snd_link_buckets [of "wmem h" a a ?sz 29] l by (simp del: link_buckets.simps)
  define m' where "m' = m(t := free_bucket_index h)"
  have h': "h' = (if a = 0 then h\<lparr>heap := hp\<rparr> else h\<lparr>heap := hp, free_bucket_index := a, wmem := m'\<rparr>)" "s \<longleftrightarrow> a \<noteq> 0"
    using r a l al by (auto simp: bucket_alloc_def m'_def split: if_splits)
  then show "alloc_fn h' = alloc" "kmem h' = kmem h" "dmem h' = dmem h" "max_bucket h' = max_bucket h"
    "call_hash h' = call_hash h" "slot_addr h' = slot_addr h" by (simp_all add: al)
  let ?A = "slot_addr h ` {..<nslots h} \<union> elems h cs \<union> set fl"
  show "ht_ok blocks valid h' cs fl" if "\<not> s"
  proof -
    have "h' = h\<lparr>heap := hp\<rparr>" "alloc (heap h) (30 * ?sz) = (0, hp)" using h' that a by auto
    then show ?thesis using O failed_block [OF O(5)]
      by (simp add: ht_ok_def geometry_ok_def masks_ok_def chains_ok_def keys_ok_def)
  qed
  have frame: "m' z = wmem h z" if "z \<notin> {a..<a + 30 * ?sz}" for z
  proof -
    have "z \<noteq> t" using that t sz by auto
    then have "m' z = fst (link_buckets (wmem h) a a ?sz 30) z" by (simp add: m'_def l)
    also have "\<dots> = wmem h z"
      using that sz link_buckets_below [of z a] link_buckets_above [of a 30 ?sz z] by (cases "z < a") auto
    finally show ?thesis .
  qed
  have disj: "?A \<inter> {a..<a + 30 * ?sz} = {}" if "a \<noteq> 0" using fresh_block(1) [OF O(5) a that] .
  show "\<forall>b \<le> max_bucket h. wmem h' (slot_addr h b) = wmem h (slot_addr h b)"
  proof (intro allI impI)
    fix b assume "b \<le> max_bucket h"
    then have "slot_addr h b \<in> ?A" using bucket_facts(4) [OF ok] by simp
    then show "wmem h' (slot_addr h b) = wmem h (slot_addr h b)"
      using disj frame h' by (cases "a = 0") (auto simp del: atLeastLessThan_iff)
  qed
  assume s
  then have a0: "a \<noteq> 0" and hh: "h' = h\<lparr>heap := hp, free_bucket_index := a, wmem := m'\<rparr>" using h' by auto
  let ?new = "addrs a ?sz 30"
  have new: "set ?new \<subseteq> {a..<a + 30 * ?sz}" using set_addrs [of _ a ?sz 30] sz by fastforce
  have keep: "path m' i xs = path (wmem h) i xs" if "set xs \<subseteq> ?A" for xs i
    by (rule path_cong) (use that disj [OF a0] frame in blast)
  have flp: "path m' (free_bucket_index h) fl" using keep [of fl] O(2) by (auto simp: chains_ok_def)
  have "path m' a (?new @ fl)"
    unfolding thirty
    by (rule link_buckets_path [where m = "wmem h" and t = a])
      (use sz a0 flp l in \<open>simp_all add: m'_def t thirty [symmetric] del: link_buckets.simps\<close>)
  moreover have "path m' (m' (slot_addr h b)) (cs b)" if b: "b \<le> max_bucket h" for b
  proof -
    have "set (cs b) \<subseteq> ?A" using bucket_facts(6) [OF ok b] by auto
    moreover have "m' (slot_addr h b) = wmem h (slot_addr h b)"
      using disj [OF a0] bucket_facts(4) [OF ok b] by (intro frame) blast
    ultimately show ?thesis using keep bucket_facts(1) [OF ok b] by simp
  qed
  ultimately have "chains_ok h' cs (?new @ fl)"
    using O(2) new disj [OF a0] distinct_addrs [OF sz, of a 30] unfolding chains_ok_def hh
    by simp blast
  moreover have "owned blocks valid h' (slot_addr h' ` {..<nslots h'} \<union> elems h' cs \<union> set (?new @ fl))"
  proof -
    have "owned blocks valid h' (?A \<union> {a..<a + 30 * ?sz})"
      using fresh_block(2) [OF O(5) a a0] by (simp add: hh owned_def)
    then show ?thesis using new unfolding owned_def hh by auto
  qed
  ultimately have "ht_ok blocks valid h' cs (?new @ fl)"
    using O by (simp add: ht_ok_def geometry_ok_def masks_ok_def keys_ok_def hh)
  moreover have "?new = a # addrs (a + ?sz) ?sz 29" by (simp add: numeral_eq_Suc)
  ultimately show "\<exists>e es. ht_ok blocks valid h' cs (e # es @ fl)" by auto
qed

end

lemma nslots_pos: "geometry_ok h \<Longrightarrow> 0 < nsegs h \<and> 0 < dsize h \<and> 0 < ssize h"
  by (cases "nsegs h") (auto simp: geometry_ok_def nslots_def)

definition segs_ok :: "'h HTAB \<Rightarrow> bool" where
  "segs_ok h \<longleftrightarrow> ssize h = 2 ^ sshift h \<and> nsegs h \<le> dsize h \<and> (\<forall>s < nsegs h. dir h s \<noteq> 0) \<and>
     inj_on (slot_addr h) {..<nslots h}"

lemma geometry_ok_segs: "geometry_ok h \<longleftrightarrow> segs_ok h \<and> max_bucket h < nslots h"
  by (auto simp: geometry_ok_def segs_ok_def)

lemma slot_addr_dir:
  assumes "ssize h = 2 ^ sshift h" "ssize h' = ssize h" "sshift h' = sshift h"
    "\<And>i. i < nsegs h \<Longrightarrow> dir h' i = dir h i" "b < nslots h"
  shows "slot_addr h' b = slot_addr h b"
proof -
  have "b < nsegs h * 2 ^ sshift h" using assms(1,5) by (simp add: nslots_def)
  then have "b div 2 ^ sshift h < nsegs h" by (simp add: less_mult_imp_div_less)
  then show ?thesis using assms(2,3) assms(4) [of "b div 2 ^ sshift h"] by (simp add: slot_addr_def drop_bit_eq_div)
qed

context allocator
begin

lemma dir_realloc_ok:
  assumes ok: "ht_ok blocks valid h cs fl" and al: "alloc_fn h = alloc" and r: "dir_realloc mfree h = (s, h')"
  shows "ht_ok blocks valid h' cs fl" "alloc_fn h' = alloc" "kmem h' = kmem h" "dmem h' = dmem h"
    "max_bucket h' = max_bucket h" "nsegs h' = nsegs h" "ssize h' = ssize h" "sshift h' = sshift h"
    "s \<Longrightarrow> dsize h' = 2 * dsize h"
proof -
  note O = ht_okD [OF ok]
  let ?n = "push_bit 1 (dsize h) * 8"
  obtain p hp where p: "alloc (heap h) ?n = (p, hp)" by (cases "alloc (heap h) ?n")
  define d where "d = (\<lambda>i. if dsize h \<le> i \<and> i < push_bit 1 (dsize h) then 0 else dir h i)"
  have h': "s \<longleftrightarrow> max_dsize h = NO_MAX_DSIZE \<and> p \<noteq> 0"
    "h' = (if max_dsize h \<noteq> NO_MAX_DSIZE then h else if p = 0 then h\<lparr>heap := hp\<rparr>
      else h\<lparr>dir := d, heap := mfree hp (dir_ptr h), dir_ptr := p, dsize := push_bit 1 (dsize h)\<rparr>)"
    using r p al by (auto simp: dir_realloc_def d_def Let_def split: if_splits)
  then show "alloc_fn h' = alloc" "kmem h' = kmem h" "dmem h' = dmem h" "max_bucket h' = max_bucket h"
    "nsegs h' = nsegs h" "ssize h' = ssize h" "sshift h' = sshift h" "s \<Longrightarrow> dsize h' = 2 * dsize h"
    using al by (auto simp: push_bit_eq_mult)
  show "ht_ok blocks valid h' cs fl"
  proof (cases "s \<or> max_dsize h \<noteq> NO_MAX_DSIZE")
    case False
    then have "h' = h\<lparr>heap := hp\<rparr>" "alloc (heap h) ?n = (0, hp)" using h' p by auto
    then show ?thesis using O failed_block [OF O(5)]
      by (simp add: ht_ok_def geometry_ok_def masks_ok_def chains_ok_def keys_ok_def)
  next
    case True
    show ?thesis
    proof (cases "max_dsize h \<noteq> NO_MAX_DSIZE")
      case True
      then show ?thesis using ok h' by simp
    next
      case False
      then have s: "max_dsize h = NO_MAX_DSIZE" "p \<noteq> 0" using True h' by auto
      then have hh: "h' = h\<lparr>dir := d, heap := mfree hp (dir_ptr h), dir_ptr := p, dsize := push_bit 1 (dsize h)\<rparr>"
        using h' by simp
      have dsame: "d i = dir h i" if "i < nsegs h" for i
        using that O(1) by (simp add: d_def geometry_ok_def)
      have sl: "slot_addr h' b = slot_addr h b" if "b < nslots h" for b
        by (rule slot_addr_dir) (use that dsame O(1) in \<open>simp_all add: hh geometry_ok_def\<close>)
      have ims: "slot_addr h' ` {..<nslots h'} = slot_addr h ` {..<nslots h}"
      proof (rule image_cong)
        show "{..<nslots h'} = {..<nslots h}" by (simp add: hh)
      qed (use sl in simp)
      have sle: "slot_addr h' b = slot_addr h b" if "b \<le> max_bucket h" for b
        using that bucket_facts(4) [OF ok] sl by blast
      note F = fresh_block [OF O(5) p s(2)]
      obtain m where m: "blocks hp = (blocks (heap h))(p \<mapsto> m)" using F(5) by blast
      obtain n where n: "blocks (heap h) (dir_ptr h) = Some n" using O(5) s by (auto simp: owned_def)
      then have fb: "valid (mfree hp (dir_ptr h))" "blocks (mfree hp (dir_ptr h)) = (blocks hp)(dir_ptr h := None)"
        using free_block [of hp "dir_ptr h" n] F(3,4) m s by auto
      have own: "owned blocks valid h' (slot_addr h ` {..<nslots h} \<union> elems h cs \<union> set fl)"
        unfolding owned_def
      proof (intro conjI ballI)
        show "valid (heap h')" using fb by (simp add: hh)
        show "max_dsize h' = NO_MAX_DSIZE \<longrightarrow> blocks (heap h') (dir_ptr h') \<noteq> None"
          using fb F(3) m s by (simp add: hh)
        fix x assume "x \<in> slot_addr h ` {..<nslots h} \<union> elems h cs \<union> set fl"
        then obtain b k where b: "blocks (heap h) b = Some k" "b \<noteq> dir_ptr h" "b \<le> x" "x < b + k"
          using O(5) s unfolding owned_def by meson
        then have "b \<noteq> p" using F(6) by auto
        then show "\<exists>b m. blocks (heap h') b = Some m \<and> (max_dsize h' = NO_MAX_DSIZE \<longrightarrow> b \<noteq> dir_ptr h') \<and> b \<le> x \<and> x < b + m"
          using b fb m by (intro exI [of _ b] exI [of _ k]) (simp add: hh)
      qed
      have "geometry_ok h'"
        using O(1) dsame inj_on_cong [of "{..<nslots h}" "slot_addr h'" "slot_addr h"] sl
        by (simp add: geometry_ok_def hh push_bit_eq_mult)
      moreover have "chains_ok h' cs fl"
        using O(2) sle unfolding chains_ok_def ims by (simp add: hh)
      moreover have "keys_ok h' cs" using O(3) by (simp add: keys_ok_def hh)
      moreover have "\<exists>k. masks_ok k h'" using O(4) by (simp add: masks_ok_def hh)
      ultimately show ?thesis using own unfolding ht_ok_def ims by (simp add: hh)
    qed
  qed
qed

text \<open>A new segment: its heads are new addresses, all zero, and nothing else changes.\<close>

lemma seg_alloc_slots:
  assumes sg: "segs_ok h" and own: "owned blocks valid h (slot_addr h ` {..<nslots h} \<union> A)" and al: "alloc_fn h = alloc"
    and r: "seg_alloc h = (a, h1)" and a0: "a \<noteq> 0" and room: "nsegs h < dsize h"
    and g: "g = h1\<lparr>dir := (dir h1)(nsegs h := a), nsegs := nsegs h1 + 1\<rparr>"
  shows "segs_ok g" "nslots g = nslots h + ssize h" "\<And>b. b < nslots h \<Longrightarrow> slot_addr g b = slot_addr h b"
    "slot_addr g ` {nslots h..<nslots g} \<inter> (slot_addr h ` {..<nslots h} \<union> A) = {}"
    "owned blocks valid g (slot_addr g ` {..<nslots g} \<union> A)"
    "\<And>z. z \<in> slot_addr h ` {..<nslots h} \<union> A \<Longrightarrow> wmem g z = wmem h z"
    "\<And>z. z \<in> slot_addr g ` {nslots h..<nslots g} \<Longrightarrow> wmem g z = 0"
    "\<exists>w hp. g = h\<lparr>heap := hp, wmem := w, dir := (dir h)(nsegs h := a), nsegs := nsegs h + 1\<rparr>"
proof -
  let ?n = "8 * ssize h" and ?S = "slot_addr h ` {..<nslots h}"
  obtain hp where p: "alloc (heap h) ?n = (a, hp)"
    using r al by (cases "alloc (heap h) ?n") (auto simp: seg_alloc_def split: if_splits)
  define w where "w = (\<lambda>z. if a \<le> z \<and> z < a + ?n then 0 else wmem h z)"
  have e: "g = h\<lparr>heap := hp, wmem := w, dir := (dir h)(nsegs h := a), nsegs := nsegs h + 1\<rparr>"
    using r p al a0 by (auto simp: seg_alloc_def w_def g)
  then show "\<exists>w hp. g = h\<lparr>heap := hp, wmem := w, dir := (dir h)(nsegs h := a), nsegs := nsegs h + 1\<rparr>" by blast
  note F = fresh_block [OF own p a0]
  have ss: "ssize h = 2 ^ sshift h" using sg by (simp add: segs_ok_def)
  show sl: "slot_addr g b = slot_addr h b" if "b < nslots h" for b
    by (rule slot_addr_dir [OF ss]) (use that in \<open>simp_all add: e\<close>)
  show ns: "nslots g = nslots h + ssize h" by (simp add: e nslots_def)
  have new: "slot_addr g b = a + 8 * (b mod ssize h)" "b mod ssize h = b - nslots h"
    if "nslots h \<le> b" "b < nslots g" for b
  proof -
    have "b div ssize h = nsegs h"
      using that ns by (intro div_nat_eqI) (auto simp: nslots_def algebra_simps)
    then show "slot_addr g b = a + 8 * (b mod ssize h)" "b mod ssize h = b - nslots h"
      using ss MOD_pow2 [OF ss, of b] minus_div_mult_eq_mod [of b "ssize h"]
      by (simp_all add: slot_addr_def e drop_bit_eq_div nslots_def)
  qed
  have img: "slot_addr g ` {nslots h..<nslots g} \<subseteq> {a..<a + ?n}"
  proof
    fix x assume "x \<in> slot_addr g ` {nslots h..<nslots g}"
    then obtain b where b: "nslots h \<le> b" "b < nslots g" "x = slot_addr g b" by auto
    then have "b mod ssize h < ssize h" using ss by simp
    then show "x \<in> {a..<a + ?n}" using new(1) [OF b(1,2)] b(3) by simp
  qed
  then show "slot_addr g ` {nslots h..<nslots g} \<inter> (?S \<union> A) = {}" using F(1) by blast
  have ims: "slot_addr g ` {..<nslots h} = ?S" by (rule image_cong) (use sl in simp_all)
  have split: "{..<nslots g} = {..<nslots h} \<union> {nslots h..<nslots g}" using ns by auto
  have inj: "inj_on (slot_addr g) {..<nslots h}"
    using sg inj_on_cong [of "{..<nslots h}" "slot_addr g" "slot_addr h"] sl by (simp add: segs_ok_def)
  have inj2: "inj_on (slot_addr g) {nslots h..<nslots g}"
    by (rule inj_onI) (use new in \<open>auto simp: eq_diff_iff\<close>)
  have "inj_on (slot_addr g) {..<nslots g}"
    unfolding split inj_on_Un using inj inj2 img F(1) ims by blast
  then show "segs_ok g" using sg room a0 by (auto simp: segs_ok_def e less_Suc_eq)
  show "wmem g z = wmem h z" if "z \<in> ?S \<union> A" for z
  proof -
    have "z \<notin> {a..<a + ?n}" using that F(1) by blast
    then show ?thesis by (auto simp: e w_def)
  qed
  show "wmem g z = 0" if "z \<in> slot_addr g ` {nslots h..<nslots g}" for z
  proof -
    have "z \<in> {a..<a + ?n}" using that img by blast
    then show ?thesis by (simp add: e w_def)
  qed
  have "owned blocks valid g (?S \<union> A \<union> {a..<a + ?n})" using F(2) by (simp add: owned_def e)
  moreover have "slot_addr g ` {..<nslots g} \<union> A \<subseteq> ?S \<union> A \<union> {a..<a + ?n}"
    unfolding split image_Un ims using img by blast
  ultimately show "owned blocks valid g (slot_addr g ` {..<nslots g} \<union> A)" by (rule owned_mono)
qed

lemma seg_alloc_failed:
  assumes sg: "segs_ok h" and own: "owned blocks valid h A" and al: "alloc_fn h = alloc"
    and r: "seg_alloc h = (0, h1)" and g: "g = h1\<lparr>dir := (dir h1)(nsegs h := 0)\<rparr>"
  shows "segs_ok g" "owned blocks valid g A" "\<And>b. b < nslots h \<Longrightarrow> slot_addr g b = slot_addr h b"
    "\<exists>hp. g = h\<lparr>heap := hp, dir := (dir h)(nsegs h := 0)\<rparr>"
proof -
  obtain hp where p: "alloc (heap h) (8 * ssize h) = (0, hp)"
    using r al by (cases "alloc (heap h) (8 * ssize h)") (auto simp: seg_alloc_def split: if_splits)
  then have e: "g = h\<lparr>heap := hp, dir := (dir h)(nsegs h := 0)\<rparr>" using r al by (auto simp: seg_alloc_def g)
  then show "\<exists>hp. g = h\<lparr>heap := hp, dir := (dir h)(nsegs h := 0)\<rparr>" by blast
  show "owned blocks valid g A" using failed_block [OF own p] by (simp add: owned_def e)
  have ss: "ssize h = 2 ^ sshift h" using sg by (simp add: segs_ok_def)
  show sl: "slot_addr g b = slot_addr h b" if "b < nslots h" for b
    by (rule slot_addr_dir [OF ss]) (use that in \<open>simp_all add: e\<close>)
  then show "segs_ok g"
    using sg inj_on_cong [of "{..<nslots h}" "slot_addr g" "slot_addr h"] by (simp add: segs_ok_def e)
qed

lemma seg_alloc_ok:
  assumes ok: "ht_ok blocks valid h cs fl" and al: "alloc_fn h = alloc" and r: "seg_alloc h = (a, h1)"
    and h': "h' = h1\<lparr>dir := (dir h1)(nsegs h := a)\<rparr>" and room: "a \<noteq> 0 \<Longrightarrow> nsegs h < dsize h"
    and g: "g = (if a = 0 then h' else h'\<lparr>nsegs := nsegs h' + 1\<rparr>)"
  shows "ht_ok blocks valid g cs fl" "alloc_fn g = alloc" "kmem g = kmem h" "dmem g = dmem h"
    "max_bucket g = max_bucket h" "nsegs g = (if a = 0 then nsegs h else nsegs h + 1)" "ssize g = ssize h"
proof -
  note O = ht_okD [OF ok]
  let ?S = "slot_addr h ` {..<nslots h}" and ?A = "elems h cs \<union> set fl"
  have sg: "segs_ok h" using O(1) by (simp add: geometry_ok_segs)
  have own: "owned blocks valid h (?S \<union> ?A)" using O(5) by (simp add: Un_assoc)
  have X: "segs_ok g \<and> nslots h \<le> nslots g \<and> (\<forall>b < nslots h. slot_addr g b = slot_addr h b) \<and>
      owned blocks valid g (slot_addr g ` {..<nslots g} \<union> ?A) \<and> (\<forall>z \<in> ?S \<union> ?A. wmem g z = wmem h z) \<and>
      slot_addr g ` {..<nslots g} \<inter> ?A = {} \<and>
      (\<exists>w hp. g = h\<lparr>heap := hp, wmem := w, dir := (dir h)(nsegs h := a), nsegs := (if a = 0 then nsegs h else nsegs h + 1)\<rparr>)"
  proof (cases "a = 0")
    case True
    note F = seg_alloc_failed [OF sg own al r [unfolded True] h' [unfolded True]]
    obtain hp where e: "h' = h\<lparr>heap := hp, dir := (dir h)(nsegs h := 0)\<rparr>" using F(4) by blast
    have gh: "g = h'" using True by (simp add: g)
    have ns: "nslots h' = nslots h" by (simp add: e)
    have ims: "slot_addr h' ` {..<nslots h} = ?S" by (rule image_cong) (use F(3) in simp_all)
    show ?thesis unfolding gh ns ims
    proof (intro conjI)
      show "?S \<inter> ?A = {}" using O(2) by (simp add: chains_ok_def)
      show "\<exists>w hp. h' = h\<lparr>heap := hp, wmem := w, dir := (dir h)(nsegs h := a), nsegs := (if a = 0 then nsegs h else nsegs h + 1)\<rparr>"
        using True by (intro exI [of _ "wmem h"] exI [of _ hp]) (simp add: e)
    qed (use F(1-3) in \<open>simp_all add: e\<close>)
  next
    case False
    have ge: "g = h1\<lparr>dir := (dir h1)(nsegs h := a), nsegs := nsegs h1 + 1\<rparr>" using False by (simp add: g h')
    note F = seg_alloc_slots [OF sg own al r False room [OF False] ge]
    have split: "{..<nslots g} = {..<nslots h} \<union> {nslots h..<nslots g}" using F(2) by auto
    have ims: "slot_addr g ` {..<nslots h} = ?S" by (rule image_cong) (use F(3) in simp_all)
    show ?thesis
    proof (intro conjI)
      have "?S \<inter> ?A = {}" using O(2) by (simp add: chains_ok_def)
      then show "slot_addr g ` {..<nslots g} \<inter> ?A = {}"
        using F(4) unfolding split image_Un ims by blast
      show "\<exists>w hp. g = h\<lparr>heap := hp, wmem := w, dir := (dir h)(nsegs h := a), nsegs := (if a = 0 then nsegs h else nsegs h + 1)\<rparr>"
        using F(8) False by simp
      show "\<forall>b<nslots h. slot_addr g b = slot_addr h b" "\<forall>z\<in>?S \<union> ?A. wmem g z = wmem h z"
        using F(3,6) by blast+
    qed (use F(1,2,5) in simp_all)
  qed
  then obtain w hp where e: "g = h\<lparr>heap := hp, wmem := w, dir := (dir h)(nsegs h := a), nsegs := (if a = 0 then nsegs h else nsegs h + 1)\<rparr>"
    by blast
  show "alloc_fn g = alloc" "kmem g = kmem h" "dmem g = dmem h" "max_bucket g = max_bucket h"
    "nsegs g = (if a = 0 then nsegs h else nsegs h + 1)" "ssize g = ssize h" by (simp_all add: e al)
  have ge: "elems g cs = elems h cs" by (simp add: e)
  have keep: "path (wmem g) i xs = path (wmem h) i xs" if "set xs \<subseteq> ?A" for xs i
    by (rule path_cong) (use that X in blast)
  have kb: "path (wmem g) (wmem g (slot_addr g b)) (cs b) \<and> distinct (cs b)" if "b \<le> max_bucket h" for b
  proof -
    note B = bucket_facts [OF ok that]
    have "slot_addr g b = slot_addr h b" "wmem g (slot_addr h b) = wmem h (slot_addr h b)" using X B(4) by auto
    moreover have "set (cs b) \<subseteq> ?A" using B(6) by blast
    ultimately show ?thesis using keep B(1,2) by simp
  qed
  have gf: "max_bucket g = max_bucket h" "free_bucket_index g = free_bucket_index h" by (simp_all add: e)
  have O2: "path (wmem h) (free_bucket_index h) fl" "distinct fl" "elems h cs \<inter> set fl = {}"
    using O(2) by (simp_all add: chains_ok_def)
  have "chains_ok g cs fl"
    unfolding chains_ok_def ge gf using kb keep [of fl] O2 X by blast
  moreover have "geometry_ok g" using X O(1) unfolding geometry_ok_segs gf by linarith
  moreover have "keys_ok g cs" "\<exists>k. masks_ok k g" using O(3,4) by (simp_all add: keys_ok_def masks_ok_def e)
  ultimately show "ht_ok blocks valid g cs fl" using X unfolding ht_ok_def ge Un_assoc by blast
qed

end

lemma new_segnum:
  assumes "geometry_ok h"
  shows "drop_bit (sshift h) (max_bucket h + 1) \<le> nsegs h"
    "drop_bit (sshift h) (max_bucket h + 1) < nsegs h \<Longrightarrow> max_bucket h + 1 < nslots h"
proof -
  have g: "ssize h = 2 ^ sshift h" "max_bucket h + 1 \<le> nsegs h * ssize h"
    using assms by (auto simp: geometry_ok_def nslots_def)
  have "(max_bucket h + 1) div 2 ^ sshift h \<le> nsegs h * 2 ^ sshift h div 2 ^ sshift h"
    using g by (intro div_le_mono) simp
  then show "drop_bit (sshift h) (max_bucket h + 1) \<le> nsegs h" by (simp add: drop_bit_eq_div)
  assume "drop_bit (sshift h) (max_bucket h + 1) < nsegs h"
  then have "(max_bucket h + 1) div ssize h < nsegs h" by (simp add: drop_bit_eq_div g(1))
  then show "max_bucket h + 1 < nslots h" 
    using div_less_iff_less_mult [of "ssize h" "max_bucket h + 1" "nsegs h"] by (simp add: nslots_def g(1))
qed

context allocator
begin

lemma expand_segment_ok:
  assumes ok: "ht_ok blocks valid h cs fl" and al: "alloc_fn h = alloc" and r: "expand_segment mfree h = (s, h')"
  shows "ht_ok blocks valid h' cs fl \<and> alloc_fn h' = alloc \<and> kmem h' = kmem h \<and> dmem h' = dmem h \<and>
    max_bucket h' = max_bucket h \<and> (s \<longrightarrow> max_bucket h' + 1 < nslots h')"
proof -
  note O = ht_okD [OF ok]
  define ns where "ns = drop_bit (sshift h) (max_bucket h + 1)"
  show ?thesis
  proof (cases "ns \<ge> nsegs h")
    case False
    then show ?thesis using r ok al new_segnum(2) [OF O(1)] by (simp add: expand_segment_def ns_def)
  next
    case True
    then have ns: "ns = nsegs h" using new_segnum(1) [OF O(1)] by (simp add: ns_def)
    obtain s1 h1 where d: "(if ns \<ge> dsize h then dir_realloc mfree h else (True, h)) = (s1, h1)" by fastforce
    have nd: "nsegs h \<le> dsize h" "0 < dsize h" using nslots_pos [OF O(1)] O(1) by (simp_all add: geometry_ok_def)
    have "ht_ok blocks valid h1 cs fl \<and> alloc_fn h1 = alloc \<and> kmem h1 = kmem h \<and> dmem h1 = dmem h \<and>
      max_bucket h1 = max_bucket h \<and> nsegs h1 = nsegs h \<and> ssize h1 = ssize h \<and> (s1 \<longrightarrow> nsegs h1 < dsize h1)"
    proof (cases "ns \<ge> dsize h")
      case True
      then have "dir_realloc mfree h = (s1, h1)" using d by simp
      note R = dir_realloc_ok [OF ok al this]
      show ?thesis using R(1-8) R(9) ns nd True by simp
    next
      case False
      then have "s1" "h1 = h" using d by auto
      then show ?thesis using ok al ns False by simp
    qed
    then have D: "ht_ok blocks valid h1 cs fl" "alloc_fn h1 = alloc" "kmem h1 = kmem h" "dmem h1 = dmem h"
      "max_bucket h1 = max_bucket h" "nsegs h1 = nsegs h" "ssize h1 = ssize h" "s1 \<Longrightarrow> nsegs h1 < dsize h1"
      by simp_all
    have run: "expand_segment mfree h =
        (if \<not> s1 then (False, h1)
         else case seg_alloc h1 of (segp, h2) \<Rightarrow>
           let h3 = h2\<lparr>dir := (dir h2)(ns := segp)\<rparr>
           in if segp = 0 then (False, h3) else (True, h3\<lparr>nsegs := nsegs h3 + 1\<rparr>))"
      unfolding expand_segment_def Let_def ns_def [symmetric] d if_P [OF True] prod.case ..
    show ?thesis
    proof (cases s1)
      case False
      then show ?thesis using r run D by simp
    next
      case s1: True
      obtain a h2 where a: "seg_alloc h1 = (a, h2)" by fastforce
      define h3 where "h3 = h2\<lparr>dir := (dir h2)(nsegs h1 := a)\<rparr>"
      note S = seg_alloc_ok [OF D(1,2) a h3_def D(8) [OF s1] refl]
      have h': "h' = (if a = 0 then h3 else h3\<lparr>nsegs := nsegs h3 + 1\<rparr>)" "s \<longleftrightarrow> a \<noteq> 0"
        using r run s1 a ns D(6) by (auto simp: Let_def h3_def split: if_splits)
      have "max_bucket h < nsegs h * ssize h" "0 < ssize h"
        using O(1) nslots_pos [OF O(1)] by (auto simp: geometry_ok_def nslots_def)
      then have "max_bucket h + 1 < (nsegs h + 1) * ssize h" unfolding add_mult_distrib by linarith
      then show ?thesis using S D h' by (auto simp: nslots_def)
    qed
  qed
qed

lemma expand_table_ok:
  assumes ok: "ht_ok blocks valid h cs fl" and al: "alloc_fn h = alloc"
  shows "\<exists>s h' cs'. expand_table mfree h = Some (s, h') \<and> ht_ok blocks valid h' cs' fl \<and> elems h' cs' = elems h cs \<and>
    kmem h' = kmem h \<and> dmem h' = dmem h \<and> alloc_fn h' = alloc \<and> max_bucket h' = (if s then max_bucket h + 1 else max_bucket h)"
proof -
  obtain s h1 where e: "expand_segment mfree h = (s, h1)" by fastforce
  note E = expand_segment_ok [OF ok al e]
  have el: "elems h1 cs = elems h cs" using E by (simp add: elems_def)
  show ?thesis
  proof (cases s)
    case False
    then show ?thesis using E e el by (auto simp: expand_table_def)
  next
    case True
    then obtain h2 cs' where "split_bucket h1 = Some h2" "ht_ok blocks valid h2 cs' fl" "elems h2 cs' = elems h1 cs"
      "kmem h2 = kmem h1" "dmem h2 = dmem h1" "alloc_fn h2 = alloc_fn h1" "max_bucket h2 = max_bucket h1 + 1"
      using split_bucket_ok [of blocks valid h1 cs fl] E by auto
    then show ?thesis using E e el True by (auto simp: expand_table_def)
  qed
qed

lemma hash_enter_new_ok:
  assumes ok: "ht_ok blocks valid h cs fl" and al: "alloc_fn h = alloc" and b: "b = call_hash h k" "b \<le> max_bucket h"
    and k: "\<And>x. x \<in> elems h cs \<Longrightarrow> kmem h x \<noteq> k" and prev: "prev = last (slot_addr h b # cs b)"
  shows "\<exists>r h' cs' fl'. hash_enter_new False mfree h k prev = Some (Inr (r, h')) \<and> ht_ok blocks valid h' cs' fl' \<and>
    alloc_fn h' = alloc \<and> dmem h' = dmem h \<and>
    (r = HNull \<and> elems h' cs' = elems h cs \<and> kmem h' = kmem h \<or>
     (\<exists>e. r = HElem e \<and> e \<notin> elems h cs \<and> elems h' cs' = insert e (elems h cs) \<and> kmem h' e = k \<and>
        (\<forall>x\<in>elems h cs. kmem h' x = kmem h x)))"
proof -
  obtain s h1 where a: "(if free_bucket_index h = INVALID_INDEX then bucket_alloc h else (True, h)) = (s, h1)" by fastforce
  have A: "alloc_fn h1 = alloc" "kmem h1 = kmem h" "dmem h1 = dmem h" "max_bucket h1 = max_bucket h"
    "call_hash h1 = call_hash h" "slot_addr h1 = slot_addr h" "\<not> s \<Longrightarrow> ht_ok blocks valid h1 cs fl"
    "s \<Longrightarrow> \<exists>e es. ht_ok blocks valid h1 cs (e # es)"
  proof -
    have "\<exists>e es. fl = e # es" if "free_bucket_index h \<noteq> 0"
      using that ht_okD(2) [OF ok] by (cases fl) (auto simp: chains_ok_def)
    then show "s \<Longrightarrow> \<exists>e es. ht_ok blocks valid h1 cs (e # es)"
      using a ok bucket_alloc_ok(8) [OF ok al, of s h1] by (auto split: if_splits)
  qed (use a ok al bucket_alloc_ok [OF ok al, of s h1] in \<open>auto split: if_splits\<close>)
  have el: "elems h1 cs = elems h cs" using A(4) by (simp add: elems_def)
  show ?thesis
  proof (cases s)
    case False
    then show ?thesis using a A el by (auto simp: hash_enter_new_def)
  next
    case True
    then obtain e es where ok1: "ht_ok blocks valid h1 cs (e # es)" using A(8) by blast
    have fe: "free_bucket_index h1 = e" "e \<noteq> 0" using ht_okD(2) [OF ok1] by (auto simp: chains_ok_def)
    define h2 where "h2 = h1\<lparr>free_bucket_index := wmem h1 e, wmem := (wmem h1)(prev := e, e := 0),
        kmem := (kmem h1)(e := k), nkeys := nkeys h1 + 1\<rparr>"
    note L0 = ht_ok_link [OF ok1 _ _ _ h2_def [unfolded prev A(6) [symmetric]]]
    have L: "ht_ok blocks valid h2 (cs(b := cs b @ [e])) es" "elems h2 (cs(b := cs b @ [e])) = insert e (elems h cs)"
      "kmem h2 e = k" "\<And>x. x \<in> elems h cs \<Longrightarrow> kmem h2 x = kmem h x" "e \<notin> elems h cs"
      using L0 b k A(2,4,5) el by auto
    have al2: "alloc_fn h2 = alloc" "dmem h2 = dmem h" using A by (simp_all add: h2_def)
    have run: "hash_enter_new False mfree h k prev =
        (if nkeys h2 div (max_bucket h2 + 1) > ffactor h2
         then case expand_table mfree h2 of None \<Rightarrow> None | Some (_, h3) \<Rightarrow> Some (Inr (HElem e, h3))
         else Some (Inr (HElem e, h2)))"
      using a True fe by (simp add: hash_enter_new_def Let_def h2_def split: option.splits)
    show ?thesis
    proof (cases "nkeys h2 div (max_bucket h2 + 1) > ffactor h2")
      case False
      then show ?thesis using run L al2 by (intro exI [of _ "HElem e"] exI [of _ h2] exI) auto
    next
      case True
      obtain s3 h3 cs3 where "expand_table mfree h2 = Some (s3, h3)" "ht_ok blocks valid h3 cs3 es"
        "elems h3 cs3 = elems h2 (cs(b := cs b @ [e]))" "kmem h3 = kmem h2" "dmem h3 = dmem h2" "alloc_fn h3 = alloc"
        using expand_table_ok [OF L(1) al2(1)] by blast
      then show ?thesis using run True L al2
        by (intro exI [of _ "HElem e"] exI [of _ h3] exI [of _ cs3] exI [of _ es]) auto
    qed
  qed
qed

end

section \<open>The interface of a lookup table\<close>

text \<open>
  What a client of \<open>hash_search\<close> relies on: \<open>rep t M\<close> says that the table \<open>t\<close> holds the map \<open>M\<close> from
  keys to element addresses; \<open>cell t e\<close> is the client's data at the element \<open>e\<close>.
\<close>

locale assoc_table =
  fixes rep :: "'s \<Rightarrow> (byte list \<rightharpoonup> nat) \<Rightarrow> bool"
    and search :: "'s \<Rightarrow> byte list \<Rightarrow> HASHACTION \<Rightarrow> (hresult \<times> bool \<times> 's) cres option"
    and cell :: "'s \<Rightarrow> nat \<Rightarrow> nat"
    and set_cell :: "'s \<Rightarrow> nat \<Rightarrow> nat \<Rightarrow> 's"
  assumes find: "rep t M \<Longrightarrow>
      search t k HASH_FIND = Some (Inr (case M k of None \<Rightarrow> HTrue | Some e \<Rightarrow> HElem e, M k \<noteq> None, t))"
    and enter_old: "rep t M \<Longrightarrow> M k = Some e \<Longrightarrow> search t k HASH_ENTER = Some (Inr (HElem e, True, t))"
    and enter_new: "rep t M \<Longrightarrow> M k = None \<Longrightarrow>
      \<exists>r t'. search t k HASH_ENTER = Some (Inr (r, False, t')) \<and> cell t' = cell t \<and>
        (r = HNull \<and> rep t' M \<or> (\<exists>e. r = HElem e \<and> e \<notin> ran M \<and> rep t' (M(k \<mapsto> e))))"
    and remove_old: "rep t M \<Longrightarrow> M k = Some e \<Longrightarrow>
      \<exists>t'. search t k HASH_REMOVE = Some (Inr (HElem e, True, t')) \<and> cell t' = cell t \<and> rep t' (M(k := None))"
    and remove_new: "rep t M \<Longrightarrow> M k = None \<Longrightarrow> search t k HASH_REMOVE = Some (Inr (HTrue, False, t))"
    and rep_inj: "rep t M \<Longrightarrow> M k = Some e \<Longrightarrow> M k' = Some e \<Longrightarrow> k' = k"
    and rep_set_cell: "rep t M \<Longrightarrow> rep (set_cell t e d) M"
    and cell_set_cell: "cell (set_cell t e d) = (cell t)(e := d)"
begin

lemma find_after_enter:
  assumes "rep t M" "search t k HASH_ENTER = Some (Inr (HElem e, b, t'))"
  shows "search t' k HASH_FIND = Some (Inr (HElem e, True, t'))"
proof (cases "M k")
  case None
  then have "rep t' (M(k \<mapsto> e))" using enter_new [OF assms(1) None] assms(2) by auto
  from find [OF this, of k] show ?thesis by simp
next
  case (Some e')
  then show ?thesis using enter_old [OF assms(1) Some] assms(2) find [OF assms(1), of k] by auto
qed

lemma find_after_enter_other:
  assumes "rep t M" "search t k HASH_ENTER = Some (Inr (r, b, t'))" "k' \<noteq> k"
  shows "\<exists>r' f. search t k' HASH_FIND = Some (Inr (r', f, t)) \<and> search t' k' HASH_FIND = Some (Inr (r', f, t'))"
proof (cases "M k")
  case None
  then consider "rep t' M" | e where "rep t' (M(k \<mapsto> e))" using enter_new [OF assms(1) None] assms(2) by auto
  then show ?thesis using find [OF assms(1), of k'] find [of t' _ k'] assms(3) by cases auto
next
  case (Some e)
  then show ?thesis using enter_old [OF assms(1) Some] assms(2) find [OF assms(1), of k'] by auto
qed

lemma find_after_remove:
  assumes "rep t M" "search t k HASH_REMOVE = Some (Inr (r, b, t'))"
  shows "search t' k HASH_FIND = Some (Inr (HTrue, False, t'))"
proof (cases "M k")
  case None
  then show ?thesis using remove_new [OF assms(1) None] assms(2) find [OF assms(1), of k] by simp
next
  case (Some e)
  then have "rep t' (M(k := None))" using remove_old [OF assms(1) Some] assms(2) by auto
  from find [OF this, of k] show ?thesis by simp
qed

end

context allocator
begin

lemma hash_search_find:
  assumes rep: "ht_rep blocks valid h M"
  shows "hash_search a mf h k HASH_FIND =
    Some (Inr (case M k of None \<Rightarrow> HTrue | Some e \<Rightarrow> HElem e, M k \<noteq> None, h))"
proof -
  obtain cs fl where ok: "ht_ok blocks valid h cs fl" and M: "\<And>k e. M k = Some e \<longleftrightarrow> e \<in> elems h cs \<and> kmem h e = k"
    using rep by (auto simp: ht_rep_def)
  note C = chain_lookup [OF ok M refl, of k]
  show ?thesis
  proof (cases "M k")
    case None
    then show ?thesis using C(1,4) by (simp add: hash_search_def Let_def)
  next
    case (Some e)
    then have "e \<noteq> 0" using C(2) path_nonzero [OF bucket_facts(1) [OF ok C(3)], of e] by auto
    then show ?thesis using C(2) [OF Some] C(4) Some by (auto simp: hash_search_def Let_def)
  qed
qed

lemma hash_search_enter_old:
  assumes rep: "ht_rep blocks valid h M" and e: "M k = Some e"
  shows "hash_search a mf h k HASH_ENTER = Some (Inr (HElem e, True, h))"
proof -
  obtain cs fl where ok: "ht_ok blocks valid h cs fl" and M: "\<And>k e. M k = Some e \<longleftrightarrow> e \<in> elems h cs \<and> kmem h e = k"
    using rep by (auto simp: ht_rep_def)
  note C = chain_lookup [OF ok M refl, of k]
  have "e \<noteq> 0" using C(2) [OF e] path_nonzero [OF bucket_facts(1) [OF ok C(3)], of e] by auto
  then show ?thesis using C(2) [OF e] C(4) by (auto simp: hash_search_def Let_def)
qed

lemma hash_search_enter_new:
  assumes rep: "ht_rep blocks valid h M" and al: "alloc_fn h = alloc" and n: "M k = None"
  shows "\<exists>r h'. hash_search False mfree h k HASH_ENTER = Some (Inr (r, False, h')) \<and> alloc_fn h' = alloc \<and> dmem h' = dmem h \<and>
    (r = HNull \<and> ht_rep blocks valid h' M \<or> (\<exists>e. r = HElem e \<and> e \<notin> ran M \<and> ht_rep blocks valid h' (M(k \<mapsto> e))))"
proof -
  obtain cs fl where ok: "ht_ok blocks valid h cs fl" and M: "\<And>k e. M k = Some e \<longleftrightarrow> e \<in> elems h cs \<and> kmem h e = k"
    using rep by (auto simp: ht_rep_def)
  note C = chain_lookup [OF ok M refl, of k]
  have nk: "\<And>x. x \<in> elems h cs \<Longrightarrow> kmem h x \<noteq> k" using M n by (metis option.distinct(1))
  obtain r h' cs' fl' where E: "hash_enter_new False mfree h k (last (slot_addr h (call_hash h k) # cs (call_hash h k))) = Some (Inr (r, h'))"
    "ht_ok blocks valid h' cs' fl'" "alloc_fn h' = alloc" "dmem h' = dmem h"
    "r = HNull \<and> elems h' cs' = elems h cs \<and> kmem h' = kmem h \<or>
     (\<exists>e. r = HElem e \<and> e \<notin> elems h cs \<and> elems h' cs' = insert e (elems h cs) \<and> kmem h' e = k \<and>
        (\<forall>x\<in>elems h cs. kmem h' x = kmem h x))"
    using hash_enter_new_ok [OF ok al refl C(3) nk refl] by blast
  have run: "hash_search False mfree h k HASH_ENTER = Some (Inr (r, False, h'))"
    using C(1) [OF n] C(4) E(1) by (simp add: hash_search_def Let_def)
  from E(5) have "r = HNull \<and> ht_rep blocks valid h' M \<or> (\<exists>e. r = HElem e \<and> e \<notin> ran M \<and> ht_rep blocks valid h' (M(k \<mapsto> e)))"
  proof
    assume "r = HNull \<and> elems h' cs' = elems h cs \<and> kmem h' = kmem h"
    then show ?thesis using E(2) M unfolding ht_rep_def by metis
  next
    assume "\<exists>e. r = HElem e \<and> e \<notin> elems h cs \<and> elems h' cs' = insert e (elems h cs) \<and> kmem h' e = k \<and>
        (\<forall>x\<in>elems h cs. kmem h' x = kmem h x)"
    then obtain e where e: "r = HElem e" "e \<notin> elems h cs" "elems h' cs' = insert e (elems h cs)" "kmem h' e = k"
      "\<And>x. x \<in> elems h cs \<Longrightarrow> kmem h' x = kmem h x" by blast
    have "(M(k \<mapsto> e)) k' = Some x \<longleftrightarrow> x \<in> elems h' cs' \<and> kmem h' x = k'" for k' x
      using M [of k' x] e nk by (cases "k' = k"; cases "x = e") auto
    then have "ht_rep blocks valid h' (M(k \<mapsto> e))" using E(2) unfolding ht_rep_def by blast
    moreover have "e \<notin> ran M" using M e(2) by (auto simp: ran_def)
    ultimately show ?thesis using e(1) by blast
  qed
  then show ?thesis using run E(3,4) by blast
qed

lemma hash_search_remove:
  assumes rep: "ht_rep blocks valid h M"
  shows "M k = None \<Longrightarrow> hash_search a mf h k HASH_REMOVE = Some (Inr (HTrue, False, h))"
    "M k = Some e \<Longrightarrow> \<exists>h'. hash_search a mf h k HASH_REMOVE = Some (Inr (HElem e, True, h')) \<and>
       alloc_fn h' = alloc_fn h \<and> dmem h' = dmem h \<and> ht_rep blocks valid h' (M(k := None))"
proof -
  obtain cs fl where ok: "ht_ok blocks valid h cs fl" and M: "\<And>k e. M k = Some e \<longleftrightarrow> e \<in> elems h cs \<and> kmem h e = k"
    using rep by (auto simp: ht_rep_def)
  note C = chain_lookup [OF ok M refl, of k]
  show "M k = None \<Longrightarrow> hash_search a mf h k HASH_REMOVE = Some (Inr (HTrue, False, h))"
    using C(1,4) by (simp add: hash_search_def Let_def)
  assume e: "M k = Some e"
  let ?b = "call_hash h k"
  obtain ys zs where cs: "cs ?b = ys @ e # zs"
    "chain_walk (wmem h) (kmem h) k (slot_addr h ?b) = Some (last (slot_addr h ?b # ys), e)"
    using C(2) [OF e] by blast
  have e0: "e \<noteq> 0" using path_nonzero [OF bucket_facts(1) [OF ok C(3)], of e] cs by simp
  define h' where "h' = h\<lparr>nkeys := nkeys h - 1,
      wmem := (wmem h)(last (slot_addr h ?b # ys) := wmem h e, e := free_bucket_index h), free_bucket_index := e\<rparr>"
  note R = ht_ok_remove [OF ok C(3) cs(1) h'_def]
  have "hash_search a mf h k HASH_REMOVE = Some (Inr (HElem e, True, h'))"
    using cs(2) C(4) e0 R(3) by (simp add: hash_search_def Let_def h'_def)
  moreover have "(M(k := None)) k' = Some x \<longleftrightarrow> x \<in> elems h' (cs(?b := ys @ zs)) \<and> kmem h' x = k'" for k' x
    using M [of k' x] M [of k e] M [of k x] e unfolding R(2) R(4) by (cases "k' = k") auto
  then have "ht_rep blocks valid h' (M(k := None))" using R(1) unfolding ht_rep_def by blast
  ultimately show "\<exists>h'. hash_search a mf h k HASH_REMOVE = Some (Inr (HElem e, True, h')) \<and>
       alloc_fn h' = alloc_fn h \<and> dmem h' = dmem h \<and> ht_rep blocks valid h' (M(k := None))"
    by (intro exI [of _ h']) (simp add: h'_def)
qed

lemma ht_rep_dmem:
  assumes "ht_rep blocks valid h M"
  shows "ht_rep blocks valid (h\<lparr>dmem := d\<rparr>) M"
proof -
  obtain cs fl where "ht_ok blocks valid h cs fl" "\<forall>k e. M k = Some e \<longleftrightarrow> e \<in> elems h cs \<and> kmem h e = k"
    using assms by (auto simp: ht_rep_def)
  then have "ht_ok blocks valid (h\<lparr>dmem := d\<rparr>) cs fl \<and> (\<forall>k e. M k = Some e \<longleftrightarrow> e \<in> elems (h\<lparr>dmem := d\<rparr>) cs \<and> kmem (h\<lparr>dmem := d\<rparr>) e = k)"
    by (simp add: ht_ok_def masks_ok_def geometry_ok_def chains_ok_def keys_ok_def owned_def)
  then show ?thesis unfolding ht_rep_def by blast
qed

end

sublocale allocator \<subseteq> table: assoc_table "\<lambda>h M. alloc_fn h = alloc \<and> ht_rep blocks valid h M"
  "hash_search False mfree" dmem "\<lambda>h e d. h\<lparr>dmem := (dmem h)(e := d)\<rparr>"
proof unfold_locales
  fix t :: "'h HTAB" and M k k' e d
  assume t: "alloc_fn t = alloc \<and> ht_rep blocks valid t M"
  note r = conjunct2 [OF t]
  show "hash_search False mfree t k HASH_FIND =
      Some (Inr (case M k of None \<Rightarrow> HTrue | Some e \<Rightarrow> HElem e, M k \<noteq> None, t))"
    by (rule hash_search_find [OF r])
  show "hash_search False mfree t k HASH_ENTER = Some (Inr (HElem e, True, t))" if "M k = Some e"
    by (rule hash_search_enter_old [OF r that])
  show "\<exists>r t'. hash_search False mfree t k HASH_ENTER = Some (Inr (r, False, t')) \<and> dmem t' = dmem t \<and>
      (r = HNull \<and> alloc_fn t' = alloc \<and> ht_rep blocks valid t' M \<or>
       (\<exists>e. r = HElem e \<and> e \<notin> ran M \<and> alloc_fn t' = alloc \<and> ht_rep blocks valid t' (M(k \<mapsto> e))))" if "M k = None"
    using hash_search_enter_new [OF r conjunct1 [OF t] that] by blast
  show "\<exists>t'. hash_search False mfree t k HASH_REMOVE = Some (Inr (HElem e, True, t')) \<and> dmem t' = dmem t \<and>
      alloc_fn t' = alloc \<and> ht_rep blocks valid t' (M(k := None))" if "M k = Some e"
    using hash_search_remove(2) [OF r that, of False mfree] conjunct1 [OF t] by auto
  show "hash_search False mfree t k HASH_REMOVE = Some (Inr (HTrue, False, t))" if "M k = None"
    by (rule hash_search_remove(1) [OF r that])
  show "k' = k" if "M k = Some e" "M k' = Some e"
    using r that by (auto simp: ht_rep_def)
  show "alloc_fn (t\<lparr>dmem := (dmem t)(e := d)\<rparr>) = alloc \<and> ht_rep blocks valid (t\<lparr>dmem := (dmem t)(e := d)\<rparr>) M"
    using ht_rep_dmem [OF r] conjunct1 [OF t] by simp
qed simp

section \<open>Creating a table\<close>

lemma my_log2_loop_spec:
  "limit = 2 ^ i \<Longrightarrow> (\<exists>n. my_log2_loop i limit num = n \<and> i \<le> n \<and> num \<le> 2 ^ n \<and> (i < n \<longrightarrow> 2 ^ (n - 1) < num))"
proof (induction i limit num rule: my_log2_loop.induct)
  case (1 i limit num)
  show ?case
  proof (cases "limit < num")
    case True
    have p: "0 < limit" using "1.prems" by simp
    have "push_bit 1 limit = 2 ^ (i + 1)" using "1.prems" by (simp add: push_bit_eq_mult)
    then obtain n where n: "my_log2_loop (i + 1) (push_bit 1 limit) num = n" "i + 1 \<le> n" "num \<le> 2 ^ n"
      "i + 1 < n \<longrightarrow> 2 ^ (n - 1) < num"
      using "1.IH" True p by blast
    moreover have "my_log2_loop i limit num = n" using n(1) True p by (subst my_log2_loop.simps) simp
    moreover have "2 ^ (n - 1) < num"
      using n(2,4) True "1.prems" by (cases "n = i + 1") auto
    ultimately show ?thesis by auto
  next
    case False
    then have "my_log2_loop i limit num = i" by (subst my_log2_loop.simps) simp
    then show ?thesis using False "1.prems" by auto
  qed
qed

lemma my_log2_ge: "num \<le> 2 ^ my_log2 num"
  using my_log2_loop_spec [of 1 0 num] by (auto simp: my_log2_def)

lemma my_log2_least: "0 < my_log2 num \<Longrightarrow> 2 ^ (my_log2 num - 1) < num"
  using my_log2_loop_spec [of 1 0 num] by (auto simp: my_log2_def)

lemma my_log2_pow2: "my_log2 (2 ^ n) = n"
proof (rule antisym)
  have "(2::int) ^ n \<le> 2 ^ my_log2 (2 ^ n)" by (rule my_log2_ge)
  then show "n \<le> my_log2 (2 ^ n)" by (simp add: power_increasing_iff)
  show "my_log2 (2 ^ n) \<le> n"
  proof (rule ccontr)
    assume "\<not> my_log2 (2 ^ n) \<le> n"
    then have "(2::int) ^ (my_log2 (2 ^ n) - 1) < 2 ^ n" "n \<le> my_log2 (2 ^ n) - 1"
      using my_log2_least [of "2 ^ n"] by linarith+
    then show False by (simp add: power_strict_increasing_iff)
  qed
qed

context allocator
begin

lemma alloc_segs_ok:
  assumes "segs_ok h" "owned blocks valid h (slot_addr h ` {..<nslots h})" "alloc_fn h = alloc"
    "nsegs h + k \<le> dsize h" "\<forall>b < nslots h. wmem h (slot_addr h b) = 0" "alloc_segs h k = (s, h')"
  shows "segs_ok h' \<and> owned blocks valid h' (slot_addr h' ` {..<nslots h'}) \<and>
    (\<forall>b < nslots h'. wmem h' (slot_addr h' b) = 0) \<and> (s \<longrightarrow> nsegs h' = nsegs h + k) \<and>
    (\<exists>w hp d n. h' = h\<lparr>heap := hp, wmem := w, dir := d, nsegs := n\<rparr>)"
  using assms
proof (induction h k rule: alloc_segs.induct)
  case (1 h)
  have "\<exists>w hp d n. h = h\<lparr>heap := hp, wmem := w, dir := d, nsegs := n\<rparr>"
    by (intro exI [of _ "wmem h"] exI [of _ "heap h"] exI [of _ "dir h"] exI [of _ "nsegs h"]) simp
  then show ?case using 1 by simp
next
  case (2 h k)
  obtain a h1 where a: "seg_alloc h = (a, h1)" by fastforce
  define h2 where "h2 = h1\<lparr>dir := (dir h1)(nsegs h1 := a)\<rparr>"
  have n1: "nsegs h1 = nsegs h" using a by (auto simp: seg_alloc_def split: prod.splits if_splits)
  show ?case
  proof (cases "a = 0")
    case True
    have e: "h2 = h1\<lparr>dir := (dir h1)(nsegs h := 0)\<rparr>" by (simp add: h2_def n1 True)
    note F = seg_alloc_failed [OF "2.prems"(1,2,3) a [unfolded True] e]
    obtain hp where hp: "h2 = h\<lparr>heap := hp, dir := (dir h)(nsegs h := 0)\<rparr>" using F(4) by blast
    have h': "h' = h2" "\<not> s" using "2.prems"(6) a True by (auto simp: h2_def Let_def n1)
    have ns: "nslots h2 = nslots h" by (simp add: hp)
    have ims: "slot_addr h2 ` {..<nslots h} = slot_addr h ` {..<nslots h}" by (rule image_cong) (use F(3) in simp_all)
    have "\<forall>b < nslots h. wmem h2 (slot_addr h2 b) = 0" using F(3) "2.prems"(5) by (simp add: hp)
    moreover have "\<exists>w hp d n. h2 = h\<lparr>heap := hp, wmem := w, dir := d, nsegs := n\<rparr>"
      by (intro exI [of _ "wmem h"] exI [of _ hp] exI [of _ "(dir h)(nsegs h := 0)"] exI [of _ "nsegs h"]) (simp add: hp)
    ultimately show ?thesis using F(1,2) h'(2) unfolding h'(1) ns ims by blast
  next
    case False
    define g where "g = h2\<lparr>nsegs := nsegs h2 + 1\<rparr>"
    have ge: "g = h1\<lparr>dir := (dir h1)(nsegs h := a), nsegs := nsegs h1 + 1\<rparr>" by (simp add: g_def h2_def n1)
    have own: "owned blocks valid h (slot_addr h ` {..<nslots h} \<union> {})" using "2.prems"(2) by simp
    note F = seg_alloc_slots [OF "2.prems"(1) own "2.prems"(3) a False _ ge]
    have room: "nsegs h < dsize h" using "2.prems"(4) by simp
    obtain w hp where e: "g = h\<lparr>heap := hp, wmem := w, dir := (dir h)(nsegs h := a), nsegs := nsegs h + 1\<rparr>"
      using F(8) [OF room] by blast
    have zero: "\<forall>b < nslots g. wmem g (slot_addr g b) = 0"
    proof (intro allI impI)
      fix b assume b: "b < nslots g"
      show "wmem g (slot_addr g b) = 0"
      proof (cases "b < nslots h")
        case True
        then have "wmem g (slot_addr h b) = wmem h (slot_addr h b)" by (intro F(6) [OF room]) simp
        then show ?thesis using F(3) [OF room True] "2.prems"(5) True by simp
      next
        case False
        then show ?thesis using b by (intro F(7) [OF room]) simp
      qed
    qed
    have run: "alloc_segs g k = (s, h')" using "2.prems"(6) a False by (simp add: g_def h2_def Let_def n1)
    have fields: "alloc_fn g = alloc" "nsegs g = nsegs h + 1" "nsegs g + k \<le> dsize g"
      using "2.prems"(3,4) by (simp_all add: e)
    have own2: "owned blocks valid g (slot_addr g ` {..<nslots g})" using F(5) [OF room] by simp
    note I = "2.IH" [OF a [symmetric] h2_def False, folded g_def, OF F(1) [OF room] own2 fields(1,3) zero run]
    have "\<exists>w hp d n. h' = h\<lparr>heap := hp, wmem := w, dir := d, nsegs := n\<rparr>"
    proof -
      from I have "\<exists>w hp d n. h' = g\<lparr>heap := hp, wmem := w, dir := d, nsegs := n\<rparr>" by (elim conjE)
      then obtain w2 hp2 d2 n2 where "h' = g\<lparr>heap := hp2, wmem := w2, dir := d2, nsegs := n2\<rparr>" by (elim exE)
      then have "h' = h\<lparr>heap := hp2, wmem := w2, dir := d2, nsegs := n2\<rparr>" by (simp add: e)
      then show ?thesis by blast
    qed
    moreover have "s \<longrightarrow> nsegs h' = nsegs h + Suc k"
    proof -
      from I have "s \<longrightarrow> nsegs h' = nsegs g + k" by (elim conjE)
      then show ?thesis using fields(2) by simp
    qed
    ultimately show ?thesis using I by (elim conjE) (intro conjI)
  qed
qed

end

lemma free_chains_zero: "(\<And>j. j < n \<Longrightarrow> m (elp + 8 * j) = 0) \<Longrightarrow> free_chains mf m hp elp n = Some hp"
proof (induction n arbitrary: elp)
  case (Suc n)
  have "m elp = 0" using Suc.prems [of 0] by simp
  moreover have "m (elp + 8 + 8 * j) = 0" if "j < n" for j using Suc.prems [of "Suc j"] that by (simp add: add.assoc)
  ultimately show ?case using Suc.IH [of "elp + 8"] by (simp add: free_chain.simps)
qed simp

lemma free_segs_zero:
  "(\<And>s j. sn \<le> s \<Longrightarrow> s < sn + n \<Longrightarrow> j < ssize h \<Longrightarrow> wmem h (dir h s + 8 * j) = 0) \<Longrightarrow>
   \<exists>hp'. free_segs mf h hp sn n = Some hp'"
proof (induction n arbitrary: sn hp)
  case (Suc n)
  have "free_chains mf (wmem h) hp (dir h sn) (ssize h) = Some hp"
    using Suc.prems [of sn] by (intro free_chains_zero) simp
  then show ?case using Suc by simp
qed simp

lemma slot_zero_segment:
  assumes "segs_ok h" "\<forall>b < nslots h. wmem h (slot_addr h b) = 0" "s < nsegs h" "j < ssize h"
  shows "wmem h (dir h s + 8 * j) = 0"
proof -
  have ss: "ssize h = 2 ^ sshift h" using assms(1) by (simp add: segs_ok_def)
  let ?b = "s * ssize h + j"
  have "(s + 1) * ssize h \<le> nsegs h * ssize h" using assms(3) by (intro mult_right_mono) simp_all
  then have "?b < nslots h" using assms(4) unfolding nslots_def add_mult_distrib by linarith
  moreover have "slot_addr h ?b = dir h s + 8 * j"
    using assms(4) MOD_pow2 [OF ss, of ?b] ss by (simp add: slot_addr_def drop_bit_eq_div)
  ultimately show ?thesis using assms(2) by metis
qed

lemma sdiv_of_nat: "int a sdiv int b = int (a div b)"
  by (cases "a = 0"; cases "b = 0") (simp_all add: signed_divide_int_def sgn_if zdiv_int)

lemma segs_enough:
  assumes "0 < sz"
  shows "(2 :: nat) ^ n - 1 < 2 ^ my_log2 ((int (2 ^ n) - 1) sdiv int sz + 1) * sz"
proof -
  let ?q = "((2 :: nat) ^ n - 1) div sz"
  have "int (2 ^ n) - 1 = int (2 ^ n - 1)" by (simp add: of_nat_diff)
  then have q: "(int (2 ^ n) - 1) sdiv int sz = int ?q" by (simp only: sdiv_of_nat)
  have "int ?q + 1 \<le> 2 ^ my_log2 (int ?q + 1)" by (rule my_log2_ge)
  then have "int (?q + 1) \<le> int (2 ^ my_log2 (int ?q + 1))" by simp
  then have "?q + 1 \<le> 2 ^ my_log2 (int ?q + 1)" by (simp only: of_nat_le_iff)
  then have "(?q + 1) * sz \<le> 2 ^ my_log2 (int ?q + 1) * sz" by (rule mult_right_mono) simp
  moreover have "(2 :: nat) ^ n - 1 < (?q + 1) * sz"
    using assms mod_less_divisor [of sz "2 ^ n - 1"] div_mult_mod_eq [of "2 ^ n - 1" sz]
    unfolding add_mult_distrib by linarith
  ultimately show ?thesis unfolding q by linarith
qed

context allocator
begin

lemma init_htab_ok:
  assumes al: "alloc_fn h = alloc" and f: "dir_ptr h = 0" "nsegs h = 0" "nkeys h = 0" "free_bucket_index h = 0"
    and ss: "ssize h = 2 ^ sshift h" and v: "valid (heap h)" and r: "init_htab h nelem = (s, h')"
  shows "alloc_fn h' = alloc \<and> shared h' = shared h \<and> default_alloc h' = default_alloc h \<and> keysize h' = keysize h \<and>
    hash_fn h' = hash_fn h \<and> (s \<longrightarrow> ht_rep blocks valid h' Map.empty) \<and>
    (\<forall>seg j. seg < nsegs h' \<longrightarrow> j < ssize h' \<longrightarrow> wmem h' (dir h' seg + 8 * j) = 0)"
proof -
  define n where "n = my_log2 ((nelem - 1) sdiv int (ffactor h) + 1)"
  define h1 where "h1 = h\<lparr>max_bucket := 2 ^ n - 1, low_mask := 2 ^ n - 1, high_mask := push_bit 1 (2 ^ n) - 1\<rparr>"
  define segs where "segs = (2 :: nat) ^ my_log2 ((int (2 ^ n) - 1) sdiv int (ssize h) + 1)"
  define h2 where "h2 = (if segs > dsize h1 then h1\<lparr>dsize := segs\<rparr> else h1)"
  obtain p hp where p: "alloc (heap h) (dsize h2 * 8) = (p, hp)" by fastforce
  define h3 where "h3 = h2\<lparr>dir_ptr := p, heap := hp\<rparr>"
  have d1: "dir_ptr h1 = 0" "dir_ptr h2 = 0" "alloc_fn h2 = alloc" "heap h2 = heap h" "nsegs h3 = 0" "segs \<le> dsize h2"
    using f al by (simp_all add: h1_def h2_def h3_def)
  have run: "init_htab h nelem = (if p = 0 then (False, h3) else alloc_segs h3 segs)"
  proof -
    have pb: "push_bit k 1 = (2 :: nat) ^ k" for k by (simp add: push_bit_eq_mult)
    show ?thesis
      unfolding init_htab_def Let_def pb n_def [symmetric] h1_def [symmetric]
      unfolding segs_def [symmetric] h2_def [symmetric]
      using d1 p by (simp add: h3_def)
  qed
  have f3: "alloc_fn h3 = alloc" "shared h3 = shared h" "default_alloc h3 = default_alloc h" "keysize h3 = keysize h"
    "ssize h3 = ssize h" "sshift h3 = sshift h" "nkeys h3 = 0" "free_bucket_index h3 = 0" "dsize h3 = dsize h2"
    "max_bucket h3 = 2 ^ n - 1" "hash_fn h3 = hash_fn h"
    using al f by (simp_all add: h3_def h2_def h1_def)
  have mk: "masks_ok n h3"
    by (simp add: masks_ok_def h3_def h2_def h1_def push_bit_eq_mult mult.commute [of "2 ^ n"] diff_le_mono)
  have so: "segs_ok h3" using ss f3 d1 by (simp add: segs_ok_def nslots_def)
  show ?thesis
  proof (cases "p = 0")
    case True
    then show ?thesis using run r f3 d1 by auto
  next
    case False
    note ab = alloc_block [OF v p False]
    have own: "owned blocks valid h3 (slot_addr h3 ` {..<nslots h3})"
      using ab d1 by (auto simp: owned_def nslots_def h3_def)
    have as: "alloc_segs h3 segs = (s, h')" using run r False by simp
    have A: "segs_ok h' \<and> owned blocks valid h' (slot_addr h' ` {..<nslots h'}) \<and>
        (\<forall>b < nslots h'. wmem h' (slot_addr h' b) = 0) \<and> (s \<longrightarrow> nsegs h' = nsegs h3 + segs) \<and>
        (\<exists>w hp d n. h' = h3\<lparr>heap := hp, wmem := w, dir := d, nsegs := n\<rparr>)"
      by (rule alloc_segs_ok [OF so own f3(1) _ _ as]) (use d1 f3 in \<open>simp_all add: nslots_def\<close>)
    then obtain w hp2 d m where e: "h' = h3\<lparr>heap := hp2, wmem := w, dir := d, nsegs := m\<rparr>" by (elim conjE exE)
    note A2 = conjunct2 [OF A]
    note A' = conjunct1 [OF A] conjunct1 [OF conjunct2 [OF A2]] conjunct1 [OF A2]
      conjunct1 [OF conjunct2 [OF conjunct2 [OF A2]]]
    have z: "\<forall>seg j. seg < nsegs h' \<longrightarrow> j < ssize h' \<longrightarrow> wmem h' (dir h' seg + 8 * j) = 0"
      using slot_zero_segment [OF A'(1,2)] by blast
    have "ht_rep blocks valid h' Map.empty" if s
    proof -
      have el: "elems h' (\<lambda>_. []) = {}" by (simp add: elems_def)
      have "nsegs h' = segs" using A'(4) that d1 by simp
      then have "max_bucket h' < nslots h'"
        using segs_enough [of "ssize h" n] ss f3 unfolding nslots_def segs_def by (simp add: e)
      then have g: "geometry_ok h'" using A'(1) by (simp add: geometry_ok_segs)
      then have "\<And>b. b \<le> max_bucket h' \<Longrightarrow> b < nslots h'" by (simp add: geometry_ok_def)
      then have "chains_ok h' (\<lambda>_. []) []" using A'(2) f3(8) unfolding chains_ok_def el by (simp add: e)
      moreover have "keys_ok h' (\<lambda>_. [])" using f3 unfolding keys_ok_def el by (simp add: e)
      moreover have "masks_ok n h'" using mk by (simp add: masks_ok_def e)
      ultimately have "ht_ok blocks valid h' (\<lambda>_. []) []" using g A'(3) unfolding ht_ok_def el by auto
      then show ?thesis using el unfolding ht_rep_def by fastforce
    qed
    then show ?thesis using z f3 by (simp add: e)
  qed
qed

lemma hash_create_ok:
  assumes v: "valid (heap (info_table info))"
    and fl: "flags AND HASH_SHARED_MEM = 0" "flags AND HASH_ALLOC = 0"
    and seg: "flags AND HASH_SEGMENT \<noteq> 0 \<longrightarrow> info_ssize info = 2 ^ k"
  shows "\<exists>r. hash_create alloc mfree nelem info flags = Some r \<and>
    (r = Inl Bad_pointer \<and> fst (alloc (heap (info_table info)) sizeof_HTAB) = 0 \<or> (\<exists>hp. r = Inr (None, hp)) \<or>
     (\<exists>h. r = Inr (Some h, heap h) \<and> alloc_fn h = alloc \<and> ht_rep blocks valid h Map.empty \<and>
        hash_fn h = (if flags AND HASH_FUNCTION \<noteq> 0 then info_hash info else string_hash) \<and>
        keysize h = (if flags AND HASH_ELEM \<noteq> 0 then info_keysize info else 8)))"
proof -
  obtain a hp where a: "alloc (heap (info_table info)) sizeof_HTAB = (a, hp)" by fastforce
  show ?thesis
  proof (cases "a = 0")
    case True
    then show ?thesis using a by (simp add: hash_create_def)
  next
    case False
    have v1: "valid hp" using alloc_block [OF v a False] by simp
    define h0 where "h0 = create_handle alloc info flags a hp"
    have h0: "hctl_ptr h0 = 0" "alloc_fn h0 = alloc" "heap h0 = hp" "dir_ptr h0 = 0" "\<not> shared h0" "default_alloc h0"
      "hash_fn h0 = (if flags AND HASH_FUNCTION \<noteq> 0 then info_hash info else string_hash)"
      using fl by (simp_all add: h0_def create_handle_def Let_def)
    obtain c hp1 where c: "alloc hp sizeof_HHDR = (c, hp1)" by fastforce
    define h1 where "h1 = h0\<lparr>hctl_ptr := c, heap := hp1\<rparr>"
    have run: "hash_create alloc mfree nelem info flags =
       (if c = 0 then Some (Inr (None, heap h1))
        else let h2 = apply_info info flags (hdefault h1)
        in if flags AND HASH_SEGMENT \<noteq> 0 \<and> ssize h2 \<noteq> push_bit (sshift h2) 1 then Some (Inl Assert_failed)
        else case init_htab h2 nelem of (ok, h3) \<Rightarrow>
          if ok then Some (Inr (Some h3, heap h3))
          else case hash_destroy mfree h3 of None \<Rightarrow> None
            | Some (Inl e) \<Rightarrow> Some (Inl e)
            | Some (Inr hp) \<Rightarrow> Some (Inr (None, hp)))"
      using a False fl h0 c unfolding hash_create_def
      by (simp add: h0_def [symmetric] h1_def del: sizeof_HTAB_def sizeof_HHDR_def)
    show ?thesis
    proof (cases "c = 0")
      case True
      then show ?thesis using run by simp
    next
      case c0: False
      have v2: "valid hp1" using alloc_block [OF v1 c c0] by simp
      define h2 where "h2 = apply_info info flags (hdefault h1)"
      have h2: "alloc_fn h2 = alloc" "dir_ptr h2 = 0" "nsegs h2 = 0" "nkeys h2 = 0" "free_bucket_index h2 = 0"
        "heap h2 = hp1" "ssize h2 = 2 ^ sshift h2" "\<not> shared h2" "default_alloc h2"
        "hash_fn h2 = (if flags AND HASH_FUNCTION \<noteq> 0 then info_hash info else string_hash)"
        "keysize h2 = (if flags AND HASH_ELEM \<noteq> 0 then info_keysize info else 8)"
        using fl h0 seg my_log2_pow2 by (auto simp: h2_def apply_info_def hdefault_def h1_def Let_def)
      obtain s h3 where i: "init_htab h2 nelem = (s, h3)" by fastforce
      have I: "alloc_fn h3 = alloc \<and> shared h3 = shared h2 \<and> default_alloc h3 = default_alloc h2 \<and> keysize h3 = keysize h2 \<and>
          hash_fn h3 = hash_fn h2 \<and> (s \<longrightarrow> ht_rep blocks valid h3 Map.empty) \<and>
          (\<forall>seg j. seg < nsegs h3 \<longrightarrow> j < ssize h3 \<longrightarrow> wmem h3 (dir h3 seg + 8 * j) = 0)"
        by (rule init_htab_ok [OF h2(1-5,7) _ i]) (simp add: h2 v2)
      have ps: "ssize h2 = push_bit (sshift h2) 1" using h2(7) by (simp add: push_bit_eq_mult)
      show ?thesis
      proof (cases s)
        case True
        then show ?thesis using run c0 i I h2 ps by (simp add: h2_def [symmetric] Let_def)
      next
        case False
        have "\<exists>hp'. free_segs mfree h3 (heap h3) 0 (nsegs h3) = Some hp'"
          by (rule free_segs_zero) (use I in auto)
        then obtain hp' where "free_segs mfree h3 (heap h3) 0 (nsegs h3) = Some hp'" by blast
        then have "\<exists>hp. hash_destroy mfree h3 = Some (Inr hp)" using I h2 by (simp add: hash_destroy_def)
        then show ?thesis using run c0 i False ps by (auto simp: h2_def [symmetric] Let_def)
      qed
    qed
  qed
qed

end

section \<open>Sequential scan\<close>

text \<open>What a scan at cursor \<open>(b, i)\<close> has still to return.\<close>

definition scan_rest :: "'h HTAB \<Rightarrow> (nat \<Rightarrow> nat list) \<Rightarrow> nat \<Rightarrow> nat \<Rightarrow> nat list \<Rightarrow> bool" where
  "scan_rest h cs b i xs \<longleftrightarrow>
     (if i = 0 then xs = concat (map cs [b..<Suc (max_bucket h)])
      else b \<le> max_bucket h \<and> (\<exists>ys. path (wmem h) i ys \<and> xs = ys @ concat (map cs [Suc b..<Suc (max_bucket h)])))"

lemma scan_step:
  assumes "path (wmem h) i (x # ys)" "b \<le> max_bucket h"
  shows "scan_rest h cs (if wmem h i = 0 then b + 1 else b) (wmem h i) (ys @ concat (map cs [Suc b..<Suc (max_bucket h)]))"
  using assms by (cases ys) (auto simp: scan_rest_def)

lemma hash_seq_loop_spec:
  assumes ok: "ht_ok blocks valid h cs fl" and s: "scan_rest h cs b i xs"
  shows "case xs of [] \<Rightarrow> fst (hash_seq_loop h b i) = HTrue
    | x # xs' \<Rightarrow> \<exists>b' i'. hash_seq_loop h b i = (HElem x, b', i') \<and> scan_rest h cs b' i' xs'"
  using s
proof (induction "max_bucket h + 1 - b" arbitrary: b i xs rule: less_induct)
  case less
  let ?rest = "concat (map cs [Suc b..<Suc (max_bucket h)])"
  show ?case
  proof (cases "b \<le> max_bucket h")
    case False
    then have "xs = []" using less.prems by (auto simp: scan_rest_def split: if_splits)
    then show ?thesis using False by (subst hash_seq_loop.simps) simp
  next
    case b: True
    have up: "concat (map cs [b..<Suc (max_bucket h)]) = cs b @ ?rest" using b by (simp add: upt_conv_Cons del: upt_Suc)
    show ?thesis
    proof (cases "i = 0")
      case False
      then obtain zs where zs: "path (wmem h) i zs" "xs = zs @ ?rest"
        using less.prems by (auto simp: scan_rest_def)
      then obtain ys where "zs = i # ys" using False by (cases zs) auto
      then have ys: "path (wmem h) i (i # ys)" "xs = i # ys @ ?rest" using zs by simp_all
      have "hash_seq_loop h b i = (HElem i, if wmem h i = 0 then b + 1 else b, wmem h i)"
        using b False by (subst hash_seq_loop.simps) (simp add: Let_def)
      then show ?thesis using ys scan_step [OF ys(1) b, of cs] by simp
    next
      case True
      then have xs: "xs = cs b @ ?rest" using less.prems up by (simp add: scan_rest_def del: upt_Suc)
      note B = bucket_facts [OF ok b] and dn = dir_nonzero [OF ht_okD(1) [OF ok] b]
      show ?thesis
      proof (cases "cs b")
        case Nil
        then have z: "wmem h (slot_addr h b) = 0" using B(1) by simp
        have "hash_seq_loop h b i = hash_seq_loop h (b + 1) 0"
          using b True z dn by (subst hash_seq_loop.simps) (simp add: Let_def)
        moreover have "scan_rest h cs (b + 1) 0 xs" using xs Nil by (simp add: scan_rest_def del: upt_Suc)
        moreover have "max_bucket h + 1 - (b + 1) < max_bucket h + 1 - b" using b by linarith
        ultimately show ?thesis using less.hyps [of "b + 1" 0 xs] by (simp only:)
      next
        case (Cons x ys)
        then have z: "wmem h (slot_addr h b) = x" "x \<noteq> 0" "path (wmem h) x (x # ys)" using B(1) by auto
        have "hash_seq_loop h b i = (HElem x, if wmem h x = 0 then b + 1 else b, wmem h x)"
          using b True z dn by (subst hash_seq_loop.simps) (simp add: Let_def)
        then show ?thesis using xs Cons scan_step [OF z(3) b, of cs] by simp
      qed
    qed
  qed
qed

text \<open>A client's scan: \<open>n\<close> calls of \<open>hash_seq\<close> from a cursor.\<close>

fun hash_seq_results :: "'h HTAB \<Rightarrow> nat \<times> nat \<Rightarrow> nat \<Rightarrow> hresult list" where
  "hash_seq_results h cur 0 = []"
| "hash_seq_results h cur (Suc n) = (case hash_seq (Some h) cur of (r, cur') \<Rightarrow> r # hash_seq_results h cur' n)"

lemma hash_seq_results_spec:
  assumes ok: "ht_ok blocks valid h cs fl" and s: "scan_rest h cs b i xs"
  shows "hash_seq_results h (b, i) (Suc (length xs)) = map HElem xs @ [HTrue]"
  using s
proof (induction xs arbitrary: b i)
  case Nil
  then show ?case using hash_seq_loop_spec [OF ok Nil] by (auto simp: hash_seq_def split: prod.splits)
next
  case (Cons x xs)
  then obtain b' i' where "hash_seq_loop h b i = (HElem x, b', i')" "scan_rest h cs b' i' xs"
    using hash_seq_loop_spec [OF ok Cons.prems] by auto
  then show ?case using Cons.IH by (simp add: hash_seq_def del: hash_seq_results.simps(2))
      (simp add: hash_seq_def)
qed

lemma hash_seq_complete_aux:
  assumes "ht_rep blocks valid h M"
  shows "\<exists>xs. hash_seq_results h (0, 0) (Suc (length xs)) = map HElem xs @ [HTrue] \<and> distinct xs \<and> set xs = ran M"
proof -
  obtain cs fl where ok: "ht_ok blocks valid h cs fl" and M: "\<And>k e. M k = Some e \<longleftrightarrow> e \<in> elems h cs \<and> kmem h e = k"
    using assms by (auto simp: ht_rep_def)
  let ?xs = "concat (map cs [0..<Suc (max_bucket h)])"
  have "scan_rest h cs 0 0 ?xs" by (simp add: scan_rest_def del: upt_Suc)
  moreover have "set ?xs = elems h cs" by (auto simp: elems_def less_Suc_eq_le simp del: upt_Suc)
  moreover have "elems h cs = ran M" using M by (auto simp: ran_def)
  moreover have "distinct (concat (map cs [0..<n]))" if "n \<le> Suc (max_bucket h)" for n
    using that
  proof (induction n)
    case (Suc n)
    have "set (cs b) \<inter> set (cs n) = {}" if "b < n" for b
      using that Suc.prems other_disjoint(1) [OF ok, of n b] by simp
    then have "set (concat (map cs [0..<n])) \<inter> set (cs n) = {}" by fastforce
    then show ?case using Suc bucket_facts(2) [OF ok, of n] by simp
  qed simp
  ultimately show ?thesis using hash_seq_results_spec [OF ok] by (metis order_refl)
qed

context allocator
begin

lemma hash_search_enter_asserts:
  assumes rep: "ht_rep blocks valid h M" and al: "alloc_fn h = alloc" and n: "M k = None"
  shows "hash_search True mfree h k HASH_ENTER = Some (Inl Assert_failed) \<or>
    (\<exists>h'. hash_search True mfree h k HASH_ENTER = Some (Inr (HNull, False, h')))"
proof -
  obtain cs fl where ok: "ht_ok blocks valid h cs fl" and M: "\<And>k e. M k = Some e \<longleftrightarrow> e \<in> elems h cs \<and> kmem h e = k"
    using rep by (auto simp: ht_rep_def)
  note C = chain_lookup [OF ok M refl, of k]
  obtain s h1 where a: "(if free_bucket_index h = INVALID_INDEX then bucket_alloc h else (True, h)) = (s, h1)" by fastforce
  have "free_bucket_index h1 \<noteq> 0" if st: s
  proof (cases "free_bucket_index h = 0")
    case True
    then have "bucket_alloc h = (s, h1)" using a by simp
    then obtain e es where "ht_ok blocks valid h1 cs (e # es @ fl)" using bucket_alloc_ok(8) [OF ok al] st by blast
    then show ?thesis by (auto dest!: ht_okD(2) simp: chains_ok_def)
  qed (use a in auto)
  then show ?thesis
    using C(1) [OF n] C(4) a by (cases s) (auto simp: hash_search_def hash_enter_new_def Let_def)
qed

end

section \<open>Properties\<close>

definition memory0 :: "bump HTAB" where
  "memory0 = \<lparr>dsize = 0, ssize = 0, sshift = 0, max_bucket = 0, high_mask = 0, low_mask = 0, ffactor = 0, nkeys = 0,
     nsegs = 0, keysize = 0, datasize = 0, max_dsize = 0, free_bucket_index = 0, hctl_ptr = 0, hashp_ptr = 0,
     hash_fn = string_hash, shared = False, default_alloc = True, alloc_fn = bump_alloc, dir_ptr = 0,
     dir = (\<lambda>_. 0), wmem = (\<lambda>_. 7), kmem = (\<lambda>_. []), dmem = (\<lambda>_. 0), heap = (16, Map.empty), save_state = (0, 0, 0)\<rparr>"

definition info0 :: "bump HASHCTL" where
  "info0 = \<lparr>info_ssize = 0, info_dsize = 0, info_ffactor = 0, info_hash = tag_hash, info_keysize = 4, info_datasize = 4,
     info_max_dsize = 0, info_alloc = bump_alloc, info_table = memory0\<rparr>"

text \<open>A table with tag keys of four bytes, as \<open>hash_create\<close> makes it.\<close>

definition tab0 :: "bump HTAB" where
  "tab0 = (case hash_create bump_alloc bump_free 1 info0 (HASH_ELEM OR HASH_FUNCTION) of
     Some (Inr (Some h, _)) \<Rightarrow> h | _ \<Rightarrow> memory0)"

lemma my_log2_1: "my_log2 1 = 0"
  using my_log2_pow2 [of 0] by simp

lemma create_tab0: "hash_create bump_alloc bump_free 1 info0 (HASH_ELEM OR HASH_FUNCTION) = Some (Inr (Some tab0, heap tab0))"
  by (simp add: tab0_def hash_create_def create_handle_def apply_info_def info0_def memory0_def hash_flags bump_alloc_def
      hdefault_def init_htab_def my_log2_1 seg_alloc_def Let_def)

lemma tab0_rep: "ht_rep snd bump_valid tab0 Map.empty" "alloc_fn tab0 = bump_alloc" "keysize tab0 = 4"
  using bump.hash_create_ok [of info0 "HASH_ELEM OR HASH_FUNCTION" 0 1] create_tab0
  by (auto simp: info0_def memory0_def hash_flags bump_valid_def)

text \<open>
  C18. \<open>hash_search\<close> with \<open>HASH_FIND\<close> on a table that represents the map \<open>M\<close> ends, returns the
  element of the key and \<open>found\<close> exactly when \<open>M\<close> has the key, and leaves the table as it is, for
  every hash function, fill factor and segment size.
\<close>

theorem hash_search_find_correct:
  assumes "allocator alloc MEM_FREE blocks valid" "ht_rep blocks valid h M"
  shows "hash_search asserts MEM_FREE h key HASH_FIND =
    Some (Inr (case M key of None \<Rightarrow> HTrue | Some e \<Rightarrow> HElem e, M key \<noteq> None, h))"
  by (rule allocator.hash_search_find [OF assms])

theorem hash_search_find_correct_witness:
  "hash_search False bump_free tab0 [1, 2, 3, 4] HASH_FIND = Some (Inr (HTrue, False, tab0))"
  using hash_search_find_correct [OF bump_allocator tab0_rep(1), of False "[1, 2, 3, 4]"] by simp



text \<open>
  C19. \<open>hash_search\<close> with \<open>HASH_REMOVE\<close> removes exactly the entry of the key, returns its element,
  keeps all other entries and the client data, and changes nothing when the key is absent.
\<close>

theorem hash_search_remove_correct:
  assumes "allocator alloc MEM_FREE blocks valid" "ht_rep blocks valid h M"
  shows "\<exists>h'. hash_search asserts MEM_FREE h key HASH_REMOVE =
      Some (Inr (case M key of None \<Rightarrow> HTrue | Some e \<Rightarrow> HElem e, M key \<noteq> None, h')) \<and>
    dmem h' = dmem h \<and> ht_rep blocks valid h' (M(key := None)) \<and> (M key = None \<longrightarrow> h' = h)"
proof (cases "M key")
  case None
  then have "M(key := None) = M" by auto
  then show ?thesis using allocator.hash_search_remove(1) [OF assms None] None assms(2) by auto
next
  case (Some e)
  then show ?thesis using allocator.hash_search_remove(2) [OF assms Some, of asserts MEM_FREE] by auto
qed

theorem hash_search_remove_correct_witness:
  "\<exists>h'. hash_search True bump_free tab0 [1, 2, 3, 4] HASH_REMOVE = Some (Inr (HTrue, False, h')) \<and> h' = tab0"
  using hash_search_remove_correct [OF bump_allocator tab0_rep(1), of True "[1, 2, 3, 4]"] by auto

text \<open>
  C20. \<open>expand_table\<close> always ends and keeps the map of the table: when it reports success the table
  has one more bucket and the elements of the split bucket are where the new masks look for them;
  when memory runs out the table is as usable as before.
\<close>

theorem expand_table_correct:
  assumes "allocator alloc MEM_FREE blocks valid" "ht_rep blocks valid h M" "alloc_fn h = alloc"
  shows "\<exists>s h'. expand_table MEM_FREE h = Some (s, h') \<and> ht_rep blocks valid h' M \<and> dmem h' = dmem h \<and>
    max_bucket h' = (if s then max_bucket h + 1 else max_bucket h)"
proof -
  obtain cs fl where ok: "ht_ok blocks valid h cs fl" and M: "\<forall>k e. M k = Some e \<longleftrightarrow> e \<in> elems h cs \<and> kmem h e = k"
    using assms(2) by (auto simp: ht_rep_def)
  obtain s h' cs' where "ht_ok blocks valid h' cs' fl" "elems h' cs' = elems h cs"
    and e: "expand_table MEM_FREE h = Some (s, h')" "kmem h' = kmem h" "dmem h' = dmem h"
      "max_bucket h' = (if s then max_bucket h + 1 else max_bucket h)"
    using allocator.expand_table_ok [OF assms(1) ok assms(3)] by blast
  moreover have "\<forall>k e. M k = Some e \<longleftrightarrow> e \<in> elems h' cs' \<and> kmem h' e = k" using M calculation by simp
  ultimately have "ht_rep blocks valid h' M" unfolding ht_rep_def by blast
  then show ?thesis using e by blast
qed

theorem expand_table_correct_witness:
  "\<exists>s h'. expand_table bump_free tab0 = Some (s, h') \<and> ht_rep snd bump_valid h' Map.empty \<and> dmem h' = dmem tab0 \<and>
    max_bucket h' = (if s then max_bucket tab0 + 1 else max_bucket tab0)"
  by (rule expand_table_correct [OF bump_allocator tab0_rep(1,2)])

text \<open>
  \<open>hash_create\<close> of a table in private memory, with a power of two as segment size, always
  ends; it returns an empty table that satisfies the table invariant and has the requested hash
  function and key size, or \<open>NULL\<close> when an allocation fails.
\<close>

theorem hash_create_correct:
  assumes "allocator MEM_ALLOC MEM_FREE blocks valid" "valid (heap (info_table info))"
    "flags AND HASH_SHARED_MEM = 0" "flags AND HASH_ALLOC = 0"
    "flags AND HASH_SEGMENT \<noteq> 0 \<longrightarrow> info_ssize info = 2 ^ k"
  shows "\<exists>r. hash_create MEM_ALLOC MEM_FREE nelem info flags = Some r \<and>
    (r = Inl Bad_pointer \<and> fst (MEM_ALLOC (heap (info_table info)) sizeof_HTAB) = 0 \<or> (\<exists>hp. r = Inr (None, hp)) \<or>
     (\<exists>h. r = Inr (Some h, heap h) \<and> alloc_fn h = MEM_ALLOC \<and> ht_rep blocks valid h Map.empty \<and>
        hash_fn h = (if flags AND HASH_FUNCTION \<noteq> 0 then info_hash info else string_hash) \<and>
        keysize h = (if flags AND HASH_ELEM \<noteq> 0 then info_keysize info else 8)))"
  by (rule allocator.hash_create_ok [OF assms])

theorem hash_create_correct_witness:
  "\<exists>h. hash_create bump_alloc bump_free 1 info0 (HASH_ELEM OR HASH_FUNCTION) = Some (Inr (Some h, heap h)) \<and>
    ht_rep snd bump_valid h Map.empty \<and> keysize h = 4"
  using hash_create_correct [OF bump_allocator, of info0 "HASH_ELEM OR HASH_FUNCTION" 0 1] create_tab0
  by (auto simp: info0_def memory0_def hash_flags bump_valid_def)

text \<open>
  C21. A sequential scan with \<open>hash_seq\<close> from the initial cursor returns every element of the
  table exactly once and then \<open>TRUE\<close>.
\<close>

theorem hash_seq_complete:
  assumes "ht_rep blocks valid h M"
  shows "\<exists>xs. hash_seq_results h (0, 0) (Suc (length xs)) = map HElem xs @ [HTrue] \<and> distinct xs \<and> set xs = ran M"
  by (rule hash_seq_complete_aux [OF assms])

theorem hash_seq_complete_witness:
  "\<exists>xs. hash_seq_results tab0 (0, 0) (Suc (length xs)) = map HElem xs @ [HTrue] \<and> distinct xs \<and> set xs = ran (Map.empty :: byte list \<rightharpoonup> nat)"
  by (rule hash_seq_complete [OF tab0_rep(1)])

text \<open>
  \<open>my_log2\<close> is the ceiling of the binary logarithm: the least exponent whose power of two
  reaches the argument.
\<close>

theorem my_log2_correct: "num \<le> 2 ^ my_log2 num \<and> (\<forall>m < my_log2 num. \<not> num \<le> 2 ^ m)"
proof (intro conjI allI impI)
  show "num \<le> 2 ^ my_log2 num" by (rule my_log2_ge)
  fix m assume m: "m < my_log2 num"
  then have "(2::int) ^ m \<le> 2 ^ (my_log2 num - 1)" by (intro power_increasing) auto
  then show "\<not> num \<le> 2 ^ m" using my_log2_least [of num] m by linarith
qed

theorem my_log2_correct_witness: "(5::int) \<le> 2 ^ my_log2 5 \<and> \<not> (5::int) \<le> 2 ^ (2::nat)"
  using my_log2_correct [of 5] by simp

text \<open>
  In a build with assertions no new key can ever be entered: the assertion before the new
  element is used demands that there is none, so \<open>HASH_ENTER\<close> of an absent key stops there (or
  returns \<open>NULL\<close> when no element could be allocated).
\<close>

theorem hash_enter_assertion_fails:
  assumes "allocator alloc MEM_FREE blocks valid" "ht_rep blocks valid h M" "alloc_fn h = alloc" "M key = None"
  shows "hash_search True MEM_FREE h key HASH_ENTER = Some (Inl Assert_failed) \<or>
    (\<exists>h'. hash_search True MEM_FREE h key HASH_ENTER = Some (Inr (HNull, False, h')))"
  by (rule allocator.hash_search_enter_asserts [OF assms])

theorem hash_enter_assertion_fails_witness:
  "hash_search True bump_free tab0 [1, 2, 3, 4] HASH_ENTER = Some (Inl Assert_failed) \<or>
   (\<exists>h'. hash_search True bump_free tab0 [1, 2, 3, 4] HASH_ENTER = Some (Inr (HNull, False, h')))"
  by (rule hash_enter_assertion_fails [OF bump_allocator tab0_rep(1,2)]) simp

end
