(* ===== verification/BufTable.thy ===== *)
theory BufTable
  imports BufFreelist Dynahash
begin

text \<open>
  The buffer lookup table, \<^verbatim>\<open>storage/buffer/buf_table.c\<close>: a client of \<open>hash_search\<close> that maps
  buffer tags to buffer ids. The key of a tag are its twelve bytes; the id is the client data of the
  element. A routine returns \<open>None\<close> if the search does not end; a returned descriptor pointer is the
  index of the descriptor.
\<close>

definition P_NEW :: "32 word" where "P_NEW = 0xFFFFFFFF"

definition tag_bytes :: "BufferTag \<Rightarrow> byte list" where
  "tag_bytes t = bytes_at (put32 (put32 (put32 (\<lambda>_. 0) 0 (tbl_node t)) 4 (rel_node t)) 8 (block_num t)) 0 12"

definition buf_table_lookup ::
  "bool \<Rightarrow> ('h \<Rightarrow> nat \<Rightarrow> 'h) \<Rightarrow> 'h HTAB \<Rightarrow> BufferTag \<Rightarrow> nat option cres option" where
  "buf_table_lookup asserts MEM_FREE SharedBufHash t =
     (if block_num t = P_NEW then Some (Inr None)
      else case hash_search asserts MEM_FREE SharedBufHash (tag_bytes t) HASH_FIND of
        None \<Rightarrow> None
      | Some (Inl e) \<Rightarrow> Some (Inl e)
      | Some (Inr (result, found, h)) \<Rightarrow>
          (case result of HNull \<Rightarrow> Some (Inl Elog_ERROR)
           | HTrue \<Rightarrow> if \<not> found then Some (Inr None) else Some (Inl Bad_pointer)
           | HElem e \<Rightarrow> if \<not> found then Some (Inr None) else Some (Inr (Some (dmem h e)))))"

definition buf_table_delete ::
  "bool \<Rightarrow> ('h \<Rightarrow> nat \<Rightarrow> 'h) \<Rightarrow> bufpool \<Rightarrow> 'h HTAB \<Rightarrow> int \<Rightarrow> (bool \<times> bufpool \<times> 'h HTAB) cres option" where
  "buf_table_delete asserts MEM_FREE s SharedBufHash buf_desc =
     (if \<not> bd_in s buf_desc then Some (Inl Bad_pointer)
      else if flags (bd_at s buf_desc) AND BM_DELETED \<noteq> 0 then Some (Inr (True, s, SharedBufHash))
      else let s1 = bd_upd s buf_desc (\<lambda>d. d\<lparr>flags := flags d OR BM_DELETED\<rparr>)
      in case hash_search asserts MEM_FREE SharedBufHash (tag_bytes (tag (bd_at s1 buf_desc))) HASH_REMOVE of
        None \<Rightarrow> None
      | Some (Inl e) \<Rightarrow> Some (Inl e)
      | Some (Inr (result, found, h)) \<Rightarrow>
          if \<not> (result \<noteq> HNull \<and> found) then Some (Inl Elog_ERROR) else Some (Inr (True, s1, h)))"

definition buf_table_insert ::
  "bool \<Rightarrow> ('h \<Rightarrow> nat \<Rightarrow> 'h) \<Rightarrow> bufpool \<Rightarrow> 'h HTAB \<Rightarrow> int \<Rightarrow> (bool \<times> bufpool \<times> 'h HTAB) cres option" where
  "buf_table_insert asserts MEM_FREE s SharedBufHash buf_desc =
     (if \<not> bd_in s buf_desc then Some (Inl Bad_pointer)
      else if asserts \<and> flags (bd_at s buf_desc) AND BM_DELETED = 0 then Some (Inl Assert_failed)
      else let s1 = bd_upd s buf_desc (\<lambda>d. d\<lparr>flags := flags d AND NOT BM_DELETED\<rparr>)
      in case hash_search asserts MEM_FREE SharedBufHash (tag_bytes (tag (bd_at s1 buf_desc))) HASH_ENTER of
        None \<Rightarrow> None
      | Some (Inl e) \<Rightarrow> Some (Inl e)
      | Some (Inr (result, found, h)) \<Rightarrow>
          (case result of HElem e \<Rightarrow>
             if found then Some (Inl Elog_ERROR)
             else Some (Inr (True, s1, h\<lparr>dmem := (dmem h)(e := nat (buf_id (bd_at s1 buf_desc)))\<rparr>))
           | HNull \<Rightarrow> Some (Inl Elog_ERROR)
           | HTrue \<Rightarrow> if found then Some (Inl Elog_ERROR) else Some (Inl Bad_pointer)))"

section \<open>Lemmas\<close>

lemma get32_bytes_at: "a + 4 \<le> n \<Longrightarrow> get32 (\<lambda>i. bytes_at m 0 n ! i) a = get32 m a"
  by (rule get32_cong) simp

lemma tag_bytes_inj: "tag_bytes t = tag_bytes t' \<longleftrightarrow> t = t'"
proof
  assume eq: "tag_bytes t = tag_bytes t'"
  define g where "g = (\<lambda>t a. get32 (\<lambda>i. tag_bytes t ! i) a)"
  have "g t 0 = tbl_node t" "g t 4 = rel_node t" "g t 8 = block_num t" for t
    by (simp_all add: g_def tag_bytes_def get32_bytes_at mem_simps)
  then show "t = t'" using eq by (metis BufferTag.equality g_def old.unit.exhaust)
qed simp

lemma bd_at_upd_same [simp]: "bd_in s i \<Longrightarrow> bd_at (bd_upd s i f) i = f (bd_at s i)"
  by (simp add: bd_at_def bd_upd_def bd_in_def)

text \<open>The buffer id the table holds for a tag, when it represents the map \<open>M\<close>.\<close>

definition buf_map :: "(byte list \<rightharpoonup> nat) \<Rightarrow> 'h HTAB \<Rightarrow> BufferTag \<Rightarrow> nat option" where
  "buf_map M h t = map_option (dmem h) (M (tag_bytes t))"

context allocator
begin

lemma buf_table_lookup_ok:
  assumes "ht_rep blocks valid h M" "alloc_fn h = alloc"
  shows "buf_table_lookup a mfree h t = Some (Inr (if block_num t = P_NEW then None else buf_map M h t))"
  using hash_search_find [OF assms(1), of a mfree "tag_bytes t"]
  by (cases "M (tag_bytes t)") (simp_all add: buf_table_lookup_def buf_map_def)

lemma buf_table_insert_ok:
  assumes rep: "ht_rep blocks valid h M" "alloc_fn h = alloc" and b: "bd_in s i"
    and new: "M (tag_bytes (tag (bd_at s i))) = None"
  shows "buf_table_insert False mfree s h i = Some (Inl Elog_ERROR) \<or>
    (\<exists>h' M'. buf_table_insert False mfree s h i =
        Some (Inr (True, bd_upd s i (\<lambda>d. d\<lparr>flags := flags d AND NOT BM_DELETED\<rparr>), h')) \<and>
      ht_rep blocks valid h' M' \<and> alloc_fn h' = alloc \<and>
      buf_map M' h' = (buf_map M h)(tag (bd_at s i) \<mapsto> nat (buf_id (bd_at s i))))"
proof -
  let ?t = "tag (bd_at s i)" and ?s1 = "bd_upd s i (\<lambda>d. d\<lparr>flags := flags d AND NOT BM_DELETED\<rparr>)"
  have rep': "alloc_fn h = alloc \<and> ht_rep blocks valid h M" using rep by simp
  obtain r h1 where r: "hash_search False mfree h (tag_bytes ?t) HASH_ENTER = Some (Inr (r, False, h1))" "dmem h1 = dmem h"
    "r = HNull \<or> (\<exists>e. r = HElem e \<and> e \<notin> ran M \<and> alloc_fn h1 = alloc \<and> ht_rep blocks valid h1 (M(tag_bytes ?t \<mapsto> e)))"
    using table.enter_new [OF rep' new] by blast
  from r(3) show ?thesis
  proof
    assume "r = HNull"
    then show ?thesis using r(1) b by (simp add: buf_table_insert_def)
  next
    assume "\<exists>e. r = HElem e \<and> e \<notin> ran M \<and> alloc_fn h1 = alloc \<and> ht_rep blocks valid h1 (M(tag_bytes ?t \<mapsto> e))"
    then obtain e where e: "r = HElem e" "e \<notin> ran M" "alloc_fn h1 = alloc" "ht_rep blocks valid h1 (M(tag_bytes ?t \<mapsto> e))"
      by blast
    define h' where "h' = h1\<lparr>dmem := (dmem h1)(e := nat (buf_id (bd_at s i)))\<rparr>"
    have run: "buf_table_insert False mfree s h i = Some (Inr (True, ?s1, h'))"
      using r(1) b e(1) by (simp add: buf_table_insert_def h'_def)
    have "buf_map (M(tag_bytes ?t \<mapsto> e)) h' t = ((buf_map M h)(?t \<mapsto> nat (buf_id (bd_at s i)))) t" for t
    proof (cases "t = ?t")
      case False
      then have ne: "tag_bytes t \<noteq> tag_bytes ?t" by (simp add: tag_bytes_inj)
      have "map_option (dmem h') (M (tag_bytes t)) = map_option (dmem h) (M (tag_bytes t))"
        using e(2) r(2) by (cases "M (tag_bytes t)") (auto simp: h'_def ran_def)
      then show ?thesis using False ne by (simp add: buf_map_def)
    qed (simp add: buf_map_def h'_def)
    then have "buf_map (M(tag_bytes ?t \<mapsto> e)) h' = (buf_map M h)(?t \<mapsto> nat (buf_id (bd_at s i)))" by (rule ext)
    moreover have "ht_rep blocks valid h' (M(tag_bytes ?t \<mapsto> e))" unfolding h'_def by (rule ht_rep_dmem [OF e(4)])
    moreover have "alloc_fn h' = alloc" using e(3) by (simp add: h'_def)
    ultimately show ?thesis using run by blast
  qed
qed

lemma buf_table_delete_ok:
  assumes rep: "ht_rep blocks valid h M" "alloc_fn h = alloc" and b: "bd_in s i"
    and f: "flags (bd_at s i) AND BM_DELETED = 0" and M: "M (tag_bytes (tag (bd_at s i))) = Some e"
  shows "\<exists>h' M'. buf_table_delete a mfree s h i =
        Some (Inr (True, bd_upd s i (\<lambda>d. d\<lparr>flags := flags d OR BM_DELETED\<rparr>), h')) \<and>
      ht_rep blocks valid h' M' \<and> alloc_fn h' = alloc \<and> buf_map M' h' = (buf_map M h)(tag (bd_at s i) := None)"
proof -
  let ?t = "tag (bd_at s i)"
  obtain h' where h': "hash_search a mfree h (tag_bytes ?t) HASH_REMOVE = Some (Inr (HElem e, True, h'))"
    "alloc_fn h' = alloc" "dmem h' = dmem h" "ht_rep blocks valid h' (M(tag_bytes ?t := None))"
    using hash_search_remove(2) [OF rep(1) M, of a mfree] rep(2) by auto
  have "buf_map (M(tag_bytes ?t := None)) h' = (buf_map M h)(?t := None)"
    using h'(3) by (auto simp: buf_map_def tag_bytes_inj)
  then show ?thesis using h' b f by (auto simp: buf_table_delete_def)
qed

end

section \<open>Properties\<close>


definition desc0 :: BufferDesc where
  "desc0 = \<lparr>free_next = INVALID_DESCRIPTOR, free_prev = INVALID_DESCRIPTOR, data = 0,
     tag = \<lparr>tbl_node = 1, rel_node = 2, block_num = 3\<rparr>, buf_id = 0, flags = BM_DELETED, refcount = 0\<rparr>"

definition pool0 :: bufpool where
  "pool0 = \<lparr>BufferDescriptors = [desc0], Free_List_Descriptor = 0, PrivateRefCount = [0]\<rparr>"


text \<open>
  \<open>buf_table_delete\<close> of a descriptor that is in the table sets \<open>BM_DELETED\<close>, makes the lookup
  of its tag return \<open>NULL\<close> and keeps the lookups of all other tags; on a descriptor that is
  already marked deleted it does nothing.
\<close>

theorem buf_table_delete_lookup:
  assumes "allocator alloc MEM_FREE blocks valid" "ht_rep blocks valid h M" "alloc_fn h = alloc" "bd_in s i"
    "flags (bd_at s i) AND BM_DELETED = 0 \<longrightarrow> M (tag_bytes (tag (bd_at s i))) \<noteq> None"
  shows "if flags (bd_at s i) AND BM_DELETED \<noteq> 0 then buf_table_delete a MEM_FREE s h i = Some (Inr (True, s, h))
    else \<exists>h'. buf_table_delete a MEM_FREE s h i =
        Some (Inr (True, bd_upd s i (\<lambda>d. d\<lparr>flags := flags d OR BM_DELETED\<rparr>), h')) \<and>
      (\<forall>t. buf_table_lookup b MEM_FREE h' t =
         (if t = tag (bd_at s i) then Some (Inr None) else buf_table_lookup b MEM_FREE h t))"
proof (cases "flags (bd_at s i) AND BM_DELETED = 0")
  case True
  then obtain e where e: "M (tag_bytes (tag (bd_at s i))) = Some e" using assms(5) by auto
  note lk = allocator.buf_table_lookup_ok [OF assms(1)]
  obtain h' M' where h': "buf_table_delete a MEM_FREE s h i =
        Some (Inr (True, bd_upd s i (\<lambda>d. d\<lparr>flags := flags d OR BM_DELETED\<rparr>), h'))"
      "ht_rep blocks valid h' M'" "alloc_fn h' = alloc" "buf_map M' h' = (buf_map M h)(tag (bd_at s i) := None)"
    using allocator.buf_table_delete_ok [OF assms(1-4) True e] by blast
  have "\<forall>t. buf_table_lookup b MEM_FREE h' t =
         (if t = tag (bd_at s i) then Some (Inr None) else buf_table_lookup b MEM_FREE h t)"
    using lk [OF h'(2,3)] lk [OF assms(2,3)] h'(4) by simp
  then show ?thesis using True h'(1) by auto
next
  case False
  then show ?thesis using assms(4) by (simp add: buf_table_delete_def)
qed

theorem buf_table_delete_lookup_witness:
  "buf_table_delete True bump_free pool0 tab0 0 = Some (Inr (True, pool0, tab0))"
proof -
  have b: "bd_in pool0 0" "flags (bd_at pool0 0) AND BM_DELETED \<noteq> 0"
    by (simp_all add: bd_in_def bd_at_def pool0_def desc0_def BM_DELETED_def)
  then show ?thesis
    using buf_table_delete_lookup [OF bump_allocator tab0_rep(1,2) b(1), of True True] by simp
qed

end
