(* ===== verification/Page.thy ===== *)
theory Page
  imports Prelude "HOL-Library.Multiset" "HOL-Library.Signed_Division"
begin

text \<open>
  Slotted disk pages: \<^verbatim>\<open>storage/page/bufpage.c\<close> with the layout of \<^verbatim>\<open>bufpage.h\<close> and
  \<^verbatim>\<open>itemid.h\<close>. A page is a region of bytes; its header holds four 16-bit fields (\<open>pd_lower\<close>,
  \<open>pd_upper\<close>, \<open>pd_special\<close>, \<open>od_pagesize\<close>), followed by an array of 32-bit line pointers that
  grows up towards the item data, which grows down. A line pointer packs a 15-bit offset, two flag
  bits and a 15-bit length. All accesses go through the byte memory of the prelude, so the array,
  the header and the item data share the bytes as they do in the program. The item argument of
  \<open>page_add_item\<close> is the list of its \<open>size\<close> bytes. \<open>qsort\<close> is a parameter with the contract of
  the C library.
\<close>

section \<open>Layout\<close>

definition BLCKSZ :: nat where "BLCKSZ = 8192"
definition sizeof_ItemIdData :: nat where "sizeof_ItemIdData = 4"
definition sizeof_PageHeaderData :: nat where "sizeof_PageHeaderData = 12"

lemmas page_sizes [simp] = BLCKSZ_def sizeof_ItemIdData_def sizeof_PageHeaderData_def

definition pd_lower :: "mem \<Rightarrow> nat" where "pd_lower p = unat (get16 p 0)"
definition pd_upper :: "mem \<Rightarrow> nat" where "pd_upper p = unat (get16 p 2)"
definition pd_special :: "mem \<Rightarrow> nat" where "pd_special p = unat (get16 p 4)"
definition PAGE_GET_PAGE_SIZE :: "mem \<Rightarrow> nat" where "PAGE_GET_PAGE_SIZE p = unat (get16 p 6)"

definition set_pd_lower :: "mem \<Rightarrow> int \<Rightarrow> mem" where "set_pd_lower p v = put16 p 0 (of_int v)"
definition set_pd_upper :: "mem \<Rightarrow> int \<Rightarrow> mem" where "set_pd_upper p v = put16 p 2 (of_int v)"
definition set_pd_special :: "mem \<Rightarrow> int \<Rightarrow> mem" where "set_pd_special p v = put16 p 4 (of_int v)"
definition PAGE_SET_PAGE_SIZE :: "mem \<Rightarrow> int \<Rightarrow> mem" where "PAGE_SET_PAGE_SIZE p v = put16 p 6 (of_int v)"

record ItemIdData =
  lp_off :: "15 word"
  lp_flags :: "2 word"
  lp_len :: "15 word"

definition LP_USED :: "2 word" where "LP_USED = 1"

definition encode_itemid :: "ItemIdData \<Rightarrow> 32 word" where
  "encode_itemid it = ucast (lp_off it) OR push_bit 15 (ucast (lp_flags it)) OR push_bit 17 (ucast (lp_len it))"

definition decode_itemid :: "32 word \<Rightarrow> ItemIdData" where
  "decode_itemid w = \<lparr>lp_off = ucast w, lp_flags = ucast (drop_bit 15 w), lp_len = ucast (drop_bit 17 w)\<rparr>"

text \<open>The address of \<open>pd_linp[i]\<close>, and reading and writing the line pointer there.\<close>

definition linp_addr :: "nat \<Rightarrow> nat" where "linp_addr i = 8 + 4 * i"

definition pd_linp :: "mem \<Rightarrow> nat \<Rightarrow> ItemIdData" where
  "pd_linp p i = decode_itemid (get32 p (linp_addr i))"

definition set_linp :: "mem \<Rightarrow> nat \<Rightarrow> ItemIdData \<Rightarrow> mem" where
  "set_linp p i it = put32 p (linp_addr i) (encode_itemid it)"

definition item_used :: "ItemIdData \<Rightarrow> bool" where
  "item_used it \<longleftrightarrow> lp_flags it AND LP_USED \<noteq> 0"

definition PAGE_GET_MAX_OFFSET_NUMBER :: "mem \<Rightarrow> int" where
  "PAGE_GET_MAX_OFFSET_NUMBER p =
     (int (pd_lower p) - (int sizeof_PageHeaderData - int sizeof_ItemIdData)) sdiv int sizeof_ItemIdData"

definition PAGE_IS_EMPTY :: "mem \<Rightarrow> bool" where
  "PAGE_IS_EMPTY p \<longleftrightarrow> pd_lower p \<le> sizeof_PageHeaderData - sizeof_ItemIdData"

definition OFFSET_NUMBER_IS_VALID :: "nat \<Rightarrow> bool" where
  "OFFSET_NUMBER_IS_VALID n \<longleftrightarrow> n \<noteq> 0 \<and> n \<le> BLCKSZ div sizeof_ItemIdData"

definition OFFSET_NUMBER_NEXT :: "int \<Rightarrow> nat" where
  "OFFSET_NUMBER_NEXT n = nat ((1 + n) mod 65536)"

section \<open>The routines of bufpage.c\<close>

definition page_init :: "mem \<Rightarrow> nat \<Rightarrow> nat \<Rightarrow> mem cres" where
  "page_init p page_size special_size =
     c_assert (page_size = BLCKSZ)
     (c_assert (page_size > special_size + sizeof_PageHeaderData - sizeof_ItemIdData)
       (let special_size = MAX_ALIGN special_size;
            p1 = set_pd_lower p (int (sizeof_PageHeaderData - sizeof_ItemIdData));
            p2 = set_pd_upper p1 (int page_size - int special_size);
            p3 = set_pd_special p2 (int page_size - int special_size)
        in Inr (PAGE_SET_PAGE_SIZE p3 (int page_size))))"

text \<open>The loop that shifts the line pointers from \<open>offset_num\<close> on up by one slot.\<close>

fun shuffle_linp :: "mem \<Rightarrow> nat \<Rightarrow> nat \<Rightarrow> mem" where
  "shuffle_linp p i offset_num =
     (if offset_num \<le> i \<and> 0 < i
      then shuffle_linp (put32 p (linp_addr i) (get32 p (linp_addr (i - 1)))) (i - 1) offset_num
      else p)"

declare shuffle_linp.simps [simp del]

text \<open>The search for a line pointer that is unused and deallocated.\<close>

function find_recyclable :: "mem \<Rightarrow> nat \<Rightarrow> nat \<Rightarrow> nat" where
  "find_recyclable p offset_num limit =
     (if offset_num < limit then
        let itemid = pd_linp p (offset_num - 1)
        in if \<not> item_used itemid \<and> lp_len itemid = 0 then offset_num
           else find_recyclable p (offset_num + 1) limit
      else offset_num)"
  by pat_completeness auto
termination by (relation "measure (\<lambda>(p, offset_num, limit). limit - offset_num)") auto

declare find_recyclable.simps [simp del]

text \<open>
  \<open>upper\<close> is computed in \<open>size_t\<close> and narrowed to the signed 32-bit \<open>Offset\<close>. The result is the
  offset number (0 for \<open>INVALID_OFFSET_NUMBER\<close>) and the page.
\<close>

definition page_add_item ::
  "bool \<Rightarrow> mem \<Rightarrow> byte list \<Rightarrow> nat \<Rightarrow> 2 word \<Rightarrow> (nat \<times> mem) cres" where
  "page_add_item PageManagerShuffle p item offset_num flags =
     (let size = length item;
          limit = OFFSET_NUMBER_NEXT (PAGE_GET_MAX_OFFSET_NUMBER p)
      in cbind
        (if OFFSET_NUMBER_IS_VALID offset_num then
           if PageManagerShuffle then Inr (offset_num, shuffle_linp p (limit - 1) offset_num, True)
           else let itemid = pd_linp p (offset_num - 1)
             in if item_used itemid \<or> lp_len itemid \<noteq> 0 then Inl Elog_ERROR
                else Inr (offset_num, p, False)
         else Inr (find_recyclable p 1 limit, p, False))
        (\<lambda>(offset_num, p, shuffled).
          let lower = (if offset_num > limit then int (linp_addr offset_num)
                       else if offset_num = limit \<or> shuffled then int (pd_lower p) + int sizeof_ItemIdData
                       else int (pd_lower p));
              aligned_size = MAX_ALIGN size;
              upper = signed_take_bit 31 (int (pd_upper p) - int aligned_size)
          in if lower > upper then Inr (0, p)
             else let p1 = set_linp p (offset_num - 1)
                             \<lparr>lp_off = of_int upper, lp_flags = flags, lp_len = of_nat size\<rparr>;
                      p2 = memcpy_list p1 (nat upper) item;
                      p3 = set_pd_lower p2 lower
                  in Inr (offset_num, set_pd_upper p3 upper)))"

text \<open>
  The temporary page is a fresh allocation whose contents start as a copy of the page; the second
  routine copies it back.
\<close>

definition page_get_temp_page :: "mem \<Rightarrow> mem \<Rightarrow> nat \<Rightarrow> mem" where
  "page_get_temp_page fresh p special_size =
     (let page_size = PAGE_GET_PAGE_SIZE p;
          temp = memcpy_list fresh 0 (bytes_at p 0 page_size);
          size = (page_size - sizeof_PageHeaderData) + sizeof_ItemIdData - MAX_ALIGN special_size;
          t1 = memset temp (linp_addr 0) 0 size;
          t2 = set_pd_lower t1 (int (sizeof_PageHeaderData - sizeof_ItemIdData))
      in set_pd_upper t2 (int page_size - int (MAX_ALIGN special_size)))"

definition page_restore_temp_page :: "mem \<Rightarrow> mem \<Rightarrow> mem" where
  "page_restore_temp_page temp_page old_page =
     memcpy_list old_page 0 (bytes_at temp_page 0 (PAGE_GET_PAGE_SIZE temp_page))"

record ItemIdSortData =
  offset_index :: nat
  itemid_data :: ItemIdData

definition itemid_compare :: "ItemIdSortData \<Rightarrow> ItemIdSortData \<Rightarrow> int" where
  "itemid_compare p1 p2 =
     (if lp_off (itemid_data p1) = lp_off (itemid_data p2) then 0
      else if lp_off (itemid_data p1) < lp_off (itemid_data p2) then 1 else - 1)"

text \<open>Clearing the length of an unused line pointer (the same step in both loops).\<close>

definition dealloc_linp :: "mem \<Rightarrow> nat \<Rightarrow> mem" where
  "dealloc_linp p i = (if 0 < lp_len (pd_linp p i) then set_linp p i ((pd_linp p i)\<lparr>lp_len := 0\<rparr>) else p)"

fun dealloc_all :: "mem \<Rightarrow> nat \<Rightarrow> nat \<Rightarrow> mem" where
  "dealloc_all p i 0 = p"
| "dealloc_all p i (Suc k) = dealloc_all (dealloc_linp p i) (Suc i) k"

text \<open>The loop that collects the used line pointers and deallocates the others.\<close>

fun collect_linp :: "mem \<Rightarrow> nat \<Rightarrow> nat \<Rightarrow> mem \<times> ItemIdSortData list" where
  "collect_linp p i 0 = (p, [])"
| "collect_linp p i (Suc k) =
     (if item_used (pd_linp p i)
      then let (p', base) = collect_linp p (Suc i) k
           in (p', \<lparr>offset_index = i, itemid_data = pd_linp p i\<rparr> # base)
      else collect_linp (dealloc_linp p i) (Suc i) k)"

text \<open>The compaction loop over the sorted array.\<close>

fun compactify :: "mem \<Rightarrow> ItemIdSortData list \<Rightarrow> mem" where
  "compactify p [] = p"
| "compactify p (it # base) =
     (let lp = pd_linp p (offset_index it);
          aligned_size = MAX_ALIGN (unat (lp_len lp));
          upper = signed_take_bit 31 (int (pd_upper p) - int aligned_size);
          p1 = memmove p (nat upper) (unat (lp_off lp)) (unat (lp_len lp));
          p2 = set_linp p1 (offset_index it) ((pd_linp p1 (offset_index it))\<lparr>lp_off := of_int upper\<rparr>)
      in compactify (set_pd_upper p2 upper) base)"

definition page_repair_fragmentation ::
  "(ItemIdSortData list \<Rightarrow> ItemIdSortData list) \<Rightarrow> mem \<Rightarrow> mem" where
  "page_repair_fragmentation qsort p =
     (let nline = nat (PAGE_GET_MAX_OFFSET_NUMBER p);
          nused = length (filter (\<lambda>i. item_used (pd_linp p i)) [0..<nline])
      in if nused = 0
         then let p1 = dealloc_all p 0 nline in set_pd_upper p1 (int (pd_special p1))
         else let (p1, itemid_base) = collect_linp p 0 nline
              in compactify (set_pd_upper p1 (int (pd_special p1))) (qsort itemid_base))"

definition page_get_free_space :: "mem \<Rightarrow> 64 word" where
  "page_get_free_space p =
     (let space = of_int (int (pd_upper p) - int (pd_lower p)) :: 64 word
      in if space < of_nat sizeof_ItemIdData then 0 else space - of_nat sizeof_ItemIdData)"

datatype PageManagerMode = ShufflePageManagerMode | OverwritePageManagerMode

text \<open>The new value of the static flag \<open>PageManagerShuffle\<close>.\<close>

fun page_manager_mode_set :: "PageManagerMode \<Rightarrow> bool" where
  "page_manager_mode_set ShufflePageManagerMode = True"
| "page_manager_mode_set OverwritePageManagerMode = False"

text \<open>The loop of \<open>page_index_tuple_delete_adjust_line_pointers\<close>, from the last line pointer down.\<close>

fun adjust_line_pointers :: "mem \<Rightarrow> nat \<Rightarrow> nat \<Rightarrow> nat \<Rightarrow> mem" where
  "adjust_line_pointers p 0 offset sz = p"
| "adjust_line_pointers p (Suc i) offset sz =
     adjust_line_pointers
       (if unat (lp_off (pd_linp p i)) \<le> offset
        then set_linp p i ((pd_linp p i)\<lparr>lp_off := lp_off (pd_linp p i) + of_nat sz\<rparr>) else p)
       i offset sz"

definition page_index_tuple_delete_adjust_line_pointers :: "mem \<Rightarrow> nat \<Rightarrow> nat \<Rightarrow> mem" where
  "page_index_tuple_delete_adjust_line_pointers p offset sz =
     adjust_line_pointers p (nat (PAGE_GET_MAX_OFFSET_NUMBER p)) offset sz"

definition page_index_tuple_delete :: "mem \<Rightarrow> nat \<Rightarrow> mem" where
  "page_index_tuple_delete p offset_num =
     (let offidx = offset_num - 1;
          tup = pd_linp p (offset_num - 1);
          size = MAX_ALIGN (unat (lp_len tup));
          locn = unat (lp_off tup);
          nbytes = nat (int (pd_lower p) - int (linp_addr (offidx + 1)));
          p1 = memmove p (linp_addr offidx) (linp_addr (offidx + 1)) nbytes;
          addr = pd_upper p1;
          p2 = (if locn \<noteq> addr then memmove p1 (addr + size) addr (nat (int locn - int addr)) else p1);
          p3 = set_pd_upper p2 (int (pd_upper p2) + int size);
          p4 = set_pd_lower p3 (int (pd_lower p3) - int sizeof_ItemIdData)
      in if \<not> PAGE_IS_EMPTY p4 then page_index_tuple_delete_adjust_line_pointers p4 locn size else p4)"

section \<open>Reading and writing page fields\<close>

lemma decode_encode_itemid [simp]: "decode_itemid (encode_itemid it) = it"
proof -
  have "ucast (encode_itemid it) = lp_off it"
    by (rule bit_word_eqI) (auto simp: encode_itemid_def bit_simps dest: bit_imp_le_length)
  moreover have "ucast (drop_bit 15 (encode_itemid it)) = lp_flags it"
    by (rule bit_word_eqI) (auto simp: encode_itemid_def bit_simps dest: bit_imp_le_length)
  moreover have "ucast (drop_bit 17 (encode_itemid it)) = lp_len it"
    by (rule bit_word_eqI) (auto simp: encode_itemid_def bit_simps dest: bit_imp_le_length)
  ultimately show ?thesis by (simp add: decode_itemid_def)
qed

lemma unat_of_int_16: "0 \<le> v \<Longrightarrow> v < 65536 \<Longrightarrow> unat (of_int v :: 16 word) = nat v"
  by (simp add: unsigned_of_int take_bit_eq_mod)

lemma pd_set_same [mem_simps]:
  assumes "0 \<le> v" "v < 65536"
  shows "pd_lower (set_pd_lower p v) = nat v" "pd_upper (set_pd_upper p v) = nat v"
    "pd_special (set_pd_special p v) = nat v" "PAGE_GET_PAGE_SIZE (PAGE_SET_PAGE_SIZE p v) = nat v"
  using assms
  by (simp_all add: pd_lower_def pd_upper_def pd_special_def PAGE_GET_PAGE_SIZE_def set_pd_lower_def
      set_pd_upper_def set_pd_special_def PAGE_SET_PAGE_SIZE_def mem_simps unat_of_int_16)

lemmas pd_get_defs = pd_lower_def pd_upper_def pd_special_def PAGE_GET_PAGE_SIZE_def
lemmas pd_put_defs = set_pd_lower_def set_pd_upper_def set_pd_special_def PAGE_SET_PAGE_SIZE_def

lemma pd_set_other [mem_simps]:
  "pd_lower (set_pd_upper p v) = pd_lower p" "pd_lower (set_pd_special p v) = pd_lower p"
  "pd_lower (PAGE_SET_PAGE_SIZE p v) = pd_lower p" "pd_upper (set_pd_lower p v) = pd_upper p"
  "pd_upper (set_pd_special p v) = pd_upper p" "pd_upper (PAGE_SET_PAGE_SIZE p v) = pd_upper p"
  "pd_special (set_pd_lower p v) = pd_special p" "pd_special (set_pd_upper p v) = pd_special p"
  "pd_special (PAGE_SET_PAGE_SIZE p v) = pd_special p"
  "PAGE_GET_PAGE_SIZE (set_pd_lower p v) = PAGE_GET_PAGE_SIZE p"
  "PAGE_GET_PAGE_SIZE (set_pd_upper p v) = PAGE_GET_PAGE_SIZE p"
  "PAGE_GET_PAGE_SIZE (set_pd_special p v) = PAGE_GET_PAGE_SIZE p"
  by (simp_all add: pd_get_defs pd_put_defs mem_simps)

lemma pd_linp_set_header [mem_simps]:
  "pd_linp (set_pd_lower p v) i = pd_linp p i" "pd_linp (set_pd_upper p v) i = pd_linp p i"
  "pd_linp (set_pd_special p v) i = pd_linp p i" "pd_linp (PAGE_SET_PAGE_SIZE p v) i = pd_linp p i"
  by (simp_all add: pd_linp_def pd_put_defs mem_simps linp_addr_def)

lemma set_header_data [mem_simps]:
  "8 \<le> k \<Longrightarrow> set_pd_lower p v k = p k" "8 \<le> k \<Longrightarrow> set_pd_upper p v k = p k"
  "8 \<le> k \<Longrightarrow> set_pd_special p v k = p k" "8 \<le> k \<Longrightarrow> PAGE_SET_PAGE_SIZE p v k = p k"
  by (simp_all add: pd_put_defs mem_simps)

lemma header_set_linp [mem_simps]:
  "pd_lower (set_linp p i it) = pd_lower p" "pd_upper (set_linp p i it) = pd_upper p"
  "pd_special (set_linp p i it) = pd_special p" "PAGE_GET_PAGE_SIZE (set_linp p i it) = PAGE_GET_PAGE_SIZE p"
  by (simp_all add: pd_get_defs set_linp_def linp_addr_def mem_simps)

lemma pd_linp_set_linp [mem_simps]: "pd_linp (set_linp p i it) j = (if j = i then it else pd_linp p j)"
proof (cases "i = j")
  case False
  then have "linp_addr j + 4 \<le> linp_addr i \<or> linp_addr i + 4 \<le> linp_addr j"
    by (auto simp: linp_addr_def)
  then show ?thesis using False by (simp add: pd_linp_def set_linp_def mem_simps)
qed (simp add: pd_linp_def set_linp_def mem_simps)

lemma set_linp_data [mem_simps]: "linp_addr i + 4 \<le> k \<Longrightarrow> set_linp p i it k = p k"
  by (simp add: set_linp_def mem_simps)

lemma header_memcpy [mem_simps]:
  assumes "8 \<le> a"
  shows "pd_lower (memcpy_list p a bs) = pd_lower p" "pd_upper (memcpy_list p a bs) = pd_upper p"
    "pd_special (memcpy_list p a bs) = pd_special p"
    "PAGE_GET_PAGE_SIZE (memcpy_list p a bs) = PAGE_GET_PAGE_SIZE p"
  using assms by (simp_all add: pd_get_defs mem_simps)

lemma header_memmove [mem_simps]:
  assumes "8 \<le> a"
  shows "pd_lower (memmove p a b n) = pd_lower p" "pd_upper (memmove p a b n) = pd_upper p"
    "pd_special (memmove p a b n) = pd_special p"
    "PAGE_GET_PAGE_SIZE (memmove p a b n) = PAGE_GET_PAGE_SIZE p"
  using assms by (simp_all add: pd_get_defs mem_simps)

lemma pd_linp_memcpy [mem_simps]:
  "linp_addr i + 4 \<le> a \<Longrightarrow> pd_linp (memcpy_list p a bs) i = pd_linp p i"
  by (simp add: pd_linp_def mem_simps)

lemma pd_linp_memmove [mem_simps]:
  "linp_addr i + 4 \<le> a \<or> a + n \<le> linp_addr i \<Longrightarrow> pd_linp (memmove p a b n) i = pd_linp p i"
  by (simp add: pd_linp_def mem_simps)

section \<open>Well-formed pages and their items\<close>

text \<open>
  \<open>nline p\<close> is the number of line pointers; \<open>item_at p i\<close> are the bytes line pointer \<open>i\<close> refers
  to. \<open>wf_page\<close> is the layout invariant; \<open>wf_items\<close> says that the used items lie in the data
  area; \<open>sep_items\<close> that their aligned extents do not overlap.
\<close>

definition nline :: "mem \<Rightarrow> nat" where "nline p = (pd_lower p - 8) div 4"

definition wf_page :: "mem \<Rightarrow> bool" where
  "wf_page p \<longleftrightarrow> 8 \<le> pd_lower p \<and> pd_lower p \<le> pd_upper p \<and> pd_upper p \<le> pd_special p \<and>
     pd_special p \<le> 8192 \<and> 4 dvd pd_lower p \<and> PAGE_GET_PAGE_SIZE p = 8192"

definition item_at :: "mem \<Rightarrow> nat \<Rightarrow> byte list" where
  "item_at p i = bytes_at p (unat (lp_off (pd_linp p i))) (unat (lp_len (pd_linp p i)))"

abbreviation off_of :: "ItemIdData \<Rightarrow> nat" where "off_of it \<equiv> unat (lp_off it)"
abbreviation len_of :: "ItemIdData \<Rightarrow> nat" where "len_of it \<equiv> unat (lp_len it)"

definition wf_items :: "mem \<Rightarrow> bool" where
  "wf_items p \<longleftrightarrow> (\<forall>i < nline p. item_used (pd_linp p i) \<longrightarrow>
     pd_upper p \<le> off_of (pd_linp p i) \<and>
     off_of (pd_linp p i) + MAX_ALIGN (len_of (pd_linp p i)) \<le> pd_special p)"

definition sep_items :: "mem \<Rightarrow> bool" where
  "sep_items p \<longleftrightarrow> (\<forall>i < nline p. \<forall>j < nline p. i \<noteq> j \<longrightarrow> item_used (pd_linp p i) \<longrightarrow> item_used (pd_linp p j) \<longrightarrow>
     off_of (pd_linp p i) + MAX_ALIGN (len_of (pd_linp p i)) \<le> off_of (pd_linp p j) \<or>
     off_of (pd_linp p j) + MAX_ALIGN (len_of (pd_linp p j)) \<le> off_of (pd_linp p i))"

text \<open>The abstract contents of a page: one entry per line pointer, \<open>None\<close> where it is unused.\<close>

definition page_items :: "mem \<Rightarrow> byte list option list" where
  "page_items p = map (\<lambda>i. if item_used (pd_linp p i) then Some (item_at p i) else None) [0..<nline p]"

lemma wf_page_lower: "wf_page p \<Longrightarrow> pd_lower p = 8 + 4 * nline p"
  by (auto simp: wf_page_def nline_def)

lemma linp_below_lower: "wf_page p \<Longrightarrow> i < nline p \<Longrightarrow> linp_addr i + 4 \<le> pd_lower p"
  by (simp add: wf_page_lower linp_addr_def)

lemma max_offset_eq: "wf_page p \<Longrightarrow> PAGE_GET_MAX_OFFSET_NUMBER p = int (nline p)"
  by (cases "nline p = 0")
    (simp_all add: PAGE_GET_MAX_OFFSET_NUMBER_def wf_page_lower signed_divide_int_def sgn_if)

lemma nline_bound: "wf_page p \<Longrightarrow> nline p \<le> 2046"
  by (auto simp: wf_page_def nline_def)

lemma limit_eq: "wf_page p \<Longrightarrow> OFFSET_NUMBER_NEXT (PAGE_GET_MAX_OFFSET_NUMBER p) = nline p + 1"
  using nline_bound [of p] by (simp add: OFFSET_NUMBER_NEXT_def max_offset_eq)

lemma item_atI:
  "pd_linp p' j = pd_linp p i \<Longrightarrow>
   (\<And>k. k < len_of (pd_linp p i) \<Longrightarrow> p' (off_of (pd_linp p i) + k) = p (off_of (pd_linp p i) + k)) \<Longrightarrow>
   item_at p' j = item_at p i"
  by (simp add: item_at_def bytes_at_def)

lemma nth_page_items: "i < nline p \<Longrightarrow>
    page_items p ! i = (if item_used (pd_linp p i) then Some (item_at p i) else None)"
  by (simp add: page_items_def)

lemma length_page_items [simp]: "length (page_items p) = nline p"
  by (simp add: page_items_def)

lemma wf_pageD:
  assumes "wf_page p"
  shows "8 \<le> pd_lower p" "pd_lower p \<le> pd_upper p" "pd_upper p \<le> pd_special p"
    "pd_special p \<le> 8192" "PAGE_GET_PAGE_SIZE p = 8192" "pd_upper p \<le> 8192"
  using assms by (simp_all add: wf_page_def)

lemma wf_itemsD:
  assumes "wf_items p" "i < nline p" "item_used (pd_linp p i)"
  shows "pd_upper p \<le> off_of (pd_linp p i)"
    "off_of (pd_linp p i) + MAX_ALIGN (len_of (pd_linp p i)) \<le> pd_special p"
    "off_of (pd_linp p i) + len_of (pd_linp p i) \<le> pd_special p"
proof -
  show "pd_upper p \<le> off_of (pd_linp p i)"
    and b: "off_of (pd_linp p i) + MAX_ALIGN (len_of (pd_linp p i)) \<le> pd_special p"
    using assms by (simp_all add: wf_items_def)
  show "off_of (pd_linp p i) + len_of (pd_linp p i) \<le> pd_special p"
    using b MAX_ALIGN_ge [of "len_of (pd_linp p i)"] by linarith
qed

lemma page_items_eqI:
  "nline p = length xs \<Longrightarrow>
   (\<And>i. i < nline p \<Longrightarrow> (if item_used (pd_linp p i) then Some (item_at p i) else None) = xs ! i) \<Longrightarrow>
   page_items p = xs"
  by (rule nth_equalityI) (simp_all add: nth_page_items)

section \<open>Initialisation\<close>

lemma page_init_eq:
  assumes "s + 8 < 8192"
  shows "\<exists>p'. page_init p 8192 s = Inr p' \<and> pd_lower p' = 8 \<and> pd_upper p' = 8192 - MAX_ALIGN s \<and>
    pd_special p' = 8192 - MAX_ALIGN s \<and> PAGE_GET_PAGE_SIZE p' = 8192"
proof -
  have "MAX_ALIGN s \<le> MAX_ALIGN 8183" using assms by (intro MAX_ALIGN_mono) simp
  then have "MAX_ALIGN s \<le> 8192" by (simp add: MAX_ALIGN_eq)
  then show ?thesis using assms by (auto simp: page_init_def Let_def mem_simps nat_diff_distrib)
qed

lemma page_init_correct_aux:
  assumes "s \<le> 8176"
  shows "\<exists>p'. page_init p 8192 s = Inr p' \<and> wf_page p' \<and> wf_items p' \<and> sep_items p' \<and>
    page_items p' = [] \<and> PAGE_IS_EMPTY p' \<and>
    page_get_free_space p' = of_nat (8192 - MAX_ALIGN s - 12)"
proof -
  obtain p' where p': "page_init p 8192 s = Inr p'" "pd_lower p' = 8" "pd_upper p' = 8192 - MAX_ALIGN s"
    "pd_special p' = 8192 - MAX_ALIGN s" "PAGE_GET_PAGE_SIZE p' = 8192"
    using page_init_eq [of s p] assms by auto
  have "MAX_ALIGN s \<le> MAX_ALIGN 8176" using assms by (intro MAX_ALIGN_mono) simp
  then have a: "MAX_ALIGN s \<le> 8176" by (simp add: MAX_ALIGN_eq)
  have fs: "page_get_free_space p' = of_nat (8192 - MAX_ALIGN s - 12)"
  proof -
    define d where "d = 8192 - MAX_ALIGN s - 8"
    have d: "8 \<le> d" "d < 8192" using a by (auto simp: d_def)
    have "int (pd_upper p') - int (pd_lower p') = int d" using p' a by (simp add: d_def)
    moreover have "\<not> (of_nat d :: 64 word) < 4" using d
      by (simp add: word_less_nat_alt unsigned_of_nat take_bit_nat_eq_self)
    moreover have "of_nat d - (4::64 word) = of_nat (d - 4)" using d by simp
    ultimately show ?thesis by (simp add: page_get_free_space_def d_def)
  qed
  show ?thesis using p' a fs
    by (auto simp: wf_page_def wf_items_def sep_items_def page_items_def nline_def PAGE_IS_EMPTY_def)
qed

section \<open>Storing an item\<close>

lemma shuffle_linp_header [mem_simps]:
  "pd_lower (shuffle_linp p i n) = pd_lower p \<and> pd_upper (shuffle_linp p i n) = pd_upper p \<and>
   pd_special (shuffle_linp p i n) = pd_special p \<and>
   PAGE_GET_PAGE_SIZE (shuffle_linp p i n) = PAGE_GET_PAGE_SIZE p"
proof (induction p i n rule: shuffle_linp.induct)
  case (1 p i n)
  then show ?case
    by (subst (1 2 3 4) shuffle_linp.simps) (simp add: pd_get_defs linp_addr_def mem_simps)
qed

lemma pd_linp_put32:
  "pd_linp (put32 p (linp_addr i) w) j = (if j = i then decode_itemid w else pd_linp p j)"
proof (cases "i = j")
  case False
  then have "linp_addr j + 4 \<le> linp_addr i \<or> linp_addr i + 4 \<le> linp_addr j"
    by (auto simp: linp_addr_def)
  then show ?thesis using False by (simp add: pd_linp_def mem_simps)
qed (simp add: pd_linp_def mem_simps)

lemma pd_linp_copy:
  "pd_linp (put32 p (linp_addr i) (get32 p (linp_addr k))) j = (if j = i then pd_linp p k else pd_linp p j)"
  unfolding pd_linp_put32 by (simp add: pd_linp_def)

lemma pd_linp_shuffle:
  "pd_linp (shuffle_linp p i n) j =
     (if 0 < j \<and> n \<le> j \<and> j \<le> i then pd_linp p (j - 1) else pd_linp p j)"
proof (induction p i n rule: shuffle_linp.induct)
  case (1 p i n)
  show ?case
  proof (cases "n \<le> i \<and> 0 < i")
    case True
    then show ?thesis
      using 1 by (subst shuffle_linp.simps) (auto simp: pd_linp_copy)
  next
    case False
    then show ?thesis by (subst shuffle_linp.simps) auto
  qed
qed

lemma shuffle_linp_data: "linp_addr i + 4 \<le> a \<Longrightarrow> shuffle_linp p i n a = p a"
proof (induction p i n rule: shuffle_linp.induct)
  case (1 p i n)
  then show ?case
    by (subst shuffle_linp.simps) (auto simp: mem_simps linp_addr_def)
qed

lemma find_recyclable_spec:
  assumes "1 \<le> k" "k \<le> limit"
  shows "k \<le> find_recyclable p k limit \<and> find_recyclable p k limit \<le> limit \<and>
    (find_recyclable p k limit < limit \<longrightarrow>
       \<not> item_used (pd_linp p (find_recyclable p k limit - 1)) \<and>
       lp_len (pd_linp p (find_recyclable p k limit - 1)) = 0)"
  using assms
proof (induction p k limit rule: find_recyclable.induct)
  case (1 p k limit)
  show ?case
  proof (cases "k < limit \<and> (item_used (pd_linp p (k - 1)) \<or> lp_len (pd_linp p (k - 1)) \<noteq> 0)")
    case True
    then have "find_recyclable p k limit = find_recyclable p (k + 1) limit"
      by (subst find_recyclable.simps) (auto simp: Let_def)
    moreover have "k + 1 \<le> find_recyclable p (k + 1) limit \<and> find_recyclable p (k + 1) limit \<le> limit \<and>
      (find_recyclable p (k + 1) limit < limit \<longrightarrow>
       \<not> item_used (pd_linp p (find_recyclable p (k + 1) limit - 1)) \<and>
       lp_len (pd_linp p (find_recyclable p (k + 1) limit - 1)) = 0)"
      by (rule "1.IH") (use True in auto)
    ultimately show ?thesis by simp
  next
    case False
    then have "find_recyclable p k limit = k"
      by (subst find_recyclable.simps) (auto simp: Let_def)
    then show ?thesis using False "1.prems" by auto
  qed
qed

text \<open>
  The last step of \<open>page_add_item\<close>: write the line pointer, copy the item below \<open>pd_upper\<close>, set the
  water marks.
\<close>

definition store_item :: "mem \<Rightarrow> nat \<Rightarrow> ItemIdData \<Rightarrow> nat \<Rightarrow> byte list \<Rightarrow> nat \<Rightarrow> mem" where
  "store_item p k it lower item upper =
     set_pd_upper (set_pd_lower (memcpy_list (set_linp p k it) upper item) (int lower)) (int upper)"

lemma store_item_fields:
  assumes "8 \<le> lower" "lower \<le> upper" "upper \<le> 8192"
  shows "pd_lower (store_item p k it lower item upper) = lower"
    "pd_upper (store_item p k it lower item upper) = upper"
    "pd_special (store_item p k it lower item upper) = pd_special p"
    "PAGE_GET_PAGE_SIZE (store_item p k it lower item upper) = PAGE_GET_PAGE_SIZE p"
  using assms by (simp_all add: store_item_def mem_simps)

lemma store_item_linp:
  assumes "linp_addr j + 4 \<le> upper"
  shows "pd_linp (store_item p k it lower item upper) j = (if j = k then it else pd_linp p j)"
  using assms by (simp add: store_item_def mem_simps)

lemma store_item_data:
  assumes "linp_addr k + 4 \<le> upper" "upper \<le> a"
  shows "store_item p k it lower item upper a =
    (if a < upper + length item then item ! (a - upper) else p a)"
proof -
  have "8 \<le> a" using assms by (simp add: linp_addr_def)
  then show ?thesis
    using assms by (auto simp: store_item_def mem_simps memcpy_list_def)
qed




text \<open>Both conditions on items, on a set of line pointers.\<close>

definition in_data :: "mem \<Rightarrow> ItemIdData \<Rightarrow> bool" where
  "in_data p it \<longleftrightarrow> pd_upper p \<le> off_of it \<and> off_of it + MAX_ALIGN (len_of it) \<le> pd_special p"

definition apart :: "ItemIdData \<Rightarrow> ItemIdData \<Rightarrow> bool" where
  "apart a b \<longleftrightarrow> off_of a + MAX_ALIGN (len_of a) \<le> off_of b \<or> off_of b + MAX_ALIGN (len_of b) \<le> off_of a"

definition items_ok :: "mem \<Rightarrow> nat set \<Rightarrow> bool" where
  "items_ok p I \<longleftrightarrow> (\<forall>i\<in>I. item_used (pd_linp p i) \<longrightarrow> in_data p (pd_linp p i)) \<and>
     (\<forall>i\<in>I. \<forall>j\<in>I. i \<noteq> j \<longrightarrow> item_used (pd_linp p i) \<longrightarrow> item_used (pd_linp p j) \<longrightarrow>
        apart (pd_linp p i) (pd_linp p j))"

lemma items_ok_iff: "items_ok p {..<nline p} \<longleftrightarrow> wf_items p \<and> sep_items p"
  by (auto simp: items_ok_def wf_items_def sep_items_def in_data_def apart_def)

lemma items_ok_mono: "items_ok p J \<Longrightarrow> I \<subseteq> J \<Longrightarrow> items_ok p I"
  unfolding items_ok_def by blast

lemma items_ok_map:
  assumes "items_ok p J" "pd_upper q \<le> pd_upper p" "pd_special q = pd_special p"
    "\<And>i. i \<in> I \<Longrightarrow> pd_linp q i = pd_linp p (\<sigma> i)" "inj_on \<sigma> I" "\<sigma> ` I \<subseteq> J"
  shows "items_ok q I"
  unfolding items_ok_def
proof (intro conjI ballI impI)
  fix i assume i: "i \<in> I" "item_used (pd_linp q i)"
  then have "\<sigma> i \<in> J" "item_used (pd_linp p (\<sigma> i))" using assms(4,6) by auto
  then have "in_data p (pd_linp p (\<sigma> i))" using assms(1) by (simp add: items_ok_def)
  then show "in_data q (pd_linp q i)" using assms(2,3,4) i by (simp add: in_data_def)
next
  fix i j assume ij: "i \<in> I" "j \<in> I" "i \<noteq> j" "item_used (pd_linp q i)" "item_used (pd_linp q j)"
  then have "\<sigma> i \<in> J" "\<sigma> j \<in> J" "\<sigma> i \<noteq> \<sigma> j"
    using assms(5,6) by (auto simp: inj_on_def)
  then show "apart (pd_linp q i) (pd_linp q j)"
    using assms(1,4) ij by (auto simp: items_ok_def)
qed

definition entry_of :: "2 word \<Rightarrow> byte list \<Rightarrow> byte list option" where
  "entry_of flags item = (if flags AND LP_USED \<noteq> 0 then Some item else None)"

lemma store_item_correct:
  assumes wf: "wf_page p" and k: "k < m" and room: "8 + 4 * m + MAX_ALIGN (length item) \<le> pd_upper p"
    and ok: "items_ok p ({..<m} - {k})"
    and q: "q = store_item p k \<lparr>lp_off = of_nat upper, lp_flags = flags, lp_len = of_nat (length item)\<rparr>
      (8 + 4 * m) item upper" and upper: "upper = pd_upper p - MAX_ALIGN (length item)"
  shows "wf_page q" "nline q = m" "wf_items q \<and> sep_items q" "pd_upper q = upper"
    "\<And>j. j < m \<Longrightarrow> page_items q ! j = (if j = k then entry_of flags item
       else if item_used (pd_linp p j) then Some (item_at p j) else None)"
proof -
  let ?it = "\<lparr>lp_off = of_nat upper, lp_flags = flags, lp_len = of_nat (length item)\<rparr> :: ItemIdData"
  note D = wf_pageD [OF wf]
  have sz: "length item \<le> MAX_ALIGN (length item)" by simp
  have bounds: "8 + 4 * m \<le> upper" "upper \<le> 8192" "length item \<le> 8192" "upper + MAX_ALIGN (length item) = pd_upper p"
    "upper + length item \<le> pd_upper p"
    unfolding upper using room D sz by linarith+
  have off: "off_of ?it = upper" "len_of ?it = length item"
    using bounds by (simp_all add: unsigned_of_nat take_bit_nat_eq_self)
  have fields: "pd_lower q = 8 + 4 * m" "pd_upper q = upper" "pd_special q = pd_special p"
    "PAGE_GET_PAGE_SIZE q = PAGE_GET_PAGE_SIZE p"
    unfolding q using bounds by (simp_all add: store_item_fields)
  show u: "pd_upper q = upper" by (rule fields)
  show "wf_page q" using fields D bounds by (auto simp: wf_page_def)
  show n: "nline q = m" by (simp add: nline_def fields)
  have linp: "pd_linp q j = (if j = k then ?it else pd_linp p j)" if "j < m" for j
    unfolding q using that bounds by (intro store_item_linp) (simp add: linp_addr_def)
  have dat: "q a = (if a < upper + length item then item ! (a - upper) else p a)" if "upper \<le> a" for a
    unfolding q using that bounds k by (intro store_item_data) (simp_all add: linp_addr_def)
  have frame: "q a = p a" if "pd_upper p \<le> a" for a
  proof -
    have "upper \<le> a" "\<not> a < upper + length item" using that bounds by linarith+
    then show ?thesis by (simp add: dat)
  qed
  have rest: "items_ok q ({..<m} - {k})"
    by (rule items_ok_map [OF ok, where \<sigma> = "\<lambda>i. i"]) (use fields bounds linp in auto)
  have inp: "in_data p (pd_linp p j)" if "j < m" "j \<noteq> k" "item_used (pd_linp p j)" for j
    using ok that by (simp add: items_ok_def)
  have "items_ok q {..<m}"
    unfolding items_ok_def
  proof (intro conjI ballI impI)
    fix i assume "i \<in> {..<m}" "item_used (pd_linp q i)"
    then show "in_data q (pd_linp q i)"
      using rest linp off fields bounds D by (cases "i = k") (auto simp: items_ok_def in_data_def)
  next
    fix i j assume ij: "i \<in> {..<m}" "j \<in> {..<m}" "i \<noteq> j" "item_used (pd_linp q i)" "item_used (pd_linp q j)"
    have *: "apart ?it (pd_linp p l)" if "l < m" "l \<noteq> k" "item_used (pd_linp p l)" for l
      using inp [OF that] off bounds by (auto simp: apart_def in_data_def)
    show "apart (pd_linp q i) (pd_linp q j)"
    proof (cases "i = k \<or> j = k")
      case True
      then show ?thesis using ij * [of i] * [of j] linp by (auto simp: apart_def)
    next
      case False
      then show ?thesis using rest ij by (simp add: items_ok_def)
    qed
  qed
  then show "wf_items q \<and> sep_items q" using items_ok_iff [of q] n by simp
  fix j assume j: "j < m"
  show "page_items q ! j = (if j = k then entry_of flags item
     else if item_used (pd_linp p j) then Some (item_at p j) else None)"
  proof (cases "j = k")
    case True
    have "item_at q k = item"
      using k off by (auto simp: item_at_def linp dat intro!: nth_equalityI)
    then show ?thesis using True j n linp by (simp add: nth_page_items entry_of_def item_used_def)
  next
    case False
    have "item_at q j = item_at p j" if "item_used (pd_linp p j)"
      using inp [OF j False that] False j linp
      by (intro item_atI) (auto intro!: frame simp: in_data_def)
    then show ?thesis using False j n linp by (simp add: nth_page_items)
  qed
qed

definition page_inv :: "mem \<Rightarrow> bool" where
  "page_inv p \<longleftrightarrow> wf_page p \<and> wf_items p \<and> sep_items p"

lemma page_invD:
  assumes "page_inv p"
  shows "wf_page p" "items_ok p {..<nline p}"
  using assms by (simp_all add: page_inv_def items_ok_iff)

lemma upper_narrow:
  assumes "u \<le> 8192" "a < 2 ^ 31"
  shows "signed_take_bit 31 (int u - int a) = int u - int a"
proof (rule signed_take_bit_int_eq_self)
  have "int a < 2 ^ 31" using assms(2) by (metis of_nat_less_iff of_nat_numeral of_nat_power)
  then show "- (2 ^ 31) \<le> int u - int a" by linarith
  show "int u - int a < 2 ^ 31" using assms(1) by simp
qed

lemma aligned_small: "n < 2 ^ 30 \<Longrightarrow> MAX_ALIGN n < 2 ^ 31"
  using MAX_ALIGN_less [of n] by simp

text \<open>The part of \<open>page_add_item\<close> after the choice of the slot.\<close>

definition add_tail :: "nat \<Rightarrow> byte list \<Rightarrow> 2 word \<Rightarrow> nat \<times> mem \<times> bool \<Rightarrow> (nat \<times> mem) cres" where
  "add_tail limit item flags = (\<lambda>(offset_num, p, shuffled).
     let lower = (if offset_num > limit then int (linp_addr offset_num)
                  else if offset_num = limit \<or> shuffled then int (pd_lower p) + int sizeof_ItemIdData
                  else int (pd_lower p));
         aligned_size = MAX_ALIGN (length item);
         upper = signed_take_bit 31 (int (pd_upper p) - int aligned_size)
     in if lower > upper then Inr (0, p)
        else let p1 = set_linp p (offset_num - 1)
                        \<lparr>lp_off = of_int upper, lp_flags = flags, lp_len = of_nat (length item)\<rparr>;
                 p2 = memcpy_list p1 (nat upper) item;
                 p3 = set_pd_lower p2 lower
             in Inr (offset_num, set_pd_upper p3 upper))"

lemma add_tail_eq:
  assumes "wf_page p" "length item < 2 ^ 30"
    and m: "8 + 4 * m = (if off > limit then linp_addr off
              else if off = limit \<or> sh then pd_lower p + 4 else pd_lower p)"
  shows "add_tail limit item flags (off, p, sh) =
    (if 8 + 4 * m + MAX_ALIGN (length item) \<le> pd_upper p
     then Inr (off, store_item p (off - 1) \<lparr>lp_off = of_nat (pd_upper p - MAX_ALIGN (length item)),
        lp_flags = flags, lp_len = of_nat (length item)\<rparr> (8 + 4 * m) item (pd_upper p - MAX_ALIGN (length item)))
     else Inr (0, p))"
proof -
  note u = upper_narrow [OF wf_pageD(6) [OF assms(1)] aligned_small [OF assms(2)]]
  have low: "(if off > limit then int (linp_addr off)
     else if off = limit \<or> sh then int (pd_lower p) + int sizeof_ItemIdData else int (pd_lower p)) = int (8 + 4 * m)"
    unfolding m by simp
  show ?thesis
  proof (cases "8 + 4 * m + MAX_ALIGN (length item) \<le> pd_upper p")
    case True
    then have e: "signed_take_bit 31 (int (pd_upper p) - int (MAX_ALIGN (length item))) =
        int (pd_upper p - MAX_ALIGN (length item))"
      unfolding u by simp
    have c: "\<not> int (8 + 4 * m) > int (pd_upper p - MAX_ALIGN (length item))" using True by simp
    show ?thesis
      unfolding add_tail_def Let_def prod.case low e if_not_P [OF c] if_P [OF True] store_item_def
      by (simp only: nat_int of_int_of_nat_eq)
  next
    case False
    then have "int (8 + 4 * m) > int (pd_upper p) - int (MAX_ALIGN (length item))" by linarith
    then show ?thesis using False unfolding add_tail_def Let_def prod.case low u by simp
  qed
qed

lemma page_add_item_tail:
  "page_add_item sh p item off flags =
    (let limit = OFFSET_NUMBER_NEXT (PAGE_GET_MAX_OFFSET_NUMBER p)
     in cbind
        (if OFFSET_NUMBER_IS_VALID off then
           if sh then Inr (off, shuffle_linp p (limit - 1) off, True)
           else let itemid = pd_linp p (off - 1)
             in if item_used itemid \<or> lp_len itemid \<noteq> 0 then Inl Elog_ERROR
                else Inr (off, p, False)
         else Inr (find_recyclable p 1 limit, p, False)) (add_tail limit item flags))"
  unfolding page_add_item_def add_tail_def Let_def by (rule refl)

lemma page_add_item_append_aux:
  assumes inv: "page_inv p" and len: "length item < 2 ^ 30"
  shows "\<exists>n q. page_add_item sh p item 0 flags = Inr (n, q) \<and> page_inv q \<and>
    (if n = 0 then q = p \<and> pd_upper p < pd_lower p + 4 + MAX_ALIGN (length item)
     else n \<le> nline p + 1 \<and> (n \<le> nline p \<longrightarrow> page_items p ! (n - 1) = None) \<and>
       page_items q = (if n = nline p + 1 then page_items p @ [entry_of flags item]
                       else (page_items p)[n - 1 := entry_of flags item]))"
proof -
  define n where "n = find_recyclable p 1 (nline p + 1)"
  define m where "m = max n (nline p)"
  note wf = page_invD(1) [OF inv] and ok = page_invD(2) [OF inv]
  have n: "1 \<le> n" "n \<le> nline p + 1" "n < nline p + 1 \<longrightarrow> \<not> item_used (pd_linp p (n - 1))"
    using find_recyclable_spec [of 1 "nline p + 1" p] by (auto simp: n_def)
  have m8: "8 + 4 * m = (if n > nline p + 1 then linp_addr n
      else if n = nline p + 1 \<or> False then pd_lower p + 4 else pd_lower p)"
    using n wf_page_lower [OF wf] by (auto simp: m_def)
  let ?room = "8 + 4 * m + MAX_ALIGN (length item) \<le> pd_upper p"
  have run: "page_add_item sh p item 0 flags = add_tail (nline p + 1) item flags (n, p, False)"
    by (simp add: page_add_item_tail OFFSET_NUMBER_IS_VALID_def limit_eq [OF wf] n_def)
  show ?thesis
  proof (cases ?room)
    case False
    have "m \<le> nline p + 1" using n by (simp add: m_def)
    then have "pd_upper p < pd_lower p + 4 + MAX_ALIGN (length item)"
      using False wf_page_lower [OF wf] by linarith
    then show ?thesis using run add_tail_eq [OF wf len m8] False inv by auto
  next
    case True
    let ?q = "store_item p (n - 1) \<lparr>lp_off = of_nat (pd_upper p - MAX_ALIGN (length item)),
        lp_flags = flags, lp_len = of_nat (length item)\<rparr> (8 + 4 * m) item (pd_upper p - MAX_ALIGN (length item))"
    have k: "n - 1 < m" and sub: "{..<m} - {n - 1} \<subseteq> {..<nline p}" using n by (auto simp: m_def)
    note S = store_item_correct [OF wf k True items_ok_mono [OF ok sub] refl refl, where flags = flags]
    have "page_items ?q = (if n = nline p + 1 then page_items p @ [entry_of flags item]
                       else (page_items p)[n - 1 := entry_of flags item])"
      by (rule nth_equalityI) (use S n in \<open>auto simp: m_def nth_append nth_list_update nth_page_items\<close>)
    then show ?thesis
      using run add_tail_eq [OF wf len m8] True S n by (auto simp: page_inv_def nth_page_items)
  qed
qed

lemma free_space_enough:
  assumes "page_inv p" "0 < length item" "MAX_ALIGN (length item) \<le> unat (page_get_free_space p)"
  shows "pd_lower p + 4 + MAX_ALIGN (length item) \<le> pd_upper p"
proof -
  define d where "d = pd_upper p - pd_lower p"
  note D = wf_pageD [OF page_invD(1) [OF assms(1)]]
  have d: "d \<le> 8192" "int (pd_upper p) - int (pd_lower p) = int d" using D by (auto simp: d_def)
  have ud: "unat (of_nat d :: 64 word) = d" using d by (simp add: unsigned_of_nat take_bit_nat_eq_self)
  have "0 < MAX_ALIGN (length item)" using assms(2) MAX_ALIGN_ge [of "length item"] by linarith
  then have nz: "page_get_free_space p \<noteq> 0" using assms(3) by auto
  have ge: "4 \<le> d"
  proof (rule ccontr)
    assume "\<not> 4 \<le> d"
    then have "(of_nat d :: 64 word) < 4" using ud by (simp add: word_less_nat_alt)
    then show False using nz d by (simp add: page_get_free_space_def)
  qed
  have "\<not> (of_nat d :: 64 word) < 4" using ge ud by (simp add: word_less_nat_alt)
  then have "page_get_free_space p = of_nat d - 4"
    by (simp add: page_get_free_space_def Let_def d)
  also have "\<dots> = of_nat (d - 4)" using ge by simp
  finally have "unat (page_get_free_space p) = d - 4"
    using d by (simp add: unsigned_of_nat take_bit_nat_eq_self)
  then have "MAX_ALIGN (length item) + 4 \<le> d" using assms(3) ge by linarith
  then show ?thesis using d_def by linarith
qed

lemma shuffled_items:
  assumes inv: "page_inv p" and n: "1 \<le> n" "n \<le> nline p + 1" and gap: "pd_lower p + 4 \<le> pd_upper p"
    and q: "q = shuffle_linp p (nline p) n"
  shows "wf_page q" "nline q = nline p" "pd_lower q = pd_lower p" "pd_upper q = pd_upper p"
    "items_ok q ({..<nline p + 1} - {n - 1})"
    "\<And>j. j \<le> nline p \<Longrightarrow> j \<noteq> n - 1 \<Longrightarrow>
       (if item_used (pd_linp q j) then Some (item_at q j) else None) = page_items p ! (if j < n then j else j - 1)"
    "\<And>j. j < n \<Longrightarrow> j < nline p \<Longrightarrow>
       (if item_used (pd_linp q j) then Some (item_at q j) else None) = page_items p ! j"
proof -
  note wf = page_invD(1) [OF inv] and ok = page_invD(2) [OF inv]
  let ?\<sigma> = "\<lambda>j. if j < n then j else j - 1"
  have hdr: "pd_lower q = pd_lower p" "pd_upper q = pd_upper p" "pd_special q = pd_special p"
    "PAGE_GET_PAGE_SIZE q = PAGE_GET_PAGE_SIZE p" by (simp_all add: q mem_simps)
  show "wf_page q" "nline q = nline p" "pd_lower q = pd_lower p" "pd_upper q = pd_upper p"
    using wf by (simp_all add: wf_page_def nline_def hdr)
  have linp: "pd_linp q j = pd_linp p (?\<sigma> j)" if "j \<le> nline p" for j
    using that n by (auto simp: q pd_linp_shuffle)
  show "items_ok q ({..<nline p + 1} - {n - 1})"
    by (rule items_ok_map [OF ok, where \<sigma> = ?\<sigma>])
       (use linp hdr n in \<open>auto simp: inj_on_def split: if_splits\<close>)
  have dat: "q a = p a" if "pd_upper p \<le> a" for a
    unfolding q using that gap wf_page_lower [OF wf] by (intro shuffle_linp_data) (simp add: linp_addr_def)
  have entry: "(if item_used (pd_linp q j) then Some (item_at q j) else None) = page_items p ! ?\<sigma> j"
    if j: "j \<le> nline p" and s: "?\<sigma> j < nline p" for j
  proof -
    have "item_at q j = item_at p (?\<sigma> j)" if "item_used (pd_linp p (?\<sigma> j))"
      using ok s that linp [OF j] by (intro item_atI) (auto simp: items_ok_def in_data_def intro!: dat)
    then show ?thesis using linp [OF j] s by (simp add: nth_page_items)
  qed
  show "(if item_used (pd_linp q j) then Some (item_at q j) else None) = page_items p ! ?\<sigma> j"
    if "j \<le> nline p" "j \<noteq> n - 1" for j
    using that n by (intro entry) auto
  show "(if item_used (pd_linp q j) then Some (item_at q j) else None) = page_items p ! j"
    if "j < n" "j < nline p" for j
    using entry [of j] that by simp
qed

lemma page_add_item_shuffle_run:
  assumes "wf_page p" "1 \<le> n" "n \<le> nline p + 1"
  shows "page_add_item True p item n flags =
     add_tail (nline p + 1) item flags (n, shuffle_linp p (nline p) n, True)"
proof -
  have "n \<le> 2048" using assms nline_bound [of p] by simp
  then show ?thesis using assms
    by (simp add: page_add_item_tail OFFSET_NUMBER_IS_VALID_def limit_eq)
qed

lemma page_add_item_insert_aux:
  assumes inv: "page_inv p" and len: "length item < 2 ^ 30" and n: "1 \<le> n" "n \<le> nline p + 1"
    and gap: "pd_lower p + 4 \<le> pd_upper p"
  shows "\<exists>q. page_add_item True p item n flags =
      Inr (if pd_lower p + 4 + MAX_ALIGN (length item) \<le> pd_upper p then n else 0, q) \<and>
    (if pd_lower p + 4 + MAX_ALIGN (length item) \<le> pd_upper p
     then page_inv q \<and> page_items q = take (n - 1) (page_items p) @ entry_of flags item # drop (n - 1) (page_items p)
     else page_items q = take (nline p) (take n (page_items p) @ drop (n - 1) (page_items p)))"
proof -
  define s where "s = shuffle_linp p (nline p) n"
  note wf = page_invD(1) [OF inv]
  note S = shuffled_items [OF inv n gap s_def]
  define m where "m = nline p + 1"
  have m8: "8 + 4 * m = (if n > nline p + 1 then linp_addr n
      else if n = nline p + 1 \<or> True then pd_lower s + 4 else pd_lower s)"
    using n wf_page_lower [OF wf] S(3) by (simp add: m_def)
  have lower: "8 + 4 * m = pd_lower p + 4" using m8 n S(3) by simp
  note run = page_add_item_shuffle_run [OF wf n, of item flags, folded s_def]
  note tail = add_tail_eq [OF S(1) len m8, of flags]
  show ?thesis
  proof (cases "8 + 4 * m + MAX_ALIGN (length item) \<le> pd_upper p")
    case True
    let ?q = "store_item s (n - 1) \<lparr>lp_off = of_nat (pd_upper s - MAX_ALIGN (length item)),
        lp_flags = flags, lp_len = of_nat (length item)\<rparr> (8 + 4 * m) item (pd_upper s - MAX_ALIGN (length item))"
    have k: "n - 1 < m" using n by (auto simp: m_def)
    have room: "8 + 4 * m + MAX_ALIGN (length item) \<le> pd_upper s" using True S(4) by simp
    note Q = store_item_correct [OF S(1) k room S(5) [folded m_def] refl refl, where flags = flags]
    have "page_items ?q = take (n - 1) (page_items p) @ entry_of flags item # drop (n - 1) (page_items p)"
    proof (rule nth_equalityI)
      show l: "length (page_items ?q) = length (take (n - 1) (page_items p) @ entry_of flags item # drop (n - 1) (page_items p))"
        using Q(2) n by (simp add: m_def)
      fix j assume "j < length (page_items ?q)"
      then have j: "j < m" using Q(2) by simp
      show "page_items ?q ! j = (take (n - 1) (page_items p) @ entry_of flags item # drop (n - 1) (page_items p)) ! j"
        using Q(5) [OF j] S(6) [of j] j n
        by (cases "j < n"; cases "j = n - 1") (auto simp: m_def nth_append nth_Cons')
    qed
    then show ?thesis using run tail True Q room lower by (auto simp: page_inv_def)
  next
    case False
    have "page_items s = take (nline p) (take n (page_items p) @ drop (n - 1) (page_items p))"
    proof (rule page_items_eqI)
      show "nline s = length (take (nline p) (take n (page_items p) @ drop (n - 1) (page_items p)))"
        using S(2) n by simp
      fix j assume "j < nline s"
      then have j: "j < nline p" using S(2) by simp
      show "(if item_used (pd_linp s j) then Some (item_at s j) else None) =
          take (nline p) (take n (page_items p) @ drop (n - 1) (page_items p)) ! j"
      proof (cases "j < n")
        case True
        then show ?thesis using S(7) [of j] j n by (simp add: nth_append)
      next
        case F: False
        then show ?thesis using S(6) [of j] j n by (simp add: nth_append)
      qed
    qed
    then show ?thesis using run tail False S(4) lower by simp
  qed
qed

section \<open>Deleting an index tuple\<close>

definition adj_linp :: "nat \<Rightarrow> nat \<Rightarrow> ItemIdData \<Rightarrow> ItemIdData" where
  "adj_linp offset sz it = (if off_of it \<le> offset then it\<lparr>lp_off := lp_off it + of_nat sz\<rparr> else it)"

lemma item_used_adj [simp]: "item_used (adj_linp l d it) = item_used it"
  by (simp add: adj_linp_def item_used_def)

lemma len_of_adj [simp]: "lp_len (adj_linp l d it) = lp_len it"
  by (simp add: adj_linp_def)

lemma off_of_adj:
  assumes "off_of it + d \<le> 8192 \<or> l < off_of it"
  shows "off_of (adj_linp l d it) = (if off_of it \<le> l then off_of it + d else off_of it)"
proof (cases "off_of it \<le> l")
  case True
  then have "off_of it + d < 2 ^ LENGTH(15)" using assms by auto
  moreover have "unat (of_nat d :: 15 word) = d"
    using calculation by (simp add: unsigned_of_nat take_bit_nat_eq_self)
  ultimately have "unat (lp_off it + of_nat d) = off_of it + d"
    by (metis unat_add_lem)
  then show ?thesis using True by (simp add: adj_linp_def)
qed (simp add: adj_linp_def)

lemma adjust_header [mem_simps]:
  "pd_lower (adjust_line_pointers p i l d) = pd_lower p \<and> pd_upper (adjust_line_pointers p i l d) = pd_upper p \<and>
   pd_special (adjust_line_pointers p i l d) = pd_special p \<and>
   PAGE_GET_PAGE_SIZE (adjust_line_pointers p i l d) = PAGE_GET_PAGE_SIZE p"
  by (induction p i l d rule: adjust_line_pointers.induct) (simp_all add: mem_simps)

lemma pd_linp_adjust:
  "pd_linp (adjust_line_pointers p i l d) j = (if j < i then adj_linp l d (pd_linp p j) else pd_linp p j)"
proof (induction p i l d rule: adjust_line_pointers.induct)
  case (2 p i l d)
  then show ?case by (auto simp: mem_simps adj_linp_def less_Suc_eq)
qed simp

lemma adjust_data: "linp_addr i \<le> a \<Longrightarrow> adjust_line_pointers p i l d a = p a"
proof (induction p i l d rule: adjust_line_pointers.induct)
  case (2 p i l d)
  then show ?case by (auto simp: mem_simps linp_addr_def)
qed simp

lemma pd_linp_shift_down:
  assumes "k \<le> m"
  shows "pd_linp (memmove p (linp_addr k) (linp_addr (k + 1)) (4 * (m - k))) j =
    (if k \<le> j \<and> j < m then pd_linp p (j + 1) else pd_linp p j)"
proof (cases "k \<le> j \<and> j < m")
  case True
  have "get32 (memmove p (linp_addr k) (linp_addr (k + 1)) (4 * (m - k))) (linp_addr k + 4 * (j - k)) =
      get32 p (linp_addr (k + 1) + 4 * (j - k))"
    using True by (intro get32_memmove_in) auto
  moreover have "linp_addr k + 4 * (j - k) = linp_addr j" "linp_addr (k + 1) + 4 * (j - k) = linp_addr (j + 1)"
    using True by (auto simp: linp_addr_def)
  ultimately show ?thesis using True by (simp add: pd_linp_def)
next
  case False
  then have "linp_addr j + 4 \<le> linp_addr k \<or> linp_addr k + 4 * (m - k) \<le> linp_addr j"
    using assms by (auto simp: linp_addr_def)
  then show ?thesis using False by (subst pd_linp_memmove) auto
qed

text \<open>The fields, the line pointers and the data bytes of the page after a deletion.\<close>

lemma page_index_tuple_delete_effect:
  assumes inv: "page_inv p" and n: "1 \<le> n" "n \<le> nline p" and used: "item_used (pd_linp p (n - 1))"
    and L: "l = off_of (pd_linp p (n - 1))" and D: "d = MAX_ALIGN (len_of (pd_linp p (n - 1)))"
    and q: "q = page_index_tuple_delete p n"
  shows "pd_lower q = pd_lower p - 4" "pd_upper q = pd_upper p + d" "pd_special q = pd_special p"
    "PAGE_GET_PAGE_SIZE q = PAGE_GET_PAGE_SIZE p"
    "\<And>j. j < nline p - 1 \<Longrightarrow> pd_linp q j = adj_linp l d (pd_linp p (if j < n - 1 then j else j + 1))"
    "\<And>a. pd_upper p + d \<le> a \<Longrightarrow> q a = (if a < l + d then p (a - d) else p a)"
proof -
  define m where "m = nline p - 1"
  define p1 where "p1 = memmove p (linp_addr (n - 1)) (linp_addr n) (4 * (m - (n - 1)))"
  define p2 where "p2 = memmove p1 (pd_upper p + d) (pd_upper p) (l - pd_upper p)"
  define p4 where "p4 = set_pd_lower (set_pd_upper p2 (int (pd_upper p) + int d)) (int (pd_lower p) - 4)"
  note wf = page_invD(1) [OF inv] and ok = page_invD(2) [OF inv]
  note W = wf_pageD [OF wf] and low = wf_page_lower [OF wf]
  have ldb: "pd_upper p \<le> l" "l + d \<le> pd_special p"
    using ok n used by (auto simp: items_ok_def in_data_def L D)
  have m: "n - 1 \<le> m" "pd_lower p = 12 + 4 * m" "Suc (n - 1) = n" using n low by (auto simp: m_def)
  have h1: "pd_lower p1 = pd_lower p" "pd_upper p1 = pd_upper p" "pd_special p1 = pd_special p"
    "PAGE_GET_PAGE_SIZE p1 = PAGE_GET_PAGE_SIZE p"
    by (simp_all add: p1_def mem_simps linp_addr_def)
  have h2: "pd_lower p2 = pd_lower p" "pd_upper p2 = pd_upper p" "pd_special p2 = pd_special p"
    "PAGE_GET_PAGE_SIZE p2 = PAGE_GET_PAGE_SIZE p"
    using W by (simp_all add: p2_def mem_simps h1)
  have h4: "pd_lower p4 = pd_lower p - 4" "pd_upper p4 = pd_upper p + d" "pd_special p4 = pd_special p"
    "PAGE_GET_PAGE_SIZE p4 = PAGE_GET_PAGE_SIZE p"
    using W ldb m by (simp_all add: p4_def mem_simps h2 nat_diff_distrib nat_add_distrib)
  have wf4: "wf_page p4" using wf ldb m W by (auto simp: wf_page_def h4 h2)
  have n4: "nline p4 = m" using m by (simp add: nline_def h4)
  have l1: "pd_linp p1 j = pd_linp p (if j < n - 1 then j else j + 1)" if "j < m" for j
    using pd_linp_shift_down [OF m(1), of p j] that m(3) by (auto simp: p1_def)
  have l4: "pd_linp p4 j = pd_linp p (if j < n - 1 then j else j + 1)" if "j < m" for j
  proof -
    have "linp_addr j + 4 \<le> pd_upper p + d" using that W m by (simp add: linp_addr_def)
    then show ?thesis using l1 [OF that] by (simp add: p4_def mem_simps p2_def)
  qed
  have e2: "p2 = (if l \<noteq> pd_upper p then memmove p1 (pd_upper p + d) (pd_upper p) (nat (int l - int (pd_upper p))) else p1)"
    using ldb by (auto simp: p2_def nat_diff_distrib memmove_def fun_eq_iff)
  have e1: "p1 = memmove p (linp_addr (n - 1)) (linp_addr (n - 1 + 1)) (nat (int (pd_lower p) - int (linp_addr (n - 1 + 1))))"
  proof -
    have "nat (int (pd_lower p) - int (linp_addr (n - 1 + 1))) = 4 * (m - (n - 1))"
      using m by (simp add: linp_addr_def)
    then show ?thesis using m(3) by (simp add: p1_def)
  qed
  have "q = (if \<not> PAGE_IS_EMPTY p4 then page_index_tuple_delete_adjust_line_pointers p4 l d else p4)"
    unfolding q page_index_tuple_delete_def Let_def L [symmetric] D [symmetric] e1 [symmetric] h1 e2 [symmetric] p4_def
    by (simp add: h2 mem_simps)
  then have qa: "q = adjust_line_pointers p4 m l d"
    using n4 wf_page_lower [OF wf4]
    by (auto simp: page_index_tuple_delete_adjust_line_pointers_def max_offset_eq [OF wf4] PAGE_IS_EMPTY_def)
  show "pd_lower q = pd_lower p - 4" "pd_upper q = pd_upper p + d" "pd_special q = pd_special p"
    "PAGE_GET_PAGE_SIZE q = PAGE_GET_PAGE_SIZE p"
    by (simp_all add: qa mem_simps h4)
  show "pd_linp q j = adj_linp l d (pd_linp p (if j < n - 1 then j else j + 1))" if "j < nline p - 1" for j
    using that l4 [of j] by (simp add: qa pd_linp_adjust m_def)
  show "q a = (if a < l + d then p (a - d) else p a)" if a: "pd_upper p + d \<le> a" for a
  proof -
    have "linp_addr m + 4 \<le> pd_upper p" using m W by (simp add: linp_addr_def)
    then have a1: "linp_addr m + 4 \<le> a" using a by simp
    have p1a: "p1 b = p b" if "pd_upper p \<le> b" for b
      using that m W unfolding p1_def by (intro memmove_out) (auto simp: linp_addr_def)
    have "q a = p2 a" using a1 by (simp add: qa adjust_data p4_def mem_simps linp_addr_def)
    also have "\<dots> = (if a < l + d then p (a - d) else p a)"
      using a ldb by (auto simp: p2_def memmove_def p1a)
    finally show ?thesis .
  qed
qed

lemma adj_apart:
  assumes "apart a t" "apart b t" "apart a b" "off_of t = l" "MAX_ALIGN (len_of t) = d"
    "off_of a + d \<le> 8192 \<or> l < off_of a" "off_of b + d \<le> 8192 \<or> l < off_of b"
  shows "apart (adj_linp l d a) (adj_linp l d b)"
  using assms by (auto simp: apart_def off_of_adj)

lemma adj_in_data:
  assumes "in_data p a" "apart a t" "off_of t = l" "MAX_ALIGN (len_of t) = d" "pd_upper p \<le> l"
    "l + d \<le> pd_special p" "pd_upper q = pd_upper p + d" "pd_special q = pd_special p"
    "off_of a + d \<le> 8192 \<or> l < off_of a"
  shows "in_data q (adj_linp l d a)"
  using assms by (auto simp: in_data_def apart_def off_of_adj)

lemma page_index_tuple_delete_aux:
  assumes inv: "page_inv p" and n: "1 \<le> n" "n \<le> nline p" and used: "item_used (pd_linp p (n - 1))"
  shows "page_inv (page_index_tuple_delete p n) \<and>
    page_items (page_index_tuple_delete p n) = take (n - 1) (page_items p) @ drop n (page_items p) \<and>
    pd_upper (page_index_tuple_delete p n) - pd_lower (page_index_tuple_delete p n) =
      pd_upper p - pd_lower p + MAX_ALIGN (len_of (pd_linp p (n - 1))) + 4"
proof -
  define l where "l = off_of (pd_linp p (n - 1))"
  define d where "d = MAX_ALIGN (len_of (pd_linp p (n - 1)))"
  define t where "t = pd_linp p (n - 1)"
  have t: "off_of t = l" "MAX_ALIGN (len_of t) = d" by (simp_all add: t_def l_def d_def)
  define q where "q = page_index_tuple_delete p n"
  let ?\<sigma> = "\<lambda>j. if j < n - 1 then j else j + 1"
  note wf = page_invD(1) [OF inv] and ok = page_invD(2) [OF inv]
  note W = wf_pageD [OF wf] and low = wf_page_lower [OF wf]
  note E = page_index_tuple_delete_effect [OF inv n used l_def d_def q_def]
  have ldb: "pd_upper p \<le> l" "l + d \<le> pd_special p"
    using ok n used by (auto simp: items_ok_def in_data_def l_def d_def)
  have nq: "nline q = nline p - 1" using low n by (simp add: nline_def E(1))
  have wfq: "wf_page q" using wf ldb n low W unfolding wf_page_def E by auto
  have \<sigma>: "?\<sigma> j < nline p" "?\<sigma> j \<noteq> n - 1" if "j < nline p - 1" for j using that n by auto
  have facts: "in_data p (pd_linp p (?\<sigma> j))" "apart (pd_linp p (?\<sigma> j)) t"
    if "j < nline p - 1" "item_used (pd_linp p (?\<sigma> j))" for j
    using ok \<sigma> [OF that(1)] that(2) used n unfolding items_ok_def t_def by auto
  have sz: "off_of (pd_linp p (?\<sigma> j)) + d \<le> 8192 \<or> l < off_of (pd_linp p (?\<sigma> j))"
    if "j < nline p - 1" for j using ldb W by linarith
  have "items_ok q {..<nline q}"
    unfolding items_ok_def nq
  proof (intro conjI ballI impI)
    fix j assume j: "j \<in> {..<nline p - 1}" "item_used (pd_linp q j)"
    then have u: "item_used (pd_linp p (?\<sigma> j))" and e: "pd_linp q j = adj_linp l d (pd_linp p (?\<sigma> j))"
      using E(5) [of j] by auto
    show "in_data q (pd_linp q j)"
      unfolding e by (rule adj_in_data [OF facts(1) facts(2) t ldb E(2,3) sz]) (use j u in auto)
  next
    fix i j assume ij: "i \<in> {..<nline p - 1}" "j \<in> {..<nline p - 1}" "i \<noteq> j"
      "item_used (pd_linp q i)" "item_used (pd_linp q j)"
    have ap: "apart (pd_linp p (?\<sigma> i)) (pd_linp p (?\<sigma> j))"
      using ok ij \<sigma> [of i] \<sigma> [of j] E(5) [of i] E(5) [of j] unfolding items_ok_def by auto
    have "apart (adj_linp l d (pd_linp p (?\<sigma> i))) (adj_linp l d (pd_linp p (?\<sigma> j)))"
      by (rule adj_apart [OF facts(2) facts(2) ap t sz sz]) (use ij E(5) [of i] E(5) [of j] in auto)
    then show "apart (pd_linp q i) (pd_linp q j)" using E(5) ij by simp
  qed
  then have inv': "page_inv q" using wfq by (simp add: page_inv_def items_ok_iff)
  have entry: "item_at q j = item_at p (?\<sigma> j)" if j: "j < nline p - 1" and u: "item_used (pd_linp p (?\<sigma> j))" for j
  proof -
    let ?it = "pd_linp p (?\<sigma> j)"
    have f: "pd_upper p \<le> off_of ?it" "off_of ?it + MAX_ALIGN (len_of ?it) \<le> l \<or> l + d \<le> off_of ?it"
      using facts [OF j u] t by (auto simp: in_data_def apart_def)
    have al: "len_of ?it \<le> MAX_ALIGN (len_of ?it)" by simp
    have "q (off_of (adj_linp l d ?it) + k) = p (off_of ?it + k)" if k: "k < len_of ?it" for k
    proof (cases "off_of ?it \<le> l")
      case True
      then have o: "off_of (adj_linp l d ?it) = off_of ?it + d" using off_of_adj [OF sz [OF j]] by simp
      have "off_of ?it + k < l \<or> d = 0" using f(2) True k al by linarith
      moreover have "pd_upper p + d \<le> off_of ?it + d + k" using f(1) by linarith
      ultimately show ?thesis unfolding o by (subst E(6)) auto
    next
      case False
      then have "off_of (adj_linp l d ?it) = off_of ?it" "l + d \<le> off_of ?it"
        using off_of_adj [OF sz [OF j]] f(2) al by auto
      then show ?thesis using ldb by (subst E(6)) auto
    qed
    then show ?thesis
      using E(5) [OF j] by (simp add: item_at_def bytes_at_def)
  qed
  have "page_items q = take (n - 1) (page_items p) @ drop n (page_items p)"
  proof (rule page_items_eqI)
    show "nline q = length (take (n - 1) (page_items p) @ drop n (page_items p))" using nq n by simp
    fix j assume "j < nline q"
    then have j: "j < nline p - 1" using nq by simp
    have "(take (n - 1) (page_items p) @ drop n (page_items p)) ! j = page_items p ! ?\<sigma> j"
      using j n by (auto simp: nth_append)
    then show "(if item_used (pd_linp q j) then Some (item_at q j) else None) =
        (take (n - 1) (page_items p) @ drop n (page_items p)) ! j"
      using entry [OF j] E(5) [OF j] \<sigma> [OF j] by (simp add: nth_page_items)
  qed
  moreover have "pd_upper q - pd_lower q = pd_upper p - pd_lower p + d + 4"
    using E(1,2) low n W by simp
  ultimately show ?thesis using inv' unfolding q_def d_def by blast
qed

section \<open>Repairing fragmentation\<close>

text \<open>The contract of the C library's \<open>qsort\<close>: a permutation in the order of the comparison function.\<close>

definition qsort_contract :: "(ItemIdSortData list \<Rightarrow> ItemIdSortData list) \<Rightarrow> bool" where
  "qsort_contract qsort \<longleftrightarrow> (\<forall>xs. mset (qsort xs) = mset xs \<and>
     sorted_wrt (\<lambda>a b. itemid_compare a b \<le> 0) (qsort xs))"

abbreviation ix :: "ItemIdSortData \<Rightarrow> nat" where "ix t \<equiv> offset_index t"
abbreviation ioff :: "ItemIdSortData \<Rightarrow> nat" where "ioff t \<equiv> off_of (itemid_data t)"
abbreviation ilen :: "ItemIdSortData \<Rightarrow> nat" where "ilen t \<equiv> len_of (itemid_data t)"
abbreviation ialn :: "ItemIdSortData \<Rightarrow> nat" where "ialn t \<equiv> MAX_ALIGN (len_of (itemid_data t))"

definition dl :: "ItemIdData \<Rightarrow> ItemIdData" where
  "dl it = (if item_used it then it else it\<lparr>lp_len := 0\<rparr>)"

lemma item_used_dl [simp]: "item_used (dl it) = item_used it"
  by (simp add: dl_def item_used_def)

lemma dealloc_linp_simps [mem_simps]:
  "pd_lower (dealloc_linp p i) = pd_lower p" "pd_upper (dealloc_linp p i) = pd_upper p"
  "pd_special (dealloc_linp p i) = pd_special p" "PAGE_GET_PAGE_SIZE (dealloc_linp p i) = PAGE_GET_PAGE_SIZE p"
  "linp_addr i + 4 \<le> a \<Longrightarrow> dealloc_linp p i a = p a"
  by (simp_all add: dealloc_linp_def mem_simps)

lemma pd_linp_dealloc [mem_simps]:
  "pd_linp (dealloc_linp p i) j = (if j = i then (pd_linp p i)\<lparr>lp_len := 0\<rparr> else pd_linp p j)"
  by (auto simp: dealloc_linp_def mem_simps word_neq_0_conv [symmetric])

lemma collect_linp_spec:
  "pd_lower (fst (collect_linp p i k)) = pd_lower p \<and> pd_upper (fst (collect_linp p i k)) = pd_upper p \<and>
   pd_special (fst (collect_linp p i k)) = pd_special p \<and>
   PAGE_GET_PAGE_SIZE (fst (collect_linp p i k)) = PAGE_GET_PAGE_SIZE p \<and>
   (\<forall>a. linp_addr (i + k) \<le> a \<longrightarrow> fst (collect_linp p i k) a = p a) \<and>
   (\<forall>j. pd_linp (fst (collect_linp p i k)) j = (if i \<le> j \<and> j < i + k then dl (pd_linp p j) else pd_linp p j)) \<and>
   snd (collect_linp p i k) = map (\<lambda>j. \<lparr>offset_index = j, itemid_data = pd_linp p j\<rparr>)
      (filter (\<lambda>j. item_used (pd_linp p j)) [i..<i + k])"
proof (induction p i k rule: collect_linp.induct)
  case (2 p i k)
  have up: "[i..<i + Suc k] = i # [Suc i..<Suc i + k]" by (simp add: upt_conv_Cons)
  show ?case
  proof (cases "item_used (pd_linp p i)")
    case True
    then show ?thesis using "2.IH"(1) [OF True] unfolding up
      by (auto simp: case_prod_unfold Let_def dl_def Suc_le_eq le_less)
  next
    case False
    have f: "filter (\<lambda>j. item_used (pd_linp (dealloc_linp p i) j)) [Suc i..<Suc i + k] =
        filter (\<lambda>j. item_used (pd_linp p j)) [Suc i..<Suc i + k]"
      by (rule filter_cong) (auto simp: mem_simps)
    have m: "map (\<lambda>j. \<lparr>offset_index = j, itemid_data = pd_linp (dealloc_linp p i) j\<rparr>)
          (filter (\<lambda>j. item_used (pd_linp p j)) [Suc i..<Suc i + k]) =
        map (\<lambda>j. \<lparr>offset_index = j, itemid_data = pd_linp p j\<rparr>)
          (filter (\<lambda>j. item_used (pd_linp p j)) [Suc i..<Suc i + k])"
      by (rule map_cong) (auto simp: mem_simps)
    have "dealloc_linp p i a = p a" if "linp_addr (i + Suc k) \<le> a" for a
      using that by (simp add: mem_simps linp_addr_def)
    then show ?thesis using "2.IH"(2) [OF False] False unfolding up f m
      by (auto simp: dealloc_linp_simps(1-4) pd_linp_dealloc dl_def Suc_le_eq le_less)
  qed
qed auto

lemma dealloc_all_spec:
  "(\<forall>j. i \<le> j \<and> j < i + k \<longrightarrow> \<not> item_used (pd_linp p j)) \<Longrightarrow>
   pd_lower (dealloc_all p i k) = pd_lower p \<and> pd_upper (dealloc_all p i k) = pd_upper p \<and>
   pd_special (dealloc_all p i k) = pd_special p \<and> PAGE_GET_PAGE_SIZE (dealloc_all p i k) = PAGE_GET_PAGE_SIZE p \<and>
   (\<forall>j. item_used (pd_linp (dealloc_all p i k) j) = item_used (pd_linp p j))"
proof (induction p i k rule: dealloc_all.induct)
  case (2 p i k)
  have "\<forall>j. item_used (pd_linp (dealloc_linp p i) j) = item_used (pd_linp p j)"
    by (simp add: mem_simps item_used_def)
  then show ?case using 2 by (simp add: mem_simps)
qed simp

text \<open>What the compaction loop needs of the remaining entries.\<close>

definition comp_pre :: "mem \<Rightarrow> nat \<Rightarrow> ItemIdSortData list \<Rightarrow> bool" where
  "comp_pre p b base \<longleftrightarrow> 8 \<le> b \<and> pd_upper p \<le> 8192 \<and> distinct (map ix base) \<and>
     sorted_wrt (\<lambda>s t. ioff t \<le> ioff s) base \<and> sorted_wrt (\<lambda>s t. apart (itemid_data s) (itemid_data t)) base \<and>
     (\<forall>t\<in>set base. linp_addr (ix t) + 4 \<le> b \<and> pd_linp p (ix t) = itemid_data t \<and>
        b \<le> ioff t \<and> ioff t + ialn t \<le> pd_upper p)"

text \<open>One iteration: the item moves up against \<open>pd_upper\<close>, everything else in the data area stays.\<close>

lemma compactify_step:
  assumes pre: "comp_pre p b (t # base)"
    and u: "u = pd_upper p - ialn t"
    and p': "p' = set_pd_upper (set_linp (memmove p u (ioff t) (ilen t)) (ix t)
       ((itemid_data t)\<lparr>lp_off := of_nat u\<rparr>)) (int u)"
  shows "compactify p (t # base) = compactify p' base" "comp_pre p' b base" "pd_upper p' = u" "ioff t \<le> u"
    "pd_lower p' = pd_lower p" "pd_special p' = pd_special p" "PAGE_GET_PAGE_SIZE p' = PAGE_GET_PAGE_SIZE p"
    "\<And>j. linp_addr j + 4 \<le> b \<Longrightarrow>
       pd_linp p' j = (if j = ix t then (itemid_data t)\<lparr>lp_off := of_nat u\<rparr> else pd_linp p j)"
    "\<And>a. b \<le> a \<Longrightarrow> p' a = (if u \<le> a \<and> a < u + ilen t then p (ioff t + (a - u)) else p a)"
proof -
  have c: "8 \<le> b" "pd_upper p \<le> 8192" "linp_addr (ix t) + 4 \<le> b" "pd_linp p (ix t) = itemid_data t"
    "b \<le> ioff t" "ioff t + ialn t \<le> pd_upper p"
    using pre by (simp_all add: comp_pre_def)
  show uoff: "ioff t \<le> u" using c u by linarith
  then have ub: "b \<le> u" "u \<le> 8192" using c u by linarith+
  have au: "int (pd_upper p) - int (ialn t) = int u" using c u by linarith
  have al: "ialn t < 2 ^ 31" using c by simp
  have st: "signed_take_bit 31 (int (pd_upper p) - int (ialn t)) = int u"
    using upper_narrow [OF c(2) al] au by simp
  have lin1: "pd_linp (memmove p u (ioff t) (ilen t)) j = pd_linp p j" if "linp_addr j + 4 \<le> b" for j
    using that ub by (simp add: mem_simps)
  show "compactify p (t # base) = compactify p' base"
    using c ub lin1 [OF c(3)] by (simp add: p' Let_def st)
  show up: "pd_upper p' = u" "pd_lower p' = pd_lower p" "pd_special p' = pd_special p"
    "PAGE_GET_PAGE_SIZE p' = PAGE_GET_PAGE_SIZE p"
    using ub c by (simp_all add: p' mem_simps)
  show linp: "pd_linp p' j = (if j = ix t then (itemid_data t)\<lparr>lp_off := of_nat u\<rparr> else pd_linp p j)"
    if "linp_addr j + 4 \<le> b" for j
    using that lin1 [OF that] by (simp add: p' mem_simps)
  show "p' a = (if u \<le> a \<and> a < u + ilen t then p (ioff t + (a - u)) else p a)" if "b \<le> a" for a
  proof -
    have "p' a = memmove p u (ioff t) (ilen t) a" using that c by (simp add: p' mem_simps)
    then show ?thesis by (simp add: memmove_def)
  qed
  show "comp_pre p' b base"
    unfolding comp_pre_def
  proof (intro conjI ballI)
    fix s assume s: "s \<in> set base"
    then show "linp_addr (ix s) + 4 \<le> b" "b \<le> ioff s" using pre by (simp_all add: comp_pre_def)
    have "ix t \<notin> ix ` set base" using pre by (simp add: comp_pre_def)
    then have "ix s \<noteq> ix t" using s by (metis imageI)
    then show "pd_linp p' (ix s) = itemid_data s" using pre s linp [of "ix s"] by (simp add: comp_pre_def)
    have "ioff s \<le> ioff t" "apart (itemid_data t) (itemid_data s)" "ioff s + ialn s \<le> pd_upper p"
      using pre s by (simp_all add: comp_pre_def)
    then show "ioff s + ialn s \<le> pd_upper p'" using up c u uoff by (auto simp: apart_def)
  qed (use pre ub up in \<open>auto simp: comp_pre_def\<close>)
qed

lemma compactify_spec:
  assumes "comp_pre p b base" "q = compactify p base"
  shows "pd_lower q = pd_lower p \<and> pd_special q = pd_special p \<and> PAGE_GET_PAGE_SIZE q = PAGE_GET_PAGE_SIZE p \<and>
    b + sum_list (map ialn base) \<le> max b (pd_upper p) \<and>
    pd_upper q = pd_upper p - sum_list (map ialn base) \<and>
    (\<forall>j. linp_addr j + 4 \<le> b \<longrightarrow> j \<notin> ix ` set base \<longrightarrow> pd_linp q j = pd_linp p j) \<and>
    (\<forall>a. pd_upper p \<le> a \<longrightarrow> b \<le> a \<longrightarrow> q a = p a) \<and>
    (\<forall>t\<in>set base. pd_linp q (ix t) = (itemid_data t)\<lparr>lp_off := lp_off (pd_linp q (ix t))\<rparr> \<and>
       pd_upper q \<le> off_of (pd_linp q (ix t)) \<and> off_of (pd_linp q (ix t)) + ialn t \<le> pd_upper p \<and>
       item_at q (ix t) = bytes_at p (ioff t) (ilen t)) \<and>
    sorted_wrt (\<lambda>s t. apart (pd_linp q (ix s)) (pd_linp q (ix t))) base"
  using assms
proof (induction base arbitrary: p)
  case Nil
  then show ?case by simp
next
  case (Cons t base)
  define u where "u = pd_upper p - ialn t"
  define p' where "p' = set_pd_upper (set_linp (memmove p u (ioff t) (ilen t)) (ix t)
       ((itemid_data t)\<lparr>lp_off := of_nat u\<rparr>)) (int u)"
  note S = compactify_step [OF Cons.prems(1) u_def p'_def]
  note I = Cons.IH [OF S(2) Cons.prems(2) [unfolded S(1)]]
  have c: "8 \<le> b" "pd_upper p \<le> 8192" "linp_addr (ix t) + 4 \<le> b" "ix t \<notin> ix ` set base" "b \<le> ioff t"
    "ioff t + ialn t \<le> pd_upper p"
    using Cons.prems(1) by (auto simp: comp_pre_def)
  have ub: "b \<le> u" "u + ialn t = pd_upper p" "u \<le> 8192" using c S(4) u_def by linarith+
  have al: "ilen t \<le> ialn t" by simp
  have t: "pd_linp q (ix t) = (itemid_data t)\<lparr>lp_off := of_nat u\<rparr>" using I S(8) c by simp
  have ou: "off_of (pd_linp q (ix t)) = u" "len_of (pd_linp q (ix t)) = ilen t"
    using ub by (simp_all add: t unsigned_of_nat take_bit_nat_eq_self)
  have dat: "q a = p' a" if "u \<le> a" for a using I S(3) that ub by auto
  have "item_at q (ix t) = bytes_at p (ioff t) (ilen t)"
    unfolding item_at_def ou using ub by (intro bytes_at_eqI) (simp add: dat S(9))
  moreover have "item_at q (ix s) = bytes_at p (ioff s) (ilen s) \<and> apart (pd_linp q (ix t)) (pd_linp q (ix s)) \<and>
      off_of (pd_linp q (ix s)) + ialn s \<le> pd_upper p"
    if s: "s \<in> set base" for s
  proof -
    have b: "b \<le> ioff s" "ioff s + ialn s \<le> u" using S(2,3) s by (auto simp: comp_pre_def)
    have "ilen s \<le> ialn s" by simp
    then have lt: "ioff s + i < u" if "i < ilen s" for i using b(2) that by linarith
    have "bytes_at p' (ioff s) (ilen s) = bytes_at p (ioff s) (ilen s)"
      by (rule bytes_at_eqI) (use lt b(1) in \<open>force simp: S(9)\<close>)
    moreover have o: "off_of (pd_linp q (ix s)) + ialn s \<le> u" and e: "len_of (pd_linp q (ix s)) = ilen s"
      using I s S(3) by (metis ItemIdData.select_convs(3) ItemIdData.surjective ItemIdData.update_convs(1))+
    moreover have "apart (pd_linp q (ix t)) (pd_linp q (ix s))"
      using o ou unfolding apart_def e by simp
    ultimately show ?thesis using I s ub by auto
  qed
  moreover have "q a = p a" if "pd_upper p \<le> a" "b \<le> a" for a
  proof -
    have "u \<le> a" "\<not> a < u + ilen t" using that ub al by linarith+
    then show ?thesis using dat [of a] S(9) [OF that(2)] by simp
  qed
  moreover have "b + sum_list (map ialn (t # base)) \<le> max b (pd_upper p)"
    "pd_upper q = pd_upper p - sum_list (map ialn (t # base))" "pd_upper q \<le> u"
    using I S(3) ub by auto
  ultimately show ?case using I S(5-8) c ou t ub by auto
qed

lemma sorted_wrt_distinct:
  "distinct (map f xs) \<Longrightarrow> (\<And>s t. s \<in> set xs \<Longrightarrow> t \<in> set xs \<Longrightarrow> f s \<noteq> f t \<Longrightarrow> P s t) \<Longrightarrow> sorted_wrt P xs"
  by (induction xs) (auto simp: image_iff)

lemma sorted_wrt_symD:
  "sorted_wrt P xs \<Longrightarrow> (\<And>s t. P s t \<Longrightarrow> P t s) \<Longrightarrow> s \<in> set xs \<Longrightarrow> t \<in> set xs \<Longrightarrow> s \<noteq> t \<Longrightarrow> P s t"
  by (induction xs) auto

definition used_size :: "mem \<Rightarrow> nat" where
  "used_size p = sum_list (map (\<lambda>i. MAX_ALIGN (len_of (pd_linp p i)))
     (filter (\<lambda>i. item_used (pd_linp p i)) [0..<nline p]))"

lemma itemid_compare_le: "itemid_compare s t \<le> 0 \<longleftrightarrow> ioff t \<le> ioff s"
  by (auto simp: itemid_compare_def word_less_nat_alt word_unat_eq_iff)

lemma collected_pre:
  assumes inv: "page_inv p" and qc: "qsort_contract qsort"
    and c: "collect_linp p 0 (nline p) = (p1, base)" and s: "s = set_pd_upper p1 (int (pd_special p1))"
  shows "comp_pre s (pd_lower p) (qsort base)" "set (qsort base) = set base"
    "set base = (\<lambda>j. \<lparr>offset_index = j, itemid_data = pd_linp p j\<rparr>) ` {j. j < nline p \<and> item_used (pd_linp p j)}"
    "sum_list (map ialn (qsort base)) = used_size p"
    "pd_lower s = pd_lower p" "pd_upper s = pd_special p" "pd_special s = pd_special p"
    "PAGE_GET_PAGE_SIZE s = PAGE_GET_PAGE_SIZE p" "\<And>j. j < nline p \<Longrightarrow> pd_linp s j = dl (pd_linp p j)"
    "\<And>a. pd_lower p \<le> a \<Longrightarrow> s a = p a" "distinct (map ix (qsort base))"
proof -
  note wf = page_invD(1) [OF inv] and ok = page_invD(2) [OF inv]
  note W = wf_pageD [OF wf] and low = wf_page_lower [OF wf]
  note C = collect_linp_spec [of p 0 "nline p", unfolded c fst_conv snd_conv]
  have ms: "mset (qsort base) = mset base" and so: "sorted_wrt (\<lambda>a b. itemid_compare a b \<le> 0) (qsort base)"
    using qc by (simp_all add: qsort_contract_def)
  show se: "set (qsort base) = set base" using ms by (metis set_mset_mset)
  have base: "base = map (\<lambda>j. \<lparr>offset_index = j, itemid_data = pd_linp p j\<rparr>)
      (filter (\<lambda>j. item_used (pd_linp p j)) [0..<nline p])" using C by simp
  then show sb: "set base = (\<lambda>j. \<lparr>offset_index = j, itemid_data = pd_linp p j\<rparr>) ` {j. j < nline p \<and> item_used (pd_linp p j)}"
    by auto
  have "sum_list (map ialn (qsort base)) = sum_mset (image_mset ialn (mset base))"
    by (metis ms mset_map sum_mset_sum_list)
  also have "\<dots> = sum_list (map ialn base)" by (metis mset_map sum_mset_sum_list)
  finally show "sum_list (map ialn (qsort base)) = used_size p" by (simp add: base used_size_def comp_def)
  have "mset (map ix (qsort base)) = mset (map ix base)" using ms by simp
  then have "distinct (map ix (qsort base)) = distinct (map ix base)" by (rule mset_eq_imp_distinct_iff)
  then show di: "distinct (map ix (qsort base))" by (simp add: base comp_def)
  show h: "pd_lower s = pd_lower p" "pd_upper s = pd_special p" "pd_special s = pd_special p"
    "PAGE_GET_PAGE_SIZE s = PAGE_GET_PAGE_SIZE p"
    using C W by (simp_all add: s mem_simps)
  show linp: "pd_linp s j = dl (pd_linp p j)" if "j < nline p" for j using C that by (simp add: s mem_simps)
  show "s a = p a" if "pd_lower p \<le> a" for a using C that W low by (simp add: s mem_simps linp_addr_def)
  have so': "sorted_wrt (\<lambda>s t. ioff t \<le> ioff s) (qsort base)" using so by (simp add: itemid_compare_le)
  have ap: "sorted_wrt (\<lambda>s t. apart (itemid_data s) (itemid_data t)) (qsort base)"
    by (rule sorted_wrt_distinct [OF di]) (use ok in \<open>auto simp: se sb items_ok_def\<close>)
  show "comp_pre s (pd_lower p) (qsort base)"
    unfolding comp_pre_def h se
  proof (intro conjI ballI)
    fix t assume "t \<in> set base"
    then obtain j where j: "t = \<lparr>offset_index = j, itemid_data = pd_linp p j\<rparr>" "j < nline p" "item_used (pd_linp p j)"
      by (auto simp: sb)
    then show "linp_addr (ix t) + 4 \<le> pd_lower p" "pd_linp s (ix t) = itemid_data t"
      using linp_below_lower [OF wf] linp by (auto simp: dl_def)
    have "in_data p (pd_linp p j)" using ok j by (simp add: items_ok_def)
    then show "pd_lower p \<le> ioff t" "ioff t + ialn t \<le> pd_special p"
      using W j by (auto simp: in_data_def)
  qed (use W di so' ap in auto)
qed

lemma page_repair_fragmentation_aux:
  assumes inv: "page_inv p" and qc: "qsort_contract qsort"
  shows "page_inv (page_repair_fragmentation qsort p) \<and>
    page_items (page_repair_fragmentation qsort p) = page_items p \<and>
    pd_lower (page_repair_fragmentation qsort p) = pd_lower p \<and>
    pd_upper (page_repair_fragmentation qsort p) = pd_special p - used_size p"
proof -
  note wf = page_invD(1) [OF inv] and ok = page_invD(2) [OF inv]
  note W = wf_pageD [OF wf] and low = wf_page_lower [OF wf]
  define q where "q = page_repair_fragmentation qsort p"
  let ?used = "filter (\<lambda>i. item_used (pd_linp p i)) [0..<nline p]"
  show ?thesis
  proof (cases "?used = []")
    case True
    then have un: "\<not> item_used (pd_linp p j)" if "j < nline p" for j
      using that by (auto simp: filter_empty_conv)
    have D: "pd_lower q = pd_lower p" "pd_upper q = pd_special p" "pd_special q = pd_special p"
      "PAGE_GET_PAGE_SIZE q = PAGE_GET_PAGE_SIZE p" "\<And>j. j < nline p \<Longrightarrow> \<not> item_used (pd_linp q j)"
      using dealloc_all_spec [of 0 "nline p" p] un W True
      by (auto simp: q_def page_repair_fragmentation_def max_offset_eq [OF wf] mem_simps)
    have n: "nline q = nline p" by (simp add: nline_def D)
    have "page_items q = page_items p" using n D(5) un by (intro page_items_eqI) (auto simp: nth_page_items)
    moreover have "page_inv q" using wf W D n by (auto simp: page_inv_def wf_page_def wf_items_def sep_items_def)
    moreover have "used_size p = 0" using True by (simp add: used_size_def)
    ultimately show ?thesis using D unfolding q_def by simp
  next
    case False
    obtain p1 base where c: "collect_linp p 0 (nline p) = (p1, base)" by (cases "collect_linp p 0 (nline p)")
    define s where "s = set_pd_upper p1 (int (pd_special p1))"
    note P = collected_pre [OF inv qc c s_def]
    have q: "q = compactify s (qsort base)"
      using False by (simp add: q_def page_repair_fragmentation_def max_offset_eq [OF wf] c s_def)
    note K = compactify_spec [OF P(1) q]
    have n: "nline q = nline p" using K P(5) by (simp add: nline_def)
    have used: "pd_linp q j = (pd_linp p j)\<lparr>lp_off := lp_off (pd_linp q j)\<rparr> \<and> in_data q (pd_linp q j) \<and>
        item_at q j = item_at p j" if j: "j < nline p" "item_used (pd_linp p j)" for j
    proof -
      let ?t = "\<lparr>offset_index = j, itemid_data = pd_linp p j\<rparr>"
      have "?t \<in> set (qsort base)" using j P(2,3) by auto
      then have k: "pd_linp q j = (pd_linp p j)\<lparr>lp_off := lp_off (pd_linp q j)\<rparr>"
        "pd_upper q \<le> off_of (pd_linp q j)" "off_of (pd_linp q j) + MAX_ALIGN (len_of (pd_linp p j)) \<le> pd_special p"
        "item_at q j = bytes_at s (off_of (pd_linp p j)) (len_of (pd_linp p j))"
        using K P(6) by force+
      have l: "lp_len (pd_linp q j) = lp_len (pd_linp p j)" by (subst k(1)) simp
      have "bytes_at s (off_of (pd_linp p j)) (len_of (pd_linp p j)) = item_at p j"
        unfolding item_at_def using ok j W by (intro bytes_at_eqI P(10)) (auto simp: items_ok_def in_data_def)
      then show ?thesis using k l K P(7) by (simp add: in_data_def)
    qed
    have unused: "\<not> item_used (pd_linp q j)" if j: "j < nline p" "\<not> item_used (pd_linp p j)" for j
    proof -
      have "j \<notin> ix ` set (qsort base)" using j P(2,3) by auto
      then have "pd_linp q j = dl (pd_linp p j)" using K P(9) [OF j(1)] linp_below_lower [OF wf j(1)] by simp
      then show ?thesis using j by simp
    qed
    have same: "item_used (pd_linp q j) = item_used (pd_linp p j)" if "j < nline p" for j
    proof (cases "item_used (pd_linp p j)")
      case True
      then have "lp_flags (pd_linp q j) = lp_flags (pd_linp p j)"
        using used [OF that True] by (metis ItemIdData.select_convs(2) ItemIdData.surjective ItemIdData.update_convs(1))
      then show ?thesis by (simp add: item_used_def)
    qed (use unused that in auto)
    have "items_ok q {..<nline q}"
      unfolding items_ok_def n
    proof (intro conjI ballI impI)
      fix i j assume ij: "i \<in> {..<nline p}" "j \<in> {..<nline p}" "i \<noteq> j" "item_used (pd_linp q i)" "item_used (pd_linp q j)"
      then have "\<lparr>offset_index = i, itemid_data = pd_linp p i\<rparr> \<in> set (qsort base)"
        "\<lparr>offset_index = j, itemid_data = pd_linp p j\<rparr> \<in> set (qsort base)"
        using same P(2,3) by auto
      from sorted_wrt_symD [OF _ _ this] show "apart (pd_linp q i) (pd_linp q j)"
        using K ij(3) by (force simp: apart_def)
    qed (use used same in auto)
    moreover have "wf_page q" using K P W wf by (auto simp: wf_page_def)
    moreover have "page_items q = page_items p"
      by (rule page_items_eqI) (use n same used in \<open>auto simp: nth_page_items\<close>)
    moreover have "pd_upper q = pd_special p - used_size p" using K P(4,6) by simp
    moreover have "pd_lower q = pd_lower p" using K P(5) by simp
    ultimately show ?thesis unfolding q_def by (simp add: page_inv_def items_ok_iff)
  qed
qed

lemma temp_page_aux:
  assumes wf: "wf_page p" and sp: "MAX_ALIGN s = 8192 - pd_special p" "8 \<le> pd_special p"
    and q: "q = page_restore_temp_page (page_get_temp_page fresh p s) p"
  shows "page_inv q \<and> page_items q = [] \<and> pd_upper q = pd_special p \<and> pd_special q = pd_special p \<and>
    (\<forall>a. pd_special p \<le> a \<longrightarrow> q a = p a) \<and> (\<forall>a. 8 \<le> a \<and> a < pd_special p \<longrightarrow> q a = 0)"
proof -
  note W = wf_pageD [OF wf]
  let ?t0 = "memset (memcpy_list fresh 0 (bytes_at p 0 8192)) 8 0 (8184 - MAX_ALIGN s)"
  have t0: "?t0 a = (if 8 \<le> a \<and> a < pd_special p then 0 else p a)" if "a < 8192" for a
    using that sp W by (auto simp: memset_def memcpy_list_def)
  have h: "pd_special ?t0 = pd_special p" "PAGE_GET_PAGE_SIZE ?t0 = 8192"
    using t0 W(5) by (simp_all add: pd_get_defs get16_def)
  define t where "t = page_get_temp_page fresh p s"
  have t: "t = set_pd_upper (set_pd_lower ?t0 8) (int (pd_special p))"
    using sp W by (simp add: t_def page_get_temp_page_def Let_def linp_addr_def)
  have th: "pd_lower t = 8" "pd_upper t = pd_special p" "pd_special t = pd_special p" "PAGE_GET_PAGE_SIZE t = 8192"
    using W h by (simp_all add: t mem_simps)
  have qt: "q a = (if a < 8192 then t a else p a)" for a
    using th by (simp add: q t_def [symmetric] page_restore_temp_page_def memcpy_list_def)
  have qh: "pd_lower q = 8" "pd_upper q = pd_special p" "pd_special q = pd_special p" "PAGE_GET_PAGE_SIZE q = 8192"
    using th by (simp_all add: pd_get_defs get16_def qt)
  have ta: "t a = (if a < pd_special p then 0 else p a)" if "8 \<le> a" "a < 8192" for a
    using that by (simp add: t mem_simps t0)
  have "q a = p a" if "pd_special p \<le> a" for a using that sp ta [of a] by (simp add: qt)
  moreover have "q a = 0" if "8 \<le> a" "a < pd_special p" for a using that W ta [of a] by (simp add: qt)
  ultimately show ?thesis using qh W sp
    by (simp add: page_inv_def wf_page_def wf_items_def sep_items_def page_items_def nline_def)
qed

section \<open>Properties\<close>

text \<open>Concrete pages for the witnesses: an empty page and a page with one three-byte item.\<close>

definition empty_page :: mem where
  "empty_page = (\<lambda>_. 0)(0 := 8, 3 := 0x20, 5 := 0x20, 7 := 0x20)"

definition one_page :: mem where
  "one_page = (\<lambda>_. 0)(0 := 12, 2 := 0xF0, 3 := 0x1F, 5 := 0x20, 7 := 0x20,
     8 := 0xF0, 9 := 0x9F, 10 := 0x06, 8176 := 1, 8177 := 2, 8178 := 3)"

lemma empty_page_fields:
  "pd_lower empty_page = 8" "pd_upper empty_page = 8192" "pd_special empty_page = 8192"
  "PAGE_GET_PAGE_SIZE empty_page = 8192"
  by (simp_all add: pd_get_defs get16_def empty_page_def)

lemma one_page_fields:
  "pd_lower one_page = 12" "pd_upper one_page = 8176" "pd_special one_page = 8192"
  "PAGE_GET_PAGE_SIZE one_page = 8192" "pd_linp one_page 0 = \<lparr>lp_off = 8176, lp_flags = 1, lp_len = 3\<rparr>"
  by (simp_all add: pd_get_defs get16_def one_page_def pd_linp_def linp_addr_def get32_def decode_itemid_def)

lemma page_inv_empty_page: "page_inv empty_page" "page_items empty_page = []"
  by (simp_all add: page_inv_def wf_page_def wf_items_def sep_items_def nline_def page_items_def empty_page_fields)

lemma page_inv_one_page: "page_inv one_page" "nline one_page = 1" "item_used (pd_linp one_page 0)"
  by (simp_all add: page_inv_def wf_page_def wf_items_def sep_items_def nline_def one_page_fields
      item_used_def LP_USED_def MAX_ALIGN_eq)

lemma page_items_one_page: "page_items one_page = [Some [1, 2, 3]]"
  using page_inv_one_page
  by (simp add: page_items_def item_at_def one_page_fields bytes_at_def upt_conv_Cons)
     (simp add: one_page_def)

text \<open>
  \<open>page_init\<close> with a special area of at most 8176 bytes succeeds and yields a well-formed,
  empty page whose free space is what the header, the special area and one line pointer leave.
\<close>

theorem page_init_correct:
  assumes "special_size \<le> 8176"
  shows "\<exists>p'. page_init p 8192 special_size = Inr p' \<and> page_inv p' \<and> page_items p' = [] \<and>
    PAGE_IS_EMPTY p' \<and> page_get_free_space p' = of_nat (8192 - MAX_ALIGN special_size - 12)"
  using page_init_correct_aux [OF assms] by (auto simp: page_inv_def)

theorem page_init_correct_witness:
  "\<exists>p'. page_init (\<lambda>_. 0) 8192 16 = Inr p' \<and> page_inv p' \<and> page_items p' = [] \<and>
    PAGE_IS_EMPTY p' \<and> page_get_free_space p' = of_nat (8192 - MAX_ALIGN 16 - 12)"
  by (rule page_init_correct) simp

text \<open>
  The assertion of \<open>page_init\<close> compares the unaligned special size, so sizes from 8177 to 8183 pass
  it and give a page whose \<open>pd_upper\<close> lies below its \<open>pd_lower\<close>.
\<close>

theorem page_init_special_too_large:
  assumes "8177 \<le> s" "s \<le> 8183"
  shows "\<exists>p'. page_init p 8192 s = Inr p' \<and> pd_upper p' < pd_lower p' \<and> \<not> wf_page p'"
proof -
  have "MAX_ALIGN s = 8192" using assms by (simp add: MAX_ALIGN_eq)
  then show ?thesis using page_init_eq [of s p] assms by (auto simp: wf_page_def)
qed

text \<open>
  C13. \<open>page_add_item\<close> without an offset number never fails. It keeps the page invariant; either
  it returns 0, leaves the page as it was, and there was no room for the item and a line pointer,
  or it returns the number of a slot that was unused or new, and the contents of the page change
  in that slot only, which now holds the item. It succeeds on every item that fits the space
  \<open>page_get_free_space\<close> reports.
\<close>

theorem page_add_item_append:
  assumes "page_inv p" "length item < 2 ^ 30"
  shows "\<exists>n q. page_add_item shuffle p item 0 flags = Inr (n, q) \<and> page_inv q \<and>
    (if n = 0 then q = p \<and> pd_upper p < pd_lower p + 4 + MAX_ALIGN (length item)
     else n \<le> nline p + 1 \<and> (n \<le> nline p \<longrightarrow> page_items p ! (n - 1) = None) \<and>
       page_items q = (if n = nline p + 1 then page_items p @ [entry_of flags item]
                       else (page_items p)[n - 1 := entry_of flags item])) \<and>
    (0 < length item \<and> MAX_ALIGN (length item) \<le> unat (page_get_free_space p) \<longrightarrow> n \<noteq> 0)"
proof -
  obtain n q where q: "page_add_item shuffle p item 0 flags = Inr (n, q)" "page_inv q"
    "if n = 0 then q = p \<and> pd_upper p < pd_lower p + 4 + MAX_ALIGN (length item)
     else n \<le> nline p + 1 \<and> (n \<le> nline p \<longrightarrow> page_items p ! (n - 1) = None) \<and>
       page_items q = (if n = nline p + 1 then page_items p @ [entry_of flags item]
                       else (page_items p)[n - 1 := entry_of flags item])"
    using page_add_item_append_aux [OF assms] by blast
  then have "0 < length item \<and> MAX_ALIGN (length item) \<le> unat (page_get_free_space p) \<longrightarrow> n \<noteq> 0"
    using free_space_enough [OF assms(1), of item] by (metis linorder_not_less)
  then show ?thesis using q by blast
qed

theorem page_add_item_append_witness:
  "\<exists>n q. page_add_item True one_page [7, 7] 0 1 = Inr (n, q) \<and> page_inv q \<and>
    (if n = 0 then q = one_page \<and> pd_upper one_page < pd_lower one_page + 4 + MAX_ALIGN (length [7 :: byte, 7])
     else n \<le> nline one_page + 1 \<and> (n \<le> nline one_page \<longrightarrow> page_items one_page ! (n - 1) = None) \<and>
       page_items q = (if n = nline one_page + 1 then page_items one_page @ [entry_of 1 [7, 7]]
                       else (page_items one_page)[n - 1 := entry_of 1 [7, 7]])) \<and>
    (0 < length [7 :: byte, 7] \<and> MAX_ALIGN (length [7 :: byte, 7]) \<le> unat (page_get_free_space one_page) \<longrightarrow> n \<noteq> 0)"
  by (rule page_add_item_append) (simp_all add: page_inv_one_page)

text \<open>
  C16. \<open>page_add_item\<close> in shuffle mode at offset \<open>n\<close>, on a page with room for one more line
  pointer: when the item fits it is inserted as entry \<open>n\<close> and the later entries move up by one.
  When it does not fit, 0 is returned, but the line pointers have been shuffled already: entry \<open>n\<close>
  appears twice and the last entry of the page is lost.
\<close>

theorem page_add_item_insert:
  assumes "page_inv p" "length item < 2 ^ 30" "1 \<le> n" "n \<le> nline p + 1" "pd_lower p + 4 \<le> pd_upper p"
  shows "\<exists>q. page_add_item True p item n flags =
      Inr (if pd_lower p + 4 + MAX_ALIGN (length item) \<le> pd_upper p then n else 0, q) \<and>
    (if pd_lower p + 4 + MAX_ALIGN (length item) \<le> pd_upper p
     then page_inv q \<and> page_items q = take (n - 1) (page_items p) @ entry_of flags item # drop (n - 1) (page_items p)
     else page_items q = take (nline p) (take n (page_items p) @ drop (n - 1) (page_items p)))"
  by (rule page_add_item_insert_aux [OF assms])

theorem page_add_item_insert_witness:
  "\<exists>q. page_add_item True one_page [9] 1 1 = Inr (1, q) \<and> page_inv q \<and> page_items q = [Some [9], Some [1, 2, 3]]"
  using page_add_item_insert [of one_page "[9]" 1 1]
  by (simp add: page_inv_one_page page_items_one_page one_page_fields MAX_ALIGN_eq entry_of_def LP_USED_def)

text \<open>
  C14. \<open>page_index_tuple_delete\<close> of a used entry \<open>n\<close> keeps the page invariant, removes exactly
  that entry from the contents of the page, leaves the bytes of all other items intact although it
  moves them, and gives back the aligned size of the item and one line pointer to the free space.
\<close>

theorem page_index_tuple_delete_correct:
  assumes "page_inv p" "1 \<le> n" "n \<le> nline p" "item_used (pd_linp p (n - 1))"
  shows "page_inv (page_index_tuple_delete p n) \<and>
    page_items (page_index_tuple_delete p n) = take (n - 1) (page_items p) @ drop n (page_items p) \<and>
    pd_upper (page_index_tuple_delete p n) - pd_lower (page_index_tuple_delete p n) =
      pd_upper p - pd_lower p + MAX_ALIGN (len_of (pd_linp p (n - 1))) + 4"
  by (rule page_index_tuple_delete_aux [OF assms])

theorem page_index_tuple_delete_correct_witness:
  "page_inv (page_index_tuple_delete one_page 1) \<and> page_items (page_index_tuple_delete one_page 1) = []"
  using page_index_tuple_delete_correct [of one_page 1] page_inv_one_page
  by (simp add: page_items_one_page)

text \<open>
  C15. \<open>page_repair_fragmentation\<close>, with any \<open>qsort\<close> that meets the contract of the C library,
  keeps the page invariant and the contents of every used entry, and leaves no fragmentation:
  \<open>pd_upper\<close> lies exactly the total aligned size of the used items below the special area.
\<close>

theorem page_repair_fragmentation_correct:
  assumes "page_inv p" "qsort_contract qsort"
  shows "page_inv (page_repair_fragmentation qsort p) \<and>
    page_items (page_repair_fragmentation qsort p) = page_items p \<and>
    pd_lower (page_repair_fragmentation qsort p) = pd_lower p \<and>
    pd_upper (page_repair_fragmentation qsort p) = pd_special p - used_size p"
  by (rule page_repair_fragmentation_aux [OF assms])

lemma qsort_contract_sort_key: "qsort_contract (sort_key (\<lambda>t. - int (ioff t)))"
  unfolding qsort_contract_def itemid_compare_le
proof (intro allI conjI)
  fix xs :: "ItemIdSortData list"
  have "sorted (map (\<lambda>t. - int (ioff t)) (sort_key (\<lambda>t. - int (ioff t)) xs))" by simp
  then show "sorted_wrt (\<lambda>a b. ioff b \<le> ioff a) (sort_key (\<lambda>t. - int (ioff t)) xs)"
    by (simp only: sorted_map neg_le_iff_le of_nat_le_iff)
qed simp

theorem page_repair_fragmentation_correct_witness:
  "page_inv (page_repair_fragmentation (sort_key (\<lambda>t. - int (ioff t))) one_page) \<and>
   page_items (page_repair_fragmentation (sort_key (\<lambda>t. - int (ioff t))) one_page) = [Some [1, 2, 3]]"
  using page_repair_fragmentation_correct [OF page_inv_one_page(1) qsort_contract_sort_key]
  by (simp add: page_items_one_page)

text \<open>
  A temporary page made by \<open>page_get_temp_page\<close> with the special size of the page and copied
  back by \<open>page_restore_temp_page\<close> leaves an empty well-formed page: the special area keeps its
  bytes, everything between the header and the special area is zero.
\<close>

theorem page_temp_roundtrip:
  assumes "wf_page p" "MAX_ALIGN s = 8192 - pd_special p" "8 \<le> pd_special p"
  shows "page_inv (page_restore_temp_page (page_get_temp_page fresh p s) p) \<and>
    page_items (page_restore_temp_page (page_get_temp_page fresh p s) p) = [] \<and>
    pd_upper (page_restore_temp_page (page_get_temp_page fresh p s) p) = pd_special p \<and>
    (\<forall>a \<ge> pd_special p. page_restore_temp_page (page_get_temp_page fresh p s) p a = p a) \<and>
    (\<forall>a. 8 \<le> a \<and> a < pd_special p \<longrightarrow> page_restore_temp_page (page_get_temp_page fresh p s) p a = 0)"
  using temp_page_aux [OF assms refl, of fresh] by blast

theorem page_temp_roundtrip_witness:
  "page_items (page_restore_temp_page (page_get_temp_page (\<lambda>_. 5) one_page 0) one_page) = []"
  using page_temp_roundtrip [of one_page 0 "\<lambda>_. 5"] page_inv_one_page
  by (simp add: one_page_fields MAX_ALIGN_eq page_inv_def)

end
