(* ===== verification/Aset.thy ===== *)
theory Aset
  imports Links
begin

text \<open>
  Allocation sets, \<^verbatim>\<open>utils/mmgr/aset.c\<close>, in the build without \<open>MEMORY_CONTEXT_CHECKING\<close>,
  \<open>CLOBBER_FREED_MEMORY\<close> and \<open>HAVE_ALLOC_INFO\<close>. The set gets blocks from \<open>malloc\<close>, carves chunks
  out of them and keeps freed chunks on ten free lists of power-of-two sizes. Memory is explicit, one
  function per field: \<open>b_next\<close>, \<open>b_freeptr\<close>, \<open>b_endptr\<close> and \<open>b_aset\<close> of the block header at an
  address, \<open>c_aset\<close> and \<open>c_size\<close> of the chunk header at an address, \<open>dat\<close> for the bytes of the
  chunks. \<open>malloc\<close>, \<open>free\<close> and \<open>realloc\<close> are parameters over a heap state. Loops along lists are
  partial functions: \<open>None\<close> is a loop that does not end.
\<close>

section \<open>Sets, blocks and chunks\<close>

definition ALLOC_MIN_BITS :: nat where "ALLOC_MIN_BITS = 4"
definition ALLOC_SET_NUM_FREELISTS :: nat where "ALLOC_SET_NUM_FREELISTS = 10"
definition ALLOC_CHUNK_LIMIT :: nat where
  "ALLOC_CHUNK_LIMIT = push_bit (ALLOC_SET_NUM_FREELISTS - 1 + ALLOC_MIN_BITS) 1"
definition ALLOC_BLOCK_HDR_SZ :: nat where "ALLOC_BLOCK_HDR_SZ = MAX_ALIGN 32"
definition ALLOC_CHUNK_HDR_SZ :: nat where "ALLOC_CHUNK_HDR_SZ = MAX_ALIGN 16"

lemma aset_consts [simp]:
  "ALLOC_MIN_BITS = 4" "ALLOC_SET_NUM_FREELISTS = 10" "ALLOC_CHUNK_LIMIT = 8192" "ALLOC_BLOCK_HDR_SZ = 32"
  "ALLOC_CHUNK_HDR_SZ = 16"
  by (simp_all add: ALLOC_MIN_BITS_def ALLOC_SET_NUM_FREELISTS_def ALLOC_CHUNK_LIMIT_def ALLOC_BLOCK_HDR_SZ_def
      ALLOC_CHUNK_HDR_SZ_def MAX_ALIGN_eq)

record 'h AllocSetContext =
  set_addr :: nat
  set_blocks :: nat
  freelist :: "nat \<Rightarrow> nat"
  init_block_size :: nat
  max_block_size :: nat
  keeper :: nat
  b_aset :: "nat \<Rightarrow> nat"
  b_next :: "nat \<Rightarrow> nat"
  b_freeptr :: "nat \<Rightarrow> nat"
  b_endptr :: "nat \<Rightarrow> nat"
  c_aset :: "nat \<Rightarrow> nat"
  c_size :: "nat \<Rightarrow> nat"
  dat :: "nat \<Rightarrow> byte"
  os_heap :: 'h

definition ALLOC_POINTER_GET_CHUNK :: "nat \<Rightarrow> nat" where
  "ALLOC_POINTER_GET_CHUNK p = p - ALLOC_CHUNK_HDR_SZ"

definition ALLOC_CHUNK_GET_POINTER :: "nat \<Rightarrow> nat" where
  "ALLOC_CHUNK_GET_POINTER c = c + ALLOC_CHUNK_HDR_SZ"

section \<open>Allocation\<close>

function free_index_loop :: "nat \<Rightarrow> nat \<Rightarrow> nat" where
  "free_index_loop idx sz = (if sz \<noteq> 0 then free_index_loop (idx + 1) (drop_bit 1 sz) else idx)"
  by pat_completeness auto
termination by (relation "measure snd") (auto simp: drop_bit_eq_div)

declare free_index_loop.simps [simp del]

definition alloc_set_free_index :: "nat \<Rightarrow> nat cres" where
  "alloc_set_free_index sz =
     (if sz > 0 then
        let idx = free_index_loop 0 (drop_bit ALLOC_MIN_BITS (sz - 1))
        in c_assert (idx < ALLOC_SET_NUM_FREELISTS) (Inr idx)
      else Inr 0)"

text \<open>
  The node that \<open>memory_context_create\<close> returns is cleared; \<open>st\<close> is its state together with the
  memory.
\<close>

definition alloc_set_context_create ::
  "('h \<Rightarrow> nat \<Rightarrow> nat \<times> 'h) \<Rightarrow> 'h AllocSetContext \<Rightarrow> nat \<Rightarrow> nat \<Rightarrow> nat \<Rightarrow> 'h AllocSetContext cres" where
  "alloc_set_context_create malloc st min_context_size init_size max_size =
     (let init1 = MAX_ALIGN init_size;
          init2 = (if init1 < 1024 then 1024 else init1);
          max1 = MAX_ALIGN max_size;
          max2 = (if max1 < init2 then init2 else max1);
          st1 = st\<lparr>init_block_size := init2, max_block_size := max2\<rparr>
      in if min_context_size > ALLOC_BLOCK_HDR_SZ + ALLOC_CHUNK_HDR_SZ then
           let blk_size = MAX_ALIGN min_context_size
           in case malloc (os_heap st1) blk_size of (block, hp) \<Rightarrow>
             if block = 0 then Inl Elog_ERROR
             else Inr (st1\<lparr>os_heap := hp, b_aset := (b_aset st1)(block := set_addr st1),
               b_freeptr := (b_freeptr st1)(block := block + ALLOC_BLOCK_HDR_SZ),
               b_endptr := (b_endptr st1)(block := block + blk_size),
               b_next := (b_next st1)(block := set_blocks st1),
               set_blocks := block, keeper := block\<rparr>)
         else Inr st1)"

text \<open>A request above \<open>ALLOC_CHUNK_LIMIT\<close> gets a block of its own, put below the active block.\<close>

definition alloc_large :: "('h \<Rightarrow> nat \<Rightarrow> nat \<times> 'h) \<Rightarrow> 'h AllocSetContext \<Rightarrow> nat \<Rightarrow> (nat \<times> 'h AllocSetContext) cres" where
  "alloc_large malloc st sz =
     (let chunk_size = MAX_ALIGN sz;
          blk_size = chunk_size + ALLOC_BLOCK_HDR_SZ + ALLOC_CHUNK_HDR_SZ
      in case malloc (os_heap st) blk_size of (block, hp) \<Rightarrow>
        if block = 0 then Inl Elog_ERROR
        else let chunk = block + ALLOC_BLOCK_HDR_SZ;
                 st1 = st\<lparr>os_heap := hp, b_aset := (b_aset st)(block := set_addr st),
                   b_freeptr := (b_freeptr st)(block := block + blk_size),
                   b_endptr := (b_endptr st)(block := block + blk_size),
                   c_aset := (c_aset st)(chunk := set_addr st), c_size := (c_size st)(chunk := chunk_size)\<rparr>;
                 st2 = (if set_blocks st1 \<noteq> 0
                        then st1\<lparr>b_next := (b_next st1)(block := b_next st1 (set_blocks st1), set_blocks st1 := block)\<rparr>
                        else st1\<lparr>b_next := (b_next st1)(block := 0), set_blocks := block\<rparr>)
             in Inr (ALLOC_CHUNK_GET_POINTER chunk, st2))"

text \<open>The search of a free list for a chunk that is large enough: its predecessor and the chunk, 0 for none.\<close>

partial_function (option) find_free ::
  "(nat \<Rightarrow> nat) \<Rightarrow> (nat \<Rightarrow> nat) \<Rightarrow> nat \<Rightarrow> nat \<Rightarrow> nat \<Rightarrow> (nat \<times> nat) option" where
  "find_free aset csize sz prior_free chunk =
     (if chunk \<noteq> 0 then
        if csize chunk \<ge> sz then Some (prior_free, chunk) else find_free aset csize sz chunk (aset chunk)
      else Some (prior_free, chunk))"

definition take_free :: "'h AllocSetContext \<Rightarrow> nat \<Rightarrow> nat \<Rightarrow> nat \<Rightarrow> 'h AllocSetContext" where
  "take_free st fidx prior_free chunk =
     (let st1 = (if prior_free = 0 then st\<lparr>freelist := (freelist st)(fidx := c_aset st chunk)\<rparr>
                 else st\<lparr>c_aset := (c_aset st)(prior_free := c_aset st chunk)\<rparr>)
      in st1\<lparr>c_aset := (c_aset st1)(chunk := set_addr st1)\<rparr>)"

text \<open>
  The loop that carves the rest of a block that becomes inactive into free chunks. The first part
  is the choice of the list and the size of the next chunk.
\<close>

definition carve_class :: "nat \<Rightarrow> (nat \<times> nat) cres" where
  "carve_class avail_chunk =
     (case alloc_set_free_index avail_chunk of Inl e \<Rightarrow> Inl e
      | Inr a_fidx \<Rightarrow>
          if avail_chunk \<noteq> push_bit (a_fidx + ALLOC_MIN_BITS) 1
          then if a_fidx = 0 then Inl Assert_failed
               else Inr (a_fidx - 1, push_bit (a_fidx - 1 + ALLOC_MIN_BITS) 1)
          else Inr (a_fidx, avail_chunk))"

function carve :: "'h AllocSetContext \<Rightarrow> nat \<Rightarrow> nat \<Rightarrow> 'h AllocSetContext cres" where
  "carve st block avail_space =
     (if avail_space \<ge> push_bit ALLOC_MIN_BITS 1 + ALLOC_CHUNK_HDR_SZ then
        case carve_class (avail_space - ALLOC_CHUNK_HDR_SZ) of Inl e \<Rightarrow> Inl e
        | Inr (a_fidx, avail_chunk) \<Rightarrow>
            let chunk = b_freeptr st block;
                st1 = st\<lparr>b_freeptr := (b_freeptr st)(block := chunk + (avail_chunk + ALLOC_CHUNK_HDR_SZ)),
                  c_size := (c_size st)(chunk := avail_chunk),
                  c_aset := (c_aset st)(chunk := freelist st a_fidx),
                  freelist := (freelist st)(a_fidx := chunk)\<rparr>
            in carve st1 block (avail_space - (avail_chunk + ALLOC_CHUNK_HDR_SZ))
      else Inr st)"
  by pat_completeness auto
termination by (relation "measure (\<lambda>(st, block, avail). avail)") auto

declare carve.simps [simp del]

text \<open>The size of the next regular block, and the loop that asks for less when \<open>malloc\<close> fails.\<close>

definition next_block_size :: "'h AllocSetContext \<Rightarrow> nat \<Rightarrow> nat" where
  "next_block_size st chunk_size =
     (let blk_size = (if set_blocks st = 0 then init_block_size st
            else let sz = b_endptr st (set_blocks st) - set_blocks st
                 in if sz < init_block_size st then init_block_size st
                    else let sz2 = push_bit 1 sz in if sz2 > max_block_size st then max_block_size st else sz2);
          required_size = chunk_size + ALLOC_BLOCK_HDR_SZ + ALLOC_CHUNK_HDR_SZ
      in if blk_size < required_size then required_size else blk_size)"

function retry_malloc ::
  "('h \<Rightarrow> nat \<Rightarrow> nat \<times> 'h) \<Rightarrow> nat \<Rightarrow> nat \<Rightarrow> nat \<Rightarrow> 'h \<Rightarrow> nat \<times> nat \<times> 'h" where
  "retry_malloc malloc required_size block blk_size hp =
     (if block = 0 \<and> blk_size > 1024 * 1024 then
        let blk_size = drop_bit 1 blk_size
        in if blk_size < required_size then (block, blk_size, hp)
           else case malloc hp blk_size of (block, hp) \<Rightarrow> retry_malloc malloc required_size block blk_size hp
      else (block, blk_size, hp))"
  by pat_completeness auto
termination by (relation "measure (\<lambda>(m, r, b, s, h). s)") (auto simp: drop_bit_eq_div)

declare retry_malloc.simps [simp del]

definition new_block ::
  "('h \<Rightarrow> nat \<Rightarrow> nat \<times> 'h) \<Rightarrow> 'h AllocSetContext \<Rightarrow> nat \<Rightarrow> (nat \<times> 'h AllocSetContext) cres" where
  "new_block malloc st chunk_size =
     (let required_size = chunk_size + ALLOC_BLOCK_HDR_SZ + ALLOC_CHUNK_HDR_SZ;
          blk_size = next_block_size st chunk_size
      in case malloc (os_heap st) blk_size of (block0, hp0) \<Rightarrow>
         case retry_malloc malloc required_size block0 blk_size hp0 of (block, blk_size, hp) \<Rightarrow>
           if block = 0 then Inl Elog_ERROR
           else Inr (block, st\<lparr>os_heap := hp, b_aset := (b_aset st)(block := set_addr st),
             b_freeptr := (b_freeptr st)(block := block + ALLOC_BLOCK_HDR_SZ),
             b_endptr := (b_endptr st)(block := block + blk_size),
             b_next := (b_next st)(block := set_blocks st), set_blocks := block\<rparr>))"

text \<open>The last part: cut the chunk off the front of the free space of the block.\<close>

definition cut_chunk :: "'h AllocSetContext \<Rightarrow> nat \<Rightarrow> nat \<Rightarrow> (nat \<times> 'h AllocSetContext) cres" where
  "cut_chunk st block chunk_size =
     (let chunk = b_freeptr st block;
          st1 = st\<lparr>b_freeptr := (b_freeptr st)(block := chunk + (chunk_size + ALLOC_CHUNK_HDR_SZ))\<rparr>
      in c_assert (b_freeptr st1 block \<le> b_endptr st1 block)
        (Inr (ALLOC_CHUNK_GET_POINTER chunk,
          st1\<lparr>c_aset := (c_aset st1)(chunk := set_addr st1), c_size := (c_size st1)(chunk := chunk_size)\<rparr>)))"

text \<open>The active block when it has room; else it is carved up and a new block is made.\<close>

definition active_block ::
  "('h \<Rightarrow> nat \<Rightarrow> nat \<times> 'h) \<Rightarrow> 'h AllocSetContext \<Rightarrow> nat \<Rightarrow> (nat \<times> 'h AllocSetContext) cres" where
  "active_block malloc st chunk_size =
     (if set_blocks st \<noteq> 0 then
        let block = set_blocks st; avail_space = b_endptr st block - b_freeptr st block
        in if avail_space < chunk_size + ALLOC_CHUNK_HDR_SZ
           then cbind (carve st block avail_space) (\<lambda>st1. new_block malloc st1 chunk_size)
           else Inr (block, st)
      else new_block malloc st chunk_size)"

definition alloc_set_alloc ::
  "('h \<Rightarrow> nat \<Rightarrow> nat \<times> 'h) \<Rightarrow> 'h AllocSetContext \<Rightarrow> nat \<Rightarrow> (nat \<times> 'h AllocSetContext) cres option" where
  "alloc_set_alloc malloc st sz =
     (if sz > ALLOC_CHUNK_LIMIT then Some (alloc_large malloc st sz)
      else case alloc_set_free_index sz of Inl e \<Rightarrow> Some (Inl e)
      | Inr fidx \<Rightarrow>
        (case find_free (c_aset st) (c_size st) sz 0 (freelist st fidx) of None \<Rightarrow> None
         | Some (prior_free, chunk) \<Rightarrow>
             if chunk \<noteq> 0 then Some (Inr (ALLOC_CHUNK_GET_POINTER chunk, take_free st fidx prior_free chunk))
             else let chunk_size = push_bit (fidx + ALLOC_MIN_BITS) 1
                  in Some (c_assert (chunk_size \<ge> sz)
                       (cbind (active_block malloc st chunk_size) (\<lambda>(block, st1). cut_chunk st1 block chunk_size)))))"

section \<open>Freeing and reallocating\<close>

text \<open>The search for the block that holds a single chunk: its predecessor and the block, 0 for none.\<close>

partial_function (option) find_block :: "(nat \<Rightarrow> nat) \<Rightarrow> nat \<Rightarrow> nat \<Rightarrow> nat \<Rightarrow> (nat \<times> nat) option" where
  "find_block nxt chunk prev_block block =
     (if block \<noteq> 0 then
        if chunk = block + ALLOC_BLOCK_HDR_SZ then Some (prev_block, block)
        else find_block nxt chunk block (nxt block)
      else Some (prev_block, block))"

definition alloc_set_free ::
  "('h \<Rightarrow> nat \<Rightarrow> 'h) \<Rightarrow> 'h AllocSetContext \<Rightarrow> nat \<Rightarrow> 'h AllocSetContext cres option" where
  "alloc_set_free mfree st pointer =
     (let chunk = ALLOC_POINTER_GET_CHUNK pointer
      in if c_size st chunk > ALLOC_CHUNK_LIMIT then
           (case find_block (b_next st) chunk 0 (set_blocks st) of None \<Rightarrow> None
            | Some (prev_block, block) \<Rightarrow>
                if block = 0 then Some (Inl Elog_ERROR)
                else Some (c_assert (b_freeptr st block = block + (c_size st chunk + ALLOC_BLOCK_HDR_SZ + ALLOC_CHUNK_HDR_SZ))
                  (let st1 = (if prev_block = 0 then st\<lparr>set_blocks := b_next st block\<rparr>
                              else st\<lparr>b_next := (b_next st)(prev_block := b_next st block)\<rparr>)
                   in Inr (st1\<lparr>os_heap := mfree (os_heap st1) block\<rparr>))))
         else case alloc_set_free_index (c_size st chunk) of Inl e \<Rightarrow> Some (Inl e)
         | Inr fidx \<Rightarrow>
             Some (Inr (st\<lparr>c_aset := (c_aset st)(chunk := freelist st fidx), freelist := (freelist st)(fidx := chunk)\<rparr>)))"

text \<open>
  \<open>realloc\<close> moves a block: the fields of its header, of its only chunk and the bytes of the chunk
  are found at the new address.
\<close>

definition move_block :: "'h AllocSetContext \<Rightarrow> nat \<Rightarrow> nat \<Rightarrow> 'h AllocSetContext" where
  "move_block st old new =
     (let oc = old + ALLOC_BLOCK_HDR_SZ; nc = new + ALLOC_BLOCK_HDR_SZ
      in st\<lparr>b_aset := (b_aset st)(new := b_aset st old), b_next := (b_next st)(new := b_next st old),
         c_aset := (c_aset st)(nc := c_aset st oc), c_size := (c_size st)(nc := c_size st oc),
         dat := memmove (dat st) (nc + ALLOC_CHUNK_HDR_SZ) (oc + ALLOC_CHUNK_HDR_SZ) (c_size st oc)\<rparr>)"

definition realloc_large ::
  "('h \<Rightarrow> nat \<Rightarrow> nat \<Rightarrow> nat \<times> 'h) \<Rightarrow> 'h AllocSetContext \<Rightarrow> nat \<Rightarrow> nat \<Rightarrow> (nat \<times> 'h AllocSetContext) cres option" where
  "realloc_large mrealloc st chunk sz =
     (case find_block (b_next st) chunk 0 (set_blocks st) of None \<Rightarrow> None
      | Some (prev_block, block) \<Rightarrow>
          if block = 0 then Some (Inl Elog_ERROR)
          else Some (c_assert (b_freeptr st block = block + (c_size st chunk + ALLOC_BLOCK_HDR_SZ + ALLOC_CHUNK_HDR_SZ))
            (let chunk_size = MAX_ALIGN sz;
                 blk_size = chunk_size + ALLOC_BLOCK_HDR_SZ + ALLOC_CHUNK_HDR_SZ
             in case mrealloc (os_heap st) block blk_size of (new, hp) \<Rightarrow>
               if new = 0 then Inl Elog_ERROR
               else let st1 = move_block (st\<lparr>os_heap := hp\<rparr>) block new;
                        chunk = new + ALLOC_BLOCK_HDR_SZ;
                        st2 = st1\<lparr>b_freeptr := (b_freeptr st1)(new := new + blk_size),
                                  b_endptr := (b_endptr st1)(new := new + blk_size)\<rparr>;
                        st3 = (if prev_block = 0 then st2\<lparr>set_blocks := new\<rparr>
                               else st2\<lparr>b_next := (b_next st2)(prev_block := new)\<rparr>)
                    in Inr (ALLOC_CHUNK_GET_POINTER chunk, st3\<lparr>c_size := (c_size st3)(chunk := chunk_size)\<rparr>))))"

text \<open>Enlarging the last chunk of the active block in place, when that is possible.\<close>

definition enlarge_in_place :: "'h AllocSetContext \<Rightarrow> nat \<Rightarrow> nat \<Rightarrow> 'h AllocSetContext option cres" where
  "enlarge_in_place st chunk sz =
     (let old_size = c_size st chunk; block = set_blocks st
      in if sz \<le> ALLOC_CHUNK_LIMIT \<and> block = 0 then Inl Bad_pointer
         else if sz \<le> ALLOC_CHUNK_LIMIT \<and> chunk + (old_size + ALLOC_CHUNK_HDR_SZ) = b_freeptr st block then
           let free_space = b_endptr st block - b_freeptr st block
           in cbind (alloc_set_free_index sz) (\<lambda>fidx.
             let new_size = push_bit (fidx + ALLOC_MIN_BITS) 1
             in c_assert (new_size \<ge> old_size)
               (let delta = new_size - old_size
                in if free_space \<ge> delta
                   then Inr (Some (st\<lparr>b_freeptr := (b_freeptr st)(block := b_freeptr st block + delta),
                                     c_size := (c_size st)(chunk := old_size + delta)\<rparr>))
                   else Inr None))
         else Inr None)"

definition alloc_set_realloc ::
  "('h \<Rightarrow> nat \<Rightarrow> nat \<times> 'h) \<Rightarrow> ('h \<Rightarrow> nat \<Rightarrow> 'h) \<Rightarrow> ('h \<Rightarrow> nat \<Rightarrow> nat \<Rightarrow> nat \<times> 'h) \<Rightarrow> 'h AllocSetContext \<Rightarrow> nat \<Rightarrow> nat \<Rightarrow>
   (nat \<times> 'h AllocSetContext) cres option" where
  "alloc_set_realloc malloc mfree mrealloc st pointer sz =
     (let chunk = ALLOC_POINTER_GET_CHUNK pointer; old_size = c_size st chunk
      in if old_size \<ge> sz then Some (Inr (pointer, st))
         else if old_size > ALLOC_CHUNK_LIMIT then realloc_large mrealloc st chunk sz
         else case enlarge_in_place st chunk sz of
           Inl e \<Rightarrow> Some (Inl e)
         | Inr (Some st1) \<Rightarrow> Some (Inr (pointer, st1))
         | Inr None \<Rightarrow>
             (case alloc_set_alloc malloc st sz of None \<Rightarrow> None
              | Some (Inl e) \<Rightarrow> Some (Inl e)
              | Some (Inr (new_pointer, st1)) \<Rightarrow>
                  let st2 = st1\<lparr>dat := memmove (dat st1) new_pointer pointer old_size\<rparr>
                  in (case alloc_set_free mfree st2 pointer of None \<Rightarrow> None
                      | Some (Inl e) \<Rightarrow> Some (Inl e)
                      | Some (Inr st3) \<Rightarrow> Some (Inr (new_pointer, st3)))))"

section \<open>Reset and deletion\<close>

text \<open>The loop over the old block list in \<open>alloc_set_reset\<close>.\<close>

partial_function (option) reset_blocks ::
  "('h \<Rightarrow> nat \<Rightarrow> 'h) \<Rightarrow> 'h AllocSetContext \<Rightarrow> nat \<Rightarrow> 'h AllocSetContext option" where
  "reset_blocks mfree st block =
     (if block \<noteq> 0 then
        let nxt = b_next st block
        in if block = keeper st
           then reset_blocks mfree
                  (st\<lparr>b_freeptr := (b_freeptr st)(block := block + ALLOC_BLOCK_HDR_SZ), b_next := (b_next st)(block := 0)\<rparr>) nxt
           else reset_blocks mfree (st\<lparr>os_heap := mfree (os_heap st) block\<rparr>) nxt
      else Some st)"

definition alloc_set_reset :: "('h \<Rightarrow> nat \<Rightarrow> 'h) \<Rightarrow> 'h AllocSetContext \<Rightarrow> 'h AllocSetContext option" where
  "alloc_set_reset mfree st =
     reset_blocks mfree (st\<lparr>freelist := (\<lambda>_. 0), set_blocks := keeper st\<rparr>) (set_blocks st)"

partial_function (option) delete_blocks ::
  "('h \<Rightarrow> nat \<Rightarrow> 'h) \<Rightarrow> 'h AllocSetContext \<Rightarrow> nat \<Rightarrow> 'h AllocSetContext option" where
  "delete_blocks mfree st block =
     (if block \<noteq> 0 then delete_blocks mfree (st\<lparr>os_heap := mfree (os_heap st) block\<rparr>) (b_next st block) else Some st)"

definition alloc_set_delete :: "('h \<Rightarrow> nat \<Rightarrow> 'h) \<Rightarrow> 'h AllocSetContext \<Rightarrow> 'h AllocSetContext option" where
  "alloc_set_delete mfree st =
     delete_blocks mfree (st\<lparr>freelist := (\<lambda>_. 0), set_blocks := 0, keeper := 0\<rparr>) (set_blocks st)"

declare find_free.simps [code] find_block.simps [code] reset_blocks.simps [code] delete_blocks.simps [code]

section \<open>Size classes\<close>

lemma free_index_loop_spec: "free_index_loop idx n = idx + (LEAST k. n < 2 ^ k)"
proof (induction idx n rule: free_index_loop.induct)
  case (1 idx n)
  show ?case
  proof (cases "n = 0")
    case True
    then have "(LEAST k. n < 2 ^ k) = 0" by (simp add: Least_eq_0)
    then show ?thesis using True by (simp add: free_index_loop.simps)
  next
    case False
    have "\<exists>k. n < 2 ^ k" by (rule exI [of _ n]) (rule less_exp)
    then have "(LEAST k. n < 2 ^ k) = Suc (LEAST k. n < 2 ^ Suc k)"
      using False by (intro Least_Suc) (auto intro: LeastI2_ex)
    moreover have "(n < 2 ^ Suc k) = (n div 2 < 2 ^ k)" for k by auto
    ultimately show ?thesis using False 1 by (subst free_index_loop.simps) (simp add: drop_bit_eq_div)
  qed
qed

lemma free_index_least: "(n div 16 < 2 ^ k) = (n < 2 ^ (k + 4))" for n k :: nat
proof -
  have "n < 2 ^ (k + 4) \<longleftrightarrow> n < 2 ^ k * 16" by (simp add: power_add)
  also have "\<dots> \<longleftrightarrow> n div 16 < 2 ^ k" by (rule div_less_iff_less_mult [symmetric]) simp
  finally show ?thesis ..
qed

lemma free_index_val:
  assumes "0 < sz"
  shows "free_index_loop 0 (drop_bit 4 (sz - 1)) = (LEAST k. sz \<le> 2 ^ (k + 4))"
proof -
  have "((sz - 1) div 16 < 2 ^ k) = (sz \<le> 2 ^ (k + 4))" for k
    using free_index_least [of "sz - 1" k] assms by linarith
  then show ?thesis by (simp add: free_index_loop_spec drop_bit_eq_div)
qed

lemma size_class:
  assumes "sz \<le> 8192"
  shows "\<exists>k < 10. alloc_set_free_index sz = Inr k \<and> sz \<le> 2 ^ (k + 4) \<and> (\<forall>j < k. 2 ^ (j + 4) < sz)"
proof (cases "sz = 0")
  case True
  then show ?thesis by (simp add: alloc_set_free_index_def)
next
  case False
  let ?k = "LEAST k. sz \<le> 2 ^ (k + 4)"
  have e: "sz \<le> 2 ^ (9 + 4)" using assms by simp
  have "?k \<le> 9" by (rule Least_le) (rule e)
  moreover have "sz \<le> 2 ^ (?k + 4)" by (rule LeastI [of "\<lambda>k. sz \<le> 2 ^ (k + 4)"]) (rule e)
  moreover have "2 ^ (j + 4) < sz" if "j < ?k" for j using not_less_Least [OF that] by simp
  moreover have "alloc_set_free_index sz = Inr ?k"
    using False calculation(1) free_index_val [of sz] by (simp add: alloc_set_free_index_def)
  ultimately show ?thesis by (intro exI [of _ ?k]) auto
qed

lemma size_class_pow2:
  assumes "k < 10"
  shows "alloc_set_free_index (2 ^ (k + 4)) = Inr k"
proof -
  have "(2 :: nat) ^ (k + 4) \<le> 2 ^ 13" using assms by (intro power_increasing) auto
  then obtain j where j: "alloc_set_free_index (2 ^ (k + 4)) = Inr j" "(2 :: nat) ^ (k + 4) \<le> 2 ^ (j + 4)"
    "\<forall>i < j. (2 :: nat) ^ (i + 4) < 2 ^ (k + 4)"
    using size_class [of "2 ^ (k + 4)"] by auto
  have "k \<le> j" using j(2) by (simp add: power_increasing_iff)
  moreover have "\<not> k < j" using j(3) by (auto dest: spec [of _ k])
  ultimately show ?thesis using j(1) by simp
qed

lemma carve_class_ok:
  assumes "16 \<le> n" "n \<le> 8192"
  shows "\<exists>k < 10. carve_class n = Inr (k, 2 ^ (k + 4)) \<and> 2 ^ (k + 4) \<le> n"
proof -
  obtain k where k: "k < 10" "alloc_set_free_index n = Inr k" "n \<le> 2 ^ (k + 4)" "\<forall>j < k. 2 ^ (j + 4) < n"
    using size_class [OF assms(2)] by blast
  show ?thesis
  proof (cases "n = 2 ^ (k + 4)")
    case True
    then show ?thesis using k by (intro exI [of _ k]) (simp add: carve_class_def push_bit_eq_mult)
  next
    case False
    then have "k \<noteq> 0" using k(3) assms(1) by (cases k) auto
    then have "2 ^ (k - 1 + 4) < n" using k(4) by (metis diff_less not_gr_zero zero_less_one)
    then show ?thesis using False k \<open>k \<noteq> 0\<close>
      by (intro exI [of _ "k - 1"]) (simp add: carve_class_def push_bit_eq_mult)
  qed
qed

section \<open>Tilings\<close>

text \<open>\<open>tile csz a cs e\<close>: the chunks \<open>cs\<close>, with their headers, fill the addresses from \<open>a\<close> to \<open>e\<close>.\<close>

fun tile :: "(nat \<Rightarrow> nat) \<Rightarrow> nat \<Rightarrow> nat list \<Rightarrow> nat \<Rightarrow> bool" where
  "tile csz a [] e = (a = e)"
| "tile csz a (c # cs) e = (c = a \<and> tile csz (a + 16 + csz a) cs e)"

lemma tile_cong: "(\<And>c. c \<in> set cs \<Longrightarrow> csz' c = csz c) \<Longrightarrow> tile csz' a cs e = tile csz a cs e"
  by (induction cs arbitrary: a) auto

lemma tile_le: "tile csz a cs e \<Longrightarrow> a \<le> e"
  by (induction cs arbitrary: a) fastforce+

lemma tile_range: "tile csz a cs e \<Longrightarrow> c \<in> set cs \<Longrightarrow> a \<le> c \<and> c + 16 + csz c \<le> e"
proof (induction cs arbitrary: a)
  case (Cons x xs)
  then show ?case using tile_le [of csz "a + 16 + csz a" xs e] by fastforce
qed simp

lemma tile_snoc: "tile csz a (cs @ [c]) e \<longleftrightarrow> tile csz a cs c \<and> e = c + 16 + csz c"
  by (induction cs arbitrary: a) auto

lemma tile_disjoint:
  "tile csz a cs e \<Longrightarrow> c \<in> set cs \<Longrightarrow> d \<in> set cs \<Longrightarrow> c \<noteq> d \<Longrightarrow> c + 16 + csz c \<le> d \<or> d + 16 + csz d \<le> c"
proof (induction cs arbitrary: a)
  case (Cons x xs)
  then show ?case using tile_range [of csz "a + 16 + csz a" xs e] by fastforce
qed simp

lemma tile_distinct: "tile csz a cs e \<Longrightarrow> distinct cs"
proof (induction cs arbitrary: a)
  case (Cons x xs)
  then show ?case using tile_range [of csz "a + 16 + csz a" xs e a] by fastforce
qed simp

section \<open>The invariant\<close>

text \<open>
  \<open>hb\<close> maps the live blocks of \<open>malloc\<close> to their sizes, \<open>chs b\<close> are the chunks of the block \<open>b\<close>.
  A block lies in memory that \<open>malloc\<close> gave out, its chunks fill it up to \<open>freeptr\<close>, and each chunk
  has one of the ten sizes or is alone in a block without free space.
\<close>

definition chunk_ok :: "'h AllocSetContext \<Rightarrow> (nat \<Rightarrow> nat list) \<Rightarrow> nat \<Rightarrow> nat \<Rightarrow> bool" where
  "chunk_ok st chs b c \<longleftrightarrow> (\<exists>k < 10. c_size st c = 2 ^ (k + 4)) \<or>
     (8192 < c_size st c \<and> 16 dvd c_size st c \<and> chs b = [c] \<and> b_freeptr st b = b_endptr st b)"

definition blk_ok :: "(nat \<rightharpoonup> nat) \<Rightarrow> 'h AllocSetContext \<Rightarrow> (nat \<Rightarrow> nat list) \<Rightarrow> nat \<Rightarrow> bool" where
  "blk_ok hb st chs b \<longleftrightarrow> 16 dvd b \<and> (\<exists>m. hb b = Some m \<and> b_endptr st b \<le> b + m) \<and>
     b_freeptr st b \<le> b_endptr st b \<and> tile (c_size st) (b + 32) (chs b) (b_freeptr st b) \<and>
     (\<forall>c \<in> set (chs b). chunk_ok st chs b c)"

definition blks_ok :: "(nat \<rightharpoonup> nat) \<Rightarrow> 'h AllocSetContext \<Rightarrow> nat list \<Rightarrow> (nat \<Rightarrow> nat list) \<Rightarrow> bool" where
  "blks_ok hb st bs chs \<longleftrightarrow> path (b_next st) (set_blocks st) bs \<and> distinct bs \<and>
     (\<forall>b \<in> set bs. blk_ok hb st chs b) \<and>
     (\<forall>b \<in> set bs. \<forall>b' \<in> set bs. b \<noteq> b' \<longrightarrow> b_endptr st b \<le> b' \<or> b_endptr st b' \<le> b) \<and>
     (keeper st \<noteq> 0 \<longrightarrow> keeper st \<in> set bs \<and> (\<forall>c \<in> set (chs (keeper st)). c_size st c \<le> 8192))"

text \<open>
  Free list \<open>k\<close> links the chunks \<open>fl k\<close>, all of size \<open>2^(k+4)\<close>; a chunk on no list belongs to its set.
\<close>

definition fls_ok :: "'h AllocSetContext \<Rightarrow> nat set \<Rightarrow> (nat \<Rightarrow> nat list) \<Rightarrow> bool" where
  "fls_ok st C fl \<longleftrightarrow>
     (\<forall>k < 10. path (c_aset st) (freelist st k) (fl k) \<and> distinct (fl k) \<and>
        (\<forall>c \<in> set (fl k). c \<in> C \<and> c_size st c = 2 ^ (k + 4))) \<and>
     (\<forall>c \<in> C. (\<forall>k < 10. c \<notin> set (fl k)) \<longrightarrow> c_aset st c = set_addr st)"

definition chunks :: "nat list \<Rightarrow> (nat \<Rightarrow> nat list) \<Rightarrow> nat set" where
  "chunks bs chs = (\<Union>b \<in> set bs. set (chs b))"

definition as_ok ::
  "(nat \<rightharpoonup> nat) \<Rightarrow> 'h AllocSetContext \<Rightarrow> nat list \<Rightarrow> (nat \<Rightarrow> nat list) \<Rightarrow> (nat \<Rightarrow> nat list) \<Rightarrow> bool" where
  "as_ok hb st bs chs fl \<longleftrightarrow> blks_ok hb st bs chs \<and> fls_ok st (chunks bs chs) fl"

text \<open>The chunks in use.\<close>

definition live :: "nat list \<Rightarrow> (nat \<Rightarrow> nat list) \<Rightarrow> (nat \<Rightarrow> nat list) \<Rightarrow> nat set" where
  "live bs chs fl = {c \<in> chunks bs chs. \<forall>k < 10. c \<notin> set (fl k)}"

lemma chunksI: "b \<in> set bs \<Longrightarrow> c \<in> set (chs b) \<Longrightarrow> c \<in> chunks bs chs"
  by (auto simp: chunks_def)

lemma chunksE: "c \<in> chunks bs chs \<Longrightarrow> (\<And>b. b \<in> set bs \<Longrightarrow> c \<in> set (chs b) \<Longrightarrow> P) \<Longrightarrow> P"
  by (auto simp: chunks_def)

lemma blks_path: "blks_ok hb st bs chs \<Longrightarrow> path (b_next st) (set_blocks st) bs"
  and blks_distinct: "blks_ok hb st bs chs \<Longrightarrow> distinct bs"
  and blks_blk: "blks_ok hb st bs chs \<Longrightarrow> b \<in> set bs \<Longrightarrow> blk_ok hb st chs b"
  and blks_disj: "blks_ok hb st bs chs \<Longrightarrow> b \<in> set bs \<Longrightarrow> b' \<in> set bs \<Longrightarrow> b \<noteq> b' \<Longrightarrow>
    b_endptr st b \<le> b' \<or> b_endptr st b' \<le> b"
  by (simp_all add: blks_ok_def)

lemma blk_tile: "blk_ok hb st chs b \<Longrightarrow> tile (c_size st) (b + 32) (chs b) (b_freeptr st b)"
  and blk_free_end: "blk_ok hb st chs b \<Longrightarrow> b_freeptr st b \<le> b_endptr st b"
  and blk_chunk: "blk_ok hb st chs b \<Longrightarrow> c \<in> set (chs b) \<Longrightarrow> chunk_ok st chs b c"
  and blk_aligned: "blk_ok hb st chs b \<Longrightarrow> 16 dvd b"
  by (simp_all add: blk_ok_def)

lemma chunk_range:
  assumes "blk_ok hb st chs b" "c \<in> set (chs b)"
  shows "b + 32 \<le> c" "c + 16 + c_size st c \<le> b_freeptr st b" "c + 16 + c_size st c \<le> b_endptr st b"
  using tile_range [OF blk_tile [OF assms(1)] assms(2)] blk_free_end [OF assms(1)] by auto

lemma blk_start: "blk_ok hb st chs b \<Longrightarrow> b + 32 \<le> b_freeptr st b"
  using tile_le blk_tile by blast

text \<open>An address in the free space of a block, or outside all blocks, is the address of no chunk.\<close>

lemma free_space_no_chunk:
  assumes "blks_ok hb st bs chs" "b \<in> set bs" "b_freeptr st b \<le> a" "a < b_endptr st b"
  shows "a \<notin> chunks bs chs"
proof
  assume "a \<in> chunks bs chs"
  then obtain b' where b': "b' \<in> set bs" "a \<in> set (chs b')" by (rule chunksE)
  have r: "b' + 32 \<le> a" "a + 16 + c_size st a \<le> b_freeptr st b'" "a + 16 + c_size st a \<le> b_endptr st b'"
    using chunk_range [OF blks_blk [OF assms(1) b'(1)] b'(2)] by auto
  have "b + 32 \<le> b_freeptr st b" using blk_start [OF blks_blk [OF assms(1,2)]] .
  moreover have "b \<noteq> b'" using r(2) assms(3) by auto
  ultimately show False using blks_disj [OF assms(1,2) b'(1)] r assms(3,4) by linarith
qed

lemma outside_no_chunk:
  assumes "blks_ok hb st bs chs" "\<forall>b \<in> set bs. a < b \<or> b_endptr st b \<le> a"
  shows "a \<notin> chunks bs chs"
proof
  assume "a \<in> chunks bs chs"
  then obtain b where b: "b \<in> set bs" "a \<in> set (chs b)" by (rule chunksE)
  show False using chunk_range [OF blks_blk [OF assms(1) b(1)] b(2)] assms(2) b(1) by fastforce
qed

lemma blk_ok_cong:
  assumes "blk_ok hb st chs b" "hb' b = hb b" "chs' b = chs b" "b_freeptr st' b = b_freeptr st b"
    "b_endptr st' b = b_endptr st b" "\<And>c. c \<in> set (chs b) \<Longrightarrow> c_size st' c = c_size st c"
  shows "blk_ok hb' st' chs' b"
proof -
  have "tile (c_size st') (b + 32) (chs b) (b_freeptr st b)"
    using blk_tile [OF assms(1)] tile_cong [of "chs b" "c_size st'" "c_size st"] assms(6) by blast
  then show ?thesis using assms by (simp add: blk_ok_def chunk_ok_def)
qed

lemma chunk_owner:
  assumes "blks_ok hb st bs chs" "b \<in> set bs" "b' \<in> set bs" "c \<in> set (chs b)" "c \<in> set (chs b')"
  shows "b = b'"
proof (rule ccontr)
  assume "b \<noteq> b'"
  then show False
    using blks_disj [OF assms(1-3)] chunk_range [OF blks_blk [OF assms(1,2)] assms(4)]
      chunk_range [OF blks_blk [OF assms(1,3)] assms(5)] by linarith
qed

lemma chunks_apart:
  assumes "blks_ok hb st bs chs" "c \<in> chunks bs chs" "d \<in> chunks bs chs" "c \<noteq> d"
  shows "c + 16 + c_size st c \<le> d \<or> d + 16 + c_size st d \<le> c"
proof -
  obtain b b' where b: "b \<in> set bs" "c \<in> set (chs b)" "b' \<in> set bs" "d \<in> set (chs b')"
    using assms(2,3) by (blast elim: chunksE)
  show ?thesis
  proof (cases "b = b'")
    case True
    then show ?thesis using tile_disjoint [OF blk_tile [OF blks_blk [OF assms(1) b(1)]]] b assms(4) by blast
  next
    case False
    then show ?thesis
      using blks_disj [OF assms(1) b(1,3)] chunk_range [OF blks_blk [OF assms(1) b(1)] b(2)]
        chunk_range [OF blks_blk [OF assms(1) b(3)] b(4)] by linarith
  qed
qed

lemma chunk_aligned: "tile csz a cs e \<Longrightarrow> 16 dvd a \<Longrightarrow> (\<And>c. c \<in> set cs \<Longrightarrow> 16 dvd csz c) \<Longrightarrow> c \<in> set cs \<Longrightarrow> 16 dvd c"
  by (induction cs arbitrary: a) (auto simp: dvd_add)

section \<open>Steps of the invariant\<close>

lemma chunks_upd: "b \<in> set bs \<Longrightarrow> chunks bs (chs(b := chs b @ [a])) = insert a (chunks bs chs)"
  by (auto simp: chunks_def split: if_splits)

lemma blks_add_chunk:
  assumes ok: "blks_ok hb st bs chs" and b: "b \<in> set bs" and k: "k < 10"
    and room: "b_freeptr st b + 16 + 2 ^ (k + 4) \<le> b_endptr st b"
    and st': "set_blocks st' = set_blocks st" "b_next st' = b_next st" "b_endptr st' = b_endptr st"
      "keeper st' = keeper st" "b_freeptr st' = (b_freeptr st)(b := b_freeptr st b + 16 + 2 ^ (k + 4))"
      "c_size st' = (c_size st)(b_freeptr st b := 2 ^ (k + 4))"
  shows "blks_ok hb st' bs (chs(b := chs b @ [b_freeptr st b]))"
proof -
  let ?a = "b_freeptr st b" and ?s = "2 ^ (k + 4) :: nat" and ?chs = "chs(b := chs b @ [b_freeptr st b])"
  have new: "?a \<notin> chunks bs chs" using free_space_no_chunk [OF ok b] room by simp
  have sz: "c_size st' c = c_size st c" if "b' \<in> set bs" "c \<in> set (chs b')" for b' c
    using new chunksI [of b' bs c chs] that by (auto simp: st')
  have small: "\<exists>j < 10. c_size st c = 2 ^ (j + 4)" if "c \<in> set (chs b)" for c
    using blk_chunk [OF blks_blk [OF ok b] that] room by (auto simp: chunk_ok_def)
  have "tile (c_size st') (b + 32) (chs b) ?a"
    using blk_tile [OF blks_blk [OF ok b]] tile_cong [of "chs b" "c_size st'" "c_size st"] sz [OF b] by blast
  then have t: "tile (c_size st') (b + 32) (chs b @ [?a]) (?a + 16 + ?s)" by (simp add: tile_snoc st')
  have cb: "chunk_ok st' ?chs b c" if "c \<in> set (chs b @ [?a])" for c
    using that small [of c] k by (cases "c = ?a") (auto simp: chunk_ok_def st')
  have "blk_ok hb st' ?chs b"
    using blks_blk [OF ok b] room t cb by (simp add: blk_ok_def st'(3,5))
  moreover have "blk_ok hb st' ?chs b'" if "b' \<in> set bs" "b' \<noteq> b" for b'
    using that sz by (intro blk_ok_cong [OF blks_blk [OF ok that(1)]]) (simp_all add: st'(3,5))
  ultimately have all: "\<forall>b' \<in> set bs. blk_ok hb st' ?chs b'" by blast
  have "?s \<le> 2 ^ 13" using k by (intro power_increasing) auto
  then have "keeper st \<noteq> 0 \<longrightarrow> keeper st \<in> set bs \<and> (\<forall>c \<in> set (?chs (keeper st)). c_size st' c \<le> 8192)"
    using ok by (auto simp: blks_ok_def st'(6))
  then show ?thesis using ok all by (simp add: blks_ok_def st'(1-4))
qed

lemma fls_live:
  assumes ok: "fls_ok st C fl" and a: "a \<notin> C"
    and st': "freelist st' = freelist st" "c_aset st' = (c_aset st)(a := set_addr st)" "set_addr st' = set_addr st"
      "\<And>c. c \<noteq> a \<Longrightarrow> c_size st' c = c_size st c"
  shows "fls_ok st' (insert a C) fl"
proof -
  have out: "a \<notin> set (fl k)" if "k < 10" for k using ok a that by (auto simp: fls_ok_def)
  have "path (c_aset st') (freelist st k) (fl k) = path (c_aset st) (freelist st k) (fl k)" if "k < 10" for k
    using out [OF that] by (intro path_cong) (auto simp: st')
  moreover have "c_size st' c = c_size st c" if "k < 10" "c \<in> set (fl k)" for k c
    using out [OF that(1)] that(2) st'(4) by metis
  ultimately show ?thesis using ok by (auto simp: fls_ok_def st'(1-3))
qed

lemma fls_push:
  assumes ok: "fls_ok st C fl" and a: "\<forall>j < 10. a \<notin> set (fl j)" "a \<noteq> 0" and k: "k < 10" "c_size st' a = 2 ^ (k + 4)"
    and st': "freelist st' = (freelist st)(k := a)" "c_aset st' = (c_aset st)(a := freelist st k)"
      "set_addr st' = set_addr st" "\<And>c. c \<noteq> a \<Longrightarrow> c_size st' c = c_size st c"
  shows "fls_ok st' (insert a C) (fl(k := a # fl k))"
proof -
  have p: "path (c_aset st') (freelist st j) (fl j) = path (c_aset st) (freelist st j) (fl j)" if "j < 10" for j
    using a(1) that by (intro path_cong) (auto simp: st')
  have sz: "c_size st' c = c_size st c" if "j < 10" "c \<in> set (fl j)" for j c
    using a(1) that st'(4) by metis
  have "path (c_aset st') (freelist st' j) ((fl(k := a # fl k)) j) \<and> distinct ((fl(k := a # fl k)) j) \<and>
      (\<forall>c \<in> set ((fl(k := a # fl k)) j). c \<in> insert a C \<and> c_size st' c = 2 ^ (j + 4))" if j: "j < 10" for j
    using ok j k a p [OF j] sz [OF j] by (auto simp: fls_ok_def st'(1,2))
  moreover have "c_aset st' c = set_addr st'" if c: "c \<in> insert a C" and n: "\<forall>j < 10. c \<notin> set ((fl(k := a # fl k)) j)" for c
  proof -
    have "c \<notin> set (a # fl k)" using n k(1) by (metis fun_upd_same)
    moreover have "c \<notin> set (fl j)" if "j < 10" for j using n that by (cases "j = k") (auto dest!: spec [of _ j])
    ultimately show ?thesis using ok c by (auto simp: fls_ok_def st'(2,3))
  qed
  ultimately show ?thesis by (simp add: fls_ok_def)
qed

lemma fls_pop:
  assumes ok: "fls_ok st C fl" and k: "k < 10" "fl k = a # zs"
    and st': "freelist st' = (freelist st)(k := c_aset st a)" "c_aset st' = (c_aset st)(a := set_addr st)"
      "set_addr st' = set_addr st" "c_size st' = c_size st"
  shows "fls_ok st' C (fl(k := zs))" "a \<in> C" "\<forall>j < 10. a \<notin> set ((fl(k := zs)) j)"
    "freelist st k = a" "a \<noteq> 0" "c_size st a = 2 ^ (k + 4)"
proof -
  have K: "path (c_aset st) (freelist st k) (a # zs)" "distinct (a # zs)" "\<forall>c \<in> set (a # zs). c \<in> C \<and> c_size st c = 2 ^ (k + 4)"
    using ok k by (auto simp: fls_ok_def)
  show "freelist st k = a" "a \<noteq> 0" "c_size st a = 2 ^ (k + 4)" "a \<in> C" using K by auto
  have out: "a \<notin> set (fl j)" if "j < 10" "j \<noteq> k" for j
  proof
    assume "a \<in> set (fl j)"
    then have "(2 :: nat) ^ (j + 4) = 2 ^ (k + 4)" using ok that(1) K(3) by (auto simp: fls_ok_def)
    then show False using that(2) by simp
  qed
  show n: "\<forall>j < 10. a \<notin> set ((fl(k := zs)) j)" using out K(2) by auto
  have p: "path (c_aset st') i ((fl(k := zs)) j) = path (c_aset st) i ((fl(k := zs)) j)" if "j < 10" for i j
    using n that by (intro path_cong) (auto simp: st')
  have "path (c_aset st') (freelist st' j) ((fl(k := zs)) j) \<and> distinct ((fl(k := zs)) j) \<and>
      (\<forall>c \<in> set ((fl(k := zs)) j). c \<in> C \<and> c_size st' c = 2 ^ (j + 4))" if j: "j < 10" for j
    unfolding p [OF j] using ok j K by (auto simp: fls_ok_def st')
  moreover have "c_aset st' c = set_addr st'" if c: "c \<in> C" and nj: "\<forall>j < 10. c \<notin> set ((fl(k := zs)) j)" for c
  proof (cases "c = a")
    case False
    then have "c \<notin> set (fl j)" if "j < 10" for j using nj that k(2) by (cases "j = k") (auto dest!: spec [of _ j])
    then show ?thesis using ok c False by (auto simp: fls_ok_def st')
  qed (simp add: st')
  ultimately show "fls_ok st' C (fl(k := zs))" by (simp add: fls_ok_def)
qed

lemma live_new_free:
  "b \<in> set bs \<Longrightarrow> a \<notin> chunks bs chs \<Longrightarrow> k < 10 \<Longrightarrow> live bs (chs(b := chs b @ [a])) (fl(k := a # fl k)) = live bs chs fl"
  by (auto simp: live_def chunks_upd split: if_splits)

lemma live_push: "k < 10 \<Longrightarrow> live bs chs (fl(k := a # fl k)) = live bs chs fl - {a}"
  by (auto simp: live_def split: if_splits)

lemma live_pop:
  assumes "k < 10" "fl k = a # zs" "a \<in> chunks bs chs" "\<forall>j < 10. a \<notin> set ((fl(k := zs)) j)"
  shows "live bs chs (fl(k := zs)) = insert a (live bs chs fl)" "a \<notin> live bs chs fl"
proof -
  have "c \<in> set (fl j) \<longleftrightarrow> c \<in> set ((fl(k := zs)) j) \<or> (j = k \<and> c = a)" for c j
    using assms(2) by auto
  then have "(\<forall>j < 10. c \<notin> set ((fl(k := zs)) j)) \<longleftrightarrow> c = a \<or> (\<forall>j < 10. c \<notin> set (fl j))" for c
    using assms(1,4) by metis
  then show "live bs chs (fl(k := zs)) = insert a (live bs chs fl)" using assms(3) by (auto simp: live_def)
  show "a \<notin> live bs chs fl" using assms(1,2) by (auto simp: live_def)
qed

lemma live_chunks: "c \<in> live bs chs fl \<Longrightarrow> c \<in> chunks bs chs"
  by (simp add: live_def)

lemma fls_not_chunk: "fls_ok st C fl \<Longrightarrow> a \<notin> C \<Longrightarrow> \<forall>j < 10. a \<notin> set (fl j)"
  by (auto simp: fls_ok_def)

text \<open>
  Carving up a block always ends, keeps the invariant and the chunks in use, and leaves less than the
  smallest chunk of free space.
\<close>

lemma carve_ok:
  assumes "as_ok hb st bs chs fl" "b \<in> set bs" "avail = b_endptr st b - b_freeptr st b" "avail \<le> 8192 + 16"
  shows "\<exists>st' chs' fl'. carve st b avail = Inr st' \<and> as_ok hb st' bs chs' fl' \<and> live bs chs' fl' = live bs chs fl \<and>
    (\<forall>c \<in> chunks bs chs. c_size st' c = c_size st c) \<and> b_endptr st' b - b_freeptr st' b < 32 \<and>
    st' = st\<lparr>b_freeptr := b_freeptr st', c_size := c_size st', c_aset := c_aset st', freelist := freelist st'\<rparr>"
  using assms
proof (induction avail arbitrary: st chs fl rule: less_induct)
  case (less avail)
  show ?case
  proof (cases "avail < 32")
    case True
    then show ?thesis using less.prems by (intro exI [of _ st] exI [of _ chs] exI [of _ fl]) (simp add: carve.simps)
  next
    case False
    obtain k where k: "k < 10" "carve_class (avail - 16) = Inr (k, 2 ^ (k + 4))" "2 ^ (k + 4) \<le> avail - 16"
    proof -
      have "16 \<le> avail - 16" "avail - 16 \<le> 8192" using False less.prems(4) by auto
      then show ?thesis using carve_class_ok [of "avail - 16"] that by blast
    qed
    define a where "a = b_freeptr st b"
    define s where "s = (2 :: nat) ^ (k + 4)"
    define st1 where "st1 = st\<lparr>b_freeptr := (b_freeptr st)(b := a + (s + 16)), c_size := (c_size st)(a := s),
      c_aset := (c_aset st)(a := freelist st k), freelist := (freelist st)(k := a)\<rparr>"
    have B: "blks_ok hb st bs chs" and F: "fls_ok st (chunks bs chs) fl" using less.prems(1) by (auto simp: as_ok_def)
    have s: "0 < s" "s \<le> avail - 16" using k(3) by (auto simp: s_def)
    have room: "b_freeptr st b + 16 + 2 ^ (k + 4) \<le> b_endptr st b"
      using k(3) False less.prems(3) by linarith
    have a: "a \<notin> chunks bs chs" using free_space_no_chunk [OF B less.prems(2)] room by (simp add: a_def)
    have "a \<noteq> 0" using blk_start [OF blks_blk [OF B less.prems(2)]] by (simp add: a_def)
    have "blks_ok hb st1 bs (chs(b := chs b @ [a]))"
      unfolding a_def by (rule blks_add_chunk [OF B less.prems(2) k(1) room]) (simp_all add: st1_def a_def s_def ac_simps)
    moreover have "fls_ok st1 (insert a (chunks bs chs)) (fl(k := a # fl k))"
      by (rule fls_push [OF F fls_not_chunk [OF F a] \<open>a \<noteq> 0\<close> k(1)]) (simp_all add: st1_def s_def)
    ultimately have ok1: "as_ok hb st1 bs (chs(b := chs b @ [a])) (fl(k := a # fl k))"
      by (simp add: as_ok_def chunks_upd [OF less.prems(2)])
    have step: "carve st b avail = carve st1 b (avail - (s + 16))"
      using False k(2) by (subst carve.simps) (simp add: st1_def a_def s_def Let_def)
    have "avail - (s + 16) < avail" "avail - (s + 16) \<le> 8192 + 16" using False less.prems(4) s by auto
    moreover have "avail - (s + 16) = b_endptr st1 b - b_freeptr st1 b"
      using less.prems(3) by (simp add: st1_def a_def)
    ultimately obtain st' chs' fl' where IH: "carve st1 b (avail - (s + 16)) = Inr st'" "as_ok hb st' bs chs' fl'"
      "live bs chs' fl' = live bs (chs(b := chs b @ [a])) (fl(k := a # fl k))"
      "\<forall>c \<in> chunks bs (chs(b := chs b @ [a])). c_size st' c = c_size st1 c" "b_endptr st' b - b_freeptr st' b < 32"
      "st' = st1\<lparr>b_freeptr := b_freeptr st', c_size := c_size st', c_aset := c_aset st', freelist := freelist st'\<rparr>"
      using less.IH [OF _ ok1 less.prems(2)] by blast
    have "live bs chs' fl' = live bs chs fl" using IH(3) live_new_free [OF less.prems(2) a k(1)] by simp
    moreover have "c_size st' c = c_size st c" if "c \<in> chunks bs chs" for c
      using IH(4) that a chunks_upd [OF less.prems(2), of chs a] by (auto simp: st1_def)
    moreover have "st' = st\<lparr>b_freeptr := b_freeptr st', c_size := c_size st', c_aset := c_aset st', freelist := freelist st'\<rparr>"
      by (subst IH(6)) (simp add: st1_def)
    ultimately show ?thesis using IH(1,2,5) step by (intro exI [of _ st'] exI [of _ chs'] exI [of _ fl'] conjI) auto
  qed
qed

text \<open>A new block is put into the list, a block is taken out of it.\<close>

lemma blks_insert:
  assumes ok: "blks_ok hb st (ys @ zs) chs" and p: "path (b_next st') (set_blocks st') (ys @ b # zs)"
    and fresh: "hb b = None" and new: "blk_ok (hb(b \<mapsto> m)) st' (chs(b := cs)) b" "b_endptr st' b \<le> b + m"
    and disj: "\<And>x n. hb x = Some n \<Longrightarrow> {b..<b + m} \<inter> {x..<x + n} = {}"
    and st': "keeper st' = keeper st" "\<And>x. x \<noteq> b \<Longrightarrow> b_freeptr st' x = b_freeptr st x"
      "\<And>x. x \<noteq> b \<Longrightarrow> b_endptr st' x = b_endptr st x"
      "\<And>c. c \<in> chunks (ys @ zs) chs \<Longrightarrow> c_size st' c = c_size st c"
  shows "blks_ok (hb(b \<mapsto> m)) st' (ys @ b # zs) (chs(b := cs))"
    "chunks (ys @ b # zs) (chs(b := cs)) = set cs \<union> chunks (ys @ zs) chs"
proof -
  have ne: "b \<notin> set (ys @ zs)" using blks_blk [OF ok, of b] fresh by (auto simp: blk_ok_def)
  show "chunks (ys @ b # zs) (chs(b := cs)) = set cs \<union> chunks (ys @ zs) chs"
    using ne by (auto simp: chunks_def split: if_splits)
  have old: "blk_ok (hb(b \<mapsto> m)) st' (chs(b := cs)) x" if x: "x \<in> set (ys @ zs)" for x
    using ne x st'(4) chunksI [OF x] by (intro blk_ok_cong [OF blks_blk [OF ok x]]) (auto intro: st'(2,3))
  have bx: "b_endptr st' b \<le> x \<or> b_endptr st' x \<le> b" if x: "x \<in> set (ys @ zs)" for x
  proof -
    obtain n where n: "hb x = Some n" "b_endptr st x \<le> x + n" using blks_blk [OF ok x] by (auto simp: blk_ok_def)
    have "x + 32 \<le> b_endptr st x" "b + 32 \<le> b_endptr st' b"
      using blk_start [OF blks_blk [OF ok x]] blk_free_end [OF blks_blk [OF ok x]] blk_start [OF new(1)]
        blk_free_end [OF new(1)] by auto
    moreover have "b \<notin> {x..<x + n} \<or> b \<notin> {b..<b + m}" "x \<notin> {b..<b + m} \<or> x \<notin> {x..<x + n}" using disj [OF n(1)] by auto
    moreover have "b_endptr st' x = b_endptr st x" using ne x st'(3) by metis
    ultimately show ?thesis using n(2) new(2) by auto
  qed
  have "b_endptr st' x \<le> y \<or> b_endptr st' y \<le> x" if "x \<in> set (ys @ b # zs)" "y \<in> set (ys @ b # zs)" "x \<noteq> y" for x y
  proof (cases "x = b \<or> y = b")
    case True
    then show ?thesis using bx [of x] bx [of y] that by auto
  next
    case False
    then show ?thesis using blks_disj [OF ok, of x y] that st'(3) by auto
  qed
  moreover have "keeper st' \<noteq> 0 \<longrightarrow> keeper st' \<in> set (ys @ b # zs) \<and> (\<forall>c \<in> set ((chs(b := cs)) (keeper st')). c_size st' c \<le> 8192)"
    using ok ne st'(4) chunksI [of "keeper st" "ys @ zs" _ chs] unfolding st'(1) by (auto simp: blks_ok_def)
  ultimately show "blks_ok (hb(b \<mapsto> m)) st' (ys @ b # zs) (chs(b := cs))"
    using p blks_distinct [OF ok] ne old new(1) unfolding blks_ok_def by auto
qed

lemma blks_remove:
  assumes ok: "blks_ok hb st (ys @ b # zs) chs" and p: "path (b_next st') (set_blocks st') (ys @ zs)" and k: "keeper st \<noteq> b"
    and st': "keeper st' = keeper st" "\<And>x. x \<noteq> b \<Longrightarrow> b_freeptr st' x = b_freeptr st x"
      "\<And>x. x \<noteq> b \<Longrightarrow> b_endptr st' x = b_endptr st x"
      "\<And>c. c \<in> chunks (ys @ zs) chs \<Longrightarrow> c_size st' c = c_size st c"
  shows "blks_ok (hb(b := None)) st' (ys @ zs) chs"
    "chunks (ys @ zs) chs = chunks (ys @ b # zs) chs - set (chs b)"
proof -
  have ne: "b \<notin> set (ys @ zs)" using blks_distinct [OF ok] by simp
  have mem: "x \<in> set (ys @ b # zs)" if "x \<in> set (ys @ zs)" for x using that by auto
  have "blk_ok (hb(b := None)) st' chs x" if x: "x \<in> set (ys @ zs)" for x
    using ne x st'(4) chunksI [OF x] by (intro blk_ok_cong [OF blks_blk [OF ok mem [OF x]]]) (auto intro: st'(2,3))
  moreover have "b_endptr st' x \<le> y \<or> b_endptr st' y \<le> x" if "x \<in> set (ys @ zs)" "y \<in> set (ys @ zs)" "x \<noteq> y" for x y
    using blks_disj [OF ok mem [OF that(1)] mem [OF that(2)] that(3)] that ne st'(3) by metis
  moreover have "keeper st' \<noteq> 0 \<longrightarrow> keeper st' \<in> set (ys @ zs) \<and> (\<forall>c \<in> set (chs (keeper st')). c_size st' c \<le> 8192)"
    using ok k st'(4) chunksI [of "keeper st" "ys @ zs" _ chs] unfolding st'(1) by (auto simp: blks_ok_def)
  ultimately show "blks_ok (hb(b := None)) st' (ys @ zs) chs"
    using p blks_distinct [OF ok] by (simp add: blks_ok_def)
  have "set (chs x) \<inter> set (chs b) = {}" if "x \<in> set (ys @ zs)" for x
    using chunk_owner [OF ok mem [OF that], of b] that ne by auto
  then show "chunks (ys @ zs) chs = chunks (ys @ b # zs) chs - set (chs b)" by (auto simp: chunks_def)
qed

section \<open>The malloc interface\<close>

text \<open>
  \<open>malloc\<close>, \<open>free\<close> and \<open>realloc\<close> of the C library: an allocator whose blocks are aligned for any
  type, and \<open>realloc\<close>, which fails and keeps the block, or replaces it by one of the new size.
\<close>

locale aligned_allocator = allocator malloc mfree blocks valid
  for malloc :: "'h \<Rightarrow> nat \<Rightarrow> nat \<times> 'h" and mfree :: "'h \<Rightarrow> nat \<Rightarrow> 'h" and blocks :: "'h \<Rightarrow> nat \<rightharpoonup> nat"
    and valid :: "'h \<Rightarrow> bool" +
  fixes mrealloc :: "'h \<Rightarrow> nat \<Rightarrow> nat \<Rightarrow> nat \<times> 'h"
  assumes malloc_aligned: "valid hp \<Longrightarrow> malloc hp n = (a, hp') \<Longrightarrow> 16 dvd a"
    and realloc_null: "valid hp \<Longrightarrow> blocks hp b = Some m \<Longrightarrow> mrealloc hp b n = (0, hp') \<Longrightarrow> valid hp' \<and> blocks hp' = blocks hp"
    and realloc_block: "valid hp \<Longrightarrow> blocks hp b = Some m \<Longrightarrow> mrealloc hp b n = (a, hp') \<Longrightarrow> a \<noteq> 0 \<Longrightarrow>
      valid hp' \<and> 16 dvd a \<and> ((blocks hp)(b := None)) a = None \<and>
      (\<exists>l \<ge> n. blocks hp' = (blocks hp)(b := None, a \<mapsto> l) \<and>
        (\<forall>x k. x \<noteq> b \<longrightarrow> blocks hp x = Some k \<longrightarrow> {a..<a + l} \<inter> {x..<x + k} = {}))"

text \<open>
  What an allocation of \<open>sz\<close> bytes promises: an aligned pointer \<open>p\<close> to a new chunk of at least that
  size that overlaps no chunk in use, and everything else as it was.
\<close>

definition allocated ::
  "('h \<Rightarrow> nat \<rightharpoonup> nat) \<Rightarrow> ('h \<Rightarrow> bool) \<Rightarrow> 'h AllocSetContext \<Rightarrow> nat list \<Rightarrow> (nat \<Rightarrow> nat list) \<Rightarrow> (nat \<Rightarrow> nat list) \<Rightarrow>
   nat \<Rightarrow> nat \<Rightarrow> 'h AllocSetContext \<Rightarrow> nat list \<Rightarrow> (nat \<Rightarrow> nat list) \<Rightarrow> (nat \<Rightarrow> nat list) \<Rightarrow> bool" where
  "allocated blocks valid st bs chs fl sz p st' bs' chs' fl' \<longleftrightarrow>
     valid (os_heap st') \<and> as_ok (blocks (os_heap st')) st' bs' chs' fl' \<and>
     16 \<le> p \<and> 16 dvd p \<and> sz \<le> c_size st' (p - 16) \<and> c_aset st' (p - 16) = set_addr st \<and>
     p - 16 \<notin> live bs chs fl \<and> live bs' chs' fl' = insert (p - 16) (live bs chs fl) \<and>
     (\<forall>c \<in> live bs chs fl. c_size st' c = c_size st c) \<and>
     blocks (os_heap st) \<subseteq>\<^sub>m blocks (os_heap st') \<and> set_addr st' = set_addr st \<and> keeper st' = keeper st \<and> dat st' = dat st"

lemma pow2_dvd16: "16 dvd (2 :: nat) ^ (k + 4)"
  by (simp add: power_add)

lemma chunk_size_dvd: "chunk_ok st chs b c \<Longrightarrow> 16 dvd c_size st c"
  by (auto simp: chunk_ok_def pow2_dvd16)

lemma blks_chunk_aligned:
  assumes "blks_ok hb st bs chs" "c \<in> chunks bs chs"
  shows "16 dvd c"
proof -
  obtain b where b: "b \<in> set bs" "c \<in> set (chs b)" using assms(2) by (rule chunksE)
  note ok = blks_blk [OF assms(1) b(1)]
  have "16 dvd b + 32" using blk_aligned [OF ok] by (intro dvd_add) auto
  then show ?thesis
    by (rule chunk_aligned [OF blk_tile [OF ok]]) (use b(2) chunk_size_dvd [OF blk_chunk [OF ok]] in auto)
qed

lemma blks_freeptr_aligned:
  assumes "blk_ok hb st chs b"
  shows "16 dvd b_freeptr st b"
proof -
  have "tile csz a cs e \<Longrightarrow> 16 dvd a \<Longrightarrow> (\<And>c. c \<in> set cs \<Longrightarrow> 16 dvd csz c) \<Longrightarrow> 16 dvd e" for csz a cs e
    by (induction cs arbitrary: a) (auto simp: dvd_add)
  moreover have "16 dvd b + 32" using blk_aligned [OF assms] by (intro dvd_add) auto
  ultimately show ?thesis using blk_tile [OF assms] chunk_size_dvd [OF blk_chunk [OF assms]] by blast
qed

lemma find_free_head: "find_free aset csize sz prior c = Some (prior, c)" if "c = 0 \<or> sz \<le> csize c"
  using that by (subst find_free.simps) auto

lemma take_free_ok:
  assumes ok: "as_ok (blocks (os_heap st)) st bs chs fl" and v: "valid (os_heap st)"
    and k: "k < 10" "fl k = a # zs" and sz: "sz \<le> 2 ^ (k + 4)"
  shows "allocated blocks valid st bs chs fl sz (a + 16) (take_free st k 0 a) bs chs (fl(k := zs))"
proof -
  have B: "blks_ok (blocks (os_heap st)) st bs chs" and F: "fls_ok st (chunks bs chs) fl" using ok by (auto simp: as_ok_def)
  let ?st = "take_free st k 0 a"
  have st: "freelist ?st = (freelist st)(k := c_aset st a)" "c_aset ?st = (c_aset st)(a := set_addr st)"
    "set_addr ?st = set_addr st" "c_size ?st = c_size st"
    by (simp_all add: take_free_def)
  note pop = fls_pop [OF F k st]
  have "blks_ok (blocks (os_heap st)) ?st bs chs"
    using B by (simp add: blks_ok_def blk_ok_def chunk_ok_def take_free_def)
  then have "as_ok (blocks (os_heap ?st)) ?st bs chs (fl(k := zs))" using pop(1) by (simp add: as_ok_def take_free_def)
  moreover have "16 dvd a + 16" using blks_chunk_aligned [OF B pop(2)] by (intro dvd_add) auto
  ultimately show ?thesis
    using v live_pop [OF k pop(2,3)] sz pop(6) st by (simp add: allocated_def take_free_def)
qed

lemma cut_chunk_ok:
  assumes ok: "as_ok (blocks (os_heap st)) st bs chs fl" and v: "valid (os_heap st)" and b: "b \<in> set bs"
    and k: "k < 10" "sz \<le> 2 ^ (k + 4)" and room: "b_freeptr st b + 16 + 2 ^ (k + 4) \<le> b_endptr st b"
  shows "\<exists>st'. cut_chunk st b (2 ^ (k + 4)) = Inr (b_freeptr st b + 16, st') \<and>
    allocated blocks valid st bs chs fl sz (b_freeptr st b + 16) st' bs (chs(b := chs b @ [b_freeptr st b])) fl"
proof -
  have B: "blks_ok (blocks (os_heap st)) st bs chs" and F: "fls_ok st (chunks bs chs) fl" using ok by (auto simp: as_ok_def)
  define a s where "a = b_freeptr st b" and "s = (2 :: nat) ^ (k + 4)"
  define st' where "st' = st\<lparr>b_freeptr := (b_freeptr st)(b := a + 16 + s), c_aset := (c_aset st)(a := set_addr st),
    c_size := (c_size st)(a := s)\<rparr>"
  have cut: "cut_chunk st b (2 ^ (k + 4)) = Inr (a + 16, st')"
    using room by (simp add: cut_chunk_def Let_def a_def st'_def s_def ALLOC_CHUNK_GET_POINTER_def ac_simps)
  have a: "a \<notin> chunks bs chs" using free_space_no_chunk [OF B b] room by (simp add: a_def)
  have B': "blks_ok (blocks (os_heap st)) st' bs (chs(b := chs b @ [a]))"
    unfolding a_def by (rule blks_add_chunk [OF B b k(1) room]) (simp_all add: st'_def a_def s_def ac_simps)
  have F': "fls_ok st' (insert a (chunks bs chs)) fl" by (rule fls_live [OF F a]) (simp_all add: st'_def)
  have lv: "live bs (chs(b := chs b @ [a])) fl = insert a (live bs chs fl)"
    using fls_not_chunk [OF F a] by (auto simp: live_def chunks_upd [OF b])
  have "16 dvd a + 16" using blks_freeptr_aligned [OF blks_blk [OF B b]] by (intro dvd_add) (auto simp: a_def)
  then have "allocated blocks valid st bs chs fl sz (a + 16) st' bs (chs(b := chs b @ [a])) fl"
    using B' F' lv v a k(2) live_chunks [of _ bs chs fl]
    by (auto simp: allocated_def as_ok_def chunks_upd [OF b] st'_def s_def)
  then show ?thesis using cut unfolding a_def by blast
qed

text \<open>\<open>grown hb hb' b n\<close>: \<open>hb'\<close> has the new block \<open>b\<close> of at least \<open>n\<close> bytes, which overlaps no block of \<open>hb\<close>.\<close>

definition grown :: "(nat \<rightharpoonup> nat) \<Rightarrow> (nat \<rightharpoonup> nat) \<Rightarrow> nat \<Rightarrow> nat \<Rightarrow> bool" where
  "grown hb hb' b n \<longleftrightarrow> 16 dvd b \<and> hb b = None \<and>
     (\<exists>m \<ge> n. hb' = hb(b \<mapsto> m) \<and> (\<forall>x k. hb x = Some k \<longrightarrow> {b..<b + m} \<inter> {x..<x + k} = {}))"

lemma grown_sub: "grown hb hb' b n \<Longrightarrow> hb \<subseteq>\<^sub>m hb'"
  by (auto simp: grown_def map_le_def)

lemma as_ok_new_block:
  assumes ok: "as_ok hb st bs chs fl" and g: "grown hb hb' b n" and b: "b \<noteq> 0" and n: "32 \<le> n"
  shows "as_ok hb' (st\<lparr>os_heap := hp, b_aset := x, b_freeptr := (b_freeptr st)(b := b + 32),
      b_endptr := (b_endptr st)(b := b + n), b_next := (b_next st)(b := set_blocks st), set_blocks := b\<rparr>)
    (b # bs) (chs(b := [])) fl" (is "as_ok _ ?st _ _ _")
    and "live (b # bs) (chs(b := [])) fl = live bs chs fl"
proof -
  obtain m where m: "n \<le> m" "hb' = hb(b \<mapsto> m)" "\<And>x k. hb x = Some k \<Longrightarrow> {b..<b + m} \<inter> {x..<x + k} = {}"
    and b16: "16 dvd b" "hb b = None"
    using g by (auto simp: grown_def)
  have B: "blks_ok hb st bs chs" and F: "fls_ok st (chunks bs chs) fl" using ok by (auto simp: as_ok_def)
  have ne: "b \<notin> set bs" using blks_blk [OF B, of b] b16 by (auto simp: blk_ok_def)
  have "path (b_next ?st) (set_blocks st) bs = path (b_next st) (set_blocks st) bs"
    using ne by (intro path_cong) auto
  then have p: "path (b_next ?st) (set_blocks ?st) ([] @ b # bs)" using blks_path [OF B] b by simp
  have k: "blk_ok (hb(b \<mapsto> m)) ?st (chs(b := [])) b" using b16 m(1) n by (simp add: blk_ok_def)
  have "blks_ok (hb(b \<mapsto> m)) ?st ([] @ b # bs) (chs(b := []))"
    "chunks ([] @ b # bs) (chs(b := [])) = set [] \<union> chunks ([] @ bs) chs"
    using B by (intro blks_insert [OF _ p b16(2) k _ m(3)]; simp add: m(1))+
  moreover have "fls_ok ?st (chunks bs chs) fl" using F by (simp add: fls_ok_def)
  ultimately show "as_ok hb' ?st (b # bs) (chs(b := [])) fl" "live (b # bs) (chs(b := [])) fl = live bs chs fl"
    by (simp_all add: as_ok_def m(2) live_def)
qed

text \<open>A dedicated block holds one chunk; it goes below the active block.\<close>

lemma as_ok_large:
  assumes ok: "as_ok hb st (ys @ zs) chs fl" and g: "grown hb hb' b (s + 48)" and s: "8192 < s" "16 dvd s" and b: "b \<noteq> 0"
    and p: "path (b_next st') (set_blocks st') (ys @ b # zs)"
    and st': "keeper st' = keeper st" "b_freeptr st' b = b + (s + 48)" "b_endptr st' b = b + (s + 48)"
      "\<And>x. x \<noteq> b \<Longrightarrow> b_freeptr st' x = b_freeptr st x" "\<And>x. x \<noteq> b \<Longrightarrow> b_endptr st' x = b_endptr st x"
      "c_size st' (b + 32) = s" "\<And>c. c \<noteq> b + 32 \<Longrightarrow> c_size st' c = c_size st c"
      "c_aset st' = (c_aset st)(b + 32 := set_addr st)" "freelist st' = freelist st" "set_addr st' = set_addr st"
  shows "as_ok hb' st' (ys @ b # zs) (chs(b := [b + 32])) fl"
    "live (ys @ b # zs) (chs(b := [b + 32])) fl = insert (b + 32) (live (ys @ zs) chs fl)"
    "b + 32 \<notin> chunks (ys @ zs) chs"
proof -
  obtain m where m: "s + 48 \<le> m" "hb' = hb(b \<mapsto> m)" "\<And>x k. hb x = Some k \<Longrightarrow> {b..<b + m} \<inter> {x..<x + k} = {}"
    and b16: "16 dvd b" "hb b = None"
    using g by (auto simp: grown_def)
  have B: "blks_ok hb st (ys @ zs) chs" and F: "fls_ok st (chunks (ys @ zs) chs) fl" using ok by (auto simp: as_ok_def)
  show c: "b + 32 \<notin> chunks (ys @ zs) chs"
  proof (rule outside_no_chunk [OF B], rule ballI)
    fix x assume x: "x \<in> set (ys @ zs)"
    obtain k where k: "hb x = Some k" "b_endptr st x \<le> x + k" using blks_blk [OF B x] by (auto simp: blk_ok_def)
    have "b + 32 \<in> {b..<b + m}" using m(1) by simp
    then have "b + 32 \<notin> {x..<x + k}" using m(3) [OF k(1)] by blast
    then show "b + 32 < x \<or> b_endptr st x \<le> b + 32" using k(2) by auto
  qed
  have k: "blk_ok (hb(b \<mapsto> m)) st' (chs(b := [b + 32])) b"
    using b16 m(1) s by (simp add: blk_ok_def chunk_ok_def st' ac_simps)
  have sz: "c_size st' x = c_size st x" if "x \<in> chunks (ys @ zs) chs" for x using that c st'(7) [of x] by metis
  have i: "blks_ok (hb(b \<mapsto> m)) st' (ys @ b # zs) (chs(b := [b + 32]))"
    "chunks (ys @ b # zs) (chs(b := [b + 32])) = set [b + 32] \<union> chunks (ys @ zs) chs"
    using m(1) sz by (intro blks_insert [OF B p b16(2) k _ m(3) st'(1) st'(4) st'(5)]; simp add: st')+
  moreover have "fls_ok st' (insert (b + 32) (chunks (ys @ zs) chs)) fl"
    by (rule fls_live [OF F c]) (use st' in auto)
  ultimately show "as_ok hb' st' (ys @ b # zs) (chs(b := [b + 32])) fl" by (simp add: as_ok_def m(2))
  show "live (ys @ b # zs) (chs(b := [b + 32])) fl = insert (b + 32) (live (ys @ zs) chs fl)"
    using fls_not_chunk [OF F c] by (auto simp: live_def i(2))
qed

section \<open>Allocation is correct\<close>

context aligned_allocator
begin

lemma malloc_grown:
  assumes "valid hp" "malloc hp n = (b, hp')" "b \<noteq> 0"
  shows "valid hp'" "grown (blocks hp) (blocks hp') b n"
  using alloc_block [OF assms] malloc_aligned [OF assms(1,2)] by (auto simp: grown_def)

text \<open>The retries of \<open>malloc\<close> with smaller sizes end; a block they return has the final size.\<close>

lemma retry_ok:
  assumes "retry_malloc malloc req block sz hp = (b, n, hp')"
    and "valid hp" "block = 0 \<Longrightarrow> blocks hp = hb" "block \<noteq> 0 \<Longrightarrow> grown hb (blocks hp) block sz \<and> req \<le> sz"
  shows "valid hp' \<and> (if b = 0 then blocks hp' = hb else grown hb (blocks hp') b n \<and> req \<le> n)"
  using assms
proof (induction sz arbitrary: block hp rule: less_induct)
  case (less sz)
  show ?case
  proof (cases "block = 0 \<and> sz > 1024 * 1024 \<and> \<not> sz div 2 < req")
    case True
    obtain b1 hp1 where r: "malloc hp (sz div 2) = (b1, hp1)" by fastforce
    have rt: "retry_malloc malloc req b1 (sz div 2) hp1 = (b, n, hp')"
      using less.prems(1) True r by (subst (asm) retry_malloc.simps) (simp add: Let_def drop_bit_eq_div)
    have "sz div 2 < sz" using True by auto
    then show ?thesis
    proof (rule less.IH [OF _ rt])
      show "valid hp1" using alloc_null [of hp _ hp1] alloc_block [of hp _ b1 hp1] less.prems(2) r by (cases "b1 = 0") auto
      show "blocks hp1 = hb" if "b1 = 0" using alloc_null [of hp _ hp1] less.prems(2,3) r True that by auto
      show "grown hb (blocks hp1) b1 (sz div 2) \<and> req \<le> sz div 2" if "b1 \<noteq> 0"
        using malloc_grown(2) [OF less.prems(2) r that] less.prems(3) True by auto
    qed
  next
    case False
    then have "b = block \<and> hp' = hp \<and> (block \<noteq> 0 \<longrightarrow> n = sz)"
      using less.prems(1) by (subst (asm) retry_malloc.simps) (auto simp: Let_def drop_bit_eq_div split: if_splits)
    then show ?thesis using less.prems by auto
  qed
qed

lemma new_block_ok:
  assumes ok: "as_ok (blocks (os_heap st)) st bs chs fl" and v: "valid (os_heap st)"
  shows "(new_block malloc st s = Inl Elog_ERROR \<and> (\<exists>hp hp' n. malloc hp n = (0, hp'))) \<or>
    (\<exists>b st'. new_block malloc st s = Inr (b, st') \<and> valid (os_heap st') \<and>
      as_ok (blocks (os_heap st')) st' (b # bs) (chs(b := [])) fl \<and> live (b # bs) (chs(b := [])) fl = live bs chs fl \<and>
      b_freeptr st' b + 16 + s \<le> b_endptr st' b \<and> blocks (os_heap st) \<subseteq>\<^sub>m blocks (os_heap st') \<and>
      c_size st' = c_size st \<and> set_addr st' = set_addr st \<and> keeper st' = keeper st \<and> dat st' = dat st)"
proof -
  let ?n = "next_block_size st s"
  obtain b0 hp0 where m: "malloc (os_heap st) ?n = (b0, hp0)" by fastforce
  obtain b n hp where r: "retry_malloc malloc (s + 48) b0 ?n hp0 = (b, n, hp)" by (metis prod_cases3)
  have nb: "new_block malloc st s = (if b = 0 then Inl Elog_ERROR else Inr (b, st\<lparr>os_heap := hp, b_aset := (b_aset st)(b := set_addr st),
      b_freeptr := (b_freeptr st)(b := b + 32), b_endptr := (b_endptr st)(b := b + n),
      b_next := (b_next st)(b := set_blocks st), set_blocks := b\<rparr>))"
    using m r by (simp add: new_block_def Let_def add.commute [of _ 48])
  have n: "s + 48 \<le> ?n" by (simp add: next_block_size_def Let_def)
  have res: "valid hp \<and> (if b = 0 then blocks hp = blocks (os_heap st) else grown (blocks (os_heap st)) (blocks hp) b n \<and> s + 48 \<le> n)"
  proof (rule retry_ok [OF r])
    show "valid hp0" using alloc_null [of "os_heap st" _ hp0] alloc_block [of "os_heap st" _ b0 hp0] v m by (cases "b0 = 0") auto
    show "blocks hp0 = blocks (os_heap st)" if "b0 = 0" using alloc_null [of "os_heap st" _ hp0] v m that by auto
    show "grown (blocks (os_heap st)) (blocks hp0) b0 ?n \<and> s + 48 \<le> ?n" if "b0 \<noteq> 0" using malloc_grown(2) [OF v m that] n by blast
  qed
  show ?thesis
  proof (cases "b = 0")
    case True
    have "b0 = 0" using r True by (subst (asm) retry_malloc.simps) (auto split: if_splits)
    then show ?thesis using nb True m by auto
  next
    case False
    then have g: "grown (blocks (os_heap st)) (blocks hp) b n" "s + 48 \<le> n" "valid hp" using res by auto
    have n32: "32 \<le> n" using g(2) by simp
    define st' where "st' = st\<lparr>os_heap := hp, b_aset := (b_aset st)(b := set_addr st),
      b_freeptr := (b_freeptr st)(b := b + 32), b_endptr := (b_endptr st)(b := b + n),
      b_next := (b_next st)(b := set_blocks st), set_blocks := b\<rparr>"
    have "new_block malloc st s = Inr (b, st')" using nb False by (simp add: st'_def)
    moreover have "as_ok (blocks (os_heap st')) st' (b # bs) (chs(b := [])) fl"
      using as_ok_new_block(1) [OF ok g(1) False n32] by (simp add: st'_def)
    moreover have "b_freeptr st' b + 16 + s \<le> b_endptr st' b" using g(2) by (simp add: st'_def)
    ultimately show ?thesis
      using as_ok_new_block(2) [OF ok g(1) False n32] g(3) grown_sub [OF g(1)]
      by (intro disjI2 exI [of _ b] exI [of _ st'] conjI) (simp_all add: st'_def)
  qed
qed

lemma alloc_large_ok:
  assumes ok: "as_ok (blocks (os_heap st)) st bs chs fl" and v: "valid (os_heap st)" and sz: "8192 < sz"
  shows "(alloc_large malloc st sz = Inl Elog_ERROR \<and> (\<exists>hp hp' n. malloc hp n = (0, hp'))) \<or>
    (\<exists>p st' bs' chs' fl'. alloc_large malloc st sz = Inr (p, st') \<and> allocated blocks valid st bs chs fl sz p st' bs' chs' fl')"
proof -
  define s where "s = MAX_ALIGN sz"
  have s: "sz \<le> s" "8192 < s" "16 dvd s" using sz MAX_ALIGN_ge [of sz] by (auto simp: s_def simp del: MAX_ALIGN_ge)
  obtain b hp where m: "malloc (os_heap st) (s + 48) = (b, hp)" by fastforce
  show ?thesis
  proof (cases "b = 0")
    case True
    then have "alloc_large malloc st sz = Inl Elog_ERROR" using m by (simp add: alloc_large_def s_def add.commute [of _ 48])
    then show ?thesis using m True by blast
  next
    case False
    obtain st' where st': "alloc_large malloc st sz = Inr (b + 48, st')"
      "b_next st' = (if set_blocks st \<noteq> 0 then (b_next st)(b := b_next st (set_blocks st), set_blocks st := b) else (b_next st)(b := 0))"
      "set_blocks st' = (if set_blocks st \<noteq> 0 then set_blocks st else b)"
      "os_heap st' = hp" "b_freeptr st' = (b_freeptr st)(b := b + (s + 48))" "b_endptr st' = (b_endptr st)(b := b + (s + 48))"
      "c_aset st' = (c_aset st)(b + 32 := set_addr st)" "c_size st' = (c_size st)(b + 32 := s)"
      "freelist st' = freelist st" "keeper st' = keeper st" "set_addr st' = set_addr st" "dat st' = dat st"
      using m False by (simp add: alloc_large_def Let_def ALLOC_CHUNK_GET_POINTER_def s_def add.commute [of _ 48])
    note g = malloc_grown [OF v m False]
    have B: "blks_ok (blocks (os_heap st)) st bs chs" using ok by (simp add: as_ok_def)
    have ne: "b \<notin> set bs" using blks_blk [OF B, of b] g(2) by (auto simp: blk_ok_def grown_def)
    obtain ys zs where yz: "bs = ys @ zs" "path (b_next st') (set_blocks st') (ys @ b # zs)"
    proof (cases bs)
      case Nil
      then show ?thesis using that [of "[]" "[]"] blks_path [OF B] False by (simp add: st')
    next
      case (Cons x xs)
      have "x \<noteq> 0" "x = set_blocks st" "path (b_next st) (b_next st x) xs" "x \<notin> set xs"
        using blks_path [OF B] blks_distinct [OF B] Cons by auto
      moreover have "path (b_next st') i xs = path (b_next st) i xs" for i
        using calculation ne Cons by (intro path_cong) (auto simp: st')
      ultimately show ?thesis using that [of "[x]" xs] Cons ne False by (simp add: st')
    qed
    have a: "as_ok (blocks hp) st' (ys @ b # zs) (chs(b := [b + 32])) fl"
      "live (ys @ b # zs) (chs(b := [b + 32])) fl = insert (b + 32) (live (ys @ zs) chs fl)"
      "b + 32 \<notin> chunks (ys @ zs) chs"
      by (intro as_ok_large [OF ok [unfolded yz(1)] g(2) s(2,3) False yz(2)]; simp add: st')+
    have "16 dvd b + 48" using g(2) by (intro dvd_add) (auto simp: grown_def)
    moreover have "c_size st' c = c_size st c" if "c \<in> live bs chs fl" for c
      using a(3) live_chunks [OF that] by (auto simp: st' yz(1))
    ultimately have "allocated blocks valid st bs chs fl sz (b + 48) st' (ys @ b # zs) (chs(b := [b + 32])) fl"
      using a g(1) grown_sub [OF g(2)] s(1) live_chunks [of _ bs chs fl] by (auto simp: allocated_def st' yz(1) add.commute [of 32])
    then show ?thesis using st'(1) by blast
  qed
qed

end

lemma allocated_via:
  assumes "allocated blocks valid st1 bs1 chs1 fl1 sz p st' bs' chs' fl'" "live bs1 chs1 fl1 = live bs chs fl"
    "\<forall>c \<in> live bs chs fl. c_size st1 c = c_size st c" "blocks (os_heap st) \<subseteq>\<^sub>m blocks (os_heap st1)"
    "set_addr st1 = set_addr st" "keeper st1 = keeper st" "dat st1 = dat st"
  shows "allocated blocks valid st bs chs fl sz p st' bs' chs' fl'"
  using assms map_le_trans [of "blocks (os_heap st)" "blocks (os_heap st1)" "blocks (os_heap st')"] by (auto simp: allocated_def)

text \<open>The state after \<open>active_block\<close>: a block with room for the chunk, the chunks in use as before.\<close>

definition has_room ::
  "('h \<Rightarrow> nat \<rightharpoonup> nat) \<Rightarrow> ('h \<Rightarrow> bool) \<Rightarrow> 'h AllocSetContext \<Rightarrow> nat list \<Rightarrow> (nat \<Rightarrow> nat list) \<Rightarrow> (nat \<Rightarrow> nat list) \<Rightarrow>
   nat \<Rightarrow> nat \<Rightarrow> 'h AllocSetContext \<Rightarrow> nat list \<Rightarrow> (nat \<Rightarrow> nat list) \<Rightarrow> (nat \<Rightarrow> nat list) \<Rightarrow> bool" where
  "has_room blocks valid st bs chs fl s b st' bs' chs' fl' \<longleftrightarrow> b \<in> set bs' \<and> valid (os_heap st') \<and>
     as_ok (blocks (os_heap st')) st' bs' chs' fl' \<and> b_freeptr st' b + 16 + s \<le> b_endptr st' b \<and>
     live bs' chs' fl' = live bs chs fl \<and> (\<forall>c \<in> live bs chs fl. c_size st' c = c_size st c) \<and>
     blocks (os_heap st) \<subseteq>\<^sub>m blocks (os_heap st') \<and> set_addr st' = set_addr st \<and> keeper st' = keeper st \<and> dat st' = dat st"

context aligned_allocator
begin

lemma new_block_room:
  assumes "as_ok (blocks (os_heap st)) st bs chs fl" "valid (os_heap st)"
  shows "(new_block malloc st s = Inl Elog_ERROR \<and> (\<exists>hp hp' n. malloc hp n = (0, hp'))) \<or>
    (\<exists>b st' bs' chs' fl'. new_block malloc st s = Inr (b, st') \<and> has_room blocks valid st bs chs fl s b st' bs' chs' fl')"
proof (rule disjE [OF new_block_ok [OF assms, of s]], elim conjE, intro disjI1 conjI, assumption, assumption, elim exE conjE)
  fix b st'
  assume "new_block malloc st s = Inr (b, st')" "valid (os_heap st')" "as_ok (blocks (os_heap st')) st' (b # bs) (chs(b := [])) fl"
    "live (b # bs) (chs(b := [])) fl = live bs chs fl" "b_freeptr st' b + 16 + s \<le> b_endptr st' b"
    "blocks (os_heap st) \<subseteq>\<^sub>m blocks (os_heap st')" "c_size st' = c_size st" "set_addr st' = set_addr st"
    "keeper st' = keeper st" "dat st' = dat st"
  then have "new_block malloc st s = Inr (b, st') \<and> has_room blocks valid st bs chs fl s b st' (b # bs) (chs(b := [])) fl"
    by (simp add: has_room_def)
  then show ?thesis by blast
qed

lemma active_block_ok:
  assumes ok: "as_ok (blocks (os_heap st)) st bs chs fl" and v: "valid (os_heap st)" and s: "s \<le> 8192"
  shows "(active_block malloc st s = Inl Elog_ERROR \<and> (\<exists>hp hp' n. malloc hp n = (0, hp'))) \<or>
    (\<exists>b st' bs' chs' fl'. active_block malloc st s = Inr (b, st') \<and> has_room blocks valid st bs chs fl s b st' bs' chs' fl')"
proof -
  define b where "b = set_blocks st"
  have B: "blks_ok (blocks (os_heap st)) st bs chs" using ok by (simp add: as_ok_def)
  have bin: "b \<in> set bs" if "b \<noteq> 0" using blks_path [OF B] that by (cases bs) (auto simp: b_def)
  consider "b = 0" | "b \<noteq> 0" "b_endptr st b - b_freeptr st b < s + 16" | "b \<noteq> 0" "\<not> b_endptr st b - b_freeptr st b < s + 16"
    by blast
  then show ?thesis
  proof cases
    case 1
    then show ?thesis using new_block_room [OF ok v, of s] by (simp add: active_block_def b_def)
  next
    case 3
    then have "active_block malloc st s = Inr (b, st)" by (simp add: active_block_def b_def)
    moreover have "has_room blocks valid st bs chs fl s b st bs chs fl"
      using 3 ok v bin by (simp add: has_room_def; linarith)
    ultimately show ?thesis by blast
  next
    case 2
    have "b_endptr st b - b_freeptr st b \<le> 8192 + 16" using 2(2) s by linarith
    then obtain st1 chs1 fl1 where c: "carve st b (b_endptr st b - b_freeptr st b) = Inr st1"
      "as_ok (blocks (os_heap st)) st1 bs chs1 fl1" "live bs chs1 fl1 = live bs chs fl"
      "\<forall>c \<in> chunks bs chs. c_size st1 c = c_size st c"
      "st1 = st\<lparr>b_freeptr := b_freeptr st1, c_size := c_size st1, c_aset := c_aset st1, freelist := freelist st1\<rparr>"
      using carve_ok [OF ok bin [OF 2(1)] refl] by blast
    have fr: "os_heap st1 = os_heap st" "set_addr st1 = set_addr st" "keeper st1 = keeper st" "dat st1 = dat st"
      by (subst c(5), simp)+
    have act: "active_block malloc st s = new_block malloc st1 s"
      using 2 c(1) by (simp add: active_block_def b_def [symmetric] Let_def)
    have "has_room blocks valid st bs chs fl s b' st' bs' chs' fl'"
      if "has_room blocks valid st1 bs chs1 fl1 s b' st' bs' chs' fl'" for b' st' bs' chs' fl'
      using that c(3,4) live_chunks [of _ bs chs fl] by (auto simp: has_room_def fr)
    then show ?thesis using new_block_room [of st1 bs chs1 fl1 s] c(2) v fr act by metis
  qed
qed

lemma alloc_ok:
  assumes ok: "as_ok (blocks (os_heap st)) st bs chs fl" and v: "valid (os_heap st)"
  shows "(alloc_set_alloc malloc st sz = Some (Inl Elog_ERROR) \<and> (\<exists>hp hp' n. malloc hp n = (0, hp'))) \<or>
    (\<exists>p st' bs' chs' fl'. alloc_set_alloc malloc st sz = Some (Inr (p, st')) \<and>
      allocated blocks valid st bs chs fl sz p st' bs' chs' fl')"
proof (cases "8192 < sz")
  case True
  then show ?thesis using alloc_large_ok [OF ok v True] by (simp add: alloc_set_alloc_def)
next
  case False
  then obtain k where k: "k < 10" "alloc_set_free_index sz = Inr k" "sz \<le> 2 ^ (k + 4)" using size_class [of sz] by auto
  have K: "path (c_aset st) (freelist st k) (fl k)" "\<forall>c \<in> set (fl k). c_size st c = 2 ^ (k + 4)"
    using ok k(1) by (auto simp: as_ok_def fls_ok_def)
  have hd: "find_free (c_aset st) (c_size st) sz 0 (freelist st k) = Some (0, freelist st k)"
    by (rule find_free_head) (use K k(3) in \<open>cases "fl k"; auto\<close>)
  show ?thesis
  proof (cases "fl k")
    case (Cons a zs)
    then have "freelist st k = a" "a \<noteq> 0" using K(1) by auto
    then have "alloc_set_alloc malloc st sz = Some (Inr (a + 16, take_free st k 0 a))"
      using False k(2) hd by (simp add: alloc_set_alloc_def ALLOC_CHUNK_GET_POINTER_def)
    then show ?thesis using take_free_ok [of blocks st bs chs fl valid k a zs sz] ok v k(1,3) Cons by blast
  next
    case Nil
    then have "freelist st k = 0" using K(1) by simp
    then have a: "alloc_set_alloc malloc st sz = Some (cbind (active_block malloc st (2 ^ (k + 4)))
        (\<lambda>(block, st1). cut_chunk st1 block (2 ^ (k + 4))))"
      using False k(2,3) hd by (simp add: alloc_set_alloc_def push_bit_eq_mult Let_def)
    have "(2 :: nat) ^ (k + 4) \<le> 2 ^ 13" using k(1) by (intro power_increasing) auto
    then have s: "(2 :: nat) ^ (k + 4) \<le> 8192" by simp
    show ?thesis
    proof (rule disjE [OF active_block_ok [OF ok v s]])
      assume "active_block malloc st (2 ^ (k + 4)) = Inl Elog_ERROR \<and> (\<exists>hp hp' n. malloc hp n = (0, hp'))"
      then show ?thesis using a by simp
    next
      assume "\<exists>b st' bs' chs' fl'. active_block malloc st (2 ^ (k + 4)) = Inr (b, st') \<and>
        has_room blocks valid st bs chs fl (2 ^ (k + 4)) b st' bs' chs' fl'"
      then obtain b st1 bs1 chs1 fl1 where r: "active_block malloc st (2 ^ (k + 4)) = Inr (b, st1)"
        "has_room blocks valid st bs chs fl (2 ^ (k + 4)) b st1 bs1 chs1 fl1" by blast
      note h = r(2) [unfolded has_room_def]
      obtain st' where c: "cut_chunk st1 b (2 ^ (k + 4)) = Inr (b_freeptr st1 b + 16, st')"
        "allocated blocks valid st1 bs1 chs1 fl1 sz (b_freeptr st1 b + 16) st' bs1 (chs1(b := chs1 b @ [b_freeptr st1 b])) fl1"
        using cut_chunk_ok [of blocks st1 bs1 chs1 fl1 valid b k sz] h k(1,3) by blast
      have "allocated blocks valid st bs chs fl sz (b_freeptr st1 b + 16) st' bs1 (chs1(b := chs1 b @ [b_freeptr st1 b])) fl1"
        by (rule allocated_via [OF c(2)]) (use h in blast)+
      then show ?thesis using a r(1) c(1) by auto
    qed
  qed
qed

end

section \<open>Freeing is correct\<close>

lemma find_block_ok:
  "path nxt i (ys @ b # zs) \<Longrightarrow> b \<notin> set ys \<Longrightarrow> find_block nxt (b + 32) prev i = Some (last (prev # ys), b)"
proof (induction ys arbitrary: i prev)
  case Nil
  then show ?case by (subst find_block.simps) auto
next
  case (Cons y ys)
  then have "find_block nxt (b + 32) prev i = find_block nxt (b + 32) y (nxt y)"
    by (subst find_block.simps) auto
  then show ?case using Cons by auto
qed

text \<open>A chunk above the limit is the only chunk of its block.\<close>

lemma large_chunk_block:
  assumes "blks_ok hb st bs chs" "c \<in> chunks bs chs" "8192 < c_size st c"
  shows "\<exists>b ys zs. bs = ys @ b # zs \<and> b \<notin> set ys \<and> c = b + 32 \<and> chs b = [c] \<and> b \<noteq> keeper st \<and> b \<noteq> 0 \<and>
    (\<exists>m. hb b = Some m) \<and> b_freeptr st b = b + (c_size st c + 48)"
proof -
  obtain b where b: "b \<in> set bs" "c \<in> set (chs b)" using assms(2) by (rule chunksE)
  have small: "(2 :: nat) ^ (k + 4) \<le> 2 ^ 13" if "k < 10" for k using that by (intro power_increasing) auto
  have ok: "blk_ok hb st chs b" using blks_blk [OF assms(1) b(1)] .
  have one: "chs b = [c]" using blk_chunk [OF ok b(2)] assms(3) small by (fastforce simp: chunk_ok_def)
  have t: "c = b + 32" "b_freeptr st b = b + (c_size st c + 48)" using blk_tile [OF ok] one by auto
  have "b \<noteq> 0" using path_nonzero [OF blks_path [OF assms(1)] b(1)] .
  moreover have "b \<noteq> keeper st" using assms(1,3) b(2) \<open>b \<noteq> 0\<close> by (force simp: blks_ok_def)
  moreover obtain ys zs where "bs = ys @ b # zs" "b \<notin> set ys" using split_list_first [OF b(1)] by blast
  ultimately show ?thesis using one t ok by (auto simp: blk_ok_def)
qed

text \<open>What releasing the chunk \<open>c\<close> promises.\<close>

definition freed ::
  "('h \<Rightarrow> nat \<rightharpoonup> nat) \<Rightarrow> ('h \<Rightarrow> bool) \<Rightarrow> 'h AllocSetContext \<Rightarrow> nat list \<Rightarrow> (nat \<Rightarrow> nat list) \<Rightarrow> (nat \<Rightarrow> nat list) \<Rightarrow>
   nat \<Rightarrow> 'h AllocSetContext \<Rightarrow> nat list \<Rightarrow> (nat \<Rightarrow> nat list) \<Rightarrow> (nat \<Rightarrow> nat list) \<Rightarrow> bool" where
  "freed blocks valid st bs chs fl c st' bs' chs' fl' \<longleftrightarrow>
     valid (os_heap st') \<and> as_ok (blocks (os_heap st')) st' bs' chs' fl' \<and> live bs' chs' fl' = live bs chs fl - {c} \<and>
     c_size st' = c_size st \<and> (\<forall>b. b \<notin> set bs \<longrightarrow> blocks (os_heap st') b = blocks (os_heap st) b) \<and>
     set_addr st' = set_addr st \<and> keeper st' = keeper st \<and> dat st' = dat st"

lemma fls_cong:
  assumes "fls_ok st C fl" "freelist st' = freelist st" "c_aset st' = c_aset st" "set_addr st' = set_addr st" "c_size st' = c_size st"
    "C' \<subseteq> C" "\<And>k c. k < 10 \<Longrightarrow> c \<in> set (fl k) \<Longrightarrow> c \<in> C'"
  shows "fls_ok st' C' fl"
  using assms by (auto simp: fls_ok_def)

text \<open>The list without the block of a chunk in use above the limit.\<close>

lemma as_ok_unlink:
  assumes ok: "as_ok hb st bs chs fl" and b: "bs = ys @ b # zs" "c \<in> live bs chs fl" "chs b = [c]" "b \<noteq> keeper st"
    and st': "st' = (if last (0 # ys) = 0 then st\<lparr>set_blocks := b_next st b\<rparr>
      else st\<lparr>b_next := (b_next st)(last (0 # ys) := b_next st b)\<rparr>)\<lparr>os_heap := hp\<rparr>"
  shows "as_ok (hb(b := None)) st' (ys @ zs) chs fl" "live (ys @ zs) chs fl = live bs chs fl - {c}"
proof -
  have B: "blks_ok hb st bs chs" and F: "fls_ok st (chunks bs chs) fl" using ok by (auto simp: as_ok_def)
  have nf: "\<forall>k < 10. c \<notin> set (fl k)" using b(2) by (auto simp: live_def)
  have ys0: "last (0 # ys) = 0 \<longleftrightarrow> ys = []"
    using path_nonzero [OF blks_path [OF B], of "last ys"] b(1) by (cases ys) auto
  have P: "path (b_next st) (set_blocks st) (ys @ b # zs)" "distinct (ys @ b # zs)"
    using blks_path [OF B] blks_distinct [OF B] b(1) by auto
  have p: "path (b_next st') (set_blocks st') (ys @ zs)"
  proof (cases ys)
    case Nil
    then show ?thesis using P by (simp add: st')
  next
    case (Cons y ys')
    have "path (b_next st') (b_next st' y) (ys' @ zs)"
      by (rule path_remove [where m = "b_next st" and x = b]) (use P Cons ys0 in \<open>auto simp: st'\<close>)
    then show ?thesis using P Cons ys0 by (simp add: st')
  qed
  have fr: "keeper st' = keeper st" "b_freeptr st' = b_freeptr st" "b_endptr st' = b_endptr st" "c_size st' = c_size st"
    "freelist st' = freelist st" "c_aset st' = c_aset st" "set_addr st' = set_addr st"
    by (simp_all add: st')
  have R: "blks_ok (hb(b := None)) st' (ys @ zs) chs" "chunks (ys @ zs) chs = chunks (ys @ b # zs) chs - set (chs b)"
    using fr b(4) by (intro blks_remove [OF B [unfolded b(1)] p]; simp)+
  have ch: "chunks (ys @ zs) chs = chunks bs chs - {c}" using R(2) b(1,3) by simp
  have "fls_ok st' (chunks (ys @ zs) chs) fl"
    using nf F unfolding ch by (intro fls_cong [OF F]) (auto simp: fr fls_ok_def)
  then show "as_ok (hb(b := None)) st' (ys @ zs) chs fl" using R(1) by (simp add: as_ok_def)
  show "live (ys @ zs) chs fl = live bs chs fl - {c}" by (auto simp: live_def ch)
qed

context aligned_allocator
begin

lemma free_ok:
  assumes ok: "as_ok (blocks (os_heap st)) st bs chs fl" and v: "valid (os_heap st)" and c: "c \<in> live bs chs fl"
  shows "\<exists>st' bs' chs' fl'. alloc_set_free mfree st (c + 16) = Some (Inr st') \<and>
    freed blocks valid st bs chs fl c st' bs' chs' fl'"
proof -
  have B: "blks_ok (blocks (os_heap st)) st bs chs" and F: "fls_ok st (chunks bs chs) fl" using ok by (auto simp: as_ok_def)
  have cc: "c \<in> chunks bs chs" and nf: "\<forall>k < 10. c \<notin> set (fl k)" using c by (auto simp: live_def)
  obtain b0 where b0: "b0 \<in> set bs" "c \<in> set (chs b0)" using cc by (rule chunksE)
  show ?thesis
  proof (cases "8192 < c_size st c")
    case False
    then obtain k where k: "k < 10" "c_size st c = 2 ^ (k + 4)"
      using blk_chunk [OF blks_blk [OF B b0(1)] b0(2)] by (auto simp: chunk_ok_def)
    define st' where "st' = st\<lparr>c_aset := (c_aset st)(c := freelist st k), freelist := (freelist st)(k := c)\<rparr>"
    have f: "alloc_set_free mfree st (c + 16) = Some (Inr st')"
      using False size_class_pow2 [OF k(1)] k(2) by (simp add: alloc_set_free_def ALLOC_POINTER_GET_CHUNK_def st'_def)
    have "c \<noteq> 0" using chunk_range(1) [OF blks_blk [OF B b0(1)] b0(2)] by simp
    then have "fls_ok st' (insert c (chunks bs chs)) (fl(k := c # fl k))"
      by (intro fls_push [OF F nf _ k(1)]) (simp_all add: st'_def k(2))
    moreover have "blks_ok (blocks (os_heap st)) st' bs chs" using B by (simp add: blks_ok_def blk_ok_def chunk_ok_def st'_def)
    ultimately have "as_ok (blocks (os_heap st)) st' bs chs (fl(k := c # fl k))" using cc by (simp add: as_ok_def insert_absorb)
    then have "freed blocks valid st bs chs fl c st' bs chs (fl(k := c # fl k))"
      using v live_push [OF k(1)] by (simp add: freed_def st'_def)
    then show ?thesis using f by blast
  next
    case True
    obtain b ys zs m where b: "bs = ys @ b # zs" "b \<notin> set ys" "c = b + 32" "chs b = [c]" "b \<noteq> keeper st" "b \<noteq> 0"
      "blocks (os_heap st) b = Some m" "b_freeptr st b = b + (c_size st c + 48)"
      using large_chunk_block [OF B cc True] by blast
    define st' where "st' = (if last (0 # ys) = 0 then st\<lparr>set_blocks := b_next st b\<rparr>
      else st\<lparr>b_next := (b_next st)(last (0 # ys) := b_next st b)\<rparr>)\<lparr>os_heap := mfree (os_heap st) b\<rparr>"
    have fb: "find_block (b_next st) c 0 (set_blocks st) = Some (last (0 # ys), b)"
      unfolding b(3) using blks_path [OF B] b(1,2) by (intro find_block_ok) auto
    have f: "alloc_set_free mfree st (c + 16) = Some (Inr st')"
      using True fb b(6,8) by (simp add: alloc_set_free_def ALLOC_POINTER_GET_CHUNK_def st'_def Let_def add.commute [of _ 48])
    have fr: "keeper st' = keeper st" "c_size st' = c_size st" "set_addr st' = set_addr st" "dat st' = dat st"
      "os_heap st' = mfree (os_heap st) b"
      by (simp_all add: st'_def)
    note fb = free_block [OF v b(7)]
    note u = as_ok_unlink [OF ok b(1) c b(4,5) st'_def]
    have "as_ok (blocks (os_heap st')) st' (ys @ zs) chs fl" using u(1) fb by (simp add: fr)
    moreover have "live (ys @ zs) chs fl = live bs chs fl - {c}" by (rule u(2))
    ultimately have "freed blocks valid st bs chs fl c st' (ys @ zs) chs fl"
      using fb b(1) by (simp add: freed_def fr)
    then show ?thesis using f by blast
  qed
qed

end

section \<open>Reset and deletion are correct\<close>

lemma reset_blocks_eval:
  "path (b_next st) i bs \<Longrightarrow> distinct bs \<Longrightarrow>
   reset_blocks mfree st i = Some (st\<lparr>
     b_freeptr := (if keeper st \<in> set bs then (b_freeptr st)(keeper st := keeper st + 32) else b_freeptr st),
     b_next := (if keeper st \<in> set bs then (b_next st)(keeper st := 0) else b_next st),
     os_heap := fold (\<lambda>b hp. mfree hp b) (filter (\<lambda>b. b \<noteq> keeper st) bs) (os_heap st)\<rparr>)"
proof (induction bs arbitrary: st i)
  case Nil
  then show ?case by (subst reset_blocks.simps) simp
next
  case (Cons b bs)
  have i: "i = b" "b \<noteq> 0" "path (b_next st) (b_next st b) bs" "b \<notin> set bs" "distinct bs" using Cons.prems by auto
  define st1 where "st1 = st\<lparr>b_freeptr := (b_freeptr st)(b := b + 32), b_next := (b_next st)(b := 0)\<rparr>"
  have "path (b_next st1) (b_next st b) bs = path (b_next st) (b_next st b) bs"
    using i(4) by (intro path_cong) (auto simp: st1_def)
  then have p: "path (b_next st1) (b_next st b) bs" using i(3) by simp
  show ?case
  proof (cases "b = keeper st")
    case True
    show ?thesis
      using Cons.IH [OF p i(5)] i True by (subst reset_blocks.simps) (simp add: Let_def st1_def)
  next
    case False
    show ?thesis using i False by (subst reset_blocks.simps) (simp add: Let_def Cons.IH)
  qed
qed

lemma delete_blocks_eval:
  "path (b_next st) i bs \<Longrightarrow> delete_blocks mfree st i = Some (st\<lparr>os_heap := fold (\<lambda>b hp. mfree hp b) bs (os_heap st)\<rparr>)"
proof (induction bs arbitrary: st i)
  case Nil
  then show ?case by (subst delete_blocks.simps) simp
next
  case (Cons b bs)
  then show ?case by (subst delete_blocks.simps) (simp add: Cons.IH)
qed

context aligned_allocator
begin

lemma fold_free:
  "valid hp \<Longrightarrow> distinct bs \<Longrightarrow> (\<And>b. b \<in> set bs \<Longrightarrow> \<exists>m. blocks hp b = Some m) \<Longrightarrow>
   valid (fold (\<lambda>b hp. mfree hp b) bs hp) \<and>
   blocks (fold (\<lambda>b hp. mfree hp b) bs hp) = (\<lambda>x. if x \<in> set bs then None else blocks hp x)"
proof (induction bs arbitrary: hp)
  case (Cons b bs)
  obtain m where m: "blocks hp b = Some m" using Cons.prems(3) by auto
  note f = free_block [OF Cons.prems(1) m]
  have "valid (fold (\<lambda>b hp. mfree hp b) bs (mfree hp b)) \<and>
    blocks (fold (\<lambda>b hp. mfree hp b) bs (mfree hp b)) = (\<lambda>x. if x \<in> set bs then None else blocks (mfree hp b) x)"
    using Cons.prems f by (intro Cons.IH) auto
  then show ?case using f by (auto simp: fun_eq_iff)
qed simp

lemma reset_ok:
  assumes ok: "as_ok (blocks (os_heap st)) st bs chs fl" and v: "valid (os_heap st)"
  shows "\<exists>st'. alloc_set_reset mfree st = Some st' \<and> valid (os_heap st') \<and>
    as_ok (blocks (os_heap st')) st' (if keeper st = 0 then [] else [keeper st]) (\<lambda>_. []) (\<lambda>_. []) \<and>
    blocks (os_heap st') = (\<lambda>b. if b \<in> set bs \<and> b \<noteq> keeper st then None else blocks (os_heap st) b) \<and>
    set_addr st' = set_addr st \<and> keeper st' = keeper st"
proof -
  have B: "blks_ok (blocks (os_heap st)) st bs chs" using ok by (simp add: as_ok_def)
  define fb where "fb = filter (\<lambda>b. b \<noteq> keeper st) bs"
  define st' where "st' = st\<lparr>freelist := (\<lambda>_. 0), set_blocks := keeper st,
     b_freeptr := (if keeper st \<in> set bs then (b_freeptr st)(keeper st := keeper st + 32) else b_freeptr st),
     b_next := (if keeper st \<in> set bs then (b_next st)(keeper st := 0) else b_next st),
     os_heap := fold (\<lambda>b hp. mfree hp b) fb (os_heap st)\<rparr>"
  have r: "alloc_set_reset mfree st = Some st'"
    using reset_blocks_eval [of "st\<lparr>freelist := (\<lambda>_. 0), set_blocks := keeper st\<rparr>" "set_blocks st" bs mfree]
      blks_path [OF B] blks_distinct [OF B] by (simp add: alloc_set_reset_def st'_def fb_def)
  have "\<exists>m. blocks (os_heap st) b = Some m" if "b \<in> set bs" for b using blks_blk [OF B that] by (auto simp: blk_ok_def)
  then have f: "valid (os_heap st')" "blocks (os_heap st') = (\<lambda>b. if b \<in> set fb then None else blocks (os_heap st) b)"
    using fold_free [OF v, of fb] blks_distinct [OF B] by (auto simp: st'_def fb_def)
  have hb: "blocks (os_heap st') = (\<lambda>b. if b \<in> set bs \<and> b \<noteq> keeper st then None else blocks (os_heap st) b)"
    unfolding f(2) by (simp add: fb_def)
  have kb: "keeper st \<in> set bs" if "keeper st \<noteq> 0" using B that by (simp add: blks_ok_def)
  have kok: "blk_ok (blocks (os_heap st')) st' (\<lambda>_. []) (keeper st)" if "keeper st \<noteq> 0"
    using blks_blk [OF B kb [OF that]] blk_start [OF blks_blk [OF B kb [OF that]]] kb [OF that]
    unfolding blk_ok_def hb by (simp add: st'_def)
  have "blks_ok (blocks (os_heap st')) st' (if keeper st = 0 then [] else [keeper st]) (\<lambda>_. [])"
    using kok kb by (auto simp: blks_ok_def st'_def)
  moreover have "fls_ok st' (chunks (if keeper st = 0 then [] else [keeper st]) (\<lambda>_. [])) (\<lambda>_. [])"
    by (simp add: fls_ok_def st'_def chunks_def)
  ultimately show ?thesis using r f(1) hb by (intro exI [of _ st'] conjI) (simp_all add: as_ok_def, simp_all add: st'_def)
qed

lemma delete_ok:
  assumes ok: "as_ok (blocks (os_heap st)) st bs chs fl" and v: "valid (os_heap st)"
  shows "\<exists>st'. alloc_set_delete mfree st = Some st' \<and> valid (os_heap st') \<and>
    as_ok (blocks (os_heap st')) st' [] (\<lambda>_. []) (\<lambda>_. []) \<and>
    blocks (os_heap st') = (\<lambda>b. if b \<in> set bs then None else blocks (os_heap st) b) \<and>
    set_addr st' = set_addr st \<and> keeper st' = 0"
proof -
  have B: "blks_ok (blocks (os_heap st)) st bs chs" using ok by (simp add: as_ok_def)
  have "\<exists>m. blocks (os_heap st) b = Some m" if "b \<in> set bs" for b using blks_blk [OF B that] by (auto simp: blk_ok_def)
  then have f: "valid (fold (\<lambda>b hp. mfree hp b) bs (os_heap st)) \<and>
      blocks (fold (\<lambda>b hp. mfree hp b) bs (os_heap st)) = (\<lambda>x. if x \<in> set bs then None else blocks (os_heap st) x)"
    using fold_free [OF v blks_distinct [OF B]] by blast
  define st' where "st' = st\<lparr>freelist := (\<lambda>_. 0), set_blocks := 0, keeper := 0,
    os_heap := fold (\<lambda>b hp. mfree hp b) bs (os_heap st)\<rparr>"
  have "alloc_set_delete mfree st = Some st'"
    using delete_blocks_eval [of "st\<lparr>freelist := (\<lambda>_. 0), set_blocks := 0, keeper := 0\<rparr>" "set_blocks st" bs mfree]
      blks_path [OF B] by (simp add: alloc_set_delete_def st'_def)
  then show ?thesis using f by (intro exI [of _ st'] conjI) (simp_all add: st'_def, simp_all add: as_ok_def blks_ok_def fls_ok_def chunks_def)
qed

text \<open>A new set is well formed; its node comes cleared from \<open>memory_context_create\<close>.\<close>

lemma create_ok:
  assumes "valid (os_heap st)" "set_blocks st = 0" "keeper st = 0" "freelist st = (\<lambda>_. 0)"
  shows "(alloc_set_context_create malloc st mn ini mx = Inl Elog_ERROR \<and> (\<exists>hp hp' n. malloc hp n = (0, hp'))) \<or>
    (\<exists>st' bs. alloc_set_context_create malloc st mn ini mx = Inr st' \<and> valid (os_heap st') \<and>
      as_ok (blocks (os_heap st')) st' bs (\<lambda>_. []) (\<lambda>_. []) \<and> keeper st' = (if 48 < mn then hd bs else 0) \<and>
      length bs = (if 48 < mn then 1 else 0) \<and> 1024 \<le> init_block_size st' \<and> init_block_size st' \<le> max_block_size st' \<and>
      blocks (os_heap st) \<subseteq>\<^sub>m blocks (os_heap st') \<and> set_addr st' = set_addr st)"
proof -
  define st1 where "st1 = (let init1 = MAX_ALIGN ini; init2 = (if init1 < 1024 then 1024 else init1); max1 = MAX_ALIGN mx
    in st\<lparr>init_block_size := init2, max_block_size := if max1 < init2 then init2 else max1\<rparr>)"
  have st1: "os_heap st1 = os_heap st" "set_blocks st1 = 0" "keeper st1 = 0" "freelist st1 = (\<lambda>_. 0)"
    "set_addr st1 = set_addr st" "1024 \<le> init_block_size st1" "init_block_size st1 \<le> max_block_size st1"
    using assms by (simp_all add: st1_def Let_def)
  have ok1: "as_ok hb st1 [] chs (\<lambda>_. [])" for hb chs
    using st1 by (simp add: as_ok_def blks_ok_def fls_ok_def chunks_def)
  show ?thesis
  proof (cases "48 < mn")
    case False
    then have "alloc_set_context_create malloc st mn ini mx = Inr st1"
      by (simp add: alloc_set_context_create_def st1_def Let_def)
    then show ?thesis using False assms(1) ok1 st1 by (intro disjI2 exI [of _ st1] exI [of _ "[]"]) auto
  next
    case True
    obtain b hp where m: "malloc (os_heap st) (MAX_ALIGN mn) = (b, hp)" by fastforce
    define st' where "st' = st1\<lparr>os_heap := hp, b_aset := (b_aset st1)(b := set_addr st1), b_freeptr := (b_freeptr st1)(b := b + 32),
      b_endptr := (b_endptr st1)(b := b + MAX_ALIGN mn), b_next := (b_next st1)(b := set_blocks st1), set_blocks := b\<rparr>"
    have c: "alloc_set_context_create malloc st mn ini mx = (if b = 0 then Inl Elog_ERROR else Inr (st'\<lparr>keeper := b\<rparr>))"
      using True m st1(1) by (simp add: alloc_set_context_create_def st'_def st1_def Let_def)
    show ?thesis
    proof (cases "b = 0")
      case True
      then show ?thesis using c m by auto
    next
      case False
      note g = malloc_grown [OF assms(1) m False]
      have "32 \<le> MAX_ALIGN mn" using True MAX_ALIGN_ge [of mn] by linarith
      then have a: "as_ok (blocks hp) st' [b] (\<lambda>_. []) (\<lambda>_. [])"
        using as_ok_new_block(1) [OF ok1 [of _ "\<lambda>_. []"] g(2) False] by (simp add: st'_def fun_upd_idem st1(2))
      then have "as_ok (blocks hp) (st'\<lparr>keeper := b\<rparr>) [b] (\<lambda>_. []) (\<lambda>_. [])"
        by (simp add: as_ok_def blks_ok_def fls_ok_def blk_ok_def)
      then show ?thesis using True False c g(1) grown_sub [OF g(2)] st1
        by (intro disjI2 exI [of _ "st'\<lparr>keeper := b\<rparr>"] exI [of _ "[b]"]) (simp add: st'_def)
    qed
  qed
qed

end

section \<open>Reallocation is correct\<close>

text \<open>
  What a reallocation of the chunk \<open>c\<close> promises: a chunk of at least the new size in its place, with
  the bytes of the old one; the other chunks in use keep their place, size and bytes.
\<close>

definition reallocated ::
  "('h \<Rightarrow> nat \<rightharpoonup> nat) \<Rightarrow> ('h \<Rightarrow> bool) \<Rightarrow> 'h AllocSetContext \<Rightarrow> nat list \<Rightarrow> (nat \<Rightarrow> nat list) \<Rightarrow> (nat \<Rightarrow> nat list) \<Rightarrow>
   nat \<Rightarrow> nat \<Rightarrow> nat \<Rightarrow> 'h AllocSetContext \<Rightarrow> nat list \<Rightarrow> (nat \<Rightarrow> nat list) \<Rightarrow> (nat \<Rightarrow> nat list) \<Rightarrow> bool" where
  "reallocated blocks valid st bs chs fl c sz p st' bs' chs' fl' \<longleftrightarrow>
     valid (os_heap st') \<and> as_ok (blocks (os_heap st')) st' bs' chs' fl' \<and> 16 \<le> p \<and> 16 dvd p \<and>
     sz \<le> c_size st' (p - 16) \<and> p - 16 \<notin> live bs chs fl - {c} \<and> live bs' chs' fl' = insert (p - 16) (live bs chs fl - {c}) \<and>
     (\<forall>d \<in> live bs chs fl - {c}. c_size st' d = c_size st d \<and> (\<forall>i < c_size st d. dat st' (d + 16 + i) = dat st (d + 16 + i))) \<and>
     (\<forall>i < c_size st c. dat st' (p + i) = dat st (c + 16 + i)) \<and>
     set_addr st' = set_addr st \<and> keeper st' = keeper st"

text \<open>The last chunk of a block can grow into the free space behind it.\<close>

lemma last_chunk:
  assumes ok: "blks_ok hb st bs chs" and b: "b \<in> set bs" and c: "c \<in> chunks bs chs" and e: "c + (c_size st c + 16) = b_freeptr st b"
  shows "\<exists>us. chs b = us @ [c]"
proof -
  obtain b' where b': "b' \<in> set bs" "c \<in> set (chs b')" using c by (rule chunksE)
  note r = chunk_range [OF blks_blk [OF ok b'(1)] b'(2)]
  have "b' = b"
  proof (rule ccontr)
    assume "b' \<noteq> b"
    then show False
      using blks_disj [OF ok b'(1) b] r e blk_start [OF blks_blk [OF ok b]] blk_free_end [OF blks_blk [OF ok b]] by linarith
  qed
  then have cb: "c \<in> set (chs b)" using b'(2) by simp
  then obtain us d where d: "chs b = us @ [d]" by (cases "chs b" rule: rev_cases) auto
  have t: "tile (c_size st) (b + 32) (us @ [d]) (b_freeptr st b)" using blk_tile [OF blks_blk [OF ok b]] d by simp
  have "d = c" using tile_disjoint [OF t, of c d] cb d e t by (fastforce simp: tile_snoc)
  then show ?thesis using d by blast
qed

lemma grow_ok:
  assumes ok: "as_ok hb st bs chs fl" and b: "b \<in> set bs" and c: "c \<in> live bs chs fl"
    and e: "c + (c_size st c + 16) = b_freeptr st b" and small: "c_size st c \<le> 8192" and k: "k < 10" "c_size st c \<le> 2 ^ (k + 4)"
    and room: "2 ^ (k + 4) - c_size st c \<le> b_endptr st b - b_freeptr st b"
    and st': "st' = st\<lparr>b_freeptr := (b_freeptr st)(b := b_freeptr st b + (2 ^ (k + 4) - c_size st c)),
      c_size := (c_size st)(c := 2 ^ (k + 4))\<rparr>"
  shows "as_ok hb st' bs chs fl"
proof -
  have B: "blks_ok hb st bs chs" and F: "fls_ok st (chunks bs chs) fl" using ok by (auto simp: as_ok_def)
  have cc: "c \<in> chunks bs chs" and nf: "\<forall>j < 10. c \<notin> set (fl j)" using c by (auto simp: live_def)
  obtain us where us: "chs b = us @ [c]" using last_chunk [OF B b cc e] by blast
  have K: "blk_ok hb st chs b" using blks_blk [OF B b] .
  have cu: "c \<notin> set us" using tile_distinct [OF blk_tile [OF K]] us by simp
  have sz: "c_size st' d = c_size st d" if "d \<noteq> c" for d using that by (simp add: st')
  have "tile (c_size st') (b + 32) us c = tile (c_size st) (b + 32) us c"
    using cu sz by (intro tile_cong) metis
  then have t: "tile (c_size st') (b + 32) (us @ [c]) (b_freeptr st' b)"
    using blk_tile [OF K] us e k(2) by (simp add: tile_snoc st')
  have "chunk_ok st' chs b d" if d: "d \<in> set (chs b)" for d
  proof (cases "d = c")
    case True
    then show ?thesis using k(1) by (auto simp: chunk_ok_def st')
  next
    case False
    have "\<exists>j < 10. c_size st d = 2 ^ (j + 4)" using blk_chunk [OF K d] False us by (auto simp: chunk_ok_def)
    then show ?thesis using sz [OF False] by (simp add: chunk_ok_def)
  qed
  then have "blk_ok hb st' chs b"
    using K t us room blk_free_end [OF K] by (simp add: blk_ok_def st')
  moreover have "blk_ok hb st' chs x" if x: "x \<in> set bs" "x \<noteq> b" for x
  proof (rule blk_ok_cong [OF blks_blk [OF B x(1)]])
    show "c_size st' d = c_size st d" if "d \<in> set (chs x)" for d
      using chunk_owner [OF B x(1) b, of d] that x(2) us sz [of d] by (cases "d = c") auto
  qed (use x(2) in \<open>simp_all add: st'\<close>)
  ultimately have all: "\<forall>x \<in> set bs. blk_ok hb st' chs x" by blast
  have "(2 :: nat) ^ (k + 4) \<le> 2 ^ 13" using k(1) by (intro power_increasing) auto
  then have "blks_ok hb st' bs chs" using B all by (auto simp: blks_ok_def st')
  moreover have "fls_ok st' (chunks bs chs) fl"
    using F nf by (auto simp: fls_ok_def st')
  ultimately show ?thesis by (simp add: as_ok_def)
qed

lemma enlarge_ok:
  assumes ok: "as_ok (blocks (os_heap st)) st bs chs fl" and v: "valid (os_heap st)" and c: "c \<in> live bs chs fl"
    and sz: "c_size st c < sz" and small: "c_size st c \<le> 8192"
  shows "enlarge_in_place st c sz = Inr None \<or>
    (\<exists>st'. enlarge_in_place st c sz = Inr (Some st') \<and> reallocated blocks valid st bs chs fl c sz (c + 16) st' bs chs fl)"
proof -
  define b where "b = set_blocks st"
  have B: "blks_ok (blocks (os_heap st)) st bs chs" using ok by (simp add: as_ok_def)
  have cc: "c \<in> chunks bs chs" using c by (rule live_chunks)
  then obtain x where x: "x \<in> set bs" "c \<in> set (chs x)" by (rule chunksE)
  have b: "b \<in> set bs" "b \<noteq> 0" using blks_path [OF B] x(1) by (cases bs; auto simp: b_def)+
  obtain j where j: "j < 10" "c_size st c = 2 ^ (j + 4)"
    using blk_chunk [OF blks_blk [OF B x(1)] x(2)] small by (auto simp: chunk_ok_def)
  show ?thesis
  proof (cases "sz \<le> 8192 \<and> c + (c_size st c + 16) = b_freeptr st b")
    case False
    then show ?thesis using b(2) by (auto simp: enlarge_in_place_def Let_def b_def)
  next
    case True
    obtain k where k: "k < 10" "alloc_set_free_index sz = Inr k" "sz \<le> 2 ^ (k + 4)" using size_class [of sz] True by auto
    have le: "c_size st c \<le> 2 ^ (k + 4)" using sz k(3) by simp
    define st' where "st' = st\<lparr>b_freeptr := (b_freeptr st)(b := b_freeptr st b + (2 ^ (k + 4) - c_size st c)),
      c_size := (c_size st)(c := 2 ^ (k + 4))\<rparr>"
    have e: "enlarge_in_place st c sz = (if 2 ^ (k + 4) - c_size st c \<le> b_endptr st b - b_freeptr st b then Inr (Some st') else Inr None)"
      using True b(2) k(2) le by (simp add: enlarge_in_place_def Let_def b_def [symmetric] st'_def push_bit_eq_mult)
    show ?thesis
    proof (cases "2 ^ (k + 4) - c_size st c \<le> b_endptr st b - b_freeptr st b")
      case room: True
      have a: "as_ok (blocks (os_heap st')) st' bs chs fl"
        using grow_ok [OF ok b(1) c conjunct2 [OF True] small k(1) le room st'_def] by (simp add: st'_def)
      have "16 dvd c + 16" using blks_chunk_aligned [OF B cc] by (intro dvd_add) auto
      then have "reallocated blocks valid st bs chs fl c sz (c + 16) st' bs chs fl"
        using a v c k(3) by (auto simp: reallocated_def st'_def insert_absorb)
      then show ?thesis using e room by auto
    qed (use e in auto)
  qed
qed

lemma as_ok_dat [simp]: "as_ok hb (st\<lparr>dat := d\<rparr>) bs chs fl = as_ok hb st bs chs fl"
  by (simp add: as_ok_def blks_ok_def blk_ok_def chunk_ok_def fls_ok_def)

lemma other_block_chunk:
  assumes "blks_ok hb st bs chs" "d \<in> chunks bs chs" "\<And>x k. x \<in> set bs \<Longrightarrow> hb x = Some k \<Longrightarrow> {a..<a + l} \<inter> {x..<x + k} = {}" "i < c_size st d"
  shows "d + 16 + i < a \<or> a + l \<le> d + 16 + i"
proof -
  obtain x where x: "x \<in> set bs" "d \<in> set (chs x)" using assms(2) by (rule chunksE)
  obtain k where k: "hb x = Some k" "b_endptr st x \<le> x + k" using blks_blk [OF assms(1) x(1)] by (auto simp: blk_ok_def)
  have "d + 16 + i \<in> {x..<x + k}" using chunk_range [OF blks_blk [OF assms(1) x(1)] x(2)] k(2) assms(4) by auto
  then have "d + 16 + i \<notin> {a..<a + l}" using assms(3) [OF x(1) k(1)] by blast
  then show ?thesis by auto
qed

context aligned_allocator
begin

lemma realloc_large_ok:
  assumes ok: "as_ok (blocks (os_heap st)) st bs chs fl" and v: "valid (os_heap st)" and c: "c \<in> live bs chs fl"
    and sz: "c_size st c < sz" and large: "8192 < c_size st c"
  shows "(realloc_large mrealloc st c sz = Some (Inl Elog_ERROR) \<and> (\<exists>hp b hp' n. mrealloc hp b n = (0, hp'))) \<or>
    (\<exists>p st' bs' chs' fl'. realloc_large mrealloc st c sz = Some (Inr (p, st')) \<and>
      reallocated blocks valid st bs chs fl c sz p st' bs' chs' fl')"
proof -
  have B: "blks_ok (blocks (os_heap st)) st bs chs" using ok by (simp add: as_ok_def)
  have set: "c_aset st c = set_addr st" using ok c by (auto simp: as_ok_def fls_ok_def live_def)
  obtain b ys zs m where b: "bs = ys @ b # zs" "b \<notin> set ys" "c = b + 32" "chs b = [c]" "b \<noteq> keeper st" "b \<noteq> 0"
    "blocks (os_heap st) b = Some m" "b_freeptr st b = b + (c_size st c + 48)"
    using large_chunk_block [OF B live_chunks [OF c] large] by blast
  define s where "s = MAX_ALIGN sz"
  have s: "sz \<le> s" "8192 < s" "16 dvd s" using sz large MAX_ALIGN_ge [of sz] by (auto simp: s_def simp del: MAX_ALIGN_ge)
  obtain a hp where r: "mrealloc (os_heap st) b (s + 48) = (a, hp)" by fastforce
  have fb: "find_block (b_next st) c 0 (set_blocks st) = Some (last (0 # ys), b)"
    unfolding b(3) using blks_path [OF B] b(1,2) by (intro find_block_ok) auto
  show ?thesis
  proof (cases "a = 0")
    case True
    have "realloc_large mrealloc st c sz = Some (Inl Elog_ERROR)"
      using fb b(6,8) r True by (simp add: realloc_large_def Let_def add.commute [of _ 48] s_def)
    then show ?thesis using r True by blast
  next
    case False
    let ?hb = "(blocks (os_heap st))(b := None)"
    note rb = realloc_block [OF v b(7) r False]
    obtain l where l: "s + 48 \<le> l" "blocks hp = ?hb(a \<mapsto> l)"
      "\<And>x k. x \<noteq> b \<Longrightarrow> blocks (os_heap st) x = Some k \<Longrightarrow> {a..<a + l} \<inter> {x..<x + k} = {}"
      and a16: "16 dvd a" "?hb a = None" "valid hp" using rb by blast
    have g: "grown ?hb (blocks hp) a (s + 48)"
      unfolding grown_def using a16(1,2) l by (intro conjI exI [of _ l]) (auto split: if_splits)
    define st1 where "st1 = (if last (0 # ys) = 0 then st\<lparr>set_blocks := b_next st b\<rparr>
      else st\<lparr>b_next := (b_next st)(last (0 # ys) := b_next st b)\<rparr>)\<lparr>os_heap := hp\<rparr>"
    note u = as_ok_unlink [OF ok b(1) c b(4,5) st1_def]
    have ne: "a \<notin> set (ys @ zs)"
      using u(1) a16(2) blks_blk [of ?hb st1 "ys @ zs" chs a] by (auto simp: as_ok_def blk_ok_def)
    obtain st' where st': "realloc_large mrealloc st c sz = Some (Inr (a + 48, st'))"
      "set_blocks st' = (if last (0 # ys) = 0 then a else set_blocks st)"
      "b_next st' = (if last (0 # ys) = 0 then (b_next st)(a := b_next st b) else (b_next st)(a := b_next st b, last (0 # ys) := a))"
      "os_heap st' = hp" "b_freeptr st' = (b_freeptr st)(a := a + (s + 48))" "b_endptr st' = (b_endptr st)(a := a + (s + 48))"
      "c_aset st' = (c_aset st)(a + 32 := c_aset st c)" "c_size st' = (c_size st)(a + 32 := s)"
      "freelist st' = freelist st" "keeper st' = keeper st" "set_addr st' = set_addr st"
      "dat st' = memmove (dat st) (a + 48) (c + 16) (c_size st c)"
      using fb b(3,6,8) r False
      by (auto simp: realloc_large_def Let_def ALLOC_CHUNK_GET_POINTER_def add.commute [of _ 48] s_def move_block_def)
    have ys0: "last (0 # ys) = 0 \<longleftrightarrow> ys = []"
      using path_nonzero [OF blks_path [OF B], of "last ys"] b(1) by (cases ys) auto
    have D: "distinct (ys @ b # zs)" using blks_distinct [OF B] b(1) by simp
    have lastD: "z \<noteq> last ys" if "z \<in> set (butlast ys @ zs)" "ys \<noteq> []" for z
      using D that by (cases ys rule: rev_cases) auto
    have za: "z \<noteq> a" if "z \<in> set (butlast ys @ zs)" for z using ne that in_set_butlastD by fastforce
    have "path (b_next st') (if ys = [] then a else set_blocks st) (ys @ a # zs)"
    proof (rule path_replace [OF blks_path [OF B, unfolded b(1)] D ne False])
      have la: "ys \<noteq> [] \<Longrightarrow> last ys \<noteq> a" using ne last_in_set [of ys] by auto
      show "b_next st' a = b_next st b" using la ys0 by (auto simp: st'(3))
      show "b_next st' (last ys) = a" if "ys \<noteq> []" using that ys0 by (simp add: st'(3))
      show "b_next st' z = b_next st z" if "z \<in> set (butlast ys @ zs)" for z
        using lastD [OF that] za [OF that] ys0 by (simp add: st'(3))
    qed
    then have p: "path (b_next st') (set_blocks st') (ys @ a # zs)" using ys0 by (simp add: st')
    have n: "as_ok (blocks hp) st' (ys @ a # zs) (chs(a := [a + 32])) fl"
      "live (ys @ a # zs) (chs(a := [a + 32])) fl = insert (a + 32) (live (ys @ zs) chs fl)"
      "a + 32 \<notin> chunks (ys @ zs) chs"
      by (intro as_ok_large [OF u(1) g s(2,3) False p]; simp add: st' st1_def set)+
    have sizes: "c_size st' d = c_size st d \<and> (\<forall>i < c_size st d. dat st' (d + 16 + i) = dat st (d + 16 + i))"
      if d: "d \<in> live bs chs fl - {c}" for d
    proof -
      have dc: "d \<in> chunks (ys @ zs) chs" using d u(2) live_chunks by blast
      have "d + 16 + i < a \<or> a + l \<le> d + 16 + i" if "i < c_size st d" for i
      proof (rule other_block_chunk [of ?hb st1 "ys @ zs" chs])
        show "blks_ok ?hb st1 (ys @ zs) chs" using u(1) by (simp add: as_ok_def)
        show "i < c_size st1 d" using that by (simp add: st1_def)
      qed (use dc l(3) in \<open>auto split: if_splits\<close>)
      then have "dat st' (d + 16 + i) = dat st (d + 16 + i)" if "i < c_size st d" for i
        using that l(1) s(1) sz by (fastforce simp: st'(12) memmove_def)
      moreover have "c_size st' d = c_size st d" using dc n(3) by (auto simp: st')
      ultimately show ?thesis by blast
    qed
    have nl: "a + 32 \<notin> live bs chs fl - {c}" using n(3) u(2) live_chunks by blast
    have "16 dvd a + 48" using a16(1) by (intro dvd_add) auto
    then have "reallocated blocks valid st bs chs fl c sz (a + 48) st' (ys @ a # zs) (chs(a := [a + 32])) fl"
      using n u(2) a16(3) s(1) sizes nl
      unfolding reallocated_def by (simp add: st' memmove_def add.commute [of 32])
    then show ?thesis using st'(1) by blast
  qed
qed

end

context aligned_allocator
begin

lemma realloc_copy_ok:
  assumes ok: "as_ok (blocks (os_heap st)) st bs chs fl" and v: "valid (os_heap st)" and c: "c \<in> live bs chs fl"
    and sz: "c_size st c < sz" and a: "allocated blocks valid st bs chs fl sz p st1 bs1 chs1 fl1"
    and st2: "st2 = st1\<lparr>dat := memmove (dat st1) p (c + 16) (c_size st c)\<rparr>"
  shows "\<exists>st' bs' chs' fl'. alloc_set_free mfree st2 (c + 16) = Some (Inr st') \<and>
    reallocated blocks valid st bs chs fl c sz p st' bs' chs' fl'"
proof -
  note A = a [unfolded allocated_def]
  have ok2: "as_ok (blocks (os_heap st2)) st2 bs1 chs1 fl1" and v2: "valid (os_heap st2)" using A by (auto simp: st2)
  have c2: "c \<in> live bs1 chs1 fl1" using A c by blast
  obtain st' bs' chs' fl' where f: "alloc_set_free mfree st2 (c + 16) = Some (Inr st')"
    "freed blocks valid st2 bs1 chs1 fl1 c st' bs' chs' fl'"
    using free_ok [OF ok2 v2 c2] by blast
  note F = f(2) [unfolded freed_def]
  have pc: "p - 16 \<noteq> c" using A c by blast
  have lv: "live bs' chs' fl' = insert (p - 16) (live bs chs fl - {c})" using F A pc by auto
  have B1: "blks_ok (blocks (os_heap st1)) st1 bs1 chs1" using A by (simp add: as_ok_def)
  have size1: "c_size st' d = c_size st d" if "d \<in> live bs chs fl" for d using A F that by (simp add: st2)
  have other: "c_size st' d = c_size st d \<and> (\<forall>i < c_size st d. dat st' (d + 16 + i) = dat st (d + 16 + i))"
    if d: "d \<in> live bs chs fl - {c}" for d
  proof -
    have "d \<in> chunks bs1 chs1" "p - 16 \<in> chunks bs1 chs1" "d \<noteq> p - 16" using A d live_chunks [of _ bs1 chs1 fl1] by blast+
    from chunks_apart [OF B1 this] have "d + 16 + c_size st d \<le> p - 16 \<or> p - 16 + 16 + c_size st1 (p - 16) \<le> d"
      using A d by simp
    moreover have "16 \<le> p" "sz \<le> c_size st1 (p - 16)" using A by blast+
    ultimately have "d + 16 + i < p \<or> p + c_size st c \<le> d + 16 + i" if "i < c_size st d" for i using that sz by linarith
    then have "dat st' (d + 16 + i) = dat st (d + 16 + i)" if "i < c_size st d" for i
      using that A F by (auto simp: st2 memmove_out)
    then show ?thesis using size1 d by blast
  qed
  have "dat st' (p + i) = dat st (c + 16 + i)" if "i < c_size st c" for i
    using A F that by (simp add: st2 memmove_def)
  then have "reallocated blocks valid st bs chs fl c sz p st' bs' chs' fl'"
    using A F lv other by (simp add: reallocated_def st2)
  then show ?thesis using f(1) by blast
qed

lemma realloc_ok:
  assumes ok: "as_ok (blocks (os_heap st)) st bs chs fl" and v: "valid (os_heap st)" and c: "c \<in> live bs chs fl"
  shows "(alloc_set_realloc malloc mfree mrealloc st (c + 16) sz = Some (Inl Elog_ERROR) \<and>
      ((\<exists>hp hp' n. malloc hp n = (0, hp')) \<or> (\<exists>hp b hp' n. mrealloc hp b n = (0, hp')))) \<or>
    (\<exists>p st' bs' chs' fl'. alloc_set_realloc malloc mfree mrealloc st (c + 16) sz = Some (Inr (p, st')) \<and>
      reallocated blocks valid st bs chs fl c sz p st' bs' chs' fl')"
proof -
  have B: "blks_ok (blocks (os_heap st)) st bs chs" using ok by (simp add: as_ok_def)
  consider "sz \<le> c_size st c" | "c_size st c < sz" "8192 < c_size st c" | "c_size st c < sz" "c_size st c \<le> 8192" by linarith
  then show ?thesis
  proof cases
    case 1
    have "16 dvd c + 16" using blks_chunk_aligned [OF B live_chunks [OF c]] by (intro dvd_add) auto
    then have "reallocated blocks valid st bs chs fl c sz (c + 16) st bs chs fl"
      using ok v c 1 by (auto simp: reallocated_def insert_absorb)
    moreover have "alloc_set_realloc malloc mfree mrealloc st (c + 16) sz = Some (Inr (c + 16, st))"
      using 1 by (simp add: alloc_set_realloc_def ALLOC_POINTER_GET_CHUNK_def)
    ultimately show ?thesis by blast
  next
    case 2
    then have "alloc_set_realloc malloc mfree mrealloc st (c + 16) sz = realloc_large mrealloc st c sz"
      by (simp add: alloc_set_realloc_def ALLOC_POINTER_GET_CHUNK_def Let_def)
    then show ?thesis using realloc_large_ok [OF ok v c 2] by auto
  next
    case 3
    have r: "alloc_set_realloc malloc mfree mrealloc st (c + 16) sz = (case enlarge_in_place st c sz of
           Inl e \<Rightarrow> Some (Inl e) | Inr (Some st1) \<Rightarrow> Some (Inr (c + 16, st1))
         | Inr None \<Rightarrow> (case alloc_set_alloc malloc st sz of None \<Rightarrow> None | Some (Inl e) \<Rightarrow> Some (Inl e)
              | Some (Inr (p, st1)) \<Rightarrow>
                  (case alloc_set_free mfree (st1\<lparr>dat := memmove (dat st1) p (c + 16) (c_size st c)\<rparr>) (c + 16) of None \<Rightarrow> None
                   | Some (Inl e) \<Rightarrow> Some (Inl e) | Some (Inr st3) \<Rightarrow> Some (Inr (p, st3)))))"
      unfolding alloc_set_realloc_def ALLOC_POINTER_GET_CHUNK_def Let_def aset_consts add_diff_cancel_right' using 3 by simp
    show ?thesis
    proof (rule disjE [OF enlarge_ok [of blocks st bs chs fl valid c sz, OF ok v c 3]])
      assume none: "enlarge_in_place st c sz = Inr None"
      show ?thesis
      proof (rule disjE [OF alloc_ok [OF ok v, of sz]])
        assume "alloc_set_alloc malloc st sz = Some (Inl Elog_ERROR) \<and> (\<exists>hp hp' n. malloc hp n = (0, hp'))"
        then show ?thesis using r none by simp
      next
        assume "\<exists>p st' bs' chs' fl'. alloc_set_alloc malloc st sz = Some (Inr (p, st')) \<and>
          allocated blocks valid st bs chs fl sz p st' bs' chs' fl'"
        then obtain p st1 bs1 chs1 fl1 where a: "alloc_set_alloc malloc st sz = Some (Inr (p, st1))"
          "allocated blocks valid st bs chs fl sz p st1 bs1 chs1 fl1" by blast
        obtain st' bs' chs' fl' where "alloc_set_free mfree (st1\<lparr>dat := memmove (dat st1) p (c + 16) (c_size st c)\<rparr>) (c + 16) = Some (Inr st')"
          "reallocated blocks valid st bs chs fl c sz p st' bs' chs' fl'"
          using realloc_copy_ok [OF ok v c 3(1) a(2) refl] by blast
        then show ?thesis using r none a(1) by auto
      qed
    next
      assume "\<exists>st'. enlarge_in_place st c sz = Inr (Some st') \<and> reallocated blocks valid st bs chs fl c sz (c + 16) st' bs chs fl"
      then show ?thesis using r by auto
    qed
  qed
qed

end

section \<open>An allocation set is an allocator\<close>

text \<open>
  The blocks, chunks and free lists of a state are unique, so the chunks in use are a function of it.
  With them an allocation set satisfies the interface it relies on: clients of \<open>palloc\<close> and \<open>pfree\<close>
  such as the hash tables see an allocator.
\<close>

lemma path_unique: "path m i xs \<Longrightarrow> path m i ys \<Longrightarrow> xs = ys"
proof (induction xs arbitrary: i ys)
  case Nil
  then show ?case by (cases ys) auto
next
  case (Cons x xs)
  then show ?case by (cases ys) auto
qed

lemma tile_unique: "tile csz a xs e \<Longrightarrow> tile csz a ys e \<Longrightarrow> xs = ys"
proof (induction xs arbitrary: a ys)
  case Nil
  then show ?case using tile_range [of csz a ys e a] by (cases ys) auto
next
  case (Cons x xs)
  then show ?case using tile_range [of csz a "x # xs" e a] by (cases ys) auto
qed

lemma live_unique:
  assumes "as_ok hb st bs chs fl" "as_ok hb st bs' chs' fl'"
  shows "live bs chs fl = live bs' chs' fl'"
proof -
  have B: "blks_ok hb st bs chs" "blks_ok hb st bs' chs'" using assms by (auto simp: as_ok_def)
  have bs: "bs' = bs" using path_unique [OF blks_path [OF B(2)] blks_path [OF B(1)]] .
  have "chs' b = chs b" if "b \<in> set bs" for b
    using tile_unique [OF blk_tile [OF blks_blk [OF B(2)]] blk_tile [OF blks_blk [OF B(1)]]] that bs by blast
  then have "chunks bs' chs' = chunks bs chs" by (auto simp: chunks_def bs)
  moreover have "fl' k = fl k" if "k < 10" for k
    using assms that path_unique [of "c_aset st" "freelist st k" "fl' k" "fl k"] by (simp add: as_ok_def fls_ok_def)
  ultimately show ?thesis by (auto simp: live_def)
qed

definition aset_valid :: "('h \<Rightarrow> nat \<rightharpoonup> nat) \<Rightarrow> ('h \<Rightarrow> bool) \<Rightarrow> 'h AllocSetContext \<Rightarrow> bool" where
  "aset_valid blocks valid st \<longleftrightarrow> valid (os_heap st) \<and> (\<exists>bs chs fl. as_ok (blocks (os_heap st)) st bs chs fl)"

definition aset_blocks :: "('h \<Rightarrow> nat \<rightharpoonup> nat) \<Rightarrow> 'h AllocSetContext \<Rightarrow> nat \<rightharpoonup> nat" where
  "aset_blocks blocks st p =
     (if \<exists>bs chs fl. as_ok (blocks (os_heap st)) st bs chs fl \<and> 16 \<le> p \<and> p - 16 \<in> live bs chs fl
      then Some (c_size st (p - 16)) else None)"

text \<open>An allocation or release as a client sees it: when control leaves through \<open>elog\<close>, nothing has been given out.\<close>

definition aset_alloc :: "('h \<Rightarrow> nat \<Rightarrow> nat \<times> 'h) \<Rightarrow> 'h AllocSetContext \<Rightarrow> nat \<Rightarrow> nat \<times> 'h AllocSetContext" where
  "aset_alloc malloc st n = (case alloc_set_alloc malloc st n of Some (Inr r) \<Rightarrow> r | _ \<Rightarrow> (0, st))"

definition aset_free :: "('h \<Rightarrow> nat \<Rightarrow> 'h) \<Rightarrow> 'h AllocSetContext \<Rightarrow> nat \<Rightarrow> 'h AllocSetContext" where
  "aset_free mfree st p = (case alloc_set_free mfree st p of Some (Inr st') \<Rightarrow> st' | _ \<Rightarrow> st)"

lemma aset_blocks_live:
  assumes "as_ok (blocks (os_heap st)) st bs chs fl"
  shows "aset_blocks blocks st p = (if 16 \<le> p \<and> p - 16 \<in> live bs chs fl then Some (c_size st (p - 16)) else None)"
proof -
  have "(\<exists>bs chs fl. as_ok (blocks (os_heap st)) st bs chs fl \<and> 16 \<le> p \<and> p - 16 \<in> live bs chs fl) \<longleftrightarrow>
      16 \<le> p \<and> p - 16 \<in> live bs chs fl"
    using assms live_unique [OF assms] by blast
  then show ?thesis by (simp add: aset_blocks_def)
qed

lemma aset_blocks_apart:
  assumes ok: "as_ok (blocks (os_heap st)) st bs chs fl" and c: "c \<in> live bs chs fl"
    and q: "aset_blocks blocks st q = Some k" "q \<noteq> c + 16"
  shows "{c + 16..<c + 16 + c_size st c} \<inter> {q..<q + k} = {}"
proof -
  have B: "blks_ok (blocks (os_heap st)) st bs chs" using ok by (simp add: as_ok_def)
  have d: "16 \<le> q" "q - 16 \<in> live bs chs fl" "k = c_size st (q - 16)"
    using q(1) aset_blocks_live [of blocks st bs chs fl q, OF ok] by (auto split: if_splits)
  have "c \<noteq> q - 16" using q(2) d(1) by auto
  from chunks_apart [OF B live_chunks [OF c] live_chunks [OF d(2)] this] show ?thesis using d(1,3) by auto
qed

context aligned_allocator
begin

lemma aset_alloc_block:
  assumes V: "aset_valid blocks valid st" and r: "aset_alloc malloc st n = (p, st')" and p: "p \<noteq> 0"
  shows "aset_valid blocks valid st' \<and> aset_blocks blocks st p = None \<and>
    (\<exists>m \<ge> n. aset_blocks blocks st' = (aset_blocks blocks st)(p \<mapsto> m) \<and>
      (\<forall>b k. aset_blocks blocks st b = Some k \<longrightarrow> {p..<p + m} \<inter> {b..<b + k} = {}))"
proof -
  obtain bs chs fl where ok: "as_ok (blocks (os_heap st)) st bs chs fl" and v: "valid (os_heap st)"
    using V by (auto simp: aset_valid_def)
  obtain bs' chs' fl' where a: "allocated blocks valid st bs chs fl n p st' bs' chs' fl'"
    using alloc_ok [OF ok v, of n] r p by (auto simp: aset_alloc_def)
  note A = a [unfolded allocated_def]
  have ok': "as_ok (blocks (os_heap st')) st' bs' chs' fl'" using A by blast
  have ne: "q - 16 \<noteq> p - 16" if "q \<noteq> p" "16 \<le> q" for q using that A by auto
  have upd: "aset_blocks blocks st' = (aset_blocks blocks st)(p \<mapsto> c_size st' (p - 16))"
    unfolding aset_blocks_live [of blocks st' bs' chs' fl', OF ok'] aset_blocks_live [of blocks st bs chs fl, OF ok] using A ne by (auto simp: fun_eq_iff)
  have none: "aset_blocks blocks st p = None" unfolding aset_blocks_live [of blocks st bs chs fl, OF ok] using A by auto
  have pl: "p - 16 \<in> live bs' chs' fl'" "p - 16 + 16 = p" using A by auto
  have "{p..<p + c_size st' (p - 16)} \<inter> {q..<q + k} = {}" if q: "aset_blocks blocks st q = Some k" for q k
  proof -
    have "q \<noteq> p" using q none by auto
    then show ?thesis using aset_blocks_apart [of blocks st' bs' chs' fl' _ q k, OF ok' pl(1)] q unfolding pl(2) upd by simp
  qed
  then show ?thesis using A ok' upd none by (auto simp: aset_valid_def)
qed

end

sublocale aligned_allocator \<subseteq> palloc: allocator "aset_alloc malloc" "aset_free mfree" "aset_blocks blocks" "aset_valid blocks valid"
proof unfold_locales
  fix st n st'
  assume V: "aset_valid blocks valid st" and r: "aset_alloc malloc st n = (0, st')"
  obtain bs chs fl where ok: "as_ok (blocks (os_heap st)) st bs chs fl" and v: "valid (os_heap st)"
    using V by (auto simp: aset_valid_def)
  have "st' = st" using alloc_ok [OF ok v, of n] r by (auto simp: aset_alloc_def allocated_def)
  then show "aset_valid blocks valid st' \<and> aset_blocks blocks st' = aset_blocks blocks st" using V by simp
next
  fix st p n
  assume V: "aset_valid blocks valid st" and p: "aset_blocks blocks st p = Some n"
  obtain bs chs fl where ok: "as_ok (blocks (os_heap st)) st bs chs fl" and v: "valid (os_heap st)"
    using V by (auto simp: aset_valid_def)
  have c: "16 \<le> p" "p - 16 \<in> live bs chs fl" using p aset_blocks_live [of blocks st bs chs fl p, OF ok] by (auto split: if_splits)
  obtain st' bs' chs' fl' where f: "alloc_set_free mfree st (p - 16 + 16) = Some (Inr st')"
    "freed blocks valid st bs chs fl (p - 16) st' bs' chs' fl'"
    using free_ok [OF ok v c(2)] by blast
  note F = f(2) [unfolded freed_def]
  have st': "aset_free mfree st p = st'" using f(1) c(1) by (simp add: aset_free_def)
  have ok': "as_ok (blocks (os_heap st')) st' bs' chs' fl'" using F by blast
  have "q - 16 \<noteq> p - 16" if "q \<noteq> p" "16 \<le> q" for q using that c(1) by auto
  then have "aset_blocks blocks st' = (aset_blocks blocks st)(p := None)"
    unfolding aset_blocks_live [of blocks st' bs' chs' fl', OF ok'] aset_blocks_live [of blocks st bs chs fl, OF ok] using F by (auto simp: fun_eq_iff)
  then show "aset_valid blocks valid (aset_free mfree st p) \<and>
      aset_blocks blocks (aset_free mfree st p) = (aset_blocks blocks st)(p := None)"
    unfolding st' using F ok' by (auto simp: aset_valid_def)
qed (rule aset_alloc_block)

context aligned_allocator
begin

lemma palloc_allocator: "allocator (aset_alloc malloc) (aset_free mfree) (aset_blocks blocks) (aset_valid blocks valid)"
  by (rule palloc.allocator_axioms)

end

section \<open>A concrete malloc\<close>

text \<open>The bump allocator with sizes rounded so that every address is a multiple of 16.\<close>

definition bump_malloc :: "bump \<Rightarrow> nat \<Rightarrow> nat \<times> bump" where
  "bump_malloc hp n = bump_alloc hp (MAX_ALIGN n + 15)"

definition bump_realloc :: "bump \<Rightarrow> nat \<Rightarrow> nat \<Rightarrow> nat \<times> bump" where
  "bump_realloc hp b n = bump_malloc (bump_free hp b) n"

definition bump_ok :: "bump \<Rightarrow> bool" where
  "bump_ok hp \<longleftrightarrow> bump_valid hp \<and> 16 dvd fst hp"

lemma bump_malloc_block:
  assumes "bump_ok hp" "bump_malloc hp n = (a, hp')" "a \<noteq> 0"
  shows "bump_ok hp' \<and> 16 dvd a \<and> snd hp a = None \<and>
    (\<exists>m \<ge> n. snd hp' = (snd hp)(a \<mapsto> m) \<and> (\<forall>b k. snd hp b = Some k \<longrightarrow> {a..<a + m} \<inter> {b..<b + k} = {}))"
proof -
  have v: "bump_valid hp" "16 dvd fst hp" using assms(1) by (auto simp: bump_ok_def)
  obtain m where m: "MAX_ALIGN n + 15 \<le> m" "snd hp' = (snd hp)(a \<mapsto> m)"
    "\<forall>b k. snd hp b = Some k \<longrightarrow> {a..<a + m} \<inter> {b..<b + k} = {}" "bump_valid hp'" "snd hp a = None"
    using bump.alloc_block [OF v(1) assms(2) [unfolded bump_malloc_def] assms(3)] by blast
  have "fst hp' = fst hp + (MAX_ALIGN n + 16)" "a = fst hp" using assms(2) by (auto simp: bump_malloc_def bump_alloc_def)
  moreover have "16 dvd fst hp + (MAX_ALIGN n + 16)" using v(2) by (intro dvd_add) auto
  moreover have "n \<le> m" using m(1) MAX_ALIGN_ge [of n] by linarith
  ultimately show ?thesis using m v(2) by (intro conjI exI [of _ m]) (auto simp: bump_ok_def)
qed

interpretation bump16: aligned_allocator bump_malloc bump_free snd bump_ok bump_realloc
proof unfold_locales
  fix hp hp' :: bump and n a b m
  show "bump_ok hp' \<and> snd hp' = snd hp" if "bump_ok hp" "bump_malloc hp n = (0, hp')"
    using that by (auto simp: bump_ok_def bump_malloc_def bump_alloc_def bump_valid_def)
  show "16 dvd a" if "bump_ok hp" "bump_malloc hp n = (a, hp')"
    using that by (auto simp: bump_ok_def bump_malloc_def bump_alloc_def)
  show f: "bump_ok (bump_free hp a) \<and> snd (bump_free hp a) = (snd hp)(a := None)" if "bump_ok hp" "snd hp a = Some n" for a n
    using that bump.free_block [of hp a n] by (auto simp: bump_ok_def bump_free_def)
  show "bump_ok hp' \<and> snd hp' = snd hp" if "bump_ok hp" "snd hp b = Some m" "bump_realloc hp b n = (0, hp')"
    using that f [OF that(1,2)] by (auto simp: bump_ok_def bump_realloc_def bump_malloc_def bump_alloc_def bump_valid_def bump_free_def)
  show "bump_ok hp' \<and> 16 dvd a \<and> ((snd hp)(b := None)) a = None \<and>
      (\<exists>l \<ge> n. snd hp' = (snd hp)(b := None, a \<mapsto> l) \<and>
        (\<forall>x k. x \<noteq> b \<longrightarrow> snd hp x = Some k \<longrightarrow> {a..<a + l} \<inter> {x..<x + k} = {}))"
    if "bump_ok hp" "snd hp b = Some m" "bump_realloc hp b n = (a, hp')" "a \<noteq> 0"
  proof -
    note ff = conjunct2 [OF f [OF that(1,2)]]
    note r = bump_malloc_block [OF conjunct1 [OF f [OF that(1,2)]] that(3) [unfolded bump_realloc_def] that(4)]
    obtain l where l: "n \<le> l" "snd hp' = (snd hp)(b := None, a \<mapsto> l)"
      "\<And>x k. ((snd hp)(b := None)) x = Some k \<Longrightarrow> {a..<a + l} \<inter> {x..<x + k} = {}"
      and o: "bump_ok hp'" "16 dvd a" "((snd hp)(b := None)) a = None"
      using r unfolding ff by blast
    have "{a..<a + l} \<inter> {x..<x + k} = {}" if "x \<noteq> b" "snd hp x = Some k" for x k using that by (intro l(3)) simp
    then show ?thesis using l(1,2) o by blast
  qed
qed (use bump_malloc_block in blast)

lemmas bump_aligned = bump16.aligned_allocator_axioms

text \<open>A set with one block at address 16 that holds one chunk of 64 bytes, and a set without blocks.\<close>

definition aset0 :: "bump AllocSetContext" where
  "aset0 = \<lparr>set_addr = 7, set_blocks = 0, freelist = (\<lambda>_. 0), init_block_size = 1024, max_block_size = 8192,
     keeper = 0, b_aset = (\<lambda>_. 0), b_next = (\<lambda>_. 0), b_freeptr = (\<lambda>_. 0), b_endptr = (\<lambda>_. 0),
     c_aset = (\<lambda>_. 0), c_size = (\<lambda>_. 0), dat = (\<lambda>_. 0), os_heap = (4096, Map.empty)\<rparr>"

definition aset1 :: "bump AllocSetContext" where
  "aset1 = aset0\<lparr>set_blocks := 16, b_freeptr := (\<lambda>_. 128), b_endptr := (\<lambda>_. 1040), c_aset := (\<lambda>_. 7),
     c_size := (\<lambda>_. 64), os_heap := (4096, [16 \<mapsto> 1024])\<rparr>"

lemma aset0_ok: "bump_ok (os_heap aset0)" "as_ok (snd (os_heap aset0)) aset0 [] (\<lambda>_. []) (\<lambda>_. [])"
  by (simp_all add: aset0_def bump_ok_def bump_valid_def as_ok_def blks_ok_def fls_ok_def chunks_def)

lemma aset1_ok: "bump_ok (os_heap aset1)" "as_ok (snd (os_heap aset1)) aset1 [16] (\<lambda>_. [48]) (\<lambda>_. [])"
  "48 \<in> live [16] (\<lambda>_. [48]) (\<lambda>_. [])"
proof -
  have "\<exists>k < 10. (64 :: nat) = 2 ^ (k + 4)" by (rule exI [of _ 2]) simp
  then show "as_ok (snd (os_heap aset1)) aset1 [16] (\<lambda>_. [48]) (\<lambda>_. [])"
    by (simp add: aset1_def aset0_def as_ok_def blks_ok_def blk_ok_def chunk_ok_def fls_ok_def chunks_def)
qed (simp_all add: aset1_def aset0_def bump_ok_def bump_valid_def live_def chunks_def)

section \<open>Properties\<close>

text \<open>
  C25. \<open>alloc_set_alloc\<close> on a well-formed set always returns. It raises an error only when \<open>malloc\<close>
  fails; otherwise it gives an aligned pointer to a new chunk of at least the requested size that
  belongs to the set and overlaps no chunk in use, and the set stays well formed.
\<close>

theorem alloc_set_alloc_correct:
  assumes "aligned_allocator malloc mfree blocks valid mrealloc" "valid (os_heap st)" "as_ok (blocks (os_heap st)) st bs chs fl"
  shows "(alloc_set_alloc malloc st sz = Some (Inl Elog_ERROR) \<and> (\<exists>hp hp' n. malloc hp n = (0, hp'))) \<or>
    (\<exists>p st' bs' chs' fl'. alloc_set_alloc malloc st sz = Some (Inr (p, st')) \<and>
      allocated blocks valid st bs chs fl sz p st' bs' chs' fl' \<and>
      (\<forall>c \<in> live bs chs fl. c + 16 + c_size st c \<le> p - 16 \<or> p + c_size st' (p - 16) \<le> c))"
proof (rule disjE [OF aligned_allocator.alloc_ok [OF assms(1,3,2), of sz]])
  assume "\<exists>p st' bs' chs' fl'. alloc_set_alloc malloc st sz = Some (Inr (p, st')) \<and>
    allocated blocks valid st bs chs fl sz p st' bs' chs' fl'"
  then obtain p st' bs' chs' fl' where r: "alloc_set_alloc malloc st sz = Some (Inr (p, st'))"
    "allocated blocks valid st bs chs fl sz p st' bs' chs' fl'" by blast
  note A = r(2) [unfolded allocated_def]
  have "c + 16 + c_size st c \<le> p - 16 \<or> p + c_size st' (p - 16) \<le> c" if c: "c \<in> live bs chs fl" for c
  proof -
    have "blks_ok (blocks (os_heap st')) st' bs' chs'" using A by (simp add: as_ok_def)
    moreover have "c \<in> chunks bs' chs'" "p - 16 \<in> chunks bs' chs'" "c \<noteq> p - 16" using A c live_chunks [of _ bs' chs' fl'] by blast+
    ultimately have "c + 16 + c_size st' c \<le> p - 16 \<or> p - 16 + 16 + c_size st' (p - 16) \<le> c" by (rule chunks_apart)
    moreover have "16 \<le> p" "c_size st' c = c_size st c" using A c by blast+
    ultimately show ?thesis by simp
  qed
  then show ?thesis using r by blast
qed blast

theorem alloc_set_alloc_correct_witness:
  "\<exists>p st' bs' chs' fl'. alloc_set_alloc bump_malloc aset1 100 = Some (Inr (p, st')) \<and>
     allocated snd bump_ok aset1 [16] (\<lambda>_. [48]) (\<lambda>_. []) 100 p st' bs' chs' fl'"
proof -
  have "(case alloc_set_alloc bump_malloc aset1 100 of Some (Inr _) \<Rightarrow> True | _ \<Rightarrow> False)"
    by (simp add: alloc_set_alloc_def alloc_set_free_index_def free_index_loop.simps find_free.simps aset1_def aset0_def
        active_block_def cut_chunk_def Let_def drop_bit_eq_div push_bit_eq_mult)
  then have "alloc_set_alloc bump_malloc aset1 100 \<noteq> Some (Inl Elog_ERROR)" by auto
  then show ?thesis using alloc_set_alloc_correct [OF bump_aligned aset1_ok(1,2), of 100] by blast
qed

text \<open>
  C27. \<open>alloc_set_free\<close> of a chunk in use always succeeds: exactly that chunk is no longer in use, a
  chunk above the limit gives its block back to \<open>free\<close>, and the set stays well formed.
\<close>

theorem alloc_set_free_correct:
  assumes "aligned_allocator malloc mfree blocks valid mrealloc" "valid (os_heap st)" "as_ok (blocks (os_heap st)) st bs chs fl"
    "p - 16 \<in> live bs chs fl" "16 \<le> p"
  shows "\<exists>st' bs' chs' fl'. alloc_set_free mfree st p = Some (Inr st') \<and> freed blocks valid st bs chs fl (p - 16) st' bs' chs' fl'"
  using aligned_allocator.free_ok [OF assms(1,3,2,4)] assms(5) by simp

theorem alloc_set_free_correct_witness:
  "\<exists>st' bs' chs' fl'. alloc_set_free bump_free aset1 64 = Some (Inr st') \<and>
     freed snd bump_ok aset1 [16] (\<lambda>_. [48]) (\<lambda>_. []) (64 - 16) st' bs' chs' fl'"
  by (rule alloc_set_free_correct [OF bump_aligned aset1_ok(1,2)]) (use aset1_ok(3) in simp_all)

text \<open>
  C26. \<open>alloc_set_realloc\<close> of a chunk in use always returns: unless \<open>malloc\<close> or \<open>realloc\<close> fails, the
  chunk is replaced by one of at least the new size that holds the old bytes, no other chunk in use
  is moved, resized or overwritten, and the set stays well formed.
\<close>

theorem alloc_set_realloc_correct:
  assumes "aligned_allocator malloc mfree blocks valid mrealloc" "valid (os_heap st)" "as_ok (blocks (os_heap st)) st bs chs fl"
    "c \<in> live bs chs fl"
  shows "(alloc_set_realloc malloc mfree mrealloc st (c + 16) sz = Some (Inl Elog_ERROR) \<and>
      ((\<exists>hp hp' n. malloc hp n = (0, hp')) \<or> (\<exists>hp b hp' n. mrealloc hp b n = (0, hp')))) \<or>
    (\<exists>p st' bs' chs' fl'. alloc_set_realloc malloc mfree mrealloc st (c + 16) sz = Some (Inr (p, st')) \<and>
      reallocated blocks valid st bs chs fl c sz p st' bs' chs' fl')"
  by (rule aligned_allocator.realloc_ok [OF assms(1,3,2,4)])

theorem alloc_set_realloc_correct_witness:
  "\<exists>p st' bs' chs' fl'. alloc_set_realloc bump_malloc bump_free bump_realloc aset1 (48 + 16) 100 = Some (Inr (p, st')) \<and>
     reallocated snd bump_ok aset1 [16] (\<lambda>_. [48]) (\<lambda>_. []) 48 100 p st' bs' chs' fl'"
proof -
  have "(case alloc_set_realloc bump_malloc bump_free bump_realloc aset1 (48 + 16) 100 of Some (Inr _) \<Rightarrow> True | _ \<Rightarrow> False)"
    by (simp add: alloc_set_realloc_def ALLOC_POINTER_GET_CHUNK_def enlarge_in_place_def alloc_set_free_index_def
        free_index_loop.simps aset1_def aset0_def Let_def drop_bit_eq_div push_bit_eq_mult)
  then have "alloc_set_realloc bump_malloc bump_free bump_realloc aset1 (48 + 16) 100 \<noteq> Some (Inl Elog_ERROR)" by auto
  then show ?thesis using alloc_set_realloc_correct [OF bump_aligned aset1_ok, of 100] by blast
qed

text \<open>
  \<open>alloc_set_reset\<close> ends, frees every block but the keeper, and leaves a well-formed set without
  chunks whose only block is the emptied keeper, if there is one.
\<close>

theorem alloc_set_reset_correct:
  assumes "aligned_allocator malloc mfree blocks valid mrealloc" "valid (os_heap st)" "as_ok (blocks (os_heap st)) st bs chs fl"
  shows "\<exists>st'. alloc_set_reset mfree st = Some st' \<and> valid (os_heap st') \<and>
    as_ok (blocks (os_heap st')) st' (if keeper st = 0 then [] else [keeper st]) (\<lambda>_. []) (\<lambda>_. []) \<and>
    blocks (os_heap st') = (\<lambda>b. if b \<in> set bs \<and> b \<noteq> keeper st then None else blocks (os_heap st) b) \<and>
    set_addr st' = set_addr st \<and> keeper st' = keeper st"
  by (rule aligned_allocator.reset_ok [OF assms(1,3,2)])

theorem alloc_set_reset_correct_witness:
  "\<exists>st'. alloc_set_reset bump_free aset1 = Some st' \<and> snd (os_heap st') 16 = None"
  using alloc_set_reset_correct [OF bump_aligned aset1_ok(1,2)] by (auto simp: aset1_def aset0_def)

text \<open>
  \<open>alloc_set_delete\<close> ends and gives every block of the set back to \<open>free\<close>, the keeper too; blocks
  of other owners are untouched.
\<close>

theorem alloc_set_delete_correct:
  assumes "aligned_allocator malloc mfree blocks valid mrealloc" "valid (os_heap st)" "as_ok (blocks (os_heap st)) st bs chs fl"
  shows "\<exists>st'. alloc_set_delete mfree st = Some st' \<and> valid (os_heap st') \<and>
    as_ok (blocks (os_heap st')) st' [] (\<lambda>_. []) (\<lambda>_. []) \<and>
    blocks (os_heap st') = (\<lambda>b. if b \<in> set bs then None else blocks (os_heap st) b) \<and>
    set_addr st' = set_addr st \<and> keeper st' = 0"
  by (rule aligned_allocator.delete_ok [OF assms(1,3,2)])

theorem alloc_set_delete_correct_witness:
  "\<exists>st'. alloc_set_delete bump_free aset1 = Some st' \<and> snd (os_heap st') 16 = None"
  using alloc_set_delete_correct [OF bump_aligned aset1_ok(1,2)] by auto

text \<open>
  \<open>alloc_set_context_create\<close> on a cleared node gives a well-formed set without chunks, with a
  keeper block exactly when one was asked for, and block sizes in order; it fails only when \<open>malloc\<close> does.
\<close>

theorem alloc_set_context_create_correct:
  assumes "aligned_allocator malloc mfree blocks valid mrealloc" "valid (os_heap st)" "set_blocks st = 0" "keeper st = 0"
    "freelist st = (\<lambda>_. 0)"
  shows "(alloc_set_context_create malloc st mn ini mx = Inl Elog_ERROR \<and> (\<exists>hp hp' n. malloc hp n = (0, hp'))) \<or>
    (\<exists>st' bs. alloc_set_context_create malloc st mn ini mx = Inr st' \<and> valid (os_heap st') \<and>
      as_ok (blocks (os_heap st')) st' bs (\<lambda>_. []) (\<lambda>_. []) \<and> keeper st' = (if 48 < mn then hd bs else 0) \<and>
      length bs = (if 48 < mn then 1 else 0) \<and> 1024 \<le> init_block_size st' \<and> init_block_size st' \<le> max_block_size st' \<and>
      blocks (os_heap st) \<subseteq>\<^sub>m blocks (os_heap st') \<and> set_addr st' = set_addr st)"
  by (rule aligned_allocator.create_ok [OF assms])

theorem alloc_set_context_create_correct_witness:
  "\<exists>st'. alloc_set_context_create bump_malloc aset0 0 100 100 = Inr st' \<and> 1024 \<le> init_block_size st'"
  using alloc_set_context_create_correct [OF bump_aligned aset0_ok(1), of 0 100 100]
  by (auto simp: aset0_def alloc_set_context_create_def Let_def)



end
