(* ===== verification/Fd.thy ===== *)
theory Fd
  imports Ring Links
begin

text \<open>
  Virtual file descriptors, \<^verbatim>\<open>storage/file/fd.c\<close>. \<open>VfdCache\<close> is an array (a function on indices
  below \<open>SizeVfdCache\<close>); entry 0 is the anchor of the recency ring and of the free list. The kernel
  is a parameter: a record of the system calls over a state \<open>'o\<close>, each returning its result and the
  new state. \<open>open\<close> and \<open>fopen\<close> also tell whether \<open>errno\<close> is \<open>EMFILE\<close> or \<open>ENFILE\<close>; \<open>k_malloc\<close> tells
  whether memory is available; \<open>k_open_max\<close> is \<open>sysconf(_SC_OPEN_MAX)\<close>, or \<open>None\<close> in a build without
  it. The debugging output is left out.
\<close>

section \<open>Descriptors and state\<close>

record Vfd =
  fd :: int
  fdstate :: "16 word"
  next_free :: nat
  lru_more_recently :: nat
  lru_less_recently :: nat
  seek_pos :: int
  filename :: "string option"
  file_flags :: int
  file_mode :: int

definition VFD_CLOSED :: int where "VFD_CLOSED = -1"
definition FILE_UNKNOWN_POS :: int where "FILE_UNKNOWN_POS = -1"
definition FD_DIRTY :: "16 word" where "FD_DIRTY = push_bit 0 1"
definition FD_TEMPORARY :: "16 word" where "FD_TEMPORARY = push_bit 1 1"
definition MAX_ALLOCATED_FILES :: nat where "MAX_ALLOCATED_FILES = 32"
definition RESERVE_FOR_LD :: int where "RESERVE_FOR_LD = 10"
definition FD_MINFREE :: int where "FD_MINFREE = 10"
definition NOFILE :: int where "NOFILE = 256"

text \<open>Constants of \<open>fcntl.h\<close> and \<open>unistd.h\<close> on Linux.\<close>

definition O_RDWR :: int where "O_RDWR = 2"
definition O_CREAT :: int where "O_CREAT = 64"
definition O_EXCL :: int where "O_EXCL = 128"
definition O_TRUNC :: int where "O_TRUNC = 512"
definition SEEK_SET :: int where "SEEK_SET = 0"
definition SEEK_CUR :: int where "SEEK_CUR = 1"
definition SEEK_END :: int where "SEEK_END = 2"

record 'o kernel =
  k_open :: "'o \<Rightarrow> string \<Rightarrow> int \<Rightarrow> int \<Rightarrow> int \<times> bool \<times> 'o"
  k_close :: "'o \<Rightarrow> int \<Rightarrow> int \<times> 'o"
  k_lseek :: "'o \<Rightarrow> int \<Rightarrow> int \<Rightarrow> int \<Rightarrow> int \<times> 'o"
  k_fsync :: "'o \<Rightarrow> int \<Rightarrow> int \<times> 'o"
  k_read :: "'o \<Rightarrow> int \<Rightarrow> int \<Rightarrow> int \<times> byte list \<times> 'o"
  k_write :: "'o \<Rightarrow> int \<Rightarrow> byte list \<Rightarrow> int \<times> 'o"
  k_ftruncate :: "'o \<Rightarrow> int \<Rightarrow> int \<Rightarrow> int \<times> 'o"
  k_unlink :: "'o \<Rightarrow> string \<Rightarrow> 'o"
  k_fopen :: "'o \<Rightarrow> string \<Rightarrow> string \<Rightarrow> nat \<times> bool \<times> 'o"
  k_fclose :: "'o \<Rightarrow> nat \<Rightarrow> 'o"
  k_malloc :: "'o \<Rightarrow> nat \<Rightarrow> bool \<times> 'o"
  k_open_max :: "int option"

record 'o fd_globals =
  VfdCache :: "nat \<Rightarrow> Vfd"
  SizeVfdCache :: nat
  NFile :: int
  AllocatedFiles :: "nat list"
  TempFileCounter :: int
  EnableFsync :: bool
  exit_hook :: bool
  os :: 'o

definition NumAllocatedFiles :: "'o fd_globals \<Rightarrow> nat" where
  "NumAllocatedFiles st = length (AllocatedFiles st)"

definition upd_vfd :: "'o fd_globals \<Rightarrow> nat \<Rightarrow> (Vfd \<Rightarrow> Vfd) \<Rightarrow> 'o fd_globals" where
  "upd_vfd st i f = st\<lparr>VfdCache := (VfdCache st)(i := f (VfdCache st i))\<rparr>"

definition FILE_IS_VALID :: "'o fd_globals \<Rightarrow> nat \<Rightarrow> bool" where
  "FILE_IS_VALID st file \<longleftrightarrow> file > 0 \<and> file < SizeVfdCache st \<and> filename (VfdCache st file) \<noteq> None"

definition FILE_IS_NOT_OPEN :: "'o fd_globals \<Rightarrow> nat \<Rightarrow> bool" where
  "FILE_IS_NOT_OPEN st file \<longleftrightarrow> fd (VfdCache st file) = VFD_CLOSED"

text \<open>Conversions to \<open>signed short\<close>, the type of \<open>Vfd.fd\<close>, and to \<open>int\<close>, the type of the local \<open>return_value\<close>.\<close>

definition to_short :: "int \<Rightarrow> int" where "to_short i = sint (word_of_int i :: 16 word)"
definition to_int :: "int \<Rightarrow> int" where "to_int i = sint (word_of_int i :: 32 word)"

section \<open>The recency ring\<close>

definition pg_fsync :: "'o kernel \<Rightarrow> 'o fd_globals \<Rightarrow> int \<Rightarrow> int \<times> 'o fd_globals" where
  "pg_fsync k st d =
     (if EnableFsync st then case k_fsync k (os st) d of (r, o') \<Rightarrow> (r, st\<lparr>os := o'\<rparr>) else (0, st))"

definition delete_vfd :: "'o fd_globals \<Rightarrow> nat \<Rightarrow> 'o fd_globals cres" where
  "delete_vfd st file =
     c_assert (file \<noteq> 0)
       (let st1 = upd_vfd st (lru_less_recently (VfdCache st file))
                    (\<lambda>v. v\<lparr>lru_more_recently := lru_more_recently (VfdCache st file)\<rparr>);
            st2 = upd_vfd st1 (lru_more_recently (VfdCache st1 file))
                    (\<lambda>v. v\<lparr>lru_less_recently := lru_less_recently (VfdCache st1 file)\<rparr>)
        in Inr st2)"

text \<open>The end of \<open>lru_delete\<close>, also found in \<open>file_close\<close>: sync a dirty file and close its descriptor.\<close>

definition sync_and_close :: "'o kernel \<Rightarrow> 'o fd_globals \<Rightarrow> nat \<Rightarrow> 'o fd_globals cres" where
  "sync_and_close k st file =
     cbind (if fdstate (VfdCache st file) AND FD_DIRTY \<noteq> 0
            then case pg_fsync k st (fd (VfdCache st file)) of (return_value, st1) \<Rightarrow>
                   c_assert (return_value \<noteq> -1) (Inr (upd_vfd st1 file (\<lambda>v. v\<lparr>fdstate := fdstate v AND NOT FD_DIRTY\<rparr>)))
            else Inr st)
       (\<lambda>st2. case k_close k (os st2) (fd (VfdCache st2 file)) of (return_value, o') \<Rightarrow>
          c_assert (return_value \<noteq> -1)
            (Inr (upd_vfd (st2\<lparr>os := o', NFile := NFile st2 - 1\<rparr>) file (\<lambda>v. v\<lparr>fd := VFD_CLOSED\<rparr>))))"

definition lru_delete :: "'o kernel \<Rightarrow> 'o fd_globals \<Rightarrow> nat \<Rightarrow> 'o fd_globals cres" where
  "lru_delete k st file =
     c_assert (file \<noteq> 0)
       (cbind (delete_vfd st file) (\<lambda>st1.
          case k_lseek k (os st1) (fd (VfdCache st1 file)) 0 SEEK_CUR of (r, o') \<Rightarrow>
            let st2 = upd_vfd (st1\<lparr>os := o'\<rparr>) file (\<lambda>v. v\<lparr>seek_pos := r\<rparr>)
            in c_assert (seek_pos (VfdCache st2 file) \<noteq> -1) (sync_and_close k st2 file)))"

definition insert_vfd :: "'o fd_globals \<Rightarrow> nat \<Rightarrow> 'o fd_globals cres" where
  "insert_vfd st file =
     c_assert (file \<noteq> 0)
       (let st1 = upd_vfd st file (\<lambda>v. v\<lparr>lru_more_recently := 0\<rparr>);
            st2 = upd_vfd st1 file (\<lambda>v. v\<lparr>lru_less_recently := lru_less_recently (VfdCache st1 0)\<rparr>);
            st3 = upd_vfd st2 0 (\<lambda>v. v\<lparr>lru_less_recently := file\<rparr>);
            st4 = upd_vfd st3 (lru_less_recently (VfdCache st3 file)) (\<lambda>v. v\<lparr>lru_more_recently := file\<rparr>)
        in Inr st4)"

definition release_lru_file :: "'o kernel \<Rightarrow> 'o fd_globals \<Rightarrow> (bool \<times> 'o fd_globals) cres" where
  "release_lru_file k st =
     (if NFile st > 0 then
        c_assert (lru_more_recently (VfdCache st 0) \<noteq> 0)
          (cbind (lru_delete k st (lru_more_recently (VfdCache st 0))) (\<lambda>st1. Inr (True, st1)))
      else Inr (False, st))"

lemma lru_delete_NFile: "lru_delete k st file = Inr st' \<Longrightarrow> NFile st' = NFile st - 1"
  by (auto simp: lru_delete_def sync_and_close_def delete_vfd_def pg_fsync_def upd_vfd_def c_assert_eq_Inr cbind_eq_Inr Let_def
      split: prod.splits if_splits)

lemma release_lru_NFile: "release_lru_file k st = Inr (True, st') \<Longrightarrow> 0 < NFile st \<and> NFile st' = NFile st - 1"
  by (auto simp: release_lru_file_def c_assert_eq_Inr cbind_eq_Inr lru_delete_NFile split: if_splits)

text \<open>\<open>pg_nofile\<close>: the cached value of the static variable is the value computed at the first call.\<close>

definition pg_nofile :: "'o kernel \<Rightarrow> int cres" where
  "pg_nofile k =
     (let m = (case k_open_max k of None \<Rightarrow> NOFILE | Some m \<Rightarrow> if m = -1 then NOFILE else m)
      in if m - RESERVE_FOR_LD < FD_MINFREE then Inl Elog_FATAL else Inr (m - RESERVE_FOR_LD))"

text \<open>The loop that gives descriptors back until fewer than \<open>limit\<close> are in use.\<close>

function release_excess :: "'o kernel \<Rightarrow> int \<Rightarrow> 'o fd_globals \<Rightarrow> 'o fd_globals cres" where
  "release_excess k limit st =
     (if NFile st + int (NumAllocatedFiles st) \<ge> limit then
        case release_lru_file k st of Inl e \<Rightarrow> Inl e
        | Inr (released, st1) \<Rightarrow> if \<not> released then Inr st1 else release_excess k limit st1
      else Inr st)"
  by pat_completeness auto
termination
  by (relation "measure (\<lambda>(k, l, st). nat (NFile st))") (auto dest!: release_lru_NFile)

function basic_open_file :: "'o kernel \<Rightarrow> 'o fd_globals \<Rightarrow> string \<Rightarrow> int \<Rightarrow> int \<Rightarrow> (int \<times> 'o fd_globals) cres" where
  "basic_open_file k st name flags mode =
     (case k_open k (os st) name flags mode of (d, too_many, o') \<Rightarrow>
        let st1 = st\<lparr>os := o'\<rparr>
        in if d \<ge> 0 then Inr (d, st1)
           else if too_many then
             case release_lru_file k st1 of Inl e \<Rightarrow> Inl e
             | Inr (released, st2) \<Rightarrow> if released then basic_open_file k st2 name flags mode else Inr (-1, st2)
           else Inr (-1, st1))"
  by pat_completeness auto
termination
  by (relation "measure (\<lambda>(k, st, n, f, m). nat (NFile st))") (auto dest!: release_lru_NFile)

declare release_excess.simps [simp del] basic_open_file.simps [simp del]

definition lru_insert :: "'o kernel \<Rightarrow> 'o fd_globals \<Rightarrow> nat \<Rightarrow> (int \<times> 'o fd_globals) cres" where
  "lru_insert k st file =
     c_assert (file \<noteq> 0)
       (if FILE_IS_NOT_OPEN st file then
          cbind (pg_nofile k) (\<lambda>limit.
          cbind (release_excess k limit st) (\<lambda>st1.
            case filename (VfdCache st1 file) of None \<Rightarrow> Inl Bad_pointer
            | Some name \<Rightarrow>
              cbind (basic_open_file k st1 name (file_flags (VfdCache st1 file)) (file_mode (VfdCache st1 file))) (\<lambda>(d, st2).
                let st3 = upd_vfd st2 file (\<lambda>v. v\<lparr>fd := to_short d\<rparr>)
                in if fd (VfdCache st3 file) < 0 then Inr (fd (VfdCache st3 file), st3)
                   else let st4 = st3\<lparr>NFile := NFile st3 + 1\<rparr>
                        in cbind (if seek_pos (VfdCache st4 file) \<noteq> 0
                                  then case k_lseek k (os st4) (fd (VfdCache st4 file)) (seek_pos (VfdCache st4 file)) SEEK_SET of
                                         (r, o') \<Rightarrow> c_assert (to_int r \<noteq> -1) (Inr (st4\<lparr>os := o'\<rparr>))
                                  else Inr st4)
                             (\<lambda>st5. cbind (insert_vfd st5 file) (\<lambda>st6. Inr (0, st6))))))
        else cbind (insert_vfd st file) (\<lambda>st1. Inr (0, st1)))"

definition file_access :: "'o kernel \<Rightarrow> 'o fd_globals \<Rightarrow> nat \<Rightarrow> (int \<times> 'o fd_globals) cres" where
  "file_access k st file =
     (if FILE_IS_NOT_OPEN st file then lru_insert k st file
      else if lru_less_recently (VfdCache st 0) \<noteq> file
      then cbind (delete_vfd st file) (\<lambda>st1. cbind (insert_vfd st1 file) (\<lambda>st2. Inr (0, st2)))
      else Inr (0, st))"

section \<open>Allocation of descriptors\<close>

definition zero_vfd :: Vfd where
  "zero_vfd = \<lparr>fd = 0, fdstate = 0, next_free = 0, lru_more_recently = 0, lru_less_recently = 0, seek_pos = 0,
     filename = None, file_flags = 0, file_mode = 0\<rparr>"

definition sizeof_Vfd :: nat where "sizeof_Vfd = 40"

text \<open>The first part of \<open>allocate_vfd\<close> creates the array with its anchor, the second doubles it.\<close>

definition create_cache :: "'o kernel \<Rightarrow> 'o fd_globals \<Rightarrow> 'o fd_globals cres" where
  "create_cache k st =
     (if SizeVfdCache st = 0 then
        case k_malloc k (os st) sizeof_Vfd of (available, o') \<Rightarrow>
          if \<not> available then Inl Elog_FATAL
          else Inr (st\<lparr>os := o', VfdCache := (VfdCache st)(0 := zero_vfd\<lparr>fd := VFD_CLOSED\<rparr>), SizeVfdCache := 1,
                      exit_hook := True\<rparr>)
      else Inr st)"

definition enlarge_cache :: "'o kernel \<Rightarrow> 'o fd_globals \<Rightarrow> 'o fd_globals cres" where
  "enlarge_cache k st =
     (if next_free (VfdCache st 0) = 0 then
        let n2 = SizeVfdCache st * 2; new_cache_size = (if n2 < 32 then 32 else n2)
        in case k_malloc k (os st) (sizeof_Vfd * new_cache_size) of (available, o') \<Rightarrow>
          if \<not> available then Inl Elog_FATAL
          else let c1 = fold (\<lambda>i c. c(i := zero_vfd\<lparr>next_free := i + 1, fd := VFD_CLOSED\<rparr>))
                          [SizeVfdCache st..<new_cache_size] (VfdCache st);
                   st1 = st\<lparr>os := o', VfdCache := c1\<rparr>;
                   st2 = upd_vfd st1 (new_cache_size - 1) (\<lambda>v. v\<lparr>next_free := 0\<rparr>);
                   st3 = upd_vfd st2 0 (\<lambda>v. v\<lparr>next_free := SizeVfdCache st2\<rparr>)
               in Inr (st3\<lparr>SizeVfdCache := new_cache_size\<rparr>)
      else Inr st)"

definition allocate_vfd :: "'o kernel \<Rightarrow> 'o fd_globals \<Rightarrow> (nat \<times> 'o fd_globals) cres" where
  "allocate_vfd k st =
     cbind (create_cache k st) (\<lambda>st1. cbind (enlarge_cache k st1) (\<lambda>st2.
       let file = next_free (VfdCache st2 0)
       in Inr (file, upd_vfd st2 0 (\<lambda>v. v\<lparr>next_free := next_free (VfdCache st2 file)\<rparr>))))"

definition free_vfd :: "'o fd_globals \<Rightarrow> nat \<Rightarrow> 'o fd_globals" where
  "free_vfd st file =
     (let st1 = upd_vfd st file (\<lambda>v. v\<lparr>filename := None\<rparr>);
          st2 = upd_vfd st1 file (\<lambda>v. v\<lparr>fdstate := 0\<rparr>);
          st3 = upd_vfd st2 file (\<lambda>v. v\<lparr>next_free := next_free (VfdCache st2 0)\<rparr>)
      in upd_vfd st3 0 (\<lambda>v. v\<lparr>next_free := file\<rparr>))"

section \<open>Opening\<close>

definition file_name_open_file_aux ::
  "'o kernel \<Rightarrow> 'o fd_globals \<Rightarrow> string \<Rightarrow> int \<Rightarrow> int \<Rightarrow> (int \<times> 'o fd_globals) cres" where
  "file_name_open_file_aux k st name flags mode =
     cbind (allocate_vfd k st) (\<lambda>(file, st1).
     cbind (pg_nofile k) (\<lambda>limit.
     cbind (release_excess k limit st1) (\<lambda>st2.
     cbind (basic_open_file k st2 name flags mode) (\<lambda>(d, st3).
       let st4 = upd_vfd st3 file (\<lambda>v. v\<lparr>fd := to_short d\<rparr>)
       in if fd (VfdCache st4 file) < 0 then Inr (-1, free_vfd st4 file)
          else cbind (insert_vfd (st4\<lparr>NFile := NFile st4 + 1\<rparr>) file) (\<lambda>st5.
            case k_malloc k (os st5) (length name + 1) of (available, o') \<Rightarrow>
              if \<not> available then Inl Elog_FATAL
              else let st6 = upd_vfd (st5\<lparr>os := o'\<rparr>) file
                         (\<lambda>v. v\<lparr>filename := Some name, file_flags := flags AND NOT (O_CREAT OR O_TRUNC OR O_EXCL),
                               file_mode := mode, seek_pos := 0,
                               fdstate := (if flags AND O_CREAT \<noteq> 0 then FD_DIRTY else 0)\<rparr>)
                   in Inr (int file, st6))))))"

text \<open>
  \<open>filepath\<close> returns the name and the origin of its buffer: \<open>malloc\<close> for a relative name (the result
  is not checked), \<open>palloc\<close> for an absolute one.
\<close>

datatype buffer_origin = Malloced | Palloced

definition filepath :: "'o kernel \<Rightarrow> string \<Rightarrow> 'o fd_globals \<Rightarrow> string \<Rightarrow> ((string \<times> buffer_origin) \<times> 'o fd_globals) cres" where
  "filepath k DatabasePath st name =
     (if (case name of [] \<Rightarrow> True | c # _ \<Rightarrow> c \<noteq> CHR ''/'') then
        case k_malloc k (os st) (length DatabasePath + length name + 2) of (available, o') \<Rightarrow>
          if \<not> available then Inl Bad_pointer
          else Inr ((DatabasePath @ CHR ''/'' # name, Malloced), st\<lparr>os := o'\<rparr>)
      else case k_malloc k (os st) (length name + 1) of (available, o') \<Rightarrow>
          if \<not> available then Inl Elog_ERROR else Inr ((name, Palloced), st\<lparr>os := o'\<rparr>))"

text \<open>\<open>pfree\<close> reads the chunk header in front of its argument, which a buffer of \<open>malloc\<close> does not have.\<close>

definition pfree_name :: "buffer_origin \<Rightarrow> unit cres" where
  "pfree_name origin = (case origin of Palloced \<Rightarrow> Inr () | Malloced \<Rightarrow> Inl Bad_pointer)"

definition file_name_open_file ::
  "'o kernel \<Rightarrow> string \<Rightarrow> 'o fd_globals \<Rightarrow> string \<Rightarrow> int \<Rightarrow> int \<Rightarrow> (int \<times> 'o fd_globals) cres" where
  "file_name_open_file k DatabasePath st name flags mode =
     cbind (filepath k DatabasePath st name) (\<lambda>((fname, origin), st1).
     cbind (file_name_open_file_aux k st1 fname flags mode) (\<lambda>(file, st2).
     cbind (pfree_name origin) (\<lambda>_. Inr (file, st2))))"

definition path_name_open_file ::
  "'o kernel \<Rightarrow> string \<Rightarrow> 'o fd_globals \<Rightarrow> string \<Rightarrow> int \<Rightarrow> int \<Rightarrow> (int \<times> 'o fd_globals) cres" where
  "path_name_open_file k DatabasePath st name flags mode = file_name_open_file k DatabasePath st name flags mode"

text \<open>The conversions \<open>%d\<close> and \<open>%ld\<close> of \<open>snprintf\<close>.\<close>

fun digits :: "nat \<Rightarrow> string" where
  "digits n = (if n < 10 then [char_of (48 + n)] else digits (n div 10) @ [char_of (48 + n mod 10)])"

declare digits.simps [simp del]

definition decimal :: "int \<Rightarrow> string" where
  "decimal i = (if i < 0 then CHR ''-'' # digits (nat (- i)) else digits (nat i))"

definition open_temporary_file :: "'o kernel \<Rightarrow> string \<Rightarrow> int \<Rightarrow> 'o fd_globals \<Rightarrow> (nat \<times> 'o fd_globals) cres" where
  "open_temporary_file k DatabasePath MyProcPid st =
     (let name = ''pg_sorttemp'' @ decimal MyProcPid @ CHR ''.'' # decimal (TempFileCounter st);
          st1 = st\<lparr>TempFileCounter := TempFileCounter st + 1\<rparr>
      in cbind (file_name_open_file k DatabasePath st1 name (O_RDWR OR O_CREAT OR O_TRUNC) 384) (\<lambda>(file, st2).
           if file \<le> 0 then Inl Elog_ERROR
           else Inr (nat file, upd_vfd st2 (nat file) (\<lambda>v. v\<lparr>fdstate := fdstate v OR FD_TEMPORARY\<rparr>))))"

section \<open>Closing, reading, writing, seeking\<close>

definition file_close :: "'o kernel \<Rightarrow> 'o fd_globals \<Rightarrow> nat \<Rightarrow> 'o fd_globals cres" where
  "file_close k st file =
     c_assert (FILE_IS_VALID st file)
       (cbind (if \<not> FILE_IS_NOT_OPEN st file
               then cbind (delete_vfd st file) (\<lambda>st1. sync_and_close k st1 file) else Inr st)
          (\<lambda>st2. let st3 = (if fdstate (VfdCache st2 file) AND FD_TEMPORARY \<noteq> 0
              then let st' = upd_vfd st2 file (\<lambda>v. v\<lparr>fdstate := fdstate v AND NOT FD_TEMPORARY\<rparr>)
                   in case filename (VfdCache st' file) of None \<Rightarrow> st'
                      | Some name \<Rightarrow> st'\<lparr>os := k_unlink k (os st') name\<rparr>
              else st2)
            in Inr (free_vfd st3 file)))"

definition file_unlink :: "'o kernel \<Rightarrow> 'o fd_globals \<Rightarrow> nat \<Rightarrow> 'o fd_globals cres" where
  "file_unlink k st file =
     c_assert (FILE_IS_VALID st file)
       (file_close k (upd_vfd st file (\<lambda>v. v\<lparr>fdstate := fdstate v OR FD_TEMPORARY\<rparr>)) file)"

text \<open>The position kept after a transfer that returned \<open>r\<close>.\<close>

definition advance :: "'o fd_globals \<Rightarrow> nat \<Rightarrow> int \<Rightarrow> 'o fd_globals" where
  "advance st file r =
     upd_vfd st file (\<lambda>v. v\<lparr>seek_pos := (if r > 0 then seek_pos v + r else FILE_UNKNOWN_POS)\<rparr>)"

definition file_read :: "'o kernel \<Rightarrow> 'o fd_globals \<Rightarrow> nat \<Rightarrow> int \<Rightarrow> (int \<times> byte list \<times> 'o fd_globals) cres" where
  "file_read k st file amount =
     c_assert (FILE_IS_VALID st file)
       (cbind (file_access k st file) (\<lambda>(_, st1).
          case k_read k (os st1) (fd (VfdCache st1 file)) amount of (r, bytes, o') \<Rightarrow>
            Inr (r, bytes, advance (st1\<lparr>os := o'\<rparr>) file r)))"

definition file_write :: "'o kernel \<Rightarrow> 'o fd_globals \<Rightarrow> nat \<Rightarrow> byte list \<Rightarrow> (int \<times> 'o fd_globals) cres" where
  "file_write k st file bytes =
     c_assert (FILE_IS_VALID st file)
       (cbind (file_access k st file) (\<lambda>(_, st1).
          case k_write k (os st1) (fd (VfdCache st1 file)) bytes of (r, o') \<Rightarrow>
            Inr (r, advance (st1\<lparr>os := o'\<rparr>) file r)))"

definition seek_to :: "'o kernel \<Rightarrow> 'o fd_globals \<Rightarrow> nat \<Rightarrow> int \<Rightarrow> int \<Rightarrow> 'o fd_globals" where
  "seek_to k st file offset whence =
     (case k_lseek k (os st) (fd (VfdCache st file)) offset whence of (r, o') \<Rightarrow>
        upd_vfd (st\<lparr>os := o'\<rparr>) file (\<lambda>v. v\<lparr>seek_pos := r\<rparr>))"

definition file_seek :: "'o kernel \<Rightarrow> 'o fd_globals \<Rightarrow> nat \<Rightarrow> int \<Rightarrow> int \<Rightarrow> (int \<times> 'o fd_globals) cres" where
  "file_seek k st file offset whence =
     c_assert (FILE_IS_VALID st file)
       (cbind
          (if FILE_IS_NOT_OPEN st file then
             if whence = SEEK_SET then
               if offset < 0 then Inl Elog_ERROR else Inr (upd_vfd st file (\<lambda>v. v\<lparr>seek_pos := offset\<rparr>))
             else if whence = SEEK_CUR then Inr (upd_vfd st file (\<lambda>v. v\<lparr>seek_pos := seek_pos v + offset\<rparr>))
             else if whence = SEEK_END then cbind (file_access k st file) (\<lambda>(_, st1). Inr (seek_to k st1 file offset whence))
             else Inl Elog_ERROR
           else
             if whence = SEEK_SET then
               if offset < 0 then Inl Elog_ERROR
               else if seek_pos (VfdCache st file) \<noteq> offset then Inr (seek_to k st file offset whence) else Inr st
             else if whence = SEEK_CUR then
               if offset \<noteq> 0 \<or> seek_pos (VfdCache st file) = FILE_UNKNOWN_POS
               then Inr (seek_to k st file offset whence) else Inr st
             else if whence = SEEK_END then Inr (seek_to k st file offset whence)
             else Inl Elog_ERROR)
          (\<lambda>st1. Inr (seek_pos (VfdCache st1 file), st1)))"

text \<open>\<open>indet\<close> is the content of the uninitialised variable \<open>return_code\<close>.\<close>

definition file_sync :: "'o kernel \<Rightarrow> int \<Rightarrow> 'o fd_globals \<Rightarrow> nat \<Rightarrow> (int \<times> 'o fd_globals) cres" where
  "file_sync k indet st file =
     c_assert (FILE_IS_VALID st file)
       (if fdstate (VfdCache st file) AND FD_DIRTY = 0 then Inr (0, st)
        else if \<not> EnableFsync st then Inr (0, upd_vfd st file (\<lambda>v. v\<lparr>fdstate := fdstate v AND NOT FD_DIRTY\<rparr>))
        else if FILE_IS_NOT_OPEN st file then
          cbind (lru_insert k st file) (\<lambda>(return_code, st1).
            if return_code \<noteq> 0 then Inr (return_code, st1)
            else case pg_fsync k st1 (fd (VfdCache st1 file)) of (return_code, st2) \<Rightarrow>
              Inr (return_code, if return_code = 0
                   then upd_vfd st2 file (\<lambda>v. v\<lparr>fdstate := fdstate v AND NOT FD_DIRTY\<rparr>) else st2))
        else Inr (indet, st))"

definition file_truncate :: "'o kernel \<Rightarrow> int \<Rightarrow> 'o fd_globals \<Rightarrow> nat \<Rightarrow> int \<Rightarrow> (int \<times> 'o fd_globals) cres" where
  "file_truncate k indet st file offset =
     c_assert (FILE_IS_VALID st file)
       (cbind (file_sync k indet st file) (\<lambda>(_, st1).
        cbind (file_access k st1 file) (\<lambda>(_, st2).
          case k_ftruncate k (os st2) (fd (VfdCache st2 file)) offset of (r, o') \<Rightarrow> Inr (r, st2\<lparr>os := o'\<rparr>))))"

definition file_mark_dirty :: "'o fd_globals \<Rightarrow> nat \<Rightarrow> 'o fd_globals cres" where
  "file_mark_dirty st file =
     c_assert (FILE_IS_VALID st file) (Inr (upd_vfd st file (\<lambda>v. v\<lparr>fdstate := fdstate v OR FD_DIRTY\<rparr>)))"

section \<open>Stdio files and the end of a transaction\<close>

function fopen_retry :: "'o kernel \<Rightarrow> 'o fd_globals \<Rightarrow> string \<Rightarrow> string \<Rightarrow> (nat \<times> 'o fd_globals) cres" where
  "fopen_retry k st name mode =
     (case k_fopen k (os st) name mode of (file, too_many, o') \<Rightarrow>
        let st1 = st\<lparr>os := o'\<rparr>
        in if file \<noteq> 0 then Inr (file, st1\<lparr>AllocatedFiles := AllocatedFiles st1 @ [file]\<rparr>)
           else if too_many then
             case release_lru_file k st1 of Inl e \<Rightarrow> Inl e
             | Inr (released, st2) \<Rightarrow> if released then fopen_retry k st2 name mode else Inr (0, st2)
           else Inr (0, st1))"
  by pat_completeness auto
termination
  by (relation "measure (\<lambda>(k, st, n, m). nat (NFile st))") (auto dest!: release_lru_NFile)

declare fopen_retry.simps [simp del]

definition allocate_file :: "'o kernel \<Rightarrow> 'o fd_globals \<Rightarrow> string \<Rightarrow> string \<Rightarrow> (nat \<times> 'o fd_globals) cres" where
  "allocate_file k st name mode =
     (if NumAllocatedFiles st \<ge> MAX_ALLOCATED_FILES then Inl Elog_ERROR else fopen_retry k st name mode)"

text \<open>The search of \<open>free_file\<close> for the last entry equal to \<open>file\<close>, among the first \<open>i\<close>.\<close>

fun find_allocated :: "nat list \<Rightarrow> nat \<Rightarrow> nat \<Rightarrow> nat option" where
  "find_allocated fs file 0 = None"
| "find_allocated fs file (Suc i) = (if fs ! i = file then Some i else find_allocated fs file i)"

definition free_file :: "'o kernel \<Rightarrow> 'o fd_globals \<Rightarrow> nat \<Rightarrow> 'o fd_globals" where
  "free_file k st file =
     (let fs = AllocatedFiles st; n = NumAllocatedFiles st;
          st1 = (case find_allocated fs file n of None \<Rightarrow> st
                 | Some i \<Rightarrow> st\<lparr>AllocatedFiles := take (n - 1) (fs[i := fs ! (n - 1)])\<rparr>)
      in st1\<lparr>os := k_fclose k (os st1) file\<rparr>)"

lemma find_allocated_head: "fs \<noteq> [] \<Longrightarrow> \<exists>i < length fs. find_allocated fs (fs ! 0) (length fs) = Some i"
proof -
  have "0 < n \<Longrightarrow> \<exists>i < n. find_allocated fs (fs ! 0) n = Some i" for n
  proof (induction n)
    case (Suc n)
    then show ?case by (cases n) (auto simp: less_Suc_eq)
  qed simp
  then show "fs \<noteq> [] \<Longrightarrow> \<exists>i < length fs. find_allocated fs (fs ! 0) (length fs) = Some i" by simp
qed

function free_all_files :: "'o kernel \<Rightarrow> 'o fd_globals \<Rightarrow> 'o fd_globals" where
  "free_all_files k st =
     (if NumAllocatedFiles st > 0 then free_all_files k (free_file k st (AllocatedFiles st ! 0)) else st)"
  by pat_completeness auto
termination
proof (relation "measure (\<lambda>(k, st). NumAllocatedFiles st)", simp, clarsimp)
  fix k :: "'o kernel" and st :: "'o fd_globals"
  assume "0 < NumAllocatedFiles st"
  then have "AllocatedFiles st \<noteq> []" by (simp add: NumAllocatedFiles_def)
  then show "NumAllocatedFiles (free_file k st (AllocatedFiles st ! 0)) < NumAllocatedFiles st"
    using find_allocated_head [of "AllocatedFiles st"] by (auto simp: free_file_def NumAllocatedFiles_def Let_def)
qed

declare free_all_files.simps [simp del]

fun close_vfds :: "'o kernel \<Rightarrow> 'o fd_globals \<Rightarrow> nat list \<Rightarrow> 'o fd_globals cres" where
  "close_vfds k st [] = Inr st"
| "close_vfds k st (i # is) =
     cbind (if \<not> FILE_IS_NOT_OPEN st i then lru_delete k st i else Inr st) (\<lambda>st1. close_vfds k st1 is)"

definition close_all_vfds :: "'o kernel \<Rightarrow> 'o fd_globals \<Rightarrow> 'o fd_globals cres" where
  "close_all_vfds k st =
     (if SizeVfdCache st > 0
      then c_assert (FILE_IS_NOT_OPEN st 0) (close_vfds k st [1..<SizeVfdCache st]) else Inr st)"

fun eo_xact_vfds :: "'o kernel \<Rightarrow> 'o fd_globals \<Rightarrow> nat list \<Rightarrow> 'o fd_globals cres" where
  "eo_xact_vfds k st [] = Inr st"
| "eo_xact_vfds k st (i # is) =
     cbind (if fdstate (VfdCache st i) AND FD_TEMPORARY \<noteq> 0 \<and> filename (VfdCache st i) \<noteq> None then file_close k st i
            else Inr (upd_vfd st i (\<lambda>v. v\<lparr>fdstate := fdstate v AND NOT FD_DIRTY\<rparr>)))
       (\<lambda>st1. eo_xact_vfds k st1 is)"

definition at_eo_xact_files :: "'o kernel \<Rightarrow> 'o fd_globals \<Rightarrow> 'o fd_globals cres" where
  "at_eo_xact_files k st =
     cbind (if SizeVfdCache st > 0
            then c_assert (FILE_IS_NOT_OPEN st 0) (eo_xact_vfds k st [1..<SizeVfdCache st]) else Inr st)
       (\<lambda>st1. Inr ((free_all_files k st1)\<lparr>TempFileCounter := 0\<rparr>))"

definition pg_fdatasync :: "'o kernel \<Rightarrow> 'o fd_globals \<Rightarrow> int \<Rightarrow> int \<times> 'o fd_globals" where
  "pg_fdatasync k st d =
     (if EnableFsync st then case k_fsync k (os st) d of (r, o') \<Rightarrow> (r, st\<lparr>os := o'\<rparr>) else (0, st))"

section \<open>The kernel interface\<close>

text \<open>
  What the code relies on: \<open>fds\<close> are the open descriptors and \<open>pos\<close> their file positions. \<open>open\<close>
  fails with -1 or returns a descriptor that was not open (below 32768, since \<open>Vfd.fd\<close> is a \<open>short\<close>)
  at position 0; \<open>lseek\<close> reports and sets positions of regular files; \<open>close\<close> and \<open>fsync\<close> of an open
  descriptor succeed, which the code asserts.
\<close>

locale posix =
  fixes k :: "'o kernel" and fds :: "'o \<Rightarrow> int set" and pos :: "'o \<Rightarrow> int \<Rightarrow> int" and ok :: "'o \<Rightarrow> bool"
  assumes open_fails: "ok w \<Longrightarrow> k_open k w n f m = (d, t, w') \<Longrightarrow> d < 0 \<Longrightarrow> d = -1 \<and> ok w' \<and> fds w' = fds w \<and> pos w' = pos w"
    and open_new: "ok w \<Longrightarrow> k_open k w n f m = (d, t, w') \<Longrightarrow> 0 \<le> d \<Longrightarrow>
      d < 32768 \<and> ok w' \<and> d \<notin> fds w \<and> fds w' = Set.insert d (fds w) \<and> pos w' = (pos w)(d := 0)"
    and close_open: "ok w \<Longrightarrow> d \<in> fds w \<Longrightarrow> k_close k w d = (r, w') \<Longrightarrow>
      r \<noteq> -1 \<and> ok w' \<and> fds w' = fds w - {d} \<and> (\<forall>x. x \<noteq> d \<longrightarrow> pos w' x = pos w x)"
    and pos_nonneg: "ok w \<Longrightarrow> d \<in> fds w \<Longrightarrow> 0 \<le> pos w d"
    and lseek_tell: "ok w \<Longrightarrow> d \<in> fds w \<Longrightarrow> k_lseek k w d 0 SEEK_CUR = (r, w') \<Longrightarrow>
      r = pos w d \<and> ok w' \<and> fds w' = fds w \<and> pos w' = pos w"
    and lseek_set: "ok w \<Longrightarrow> d \<in> fds w \<Longrightarrow> 0 \<le> p \<Longrightarrow> k_lseek k w d p SEEK_SET = (r, w') \<Longrightarrow>
      r = p \<and> ok w' \<and> fds w' = fds w \<and> pos w' = (pos w)(d := p)"
    and fsync_open: "ok w \<Longrightarrow> d \<in> fds w \<Longrightarrow> k_fsync k w d = (r, w') \<Longrightarrow>
      r \<noteq> -1 \<and> ok w' \<and> fds w' = fds w \<and> pos w' = pos w"
    and malloc_frame: "ok w \<Longrightarrow> k_malloc k w n' = (b, w') \<Longrightarrow> ok w' \<and> fds w' = fds w \<and> pos w' = pos w"
    and unlink_frame: "ok w \<Longrightarrow> ok (k_unlink k w n) \<and> fds (k_unlink k w n) = fds w \<and> pos (k_unlink k w n) = pos w"

section \<open>The ring operations\<close>

definition vfd_unlink :: "'o fd_globals \<Rightarrow> nat \<Rightarrow> 'o fd_globals" where
  "vfd_unlink st e =
     (let p = lru_less_recently (VfdCache st e); n = lru_more_recently (VfdCache st e);
          st1 = upd_vfd st p (\<lambda>v. v\<lparr>lru_more_recently := n\<rparr>)
      in upd_vfd st1 (lru_more_recently (VfdCache st1 e)) (\<lambda>v. v\<lparr>lru_less_recently := lru_less_recently (VfdCache st1 e)\<rparr>))"

definition vfd_link :: "'o fd_globals \<Rightarrow> nat \<Rightarrow> nat \<Rightarrow> 'o fd_globals" where
  "vfd_link st h e =
     (let p = lru_less_recently (VfdCache st h);
          st1 = upd_vfd st e (\<lambda>v. v\<lparr>lru_more_recently := h, lru_less_recently := p\<rparr>);
          st2 = upd_vfd st1 h (\<lambda>v. v\<lparr>lru_less_recently := e\<rparr>)
      in upd_vfd st2 (lru_less_recently (VfdCache st2 e)) (\<lambda>v. v\<lparr>lru_more_recently := e\<rparr>))"

lemma delete_vfd_unlink: "e \<noteq> 0 \<Longrightarrow> delete_vfd st e = Inr (vfd_unlink st e)"
  by (simp add: delete_vfd_def vfd_unlink_def Let_def)

lemma insert_vfd_link: "e \<noteq> 0 \<Longrightarrow> insert_vfd st e = Inr (vfd_link st 0 e)"
  by (simp add: insert_vfd_def vfd_link_def upd_vfd_def Let_def)

definition more :: "'o fd_globals \<Rightarrow> nat \<Rightarrow> nat" where "more st i = lru_more_recently (VfdCache st i)"
definition less :: "'o fd_globals \<Rightarrow> nat \<Rightarrow> nat" where "less st i = lru_less_recently (VfdCache st i)"

interpretation lru: ring_ops more less "\<lambda>_ _. True" vfd_link vfd_unlink
  by unfold_locales (auto simp: more_def less_def vfd_link_def vfd_unlink_def upd_vfd_def Let_def)

text \<open>The two operations touch no other field.\<close>

lemma vfd_unlink_fields [simp]:
  "fd (VfdCache (vfd_unlink st e) i) = fd (VfdCache st i)" "fdstate (VfdCache (vfd_unlink st e) i) = fdstate (VfdCache st i)"
  "next_free (VfdCache (vfd_unlink st e) i) = next_free (VfdCache st i)" "seek_pos (VfdCache (vfd_unlink st e) i) = seek_pos (VfdCache st i)"
  "filename (VfdCache (vfd_unlink st e) i) = filename (VfdCache st i)" "file_flags (VfdCache (vfd_unlink st e) i) = file_flags (VfdCache st i)"
  "file_mode (VfdCache (vfd_unlink st e) i) = file_mode (VfdCache st i)" "SizeVfdCache (vfd_unlink st e) = SizeVfdCache st"
  "NFile (vfd_unlink st e) = NFile st" "AllocatedFiles (vfd_unlink st e) = AllocatedFiles st" "os (vfd_unlink st e) = os st"
  "EnableFsync (vfd_unlink st e) = EnableFsync st" "TempFileCounter (vfd_unlink st e) = TempFileCounter st"
  by (auto simp: vfd_unlink_def upd_vfd_def Let_def)

lemma vfd_link_fields [simp]:
  "fd (VfdCache (vfd_link st h e) i) = fd (VfdCache st i)" "fdstate (VfdCache (vfd_link st h e) i) = fdstate (VfdCache st i)"
  "next_free (VfdCache (vfd_link st h e) i) = next_free (VfdCache st i)" "seek_pos (VfdCache (vfd_link st h e) i) = seek_pos (VfdCache st i)"
  "filename (VfdCache (vfd_link st h e) i) = filename (VfdCache st i)" "file_flags (VfdCache (vfd_link st h e) i) = file_flags (VfdCache st i)"
  "file_mode (VfdCache (vfd_link st h e) i) = file_mode (VfdCache st i)" "SizeVfdCache (vfd_link st h e) = SizeVfdCache st"
  "NFile (vfd_link st h e) = NFile st" "AllocatedFiles (vfd_link st h e) = AllocatedFiles st" "os (vfd_link st h e) = os st"
  "EnableFsync (vfd_link st h e) = EnableFsync st" "TempFileCounter (vfd_link st h e) = TempFileCounter st"
  by (auto simp: vfd_link_def upd_vfd_def Let_def)

lemma upd_vfd_fields [simp]:
  "VfdCache (upd_vfd st i f) j = (if j = i then f (VfdCache st i) else VfdCache st j)" "SizeVfdCache (upd_vfd st i f) = SizeVfdCache st"
  "NFile (upd_vfd st i f) = NFile st" "AllocatedFiles (upd_vfd st i f) = AllocatedFiles st" "os (upd_vfd st i f) = os st"
  "EnableFsync (upd_vfd st i f) = EnableFsync st" "TempFileCounter (upd_vfd st i f) = TempFileCounter st"
  by (auto simp: upd_vfd_def)

section \<open>The invariant\<close>

text \<open>
  \<open>lru\<close> are the open files, least recently used first; \<open>fr\<close> is the free list. Exactly the files on the
  ring have a kernel descriptor, no two the same one, and \<open>NFile\<close> counts them.
\<close>

definition vfd_core :: "('o \<Rightarrow> int set) \<Rightarrow> ('o \<Rightarrow> bool) \<Rightarrow> 'o fd_globals \<Rightarrow> nat list \<Rightarrow> nat list \<Rightarrow> bool" where
  "vfd_core fds ok st lru fr \<longleftrightarrow> ok (os st) \<and> 0 < SizeVfdCache st \<and>
     lru.ring_of st 0 lru \<and> path (\<lambda>i. next_free (VfdCache st i)) (next_free (VfdCache st 0)) fr \<and> distinct fr \<and>
     set lru \<subseteq> {1..<SizeVfdCache st} \<and> set fr \<subseteq> {1..<SizeVfdCache st} \<and>
     (\<forall>i < SizeVfdCache st. i \<in> set lru \<longleftrightarrow> fd (VfdCache st i) \<noteq> -1) \<and>
     (\<forall>i \<in> set lru. 0 \<le> fd (VfdCache st i) \<and> fd (VfdCache st i) \<in> fds (os st)) \<and>
     inj_on (\<lambda>i. fd (VfdCache st i)) (set lru) \<and> NFile st = int (length lru) \<and>
     (\<forall>i \<in> set fr. fd (VfdCache st i) = -1 \<and> fdstate (VfdCache st i) = 0 \<and> filename (VfdCache st i) = None)"

definition vfd_ok :: "('o \<Rightarrow> int set) \<Rightarrow> ('o \<Rightarrow> bool) \<Rightarrow> 'o fd_globals \<Rightarrow> nat list \<Rightarrow> nat list \<Rightarrow> bool" where
  "vfd_ok fds ok st lru fr \<longleftrightarrow> vfd_core fds ok st lru fr \<and>
     (\<forall>i \<in> {1..<SizeVfdCache st}. filename (VfdCache st i) = None \<longrightarrow> i \<in> set fr)"

text \<open>The position in a file as a client sees it: kept by the kernel or, for a file without descriptor, in the VFD.\<close>

definition lpos :: "('o \<Rightarrow> int \<Rightarrow> int) \<Rightarrow> 'o fd_globals \<Rightarrow> nat \<Rightarrow> int" where
  "lpos pos st i = (if fd (VfdCache st i) = -1 then seek_pos (VfdCache st i) else pos (os st) (fd (VfdCache st i)))"

text \<open>Nothing a client sees has changed: names, flags and positions are as before; bits of \<open>fdstate\<close> other than \<open>FD_DIRTY\<close> too.\<close>

definition same_files :: "('o \<Rightarrow> int \<Rightarrow> int) \<Rightarrow> 'o fd_globals \<Rightarrow> 'o fd_globals \<Rightarrow> bool" where
  "same_files pos st st' \<longleftrightarrow>
     (\<forall>i < SizeVfdCache st. lpos pos st' i = lpos pos st i \<and> filename (VfdCache st' i) = filename (VfdCache st i) \<and>
        file_flags (VfdCache st' i) = file_flags (VfdCache st i) \<and> file_mode (VfdCache st' i) = file_mode (VfdCache st i) \<and>
        next_free (VfdCache st' i) = next_free (VfdCache st i) \<and>
        fdstate (VfdCache st' i) AND NOT FD_DIRTY = fdstate (VfdCache st i) AND NOT FD_DIRTY) \<and>
     SizeVfdCache st' = SizeVfdCache st \<and> AllocatedFiles st' = AllocatedFiles st \<and> TempFileCounter st' = TempFileCounter st \<and>
     EnableFsync st' = EnableFsync st"

lemma same_files_refl: "same_files pos st st"
  by (simp add: same_files_def)

lemma same_files_trans: "same_files pos st st1 \<Longrightarrow> same_files pos st1 st2 \<Longrightarrow> same_files pos st st2"
  by (simp add: same_files_def)

section \<open>Giving descriptors back\<close>

lemma dirty_bits [simp]: "(s AND NOT FD_DIRTY) AND NOT FD_DIRTY = s AND NOT FD_DIRTY" "(s AND NOT FD_DIRTY) AND FD_DIRTY = 0"
  for s :: "16 word"
  by (rule bit_word_eqI; auto simp: FD_DIRTY_def bit_simps)+

context posix
begin

lemma sync_and_close_ok:
  assumes "ok (os st)" "fd (VfdCache st e) \<in> fds (os st)"
  shows "\<exists>s w. sync_and_close k st e =
      Inr (upd_vfd (st\<lparr>os := w, NFile := NFile st - 1\<rparr>) e (\<lambda>v. v\<lparr>fdstate := s, fd := -1\<rparr>)) \<and>
    ok w \<and> fds w = fds (os st) - {fd (VfdCache st e)} \<and> (\<forall>x. x \<noteq> fd (VfdCache st e) \<longrightarrow> pos w x = pos (os st) x) \<and>
    s AND NOT FD_DIRTY = fdstate (VfdCache st e) AND NOT FD_DIRTY \<and> s AND FD_DIRTY = 0"
proof -
  define d where "d = fd (VfdCache st e)"
  define dirty where "dirty \<longleftrightarrow> fdstate (VfdCache st e) AND FD_DIRTY \<noteq> 0"
  obtain r1 w1 where f: "k_fsync k (os st) d = (r1, w1)" by fastforce
  have f': "r1 \<noteq> -1 \<and> ok w1 \<and> fds w1 = fds (os st) \<and> pos w1 = pos (os st)" using fsync_open [OF assms(1) _ f] assms(2) d_def by blast
  define w2 where "w2 = (if dirty \<and> EnableFsync st then w1 else os st)"
  have w2: "ok w2" "fds w2 = fds (os st)" "pos w2 = pos (os st)" using f' assms(1) by (auto simp: w2_def)
  obtain r3 w3 where c: "k_close k w2 d = (r3, w3)" by fastforce
  have c': "r3 \<noteq> -1 \<and> ok w3 \<and> fds w3 = fds w2 - {d} \<and> (\<forall>x. x \<noteq> d \<longrightarrow> pos w3 x = pos w2 x)"
    using close_open [OF w2(1) _ c] assms(2) w2(2) d_def by simp
  define s where "s = (if dirty then fdstate (VfdCache st e) AND NOT FD_DIRTY else fdstate (VfdCache st e))"
  have "sync_and_close k st e = Inr (upd_vfd (st\<lparr>os := w3, NFile := NFile st - 1\<rparr>) e (\<lambda>v. v\<lparr>fdstate := s, fd := -1\<rparr>))"
    using f f' c c' unfolding sync_and_close_def pg_fsync_def
    by (cases dirty; cases "EnableFsync st") (simp_all add: dirty_def d_def w2_def s_def upd_vfd_def VFD_CLOSED_def)
  moreover have "s AND NOT FD_DIRTY = fdstate (VfdCache st e) AND NOT FD_DIRTY" "s AND FD_DIRTY = 0"
    by (auto simp: s_def dirty_def)
  ultimately show ?thesis using c' w2 by (intro exI [of _ s] exI [of _ w3] conjI) (simp_all add: d_def)
qed

lemma vfd_core_fds: "vfd_core fds ok st lru fr \<Longrightarrow> i \<in> set lru \<Longrightarrow> fd (VfdCache st i) \<in> fds (os st) \<and> 0 \<le> fd (VfdCache st i)"
  by (simp add: vfd_core_def)

lemma vfd_core_range: "vfd_core fds ok st lru fr \<Longrightarrow> i \<in> set lru \<Longrightarrow> 0 < i \<and> i < SizeVfdCache st"
  by (force simp: vfd_core_def)

lemma lru_delete_ok:
  assumes core: "vfd_core fds ok st (ys @ e # zs) fr"
  shows "\<exists>st'. lru_delete k st e = Inr st' \<and> vfd_core fds ok st' (ys @ zs) fr \<and> same_files pos st st'"
proof -
  let ?lru = "ys @ e # zs" and ?st1 = "vfd_unlink st e"
  have e: "e \<noteq> 0" "fd (VfdCache st e) \<in> fds (os st)" "e < SizeVfdCache st"
    using vfd_core_range [OF core, of e] vfd_core_fds [OF core, of e] by auto
  have okw: "ok (os st)" using core by (simp add: vfd_core_def)
  have d: "distinct ?lru" using core by (auto simp: vfd_core_def lru.ring_of_def ring_def)
  obtain r w where l: "k_lseek k (os st) (fd (VfdCache st e)) 0 SEEK_CUR = (r, w)" by fastforce
  note t = lseek_tell [OF okw e(2) l]
  define st2 where "st2 = upd_vfd (?st1\<lparr>os := w\<rparr>) e (\<lambda>v. v\<lparr>seek_pos := r\<rparr>)"
  have st2: "ok (os st2)" "fd (VfdCache st2 e) \<in> fds (os st2)" using t e(2) by (auto simp: st2_def)
  obtain s w' where c: "sync_and_close k st2 e = Inr (upd_vfd (st2\<lparr>os := w', NFile := NFile st2 - 1\<rparr>) e (\<lambda>v. v\<lparr>fdstate := s, fd := -1\<rparr>))"
    "ok w'" "fds w' = fds (os st2) - {fd (VfdCache st2 e)}" "\<forall>x. x \<noteq> fd (VfdCache st2 e) \<longrightarrow> pos w' x = pos (os st2) x"
    "s AND NOT FD_DIRTY = fdstate (VfdCache st2 e) AND NOT FD_DIRTY"
    using sync_and_close_ok [OF st2] by blast
  define st' where "st' = upd_vfd (st2\<lparr>os := w', NFile := NFile st2 - 1\<rparr>) e (\<lambda>v. v\<lparr>fdstate := s, fd := -1\<rparr>)"
  have "0 \<le> r" using pos_nonneg [OF okw e(2)] t by simp
  then have run: "lru_delete k st e = Inr st'"
    using e(1) l c(1) by (simp add: lru_delete_def delete_vfd_unlink Let_def st'_def st2_def)
  have st': "fd (VfdCache st' i) = (if i = e then -1 else fd (VfdCache st i))"
    "filename (VfdCache st' i) = filename (VfdCache st i)" "file_flags (VfdCache st' i) = file_flags (VfdCache st i)"
    "file_mode (VfdCache st' i) = file_mode (VfdCache st i)" "next_free (VfdCache st' i) = next_free (VfdCache st i)"
    "seek_pos (VfdCache st' i) = (if i = e then r else seek_pos (VfdCache st i))"
    "fdstate (VfdCache st' i) = (if i = e then s else fdstate (VfdCache st i))"
    "more st' i = more ?st1 i" "less st' i = less ?st1 i" for i
    by (simp_all add: st'_def st2_def more_def less_def)
  have g: "SizeVfdCache st' = SizeVfdCache st" "NFile st' = NFile st - 1" "AllocatedFiles st' = AllocatedFiles st"
    "TempFileCounter st' = TempFileCounter st" "EnableFsync st' = EnableFsync st" "os st' = w'"
    by (simp_all add: st'_def st2_def)
  have w: "fds w' = fds (os st) - {fd (VfdCache st e)}" "\<And>x. x \<noteq> fd (VfdCache st e) \<Longrightarrow> pos w' x = pos (os st) x"
    using c(3,4) t by (simp_all add: st2_def)
  have inj: "fd (VfdCache st i) \<noteq> fd (VfdCache st e)" if "i \<in> set (ys @ zs)" for i
    using core that d by (auto simp: vfd_core_def inj_on_def)
  have opn: "i = e \<or> fd (VfdCache st i) = -1 \<or> fd (VfdCache st i) \<noteq> fd (VfdCache st e)" if "i < SizeVfdCache st" for i
    using inj [of i] core that by (auto simp: vfd_core_def)
  have "more st' = more ?st1" "less st' = less ?st1" using st'(8,9) by auto
  then have "lru.ring_of st' 0 (ys @ zs)"
    using lru.ring_of_delete [of st 0 ys e zs] core by (simp add: vfd_core_def lru.ring_of_def)
  moreover have "i \<in> set (ys @ zs) \<longleftrightarrow> fd (VfdCache st' i) \<noteq> -1" if "i < SizeVfdCache st" for i
    using core that d st'(1) [of i] by (auto simp: vfd_core_def)
  moreover have "e \<notin> set fr" using core e by (auto simp: vfd_core_def)
  moreover have "\<forall>i \<in> set (ys @ zs). 0 \<le> fd (VfdCache st' i) \<and> fd (VfdCache st' i) \<in> fds (os st')"
    using inj d vfd_core_fds [OF core] by (auto simp: st'(1) g w)
  moreover have "inj_on (\<lambda>i. fd (VfdCache st' i)) (set (ys @ zs))"
    using core d by (auto simp: st'(1) vfd_core_def inj_on_def)
  moreover have "set (ys @ zs) \<subseteq> {1..<SizeVfdCache st'}" "NFile st' = int (length (ys @ zs))" "0 < SizeVfdCache st'"
    "set fr \<subseteq> {1..<SizeVfdCache st'}" "distinct fr" "path (\<lambda>i. next_free (VfdCache st' i)) (next_free (VfdCache st' 0)) fr"
    using core by (auto simp: vfd_core_def g st'(5))
  moreover have "\<forall>i \<in> set fr. fd (VfdCache st' i) = -1 \<and> fdstate (VfdCache st' i) = 0 \<and> filename (VfdCache st' i) = None"
    using core \<open>e \<notin> set fr\<close> unfolding st' vfd_core_def by auto
  ultimately have "vfd_core fds ok st' (ys @ zs) fr"
    using c(2) unfolding vfd_core_def g by blast
  moreover have "lpos pos st' i = lpos pos st i" if "i < SizeVfdCache st" for i
    using t vfd_core_fds [OF core, of e] w(2) opn [OF that] by (auto simp: lpos_def st' g)
  then have "same_files pos st st'"
    using c(5) by (auto simp: same_files_def st' g st2_def)
  ultimately show ?thesis using run by blast
qed

lemma release_lru_ok:
  assumes core: "vfd_core fds ok st lru fr"
  shows "\<exists>st'. release_lru_file k st = Inr (lru \<noteq> [], st') \<and> vfd_core fds ok st' (drop 1 lru) fr \<and> same_files pos st st'"
proof (cases lru)
  case Nil
  then show ?thesis using core same_files_refl by (auto simp: release_lru_file_def vfd_core_def)
next
  case (Cons e zs)
  then have core': "vfd_core fds ok st ([] @ e # zs) fr" using core by simp
  have "more st 0 = e" using core Cons by (auto simp: vfd_core_def lru.ring_of_def ring_def)
  moreover have "e \<noteq> 0" using vfd_core_range [OF core] Cons by auto
  moreover have "0 < NFile st" using core Cons by (simp add: vfd_core_def)
  ultimately show ?thesis using lru_delete_ok [OF core'] Cons by (auto simp: release_lru_file_def more_def)
qed

end

lemma more_upd [simp]: "more (st\<lparr>os := w\<rparr>) = more st" "more (st\<lparr>NFile := n\<rparr>) = more st" "less (st\<lparr>os := w\<rparr>) = less st"
  "less (st\<lparr>NFile := n\<rparr>) = less st"
  by (simp_all add: more_def less_def fun_eq_iff)

lemma vfd_core_os: "vfd_core fds ok st lru fr \<Longrightarrow> ok w \<Longrightarrow> fds (os st) \<subseteq> fds w \<Longrightarrow> vfd_core fds ok (st\<lparr>os := w\<rparr>) lru fr"
  by (auto simp: vfd_core_def lru.ring_of_def)

lemma same_files_os:
  "(\<And>i. i < SizeVfdCache st \<Longrightarrow> fd (VfdCache st i) \<noteq> -1 \<Longrightarrow> pos w (fd (VfdCache st i)) = pos (os st) (fd (VfdCache st i))) \<Longrightarrow>
   same_files pos st (st\<lparr>os := w\<rparr>)"
  by (simp add: same_files_def lpos_def)

context posix
begin

lemma release_excess_ok:
  assumes "vfd_core fds ok st lru fr"
  shows "\<exists>st' n. release_excess k limit st = Inr st' \<and> vfd_core fds ok st' (drop n lru) fr \<and> same_files pos st st' \<and>
    (NFile st' + int (NumAllocatedFiles st') < limit \<or> NFile st' = 0)"
  using assms
proof (induction lru arbitrary: st)
  case Nil
  obtain st1 where r: "release_lru_file k st = Inr (False, st1)" "vfd_core fds ok st1 [] fr" "same_files pos st st1"
    using release_lru_ok [OF Nil] by auto
  have "NFile st1 = 0" using r(2) by (simp add: vfd_core_def)
  then show ?case using Nil r same_files_refl
    by (cases "limit \<le> NFile st + int (NumAllocatedFiles st)"; subst release_excess.simps) (auto intro!: exI [of _ 0])
next
  case (Cons e zs)
  show ?case
  proof (cases "limit \<le> NFile st + int (NumAllocatedFiles st)")
    case False
    then show ?thesis using Cons.prems same_files_refl by (subst release_excess.simps) (auto intro!: exI [of _ 0])
  next
    case True
    obtain st1 where r: "release_lru_file k st = Inr (True, st1)" "vfd_core fds ok st1 zs fr" "same_files pos st st1"
      using release_lru_ok [OF Cons.prems] by auto
    obtain st' n where i: "release_excess k limit st1 = Inr st'" "vfd_core fds ok st' (drop n zs) fr" "same_files pos st1 st'"
      "NFile st' + int (NumAllocatedFiles st') < limit \<or> NFile st' = 0"
      using Cons.IH [OF r(2)] by blast
    have "release_excess k limit st = Inr st'" using True r(1) i(1) by (subst release_excess.simps) simp
    then show ?thesis using i same_files_trans [OF r(3)] by (intro exI [of _ st'] exI [of _ "Suc n"]) simp
  qed
qed

lemma open_step:
  assumes core: "vfd_core fds ok st lru fr" and o: "k_open k (os st) name flags mode = (d, t, w)"
  shows "vfd_core fds ok (st\<lparr>os := w\<rparr>) lru fr" "same_files pos st (st\<lparr>os := w\<rparr>)"
    "0 \<le> d \<Longrightarrow> d < 32768 \<and> d \<in> fds w \<and> d \<notin> (\<lambda>i. fd (VfdCache st i)) ` set lru \<and> pos w d = 0"
proof -
  have okw: "ok (os st)" using core by (simp add: vfd_core_def)
  have op: "fd (VfdCache st i) \<in> fds (os st)" if "i < SizeVfdCache st" "fd (VfdCache st i) \<noteq> -1" for i
    using core that vfd_core_fds [OF core, of i] by (auto simp: vfd_core_def)
  consider "d < 0" "ok w" "fds w = fds (os st)" "pos w = pos (os st)"
    | "0 \<le> d" "d < 32768" "ok w" "d \<notin> fds (os st)" "fds w = Set.insert d (fds (os st))" "pos w = (pos (os st))(d := 0)"
    using open_fails [OF okw o] open_new [OF okw o] by linarith
  note c = this
  from c show "vfd_core fds ok (st\<lparr>os := w\<rparr>) lru fr" by cases (auto intro!: vfd_core_os [OF core])
  from c show "same_files pos st (st\<lparr>os := w\<rparr>)" by cases (auto intro!: same_files_os dest: op)
  from c show "0 \<le> d \<Longrightarrow> d < 32768 \<and> d \<in> fds w \<and> d \<notin> (\<lambda>i. fd (VfdCache st i)) ` set lru \<and> pos w d = 0"
    using vfd_core_fds [OF core] by cases auto
qed

lemma basic_open_ok:
  assumes "vfd_core fds ok st lru fr"
  shows "\<exists>d st' n. basic_open_file k st name flags mode = Inr (d, st') \<and> vfd_core fds ok st' (drop n lru) fr \<and> same_files pos st st' \<and>
    (d = -1 \<or> (0 \<le> d \<and> d < 32768 \<and> d \<in> fds (os st') \<and> d \<notin> (\<lambda>i. fd (VfdCache st' i)) ` set (drop n lru) \<and> pos (os st') d = 0)) \<and>
    NFile st' \<le> NFile st"
  using assms
proof (induction lru arbitrary: st)
  case Nil
  obtain d t w where o: "k_open k (os st) name flags mode = (d, t, w)" by (metis prod_cases3)
  note s = open_step [OF Nil o]
  obtain st1 where r: "release_lru_file k (st\<lparr>os := w\<rparr>) = Inr (False, st1)" "vfd_core fds ok st1 [] fr" "same_files pos (st\<lparr>os := w\<rparr>) st1"
    using release_lru_ok [OF s(1)] by auto
  have "NFile st1 = 0" "NFile st = 0" using r(2) Nil by (simp_all add: vfd_core_def)
  show ?case
  proof (cases "0 \<le> d")
    case True
    then show ?thesis using s o by (subst basic_open_file.simps) (auto intro!: exI [of _ 0])
  next
    case False
    then show ?thesis using s o r same_files_trans [OF s(2) r(3)] \<open>NFile st1 = 0\<close> \<open>NFile st = 0\<close>
      by (cases t; subst basic_open_file.simps) (auto intro!: exI [of _ 0])
  qed
next
  case (Cons e zs)
  obtain d t w where o: "k_open k (os st) name flags mode = (d, t, w)" by (metis prod_cases3)
  note s = open_step [OF Cons.prems o]
  obtain st1 where r: "release_lru_file k (st\<lparr>os := w\<rparr>) = Inr (True, st1)" "vfd_core fds ok st1 zs fr" "same_files pos (st\<lparr>os := w\<rparr>) st1"
    using release_lru_ok [OF s(1)] by auto
  have nf: "NFile st1 = NFile st - 1" using release_lru_NFile [OF r(1)] by simp
  obtain d' st' n where i: "basic_open_file k st1 name flags mode = Inr (d', st')" "vfd_core fds ok st' (drop n zs) fr" "same_files pos st1 st'"
    "d' = -1 \<or> (0 \<le> d' \<and> d' < 32768 \<and> d' \<in> fds (os st') \<and> d' \<notin> (\<lambda>i. fd (VfdCache st' i)) ` set (drop n zs) \<and> pos (os st') d' = 0)"
    "NFile st' \<le> NFile st1"
    using Cons.IH [OF r(2)] by blast
  consider "0 \<le> d" | "d < 0" "t" | "d < 0" "\<not> t" by linarith
  then show ?case
  proof cases
    case 1
    then show ?thesis using s o by (subst basic_open_file.simps) (auto intro!: exI [of _ 0])
  next
    case 2
    then have "basic_open_file k st name flags mode = Inr (d', st')" using o r(1) i(1) by (subst basic_open_file.simps) simp
    then show ?thesis using i nf same_files_trans [OF same_files_trans [OF s(2) r(3)] i(3)]
      by (intro exI [of _ d'] exI [of _ st'] exI [of _ "Suc n"]) simp
  next
    case 3
    then show ?thesis using s o by (subst basic_open_file.simps) (auto intro!: exI [of _ 0])
  qed
qed

end

section \<open>Opening and using files\<close>

lemma to_short_fd: "0 \<le> d \<Longrightarrow> d < 32768 \<Longrightarrow> to_short d = d" "to_short (-1) = -1"
  by (simp_all add: to_short_def int_word_sint)

lemma vfd_core_attach:
  assumes core: "vfd_core fds ok st lru fr" and e: "e \<notin> set lru" "e \<notin> set fr" "0 < e" "e < SizeVfdCache st"
    and d: "0 \<le> d" "d \<in> fds (os st1)" "d \<notin> (\<lambda>i. fd (VfdCache st i)) ` set lru"
    and st1: "\<And>i. fd (VfdCache st1 i) = (if i = e then d else fd (VfdCache st i))"
      "\<And>i. next_free (VfdCache st1 i) = next_free (VfdCache st i)"
      "\<And>i. i \<noteq> e \<Longrightarrow> fdstate (VfdCache st1 i) = fdstate (VfdCache st i) \<and> filename (VfdCache st1 i) = filename (VfdCache st i)"
      "more st1 = more st" "less st1 = less st" "SizeVfdCache st1 = SizeVfdCache st" "NFile st1 = NFile st + 1"
      "ok (os st1)" "fds (os st) \<subseteq> fds (os st1)"
  shows "vfd_core fds ok (vfd_link st1 0 e) (lru @ [e]) fr"
proof -
  let ?st = "vfd_link st1 0 e"
  have "lru.ring_of st1 0 lru" using core st1(4,5) by (simp add: vfd_core_def lru.ring_of_def)
  then have "lru.ring_of ?st 0 (lru @ [e])" using e by (intro lru.ring_of_insert) auto
  moreover have "path (\<lambda>i. next_free (VfdCache ?st i)) (next_free (VfdCache ?st 0)) fr" using core by (simp add: st1 vfd_core_def)
  moreover have "\<forall>i < SizeVfdCache ?st. i \<in> set (lru @ [e]) \<longleftrightarrow> fd (VfdCache ?st i) \<noteq> -1"
    using core d(1) by (auto simp: st1 vfd_core_def)
  moreover have "\<forall>i \<in> set (lru @ [e]). 0 \<le> fd (VfdCache ?st i) \<and> fd (VfdCache ?st i) \<in> fds (os ?st)"
    using core e d st1(9) by (auto simp: st1(1) vfd_core_def)
  moreover have "inj_on (\<lambda>i. fd (VfdCache ?st i)) (set (lru @ [e]))"
    using core e d by (auto simp: st1(1) vfd_core_def inj_on_def)
  moreover have "\<forall>i \<in> set fr. fd (VfdCache ?st i) = -1 \<and> fdstate (VfdCache ?st i) = 0 \<and> filename (VfdCache ?st i) = None"
    using core e by (auto simp: st1 vfd_core_def)
  ultimately show ?thesis using core st1(6-9) e unfolding vfd_core_def by auto
qed

lemma closed_file:
  assumes "vfd_core fds ok st lru fr" "e < SizeVfdCache st" "fd (VfdCache st e) = -1" "filename (VfdCache st e) \<noteq> None"
  shows "e \<notin> set lru" "e \<notin> set fr"
  using assms by (auto simp: vfd_core_def)

text \<open>A closed file stays closed when descriptors of other files are given back.\<close>

lemma drop_closed:
  "vfd_core fds ok st' (drop n lru) fr \<Longrightarrow> e < SizeVfdCache st' \<Longrightarrow> e \<notin> set lru \<Longrightarrow> fd (VfdCache st' e) = -1"
  using in_set_dropD by (force simp: vfd_core_def)

context posix
begin

text \<open>The last part of \<open>lru_insert\<close>: the new descriptor is set to the position of the file.\<close>

lemma restore_ok:
  assumes core: "vfd_core fds ok st lru fr" and e: "0 < e" "e < SizeVfdCache st" "e \<notin> set lru" "e \<notin> set fr" "fd (VfdCache st e) = -1"
    and d: "0 \<le> d" "d \<in> fds (os st)" "d \<notin> (\<lambda>i. fd (VfdCache st i)) ` set lru" "pos (os st) d = 0"
    and p: "0 \<le> seek_pos (VfdCache st e)" "to_int (seek_pos (VfdCache st e)) \<noteq> -1"
    and st4: "st4 = (upd_vfd st e (\<lambda>v. v\<lparr>fd := d\<rparr>))\<lparr>NFile := NFile st + 1\<rparr>"
  shows "\<exists>w. (if seek_pos (VfdCache st4 e) \<noteq> 0
      then case k_lseek k (os st4) (fd (VfdCache st4 e)) (seek_pos (VfdCache st4 e)) SEEK_SET of
         (r, w) \<Rightarrow> c_assert (to_int r \<noteq> -1) (Inr (st4\<lparr>os := w\<rparr>)) else Inr st4) = Inr (st4\<lparr>os := w\<rparr>) \<and>
    vfd_core fds ok (vfd_link (st4\<lparr>os := w\<rparr>) 0 e) (lru @ [e]) fr \<and> same_files pos st (vfd_link (st4\<lparr>os := w\<rparr>) 0 e)"
proof -
  let ?p = "seek_pos (VfdCache st e)"
  have okw: "ok (os st)" using core by (simp add: vfd_core_def)
  have f4: "fd (VfdCache st4 e) = d" "seek_pos (VfdCache st4 e) = ?p" "os st4 = os st" by (simp_all add: st4)
  obtain r w1 where l: "k_lseek k (os st) d ?p SEEK_SET = (r, w1)" by fastforce
  note s = lseek_set [OF okw d(2) p(1) l]
  define w where "w = (if ?p \<noteq> 0 then w1 else os st)"
  have w: "ok w" "fds w = fds (os st)" "pos w = (pos (os st))(d := ?p)"
    using s okw d(4) by (auto simp: w_def)
  have run: "(if seek_pos (VfdCache st4 e) \<noteq> 0
      then case k_lseek k (os st4) (fd (VfdCache st4 e)) (seek_pos (VfdCache st4 e)) SEEK_SET of
         (r, w) \<Rightarrow> c_assert (to_int r \<noteq> -1) (Inr (st4\<lparr>os := w\<rparr>)) else Inr st4) = Inr (st4\<lparr>os := w\<rparr>)"
    using l s p(2) by (simp add: f4 w_def)
  have "vfd_core fds ok (vfd_link (st4\<lparr>os := w\<rparr>) 0 e) (lru @ [e]) fr"
    by (rule vfd_core_attach [OF core e(3,4,1,2) d(1)])
      (use d w in \<open>simp_all add: st4 more_def less_def fun_eq_iff\<close>)
  moreover have "same_files pos st (vfd_link (st4\<lparr>os := w\<rparr>) 0 e)"
  proof -
    have "lpos pos (vfd_link (st4\<lparr>os := w\<rparr>) 0 e) i = lpos pos st i" if i: "i < SizeVfdCache st" for i
    proof (cases "i = e")
      case True
      then show ?thesis using d(1) e(5) by (simp add: lpos_def st4 w)
    next
      case False
      have "fd (VfdCache st i) \<noteq> d" if "fd (VfdCache st i) \<noteq> -1" using core d(3) i that by (auto simp: vfd_core_def)
      then show ?thesis using False by (auto simp: lpos_def st4 w)
    qed
    then show ?thesis by (simp add: same_files_def st4)
  qed
  ultimately show ?thesis using run by blast
qed

lemma lru_insert_ok:
  assumes core: "vfd_core fds ok st lru fr" and lim: "pg_nofile k = Inr limit"
    and e: "0 < e" "e < SizeVfdCache st" "fd (VfdCache st e) = -1" "filename (VfdCache st e) \<noteq> None"
    and p: "0 \<le> seek_pos (VfdCache st e)" "to_int (seek_pos (VfdCache st e)) \<noteq> -1"
  shows "\<exists>r st' n. lru_insert k st e = Inr (r, st') \<and> same_files pos st st' \<and>
    (r = -1 \<and> vfd_core fds ok st' (drop n lru) fr \<or> r = 0 \<and> vfd_core fds ok st' (drop n lru @ [e]) fr) \<and>
    (NFile st' + int (NumAllocatedFiles st') \<le> limit \<or> NFile st' \<le> 1)"
proof -
  note out = closed_file [OF core e(2-4)]
  obtain st1 n1 where r: "release_excess k limit st = Inr st1" "vfd_core fds ok st1 (drop n1 lru) fr" "same_files pos st st1"
    "NFile st1 + int (NumAllocatedFiles st1) < limit \<or> NFile st1 = 0"
    using release_excess_ok [OF core] by blast
  have sz1: "SizeVfdCache st1 = SizeVfdCache st" using r(3) by (simp add: same_files_def)
  have fn1: "filename (VfdCache st1 e) = filename (VfdCache st e)" using r(3) e(2) by (simp add: same_files_def)
  then obtain name where name: "filename (VfdCache st1 e) = Some name" using e(4) by auto
  obtain d st2 n2 where o: "basic_open_file k st1 name (file_flags (VfdCache st1 e)) (file_mode (VfdCache st1 e)) = Inr (d, st2)"
    "vfd_core fds ok st2 (drop n2 (drop n1 lru)) fr" "same_files pos st1 st2"
    "d = -1 \<or> (0 \<le> d \<and> d < 32768 \<and> d \<in> fds (os st2) \<and> d \<notin> (\<lambda>i. fd (VfdCache st2 i)) ` set (drop n2 (drop n1 lru)) \<and> pos (os st2) d = 0)"
    "NFile st2 \<le> NFile st1"
    using basic_open_ok [OF r(2)] by blast
  have core2: "vfd_core fds ok st2 (drop (n2 + n1) lru) fr" using o(2) by simp
  have sf: "same_files pos st st2" using same_files_trans [OF r(3) o(3)] .
  have sz2: "SizeVfdCache st2 = SizeVfdCache st" using sf by (simp add: same_files_def)
  have out2: "e \<notin> set (drop (n2 + n1) lru)" using out(1) in_set_dropD by metis
  have fd2: "fd (VfdCache st2 e) = -1" using drop_closed [OF core2 _ out(1)] e(2) sz2 by simp
  have p2: "seek_pos (VfdCache st2 e) = seek_pos (VfdCache st e)"
    using sf e(2,3) fd2 by (auto simp: same_files_def lpos_def)
  have num: "NumAllocatedFiles st2 = NumAllocatedFiles st1" using o(3) by (simp add: same_files_def NumAllocatedFiles_def)
  have start: "lru_insert k st e = (let st3 = upd_vfd st2 e (\<lambda>v. v\<lparr>fd := to_short d\<rparr>)
      in if fd (VfdCache st3 e) < 0 then Inr (fd (VfdCache st3 e), st3)
         else let st4 = st3\<lparr>NFile := NFile st3 + 1\<rparr>
              in cbind (if seek_pos (VfdCache st4 e) \<noteq> 0
                        then case k_lseek k (os st4) (fd (VfdCache st4 e)) (seek_pos (VfdCache st4 e)) SEEK_SET of
                               (r, o') \<Rightarrow> c_assert (to_int r \<noteq> -1) (Inr (st4\<lparr>os := o'\<rparr>))
                        else Inr st4)
                   (\<lambda>st5. cbind (insert_vfd st5 e) (\<lambda>st6. Inr (0, st6))))"
    using e lim r(1) name o(1) by (simp add: lru_insert_def FILE_IS_NOT_OPEN_def VFD_CLOSED_def)
  show ?thesis
  proof (cases "d = -1")
    case True
    have "(VfdCache st2 e)\<lparr>fd := -1\<rparr> = VfdCache st2 e" using fd2 by (cases "VfdCache st2 e") simp
    then have "upd_vfd st2 e (\<lambda>v. v\<lparr>fd := -1\<rparr>) = st2" by (simp add: upd_vfd_def)
    then have "lru_insert k st e = Inr (-1, st2)" using start True fd2 by (simp add: to_short_fd)
    then show ?thesis using core2 sf r(4) o(5) num by (intro exI [of _ "-1"] exI [of _ st2] exI [of _ "n2 + n1"]) auto
  next
    case False
    then have d: "0 \<le> d" "d < 32768" "d \<in> fds (os st2)" "d \<notin> (\<lambda>i. fd (VfdCache st2 i)) ` set (drop (n2 + n1) lru)" "pos (os st2) d = 0"
      using o(4) by auto
    define st4 where "st4 = (upd_vfd st2 e (\<lambda>v. v\<lparr>fd := d\<rparr>))\<lparr>NFile := NFile st2 + 1\<rparr>"
    have sh: "(upd_vfd st2 e (\<lambda>v. v\<lparr>fd := to_short d\<rparr>))\<lparr>NFile := NFile (upd_vfd st2 e (\<lambda>v. v\<lparr>fd := to_short d\<rparr>)) + 1\<rparr> = st4"
      using d by (simp add: to_short_fd st4_def)
    obtain w where w: "(if seek_pos (VfdCache st4 e) \<noteq> 0
        then case k_lseek k (os st4) (fd (VfdCache st4 e)) (seek_pos (VfdCache st4 e)) SEEK_SET of
           (r, w) \<Rightarrow> c_assert (to_int r \<noteq> -1) (Inr (st4\<lparr>os := w\<rparr>)) else Inr st4) = Inr (st4\<lparr>os := w\<rparr>)"
      "vfd_core fds ok (vfd_link (st4\<lparr>os := w\<rparr>) 0 e) (drop (n2 + n1) lru @ [e]) fr"
      "same_files pos st2 (vfd_link (st4\<lparr>os := w\<rparr>) 0 e)"
      using restore_ok [OF core2 e(1) _ out2 out(2) fd2 d(1,3,4,5) _ _ st4_def] e(2) sz2 p p2 by auto
    have "lru_insert k st e = Inr (0, vfd_link (st4\<lparr>os := w\<rparr>) 0 e)"
      unfolding start Let_def sh w(1) using d e(1) by (simp add: insert_vfd_link to_short_fd)
    moreover have "NFile (vfd_link (st4\<lparr>os := w\<rparr>) 0 e) = NFile st2 + 1" by (simp add: st4_def)
    moreover have "NumAllocatedFiles (vfd_link (st4\<lparr>os := w\<rparr>) 0 e) = NumAllocatedFiles st1" using num by (simp add: st4_def NumAllocatedFiles_def)
    ultimately show ?thesis using w(2) same_files_trans [OF sf w(3)] r(4) o(5)
      by (intro exI [of _ 0] exI [of _ "vfd_link (st4\<lparr>os := w\<rparr>) 0 e"] exI [of _ "n2 + n1"]) auto
  qed
qed

end

lemma vfd_ok_same_files:
  "vfd_ok fds ok st lru fr \<Longrightarrow> same_files pos st st' \<Longrightarrow> vfd_core fds ok st' lru' fr \<Longrightarrow> vfd_ok fds ok st' lru' fr"
  by (auto simp: vfd_ok_def same_files_def)

lemma vfd_ok_core: "vfd_ok fds ok st lru fr \<Longrightarrow> vfd_core fds ok st lru fr"
  by (simp add: vfd_ok_def)

lemma vfd_core_relink:
  assumes core: "vfd_core fds ok st (ys @ e # zs) fr"
  shows "vfd_core fds ok (vfd_link (vfd_unlink st e) 0 e) (ys @ zs @ [e]) fr"
proof -
  have "lru.ring_of (vfd_link (vfd_unlink st e) 0 e) 0 (ys @ zs @ [e])"
    using core by (intro lru.ring_of_move_to_tail) (simp add: vfd_core_def)
  moreover have "set (ys @ zs @ [e]) = set (ys @ e # zs)" "length (ys @ zs @ [e]) = length (ys @ e # zs)" by auto
  ultimately show ?thesis using core unfolding vfd_core_def by (simp del: set_append)
qed

context posix
begin

lemma file_access_ok:
  assumes vok: "vfd_ok fds ok st lru fr" and lim: "pg_nofile k = Inr limit" and val: "FILE_IS_VALID st e"
    and p: "fd (VfdCache st e) = -1 \<Longrightarrow> 0 \<le> seek_pos (VfdCache st e) \<and> to_int (seek_pos (VfdCache st e)) \<noteq> -1"
  shows "\<exists>r st' n. file_access k st e = Inr (r, st') \<and> same_files pos st st' \<and>
    (r = -1 \<and> e \<notin> set lru \<and> vfd_ok fds ok st' (drop n lru) fr \<or>
     r = 0 \<and> vfd_ok fds ok st' (drop n (remove1 e lru) @ [e]) fr) \<and>
    (NFile st' + int (NumAllocatedFiles st') \<le> limit \<or> NFile st' \<le> 1 \<or> NFile st' = NFile st)"
proof -
  note core = vfd_ok_core [OF vok]
  have e: "0 < e" "e < SizeVfdCache st" "filename (VfdCache st e) \<noteq> None" using val by (auto simp: FILE_IS_VALID_def)
  show ?thesis
  proof (cases "fd (VfdCache st e) = -1")
    case True
    obtain r st' n where i: "lru_insert k st e = Inr (r, st')" "same_files pos st st'"
      "r = -1 \<and> vfd_core fds ok st' (drop n lru) fr \<or> r = 0 \<and> vfd_core fds ok st' (drop n lru @ [e]) fr"
      "NFile st' + int (NumAllocatedFiles st') \<le> limit \<or> NFile st' \<le> 1"
      using lru_insert_ok [OF core lim e(1,2) True e(3)] p [OF True] by blast
    have "e \<notin> set lru" using closed_file [OF core e(2) True e(3)] by blast
    moreover have "file_access k st e = Inr (r, st')" using True i(1) by (simp add: file_access_def FILE_IS_NOT_OPEN_def VFD_CLOSED_def)
    ultimately show ?thesis using i vfd_ok_same_files [OF vok i(2)]
      by (intro exI [of _ r] exI [of _ st'] exI [of _ n]) (auto simp: remove1_idem)
  next
    case False
    then have "e \<in> set lru" using core e(2) by (auto simp: vfd_core_def)
    then obtain ys zs where yz: "lru = ys @ e # zs" "e \<notin> set ys" by (meson split_list_first)
    have d: "distinct lru" "ring (more st) (less st) 0 lru" using core by (auto simp: vfd_core_def lru.ring_of_def ring_def)
    have rm: "remove1 e lru = ys @ zs" using yz by (simp add: remove1_append)
    have last: "less st 0 = last (0 # lru)" using ring_prv_head [OF d(2)] .
    show ?thesis
    proof (cases "less st 0 = e")
      case True
      then have "zs = []" using last yz d(1) by (cases zs rule: rev_cases) auto
      then have "drop 0 (remove1 e lru) @ [e] = lru" using rm yz by simp
      moreover have "file_access k st e = Inr (0, st)"
        using False True by (simp add: file_access_def FILE_IS_NOT_OPEN_def VFD_CLOSED_def less_def)
      ultimately show ?thesis using vok same_files_refl by (intro exI [of _ 0] exI [of _ st]) auto
    next
      case nl: False
      let ?st = "vfd_link (vfd_unlink st e) 0 e"
      have "file_access k st e = Inr (0, ?st)"
        using False nl e(1) by (simp add: file_access_def FILE_IS_NOT_OPEN_def VFD_CLOSED_def less_def delete_vfd_unlink insert_vfd_link)
      moreover have "same_files pos st ?st" by (simp add: same_files_def lpos_def)
      moreover have "vfd_core fds ok ?st (drop 0 (remove1 e lru) @ [e]) fr" using vfd_core_relink [of fds ok st ys e zs fr] core yz rm by simp
      ultimately show ?thesis using vfd_ok_same_files [OF vok] by (intro exI [of _ 0] exI [of _ ?st] exI [of _ 0]) auto
    qed
  qed
qed

end

section \<open>Closing files\<close>

lemma free_vfd_fields:
  "fd (VfdCache (free_vfd st e) i) = fd (VfdCache st i)" "seek_pos (VfdCache (free_vfd st e) i) = seek_pos (VfdCache st i)"
  "file_flags (VfdCache (free_vfd st e) i) = file_flags (VfdCache st i)" "file_mode (VfdCache (free_vfd st e) i) = file_mode (VfdCache st i)"
  "filename (VfdCache (free_vfd st e) i) = (if i = e then None else filename (VfdCache st i))"
  "fdstate (VfdCache (free_vfd st e) i) = (if i = e then 0 else fdstate (VfdCache st i))"
  "more (free_vfd st e) = more st" "less (free_vfd st e) = less st" "os (free_vfd st e) = os st" "NFile (free_vfd st e) = NFile st"
  "SizeVfdCache (free_vfd st e) = SizeVfdCache st" "AllocatedFiles (free_vfd st e) = AllocatedFiles st"
  "EnableFsync (free_vfd st e) = EnableFsync st" "TempFileCounter (free_vfd st e) = TempFileCounter st"
  by (auto simp: free_vfd_def Let_def more_def less_def fun_eq_iff)

lemma free_vfd_next:
  "e \<noteq> 0 \<Longrightarrow> next_free (VfdCache (free_vfd st e) i) =
     (if i = 0 then e else if i = e then next_free (VfdCache st 0) else next_free (VfdCache st i))"
  by (auto simp: free_vfd_def Let_def)

lemma free_vfd_ok:
  assumes core: "vfd_core fds ok st lru fr" and e: "e \<notin> set lru" "e \<notin> set fr" "0 < e" "e < SizeVfdCache st"
  shows "vfd_core fds ok (free_vfd st e) lru (e # fr)"
proof -
  have p: "path (\<lambda>i. next_free (VfdCache st i)) (next_free (VfdCache st 0)) fr" "0 \<notin> set fr" using core by (auto simp: vfd_core_def)
  have "path (\<lambda>i. next_free (VfdCache (free_vfd st e) i)) (next_free (VfdCache st 0)) fr =
      path (\<lambda>i. next_free (VfdCache st i)) (next_free (VfdCache st 0)) fr"
    using p(2) e by (intro path_cong) (auto simp: free_vfd_next)
  then have "path (\<lambda>i. next_free (VfdCache (free_vfd st e) i)) (next_free (VfdCache (free_vfd st e) 0)) (e # fr)"
    using p(1) e(3) by (simp add: free_vfd_next)
  moreover have "fd (VfdCache st e) = -1" using core e by (auto simp: vfd_core_def)
  ultimately show ?thesis using core e unfolding vfd_core_def lru.ring_of_def by (auto simp: free_vfd_fields)
qed

text \<open>All files but \<open>e\<close> are as before.\<close>

definition same_others :: "('o \<Rightarrow> int \<Rightarrow> int) \<Rightarrow> 'o fd_globals \<Rightarrow> 'o fd_globals \<Rightarrow> nat \<Rightarrow> bool" where
  "same_others pos st st' e \<longleftrightarrow>
     (\<forall>i < SizeVfdCache st. 0 < i \<longrightarrow> i \<noteq> e \<longrightarrow> lpos pos st' i = lpos pos st i \<and> filename (VfdCache st' i) = filename (VfdCache st i) \<and>
        file_flags (VfdCache st' i) = file_flags (VfdCache st i) \<and> file_mode (VfdCache st' i) = file_mode (VfdCache st i) \<and>
        fdstate (VfdCache st' i) AND NOT FD_DIRTY = fdstate (VfdCache st i) AND NOT FD_DIRTY) \<and>
     SizeVfdCache st \<le> SizeVfdCache st' \<and> AllocatedFiles st' = AllocatedFiles st"

context posix
begin

text \<open>The part of \<open>file_close\<close> that gives up the descriptor of an open file.\<close>

lemma close_open_ok:
  assumes core: "vfd_core fds ok st (ys @ e # zs) fr"
  shows "\<exists>st'. sync_and_close k (vfd_unlink st e) e = Inr st' \<and> vfd_core fds ok st' (ys @ zs) fr \<and> same_others pos st st' e \<and>
    SizeVfdCache st' = SizeVfdCache st \<and> filename (VfdCache st' e) = filename (VfdCache st e)"
proof -
  let ?lru = "ys @ e # zs" and ?st1 = "vfd_unlink st e"
  have e: "e \<noteq> 0" "fd (VfdCache st e) \<in> fds (os st)" "e < SizeVfdCache st"
    using vfd_core_range [OF core, of e] vfd_core_fds [OF core, of e] by auto
  have okw: "ok (os st)" using core by (simp add: vfd_core_def)
  have d: "distinct ?lru" using core by (auto simp: vfd_core_def lru.ring_of_def ring_def)
  obtain s w where c: "sync_and_close k ?st1 e = Inr (upd_vfd (?st1\<lparr>os := w, NFile := NFile ?st1 - 1\<rparr>) e (\<lambda>v. v\<lparr>fdstate := s, fd := -1\<rparr>))"
    "ok w" "fds w = fds (os st) - {fd (VfdCache st e)}" "\<forall>x. x \<noteq> fd (VfdCache st e) \<longrightarrow> pos w x = pos (os st) x"
    using sync_and_close_ok [of ?st1 e] okw e(2) by auto
  define st' where "st' = upd_vfd (?st1\<lparr>os := w, NFile := NFile ?st1 - 1\<rparr>) e (\<lambda>v. v\<lparr>fdstate := s, fd := -1\<rparr>)"
  have st': "fd (VfdCache st' i) = (if i = e then -1 else fd (VfdCache st i))"
    "filename (VfdCache st' i) = filename (VfdCache st i)" "next_free (VfdCache st' i) = next_free (VfdCache st i)"
    "fdstate (VfdCache st' i) = (if i = e then s else fdstate (VfdCache st i))" for i
    by (simp_all add: st'_def)
  have g: "SizeVfdCache st' = SizeVfdCache st" "NFile st' = NFile st - 1" "os st' = w" "more st' = more ?st1" "less st' = less ?st1"
    by (simp_all add: st'_def more_def less_def fun_eq_iff)
  have inj: "fd (VfdCache st i) \<noteq> fd (VfdCache st e)" if "i \<in> set (ys @ zs)" for i
    using core that d by (auto simp: vfd_core_def inj_on_def)
  have opn: "i = e \<or> fd (VfdCache st i) = -1 \<or> fd (VfdCache st i) \<noteq> fd (VfdCache st e)" if "i < SizeVfdCache st" for i
    using inj [of i] core that by (auto simp: vfd_core_def)
  have "lru.ring_of st' 0 (ys @ zs)"
    using lru.ring_of_delete [of st 0 ys e zs] core by (simp add: vfd_core_def lru.ring_of_def g)
  moreover have "\<forall>i < SizeVfdCache st. i \<in> set (ys @ zs) \<longleftrightarrow> fd (VfdCache st' i) \<noteq> -1"
    using core d by (auto simp: vfd_core_def st'(1))
  moreover have "\<forall>i \<in> set (ys @ zs). 0 \<le> fd (VfdCache st' i) \<and> fd (VfdCache st' i) \<in> fds (os st')"
    using inj d vfd_core_fds [OF core] by (auto simp: st'(1) g c(3))
  moreover have "inj_on (\<lambda>i. fd (VfdCache st' i)) (set (ys @ zs))"
    using core d by (auto simp: st'(1) vfd_core_def inj_on_def)
  moreover have "e \<notin> set fr" using core e by (auto simp: vfd_core_def)
  then have "\<forall>i \<in> set fr. fd (VfdCache st' i) = -1 \<and> fdstate (VfdCache st' i) = 0 \<and> filename (VfdCache st' i) = None"
    using core unfolding st' vfd_core_def by auto
  moreover have "set (ys @ zs) \<subseteq> {1..<SizeVfdCache st'}" "NFile st' = int (length (ys @ zs))" "0 < SizeVfdCache st'"
    "set fr \<subseteq> {1..<SizeVfdCache st'}" "distinct fr" "path (\<lambda>i. next_free (VfdCache st' i)) (next_free (VfdCache st' 0)) fr"
    using core by (auto simp: vfd_core_def g st'(3))
  ultimately have "vfd_core fds ok st' (ys @ zs) fr" using c(2) unfolding vfd_core_def g by blast
  moreover have "lpos pos st' i = lpos pos st i" if "i < SizeVfdCache st" "i \<noteq> e" for i
    using opn [OF that(1)] c(4) that(2) by (auto simp: lpos_def st'_def)
  then have "same_others pos st st' e" by (auto simp: same_others_def st'_def)
  ultimately show ?thesis using c(1) st'(2) g(1) unfolding st'_def by blast
qed

lemma file_close_ok:
  assumes vok: "vfd_ok fds ok st lru fr" and val: "FILE_IS_VALID st e"
  shows "\<exists>st'. file_close k st e = Inr st' \<and> vfd_ok fds ok st' (remove1 e lru) (e # fr) \<and> same_others pos st st' e"
proof -
  note core = vfd_ok_core [OF vok]
  have e: "0 < e" "e < SizeVfdCache st" "filename (VfdCache st e) \<noteq> None" using val by (auto simp: FILE_IS_VALID_def)
  have efr: "e \<notin> set fr" using core e by (auto simp: vfd_core_def)
  obtain st2 where s2: "(if \<not> FILE_IS_NOT_OPEN st e then cbind (delete_vfd st e) (\<lambda>st1. sync_and_close k st1 e) else Inr st) = Inr st2"
    "vfd_core fds ok st2 (remove1 e lru) fr" "same_others pos st st2 e" "SizeVfdCache st2 = SizeVfdCache st"
    "filename (VfdCache st2 e) = filename (VfdCache st e)"
  proof (cases "fd (VfdCache st e) = -1")
    case True
    then have "e \<notin> set lru" using closed_file [OF core e(2) True e(3)] by blast
    then show ?thesis using that [of st] True core by (simp add: FILE_IS_NOT_OPEN_def VFD_CLOSED_def remove1_idem same_others_def)
  next
    case False
    then have "e \<in> set lru" using core e(2) by (auto simp: vfd_core_def)
    then obtain ys zs where yz: "lru = ys @ e # zs" "e \<notin> set ys" by (meson split_list_first)
    then have "remove1 e lru = ys @ zs" by (simp add: remove1_append)
    then show ?thesis using that close_open_ok [of st ys e zs fr] core yz False e(1)
      by (auto simp: FILE_IS_NOT_OPEN_def VFD_CLOSED_def delete_vfd_unlink)
  qed
  define st3 where "st3 = (if fdstate (VfdCache st2 e) AND FD_TEMPORARY \<noteq> 0
      then let st' = upd_vfd st2 e (\<lambda>v. v\<lparr>fdstate := fdstate v AND NOT FD_TEMPORARY\<rparr>)
           in case filename (VfdCache st' e) of None \<Rightarrow> st' | Some name \<Rightarrow> st'\<lparr>os := k_unlink k (os st') name\<rparr>
      else st2)"
  have run: "file_close k st e = Inr (free_vfd st3 e)"
    using val s2(1) by (simp add: file_close_def st3_def)
  have okw: "ok (os st2)" using s2(2) by (simp add: vfd_core_def)
  have st3: "ok (os st3)" "fds (os st3) = fds (os st2)" "pos (os st3) = pos (os st2)" "more st3 = more st2" "less st3 = less st2"
    "SizeVfdCache st3 = SizeVfdCache st2" "NFile st3 = NFile st2" "AllocatedFiles st3 = AllocatedFiles st2"
    using unlink_frame [OF okw] okw by (auto simp: st3_def Let_def more_def less_def fun_eq_iff split: option.splits)
  have f3: "fd (VfdCache st3 i) = fd (VfdCache st2 i)" "filename (VfdCache st3 i) = filename (VfdCache st2 i)"
    "seek_pos (VfdCache st3 i) = seek_pos (VfdCache st2 i)" "next_free (VfdCache st3 i) = next_free (VfdCache st2 i)"
    "file_flags (VfdCache st3 i) = file_flags (VfdCache st2 i)" "file_mode (VfdCache st3 i) = file_mode (VfdCache st2 i)"
    "i \<noteq> e \<Longrightarrow> fdstate (VfdCache st3 i) = fdstate (VfdCache st2 i)" for i
    by (auto simp: st3_def Let_def split: option.splits)
  have "fdstate (VfdCache st3 i) = fdstate (VfdCache st2 i)" if "i \<in> set fr" for i using f3(7) that efr by metis
  then have core3: "vfd_core fds ok st3 (remove1 e lru) fr"
    using s2(2) unfolding vfd_core_def lru.ring_of_def st3(2,4-7) f3(1,2,4) by (simp add: st3(1))
  have "e \<notin> set (remove1 e lru)"
    using core by (auto simp: vfd_core_def lru.ring_of_def ring_def)
  then have core4: "vfd_core fds ok (free_vfd st3 e) (remove1 e lru) (e # fr)"
    using efr e s2(4) by (intro free_vfd_ok [OF core3]) (auto simp: st3(6))
  have "lpos pos (free_vfd st3 e) i = lpos pos st2 i" for i by (simp add: lpos_def free_vfd_fields f3 st3)
  then have "same_others pos st (free_vfd st3 e) e"
    using s2(3,4) by (simp add: same_others_def free_vfd_fields f3 st3)
  moreover have "\<forall>i \<in> {1..<SizeVfdCache (free_vfd st3 e)}. filename (VfdCache (free_vfd st3 e) i) = None \<longrightarrow> i \<in> set (e # fr)"
    using vok s2(3,4) by (auto simp: free_vfd_fields st3(6) f3(2) vfd_ok_def same_others_def)
  ultimately show ?thesis using run core4 by (auto simp: vfd_ok_def)
qed

end

section \<open>Allocating descriptors and opening files\<close>

lemma fold_init:
  "fold (\<lambda>i c. c(i := f i)) xs c j = (if j \<in> set xs then f j else c j)"
  by (induction xs arbitrary: c) auto

lemma path_upt:
  "a < b \<Longrightarrow> 0 < a \<Longrightarrow> (\<And>i. a \<le> i \<Longrightarrow> i < b - 1 \<Longrightarrow> m i = i + 1) \<Longrightarrow> m (b - 1) = 0 \<Longrightarrow> path m a [a..<b]"
proof (induction "b - a" arbitrary: a)
  case (Suc n)
  show ?case
  proof (cases "a = b - 1")
    case True
    then show ?thesis using Suc.prems by (simp add: upt_conv_Cons)
  next
    case False
    then have "path m (a + 1) [a + 1..<b]" using Suc by (intro Suc.hyps) auto
    moreover have "m a = a + 1" using Suc.prems False by auto
    ultimately show ?thesis using Suc.prems by (simp add: upt_conv_Cons)
  qed
qed simp

text \<open>Before the first use there is no array.\<close>

definition vfd_init :: "('o \<Rightarrow> bool) \<Rightarrow> 'o fd_globals \<Rightarrow> bool" where
  "vfd_init ok st \<longleftrightarrow> SizeVfdCache st = 0 \<and> NFile st = 0 \<and> ok (os st)"

context posix
begin

lemma create_cache_ok:
  assumes "vfd_ok fds ok st lru fr \<or> vfd_init ok st \<and> lru = [] \<and> fr = []" and mem: "\<And>w n. fst (k_malloc k w n)"
  shows "\<exists>st'. create_cache k st = Inr st' \<and> vfd_ok fds ok st' lru fr \<and> same_others pos st st' 0"
proof (cases "SizeVfdCache st = 0")
  case False
  then have "create_cache k st = Inr st" "vfd_ok fds ok st lru fr" using assms(1) by (auto simp: create_cache_def vfd_init_def)
  then show ?thesis by (auto simp: same_others_def)
next
  case True
  then have i: "vfd_init ok st" "lru = []" "fr = []" using assms(1) by (auto simp: vfd_ok_def vfd_core_def)
  obtain b w where m: "k_malloc k (os st) sizeof_Vfd = (b, w)" by fastforce
  have w: "ok w" using malloc_frame [OF _ m] i(1) by (simp add: vfd_init_def)
  have "b" using mem [of "os st" sizeof_Vfd] m by simp
  define st' where "st' = st\<lparr>os := w, VfdCache := (VfdCache st)(0 := zero_vfd\<lparr>fd := VFD_CLOSED\<rparr>), SizeVfdCache := 1, exit_hook := True\<rparr>"
  have "create_cache k st = Inr st'" using True m \<open>b\<close> by (simp add: create_cache_def st'_def)
  moreover have "vfd_ok fds ok st' [] []" using w i(1)
    by (simp add: vfd_ok_def vfd_core_def st'_def lru.ring_of_def more_def less_def zero_vfd_def VFD_CLOSED_def vfd_init_def)
  moreover have "same_others pos st st' 0" using True by (simp add: same_others_def st'_def)
  ultimately show ?thesis using i by blast
qed

lemma enlarge_cache_ok:
  assumes vok: "vfd_ok fds ok st lru fr" and mem: "\<And>w n. fst (k_malloc k w n)"
  shows "\<exists>st' fr'. enlarge_cache k st = Inr st' \<and> vfd_ok fds ok st' lru fr' \<and> fr' \<noteq> [] \<and> same_others pos st st' 0"
proof (cases "next_free (VfdCache st 0) = 0")
  case False
  then have "fr \<noteq> []" using vok by (cases fr) (auto simp: vfd_ok_def vfd_core_def)
  moreover have "same_others pos st st 0" by (simp add: same_others_def)
  ultimately show ?thesis using False vok by (auto simp: enlarge_cache_def)
next
  case True
  note core = vfd_ok_core [OF vok]
  have fr: "fr = []" using core True by (cases fr) (auto simp: vfd_core_def)
  define n where "n = SizeVfdCache st"
  define m where "m = (if n * 2 < 32 then 32 else n * 2)"
  have nm: "0 < n" "n < m" using core by (auto simp: n_def m_def vfd_core_def)
  obtain b w where a: "k_malloc k (os st) (sizeof_Vfd * m) = (b, w)" by fastforce
  have w: "ok w" "fds w = fds (os st)" "pos w = pos (os st)" using malloc_frame [OF _ a] core by (auto simp: vfd_core_def)
  have "b" using mem [of "os st" "sizeof_Vfd * m"] a by simp
  define c1 where "c1 = fold (\<lambda>i c. c(i := zero_vfd\<lparr>next_free := i + 1, fd := VFD_CLOSED\<rparr>)) [n..<m] (VfdCache st)"
  define st1 where "st1 = st\<lparr>os := w, VfdCache := c1\<rparr>"
  define st' where "st' = (upd_vfd (upd_vfd st1 (m - 1) (\<lambda>v. v\<lparr>next_free := 0\<rparr>)) 0 (\<lambda>v. v\<lparr>next_free := n\<rparr>))\<lparr>SizeVfdCache := m\<rparr>"
  have run: "enlarge_cache k st = Inr st'"
    unfolding enlarge_cache_def Let_def n_def [symmetric] m_def [symmetric] a
    using True \<open>b\<close> by (simp add: st'_def st1_def c1_def n_def)
  have c1: "c1 i = (if n \<le> i \<and> i < m then zero_vfd\<lparr>next_free := i + 1, fd := VFD_CLOSED\<rparr> else VfdCache st i)" for i
    unfolding c1_def fold_init by auto
  have old: "VfdCache st' i = (if i = 0 then (VfdCache st 0)\<lparr>next_free := n\<rparr> else VfdCache st i)" if "i < n" for i
    using that nm by (auto simp: st'_def st1_def c1)
  have new: "fd (VfdCache st' i) = -1" "filename (VfdCache st' i) = None" "fdstate (VfdCache st' i) = 0"
    "next_free (VfdCache st' i) = (if i = m - 1 then 0 else i + 1)" if "n \<le> i" "i < m" for i
    using that nm by (auto simp: st'_def st1_def c1 zero_vfd_def VFD_CLOSED_def)
  have g: "SizeVfdCache st' = m" "NFile st' = NFile st" "os st' = w" "AllocatedFiles st' = AllocatedFiles st"
    by (simp_all add: st'_def st1_def)
  have rng: "set lru \<subseteq> {1..<n}" using core by (simp add: vfd_core_def n_def)
  have fdo: "fd (VfdCache st' i) = fd (VfdCache st i)" if "i < n" for i using old [OF that] by simp
  have ri: "lru.ring_of st' 0 lru"
  proof -
    have "ring (more st') (less st') 0 lru = ring (more st) (less st) 0 lru"
      using rng nm(1) old by (intro ring_cong) (auto simp: more_def less_def)
    then show ?thesis using core by (simp add: vfd_core_def lru.ring_of_def)
  qed
  have pa: "path (\<lambda>i. next_free (VfdCache st' i)) (next_free (VfdCache st' 0)) [n..<m]"
  proof -
    have "next_free (VfdCache st' 0) = n" using old [of 0] nm(1) by simp
    then show ?thesis using nm new(4) by (simp, intro path_upt) auto
  qed
  have op: "\<forall>i < m. i \<in> set lru \<longleftrightarrow> fd (VfdCache st' i) \<noteq> -1"
  proof (intro allI impI)
    fix i assume i: "i < m"
    show "i \<in> set lru \<longleftrightarrow> fd (VfdCache st' i) \<noteq> -1"
      using core rng new(1) [of i] fdo [of i] i by (cases "i < n") (auto simp: vfd_core_def n_def)
  qed
  have fi: "\<forall>i \<in> set lru. 0 \<le> fd (VfdCache st' i) \<and> fd (VfdCache st' i) \<in> fds w"
    using core rng fdo by (auto simp: vfd_core_def w)
  have ij: "inj_on (\<lambda>i. fd (VfdCache st' i)) (set lru)"
  proof -
    have "fd (VfdCache st' i) = fd (VfdCache st i)" if "i \<in> set lru" for i using rng that by (intro fdo) auto
    then show ?thesis using core by (simp add: vfd_core_def inj_on_def)
  qed
  have fre: "\<forall>i \<in> set [n..<m]. fd (VfdCache st' i) = -1 \<and> fdstate (VfdCache st' i) = 0 \<and> filename (VfdCache st' i) = None"
    using new by auto
  have nf: "NFile st' = int (length lru)" using core by (simp add: g vfd_core_def)
  have "set lru \<subseteq> {1..<m}" "set [n..<m] \<subseteq> {1..<m}" using rng nm by auto
  then have "vfd_core fds ok st' lru [n..<m]" unfolding vfd_core_def g using ri pa op fi ij nf[unfolded g] fre w(1) nm by simp
  moreover have "\<forall>i \<in> {1..<m}. filename (VfdCache st' i) = None \<longrightarrow> i \<in> set [n..<m]"
  proof (intro ballI impI)
    fix i assume i: "i \<in> {1..<m}" "filename (VfdCache st' i) = None"
    show "i \<in> set [n..<m]"
    proof (cases "i < n")
      case True
      then show ?thesis using i vok old [OF True] fr by (force simp: vfd_ok_def n_def)
    qed (use i in auto)
  qed
  moreover have "same_others pos st st' 0"
    using old w(3) nm by (auto simp: same_others_def n_def [symmetric] g lpos_def)
  ultimately show ?thesis using run nm g(1) by (intro exI [of _ st'] exI [of _ "[n..<m]"]) (auto simp: vfd_ok_def)
qed

end

lemma vfd_core_cong:
  assumes "vfd_core fds ok st lru fr" "\<And>i. fd (VfdCache st' i) = fd (VfdCache st i)" "\<And>i. next_free (VfdCache st' i) = next_free (VfdCache st i)"
    "\<And>i. i \<in> set fr \<Longrightarrow> fdstate (VfdCache st' i) = fdstate (VfdCache st i) \<and> filename (VfdCache st' i) = filename (VfdCache st i)"
    "more st' = more st" "less st' = less st" "SizeVfdCache st' = SizeVfdCache st" "NFile st' = NFile st" "os st' = os st"
  shows "vfd_core fds ok st' lru fr"
  using assms(1,4) unfolding vfd_core_def lru.ring_of_def assms(2,3,5-9) by simp

lemma same_others_trans:
  "same_others pos st st1 0 \<Longrightarrow> same_others pos st1 st2 e \<Longrightarrow> same_others pos st st2 e"
  by (simp add: same_others_def)

lemma same_files_others: "same_files pos st st' \<Longrightarrow> same_others pos st st' e"
  by (simp add: same_files_def same_others_def)

context posix
begin

lemma allocate_vfd_ok:
  assumes "vfd_ok fds ok st lru fr \<or> vfd_init ok st \<and> lru = [] \<and> fr = []" and mem: "\<And>w n. fst (k_malloc k w n)"
  shows "\<exists>e st' fr'. allocate_vfd k st = Inr (e, st') \<and> vfd_core fds ok st' lru fr' \<and> same_others pos st st' 0 \<and>
    e \<notin> set lru \<and> e \<notin> set fr' \<and> 0 < e \<and> e < SizeVfdCache st' \<and> filename (VfdCache st' e) = None \<and>
    (\<forall>i \<in> {1..<SizeVfdCache st'}. filename (VfdCache st' i) = None \<longrightarrow> i \<in> set (e # fr'))"
proof -
  obtain st1 where s1: "create_cache k st = Inr st1" "vfd_ok fds ok st1 lru fr" "same_others pos st st1 0"
    using create_cache_ok [OF assms] by blast
  obtain st2 fr2 where s2: "enlarge_cache k st1 = Inr st2" "vfd_ok fds ok st2 lru fr2" "fr2 \<noteq> []" "same_others pos st1 st2 0"
    using enlarge_cache_ok [OF s1(2) mem] by blast
  obtain e fr' where fr: "fr2 = e # fr'" using s2(3) by (cases fr2) auto
  note core = vfd_ok_core [OF s2(2)]
  have nx: "next_free (VfdCache st2 0) = e" "e \<noteq> 0" "path (\<lambda>i. next_free (VfdCache st2 i)) (next_free (VfdCache st2 e)) fr'"
    "distinct (e # fr')" "0 \<notin> set fr'" "e < SizeVfdCache st2"
    using core fr by (auto simp: vfd_core_def)
  define st' where "st' = upd_vfd st2 0 (\<lambda>v. v\<lparr>next_free := next_free (VfdCache st2 e)\<rparr>)"
  have run: "allocate_vfd k st = Inr (e, st')" using s1(1) s2(1) nx(1) by (simp add: allocate_vfd_def st'_def)
  have f: "fd (VfdCache st' i) = fd (VfdCache st2 i)" "fdstate (VfdCache st' i) = fdstate (VfdCache st2 i)"
    "filename (VfdCache st' i) = filename (VfdCache st2 i)" "seek_pos (VfdCache st' i) = seek_pos (VfdCache st2 i)"
    "file_flags (VfdCache st' i) = file_flags (VfdCache st2 i)" "file_mode (VfdCache st' i) = file_mode (VfdCache st2 i)" for i
    by (simp_all add: st'_def)
  have g: "SizeVfdCache st' = SizeVfdCache st2" "NFile st' = NFile st2" "os st' = os st2" "more st' = more st2" "less st' = less st2"
    "AllocatedFiles st' = AllocatedFiles st2"
    by (simp_all add: st'_def more_def less_def fun_eq_iff)
  have "path (\<lambda>i. next_free (VfdCache st' i)) (next_free (VfdCache st2 e)) fr' = path (\<lambda>i. next_free (VfdCache st2 i)) (next_free (VfdCache st2 e)) fr'"
    using nx(5) by (intro path_cong) (auto simp: st'_def)
  then have "path (\<lambda>i. next_free (VfdCache st' i)) (next_free (VfdCache st' 0)) fr'" using nx(3) by (simp add: st'_def)
  then have "vfd_core fds ok st' lru fr'"
    using core unfolding vfd_core_def lru.ring_of_def f g fr by auto
  moreover have "lpos pos st' i = lpos pos st2 i" for i by (simp add: lpos_def f g)
  then have "same_others pos st2 st' 0" by (simp add: same_others_def f g)
  then have "same_others pos st st' 0" using same_others_trans s1(3) s2(4) by blast
  moreover have "e \<notin> set lru" "filename (VfdCache st' e) = None" using core fr nx(6) by (auto simp: vfd_core_def f)
  moreover have "\<forall>i \<in> {1..<SizeVfdCache st'}. filename (VfdCache st' i) = None \<longrightarrow> i \<in> set (e # fr')"
    using s2(2) by (auto simp: vfd_ok_def f g fr)
  ultimately show ?thesis using run nx g(1) by (intro exI [of _ e] exI [of _ st'] exI [of _ fr']) auto
qed

lemma open_aux_ok:
  assumes init: "vfd_ok fds ok st lru fr \<or> vfd_init ok st \<and> lru = [] \<and> fr = []" and mem: "\<And>w n. fst (k_malloc k w n)"
    and lim: "pg_nofile k = Inr limit"
  shows "\<exists>r st' n fr' e. file_name_open_file_aux k st name flags mode = Inr (r, st') \<and> same_others pos st st' e \<and>
    (NFile st' + int (NumAllocatedFiles st') \<le> limit \<or> NFile st' \<le> 1) \<and> 0 < e \<and>
    (e < SizeVfdCache st \<longrightarrow> filename (VfdCache st e) = None) \<and>
    (r = -1 \<and> vfd_ok fds ok st' (drop n lru) fr' \<or>
     r = int e \<and> vfd_ok fds ok st' (drop n lru @ [e]) fr' \<and> filename (VfdCache st' e) = Some name \<and> lpos pos st' e = 0 \<and>
     file_flags (VfdCache st' e) = flags AND NOT (O_CREAT OR O_TRUNC OR O_EXCL) \<and> file_mode (VfdCache st' e) = mode)"
proof -
  obtain e st1 fr' where a: "allocate_vfd k st = Inr (e, st1)" "vfd_core fds ok st1 lru fr'" "same_others pos st st1 0"
    "e \<notin> set lru" "e \<notin> set fr'" "0 < e" "e < SizeVfdCache st1" "filename (VfdCache st1 e) = None"
    "\<forall>i \<in> {1..<SizeVfdCache st1}. filename (VfdCache st1 i) = None \<longrightarrow> i \<in> set (e # fr')"
    using allocate_vfd_ok [OF init mem] by blast
  obtain st2 n1 where r: "release_excess k limit st1 = Inr st2" "vfd_core fds ok st2 (drop n1 lru) fr'" "same_files pos st1 st2"
    "NFile st2 + int (NumAllocatedFiles st2) < limit \<or> NFile st2 = 0"
    using release_excess_ok [OF a(2)] by blast
  obtain d st3 n2 where o: "basic_open_file k st2 name flags mode = Inr (d, st3)"
    "vfd_core fds ok st3 (drop n2 (drop n1 lru)) fr'" "same_files pos st2 st3"
    "d = -1 \<or> (0 \<le> d \<and> d < 32768 \<and> d \<in> fds (os st3) \<and> d \<notin> (\<lambda>i. fd (VfdCache st3 i)) ` set (drop n2 (drop n1 lru)) \<and> pos (os st3) d = 0)"
    "NFile st3 \<le> NFile st2"
    using basic_open_ok [OF r(2)] by blast
  have core3: "vfd_core fds ok st3 (drop (n2 + n1) lru) fr'" using o(2) by simp
  have sf: "same_files pos st1 st3" using same_files_trans [OF r(3) o(3)] .
  have so: "same_others pos st st3 0" using same_others_trans [OF a(3) same_files_others [OF sf]] .
  have sz3: "SizeVfdCache st3 = SizeVfdCache st1" and fn3: "\<And>i. i < SizeVfdCache st1 \<Longrightarrow> filename (VfdCache st3 i) = filename (VfdCache st1 i)"
    using sf by (auto simp: same_files_def)
  have elru: "e \<notin> set (drop (n2 + n1) lru)" using a(4) in_set_dropD by metis
  have fd3: "fd (VfdCache st3 e) = -1" using drop_closed [OF core3 _ a(4)] a(7) sz3 by simp
  have num: "NumAllocatedFiles st3 = NumAllocatedFiles st2" using o(3) by (simp add: same_files_def NumAllocatedFiles_def)
  have free: "e < SizeVfdCache st \<longrightarrow> filename (VfdCache st e) = None" using a(3,6,8) by (auto simp: same_others_def)
  have start: "file_name_open_file_aux k st name flags mode = (let st4 = upd_vfd st3 e (\<lambda>v. v\<lparr>fd := to_short d\<rparr>)
       in if fd (VfdCache st4 e) < 0 then Inr (-1, free_vfd st4 e)
          else cbind (insert_vfd (st4\<lparr>NFile := NFile st4 + 1\<rparr>) e) (\<lambda>st5.
            case k_malloc k (os st5) (length name + 1) of (available, o') \<Rightarrow>
              if \<not> available then Inl Elog_FATAL
              else let st6 = upd_vfd (st5\<lparr>os := o'\<rparr>) e
                         (\<lambda>v. v\<lparr>filename := Some name, file_flags := flags AND NOT (O_CREAT OR O_TRUNC OR O_EXCL),
                               file_mode := mode, seek_pos := 0,
                               fdstate := (if flags AND O_CREAT \<noteq> 0 then FD_DIRTY else 0)\<rparr>)
                   in Inr (int e, st6)))"
    using a(1) lim r(1) o(1) by (simp add: file_name_open_file_aux_def)
  show ?thesis
  proof (cases "d = -1")
    case True
    have "(VfdCache st3 e)\<lparr>fd := -1\<rparr> = VfdCache st3 e" using fd3 by (cases "VfdCache st3 e") simp
    then have "upd_vfd st3 e (\<lambda>v. v\<lparr>fd := -1\<rparr>) = st3" by (simp add: upd_vfd_def)
    then have run: "file_name_open_file_aux k st name flags mode = Inr (-1, free_vfd st3 e)"
      using start True fd3 by (simp add: to_short_fd)
    have "vfd_core fds ok (free_vfd st3 e) (drop (n2 + n1) lru) (e # fr')"
      using free_vfd_ok [OF core3 elru a(5,6)] a(7) sz3 by simp
    then have "vfd_ok fds ok (free_vfd st3 e) (drop (n2 + n1) lru) (e # fr')"
      using a(9) fn3 by (auto simp: vfd_ok_def free_vfd_fields sz3)
    moreover have "lpos pos (free_vfd st3 e) i = lpos pos st3 i" for i by (simp add: lpos_def free_vfd_fields)
    then have "same_others pos st (free_vfd st3 e) e" using so by (simp add: same_others_def free_vfd_fields)
    ultimately show ?thesis using run free a(6) r(4) o(5) num
      by (intro exI [of _ "-1"] exI [of _ "free_vfd st3 e"] exI [of _ "n2 + n1"] exI [of _ "e # fr'"] exI [of _ e])
        (auto simp: free_vfd_fields NumAllocatedFiles_def)
  next
    case False
    then have d: "0 \<le> d" "d < 32768" "d \<in> fds (os st3)" "d \<notin> (\<lambda>i. fd (VfdCache st3 i)) ` set (drop (n2 + n1) lru)" "pos (os st3) d = 0"
      using o(4) by auto
    define st4 where "st4 = (upd_vfd st3 e (\<lambda>v. v\<lparr>fd := d\<rparr>))\<lparr>NFile := NFile st3 + 1\<rparr>"
    define st5 where "st5 = vfd_link st4 0 e"
    obtain b w where m: "k_malloc k (os st5) (length name + 1) = (b, w)" by fastforce
    have "ok (os st5)" using core3 by (simp add: st5_def st4_def vfd_core_def)
    then have w: "ok w" "fds w = fds (os st3)" "pos w = pos (os st3)" using malloc_frame [OF _ m] by (auto simp: st5_def st4_def)
    have b using mem [of "os st5" "length name + 1"] m by simp
    define st' where "st' = upd_vfd (st5\<lparr>os := w\<rparr>) e
      (\<lambda>v. v\<lparr>filename := Some name, file_flags := flags AND NOT (O_CREAT OR O_TRUNC OR O_EXCL),
            file_mode := mode, seek_pos := 0, fdstate := (if flags AND O_CREAT \<noteq> 0 then FD_DIRTY else 0)\<rparr>)"
    have sh: "(upd_vfd st3 e (\<lambda>v. v\<lparr>fd := to_short d\<rparr>))\<lparr>NFile := NFile (upd_vfd st3 e (\<lambda>v. v\<lparr>fd := to_short d\<rparr>)) + 1\<rparr> = st4"
      using d by (simp add: to_short_fd st4_def)
    have run: "file_name_open_file_aux k st name flags mode = Inr (int e, st')"
      unfolding start Let_def sh using d a(6) m \<open>b\<close> by (simp add: insert_vfd_link to_short_fd st5_def st'_def)
    have "vfd_core fds ok st5 (drop (n2 + n1) lru @ [e]) fr'"
      unfolding st5_def by (rule vfd_core_attach [OF core3 elru a(5,6) _ d(1)])
        (use d a(7) core3 in \<open>simp_all add: st4_def sz3 more_def less_def fun_eq_iff vfd_core_def\<close>)
    then have "vfd_core fds ok (st5\<lparr>os := w\<rparr>) (drop (n2 + n1) lru @ [e]) fr'"
      using w by (intro vfd_core_os) (auto simp: st5_def st4_def)
    then have "vfd_core fds ok st' (drop (n2 + n1) lru @ [e]) fr'"
      by (rule vfd_core_cong) (use a(5) in \<open>auto simp: st'_def more_def less_def fun_eq_iff\<close>)
    then have "vfd_ok fds ok st' (drop (n2 + n1) lru @ [e]) fr'"
      using a(9) fn3 by (auto simp: vfd_ok_def st'_def st5_def st4_def sz3)
    moreover have "lpos pos st' i = lpos pos st3 i" if "i < SizeVfdCache st3" "i \<noteq> e" for i
      using that by (simp add: lpos_def st'_def st5_def st4_def w)
    then have "same_others pos st st' e"
      using so by (auto simp: same_others_def st'_def st5_def st4_def)
    moreover have "lpos pos st' e = 0" using d by (simp add: lpos_def st'_def st5_def st4_def w)
    ultimately show ?thesis using run free a(6) r(4) o(5) num
      by (intro exI [of _ "int e"] exI [of _ st'] exI [of _ "n2 + n1"] exI [of _ fr'] exI [of _ e])
        (auto simp: st'_def st5_def st4_def NumAllocatedFiles_def)
  qed
qed

end

section \<open>A concrete kernel\<close>

text \<open>
  The state maps open descriptors to positions; there are eight descriptors, and \<open>open\<close> returns the
  lowest free one. Transfers always fail; they play no part in the contract.
\<close>

definition lowest_free :: "(int \<rightharpoonup> int) \<Rightarrow> int option" where
  "lowest_free w = List.find (\<lambda>d. w d = None) [0, 1, 2, 3, 4, 5, 6, 7]"

definition small_kernel :: "(int \<rightharpoonup> int) kernel" where
  "small_kernel = \<lparr>
     k_open = (\<lambda>w _ _ _. case lowest_free w of None \<Rightarrow> (-1, True, w) | Some d \<Rightarrow> (d, False, w(d \<mapsto> 0))),
     k_close = (\<lambda>w d. (0, w(d := None))),
     k_lseek = (\<lambda>w d p wh. if wh = SEEK_SET then if p < 0 then (-1, w) else (p, w(d \<mapsto> p)) else (the (w d), w)),
     k_fsync = (\<lambda>w _. (0, w)), k_read = (\<lambda>w _ _. (-1, [], w)), k_write = (\<lambda>w _ _. (-1, w)),
     k_ftruncate = (\<lambda>w _ _. (0, w)), k_unlink = (\<lambda>w _. w), k_fopen = (\<lambda>w _ _. (0, False, w)), k_fclose = (\<lambda>w _. w),
     k_malloc = (\<lambda>w _. (True, w)), k_open_max = None\<rparr>"

definition small_ok :: "(int \<rightharpoonup> int) \<Rightarrow> bool" where
  "small_ok w \<longleftrightarrow> (\<forall>d p. w d = Some p \<longrightarrow> 0 \<le> p)"

definition small_pos :: "(int \<rightharpoonup> int) \<Rightarrow> int \<Rightarrow> int" where
  "small_pos w d = (case w d of None \<Rightarrow> 0 | Some p \<Rightarrow> p)"

lemma lowest_free: "lowest_free w = Some d \<Longrightarrow> w d = None \<and> 0 \<le> d \<and> d < 8"
  by (auto simp: lowest_free_def List.find.simps split: if_splits)

interpretation small: posix small_kernel dom small_pos small_ok
proof unfold_locales
  fix w w' :: "int \<rightharpoonup> int" and n f m d t r p b n'
  show "d < 32768 \<and> small_ok w' \<and> d \<notin> dom w \<and> dom w' = Set.insert d (dom w) \<and> small_pos w' = (small_pos w)(d := 0)"
    if "small_ok w" "k_open small_kernel w n f m = (d, t, w')" "0 \<le> d"
  proof -
    have "lowest_free w = Some d" "w' = w(d \<mapsto> 0)"
      using that by (auto simp: small_kernel_def split: option.splits)
    then show ?thesis using that(1) lowest_free [of w d] by (auto simp: small_ok_def small_pos_def)
  qed
  show "d = -1 \<and> small_ok w' \<and> dom w' = dom w \<and> small_pos w' = small_pos w"
    if "small_ok w" "k_open small_kernel w n f m = (d, t, w')" "d < 0"
    using that lowest_free [of w d] by (auto simp: small_kernel_def split: option.splits)
  show "r \<noteq> -1 \<and> small_ok w' \<and> dom w' = dom w - {d} \<and> (\<forall>x. x \<noteq> d \<longrightarrow> small_pos w' x = small_pos w x)"
    if "small_ok w" "d \<in> dom w" "k_close small_kernel w d = (r, w')"
  proof -
    have "r = 0" "w' = w(d := None)" using that by (auto simp: small_kernel_def)
    then show ?thesis using that(1) by (auto simp: small_ok_def small_pos_def)
  qed
  show "r = p \<and> small_ok w' \<and> dom w' = dom w \<and> small_pos w' = (small_pos w)(d := p)"
    if "small_ok w" "d \<in> dom w" "0 \<le> p" "k_lseek small_kernel w d p SEEK_SET = (r, w')"
  proof -
    have "r = p" "w' = w(d \<mapsto> p)" using that by (auto simp: small_kernel_def)
    then show ?thesis using that by (auto simp: small_ok_def small_pos_def)
  qed
qed (auto simp: small_kernel_def small_ok_def small_pos_def SEEK_SET_def SEEK_CUR_def)

text \<open>Three VFD slots: file 1 is open, slot 2 is free; and the state before the first use.\<close>

definition fd_example :: "(int \<rightharpoonup> int) fd_globals" where
  "fd_example = \<lparr>VfdCache = (\<lambda>i. if i = 0 then zero_vfd\<lparr>fd := -1, lru_more_recently := 1, lru_less_recently := 1, next_free := 2\<rparr>
       else if i = 1 then zero_vfd\<lparr>filename := Some ''/f'', fdstate := 1\<rparr> else zero_vfd\<lparr>fd := -1\<rparr>),
     SizeVfdCache = 3, NFile = 1, AllocatedFiles = [], TempFileCounter = 0, EnableFsync = True, exit_hook = True, os = [0 \<mapsto> 5]\<rparr>"

definition fd_start :: "(int \<rightharpoonup> int) fd_globals" where
  "fd_start = \<lparr>VfdCache = (\<lambda>_. zero_vfd), SizeVfdCache = 0, NFile = 0, AllocatedFiles = [], TempFileCounter = 0,
     EnableFsync = True, exit_hook = False, os = Map.empty\<rparr>"

lemma fd_example_ok: "vfd_ok dom small_ok fd_example [1] [2]" "FILE_IS_VALID fd_example 1" "fd (VfdCache fd_example 1) = 0"
proof -
  have "lru.ring_of fd_example 0 [1]"
    by (simp add: lru.ring_of_def ring_def more_def less_def fd_example_def zero_vfd_def)
  moreover have "i < 3 \<Longrightarrow> i = 0 \<or> i = 1 \<or> i = 2" for i :: nat by linarith
  ultimately show "vfd_ok dom small_ok fd_example [1] [2]"
    by (auto simp: vfd_ok_def vfd_core_def small_ok_def fd_example_def zero_vfd_def)
qed (simp_all add: FILE_IS_VALID_def fd_example_def zero_vfd_def)

lemma small_nofile: "pg_nofile small_kernel = Inr 246"
  by (simp add: pg_nofile_def small_kernel_def NOFILE_def RESERVE_FOR_LD_def FD_MINFREE_def)


section \<open>Properties\<close>

text \<open>
  C29. \<open>file_access\<close> of a valid file always returns. On success the file is open and the most recently
  used one, at most the least recently used other files have been closed to make room, the number of
  descriptors respects the limit, and no client can tell: names, flags and positions of all files are
  as before. On failure the file stays closed.
\<close>

theorem file_access_correct:
  assumes "posix k fds pos ok" "vfd_ok fds ok st lru fr" "pg_nofile k = Inr limit" "FILE_IS_VALID st file"
    "fd (VfdCache st file) = -1 \<Longrightarrow> 0 \<le> seek_pos (VfdCache st file) \<and> to_int (seek_pos (VfdCache st file)) \<noteq> -1"
  shows "\<exists>r st' n. file_access k st file = Inr (r, st') \<and> same_files pos st st' \<and>
    (r = -1 \<and> file \<notin> set lru \<and> vfd_ok fds ok st' (drop n lru) fr \<or>
     r = 0 \<and> vfd_ok fds ok st' (drop n (remove1 file lru) @ [file]) fr) \<and>
    (NFile st' + int (NumAllocatedFiles st') \<le> limit \<or> NFile st' \<le> 1 \<or> NFile st' = NFile st)"
  by (rule posix.file_access_ok [OF assms])

theorem file_access_correct_witness:
  "\<exists>r st'. file_access small_kernel fd_example 1 = Inr (r, st') \<and> same_files small_pos fd_example st'"
  using file_access_correct [OF small.posix_axioms fd_example_ok(1) small_nofile fd_example_ok(2)] fd_example_ok(3) by auto



text \<open>
  C31. \<open>file_close\<close> of a valid file always succeeds: the file leaves the recency ring, its descriptor is
  closed, its slot becomes the first free one, and all other files keep their state.
\<close>

theorem file_close_correct:
  assumes "posix k fds pos ok" "vfd_ok fds ok st lru fr" "FILE_IS_VALID st file"
  shows "\<exists>st'. file_close k st file = Inr st' \<and> vfd_ok fds ok st' (remove1 file lru) (file # fr) \<and> same_others pos st st' file"
  by (rule posix.file_close_ok [OF assms])

theorem file_close_correct_witness:
  "\<exists>st'. file_close small_kernel fd_example 1 = Inr st' \<and> vfd_ok dom small_ok st' [] [1, 2]"
  using file_close_correct [OF small.posix_axioms fd_example_ok(1,2)] by auto

text \<open>
  \<open>file_sync\<close> of a dirty file that is open, with fsync enabled, calls no \<open>fsync\<close>: the whole state,
  the kernel's too, is unchanged, the file is still marked dirty, and the result is the indeterminate
  value of an uninitialised variable.
\<close>

theorem file_sync_skips_open_file:
  assumes "FILE_IS_VALID st file" "\<not> FILE_IS_NOT_OPEN st file" "EnableFsync st" "fdstate (VfdCache st file) AND FD_DIRTY \<noteq> 0"
  shows "file_sync k indet st file = Inr (indet, st)"
  using assms by (simp add: file_sync_def)

theorem file_sync_skips_open_file_witness: "file_sync small_kernel 77 fd_example 1 = Inr (77, fd_example)"
  by (rule file_sync_skips_open_file [OF fd_example_ok(2)])
    (simp_all add: FILE_IS_NOT_OPEN_def fd_example_ok(3) VFD_CLOSED_def, simp_all add: fd_example_def zero_vfd_def FD_DIRTY_def)

text \<open>
  No open of a relative name returns normally: \<open>filepath\<close> takes the buffer of the absolute name
  from \<open>malloc\<close> and \<open>file_name_open_file\<close> gives it to \<open>pfree\<close>. In particular no temporary file can be
  opened.
\<close>

theorem relative_names_misused:
  "((name = [] \<or> hd name \<noteq> CHR ''/'') \<longrightarrow> (\<nexists>r. file_name_open_file k DatabasePath st name flags mode = Inr r)) \<and>
   (\<nexists>r. open_temporary_file k DatabasePath MyProcPid st = Inr r)"
proof -
  have rel: "\<nexists>r. file_name_open_file k DatabasePath st name flags mode = Inr r" if "name = [] \<or> hd name \<noteq> CHR ''/''"
    for name st flags mode
    using that by (cases name) (auto simp: file_name_open_file_def filepath_def pfree_name_def cbind_eq_Inr split: prod.splits if_splits)
  moreover have "\<nexists>r. open_temporary_file k DatabasePath MyProcPid st = Inr r"
    using rel [of "''pg_sorttemp'' @ decimal MyProcPid @ CHR ''.'' # decimal (TempFileCounter st)"]
    by (simp add: open_temporary_file_def Let_def cbind_eq_Inr)
  ultimately show ?thesis by blast
qed

theorem relative_names_misused_witness:
  "\<nexists>r. file_name_open_file small_kernel ''/pg'' fd_start ''f'' 0 0 = Inr r"
  using relative_names_misused [of "''f''" small_kernel "''/pg''" fd_start 0 0] by simp

end
