(* ===== verification/FdFiles.thy ===== *)
theory FdFiles
  imports Fd
begin

text \<open>
  Files through virtual descriptors. \<open>Fd\<close> treats the descriptors and positions; here the kernel also has
  the contents of files (\<open>posix_files\<close>: a map from names to bytes, and the name behind each descriptor). What
  \<open>file_seek\<close>, \<open>file_read\<close>, \<open>file_write\<close>, \<open>file_truncate\<close> and the opening and closing routines do to a file is what
  the system calls would do to a file that is always open, although descriptors are closed
  and reopened behind the scenes.
\<close>

section \<open>Kernels with files\<close>

text \<open>What a write of \<open>bs\<close> at position \<open>p\<close> makes of a file.\<close>

definition write_at :: "byte list \<Rightarrow> nat \<Rightarrow> byte list \<Rightarrow> byte list" where
  "write_at f p bs = (if bs = [] then f else take p (f @ replicate (p - length f) 0) @ bs @ drop (p + length bs) f)"

definition trunc_to :: "byte list \<Rightarrow> nat \<Rightarrow> byte list" where
  "trunc_to f n = take n (f @ replicate n 0)"

text \<open>
  An existing file is refused only for lack of descriptors, and not while the process has no others than those of \<open>base\<close>; a new one may be
  refused for any reason. Reads and writes may fail or be short; a read of nothing means the end of the file. A call with a descriptor that is
  not open fails.
\<close>

locale posix_files = posix k fds pos ok
  for k :: "'o kernel" and fds :: "'o \<Rightarrow> int set" and pos :: "'o \<Rightarrow> int \<Rightarrow> int" and ok :: "'o \<Rightarrow> bool" +
  fixes files :: "'o \<Rightarrow> string \<rightharpoonup> byte list" and nm :: "'o \<Rightarrow> int \<Rightarrow> string" and base :: "int set"
  assumes fds_nonneg: "ok w \<Longrightarrow> d \<in> fds w \<Longrightarrow> 0 \<le> d"
    and open_room: "ok w \<Longrightarrow> files w n \<noteq> None \<Longrightarrow> f AND O_EXCL = 0 \<Longrightarrow> k_open k w n f m = (d, t, w') \<Longrightarrow> d < 0 \<Longrightarrow>
      t \<and> \<not> fds w \<subseteq> base"
    and open_exists: "ok w \<Longrightarrow> files w n \<noteq> None \<Longrightarrow> f AND O_TRUNC = 0 \<Longrightarrow> k_open k w n f m = (d, t, w') \<Longrightarrow> 0 \<le> d \<Longrightarrow> files w' = files w"
    and open_excl: "ok w \<Longrightarrow> files w n \<noteq> None \<Longrightarrow> f AND O_CREAT \<noteq> 0 \<Longrightarrow> f AND O_EXCL \<noteq> 0 \<Longrightarrow> k_open k w n f m = (d, t, w') \<Longrightarrow> d < 0"
    and open_absent: "ok w \<Longrightarrow> files w n = None \<Longrightarrow> k_open k w n f m = (d, t, w') \<Longrightarrow> 0 \<le> d \<Longrightarrow>
      f AND O_CREAT \<noteq> 0 \<and> files w' = (files w)(n \<mapsto> [])"
    and open_name: "k_open k w n f m = (d, t, w') \<Longrightarrow> nm w' = (if 0 \<le> d then (nm w)(d := n) else nm w)"
    and open_refused: "k_open k w n f m = (d, t, w') \<Longrightarrow> d < 0 \<Longrightarrow> files w' = files w"
    and close_files: "k_close k w d = (r, w') \<Longrightarrow> files w' = files w \<and> nm w' = nm w"
    and lseek_files: "k_lseek k w d p wh = (r, w') \<Longrightarrow> files w' = files w \<and> nm w' = nm w"
    and fsync_files: "k_fsync k w d = (r, w') \<Longrightarrow> files w' = files w \<and> nm w' = nm w"
    and malloc_files: "k_malloc k w sz = (b, w') \<Longrightarrow> files w' = files w \<and> nm w' = nm w"
    and lseek_end: "ok w \<Longrightarrow> d \<in> fds w \<Longrightarrow> files w (nm w d) = Some bs \<Longrightarrow> k_lseek k w d 0 SEEK_END = (r, w') \<Longrightarrow>
      r = int (length bs) \<and> ok w' \<and> fds w' = fds w \<and> pos w' = (pos w)(d := r)"
    and read_file: "ok w \<Longrightarrow> d \<in> fds w \<Longrightarrow> files w (nm w d) = Some bs \<Longrightarrow> 0 \<le> n' \<Longrightarrow> k_read k w d n' = (r, bytes, w') \<Longrightarrow>
      ok w' \<and> fds w' = fds w \<and> files w' = files w \<and> nm w' = nm w \<and>
      (r = -1 \<and> pos w' = pos w \<or>
       0 \<le> r \<and> r \<le> n' \<and> bytes = take (nat r) (drop (nat (pos w d)) bs) \<and> length bytes = nat r \<and>
       (r = 0 \<and> 0 < n' \<longrightarrow> length bs \<le> nat (pos w d)) \<and> pos w' = (pos w)(d := pos w d + r))"
    and write_file: "ok w \<Longrightarrow> d \<in> fds w \<Longrightarrow> files w (nm w d) = Some bs \<Longrightarrow> k_write k w d bytes = (r, w') \<Longrightarrow>
      ok w' \<and> fds w' = fds w \<and> nm w' = nm w \<and>
      (r = -1 \<and> files w' = files w \<and> pos w' = pos w \<or>
       0 \<le> r \<and> r \<le> int (length bytes) \<and> files w' = (files w)(nm w d \<mapsto> write_at bs (nat (pos w d)) (take (nat r) bytes)) \<and>
       pos w' = (pos w)(d := pos w d + r))"
    and truncate_file: "ok w \<Longrightarrow> d \<in> fds w \<Longrightarrow> files w (nm w d) = Some bs \<Longrightarrow> 0 \<le> n' \<Longrightarrow> k_ftruncate k w d n' = (r, w') \<Longrightarrow>
      ok w' \<and> fds w' = fds w \<and> nm w' = nm w \<and> pos w' = pos w \<and>
      (r < 0 \<and> files w' = files w \<or> r = 0 \<and> files w' = (files w)(nm w d \<mapsto> trunc_to bs (nat n')))"
    and unlink_file: "nm (k_unlink k w n) = nm w \<and> (files (k_unlink k w n) = files w \<or> files (k_unlink k w n) = (files w)(n := None))"

section \<open>What giving descriptors back keeps\<close>

text \<open>The descriptors of the process that no VFD holds.\<close>

definition ext_fds :: "('o \<Rightarrow> int set) \<Rightarrow> 'o fd_globals \<Rightarrow> int set" where
  "ext_fds fds st = fds (os st) - (\<lambda>i. fd (VfdCache st i)) ` {..<SizeVfdCache st}"

definition keeps ::
  "('o \<Rightarrow> int set) \<Rightarrow> ('o \<Rightarrow> string \<rightharpoonup> byte list) \<Rightarrow> ('o \<Rightarrow> int \<Rightarrow> string) \<Rightarrow> 'o fd_globals \<Rightarrow> 'o fd_globals \<Rightarrow> bool" where
  "keeps fds files nm st st' \<longleftrightarrow> files (os st') = files (os st) \<and> nm (os st') = nm (os st) \<and> ext_fds fds st' \<subseteq> ext_fds fds st \<and>
     (\<forall>i. filename (VfdCache st' i) = filename (VfdCache st i) \<and> file_flags (VfdCache st' i) = file_flags (VfdCache st i) \<and>
        file_mode (VfdCache st' i) = file_mode (VfdCache st i) \<and>
        (fd (VfdCache st' i) \<noteq> -1 \<longrightarrow> fd (VfdCache st' i) = fd (VfdCache st i) \<and> seek_pos (VfdCache st' i) = seek_pos (VfdCache st i)))"

lemma keeps_refl: "keeps fds files nm st st"
  by (simp add: keeps_def)

lemma keeps_trans: "keeps fds files nm st st1 \<Longrightarrow> keeps fds files nm st1 st2 \<Longrightarrow> keeps fds files nm st st2"
  by (auto simp: keeps_def)

lemma ext_fds_cong:
  "os st' = os st \<Longrightarrow> SizeVfdCache st' = SizeVfdCache st \<Longrightarrow> (\<And>i. fd (VfdCache st' i) = fd (VfdCache st i)) \<Longrightarrow> ext_fds fds st' = ext_fds fds st"
  by (simp add: ext_fds_def)

context posix_files
begin

lemma delete_vfd_keeps: "delete_vfd st e = Inr st' \<Longrightarrow> keeps fds files nm st st' \<and> os st' = os st \<and>
    SizeVfdCache st' = SizeVfdCache st \<and> fd (VfdCache st' e) = fd (VfdCache st e)"
  by (cases "e = 0") (simp add: delete_vfd_def, auto simp: delete_vfd_unlink keeps_def ext_fds_def)

lemma sync_and_close_keeps:
  assumes "sync_and_close k st e = Inr st'" "ok (os st)" "fd (VfdCache st e) \<in> fds (os st)"
  shows "keeps fds files nm st st' \<and> fd (VfdCache st' e) = -1"
proof -
  obtain s w where r: "st' = upd_vfd (st\<lparr>os := w, NFile := NFile st - 1\<rparr>) e (\<lambda>v. v\<lparr>fdstate := s, fd := -1\<rparr>)"
    "fds w = fds (os st) - {fd (VfdCache st e)}" using sync_and_close_ok [OF assms(2,3)] assms(1) by auto
  then have "ext_fds fds st' \<subseteq> ext_fds fds st" by (fastforce simp: ext_fds_def)
  then show ?thesis using assms(1)
    by (auto simp: sync_and_close_def keeps_def c_assert_eq_Inr cbind_eq_Inr pg_fsync_def VFD_CLOSED_def
      split: prod.splits if_splits dest!: close_files fsync_files)
qed

lemma lru_delete_keeps:
  assumes "lru_delete k st e = Inr st'" and w: "ok (os st)" "fd (VfdCache st e) \<in> fds (os st)"
  shows "keeps fds files nm st st' \<and> fd (VfdCache st' e) = -1"
proof -
  obtain st1 where d: "delete_vfd st e = Inr st1" using assms by (auto simp: lru_delete_def cbind_eq_Inr c_assert_eq_Inr)
  note k1 = delete_vfd_keeps [OF d]
  obtain p w where l: "k_lseek k (os st1) (fd (VfdCache st1 e)) 0 SEEK_CUR = (p, w)" by fastforce
  define st2 where "st2 = upd_vfd (st1\<lparr>os := w\<rparr>) e (\<lambda>v. v\<lparr>seek_pos := p\<rparr>)"
  have s: "sync_and_close k st2 e = Inr st'"
    using assms d l by (simp add: lru_delete_def c_assert_eq_Inr Let_def st2_def split: if_splits)
  have w': "ok w" "fds w = fds (os st1)" using lseek_tell [OF _ _ l] k1 assms by simp_all
  then have e2: "ext_fds fds st2 = ext_fds fds st1" by (auto simp: st2_def ext_fds_def)
  have ok2: "ok (os st2)" "fd (VfdCache st2 e) \<in> fds (os st2)" using w' k1 assms by (simp_all add: st2_def)
  note s = sync_and_close_keeps [OF s ok2]
  show ?thesis using k1 s lseek_files [OF l] e2 by (auto simp: keeps_def st2_def split: if_splits)
qed

lemma release_lru_keeps:
  assumes r: "release_lru_file k st = Inr (b, st')" and core: "vfd_core fds ok st lru fr"
  shows "keeps fds files nm st st'"
proof (cases lru)
  case Nil
  then have "st' = st" using r core by (simp add: release_lru_file_def vfd_core_def)
  then show ?thesis by (simp add: keeps_refl)
next
  case (Cons e zs)
  have "more st 0 = e" "0 < NFile st" "ok (os st)" using core Cons by (auto simp: vfd_core_def lru.ring_of_def ring_def)
  then show ?thesis using r vfd_core_fds [OF core, of e] Cons lru_delete_keeps [of st e]
    by (auto simp: release_lru_file_def more_def c_assert_eq_Inr cbind_eq_Inr)
qed

lemma release_excess_keeps: "release_excess k limit st = Inr st' \<Longrightarrow> vfd_core fds ok st lru fr \<Longrightarrow> keeps fds files nm st st'"
proof (induction "nat (NFile st)" arbitrary: st lru rule: less_induct)
  case less
  show ?case
  proof (cases "NFile st + int (NumAllocatedFiles st) \<ge> limit")
    case True
    then obtain b st1 where r: "release_lru_file k st = Inr (b, st1)" "\<not> b \<and> st' = st1 \<or> b \<and> release_excess k limit st1 = Inr st'"
      using less.prems(1) by (subst (asm) release_excess.simps) (auto split: sum.splits if_splits)
    note k1 = release_lru_keeps [OF r(1) less.prems(2)]
    show ?thesis
    proof (cases b)
      case True
      then have lt: "nat (NFile st1) < nat (NFile st)" using release_lru_NFile r(1) by fastforce
      obtain lru1 where c1: "vfd_core fds ok st1 lru1 fr" using release_lru_ok [OF less.prems(2)] r(1) by auto
      show ?thesis using less.hyps [OF lt _ c1] r(2) True keeps_trans [OF k1] by blast
    qed (use r(2) k1 in blast)
  next
    case False
    then have "st' = st" using less.prems(1) by (subst (asm) release_excess.simps) simp
    then show ?thesis by (simp add: keeps_refl)
  qed
qed

text \<open>
  The last open of \<open>basic_open_file\<close>: the earlier ones failed. When the last one fails too, it is not for lack of a descriptor, or there is none
  left to give back.
\<close>

lemma basic_open_keeps:
  "basic_open_file k st n f m = Inr (d, st') \<Longrightarrow> vfd_core fds ok st lru fr \<Longrightarrow>
    \<exists>st1 d' t w lru1. keeps fds files nm st st1 \<and> vfd_core fds ok st1 lru1 fr \<and> k_open k (os st1) n f m = (d', t, w) \<and>
      (0 \<le> d' \<and> d = d' \<and> st' = st1\<lparr>os := w\<rparr> \<or> d' < 0 \<and> d = -1 \<and> keeps fds files nm st st' \<and> (t \<longrightarrow> lru1 = []))"
proof (induction "nat (NFile st)" arbitrary: st lru rule: less_induct)
  case less
  obtain d1 t w where o: "k_open k (os st) n f m = (d1, t, w)" by (cases "k_open k (os st) n f m") auto
  show ?case
  proof (cases "0 \<le> d1")
    case True
    then have "d = d1" "st' = st\<lparr>os := w\<rparr>" using less.prems(1) o by (simp_all add: basic_open_file.simps [of k st] Let_def)
    then show ?thesis using True o less.prems(2) keeps_refl [of fds files nm st] by blast
  next
    case False
    let ?st = "st\<lparr>os := w\<rparr>"
    have w: "ok w" "fds w = fds (os st)" using open_fails [OF _ o] less.prems(2) False by (simp_all add: vfd_core_def)
    have kp: "keeps fds files nm st ?st" using open_refused [OF o] open_name [OF o] False w by (simp add: keeps_def ext_fds_def)
    have core: "vfd_core fds ok ?st lru fr" using vfd_core_os [OF less.prems(2)] w by simp
    have fin: ?thesis if "d = -1" "keeps fds files nm st st'" "t \<longrightarrow> lru = []"
      using that False o less.prems(2) keeps_refl [of fds files nm st]
      by (intro exI [of _ st] exI [of _ d1] exI [of _ t] exI [of _ w] exI [of _ lru]) auto
    show ?thesis
    proof (cases t)
      case nt: False
      then have "d = -1" "st' = ?st" using less.prems(1) o False by (simp_all add: basic_open_file.simps [of k st] Let_def)
      then show ?thesis using fin kp nt by blast
    next
      case True
      then obtain b st2 where r: "release_lru_file k ?st = Inr (b, st2)"
        "\<not> b \<and> d = -1 \<and> st' = st2 \<or> b \<and> basic_open_file k st2 n f m = Inr (d, st')"
        using less.prems(1) o False by (auto simp: basic_open_file.simps [of k st] Let_def split: sum.splits if_splits)
      have k2: "keeps fds files nm st st2" using keeps_trans [OF kp release_lru_keeps [OF r(1) core]] .
      obtain lru2 where c2: "vfd_core fds ok st2 lru2 fr" "b \<longleftrightarrow> lru \<noteq> []" using release_lru_ok [OF core] r(1) by auto
      show ?thesis
      proof (cases b)
        case True
        have lt: "nat (NFile st2) < nat (NFile st)" using release_lru_NFile [of k ?st st2] r(1) True by fastforce
        obtain st1 d' t' w' lru1 where i: "keeps fds files nm st2 st1" "vfd_core fds ok st1 lru1 fr" "k_open k (os st1) n f m = (d', t', w')"
          "0 \<le> d' \<and> d = d' \<and> st' = st1\<lparr>os := w'\<rparr> \<or> d' < 0 \<and> d = -1 \<and> keeps fds files nm st2 st' \<and> (t' \<longrightarrow> lru1 = [])"
          using less.hyps [OF lt _ c2(1)] r(2) True by blast
        then show ?thesis using keeps_trans [OF k2] by blast
      qed (use r(2) fin k2 c2(2) in blast)
    qed
  qed
qed

text \<open>An existing file is opened.\<close>

lemma basic_open_exists:
  assumes o: "basic_open_file k st n f m = Inr (d, st')" and core: "vfd_core fds ok st lru fr" and b: "ext_fds fds st \<subseteq> base"
    and ex: "files (os st) n \<noteq> None" and fl: "f AND O_TRUNC = 0" "f AND O_EXCL = 0"
  shows "\<exists>st1 w. keeps fds files nm st st1 \<and> 0 \<le> d \<and> d < 32768 \<and> st' = st1\<lparr>os := w\<rparr> \<and> files w = files (os st) \<and>
    nm w = (nm (os st))(d := n) \<and> fds w = Set.insert d (fds (os st1))"
proof -
  obtain st1 d' t w lru1 where b1: "keeps fds files nm st st1" "vfd_core fds ok st1 lru1 fr" "k_open k (os st1) n f m = (d', t, w)"
    "0 \<le> d' \<and> d = d' \<and> st' = st1\<lparr>os := w\<rparr> \<or> d' < 0 \<and> d = -1 \<and> keeps fds files nm st st' \<and> (t \<longrightarrow> lru1 = [])"
    using basic_open_keeps [OF o core] by blast
  have okw: "ok (os st1)" using b1(2) by (simp add: vfd_core_def)
  have ex1: "files (os st1) n \<noteq> None" using ex b1(1) by (simp add: keeps_def)
  have "0 \<le> d'"
  proof (rule ccontr)
    assume "\<not> 0 \<le> d'"
    then have r: "t" "\<not> fds (os st1) \<subseteq> base" "lru1 = []" using open_room [OF okw ex1 fl(2) b1(3)] b1(4) by auto
    have "fd (VfdCache st1 i) = -1" if "i < SizeVfdCache st1" for i using b1(2) r(3) that by (auto simp: vfd_core_def)
    moreover have "-1 \<notin> fds (os st1)" using fds_nonneg [OF okw, of "-1"] by auto
    ultimately have "fds (os st1) \<subseteq> ext_fds fds st1" by (auto simp: ext_fds_def)
    then show False using r(2) b b1(1) by (auto simp: keeps_def)
  qed
  then show ?thesis using b1 open_new [OF okw b1(3)] open_exists [OF okw ex1 fl(1) b1(3)] open_name [OF b1(3)]
    by (intro exI [of _ st1] exI [of _ w]) (auto simp: keeps_def)
qed

lemma insert_vfd_keeps: "insert_vfd st e = Inr st' \<Longrightarrow> keeps fds files nm st st' \<and> os st' = os st \<and> SizeVfdCache st' = SizeVfdCache st \<and>
    (\<forall>i. fd (VfdCache st' i) = fd (VfdCache st i) \<and> seek_pos (VfdCache st' i) = seek_pos (VfdCache st i))"
  by (cases "e = 0") (simp add: insert_vfd_def, auto simp: insert_vfd_link keeps_def ext_fds_def)

text \<open>\<open>lru_insert\<close> of an existing file succeeds.\<close>

lemma lru_insert_keeps:
  assumes r: "lru_insert k st e = Inr (x, st')" and e: "fd (VfdCache st e) = -1" "filename (VfdCache st e) = Some n" "0 < e" "e < SizeVfdCache st"
    and fl: "file_flags (VfdCache st e) AND O_TRUNC = 0" "file_flags (VfdCache st e) AND O_EXCL = 0"
    and ex: "files (os st) n \<noteq> None" and b: "ext_fds fds st \<subseteq> base" and core: "vfd_core fds ok st lru fr"
    and p0: "0 \<le> seek_pos (VfdCache st e)"
  shows "\<exists>d. x = 0 \<and> 0 \<le> d \<and> files (os st') = files (os st) \<and> nm (os st') = (nm (os st))(d := n) \<and> fd (VfdCache st' e) = d \<and>
    seek_pos (VfdCache st' e) = seek_pos (VfdCache st e) \<and> ext_fds fds st' \<subseteq> base \<and> (\<forall>i. filename (VfdCache st' i) = filename (VfdCache st i) \<and>
      file_flags (VfdCache st' i) = file_flags (VfdCache st i) \<and>
      (i \<noteq> e \<longrightarrow> fd (VfdCache st' i) \<noteq> -1 \<longrightarrow> fd (VfdCache st' i) = fd (VfdCache st i) \<and> seek_pos (VfdCache st' i) = seek_pos (VfdCache st i)))"
proof -
  have no: "FILE_IS_NOT_OPEN st e" "e \<noteq> 0" using e r by (auto simp: FILE_IS_NOT_OPEN_def VFD_CLOSED_def lru_insert_def c_assert_eq_Inr)
  obtain limit st1 where st1: "pg_nofile k = Inr limit" "release_excess k limit st = Inr st1"
    using r no by (auto simp: lru_insert_def cbind_eq_Inr)
  note k1 = release_excess_keeps [OF st1(2) core]
  obtain n1 where c1: "vfd_core fds ok st1 (drop n1 lru) fr" "same_files pos st st1" using release_excess_ok [OF core, of limit] st1(2) by auto
  have f1: "filename (VfdCache st1 e) = Some n" "file_flags (VfdCache st1 e) = file_flags (VfdCache st e)" using k1 e(2) by (simp_all add: keeps_def)
  obtain d st2 n2 where o: "basic_open_file k st1 n (file_flags (VfdCache st1 e)) (file_mode (VfdCache st1 e)) = Inr (d, st2)"
    and c2: "vfd_core fds ok st2 (drop n2 (drop n1 lru)) fr" "same_files pos st1 st2"
    using basic_open_ok [OF c1(1), of n "file_flags (VfdCache st1 e)" "file_mode (VfdCache st1 e)"] by blast
  have b1: "ext_fds fds st1 \<subseteq> base" "files (os st1) n \<noteq> None" using k1 b ex by (auto simp: keeps_def)
  obtain st1' w where k2: "keeps fds files nm st1 st1'" and d: "0 \<le> d" "d < 32768" "st2 = st1'\<lparr>os := w\<rparr>" "files w = files (os st1)"
    "nm w = (nm (os st1))(d := n)" "fds w = Set.insert d (fds (os st1'))"
    using basic_open_exists [OF o c1(1) b1] fl f1(2) by auto
  have kk: "keeps fds files nm st st1'" by (rule keeps_trans [OF k1 k2])
  have "same_files pos st st2" by (rule same_files_trans [OF c1(2) c2(2)])
  then have lp: "lpos pos st2 e = lpos pos st e" using e(4) by (simp add: same_files_def)
  have nl: "e \<notin> set (drop n2 (drop n1 lru))" using closed_file [OF core e(4,1)] e(2) by (auto dest: in_set_dropD)
  have sz: "SizeVfdCache st2 = SizeVfdCache st" using c1(2) c2(2) by (simp add: same_files_def)
  then have fd2: "fd (VfdCache st2 e) = -1" using c2(1) nl e(4) by (auto simp: vfd_core_def)
  then have sk: "seek_pos (VfdCache st2 e) = seek_pos (VfdCache st e)" using lp e(1) by (simp add: lpos_def)
  define st3 where "st3 = (upd_vfd st2 e (\<lambda>v. v\<lparr>fd := d\<rparr>))\<lparr>NFile := NFile st2 + 1\<rparr>"
  have okw: "ok w" "fds w = fds (os st2)" using c2(1) d(3) by (simp_all add: vfd_core_def)
  obtain w' where w': "insert_vfd (st3\<lparr>os := w'\<rparr>) e = Inr st'" "files w' = files w \<and> nm w' = nm w" "x = 0" "fds w' = fds w"
  proof (cases "seek_pos (VfdCache st3 e) \<noteq> 0")
    case True
    obtain p wp where l: "k_lseek k (os st3) (fd (VfdCache st3 e)) (seek_pos (VfdCache st3 e)) SEEK_SET = (p, wp)" by fastforce
    have "insert_vfd (st3\<lparr>os := wp\<rparr>) e = Inr st' \<and> x = 0"
      using r no st1 f1 o d True l by (auto simp: lru_insert_def Let_def st3_def to_short_fd cbind_eq_Inr c_assert_eq_Inr)
    moreover have "files wp = files w \<and> nm wp = nm w" using lseek_files [OF l] d(3) by (simp add: st3_def)
    moreover have "fds wp = fds w"
    proof -
      have o3: "os st3 = w" "fd (VfdCache st3 e) = d" by (simp_all add: st3_def d(3))
      have "0 \<le> seek_pos (VfdCache st3 e)" using p0 sk by (simp add: st3_def)
      then show ?thesis using lseek_set [OF _ _ _ l] okw(1) d(6) by (simp add: o3)
    qed
    ultimately show ?thesis using that by blast
  next
    case False
    have "insert_vfd st3 e = Inr st' \<and> x = 0"
      using r no st1 f1 o d False by (auto simp: lru_insert_def Let_def st3_def to_short_fd cbind_eq_Inr)
    moreover have "st3\<lparr>os := w\<rparr> = st3" by (simp add: st3_def d(3) upd_vfd_def)
    ultimately show ?thesis using that [of w] by simp
  qed
  note i = insert_vfd_keeps [OF w'(1)]
  have st': "VfdCache st3 x = (if x = e then (VfdCache st1' e)\<lparr>fd := d\<rparr> else VfdCache st1' x)" for x by (simp add: st3_def d(3))
  have fd': "fd (VfdCache st' x) = (if x = e then d else fd (VfdCache st1' x))"
    "seek_pos (VfdCache st' x) = seek_pos (VfdCache st1' x)" for x using i by (simp_all add: st')
  have f: "filename (VfdCache st' x) = filename (VfdCache st x)" "file_flags (VfdCache st' x) = file_flags (VfdCache st x)" for x
    using i kk by (simp_all add: st' keeps_def)
  have g: "fd (VfdCache st' x) = fd (VfdCache st x) \<and> seek_pos (VfdCache st' x) = seek_pos (VfdCache st x)"
    if "x \<noteq> e" "fd (VfdCache st' x) \<noteq> -1" for x using that kk by (simp add: fd' keeps_def)
  have fs: "files (os st') = files (os st)" "nm (os st') = (nm (os st))(d := n)" using i w'(2) d kk k1 by (simp_all add: keeps_def)
  have sk': "seek_pos (VfdCache st' e) = seek_pos (VfdCache st e)" using sk d(3) by (simp add: fd')
  have "ext_fds fds st' \<subseteq> base"
  proof
    fix y assume y: "y \<in> ext_fds fds st'"
    have s': "SizeVfdCache st' = SizeVfdCache st" "SizeVfdCache st1' = SizeVfdCache st" using i sz d(3) by (simp_all add: st3_def)
    have "os st' = w'" using i by simp
    then have "y \<in> Set.insert d (fds (os st1'))" using y d(6) w'(4) by (simp add: ext_fds_def)
    moreover have "y \<noteq> d" using y e(4) s' fd'(1) [of e] by (auto simp: ext_fds_def)
    moreover have "y \<notin> (\<lambda>i. fd (VfdCache st1' i)) ` {..<SizeVfdCache st}"
    proof
      assume "y \<in> (\<lambda>i. fd (VfdCache st1' i)) ` {..<SizeVfdCache st}"
      then obtain i where i: "i < SizeVfdCache st" "y = fd (VfdCache st1' i)" by blast
      show False
      proof (cases "i = e")
        case True
        then have "y = -1" using i(2) fd2 d(3) by simp
        then show False using fds_nonneg [OF okw(1), of y] y w'(4) \<open>os st' = w'\<close> by (simp add: ext_fds_def)
      next
        case False
        then have "y = fd (VfdCache st' i)" using i(2) fd'(1) [of i] by simp
        then show False using y i(1) s'(1) by (auto simp: ext_fds_def)
      qed
    qed
    ultimately have "y \<in> ext_fds fds st1'" using s' by (simp add: ext_fds_def)
    then show "y \<in> base" using kk b by (auto simp: keeps_def)
  qed
  then show ?thesis using f g d(1) fd'(1) [of e] fs sk' w'(3) by simp
qed

end

section \<open>The invariant with names\<close>

text \<open>
  Every open file has the descriptor of the file of its name, and what is known of its position is right; no file would be
  truncated or refused when it is opened again.
\<close>

definition vf_ok ::
  "('o \<Rightarrow> int set) \<Rightarrow> ('o \<Rightarrow> int \<Rightarrow> int) \<Rightarrow> ('o \<Rightarrow> bool) \<Rightarrow> ('o \<Rightarrow> int \<Rightarrow> string) \<Rightarrow> int set \<Rightarrow>
   'o fd_globals \<Rightarrow> nat list \<Rightarrow> nat list \<Rightarrow> bool" where
  "vf_ok fds pos ok nm base st lru fr \<longleftrightarrow> vfd_ok fds ok st lru fr \<and> ext_fds fds st \<subseteq> base \<and>
     (\<forall>i \<in> set lru. filename (VfdCache st i) = Some (nm (os st) (fd (VfdCache st i))) \<and>
        (seek_pos (VfdCache st i) = -1 \<or> seek_pos (VfdCache st i) = pos (os st) (fd (VfdCache st i)))) \<and>
     (\<forall>i < SizeVfdCache st. filename (VfdCache st i) \<noteq> None \<longrightarrow> file_flags (VfdCache st i) AND O_TRUNC = 0 \<and> file_flags (VfdCache st i) AND O_EXCL = 0)"

text \<open>The file behind a VFD, and whether fd.c knows the position in it.\<close>

definition fname :: "'o fd_globals \<Rightarrow> nat \<Rightarrow> string" where
  "fname st i = (case filename (VfdCache st i) of None \<Rightarrow> [] | Some n \<Rightarrow> n)"

definition known :: "'o fd_globals \<Rightarrow> nat \<Rightarrow> bool" where
  "known st i \<longleftrightarrow> seek_pos (VfdCache st i) \<noteq> -1"

text \<open>Whether the file goes away when it is closed.\<close>

definition temp :: "'o fd_globals \<Rightarrow> nat \<Rightarrow> bool" where
  "temp st i \<longleftrightarrow> fdstate (VfdCache st i) AND FD_TEMPORARY \<noteq> 0"

lemma temp_bits [simp]: "(s AND NOT FD_DIRTY) AND FD_TEMPORARY = s AND FD_TEMPORARY" "(s OR FD_DIRTY) AND FD_TEMPORARY = s AND FD_TEMPORARY"
  "FD_DIRTY AND FD_TEMPORARY = 0" "(s OR FD_TEMPORARY) AND FD_TEMPORARY \<noteq> 0"
proof -
  show "(s AND NOT FD_DIRTY) AND FD_TEMPORARY = s AND FD_TEMPORARY" "(s OR FD_DIRTY) AND FD_TEMPORARY = s AND FD_TEMPORARY"
    by (rule bit_word_eqI, auto simp: FD_DIRTY_def FD_TEMPORARY_def bit_simps)+
  show "FD_DIRTY AND FD_TEMPORARY = 0" by (simp add: FD_DIRTY_def FD_TEMPORARY_def)
  have "bit ((s OR FD_TEMPORARY) AND FD_TEMPORARY) 1" by (simp add: FD_TEMPORARY_def bit_simps)
  then show "(s OR FD_TEMPORARY) AND FD_TEMPORARY \<noteq> 0" by (metis bit_0_eq bot_apply bot_bool_def)
qed

lemma dirty_temp: "s AND NOT FD_DIRTY = t AND NOT FD_DIRTY \<Longrightarrow> s AND FD_TEMPORARY = t AND FD_TEMPORARY"
  using temp_bits(1) by metis

text \<open>A VFD that can be used: the file exists, and its position is one that \<open>lru_insert\<close> can restore.\<close>

definition usable :: "('o \<Rightarrow> int \<Rightarrow> int) \<Rightarrow> ('o \<Rightarrow> string \<rightharpoonup> byte list) \<Rightarrow> 'o fd_globals \<Rightarrow> nat \<Rightarrow> bool" where
  "usable pos files st i \<longleftrightarrow> FILE_IS_VALID st i \<and> files (os st) (fname st i) \<noteq> None \<and> 0 \<le> lpos pos st i \<and> lpos pos st i < 2 ^ 31 - 1"

text \<open>What the clients of the other VFDs see is as before.\<close>

definition same_view :: "('o \<Rightarrow> int \<Rightarrow> int) \<Rightarrow> 'o fd_globals \<Rightarrow> 'o fd_globals \<Rightarrow> nat \<Rightarrow> bool" where
  "same_view pos st st' i \<longleftrightarrow> FILE_IS_VALID st' i = FILE_IS_VALID st i \<and>
     (FILE_IS_VALID st i \<longrightarrow> fname st' i = fname st i \<and> lpos pos st' i = lpos pos st i \<and> (known st i \<longrightarrow> known st' i) \<and>
        temp st' i = temp st i)"

text \<open>The operation concerned \<open>e\<close> alone, whose position is now \<open>p\<close>.\<close>

definition moved :: "('o \<Rightarrow> int \<Rightarrow> int) \<Rightarrow> 'o fd_globals \<Rightarrow> 'o fd_globals \<Rightarrow> nat \<Rightarrow> int \<Rightarrow> bool \<Rightarrow> bool" where
  "moved pos st st' e p kn \<longleftrightarrow> (\<forall>i. i \<noteq> e \<longrightarrow> same_view pos st st' i) \<and> FILE_IS_VALID st' e \<and> fname st' e = fname st e \<and> lpos pos st' e = p \<and>
     (kn \<longrightarrow> known st' e) \<and> temp st' e = temp st e"

lemma same_view_trans: "same_view pos st st1 i \<Longrightarrow> same_view pos st1 st2 i \<Longrightarrow> same_view pos st st2 i"
  by (auto simp: same_view_def)

lemma same_view_refl: "same_view pos st st i"
  by (simp add: same_view_def)

lemma small_to_int: "0 \<le> p \<Longrightarrow> p < 2 ^ 31 - 1 \<Longrightarrow> to_int p \<noteq> -1"
  unfolding to_int_def by (subst sint_sbintrunc', subst signed_take_bit_int_eq_self) simp_all

context posix_files
begin

lemma core_ok: "vfd_core fds ok st lru fr \<Longrightarrow> ok (os st)"
  by (simp add: vfd_core_def)

lemma core_open: "vfd_core fds ok st lru fr \<Longrightarrow> i < SizeVfdCache st \<Longrightarrow> fd (VfdCache st i) \<noteq> -1 \<Longrightarrow> i \<in> set lru"
  by (simp add: vfd_core_def)

lemma core_closed: "vfd_core fds ok st lru fr \<Longrightarrow> i \<in> set lru \<Longrightarrow> fd (VfdCache st i) \<noteq> -1"
  using vfd_core_fds [of st lru fr i] by auto

lemma view_intro:
  assumes core: "vfd_core fds ok st lru fr" and val: "FILE_IS_VALID st' i = FILE_IS_VALID st i"
    and eq: "FILE_IS_VALID st i \<Longrightarrow> lpos pos st' i = lpos pos st i \<and> filename (VfdCache st' i) = filename (VfdCache st i) \<and>
      fdstate (VfdCache st' i) AND NOT FD_DIRTY = fdstate (VfdCache st i) AND NOT FD_DIRTY"
    and k: "fd (VfdCache st' i) \<noteq> -1 \<Longrightarrow> seek_pos (VfdCache st' i) = seek_pos (VfdCache st i)"
  shows "same_view pos st st' i"
proof -
  have "known st' i" if v: "FILE_IS_VALID st i" and kn: "known st i"
  proof (cases "fd (VfdCache st' i) = -1")
    case True
    have sz: "i < SizeVfdCache st" using v by (simp add: FILE_IS_VALID_def)
    have "seek_pos (VfdCache st' i) = lpos pos st i" using True eq [OF v] by (simp add: lpos_def)
    moreover have "fd (VfdCache st i) \<noteq> -1 \<Longrightarrow> 0 \<le> lpos pos st i"
      using pos_nonneg [OF core_ok [OF core]] vfd_core_fds [OF core core_open [OF core sz]] by (simp add: lpos_def)
    ultimately show ?thesis using kn by (cases "fd (VfdCache st i) = -1") (auto simp: known_def lpos_def)
  qed (use k kn in \<open>simp add: known_def\<close>)
  moreover have "temp st' i = temp st i" if "FILE_IS_VALID st i" using eq [OF that] by (auto simp: temp_def dest!: dirty_temp)
  ultimately show ?thesis using eq val by (simp add: same_view_def fname_def)
qed

lemma keeps_view:
  assumes core: "vfd_core fds ok st lru fr" and sf: "same_files pos st st'"
    and k: "fd (VfdCache st' i) \<noteq> -1 \<Longrightarrow> seek_pos (VfdCache st' i) = seek_pos (VfdCache st i)"
  shows "same_view pos st st' i"
  using sf by (intro view_intro [OF core _ _ k]) (auto simp: same_files_def FILE_IS_VALID_def)

lemma others_view:
  assumes core: "vfd_core fds ok st lru fr" and so: "same_others pos st st' e" and i: "i \<noteq> e"
    and new: "SizeVfdCache st \<le> i \<Longrightarrow> i < SizeVfdCache st' \<Longrightarrow> filename (VfdCache st' i) = None"
    and k: "i < SizeVfdCache st \<Longrightarrow> fd (VfdCache st' i) \<noteq> -1 \<Longrightarrow> seek_pos (VfdCache st' i) = seek_pos (VfdCache st i)"
  shows "same_view pos st st' i"
proof (cases "i < SizeVfdCache st")
  case True
  show ?thesis using so i True by (intro view_intro [OF core _ _ k [OF True]]) (auto simp: same_others_def FILE_IS_VALID_def)
qed (use new in \<open>auto simp: same_view_def FILE_IS_VALID_def\<close>)

lemma vf_keeps:
  assumes vf: "vf_ok fds pos ok nm base st lru fr" and kp: "keeps fds files nm st st'" and v: "vfd_ok fds ok st' lru' fr'" and l: "set lru' \<subseteq> set lru"
    and sf: "same_files pos st st'"
  shows "vf_ok fds pos ok nm base st' lru' fr'"
proof -
  have c': "vfd_core fds ok st' lru' fr'" using v by (simp add: vfd_ok_def)
  have "filename (VfdCache st' i) = Some (nm (os st') (fd (VfdCache st' i))) \<and>
      (seek_pos (VfdCache st' i) = -1 \<or> seek_pos (VfdCache st' i) = pos (os st') (fd (VfdCache st' i)))" if i: "i \<in> set lru'" for i
  proof -
    have fd': "fd (VfdCache st' i) \<noteq> -1" "i < SizeVfdCache st" using core_closed [OF c' i] vfd_core_range [OF c' i] sf by (simp_all add: same_files_def)
    have e: "fd (VfdCache st' i) = fd (VfdCache st i)" "seek_pos (VfdCache st' i) = seek_pos (VfdCache st i)"
      "filename (VfdCache st' i) = filename (VfdCache st i)" "nm (os st') = nm (os st)" using kp fd'(1) by (simp_all add: keeps_def)
    have "lpos pos st' i = lpos pos st i" using sf fd'(2) by (simp add: same_files_def)
    then have "pos (os st') (fd (VfdCache st' i)) = pos (os st) (fd (VfdCache st i))" using e(1) fd'(1) by (simp add: lpos_def)
    moreover have "i \<in> set lru" using i l by blast
    ultimately show ?thesis using vf e by (simp add: vf_ok_def)
  qed
  moreover have "file_flags (VfdCache st' i) AND O_TRUNC = 0 \<and> file_flags (VfdCache st' i) AND O_EXCL = 0"
    if "i < SizeVfdCache st'" "filename (VfdCache st' i) \<noteq> None" for i using vf kp that sf by (simp add: vf_ok_def keeps_def same_files_def)
  moreover have "ext_fds fds st' \<subseteq> base" using vf kp by (auto simp: vf_ok_def keeps_def)
  ultimately show ?thesis using v by (simp add: vf_ok_def)
qed

lemma vf_core: "vf_ok fds pos ok nm base st lru fr \<Longrightarrow> vfd_core fds ok st lru fr"
  by (simp add: vf_ok_def vfd_ok_def)

lemma vf_fd: "vf_ok fds pos ok nm base st lru fr \<Longrightarrow> i \<in> set lru \<Longrightarrow> nm (os st) (fd (VfdCache st i)) = fname st i \<and> FILE_IS_VALID st i"
  using vfd_core_range [OF vf_core, of st lru fr i] by (simp add: vf_ok_def fname_def FILE_IS_VALID_def)

text \<open>\<open>file_access\<close> opens the file, and no client sees a change.\<close>

lemma file_access_files:
  assumes vf: "vf_ok fds pos ok nm base st lru fr" and u: "usable pos files st e" and lim: "pg_nofile k = Inr limit"
  shows "\<exists>st' lru'. file_access k st e = Inr (0, st') \<and> vf_ok fds pos ok nm base st' lru' fr \<and> e \<in> set lru' \<and> files (os st') = files (os st) \<and>
    (\<forall>i. same_view pos st st' i)"
proof -
  have vok: "vfd_ok fds ok st lru fr" and core: "vfd_core fds ok st lru fr" using vf by (simp_all add: vf_ok_def vfd_ok_def)
  have val: "FILE_IS_VALID st e" "e < SizeVfdCache st" "0 < e" using u by (auto simp: usable_def FILE_IS_VALID_def)
  obtain n where n: "filename (VfdCache st e) = Some n" "fname st e = n" using val by (auto simp: FILE_IS_VALID_def fname_def)
  have p: "0 \<le> seek_pos (VfdCache st e) \<and> to_int (seek_pos (VfdCache st e)) \<noteq> -1" if "fd (VfdCache st e) = -1"
    using u small_to_int that by (simp add: usable_def lpos_def)
  obtain r st' j where a: "file_access k st e = Inr (r, st')" "same_files pos st st'"
    "r = -1 \<and> e \<notin> set lru \<and> vfd_ok fds ok st' (drop j lru) fr \<or> r = 0 \<and> vfd_ok fds ok st' (drop j (remove1 e lru) @ [e]) fr"
    using file_access_ok [OF vok lim val(1) p] by blast
  show ?thesis
  proof (cases "fd (VfdCache st e) = -1")
    case False
    then have el: "e \<in> set lru" using core_open [OF core val(2)] by blast
    have kp: "keeps fds files nm st st'"
    proof (cases "lru_less_recently (VfdCache st 0) = e")
      case True
      then show ?thesis using a(1) False keeps_refl by (simp add: file_access_def FILE_IS_NOT_OPEN_def VFD_CLOSED_def)
    next
      case ne: False
      then obtain st1 where "delete_vfd st e = Inr st1" "insert_vfd st1 e = Inr st'"
        using a(1) False by (auto simp: file_access_def FILE_IS_NOT_OPEN_def VFD_CLOSED_def cbind_eq_Inr)
      then show ?thesis using delete_vfd_keeps insert_vfd_keeps keeps_trans by blast
    qed
    have v': "r = 0" "vfd_ok fds ok st' (drop j (remove1 e lru) @ [e]) fr" using a(3) el by auto
    have "set (drop j (remove1 e lru) @ [e]) \<subseteq> set lru" using el set_drop_subset set_remove1_subset by fastforce
    then have "vf_ok fds pos ok nm base st' (drop j (remove1 e lru) @ [e]) fr" using vf_keeps [OF vf kp v'(2) _ a(2)] by blast
    moreover have "same_view pos st st' i" for i by (rule keeps_view [OF core a(2)]) (use kp in \<open>simp add: keeps_def\<close>)
    ultimately show ?thesis using a(1) v'(1) kp unfolding keeps_def by (metis in_set_conv_decomp)
  next
    case True
    have li: "lru_insert k st e = Inr (r, st')" using a(1) True by (simp add: file_access_def FILE_IS_NOT_OPEN_def VFD_CLOSED_def)
    have fl: "file_flags (VfdCache st e) AND O_TRUNC = 0" "file_flags (VfdCache st e) AND O_EXCL = 0" using vf n(1) val(2) by (auto simp: vf_ok_def)
    have ex: "files (os st) n \<noteq> None" using u n(2) by (simp add: usable_def)
    have b: "ext_fds fds st \<subseteq> base" using vf by (simp add: vf_ok_def)
    obtain d where d: "r = 0" "0 \<le> d" "files (os st') = files (os st)" "nm (os st') = (nm (os st))(d := n)" "fd (VfdCache st' e) = d"
      "seek_pos (VfdCache st' e) = seek_pos (VfdCache st e)" "ext_fds fds st' \<subseteq> base"
      and o: "\<And>i. filename (VfdCache st' i) = filename (VfdCache st i) \<and> file_flags (VfdCache st' i) = file_flags (VfdCache st i)"
        "\<And>i. i \<noteq> e \<Longrightarrow> fd (VfdCache st' i) \<noteq> -1 \<Longrightarrow> fd (VfdCache st' i) = fd (VfdCache st i) \<and> seek_pos (VfdCache st' i) = seek_pos (VfdCache st i)"
      using lru_insert_keeps [OF li True n(1) val(3,2) fl ex b core conjunct1 [OF p [OF True]]] by blast
    define lru' where "lru' = drop j (remove1 e lru) @ [e]"
    have v': "vfd_ok fds ok st' lru' fr" using a(3) d(1) by (simp add: lru'_def)
    then have c': "vfd_core fds ok st' lru' fr" by (simp add: vfd_ok_def)
    have sv: "same_view pos st st' i" for i by (rule keeps_view [OF core a(2)]) (metis d(6) o(2))
    have "filename (VfdCache st' i) = Some (nm (os st') (fd (VfdCache st' i))) \<and>
        (seek_pos (VfdCache st' i) = -1 \<or> seek_pos (VfdCache st' i) = pos (os st') (fd (VfdCache st' i)))" if i: "i \<in> set lru'" for i
    proof -
      have lp: "lpos pos st' i = lpos pos st i" using a(2) vfd_core_range [OF c' i] by (simp add: same_files_def)
      have open': "fd (VfdCache st' i) \<noteq> -1" using core_closed [OF c' i] .
      show ?thesis
      proof (cases "i = e")
        case True
        then show ?thesis using d o(1) [of e] n(1) lp open' \<open>fd (VfdCache st e) = -1\<close> by (simp add: lpos_def)
      next
        case False
        have "e \<in> set lru'" by (simp add: lru'_def)
        then have nd: "fd (VfdCache st' i) \<noteq> d" using c' i False d(5) by (auto simp: vfd_core_def inj_on_def)
        have "i \<in> set lru" using i False set_drop_subset set_remove1_subset by (fastforce simp: lru'_def)
        then show ?thesis using vf o(1) [of i] o(2) [OF False open'] lp open' nd d(4) by (simp add: vf_ok_def lpos_def)
      qed
    qed
    moreover have "file_flags (VfdCache st' i) AND O_TRUNC = 0 \<and> file_flags (VfdCache st' i) AND O_EXCL = 0"
      if "i < SizeVfdCache st'" "filename (VfdCache st' i) \<noteq> None" for i using vf o(1) [of i] that a(2) by (simp add: vf_ok_def same_files_def)
    ultimately have "vf_ok fds pos ok nm base st' lru' fr" using v' d(7) by (simp add: vf_ok_def)
    moreover have "e \<in> set lru'" by (simp add: lru'_def)
    ultimately show ?thesis using a(1) d(1,3) sv by blast
  qed
qed

text \<open>A system call on an open file that leaves the descriptors as they are, after which fd.c notes the position or forgets it.\<close>

lemma io_frame:
  assumes vf: "vf_ok fds pos ok nm base st lru fr" and e: "e \<in> set lru"
    and w: "ok w" "fds w = fds (os st)" "nm w = nm (os st)" "pos w = (pos (os st))(fd (VfdCache st e) := p)" and q: "q = -1 \<or> q = p"
    and st': "st' = upd_vfd (st\<lparr>os := w\<rparr>) e (\<lambda>v. v\<lparr>seek_pos := q\<rparr>)"
  shows "vf_ok fds pos ok nm base st' lru fr" "moved pos st st' e p (q \<noteq> -1)"
proof -
  note core = vf_core [OF vf]
  have ed: "fd (VfdCache st e) \<noteq> -1" using core_closed [OF core e] .
  have ne: "fd (VfdCache st j) \<noteq> fd (VfdCache st e)" if "j \<in> set lru" "j \<noteq> e" for j using core that e by (auto simp: vfd_core_def inj_on_def)
  have 1: "FILE_IS_VALID st' e" "fname st' e = fname st e" using vf_fd [OF vf e] by (simp_all add: st' FILE_IS_VALID_def fname_def)
  have 4: "temp st' e = temp st e" by (simp add: st' temp_def)
  have 2: "lpos pos st' e = p" "known st' e \<longleftrightarrow> q \<noteq> -1" using ed w by (simp_all add: st' lpos_def known_def)
  have 3: "same_view pos st st' i" if "i \<noteq> e" for i
  proof -
    have "pos w (fd (VfdCache st i)) = pos (os st) (fd (VfdCache st i))" if "fd (VfdCache st i) \<noteq> -1" "i < SizeVfdCache st"
      using ne [OF core_open [OF core that(2,1)] \<open>i \<noteq> e\<close>] w(4) by simp
    then show ?thesis using that by (auto simp: same_view_def st' FILE_IS_VALID_def fname_def lpos_def known_def temp_def)
  qed
  show "moved pos st st' e p (q \<noteq> -1)" using 1 2 3 4 by (simp add: moved_def)
  have "vfd_core fds ok st' lru fr" by (rule vfd_core_cong [OF vfd_core_os [OF core w(1)]]) (simp_all add: st' w(2) more_def less_def fun_eq_iff)
  moreover have "filename (VfdCache st' j) = Some (nm (os st') (fd (VfdCache st' j))) \<and>
      (seek_pos (VfdCache st' j) = -1 \<or> seek_pos (VfdCache st' j) = pos (os st') (fd (VfdCache st' j)))" if j: "j \<in> set lru" for j
    using vf j w q ne [OF j] by (cases "j = e") (auto simp: vf_ok_def st')
  moreover have "ext_fds fds st' = ext_fds fds st"
  proof -
    have "fd (VfdCache st' j) = fd (VfdCache st j)" "SizeVfdCache st' = SizeVfdCache st" "os st' = w" for j by (simp_all add: st')
    then show ?thesis by (simp add: ext_fds_def w(2))
  qed
  ultimately show "vf_ok fds pos ok nm base st' lru fr" using vf by (simp add: vf_ok_def vfd_ok_def st')
qed

text \<open>The same for a file without descriptor, of which fd.c keeps the position.\<close>

lemma closed_frame:
  assumes vf: "vf_ok fds pos ok nm base st lru fr" and e: "FILE_IS_VALID st e" "fd (VfdCache st e) = -1"
    and st': "st' = upd_vfd st e (\<lambda>v. v\<lparr>seek_pos := p\<rparr>)"
  shows "vf_ok fds pos ok nm base st' lru fr" "moved pos st st' e p (p \<noteq> -1)"
proof -
  note core = vf_core [OF vf]
  have "e \<notin> set lru" using core_closed [OF core] e(2) by blast
  moreover have "vfd_core fds ok st' lru fr" by (rule vfd_core_cong [OF core]) (simp_all add: st' more_def less_def fun_eq_iff)
  moreover have "ext_fds fds st' = ext_fds fds st" by (rule ext_fds_cong) (simp_all add: st')
  ultimately show "vf_ok fds pos ok nm base st' lru fr" using vf by (auto simp: vf_ok_def vfd_ok_def st')
  show "moved pos st st' e p (p \<noteq> -1)" using e by (simp add: moved_def same_view_def st' FILE_IS_VALID_def fname_def lpos_def known_def temp_def)
qed

lemma moved_trans:
  assumes "\<forall>i. same_view pos st st1 i" "FILE_IS_VALID st e" "moved pos st1 st2 e p kn"
  shows "moved pos st st2 e p kn"
proof -
  have "fname st1 e = fname st e" "temp st1 e = temp st e" using assms(1,2) by (simp_all add: same_view_def)
  then show ?thesis using assms(3) same_view_trans [OF spec [OF assms(1)]] by (simp add: moved_def)
qed

text \<open>What \<open>lseek\<close>, \<open>read\<close>, \<open>write\<close> and \<open>ftruncate\<close> find behind the descriptor of a file.\<close>

lemma vf_os:
  assumes vf: "vf_ok fds pos ok nm base st lru fr" and e: "e \<in> set lru"
  shows "ok (os st)" "fd (VfdCache st e) \<in> fds (os st)" "nm (os st) (fd (VfdCache st e)) = fname st e" "lpos pos st e = pos (os st) (fd (VfdCache st e))"
    "known st e \<Longrightarrow> seek_pos (VfdCache st e) = lpos pos st e" "FILE_IS_VALID st e" "fd (VfdCache st e) \<noteq> -1"
proof -
  note core = vf_core [OF vf]
  show "ok (os st)" "fd (VfdCache st e) \<in> fds (os st)" "nm (os st) (fd (VfdCache st e)) = fname st e" "FILE_IS_VALID st e" "fd (VfdCache st e) \<noteq> -1"
    using core_ok [OF core] vfd_core_fds [OF core e] vf_fd [OF vf e] core_closed [OF core e] by simp_all
  then show "lpos pos st e = pos (os st) (fd (VfdCache st e))" by (simp add: lpos_def)
  then show "seek_pos (VfdCache st e) = lpos pos st e" if "known st e" using vf e that by (auto simp: vf_ok_def known_def)
qed

lemma seek_to_frame:
  assumes vf: "vf_ok fds pos ok nm base st lru fr" and e: "e \<in> set lru"
    and l: "k_lseek k (os st) (fd (VfdCache st e)) off wh = (r, w)" "ok w" "fds w = fds (os st)" "pos w = (pos (os st))(fd (VfdCache st e) := r)"
  shows "vf_ok fds pos ok nm base (seek_to k st e off wh) lru fr" "files (os (seek_to k st e off wh)) = files (os st)"
    "seek_pos (VfdCache (seek_to k st e off wh) e) = r" "moved pos st (seek_to k st e off wh) e r True"
proof -
  have n: "nm w = nm (os st)" using lseek_files [OF l(1)] by blast
  have st': "seek_to k st e off wh = upd_vfd (st\<lparr>os := w\<rparr>) e (\<lambda>v. v\<lparr>seek_pos := r\<rparr>)" by (simp add: seek_to_def l(1))
  note f = io_frame [OF vf e l(2,3) n l(4) _ st']
  show "vf_ok fds pos ok nm base (seek_to k st e off wh) lru fr" using f by blast
  show "files (os (seek_to k st e off wh)) = files (os st)" "seek_pos (VfdCache (seek_to k st e off wh) e) = r" using lseek_files [OF l(1)] by (simp_all add: st')
  have ed: "fd (VfdCache st e) \<in> fds w" using vf_os(2) [OF vf e] l(3) by simp
  then have "r \<noteq> -1" using pos_nonneg [OF l(2) ed] l(4) by simp
  then show "moved pos st (seek_to k st e off wh) e r True" using f(2) by (simp add: moved_def)
qed

lemma file_seek_set:
  assumes vf: "vf_ok fds pos ok nm base st lru fr" and e: "FILE_IS_VALID st e" and p: "0 \<le> p"
  shows "\<exists>st'. file_seek k st e p SEEK_SET = Inr (p, st') \<and> vf_ok fds pos ok nm base st' lru fr \<and> files (os st') = files (os st) \<and> moved pos st st' e p True"
proof (cases "fd (VfdCache st e) = -1")
  case True
  note f = closed_frame [OF vf e True refl, of p]
  then show ?thesis using e True p by (simp add: file_seek_def FILE_IS_NOT_OPEN_def VFD_CLOSED_def moved_def)
next
  case False
  have l: "e \<in> set lru" using core_open [OF vf_core [OF vf]] e False by (simp add: FILE_IS_VALID_def)
  note os = vf_os [OF vf l]
  show ?thesis
  proof (cases "seek_pos (VfdCache st e) = p")
    case True
    then have "known st e" using p by (simp add: known_def)
    then show ?thesis using e False True p vf os by (simp add: file_seek_def FILE_IS_NOT_OPEN_def VFD_CLOSED_def moved_def same_view_refl)
  next
    case ne: False
    obtain r w where lk: "k_lseek k (os st) (fd (VfdCache st e)) p SEEK_SET = (r, w)" by fastforce
    note s = lseek_set [OF os(1,2) p lk]
    have "file_seek k st e p SEEK_SET = Inr (seek_pos (VfdCache (seek_to k st e p SEEK_SET) e), seek_to k st e p SEEK_SET)"
      using e False ne p by (simp add: file_seek_def FILE_IS_NOT_OPEN_def VFD_CLOSED_def)
    then show ?thesis using seek_to_frame [OF vf l lk] s by simp
  qed
qed

lemma file_seek_end:
  assumes vf: "vf_ok fds pos ok nm base st lru fr" and u: "usable pos files st e" and lim: "pg_nofile k = Inr limit" and bs: "files (os st) (fname st e) = Some bs"
  shows "\<exists>st' lru'. file_seek k st e 0 SEEK_END = Inr (int (length bs), st') \<and> vf_ok fds pos ok nm base st' lru' fr \<and> files (os st') = files (os st) \<and>
    moved pos st st' e (int (length bs)) True"
proof -
  have e: "FILE_IS_VALID st e" using u by (simp add: usable_def)
  obtain st1 lru1 where a: "vf_ok fds pos ok nm base st1 lru1 fr" "e \<in> set lru1" "files (os st1) = files (os st)" "\<forall>i. same_view pos st st1 i"
    and r: "file_seek k st e 0 SEEK_END = Inr (seek_pos (VfdCache (seek_to k st1 e 0 SEEK_END) e), seek_to k st1 e 0 SEEK_END)"
  proof (cases "fd (VfdCache st e) = -1")
    case True
    obtain st1 lru1 where "file_access k st e = Inr (0, st1)" "vf_ok fds pos ok nm base st1 lru1 fr" "e \<in> set lru1" "files (os st1) = files (os st)"
      "\<forall>i. same_view pos st st1 i" using file_access_files [OF vf u lim] by blast
    then show ?thesis using that [of st1 lru1] e True by (simp add: file_seek_def FILE_IS_NOT_OPEN_def VFD_CLOSED_def SEEK_END_def SEEK_SET_def SEEK_CUR_def)
  next
    case False
    have "e \<in> set lru" using core_open [OF vf_core [OF vf]] e False by (simp add: FILE_IS_VALID_def)
    then show ?thesis using that [of st lru, OF vf _ refl allI, OF _ same_view_refl] e False
      by (simp add: file_seek_def FILE_IS_NOT_OPEN_def VFD_CLOSED_def SEEK_END_def SEEK_SET_def SEEK_CUR_def)
  qed
  note os = vf_os [OF a(1,2)]
  have bs1: "files (os st1) (nm (os st1) (fd (VfdCache st1 e))) = Some bs" using bs a(3,4) e os(3) by (simp add: same_view_def)
  obtain r w where lk: "k_lseek k (os st1) (fd (VfdCache st1 e)) 0 SEEK_END = (r, w)" by fastforce
  note s = lseek_end [OF os(1,2) bs1 lk]
  note f = seek_to_frame [OF a(1,2) lk]
  have "moved pos st (seek_to k st1 e 0 SEEK_END) e r True" using moved_trans [OF a(4) e] f(4) s by simp
  then show ?thesis using r f s a(3) by auto
qed

text \<open>A transfer of \<open>r\<close> bytes from a known position; fd.c forgets the position when nothing is transferred.\<close>

lemma advance_frame:
  assumes vf: "vf_ok fds pos ok nm base st lru fr" and e: "e \<in> set lru" "known st e"
    and w: "ok w" "fds w = fds (os st)" "nm w = nm (os st)" "pos w = (pos (os st))(fd (VfdCache st e) := p)" and p: "0 < r \<Longrightarrow> p = lpos pos st e + r"
  shows "vf_ok fds pos ok nm base (advance (st\<lparr>os := w\<rparr>) e r) lru fr" "moved pos st (advance (st\<lparr>os := w\<rparr>) e r) e p (0 < r)"
    "os (advance (st\<lparr>os := w\<rparr>) e r) = w"
proof -
  define q where "q = (if 0 < r then p else -1)"
  have pn: "p \<noteq> -1"
    using pos_nonneg [OF w(1), of "fd (VfdCache st e)"] vf_os(2) [OF vf e(1)] w(2,4) by simp
  have sk: "seek_pos (VfdCache st e) = lpos pos st e" by (rule vf_os(5) [OF vf e])
  have st': "advance (st\<lparr>os := w\<rparr>) e r = upd_vfd (st\<lparr>os := w\<rparr>) e (\<lambda>v. v\<lparr>seek_pos := q\<rparr>)"
    using p sk by (simp add: advance_def upd_vfd_def q_def FILE_UNKNOWN_POS_def)
  have q: "q = -1 \<or> q = p" by (simp add: q_def)
  note f = io_frame [OF vf e(1) w q st']
  show "vf_ok fds pos ok nm base (advance (st\<lparr>os := w\<rparr>) e r) lru fr" by (rule f(1))
  show "moved pos st (advance (st\<lparr>os := w\<rparr>) e r) e p (0 < r)" using f(2) pn by (auto simp: moved_def q_def)
  show "os (advance (st\<lparr>os := w\<rparr>) e r) = w" by (simp add: advance_def)
qed

lemma file_access_known:
  assumes vf: "vf_ok fds pos ok nm base st lru fr" and u: "usable pos files st e" "known st e" and lim: "pg_nofile k = Inr limit"
    and bs: "files (os st) (fname st e) = Some bs"
  obtains st1 lru1 where "file_access k st e = Inr (0, st1)" "vf_ok fds pos ok nm base st1 lru1 fr" "e \<in> set lru1" "files (os st1) = files (os st)"
    "\<forall>i. same_view pos st st1 i" "known st1 e" "lpos pos st1 e = lpos pos st e" "fname st1 e = fname st e"
    "files (os st1) (nm (os st1) (fd (VfdCache st1 e))) = Some bs"
proof -
  have e: "FILE_IS_VALID st e" using u by (simp add: usable_def)
  obtain st1 lru1 where a: "file_access k st e = Inr (0, st1)" "vf_ok fds pos ok nm base st1 lru1 fr" "e \<in> set lru1" "files (os st1) = files (os st)"
      "\<forall>i. same_view pos st st1 i" using file_access_files [OF vf u(1) lim] by blast
  have v: "known st1 e" "lpos pos st1 e = lpos pos st e" "fname st1 e = fname st e" using a(5) e u(2) by (simp_all add: same_view_def)
  show ?thesis by (rule that [OF a(1-4) _ v]) (use a(4,5) bs v(3) vf_os(3) [OF a(2,3)] in simp_all)
qed

lemma file_read_files:
  assumes vf: "vf_ok fds pos ok nm base st lru fr" and u: "usable pos files st e" "known st e" and lim: "pg_nofile k = Inr limit"
    and bs: "files (os st) (fname st e) = Some bs" and n: "0 \<le> n"
  shows "\<exists>r bytes st' lru'. file_read k st e n = Inr (r, bytes, st') \<and> vf_ok fds pos ok nm base st' lru' fr \<and> files (os st') = files (os st) \<and>
    (r = -1 \<and> moved pos st st' e (lpos pos st e) False \<or>
     0 \<le> r \<and> r \<le> n \<and> bytes = take (nat r) (drop (nat (lpos pos st e)) bs) \<and> length bytes = nat r \<and> (r = 0 \<and> 0 < n \<longrightarrow> length bs \<le> nat (lpos pos st e)) \<and>
     moved pos st st' e (lpos pos st e + r) (0 < r))"
proof -
  have e: "FILE_IS_VALID st e" using u by (simp add: usable_def)
  obtain st1 lru1 where a: "file_access k st e = Inr (0, st1)" "vf_ok fds pos ok nm base st1 lru1 fr" "e \<in> set lru1" "files (os st1) = files (os st)"
    "\<forall>i. same_view pos st st1 i" "known st1 e" "lpos pos st1 e = lpos pos st e" "fname st1 e = fname st e"
    "files (os st1) (nm (os st1) (fd (VfdCache st1 e))) = Some bs" by (rule file_access_known [OF vf u lim bs])
  note os = vf_os [OF a(2,3)]
  obtain r bytes w where rd: "k_read k (os st1) (fd (VfdCache st1 e)) n = (r, bytes, w)" by (rule prod_cases3)
  define p where "p = (if r = -1 then lpos pos st e else lpos pos st e + r)"
  note s = read_file [OF os(1,2) a(9) n rd]
  have w: "pos w = (pos (os st1))(fd (VfdCache st1 e) := p)" "0 < r \<Longrightarrow> p = lpos pos st1 e + r"
    using s os(4) a(7) by (auto simp: p_def fun_eq_iff)
  have ws: "ok w" "fds w = fds (os st1)" "nm w = nm (os st1)" "files w = files (os st1)" using s by simp_all
  note f = advance_frame [OF a(2,3,6) ws(1-3) w]
  define st' where "st' = advance (st1\<lparr>os := w\<rparr>) e r"
  have run: "file_read k st e n = Inr (r, bytes, st')" using e a(1) rd by (simp add: file_read_def st'_def)
  have m: "moved pos st st' e p (0 < r)" using moved_trans [OF a(5) e f(2)] by (simp add: st'_def)
  have fs: "files (os st') = files (os st)" using f(3) ws(4) a(4) by (simp add: st'_def)
  have out: "r = -1 \<or> 0 \<le> r \<and> r \<le> n \<and> bytes = take (nat r) (drop (nat (lpos pos st e)) bs) \<and> length bytes = nat r \<and>
     (r = 0 \<and> 0 < n \<longrightarrow> length bs \<le> nat (lpos pos st e))" using s os(4) a(7) by auto
  have m1: "moved pos st st' e (lpos pos st e) False" if "r = -1" using m that by (simp add: p_def moved_def)
  have m2: "moved pos st st' e (lpos pos st e + r) (0 < r)" if "0 \<le> r" using m that by (simp add: p_def)
  have "vf_ok fds pos ok nm base st' lru1 fr" using f(1) by (simp add: st'_def)
  then show ?thesis using run fs out m1 m2 by (intro exI [of _ r] exI [of _ bytes] exI [of _ st'] exI [of _ lru1]) blast
qed

lemma file_write_files:
  assumes vf: "vf_ok fds pos ok nm base st lru fr" and u: "usable pos files st e" "known st e" and lim: "pg_nofile k = Inr limit"
    and bs: "files (os st) (fname st e) = Some bs"
  shows "\<exists>r st' lru'. file_write k st e bytes = Inr (r, st') \<and> vf_ok fds pos ok nm base st' lru' fr \<and>
    (r = -1 \<and> files (os st') = files (os st) \<and> moved pos st st' e (lpos pos st e) False \<or>
     0 \<le> r \<and> r \<le> int (length bytes) \<and> files (os st') = (files (os st))(fname st e \<mapsto> write_at bs (nat (lpos pos st e)) (take (nat r) bytes)) \<and>
     moved pos st st' e (lpos pos st e + r) (0 < r))"
proof -
  have e: "FILE_IS_VALID st e" using u by (simp add: usable_def)
  obtain st1 lru1 where a: "file_access k st e = Inr (0, st1)" "vf_ok fds pos ok nm base st1 lru1 fr" "e \<in> set lru1" "files (os st1) = files (os st)"
    "\<forall>i. same_view pos st st1 i" "known st1 e" "lpos pos st1 e = lpos pos st e" "fname st1 e = fname st e"
    "files (os st1) (nm (os st1) (fd (VfdCache st1 e))) = Some bs" by (rule file_access_known [OF vf u lim bs])
  note os = vf_os [OF a(2,3)]
  obtain r w where wr: "k_write k (os st1) (fd (VfdCache st1 e)) bytes = (r, w)" by fastforce
  define p where "p = (if r = -1 then lpos pos st e else lpos pos st e + r)"
  note s = write_file [OF os(1,2) a(9) wr]
  have w: "pos w = (pos (os st1))(fd (VfdCache st1 e) := p)" "0 < r \<Longrightarrow> p = lpos pos st1 e + r"
    using s os(4) a(7) by (auto simp: p_def fun_eq_iff)
  have ws: "ok w" "fds w = fds (os st1)" "nm w = nm (os st1)" using s by simp_all
  note f = advance_frame [OF a(2,3,6) ws w]
  define st' where "st' = advance (st1\<lparr>os := w\<rparr>) e r"
  have run: "file_write k st e bytes = Inr (r, st')" using e a(1) wr by (simp add: file_write_def st'_def)
  have m: "moved pos st st' e p (0 < r)" using moved_trans [OF a(5) e f(2)] by (simp add: st'_def)
  have "os st' = w" using f(3) by (simp add: st'_def)
  then have out: "r = -1 \<and> files (os st') = files (os st) \<or> 0 \<le> r \<and> r \<le> int (length bytes) \<and>
    files (os st') = (files (os st))(fname st e \<mapsto> write_at bs (nat (lpos pos st e)) (take (nat r) bytes))"
    using s os(3,4) a(4,7,8) by auto
  have m1: "moved pos st st' e (lpos pos st e) False" if "r = -1" using m that by (simp add: p_def moved_def)
  have m2: "moved pos st st' e (lpos pos st e + r) (0 < r)" if "0 \<le> r" using m that by (simp add: p_def)
  have "vf_ok fds pos ok nm base st' lru1 fr" using f(1) by (simp add: st'_def)
  then show ?thesis using run out m1 m2 by (intro exI [of _ r] exI [of _ st'] exI [of _ lru1]) blast
qed

text \<open>Changes of the kernel's state or of the state of a file that no client sees.\<close>

lemma os_frame:
  assumes vf: "vf_ok fds pos ok nm base st lru fr" and w: "ok w" "fds w = fds (os st)" "nm w = nm (os st)" "pos w = pos (os st)"
  shows "vf_ok fds pos ok nm base (st\<lparr>os := w\<rparr>) lru fr" "\<forall>i. same_view pos st (st\<lparr>os := w\<rparr>) i"
proof -
  have "vfd_core fds ok (st\<lparr>os := w\<rparr>) lru fr" using vfd_core_os [OF vf_core [OF vf] w(1)] w(2) by simp
  then show "vf_ok fds pos ok nm base (st\<lparr>os := w\<rparr>) lru fr" using vf w by (simp add: vf_ok_def vfd_ok_def ext_fds_def)
  show "\<forall>i. same_view pos st (st\<lparr>os := w\<rparr>) i" using w by (simp add: same_view_def FILE_IS_VALID_def fname_def lpos_def known_def temp_def)
qed

lemma state_frame:
  assumes vf: "vf_ok fds pos ok nm base st lru fr" and e: "FILE_IS_VALID st e" and st': "st' = upd_vfd st e (\<lambda>v. v\<lparr>fdstate := f v\<rparr>)"
    and t: "f (VfdCache st e) AND FD_TEMPORARY = fdstate (VfdCache st e) AND FD_TEMPORARY"
  shows "vf_ok fds pos ok nm base st' lru fr" "\<forall>i. same_view pos st st' i"
proof -
  note core = vf_core [OF vf]
  have nf: "e \<notin> set fr" using core e by (auto simp: vfd_core_def FILE_IS_VALID_def)
  have "vfd_core fds ok st' lru fr" by (rule vfd_core_cong [OF core]) (use nf in \<open>auto simp: st' more_def less_def fun_eq_iff\<close>)
  moreover have "ext_fds fds st' = ext_fds fds st" by (rule ext_fds_cong) (simp_all add: st')
  ultimately show "vf_ok fds pos ok nm base st' lru fr" using vf by (auto simp: vf_ok_def vfd_ok_def st')
  show "\<forall>i. same_view pos st st' i" by (simp add: same_view_def FILE_IS_VALID_def fname_def lpos_def known_def st' temp_def t)
qed

lemma view_trans: "\<forall>i. same_view pos st st1 i \<Longrightarrow> \<forall>i. same_view pos st1 st2 i \<Longrightarrow> \<forall>i. same_view pos st st2 i"
  using same_view_trans by blast

lemma view_usable: "\<forall>i. same_view pos st st' i \<Longrightarrow> files (os st') = files (os st) \<Longrightarrow> usable pos files st e \<Longrightarrow> usable pos files st' e"
  by (simp add: same_view_def usable_def)

lemma file_sync_files:
  assumes vf: "vf_ok fds pos ok nm base st lru fr" and u: "usable pos files st e" and lim: "pg_nofile k = Inr limit"
  shows "\<exists>r st' lru'. file_sync k indet st e = Inr (r, st') \<and> vf_ok fds pos ok nm base st' lru' fr \<and> files (os st') = files (os st) \<and> (\<forall>i. same_view pos st st' i)"
proof -
  have e: "FILE_IS_VALID st e" using u by (simp add: usable_def)
  consider "fdstate (VfdCache st e) AND FD_DIRTY = 0" | "fdstate (VfdCache st e) AND FD_DIRTY \<noteq> 0" "\<not> EnableFsync st"
    | "fdstate (VfdCache st e) AND FD_DIRTY \<noteq> 0" "EnableFsync st" "\<not> FILE_IS_NOT_OPEN st e"
    | "fdstate (VfdCache st e) AND FD_DIRTY \<noteq> 0" "EnableFsync st" "FILE_IS_NOT_OPEN st e" by blast
  then show ?thesis
  proof cases
    case 2
    then show ?thesis using e state_frame [OF vf e refl, where f = "\<lambda>v. fdstate v AND NOT FD_DIRTY"]
      by (intro exI [of _ 0] exI [of _ "upd_vfd st e (\<lambda>v. v\<lparr>fdstate := fdstate v AND NOT FD_DIRTY\<rparr>)"] exI [of _ lru]) (simp add: file_sync_def)
  next
    case 4
    obtain st1 lru1 where a: "file_access k st e = Inr (0, st1)" "vf_ok fds pos ok nm base st1 lru1 fr" "e \<in> set lru1" "files (os st1) = files (os st)"
      "\<forall>i. same_view pos st st1 i" using file_access_files [OF vf u lim] by blast
    have li: "lru_insert k st e = Inr (0, st1)" using a(1) 4 by (simp add: file_access_def)
    note os = vf_os [OF a(2,3)]
    obtain r w where f: "k_fsync k (os st1) (fd (VfdCache st1 e)) = (r, w)" by fastforce
    have w: "ok w" "fds w = fds (os st1)" "nm w = nm (os st1)" "pos w = pos (os st1)" "files w = files (os st1)"
      using fsync_open [OF os(1,2) f] fsync_files [OF f] by simp_all
    define st2 where "st2 = (if EnableFsync st1 then st1\<lparr>os := w\<rparr> else st1)"
    obtain r2 where p2: "pg_fsync k st1 (fd (VfdCache st1 e)) = (r2, st2)" using f by (cases "EnableFsync st1") (simp_all add: pg_fsync_def st2_def)
    have v2: "vf_ok fds pos ok nm base st2 lru1 fr" "\<forall>i. same_view pos st1 st2 i" "files (os st2) = files (os st)"
      using os_frame [OF a(2) w(1-4)] a(2,4) w(5) same_view_refl [of pos st1] by (auto simp: st2_def)
    have e2: "FILE_IS_VALID st2 e" using v2(2) os(6) by (simp add: same_view_def)
    define st3 where "st3 = (if r2 = 0 then upd_vfd st2 e (\<lambda>v. v\<lparr>fdstate := fdstate v AND NOT FD_DIRTY\<rparr>) else st2)"
    have v3: "vf_ok fds pos ok nm base st3 lru1 fr" "\<forall>i. same_view pos st2 st3 i" "os st3 = os st2"
      using state_frame [OF v2(1) e2 refl, where f = "\<lambda>v. fdstate v AND NOT FD_DIRTY"] v2(1) same_view_refl [of pos st2] by (auto simp: st3_def)
    have "file_sync k indet st e = Inr (r2, st3)" using e 4 li p2 by (simp add: file_sync_def st3_def)
    then show ?thesis using v3 v2(3) view_trans [OF a(5) view_trans [OF v2(2) v3(2)]] by (intro exI [of _ r2] exI [of _ st3] exI [of _ lru1]) simp
  qed (use e vf same_view_refl in \<open>auto simp: file_sync_def\<close>)
qed

lemma file_truncate_files:
  assumes vf: "vf_ok fds pos ok nm base st lru fr" and u: "usable pos files st e" and lim: "pg_nofile k = Inr limit"
    and bs: "files (os st) (fname st e) = Some bs" and n: "0 \<le> n"
  shows "\<exists>r st' lru'. file_truncate k indet st e n = Inr (r, st') \<and> vf_ok fds pos ok nm base st' lru' fr \<and> (\<forall>i. same_view pos st st' i) \<and>
    (r < 0 \<and> files (os st') = files (os st) \<or> r = 0 \<and> files (os st') = (files (os st))(fname st e \<mapsto> trunc_to bs (nat n)))"
proof -
  have e: "FILE_IS_VALID st e" using u by (simp add: usable_def)
  obtain r1 st1 lru1 where s1: "file_sync k indet st e = Inr (r1, st1)" "vf_ok fds pos ok nm base st1 lru1 fr" "files (os st1) = files (os st)"
    "\<forall>i. same_view pos st st1 i" using file_sync_files [OF vf u lim] by blast
  obtain st2 lru2 where a: "file_access k st1 e = Inr (0, st2)" "vf_ok fds pos ok nm base st2 lru2 fr" "e \<in> set lru2" "files (os st2) = files (os st1)"
    "\<forall>i. same_view pos st1 st2 i" using file_access_files [OF s1(2) view_usable [OF s1(4,3) u] lim] by blast
  note v2 = view_trans [OF s1(4) a(5)]
  have n2: "fname st2 e = fname st e" using v2 e by (simp add: same_view_def)
  note os = vf_os [OF a(2,3)]
  have bs2: "files (os st2) (nm (os st2) (fd (VfdCache st2 e))) = Some bs" using bs n2 os(3) a(4) s1(3) by simp
  obtain r w where t: "k_ftruncate k (os st2) (fd (VfdCache st2 e)) n = (r, w)" by fastforce
  note tr = truncate_file [OF os(1,2) bs2 n t]
  have w: "ok w" "fds w = fds (os st2)" "nm w = nm (os st2)" "pos w = pos (os st2)" using tr by simp_all
  note f = os_frame [OF a(2) w]
  have "file_truncate k indet st e n = Inr (r, st2\<lparr>os := w\<rparr>)" using e s1(1) a(1) t by (simp add: file_truncate_def)
  moreover have "r < 0 \<and> files w = files (os st) \<or> r = 0 \<and> files w = (files (os st))(fname st e \<mapsto> trunc_to bs (nat n))"
    using tr a(4) s1(3) os(3) n2 by simp
  ultimately show ?thesis using f(1) view_trans [OF v2 f(2)] by (intro exI [of _ r] exI [of _ "st2\<lparr>os := w\<rparr>"] exI [of _ lru2]) simp
qed

lemma file_mark_dirty_files:
  assumes vf: "vf_ok fds pos ok nm base st lru fr" and e: "FILE_IS_VALID st e"
  shows "\<exists>st'. file_mark_dirty st e = Inr st' \<and> vf_ok fds pos ok nm base st' lru fr \<and> files (os st') = files (os st) \<and> (\<forall>i. same_view pos st st' i)"
  using e state_frame [OF vf e refl, where f = "\<lambda>v. fdstate v OR FD_DIRTY"] by (simp add: file_mark_dirty_def)

text \<open>Closing: the descriptor goes back to the kernel, the slot to the free list, and a temporary file is removed.\<close>

lemma file_close_files:
  assumes vf: "vf_ok fds pos ok nm base st lru fr" and e: "FILE_IS_VALID st e"
  shows "\<exists>st'. file_close k st e = Inr st' \<and> vf_ok fds pos ok nm base st' (remove1 e lru) (e # fr) \<and> \<not> FILE_IS_VALID st' e \<and>
    (\<forall>i. i \<noteq> e \<longrightarrow> same_view pos st st' i) \<and>
    (files (os st') = files (os st) \<or> temp st e \<and> files (os st') = (files (os st))(fname st e := None))"
proof -
  have vok: "vfd_ok fds ok st lru fr" and core: "vfd_core fds ok st lru fr" using vf by (simp_all add: vf_ok_def vfd_ok_def)
  obtain st' where st': "file_close k st e = Inr st'" "vfd_ok fds ok st' (remove1 e lru) (e # fr)" "same_others pos st st' e"
    using file_close_ok [OF vok e] by blast
  have es: "0 < e" "e < SizeVfdCache st" using e by (auto simp: FILE_IS_VALID_def)
  obtain st2 where s2: "(if \<not> FILE_IS_NOT_OPEN st e then cbind (delete_vfd st e) (\<lambda>st1. sync_and_close k st1 e) else Inr st) = Inr st2"
    using st'(1) e by (auto simp: file_close_def cbind_eq_Inr split: if_splits)
  have k2: "keeps fds files nm st st2 \<and> SizeVfdCache st2 = SizeVfdCache st \<and> fd (VfdCache st2 e) = -1 \<and> temp st2 e = temp st e \<and> ok (os st2)"
  proof (cases "FILE_IS_NOT_OPEN st e")
    case True
    then show ?thesis using s2 keeps_refl core_ok [OF core] by (simp add: FILE_IS_NOT_OPEN_def VFD_CLOSED_def)
  next
    case False
    then have "e \<in> set lru" using core_open [OF core es(2)] by (simp add: FILE_IS_NOT_OPEN_def VFD_CLOSED_def)
    note os = vf_os [OF vf this]
    define st1 where "st1 = vfd_unlink st e"
    have d: "delete_vfd st e = Inr st1" using es(1) by (simp add: delete_vfd_unlink st1_def)
    note k1 = delete_vfd_keeps [OF d]
    have s: "sync_and_close k st1 e = Inr st2" using s2 False d by simp
    have o1: "ok (os st1)" "fd (VfdCache st1 e) \<in> fds (os st1)" using os(1,2) by (simp_all add: st1_def)
    obtain t w where u: "st2 = upd_vfd (st1\<lparr>os := w, NFile := NFile st1 - 1\<rparr>) e (\<lambda>v. v\<lparr>fdstate := t, fd := -1\<rparr>)"
      "t AND NOT FD_DIRTY = fdstate (VfdCache st1 e) AND NOT FD_DIRTY" "ok w" using sync_and_close_ok [OF o1] s by auto
    have "keeps fds files nm st st2" using keeps_trans sync_and_close_keeps [OF s o1] k1 by blast
    then show ?thesis using u by (auto simp: st1_def temp_def dest!: dirty_temp)
  qed
  define st3 where "st3 = (if fdstate (VfdCache st2 e) AND FD_TEMPORARY \<noteq> 0
      then let st' = upd_vfd st2 e (\<lambda>v. v\<lparr>fdstate := fdstate v AND NOT FD_TEMPORARY\<rparr>)
           in case filename (VfdCache st' e) of None \<Rightarrow> st' | Some name \<Rightarrow> st'\<lparr>os := k_unlink k (os st') name\<rparr>
      else st2)"
  have st4: "st' = free_vfd st3 e" using st'(1) e s2 by (simp add: file_close_def st3_def)
  have f2: "filename (VfdCache st2 e) = Some (fname st e)" using k2 e by (auto simp: keeps_def FILE_IS_VALID_def fname_def)
  have ok2: "ok (os st2)" using k2 by blast
  have w3: "os st3 = (if temp st e then k_unlink k (os st2) (fname st e) else os st2)" using f2 k2 by (simp add: st3_def temp_def Let_def)
  have g3: "fd (VfdCache st3 i) = fd (VfdCache st2 i)" "filename (VfdCache st3 i) = filename (VfdCache st2 i)" "seek_pos (VfdCache st3 i) = seek_pos (VfdCache st2 i)"
    "file_flags (VfdCache st3 i) = file_flags (VfdCache st2 i)" "SizeVfdCache st3 = SizeVfdCache st2" for i
    using f2 by (auto simp: st3_def Let_def)
  have nm': "nm (os st') = nm (os st)" "fds (os st') = fds (os st2)" "files (os st') = files (os st) \<or> temp st e \<and> files (os st') = (files (os st))(fname st e := None)"
    using unlink_file [of "os st2" "fname st e"] unlink_frame [OF ok2] k2 by (auto simp: st4 free_vfd_fields w3 keeps_def)
  have fd': "fd (VfdCache st' i) = fd (VfdCache st i) \<and> seek_pos (VfdCache st' i) = seek_pos (VfdCache st i)" if "fd (VfdCache st' i) \<noteq> -1" for i
    using k2 that by (simp add: st4 free_vfd_fields g3 keeps_def)
  have fn': "filename (VfdCache st' i) = (if i = e then None else filename (VfdCache st i))" "file_flags (VfdCache st' i) = file_flags (VfdCache st i)"
    "SizeVfdCache st' = SizeVfdCache st" for i using k2 by (simp_all add: st4 free_vfd_fields g3 keeps_def)
  have core': "vfd_core fds ok st' (remove1 e lru) (e # fr)" using st'(2) by (simp add: vfd_ok_def)
  have "filename (VfdCache st' i) = Some (nm (os st') (fd (VfdCache st' i))) \<and>
      (seek_pos (VfdCache st' i) = -1 \<or> seek_pos (VfdCache st' i) = pos (os st') (fd (VfdCache st' i)))" if i: "i \<in> set (remove1 e lru)" for i
  proof -
    have "distinct lru" using core by (auto simp: vfd_core_def lru.ring_of_def ring_def)
    then have ie: "i \<in> set lru" "i \<noteq> e" using i by auto
    have op: "fd (VfdCache st' i) \<noteq> -1" "0 < i" "i < SizeVfdCache st" using core_closed [OF core' i] vfd_core_range [OF core ie(1)] by auto
    have "lpos pos st' i = lpos pos st i" using st'(3) op ie(2) by (simp add: same_others_def)
    then have "pos (os st') (fd (VfdCache st' i)) = pos (os st) (fd (VfdCache st i))" using op(1) fd' [OF op(1)] by (simp add: lpos_def)
    then show ?thesis using vf ie fd' [OF op(1)] fn'(1) [of i] nm'(1) by (simp add: vf_ok_def)
  qed
  moreover have "ext_fds fds st' \<subseteq> base"
  proof -
    have "ext_fds fds st' = ext_fds fds st2" by (simp add: ext_fds_def nm'(2)) (simp add: st4 free_vfd_fields g3)
    then show ?thesis using k2 vf by (auto simp: keeps_def vf_ok_def)
  qed
  moreover have "file_flags (VfdCache st' i) AND O_TRUNC = 0 \<and> file_flags (VfdCache st' i) AND O_EXCL = 0"
    if "i < SizeVfdCache st'" "filename (VfdCache st' i) \<noteq> None" for i using vf fn' that by (simp add: vf_ok_def split: if_splits)
  ultimately have "vf_ok fds pos ok nm base st' (remove1 e lru) (e # fr)" using st'(2) by (simp add: vf_ok_def)
  moreover have "same_view pos st st' i" if "i \<noteq> e" for i by (rule others_view [OF core st'(3) that]) (use fn'(3) fd' in auto)
  moreover have "\<not> FILE_IS_VALID st' e" by (simp add: FILE_IS_VALID_def fn'(1))
  ultimately show ?thesis using st'(1) nm'(3) by blast
qed

lemma file_unlink_files:
  assumes vf: "vf_ok fds pos ok nm base st lru fr" and e: "FILE_IS_VALID st e"
  shows "\<exists>st' lru'. file_unlink k st e = Inr st' \<and> vf_ok fds pos ok nm base st' lru' (e # fr) \<and> \<not> FILE_IS_VALID st' e \<and>
    (\<forall>i. i \<noteq> e \<longrightarrow> same_view pos st st' i) \<and> (files (os st') = files (os st) \<or> files (os st') = (files (os st))(fname st e := None))"
proof -
  define st1 where "st1 = upd_vfd st e (\<lambda>v. v\<lparr>fdstate := fdstate v OR FD_TEMPORARY\<rparr>)"
  note core = vf_core [OF vf]
  have nf: "e \<notin> set fr" using core e by (auto simp: vfd_core_def FILE_IS_VALID_def)
  have "vfd_core fds ok st1 lru fr" by (rule vfd_core_cong [OF core]) (use nf in \<open>auto simp: st1_def more_def less_def fun_eq_iff\<close>)
  moreover have "ext_fds fds st1 = ext_fds fds st" by (rule ext_fds_cong) (simp_all add: st1_def)
  ultimately have v1: "vf_ok fds pos ok nm base st1 lru fr" using vf by (auto simp: vf_ok_def vfd_ok_def st1_def)
  have e1: "FILE_IS_VALID st1 e" "fname st1 e = fname st e" "os st1 = os st" using e by (simp_all add: FILE_IS_VALID_def st1_def fname_def)
  obtain st' where c: "file_close k st1 e = Inr st'" "vf_ok fds pos ok nm base st' (remove1 e lru) (e # fr)" "\<not> FILE_IS_VALID st' e"
    "\<forall>i. i \<noteq> e \<longrightarrow> same_view pos st1 st' i" "files (os st') = files (os st1) \<or> temp st1 e \<and> files (os st') = (files (os st1))(fname st1 e := None)"
    using file_close_files [OF v1 e1(1)] by blast
  have "same_view pos st st1 i" if "i \<noteq> e" for i using that by (simp add: same_view_def FILE_IS_VALID_def fname_def lpos_def known_def temp_def st1_def)
  then have "\<forall>i. i \<noteq> e \<longrightarrow> same_view pos st st' i" using c(4) same_view_trans by blast
  moreover have "file_unlink k st e = Inr st'" using e c(1) by (simp add: file_unlink_def st1_def)
  ultimately show ?thesis using c e1 by auto
qed

end

section \<open>Opening\<close>

text \<open>What a successful \<open>open\<close> without \<open>O_TRUNC\<close> does to the files.\<close>

definition opens :: "(string \<rightharpoonup> byte list) \<Rightarrow> string \<Rightarrow> int \<Rightarrow> (string \<rightharpoonup> byte list) \<Rightarrow> bool" where
  "opens fs n f fs' \<longleftrightarrow> (case fs n of None \<Rightarrow> f AND O_CREAT \<noteq> 0 \<and> fs' = fs(n \<mapsto> []) | Some _ \<Rightarrow> (f AND O_CREAT = 0 \<or> f AND O_EXCL = 0) \<and> fs' = fs)"

text \<open>The array may grow; the slots in use stay as they are.\<close>

definition same_slot :: "Vfd \<Rightarrow> Vfd \<Rightarrow> bool" where
  "same_slot v v' \<longleftrightarrow> fd v' = fd v \<and> filename v' = filename v \<and> seek_pos v' = seek_pos v \<and> file_flags v' = file_flags v"

definition grown :: "('o \<Rightarrow> int set) \<Rightarrow> ('o \<Rightarrow> string \<rightharpoonup> byte list) \<Rightarrow> ('o \<Rightarrow> int \<Rightarrow> string) \<Rightarrow> 'o fd_globals \<Rightarrow> 'o fd_globals \<Rightarrow> bool" where
  "grown fds files nm st st' \<longleftrightarrow> fds (os st') = fds (os st) \<and> files (os st') = files (os st) \<and> nm (os st') = nm (os st) \<and>
     SizeVfdCache st \<le> SizeVfdCache st' \<and>
     (\<forall>i < SizeVfdCache st. same_slot (VfdCache st i) (VfdCache st' i)) \<and>
     (\<forall>i. SizeVfdCache st \<le> i \<longrightarrow> i < SizeVfdCache st' \<longrightarrow> filename (VfdCache st' i) = None)"

lemma same_slot_trans: "same_slot u v \<Longrightarrow> same_slot v w \<Longrightarrow> same_slot u w"
  by (simp add: same_slot_def)

lemma grown_trans:
  assumes g: "grown fds files nm st st1" "grown fds files nm st1 st2"
  shows "grown fds files nm st st2"
proof -
  have "same_slot (VfdCache st i) (VfdCache st2 i)" if "i < SizeVfdCache st" for i
  proof (rule same_slot_trans)
    show "same_slot (VfdCache st i) (VfdCache st1 i)" "same_slot (VfdCache st1 i) (VfdCache st2 i)" using g that by (simp_all add: grown_def)
  qed
  moreover have "filename (VfdCache st2 i) = None" if "SizeVfdCache st \<le> i" "i < SizeVfdCache st2" for i
    using g that by (cases "i < SizeVfdCache st1") (simp_all add: grown_def same_slot_def)
  ultimately show ?thesis using g by (simp add: grown_def)
qed

lemma grown_ext:
  assumes "grown fds files nm st st'"
  shows "ext_fds fds st' \<subseteq> ext_fds fds st"
proof
  fix x assume x: "x \<in> ext_fds fds st'"
  have "x \<noteq> fd (VfdCache st i)" if "i < SizeVfdCache st" for i
  proof -
    have "i < SizeVfdCache st'" "fd (VfdCache st' i) = fd (VfdCache st i)" using assms that by (simp_all add: grown_def same_slot_def)
    moreover have "x \<noteq> fd (VfdCache st' i)" if "i < SizeVfdCache st'" using x that by (auto simp: ext_fds_def)
    ultimately show ?thesis by simp
  qed
  then show "x \<in> ext_fds fds st" using x assms by (auto simp: ext_fds_def grown_def)
qed

definition fs_ok ::
  "('o \<Rightarrow> int set) \<Rightarrow> ('o \<Rightarrow> int \<Rightarrow> int) \<Rightarrow> ('o \<Rightarrow> bool) \<Rightarrow> ('o \<Rightarrow> int \<Rightarrow> string) \<Rightarrow> int set \<Rightarrow> 'o fd_globals \<Rightarrow> bool" where
  "fs_ok fds pos ok nm base st \<longleftrightarrow> (\<exists>lru fr. vf_ok fds pos ok nm base st lru fr) \<or> vfd_init ok st \<and> fds (os st) \<subseteq> base"

context posix_files
begin

lemma create_grown:
  assumes "create_cache k st = Inr st'" "ok (os st)"
  shows "grown fds files nm st st' \<and> ok (os st')"
proof (cases "SizeVfdCache st = 0")
  case True
  obtain b w where m: "k_malloc k (os st) sizeof_Vfd = (b, w)" by fastforce
  have st': "st' = st\<lparr>os := w, VfdCache := (VfdCache st)(0 := zero_vfd\<lparr>fd := VFD_CLOSED\<rparr>), SizeVfdCache := 1, exit_hook := True\<rparr>"
    using assms(1) True m by (simp add: create_cache_def split: if_splits)
  show ?thesis using True malloc_frame [OF assms(2) m] malloc_files [OF m] by (simp add: st' grown_def zero_vfd_def)
qed (use assms in \<open>simp add: create_cache_def grown_def same_slot_def\<close>)

lemma enlarge_grown:
  assumes "enlarge_cache k st = Inr st'" "ok (os st)"
  shows "grown fds files nm st st'"
proof (cases "next_free (VfdCache st 0) = 0")
  case True
  define n where "n = SizeVfdCache st"
  define m where "m = (if n * 2 < 32 then 32 else n * 2)"
  obtain b w where a: "k_malloc k (os st) (sizeof_Vfd * m) = (b, w)" by fastforce
  note w = malloc_frame [OF assms(2) a] malloc_files [OF a]
  define c1 where "c1 = fold (\<lambda>i c. c(i := zero_vfd\<lparr>next_free := i + 1, fd := VFD_CLOSED\<rparr>)) [n..<m] (VfdCache st)"
  have c1: "c1 i = (if n \<le> i \<and> i < m then zero_vfd\<lparr>next_free := i + 1, fd := VFD_CLOSED\<rparr> else VfdCache st i)" for i
    unfolding c1_def fold_init by auto
  define st1 where "st1 = st\<lparr>os := w, VfdCache := c1\<rparr>"
  have st': "st' = (upd_vfd (upd_vfd st1 (m - 1) (\<lambda>v. v\<lparr>next_free := 0\<rparr>)) 0 (\<lambda>v. v\<lparr>next_free := n\<rparr>))\<lparr>SizeVfdCache := m\<rparr>"
    using assms(1) True unfolding enlarge_cache_def Let_def n_def [symmetric] m_def [symmetric] a
    by (simp add: st1_def c1_def n_def split: if_splits)
  have "same_slot (VfdCache st i) (VfdCache st' i)" if "i < n" for i using that by (simp add: same_slot_def st' st1_def c1)
  moreover have "filename (VfdCache st' i) = None" if "n \<le> i" "i < m" for i using that by (simp add: st' st1_def c1 zero_vfd_def)
  moreover have "SizeVfdCache st' = m" "os st' = w" by (simp_all add: st' st1_def)
  moreover have "n \<le> m" by (simp add: m_def)
  ultimately show ?thesis using w by (simp add: grown_def n_def)
qed (use assms in \<open>simp add: enlarge_cache_def grown_def same_slot_def\<close>)

lemma allocate_grown:
  assumes a: "allocate_vfd k st = Inr (e, st')" and okw: "ok (os st)"
  shows "grown fds files nm st st'"
proof -
  obtain st1 st2 where s: "create_cache k st = Inr st1" "enlarge_cache k st1 = Inr st2"
    "st' = upd_vfd st2 0 (\<lambda>v. v\<lparr>next_free := next_free (VfdCache st2 e)\<rparr>)" using a by (auto simp: allocate_vfd_def cbind_eq_Inr Let_def)
  note g1 = create_grown [OF s(1) okw]
  have "grown fds files nm st st2" using grown_trans g1 enlarge_grown [OF s(2)] by blast
  moreover have "grown fds files nm st2 st'" by (simp add: s(3) grown_def same_slot_def)
  ultimately show ?thesis by (rule grown_trans)
qed

lemma open_step_files:
  assumes o: "basic_open_file k st n f m = Inr (d, st')" and core: "vfd_core fds ok st lru fr" and b: "ext_fds fds st \<subseteq> base" and tr: "f AND O_TRUNC = 0"
  shows "\<exists>st1. keeps fds files nm st st1 \<and> VfdCache st' = VfdCache st1 \<and> SizeVfdCache st' = SizeVfdCache st1 \<and>
    (0 \<le> d \<and> nm (os st') = (nm (os st))(d := n) \<and> opens (files (os st)) n f (files (os st')) \<and> fds (os st') = Set.insert d (fds (os st1)) \<or>
     d = -1 \<and> st' = st1 \<and> (files (os st) n \<noteq> None \<longrightarrow> f AND O_EXCL \<noteq> 0))"
proof -
  obtain st1 d' t w lru1 where b1: "keeps fds files nm st st1" "vfd_core fds ok st1 lru1 fr" "k_open k (os st1) n f m = (d', t, w)"
    "0 \<le> d' \<and> d = d' \<and> st' = st1\<lparr>os := w\<rparr> \<or> d' < 0 \<and> d = -1 \<and> keeps fds files nm st st' \<and> (t \<longrightarrow> lru1 = [])"
    using basic_open_keeps [OF o core] by blast
  have okw: "ok (os st1)" using b1(2) by (simp add: vfd_core_def)
  have fs: "files (os st1) = files (os st)" "nm (os st1) = nm (os st)" using b1(1) by (simp_all add: keeps_def)
  show ?thesis
  proof (cases "0 \<le> d'")
    case True
    then have d: "d = d'" "st' = st1\<lparr>os := w\<rparr>" using b1(4) by auto
    have "opens (files (os st)) n f (files w)"
    proof (cases "files (os st1) n")
      case None
      then show ?thesis using open_absent [OF okw None b1(3) True] fs by (simp add: opens_def)
    next
      case (Some bs)
      then have ex: "files (os st1) n \<noteq> None" by simp
      have "f AND O_CREAT = 0 \<or> f AND O_EXCL = 0" using open_excl [OF okw ex _ _ b1(3)] True by force
      then show ?thesis using open_exists [OF okw ex tr b1(3) True] fs Some by (simp add: opens_def)
    qed
    then show ?thesis using d b1(1) True open_new [OF okw b1(3) True] open_name [OF b1(3)] fs by (intro exI [of _ st1]) simp
  next
    case False
    then have d: "d = -1" "keeps fds files nm st st'" using b1(4) by auto
    have "f AND O_EXCL \<noteq> 0" if "files (os st) n \<noteq> None"
    proof
      assume "f AND O_EXCL = 0"
      then have "0 \<le> d" using basic_open_exists [OF o core b that tr] by blast
      then show False using d(1) by simp
    qed
    then show ?thesis using d by blast
  qed
qed

text \<open>The state when the new descriptor is about to be entered in slot \<open>e\<close>.\<close>

lemma open_prefix:
  assumes fs: "vf_ok fds pos ok nm base st lru fr \<or> vfd_init ok st \<and> fds (os st) \<subseteq> base \<and> lru = [] \<and> fr = []"
    and mem: "\<And>w n. fst (k_malloc k w n)" and tr: "flags AND O_TRUNC = 0"
  obtains e st1 st2 d st3 lru' fr' where "allocate_vfd k st = Inr (e, st1)" "release_excess k limit st1 = Inr st2"
    "basic_open_file k st2 name flags mode = Inr (d, st3)" "vfd_core fds ok st3 lru' fr'" "set lru' \<subseteq> set lru" "same_others pos st st3 0"
    "e \<notin> set lru'" "e \<notin> set fr'" "0 < e" "e < SizeVfdCache st3" "filename (VfdCache st3 e) = None"
    "\<forall>i \<in> {1..<SizeVfdCache st3}. filename (VfdCache st3 i) = None \<longrightarrow> i \<in> set (e # fr')"
    "\<forall>i. SizeVfdCache st \<le> i \<longrightarrow> i < SizeVfdCache st3 \<longrightarrow> filename (VfdCache st3 i) = None"
    "\<forall>i < SizeVfdCache st. filename (VfdCache st3 i) = filename (VfdCache st i) \<and> file_flags (VfdCache st3 i) = file_flags (VfdCache st i) \<and>
       (fd (VfdCache st3 i) \<noteq> -1 \<longrightarrow> fd (VfdCache st3 i) = fd (VfdCache st i) \<and> seek_pos (VfdCache st3 i) = seek_pos (VfdCache st i))"
    "0 \<le> d \<and> d < 32768 \<and> d \<in> fds (os st3) \<and> d \<notin> (\<lambda>i. fd (VfdCache st3 i)) ` set lru' \<and> pos (os st3) d = 0 \<and>
       nm (os st3) = (nm (os st))(d := name) \<and> opens (files (os st)) name flags (files (os st3)) \<and> ext_fds fds st3 \<subseteq> Set.insert d base \<or>
     d = -1 \<and> nm (os st3) = nm (os st) \<and> files (os st3) = files (os st) \<and> ext_fds fds st3 \<subseteq> base \<and>
       (files (os st) name \<noteq> None \<longrightarrow> flags AND O_EXCL \<noteq> 0)"
proof -
  have init: "vfd_ok fds ok st lru fr \<or> vfd_init ok st \<and> lru = [] \<and> fr = []" using fs by (auto simp: vf_ok_def)
  have okw: "ok (os st)" using fs core_ok [OF vf_core] by (auto simp: vfd_init_def)
  have ext0: "ext_fds fds st \<subseteq> base" using fs by (auto simp: vf_ok_def ext_fds_def)
  obtain e st1 fr' where a: "allocate_vfd k st = Inr (e, st1)" "vfd_core fds ok st1 lru fr'" "same_others pos st st1 0"
    "e \<notin> set lru" "e \<notin> set fr'" "0 < e" "e < SizeVfdCache st1" "filename (VfdCache st1 e) = None"
    "\<forall>i \<in> {1..<SizeVfdCache st1}. filename (VfdCache st1 i) = None \<longrightarrow> i \<in> set (e # fr')"
    using allocate_vfd_ok [OF init mem] by blast
  note g = allocate_grown [OF a(1) okw]
  obtain st2 n1 where r: "release_excess k limit st1 = Inr st2" "vfd_core fds ok st2 (drop n1 lru) fr'" "same_files pos st1 st2"
    using release_excess_ok [OF a(2)] by blast
  note k2 = release_excess_keeps [OF r(1) a(2)]
  obtain d st3 n2 where o: "basic_open_file k st2 name flags mode = Inr (d, st3)"
    "vfd_core fds ok st3 (drop n2 (drop n1 lru)) fr'" "same_files pos st2 st3"
    "d = -1 \<or> (0 \<le> d \<and> d < 32768 \<and> d \<in> fds (os st3) \<and> d \<notin> (\<lambda>i. fd (VfdCache st3 i)) ` set (drop n2 (drop n1 lru)) \<and> pos (os st3) d = 0)"
    using basic_open_ok [OF r(2)] by blast
  have b2: "ext_fds fds st2 \<subseteq> base" using grown_ext [OF g] k2 ext0 by (auto simp: keeps_def)
  obtain st2' where k3: "keeps fds files nm st2 st2'" "VfdCache st3 = VfdCache st2'" "SizeVfdCache st3 = SizeVfdCache st2'"
    "0 \<le> d \<and> nm (os st3) = (nm (os st2))(d := name) \<and> opens (files (os st2)) name flags (files (os st3)) \<and> fds (os st3) = Set.insert d (fds (os st2')) \<or>
     d = -1 \<and> st3 = st2' \<and> (files (os st2) name \<noteq> None \<longrightarrow> flags AND O_EXCL \<noteq> 0)"
    using open_step_files [OF o(1) r(2) b2 tr] by blast
  have kk: "keeps fds files nm st1 st2'" by (rule keeps_trans [OF k2 k3(1)])
  have sf: "same_files pos st1 st3" using same_files_trans [OF r(3) o(3)] .
  have so: "same_others pos st st3 0" using same_others_trans [OF a(3) same_files_others [OF sf]] .
  have sz3: "SizeVfdCache st3 = SizeVfdCache st1" using sf by (simp add: same_files_def)
  have fn3: "filename (VfdCache st3 i) = filename (VfdCache st1 i)" "file_flags (VfdCache st3 i) = file_flags (VfdCache st1 i)"
    "fd (VfdCache st3 i) \<noteq> -1 \<Longrightarrow> fd (VfdCache st3 i) = fd (VfdCache st1 i) \<and> seek_pos (VfdCache st3 i) = seek_pos (VfdCache st1 i)" for i
    using kk k3(2) by (simp_all add: keeps_def)
  have sub: "set (drop n2 (drop n1 lru)) \<subseteq> set lru" by (auto dest: in_set_dropD)
  have el: "e \<notin> set (drop n2 (drop n1 lru))" using a(4) sub by blast
  have nms: "nm (os st2) = nm (os st)" "files (os st2) = files (os st)" using k2 g by (simp_all add: keeps_def grown_def)
  have ext3: "ext_fds fds st3 \<subseteq> Set.insert d base" "d = -1 \<Longrightarrow> ext_fds fds st3 \<subseteq> base"
    using k3 b2 by (auto simp: keeps_def ext_fds_def)
  show ?thesis
  proof (rule that [OF a(1) r(1) o(1,2) sub so el a(5,6)])
    show "\<forall>i. SizeVfdCache st \<le> i \<longrightarrow> i < SizeVfdCache st3 \<longrightarrow> filename (VfdCache st3 i) = None" using g by (simp add: fn3 sz3 grown_def)
    show "\<forall>i < SizeVfdCache st. filename (VfdCache st3 i) = filename (VfdCache st i) \<and> file_flags (VfdCache st3 i) = file_flags (VfdCache st i) \<and>
       (fd (VfdCache st3 i) \<noteq> -1 \<longrightarrow> fd (VfdCache st3 i) = fd (VfdCache st i) \<and> seek_pos (VfdCache st3 i) = seek_pos (VfdCache st i))"
    proof (intro allI impI)
      fix i assume "i < SizeVfdCache st"
      then have "same_slot (VfdCache st i) (VfdCache st1 i)" using g by (simp add: grown_def)
      then show "filename (VfdCache st3 i) = filename (VfdCache st i) \<and> file_flags (VfdCache st3 i) = file_flags (VfdCache st i) \<and>
        (fd (VfdCache st3 i) \<noteq> -1 \<longrightarrow> fd (VfdCache st3 i) = fd (VfdCache st i) \<and> seek_pos (VfdCache st3 i) = seek_pos (VfdCache st i))"
        using fn3 [of i] by (auto simp: same_slot_def)
    qed
    show "0 \<le> d \<and> d < 32768 \<and> d \<in> fds (os st3) \<and> d \<notin> (\<lambda>i. fd (VfdCache st3 i)) ` set (drop n2 (drop n1 lru)) \<and> pos (os st3) d = 0 \<and>
       nm (os st3) = (nm (os st))(d := name) \<and> opens (files (os st)) name flags (files (os st3)) \<and> ext_fds fds st3 \<subseteq> Set.insert d base \<or>
     d = -1 \<and> nm (os st3) = nm (os st) \<and> files (os st3) = files (os st) \<and> ext_fds fds st3 \<subseteq> base \<and>
       (files (os st) name \<noteq> None \<longrightarrow> flags AND O_EXCL \<noteq> 0)" 
      using o(4) k3(4) k3(1) nms ext3 by (auto simp: keeps_def)
  qed (use a(7-9) sz3 fn3 in simp_all)
qed

text \<open>The invariant after a slot was filled or given back.\<close>

lemma vf_opened:
  assumes fs: "vf_ok fds pos ok nm base st lru fr \<or> vfd_init ok st \<and> fds (os st) \<subseteq> base \<and> lru = [] \<and> fr = []"
    and v: "vfd_ok fds ok st' lru' fr'" and ext: "ext_fds fds st' \<subseteq> base" and so: "same_others pos st st' e" "set lru' \<subseteq> Set.insert e (set lru)"
    and old: "\<And>i. i < SizeVfdCache st \<Longrightarrow> i \<noteq> e \<Longrightarrow> filename (VfdCache st' i) = filename (VfdCache st i) \<and>
       file_flags (VfdCache st' i) = file_flags (VfdCache st i) \<and>
       (fd (VfdCache st' i) \<noteq> -1 \<longrightarrow> fd (VfdCache st' i) = fd (VfdCache st i) \<and> seek_pos (VfdCache st' i) = seek_pos (VfdCache st i))"
    and new: "\<And>i. SizeVfdCache st \<le> i \<Longrightarrow> i < SizeVfdCache st' \<Longrightarrow> i \<noteq> e \<Longrightarrow> filename (VfdCache st' i) = None"
    and nm: "\<And>i. i \<in> set lru' \<Longrightarrow> i \<noteq> e \<Longrightarrow> nm (os st') (fd (VfdCache st' i)) = nm (os st) (fd (VfdCache st' i))"
    and e: "e \<in> set lru' \<Longrightarrow> filename (VfdCache st' e) = Some (nm (os st') (fd (VfdCache st' e))) \<and> seek_pos (VfdCache st' e) = pos (os st') (fd (VfdCache st' e))"
      "filename (VfdCache st' e) \<noteq> None \<Longrightarrow> file_flags (VfdCache st' e) AND O_TRUNC = 0 \<and> file_flags (VfdCache st' e) AND O_EXCL = 0"
  shows "vf_ok fds pos ok nm base st' lru' fr'" "\<forall>i. i \<noteq> e \<longrightarrow> same_view pos st st' i"
proof -
  have core': "vfd_core fds ok st' lru' fr'" using v by (simp add: vfd_ok_def)
  have "filename (VfdCache st' i) = Some (nm (os st') (fd (VfdCache st' i))) \<and>
      (seek_pos (VfdCache st' i) = -1 \<or> seek_pos (VfdCache st' i) = pos (os st') (fd (VfdCache st' i)))" if i: "i \<in> set lru'" for i
  proof (cases "i = e")
    case False
    then have il: "i \<in> set lru" using i so(2) by blast
    then have vf: "vf_ok fds pos ok nm base st lru fr" using fs by auto
    have op: "0 < i" "i < SizeVfdCache st" "fd (VfdCache st' i) \<noteq> -1" using vfd_core_range [OF vf_core [OF vf] il] core_closed [OF core' i] by auto
    have lp: "lpos pos st' i = lpos pos st i" using so(1) op False by (simp add: same_others_def)
    note o = old [OF op(2) False]
    have "pos (os st') (fd (VfdCache st' i)) = pos (os st) (fd (VfdCache st i))" using lp op(3) o by (simp add: lpos_def)
    then show ?thesis using vf il o op(3) nm [OF i False] by (simp add: vf_ok_def)
  qed (use e(1) i in auto)
  moreover have "file_flags (VfdCache st' i) AND O_TRUNC = 0 \<and> file_flags (VfdCache st' i) AND O_EXCL = 0"
    if i: "i < SizeVfdCache st'" "filename (VfdCache st' i) \<noteq> None" for i
  proof (cases "i = e")
    case False
    then have sz: "i < SizeVfdCache st" using new [OF _ i(1)] i(2) by (meson not_le)
    then have "vf_ok fds pos ok nm base st lru fr" using fs by (auto simp: vfd_init_def)
    then show ?thesis using old [OF sz False] i(2) sz by (simp add: vf_ok_def)
  qed (use e(2) i in auto)
  ultimately show "vf_ok fds pos ok nm base st' lru' fr'" using v ext by (simp add: vf_ok_def)
  show "\<forall>i. i \<noteq> e \<longrightarrow> same_view pos st st' i"
  proof (intro allI impI)
    fix i assume ie: "i \<noteq> e"
    show "same_view pos st st' i"
    proof (cases "SizeVfdCache st = 0")
      case True
      then show ?thesis using new [OF _ _ ie] by (auto simp: same_view_def FILE_IS_VALID_def)
    next
      case False
      then have "vfd_core fds ok st lru fr" using fs vf_core by (auto simp: vfd_init_def)
      then show ?thesis by (rule others_view [OF _ so(1) ie]) (use new ie old in auto)
    qed
  qed
qed

text \<open>The slot the new file has was free before.\<close>

lemma open_aux_files:
  assumes fs: "fs_ok fds pos ok nm base st" and mem: "\<And>w n. fst (k_malloc k w n)" and lim: "pg_nofile k = Inr limit" and tr: "flags AND O_TRUNC = 0"
  shows "\<exists>r st'. file_name_open_file_aux k st name flags mode = Inr (r, st') \<and> fs_ok fds pos ok nm base st' \<and>
    (r = -1 \<and> files (os st') = files (os st) \<and> (files (os st) name \<noteq> None \<longrightarrow> flags AND O_EXCL \<noteq> 0) \<and> (\<forall>i. same_view pos st st' i) \<or>
     (\<exists>e. r = int e \<and> \<not> FILE_IS_VALID st e \<and> FILE_IS_VALID st' e \<and> fname st' e = name \<and> lpos pos st' e = 0 \<and> known st' e \<and> \<not> temp st' e \<and>
        opens (files (os st)) name flags (files (os st')) \<and> (\<forall>i. i \<noteq> e \<longrightarrow> same_view pos st st' i)))"
proof -
  obtain lru fr where fs': "vf_ok fds pos ok nm base st lru fr \<or> vfd_init ok st \<and> fds (os st) \<subseteq> base \<and> lru = [] \<and> fr = []"
    using fs by (auto simp: fs_ok_def)
  obtain e st1 st2 d st3 lru' fr' where a: "allocate_vfd k st = Inr (e, st1)" "release_excess k limit st1 = Inr st2"
    "basic_open_file k st2 name flags mode = Inr (d, st3)" "vfd_core fds ok st3 lru' fr'" "set lru' \<subseteq> set lru" "same_others pos st st3 0"
    "e \<notin> set lru'" "e \<notin> set fr'" "0 < e" "e < SizeVfdCache st3" "filename (VfdCache st3 e) = None"
    "\<forall>i \<in> {1..<SizeVfdCache st3}. filename (VfdCache st3 i) = None \<longrightarrow> i \<in> set (e # fr')"
    "\<forall>i. SizeVfdCache st \<le> i \<longrightarrow> i < SizeVfdCache st3 \<longrightarrow> filename (VfdCache st3 i) = None"
    "\<forall>i < SizeVfdCache st. filename (VfdCache st3 i) = filename (VfdCache st i) \<and> file_flags (VfdCache st3 i) = file_flags (VfdCache st i) \<and>
       (fd (VfdCache st3 i) \<noteq> -1 \<longrightarrow> fd (VfdCache st3 i) = fd (VfdCache st i) \<and> seek_pos (VfdCache st3 i) = seek_pos (VfdCache st i))"
    "0 \<le> d \<and> d < 32768 \<and> d \<in> fds (os st3) \<and> d \<notin> (\<lambda>i. fd (VfdCache st3 i)) ` set lru' \<and> pos (os st3) d = 0 \<and>
       nm (os st3) = (nm (os st))(d := name) \<and> opens (files (os st)) name flags (files (os st3)) \<and> ext_fds fds st3 \<subseteq> Set.insert d base \<or>
     d = -1 \<and> nm (os st3) = nm (os st) \<and> files (os st3) = files (os st) \<and> ext_fds fds st3 \<subseteq> base \<and>
       (files (os st) name \<noteq> None \<longrightarrow> flags AND O_EXCL \<noteq> 0)"
    by (rule open_prefix [OF fs' mem tr])
  have fd3: "fd (VfdCache st3 e) = -1" using a(4,7,10) core_open by blast
  show ?thesis
  proof (cases "d = -1")
    case True
    have "(VfdCache st3 e)\<lparr>fd := -1\<rparr> = VfdCache st3 e" using fd3 by (cases "VfdCache st3 e") simp
    then have "upd_vfd st3 e (\<lambda>v. v\<lparr>fd := -1\<rparr>) = st3" by (simp add: upd_vfd_def)
    then have run: "file_name_open_file_aux k st name flags mode = Inr (-1, free_vfd st3 e)"
      using a(1-3) lim True fd3 by (simp add: file_name_open_file_aux_def to_short_fd)
    let ?st = "free_vfd st3 e"
    have "vfd_core fds ok ?st lru' (e # fr')" by (rule free_vfd_ok [OF a(4,7-10)])
    then have vo: "vfd_ok fds ok ?st lru' (e # fr')" using a(12) by (auto simp: vfd_ok_def free_vfd_fields)
    have ex: "ext_fds fds ?st \<subseteq> base" using a(15) True by (simp add: ext_fds_def free_vfd_fields)
    have "lpos pos ?st i = lpos pos st3 i" for i by (simp add: lpos_def free_vfd_fields)
    then have so: "same_others pos st ?st e" using a(6) by (simp add: same_others_def free_vfd_fields)
    have sub: "set lru' \<subseteq> Set.insert e (set lru)" using a(5) by blast
    have nm': "nm (os ?st) = nm (os st)" "files (os ?st) = files (os st)" using a(15) True by (simp_all add: free_vfd_fields)
    have f: "vf_ok fds pos ok nm base ?st lru' (e # fr')" "\<forall>i. i \<noteq> e \<longrightarrow> same_view pos st ?st i"
      by (rule vf_opened [OF fs' vo ex so sub], use a(7,13,14) nm' in \<open>simp_all add: free_vfd_fields\<close>)+
    moreover have "\<not> FILE_IS_VALID st e" "\<not> FILE_IS_VALID ?st e" using a(10,11,14) by (auto simp: FILE_IS_VALID_def free_vfd_fields)
    then have "same_view pos st ?st e" by (simp add: same_view_def)
    ultimately have "\<forall>i. same_view pos st ?st i" "fs_ok fds pos ok nm base ?st" by (auto simp: fs_ok_def)
    then show ?thesis using run nm'(2) a(15) True by (intro exI [of _ "-1"] exI [of _ ?st]) simp
  next
    case False
    then have d: "0 \<le> d" "d < 32768" "d \<in> fds (os st3)" "d \<notin> (\<lambda>i. fd (VfdCache st3 i)) ` set lru'" "pos (os st3) d = 0"
       "nm (os st3) = (nm (os st))(d := name)" "opens (files (os st)) name flags (files (os st3))" "ext_fds fds st3 \<subseteq> Set.insert d base"
      using a(15) by auto
    define st4 where "st4 = (upd_vfd st3 e (\<lambda>v. v\<lparr>fd := d\<rparr>))\<lparr>NFile := NFile st3 + 1\<rparr>"
    define st5 where "st5 = vfd_link st4 0 e"
    obtain b w where m: "k_malloc k (os st5) (length name + 1) = (b, w)" by fastforce
    have "ok (os st5)" using a(4) by (simp add: st5_def st4_def vfd_core_def)
    then have w: "ok w" "fds w = fds (os st3)" "pos w = pos (os st3)" "nm w = nm (os st3)" "files w = files (os st3)"
      using malloc_frame [OF _ m] malloc_files [OF m] by (auto simp: st5_def st4_def)
    have b using mem [of "os st5" "length name + 1"] m by simp
    define st' where "st' = upd_vfd (st5\<lparr>os := w\<rparr>) e
      (\<lambda>v. v\<lparr>filename := Some name, file_flags := flags AND NOT (O_CREAT OR O_TRUNC OR O_EXCL),
            file_mode := mode, seek_pos := 0, fdstate := (if flags AND O_CREAT \<noteq> 0 then FD_DIRTY else 0)\<rparr>)"
    have sh: "(upd_vfd st3 e (\<lambda>v. v\<lparr>fd := to_short d\<rparr>))\<lparr>NFile := NFile (upd_vfd st3 e (\<lambda>v. v\<lparr>fd := to_short d\<rparr>)) + 1\<rparr> = st4"
      using d by (simp add: to_short_fd st4_def)
    have run: "file_name_open_file_aux k st name flags mode = Inr (int e, st')"
    proof -
      have start: "file_name_open_file_aux k st name flags mode = (let st4 = upd_vfd st3 e (\<lambda>v. v\<lparr>fd := to_short d\<rparr>)
         in if fd (VfdCache st4 e) < 0 then Inr (-1, free_vfd st4 e)
            else cbind (insert_vfd (st4\<lparr>NFile := NFile st4 + 1\<rparr>) e) (\<lambda>st5.
              case k_malloc k (os st5) (length name + 1) of (available, o') \<Rightarrow>
                if \<not> available then Inl Elog_FATAL
                else let st6 = upd_vfd (st5\<lparr>os := o'\<rparr>) e
                           (\<lambda>v. v\<lparr>filename := Some name, file_flags := flags AND NOT (O_CREAT OR O_TRUNC OR O_EXCL),
                                 file_mode := mode, seek_pos := 0,
                                 fdstate := (if flags AND O_CREAT \<noteq> 0 then FD_DIRTY else 0)\<rparr>)
                     in Inr (int e, st6)))"
        using a(1-3) lim by (simp add: file_name_open_file_aux_def)
      show ?thesis unfolding start Let_def sh using d a(9) m \<open>b\<close> by (simp add: insert_vfd_link to_short_fd st5_def st'_def)
    qed
    have "vfd_core fds ok st5 (lru' @ [e]) fr'"
      unfolding st5_def by (rule vfd_core_attach [OF a(4,7-9) _ d(1)])
        (use d a(4,10) in \<open>simp_all add: st4_def more_def less_def fun_eq_iff vfd_core_def\<close>)
    then have "vfd_core fds ok (st5\<lparr>os := w\<rparr>) (lru' @ [e]) fr'" using w by (intro vfd_core_os) (auto simp: st5_def st4_def)
    then have c': "vfd_core fds ok st' (lru' @ [e]) fr'"
      by (rule vfd_core_cong) (use a(8) in \<open>auto simp: st'_def more_def less_def fun_eq_iff\<close>)
    then have vo: "vfd_ok fds ok st' (lru' @ [e]) fr'" using a(12) by (auto simp: vfd_ok_def st'_def st5_def st4_def)
    have g: "fd (VfdCache st' i) = (if i = e then d else fd (VfdCache st3 i))" "seek_pos (VfdCache st' i) = (if i = e then 0 else seek_pos (VfdCache st3 i))"
      "filename (VfdCache st' i) = (if i = e then Some name else filename (VfdCache st3 i))" "os st' = w" "SizeVfdCache st' = SizeVfdCache st3"
      "file_flags (VfdCache st' i) = (if i = e then flags AND NOT (O_CREAT OR O_TRUNC OR O_EXCL) else file_flags (VfdCache st3 i))" for i
      by (simp_all add: st'_def st5_def st4_def)
    have ex: "ext_fds fds st' \<subseteq> base"
    proof
      fix x assume x: "x \<in> ext_fds fds st'"
      then have "x \<in> fds w" "x \<noteq> d" and i: "\<And>i. i < SizeVfdCache st3 \<Longrightarrow> x \<noteq> fd (VfdCache st' i)" using a(10) g(1) [of e] by (auto simp: ext_fds_def g(4,5))
      moreover have "x \<noteq> fd (VfdCache st3 j)" if "j < SizeVfdCache st3" for j
        using i [OF that] fd3 fds_nonneg [OF w(1) \<open>x \<in> fds w\<close>] by (cases "j = e") (auto simp: g(1))
      ultimately have "x \<in> ext_fds fds st3" using w(2) by (auto simp: ext_fds_def)
      then show "x \<in> base" using d(8) \<open>x \<noteq> d\<close> by blast
    qed
    have lp: "lpos pos st' i = lpos pos st3 i" if "i < SizeVfdCache st3" "i \<noteq> e" for i using that by (simp add: lpos_def g w)
    have so: "same_others pos st st' e" using a(6) lp by (auto simp: same_others_def st'_def st5_def st4_def)
    have sub: "set (lru' @ [e]) \<subseteq> Set.insert e (set lru)" using a(5) by auto
    have ne: "fd (VfdCache st' i) \<noteq> d" if "i \<in> set (lru' @ [e])" "i \<noteq> e" for i using that d(4) by (auto simp: g(1))
    have fl: "(flags AND NOT (O_CREAT OR O_TRUNC OR O_EXCL)) AND O_TRUNC = 0" "(flags AND NOT (O_CREAT OR O_TRUNC OR O_EXCL)) AND O_EXCL = 0"
      by (rule bit_eqI, auto simp: bit_simps)+
    have f: "vf_ok fds pos ok nm base st' (lru' @ [e]) fr'" "\<forall>i. i \<noteq> e \<longrightarrow> same_view pos st st' i"
      by (rule vf_opened [OF fs' vo ex so sub], use a(13,14) ne w d fl in \<open>simp_all add: g\<close>)+
    have "\<not> FILE_IS_VALID st e" "FILE_IS_VALID st' e" using a(9-11,14) by (auto simp: FILE_IS_VALID_def g)
    moreover have "fname st' e = name" "lpos pos st' e = 0" "known st' e" "\<not> temp st' e"
      using d(1,5) w(3) by (simp_all add: fname_def lpos_def known_def g) (simp add: temp_def st'_def)
    moreover have "opens (files (os st)) name flags (files (os st'))" using d(7) w(5) by (simp add: g)
    ultimately show ?thesis using run f by (intro exI [of _ "int e"] exI [of _ st']) (auto simp: fs_ok_def)
  qed
qed

end

end
