(* ===== verification/FileLayer.thy ===== *)
theory FileLayer
  imports FdFiles
begin

text \<open>
  The interface fd.c offers to the storage manager: files that stay open, whatever happens to their descriptors. \<open>fview\<close>
  is what a client knows of an open file, \<open>file_layer\<close> states what each operation does to it and to the contents of files;
  the model of fd.c provides it over every kernel of \<open>posix_files\<close>.
\<close>

section \<open>The interface\<close>

text \<open>The file, the position, whether fd.c knows the position, and whether the file is removed when it is closed.\<close>

record fview =
  v_name :: string
  v_loc :: int
  v_sure :: bool
  v_tmp :: bool

record 's file_ops =
  f_open :: "'s \<Rightarrow> string \<Rightarrow> int \<Rightarrow> int \<Rightarrow> (int \<times> 's) cres"
  f_close :: "'s \<Rightarrow> nat \<Rightarrow> 's cres"
  f_unlink :: "'s \<Rightarrow> nat \<Rightarrow> 's cres"
  f_seek :: "'s \<Rightarrow> nat \<Rightarrow> int \<Rightarrow> int \<Rightarrow> (int \<times> 's) cres"
  f_read :: "'s \<Rightarrow> nat \<Rightarrow> int \<Rightarrow> (int \<times> byte list \<times> 's) cres"
  f_write :: "'s \<Rightarrow> nat \<Rightarrow> byte list \<Rightarrow> (int \<times> 's) cres"
  f_truncate :: "'s \<Rightarrow> nat \<Rightarrow> int \<Rightarrow> (int \<times> 's) cres"
  f_sync :: "'s \<Rightarrow> nat \<Rightarrow> (int \<times> 's) cres"
  f_mark_dirty :: "'s \<Rightarrow> nat \<Rightarrow> 's cres"
  f_basic_open :: "'s \<Rightarrow> string \<Rightarrow> int \<Rightarrow> int \<Rightarrow> (int \<times> 's) cres"
  f_lseek_fd :: "'s \<Rightarrow> int \<Rightarrow> int \<Rightarrow> int \<Rightarrow> int \<times> 's"
  f_write_fd :: "'s \<Rightarrow> int \<Rightarrow> byte list \<Rightarrow> int \<times> 's"
  f_fsync_fd :: "'s \<Rightarrow> int \<Rightarrow> int \<times> 's"
  f_close_fd :: "'s \<Rightarrow> int \<Rightarrow> int \<times> 's"

text \<open>As before, except that the position may have become known.\<close>

definition fv_le :: "fview option \<Rightarrow> fview option \<Rightarrow> bool" where
  "fv_le a b = (case a of None \<Rightarrow> b = None | Some v \<Rightarrow> b = Some v \<or> \<not> v_sure v \<and> b = Some (v\<lparr>v_sure := True\<rparr>))"

lemma fv_le_refl [simp]: "fv_le a a"
  by (cases a) (simp_all add: fv_le_def)

lemma fv_le_trans: "fv_le a b \<Longrightarrow> fv_le b c \<Longrightarrow> fv_le a c"
  by (auto simp: fv_le_def split: option.splits)

lemma fv_le_None [simp]: "fv_le None b \<longleftrightarrow> b = None"
  by (simp add: fv_le_def)

lemma fv_le_Some: "fv_le (Some v) b \<longleftrightarrow> (\<exists>v'. b = Some v' \<and> v_name v' = v_name v \<and> v_loc v' = v_loc v \<and> v_tmp v' = v_tmp v \<and> (v_sure v \<longrightarrow> v_sure v'))"
proof (cases b)
  case (Some w)
  then show ?thesis by (cases v; cases w) (auto simp: fv_le_def)
qed (simp add: fv_le_def)

text \<open>File \<open>e\<close> is now as in \<open>v\<close>, the others as before.\<close>

definition fv_upd :: "(nat \<Rightarrow> fview option) \<Rightarrow> (nat \<Rightarrow> fview option) \<Rightarrow> nat \<Rightarrow> fview option \<Rightarrow> bool" where
  "fv_upd vs vs' e v \<longleftrightarrow> (\<forall>i. i \<noteq> e \<longrightarrow> fv_le (vs i) (vs' i)) \<and> fv_le v (vs' e)"

text \<open>A position from which a transfer is possible.\<close>

definition in_range :: "fview \<Rightarrow> bool" where
  "in_range v \<longleftrightarrow> 0 \<le> v_loc v \<and> v_loc v < 2 ^ 31 - 1"

locale file_layer =
  fixes F :: "'s file_ops" and inv :: "'s \<Rightarrow> bool" and vw :: "'s \<Rightarrow> nat \<Rightarrow> fview option" and disk :: "'s \<Rightarrow> string \<rightharpoonup> byte list"
  assumes open_law: "inv s \<Longrightarrow> fl AND O_TRUNC = 0 \<Longrightarrow> \<exists>r s'. f_open F s (CHR ''/'' # n) fl m = Inr (r, s') \<and> inv s' \<and>
      (r = -1 \<and> disk s' = disk s \<and> (disk s (CHR ''/'' # n) \<noteq> None \<longrightarrow> fl AND O_EXCL \<noteq> 0) \<and> (\<forall>i. fv_le (vw s i) (vw s' i)) \<or>
       (\<exists>e. r = int e \<and> vw s e = None \<and> opens (disk s) (CHR ''/'' # n) fl (disk s') \<and>
          fv_upd (vw s) (vw s') e (Some \<lparr>v_name = CHR ''/'' # n, v_loc = 0, v_sure = True, v_tmp = False\<rparr>)))"
    and close_law: "inv s \<Longrightarrow> vw s e = Some v \<Longrightarrow> \<not> v_tmp v \<Longrightarrow>
      \<exists>s'. f_close F s e = Inr s' \<and> inv s' \<and> disk s' = disk s \<and> fv_upd (vw s) (vw s') e None"
    and unlink_law: "inv s \<Longrightarrow> vw s e = Some v \<Longrightarrow>
      \<exists>s'. f_unlink F s e = Inr s' \<and> inv s' \<and> (disk s' = disk s \<or> disk s' = (disk s)(v_name v := None)) \<and> fv_upd (vw s) (vw s') e None"
    and seek_set_law: "inv s \<Longrightarrow> vw s e = Some v \<Longrightarrow> 0 \<le> p \<Longrightarrow>
      \<exists>s'. f_seek F s e p SEEK_SET = Inr (p, s') \<and> inv s' \<and> disk s' = disk s \<and> fv_upd (vw s) (vw s') e (Some (v\<lparr>v_loc := p, v_sure := True\<rparr>))"
    and seek_end_law: "inv s \<Longrightarrow> vw s e = Some v \<Longrightarrow> in_range v \<Longrightarrow> disk s (v_name v) = Some bs \<Longrightarrow>
      \<exists>s'. f_seek F s e 0 SEEK_END = Inr (int (length bs), s') \<and> inv s' \<and> disk s' = disk s \<and>
        fv_upd (vw s) (vw s') e (Some (v\<lparr>v_loc := int (length bs), v_sure := True\<rparr>))"
    and read_law: "inv s \<Longrightarrow> vw s e = Some v \<Longrightarrow> in_range v \<Longrightarrow> v_sure v \<Longrightarrow> disk s (v_name v) = Some bs \<Longrightarrow> 0 \<le> n' \<Longrightarrow>
      \<exists>r bytes s'. f_read F s e n' = Inr (r, bytes, s') \<and> inv s' \<and> disk s' = disk s \<and>
        (r = -1 \<and> fv_upd (vw s) (vw s') e (Some (v\<lparr>v_sure := False\<rparr>)) \<or>
         0 \<le> r \<and> r \<le> n' \<and> bytes = take (nat r) (drop (nat (v_loc v)) bs) \<and> length bytes = nat r \<and> (r = 0 \<and> 0 < n' \<longrightarrow> length bs \<le> nat (v_loc v)) \<and>
         fv_upd (vw s) (vw s') e (Some (v\<lparr>v_loc := v_loc v + r, v_sure := 0 < r\<rparr>)))"
    and write_law: "inv s \<Longrightarrow> vw s e = Some v \<Longrightarrow> in_range v \<Longrightarrow> v_sure v \<Longrightarrow> disk s (v_name v) = Some bs \<Longrightarrow>
      \<exists>r s'. f_write F s e data = Inr (r, s') \<and> inv s' \<and>
        (r = -1 \<and> disk s' = disk s \<and> fv_upd (vw s) (vw s') e (Some (v\<lparr>v_sure := False\<rparr>)) \<or>
         0 \<le> r \<and> r \<le> int (length data) \<and> disk s' = (disk s)(v_name v \<mapsto> write_at bs (nat (v_loc v)) (take (nat r) data)) \<and>
         fv_upd (vw s) (vw s') e (Some (v\<lparr>v_loc := v_loc v + r, v_sure := 0 < r\<rparr>)))"
    and truncate_law: "inv s \<Longrightarrow> vw s e = Some v \<Longrightarrow> in_range v \<Longrightarrow> disk s (v_name v) = Some bs \<Longrightarrow> 0 \<le> p \<Longrightarrow>
      \<exists>r s'. f_truncate F s e p = Inr (r, s') \<and> inv s' \<and> (\<forall>i. fv_le (vw s i) (vw s' i)) \<and>
        (r < 0 \<and> disk s' = disk s \<or> r = 0 \<and> disk s' = (disk s)(v_name v \<mapsto> trunc_to bs (nat p)))"
    and sync_law: "inv s \<Longrightarrow> vw s e = Some v \<Longrightarrow> in_range v \<Longrightarrow> disk s (v_name v) \<noteq> None \<Longrightarrow>
      \<exists>r s'. f_sync F s e = Inr (r, s') \<and> inv s' \<and> disk s' = disk s \<and> (\<forall>i. fv_le (vw s i) (vw s' i))"
    and mark_dirty_law: "inv s \<Longrightarrow> vw s e = Some v \<Longrightarrow>
      \<exists>s'. f_mark_dirty F s e = Inr s' \<and> inv s' \<and> disk s' = disk s \<and> (\<forall>i. fv_le (vw s i) (vw s' i))"

section \<open>fd.c provides it\<close>

text \<open>A system call on a descriptor, in the state of fd.c.\<close>

definition on_os :: "('o \<Rightarrow> 'a \<times> 'o) \<Rightarrow> 'o fd_globals \<Rightarrow> 'a \<times> 'o fd_globals" where
  "on_os f st = (case f (os st) of (r, o') \<Rightarrow> (r, st\<lparr>os := o'\<rparr>))"

definition fd_ops :: "'o kernel \<Rightarrow> string \<Rightarrow> int \<Rightarrow> 'o fd_globals file_ops" where
  "fd_ops k DatabasePath indet = \<lparr>f_open = file_name_open_file k DatabasePath, f_close = file_close k, f_unlink = file_unlink k, f_seek = file_seek k,
     f_read = file_read k, f_write = file_write k, f_truncate = file_truncate k indet, f_sync = file_sync k indet, f_mark_dirty = file_mark_dirty,
     f_basic_open = basic_open_file k, f_lseek_fd = (\<lambda>st d off wh. on_os (\<lambda>w. k_lseek k w d off wh) st),
     f_write_fd = (\<lambda>st d bytes. on_os (\<lambda>w. k_write k w d bytes) st), f_fsync_fd = pg_fsync k,
     f_close_fd = (\<lambda>st d. on_os (\<lambda>w. k_close k w d) st)\<rparr>"

definition fd_view :: "('o \<Rightarrow> int \<Rightarrow> int) \<Rightarrow> 'o fd_globals \<Rightarrow> nat \<Rightarrow> fview option" where
  "fd_view pos st i =
     (if FILE_IS_VALID st i then Some \<lparr>v_name = fname st i, v_loc = lpos pos st i, v_sure = known st i, v_tmp = temp st i\<rparr> else None)"

lemma same_view_le: "same_view pos st st' i \<Longrightarrow> fv_le (fd_view pos st i) (fd_view pos st' i)"
  by (auto simp: same_view_def fd_view_def fv_le_Some)

lemma fd_view_Some: "fd_view pos st e = Some v \<longleftrightarrow> FILE_IS_VALID st e \<and> v_name v = fname st e \<and> v_loc v = lpos pos st e \<and> v_sure v = known st e \<and> v_tmp v = temp st e"
  by (cases v) (auto simp: fd_view_def)

lemma moved_upd:
  assumes m: "moved pos st st' e p kn" and v: "fd_view pos st e = Some v"
  shows "fv_upd (fd_view pos st) (fd_view pos st') e (Some (v\<lparr>v_loc := p, v_sure := kn\<rparr>))"
proof -
  have "fv_le (fd_view pos st i) (fd_view pos st' i)" if "i \<noteq> e" for i using m that by (intro same_view_le) (simp add: moved_def)
  moreover have eq: "fd_view pos st' e = Some \<lparr>v_name = fname st e, v_loc = p, v_sure = known st' e, v_tmp = temp st e\<rparr>"
    using m by (simp add: moved_def fd_view_def)
  have "v_name v = fname st e" "v_tmp v = temp st e" using v by (simp_all add: fd_view_Some)
  then have "fv_le (Some (v\<lparr>v_loc := p, v_sure := kn\<rparr>)) (fd_view pos st' e)" unfolding eq using m by (simp add: fv_le_Some moved_def)
  ultimately show ?thesis by (simp add: fv_upd_def)
qed

locale posix_memory = posix_files k fds pos ok files nm base
  for k :: "'o kernel" and fds pos ok files nm base +
  fixes limit :: int
  assumes mem: "fst (k_malloc k w n)" and lim: "pg_nofile k = Inr limit"
begin

lemma fs_vf:
  assumes "fs_ok fds pos ok nm base st" "FILE_IS_VALID st e"
  obtains lru fr where "vf_ok fds pos ok nm base st lru fr"
  using assms by (auto simp: fs_ok_def FILE_IS_VALID_def vfd_init_def)

lemma vf_fs: "vf_ok fds pos ok nm base st lru fr \<Longrightarrow> fs_ok fds pos ok nm base st"
  by (auto simp: fs_ok_def)

lemma fs_os:
  assumes "fs_ok fds pos ok nm base st" "k_malloc k (os st) sz = (b, w)"
  shows "fs_ok fds pos ok nm base (st\<lparr>os := w\<rparr>) \<and> files w = files (os st) \<and> (\<forall>i. same_view pos st (st\<lparr>os := w\<rparr>) i)"
proof -
  have okw: "ok (os st)" using assms(1) core_ok [OF vf_core] by (auto simp: fs_ok_def vfd_init_def)
  have w: "ok w" "fds w = fds (os st)" "pos w = pos (os st)" "files w = files (os st)" "nm w = nm (os st)"
    using malloc_frame [OF okw assms(2)] malloc_files [OF assms(2)] by simp_all
  have "same_view pos st (st\<lparr>os := w\<rparr>) i" for i using w by (simp add: same_view_def FILE_IS_VALID_def fname_def lpos_def known_def temp_def)
  moreover have "fs_ok fds pos ok nm base (st\<lparr>os := w\<rparr>)" using assms(1) unfolding fs_ok_def
  proof (elim disjE exE)
    fix lru fr assume "vf_ok fds pos ok nm base st lru fr"
    from os_frame(1) [OF this w(1,2,5,3)] show "(\<exists>lru fr. vf_ok fds pos ok nm base (st\<lparr>os := w\<rparr>) lru fr) \<or> vfd_init ok (st\<lparr>os := w\<rparr>) \<and> fds (os (st\<lparr>os := w\<rparr>)) \<subseteq> base"
      by blast
  qed (simp add: vfd_init_def w)
  ultimately show ?thesis using w(4) by blast
qed

lemma usable_in_range: "fd_view pos st e = Some v \<Longrightarrow> in_range v \<Longrightarrow> files (os st) (v_name v) \<noteq> None \<Longrightarrow> usable pos files st e"
  by (simp add: fd_view_Some usable_def in_range_def)

end

sublocale posix_memory \<subseteq> fdf: file_layer "fd_ops k dp indet" "fs_ok fds pos ok nm base" "fd_view pos" "\<lambda>st. files (os st)"
proof unfold_locales
  fix st e v p bs n' data fl m n
  assume fs: "fs_ok fds pos ok nm base st"
  show "\<exists>r s'. f_open (fd_ops k dp indet) st (CHR ''/'' # n) fl m = Inr (r, s') \<and> fs_ok fds pos ok nm base s' \<and>
      (r = -1 \<and> files (os s') = files (os st) \<and> (files (os st) (CHR ''/'' # n) \<noteq> None \<longrightarrow> fl AND O_EXCL \<noteq> 0) \<and> (\<forall>i. fv_le (fd_view pos st i) (fd_view pos s' i)) \<or>
       (\<exists>e. r = int e \<and> fd_view pos st e = None \<and> opens (files (os st)) (CHR ''/'' # n) fl (files (os s')) \<and>
          fv_upd (fd_view pos st) (fd_view pos s') e (Some \<lparr>v_name = CHR ''/'' # n, v_loc = 0, v_sure = True, v_tmp = False\<rparr>)))"
    if tr: "fl AND O_TRUNC = 0"
  proof -
    let ?n = "CHR ''/'' # n"
    obtain b w where a: "k_malloc k (os st) (length ?n + 1) = (b, w)" by fastforce
    have b using mem [of "os st" "length ?n + 1"] a by simp
    let ?s = "st\<lparr>os := w\<rparr>"
    have f: "filepath k dp st ?n = Inr ((?n, Palloced), ?s)" using a \<open>b\<close> by (simp add: filepath_def)
    note o = fs_os [OF fs a]
    obtain r s' where r: "file_name_open_file_aux k ?s ?n fl m = Inr (r, s')" "fs_ok fds pos ok nm base s'"
      "r = -1 \<and> files (os s') = files (os ?s) \<and> (files (os ?s) ?n \<noteq> None \<longrightarrow> fl AND O_EXCL \<noteq> 0) \<and> (\<forall>i. same_view pos ?s s' i) \<or>
       (\<exists>e. r = int e \<and> \<not> FILE_IS_VALID ?s e \<and> FILE_IS_VALID s' e \<and> fname s' e = ?n \<and> lpos pos s' e = 0 \<and> known s' e \<and> \<not> temp s' e \<and>
          opens (files (os ?s)) ?n fl (files (os s')) \<and> (\<forall>i. i \<noteq> e \<longrightarrow> same_view pos ?s s' i))"
      using open_aux_files [OF conjunct1 [OF o] mem lim tr, where name = ?n and mode = m] by (elim exE conjE) (rule that; assumption)
    have run: "f_open (fd_ops k dp indet) st ?n fl m = Inr (r, s')" using f r(1) by (simp add: fd_ops_def file_name_open_file_def pfree_name_def)
    have view: "fv_le (fd_view pos st i) (fd_view pos s' i)" if "same_view pos ?s s' i" for i
      by (rule fv_le_trans [OF same_view_le same_view_le [OF that]]) (use o in blast)
    from r(3) show ?thesis
    proof (elim disjE exE)
      assume c: "r = -1 \<and> files (os s') = files (os ?s) \<and> (files (os ?s) ?n \<noteq> None \<longrightarrow> fl AND O_EXCL \<noteq> 0) \<and> (\<forall>i. same_view pos ?s s' i)"
      then have "fv_le (fd_view pos st i) (fd_view pos s' i)" for i using view by blast
      then show ?thesis using run r(2) c o by (intro exI [of _ r] exI [of _ s']) simp
    next
      fix e
      assume c: "r = int e \<and> \<not> FILE_IS_VALID ?s e \<and> FILE_IS_VALID s' e \<and> fname s' e = ?n \<and> lpos pos s' e = 0 \<and> known s' e \<and> \<not> temp s' e \<and>
          opens (files (os ?s)) ?n fl (files (os s')) \<and> (\<forall>i. i \<noteq> e \<longrightarrow> same_view pos ?s s' i)"
      then have "fv_le (fd_view pos st i) (fd_view pos s' i)" if "i \<noteq> e" for i using view that by blast
      moreover have "fd_view pos st e = None" using c by (auto simp: fd_view_def FILE_IS_VALID_def)
      moreover have "fd_view pos s' e = Some \<lparr>v_name = ?n, v_loc = 0, v_sure = True, v_tmp = False\<rparr>" using c by (simp add: fd_view_def)
      ultimately show ?thesis using run r(2) c o unfolding fv_upd_def by (intro exI [of _ r] exI [of _ s']) auto
    qed
  qed
  assume v: "fd_view pos st e = Some v"
  then have e: "FILE_IS_VALID st e" "v_name v = fname st e" "v_loc v = lpos pos st e" "v_sure v = known st e" "v_tmp v = temp st e"
    by (simp_all add: fd_view_Some)
  obtain lru fr where vf: "vf_ok fds pos ok nm base st lru fr" by (rule fs_vf [OF fs e(1)])
  show "\<exists>s'. f_close (fd_ops k dp indet) st e = Inr s' \<and> fs_ok fds pos ok nm base s' \<and> files (os s') = files (os st) \<and>
      fv_upd (fd_view pos st) (fd_view pos s') e None" if "\<not> v_tmp v"
    using file_close_files [OF vf e(1)] that e(5) vf_fs same_view_le by (fastforce simp: fd_ops_def fv_upd_def fd_view_def)
  show "\<exists>s'. f_unlink (fd_ops k dp indet) st e = Inr s' \<and> fs_ok fds pos ok nm base s' \<and>
      (files (os s') = files (os st) \<or> files (os s') = (files (os st))(v_name v := None)) \<and> fv_upd (fd_view pos st) (fd_view pos s') e None"
    using file_unlink_files [OF vf e(1)] e(2) vf_fs same_view_le by (fastforce simp: fd_ops_def fv_upd_def fd_view_def)
  show "\<exists>s'. f_seek (fd_ops k dp indet) st e p SEEK_SET = Inr (p, s') \<and> fs_ok fds pos ok nm base s' \<and> files (os s') = files (os st) \<and>
      fv_upd (fd_view pos st) (fd_view pos s') e (Some (v\<lparr>v_loc := p, v_sure := True\<rparr>))" if "0 \<le> p"
    using file_seek_set [OF vf e(1) that] vf_fs moved_upd [OF _ v] by (fastforce simp: fd_ops_def)
  show "\<exists>s'. f_mark_dirty (fd_ops k dp indet) st e = Inr s' \<and> fs_ok fds pos ok nm base s' \<and> files (os s') = files (os st) \<and>
      (\<forall>i. fv_le (fd_view pos st i) (fd_view pos s' i))"
    using file_mark_dirty_files [OF vf e(1)] vf_fs same_view_le by (fastforce simp: fd_ops_def)
  assume rg: "in_range v"
  show "\<exists>r s'. f_sync (fd_ops k dp indet) st e = Inr (r, s') \<and> fs_ok fds pos ok nm base s' \<and> files (os s') = files (os st) \<and>
      (\<forall>i. fv_le (fd_view pos st i) (fd_view pos s' i))" if "files (os st) (v_name v) \<noteq> None"
    using file_sync_files [OF vf usable_in_range [OF v rg that] lim] vf_fs same_view_le by (fastforce simp: fd_ops_def)
  assume bs: "files (os st) (v_name v) = Some bs"
  have u: "usable pos files st e" using usable_in_range [OF v rg] bs by simp
  have bs': "files (os st) (fname st e) = Some bs" using bs e(2) by simp
  show "\<exists>s'. f_seek (fd_ops k dp indet) st e 0 SEEK_END = Inr (int (length bs), s') \<and> fs_ok fds pos ok nm base s' \<and> files (os s') = files (os st) \<and>
      fv_upd (fd_view pos st) (fd_view pos s') e (Some (v\<lparr>v_loc := int (length bs), v_sure := True\<rparr>))"
    using file_seek_end [OF vf u lim bs'] vf_fs moved_upd [OF _ v] by (fastforce simp: fd_ops_def)
  show "\<exists>r s'. f_truncate (fd_ops k dp indet) st e p = Inr (r, s') \<and> fs_ok fds pos ok nm base s' \<and> (\<forall>i. fv_le (fd_view pos st i) (fd_view pos s' i)) \<and>
      (r < 0 \<and> files (os s') = files (os st) \<or> r = 0 \<and> files (os s') = (files (os st))(v_name v \<mapsto> trunc_to bs (nat p)))" if "0 \<le> p"
    using file_truncate_files [OF vf u lim bs' that, of indet] vf_fs same_view_le by (fastforce simp: fd_ops_def e(2))
  assume sure: "v_sure v"
  then have kn: "known st e" using e(4) by simp
  show "\<exists>r bytes s'. f_read (fd_ops k dp indet) st e n' = Inr (r, bytes, s') \<and> fs_ok fds pos ok nm base s' \<and> files (os s') = files (os st) \<and>
      (r = -1 \<and> fv_upd (fd_view pos st) (fd_view pos s') e (Some (v\<lparr>v_sure := False\<rparr>)) \<or>
       0 \<le> r \<and> r \<le> n' \<and> bytes = take (nat r) (drop (nat (v_loc v)) bs) \<and> length bytes = nat r \<and> (r = 0 \<and> 0 < n' \<longrightarrow> length bs \<le> nat (v_loc v)) \<and>
       fv_upd (fd_view pos st) (fd_view pos s') e (Some (v\<lparr>v_loc := v_loc v + r, v_sure := 0 < r\<rparr>)))" if n0: "0 \<le> n'"
  proof -
    obtain r bytes s' lru' where r: "file_read k st e n' = Inr (r, bytes, s')" "vf_ok fds pos ok nm base s' lru' fr" "files (os s') = files (os st)"
      "r = -1 \<and> moved pos st s' e (lpos pos st e) False \<or>
       0 \<le> r \<and> r \<le> n' \<and> bytes = take (nat r) (drop (nat (lpos pos st e)) bs) \<and> length bytes = nat r \<and> (r = 0 \<and> 0 < n' \<longrightarrow> length bs \<le> nat (lpos pos st e)) \<and>
       moved pos st s' e (lpos pos st e + r) (0 < r)"
      using file_read_files [OF vf u kn lim bs' n0] by blast
    have up: "moved pos st s' e q kn \<Longrightarrow> fv_upd (fd_view pos st) (fd_view pos s') e (Some (v\<lparr>v_loc := q, v_sure := kn\<rparr>))" for q kn
      by (rule moved_upd [OF _ v])
    have fail: "v\<lparr>v_loc := lpos pos st e, v_sure := False\<rparr> = v\<lparr>v_sure := False\<rparr>" by (cases v) (use e(3) in simp)
    from r(4) show ?thesis
      by (intro exI [of _ r] exI [of _ bytes] exI [of _ s'] conjI, elim disjE)
        (use r(1-3) vf_fs up [of "lpos pos st e" False] up [of "lpos pos st e + r" "0 < r"] fail e(3) in \<open>auto simp: fd_ops_def\<close>)
  qed
  show "\<exists>r s'. f_write (fd_ops k dp indet) st e data = Inr (r, s') \<and> fs_ok fds pos ok nm base s' \<and>
      (r = -1 \<and> files (os s') = files (os st) \<and> fv_upd (fd_view pos st) (fd_view pos s') e (Some (v\<lparr>v_sure := False\<rparr>)) \<or>
       0 \<le> r \<and> r \<le> int (length data) \<and> files (os s') = (files (os st))(v_name v \<mapsto> write_at bs (nat (v_loc v)) (take (nat r) data)) \<and>
       fv_upd (fd_view pos st) (fd_view pos s') e (Some (v\<lparr>v_loc := v_loc v + r, v_sure := 0 < r\<rparr>)))"
  proof -
    obtain r s' lru' where r: "file_write k st e data = Inr (r, s')" "vf_ok fds pos ok nm base s' lru' fr"
      "r = -1 \<and> files (os s') = files (os st) \<and> moved pos st s' e (lpos pos st e) False \<or>
       0 \<le> r \<and> r \<le> int (length data) \<and> files (os s') = (files (os st))(fname st e \<mapsto> write_at bs (nat (lpos pos st e)) (take (nat r) data)) \<and>
       moved pos st s' e (lpos pos st e + r) (0 < r)"
      using file_write_files [OF vf u kn lim bs'] by blast
    have up: "moved pos st s' e q kn \<Longrightarrow> fv_upd (fd_view pos st) (fd_view pos s') e (Some (v\<lparr>v_loc := q, v_sure := kn\<rparr>))" for q kn
      by (rule moved_upd [OF _ v])
    have fail: "v\<lparr>v_loc := lpos pos st e, v_sure := False\<rparr> = v\<lparr>v_sure := False\<rparr>" by (cases v) (use e(3) in simp)
    from r(3) show ?thesis
      by (intro exI [of _ r] exI [of _ s'] conjI, elim disjE)
        (use r(1,2) vf_fs up [of "lpos pos st e" False] up [of "lpos pos st e + r" "0 < r"] fail e(2,3) in \<open>auto simp: fd_ops_def\<close>)
  qed
qed

section \<open>A concrete kernel with files\<close>

text \<open>Eight descriptors; every file fits; transfers are complete.\<close>

record file_kernel =
  kfiles :: "string \<rightharpoonup> byte list"
  kopen :: "int \<rightharpoonup> int"
  kname :: "int \<Rightarrow> string"

definition fk_open :: "file_kernel \<Rightarrow> string \<Rightarrow> int \<Rightarrow> int \<Rightarrow> int \<times> bool \<times> file_kernel" where
  "fk_open w n f m =
     (case lowest_free (kopen w) of None \<Rightarrow> (-1, True, w)
      | Some d \<Rightarrow>
          let w' = w\<lparr>kopen := (kopen w)(d \<mapsto> 0), kname := (kname w)(d := n)\<rparr>
          in case kfiles w n of
               None \<Rightarrow> if f AND O_CREAT = 0 then (-1, False, w) else (d, False, w'\<lparr>kfiles := (kfiles w)(n \<mapsto> [])\<rparr>)
             | Some bs \<Rightarrow> if f AND O_CREAT \<noteq> 0 \<and> f AND O_EXCL \<noteq> 0 then (-1, False, w)
                         else (d, False, if f AND O_TRUNC = 0 then w' else w'\<lparr>kfiles := (kfiles w)(n \<mapsto> [])\<rparr>))"

definition fk_lseek :: "file_kernel \<Rightarrow> int \<Rightarrow> int \<Rightarrow> int \<Rightarrow> int \<times> file_kernel" where
  "fk_lseek w d off wh =
     (case kopen w d of None \<Rightarrow> (-1, w)
      | Some p \<Rightarrow>
          let q = (if wh = SEEK_SET then 0 else if wh = SEEK_CUR then p
                   else case kfiles w (kname w d) of None \<Rightarrow> 0 | Some bs \<Rightarrow> int (length bs)) + off
          in if q < 0 then (-1, w) else (q, w\<lparr>kopen := (kopen w)(d \<mapsto> q)\<rparr>))"

definition fk_read :: "file_kernel \<Rightarrow> int \<Rightarrow> int \<Rightarrow> int \<times> byte list \<times> file_kernel" where
  "fk_read w d n =
     (case kopen w d of None \<Rightarrow> (-1, [], w)
      | Some p \<Rightarrow>
          let bytes = take (nat n) (drop (nat p) (case kfiles w (kname w d) of None \<Rightarrow> [] | Some bs \<Rightarrow> bs))
          in (int (length bytes), bytes, w\<lparr>kopen := (kopen w)(d \<mapsto> p + int (length bytes))\<rparr>))"

definition fk_write :: "file_kernel \<Rightarrow> int \<Rightarrow> byte list \<Rightarrow> int \<times> file_kernel" where
  "fk_write w d bytes =
     (case kopen w d of None \<Rightarrow> (-1, w)
      | Some p \<Rightarrow>
          let bs = (case kfiles w (kname w d) of None \<Rightarrow> [] | Some bs \<Rightarrow> bs)
          in (int (length bytes), w\<lparr>kfiles := (kfiles w)(kname w d \<mapsto> write_at bs (nat p) bytes), kopen := (kopen w)(d \<mapsto> p + int (length bytes))\<rparr>))"

definition fk_ftruncate :: "file_kernel \<Rightarrow> int \<Rightarrow> int \<Rightarrow> int \<times> file_kernel" where
  "fk_ftruncate w d n =
     (case kopen w d of None \<Rightarrow> (-1, w)
      | Some p \<Rightarrow> if n < 0 then (-1, w)
          else (0, w\<lparr>kfiles := (kfiles w)(kname w d \<mapsto> trunc_to (case kfiles w (kname w d) of None \<Rightarrow> [] | Some bs \<Rightarrow> bs) (nat n))\<rparr>))"

definition fk_kernel :: "file_kernel kernel" where
  "fk_kernel = \<lparr>k_open = fk_open, k_close = (\<lambda>w d. (0, w\<lparr>kopen := (kopen w)(d := None)\<rparr>)), k_lseek = fk_lseek, k_fsync = (\<lambda>w _. (0, w)),
     k_read = fk_read, k_write = fk_write, k_ftruncate = fk_ftruncate, k_unlink = (\<lambda>w n. w\<lparr>kfiles := (kfiles w)(n := None)\<rparr>),
     k_fopen = (\<lambda>w _ _. (0, False, w)), k_fclose = (\<lambda>w _. w), k_malloc = (\<lambda>w _. (True, w)), k_open_max = None\<rparr>"

definition fk_ok :: "file_kernel \<Rightarrow> bool" where
  "fk_ok w \<longleftrightarrow> (\<forall>d p. kopen w d = Some p \<longrightarrow> 0 \<le> d \<and> 0 \<le> p)"

definition fk_pos :: "file_kernel \<Rightarrow> int \<Rightarrow> int" where
  "fk_pos w d = (case kopen w d of None \<Rightarrow> 0 | Some p \<Rightarrow> p)"

definition fk_fds :: "file_kernel \<Rightarrow> int set" where
  "fk_fds w = dom (kopen w)"

lemma lowest_free_None: "lowest_free w = None \<Longrightarrow> w 0 \<noteq> None"
  by (simp add: lowest_free_def split: if_splits)

lemma fk_open_cases:
  assumes "fk_open w n f m = (d, t, w')"
  obtains "d = -1" "w' = w" "t \<longleftrightarrow> lowest_free (kopen w) = None"
    "\<not> t \<Longrightarrow> kfiles w n = None \<and> f AND O_CREAT = 0 \<or> kfiles w n \<noteq> None \<and> f AND O_CREAT \<noteq> 0 \<and> f AND O_EXCL \<noteq> 0"
  | bs where "lowest_free (kopen w) = Some d" "kopen w' = (kopen w)(d \<mapsto> 0)" "kname w' = (kname w)(d := n)"
    "kfiles w n = Some bs" "f AND O_CREAT = 0 \<or> f AND O_EXCL = 0" "f AND O_TRUNC = 0 \<Longrightarrow> kfiles w' = kfiles w"
  | "lowest_free (kopen w) = Some d" "kopen w' = (kopen w)(d \<mapsto> 0)" "kname w' = (kname w)(d := n)"
    "kfiles w n = None" "f AND O_CREAT \<noteq> 0" "kfiles w' = (kfiles w)(n \<mapsto> [])"
  using assms by (cases "lowest_free (kopen w)"; cases "kfiles w n"; cases "f AND O_CREAT = 0"; cases "f AND O_EXCL = 0"; cases "f AND O_TRUNC = 0")
    (auto simp: fk_open_def Let_def)

lemmas fk_defs = fk_kernel_def fk_ok_def fk_pos_def fk_fds_def

lemma fk_upd:
  assumes "fk_ok w" "kopen w d = Some p" "0 \<le> q" "kopen w' = (kopen w)(d \<mapsto> q)"
  shows "fk_ok w' \<and> fk_fds w' = fk_fds w \<and> fk_pos w' = (fk_pos w)(d := q)"
  using assms by (auto simp: fk_ok_def fk_fds_def fk_pos_def fun_eq_iff split: if_splits)

lemma fk_pos_Some: "kopen w d = Some p \<Longrightarrow> fk_pos w d = p"
  by (simp add: fk_pos_def)

interpretation fk: posix_memory fk_kernel fk_fds fk_pos fk_ok kfiles kname "{}" 246
proof unfold_locales
  fix w w' :: file_kernel and n f m d t
  assume okw: "fk_ok w" and o: "k_open fk_kernel w n f m = (d, t, w')"
  then have fo: "fk_open w n f m = (d, t, w')" by (simp add: fk_kernel_def)
  show "d < 32768 \<and> fk_ok w' \<and> d \<notin> fk_fds w \<and> fk_fds w' = Set.insert d (fk_fds w) \<and> fk_pos w' = (fk_pos w)(d := 0)" if "0 \<le> d"
  proof -
    have "lowest_free (kopen w) = Some d" "kopen w' = (kopen w)(d \<mapsto> 0)" using that by (rule_tac fk_open_cases [OF fo]; simp)+
    then show ?thesis using lowest_free [of "kopen w" d] okw by (auto simp: fk_ok_def fk_fds_def fk_pos_def)
  qed
  show "d = -1 \<and> fk_ok w' \<and> fk_fds w' = fk_fds w \<and> fk_pos w' = fk_pos w" if "d < 0"
    by (rule fk_open_cases [OF fo]) (use that okw lowest_free [of "kopen w" d] in auto)
  show "t \<and> \<not> fk_fds w \<subseteq> {}" if "kfiles w n \<noteq> None" "f AND O_EXCL = 0" "d < 0"
    by (rule fk_open_cases [OF fo]) (use that lowest_free [of "kopen w" d] lowest_free_None [of "kopen w"] in \<open>auto simp: fk_fds_def\<close>)
  show "kfiles w' = kfiles w" if "kfiles w n \<noteq> None" "f AND O_TRUNC = 0" "0 \<le> d"
    by (rule fk_open_cases [OF fo]) (use that in auto)
  show "d < 0" if "kfiles w n \<noteq> None" "f AND O_CREAT \<noteq> 0" "f AND O_EXCL \<noteq> 0"
    by (rule fk_open_cases [OF fo]) (use that in auto)
  show "f AND O_CREAT \<noteq> 0 \<and> kfiles w' = (kfiles w)(n \<mapsto> [])" if "kfiles w n = None" "0 \<le> d"
    by (rule fk_open_cases [OF fo]) (use that in auto)
next
  fix w w' :: file_kernel and n f m d t
  assume "k_open fk_kernel w n f m = (d, t, w')"
  then have fo: "fk_open w n f m = (d, t, w')" by (simp add: fk_kernel_def)
  show "kname w' = (if 0 \<le> d then (kname w)(d := n) else kname w)"
    by (rule fk_open_cases [OF fo]) (use lowest_free [of "kopen w" d] in auto)
  show "kfiles w' = kfiles w" if "d < 0"
    by (rule fk_open_cases [OF fo]) (use that lowest_free [of "kopen w" d] in auto)
next
  fix w w' :: file_kernel and d n' bs r bytes
  assume a: "fk_ok w" "d \<in> fk_fds w" "kfiles w (kname w d) = Some bs" "0 \<le> n'" "k_read fk_kernel w d n' = (r, bytes, w')"
  then obtain p where p: "kopen w d = Some p" by (auto simp: fk_fds_def)
  show "fk_ok w' \<and> fk_fds w' = fk_fds w \<and> kfiles w' = kfiles w \<and> kname w' = kname w \<and>
      (r = -1 \<and> fk_pos w' = fk_pos w \<or>
       0 \<le> r \<and> r \<le> n' \<and> bytes = take (nat r) (drop (nat (fk_pos w d)) bs) \<and> length bytes = nat r \<and>
       (r = 0 \<and> 0 < n' \<longrightarrow> length bs \<le> nat (fk_pos w d)) \<and> fk_pos w' = (fk_pos w)(d := fk_pos w d + r))"
  proof -
    have e: "r = int (length bytes)" "bytes = take (nat n') (drop (nat p) bs)" "w' = w\<lparr>kopen := (kopen w)(d \<mapsto> p + r)\<rparr>"
      using a(3,5) p by (auto simp: fk_kernel_def fk_read_def Let_def)
    have "0 \<le> p" using a(1) p by (simp add: fk_ok_def)
    then have "fk_ok w' \<and> fk_fds w' = fk_fds w \<and> fk_pos w' = (fk_pos w)(d := p + r)" using e(1,3) by (intro fk_upd [OF a(1) p]) simp_all
    moreover have "bytes = take (nat r) (drop (nat p) bs)" using e(1,2) by (simp add: min_def)
    moreover have "r \<le> n'" "r = 0 \<and> 0 < n' \<longrightarrow> length bs \<le> nat p" using e(1,2) a(4) by (auto simp: min_def split: if_splits)
    moreover have "length bytes = nat r" "0 \<le> r" by (simp_all add: e(1))
    moreover have "kfiles w' = kfiles w" "kname w' = kname w" by (simp_all add: e(3))
    ultimately show ?thesis unfolding fk_pos_Some [of w d, OF p] by blast
  qed
next
  fix w w' :: file_kernel and d bs r bytes
  assume a: "fk_ok w" "d \<in> fk_fds w" "kfiles w (kname w d) = Some bs" "k_write fk_kernel w d bytes = (r, w')"
  then obtain p where p: "kopen w d = Some p" by (auto simp: fk_fds_def)
  show "fk_ok w' \<and> fk_fds w' = fk_fds w \<and> kname w' = kname w \<and>
      (r = -1 \<and> kfiles w' = kfiles w \<and> fk_pos w' = fk_pos w \<or>
       0 \<le> r \<and> r \<le> int (length bytes) \<and> kfiles w' = (kfiles w)(kname w d \<mapsto> write_at bs (nat (fk_pos w d)) (take (nat r) bytes)) \<and>
       fk_pos w' = (fk_pos w)(d := fk_pos w d + r))"
  proof -
    have e: "r = int (length bytes)" "w' = w\<lparr>kfiles := (kfiles w)(kname w d \<mapsto> write_at bs (nat p) bytes), kopen := (kopen w)(d \<mapsto> p + r)\<rparr>"
      using a(3,4) p by (auto simp: fk_kernel_def fk_write_def Let_def)
    have "0 \<le> p" using a(1) p by (simp add: fk_ok_def)
    then have "fk_ok w' \<and> fk_fds w' = fk_fds w \<and> fk_pos w' = (fk_pos w)(d := p + r)" using e by (intro fk_upd [OF a(1) p]) simp_all
    then show ?thesis using e fk_pos_Some [of w d, OF p] by simp
  qed
next
  fix w w' :: file_kernel and d p wh r
  assume a: "k_lseek fk_kernel w d p wh = (r, w')"
  then show "kfiles w' = kfiles w \<and> kname w' = kname w" by (auto simp: fk_kernel_def fk_lseek_def Let_def split: option.splits if_splits)
next
  fix w w' :: file_kernel and d r
  assume a: "fk_ok w" "d \<in> fk_fds w" "k_lseek fk_kernel w d 0 SEEK_CUR = (r, w')"
  then obtain p where p: "kopen w d = Some p" by (auto simp: fk_fds_def)
  then have "0 \<le> p" using a(1) by (simp add: fk_ok_def)
  then show "r = fk_pos w d \<and> fk_ok w' \<and> fk_fds w' = fk_fds w \<and> fk_pos w' = fk_pos w"
    using a p by (auto simp: fk_defs fk_lseek_def Let_def SEEK_CUR_def SEEK_SET_def fun_upd_idem)
qed (auto simp: fk_defs fk_lseek_def fk_ftruncate_def SEEK_SET_def SEEK_CUR_def SEEK_END_def fun_eq_iff Let_def
   pg_nofile_def NOFILE_def RESERVE_FOR_LD_def FD_MINFREE_def split: option.splits if_splits)

end
