(* ===== verification/Md.thy ===== *)
theory Md
  imports FileLayer
begin

text \<open>
  The magnetic disk storage manager, \<^verbatim>\<open>storage/smgr/md.c\<close>, with \<open>relpath\<close> of \<^verbatim>\<open>catalog/catalog.c\<close>. A relation is kept
  in segments of \<open>RELSEG_SIZE\<close> blocks, one file each. \<open>Md_fdvec\<close> is an array (a function on indices below \<open>Nfds\<close>) with
  one entry per open relation, for its first segment; the others are chained to it by pointers into \<open>md_segs\<close>, the objects
  allocated in \<open>MdCxt\<close>. The files are those of a \<open>file_layer\<close> (fd.c). \<open>memory_context_alloc\<close> is the parameter \<open>new_seg\<close>,
  a free address for a chained object (or none, and \<open>elog(ERROR)\<close>). The build has segments
  (\<open>LET_OS_MANAGE_FILESIZE\<close> undefined) and no \<open>DIAGNOSTIC\<close>; \<open>errno\<close> is left out, and so is the memory of path names.
\<close>

section \<open>Data\<close>

definition BLCKSZ :: nat where "BLCKSZ = 8192"
definition RELSEG_SIZE :: nat where "RELSEG_SIZE = 0x40000000 div BLCKSZ"
definition SM_FAIL :: int where "SM_FAIL = 0"
definition SM_SUCCESS :: int where "SM_SUCCESS = 1"
definition MD_FD_FREE :: int where "MD_FD_FREE = 1"

record RelFileNode =
  tbl_node :: "32 word"
  rel_node :: "32 word"

text \<open>The part of a relation descriptor md.c uses.\<close>

record RelationData =
  rd_fd :: int
  rd_node :: RelFileNode

record MdfdVec =
  md_fd_vfd :: int
  md_fd_flags :: int
  md_fd_lst_bcnt :: int
  md_fd_next_free :: int
  md_fd_chain :: nat

definition zero_mdfdvec :: MdfdVec where
  "zero_mdfdvec = \<lparr>md_fd_vfd = 0, md_fd_flags = 0, md_fd_lst_bcnt = 0, md_fd_next_free = 0, md_fd_chain = 0\<rparr>"

record 's md =
  Nfds :: nat
  Md_fdvec :: "nat \<Rightarrow> MdfdVec"
  MdFree :: int
  CurFd :: nat
  md_segs :: "nat \<rightharpoonup> MdfdVec"
  fs :: 's

text \<open>A pointer to a vector: \<open>&Md_fdvec[i]\<close>, or a chained object.\<close>

datatype md_ref = Entry nat | Chunk nat

record 's md_env =
  file_ops :: "'s file_ops"
  DataDir :: string
  bootstrap :: bool
  new_seg :: "(nat \<rightharpoonup> MdfdVec) \<Rightarrow> nat option"

definition deref :: "'s md \<Rightarrow> md_ref \<Rightarrow> MdfdVec cres" where
  "deref D r = (case r of Entry i \<Rightarrow> Inr (Md_fdvec D i)
     | Chunk a \<Rightarrow> (case md_segs D a of None \<Rightarrow> Inl Bad_pointer | Some v \<Rightarrow> Inr v))"

definition upd_entry :: "'s md \<Rightarrow> nat \<Rightarrow> (MdfdVec \<Rightarrow> MdfdVec) \<Rightarrow> 's md" where
  "upd_entry D i f = D\<lparr>Md_fdvec := (Md_fdvec D)(i := f (Md_fdvec D i))\<rparr>"

definition upd_ref :: "'s md \<Rightarrow> md_ref \<Rightarrow> (MdfdVec \<Rightarrow> MdfdVec) \<Rightarrow> 's md" where
  "upd_ref D r f = (case r of Entry i \<Rightarrow> upd_entry D i f | Chunk a \<Rightarrow> D\<lparr>md_segs := (md_segs D)(a := map_option f (md_segs D a))\<rparr>)"

definition next_ref :: "MdfdVec \<Rightarrow> md_ref option" where
  "next_ref v = (if md_fd_chain v = 0 then None else Some (Chunk (md_fd_chain v)))"

section \<open>Paths\<close>

definition relpath :: "string \<Rightarrow> RelFileNode \<Rightarrow> string" where
  "relpath data_dir rnode =
     (if tbl_node rnode = 0 then data_dir @ ''/global/'' @ digits (unat (rel_node rnode))
      else data_dir @ ''/base/'' @ digits (unat (tbl_node rnode)) @ ''/'' @ digits (unat (rel_node rnode)))"

text \<open>\<open>"%s.%d"\<close> for the segments after the first.\<close>

definition seg_path :: "string \<Rightarrow> int \<Rightarrow> string" where
  "seg_path pth seg_no = (if seg_no > 0 then pth @ CHR ''.'' # decimal seg_no else pth)"

section \<open>The table of open relations\<close>

definition md_init :: "'s md \<Rightarrow> int \<times> 's md" where
  "md_init D =
     (let D1 = D\<lparr>Md_fdvec := (\<lambda>_. zero_mdfdvec)\<rparr>;
          D2 = fold (\<lambda>i D. upd_entry D i (\<lambda>v. v\<lparr>md_fd_next_free := int i + 1, md_fd_flags := MD_FD_FREE\<rparr>)) [0..<Nfds D] D1;
          D3 = D2\<lparr>MdFree := 0\<rparr>
      in (SM_SUCCESS, upd_entry D3 (Nfds D - 1) (\<lambda>v. v\<lparr>md_fd_next_free := -1\<rparr>)))"

definition fdvec_alloc :: "'s md \<Rightarrow> (nat \<times> 's md) cres" where
  "fdvec_alloc D =
     (if MdFree D \<ge> 0 then
        let fdvec = nat (MdFree D); D1 = D\<lparr>MdFree := md_fd_next_free (Md_fdvec D fdvec)\<rparr>
        in c_assert (md_fd_flags (Md_fdvec D1 fdvec) = MD_FD_FREE)
             (let D2 = upd_entry D1 fdvec (\<lambda>v. v\<lparr>md_fd_flags := 0\<rparr>)
              in if fdvec \<ge> CurFd D2 then c_assert (fdvec = CurFd D2) (Inr (fdvec, D2\<lparr>CurFd := CurFd D2 + 1\<rparr>))
                 else Inr (fdvec, D2))
      else if Nfds D \<noteq> CurFd D then Inl Elog_FATAL
      else
        let n = Nfds D * 2;
            D1 = D\<lparr>Nfds := n, Md_fdvec := (\<lambda>i. if i < CurFd D then Md_fdvec D i else zero_mdfdvec)\<rparr>;
            D2 = fold (\<lambda>i D. upd_entry D i (\<lambda>v. v\<lparr>md_fd_next_free := int i + 1, md_fd_flags := MD_FD_FREE\<rparr>)) [CurFd D..<n] D1;
            D3 = upd_entry D2 (n - 1) (\<lambda>v. v\<lparr>md_fd_next_free := -1\<rparr>);
            fdvec = CurFd D
        in Inr (fdvec, upd_entry (D3\<lparr>MdFree := int fdvec + 1, CurFd := fdvec + 1\<rparr>) fdvec (\<lambda>v. v\<lparr>md_fd_flags := 0\<rparr>)))"

text \<open>\<open>fdvec_free\<close> is declared to return an \<open>int\<close> and returns nothing; no caller looks at the result.\<close>

definition fdvec_free :: "'s md \<Rightarrow> nat \<Rightarrow> 's md cres" where
  "fdvec_free D fdvec =
     c_assert (MdFree D < 0 \<or> md_fd_flags (Md_fdvec D (nat (MdFree D))) = MD_FD_FREE)
       (c_assert (md_fd_flags (Md_fdvec D fdvec) \<noteq> MD_FD_FREE)
         (let D1 = upd_entry D fdvec (\<lambda>v. v\<lparr>md_fd_next_free := MdFree D\<rparr>);
              D2 = upd_entry D1 fdvec (\<lambda>v. v\<lparr>md_fd_flags := MD_FD_FREE\<rparr>)
          in Inr (D2\<lparr>MdFree := int fdvec\<rparr>)))"

section \<open>Opening and creating\<close>

text \<open>\<open>BlockNumber\<close> is a 32-bit unsigned type; its callers store the result in an \<open>int\<close>.\<close>

definition md_nblocks_aux :: "'s md_env \<Rightarrow> 's \<Rightarrow> int \<Rightarrow> (int \<times> 's) cres" where
  "md_nblocks_aux E s file =
     cbind (f_seek (file_ops E) s (nat file) 0 SEEK_END) (\<lambda>(len, s1).
       Inr (if len < 0 then 0 else to_int (len div int BLCKSZ), s1))"

definition md_create :: "'s md_env \<Rightarrow> RelationData \<Rightarrow> 's md \<Rightarrow> (int \<times> 's md) cres" where
  "md_create E rel D =
     c_assert (rd_fd rel < 0)
       (let pth = relpath (DataDir E) (rd_node rel)
        in cbind (f_open (file_ops E) (fs D) pth (O_RDWR OR O_CREAT OR O_EXCL) 384) (\<lambda>(fd1, s1).
           cbind (if fd1 < 0 \<and> bootstrap E then f_open (file_ops E) s1 pth O_RDWR 384 else Inr (fd1, s1)) (\<lambda>(fd2, s2).
             if fd2 < 0 then Inr (-1, D\<lparr>fs := s2\<rparr>)
             else cbind (fdvec_alloc (D\<lparr>fs := s2\<rparr>)) (\<lambda>(vfd, D1).
               Inr (int vfd, upd_entry D1 vfd (\<lambda>v. v\<lparr>md_fd_vfd := fd2, md_fd_flags := 0, md_fd_lst_bcnt := 0, md_fd_chain := 0\<rparr>))))))"

definition md_open :: "'s md_env \<Rightarrow> RelationData \<Rightarrow> 's md \<Rightarrow> (int \<times> 's md) cres" where
  "md_open E rel D =
     c_assert (rd_fd rel < 0)
       (let pth = relpath (DataDir E) (rd_node rel)
        in cbind (f_open (file_ops E) (fs D) pth O_RDWR 384) (\<lambda>(fd1, s1).
           cbind (if fd1 < 0 \<and> bootstrap E then f_open (file_ops E) s1 pth (O_RDWR OR O_CREAT OR O_EXCL) 384 else Inr (fd1, s1)) (\<lambda>(fd2, s2).
             if fd2 < 0 then Inr (-1, D\<lparr>fs := s2\<rparr>)
             else cbind (fdvec_alloc (D\<lparr>fs := s2\<rparr>)) (\<lambda>(vfd, D1).
               let D2 = upd_entry D1 vfd (\<lambda>v. v\<lparr>md_fd_vfd := fd2, md_fd_flags := 0\<rparr>)
               in cbind (md_nblocks_aux E (fs D2) fd2) (\<lambda>(n, s3).
                    Inr (int vfd, upd_entry (D2\<lparr>fs := s3\<rparr>) vfd (\<lambda>v. v\<lparr>md_fd_lst_bcnt := n, md_fd_chain := 0\<rparr>)))))))"

definition md_fd_get_reln_fd :: "'s md_env \<Rightarrow> RelationData \<Rightarrow> 's md \<Rightarrow> (nat \<times> RelationData \<times> 's md) cres" where
  "md_fd_get_reln_fd E rel D =
     (if rd_fd rel < 0 then
        cbind (md_open E rel D) (\<lambda>(fd, D1). if fd < 0 then Inl Elog_ERROR else Inr (nat fd, rel\<lparr>rd_fd := fd\<rparr>, D1))
      else Inr (nat (rd_fd rel), rel, D))"

text \<open>The new object, or \<open>NULL\<close> when the file cannot be opened.\<close>

definition md_fd_open_seg :: "'s md_env \<Rightarrow> RelationData \<Rightarrow> 's md \<Rightarrow> int \<Rightarrow> int \<Rightarrow> (nat option \<times> 's md) cres" where
  "md_fd_open_seg E rel D seg_no oflags =
     cbind (f_open (file_ops E) (fs D) (seg_path (relpath (DataDir E) (rd_node rel)) seg_no) (O_RDWR OR oflags) 384) (\<lambda>(fd, s1).
       if fd < 0 then Inr (None, D\<lparr>fs := s1\<rparr>)
       else case new_seg E (md_segs D) of None \<Rightarrow> Inl Elog_ERROR
         | Some a \<Rightarrow>
             cbind (md_nblocks_aux E s1 fd) (\<lambda>(n, s2).
               Inr (Some a, D\<lparr>fs := s2, md_segs := (md_segs D)(a \<mapsto>
                 \<lparr>md_fd_vfd = fd, md_fd_flags = 0, md_fd_lst_bcnt = n, md_fd_next_free = md_fd_next_free zero_mdfdvec, md_fd_chain = 0\<rparr>)\<rparr>)))"

text \<open>The loop of \<open>md_fd_get_seg\<close>; the first segments have been passed, \<open>i\<close> is the number of the next one.\<close>

fun get_seg_loop :: "'s md_env \<Rightarrow> RelationData \<Rightarrow> 's md \<Rightarrow> md_ref \<Rightarrow> int \<Rightarrow> nat \<Rightarrow> (md_ref \<times> 's md) cres" where
  "get_seg_loop E rel D r i 0 = Inr (r, D)"
| "get_seg_loop E rel D r i (Suc seg_no) =
     cbind (deref D r) (\<lambda>v.
       case next_ref v of
         Some r' \<Rightarrow> get_seg_loop E rel D r' (i + 1) seg_no
       | None \<Rightarrow>
           cbind (md_fd_open_seg E rel D i (if seg_no = 0 then O_CREAT else 0)) (\<lambda>(p, D1).
             case p of None \<Rightarrow> Inl Elog_ERROR
             | Some a \<Rightarrow> get_seg_loop E rel (upd_ref D1 r (\<lambda>v. v\<lparr>md_fd_chain := a\<rparr>)) (Chunk a) (i + 1) seg_no))"

text \<open>The block number comes as an \<open>int\<close>; a negative one gives no round of the loop.\<close>

definition md_fd_get_seg :: "'s md_env \<Rightarrow> RelationData \<Rightarrow> 's md \<Rightarrow> int \<Rightarrow> (md_ref \<times> RelationData \<times> 's md) cres" where
  "md_fd_get_seg E rel D block_num =
     cbind (md_fd_get_reln_fd E rel D) (\<lambda>(fd, rel1, D1).
     cbind (get_seg_loop E rel1 D1 (Entry fd) 1 (nat (block_num div int RELSEG_SIZE))) (\<lambda>(r, D2). Inr (r, rel1, D2)))"

section \<open>Counting, reading and writing blocks\<close>

text \<open>The loop of \<open>md_nblocks\<close>. It ends at the latest when \<open>seg_no\<close> would overflow.\<close>

function nblocks_loop :: "'s md_env \<Rightarrow> RelationData \<Rightarrow> 's md \<Rightarrow> md_ref \<Rightarrow> int \<Rightarrow> (int \<times> 's md) cres" where
  "nblocks_loop E rel D r seg_no =
     (case deref D r of Inl e \<Rightarrow> Inl e | Inr v \<Rightarrow>
      case md_nblocks_aux E (fs D) (md_fd_vfd v) of Inl e \<Rightarrow> Inl e | Inr (nblocks, s1) \<Rightarrow>
        if nblocks > int RELSEG_SIZE then Inl Elog_FATAL
        else let D1 = upd_ref (D\<lparr>fs := s1\<rparr>) r (\<lambda>v. v\<lparr>md_fd_lst_bcnt := nblocks\<rparr>)
             in if nblocks = int RELSEG_SIZE then
                  if seg_no + 1 \<ge> 2 ^ 31 then Inl Int_overflow
                  else (case next_ref v of
                      Some r' \<Rightarrow> nblocks_loop E rel D1 r' (seg_no + 1)
                    | None \<Rightarrow>
                        (case md_fd_open_seg E rel D1 (seg_no + 1) O_CREAT of Inl e \<Rightarrow> Inl e
                         | Inr (None, D2) \<Rightarrow> Inl Elog_ERROR
                         | Inr (Some a, D2) \<Rightarrow> nblocks_loop E rel (upd_ref D2 r (\<lambda>v. v\<lparr>md_fd_chain := a\<rparr>)) (Chunk a) (seg_no + 1)))
                else cbind (c_int (seg_no * int RELSEG_SIZE)) (\<lambda>b. cbind (c_int (b + nblocks)) (\<lambda>n. Inr (n, D1))))"
  by pat_completeness auto
termination
  by (relation "measure (\<lambda>(E, rel, D, r, seg_no). nat (2 ^ 31 - seg_no))") auto

declare nblocks_loop.simps [simp del]

definition md_nblocks :: "'s md_env \<Rightarrow> RelationData \<Rightarrow> 's md \<Rightarrow> (int \<times> RelationData \<times> 's md) cres" where
  "md_nblocks E rel D =
     cbind (md_fd_get_reln_fd E rel D) (\<lambda>(fd, rel1, D1).
     cbind (nblocks_loop E rel1 D1 (Entry fd) 0) (\<lambda>(n, D2). Inr (n, rel1, D2)))"

text \<open>The part the block has in its segment; \<open>BLCKSZ * (block_num % RELSEG_SIZE)\<close> is computed in 32 unsigned bits.\<close>

definition block_pos :: "32 word \<Rightarrow> int" where
  "block_pos block_num = uint (of_nat BLCKSZ * (block_num mod of_nat RELSEG_SIZE) :: 32 word)"

text \<open>What a read leaves in the buffer.\<close>

definition fill :: "byte list \<Rightarrow> byte list \<Rightarrow> byte list" where
  "fill buffer bytes = bytes @ drop (length bytes) buffer"

definition md_read :: "'s md_env \<Rightarrow> RelationData \<Rightarrow> 's md \<Rightarrow> 32 word \<Rightarrow> byte list \<Rightarrow> (int \<times> byte list \<times> RelationData \<times> 's md) cres" where
  "md_read E rel D block_num buffer =
     cbind (md_fd_get_seg E rel D (sint block_num)) (\<lambda>(r, rel1, D1).
     cbind (deref D1 r) (\<lambda>v.
       let seek_pos = block_pos block_num; file = nat (md_fd_vfd v)
       in cbind (f_seek (file_ops E) (fs D1) file seek_pos SEEK_SET) (\<lambda>(p, s2).
            if p \<noteq> seek_pos then Inr (SM_FAIL, buffer, rel1, D1\<lparr>fs := s2\<rparr>)
            else cbind (f_read (file_ops E) s2 file (int BLCKSZ)) (\<lambda>(nbytes, bytes, s3).
              let D3 = D1\<lparr>fs := s3\<rparr>; buffer1 = fill buffer bytes; zero = replicate BLCKSZ 0
              in if nbytes = int BLCKSZ then Inr (SM_SUCCESS, buffer1, rel1, D3)
                 else if nbytes = 0 then Inr (SM_SUCCESS, zero, rel1, D3)
                 else if block_num = 0 \<and> nbytes > 0 then
                   cbind (md_nblocks E rel1 D3) (\<lambda>(n, rel2, D4).
                     if n = 0 then Inr (SM_SUCCESS, zero, rel2, D4) else Inr (SM_FAIL, buffer1, rel2, D4))
                 else Inr (SM_FAIL, buffer1, rel1, D3)))))"

definition md_write :: "'s md_env \<Rightarrow> RelationData \<Rightarrow> 's md \<Rightarrow> 32 word \<Rightarrow> byte list \<Rightarrow> (int \<times> RelationData \<times> 's md) cres" where
  "md_write E rel D block_num buffer =
     cbind (md_fd_get_seg E rel D (sint block_num)) (\<lambda>(r, rel1, D1).
     cbind (deref D1 r) (\<lambda>v.
       let seek_pos = block_pos block_num; file = nat (md_fd_vfd v)
       in cbind (f_seek (file_ops E) (fs D1) file seek_pos SEEK_SET) (\<lambda>(p, s2).
            if p \<noteq> seek_pos then Inr (SM_FAIL, rel1, D1\<lparr>fs := s2\<rparr>)
            else cbind (f_write (file_ops E) s2 file (take BLCKSZ buffer)) (\<lambda>(nbytes, s3).
              Inr (if nbytes \<noteq> int BLCKSZ then SM_FAIL else SM_SUCCESS, rel1, D1\<lparr>fs := s3\<rparr>)))))"

definition md_flush :: "'s md_env \<Rightarrow> RelationData \<Rightarrow> 's md \<Rightarrow> 32 word \<Rightarrow> byte list \<Rightarrow> (int \<times> RelationData \<times> 's md) cres" where
  "md_flush E rel D block_num buffer =
     cbind (md_fd_get_seg E rel D (sint block_num)) (\<lambda>(r, rel1, D1).
     cbind (deref D1 r) (\<lambda>v.
       let seek_pos = block_pos block_num; file = nat (md_fd_vfd v)
       in cbind (f_seek (file_ops E) (fs D1) file seek_pos SEEK_SET) (\<lambda>(p, s2).
            if p \<noteq> seek_pos then Inr (SM_FAIL, rel1, D1\<lparr>fs := s2\<rparr>)
            else cbind (f_write (file_ops E) s2 file (take BLCKSZ buffer)) (\<lambda>(nbytes, s3).
              if nbytes \<noteq> int BLCKSZ then Inr (SM_FAIL, rel1, D1\<lparr>fs := s3\<rparr>)
              else cbind (f_sync (file_ops E) s3 file) (\<lambda>(c, s4).
                Inr (if c < 0 then SM_FAIL else SM_SUCCESS, rel1, D1\<lparr>fs := s4\<rparr>))))))"

definition md_extend :: "'s md_env \<Rightarrow> RelationData \<Rightarrow> 's md \<Rightarrow> byte list \<Rightarrow> (int \<times> RelationData \<times> 's md) cres" where
  "md_extend E rel D buffer =
     cbind (md_nblocks E rel D) (\<lambda>(nblocks, rel1, D1).
     cbind (md_fd_get_seg E rel1 D1 nblocks) (\<lambda>(r, rel2, D2).
     cbind (deref D2 r) (\<lambda>v.
       let file = nat (md_fd_vfd v)
       in cbind (f_seek (file_ops E) (fs D2) file 0 SEEK_END) (\<lambda>(pos, s3).
            if pos < 0 then Inr (SM_FAIL, rel2, D2\<lparr>fs := s3\<rparr>)
            else
              let pos1 = pos - pos mod int BLCKSZ
              in cbind (if pos mod int BLCKSZ \<noteq> 0 then f_seek (file_ops E) s3 file pos1 SEEK_SET else Inr (pos1, s3)) (\<lambda>(q, s4).
                   if q < 0 then Inr (SM_FAIL, rel2, D2\<lparr>fs := s4\<rparr>)
                   else cbind (f_write (file_ops E) s4 file (take BLCKSZ buffer)) (\<lambda>(nbytes, s5).
                     if nbytes \<noteq> int BLCKSZ then
                       if nbytes > 0 then
                         cbind (f_truncate (file_ops E) s5 file pos1) (\<lambda>(_, s6).
                         cbind (f_seek (file_ops E) s6 file pos1 SEEK_SET) (\<lambda>(_, s7). Inr (SM_FAIL, rel2, D2\<lparr>fs := s7\<rparr>)))
                       else Inr (SM_FAIL, rel2, D2\<lparr>fs := s5\<rparr>)
                     else
                       cbind (c_int (nblocks + 1)) (\<lambda>n.
                         let b = n mod int RELSEG_SIZE
                         in Inr (SM_SUCCESS, rel2,
                              upd_ref (D2\<lparr>fs := s5\<rparr>) r (\<lambda>v. v\<lparr>md_fd_lst_bcnt := if b = 0 then int RELSEG_SIZE else b\<rparr>)))))))))"

text \<open>
  The loop of \<open>md_truncate\<close>. A segment behind the end is truncated, unlinked and freed; the one with the end is cut and loses its
  successors. \<open>False\<close> is the early return of -1.
\<close>

definition drop_seg :: "'s md_env \<Rightarrow> 's md \<Rightarrow> md_ref \<Rightarrow> MdfdVec \<Rightarrow> 's md cres" where
  "drop_seg E D r v =
     cbind (f_truncate (file_ops E) (fs D) (nat (md_fd_vfd v)) 0) (\<lambda>(_, s1).
     cbind (f_unlink (file_ops E) s1 (nat (md_fd_vfd v))) (\<lambda>s2.
       case r of Entry i \<Rightarrow> Inl Assert_failed
       | Chunk a \<Rightarrow> Inr (D\<lparr>fs := s2, md_segs := (md_segs D)(a := None)\<rparr>)))"

definition cut_seg :: "'s md_env \<Rightarrow> 's md \<Rightarrow> md_ref \<Rightarrow> MdfdVec \<Rightarrow> int \<Rightarrow> (bool \<times> 's md) cres" where
  "cut_seg E D r v lastsegblocks =
     cbind (c_int (lastsegblocks * int BLCKSZ)) (\<lambda>len.
     cbind (f_truncate (file_ops E) (fs D) (nat (md_fd_vfd v)) len) (\<lambda>(c, s1).
       if c < 0 then Inr (False, D\<lparr>fs := s1\<rparr>)
       else Inr (True, upd_ref (D\<lparr>fs := s1\<rparr>) r (\<lambda>v. v\<lparr>md_fd_lst_bcnt := lastsegblocks, md_fd_chain := 0\<rparr>))))"

function truncate_loop :: "'s md_env \<Rightarrow> 's md \<Rightarrow> md_ref option \<Rightarrow> int \<Rightarrow> int \<Rightarrow> (bool \<times> 's md) cres" where
  "truncate_loop E D None nblocks prior_blocks = Inr (True, D)"
| "truncate_loop E D (Some r) nblocks prior_blocks =
     (let prior' = prior_blocks + int RELSEG_SIZE
      in case deref D r of Inl e \<Rightarrow> Inl e
         | Inr v \<Rightarrow>
             if prior_blocks > nblocks then
               (case drop_seg E D r v of Inl e \<Rightarrow> Inl e
                | Inr D1 \<Rightarrow> if prior' \<ge> 2 ^ 31 then Inl Int_overflow else truncate_loop E D1 (next_ref v) nblocks prior')
             else if prior' \<ge> 2 ^ 31 then Inl Int_overflow
             else if prior' > nblocks then
               (case cut_seg E D r v (nblocks - prior_blocks) of Inl e \<Rightarrow> Inl e
                | Inr (done_it, D1) \<Rightarrow> if \<not> done_it then Inr (False, D1) else truncate_loop E D1 (next_ref v) nblocks prior')
             else truncate_loop E D (next_ref v) nblocks prior')"
  by pat_completeness auto
termination
  by (relation "measure (\<lambda>(E, D, r, nblocks, prior). nat (2 ^ 31 - prior))") (auto simp: RELSEG_SIZE_def BLCKSZ_def)

declare truncate_loop.simps [simp del]

definition md_truncate :: "'s md_env \<Rightarrow> RelationData \<Rightarrow> 's md \<Rightarrow> int \<Rightarrow> (int \<times> RelationData \<times> 's md) cres" where
  "md_truncate E rel D nblocks =
     cbind (md_nblocks E rel D) (\<lambda>(cur_nblk, rel1, D1).
       if nblocks < 0 \<or> nblocks > cur_nblk then Inr (-1, rel1, D1)
       else if nblocks = cur_nblk then Inr (nblocks, rel1, D1)
       else cbind (md_fd_get_reln_fd E rel1 D1) (\<lambda>(fd, rel2, D2).
            cbind (truncate_loop E D2 (Some (Entry fd)) nblocks 0) (\<lambda>(done_it, D3).
              Inr (if done_it then nblocks else -1, rel2, D3))))"

definition md_mark_dirty :: "'s md_env \<Rightarrow> RelationData \<Rightarrow> 's md \<Rightarrow> 32 word \<Rightarrow> (int \<times> RelationData \<times> 's md) cres" where
  "md_mark_dirty E rel D block_num =
     cbind (md_fd_get_seg E rel D (sint block_num)) (\<lambda>(r, rel1, D1).
     cbind (deref D1 r) (\<lambda>v.
     cbind (f_mark_dirty (file_ops E) (fs D1) (nat (md_fd_vfd v))) (\<lambda>s2. Inr (SM_SUCCESS, rel1, D1\<lparr>fs := s2\<rparr>))))"

section \<open>Blind writes\<close>

definition md_fd_blind_get_seg :: "'s md_env \<Rightarrow> RelFileNode \<Rightarrow> 's md \<Rightarrow> int \<Rightarrow> (int \<times> 's md) cres" where
  "md_fd_blind_get_seg E rnode D block_num =
     cbind (f_basic_open (file_ops E) (fs D) (seg_path (relpath (DataDir E) rnode) (block_num div int RELSEG_SIZE)) O_RDWR 384) (\<lambda>(fd, s1).
       Inr (fd, D\<lparr>fs := s1\<rparr>))"

text \<open>\<open>do_fsync\<close> is not used.\<close>

definition md_blind_wrt :: "'s md_env \<Rightarrow> RelFileNode \<Rightarrow> 's md \<Rightarrow> 32 word \<Rightarrow> byte list \<Rightarrow> bool \<Rightarrow> (int \<times> 's md) cres" where
  "md_blind_wrt E rnode D block_num buffer do_fsync =
     cbind (md_fd_blind_get_seg E rnode D (sint block_num)) (\<lambda>(fd, D1).
       if fd < 0 then Inr (SM_FAIL, D1)
       else case f_lseek_fd (file_ops E) (fs D1) fd (block_pos block_num) SEEK_SET of (p, s2) \<Rightarrow>
         if p \<noteq> block_pos block_num then Inr (SM_FAIL, D1\<lparr>fs := snd (f_close_fd (file_ops E) s2 fd)\<rparr>)
         else case f_write_fd (file_ops E) s2 fd (take BLCKSZ buffer) of (nbytes, s3) \<Rightarrow>
           case f_close_fd (file_ops E) s3 fd of (c, s4) \<Rightarrow>
             Inr (if nbytes \<noteq> int BLCKSZ \<or> c < 0 then SM_FAIL else SM_SUCCESS, D1\<lparr>fs := s4\<rparr>))"

definition md_blind_mark_dirty :: "'s md_env \<Rightarrow> RelFileNode \<Rightarrow> 's md \<Rightarrow> 32 word \<Rightarrow> (int \<times> 's md) cres" where
  "md_blind_mark_dirty E rnode D block_num =
     cbind (md_fd_blind_get_seg E rnode D (sint block_num)) (\<lambda>(fd, D1).
       if fd < 0 then Inr (SM_FAIL, D1)
       else case f_fsync_fd (file_ops E) (fs D1) fd of (c1, s2) \<Rightarrow>
         case f_close_fd (file_ops E) s2 fd of (c2, s3) \<Rightarrow>
           Inr (if c1 < 0 \<or> c2 < 0 then SM_FAIL else SM_SUCCESS, D1\<lparr>fs := s3\<rparr>))"

section \<open>Transactions, closing and unlinking\<close>

text \<open>Loops over a chain may run for ever on a cyclic one: \<open>None\<close>.\<close>

partial_function (option) sync_chain :: "'s md_env \<Rightarrow> 's md \<Rightarrow> md_ref option \<Rightarrow> (bool \<times> 's md) cres option" where
  "sync_chain E D p =
     (case p of None \<Rightarrow> Some (Inr (True, D))
      | Some r \<Rightarrow>
          (case deref D r of Inl e \<Rightarrow> Some (Inl e) | Inr v \<Rightarrow>
           (case f_sync (file_ops E) (fs D) (nat (md_fd_vfd v)) of Inl e \<Rightarrow> Some (Inl e) | Inr (c, s1) \<Rightarrow>
              if c < 0 then Some (Inr (False, D\<lparr>fs := s1\<rparr>)) else sync_chain E (D\<lparr>fs := s1\<rparr>) (next_ref v))))"

fun commit_loop :: "'s md_env \<Rightarrow> 's md \<Rightarrow> nat list \<Rightarrow> (bool \<times> 's md) cres option" where
  "commit_loop E D [] = Some (Inr (True, D))"
| "commit_loop E D (i # is) =
     (if md_fd_flags (Md_fdvec D i) AND MD_FD_FREE \<noteq> 0 then commit_loop E D is
      else case sync_chain E D (Some (Entry i)) of None \<Rightarrow> None
        | Some (Inl e) \<Rightarrow> Some (Inl e)
        | Some (Inr (ok, D1)) \<Rightarrow> if \<not> ok then Some (Inr (False, D1)) else commit_loop E D1 is)"

definition md_commit :: "'s md_env \<Rightarrow> 's md \<Rightarrow> (int \<times> 's md) cres option" where
  "md_commit E D =
     map_option (\<lambda>r. cbind r (\<lambda>(ok, D1). Inr (if ok then SM_SUCCESS else SM_FAIL, D1))) (commit_loop E D [0..<CurFd D])"

definition md_abort :: "'s md \<Rightarrow> int \<times> 's md" where
  "md_abort D = (SM_SUCCESS, D)"

partial_function (option) close_chain :: "'s md_env \<Rightarrow> 's md \<Rightarrow> md_ref option \<Rightarrow> 's md cres option" where
  "close_chain E D p =
     (case p of None \<Rightarrow> Some (Inr D)
      | Some r \<Rightarrow>
          (case deref D r of Inl e \<Rightarrow> Some (Inl e) | Inr v \<Rightarrow>
           (case (if md_fd_vfd v \<ge> 0
                  then cbind (f_sync (file_ops E) (fs D) (nat (md_fd_vfd v))) (\<lambda>(_, s1). f_close (file_ops E) s1 (nat (md_fd_vfd v)))
                  else Inr (fs D)) of Inl e \<Rightarrow> Some (Inl e) | Inr s2 \<Rightarrow>
              close_chain E
                (case r of Entry _ \<Rightarrow> D\<lparr>fs := s2\<rparr> | Chunk a \<Rightarrow> D\<lparr>fs := s2, md_segs := (md_segs D)(a := None)\<rparr>) (next_ref v))))"

definition md_close_fd :: "'s md_env \<Rightarrow> 's md \<Rightarrow> nat \<Rightarrow> 's md cres option" where
  "md_close_fd E D entry =
     map_option (\<lambda>r. cbind r (\<lambda>D1. fdvec_free (upd_entry D1 entry (\<lambda>v. v\<lparr>md_fd_chain := 0\<rparr>)) entry)) (close_chain E D (Some (Entry entry)))"

definition md_close :: "'s md_env \<Rightarrow> RelationData \<Rightarrow> 's md \<Rightarrow> (int \<times> RelationData \<times> 's md) cres option" where
  "md_close E rel D =
     (if rd_fd rel < 0 then Some (Inr (SM_SUCCESS, rel, D))
      else map_option (\<lambda>r. cbind r (\<lambda>D1. Inr (SM_SUCCESS, rel\<lparr>rd_fd := -1\<rparr>, D1))) (md_close_fd E D (nat (rd_fd rel))))"

text \<open>\<open>unlink\<close> of the system is a parameter: its result and whether \<open>errno\<close> is \<open>ENOENT\<close>.\<close>

partial_function (option) unlink_segs ::
  "('s \<Rightarrow> string \<Rightarrow> (int \<times> bool) \<times> 's) \<Rightarrow> string \<Rightarrow> 's md \<Rightarrow> int \<Rightarrow> (int \<times> 's md) option" where
  "unlink_segs unlink pth D segno =
     (case unlink (fs D) (seg_path pth segno) of ((r, enoent), s1) \<Rightarrow>
        if r < 0 then Some (if enoent then SM_SUCCESS else SM_FAIL, D\<lparr>fs := s1\<rparr>)
        else unlink_segs unlink pth (D\<lparr>fs := s1\<rparr>) (segno + 1))"

definition md_unlink :: "('s \<Rightarrow> string \<Rightarrow> (int \<times> bool) \<times> 's) \<Rightarrow> 's md_env \<Rightarrow> RelFileNode \<Rightarrow> 's md \<Rightarrow> (int \<times> 's md) option" where
  "md_unlink unlink E rnode D =
     (let pth = relpath (DataDir E) rnode
      in case unlink (fs D) pth of ((r, _), s1) \<Rightarrow>
           if r < 0 then Some (SM_FAIL, D\<lparr>fs := s1\<rparr>) else unlink_segs unlink pth (D\<lparr>fs := s1\<rparr>) 1)"

section \<open>The table of open relations is well kept\<close>

primrec fpath :: "(nat \<Rightarrow> int) \<Rightarrow> int \<Rightarrow> nat list \<Rightarrow> bool" where
  "fpath m p [] \<longleftrightarrow> p = -1"
| "fpath m p (x # xs) \<longleftrightarrow> p = int x \<and> fpath m (m x) xs"

lemma fpath_cong: "(\<And>x. x \<in> set xs \<Longrightarrow> m x = m' x) \<Longrightarrow> fpath m p xs = fpath m' p xs"
  by (induction xs arbitrary: p) simp_all

lemma fpath_upt:
  "a < b \<Longrightarrow> (\<And>i. a \<le> i \<Longrightarrow> i < b \<Longrightarrow> m i = (if i = b - 1 then -1 else int i + 1)) \<Longrightarrow> fpath m (int a) [a..<b]"
proof (induction "b - a" arbitrary: a)
  case (Suc n)
  show ?case
  proof (cases "a = b - 1")
    case True
    then show ?thesis using Suc.prems by (simp add: upt_conv_Cons)
  next
    case False
    then have "fpath m (int (Suc a)) [Suc a..<b]" using Suc.hyps(2) Suc.prems by (intro Suc.hyps(1)) auto
    moreover have "m a = int (Suc a)" using Suc.prems False by simp
    ultimately show ?thesis using Suc.prems(1) by (simp add: upt_conv_Cons)
  qed
qed simp

text \<open>\<open>ys\<close> are the entries that were freed, most recent first; the entries from \<open>CurFd\<close> on were never used.\<close>

definition fdvec_ok :: "'s md \<Rightarrow> nat list \<Rightarrow> bool" where
  "fdvec_ok D ys \<longleftrightarrow> fpath (\<lambda>i. md_fd_next_free (Md_fdvec D i)) (MdFree D) (ys @ [CurFd D..<Nfds D]) \<and>
     distinct ys \<and> set ys \<subseteq> {..<CurFd D} \<and> CurFd D \<le> Nfds D \<and> 1 < Nfds D \<and>
     (\<forall>i < Nfds D. md_fd_flags (Md_fdvec D i) = (if i \<in> set ys \<or> CurFd D \<le> i then MD_FD_FREE else 0))"

definition in_use :: "'s md \<Rightarrow> nat \<Rightarrow> bool" where
  "in_use D i \<longleftrightarrow> i < CurFd D \<and> md_fd_flags (Md_fdvec D i) = 0"

lemma upd_entry_fields [simp]:
  "Md_fdvec (upd_entry D i f) j = (if j = i then f (Md_fdvec D i) else Md_fdvec D j)" "Nfds (upd_entry D i f) = Nfds D"
  "MdFree (upd_entry D i f) = MdFree D" "CurFd (upd_entry D i f) = CurFd D" "md_segs (upd_entry D i f) = md_segs D" "fs (upd_entry D i f) = fs D"
  by (simp_all add: upd_entry_def)

lemma fold_upd_entry:
  "distinct xs \<Longrightarrow> Md_fdvec (fold (\<lambda>i D. upd_entry D i (f i)) xs D) j = (if j \<in> set xs then f j (Md_fdvec D j) else Md_fdvec D j)"
  "Nfds (fold (\<lambda>i D. upd_entry D i (f i)) xs D) = Nfds D" "CurFd (fold (\<lambda>i D. upd_entry D i (f i)) xs D) = CurFd D"
  "MdFree (fold (\<lambda>i D. upd_entry D i (f i)) xs D) = MdFree D" "md_segs (fold (\<lambda>i D. upd_entry D i (f i)) xs D) = md_segs D"
  "fs (fold (\<lambda>i D. upd_entry D i (f i)) xs D) = fs D"
  by (induction xs arbitrary: D) auto

text \<open>What \<open>md_init\<close> and the doubling of the table make of the entries from \<open>a\<close> on.\<close>

lemma fresh_entries:
  assumes "a < n" and D3: "D3 = upd_entry (fold (\<lambda>i D. upd_entry D i (\<lambda>v. v\<lparr>md_fd_next_free := int i + 1, md_fd_flags := MD_FD_FREE\<rparr>)) [a..<n] D1)
      (n - 1) (\<lambda>v. v\<lparr>md_fd_next_free := -1\<rparr>)"
  shows "a \<le> i \<Longrightarrow> i < n \<Longrightarrow> md_fd_next_free (Md_fdvec D3 i) = (if i = n - 1 then -1 else int i + 1)"
    "a \<le> i \<Longrightarrow> i < n \<Longrightarrow> md_fd_flags (Md_fdvec D3 i) = MD_FD_FREE" "i < a \<Longrightarrow> Md_fdvec D3 i = Md_fdvec D1 i"
    "md_segs D3 = md_segs D1" "fs D3 = fs D1" "Nfds D3 = Nfds D1" "CurFd D3 = CurFd D1"
  using assms(1) by (auto simp: D3 fold_upd_entry)

lemma md_init_fdvec:
  assumes "CurFd D = 0" "1 < Nfds D"
  shows "\<exists>D'. md_init D = (SM_SUCCESS, D') \<and> fdvec_ok D' [] \<and> CurFd D' = 0 \<and> fs D' = fs D \<and> md_segs D' = md_segs D"
proof -
  define D' where "D' = snd (md_init D)"
  define D3 where "D3 = upd_entry (fold (\<lambda>i D. upd_entry D i (\<lambda>v. v\<lparr>md_fd_next_free := int i + 1, md_fd_flags := MD_FD_FREE\<rparr>)) [0..<Nfds D]
      (D\<lparr>Md_fdvec := (\<lambda>_. zero_mdfdvec)\<rparr>)) (Nfds D - 1) (\<lambda>v. v\<lparr>md_fd_next_free := -1\<rparr>)"
  have D': "D' = D3\<lparr>MdFree := 0\<rparr>" by (simp add: D'_def md_init_def Let_def D3_def upd_entry_def)
  have n: "0 < Nfds D" using assms(2) by simp
  note f = fresh_entries [OF n D3_def]
  have "fpath (\<lambda>i. md_fd_next_free (Md_fdvec D' i)) (int 0) [0..<Nfds D]" using n f(1) by (intro fpath_upt) (auto simp: D')
  then have "fdvec_ok D' []" using assms f(2,6,7) by (simp add: fdvec_ok_def D')
  then show ?thesis using assms f(4-7) by (intro exI [of _ D']) (simp add: D' md_init_def Let_def D3_def upd_entry_def)
qed

lemma fdvec_alloc_ok:
  assumes ok: "fdvec_ok D ys"
  shows "\<exists>i D' ys'. fdvec_alloc D = Inr (i, D') \<and> fdvec_ok D' ys' \<and> \<not> in_use D i \<and> in_use D' i \<and>
    (\<forall>j. j \<noteq> i \<longrightarrow> in_use D j \<longrightarrow> in_use D' j \<and> Md_fdvec D' j = Md_fdvec D j) \<and> md_segs D' = md_segs D \<and> fs D' = fs D"
proof (cases "MdFree D \<ge> 0")
  case True
  then obtain i zs where z: "ys @ [CurFd D..<Nfds D] = i # zs" "MdFree D = int i" "fpath (\<lambda>i. md_fd_next_free (Md_fdvec D i)) (md_fd_next_free (Md_fdvec D i)) zs"
    using ok by (cases "ys @ [CurFd D..<Nfds D]") (auto simp: fdvec_ok_def)
  define D2 where "D2 = upd_entry (D\<lparr>MdFree := md_fd_next_free (Md_fdvec D i)\<rparr>) i (\<lambda>v. v\<lparr>md_fd_flags := 0\<rparr>)"
  show ?thesis
  proof (cases ys)
    case Nil
    then have i: "i = CurFd D" "zs = [Suc (CurFd D)..<Nfds D]" "CurFd D < Nfds D" using z(1) by (auto simp: upt_eq_Cons_conv)
    have "fdvec_ok (D2\<lparr>CurFd := CurFd D + 1\<rparr>) []"
      using ok z(3) i Nil by (auto simp: fdvec_ok_def D2_def intro: iffD1 [OF fpath_cong])
    moreover have "md_fd_flags (Md_fdvec D i) = MD_FD_FREE" using ok i by (simp add: fdvec_ok_def)
    ultimately show ?thesis using z(2) i
      by (intro exI [of _ i] exI [of _ "D2\<lparr>CurFd := CurFd D + 1\<rparr>"] exI [of _ "[]"]) (auto simp: fdvec_alloc_def Let_def c_assert_def D2_def in_use_def)
  next
    case (Cons y ys')
    then have i: "i = y" "zs = ys' @ [CurFd D..<Nfds D]" "i < CurFd D" "i \<notin> set ys'" using z(1) ok by (auto simp: fdvec_ok_def)
    have fl: "md_fd_flags (Md_fdvec D i) = MD_FD_FREE" using ok i Cons by (simp add: fdvec_ok_def)
    have "fpath (\<lambda>j. md_fd_next_free (Md_fdvec D2 j)) (MdFree D2) zs = fpath (\<lambda>j. md_fd_next_free (Md_fdvec D j)) (MdFree D2) zs"
      by (rule fpath_cong) (simp add: D2_def)
    then have "fdvec_ok D2 ys'" using ok z(3) i Cons by (auto simp: fdvec_ok_def D2_def)
    then show ?thesis using z(2) i fl
      by (intro exI [of _ i] exI [of _ D2] exI [of _ ys']) (auto simp: fdvec_alloc_def Let_def c_assert_def D2_def in_use_def MD_FD_FREE_def)
  qed
next
  case False
  then have "ys @ [CurFd D..<Nfds D] = []" using ok by (cases "ys @ [CurFd D..<Nfds D]") (simp_all add: fdvec_ok_def)
  then have e: "ys = []" "CurFd D = Nfds D" "1 < Nfds D" using ok by (simp_all add: fdvec_ok_def)
  define c where "c = CurFd D"
  define D1 where "D1 = D\<lparr>Nfds := Nfds D * 2, Md_fdvec := (\<lambda>i. if i < CurFd D then Md_fdvec D i else zero_mdfdvec)\<rparr>"
  define D3 where "D3 = upd_entry (fold (\<lambda>i D. upd_entry D i (\<lambda>v. v\<lparr>md_fd_next_free := int i + 1, md_fd_flags := MD_FD_FREE\<rparr>)) [c..<Nfds D * 2] D1)
      (Nfds D * 2 - 1) (\<lambda>v. v\<lparr>md_fd_next_free := -1\<rparr>)"
  have n: "c < Nfds D * 2" using e by (simp add: c_def)
  note f = fresh_entries [OF n D3_def]
  define D' where "D' = upd_entry (D3\<lparr>MdFree := int c + 1, CurFd := c + 1\<rparr>) c (\<lambda>v. v\<lparr>md_fd_flags := 0\<rparr>)"
  have run: "fdvec_alloc D = Inr (c, D')" using False e by (simp add: fdvec_alloc_def Let_def D'_def D3_def D1_def c_def)
  have "fpath (\<lambda>i. md_fd_next_free (Md_fdvec D' i)) (int (Suc c)) [Suc c..<Nfds D * 2]"
    using e f(1) by (intro fpath_upt) (auto simp: D'_def c_def)
  then have fp: "fpath (\<lambda>i. md_fd_next_free (Md_fdvec D' i)) (int c + 1) [Suc c..<Nfds D * 2]" by (simp add: add.commute)
  have g: "MdFree D' = int c + 1" "CurFd D' = Suc c" "Nfds D' = Nfds D * 2" using f(6) by (simp_all add: D'_def D1_def)
  have "md_fd_flags (Md_fdvec D' i) = (if Suc c \<le> i then MD_FD_FREE else 0)" if "i < Nfds D * 2" for i
  proof (cases "i < c")
    case True
    then have "md_fd_flags (Md_fdvec D' i) = md_fd_flags (Md_fdvec D i)" using f(3) by (simp add: D'_def D1_def c_def)
    then show ?thesis using ok e True by (simp add: fdvec_ok_def c_def)
  qed (use f(2) that in \<open>auto simp: D'_def\<close>)
  then have "fdvec_ok D' []" using fp e by (simp add: fdvec_ok_def g c_def)
  moreover have "md_segs D' = md_segs D" "fs D' = fs D" using f(4,5) by (simp_all add: D'_def D1_def)
  ultimately show ?thesis using run f(3,7) by (intro exI [of _ c] exI [of _ D'] exI [of _ "[]"]) (auto simp: in_use_def D'_def D1_def c_def)
qed

lemma fdvec_free_ok:
  assumes ok: "fdvec_ok D ys" and i: "in_use D i"
  shows "\<exists>D'. fdvec_free D i = Inr D' \<and> fdvec_ok D' (i # ys) \<and> \<not> in_use D' i \<and>
    (\<forall>j. j \<noteq> i \<longrightarrow> (in_use D' j \<longleftrightarrow> in_use D j) \<and> Md_fdvec D' j = Md_fdvec D j) \<and> md_segs D' = md_segs D \<and> fs D' = fs D"
proof -
  define D' where "D' = (upd_entry (upd_entry D i (\<lambda>v. v\<lparr>md_fd_next_free := MdFree D\<rparr>)) i (\<lambda>v. v\<lparr>md_fd_flags := MD_FD_FREE\<rparr>))\<lparr>MdFree := int i\<rparr>"
  have ic: "i < CurFd D" "i \<notin> set ys" using ok i by (auto simp: fdvec_ok_def in_use_def MD_FD_FREE_def)
  have fr: "MdFree D < 0 \<or> md_fd_flags (Md_fdvec D (nat (MdFree D))) = MD_FD_FREE"
  proof (cases "ys @ [CurFd D..<Nfds D]")
    case (Cons a as)
    then have "a \<in> set (ys @ [CurFd D..<Nfds D])" "MdFree D = int a" using ok by (auto simp: fdvec_ok_def)
    then show ?thesis using ok by (auto simp: fdvec_ok_def)
  qed (use ok in \<open>simp add: fdvec_ok_def\<close>)
  have run: "fdvec_free D i = Inr D'" using fr i by (simp add: fdvec_free_def Let_def c_assert_def D'_def in_use_def MD_FD_FREE_def)
  have "fpath (\<lambda>j. md_fd_next_free (Md_fdvec D' j)) (MdFree D) (ys @ [CurFd D..<Nfds D]) =
      fpath (\<lambda>j. md_fd_next_free (Md_fdvec D j)) (MdFree D) (ys @ [CurFd D..<Nfds D])"
    by (rule fpath_cong) (use ic in \<open>auto simp: D'_def\<close>)
  then have "fdvec_ok D' (i # ys)" using ok ic by (auto simp: fdvec_ok_def D'_def)
  then show ?thesis using run by (intro exI [of _ D']) (auto simp: D'_def in_use_def MD_FD_FREE_def)
qed

end
