(* ===== verification/MdSpec.thy ===== *)
theory MdSpec
  imports Md
begin

text \<open>
  What the magnetic disk manager does to a relation. \<open>disk_rel\<close> says how a relation lies on disk: full segments, a last one, and nothing
  behind it. \<open>open_rel\<close> relates an open relation to its segments: the chain of vectors covers a prefix of them, and each vector
  has a file of the file layer. Opening segments, counting, reading, writing, extending and truncating are proved against the list of
  segments, with what they leave alone (\<open>md_frame\<close>).
\<close>

section \<open>Names of segments\<close>

lemma digits_nonempty: "digits n \<noteq> []"
  by (subst digits.simps) simp

lemma digits_inj: "digits m = digits n \<Longrightarrow> m = n"
proof (induction m arbitrary: n rule: digits.induct)
  case (1 m)
  have eq: "char_of (48 + i) = (char_of (48 + j) :: char) \<longleftrightarrow> i = j" if "i < 10" "j < 10" for i j :: nat
  proof
    assume "char_of (48 + i) = (char_of (48 + j) :: char)"
    then have "(48 + i) mod 256 = (48 + j) mod 256" by (metis of_char_of)
    then show "i = j" using that by simp
  qed simp
  have u: "digits k = (if k < 10 then [char_of (48 + k)] else digits (k div 10) @ [char_of (48 + k mod 10)])" for k by (rule digits.simps)
  show ?case
  proof (cases "m < 10"; cases "n < 10")
    assume "m < 10" "n < 10"
    then show ?thesis using 1(2) eq [of m n] by (simp add: u [of m] u [of n])
  next
    assume c: "m < 10" "\<not> n < 10"
    then show ?thesis using 1(2) digits_nonempty [of "n div 10"] by (simp add: u [of m] u [of n])
  next
    assume c: "\<not> m < 10" "n < 10"
    then show ?thesis using 1(2) digits_nonempty [of "m div 10"] by (simp add: u [of m] u [of n])
  next
    assume c: "\<not> m < 10" "\<not> n < 10"
    then have "digits (m div 10) = digits (n div 10)" "char_of (48 + m mod 10) = (char_of (48 + n mod 10) :: char)"
      using 1(2) by (simp_all add: u [of m] u [of n])
    then have "m div 10 = n div 10" "m mod 10 = n mod 10" using 1(1) [OF c(1)] eq by simp_all
    then show ?thesis by (metis div_mult_mod_eq)
  qed
qed

definition sname :: "string \<Rightarrow> nat \<Rightarrow> string" where
  "sname p i = seg_path p (int i)"

lemma sname_inj: "sname p i = sname p j \<longleftrightarrow> i = j"
  using digits_inj [of i j] by (auto simp: sname_def seg_path_def decimal_def split: if_splits)

lemma sname_abs: "p = CHR ''/'' # q \<Longrightarrow> \<exists>q'. sname p i = CHR ''/'' # q'"
  by (simp add: sname_def seg_path_def)

section \<open>A relation on disk\<close>

definition SEGSZ :: nat where "SEGSZ = RELSEG_SIZE * BLCKSZ"

lemma sizes: "BLCKSZ = 8192" "RELSEG_SIZE = 131072" "SEGSZ = 1073741824"
  by (simp_all add: BLCKSZ_def RELSEG_SIZE_def SEGSZ_def)

definition disk_rel :: "(string \<rightharpoonup> byte list) \<Rightarrow> string \<Rightarrow> byte list list \<Rightarrow> bool" where
  "disk_rel d p Fs \<longleftrightarrow> Fs \<noteq> [] \<and> (\<forall>i < length Fs. d (sname p i) = Some (Fs ! i)) \<and>
     (\<forall>i. length Fs \<le> i \<longrightarrow> d (sname p i) = None \<or> d (sname p i) = Some []) \<and>
     (\<forall>i. Suc i < length Fs \<longrightarrow> length (Fs ! i) = SEGSZ) \<and> length (last Fs) \<le> SEGSZ"

definition rel_blocks :: "byte list list \<Rightarrow> nat" where
  "rel_blocks Fs = (length Fs - 1) * RELSEG_SIZE + length (last Fs) div BLCKSZ"

text \<open>Block \<open>b\<close> of the relation.\<close>

definition rel_block :: "byte list list \<Rightarrow> nat \<Rightarrow> byte list" where
  "rel_block Fs b = take BLCKSZ (drop (b mod RELSEG_SIZE * BLCKSZ) (Fs ! (b div RELSEG_SIZE)))"

lemma last_seg: "i < length Fs \<Longrightarrow> \<not> Suc i < length Fs \<Longrightarrow> last Fs = Fs ! i"
  by (cases Fs rule: rev_cases) (auto simp: nth_append)

lemma disk_rel_seg:
  assumes "disk_rel d p Fs" "i < length Fs"
  shows "d (sname p i) = Some (Fs ! i)" "length (Fs ! i) \<le> SEGSZ"
proof -
  show "d (sname p i) = Some (Fs ! i)" using assms by (simp add: disk_rel_def)
  show "length (Fs ! i) \<le> SEGSZ"
    using assms last_seg [OF assms(2)] by (cases "Suc i < length Fs") (simp_all add: disk_rel_def)
qed

lemma disk_rel_cong: "disk_rel d p Fs \<Longrightarrow> (\<And>i. d' (sname p i) = d (sname p i)) \<Longrightarrow> disk_rel d' p Fs"
  by (simp add: disk_rel_def)

lemma disk_rel_snoc:
  assumes "disk_rel d p Fs" "length (last Fs) = SEGSZ" "d' (sname p (length Fs)) = Some []" "\<And>i. i \<noteq> length Fs \<Longrightarrow> d' (sname p i) = d (sname p i)"
  shows "disk_rel d' p (Fs @ [[]])"
proof -
  have "length (Fs ! i) = SEGSZ" if "i < length Fs" for i
    using assms(1,2) last_seg [OF that] that by (cases "Suc i < length Fs") (simp_all add: disk_rel_def)
  moreover have "d' (sname p i) = Some ((Fs @ [[]]) ! i)" if "i < length (Fs @ [[]])" for i
    using that assms(3,4) disk_rel_seg(1) [OF assms(1), of i] by (cases "i < length Fs") (simp_all add: nth_append less_Suc_eq)
  moreover have "d' (sname p i) = None \<or> d' (sname p i) = Some []" if "length (Fs @ [[]]) \<le> i" for i
    using that assms(1,4) by (simp add: disk_rel_def)
  ultimately show ?thesis by (auto simp: disk_rel_def nth_append)
qed

lemma rel_blocks_snoc: "Fs \<noteq> [] \<Longrightarrow> length (last Fs) = SEGSZ \<Longrightarrow> rel_blocks (Fs @ [[]]) = rel_blocks Fs"
  by (cases "length Fs") (simp_all add: rel_blocks_def sizes)

text \<open>Counting may open one more, empty, segment behind a full one.\<close>

definition padded :: "byte list list \<Rightarrow> byte list list \<Rightarrow> bool" where
  "padded Fs Fs' \<longleftrightarrow> Fs' = Fs \<or> length (last Fs) = SEGSZ \<and> Fs' = Fs @ [[]]"

section \<open>An open relation\<close>

definition seg_view :: "('s \<Rightarrow> nat \<Rightarrow> fview option) \<Rightarrow> 's \<Rightarrow> string \<Rightarrow> nat \<Rightarrow> int \<Rightarrow> bool" where
  "seg_view vw s p i vfd \<longleftrightarrow> 0 \<le> vfd \<and> (\<exists>w. vw s (nat vfd) = Some w \<and> v_name w = sname p i \<and> in_range w \<and> \<not> v_tmp w)"

text \<open>The chain of vectors \<open>rs\<close> of relation \<open>p\<close>, whose table entry is \<open>f\<close>.\<close>

definition seg_chain :: "('s \<Rightarrow> nat \<Rightarrow> fview option) \<Rightarrow> string \<Rightarrow> nat \<Rightarrow> 's md \<Rightarrow> md_ref list \<Rightarrow> bool" where
  "seg_chain vw p f D rs \<longleftrightarrow> rs \<noteq> [] \<and> rs ! 0 = Entry f \<and> distinct rs \<and>
     (\<forall>i < length rs. \<exists>v. deref D (rs ! i) = Inr v \<and> next_ref v = (if Suc i < length rs then Some (rs ! Suc i) else None) \<and>
        seg_view vw (fs D) p i (md_fd_vfd v))"

definition open_rel ::
  "('s \<Rightarrow> bool) \<Rightarrow> ('s \<Rightarrow> nat \<Rightarrow> fview option) \<Rightarrow> ('s \<Rightarrow> string \<rightharpoonup> byte list) \<Rightarrow> string \<Rightarrow> nat \<Rightarrow> 's md \<Rightarrow> byte list list \<Rightarrow> md_ref list \<Rightarrow> bool" where
  "open_rel I vw disk p f D Fs rs \<longleftrightarrow> I (fs D) \<and> disk_rel (disk (fs D)) p Fs \<and> length rs \<le> length Fs \<and> seg_chain vw p f D rs \<and>
     finite (dom (md_segs D)) \<and> in_use D f"

text \<open>What an operation on relation \<open>p\<close> leaves alone: other files, other open files, other entries and their chains.\<close>

definition md_frame ::
  "('s \<Rightarrow> nat \<Rightarrow> fview option) \<Rightarrow> ('s \<Rightarrow> string \<rightharpoonup> byte list) \<Rightarrow> string \<Rightarrow> nat \<Rightarrow> 's md \<Rightarrow> md_ref list \<Rightarrow> 's md \<Rightarrow> md_ref list \<Rightarrow> bool" where
  "md_frame vw disk p f D rs D' rs' \<longleftrightarrow>
     (\<forall>n. n \<notin> range (sname p) \<longrightarrow> disk (fs D') n = disk (fs D) n) \<and>
     (\<forall>e w. vw (fs D) e = Some w \<longrightarrow> v_name w \<notin> range (sname p) \<longrightarrow> fv_le (vw (fs D) e) (vw (fs D') e)) \<and>
     (\<forall>j. j \<noteq> f \<longrightarrow> Md_fdvec D' j = Md_fdvec D j) \<and>
     (\<forall>a v. md_segs D a = Some v \<longrightarrow> Chunk a \<notin> set rs \<longrightarrow> md_segs D' a = Some v \<and> Chunk a \<notin> set rs') \<and>
     MdFree D' = MdFree D \<and> CurFd D' = CurFd D \<and> Nfds D' = Nfds D"

lemma md_frame_refl: "md_frame vw disk p f D rs D rs"
  by (simp add: md_frame_def)

lemma md_frame_trans:
  assumes "md_frame vw disk p f D rs D1 rs1" "md_frame vw disk p f D1 rs1 D2 rs2"
  shows "md_frame vw disk p f D rs D2 rs2"
proof -
  have "fv_le (vw (fs D) e) (vw (fs D2) e)" if w: "vw (fs D) e = Some w" "v_name w \<notin> range (sname p)" for e w
  proof -
    have 1: "fv_le (vw (fs D) e) (vw (fs D1) e)" using assms(1) w by (simp add: md_frame_def)
    then obtain w1 where "vw (fs D1) e = Some w1" "v_name w1 = v_name w" using w(1) by (auto simp: fv_le_Some)
    then have "fv_le (vw (fs D1) e) (vw (fs D2) e)" using assms(2) w(2) by (simp add: md_frame_def)
    then show ?thesis by (rule fv_le_trans [OF 1])
  qed
  then show ?thesis using assms unfolding md_frame_def by simp
qed

text \<open>Another open relation does not notice.\<close>

lemma seg_view_le: "seg_view vw s p i e \<Longrightarrow> fv_le (vw s (nat e)) (vw s' (nat e)) \<Longrightarrow> seg_view vw s' p i e"
  by (auto simp: seg_view_def fv_le_Some in_range_def)

lemma chain_at:
  "seg_chain vw p f D rs \<Longrightarrow> i < length rs \<Longrightarrow>
    \<exists>v. deref D (rs ! i) = Inr v \<and> next_ref v = (if Suc i < length rs then Some (rs ! Suc i) else None) \<and> seg_view vw (fs D) p i (md_fd_vfd v)"
  by (simp add: seg_chain_def)

lemma chain_kind:
  assumes c: "seg_chain vw q g D ts" and i: "i < length ts"
  shows "i = 0 \<and> ts ! i = Entry g \<or> (\<exists>a v. a \<noteq> 0 \<and> ts ! i = Chunk a \<and> md_segs D a = Some v)"
proof (cases i)
  case (Suc j)
  then obtain v where "next_ref v = Some (ts ! i)" using chain_at [OF c, of j] i by auto
  moreover obtain v' where "deref D (ts ! i) = Inr v'" using chain_at [OF c i] by blast
  ultimately show ?thesis by (auto simp: next_ref_def deref_def split: if_splits md_ref.splits option.splits)
qed (use c in \<open>simp add: seg_chain_def\<close>)

lemma open_rel_keep:
  assumes o: "open_rel I vw disk q g D Gs ts" and i: "I (fs D')" "finite (dom (md_segs D'))" "in_use D' g" "Md_fdvec D' g = Md_fdvec D g"
    and ch: "\<And>a v. Chunk a \<in> set ts \<Longrightarrow> md_segs D a = Some v \<Longrightarrow> md_segs D' a = Some v"
    and vs: "\<And>e w i. vw (fs D) e = Some w \<Longrightarrow> v_name w = sname q i \<Longrightarrow> fv_le (vw (fs D) e) (vw (fs D') e)"
    and d: "\<And>i. disk (fs D') (sname q i) = disk (fs D) (sname q i)"
  shows "open_rel I vw disk q g D' Gs ts"
proof -
  have c: "seg_chain vw q g D ts" using o by (simp add: open_rel_def)
  have same: "deref D' (ts ! i) = deref D (ts ! i)" if i: "i < length ts" for i
    using chain_kind [OF c i] ch nth_mem [OF i] assms(5) by (auto simp: deref_def)
  have "\<exists>v. deref D' (ts ! i) = Inr v \<and> next_ref v = (if Suc i < length ts then Some (ts ! Suc i) else None) \<and> seg_view vw (fs D') q i (md_fd_vfd v)"
    if i: "i < length ts" for i
  proof -
    obtain v where v: "deref D (ts ! i) = Inr v" "next_ref v = (if Suc i < length ts then Some (ts ! Suc i) else None)" "seg_view vw (fs D) q i (md_fd_vfd v)"
      using chain_at [OF c i] by blast
    obtain w where w: "vw (fs D) (nat (md_fd_vfd v)) = Some w" "v_name w = sname q i" using v(3) by (auto simp: seg_view_def)
    show ?thesis using v same [OF i] seg_view_le [OF v(3) vs [OF w]] by (intro exI [of _ v]) simp
  qed
  then have "seg_chain vw q g D' ts" using c by (simp add: seg_chain_def)
  moreover have "disk_rel (disk (fs D')) q Gs"
  proof (rule disk_rel_cong)
    show "disk_rel (disk (fs D)) q Gs" using o by (simp add: open_rel_def)
  qed (rule d)
  ultimately show ?thesis using o i by (simp add: open_rel_def)
qed

lemma frame_other:
  assumes fr: "md_frame vw disk p f D rs D' rs'" and o: "open_rel I vw disk q g D Gs ts" and i: "I (fs D')" "finite (dom (md_segs D'))"
    and dj: "\<And>i. sname q i \<notin> range (sname p)" "g \<noteq> f" "\<And>a. Chunk a \<in> set ts \<Longrightarrow> Chunk a \<notin> set rs"
  shows "open_rel I vw disk q g D' Gs ts \<and> (\<forall>a. Chunk a \<in> set ts \<longrightarrow> Chunk a \<notin> set rs')"
proof -
  have c: "seg_chain vw q g D ts" using o by (simp add: open_rel_def)
  have "Chunk a \<notin> set rs'" if a: "Chunk a \<in> set ts" for a
  proof -
    obtain i where "i < length ts" "ts ! i = Chunk a" using a by (auto simp: in_set_conv_nth)
    then obtain v where "md_segs D a = Some v" using chain_kind [OF c] by fastforce
    then show ?thesis using fr dj(3) [OF a] by (simp add: md_frame_def)
  qed
  moreover have "open_rel I vw disk q g D' Gs ts"
  proof (rule open_rel_keep [OF o i])
    show "in_use D' g" "Md_fdvec D' g = Md_fdvec D g" using o fr dj(2) by (simp_all add: open_rel_def in_use_def md_frame_def)
    show "md_segs D' a = Some v" if "Chunk a \<in> set ts" "md_segs D a = Some v" for a v using fr dj(3) that by (simp add: md_frame_def)
    show "fv_le (vw (fs D) e) (vw (fs D') e)" if "vw (fs D) e = Some w" "v_name w = sname q i" for e w i using fr dj(1) that unfolding md_frame_def by metis
    show "disk (fs D') (sname q i) = disk (fs D) (sname q i)" for i using fr dj(1) [of i] unfolding md_frame_def by blast
  qed
  ultimately show ?thesis by blast
qed

lemma deref_fs [simp]: "deref (D\<lparr>fs := s\<rparr>) r = deref D r"
  by (simp add: deref_def split: md_ref.split)

lemma deref_upd: "deref D r = Inr v \<Longrightarrow> deref (upd_ref D r f) r' = (if r' = r then Inr (f v) else deref D r')"
  by (auto simp: deref_def upd_ref_def split: md_ref.splits option.splits)

lemma upd_ref_fields [simp]: "fs (upd_ref D r f) = fs D" "MdFree (upd_ref D r f) = MdFree D" "CurFd (upd_ref D r f) = CurFd D" "Nfds (upd_ref D r f) = Nfds D"
  by (simp_all add: upd_ref_def split: md_ref.split)

lemma full_seg: "n \<le> SEGSZ \<Longrightarrow> n div BLCKSZ = RELSEG_SIZE \<longleftrightarrow> n = SEGSZ" "n \<le> SEGSZ \<Longrightarrow> n div BLCKSZ \<le> RELSEG_SIZE"
  by (auto simp: sizes div_eq_dividend_iff intro: antisym)

lemma block_seg:
  assumes "disk_rel d p Fs" "b < rel_blocks Fs"
  shows "b div RELSEG_SIZE < length Fs"
proof (rule less_mult_imp_div_less)
  have "length (last Fs) div BLCKSZ \<le> RELSEG_SIZE" using assms(1) by (intro full_seg(2)) (simp add: disk_rel_def)
  then have "rel_blocks Fs \<le> (length Fs - 1) * RELSEG_SIZE + RELSEG_SIZE" by (simp add: rel_blocks_def)
  also have "\<dots> = length Fs * RELSEG_SIZE" using assms(1) by (cases "length Fs") (simp_all add: disk_rel_def)
  finally show "b < length Fs * RELSEG_SIZE" using assms(2) by simp
qed

lemma disk_rel_update:
  assumes d: "disk_rel d p Fs" and i: "i < length Fs" and l: "Suc i < length Fs \<Longrightarrow> length bs = SEGSZ" "length bs \<le> SEGSZ"
  shows "disk_rel (d(sname p i \<mapsto> bs)) p (Fs[i := bs])"
proof -
  have "length (last (Fs[i := bs])) \<le> SEGSZ" using d l(2) i by (auto simp: disk_rel_def last_list_update)
  moreover have "length (Fs[i := bs] ! j) = SEGSZ" if "Suc j < length Fs" for j using d l(1) that by (cases "j = i") (simp_all add: disk_rel_def)
  moreover have "(d(sname p i \<mapsto> bs)) (sname p j) = Some (Fs[i := bs] ! j)" if "j < length Fs" for j
    using d that i sname_inj [of p j i] by (cases "j = i") (simp_all add: disk_rel_def)
  moreover have "(d(sname p i \<mapsto> bs)) (sname p j) = None \<or> (d(sname p i \<mapsto> bs)) (sname p j) = Some []" if "length Fs \<le> j" for j
    using d that i sname_inj [of p j i] by (auto simp: disk_rel_def)
  ultimately show ?thesis using d by (simp add: disk_rel_def)
qed

lemma write_at_within: "p + length data \<le> length bs \<Longrightarrow> write_at bs p data = take p bs @ data @ drop (p + length data) bs"
  by (simp add: write_at_def)

lemma write_at_length: "p + length data \<le> length bs \<Longrightarrow> length (write_at bs p data) = length bs"
  by (simp add: write_at_within)

lemma write_at_same: "p + length data \<le> length bs \<Longrightarrow> take (length data) (drop p (write_at bs p data)) = data"
  by (simp add: write_at_within)

lemma write_at_other:
  "p + length data \<le> length bs \<Longrightarrow> q + m \<le> p \<or> p + length data \<le> q \<Longrightarrow> take m (drop q (write_at bs p data)) = take m (drop q bs)"
  by (rule nth_equalityI) (auto simp: write_at_within nth_append)

lemma block_present:
  assumes d: "disk_rel d p Fs" and b: "b < rel_blocks Fs"
  shows "b mod RELSEG_SIZE * BLCKSZ + BLCKSZ \<le> length (Fs ! (b div RELSEG_SIZE))"
proof -
  define i k where "i = b div RELSEG_SIZE" and "k = b mod RELSEG_SIZE"
  have i: "i < length Fs" "b = i * RELSEG_SIZE + k" "k < RELSEG_SIZE" using block_seg [OF d b] by (simp_all add: i_def k_def sizes)
  show ?thesis
  proof (cases "Suc i < length Fs")
    case True
    then have "length (Fs ! i) = SEGSZ" using d by (simp add: disk_rel_def)
    then show ?thesis using i(3) unfolding i_def [symmetric] k_def [symmetric] by (simp add: sizes)
  next
    case False
    then have l: "length Fs - 1 = i" "last Fs = Fs ! i" using i(1) last_seg [OF i(1)] by simp_all
    then have "k < length (Fs ! i) div BLCKSZ" using b i(2) by (simp add: rel_blocks_def)
    then have "Suc k * BLCKSZ \<le> length (Fs ! i)" by (metis Suc_leI div_times_less_eq_dividend le_trans mult_le_mono1)
    then show ?thesis by (simp add: i_def [symmetric] k_def [symmetric])
  qed
qed

text \<open>Writing (part of) block \<open>b\<close> changes no other block.\<close>

lemma write_block:
  assumes d: "disk_rel d p Fs" and b: "b < rel_blocks Fs" and data: "length data \<le> BLCKSZ"
    and Fs': "Fs' = Fs[b div RELSEG_SIZE := write_at (Fs ! (b div RELSEG_SIZE)) (b mod RELSEG_SIZE * BLCKSZ) data]"
  shows "disk_rel (d(sname p (b div RELSEG_SIZE) \<mapsto> write_at (Fs ! (b div RELSEG_SIZE)) (b mod RELSEG_SIZE * BLCKSZ) data)) p Fs'"
    "length Fs' = length Fs" "rel_blocks Fs' = rel_blocks Fs" "\<And>c. c \<noteq> b \<Longrightarrow> rel_block Fs' c = rel_block Fs c"
    "length data = BLCKSZ \<Longrightarrow> rel_block Fs' b = data"
proof -
  define i k where "i = b div RELSEG_SIZE" and "k = b mod RELSEG_SIZE"
  have i: "i < length Fs" using block_seg [OF d b] by (simp add: i_def)
  have w: "k * BLCKSZ + length data \<le> length (Fs ! i)" using block_present [OF d b] data by (simp add: i_def k_def)
  note l = write_at_length [OF w]
  have Fs'': "Fs' = Fs[i := write_at (Fs ! i) (k * BLCKSZ) data]" by (simp add: Fs' i_def k_def)
  have "disk_rel (d(sname p i \<mapsto> write_at (Fs ! i) (k * BLCKSZ) data)) p Fs'" unfolding Fs''
    by (rule disk_rel_update [OF d i]) (use l d disk_rel_seg(2) [OF d i] in \<open>auto simp: disk_rel_def\<close>)
  then show "disk_rel (d(sname p (b div RELSEG_SIZE) \<mapsto> write_at (Fs ! (b div RELSEG_SIZE)) (b mod RELSEG_SIZE * BLCKSZ) data)) p Fs'"
    by (simp add: i_def k_def)
  show "length Fs' = length Fs" by (simp add: Fs'')
  have "length (last Fs') = length (last Fs)"
  proof (cases "Suc i < length Fs")
    case True
    then have "i \<noteq> length Fs - 1" "Fs \<noteq> []" by auto
    then show ?thesis by (simp add: Fs'' last_list_update)
  next
    case False
    then have "i = length Fs - 1" "Fs \<noteq> []" using i by auto
    then have "last Fs' = write_at (Fs ! i) (k * BLCKSZ) data" unfolding Fs'' by (subst last_list_update) auto
    then show ?thesis using l last_seg [OF i False] by simp
  qed
  then show "rel_blocks Fs' = rel_blocks Fs" by (simp add: rel_blocks_def Fs'')
  show "rel_block Fs' b = data" if "length data = BLCKSZ"
    using write_at_same [OF w] that i by (simp add: rel_block_def Fs'' i_def [symmetric] k_def [symmetric])
  show "rel_block Fs' c = rel_block Fs c" if c: "c \<noteq> b" for c
  proof (cases "c div RELSEG_SIZE = i")
    case True
    then have "c mod RELSEG_SIZE \<noteq> k" using c by (metis i_def k_def div_mult_mod_eq)
    then have "c mod RELSEG_SIZE * BLCKSZ + BLCKSZ \<le> k * BLCKSZ \<or> k * BLCKSZ + length data \<le> c mod RELSEG_SIZE * BLCKSZ"
      using data by (simp add: sizes) linarith
    from write_at_other [OF w this] show ?thesis using True i by (simp add: rel_block_def Fs'')
  qed (simp add: rel_block_def Fs'')
qed

lemma to_int_small: "0 \<le> x \<Longrightarrow> x < 2 ^ 31 \<Longrightarrow> to_int x = x"
  unfolding to_int_def by (subst sint_sbintrunc', subst signed_take_bit_int_eq_self) simp_all

lemma block_pos: "block_pos b = int (unat b mod RELSEG_SIZE * BLCKSZ)"
proof -
  have m: "unat (b mod 131072) = unat b mod 131072" by (simp add: unat_mod)
  have "unat b mod 131072 < 131072" by simp
  then have "unat (8192 * (b mod 131072)) = 8192 * (unat b mod 131072)" by (simp add: unat_mult_lem [THEN iffD1] m)
  then show ?thesis by (simp add: block_pos_def sizes uint_nat)
qed

lemma block_number:
  fixes b :: "32 word"
  assumes "unat b < 2 ^ 31"
  shows "sint b = int (unat b)"
proof -
  have "uint b = int (unat b)" by simp
  then have "uint b < 2 ^ 31" using assms by (metis of_nat_less_iff of_nat_numeral of_nat_power)
  moreover have "0 \<le> uint b" by simp
  moreover have "sint (word_of_int x :: 32 word) = x" if "0 \<le> x" "x < 2 ^ 31" for x
    using that by (subst sint_sbintrunc', subst signed_take_bit_int_eq_self) simp_all
  ultimately have "sint (word_of_int (uint b) :: 32 word) = uint b" by blast
  then show ?thesis by simp
qed

locale segments = file_layer F inv vw disk
  for F :: "'s file_ops" and inv :: "'s \<Rightarrow> bool" and vw :: "'s \<Rightarrow> nat \<Rightarrow> fview option" and disk :: "'s \<Rightarrow> string \<rightharpoonup> byte list" +
  fixes E :: "'s md_env" and dir :: string
  assumes ops: "file_ops E = F" and absolute: "DataDir E = CHR ''/'' # dir"
    and memory: "finite (dom h) \<Longrightarrow> \<exists>a. new_seg E h = Some a \<and> h a = None \<and> a \<noteq> 0"
begin

lemma seg_at:
  assumes o: "open_rel inv vw disk p f D Fs rs" and i: "i < length rs"
  obtains v w where "deref D (rs ! i) = Inr v" "next_ref v = (if Suc i < length rs then Some (rs ! Suc i) else None)" "0 \<le> md_fd_vfd v"
    "vw (fs D) (nat (md_fd_vfd v)) = Some w" "v_name w = sname p i" "in_range w" "\<not> v_tmp w" "i < length Fs"
    "disk (fs D) (v_name w) = Some (Fs ! i)" "length (Fs ! i) \<le> SEGSZ"
proof -
  obtain v where v: "deref D (rs ! i) = Inr v" "next_ref v = (if Suc i < length rs then Some (rs ! Suc i) else None)" "seg_view vw (fs D) p i (md_fd_vfd v)"
    using o i by (auto simp: open_rel_def seg_chain_def)
  then obtain w where w: "0 \<le> md_fd_vfd v" "vw (fs D) (nat (md_fd_vfd v)) = Some w" "v_name w = sname p i" "in_range w" "\<not> v_tmp w"
    by (auto simp: seg_view_def)
  have l: "i < length Fs" "disk_rel (disk (fs D)) p Fs" using o i by (simp_all add: open_rel_def)
  show ?thesis using that [OF v(1,2) w l(1)] disk_rel_seg [OF l(2,1)] w(3) by simp
qed

text \<open>An operation of the file layer on the file of segment \<open>i\<close>.\<close>

lemma seg_step:
  assumes o: "open_rel inv vw disk p f D Fs rs" and i: "i < length rs" and v: "deref D (rs ! i) = Inr v"
    and s': "inv s'" "fv_upd (vw (fs D)) (vw s') (nat (md_fd_vfd v)) (Some w')" "v_name w' = sname p i" "in_range w'" "\<not> v_tmp w'"
    and d: "disk_rel (disk s') p Fs'" "length rs \<le> length Fs'" "\<And>n. n \<notin> range (sname p) \<Longrightarrow> disk s' n = disk (fs D) n"
  shows "open_rel inv vw disk p f (D\<lparr>fs := s'\<rparr>) Fs' rs" "md_frame vw disk p f D rs (D\<lparr>fs := s'\<rparr>) rs"
proof -
  obtain v1 w where "deref D (rs ! i) = Inr v1" "vw (fs D) (nat (md_fd_vfd v1)) = Some w" "v_name w = sname p i" "0 \<le> md_fd_vfd v1"
    by (rule seg_at [OF o i])
  then have w: "vw (fs D) (nat (md_fd_vfd v)) = Some w" "v_name w = sname p i" "0 \<le> md_fd_vfd v" using v by simp_all
  have le: "fv_le (vw (fs D) e) (vw s' e)" if "e \<noteq> nat (md_fd_vfd v)" for e using s'(2) that by (simp add: fv_upd_def)
  have me: "seg_view vw s' p i (md_fd_vfd v)" using s'(2-5) w(3) by (auto simp: seg_view_def fv_upd_def fv_le_Some in_range_def)
  have "\<exists>u. deref D (rs ! j) = Inr u \<and> next_ref u = (if Suc j < length rs then Some (rs ! Suc j) else None) \<and> seg_view vw s' p j (md_fd_vfd u)"
    if j: "j < length rs" for j
  proof -
    obtain u where u: "deref D (rs ! j) = Inr u" "next_ref u = (if Suc j < length rs then Some (rs ! Suc j) else None)" "seg_view vw (fs D) p j (md_fd_vfd u)"
      using o j by (auto simp: open_rel_def seg_chain_def)
    have "seg_view vw s' p j (md_fd_vfd u)"
    proof (cases "j = i")
      case False
      then have "nat (md_fd_vfd u) \<noteq> nat (md_fd_vfd v)" using u(3) w(1,2) sname_inj [of p j i] by (auto simp: seg_view_def)
      then show ?thesis using seg_view_le [OF u(3)] le by blast
    qed (use me u(1) v in simp)
    then show ?thesis using u by blast
  qed
  then have "seg_chain vw p f (D\<lparr>fs := s'\<rparr>) rs" using o by (simp add: open_rel_def seg_chain_def)
  then show "open_rel inv vw disk p f (D\<lparr>fs := s'\<rparr>) Fs' rs" using o s'(1) d(1,2) by (simp add: open_rel_def in_use_def)
  have "fv_le (vw (fs D) e) (vw s' e)" if "vw (fs D) e = Some u" "v_name u \<notin> range (sname p)" for e u
    using le [of e] that w(1,2) by (cases "e = nat (md_fd_vfd v)") auto
  then show "md_frame vw disk p f D rs (D\<lparr>fs := s'\<rparr>) rs" using d(3) by (simp add: md_frame_def)
qed

lemma seg_step_quiet:
  assumes o: "open_rel inv vw disk p f D Fs rs" and i: "i < length rs" and v: "deref D (rs ! i) = Inr v"
    and s': "inv s'" "fv_upd (vw (fs D)) (vw s') (nat (md_fd_vfd v)) (Some w')" "v_name w' = sname p i" "in_range w'" "\<not> v_tmp w'" "disk s' = disk (fs D)"
  shows "open_rel inv vw disk p f (D\<lparr>fs := s'\<rparr>) Fs rs" "md_frame vw disk p f D rs (D\<lparr>fs := s'\<rparr>) rs"
proof -
  have "disk_rel (disk s') p Fs" "length rs \<le> length Fs" using o s'(6) by (simp_all add: open_rel_def)
  note f = seg_step [OF o i v s'(1-5) this]
  show "open_rel inv vw disk p f (D\<lparr>fs := s'\<rparr>) Fs rs" "md_frame vw disk p f D rs (D\<lparr>fs := s'\<rparr>) rs" using f s'(6) by simp_all
qed

lemma seg_in_range: "n \<le> SEGSZ \<Longrightarrow> in_range (w\<lparr>v_loc := int n, v_sure := b\<rparr>)"
  by (simp add: in_range_def sizes)

lemma count_seg:
  assumes o: "open_rel inv vw disk p f D Fs rs" and i: "i < length rs" and v: "deref D (rs ! i) = Inr v"
  shows "\<exists>s'. md_nblocks_aux E (fs D) (md_fd_vfd v) = Inr (int (length (Fs ! i) div BLCKSZ), s') \<and>
    open_rel inv vw disk p f (D\<lparr>fs := s'\<rparr>) Fs rs \<and> md_frame vw disk p f D rs (D\<lparr>fs := s'\<rparr>) rs"
proof -
  obtain v1 w where w: "deref D (rs ! i) = Inr v1" "next_ref v1 = (if Suc i < length rs then Some (rs ! Suc i) else None)" "0 \<le> md_fd_vfd v1"
    "vw (fs D) (nat (md_fd_vfd v1)) = Some w" "v_name w = sname p i" "in_range w" "\<not> v_tmp w" "i < length Fs"
    "disk (fs D) (v_name w) = Some (Fs ! i)" "length (Fs ! i) \<le> SEGSZ" by (rule seg_at [OF o i])
  then have w4: "vw (fs D) (nat (md_fd_vfd v)) = Some w" and "inv (fs D)" using v o by (simp_all add: open_rel_def)
  then obtain s' where s': "f_seek F (fs D) (nat (md_fd_vfd v)) 0 SEEK_END = Inr (int (length (Fs ! i)), s')" "inv s'" "disk s' = disk (fs D)"
    "fv_upd (vw (fs D)) (vw s') (nat (md_fd_vfd v)) (Some (w\<lparr>v_loc := int (length (Fs ! i)), v_sure := True\<rparr>))"
    using seek_end_law [OF _ w4 w(6,9)] by blast
  have "to_int (int (length (Fs ! i)) div int BLCKSZ) = int (length (Fs ! i) div BLCKSZ)"
    using w(10) by (subst to_int_small) (simp_all add: sizes zdiv_int)
  then have "md_nblocks_aux E (fs D) (md_fd_vfd v) = Inr (int (length (Fs ! i) div BLCKSZ), s')"
    using s'(1) by (simp add: md_nblocks_aux_def ops)
  then show ?thesis
    using seg_step_quiet [OF o i v s'(2,4) _ seg_in_range [OF w(10)] _ s'(3)] w(5,7) by (intro exI [of _ s']) simp
qed

text \<open>A change of a vector that keeps its file and its successor.\<close>

lemma upd_step:
  assumes o: "open_rel inv vw disk p f D Fs rs" and i: "i < length rs" and v: "deref D (rs ! i) = Inr v"
    and g: "\<And>u. md_fd_vfd (g u) = md_fd_vfd u" "\<And>u. md_fd_chain (g u) = md_fd_chain u" "\<And>u. md_fd_flags (g u) = md_fd_flags u"
  shows "open_rel inv vw disk p f (upd_ref D (rs ! i) g) Fs rs" "md_frame vw disk p f D rs (upd_ref D (rs ! i) g) rs"
proof -
  let ?D = "upd_ref D (rs ! i) g"
  have c: "seg_chain vw p f D rs" using o by (simp add: open_rel_def)
  have n: "next_ref (g u) = next_ref u" for u by (simp add: next_ref_def g)
  have "\<exists>u. deref ?D (rs ! j) = Inr u \<and> next_ref u = (if Suc j < length rs then Some (rs ! Suc j) else None) \<and> seg_view vw (fs ?D) p j (md_fd_vfd u)"
    if j: "j < length rs" for j
  proof -
    obtain u where u: "deref D (rs ! j) = Inr u" "next_ref u = (if Suc j < length rs then Some (rs ! Suc j) else None)" "seg_view vw (fs D) p j (md_fd_vfd u)"
      using chain_at [OF c j] by blast
    show ?thesis using u v by (cases "rs ! j = rs ! i") (auto simp: deref_upd [OF v] n g(1))
  qed
  then have "seg_chain vw p f ?D rs" using c by (simp add: seg_chain_def)
  moreover have "dom (md_segs ?D) = dom (md_segs D)" by (auto simp: upd_ref_def split: md_ref.split if_splits)
  moreover have ek: "rs ! i = Entry j \<Longrightarrow> j = f" for j using chain_kind [OF c i] by auto
  moreover have "in_use ?D f" using o by (auto simp: open_rel_def in_use_def upd_ref_def g(3) split: md_ref.split)
  ultimately show "open_rel inv vw disk p f ?D Fs rs" using o by (simp add: open_rel_def)
  have "Md_fdvec ?D j = Md_fdvec D j" if "j \<noteq> f" for j using ek that by (auto simp: upd_ref_def split: md_ref.split)
  moreover have "md_segs ?D a = md_segs D a" if "Chunk a \<notin> set rs" for a
    using nth_mem [OF i] that by (auto simp: upd_ref_def split: md_ref.split)
  ultimately show "md_frame vw disk p f D rs ?D rs" by (simp add: md_frame_def)
qed

text \<open>A new vector \<open>nv\<close> at \<open>a\<close> behind the last one.\<close>

lemma link_step:
  assumes o: "open_rel inv vw disk p f D Fs rs" and a: "md_segs D a = None" "a \<noteq> 0" and e: "vw (fs D) e = None"
    and s': "inv s'" "fv_upd (vw (fs D)) (vw s') e (Some w)" "v_name w = sname p (length rs)" "in_range w" "\<not> v_tmp w"
    and d: "disk_rel (disk s') p Fs'" "length rs < length Fs'" "\<And>n. n \<notin> range (sname p) \<Longrightarrow> disk s' n = disk (fs D) n"
    and nv: "md_fd_vfd nv = int e" "md_fd_chain nv = 0"
  shows "open_rel inv vw disk p f (upd_ref (D\<lparr>fs := s', md_segs := (md_segs D)(a \<mapsto> nv)\<rparr>) (last rs) (\<lambda>v. v\<lparr>md_fd_chain := a\<rparr>)) Fs' (rs @ [Chunk a])"
    "md_frame vw disk p f D rs (upd_ref (D\<lparr>fs := s', md_segs := (md_segs D)(a \<mapsto> nv)\<rparr>) (last rs) (\<lambda>v. v\<lparr>md_fd_chain := a\<rparr>)) (rs @ [Chunk a])"
proof -
  let ?D1 = "D\<lparr>fs := s', md_segs := (md_segs D)(a \<mapsto> nv)\<rparr>"
  let ?D2 = "upd_ref ?D1 (last rs) (\<lambda>v. v\<lparr>md_fd_chain := a\<rparr>)"
  have c: "seg_chain vw p f D rs" using o by (simp add: open_rel_def)
  define l where "l = length rs - 1"
  have l: "l < length rs" "last rs = rs ! l" "Suc l = length rs" using c by (auto simp: seg_chain_def l_def last_conv_nth)
  have old: "rs ! j \<noteq> Chunk a" "deref ?D1 (rs ! j) = deref D (rs ! j)" if "j < length rs" for j
    using chain_at [OF c that] a(1) by (auto simp: deref_def split: md_ref.splits option.splits)
  have na: "Chunk a \<notin> set rs" using old(1) by (metis in_set_conv_nth)
  obtain vl where vl: "deref D (rs ! l) = Inr vl" "seg_view vw (fs D) p l (md_fd_vfd vl)" using chain_at [OF c l(1)] by blast
  have dl: "deref ?D1 (rs ! l) = Inr vl" using old(2) [OF l(1)] vl(1) by simp
  have view: "seg_view vw s' p j (md_fd_vfd u)" if "seg_view vw (fs D) p j (md_fd_vfd u)" for j u
  proof -
    have "nat (md_fd_vfd u) \<noteq> e" using that e by (auto simp: seg_view_def)
    then show ?thesis using seg_view_le [OF that] s'(2) by (simp add: fv_upd_def)
  qed
  have "\<exists>u. deref ?D2 ((rs @ [Chunk a]) ! j) = Inr u \<and>
      next_ref u = (if Suc j < length (rs @ [Chunk a]) then Some ((rs @ [Chunk a]) ! Suc j) else None) \<and> seg_view vw (fs ?D2) p j (md_fd_vfd u)"
    if j: "j < length (rs @ [Chunk a])" for j
  proof (cases "j < length rs")
    case False
    then have jl: "j = length rs" using j by simp
    have "Chunk a \<noteq> rs ! l" using old(1) [OF l(1)] by simp
    then have "deref ?D2 (Chunk a) = Inr nv" unfolding l(2) by (simp add: deref_upd [OF dl]) (simp add: deref_def)
    moreover have "seg_view vw s' p j (md_fd_vfd nv)" using s'(2-5) nv(1) jl by (auto simp: seg_view_def fv_upd_def fv_le_Some in_range_def)
    ultimately show ?thesis using jl nv(2) by (simp add: next_ref_def)
  next
    case True
    obtain u where u: "deref D (rs ! j) = Inr u" "next_ref u = (if Suc j < length rs then Some (rs ! Suc j) else None)" "seg_view vw (fs D) p j (md_fd_vfd u)"
      using chain_at [OF c True] by blast
    show ?thesis
    proof (cases "j = l")
      case True
      then have "deref ?D2 (rs ! j) = Inr (vl\<lparr>md_fd_chain := a\<rparr>)" unfolding l(2) by (simp add: deref_upd [OF dl])
      then show ?thesis using True l view [OF vl(2)] a(2) by (simp add: nth_append next_ref_def seg_view_def)
    next
      case False
      have "rs ! j \<noteq> rs ! l" using c True l(1) False by (simp add: seg_chain_def nth_eq_iff_index_eq)
      then have "deref ?D2 (rs ! j) = Inr u" unfolding l(2) by (simp add: deref_upd [OF dl] old(2) [OF True] u(1))
      then show ?thesis using u(2) view [OF u(3)] True False l(3) by (auto simp: nth_append)
    qed
  qed
  moreover have "(rs @ [Chunk a]) ! 0 = Entry f" "distinct (rs @ [Chunk a])" using c na by (auto simp: seg_chain_def nth_append)
  ultimately have "seg_chain vw p f ?D2 (rs @ [Chunk a])" by (simp add: seg_chain_def)
  moreover have "finite (dom (md_segs ?D2))"
  proof -
    have "dom (md_segs ?D2) \<subseteq> insert a (dom (md_segs D))" by (auto simp: upd_ref_def split: md_ref.splits if_splits)
    then show ?thesis using o finite_subset by (auto simp: open_rel_def)
  qed
  moreover have "in_use ?D2 f" using o by (auto simp: open_rel_def in_use_def upd_ref_def split: md_ref.split)
  ultimately show "open_rel inv vw disk p f ?D2 Fs' (rs @ [Chunk a])" using s'(1) d(1,2) by (simp add: open_rel_def)
  have "Md_fdvec ?D2 j = Md_fdvec D j" if "j \<noteq> f" for j
    using chain_kind [OF c l(1)] that by (auto simp: l(2) upd_ref_def)
  moreover have "md_segs ?D2 b = md_segs D b" if "md_segs D b \<noteq> None" "Chunk b \<notin> set rs" for b
    using nth_mem [OF l(1)] that a(1) by (auto simp: l(2) upd_ref_def split: md_ref.split)
  moreover have "fv_le (vw (fs D) u) (vw s' u)" if "vw (fs D) u = Some w'" for u w' using s'(2) e that unfolding fv_upd_def by (metis option.distinct(1))
  ultimately show "md_frame vw disk p f D rs ?D2 (rs @ [Chunk a])" using d(3) a(1) by (auto simp: md_frame_def)
qed

lemma open_next:
  assumes o: "open_rel inv vw disk p f D Fs rs" and p: "p = relpath (DataDir E) (rd_node rel)" and i: "i = length rs"
    and fl: "fl = 0 \<or> fl = O_CREAT" and c: "i < length Fs \<or> fl = O_CREAT \<and> length (last Fs) = SEGSZ"
  shows "\<exists>q D1. md_fd_open_seg E rel D (int i) fl = Inr (q, D1) \<and>
    (q = None \<and> i = length Fs \<and> open_rel inv vw disk p f D1 Fs rs \<and> md_frame vw disk p f D rs D1 rs \<or>
     (\<exists>a. q = Some a \<and> open_rel inv vw disk p f (upd_ref D1 (last rs) (\<lambda>v. v\<lparr>md_fd_chain := a\<rparr>)) (if i < length Fs then Fs else Fs @ [[]]) (rs @ [Chunk a]) \<and>
        md_frame vw disk p f D rs (upd_ref D1 (last rs) (\<lambda>v. v\<lparr>md_fd_chain := a\<rparr>)) (rs @ [Chunk a])))"
proof -
  have dr: "disk_rel (disk (fs D)) p Fs" "length rs \<le> length Fs" "inv (fs D)" "seg_chain vw p f D rs" using o by (simp_all add: open_rel_def)
  have rs0: "rs \<noteq> []" using dr(4) by (simp add: seg_chain_def)
  have "\<exists>q. p = CHR ''/'' # q" by (simp add: p relpath_def absolute)
  then obtain n where n: "sname p i = CHR ''/'' # n" using sname_abs by blast
  have flags: "(O_RDWR OR fl) AND O_TRUNC = 0" "(O_RDWR OR fl) AND O_EXCL = 0" using fl by (auto simp: O_RDWR_def O_CREAT_def O_TRUNC_def O_EXCL_def)
  obtain r s1 where r: "f_open F (fs D) (sname p i) (O_RDWR OR fl) 384 = Inr (r, s1)" "inv s1"
    "r = -1 \<and> disk s1 = disk (fs D) \<and> (disk (fs D) (sname p i) \<noteq> None \<longrightarrow> (O_RDWR OR fl) AND O_EXCL \<noteq> 0) \<and> (\<forall>i. fv_le (vw (fs D) i) (vw s1 i)) \<or>
     (\<exists>e. r = int e \<and> vw (fs D) e = None \<and> opens (disk (fs D)) (sname p i) (O_RDWR OR fl) (disk s1) \<and>
        fv_upd (vw (fs D)) (vw s1) e (Some \<lparr>v_name = sname p i, v_loc = 0, v_sure = True, v_tmp = False\<rparr>))"
    using open_law [OF dr(3) flags(1), of n 384] unfolding n by blast
  from r(3) show ?thesis
  proof (elim disjE exE conjE)
    assume a: "r = -1" "disk s1 = disk (fs D)" "disk (fs D) (sname p i) \<noteq> None \<longrightarrow> (O_RDWR OR fl) AND O_EXCL \<noteq> 0" "\<forall>i. fv_le (vw (fs D) i) (vw s1 i)"
    have run: "md_fd_open_seg E rel D (int i) fl = Inr (None, D\<lparr>fs := s1\<rparr>)" using r(1) a(1) by (simp add: md_fd_open_seg_def ops p sname_def)
    have il: "i = length Fs" using a(3) flags(2) disk_rel_seg(1) [OF dr(1), of i] dr(2) i by fastforce
    have l0: "0 < length rs" using rs0 by simp
    obtain v w where v: "deref D (rs ! 0) = Inr v" "vw (fs D) (nat (md_fd_vfd v)) = Some w" "v_name w = sname p 0" "in_range w" "\<not> v_tmp w"
      by (rule seg_at [OF o l0])
    have "fv_upd (vw (fs D)) (vw s1) (nat (md_fd_vfd v)) (Some w)" using a(4) v(2) unfolding fv_upd_def by metis
    from seg_step_quiet [OF o l0 v(1) r(2) this v(3-5) a(2)] show ?thesis using run il by blast
  next
    fix e
    assume e: "r = int e" "vw (fs D) e = None" "opens (disk (fs D)) (sname p i) (O_RDWR OR fl) (disk s1)"
      "fv_upd (vw (fs D)) (vw s1) e (Some \<lparr>v_name = sname p i, v_loc = 0, v_sure = True, v_tmp = False\<rparr>)"
    define Fs' where "Fs' = (if i < length Fs then Fs else Fs @ [[]])"
    have il: "i < length Fs'" using dr(2) i by (simp add: Fs'_def)
    have d1: "disk s1 n = disk (fs D) n" if "n \<noteq> sname p i" for n using e(3) that by (auto simp: opens_def split: option.splits)
    have "disk_rel (disk s1) p Fs'"
    proof (cases "i < length Fs")
      case True
      then have "disk s1 = disk (fs D)" using e(3) disk_rel_seg(1) [OF dr(1) True] by (simp add: opens_def)
      then show ?thesis using True dr(1) by (simp add: Fs'_def)
    next
      case False
      then have il': "i = length Fs" using dr(2) i by simp
      then have "disk (fs D) (sname p i) = None \<or> disk (fs D) (sname p i) = Some []" using dr(1) by (simp add: disk_rel_def)
      then have "disk s1 (sname p i) = Some []" using e(3) by (auto simp: opens_def)
      moreover have "disk s1 (sname p j) = disk (fs D) (sname p j)" if "j \<noteq> length Fs" for j using d1 sname_inj that il' by blast
      ultimately show ?thesis using disk_rel_snoc [OF dr(1)] c False il' by (simp add: Fs'_def)
    qed
    obtain w1 where w1: "vw s1 e = Some w1" "v_name w1 = sname p i" "v_loc w1 = 0" "\<not> v_tmp w1" using e(4) by (auto simp: fv_upd_def fv_le_Some)
    have bs: "disk s1 (v_name w1) = Some (Fs' ! i)" "length (Fs' ! i) \<le> SEGSZ" using disk_rel_seg [OF \<open>disk_rel (disk s1) p Fs'\<close> il] w1(2) by simp_all
    obtain s2 where s2: "f_seek F s1 e 0 SEEK_END = Inr (int (length (Fs' ! i)), s2)" "inv s2" "disk s2 = disk s1"
      "fv_upd (vw s1) (vw s2) e (Some (w1\<lparr>v_loc := int (length (Fs' ! i)), v_sure := True\<rparr>))"
      using seek_end_law [OF r(2) w1(1) _ bs(1)] w1(3) by (auto simp: in_range_def)
    obtain a where a: "new_seg E (md_segs D) = Some a" "md_segs D a = None" "a \<noteq> 0" using memory [of "md_segs D"] o by (auto simp: open_rel_def)
    define nv where "nv = \<lparr>md_fd_vfd = int e, md_fd_flags = 0, md_fd_lst_bcnt = to_int (int (length (Fs' ! i)) div int BLCKSZ),
      md_fd_next_free = md_fd_next_free zero_mdfdvec, md_fd_chain = 0\<rparr>"
    have run: "md_fd_open_seg E rel D (int i) fl = Inr (Some a, D\<lparr>fs := s2, md_segs := (md_segs D)(a \<mapsto> nv)\<rparr>)"
      using r(1) e(1) a(1) s2(1) by (simp add: md_fd_open_seg_def md_nblocks_aux_def ops p sname_def nv_def)
    have up: "fv_upd (vw (fs D)) (vw s2) e (Some (w1\<lparr>v_loc := int (length (Fs' ! i)), v_sure := True\<rparr>))"
      using e(4) s2(4) fv_le_trans unfolding fv_upd_def by blast
    have "open_rel inv vw disk p f (upd_ref (D\<lparr>fs := s2, md_segs := (md_segs D)(a \<mapsto> nv)\<rparr>) (last rs) (\<lambda>v. v\<lparr>md_fd_chain := a\<rparr>)) Fs' (rs @ [Chunk a])"
      "md_frame vw disk p f D rs (upd_ref (D\<lparr>fs := s2, md_segs := (md_segs D)(a \<mapsto> nv)\<rparr>) (last rs) (\<lambda>v. v\<lparr>md_fd_chain := a\<rparr>)) (rs @ [Chunk a])"
      by (rule link_step [OF o a(2,3) e(2) s2(2) up],
          use w1 i il seg_in_range [OF bs(2)] s2(3) \<open>disk_rel (disk s1) p Fs'\<close> d1 in \<open>auto simp: nv_def\<close>)+
    then show ?thesis using run unfolding Fs'_def by blast
  qed
qed

section \<open>Finding a segment\<close>

lemma get_seg_loop_ok:
  assumes "open_rel inv vw disk p f D Fs rs" "p = relpath (DataDir E) (rd_node rel)" "j < length rs" "j + n < length Fs"
  shows "\<exists>D' rs'. get_seg_loop E rel D (rs ! j) (int (Suc j)) n = Inr (rs' ! (j + n), D') \<and> j + n < length rs' \<and>
    open_rel inv vw disk p f D' Fs rs' \<and> md_frame vw disk p f D rs D' rs'"
  using assms
proof (induction n arbitrary: D rs j)
  case 0
  then show ?case using md_frame_refl by (intro exI [of _ D] exI [of _ rs]) simp
next
  case (Suc n)
  note o = Suc.prems(1)
  have c: "seg_chain vw p f D rs" using o by (simp add: open_rel_def)
  obtain v where v: "deref D (rs ! j) = Inr v" "next_ref v = (if Suc j < length rs then Some (rs ! Suc j) else None)" using chain_at [OF c Suc.prems(3)] by blast
  show ?case
  proof (cases "Suc j < length rs")
    case True
    then show ?thesis using Suc.IH [OF o Suc.prems(2) True] Suc.prems(4) v by simp
  next
    case False
    then have i: "Suc j = length rs" "last rs = rs ! j" using Suc.prems(3) last_seg [OF Suc.prems(3)] by simp_all
    define fl where "fl = (if n = 0 then O_CREAT else 0)"
    have fl: "fl = 0 \<or> fl = O_CREAT" "Suc j < length Fs" using Suc.prems(4) by (simp_all add: fl_def)
    obtain q D1 where q: "md_fd_open_seg E rel D (int (Suc j)) fl = Inr (q, D1)"
      "q = None \<and> Suc j = length Fs \<and> open_rel inv vw disk p f D1 Fs rs \<and> md_frame vw disk p f D rs D1 rs \<or>
       (\<exists>a. q = Some a \<and> open_rel inv vw disk p f (upd_ref D1 (last rs) (\<lambda>v. v\<lparr>md_fd_chain := a\<rparr>)) (if Suc j < length Fs then Fs else Fs @ [[]]) (rs @ [Chunk a]) \<and>
        md_frame vw disk p f D rs (upd_ref D1 (last rs) (\<lambda>v. v\<lparr>md_fd_chain := a\<rparr>)) (rs @ [Chunk a]))"
      using open_next [OF o Suc.prems(2) i(1) fl(1) disjI1 [OF fl(2)]] by blast
    then obtain a where a: "q = Some a" "open_rel inv vw disk p f (upd_ref D1 (rs ! j) (\<lambda>v. v\<lparr>md_fd_chain := a\<rparr>)) Fs (rs @ [Chunk a])"
      "md_frame vw disk p f D rs (upd_ref D1 (rs ! j) (\<lambda>v. v\<lparr>md_fd_chain := a\<rparr>)) (rs @ [Chunk a])" using fl(2) i(2) by auto
    have l: "Suc j < length (rs @ [Chunk a])" "(rs @ [Chunk a]) ! Suc j = Chunk a" using i(1) by (simp_all add: nth_append)
    have "Suc j + n < length Fs" using Suc.prems(4) by simp
    from Suc.IH [OF a(2) Suc.prems(2) l(1) this]
    obtain D' rs' where r: "get_seg_loop E rel (upd_ref D1 (rs ! j) (\<lambda>v. v\<lparr>md_fd_chain := a\<rparr>)) (Chunk a) (int (Suc (Suc j))) n = Inr (rs' ! (Suc j + n), D')"
      "Suc j + n < length rs'" "open_rel inv vw disk p f D' Fs rs'"
      "md_frame vw disk p f (upd_ref D1 (rs ! j) (\<lambda>v. v\<lparr>md_fd_chain := a\<rparr>)) (rs @ [Chunk a]) D' rs'" unfolding l(2) by blast
    have "get_seg_loop E rel D (rs ! j) (int (Suc j)) (Suc n) = Inr (rs' ! (j + Suc n), D')"
      using v False q(1) a(1) r(1) by (simp add: fl_def)
    then show ?thesis using r(2,3) md_frame_trans [OF a(3) r(4)] by (intro exI [of _ D'] exI [of _ rs']) simp
  qed
qed

definition rel_of :: "RelationData \<Rightarrow> string \<Rightarrow> nat \<Rightarrow> bool" where
  "rel_of rel p f \<longleftrightarrow> p = relpath (DataDir E) (rd_node rel) \<and> rd_fd rel = int f"

lemma get_seg_ok:
  assumes o: "open_rel inv vw disk p f D Fs rs" and r: "rel_of rel p f" and b: "b div RELSEG_SIZE < length Fs"
  shows "\<exists>D' rs'. md_fd_get_seg E rel D (int b) = Inr (rs' ! (b div RELSEG_SIZE), rel, D') \<and> b div RELSEG_SIZE < length rs' \<and>
    open_rel inv vw disk p f D' Fs rs' \<and> md_frame vw disk p f D rs D' rs'"
proof -
  have rs: "0 < length rs" "rs ! 0 = Entry f" "disk_rel (disk (fs D)) p Fs" using o by (auto simp: open_rel_def seg_chain_def)
  have n: "0 + b div RELSEG_SIZE < length Fs" using b by simp
  have e: "nat (int b div int RELSEG_SIZE) = b div RELSEG_SIZE" by (metis nat_int zdiv_int)
  obtain D' rs' where g: "get_seg_loop E rel D (rs ! 0) (int (Suc 0)) (b div RELSEG_SIZE) = Inr (rs' ! (0 + b div RELSEG_SIZE), D')"
    "0 + b div RELSEG_SIZE < length rs'" "open_rel inv vw disk p f D' Fs rs'" "md_frame vw disk p f D rs D' rs'"
    using get_seg_loop_ok [OF o _ rs(1) n] r unfolding rel_of_def by blast
  then show ?thesis using r rs(2) e
    by (intro exI [of _ D'] exI [of _ rs']) (simp add: md_fd_get_seg_def md_fd_get_reln_fd_def rel_of_def)
qed

section \<open>Counting the blocks\<close>

lemma nblocks_step:
  assumes o: "open_rel inv vw disk p f D Fs rs" and j: "j < length rs" and len: "length Fs \<le> 2 ^ 14"
  obtains v D1 where "open_rel inv vw disk p f D1 Fs rs" "md_frame vw disk p f D rs D1 rs" "next_ref v = (if Suc j < length rs then Some (rs ! Suc j) else None)"
    "nblocks_loop E rel D (rs ! j) (int j) =
      (if length (Fs ! j) = SEGSZ then
         (case next_ref v of
            Some r' \<Rightarrow> nblocks_loop E rel D1 r' (int (Suc j))
          | None \<Rightarrow>
              (case md_fd_open_seg E rel D1 (int (Suc j)) O_CREAT of Inl e \<Rightarrow> Inl e
               | Inr (None, D2) \<Rightarrow> Inl Elog_ERROR
               | Inr (Some a, D2) \<Rightarrow> nblocks_loop E rel (upd_ref D2 (rs ! j) (\<lambda>v. v\<lparr>md_fd_chain := a\<rparr>)) (Chunk a) (int (Suc j))))
       else Inr (int (j * RELSEG_SIZE + length (Fs ! j) div BLCKSZ), D1))"
proof -
  have c: "seg_chain vw p f D rs" and jl: "j < length Fs" using o j by (simp_all add: open_rel_def)
  obtain v where v: "deref D (rs ! j) = Inr v" "next_ref v = (if Suc j < length rs then Some (rs ! Suc j) else None)" using chain_at [OF c j] by blast
  obtain s' where s': "md_nblocks_aux E (fs D) (md_fd_vfd v) = Inr (int (length (Fs ! j) div BLCKSZ), s')"
    "open_rel inv vw disk p f (D\<lparr>fs := s'\<rparr>) Fs rs" "md_frame vw disk p f D rs (D\<lparr>fs := s'\<rparr>) rs" using count_seg [OF o j v(1)] by blast
  let ?nb = "length (Fs ! j) div BLCKSZ"
  define D1 where "D1 = upd_ref (D\<lparr>fs := s'\<rparr>) (rs ! j) (\<lambda>v. v\<lparr>md_fd_lst_bcnt := int ?nb\<rparr>)"
  have v1: "deref (D\<lparr>fs := s'\<rparr>) (rs ! j) = Inr v" using v(1) by simp
  have o1: "open_rel inv vw disk p f D1 Fs rs" "md_frame vw disk p f D rs D1 rs"
    unfolding D1_def using upd_step [OF s'(2) j v1] md_frame_trans [OF s'(3)] by simp_all
  have len: "length (Fs ! j) \<le> SEGSZ" using o disk_rel_seg(2) [OF _ jl] by (auto simp: open_rel_def)
  note nb = full_seg [OF len]
  have jb: "j < 2 ^ 14" using jl assms(3) by simp
  have ov: "int j + 1 < 2 ^ 31" "c_int (int j * int RELSEG_SIZE) = Inr (int j * int RELSEG_SIZE)"
    "?nb < RELSEG_SIZE \<Longrightarrow> c_int (int j * int RELSEG_SIZE + int ?nb) = Inr (int (j * RELSEG_SIZE + ?nb))"
    using jb by (auto simp: sizes intro!: c_int_ok)
  have "nblocks_loop E rel D (rs ! j) (int j) =
      (if ?nb = RELSEG_SIZE then
         (case next_ref v of
            Some r' \<Rightarrow> nblocks_loop E rel D1 r' (int (Suc j))
          | None \<Rightarrow>
              (case md_fd_open_seg E rel D1 (int (Suc j)) O_CREAT of Inl e \<Rightarrow> Inl e
               | Inr (None, D2) \<Rightarrow> Inl Elog_ERROR
               | Inr (Some a, D2) \<Rightarrow> nblocks_loop E rel (upd_ref D2 (rs ! j) (\<lambda>v. v\<lparr>md_fd_chain := a\<rparr>)) (Chunk a) (int (Suc j))))
       else Inr (int (j * RELSEG_SIZE + ?nb), D1))"
  proof (cases "?nb = RELSEG_SIZE")
    case True
    then have D1: "upd_ref (D\<lparr>fs := s'\<rparr>) (rs ! j) (\<lambda>v. v\<lparr>md_fd_lst_bcnt := int RELSEG_SIZE\<rparr>) = D1" by (simp add: D1_def)
    have sj: "int (Suc j) = int j + 1" by simp
    show ?thesis unfolding sj using v(1) s'(1) True ov(1) D1 by (subst nblocks_loop.simps) (cases "next_ref v"; simp add: Let_def)
  next
    case False
    then have "?nb < RELSEG_SIZE" using nb(2) by simp
    then show ?thesis using v(1) s'(1) False ov by (subst nblocks_loop.simps) (simp add: Let_def D1_def)
  qed
  then show ?thesis using that [OF o1 v(2)] nb(1) by simp
qed

lemma nblocks_last:
  assumes o: "open_rel inv vw disk p f D Fs rs" and j: "Suc j = length rs" "length rs = length Fs" and len: "length Fs \<le> 2 ^ 14"
    and nf: "length (last Fs) < SEGSZ"
  shows "\<exists>D'. nblocks_loop E rel D (rs ! j) (int j) = Inr (int (rel_blocks Fs), D') \<and> open_rel inv vw disk p f D' Fs rs \<and> md_frame vw disk p f D rs D' rs"
proof -
  have jl: "j < length rs" using j by simp
  have l: "Fs ! j = last Fs" using last_seg [of j Fs] j by simp
  have jj: "length Fs - 1 = j" using j by simp
  obtain v D1 where s: "open_rel inv vw disk p f D1 Fs rs" "md_frame vw disk p f D rs D1 rs"
    "nblocks_loop E rel D (rs ! j) (int j) = Inr (int (j * RELSEG_SIZE + length (Fs ! j) div BLCKSZ), D1)"
    by (rule nblocks_step [OF o jl len, of rel]) (use nf l in simp)
  then show ?thesis unfolding rel_blocks_def l jj by blast
qed

lemma nblocks_loop_ok:
  assumes "open_rel inv vw disk p f D Fs rs" "p = relpath (DataDir E) (rd_node rel)" "j < length rs" "length Fs < 2 ^ 14"
  shows "(\<exists>D' rs' Fs'. nblocks_loop E rel D (rs ! j) (int j) = Inr (int (rel_blocks Fs), D') \<and>
      open_rel inv vw disk p f D' Fs' rs' \<and> md_frame vw disk p f D rs D' rs' \<and> length rs' = length Fs' \<and> length (last Fs') < SEGSZ \<and>
      Fs' = (if length (last Fs) = SEGSZ then Fs @ [[]] else Fs)) \<or>
    nblocks_loop E rel D (rs ! j) (int j) = Inl Elog_ERROR \<and> length (last Fs) = SEGSZ"
  using assms
proof (induction "length Fs - j" arbitrary: D rs j)
  case 0
  then show ?case by (auto simp: open_rel_def)
next
  case (Suc n)
  note o = Suc.prems(1)
  have dr: "disk_rel (disk (fs D)) p Fs" "length rs \<le> length Fs" using o by (simp_all add: open_rel_def)
  have l14: "length Fs \<le> 2 ^ 14" using Suc.prems(4) by simp
  obtain v D1 where s: "open_rel inv vw disk p f D1 Fs rs" "md_frame vw disk p f D rs D1 rs" "next_ref v = (if Suc j < length rs then Some (rs ! Suc j) else None)"
    "nblocks_loop E rel D (rs ! j) (int j) =
      (if length (Fs ! j) = SEGSZ then
         (case next_ref v of
            Some r' \<Rightarrow> nblocks_loop E rel D1 r' (int (Suc j))
          | None \<Rightarrow>
              (case md_fd_open_seg E rel D1 (int (Suc j)) O_CREAT of Inl e \<Rightarrow> Inl e
               | Inr (None, D2) \<Rightarrow> Inl Elog_ERROR
               | Inr (Some a, D2) \<Rightarrow> nblocks_loop E rel (upd_ref D2 (rs ! j) (\<lambda>v. v\<lparr>md_fd_chain := a\<rparr>)) (Chunk a) (int (Suc j))))
       else Inr (int (j * RELSEG_SIZE + length (Fs ! j) div BLCKSZ), D1))"
    by (rule nblocks_step [OF o Suc.prems(3) l14])
  have n: "n = length Fs - Suc j" using Suc.hyps(2) by simp
  show ?case
  proof (cases "length (Fs ! j) = SEGSZ")
    case False
    then have lj: "\<not> Suc j < length Fs" using dr(1) by (auto simp: disk_rel_def)
    then have j: "Suc j = length rs" "length rs = length Fs" using Suc.prems(3) dr(2) by simp_all
    have "length (last Fs) < SEGSZ" using False last_seg [of j Fs] lj j dr(1) by (simp add: disk_rel_def)
    then show ?thesis using nblocks_last [OF o j l14, of rel] j by fastforce
  next
    case full: True
    show ?thesis
    proof (cases "Suc j < length rs")
      case True
      then show ?thesis using s full Suc.hyps(1) [OF n s(1) Suc.prems(2) True Suc.prems(4)] md_frame_trans [OF s(2)] by fastforce
    next
      case False
      then have i: "Suc j = length rs" "last rs = rs ! j" using Suc.prems(3) last_seg [OF Suc.prems(3)] by simp_all
      have cr: "Suc j < length Fs \<or> O_CREAT = O_CREAT \<and> length (last Fs) = SEGSZ" using full last_seg [of j Fs] dr(2) Suc.prems(3) by (cases "Suc j < length Fs") simp_all
      obtain q D2 where q: "md_fd_open_seg E rel D1 (int (Suc j)) O_CREAT = Inr (q, D2)"
        "q = None \<and> Suc j = length Fs \<and> open_rel inv vw disk p f D2 Fs rs \<and> md_frame vw disk p f D1 rs D2 rs \<or>
         (\<exists>a. q = Some a \<and> open_rel inv vw disk p f (upd_ref D2 (last rs) (\<lambda>v. v\<lparr>md_fd_chain := a\<rparr>)) (if Suc j < length Fs then Fs else Fs @ [[]]) (rs @ [Chunk a]) \<and>
          md_frame vw disk p f D1 rs (upd_ref D2 (last rs) (\<lambda>v. v\<lparr>md_fd_chain := a\<rparr>)) (rs @ [Chunk a]))"
        using open_next [OF s(1) Suc.prems(2) i(1) disjI2 [OF refl] cr] by blast
      have eq: "nblocks_loop E rel D (rs ! j) (int j) = (case q of None \<Rightarrow> Inl Elog_ERROR
          | Some a \<Rightarrow> nblocks_loop E rel (upd_ref D2 (rs ! j) (\<lambda>v. v\<lparr>md_fd_chain := a\<rparr>)) (Chunk a) (int (Suc j)))"
        using s(3,4) full False q(1) by (cases q) simp_all
      from q(2) show ?thesis
      proof (elim disjE exE conjE)
        assume "q = None" "Suc j = length Fs"
        then show ?thesis using eq full last_seg [of j Fs] by simp
      next
        fix a
        let ?D3 = "upd_ref D2 (rs ! j) (\<lambda>v. v\<lparr>md_fd_chain := a\<rparr>)" and ?rs = "rs @ [Chunk a]"
        assume a: "q = Some a" "open_rel inv vw disk p f (upd_ref D2 (last rs) (\<lambda>v. v\<lparr>md_fd_chain := a\<rparr>)) (if Suc j < length Fs then Fs else Fs @ [[]]) (rs @ [Chunk a])"
          "md_frame vw disk p f D1 rs (upd_ref D2 (last rs) (\<lambda>v. v\<lparr>md_fd_chain := a\<rparr>)) (rs @ [Chunk a])"
        have fr: "md_frame vw disk p f D rs ?D3 ?rs" using md_frame_trans [OF s(2)] a(3) i(2) by simp
        have l: "Suc j < length ?rs" "?rs ! Suc j = Chunk a" using i(1) by (simp_all add: nth_append)
        show ?thesis
        proof (cases "Suc j < length Fs")
          case True
          then have o3: "open_rel inv vw disk p f ?D3 Fs ?rs" using a(2) i(2) by simp
          from Suc.hyps(1) [OF n o3 Suc.prems(2) l(1) Suc.prems(4)] show ?thesis
            using eq a(1) l(2) md_frame_trans [OF fr] by fastforce
        next
          case nl: False
          then have o3: "open_rel inv vw disk p f ?D3 (Fs @ [[]]) ?rs" using a(2) i(2) by simp
          have ln: "Suc (Suc j) = length ?rs" "length ?rs = length (Fs @ [[]])" "length (Fs @ [[]]) \<le> 2 ^ 14" using nl i(1) dr(2) Suc.prems(4) by simp_all
          have fl: "Fs \<noteq> []" "length (last Fs) = SEGSZ" using dr(1) cr nl by (auto simp: disk_rel_def)
          obtain D' where r: "nblocks_loop E rel ?D3 (?rs ! Suc j) (int (Suc j)) = Inr (int (rel_blocks (Fs @ [[]])), D')"
            "open_rel inv vw disk p f D' (Fs @ [[]]) ?rs" "md_frame vw disk p f ?D3 ?rs D' ?rs"
            using nblocks_last [OF o3 ln] by (auto simp: sizes)
          have "nblocks_loop E rel D (rs ! j) (int j) = Inr (int (rel_blocks Fs), D')" using eq a(1) r(1) l(2) rel_blocks_snoc [OF fl] by simp
          then show ?thesis using r(2) md_frame_trans [OF fr r(3)] ln fl(2)
            by (intro disjI1 exI [of _ D'] exI [of _ ?rs] exI [of _ "Fs @ [[]]"]) (simp add: sizes)
        qed
      qed
    qed
  qed
qed

lemma md_nblocks_ok:
  assumes o: "open_rel inv vw disk p f D Fs rs" and r: "rel_of rel p f" and len: "length Fs < 2 ^ 14"
  shows "(\<exists>D' rs' Fs'. md_nblocks E rel D = Inr (int (rel_blocks Fs), rel, D') \<and> open_rel inv vw disk p f D' Fs' rs' \<and>
      md_frame vw disk p f D rs D' rs' \<and> length rs' = length Fs' \<and> length (last Fs') < SEGSZ \<and> Fs' = (if length (last Fs) = SEGSZ then Fs @ [[]] else Fs)) \<or>
    md_nblocks E rel D = Inl Elog_ERROR \<and> length (last Fs) = SEGSZ"
proof -
  have rs: "0 < length rs" "rs ! 0 = Entry f" using o by (auto simp: open_rel_def seg_chain_def)
  have eq: "md_nblocks E rel D = cbind (nblocks_loop E rel D (rs ! 0) (int 0)) (\<lambda>(n, D2). Inr (n, rel, D2))"
    using r rs(2) by (simp add: md_nblocks_def md_fd_get_reln_fd_def rel_of_def)
  have p: "p = relpath (DataDir E) (rd_node rel)" using r by (simp add: rel_of_def)
  from nblocks_loop_ok [OF o p rs(1) len] show ?thesis unfolding eq by (elim disjE exE conjE) auto
qed

section \<open>Reading and writing\<close>

lemma small_rel: "disk_rel d p Fs \<Longrightarrow> length Fs < 2 ^ 14 \<Longrightarrow> b div RELSEG_SIZE < length Fs \<Longrightarrow> b < 2 ^ 31"
  by (simp add: sizes div_less_iff_less_mult)

text \<open>The segment of a block, opened when necessary, with the file positioned at the block.\<close>

lemma seek_block:
  assumes o: "open_rel inv vw disk p f D Fs rs" and r: "rel_of rel p f" and len: "length Fs < 2 ^ 14" and b: "unat b div RELSEG_SIZE < length Fs"
  obtains i rf rs1 D1 v w s2 where "i = unat b div RELSEG_SIZE" "i < length rs1" "rf = rs1 ! i"
    "md_fd_get_seg E rel D (sint b) = Inr (rf, rel, D1)" "deref D1 rf = Inr v"
    "f_seek F (fs D1) (nat (md_fd_vfd v)) (block_pos b) SEEK_SET = Inr (block_pos b, s2)"
    "open_rel inv vw disk p f (D1\<lparr>fs := s2\<rparr>) Fs rs1" "md_frame vw disk p f D rs (D1\<lparr>fs := s2\<rparr>) rs1"
    "vw s2 (nat (md_fd_vfd v)) = Some w" "v_name w = sname p i" "v_loc w = block_pos b" "v_sure w" "in_range w" "\<not> v_tmp w"
    "disk s2 (v_name w) = Some (Fs ! i)" "inv s2"
proof -
  define i where "i = unat b div RELSEG_SIZE"
  have dr: "disk_rel (disk (fs D)) p Fs" using o by (simp add: open_rel_def)
  have sb: "sint b = int (unat b)" using small_rel [OF dr len b] by (intro block_number)
  obtain D1 rs1 where g: "md_fd_get_seg E rel D (int (unat b)) = Inr (rs1 ! i, rel, D1)" "i < length rs1"
    "open_rel inv vw disk p f D1 Fs rs1" "md_frame vw disk p f D rs D1 rs1" using get_seg_ok [OF o r b] unfolding i_def by blast
  obtain v w where v: "deref D1 (rs1 ! i) = Inr v" "next_ref v = (if Suc i < length rs1 then Some (rs1 ! Suc i) else None)" "0 \<le> md_fd_vfd v"
    "vw (fs D1) (nat (md_fd_vfd v)) = Some w" "v_name w = sname p i" "in_range w" "\<not> v_tmp w" "i < length Fs"
    "disk (fs D1) (v_name w) = Some (Fs ! i)" "length (Fs ! i) \<le> SEGSZ" by (rule seg_at [OF g(3,2)])
  have bp: "0 \<le> block_pos b" "in_range (w\<lparr>v_loc := block_pos b, v_sure := True\<rparr>)" by (simp_all add: block_pos in_range_def sizes)
  have inv1: "inv (fs D1)" using g(3) by (simp add: open_rel_def)
  obtain s2 where s2: "f_seek F (fs D1) (nat (md_fd_vfd v)) (block_pos b) SEEK_SET = Inr (block_pos b, s2)" "inv s2" "disk s2 = disk (fs D1)"
    "fv_upd (vw (fs D1)) (vw s2) (nat (md_fd_vfd v)) (Some (w\<lparr>v_loc := block_pos b, v_sure := True\<rparr>))" using seek_set_law [OF inv1 v(4) bp(1)] by blast
  have st: "open_rel inv vw disk p f (D1\<lparr>fs := s2\<rparr>) Fs rs1" "md_frame vw disk p f D1 rs1 (D1\<lparr>fs := s2\<rparr>) rs1"
    by (rule seg_step_quiet [OF g(3,2) v(1) s2(2,4) _ bp(2) _ s2(3)], use v(5,7) in simp_all)+
  obtain w2 where w2: "vw s2 (nat (md_fd_vfd v)) = Some w2" "v_name w2 = v_name w" "v_loc w2 = block_pos b" "v_sure w2" "v_tmp w2 = v_tmp w"
    using s2(4) by (auto simp: fv_upd_def fv_le_Some)
  have "in_range w2" using bp(2) w2(3) by (simp add: in_range_def)
  then show ?thesis using that [of i rs1 "rs1 ! i" D1 v s2 w2] g(1,2) v(1,5,7,9) s2(1-3) st(1) md_frame_trans [OF g(4) st(2)] w2 sb i_def by simp
qed

lemma seg_of_pos: "nat (block_pos b) = unat b mod RELSEG_SIZE * BLCKSZ"
  unfolding block_pos by (rule nat_int)

text \<open>A read of a block of the relation gives the block, or reports a failure.\<close>

lemma md_read_ok:
  assumes o: "open_rel inv vw disk p f D Fs rs" and r: "rel_of rel p f" and len: "length Fs < 2 ^ 14" and b: "unat b < rel_blocks Fs"
    and buf: "length buffer = BLCKSZ"
  shows "(\<exists>st buffer' D' rs' Fs'. md_read E rel D b buffer = Inr (st, buffer', rel, D') \<and> open_rel inv vw disk p f D' Fs' rs' \<and> md_frame vw disk p f D rs D' rs' \<and>
      padded Fs Fs' \<and> (st = SM_SUCCESS \<and> buffer' = rel_block Fs (unat b) \<or> st = SM_FAIL)) \<or>
    md_read E rel D b buffer = Inl Elog_ERROR \<and> length (last Fs) = SEGSZ"
proof -
  have dr: "disk_rel (disk (fs D)) p Fs" using o by (simp add: open_rel_def)
  obtain i rf rs1 D1 v w s2 where g: "i = unat b div RELSEG_SIZE" "i < length rs1" "rf = rs1 ! i"
    "md_fd_get_seg E rel D (sint b) = Inr (rf, rel, D1)" "deref D1 rf = Inr v"
    "f_seek F (fs D1) (nat (md_fd_vfd v)) (block_pos b) SEEK_SET = Inr (block_pos b, s2)"
    "open_rel inv vw disk p f (D1\<lparr>fs := s2\<rparr>) Fs rs1" "md_frame vw disk p f D rs (D1\<lparr>fs := s2\<rparr>) rs1"
    "vw s2 (nat (md_fd_vfd v)) = Some w" "v_name w = sname p i" "v_loc w = block_pos b" "v_sure w" "in_range w" "\<not> v_tmp w"
    "disk s2 (v_name w) = Some (Fs ! i)" "inv s2"
    by (rule seek_block [OF o r len block_seg [OF dr b]])
  let ?e = "nat (md_fd_vfd v)" and ?k = "unat b mod RELSEG_SIZE * BLCKSZ"
  have pres: "?k + BLCKSZ \<le> length (Fs ! i)" using block_present [OF dr b] g(1) by simp
  obtain n bytes s3 where rd: "f_read F s2 ?e (int BLCKSZ) = Inr (n, bytes, s3)" "inv s3" "disk s3 = disk s2"
    "n = -1 \<and> fv_upd (vw s2) (vw s3) ?e (Some (w\<lparr>v_sure := False\<rparr>)) \<or>
     0 \<le> n \<and> n \<le> int BLCKSZ \<and> bytes = take (nat n) (drop (nat (v_loc w)) (Fs ! i)) \<and> length bytes = nat n \<and> (n = 0 \<and> 0 < int BLCKSZ \<longrightarrow> length (Fs ! i) \<le> nat (v_loc w)) \<and>
     fv_upd (vw s2) (vw s3) ?e (Some (w\<lparr>v_loc := v_loc w + n, v_sure := 0 < n\<rparr>))"
    using read_law [OF g(16,9,13,12,15), of "int BLCKSZ"] by (auto simp del: One_nat_def)
  define D3 where "D3 = D1\<lparr>fs := s3\<rparr>"
  have v2: "deref (D1\<lparr>fs := s2\<rparr>) (rs1 ! i) = Inr v" using g(3,5) by simp
  have st3: "open_rel inv vw disk p f D3 Fs rs1 \<and> md_frame vw disk p f D rs D3 rs1"
  proof -
    have rg: "in_range (w\<lparr>v_loc := v_loc w + n, v_sure := s\<rparr>)" if "0 \<le> n" "n \<le> int BLCKSZ" for s
      using that g(13) pres disk_rel_seg(2) [OF dr, of i] block_seg [OF dr b] g(1,11) by (simp add: in_range_def block_pos sizes)
    have "\<exists>w'. fv_upd (vw (fs (D1\<lparr>fs := s2\<rparr>))) (vw s3) ?e (Some w') \<and> v_name w' = sname p i \<and> in_range w' \<and> \<not> v_tmp w'"
      using rd(4)
    proof (elim disjE conjE)
      assume "fv_upd (vw s2) (vw s3) ?e (Some (w\<lparr>v_sure := False\<rparr>))"
      then show ?thesis using g(10,13,14) by (intro exI [of _ "w\<lparr>v_sure := False\<rparr>"]) (simp add: in_range_def)
    next
      assume "fv_upd (vw s2) (vw s3) ?e (Some (w\<lparr>v_loc := v_loc w + n, v_sure := 0 < n\<rparr>))" "0 \<le> n" "n \<le> int BLCKSZ"
      then show ?thesis using g(10,14) rg by (intro exI [of _ "w\<lparr>v_loc := v_loc w + n, v_sure := 0 < n\<rparr>"]) simp
    qed
    then obtain w' where w': "fv_upd (vw (fs (D1\<lparr>fs := s2\<rparr>))) (vw s3) ?e (Some w')" "v_name w' = sname p i" "in_range w'" "\<not> v_tmp w'" by blast
    have dd: "disk s3 = disk (fs (D1\<lparr>fs := s2\<rparr>))" using rd(3) by simp
    from seg_step_quiet [OF g(7,2) v2 rd(2) w' dd] show ?thesis using md_frame_trans [OF g(8)] by (simp add: D3_def)
  qed
  have eq: "md_read E rel D b buffer =
      (if n = int BLCKSZ then Inr (SM_SUCCESS, fill buffer bytes, rel, D3)
       else if n = 0 then Inr (SM_SUCCESS, replicate BLCKSZ 0, rel, D3)
       else if b = 0 \<and> n > 0 then
         cbind (md_nblocks E rel D3) (\<lambda>(m, rel2, D4).
           if m = 0 then Inr (SM_SUCCESS, replicate BLCKSZ 0, rel2, D4) else Inr (SM_FAIL, fill buffer bytes, rel2, D4))
       else Inr (SM_FAIL, fill buffer bytes, rel, D3))"
    using g(4,5,6) rd(1) by (simp add: md_read_def ops Let_def D3_def)
  have nz: "n \<noteq> 0" using rd(4) g(11) pres by (auto simp: seg_of_pos sizes)
  consider "n = int BLCKSZ" | "n \<noteq> int BLCKSZ" "b = 0" "n > 0" | "n \<noteq> int BLCKSZ" "\<not> (b = 0 \<and> n > 0)" by blast
  then show ?thesis
  proof cases
    case 1
    then have bt: "bytes = take BLCKSZ (drop ?k (Fs ! i))" "length bytes = BLCKSZ" using rd(4) g(11) by (auto simp: seg_of_pos sizes)
    then have "fill buffer bytes = rel_block Fs (unat b)" using buf g(1) by (simp add: fill_def rel_block_def)
    then show ?thesis using eq 1 st3 by (intro disjI1 exI) (auto simp: padded_def)
  next
    case 2
    have m: "int (rel_blocks Fs) \<noteq> 0" using b by simp
    from md_nblocks_ok [OF conjunct1 [OF st3] r len] show ?thesis
    proof (elim disjE exE conjE)
      fix D' rs' Fs'
      assume a: "md_nblocks E rel D3 = Inr (int (rel_blocks Fs), rel, D')" "open_rel inv vw disk p f D' Fs' rs'" "md_frame vw disk p f D3 rs1 D' rs'"
        "Fs' = (if length (last Fs) = SEGSZ then Fs @ [[]] else Fs)"
      then have "md_read E rel D b buffer = Inr (SM_FAIL, fill buffer bytes, rel, D')" using eq 2 nz m by simp
      moreover have "md_frame vw disk p f D rs D' rs'" using md_frame_trans [OF conjunct2 [OF st3] a(3)] .
      moreover have "padded Fs Fs'" using a(4) by (simp add: padded_def)
      ultimately show ?thesis using a(2) by blast
    next
      assume "md_nblocks E rel D3 = Inl Elog_ERROR" "length (last Fs) = SEGSZ"
      then show ?thesis using eq 2 nz by simp
    qed
  next
    case 3
    then have "md_read E rel D b buffer = Inr (SM_FAIL, fill buffer bytes, rel, D3)" using eq nz by auto
    then show ?thesis using st3 by (intro disjI1 exI) (auto simp: padded_def)
  qed
qed

text \<open>A write replaces the block, or a part of it when it fails, and no other block.\<close>

lemma md_write_ok:
  assumes o: "open_rel inv vw disk p f D Fs rs" and r: "rel_of rel p f" and len: "length Fs < 2 ^ 14" and b: "unat b < rel_blocks Fs"
    and buf: "length buffer = BLCKSZ"
  shows "\<exists>st D' rs' Fs'. md_write E rel D b buffer = Inr (st, rel, D') \<and> open_rel inv vw disk p f D' Fs' rs' \<and> md_frame vw disk p f D rs D' rs' \<and>
    length Fs' = length Fs \<and> rel_blocks Fs' = rel_blocks Fs \<and> (\<forall>c. c \<noteq> unat b \<longrightarrow> rel_block Fs' c = rel_block Fs c) \<and>
    (st = SM_SUCCESS \<and> rel_block Fs' (unat b) = buffer \<or> st = SM_FAIL)"
proof -
  have dr: "disk_rel (disk (fs D)) p Fs" using o by (simp add: open_rel_def)
  obtain i rf rs1 D1 v w s2 where g: "i = unat b div RELSEG_SIZE" "i < length rs1" "rf = rs1 ! i"
    "md_fd_get_seg E rel D (sint b) = Inr (rf, rel, D1)" "deref D1 rf = Inr v"
    "f_seek F (fs D1) (nat (md_fd_vfd v)) (block_pos b) SEEK_SET = Inr (block_pos b, s2)"
    "open_rel inv vw disk p f (D1\<lparr>fs := s2\<rparr>) Fs rs1" "md_frame vw disk p f D rs (D1\<lparr>fs := s2\<rparr>) rs1"
    "vw s2 (nat (md_fd_vfd v)) = Some w" "v_name w = sname p i" "v_loc w = block_pos b" "v_sure w" "in_range w" "\<not> v_tmp w"
    "disk s2 (v_name w) = Some (Fs ! i)" "inv s2"
    by (rule seek_block [OF o r len block_seg [OF dr b]])
  let ?e = "nat (md_fd_vfd v)" and ?k = "unat b mod RELSEG_SIZE * BLCKSZ"
  have bl: "take BLCKSZ buffer = buffer" using buf by simp
  obtain n s3 where wr: "f_write F s2 ?e buffer = Inr (n, s3)" "inv s3"
    "n = -1 \<and> disk s3 = disk s2 \<and> fv_upd (vw s2) (vw s3) ?e (Some (w\<lparr>v_sure := False\<rparr>)) \<or>
     0 \<le> n \<and> n \<le> int BLCKSZ \<and> disk s3 = (disk s2)(v_name w \<mapsto> write_at (Fs ! i) (nat (v_loc w)) (take (nat n) buffer)) \<and>
     fv_upd (vw s2) (vw s3) ?e (Some (w\<lparr>v_loc := v_loc w + n, v_sure := 0 < n\<rparr>))"
    using write_law [OF g(16,9,13,12,15), of buffer] buf by auto
  define D3 where "D3 = D1\<lparr>fs := s3\<rparr>"
  have v2: "deref (D1\<lparr>fs := s2\<rparr>) (rs1 ! i) = Inr v" using g(3,5) by simp
  have dr2: "disk_rel (disk s2) p Fs" "length rs1 \<le> length Fs" using g(7) by (simp_all add: open_rel_def)
  have eq: "md_write E rel D b buffer = Inr (if n \<noteq> int BLCKSZ then SM_FAIL else SM_SUCCESS, rel, D3)"
    using g(4,5,6) wr(1) by (simp add: md_write_def ops Let_def D3_def bl)
  from wr(3) show ?thesis
  proof (elim disjE conjE)
    assume a: "n = -1" "disk s3 = disk s2" "fv_upd (vw s2) (vw s3) ?e (Some (w\<lparr>v_sure := False\<rparr>))"
    have st3: "open_rel inv vw disk p f D3 Fs rs1" "md_frame vw disk p f (D1\<lparr>fs := s2\<rparr>) rs1 D3 rs1"
      using seg_step_quiet [OF g(7,2) v2 wr(2), of "w\<lparr>v_sure := False\<rparr>"] a(2,3) g(10,13,14) by (simp_all add: D3_def in_range_def)
    then show ?thesis using eq a(1) md_frame_trans [OF g(8)] by (intro exI [of _ SM_FAIL] exI [of _ D3] exI [of _ rs1] exI [of _ Fs]) auto
  next
    assume a: "0 \<le> n" "n \<le> int BLCKSZ" "disk s3 = (disk s2)(v_name w \<mapsto> write_at (Fs ! i) (nat (v_loc w)) (take (nat n) buffer))"
      "fv_upd (vw s2) (vw s3) ?e (Some (w\<lparr>v_loc := v_loc w + n, v_sure := 0 < n\<rparr>))"
    define Fs' where "Fs' = Fs[unat b div RELSEG_SIZE := write_at (Fs ! (unat b div RELSEG_SIZE)) ?k (take (nat n) buffer)]"
    have tl: "length (take (nat n) buffer) \<le> BLCKSZ" using buf by simp
    note wb = write_block [OF dr2(1) b tl Fs'_def]
    have d3: "disk s3 = (disk s2)(sname p i \<mapsto> write_at (Fs ! i) ?k (take (nat n) buffer))" using a(3) g(10,11) by (simp add: seg_of_pos)
    have dr3: "disk_rel (disk s3) p Fs'" using wb(1) by (simp add: d3 g(1))
    have pres: "?k + BLCKSZ \<le> length (Fs ! i)" using block_present [OF dr b] g(1) by simp
    have rg: "in_range (w\<lparr>v_loc := v_loc w + n, v_sure := 0 < n\<rparr>)"
      using a(1,2) g(13) pres disk_rel_seg(2) [OF dr, of i] block_seg [OF dr b] g(1,11) by (simp add: in_range_def block_pos sizes)
    have quiet: "disk s3 m = disk (fs (D1\<lparr>fs := s2\<rparr>)) m" if "m \<notin> range (sname p)" for m using that by (auto simp: d3)
    have st3: "open_rel inv vw disk p f D3 Fs' rs1" "md_frame vw disk p f (D1\<lparr>fs := s2\<rparr>) rs1 D3 rs1"
      using seg_step [OF g(7,2) v2 wr(2) _ _ rg _ dr3 _ quiet] a(4) g(10,14) wb(2) dr2(2) by (simp_all add: D3_def)
    have "n = int BLCKSZ \<Longrightarrow> rel_block Fs' (unat b) = buffer" using wb(5) buf by simp
    then show ?thesis using eq st3(1) md_frame_trans [OF g(8) st3(2)] wb(2-4)
      by (intro exI [of _ "if n \<noteq> int BLCKSZ then SM_FAIL else SM_SUCCESS"] exI [of _ D3] exI [of _ rs1] exI [of _ Fs']) auto
  qed
qed

end

end
