(* ===== verification/MdGrow.thy ===== *)
theory MdGrow
  imports MdSpec
begin

text \<open>
  Opening, creating, extending and truncating a relation, against the list of its segments.
\<close>

section \<open>The last segment\<close>

text \<open>The whole blocks of the last segment stay, what is behind them changes.\<close>

lemma tail_blocks:
  assumes d: "disk_rel d p Fs" and k: "k = length Fs - 1" and q: "q = length (last Fs) div BLCKSZ * BLCKSZ"
    and bs: "take q bs = take q (last Fs)" "q \<le> length bs" "length bs \<le> SEGSZ"
  shows "disk_rel (d(sname p k \<mapsto> bs)) p (Fs[k := bs])" "rel_blocks (Fs[k := bs]) = k * RELSEG_SIZE + length bs div BLCKSZ"
    "c < rel_blocks Fs \<Longrightarrow> rel_block (Fs[k := bs]) c = rel_block Fs c"
proof -
  have ne: "Fs \<noteq> []" using d by (simp add: disk_rel_def)
  then have kl: "k < length Fs" "\<not> Suc k < length Fs" "last Fs = Fs ! k" by (simp_all add: k last_conv_nth)
  show "disk_rel (d(sname p k \<mapsto> bs)) p (Fs[k := bs])" by (rule disk_rel_update [OF d kl(1)]) (use kl(2) bs(3) in simp_all)
  show "rel_blocks (Fs[k := bs]) = k * RELSEG_SIZE + length bs div BLCKSZ" using ne k by (simp add: rel_blocks_def last_list_update)
  show "rel_block (Fs[k := bs]) c = rel_block Fs c" if c: "c < rel_blocks Fs"
  proof (cases "c div RELSEG_SIZE = k")
    case True
    have "c mod RELSEG_SIZE * BLCKSZ + BLCKSZ \<le> q"
    proof -
      have "c mod RELSEG_SIZE < length (last Fs) div BLCKSZ" using c True k by (simp add: rel_blocks_def) (metis div_mult_mod_eq add_less_cancel_left)
      then show ?thesis unfolding q using mult_le_mono1 [of "Suc (c mod RELSEG_SIZE)" "length (last Fs) div BLCKSZ" BLCKSZ] by simp
    qed
    then have "take BLCKSZ (drop (c mod RELSEG_SIZE * BLCKSZ) (take q bs)) = take BLCKSZ (drop (c mod RELSEG_SIZE * BLCKSZ) bs)"
      "take BLCKSZ (drop (c mod RELSEG_SIZE * BLCKSZ) (take q (last Fs))) = take BLCKSZ (drop (c mod RELSEG_SIZE * BLCKSZ) (last Fs))"
      by (simp_all add: drop_take min_def)
    then show ?thesis using True kl bs(1) by (simp add: rel_block_def)
  qed (simp add: rel_block_def)
qed

lemma whole_blocks: "n div BLCKSZ * BLCKSZ \<le> n" "n < SEGSZ \<Longrightarrow> n div BLCKSZ * BLCKSZ + BLCKSZ \<le> SEGSZ" "n < n div BLCKSZ * BLCKSZ + BLCKSZ"
proof -
  show "n div BLCKSZ * BLCKSZ \<le> n" by (rule div_times_less_eq_dividend)
  show "n < n div BLCKSZ * BLCKSZ + BLCKSZ" using dividend_less_div_times [of BLCKSZ n] by (simp add: sizes)
  assume "n < SEGSZ"
  then have "n div BLCKSZ < RELSEG_SIZE" by (simp add: sizes div_less_iff_less_mult)
  then have "Suc (n div BLCKSZ) * BLCKSZ \<le> RELSEG_SIZE * BLCKSZ" by (intro mult_le_mono1) simp
  then show "n div BLCKSZ * BLCKSZ + BLCKSZ \<le> SEGSZ" by (simp add: SEGSZ_def)
qed

lemma write_tail:
  assumes "q \<le> length bs" "q = length bs div BLCKSZ * BLCKSZ" "length data \<le> BLCKSZ" "length bs < SEGSZ"
  shows "take q (write_at bs q data) = take q bs" "q \<le> length (write_at bs q data)" "length (write_at bs q data) \<le> SEGSZ"
    "length data < BLCKSZ \<Longrightarrow> length (write_at bs q data) div BLCKSZ = length bs div BLCKSZ"
    "length data = BLCKSZ \<Longrightarrow> write_at bs q data = take q bs @ data"
proof -
  have len: "length (write_at bs q data) = max (length bs) (q + length data)" using assms(1) by (auto simp: write_at_def max_def)
  have w: "length bs < q + BLCKSZ" "q + BLCKSZ \<le> SEGSZ" using whole_blocks [of "length bs"] assms(2,4) by simp_all
  show "take q (write_at bs q data) = take q bs" using assms(1) by (simp add: write_at_def)
  show "q \<le> length (write_at bs q data)" "length (write_at bs q data) \<le> SEGSZ" using len assms(1,3,4) w by simp_all
  show "write_at bs q data = take q bs @ data" if "length data = BLCKSZ"
    using that assms(1) w(1) by (auto simp: write_at_def sizes)
  show "length (write_at bs q data) div BLCKSZ = length bs div BLCKSZ" if "length data < BLCKSZ"
  proof -
    have "max (length bs) (q + length data) div BLCKSZ = length bs div BLCKSZ"
      using that assms(1,2) w(1) by (intro div_nat_eqI) (auto simp: sizes)
    then show ?thesis by (simp add: len)
  qed
qed

section \<open>The first blocks of a relation\<close>

definition keep_blocks :: "nat \<Rightarrow> byte list list \<Rightarrow> byte list list" where
  "keep_blocks n Fs = take (n div RELSEG_SIZE) Fs @ [take (n mod RELSEG_SIZE * BLCKSZ) (Fs ! (n div RELSEG_SIZE))]"

lemma keep_blocks:
  assumes d: "disk_rel d p Fs" and n: "n < rel_blocks Fs" and k: "k = n div RELSEG_SIZE"
  shows "length (keep_blocks n Fs) = Suc k" "k < length Fs" "i < k \<Longrightarrow> keep_blocks n Fs ! i = Fs ! i"
    "keep_blocks n Fs ! k = take (n mod RELSEG_SIZE * BLCKSZ) (Fs ! k)" "n mod RELSEG_SIZE * BLCKSZ \<le> length (Fs ! k)"
    "rel_blocks (keep_blocks n Fs) = n" "c < n \<Longrightarrow> rel_block (keep_blocks n Fs) c = rel_block Fs c"
proof -
  show kl: "k < length Fs" using block_seg [OF d n] by (simp add: k)
  show l: "length (keep_blocks n Fs) = Suc k" using kl by (simp add: keep_blocks_def k)
  show nl: "keep_blocks n Fs ! k = take (n mod RELSEG_SIZE * BLCKSZ) (Fs ! k)" using kl by (simp add: keep_blocks_def k nth_append)
  show pre: "keep_blocks n Fs ! i = Fs ! i" if "i < k" for i using that kl by (simp add: keep_blocks_def k nth_append)
  show ml: "n mod RELSEG_SIZE * BLCKSZ \<le> length (Fs ! k)" using block_present [OF d n] by (simp add: k)
  have "last (keep_blocks n Fs) = take (n mod RELSEG_SIZE * BLCKSZ) (Fs ! k)" by (simp add: keep_blocks_def k)
  then show "rel_blocks (keep_blocks n Fs) = n" using ml l by (simp add: rel_blocks_def k sizes)
  show "rel_block (keep_blocks n Fs) c = rel_block Fs c" if c: "c < n"
  proof (cases "c div RELSEG_SIZE = k")
    case True
    have "c mod RELSEG_SIZE < n mod RELSEG_SIZE" using c True k by (metis add_less_cancel_left div_mult_mod_eq)
    then have "c mod RELSEG_SIZE * BLCKSZ + BLCKSZ \<le> n mod RELSEG_SIZE * BLCKSZ" using mult_le_mono1 [of "Suc (c mod RELSEG_SIZE)" "n mod RELSEG_SIZE" BLCKSZ] by simp
    then have "BLCKSZ \<le> n mod RELSEG_SIZE * BLCKSZ - c mod RELSEG_SIZE * BLCKSZ" by linarith
    then show ?thesis using True nl by (simp add: rel_block_def drop_take min_def)
  next
    case False
    then have "c div RELSEG_SIZE < k" using c k div_le_mono [of c n RELSEG_SIZE] by simp
    then show ?thesis using pre by (simp add: rel_block_def)
  qed
qed

lemma keep_blocks_disk:
  assumes d: "disk_rel d p Fs" and n: "n < rel_blocks Fs" and k: "k = n div RELSEG_SIZE"
    and d': "\<And>i. i \<le> k \<Longrightarrow> d' (sname p i) = Some (keep_blocks n Fs ! i)" "\<And>i. k < i \<Longrightarrow> d' (sname p i) \<in> {None, Some []}"
  shows "disk_rel d' p (keep_blocks n Fs)"
proof -
  note kb = keep_blocks [OF d n k]
  have "length (keep_blocks n Fs ! i) = SEGSZ" if "i < k" for i using kb(2) kb(3) [OF that] d that by (simp add: disk_rel_def)
  moreover have "last (keep_blocks n Fs) = keep_blocks n Fs ! k" using last_seg [of k "keep_blocks n Fs"] kb(1) by simp
  moreover have "length (keep_blocks n Fs ! k) \<le> SEGSZ" using kb(4) disk_rel_seg(2) [OF d kb(2)] by simp
  moreover have "keep_blocks n Fs \<noteq> []" using kb(1) by auto
  ultimately show ?thesis using d' kb(1) by (simp add: disk_rel_def less_Suc_eq_le Suc_le_eq)
qed

section \<open>Entries of the table\<close>

text \<open>A new entry \<open>f\<close> of the table; the other entries, the vectors behind them and the open files are as before.\<close>

definition entered :: "('s \<Rightarrow> nat \<Rightarrow> fview option) \<Rightarrow> nat \<Rightarrow> 's md \<Rightarrow> 's md \<Rightarrow> bool" where
  "entered vw f D D' \<longleftrightarrow> \<not> in_use D f \<and> in_use D' f \<and> (\<exists>ys. fdvec_ok D' ys) \<and> md_segs D' = md_segs D \<and>
     (\<forall>j. j \<noteq> f \<longrightarrow> in_use D j \<longrightarrow> in_use D' j \<and> Md_fdvec D' j = Md_fdvec D j) \<and> (\<forall>i. vw (fs D) i \<noteq> None \<longrightarrow> fv_le (vw (fs D) i) (vw (fs D') i))"

text \<open>A failure changes neither the table nor what is open.\<close>

definition not_entered :: "('s \<Rightarrow> bool) \<Rightarrow> ('s \<Rightarrow> nat \<Rightarrow> fview option) \<Rightarrow> ('s \<Rightarrow> string \<rightharpoonup> byte list) \<Rightarrow> 's md \<Rightarrow> 's md \<Rightarrow> bool" where
  "not_entered I vw disk D D' \<longleftrightarrow> (\<exists>s'. D' = D\<lparr>fs := s'\<rparr> \<and> I s' \<and> disk s' = disk (fs D) \<and> (\<forall>i. fv_le (vw (fs D) i) (vw s' i)))"

context segments
begin

section \<open>Extending\<close>

text \<open>A file whose position is known, through a seek.\<close>

lemma seek_seg:
  assumes o: "open_rel inv vw disk p f D Fs rs" and i: "i < length rs" and v: "deref D (rs ! i) = Inr v" and q: "0 \<le> q" "q < 2 ^ 31 - 1"
  obtains s' w where "f_seek F (fs D) (nat (md_fd_vfd v)) q SEEK_SET = Inr (q, s')" "open_rel inv vw disk p f (D\<lparr>fs := s'\<rparr>) Fs rs"
    "md_frame vw disk p f D rs (D\<lparr>fs := s'\<rparr>) rs" "vw s' (nat (md_fd_vfd v)) = Some w" "v_name w = sname p i" "v_loc w = q" "v_sure w" "in_range w" "\<not> v_tmp w"
    "disk s' = disk (fs D)" "inv s'"
proof -
  obtain v1 w where w: "deref D (rs ! i) = Inr v1" "vw (fs D) (nat (md_fd_vfd v1)) = Some w" "v_name w = sname p i" "\<not> v_tmp w" by (rule seg_at [OF o i])
  then have w2: "vw (fs D) (nat (md_fd_vfd v)) = Some w" "inv (fs D)" using v o by (simp_all add: open_rel_def)
  obtain s' where s': "f_seek F (fs D) (nat (md_fd_vfd v)) q SEEK_SET = Inr (q, s')" "inv s'" "disk s' = disk (fs D)"
    "fv_upd (vw (fs D)) (vw s') (nat (md_fd_vfd v)) (Some (w\<lparr>v_loc := q, v_sure := True\<rparr>))" using seek_set_law [OF w2(2,1) q(1)] by blast
  have rg: "in_range (w\<lparr>v_loc := q, v_sure := True\<rparr>)" using q by (simp add: in_range_def)
  have st: "open_rel inv vw disk p f (D\<lparr>fs := s'\<rparr>) Fs rs" "md_frame vw disk p f D rs (D\<lparr>fs := s'\<rparr>) rs"
    by (rule seg_step_quiet [OF o i v s'(2,4) _ rg _ s'(3)], use w(3,4) in simp_all)+
  obtain w' where w': "vw s' (nat (md_fd_vfd v)) = Some w'" "v_name w' = sname p i" "v_loc w' = q" "v_sure w'" "\<not> v_tmp w'"
    using s'(4) w(3,4) by (auto simp: fv_upd_def fv_le_Some)
  moreover have "in_range w'" using rg w'(3) by (simp add: in_range_def)
  ultimately show ?thesis using that s'(1-3) st by blast
qed

lemma seek_tail:
  assumes o: "open_rel inv vw disk p f D Fs rs" and i: "i < length rs" and v: "deref D (rs ! i) = Inr v" and q: "q = length (Fs ! i) div BLCKSZ * BLCKSZ"
  obtains s3 s4 w where "f_seek F (fs D) (nat (md_fd_vfd v)) 0 SEEK_END = Inr (int (length (Fs ! i)), s3)"
    "(if int (length (Fs ! i)) mod int BLCKSZ \<noteq> 0 then f_seek F s3 (nat (md_fd_vfd v)) (int q) SEEK_SET else Inr (int q, s3)) = Inr (int q, s4)"
    "open_rel inv vw disk p f (D\<lparr>fs := s4\<rparr>) Fs rs" "md_frame vw disk p f D rs (D\<lparr>fs := s4\<rparr>) rs" "vw s4 (nat (md_fd_vfd v)) = Some w"
    "v_name w = sname p i" "v_loc w = int q" "v_sure w" "in_range w" "\<not> v_tmp w" "disk s4 = disk (fs D)" "inv s4"
proof -
  obtain v1 w where w: "deref D (rs ! i) = Inr v1" "vw (fs D) (nat (md_fd_vfd v1)) = Some w" "v_name w = sname p i" "in_range w" "\<not> v_tmp w"
    "disk (fs D) (v_name w) = Some (Fs ! i)" "length (Fs ! i) \<le> SEGSZ" by (rule seg_at [OF o i])
  then have w2: "vw (fs D) (nat (md_fd_vfd v)) = Some w" "inv (fs D)" using v o by (simp_all add: open_rel_def)
  obtain s3 where s3: "f_seek F (fs D) (nat (md_fd_vfd v)) 0 SEEK_END = Inr (int (length (Fs ! i)), s3)" "inv s3" "disk s3 = disk (fs D)"
    "fv_upd (vw (fs D)) (vw s3) (nat (md_fd_vfd v)) (Some (w\<lparr>v_loc := int (length (Fs ! i)), v_sure := True\<rparr>))"
    using seek_end_law [OF w2(2,1) w(4,6)] by blast
  have st: "open_rel inv vw disk p f (D\<lparr>fs := s3\<rparr>) Fs rs" "md_frame vw disk p f D rs (D\<lparr>fs := s3\<rparr>) rs"
    by (rule seg_step_quiet [OF o i v s3(2,4) _ seg_in_range [OF w(7)] _ s3(3)], use w(3,5) in simp_all)+
  show ?thesis
  proof (cases "int (length (Fs ! i)) mod int BLCKSZ = 0")
    case True
    then have "int (length (Fs ! i) mod BLCKSZ) = 0" by (simp only: zmod_int)
    then have ql: "q = length (Fs ! i)" unfolding q using div_mult_mod_eq [of "length (Fs ! i)" BLCKSZ] by simp
    obtain w' where w': "vw s3 (nat (md_fd_vfd v)) = Some w'" "v_name w' = sname p i" "v_loc w' = int q" "v_sure w'" "\<not> v_tmp w'"
      using s3(4) w(3,5) ql by (auto simp: fv_upd_def fv_le_Some)
    moreover have "in_range w'" using w'(3) ql w(7) by (simp add: in_range_def sizes)
    ultimately show ?thesis using that [OF s3(1) _ st] True s3(2,3) by simp
  next
    case False
    have "q \<le> SEGSZ" unfolding q by (rule le_trans [OF whole_blocks(1) w(7)])
    then have qr: "0 \<le> int q" "int q < 2 ^ 31 - 1" by (simp_all add: sizes)
    have v3: "deref (D\<lparr>fs := s3\<rparr>) (rs ! i) = Inr v" using v by simp
    obtain s' w' where s': "f_seek F (fs (D\<lparr>fs := s3\<rparr>)) (nat (md_fd_vfd v)) (int q) SEEK_SET = Inr (int q, s')" "open_rel inv vw disk p f (D\<lparr>fs := s3, fs := s'\<rparr>) Fs rs"
      "md_frame vw disk p f (D\<lparr>fs := s3\<rparr>) rs (D\<lparr>fs := s3, fs := s'\<rparr>) rs" "vw s' (nat (md_fd_vfd v)) = Some w'" "v_name w' = sname p i" "v_loc w' = int q" "v_sure w'"
      "in_range w'" "\<not> v_tmp w'" "disk s' = disk (fs (D\<lparr>fs := s3\<rparr>))" "inv s'" by (rule seek_seg [OF st(1) i v3 qr])
    show ?thesis by (rule that [OF s3(1), of s' w']) (use False s' s3(3) md_frame_trans [OF st(2)] in simp_all)
  qed
qed

text \<open>The last segment of a relation that has no room behind it.\<close>

lemma last_index:
  assumes "disk_rel d p Fs" "length (last Fs) < SEGSZ"
  shows "length Fs - 1 < length Fs" "last Fs = Fs ! (length Fs - 1)" "rel_blocks Fs div RELSEG_SIZE = length Fs - 1"
    "rel_blocks Fs mod RELSEG_SIZE = length (last Fs) div BLCKSZ"
proof -
  show "length Fs - 1 < length Fs" "last Fs = Fs ! (length Fs - 1)" using assms(1) by (simp_all add: disk_rel_def last_conv_nth)
  have "length (last Fs) div BLCKSZ < RELSEG_SIZE" using assms(2) by (simp add: sizes div_less_iff_less_mult)
  then show "rel_blocks Fs div RELSEG_SIZE = length Fs - 1" "rel_blocks Fs mod RELSEG_SIZE = length (last Fs) div BLCKSZ"
    by (simp_all add: rel_blocks_def)
qed

lemma write_last:
  assumes o: "open_rel inv vw disk p f D Fs rs" and l: "length rs = length Fs" "length (last Fs) < SEGSZ" and k: "k = length Fs - 1"
    and v: "deref D (rs ! k) = Inr v" and q: "q = length (last Fs) div BLCKSZ * BLCKSZ"
    and w: "vw (fs D) (nat (md_fd_vfd v)) = Some w" "v_name w = sname p k" "v_loc w = int q" "v_sure w" "in_range w" "\<not> v_tmp w"
    and buf: "length buffer = BLCKSZ"
  obtains n s' Fs' where "f_write F (fs D) (nat (md_fd_vfd v)) buffer = Inr (n, s')" "open_rel inv vw disk p f (D\<lparr>fs := s'\<rparr>) Fs' rs"
    "md_frame vw disk p f D rs (D\<lparr>fs := s'\<rparr>) rs" "length Fs' = length Fs" "\<And>c. c < rel_blocks Fs \<Longrightarrow> rel_block Fs' c = rel_block Fs c"
    "n = int BLCKSZ \<and> rel_blocks Fs' = Suc (rel_blocks Fs) \<and> rel_block Fs' (rel_blocks Fs) = buffer \<or>
     n < int BLCKSZ \<and> rel_blocks Fs' = rel_blocks Fs \<and> Fs' = Fs[k := Fs' ! k] \<and> q \<le> length (Fs' ! k) \<and> take q (Fs' ! k) = take q (last Fs)"
proof -
  have dr: "disk_rel (disk (fs D)) p Fs" "inv (fs D)" using o by (simp_all add: open_rel_def)
  note li = last_index [OF dr(1) l(2)]
  have kr: "k < length rs" using li(1) l(1) k by simp
  have bs: "disk (fs D) (v_name w) = Some (last Fs)" using disk_rel_seg(1) [OF dr(1) li(1)] w(2) li(2) k by simp
  obtain n s' where wr: "f_write F (fs D) (nat (md_fd_vfd v)) buffer = Inr (n, s')" "inv s'"
    "n = -1 \<and> disk s' = disk (fs D) \<and> fv_upd (vw (fs D)) (vw s') (nat (md_fd_vfd v)) (Some (w\<lparr>v_sure := False\<rparr>)) \<or>
     0 \<le> n \<and> n \<le> int BLCKSZ \<and> disk s' = (disk (fs D))(v_name w \<mapsto> write_at (last Fs) (nat (v_loc w)) (take (nat n) buffer)) \<and>
     fv_upd (vw (fs D)) (vw s') (nat (md_fd_vfd v)) (Some (w\<lparr>v_loc := v_loc w + n, v_sure := 0 < n\<rparr>))"
    using write_law [OF dr(2) w(1,5,4) bs, of buffer] buf by auto
  from wr(3) show ?thesis
  proof (elim disjE conjE)
    assume a: "n = -1" "disk s' = disk (fs D)" "fv_upd (vw (fs D)) (vw s') (nat (md_fd_vfd v)) (Some (w\<lparr>v_sure := False\<rparr>))"
    have st: "open_rel inv vw disk p f (D\<lparr>fs := s'\<rparr>) Fs rs" "md_frame vw disk p f D rs (D\<lparr>fs := s'\<rparr>) rs"
      by (rule seg_step_quiet [OF o kr v wr(2) a(3) _ _ _ a(2)], use w in \<open>simp_all add: in_range_def\<close>)+
    have "q \<le> length (Fs ! k)" "take q (Fs ! k) = take q (last Fs)" using li(2) k q whole_blocks(1) [of "length (last Fs)"] by simp_all
    then show ?thesis using that [OF wr(1) st] a(1) by simp
  next
    define data where "data = take (nat n) buffer"
    assume a: "0 \<le> n" "n \<le> int BLCKSZ" "disk s' = (disk (fs D))(v_name w \<mapsto> write_at (last Fs) (nat (v_loc w)) (take (nat n) buffer))"
      "fv_upd (vw (fs D)) (vw s') (nat (md_fd_vfd v)) (Some (w\<lparr>v_loc := v_loc w + n, v_sure := 0 < n\<rparr>))"
    have dl: "length data = nat n" "nat n \<le> BLCKSZ" using a(1,2) buf by (simp_all add: data_def)
    have ql: "q \<le> length (last Fs)" "q + BLCKSZ \<le> SEGSZ" using whole_blocks(1,2) [of "length (last Fs)"] l(2) q by simp_all
    have wl: "length data \<le> BLCKSZ" using dl by simp
    note wt = write_tail [OF ql(1) q wl l(2)]
    define Fs' where "Fs' = Fs[k := write_at (last Fs) q data]"
    note tb = tail_blocks [OF dr(1) k q wt(1-3)]
    have d': "disk s' = (disk (fs D))(sname p k \<mapsto> write_at (last Fs) q data)" using a(3) w(2,3) by (simp add: data_def)
    have rg: "in_range (w\<lparr>v_loc := v_loc w + n, v_sure := 0 < n\<rparr>)" using a(1,2) w(3) ql(2) by (simp add: in_range_def sizes)
    have dr': "disk_rel (disk s') p Fs'" using tb(1) by (simp add: d' Fs'_def)
    have lr: "length rs \<le> length Fs'" using l(1) by (simp add: Fs'_def)
    have quiet: "disk s' m = disk (fs D) m" if "m \<notin> range (sname p)" for m using that by (auto simp: d')
    have st: "open_rel inv vw disk p f (D\<lparr>fs := s'\<rparr>) Fs' rs" "md_frame vw disk p f D rs (D\<lparr>fs := s'\<rparr>) rs"
      by (rule seg_step [OF o kr v wr(2) a(4) _ rg _ dr' lr quiet], use w in simp_all)+
    have fk: "Fs' ! k = write_at (last Fs) q data" "Fs' = Fs[k := Fs' ! k]" using li(1) k by (simp_all add: Fs'_def)
    have old: "c < rel_blocks Fs \<Longrightarrow> rel_block Fs' c = rel_block Fs c" for c using tb(3) by (simp add: Fs'_def)
    show ?thesis
    proof (cases "n = int BLCKSZ")
      case True
      then have full: "data = buffer" "length data = BLCKSZ" using buf by (simp_all add: data_def)
      then have sz: "length (write_at (last Fs) q data) div BLCKSZ = Suc (length (last Fs) div BLCKSZ)" using wt(5) ql(1) q by (simp add: sizes)
      then have "rel_blocks Fs' = Suc (rel_blocks Fs)" using tb(2) k by (simp add: Fs'_def rel_blocks_def)
      moreover have "rel_block Fs' (rel_blocks Fs) = buffer"
        using fk(1) wt(5) full ql(1) k by (simp add: rel_block_def li(3,4) q [symmetric])
      ultimately show ?thesis using that [OF wr(1) st _ old] True by (simp add: Fs'_def)
    next
      case False
      then have "length (write_at (last Fs) q data) div BLCKSZ = length (last Fs) div BLCKSZ" using wt(4) dl a(1,2) by simp
      then have "rel_blocks Fs' = rel_blocks Fs" using tb(2) k by (simp add: Fs'_def rel_blocks_def)
      then show ?thesis using that [OF wr(1) st _ old] False a(2) fk wt(1,2) by (simp add: Fs'_def)
    qed
  qed
qed

lemma rel_block_padded: "c < rel_blocks Fs \<Longrightarrow> disk_rel d p Fs \<Longrightarrow> rel_block (Fs @ xs) c = rel_block Fs c"
  using block_seg by (simp add: rel_block_def nth_append)

text \<open>A failed transfer is cut off again, or less than a block of it stays.\<close>

lemma cut_last:
  assumes o: "open_rel inv vw disk p f D Fs rs" and k: "k < length rs" "k = length Fs - 1" and v: "deref D (rs ! k) = Inr v"
    and q: "q \<le> length (last Fs)" "q = length (last Fs) div BLCKSZ * BLCKSZ"
  obtains c s6 s7 Fs' where "f_truncate F (fs D) (nat (md_fd_vfd v)) (int q) = Inr (c, s6)" "f_seek F s6 (nat (md_fd_vfd v)) (int q) SEEK_SET = Inr (int q, s7)"
    "open_rel inv vw disk p f (D\<lparr>fs := s7\<rparr>) Fs' rs" "md_frame vw disk p f D rs (D\<lparr>fs := s7\<rparr>) rs"
    "rel_blocks Fs' = rel_blocks Fs" "\<And>c. c < rel_blocks Fs \<Longrightarrow> rel_block Fs' c = rel_block Fs c"
proof -
  have dr: "disk_rel (disk (fs D)) p Fs" "inv (fs D)" "length rs \<le> length Fs" using o by (simp_all add: open_rel_def)
  have ls: "last Fs = Fs ! k" using dr(1) k(2) by (simp add: disk_rel_def last_conv_nth)
  obtain v1 w where w1: "deref D (rs ! k) = Inr v1" "vw (fs D) (nat (md_fd_vfd v1)) = Some w" "v_name w = sname p k" "in_range w" "\<not> v_tmp w"
    "disk (fs D) (v_name w) = Some (Fs ! k)" "length (Fs ! k) \<le> SEGSZ" by (rule seg_at [OF o k(1)])
  then have w: "vw (fs D) (nat (md_fd_vfd v)) = Some w" using v by simp
  have q0: "0 \<le> int q" by simp
  obtain c s6 where t: "f_truncate F (fs D) (nat (md_fd_vfd v)) (int q) = Inr (c, s6)" "inv s6" "\<forall>i. fv_le (vw (fs D) i) (vw s6 i)"
    "c < 0 \<and> disk s6 = disk (fs D) \<or> c = 0 \<and> disk s6 = (disk (fs D))(v_name w \<mapsto> trunc_to (Fs ! k) (nat (int q)))"
    using truncate_law [OF dr(2) w w1(4,6) q0] by blast
  have tq: "trunc_to (Fs ! k) q = take q (Fs ! k)" using q(1) ls by (simp add: trunc_to_def)
  have up: "fv_upd (vw (fs D)) (vw s6) (nat (md_fd_vfd v)) (Some w)" using t(3) w unfolding fv_upd_def by metis
  obtain Fs' where F': "disk_rel (disk s6) p Fs'" "length Fs' = length Fs" "rel_blocks Fs' = rel_blocks Fs"
    "\<And>c. c < rel_blocks Fs \<Longrightarrow> rel_block Fs' c = rel_block Fs c" "\<And>m. m \<notin> range (sname p) \<Longrightarrow> disk s6 m = disk (fs D) m"
  proof (cases "c < 0")
    case True
    then show ?thesis using that [of Fs] t(4) dr(1) by simp
  next
    case False
    then have d6: "disk s6 = (disk (fs D))(sname p k \<mapsto> take q (last Fs))" using t(4) w1(3) tq ls by simp
    have tk: "take q (take q (last Fs)) = take q (last Fs)" "q \<le> length (take q (last Fs))" "length (take q (last Fs)) \<le> SEGSZ"
      using q(1) w1(7) ls by simp_all
    note tb = tail_blocks [OF dr(1) k(2) q(2) tk]
    have "length (take q (last Fs)) div BLCKSZ = length (last Fs) div BLCKSZ" using q by (simp add: sizes)
    then have "rel_blocks (Fs[k := take q (last Fs)]) = rel_blocks Fs" using tb(2) k(2) by (simp add: rel_blocks_def)
    moreover have "disk s6 m = disk (fs D) m" if "m \<notin> range (sname p)" for m using that by (auto simp: d6)
    ultimately show ?thesis using that [of "Fs[k := take q (last Fs)]"] tb(1,3) d6 by simp
  qed
  have lr: "length rs \<le> length Fs'" using dr(3) F'(2) by simp
  have st: "open_rel inv vw disk p f (D\<lparr>fs := s6\<rparr>) Fs' rs" "md_frame vw disk p f D rs (D\<lparr>fs := s6\<rparr>) rs"
    by (rule seg_step [OF o k(1) v t(2) up w1(3-5) F'(1) lr F'(5)], simp)+
  have v6: "deref (D\<lparr>fs := s6\<rparr>) (rs ! k) = Inr v" using v by simp
  have "q \<le> SEGSZ" using q(1) w1(7) ls by simp
  then have qr: "int q < 2 ^ 31 - 1" by (simp add: sizes)
  obtain s7 where s7: "f_seek F (fs (D\<lparr>fs := s6\<rparr>)) (nat (md_fd_vfd v)) (int q) SEEK_SET = Inr (int q, s7)"
    "open_rel inv vw disk p f (D\<lparr>fs := s6, fs := s7\<rparr>) Fs' rs" "md_frame vw disk p f (D\<lparr>fs := s6\<rparr>) rs (D\<lparr>fs := s6, fs := s7\<rparr>) rs"
    by (rule seek_seg [OF st(1) k(1) v6 q0 qr])
  show ?thesis by (rule that [OF t(1), of s7 Fs']) (use s7 md_frame_trans [OF st(2)] F'(3,4) in simp_all)
qed

text \<open>The new block comes behind the last whole one; a failure leaves the blocks as they were.\<close>

lemma md_extend_ok:
  assumes o: "open_rel inv vw disk p f D Fs rs" and r: "rel_of rel p f" and len: "length Fs < 2 ^ 14" and buf: "length buffer = BLCKSZ"
  shows "(\<exists>st D' rs' Fs'. md_extend E rel D buffer = Inr (st, rel, D') \<and> open_rel inv vw disk p f D' Fs' rs' \<and> md_frame vw disk p f D rs D' rs' \<and>
      (\<forall>c < rel_blocks Fs. rel_block Fs' c = rel_block Fs c) \<and>
      (st = SM_SUCCESS \<and> rel_blocks Fs' = Suc (rel_blocks Fs) \<and> rel_block Fs' (rel_blocks Fs) = buffer \<or> st = SM_FAIL \<and> rel_blocks Fs' = rel_blocks Fs)) \<or>
    md_extend E rel D buffer = Inl Elog_ERROR \<and> length (last Fs) = SEGSZ"
  using md_nblocks_ok [OF o r len]
proof (elim disjE exE conjE)
  assume "md_nblocks E rel D = Inl Elog_ERROR" "length (last Fs) = SEGSZ"
  then show ?thesis by (simp add: md_extend_def)
next
  fix D1 rs1 F1
  assume n: "md_nblocks E rel D = Inr (int (rel_blocks Fs), rel, D1)" "open_rel inv vw disk p f D1 F1 rs1" "md_frame vw disk p f D rs D1 rs1"
    "length rs1 = length F1" "length (last F1) < SEGSZ" "F1 = (if length (last Fs) = SEGSZ then Fs @ [[]] else Fs)"
  have dr: "disk_rel (disk (fs D)) p Fs" "Fs \<noteq> []" using o by (simp_all add: open_rel_def disk_rel_def)
  have b1: "rel_blocks F1 = rel_blocks Fs" using n(6) rel_blocks_snoc [OF dr(2)] by simp
  have old1: "c < rel_blocks Fs \<Longrightarrow> rel_block F1 c = rel_block Fs c" for c using n(6) rel_block_padded [OF _ dr(1)] by simp
  have dr1: "disk_rel (disk (fs D1)) p F1" using n(2) by (simp add: open_rel_def)
  note li = last_index [OF dr1 n(5)]
  define k where "k = length F1 - 1"
  have kb: "rel_blocks Fs div RELSEG_SIZE = k" "k < length F1" using li b1 by (simp_all add: k_def)
  then have kb': "rel_blocks Fs div RELSEG_SIZE < length F1" by simp
  obtain D2 rs2 where g: "md_fd_get_seg E rel D1 (int (rel_blocks Fs)) = Inr (rs2 ! k, rel, D2)" "k < length rs2" "open_rel inv vw disk p f D2 F1 rs2"
    "md_frame vw disk p f D1 rs1 D2 rs2" using get_seg_ok [OF n(2) r kb'] unfolding kb(1) by blast
  obtain v where v: "deref D2 (rs2 ! k) = Inr v" using g(2,3) chain_at unfolding open_rel_def by blast
  have ls: "last F1 = F1 ! k" using li(2) by (simp add: k_def)
  have l2: "length rs2 = length F1" using g(2,3) kb(2) unfolding open_rel_def k_def by linarith
  define q where "q = length (last F1) div BLCKSZ * BLCKSZ"
  have q: "q = length (F1 ! k) div BLCKSZ * BLCKSZ" by (simp add: q_def ls)
  obtain s3 s4 w where t: "f_seek F (fs D2) (nat (md_fd_vfd v)) 0 SEEK_END = Inr (int (length (F1 ! k)), s3)"
    "(if int (length (F1 ! k)) mod int BLCKSZ \<noteq> 0 then f_seek F s3 (nat (md_fd_vfd v)) (int q) SEEK_SET else Inr (int q, s3)) = Inr (int q, s4)"
    "open_rel inv vw disk p f (D2\<lparr>fs := s4\<rparr>) F1 rs2" "md_frame vw disk p f D2 rs2 (D2\<lparr>fs := s4\<rparr>) rs2" "vw s4 (nat (md_fd_vfd v)) = Some w"
    "v_name w = sname p k" "v_loc w = int q" "v_sure w" "in_range w" "\<not> v_tmp w" "disk s4 = disk (fs D2)" "inv s4"
    by (rule seek_tail [OF g(3,2) v q])
  define D4 where "D4 = D2\<lparr>fs := s4\<rparr>"
  have f4: "fs D4 = s4" by (simp add: D4_def)
  have v4: "deref D4 (rs2 ! k) = Inr v" using v by (simp add: D4_def)
  obtain m s5 F2 where wr: "f_write F (fs D4) (nat (md_fd_vfd v)) buffer = Inr (m, s5)" "open_rel inv vw disk p f (D4\<lparr>fs := s5\<rparr>) F2 rs2"
    "md_frame vw disk p f D4 rs2 (D4\<lparr>fs := s5\<rparr>) rs2" "length F2 = length F1" "\<And>c. c < rel_blocks F1 \<Longrightarrow> rel_block F2 c = rel_block F1 c"
    "m = int BLCKSZ \<and> rel_blocks F2 = Suc (rel_blocks F1) \<and> rel_block F2 (rel_blocks F1) = buffer \<or>
     m < int BLCKSZ \<and> rel_blocks F2 = rel_blocks F1 \<and> F2 = F1[k := F2 ! k] \<and> q \<le> length (F2 ! k) \<and> take q (F2 ! k) = take q (last F1)"
    by (rule write_last [OF t(3)[folded D4_def] l2 n(5) k_def v4 q_def t(5)[folded f4] t(6-10) buf]) (rule that; assumption)
  have fr: "md_frame vw disk p f D rs (D4\<lparr>fs := s5\<rparr>) rs2"
    by (rule md_frame_trans [OF n(3) md_frame_trans [OF g(4) md_frame_trans [OF t(4)[folded D4_def] wr(3)]]])
  have old2: "\<forall>c < rel_blocks Fs. rel_block F2 c = rel_block Fs c" using wr(5) old1 b1 by simp
  have pos1: "int (length (F1 ! k)) - int (length (F1 ! k)) mod int BLCKSZ = int q"
    unfolding q by (simp add: minus_mod_eq_div_mult zdiv_int)
  have eq: "md_extend E rel D buffer =
      (if m \<noteq> int BLCKSZ then
         if m > 0 then
           cbind (f_truncate F s5 (nat (md_fd_vfd v)) (int q)) (\<lambda>(_, s6).
           cbind (f_seek F s6 (nat (md_fd_vfd v)) (int q) SEEK_SET) (\<lambda>(_, s7). Inr (SM_FAIL, rel, D2\<lparr>fs := s7\<rparr>)))
         else Inr (SM_FAIL, rel, D2\<lparr>fs := s5\<rparr>)
       else
         cbind (c_int (int (rel_blocks Fs) + 1)) (\<lambda>n.
           let b = n mod int RELSEG_SIZE
           in Inr (SM_SUCCESS, rel, upd_ref (D2\<lparr>fs := s5\<rparr>) (rs2 ! k) (\<lambda>v. v\<lparr>md_fd_lst_bcnt := if b = 0 then int RELSEG_SIZE else b\<rparr>))))"
    using n(1) g(1) v t(1,2) wr(1) buf unfolding md_extend_def ops f4 by (simp add: Let_def pos1 ops)
  have D5: "D2\<lparr>fs := s\<rparr> = D4\<lparr>fs := s\<rparr>" for s by (simp add: D4_def)
  have v5: "deref (D4\<lparr>fs := s5\<rparr>) (rs2 ! k) = Inr v" using v4 by simp
  from wr(6) show ?thesis
  proof (elim disjE conjE)
    assume a: "m = int BLCKSZ" "rel_blocks F2 = Suc (rel_blocks F1)" "rel_block F2 (rel_blocks F1) = buffer"
    have kl: "k < 2 ^ 14" using kb(2) n(6) len by (cases "length (last Fs) = SEGSZ") simp_all
    have "rel_blocks Fs mod RELSEG_SIZE < RELSEG_SIZE" by (simp add: sizes)
    then have "rel_blocks Fs < Suc k * RELSEG_SIZE" using kb(1) div_mult_mod_eq [of "rel_blocks Fs" RELSEG_SIZE] by simp
    then have "int (rel_blocks Fs) + 1 < 2 ^ 31 \<or> k = 2 ^ 14 - 1" using kl by (simp add: sizes) linarith
    moreover have "int (rel_blocks Fs) + 1 < 2 ^ 31" if "k = 2 ^ 14 - 1"
    proof -
      have "length (last Fs) = SEGSZ" using that n(6) len by (auto simp: k_def split: if_splits)
      then have "rel_blocks F1 = k * RELSEG_SIZE" using n(6) by (simp add: rel_blocks_def k_def)
      then show ?thesis using b1 that by (simp add: sizes)
    qed
    ultimately have small: "int (rel_blocks Fs) + 1 < 2 ^ 31" by blast
    have ci: "c_int (int (rel_blocks Fs) + 1) = Inr (int (rel_blocks Fs) + 1)" by (rule c_int_ok [OF _ small]) simp
    define g where "g = (\<lambda>v :: MdfdVec. v\<lparr>md_fd_lst_bcnt := if (int (rel_blocks Fs) + 1) mod int RELSEG_SIZE = 0 then int RELSEG_SIZE else (int (rel_blocks Fs) + 1) mod int RELSEG_SIZE\<rparr>)"
    have gf: "md_fd_vfd (g u) = md_fd_vfd u" "md_fd_chain (g u) = md_fd_chain u" "md_fd_flags (g u) = md_fd_flags u" for u by (simp_all add: g_def)
    have "md_extend E rel D buffer = Inr (SM_SUCCESS, rel, upd_ref (D4\<lparr>fs := s5\<rparr>) (rs2 ! k) g)"
      unfolding eq ci g_def D5 using a(1) by (simp add: Let_def)
    moreover note upd_step [OF wr(2) g(2) v5, of g, OF gf]
    ultimately show ?thesis using md_frame_trans [OF fr] old2 a(2,3) b1 by (intro disjI1 exI conjI; assumption?) auto
  next
    assume a: "m < int BLCKSZ" "rel_blocks F2 = rel_blocks F1" "F2 = F1[k := F2 ! k]" "q \<le> length (F2 ! k)" "take q (F2 ! k) = take q (last F1)"
    show ?thesis
    proof (cases "m > 0")
      case False
      then have "md_extend E rel D buffer = Inr (SM_FAIL, rel, D4\<lparr>fs := s5\<rparr>)" using eq a(1) by (simp add: D4_def)
      then show ?thesis using wr(2) fr old2 a(2) b1 by auto
    next
      case True
      have k2: "k = length F2 - 1" using wr(4) by (simp add: k_def)
      have ls2: "last F2 = F2 ! k" using kb(2) wr(4) k2 last_seg [of k F2] by simp
      have q2: "q = length (last F2) div BLCKSZ * BLCKSZ"
      proof -
        have "(length F2 - 1) * RELSEG_SIZE + length (last F2) div BLCKSZ = (length F1 - 1) * RELSEG_SIZE + length (last F1) div BLCKSZ"
          using a(2) unfolding rel_blocks_def .
        then show ?thesis by (simp add: wr(4) q_def)
      qed
      have q2': "q \<le> length (last F2)" using a(4) ls2 by simp
      obtain c s6 s7 F3 where ct: "f_truncate F (fs (D4\<lparr>fs := s5\<rparr>)) (nat (md_fd_vfd v)) (int q) = Inr (c, s6)"
        "f_seek F s6 (nat (md_fd_vfd v)) (int q) SEEK_SET = Inr (int q, s7)"
        "open_rel inv vw disk p f (D4\<lparr>fs := s5, fs := s7\<rparr>) F3 rs2" "md_frame vw disk p f (D4\<lparr>fs := s5\<rparr>) rs2 (D4\<lparr>fs := s5, fs := s7\<rparr>) rs2"
        "rel_blocks F3 = rel_blocks F2" "\<And>c. c < rel_blocks F2 \<Longrightarrow> rel_block F3 c = rel_block F2 c"
        by (rule cut_last [OF wr(2) g(2) k2 v5 q2' q2]) (rule that; assumption)
      have "md_extend E rel D buffer = Inr (SM_FAIL, rel, D4\<lparr>fs := s5, fs := s7\<rparr>)" using eq a(1) True ct(1,2) by (simp add: D4_def)
      then show ?thesis using ct(3) md_frame_trans [OF fr ct(4)] old2 ct(5,6) a(2) b1 by auto
    qed
  qed
qed

section \<open>Opening and creating a relation\<close>

lemma fdvec_ok_upd:
  assumes "fdvec_ok D ys" "md_fd_next_free (g (Md_fdvec D f)) = md_fd_next_free (Md_fdvec D f)" "md_fd_flags (g (Md_fdvec D f)) = md_fd_flags (Md_fdvec D f)"
  shows "fdvec_ok (upd_entry D f g) ys"
proof -
  have "fpath (\<lambda>i. md_fd_next_free (Md_fdvec (upd_entry D f g) i)) q xs = fpath (\<lambda>i. md_fd_next_free (Md_fdvec D i)) q xs" for q xs
    by (rule fpath_cong) (simp add: assms(2))
  then show ?thesis using assms(1,3) by (auto simp: fdvec_ok_def)
qed

lemma fdvec_ok_fs [simp]: "fdvec_ok (D\<lparr>fs := s\<rparr>) ys \<longleftrightarrow> fdvec_ok D ys" "in_use (D\<lparr>fs := s\<rparr>) i \<longleftrightarrow> in_use D i"
  by (simp_all add: fdvec_ok_def in_use_def)

lemma enter_ok:
  assumes ok: "fdvec_ok D ys" and fin: "finite (dom (md_segs D))" and al: "fdvec_alloc (D\<lparr>fs := s\<rparr>) = Inr (f, D1)"
    and h: "inv s'" "disk_rel (disk s') p Fs" "vw s' e = Some w" "v_name w = p" "in_range w" "\<not> v_tmp w"
      "\<And>i. vw (fs D) i \<noteq> None \<Longrightarrow> fv_le (vw (fs D) i) (vw s' i)"
    and g: "\<And>u. md_fd_vfd (g u) = int e" "\<And>u. md_fd_chain (g u) = 0" "\<And>u. md_fd_flags (g u) = 0" "\<And>u. md_fd_next_free (g u) = md_fd_next_free u"
  shows "open_rel inv vw disk p f (upd_entry (D1\<lparr>fs := s'\<rparr>) f g) Fs [Entry f]" "entered vw f D (upd_entry (D1\<lparr>fs := s'\<rparr>) f g)" "fs D1 = s"
proof -
  let ?D = "upd_entry (D1\<lparr>fs := s'\<rparr>) f g"
  have "fdvec_ok (D\<lparr>fs := s\<rparr>) ys" using ok by simp
  from fdvec_alloc_ok [OF this] obtain ys1 where a: "fdvec_ok D1 ys1" "\<not> in_use (D\<lparr>fs := s\<rparr>) f" "in_use D1 f"
    "\<forall>j. j \<noteq> f \<longrightarrow> in_use (D\<lparr>fs := s\<rparr>) j \<longrightarrow> in_use D1 j \<and> Md_fdvec D1 j = Md_fdvec (D\<lparr>fs := s\<rparr>) j" "md_segs D1 = md_segs (D\<lparr>fs := s\<rparr>)" "fs D1 = fs (D\<lparr>fs := s\<rparr>)"
    using al by auto
  show "fs D1 = s" using a(6) by simp
  have fl: "md_fd_flags (Md_fdvec D1 f) = 0" "f < CurFd D1" using a(3) by (simp_all add: in_use_def)
  have ok1: "fdvec_ok ?D ys1" by (rule fdvec_ok_upd) (use a(1) g fl in simp_all)
  have use: "in_use ?D f" "j \<noteq> f \<Longrightarrow> in_use ?D j \<longleftrightarrow> in_use D1 j" for j using fl g(3) by (simp_all add: in_use_def)
  have s0: "sname p 0 = p" by (simp add: sname_def seg_path_def)
  have "seg_chain vw p f ?D [Entry f]" using g h(3-6) s0 by (auto simp: seg_chain_def deref_def next_ref_def seg_view_def)
  moreover have "length [Entry f] \<le> length Fs" using h(2) by (cases Fs) (simp_all add: disk_rel_def)
  ultimately show "open_rel inv vw disk p f ?D Fs [Entry f]" using h(1,2) use(1) fin a(5) by (simp add: open_rel_def)
  show "entered vw f D ?D" using a(2,4,5) use ok1 h(7) by (auto simp: entered_def)
qed

lemma open_flags:
  "O_RDWR AND O_TRUNC = 0" "O_RDWR AND O_EXCL = 0" "O_RDWR AND O_CREAT = 0" "(O_RDWR OR O_CREAT OR O_EXCL) AND O_TRUNC = 0"
  "(O_RDWR OR O_CREAT OR O_EXCL) AND O_EXCL \<noteq> 0" "(O_RDWR OR O_CREAT OR O_EXCL) AND O_CREAT \<noteq> 0"
  by (simp_all add: O_RDWR_def O_CREAT_def O_TRUNC_def O_EXCL_def)

lemma md_open_ok:
  assumes i: "inv (fs D)" and ok: "fdvec_ok D ys" and fin: "finite (dom (md_segs D))" and nb: "\<not> bootstrap E"
    and rel: "rd_fd rel < 0" "p = relpath (DataDir E) (rd_node rel)" and d: "disk_rel (disk (fs D)) p Fs"
  shows "(\<exists>D'. md_open E rel D = Inr (-1, D') \<and> not_entered inv vw disk D D') \<or>
    (\<exists>f D'. md_open E rel D = Inr (int f, D') \<and> open_rel inv vw disk p f D' Fs [Entry f] \<and> entered vw f D D' \<and> disk (fs D') = disk (fs D))"
proof -
  have "\<exists>n. p = CHR ''/'' # n" by (simp add: rel(2) relpath_def absolute)
  then obtain n where n: "p = CHR ''/'' # n" by blast
  have ca: "c_assert (rd_fd rel < 0) x = x" for x :: "'a cres" using rel(1) by (simp add: c_assert_def)
  obtain r s1 where o: "f_open F (fs D) p O_RDWR 384 = Inr (r, s1)" "inv s1"
    "r = -1 \<and> disk s1 = disk (fs D) \<and> (disk (fs D) p \<noteq> None \<longrightarrow> O_RDWR AND O_EXCL \<noteq> 0) \<and> (\<forall>i. fv_le (vw (fs D) i) (vw s1 i)) \<or>
     (\<exists>e. r = int e \<and> vw (fs D) e = None \<and> opens (disk (fs D)) p O_RDWR (disk s1) \<and>
        fv_upd (vw (fs D)) (vw s1) e (Some \<lparr>v_name = p, v_loc = 0, v_sure = True, v_tmp = False\<rparr>))"
    using open_law [OF i open_flags(1), of n 384] unfolding n by blast
  from o(3) show ?thesis
  proof (elim disjE exE conjE)
    assume "r = -1" "disk s1 = disk (fs D)" "\<forall>i. fv_le (vw (fs D) i) (vw s1 i)"
    then show ?thesis using o(1,2) nb rel by (intro disjI1) (auto simp: md_open_def ca ops not_entered_def Let_def)
  next
    fix e assume e: "r = int e" "vw (fs D) e = None" "opens (disk (fs D)) p O_RDWR (disk s1)"
      "fv_upd (vw (fs D)) (vw s1) e (Some \<lparr>v_name = p, v_loc = 0, v_sure = True, v_tmp = False\<rparr>)"
    have s0: "sname p 0 = p" "0 < length Fs" using d by (simp_all add: sname_def seg_path_def disk_rel_def)
    have d0: "disk (fs D) p = Some (Fs ! 0)" "length (Fs ! 0) \<le> SEGSZ" using disk_rel_seg [OF d s0(2)] s0(1) by simp_all
    then have d1: "disk s1 = disk (fs D)" using e(3) by (simp add: opens_def)
    obtain w where w: "vw s1 e = Some w" "v_name w = p" "v_loc w = 0" "\<not> v_tmp w" using e(4) by (auto simp: fv_upd_def fv_le_Some)
    have wd: "in_range w" "disk s1 (v_name w) = Some (Fs ! 0)" using w(2,3) d0 d1 by (simp_all add: in_range_def)
    obtain s3 where s3: "f_seek F s1 e 0 SEEK_END = Inr (int (length (Fs ! 0)), s3)" "inv s3" "disk s3 = disk s1"
      "fv_upd (vw s1) (vw s3) e (Some (w\<lparr>v_loc := int (length (Fs ! 0)), v_sure := True\<rparr>))"
      using seek_end_law [OF o(2) w(1) wd] by blast
    obtain w3 where w3: "vw s3 e = Some w3" "v_name w3 = p" "\<not> v_tmp w3" "v_loc w3 = int (length (Fs ! 0))" using s3(4) w(2,4) by (auto simp: fv_upd_def fv_le_Some)
    have rg: "in_range w3" using w3(4) d0(2) by (simp add: in_range_def sizes)
    have le: "fv_le (vw (fs D) j) (vw s3 j)" if "vw (fs D) j \<noteq> None" for j
    proof -
      have "j \<noteq> e" using e(2) that by auto
      then show ?thesis using e(4) s3(4) fv_le_trans unfolding fv_upd_def by blast
    qed
    have "fdvec_ok (D\<lparr>fs := s1\<rparr>) ys" using ok by simp
    from fdvec_alloc_ok [OF this] obtain f D1 where a: "fdvec_alloc (D\<lparr>fs := s1\<rparr>) = Inr (f, D1)" "fs D1 = s1" by auto
    define nb where "nb = to_int (int (length (Fs ! 0)) div int BLCKSZ)"
    define g where "g = (\<lambda>v :: MdfdVec. v\<lparr>md_fd_vfd := int e, md_fd_flags := 0, md_fd_lst_bcnt := nb, md_fd_chain := 0\<rparr>)"
    have two: "upd_entry ((upd_entry D1 f (\<lambda>v. v\<lparr>md_fd_vfd := int e, md_fd_flags := 0\<rparr>))\<lparr>fs := s3\<rparr>) f (\<lambda>v. v\<lparr>md_fd_lst_bcnt := nb, md_fd_chain := 0\<rparr>) =
        upd_entry (D1\<lparr>fs := s3\<rparr>) f g" by (simp add: upd_entry_def g_def)
    have run: "md_open E rel D = Inr (int f, upd_entry (D1\<lparr>fs := s3\<rparr>) f g)"
      using o(1) e(1) a(1,2) s3(1) rel(2) unfolding md_open_def ca two [symmetric] by (simp add: ops Let_def md_nblocks_aux_def nb_def)
    have d3: "disk_rel (disk s3) p Fs" using d s3(3) d1 by simp
    have gp: "md_fd_vfd (g u) = int e" "md_fd_chain (g u) = 0" "md_fd_flags (g u) = 0" "md_fd_next_free (g u) = md_fd_next_free u" for u by (simp_all add: g_def)
    note ent = enter_ok [OF ok fin a(1) s3(2) d3 w3(1,2) rg w3(3) le, of g, OF _ gp]
    then show ?thesis using run s3(3) d1 by (intro disjI2 exI [of _ f] exI [of _ "upd_entry (D1\<lparr>fs := s3\<rparr>) f g"]) simp
  qed
qed

text \<open>A relation that exists cannot be created; a new one is empty.\<close>

lemma md_create_ok:
  assumes i: "inv (fs D)" and ok: "fdvec_ok D ys" and fin: "finite (dom (md_segs D))" and nb: "\<not> bootstrap E"
    and rel: "rd_fd rel < 0" "p = relpath (DataDir E) (rd_node rel)"
    and d: "\<forall>i > 0. disk (fs D) (sname p i) = None \<or> disk (fs D) (sname p i) = Some []"
  shows "(\<exists>D'. md_create E rel D = Inr (-1, D') \<and> not_entered inv vw disk D D') \<or>
    disk (fs D) p = None \<and> (\<exists>f D'. md_create E rel D = Inr (int f, D') \<and> open_rel inv vw disk p f D' [[]] [Entry f] \<and> entered vw f D D' \<and>
      disk (fs D') = (disk (fs D))(p \<mapsto> []))"
proof -
  let ?fl = "O_RDWR OR O_CREAT OR O_EXCL"
  have "\<exists>n. p = CHR ''/'' # n" by (simp add: rel(2) relpath_def absolute)
  then obtain n where n: "p = CHR ''/'' # n" by blast
  have ca: "c_assert (rd_fd rel < 0) x = x" for x :: "'a cres" using rel(1) by (simp add: c_assert_def)
  obtain r s1 where o: "f_open F (fs D) p ?fl 384 = Inr (r, s1)" "inv s1"
    "r = -1 \<and> disk s1 = disk (fs D) \<and> (disk (fs D) p \<noteq> None \<longrightarrow> ?fl AND O_EXCL \<noteq> 0) \<and> (\<forall>i. fv_le (vw (fs D) i) (vw s1 i)) \<or>
     (\<exists>e. r = int e \<and> vw (fs D) e = None \<and> opens (disk (fs D)) p ?fl (disk s1) \<and>
        fv_upd (vw (fs D)) (vw s1) e (Some \<lparr>v_name = p, v_loc = 0, v_sure = True, v_tmp = False\<rparr>))"
    using open_law [OF i open_flags(4), of n 384] unfolding n by blast
  from o(3) show ?thesis
  proof (elim disjE exE conjE)
    assume "r = -1" "disk s1 = disk (fs D)" "\<forall>i. fv_le (vw (fs D) i) (vw s1 i)"
    then show ?thesis using o(1,2) nb rel by (intro disjI1) (auto simp: md_create_def ca ops not_entered_def Let_def)
  next
    fix e assume e: "r = int e" "vw (fs D) e = None" "opens (disk (fs D)) p ?fl (disk s1)"
      "fv_upd (vw (fs D)) (vw s1) e (Some \<lparr>v_name = p, v_loc = 0, v_sure = True, v_tmp = False\<rparr>)"
    have d1: "disk (fs D) p = None" "disk s1 = (disk (fs D))(p \<mapsto> [])" using e(3) open_flags(5,6) by (auto simp: opens_def split: option.splits)
    have s0: "sname p 0 = p" by (simp add: sname_def seg_path_def)
    have "disk s1 (sname p j) = None \<or> disk s1 (sname p j) = Some []" if "0 < j" for j
      using d that sname_inj [of p j 0] s0 d1(2) by auto
    then have dr: "disk_rel (disk s1) p [[]]" using s0 d1(2) by (auto simp: disk_rel_def Suc_le_eq)
    obtain w where w: "vw s1 e = Some w" "v_name w = p" "v_loc w = 0" "\<not> v_tmp w" using e(4) by (auto simp: fv_upd_def fv_le_Some)
    have wd: "in_range w" using w(3) by (simp add: in_range_def)
    have le: "fv_le (vw (fs D) j) (vw s1 j)" if "vw (fs D) j \<noteq> None" for j
    proof -
      have "j \<noteq> e" using e(2) that by auto
      then show ?thesis using e(4) unfolding fv_upd_def by blast
    qed
    have "fdvec_ok (D\<lparr>fs := s1\<rparr>) ys" using ok by simp
    from fdvec_alloc_ok [OF this] obtain f D1 where a: "fdvec_alloc (D\<lparr>fs := s1\<rparr>) = Inr (f, D1)" "fs D1 = s1" by auto
    define g where "g = (\<lambda>v :: MdfdVec. v\<lparr>md_fd_vfd := int e, md_fd_flags := 0, md_fd_lst_bcnt := 0, md_fd_chain := 0\<rparr>)"
    have D1: "D1\<lparr>fs := s1\<rparr> = D1" using a(2) by simp
    have run: "md_create E rel D = Inr (int f, upd_entry D1 f g)"
      using o(1) e(1) a(1) rel(2) unfolding md_create_def ca by (simp add: ops Let_def g_def)
    have gp: "md_fd_vfd (g u) = int e" "md_fd_chain (g u) = 0" "md_fd_flags (g u) = 0" "md_fd_next_free (g u) = md_fd_next_free u" for u by (simp_all add: g_def)
    note ent = enter_ok [OF ok fin a(1) o(2) dr w(1,2) wd w(4) le, of g, OF _ gp]
    then show ?thesis using run a(2) d1 unfolding D1 by (intro disjI2 conjI exI [of _ f] exI [of _ "upd_entry D1 f g"]) simp_all
  qed
qed

section \<open>Truncating\<close>

lemma md_frame_less: "md_frame vw disk p f D rs D' rs1 \<Longrightarrow> set rs2 \<subseteq> set rs1 \<Longrightarrow> md_frame vw disk p f D rs D' rs2"
  by (auto simp: md_frame_def)

text \<open>The vectors from \<open>j\<close> on, which may be cut off from the table.\<close>

definition tail_chain :: "string \<Rightarrow> 's md \<Rightarrow> md_ref list \<Rightarrow> nat \<Rightarrow> bool" where
  "tail_chain p D rs j \<longleftrightarrow> (\<forall>i. j \<le> i \<longrightarrow> i < length rs \<longrightarrow> (\<exists>a v. rs ! i = Chunk a \<and> md_segs D a = Some v \<and>
     next_ref v = (if Suc i < length rs then Some (rs ! Suc i) else None) \<and> seg_view vw (fs D) p i (md_fd_vfd v)))"

lemma chain_tail:
  assumes c: "seg_chain vw p f D rs" and j: "0 < j"
  shows "tail_chain p D rs j"
proof -
  have "\<exists>a v. rs ! i = Chunk a \<and> md_segs D a = Some v \<and> next_ref v = (if Suc i < length rs then Some (rs ! Suc i) else None) \<and> seg_view vw (fs D) p i (md_fd_vfd v)"
    if i: "j \<le> i" "i < length rs" for i
  proof -
    obtain a u where a: "rs ! i = Chunk a" "md_segs D a = Some u" using chain_kind [OF c i(2)] i(1) j by auto
    then show ?thesis using chain_at [OF c i(2)] by (auto simp: deref_def)
  qed
  then show ?thesis by (simp add: tail_chain_def)
qed

text \<open>Segment \<open>j\<close> goes; what is before and behind it stays.\<close>

lemma view_drop:
  assumes u: "fv_upd (vw s) (vw s') e v'" and w: "vw s e = Some w" "v_name w = sname p j" and sv: "seg_view vw s p i x" and ij: "i \<noteq> j"
  shows "seg_view vw s' p i x"
proof -
  have "nat x \<noteq> e" using sv w sname_inj [of p i j] ij by (auto simp: seg_view_def)
  then show ?thesis using seg_view_le [OF sv] u by (simp add: fv_upd_def)
qed

lemma drop_step:
  assumes i: "inv (fs D)" and ks: "seg_chain vw p f D ks" "set ks \<subseteq> set (take j rs)" "length ks \<le> j" and rs: "tail_chain p D rs j" "j < length rs" "distinct rs"
    and d: "disk (fs D) (sname p j) = Some bs"
  obtains v D1 where "deref D (rs ! j) = Inr v" "next_ref v = (if Suc j < length rs then Some (rs ! Suc j) else None)" "drop_seg E D (rs ! j) v = Inr D1"
    "inv (fs D1)" "seg_chain vw p f D1 ks" "tail_chain p D1 rs (Suc j)" "disk (fs D1) (sname p j) \<in> {None, Some [], Some bs}"
    "\<And>m. m \<noteq> sname p j \<Longrightarrow> disk (fs D1) m = disk (fs D) m" "md_frame vw disk p f D rs D1 rs" "dom (md_segs D1) \<subseteq> dom (md_segs D)" "Md_fdvec D1 = Md_fdvec D"
proof -
  obtain a v where a: "rs ! j = Chunk a" "md_segs D a = Some v" "next_ref v = (if Suc j < length rs then Some (rs ! Suc j) else None)" "seg_view vw (fs D) p j (md_fd_vfd v)"
    using rs(1,2) unfolding tail_chain_def by blast
  let ?e = "nat (md_fd_vfd v)"
  obtain w where w: "vw (fs D) ?e = Some w" "v_name w = sname p j" "in_range w" using a(4) by (auto simp: seg_view_def)
  have bs: "disk (fs D) (v_name w) = Some bs" using d w(2) by simp
  obtain c s1 where t: "f_truncate F (fs D) ?e 0 = Inr (c, s1)" "inv s1" "\<forall>i. fv_le (vw (fs D) i) (vw s1 i)"
    "c < 0 \<and> disk s1 = disk (fs D) \<or> c = 0 \<and> disk s1 = (disk (fs D))(v_name w \<mapsto> trunc_to bs (nat 0))" using truncate_law [OF i w(1,3) bs, of 0] by auto
  obtain w1 where w1: "vw s1 ?e = Some w1" "v_name w1 = sname p j" using t(3) w(1,2) by (metis fv_le_Some)
  obtain s2 where un: "f_unlink F s1 ?e = Inr s2" "inv s2" "disk s2 = disk s1 \<or> disk s2 = (disk s1)(v_name w1 := None)" "fv_upd (vw s1) (vw s2) ?e None"
    using unlink_law [OF t(2) w1(1)] by blast
  let ?D = "D\<lparr>fs := s2, md_segs := (md_segs D)(a := None)\<rparr>"
  have run: "drop_seg E D (rs ! j) v = Inr ?D" using t(1) un(1) a(1) by (simp add: drop_seg_def ops)
  have upd: "fv_upd (vw (fs D)) (vw s2) ?e None" using t(3) un(4) fv_le_trans unfolding fv_upd_def by blast
  have view: "seg_view vw s2 p i x" if "seg_view vw (fs D) p i x" "i \<noteq> j" for i x by (rule view_drop [OF upd w(1,2) that])
  have other: "rs ! i \<noteq> Chunk a" if "i < length rs" "i \<noteq> j" for i using that a(1) rs(2,3) nth_eq_iff_index_eq by metis
  have nk: "Chunk a \<notin> set ks"
  proof
    assume "Chunk a \<in> set ks"
    then have "Chunk a \<in> set (take j rs)" using ks(2) by blast
    then obtain i where "i < j" "i < length rs" "rs ! i = Chunk a" by (auto simp: in_set_conv_nth)
    then show False using other [of i] by simp
  qed
  have same: "deref ?D r = deref D r" if "r \<noteq> Chunk a" for r using that by (simp add: deref_def split: md_ref.split)
  have "\<exists>u. deref ?D (ks ! i) = Inr u \<and> next_ref u = (if Suc i < length ks then Some (ks ! Suc i) else None) \<and> seg_view vw (fs ?D) p i (md_fd_vfd u)"
    if il: "i < length ks" for i
  proof -
    have ne: "ks ! i \<noteq> Chunk a" using nk nth_mem [OF il] by auto
    have "i \<noteq> j" using il ks(3) by simp
    then show ?thesis using chain_at [OF ks(1) il] view same [OF ne] by auto
  qed
  then have c1: "seg_chain vw p f ?D ks" using ks(1) by (simp add: seg_chain_def)
  have "\<exists>b u. rs ! i = Chunk b \<and> md_segs ?D b = Some u \<and> next_ref u = (if Suc i < length rs then Some (rs ! Suc i) else None) \<and> seg_view vw (fs ?D) p i (md_fd_vfd u)"
    if il: "Suc j \<le> i" "i < length rs" for i
  proof -
    obtain b u where b: "rs ! i = Chunk b" "md_segs D b = Some u" "next_ref u = (if Suc i < length rs then Some (rs ! Suc i) else None)" "seg_view vw (fs D) p i (md_fd_vfd u)"
      using rs(1) il unfolding tail_chain_def by (meson Suc_leD)
    have "b \<noteq> a" using other [OF il(2)] il(1) b(1) by auto
    then show ?thesis using b view il(1) by (intro exI [of _ b] exI [of _ u]) simp
  qed
  then have c2: "tail_chain p ?D rs (Suc j)" by (simp add: tail_chain_def)
  have dj: "disk s2 (sname p j) \<in> {None, Some [], Some bs}" using un(3) t(4) w(2) w1(2) d by (auto simp: trunc_to_def)
  have dm: "disk s2 m = disk (fs D) m" if "m \<noteq> sname p j" for m using un(3) t(4) w(2) w1(2) that by auto
  have "md_frame vw disk p f D rs ?D rs"
  proof -
    have "fv_le (vw (fs D) x) (vw s2 x)" if "vw (fs D) x = Some u" "v_name u \<notin> range (sname p)" for x u
      using upd that w(1,2) by (cases "x = ?e") (auto simp: fv_upd_def)
    moreover have "disk s2 m = disk (fs D) m" if "m \<notin> range (sname p)" for m using dm that by auto
    moreover have "Chunk a \<in> set rs" using a(1) nth_mem [OF rs(2)] by simp
    ultimately show ?thesis by (auto simp: md_frame_def)
  qed
  then show ?thesis using that [OF _ a(3) run] a(1,2) un(2) c1 c2 dj dm by (auto simp: deref_def)
qed

text \<open>All segments from \<open>j\<close> on go.\<close>

lemma drop_loop:
  assumes "inv (fs D)" "seg_chain vw p f D ks" "set ks \<subseteq> set (take j rs)" "length ks \<le> j" "tail_chain p D rs j" "j \<le> length rs" "distinct rs"
    "\<And>i. j \<le> i \<Longrightarrow> i < length rs \<Longrightarrow> disk (fs D) (sname p i) \<noteq> None" "finite (dom (md_segs D))" "length rs < 2 ^ 14" "n < int (j * RELSEG_SIZE)"
  shows "\<exists>D'. truncate_loop E D (if j < length rs then Some (rs ! j) else None) n (int (j * RELSEG_SIZE)) = Inr (True, D') \<and> inv (fs D') \<and> seg_chain vw p f D' ks \<and>
    finite (dom (md_segs D')) \<and> md_frame vw disk p f D rs D' rs \<and> (\<forall>i. i < j \<longrightarrow> disk (fs D') (sname p i) = disk (fs D) (sname p i)) \<and>
    (\<forall>i. j \<le> i \<longrightarrow> disk (fs D') (sname p i) \<in> {None, Some [], disk (fs D) (sname p i)}) \<and> Md_fdvec D' = Md_fdvec D"
  using assms
proof (induction "length rs - j" arbitrary: D j)
  case 0
  then show ?case using md_frame_refl by (intro exI [of _ D]) (simp add: truncate_loop.simps(1))
next
  case (Suc m)
  then have j: "j < length rs" by simp
  obtain bs where bs: "disk (fs D) (sname p j) = Some bs" using Suc.prems(8) [OF _ j] by auto
  obtain v D1 where s: "deref D (rs ! j) = Inr v" "next_ref v = (if Suc j < length rs then Some (rs ! Suc j) else None)" "drop_seg E D (rs ! j) v = Inr D1"
    "inv (fs D1)" "seg_chain vw p f D1 ks" "tail_chain p D1 rs (Suc j)" "disk (fs D1) (sname p j) \<in> {None, Some [], Some bs}"
    "\<And>m. m \<noteq> sname p j \<Longrightarrow> disk (fs D1) m = disk (fs D) m" "md_frame vw disk p f D rs D1 rs" "dom (md_segs D1) \<subseteq> dom (md_segs D)" "Md_fdvec D1 = Md_fdvec D"
    by (rule drop_step [OF Suc.prems(1-5) j Suc.prems(7) bs]) (rule that; assumption)
  have d1: "disk (fs D1) (sname p i) = disk (fs D) (sname p i)" if "i \<noteq> j" for i using s(8) sname_inj that by blast
  have pr: "int (j * RELSEG_SIZE) + int RELSEG_SIZE = int (Suc j * RELSEG_SIZE)" by simp
  have bound: "int (Suc j * RELSEG_SIZE) < 2 ^ 31" using j Suc.prems(10) by (simp add: sizes)
  have run: "truncate_loop E D (Some (rs ! j)) n (int (j * RELSEG_SIZE)) = truncate_loop E D1 (next_ref v) n (int (Suc j * RELSEG_SIZE))"
    using s(1,3) Suc.prems(11) bound by (subst truncate_loop.simps(2)) (simp only: pr Let_def sum.case, simp)
  have m: "m = length rs - Suc j" using Suc.hyps(2) by simp
  have "set ks \<subseteq> set (take (Suc j) rs)" using Suc.prems(3) set_take_subset_set_take [of j "Suc j" rs] by auto
  moreover have "n < int (Suc j * RELSEG_SIZE)" using Suc.prems(11) by simp
  moreover have "disk (fs D1) (sname p i) \<noteq> None" if "Suc j \<le> i" "i < length rs" for i using Suc.prems(8) that d1 [of i] by simp
  moreover have "finite (dom (md_segs D1))" using s(10) Suc.prems(9) finite_subset by blast
  ultimately obtain D' where r: "truncate_loop E D1 (if Suc j < length rs then Some (rs ! Suc j) else None) n (int (Suc j * RELSEG_SIZE)) = Inr (True, D')" "inv (fs D')"
    "seg_chain vw p f D' ks" "finite (dom (md_segs D'))" "md_frame vw disk p f D1 rs D' rs" "\<forall>i. i < Suc j \<longrightarrow> disk (fs D') (sname p i) = disk (fs D1) (sname p i)"
    "\<forall>i. Suc j \<le> i \<longrightarrow> disk (fs D') (sname p i) \<in> {None, Some [], disk (fs D1) (sname p i)}" "Md_fdvec D' = Md_fdvec D1"
    using Suc.hyps(1) [OF m s(4,5) _ _ s(6) _ Suc.prems(7) _ _ Suc.prems(10)] Suc.prems(4) j by auto
  have "disk (fs D') (sname p i) \<in> {None, Some [], disk (fs D) (sname p i)}" if i: "j \<le> i" for i
  proof (cases "i = j")
    case True
    then show ?thesis using r(6) s(7) bs by simp
  next
    case False
    then have "Suc j \<le> i" using i by simp
    then have "disk (fs D') (sname p i) \<in> {None, Some [], disk (fs D1) (sname p i)}" using r(7) by blast
    then show ?thesis by (simp only: d1 [OF False])
  qed
  moreover have "\<forall>i. i < j \<longrightarrow> disk (fs D') (sname p i) = disk (fs D) (sname p i)" using r(6) d1 by simp
  ultimately show ?case using run r(1-4,8) s(2,11) j md_frame_trans [OF s(9) r(5)] by (intro exI [of _ D']) simp
qed

text \<open>The segment with the new end is cut and loses its successors.\<close>

lemma cut_step:
  assumes o: "open_rel inv vw disk p f D Fs rs" and l: "length rs = length Fs" and k: "k < length rs" and v: "deref D (rs ! k) = Inr v"
    and b: "b < RELSEG_SIZE" "b * BLCKSZ \<le> length (Fs ! k)"
  obtains D1 where "cut_seg E D (rs ! k) v (int b) = Inr (False, D1)" "open_rel inv vw disk p f D1 Fs rs" "md_frame vw disk p f D rs D1 rs"
  | D1 where "cut_seg E D (rs ! k) v (int b) = Inr (True, D1)" "inv (fs D1)" "seg_chain vw p f D1 (take (Suc k) rs)" "tail_chain p D1 rs (Suc k)"
    "disk (fs D1) = (disk (fs D))(sname p k \<mapsto> take (b * BLCKSZ) (Fs ! k))" "md_frame vw disk p f D rs D1 rs" "finite (dom (md_segs D1))" "in_use D1 f"
proof -
  have i: "inv (fs D)" "seg_chain vw p f D rs" "finite (dom (md_segs D))" "in_use D f" using o by (simp_all add: open_rel_def)
  obtain v1 w where w1: "deref D (rs ! k) = Inr v1" "vw (fs D) (nat (md_fd_vfd v1)) = Some w" "v_name w = sname p k" "in_range w" "\<not> v_tmp w"
    "disk (fs D) (v_name w) = Some (Fs ! k)" by (rule seg_at [OF o k])
  let ?e = "nat (md_fd_vfd v)"
  have w: "vw (fs D) ?e = Some w" using w1(1,2) v by simp
  obtain c s1 where t: "f_truncate F (fs D) ?e (int (b * BLCKSZ)) = Inr (c, s1)" "inv s1" "\<forall>i. fv_le (vw (fs D) i) (vw s1 i)"
    "c < 0 \<and> disk s1 = disk (fs D) \<or> c = 0 \<and> disk s1 = (disk (fs D))(v_name w \<mapsto> trunc_to (Fs ! k) (nat (int (b * BLCKSZ))))"
    using truncate_law [OF i(1) w w1(4,6), of "int (b * BLCKSZ)"] by auto
  have ci: "c_int (int b * int BLCKSZ) = Inr (int (b * BLCKSZ))" using b(1) by (simp add: sizes)
  have up: "fv_upd (vw (fs D)) (vw s1) ?e (Some w)" using t(3) w unfolding fv_upd_def by metis
  show ?thesis
  proof (cases "c < 0")
    case True
    then have d1: "disk s1 = disk (fs D)" using t(4) by simp
    have run: "cut_seg E D (rs ! k) v (int b) = Inr (False, D\<lparr>fs := s1\<rparr>)" using True t(1) ci by (simp add: cut_seg_def ops)
    show ?thesis using that(1) [OF run seg_step_quiet [OF o k v t(2) up w1(3-5) d1]] .
  next
    case False
    define g where "g = (\<lambda>v :: MdfdVec. v\<lparr>md_fd_lst_bcnt := int b, md_fd_chain := 0\<rparr>)"
    let ?D0 = "D\<lparr>fs := s1\<rparr>"
    define D1 where "D1 = upd_ref ?D0 (rs ! k) g"
    have run: "cut_seg E D (rs ! k) v (int b) = Inr (True, D1)" using False t(1) ci by (simp add: cut_seg_def ops D1_def g_def)
    have v0: "deref ?D0 (rs ! k) = Inr v" using v by simp
    have ne: "rs ! i \<noteq> rs ! k" if "i < length rs" "i \<noteq> k" for i using that k i(2) by (simp add: seg_chain_def nth_eq_iff_index_eq)
    have g: "md_fd_vfd (g u) = md_fd_vfd u" "next_ref (g u) = None" "md_fd_flags (g u) = md_fd_flags u" for u by (simp_all add: g_def next_ref_def)
    have at: "\<exists>u. deref D1 (rs ! i) = Inr (if i = k then g u else u) \<and> deref D (rs ! i) = Inr u \<and> next_ref u = (if Suc i < length rs then Some (rs ! Suc i) else None) \<and>
        seg_view vw s1 p i (md_fd_vfd u)" if il: "i < length rs" for i
    proof -
      obtain u where u: "deref D (rs ! i) = Inr u" "next_ref u = (if Suc i < length rs then Some (rs ! Suc i) else None)" "seg_view vw (fs D) p i (md_fd_vfd u)"
        using chain_at [OF i(2) il] by blast
      have "seg_view vw s1 p i (md_fd_vfd u)" using seg_view_le [OF u(3)] t(3) by blast
      then show ?thesis using u ne [OF il] v by (intro exI [of _ u]) (auto simp: D1_def deref_upd [OF v0])
    qed
    have fs1: "fs D1 = s1" by (simp add: D1_def)
    have "\<exists>u. deref D1 (take (Suc k) rs ! i) = Inr u \<and>
        next_ref u = (if Suc i < length (take (Suc k) rs) then Some (take (Suc k) rs ! Suc i) else None) \<and> seg_view vw (fs D1) p i (md_fd_vfd u)"
      if il: "i < length (take (Suc k) rs)" for i
    proof -
      have il': "i < length rs" "i \<le> k" using il by simp_all
      obtain u where u: "deref D1 (rs ! i) = Inr (if i = k then g u else u)" "next_ref u = (if Suc i < length rs then Some (rs ! Suc i) else None)"
        "seg_view vw s1 p i (md_fd_vfd u)" using at [OF il'(1)] by blast
      show ?thesis using u il' k g fs1 by (cases "i = k") auto
    qed
    moreover have "take (Suc k) rs \<noteq> []" "take (Suc k) rs ! 0 = Entry f" "distinct (take (Suc k) rs)" using i(2) by (auto simp: seg_chain_def)
    ultimately have c1: "seg_chain vw p f D1 (take (Suc k) rs)" by (simp add: seg_chain_def)
    have c2: "tail_chain p D1 rs (Suc k)"
    proof -
      have "\<exists>a v. rs ! i = Chunk a \<and> md_segs D1 a = Some v \<and> next_ref v = (if Suc i < length rs then Some (rs ! Suc i) else None) \<and> seg_view vw (fs D1) p i (md_fd_vfd v)"
        if il: "Suc k \<le> i" "i < length rs" for i
      proof -
        obtain a x where a: "rs ! i = Chunk a" "md_segs D a = Some x" using chain_kind [OF i(2) il(2)] il(1) by auto
        obtain u where u: "deref D1 (rs ! i) = Inr u" "next_ref u = (if Suc i < length rs then Some (rs ! Suc i) else None)" "seg_view vw s1 p i (md_fd_vfd u)"
          using at [OF il(2)] il(1) by auto
        then have "md_segs D1 a = Some u" using a(1) by (auto simp: deref_def split: option.splits)
        then show ?thesis using a(1) u fs1 by auto
      qed
      then show ?thesis by (simp add: tail_chain_def)
    qed
    have d1: "disk s1 = (disk (fs D))(sname p k \<mapsto> take (b * BLCKSZ) (Fs ! k))" using t(4) False w1(3) b(2) by (simp add: trunc_to_def del: of_nat_mult)
    have ek: "rs ! k = Entry j \<Longrightarrow> j = f" for j using chain_kind [OF i(2) k] by auto
    have use: "in_use D1 f" using i(4) by (auto simp: D1_def in_use_def upd_ref_def g split: md_ref.split)
    have dom: "dom (md_segs D1) = dom (md_segs D)" by (auto simp: D1_def upd_ref_def split: md_ref.split if_splits)
    have "md_frame vw disk p f D rs D1 rs"
    proof -
      have "Md_fdvec D1 j = Md_fdvec D j" if "j \<noteq> f" for j using ek that by (auto simp: D1_def upd_ref_def split: md_ref.split)
      moreover have "md_segs D1 a = md_segs D a" if "Chunk a \<notin> set rs" for a using nth_mem [OF k] that by (auto simp: D1_def upd_ref_def split: md_ref.split)
      moreover have "disk s1 m = disk (fs D) m" if "m \<notin> range (sname p)" for m using that by (auto simp: d1)
      moreover have "MdFree D1 = MdFree D" "CurFd D1 = CurFd D" "Nfds D1 = Nfds D" by (simp_all add: D1_def)
      ultimately show ?thesis using t(3) unfolding md_frame_def fs1 by (intro conjI allI impI; (blast | simp))
    qed
    then show ?thesis using that(2) [OF run _ c1 c2] t(2) d1 i(3) fs1 dom use by simp
  qed
qed

text \<open>The segments before the one with the new end are passed.\<close>

lemma skip_loop:
  assumes o: "open_rel inv vw disk p f D Fs rs" and j: "j < length rs" "int (j * RELSEG_SIZE) \<le> n" and len: "length rs < 2 ^ 14"
  shows "truncate_loop E D (Some (rs ! 0)) n 0 = truncate_loop E D (Some (rs ! j)) n (int (j * RELSEG_SIZE))"
  using j
proof (induction j)
  case (Suc j)
  have c: "seg_chain vw p f D rs" and jl: "j < length rs" using o Suc.prems by (simp_all add: open_rel_def)
  obtain v where v: "deref D (rs ! j) = Inr v" "next_ref v = (if Suc j < length rs then Some (rs ! Suc j) else None)" using chain_at [OF c jl] by blast
  have pr: "int (j * RELSEG_SIZE) + int RELSEG_SIZE = int (Suc j * RELSEG_SIZE)" by simp
  have nx: "next_ref v = Some (rs ! Suc j)" using v(2) Suc.prems(1) by simp
  have lo: "\<not> int (j * RELSEG_SIZE) > n" "\<not> int (Suc j * RELSEG_SIZE) \<ge> 2 ^ 31" "\<not> int (Suc j * RELSEG_SIZE) > n" using Suc.prems len by (simp_all add: sizes)
  have "truncate_loop E D (Some (rs ! j)) n (int (j * RELSEG_SIZE)) = truncate_loop E D (Some (rs ! Suc j)) n (int (Suc j * RELSEG_SIZE))"
    by (subst truncate_loop.simps(2)) (simp only: pr Let_def v(1) sum.case lo if_False nx)
  then show ?case using Suc.IH Suc.prems by (simp add: sizes)
qed simp

lemma padded_disk:
  assumes d: "disk_rel d p Fs" and d1: "disk_rel d1 p F1" and F1: "F1 = (if length (last Fs) = SEGSZ then Fs @ [[]] else Fs)"
  shows "d1 (sname p i) \<in> {None, Some [], d (sname p i)}" "i < length Fs \<Longrightarrow> F1 ! i = Fs ! i" "length Fs \<le> length F1"
proof -
  show same: "F1 ! i = Fs ! i" if "i < length Fs" for i using that by (simp add: F1 nth_append)
  show "length Fs \<le> length F1" by (simp add: F1)
  show "d1 (sname p i) \<in> {None, Some [], d (sname p i)}"
  proof (cases "i < length Fs")
    case True
    then have "i < length F1" by (simp add: F1)
    then show ?thesis using disk_rel_seg(1) [OF d True] disk_rel_seg(1) [OF d1] same [OF True] by simp
  next
    case False
    show ?thesis
    proof (cases "i < length F1")
      case True
      then have "F1 ! i = []" using False by (auto simp: F1 nth_append split: if_splits)
      then show ?thesis using disk_rel_seg(1) [OF d1 True] by simp
    next
      case False
      then have "length F1 \<le> i" by simp
      then have "d1 (sname p i) = None \<or> d1 (sname p i) = Some []" using d1 unfolding disk_rel_def by blast
      then show ?thesis by auto
    qed
  qed
qed

text \<open>
  Exactly the first \<open>n\<close> blocks stay; a dropped segment is gone or empty, unless the system failed to truncate and to unlink it. A failure to
  cut the last segment changes nothing.
\<close>

lemma md_truncate_ok:
  assumes o: "open_rel inv vw disk p f D Fs rs" and r: "rel_of rel p f" and len: "Suc (length Fs) < 2 ^ 14" and n: "n < rel_blocks Fs"
  shows "(\<exists>D' rs'. md_truncate E rel D (int n) = Inr (int n, rel, D') \<and> md_frame vw disk p f D rs D' rs' \<and>
      (\<forall>i < length (keep_blocks n Fs). disk (fs D') (sname p i) = Some (keep_blocks n Fs ! i)) \<and>
      (\<forall>i \<ge> length (keep_blocks n Fs). disk (fs D') (sname p i) \<in> {None, Some [], disk (fs D) (sname p i)}) \<and>
      ((\<forall>i \<ge> length (keep_blocks n Fs). disk (fs D') (sname p i) \<in> {None, Some []}) \<longrightarrow> open_rel inv vw disk p f D' (keep_blocks n Fs) rs')) \<or>
    (\<exists>D' rs' Fs'. md_truncate E rel D (int n) = Inr (-1, rel, D') \<and> open_rel inv vw disk p f D' Fs' rs' \<and> md_frame vw disk p f D rs D' rs' \<and> padded Fs Fs') \<or>
    md_truncate E rel D (int n) = Inl Elog_ERROR \<and> length (last Fs) = SEGSZ"
proof -
  have len': "length Fs < 2 ^ 14" using len by simp
  have dr: "disk_rel (disk (fs D)) p Fs" using o by (simp add: open_rel_def)
  define k where "k = n div RELSEG_SIZE"
  note kb = keep_blocks [OF dr n k_def]
  from md_nblocks_ok [OF o r len'] show ?thesis
  proof (elim disjE exE conjE)
    assume "md_nblocks E rel D = Inl Elog_ERROR" "length (last Fs) = SEGSZ"
    then show ?thesis by (simp add: md_truncate_def)
  next
    fix D1 rs1 F1
    assume nb: "md_nblocks E rel D = Inr (int (rel_blocks Fs), rel, D1)" "open_rel inv vw disk p f D1 F1 rs1" "md_frame vw disk p f D rs D1 rs1"
      "length rs1 = length F1" "length (last F1) < SEGSZ" "F1 = (if length (last Fs) = SEGSZ then Fs @ [[]] else Fs)"
    have o1: "seg_chain vw p f D1 rs1" "disk_rel (disk (fs D1)) p F1" "finite (dom (md_segs D1))" using nb(2) by (simp_all add: open_rel_def)
    have rs0: "rs1 ! 0 = Entry f" "distinct rs1" using o1(1) by (simp_all add: seg_chain_def)
    note pd = padded_disk [OF dr o1(2) nb(6)]
    have k1: "k < length rs1" "F1 ! k = Fs ! k" using kb(2) pd(2,3) nb(4) by simp_all
    have l14: "length rs1 < 2 ^ 14" using nb(4,6) len by simp
    have "k * RELSEG_SIZE \<le> n" unfolding k_def by (rule div_times_less_eq_dividend)
    then have kn: "int (k * RELSEG_SIZE) \<le> int n" by (simp only: of_nat_le_iff)
    obtain v where v: "deref D1 (rs1 ! k) = Inr v" "next_ref v = (if Suc k < length rs1 then Some (rs1 ! Suc k) else None)" using chain_at [OF o1(1) k1(1)] by blast
    define b where "b = n mod RELSEG_SIZE"
    have "n = k * RELSEG_SIZE + b" by (simp add: b_def k_def)
    then have "int n = int (k * RELSEG_SIZE) + int b" by (simp only: of_nat_add)
    then have nk: "int n - int (k * RELSEG_SIZE) = int b" by linarith
    have b: "b < RELSEG_SIZE" "b * BLCKSZ \<le> length (F1 ! k)" using kb(5) k1(2) by (simp_all add: b_def sizes)
    have nlt: "int n < int (Suc k * RELSEG_SIZE)" using nk b(1) by simp
    have small: "\<not> int (Suc k * RELSEG_SIZE) \<ge> 2 ^ 31" using k1(1) l14 by (simp add: sizes)
    have pr: "int (k * RELSEG_SIZE) + int RELSEG_SIZE = int (Suc k * RELSEG_SIZE)" by simp
    have lo: "\<not> int (k * RELSEG_SIZE) > int n" using kn by simp
    have "truncate_loop E D1 (Some (rs1 ! k)) (int n) (int (k * RELSEG_SIZE)) =
        (case cut_seg E D1 (rs1 ! k) v (int b) of Inl e \<Rightarrow> Inl e
         | Inr (done_it, D2) \<Rightarrow> if \<not> done_it then Inr (False, D2) else truncate_loop E D2 (next_ref v) (int n) (int (Suc k * RELSEG_SIZE)))"
      by (subst truncate_loop.simps(2)) (simp only: pr Let_def v(1) sum.case lo small if_False nlt if_True nk)
    moreover have "md_truncate E rel D (int n) = cbind (truncate_loop E D1 (Some (rs1 ! 0)) (int n) 0) (\<lambda>(done_it, D3). Inr (if done_it then int n else -1, rel, D3))"
      using nb(1) n r rs0(1) by (simp add: md_truncate_def md_fd_get_reln_fd_def rel_of_def)
    ultimately have run: "md_truncate E rel D (int n) = cbind (case cut_seg E D1 (rs1 ! k) v (int b) of Inl e \<Rightarrow> Inl e
         | Inr (done_it, D2) \<Rightarrow> if \<not> done_it then Inr (False, D2) else truncate_loop E D2 (next_ref v) (int n) (int (Suc k * RELSEG_SIZE)))
         (\<lambda>(done_it, D3). Inr (if done_it then int n else -1, rel, D3))"
      using skip_loop [OF nb(2) k1(1) kn l14] by simp
    show ?thesis
    proof (rule cut_step [OF nb(2,4) k1(1) v(1) b])
      fix D2 assume c: "cut_seg E D1 (rs1 ! k) v (int b) = Inr (False, D2)" "open_rel inv vw disk p f D2 F1 rs1" "md_frame vw disk p f D1 rs1 D2 rs1"
      have "padded Fs F1" using nb(6) by (simp add: padded_def)
      then show ?thesis using run c md_frame_trans [OF nb(3) c(3)] by auto
    next
      fix D2 assume c: "cut_seg E D1 (rs1 ! k) v (int b) = Inr (True, D2)" "inv (fs D2)" "seg_chain vw p f D2 (take (Suc k) rs1)" "tail_chain p D2 rs1 (Suc k)"
        "disk (fs D2) = (disk (fs D1))(sname p k \<mapsto> take (b * BLCKSZ) (F1 ! k))" "md_frame vw disk p f D1 rs1 D2 rs1" "finite (dom (md_segs D2))" "in_use D2 f"
      have d2: "disk (fs D2) (sname p i) = disk (fs D1) (sname p i)" if "i \<noteq> k" for i using sname_inj [of p i k] that by (simp add: c(5))
      have pres: "disk (fs D2) (sname p i) \<noteq> None" if "Suc k \<le> i" "i < length rs1" for i using that d2 [of i] disk_rel_seg(1) [OF o1(2), of i] nb(4) by simp
      have kl: "length (take (Suc k) rs1) \<le> Suc k" "Suc k \<le> length rs1" using k1(1) by simp_all
      obtain D3 where e: "truncate_loop E D2 (if Suc k < length rs1 then Some (rs1 ! Suc k) else None) (int n) (int (Suc k * RELSEG_SIZE)) = Inr (True, D3)"
        "inv (fs D3)" "seg_chain vw p f D3 (take (Suc k) rs1)" "finite (dom (md_segs D3))" "md_frame vw disk p f D2 rs1 D3 rs1"
        "\<forall>i. i < Suc k \<longrightarrow> disk (fs D3) (sname p i) = disk (fs D2) (sname p i)"
        "\<forall>i. Suc k \<le> i \<longrightarrow> disk (fs D3) (sname p i) \<in> {None, Some [], disk (fs D2) (sname p i)}" "Md_fdvec D3 = Md_fdvec D2"
        using drop_loop [OF c(2,3) order_refl kl(1) c(4) kl(2) rs0(2) pres c(7) l14 nlt] by blast
      have fr: "md_frame vw disk p f D rs D3 (take (Suc k) rs1)"
        using md_frame_less [OF md_frame_trans [OF nb(3) md_frame_trans [OF c(6) e(5)]]] by (simp add: set_take_subset)
      have res: "md_truncate E rel D (int n) = Inr (int n, rel, D3)" using run c(1) v(2) e(1) by simp
      have low: "disk (fs D3) (sname p i) = Some (keep_blocks n Fs ! i)" if "i \<le> k" for i
      proof (cases "i = k")
        case True
        then show ?thesis using e(6) c(5) k1(2) kb(4) by (simp add: b_def)
      next
        case False
        then have ik: "i < k" using that by simp
        then have il: "i < length F1" "i < length Fs" using kb(2) pd(3) by simp_all
        show ?thesis using e(6) ik d2 [OF False] disk_rel_seg(1) [OF o1(2) il(1)] pd(2) [OF il(2)] kb(3) [OF ik] by simp
      qed
      have high: "disk (fs D3) (sname p i) \<in> {None, Some [], disk (fs D) (sname p i)}" if "k < i" for i
      proof -
        have "disk (fs D3) (sname p i) \<in> {None, Some [], disk (fs D2) (sname p i)}" using e(7) that by simp
        moreover have "disk (fs D2) (sname p i) = disk (fs D1) (sname p i)" using d2 [of i] that by simp
        ultimately show ?thesis using pd(1) [of i] by auto
      qed
      have use: "in_use D3 f" using e(8) c(8) e(5) by (simp add: in_use_def md_frame_def)
      have "open_rel inv vw disk p f D3 (keep_blocks n Fs) (take (Suc k) rs1)" if "\<And>i. k < i \<Longrightarrow> disk (fs D3) (sname p i) \<in> {None, Some []}"
        using keep_blocks_disk [OF dr n k_def low that] e(2-4) kb(1) use by (simp add: open_rel_def)
      then show ?thesis using res fr low high kb(1) by (intro disjI1 exI [of _ D3] exI [of _ "take (Suc k) rs1"]) (simp add: less_Suc_eq_le Suc_le_eq)
    qed
  qed
qed

section \<open>Closing\<close>

lemma close_step:
  assumes i: "inv (fs D)" and v: "deref D (rs ! j) = Inr v" "seg_view vw (fs D) p j (md_fd_vfd v)" and d: "disk (fs D) (sname p j) \<noteq> None"
    and t: "tail_chain p D rs (Suc j)" and rs: "distinct rs" "j < length rs"
  obtains D1 where "close_chain E D (Some (rs ! j)) = close_chain E D1 (next_ref v)" "inv (fs D1)" "tail_chain p D1 rs (Suc j)" "disk (fs D1) = disk (fs D)"
    "Md_fdvec D1 = Md_fdvec D" "MdFree D1 = MdFree D" "CurFd D1 = CurFd D" "Nfds D1 = Nfds D"
    "\<And>a. md_segs D1 a = (if rs ! j = Chunk a then None else md_segs D a)" "fv_upd (vw (fs D)) (vw (fs D1)) (nat (md_fd_vfd v)) None"
proof -
  let ?e = "nat (md_fd_vfd v)"
  obtain w where w: "vw (fs D) ?e = Some w" "v_name w = sname p j" "in_range w" "\<not> v_tmp w" "0 \<le> md_fd_vfd v" using v(2) by (auto simp: seg_view_def)
  have dw: "disk (fs D) (v_name w) \<noteq> None" using d w(2) by simp
  obtain r s1 where y: "f_sync F (fs D) ?e = Inr (r, s1)" "inv s1" "disk s1 = disk (fs D)" "\<forall>i. fv_le (vw (fs D) i) (vw s1 i)" using sync_law [OF i w(1,3) dw] by blast
  obtain w1 where w1: "vw s1 ?e = Some w1" "\<not> v_tmp w1" using y(4) w(1,4) by (metis fv_le_Some)
  obtain s2 where c: "f_close F s1 ?e = Inr s2" "inv s2" "disk s2 = disk s1" "fv_upd (vw s1) (vw s2) ?e None" using close_law [OF y(2) w1] by blast
  have upd: "fv_upd (vw (fs D)) (vw s2) ?e None" using y(4) c(4) fv_le_trans unfolding fv_upd_def by blast
  define D1 where "D1 = (case rs ! j of Entry _ \<Rightarrow> D\<lparr>fs := s2\<rparr> | Chunk a \<Rightarrow> D\<lparr>fs := s2, md_segs := (md_segs D)(a := None)\<rparr>)"
  have f: "fs D1 = s2" "Md_fdvec D1 = Md_fdvec D" "MdFree D1 = MdFree D" "CurFd D1 = CurFd D" "Nfds D1 = Nfds D"
    "md_segs D1 a = (if rs ! j = Chunk a then None else md_segs D a)" for a
    by (simp_all add: D1_def split: md_ref.split)
  have run: "close_chain E D (Some (rs ! j)) = close_chain E D1 (next_ref v)"
    using y(1) c(1) w(5) v(1) by (subst close_chain.simps) (simp add: ops D1_def)
  have "\<exists>b u. rs ! i = Chunk b \<and> md_segs D1 b = Some u \<and> next_ref u = (if Suc i < length rs then Some (rs ! Suc i) else None) \<and> seg_view vw (fs D1) p i (md_fd_vfd u)"
    if il: "Suc j \<le> i" "i < length rs" for i
  proof -
    obtain b u where b: "rs ! i = Chunk b" "md_segs D b = Some u" "next_ref u = (if Suc i < length rs then Some (rs ! Suc i) else None)" "seg_view vw (fs D) p i (md_fd_vfd u)"
      using t il unfolding tail_chain_def by blast
    have "rs ! j \<noteq> rs ! i" using rs il by (simp add: nth_eq_iff_index_eq)
    moreover have "seg_view vw s2 p i (md_fd_vfd u)" by (rule view_drop [OF upd w(1,2) b(4)]) (use il in simp)
    ultimately show ?thesis using b f by (intro exI [of _ b] exI [of _ u]) simp
  qed
  then have "tail_chain p D1 rs (Suc j)" by (simp add: tail_chain_def)
  then show ?thesis using that [OF run] f c(2,3) y(3) upd by simp
qed

text \<open>What closing the vectors from \<open>j\<close> on does.\<close>

definition closed :: "'s md \<Rightarrow> 's md \<Rightarrow> string \<Rightarrow> md_ref list \<Rightarrow> nat \<Rightarrow> bool" where
  "closed D D' p rs j \<longleftrightarrow> inv (fs D') \<and> disk (fs D') = disk (fs D) \<and> Md_fdvec D' = Md_fdvec D \<and> MdFree D' = MdFree D \<and> CurFd D' = CurFd D \<and> Nfds D' = Nfds D \<and>
     (\<forall>a. md_segs D' a = (if Chunk a \<in> set (drop j rs) then None else md_segs D a)) \<and> (\<forall>e. vw (fs D) e = None \<longrightarrow> vw (fs D') e = None) \<and>
     (\<forall>e w. vw (fs D) e = Some w \<longrightarrow> v_name w \<notin> range (sname p) \<longrightarrow> fv_le (vw (fs D) e) (vw (fs D') e)) \<and>
     (\<forall>i u. j \<le> i \<longrightarrow> i < length rs \<longrightarrow> deref D (rs ! i) = Inr u \<longrightarrow> vw (fs D') (nat (md_fd_vfd u)) = None)"

lemma closed_step:
  assumes s: "inv (fs D1)" "disk (fs D1) = disk (fs D)" "Md_fdvec D1 = Md_fdvec D" "MdFree D1 = MdFree D" "CurFd D1 = CurFd D" "Nfds D1 = Nfds D"
      "\<And>a. md_segs D1 a = (if rs ! j = Chunk a then None else md_segs D a)" "fv_upd (vw (fs D)) (vw (fs D1)) (nat (md_fd_vfd v)) None"
    and v: "deref D (rs ! j) = Inr v" "seg_view vw (fs D) p j (md_fd_vfd v)" and j: "j < length rs" "distinct rs" and c: "closed D1 D' p rs (Suc j)"
  shows "closed D D' p rs j"
proof -
  let ?e = "nat (md_fd_vfd v)"
  obtain w where w: "vw (fs D) ?e = Some w" "v_name w = sname p j" using v(2) by (auto simp: seg_view_def)
  have e1: "vw (fs D1) ?e = None" using s(8) by (simp add: fv_upd_def)
  have dj: "set (drop j rs) = insert (rs ! j) (set (drop (Suc j) rs))" using j(1) by (metis Cons_nth_drop_Suc list.simps(15))
  have none: "vw (fs D') x = None" if "vw (fs D) x = None" for x
  proof -
    have "vw (fs D1) x = None" using s(8) that e1 by (cases "x = ?e") (auto simp: fv_upd_def)
    then show ?thesis using c by (simp add: closed_def)
  qed
  have keep: "fv_le (vw (fs D) x) (vw (fs D') x)" if x: "vw (fs D) x = Some u" "v_name u \<notin> range (sname p)" for x u
  proof -
    have "x \<noteq> ?e" using x w by auto
    then have le: "fv_le (vw (fs D) x) (vw (fs D1) x)" using s(8) by (simp add: fv_upd_def)
    then obtain u1 where "vw (fs D1) x = Some u1" "v_name u1 = v_name u" using x(1) by (auto simp: fv_le_Some)
    then have "fv_le (vw (fs D1) x) (vw (fs D') x)" using c x(2) unfolding closed_def by metis
    then show ?thesis by (rule fv_le_trans [OF le])
  qed
  have gone: "vw (fs D') (nat (md_fd_vfd u)) = None" if i: "j \<le> i" "i < length rs" "deref D (rs ! i) = Inr u" for i u
  proof (cases "i = j")
    case True
    then have "u = v" using i(3) v(1) by simp
    then show ?thesis using e1 c by (simp add: closed_def)
  next
    case False
    then have "rs ! j \<noteq> rs ! i" using j i(2) by (simp add: nth_eq_iff_index_eq)
    then have "deref D1 (rs ! i) = Inr u" using i(3) s(3,7) by (auto simp: deref_def split: md_ref.splits)
    then show ?thesis using c False i(1,2) unfolding closed_def by (metis Suc_leI le_neq_implies_less)
  qed
  have seg: "md_segs D' a = (if Chunk a \<in> set (drop j rs) then None else md_segs D a)" for a using c s(7) by (auto simp: closed_def dj)
  have "inv (fs D') \<and> disk (fs D') = disk (fs D) \<and> Md_fdvec D' = Md_fdvec D \<and> MdFree D' = MdFree D \<and> CurFd D' = CurFd D \<and> Nfds D' = Nfds D"
    using c s(2-6) by (simp add: closed_def)
  then show ?thesis using none keep gone seg unfolding closed_def by blast
qed

lemma close_rest:
  assumes "inv (fs D)" "tail_chain p D rs j" "distinct rs" "\<And>i. i < length rs \<Longrightarrow> disk (fs D) (sname p i) \<noteq> None"
  shows "\<exists>D'. close_chain E D (if j < length rs then Some (rs ! j) else None) = Some (Inr D') \<and> closed D D' p rs j"
  using assms
proof (induction "length rs - j" arbitrary: D j)
  case 0
  then show ?case by (intro exI [of _ D]) (simp add: close_chain.simps closed_def)
next
  case (Suc m)
  then have j: "j < length rs" by simp
  obtain a v where a: "rs ! j = Chunk a" "md_segs D a = Some v" "next_ref v = (if Suc j < length rs then Some (rs ! Suc j) else None)" "seg_view vw (fs D) p j (md_fd_vfd v)"
    using Suc.prems(2) j unfolding tail_chain_def by blast
  have v: "deref D (rs ! j) = Inr v" using a(1,2) by (simp add: deref_def)
  have t: "tail_chain p D rs (Suc j)" using Suc.prems(2) by (simp add: tail_chain_def)
  obtain D1 where s: "close_chain E D (Some (rs ! j)) = close_chain E D1 (next_ref v)" "inv (fs D1)" "tail_chain p D1 rs (Suc j)" "disk (fs D1) = disk (fs D)"
    "Md_fdvec D1 = Md_fdvec D" "MdFree D1 = MdFree D" "CurFd D1 = CurFd D" "Nfds D1 = Nfds D"
    "\<And>a. md_segs D1 a = (if rs ! j = Chunk a then None else md_segs D a)" "fv_upd (vw (fs D)) (vw (fs D1)) (nat (md_fd_vfd v)) None"
    by (rule close_step [OF Suc.prems(1) v a(4) Suc.prems(4) [OF j] t Suc.prems(3) j]) (rule that; assumption)
  have m: "m = length rs - Suc j" using Suc.hyps(2) by simp
  obtain D' where r: "close_chain E D1 (if Suc j < length rs then Some (rs ! Suc j) else None) = Some (Inr D')" "closed D1 D' p rs (Suc j)"
    using Suc.hyps(1) [OF m s(2,3) Suc.prems(3)] Suc.prems(4) s(4) by auto
  have "closed D D' p rs j" by (rule closed_step [OF s(2,4-10) v a(4) j Suc.prems(3) r(2)])
  then show ?case using s(1) r(1) a(3) j by auto
qed

text \<open>Closing always ends: every vector of the relation is freed and its file closed, and the entry is free again.\<close>

lemma md_close_ok:
  assumes o: "open_rel inv vw disk p f D Fs rs" and r: "rel_of rel p f" and ok: "fdvec_ok D ys"
  shows "\<exists>D'. md_close E rel D = Some (Inr (SM_SUCCESS, rel\<lparr>rd_fd := -1\<rparr>, D')) \<and> inv (fs D') \<and> disk (fs D') = disk (fs D) \<and> fdvec_ok D' (f # ys) \<and> \<not> in_use D' f \<and>
    (\<forall>j. j \<noteq> f \<longrightarrow> (in_use D' j \<longleftrightarrow> in_use D j) \<and> Md_fdvec D' j = Md_fdvec D j) \<and> (\<forall>a. md_segs D' a = (if Chunk a \<in> set rs then None else md_segs D a)) \<and>
    (\<forall>i < length rs. \<forall>u. deref D (rs ! i) = Inr u \<longrightarrow> vw (fs D') (nat (md_fd_vfd u)) = None) \<and>
    (\<forall>e w. vw (fs D) e = Some w \<longrightarrow> v_name w \<notin> range (sname p) \<longrightarrow> fv_le (vw (fs D) e) (vw (fs D') e))"
proof -
  have i: "inv (fs D)" "seg_chain vw p f D rs" "disk_rel (disk (fs D)) p Fs" "length rs \<le> length Fs" "in_use D f" using o by (simp_all add: open_rel_def)
  have rs: "0 < length rs" "distinct rs" "rs ! 0 = Entry f" using i(2) by (simp_all add: seg_chain_def)
  have pres: "disk (fs D) (sname p i) \<noteq> None" if "i < length rs" for i using disk_rel_seg(1) [OF i(3), of i] i(4) that by simp
  obtain v where v: "deref D (rs ! 0) = Inr v" "next_ref v = (if Suc 0 < length rs then Some (rs ! Suc 0) else None)" "seg_view vw (fs D) p 0 (md_fd_vfd v)"
    using chain_at [OF i(2) rs(1)] by blast
  obtain D1 where s: "close_chain E D (Some (rs ! 0)) = close_chain E D1 (next_ref v)" "inv (fs D1)" "tail_chain p D1 rs (Suc 0)" "disk (fs D1) = disk (fs D)"
    "Md_fdvec D1 = Md_fdvec D" "MdFree D1 = MdFree D" "CurFd D1 = CurFd D" "Nfds D1 = Nfds D"
    "\<And>a. md_segs D1 a = (if rs ! 0 = Chunk a then None else md_segs D a)" "fv_upd (vw (fs D)) (vw (fs D1)) (nat (md_fd_vfd v)) None"
    by (rule close_step [OF i(1) v(1,3) pres [OF rs(1)] chain_tail [OF i(2) zero_less_Suc] rs(2,1)]) (rule that; assumption)
  obtain D2 where e: "close_chain E D1 (if Suc 0 < length rs then Some (rs ! Suc 0) else None) = Some (Inr D2)" "closed D1 D2 p rs (Suc 0)"
    using close_rest [OF s(2,3) rs(2)] pres s(4) by auto
  have c: "closed D D2 p rs 0" by (rule closed_step [OF s(2,4-10) v(1,3) rs(1,2) e(2)])
  have run: "close_chain E D (Some (Entry f)) = Some (Inr D2)" using s(1) e(1) v(2) rs(3) by simp
  let ?D3 = "upd_entry D2 f (\<lambda>v. v\<lparr>md_fd_chain := 0\<rparr>)"
  have t: "Md_fdvec D2 = Md_fdvec D" "MdFree D2 = MdFree D" "CurFd D2 = CurFd D" "Nfds D2 = Nfds D" using c by (simp_all add: closed_def)
  have ok2: "fdvec_ok D2 ys" "in_use D2 f" using ok i(5) t by (simp_all add: fdvec_ok_def in_use_def)
  have ok3: "fdvec_ok ?D3 ys" by (rule fdvec_ok_upd [OF ok2(1)]) simp_all
  have use3: "in_use ?D3 j \<longleftrightarrow> in_use D j" for j using t by (simp add: in_use_def)
  obtain D' where D': "fdvec_free ?D3 f = Inr D'" "fdvec_ok D' (f # ys)" "\<not> in_use D' f" "\<forall>j. j \<noteq> f \<longrightarrow> (in_use D' j \<longleftrightarrow> in_use ?D3 j) \<and> Md_fdvec D' j = Md_fdvec ?D3 j"
    "md_segs D' = md_segs ?D3" "fs D' = fs ?D3" using fdvec_free_ok [OF ok3] use3 i(5) by blast
  have "\<not> rd_fd rel < 0" "nat (rd_fd rel) = f" using r by (simp_all add: rel_of_def)
  then have "md_close E rel D = Some (Inr (SM_SUCCESS, rel\<lparr>rd_fd := -1\<rparr>, D'))" using run D'(1) by (simp add: md_close_def md_close_fd_def)
  moreover have "inv (fs D')" "disk (fs D') = disk (fs D)" using c D'(6) by (simp_all add: closed_def)
  moreover have "\<forall>a. md_segs D' a = (if Chunk a \<in> set rs then None else md_segs D a)" using c D'(5) by (simp add: closed_def)
  moreover have "\<forall>j. j \<noteq> f \<longrightarrow> (in_use D' j \<longleftrightarrow> in_use D j) \<and> Md_fdvec D' j = Md_fdvec D j" using D'(4) use3 t(1) by simp
  moreover have "\<forall>i < length rs. \<forall>u. deref D (rs ! i) = Inr u \<longrightarrow> vw (fs D') (nat (md_fd_vfd u)) = None" using c D'(6) by (simp add: closed_def)
  moreover have "\<forall>e w. vw (fs D) e = Some w \<longrightarrow> v_name w \<notin> range (sname p) \<longrightarrow> fv_le (vw (fs D) e) (vw (fs D') e)" using c D'(6) by (simp add: closed_def)
  ultimately show ?thesis using D'(2,3) by blast
qed

end

end
