(* ===== verification/MdPool.thy ===== *)
theory MdPool
  imports MdGrow
begin

text \<open>
  Several open relations at once. \<open>pool_ok\<close> says that every open relation is in order and that they share nothing; each operation on one
  of them keeps it. \<open>serves\<close> forgets the segments: an open relation is a list of blocks.
\<close>

section \<open>Names of different relations are different\<close>

lemma digit_chars: "c \<in> set (digits n) \<Longrightarrow> \<exists>k < 10. c = char_of (48 + k :: nat)"
proof (induction n rule: digits.induct)
  case (1 n)
  show ?case
  proof (cases "n < 10")
    case True
    then show ?thesis using "1.prems" by (subst (asm) digits.simps) auto
  next
    case False
    then have "c \<in> set (digits (n div 10)) \<or> c = char_of (48 + n mod 10)" using "1.prems" by (subst (asm) digits.simps) auto
    moreover have "n mod 10 < 10" by simp
    ultimately show ?thesis using "1.IH" [OF False] by blast
  qed
qed

lemma digits_plain: "CHR ''.'' \<notin> set (digits n)" "CHR ''/'' \<notin> set (digits n)"
proof -
  have "char_of (48 + k) \<noteq> CHR ''.'' \<and> char_of (48 + k) \<noteq> CHR ''/''" if "k < 10" for k :: nat
  proof -
    have o: "of_char (char_of (48 + k) :: char) = 48 + k" using that by simp
    have "of_char (CHR ''.'') = (46 :: nat)" "of_char (CHR ''/'') = (47 :: nat)" by simp_all
    then have "of_char (char_of (48 + k) :: char) \<noteq> (of_char (CHR ''.'') :: nat)" "of_char (char_of (48 + k) :: char) \<noteq> (of_char (CHR ''/'') :: nat)"
      unfolding o by simp_all
    then show ?thesis by metis
  qed
  then show "CHR ''.'' \<notin> set (digits n)" "CHR ''/'' \<notin> set (digits n)" using digit_chars by metis+
qed

definition node_path :: "RelFileNode \<Rightarrow> string" where
  "node_path m = (if tbl_node m = 0 then ''/global/'' @ digits (unat (rel_node m))
     else ''/base/'' @ digits (unat (tbl_node m)) @ ''/'' @ digits (unat (rel_node m)))"

lemma node_path_inj: "node_path m = node_path n \<Longrightarrow> m = n"
proof -
  assume eq: "node_path m = node_path n"
  have sep: "takeWhile (\<lambda>c. c \<noteq> CHR ''/'') (digits a @ CHR ''/'' # xs) = digits a" for a xs
    using digits_plain(2) by (subst takeWhile_append2) auto
  have "tbl_node m = tbl_node n \<and> rel_node m = rel_node n"
  proof (cases "tbl_node m = 0"; cases "tbl_node n = 0")
    assume z: "\<not> tbl_node m = 0" "\<not> tbl_node n = 0"
    then have e: "digits (unat (tbl_node m)) @ CHR ''/'' # digits (unat (rel_node m)) = digits (unat (tbl_node n)) @ CHR ''/'' # digits (unat (rel_node n))"
      using eq by (simp add: node_path_def)
    then have t: "digits (unat (tbl_node m)) = digits (unat (tbl_node n))" using sep by metis
    then have "digits (unat (rel_node m)) = digits (unat (rel_node n))" using e by simp
    then show ?thesis using digits_inj t by (metis word_unat_eq_iff)
  qed (use eq digits_inj in \<open>auto simp: node_path_def word_unat_eq_iff\<close>)
  then show "m = n" by simp
qed

lemma relpath_names:
  assumes "sname (relpath d m) i = sname (relpath d n) j"
  shows "m = n"
proof -
  have path: "relpath d m = d @ node_path m" for m by (simp add: relpath_def node_path_def)
  have "CHR ''.'' \<notin> set (node_path m)" for m using digits_plain(1) by (auto simp: node_path_def)
  then have plain: "c \<in> set (node_path m) \<Longrightarrow> c \<noteq> CHR ''.''" for c m by metis
  have cut: "takeWhile (\<lambda>c. c \<noteq> CHR ''.'') (node_path m @ xs) = node_path m" if "xs = [] \<or> (\<exists>ys. xs = CHR ''.'' # ys)" for m xs
    using that takeWhile_append2 [of "node_path m" "\<lambda>c. c \<noteq> CHR ''.''" xs, OF plain] by auto
  have "\<exists>xs. sname (relpath d m) i = d @ node_path m @ xs \<and> (xs = [] \<or> (\<exists>ys. xs = CHR ''.'' # ys))" for m i
    by (simp add: sname_def seg_path_def path)
  then obtain xs ys where "d @ node_path m @ xs = d @ node_path n @ ys" "xs = [] \<or> (\<exists>zs. xs = CHR ''.'' # zs)" "ys = [] \<or> (\<exists>zs. ys = CHR ''.'' # zs)"
    using assms by metis
  then have "node_path m = node_path n" using cut by (metis same_append_eq)
  then show ?thesis by (rule node_path_inj)
qed

section \<open>Open relations that share nothing\<close>

type_synonym pool = "RelFileNode \<rightharpoonup> nat \<times> byte list list \<times> md_ref list"

definition apart :: "nat \<times> byte list list \<times> md_ref list \<Rightarrow> nat \<times> byte list list \<times> md_ref list \<Rightarrow> bool" where
  "apart x y \<longleftrightarrow> fst x \<noteq> fst y \<and> (\<forall>a. Chunk a \<in> set (snd (snd x)) \<longrightarrow> Chunk a \<notin> set (snd (snd y)))"

lemma apart_sym: "apart x y \<Longrightarrow> apart y x"
  by (auto simp: apart_def)

definition pool_ok ::
  "('s \<Rightarrow> bool) \<Rightarrow> ('s \<Rightarrow> nat \<Rightarrow> fview option) \<Rightarrow> ('s \<Rightarrow> string \<rightharpoonup> byte list) \<Rightarrow> string \<Rightarrow> 's md \<Rightarrow> pool \<Rightarrow> bool" where
  "pool_ok I vw disk dd D R \<longleftrightarrow> I (fs D) \<and> (\<exists>ys. fdvec_ok D ys) \<and> finite (dom (md_segs D)) \<and>
     (\<forall>n f Fs rs. R n = Some (f, Fs, rs) \<longrightarrow> open_rel I vw disk (relpath dd n) f D Fs rs) \<and>
     (\<forall>m n x y. R m = Some x \<longrightarrow> R n = Some y \<longrightarrow> m \<noteq> n \<longrightarrow> apart x y)"

lemma pool_okI:
  assumes "I (fs D)" "fdvec_ok D ys" "finite (dom (md_segs D))" "\<And>n f Fs rs. R n = Some (f, Fs, rs) \<Longrightarrow> open_rel I vw disk (relpath dd n) f D Fs rs"
    "\<And>m n x y. R m = Some x \<Longrightarrow> R n = Some y \<Longrightarrow> m \<noteq> n \<Longrightarrow> apart x y"
  shows "pool_ok I vw disk dd D R"
  unfolding pool_ok_def using assms by blast

text \<open>An operation on \<open>n\<close> that keeps to its frame.\<close>

lemma frame_fdvec:
  assumes "md_frame vw disk p f D rs D' rs'" "fdvec_ok D ys" "in_use D f" "in_use D' f"
  shows "fdvec_ok D' ys"
proof -
  have f: "f \<notin> set (ys @ [CurFd D..<Nfds D])" using assms(2,3) by (auto simp: fdvec_ok_def in_use_def MD_FD_FREE_def)
  have same: "Md_fdvec D' j = Md_fdvec D j" if "j \<noteq> f" for j using assms(1) that by (simp add: md_frame_def)
  have t: "MdFree D' = MdFree D" "CurFd D' = CurFd D" "Nfds D' = Nfds D" using assms(1) by (simp_all add: md_frame_def)
  have "fpath (\<lambda>i. md_fd_next_free (Md_fdvec D' i)) (MdFree D) (ys @ [CurFd D..<Nfds D]) =
      fpath (\<lambda>i. md_fd_next_free (Md_fdvec D i)) (MdFree D) (ys @ [CurFd D..<Nfds D])"
  proof (rule fpath_cong)
    fix x assume "x \<in> set (ys @ [CurFd D..<Nfds D])"
    then have "x \<noteq> f" using f by metis
    then show "md_fd_next_free (Md_fdvec D' x) = md_fd_next_free (Md_fdvec D x)" by (simp add: same)
  qed
  moreover have "md_fd_flags (Md_fdvec D' i) = md_fd_flags (Md_fdvec D i)" for i
    using same [of i] assms(3,4) by (cases "i = f") (simp_all add: in_use_def)
  ultimately show ?thesis using assms(2) by (simp add: fdvec_ok_def t)
qed

lemma pool_step:
  assumes P: "pool_ok I vw disk dd D R" "R n = Some (f, Fs, rs)" and o: "open_rel I vw disk (relpath dd n) f D' Fs' rs'"
    and fr: "md_frame vw disk (relpath dd n) f D rs D' rs'"
  shows "pool_ok I vw disk dd D' (R(n \<mapsto> (f, Fs', rs')))"
proof -
  have o0: "open_rel I vw disk (relpath dd n) f D Fs rs" using P unfolding pool_ok_def by blast
  obtain ys where ys: "fdvec_ok D ys" using P(1) unfolding pool_ok_def by blast
  have o': "I (fs D')" "finite (dom (md_segs D'))" "in_use D' f" "in_use D f" using o o0 by (simp_all add: open_rel_def)
  have other: "open_rel I vw disk (relpath dd m) g D' Gs ts \<and> apart (f, Fs', rs') (g, Gs, ts)" if m: "R m = Some (g, Gs, ts)" "m \<noteq> n" for m g Gs ts
  proof -
    have om: "open_rel I vw disk (relpath dd m) g D Gs ts" using P(1) m(1) unfolding pool_ok_def by blast
    have ap: "apart (g, Gs, ts) (f, Fs, rs)" using P m unfolding pool_ok_def by blast
    have nm: "sname (relpath dd m) i \<notin> range (sname (relpath dd n))" for i using relpath_names m(2) by blast
    have gf: "g \<noteq> f" "\<And>a. Chunk a \<in> set ts \<Longrightarrow> Chunk a \<notin> set rs" using ap by (simp_all add: apart_def)
    from frame_other [OF fr om o'(1,2) nm gf] show ?thesis using gf(1) by (auto simp: apart_def)
  qed
  show ?thesis
  proof (rule pool_okI [where I = I, OF o'(1) frame_fdvec [OF fr ys o'(4,3)] o'(2)])
    fix m g Gs ts assume "(R(n \<mapsto> (f, Fs', rs'))) m = Some (g, Gs, ts)"
    then show "open_rel I vw disk (relpath dd m) g D' Gs ts" using other o by (cases "m = n") auto
  next
    fix l m x y assume a: "(R(n \<mapsto> (f, Fs', rs'))) l = Some x" "(R(n \<mapsto> (f, Fs', rs'))) m = Some y" "l \<noteq> m"
    obtain g Gs ts h Hs us where xy: "x = (g, Gs, ts)" "y = (h, Hs, us)" by (metis prod.exhaust)
    consider "l = n" "m \<noteq> n" | "m = n" "l \<noteq> n" | "l \<noteq> n" "m \<noteq> n" using a(3) by blast
    then show "apart x y"
    proof cases
      case 1
      then show ?thesis using other [of m] a xy by simp
    next
      case 2
      then show ?thesis using other [of l] a xy apart_sym by simp
    next
      case 3
      then have "R l = Some x" "R m = Some y" using a(1,2) by simp_all
      then show ?thesis using P(1) a(3) unfolding pool_ok_def by blast
    qed
  qed
qed

text \<open>A change that spares the relations of \<open>R'\<close>, which are some of those of \<open>R\<close>.\<close>

definition spares :: "('s \<Rightarrow> nat \<Rightarrow> fview option) \<Rightarrow> ('s \<Rightarrow> string \<rightharpoonup> byte list) \<Rightarrow> string \<Rightarrow> 's md \<Rightarrow> 's md \<Rightarrow> pool \<Rightarrow> bool" where
  "spares vw disk dd D D' R \<longleftrightarrow> (\<forall>n f Fs rs. R n = Some (f, Fs, rs) \<longrightarrow>
     in_use D' f \<and> Md_fdvec D' f = Md_fdvec D f \<and> (\<forall>a v. Chunk a \<in> set rs \<longrightarrow> md_segs D a = Some v \<longrightarrow> md_segs D' a = Some v) \<and>
     (\<forall>e w i. vw (fs D) e = Some w \<longrightarrow> v_name w = sname (relpath dd n) i \<longrightarrow> fv_le (vw (fs D) e) (vw (fs D') e)) \<and>
     (\<forall>i. disk (fs D') (sname (relpath dd n) i) = disk (fs D) (sname (relpath dd n) i)))"

lemma pool_spares:
  assumes P: "pool_ok I vw disk dd D R" and sub: "\<And>n x. R' n = Some x \<Longrightarrow> R n = Some x" and sp: "spares vw disk dd D D' R'"
    and i: "I (fs D')" "fdvec_ok D' ys" "finite (dom (md_segs D'))"
  shows "pool_ok I vw disk dd D' R'"
proof (rule pool_okI [where I = I, OF i])
  fix n f Fs rs assume n: "R' n = Some (f, Fs, rs)"
  then have o: "open_rel I vw disk (relpath dd n) f D Fs rs" using P sub unfolding pool_ok_def by blast
  have "in_use D' f" "Md_fdvec D' f = Md_fdvec D f" "\<And>a v. Chunk a \<in> set rs \<Longrightarrow> md_segs D a = Some v \<Longrightarrow> md_segs D' a = Some v"
    "\<And>e w i. vw (fs D) e = Some w \<Longrightarrow> v_name w = sname (relpath dd n) i \<Longrightarrow> fv_le (vw (fs D) e) (vw (fs D') e)"
    "\<And>i. disk (fs D') (sname (relpath dd n) i) = disk (fs D) (sname (relpath dd n) i)"
    using sp n unfolding spares_def by blast+
  then show "open_rel I vw disk (relpath dd n) f D' Fs rs" by (rule open_rel_keep [OF o i(1,3)])
next
  fix m n x y assume "R' m = Some x" "R' n = Some y" "m \<noteq> n"
  then show "apart x y" using P sub unfolding pool_ok_def by blast
qed

lemma pool_add:
  assumes P: "pool_ok I vw disk dd D' R" and o: "open_rel I vw disk (relpath dd n) f D' Fs [Entry f]" and f: "\<And>m g Gs ts. R m = Some (g, Gs, ts) \<Longrightarrow> g \<noteq> f"
  shows "pool_ok I vw disk dd D' (R(n \<mapsto> (f, Fs, [Entry f])))"
proof -
  obtain ys where ys: "fdvec_ok D' ys" using P unfolding pool_ok_def by blast
  have i: "I (fs D')" "finite (dom (md_segs D'))" using o by (simp_all add: open_rel_def)
  have new: "apart (f, Fs, [Entry f]) y" "apart y (f, Fs, [Entry f])" if "R m = Some y" for m y
    using f [of m] that by (cases y; auto simp: apart_def)+
  show ?thesis
  proof (rule pool_okI [where I = I, OF i(1) ys i(2)])
    fix m g Gs ts assume "(R(n \<mapsto> (f, Fs, [Entry f]))) m = Some (g, Gs, ts)"
    then show "open_rel I vw disk (relpath dd m) g D' Gs ts" using P o unfolding pool_ok_def by (cases "m = n") auto
  next
    fix l m x y assume a: "(R(n \<mapsto> (f, Fs, [Entry f]))) l = Some x" "(R(n \<mapsto> (f, Fs, [Entry f]))) m = Some y" "l \<noteq> m"
    have old: "apart x y" if "R l = Some x" "R m = Some y" using P a(3) that unfolding pool_ok_def by blast
    show "apart x y" using a new old by (cases "l = n"; cases "m = n") auto
  qed
qed

section \<open>Relations as lists of blocks\<close>

definition contents :: "byte list list \<Rightarrow> byte list list" where
  "contents Fs = map (rel_block Fs) [0..<rel_blocks Fs]"

lemma contents_simps [simp]: "length (contents Fs) = rel_blocks Fs" "b < rel_blocks Fs \<Longrightarrow> contents Fs ! b = rel_block Fs b"
  by (simp_all add: contents_def)

lemma contents_eqI: "length bs = rel_blocks Fs \<Longrightarrow> (\<And>c. c < rel_blocks Fs \<Longrightarrow> rel_block Fs c = bs ! c) \<Longrightarrow> contents Fs = bs"
  by (rule nth_equalityI) simp_all

text \<open>The open relations by their handle and their blocks.\<close>

definition serves ::
  "('s \<Rightarrow> bool) \<Rightarrow> ('s \<Rightarrow> nat \<Rightarrow> fview option) \<Rightarrow> ('s \<Rightarrow> string \<rightharpoonup> byte list) \<Rightarrow> string \<Rightarrow> 's md \<Rightarrow> (RelFileNode \<rightharpoonup> nat \<times> byte list list) \<Rightarrow> bool" where
  "serves I vw disk dd D A \<longleftrightarrow> (\<exists>R. pool_ok I vw disk dd D R \<and> A = (\<lambda>n. map_option (\<lambda>(f, Fs, rs). (f, contents Fs)) (R n)))"

lemma serves_step:
  assumes "pool_ok I vw disk dd D R" "R n = Some (f, Fs, rs)" "open_rel I vw disk (relpath dd n) f D' Fs' rs'" "md_frame vw disk (relpath dd n) f D rs D' rs'"
    and A: "A = (\<lambda>n. map_option (\<lambda>(f, Fs, rs). (f, contents Fs)) (R n))" "bs' = contents Fs'"
  shows "serves I vw disk dd D' (A(n \<mapsto> (f, bs')))"
  unfolding serves_def using pool_step [OF assms(1-4)] by (intro exI [of _ "R(n \<mapsto> (f, Fs', rs'))"]) (auto simp: A)

text \<open>The operations of an open relation, with what they answer, and what they mean for its blocks.\<close>

datatype md_op = Read "32 word" "byte list" | Write "32 word" "byte list" | Extend "byte list" | Nblocks

datatype md_answer = Status int "byte list" | Count int

definition md_do :: "'s md_env \<Rightarrow> RelationData \<Rightarrow> 's md \<Rightarrow> md_op \<Rightarrow> (md_answer \<times> RelationData \<times> 's md) cres" where
  "md_do E rel D q = (case q of
       Read b buf \<Rightarrow> cbind (md_read E rel D b buf) (\<lambda>(st, buf', rel', D'). Inr (Status st buf', rel', D'))
     | Write b buf \<Rightarrow> cbind (md_write E rel D b buf) (\<lambda>(st, rel', D'). Inr (Status st buf, rel', D'))
     | Extend buf \<Rightarrow> cbind (md_extend E rel D buf) (\<lambda>(st, rel', D'). Inr (Status st buf, rel', D'))
     | Nblocks \<Rightarrow> cbind (md_nblocks E rel D) (\<lambda>(n, rel', D'). Inr (Count n, rel', D')))"

definition op_fits :: "md_op \<Rightarrow> byte list list \<Rightarrow> bool" where
  "op_fits q bs = (case q of Read b buf \<Rightarrow> unat b < length bs \<and> length buf = BLCKSZ
     | Write b buf \<Rightarrow> unat b < length bs \<and> length buf = BLCKSZ | Extend buf \<Rightarrow> length buf = BLCKSZ | Nblocks \<Rightarrow> True)"

text \<open>A failed write leaves an unknown block behind; any other failure changes nothing.\<close>

definition op_spec :: "md_op \<Rightarrow> byte list list \<Rightarrow> md_answer \<Rightarrow> byte list list \<Rightarrow> bool" where
  "op_spec q bs a bs' = (case (q, a) of
       (Read b _, Status st buf) \<Rightarrow> bs' = bs \<and> (st = SM_SUCCESS \<and> buf = bs ! unat b \<or> st = SM_FAIL)
     | (Write b buf, Status st _) \<Rightarrow> st = SM_SUCCESS \<and> bs' = bs[unat b := buf] \<or> st = SM_FAIL \<and> (\<exists>x. bs' = bs[unat b := x])
     | (Extend buf, Status st _) \<Rightarrow> st = SM_SUCCESS \<and> bs' = bs @ [buf] \<or> st = SM_FAIL \<and> bs' = bs
     | (Nblocks, Count n) \<Rightarrow> n = int (length bs) \<and> bs' = bs
     | _ \<Rightarrow> False)"

definition handle :: "RelFileNode \<Rightarrow> nat \<Rightarrow> RelationData" where
  "handle n f = \<lparr>rd_fd = int f, rd_node = n\<rparr>"

text \<open>Fewer blocks than \<open>max_blocks\<close> make fewer than \<open>2 ^ 14 - 1\<close> segments.\<close>

definition max_blocks :: nat where "max_blocks = (2 ^ 14 - 2) * RELSEG_SIZE"

lemma few_segments: "rel_blocks Fs < max_blocks \<Longrightarrow> Suc (length Fs) < 2 ^ 14"
proof -
  assume "rel_blocks Fs < max_blocks"
  then have "(length Fs - 1) * RELSEG_SIZE < (2 ^ 14 - 2) * RELSEG_SIZE" unfolding max_blocks_def rel_blocks_def by linarith
  then show ?thesis by (simp add: sizes)
qed

lemma padded_blocks: "padded Fs Fs' \<Longrightarrow> disk_rel d p Fs \<Longrightarrow> contents Fs' = contents Fs"
proof -
  assume a: "padded Fs Fs'" "disk_rel d p Fs"
  then have "Fs \<noteq> []" by (simp add: disk_rel_def)
  then have "rel_blocks Fs' = rel_blocks Fs" using a(1) rel_blocks_snoc by (auto simp: padded_def)
  moreover have "rel_block Fs' c = rel_block Fs c" if "c < rel_blocks Fs" for c using a that block_seg by (auto simp: padded_def rel_block_def nth_append)
  ultimately show ?thesis by (intro contents_eqI) simp_all
qed

context segments
begin

lemma md_do_ok:
  assumes s: "serves inv vw disk (DataDir E) D A" and A: "A n = Some (f, bs)" and few: "length bs < max_blocks" and q: "op_fits q bs"
  shows "(\<exists>a D' bs'. md_do E (handle n f) D q = Inr (a, handle n f, D') \<and> op_spec q bs a bs' \<and> serves inv vw disk (DataDir E) D' (A(n \<mapsto> (f, bs')))) \<or>
    md_do E (handle n f) D q = Inl Elog_ERROR \<and> RELSEG_SIZE dvd length bs"
proof -
  obtain R where R: "pool_ok inv vw disk (DataDir E) D R" "A = (\<lambda>n. map_option (\<lambda>(f, Fs, rs). (f, contents Fs)) (R n))" using s unfolding serves_def by blast
  obtain Fs rs where e: "R n = Some (f, Fs, rs)" "bs = contents Fs" using A R(2) by auto
  let ?p = "relpath (DataDir E) n"
  have o: "open_rel inv vw disk ?p f D Fs rs" using R(1) e(1) unfolding pool_ok_def by blast
  then have dr: "disk_rel (disk (fs D)) ?p Fs" by (simp add: open_rel_def)
  have r: "rel_of (handle n f) ?p f" by (simp add: rel_of_def handle_def)
  have len: "length Fs < 2 ^ 14" using few_segments [of Fs] few e(2) by simp
  note st = serves_step [OF R(1) e(1) _ _ R(2)]
  have full: "RELSEG_SIZE dvd length bs" if "length (last Fs) = SEGSZ" using that e(2) by (simp add: rel_blocks_def sizes)
  show ?thesis
  proof (cases q)
    case (Read b buf)
    then have b: "unat b < rel_blocks Fs" "length buf = BLCKSZ" using q e(2) by (simp_all add: op_fits_def)
    have pad: "padded Fs Fs' \<Longrightarrow> contents Fs' = bs" for Fs' using padded_blocks [OF _ dr] e(2) by simp
    from md_read_ok [OF o r len b] show ?thesis
    proof (elim disjE exE conjE)
      fix c buf' D' rs' Fs'
      assume h: "md_read E (handle n f) D b buf = Inr (c, buf', handle n f, D')" "open_rel inv vw disk ?p f D' Fs' rs'" "md_frame vw disk ?p f D rs D' rs'" "padded Fs Fs'"
        "c = SM_SUCCESS" "buf' = rel_block Fs (unat b)"
      then show ?thesis using st [OF h(2,3) pad [OF h(4), symmetric]] Read b e(2)
        by (intro disjI1 exI [of _ "Status c buf'"] exI [of _ D'] exI [of _ bs]) (simp add: md_do_def op_spec_def)
    next
      fix c buf' D' rs' Fs'
      assume h: "md_read E (handle n f) D b buf = Inr (c, buf', handle n f, D')" "open_rel inv vw disk ?p f D' Fs' rs'" "md_frame vw disk ?p f D rs D' rs'" "padded Fs Fs'"
        "c = SM_FAIL"
      then show ?thesis using st [OF h(2,3) pad [OF h(4), symmetric]] Read
        by (intro disjI1 exI [of _ "Status c buf'"] exI [of _ D'] exI [of _ bs]) (simp add: md_do_def op_spec_def)
    next
      assume "md_read E (handle n f) D b buf = Inl Elog_ERROR" "length (last Fs) = SEGSZ"
      then show ?thesis using Read full by (simp add: md_do_def)
    qed
  next
    case (Write b buf)
    then have b: "unat b < rel_blocks Fs" "length buf = BLCKSZ" using q e(2) by (simp_all add: op_fits_def)
    from md_write_ok [OF o r len b] obtain c D' rs' Fs' where h: "md_write E (handle n f) D b buf = Inr (c, handle n f, D')" "open_rel inv vw disk ?p f D' Fs' rs'"
      "md_frame vw disk ?p f D rs D' rs'" "rel_blocks Fs' = rel_blocks Fs" "\<forall>c. c \<noteq> unat b \<longrightarrow> rel_block Fs' c = rel_block Fs c"
      "c = SM_SUCCESS \<and> rel_block Fs' (unat b) = buf \<or> c = SM_FAIL" by blast
    define x where "x = rel_block Fs' (unat b)"
    have "contents Fs' = bs[unat b := x]" by (rule contents_eqI) (use h(4,5) b(1) e(2) in \<open>auto simp: x_def nth_list_update\<close>)
    then show ?thesis using st [OF h(2,3), of "bs[unat b := x]"] h(1,6) Write
      by (intro disjI1 exI [of _ "Status c buf"] exI [of _ D'] exI [of _ "bs[unat b := x]"]) (auto simp: md_do_def op_spec_def x_def)
  next
    case (Extend buf)
    then have b: "length buf = BLCKSZ" using q by (simp add: op_fits_def)
    from md_extend_ok [OF o r len b] show ?thesis
    proof (elim disjE exE conjE)
      fix c D' rs' Fs'
      assume h: "md_extend E (handle n f) D buf = Inr (c, handle n f, D')" "open_rel inv vw disk ?p f D' Fs' rs'" "md_frame vw disk ?p f D rs D' rs'"
        "\<forall>c < rel_blocks Fs. rel_block Fs' c = rel_block Fs c" "c = SM_SUCCESS" "rel_blocks Fs' = Suc (rel_blocks Fs)" "rel_block Fs' (rel_blocks Fs) = buf"
      have "contents Fs' = bs @ [buf]" by (rule contents_eqI) (use h e(2) in \<open>auto simp: nth_append less_Suc_eq\<close>)
      then show ?thesis using st [OF h(2,3), of "bs @ [buf]"] h(1,5) Extend
        by (intro disjI1 exI [of _ "Status c buf"] exI [of _ D'] exI [of _ "bs @ [buf]"]) (simp add: md_do_def op_spec_def)
    next
      fix c D' rs' Fs'
      assume h: "md_extend E (handle n f) D buf = Inr (c, handle n f, D')" "open_rel inv vw disk ?p f D' Fs' rs'" "md_frame vw disk ?p f D rs D' rs'"
        "\<forall>c < rel_blocks Fs. rel_block Fs' c = rel_block Fs c" "c = SM_FAIL" "rel_blocks Fs' = rel_blocks Fs"
      have "contents Fs' = bs" by (rule contents_eqI) (use h e(2) in auto)
      then show ?thesis using st [OF h(2,3), of bs] h(1,5) Extend
        by (intro disjI1 exI [of _ "Status c buf"] exI [of _ D'] exI [of _ bs]) (simp add: md_do_def op_spec_def)
    next
      assume "md_extend E (handle n f) D buf = Inl Elog_ERROR" "length (last Fs) = SEGSZ"
      then show ?thesis using Extend full by (simp add: md_do_def)
    qed
  next
    case Nblocks
    from md_nblocks_ok [OF o r len] show ?thesis
    proof (elim disjE exE conjE)
      fix D' rs' Fs'
      assume h: "md_nblocks E (handle n f) D = Inr (int (rel_blocks Fs), handle n f, D')" "open_rel inv vw disk ?p f D' Fs' rs'" "md_frame vw disk ?p f D rs D' rs'"
        "Fs' = (if length (last Fs) = SEGSZ then Fs @ [[]] else Fs)"
      have "padded Fs Fs'" using h(4) by (simp add: padded_def)
      then have "bs = contents Fs'" using padded_blocks [OF _ dr] e(2) by simp
      from st [OF h(2,3) this] show ?thesis using h(1) Nblocks e(2)
        by (intro disjI1 exI [of _ "Count (int (length bs))"] exI [of _ D'] exI [of _ bs]) (simp add: md_do_def op_spec_def)
    next
      assume "md_nblocks E (handle n f) D = Inl Elog_ERROR" "length (last Fs) = SEGSZ"
      then show ?thesis using Nblocks full by (simp add: md_do_def)
    qed
  qed
qed

end

section \<open>Opening, creating and closing\<close>

lemma entered_spares:
  assumes P: "pool_ok I vw disk dd D R" and e: "entered vw f D D'" and d: "\<And>n x i. R n = Some x \<Longrightarrow> disk (fs D') (sname (relpath dd n) i) = disk (fs D) (sname (relpath dd n) i)"
  shows "spares vw disk dd D D' R" "R m = Some (g, Gs, ts) \<Longrightarrow> g \<noteq> f"
proof -
  have use: "in_use D g" if "R m = Some (g, Gs, ts)" for m g Gs ts using P that unfolding pool_ok_def open_rel_def by blast
  show ne: "g \<noteq> f" if "R m = Some (g, Gs, ts)" for m g Gs ts using use [OF that] e by (auto simp: entered_def)
  show "spares vw disk dd D D' R" unfolding spares_def
  proof (intro allI impI)
    fix n g Gs ts assume n: "R n = Some (g, Gs, ts)"
    then have "in_use D' g \<and> Md_fdvec D' g = Md_fdvec D g" using use [OF n] ne [OF n] e by (simp add: entered_def)
    then show "in_use D' g \<and> Md_fdvec D' g = Md_fdvec D g \<and> (\<forall>a v. Chunk a \<in> set ts \<longrightarrow> md_segs D a = Some v \<longrightarrow> md_segs D' a = Some v) \<and>
        (\<forall>e w i. vw (fs D) e = Some w \<longrightarrow> v_name w = sname (relpath dd n) i \<longrightarrow> fv_le (vw (fs D) e) (vw (fs D') e)) \<and>
        (\<forall>i. disk (fs D') (sname (relpath dd n) i) = disk (fs D) (sname (relpath dd n) i))"
      using e d [OF n] unfolding entered_def by (metis option.distinct(1))
  qed
qed

lemma serves_quiet:
  assumes s: "serves I vw disk dd D A" and q: "not_entered I vw disk D D'"
  shows "serves I vw disk dd D' A"
proof -
  obtain R where R: "pool_ok I vw disk dd D R" "A = (\<lambda>n. map_option (\<lambda>(f, Fs, rs). (f, contents Fs)) (R n))" using s unfolding serves_def by blast
  obtain s' where s': "D' = D\<lparr>fs := s'\<rparr>" "I s'" "disk s' = disk (fs D)" "\<forall>i. fv_le (vw (fs D) i) (vw s' i)" using q unfolding not_entered_def by blast
  obtain ys where ys: "fdvec_ok D ys" "finite (dom (md_segs D))" using R(1) unfolding pool_ok_def by blast
  have "in_use D f" if "R n = Some (f, Fs, rs)" for n f Fs rs using R(1) that unfolding pool_ok_def open_rel_def by blast
  then have sp: "spares vw disk dd D D' R" using s'(3,4) unfolding spares_def s'(1) by (simp add: in_use_def) (metis)
  have "pool_ok I vw disk dd D' R" by (rule pool_spares [OF R(1) _ sp]) (use s' ys in \<open>auto simp: fdvec_ok_def\<close>)
  then show ?thesis using R(2) unfolding serves_def by blast
qed

definition closed_handle :: "RelFileNode \<Rightarrow> RelationData" where
  "closed_handle n = \<lparr>rd_fd = -1, rd_node = n\<rparr>"

context segments
begin

lemma serves_add:
  assumes R: "pool_ok inv vw disk dd D R" "A = (\<lambda>n. map_option (\<lambda>(f, Fs, rs). (f, contents Fs)) (R n))"
    and o: "open_rel inv vw disk (relpath dd n) f D' Fs [Entry f]" "entered vw f D D'"
    and d: "\<And>m x i. R m = Some x \<Longrightarrow> disk (fs D') (sname (relpath dd m) i) = disk (fs D) (sname (relpath dd m) i)"
  shows "serves inv vw disk dd D' (A(n \<mapsto> (f, contents Fs)))"
proof -
  obtain ys where ys: "fdvec_ok D' ys" using o(2) unfolding entered_def by blast
  have i: "inv (fs D')" "finite (dom (md_segs D'))" using o(1) by (simp_all add: open_rel_def)
  note es = entered_spares [OF R(1) o(2) d]
  have "pool_ok inv vw disk dd D' R" by (rule pool_spares [OF R(1) _ es(1) i(1) ys i(2)])
  then have "pool_ok inv vw disk dd D' (R(n \<mapsto> (f, Fs, [Entry f])))" using es(2) by (intro pool_add [OF _ o(1)]) blast+
  then show ?thesis unfolding serves_def using R(2) by (intro exI [of _ "R(n \<mapsto> (f, Fs, [Entry f]))"]) auto
qed

lemma pool_open_ok:
  assumes s: "serves inv vw disk (DataDir E) D A" and n: "A n = None" and nb: "\<not> bootstrap E" and d: "disk_rel (disk (fs D)) (relpath (DataDir E) n) Fs"
  shows "(\<exists>D'. md_open E (closed_handle n) D = Inr (-1, D') \<and> serves inv vw disk (DataDir E) D' A) \<or>
    (\<exists>f D'. md_open E (closed_handle n) D = Inr (int f, D') \<and> serves inv vw disk (DataDir E) D' (A(n \<mapsto> (f, contents Fs))))"
proof -
  obtain R where R: "pool_ok inv vw disk (DataDir E) D R" "A = (\<lambda>n. map_option (\<lambda>(f, Fs, rs). (f, contents Fs)) (R n))" using s unfolding serves_def by blast
  obtain ys where ys: "inv (fs D)" "fdvec_ok D ys" "finite (dom (md_segs D))" using R(1) unfolding pool_ok_def by blast
  have rel: "rd_fd (closed_handle n) < 0" "relpath (DataDir E) n = relpath (DataDir E) (rd_node (closed_handle n))" by (simp_all add: closed_handle_def)
  from md_open_ok [OF ys nb rel d] show ?thesis
  proof (elim disjE exE conjE)
    fix D' assume "md_open E (closed_handle n) D = Inr (-1, D')" "not_entered inv vw disk D D'"
    then show ?thesis using serves_quiet [OF s] by blast
  next
    fix f D' assume "md_open E (closed_handle n) D = Inr (int f, D')" "open_rel inv vw disk (relpath (DataDir E) n) f D' Fs [Entry f]" "entered vw f D D'"
      "disk (fs D') = disk (fs D)"
    then show ?thesis using serves_add [OF R, of n f D' Fs] by auto
  qed
qed

lemma pool_create_ok:
  assumes s: "serves inv vw disk (DataDir E) D A" and n: "A n = None" and nb: "\<not> bootstrap E"
    and d: "\<And>i. 0 < i \<Longrightarrow> disk (fs D) (sname (relpath (DataDir E) n) i) \<in> {None, Some []}"
  shows "(\<exists>D'. md_create E (closed_handle n) D = Inr (-1, D') \<and> serves inv vw disk (DataDir E) D' A) \<or>
    disk (fs D) (relpath (DataDir E) n) = None \<and>
    (\<exists>f D'. md_create E (closed_handle n) D = Inr (int f, D') \<and> serves inv vw disk (DataDir E) D' (A(n \<mapsto> (f, []))))"
proof -
  let ?p = "relpath (DataDir E) n"
  obtain R where R: "pool_ok inv vw disk (DataDir E) D R" "A = (\<lambda>n. map_option (\<lambda>(f, Fs, rs). (f, contents Fs)) (R n))" using s unfolding serves_def by blast
  obtain ys where ys: "inv (fs D)" "fdvec_ok D ys" "finite (dom (md_segs D))" using R(1) unfolding pool_ok_def by blast
  have rel: "rd_fd (closed_handle n) < 0" "?p = relpath (DataDir E) (rd_node (closed_handle n))" by (simp_all add: closed_handle_def)
  have d': "\<forall>i > 0. disk (fs D) (sname ?p i) = None \<or> disk (fs D) (sname ?p i) = Some []" using d by simp
  have be: "contents [[]] = []" by (simp add: contents_def rel_blocks_def)
  from md_create_ok [OF ys nb rel d'] show ?thesis
  proof (elim disjE exE conjE)
    fix D' assume "md_create E (closed_handle n) D = Inr (-1, D')" "not_entered inv vw disk D D'"
    then show ?thesis using serves_quiet [OF s] by blast
  next
    fix f D' assume c: "disk (fs D) ?p = None" "md_create E (closed_handle n) D = Inr (int f, D')" "open_rel inv vw disk ?p f D' [[]] [Entry f]" "entered vw f D D'"
      "disk (fs D') = (disk (fs D))(?p \<mapsto> [])"
    have "disk (fs D') (sname (relpath (DataDir E) m) i) = disk (fs D) (sname (relpath (DataDir E) m) i)" if "R m = Some x" for m x i
    proof -
      have "R n = None" using n R(2) by simp
      then have "m \<noteq> n" using that by auto
      moreover have "?p = sname ?p 0" by (simp add: sname_def seg_path_def)
      ultimately have "sname (relpath (DataDir E) m) i \<noteq> ?p" using relpath_names by metis
      then show ?thesis using c(5) by simp
    qed
    then show ?thesis using serves_add [OF R c(3,4)] c(1,2) be by auto
  qed
qed

lemma pool_close_ok:
  assumes s: "serves inv vw disk (DataDir E) D A" and n: "A n = Some (f, bs)"
  shows "\<exists>D'. md_close E (handle n f) D = Some (Inr (SM_SUCCESS, closed_handle n, D')) \<and> serves inv vw disk (DataDir E) D' (A(n := None)) \<and> disk (fs D') = disk (fs D)"
proof -
  obtain R where R: "pool_ok inv vw disk (DataDir E) D R" "A = (\<lambda>n. map_option (\<lambda>(f, Fs, rs). (f, contents Fs)) (R n))" using s unfolding serves_def by blast
  obtain Fs rs where e: "R n = Some (f, Fs, rs)" using n R(2) by auto
  let ?p = "relpath (DataDir E) n"
  have o: "open_rel inv vw disk ?p f D Fs rs" using R(1) e unfolding pool_ok_def by blast
  obtain ys where ys: "fdvec_ok D ys" "finite (dom (md_segs D))" using R(1) unfolding pool_ok_def by blast
  have r: "rel_of (handle n f) ?p f" by (simp add: rel_of_def handle_def)
  have h: "(handle n f)\<lparr>rd_fd := -1\<rparr> = closed_handle n" by (simp add: handle_def closed_handle_def)
  obtain D' where c: "md_close E (handle n f) D = Some (Inr (SM_SUCCESS, closed_handle n, D'))" "inv (fs D')" "disk (fs D') = disk (fs D)" "fdvec_ok D' (f # ys)"
    "\<forall>j. j \<noteq> f \<longrightarrow> (in_use D' j \<longleftrightarrow> in_use D j) \<and> Md_fdvec D' j = Md_fdvec D j" "\<forall>a. md_segs D' a = (if Chunk a \<in> set rs then None else md_segs D a)"
    "\<forall>e w. vw (fs D) e = Some w \<longrightarrow> v_name w \<notin> range (sname ?p) \<longrightarrow> fv_le (vw (fs D) e) (vw (fs D') e)"
    using md_close_ok [OF o r ys(1)] unfolding h by blast
  have "x \<in> dom (md_segs D)" if "x \<in> dom (md_segs D')" for x using spec [OF c(6), of x] that by (metis domIff)
  then have "dom (md_segs D') \<subseteq> dom (md_segs D)" by blast
  then have fin: "finite (dom (md_segs D'))" using ys(2) finite_subset by blast
  have "spares vw disk (DataDir E) D D' (R(n := None))" unfolding spares_def
  proof (intro allI impI)
    fix m g Gs ts assume "(R(n := None)) m = Some (g, Gs, ts)"
    then have m: "R m = Some (g, Gs, ts)" "m \<noteq> n" by (auto split: if_splits)
    have ap: "apart (g, Gs, ts) (f, Fs, rs)" and use: "in_use D g" using R(1) m e unfolding pool_ok_def open_rel_def by blast+
    have nm: "sname (relpath (DataDir E) m) i \<notin> range (sname ?p)" for i using relpath_names m(2) by blast
    show "in_use D' g \<and> Md_fdvec D' g = Md_fdvec D g \<and> (\<forall>a v. Chunk a \<in> set ts \<longrightarrow> md_segs D a = Some v \<longrightarrow> md_segs D' a = Some v) \<and>
        (\<forall>e w i. vw (fs D) e = Some w \<longrightarrow> v_name w = sname (relpath (DataDir E) m) i \<longrightarrow> fv_le (vw (fs D) e) (vw (fs D') e)) \<and>
        (\<forall>i. disk (fs D') (sname (relpath (DataDir E) m) i) = disk (fs D) (sname (relpath (DataDir E) m) i))"
    proof (intro conjI allI impI)
      show "in_use D' g" "Md_fdvec D' g = Md_fdvec D g" using c(5) ap use by (auto simp: apart_def)
      show "md_segs D' a = Some v" if "Chunk a \<in> set ts" "md_segs D a = Some v" for a v using c(6) ap that by (simp add: apart_def)
      show "fv_le (vw (fs D) e) (vw (fs D') e)" if "vw (fs D) e = Some w" "v_name w = sname (relpath (DataDir E) m) i" for e w i using c(7) nm that by metis
    qed (simp add: c(3))
  qed
  then have "pool_ok inv vw disk (DataDir E) D' (R(n := None))" by (intro pool_spares [OF R(1) _ _ c(2,4) fin]) (auto split: if_splits)
  then show ?thesis using c(1,3) R(2) unfolding serves_def by (intro exI [of _ D'] conjI exI [of _ "R(n := None)"]) auto
qed

lemma pool_truncate_ok:
  assumes s: "serves inv vw disk (DataDir E) D A" and n: "A n = Some (f, bs)" and few: "length bs < max_blocks" and m: "m < length bs"
  shows "(\<exists>D'. md_truncate E (handle n f) D (int m) = Inr (int m, handle n f, D') \<and>
      ((\<forall>i > m div RELSEG_SIZE. disk (fs D') (sname (relpath (DataDir E) n) i) \<in> {None, Some []}) \<longrightarrow>
       serves inv vw disk (DataDir E) D' (A(n \<mapsto> (f, take m bs))))) \<or>
    (\<exists>D'. md_truncate E (handle n f) D (int m) = Inr (-1, handle n f, D') \<and> serves inv vw disk (DataDir E) D' A) \<or>
    md_truncate E (handle n f) D (int m) = Inl Elog_ERROR \<and> RELSEG_SIZE dvd length bs"
proof -
  obtain R where R: "pool_ok inv vw disk (DataDir E) D R" "A = (\<lambda>n. map_option (\<lambda>(f, Fs, rs). (f, contents Fs)) (R n))" using s unfolding serves_def by blast
  obtain Fs rs where e: "R n = Some (f, Fs, rs)" "bs = contents Fs" using n R(2) by auto
  let ?p = "relpath (DataDir E) n"
  have o: "open_rel inv vw disk ?p f D Fs rs" using R(1) e(1) unfolding pool_ok_def by blast
  then have dr: "disk_rel (disk (fs D)) ?p Fs" by (simp add: open_rel_def)
  have r: "rel_of (handle n f) ?p f" by (simp add: rel_of_def handle_def)
  have len: "Suc (length Fs) < 2 ^ 14" using few_segments [of Fs] few e(2) by simp
  have mr: "m < rel_blocks Fs" using m e(2) by simp
  note st = serves_step [OF R(1) e(1) _ _ R(2)]
  note kb = keep_blocks [OF dr mr refl]
  have bk: "take m bs = contents (keep_blocks m Fs)" by (rule sym, rule contents_eqI) (use kb(6,7) e(2) mr in simp_all)
  from md_truncate_ok [OF o r len mr] show ?thesis
  proof (elim disjE exE conjE)
    fix D' rs'
    assume h: "md_truncate E (handle n f) D (int m) = Inr (int m, handle n f, D')" "md_frame vw disk ?p f D rs D' rs'"
      "(\<forall>i \<ge> length (keep_blocks m Fs). disk (fs D') (sname ?p i) \<in> {None, Some []}) \<longrightarrow> open_rel inv vw disk ?p f D' (keep_blocks m Fs) rs'"
    have "serves inv vw disk (DataDir E) D' (A(n \<mapsto> (f, take m bs)))" if "\<forall>i > m div RELSEG_SIZE. disk (fs D') (sname ?p i) \<in> {None, Some []}"
      by (rule st [OF _ h(2) bk]) (use h(3) that kb(1) in \<open>simp add: Suc_le_eq\<close>)
    then show ?thesis using h(1) by blast
  next
    fix D' rs' Fs'
    assume h: "md_truncate E (handle n f) D (int m) = Inr (-1, handle n f, D')" "open_rel inv vw disk ?p f D' Fs' rs'" "md_frame vw disk ?p f D rs D' rs'" "padded Fs Fs'"
    have "bs = contents Fs'" using padded_blocks [OF h(4) dr] e(2) by simp
    from st [OF h(2,3) this] have "serves inv vw disk (DataDir E) D' A" using n by (simp add: fun_upd_idem)
    then show ?thesis using h(1) by blast
  next
    assume "md_truncate E (handle n f) D (int m) = Inl Elog_ERROR" "length (last Fs) = SEGSZ"
    then show ?thesis using e(2) by (simp add: rel_blocks_def sizes)
  qed
qed

end

section \<open>Runs of operations on several relations\<close>

text \<open>A run of the disk manager with what it answered, and a run of lists of blocks.\<close>

inductive md_run :: "'s md_env \<Rightarrow> 's md \<Rightarrow> (RelFileNode \<times> nat \<times> md_op \<times> md_answer) list \<Rightarrow> 's md \<Rightarrow> bool" for E where
  md_run_Nil: "md_run E D [] D"
| md_run_Cons: "md_do E (handle n f) D q = Inr (a, rel, D1) \<Longrightarrow> md_run E D1 tr D2 \<Longrightarrow> md_run E D ((n, f, q, a) # tr) D2"

inductive spec_run :: "(RelFileNode \<rightharpoonup> nat \<times> byte list list) \<Rightarrow> (RelFileNode \<times> nat \<times> md_op \<times> md_answer) list \<Rightarrow> (RelFileNode \<rightharpoonup> nat \<times> byte list list) \<Rightarrow> bool" where
  spec_run_Nil: "spec_run A [] A"
| spec_run_Cons: "A n = Some (f, bs) \<Longrightarrow> op_spec q bs a bs' \<Longrightarrow> spec_run (A(n \<mapsto> (f, bs'))) tr A2 \<Longrightarrow> spec_run A ((n, f, q, a) # tr) A2"

inductive_simps spec_run_Cons_iff: "spec_run A ((n, f, q, a) # tr) A2"

inductive_simps spec_run_Nil_iff [simp]: "spec_run A [] A2"

text \<open>The blocks read and written exist, and the relations stay below the limit, whatever the extensions.\<close>

definition run_fits :: "(RelFileNode \<rightharpoonup> nat \<times> byte list list) \<Rightarrow> (RelFileNode \<times> nat \<times> md_op \<times> md_answer) list \<Rightarrow> bool" where
  "run_fits A tr \<longleftrightarrow> (\<forall>(n, f, q, a) \<in> set tr. \<exists>bs. A n = Some (f, bs) \<and> op_fits q bs \<and> length bs + length tr \<le> max_blocks)"

lemma op_grows: "op_spec q bs a bs' \<Longrightarrow> length bs \<le> length bs' \<and> length bs' \<le> Suc (length bs)"
  by (auto simp: op_spec_def split: md_op.splits md_answer.splits)

lemma run_fits_step:
  assumes "run_fits A ((n, f, q, a) # tr)" "A n = Some (f, bs)" "op_spec q bs a bs'"
  shows "run_fits (A(n \<mapsto> (f, bs'))) tr"
  unfolding run_fits_def
proof (clarify)
  fix m g r b assume "(m, g, r, b) \<in> set tr"
  then obtain cs where cs: "A m = Some (g, cs)" "op_fits r cs" "length cs + length ((n, f, q, a) # tr) \<le> max_blocks"
    using assms(1) unfolding run_fits_def by (force simp del: list.size)
  have g: "length bs \<le> length bs'" "length bs' \<le> Suc (length bs)" using op_grows [OF assms(3)] by simp_all
  show "\<exists>cs. (A(n \<mapsto> (f, bs'))) m = Some (g, cs) \<and> op_fits r cs \<and> length cs + length tr \<le> max_blocks"
  proof (cases "m = n")
    case True
    then have e: "cs = bs" "g = f" using cs(1) assms(2) by simp_all
    have "op_fits r bs'" using cs(2) g(1) e by (auto simp: op_fits_def split: md_op.splits)
    then show ?thesis using True e cs(3) g(2) by simp
  next
    case False
    then show ?thesis using cs by auto
  qed
qed

context segments
begin

lemma md_run_ok:
  assumes "md_run E D tr D'" "serves inv vw disk (DataDir E) D A" "run_fits A tr"
  shows "\<exists>A'. serves inv vw disk (DataDir E) D' A' \<and> spec_run A tr A'"
  using assms
proof (induction arbitrary: A rule: md_run.induct)
  case (md_run_Nil D)
  then show ?case by auto
next
  case (md_run_Cons n f D q a rel D1 tr D2)
  obtain bs where bs: "A n = Some (f, bs)" "op_fits q bs" "length bs < max_blocks" using md_run_Cons.prems(2) by (auto simp: run_fits_def)
  from md_do_ok [OF md_run_Cons.prems(1) bs(1,3,2)] obtain bs' where s: "op_spec q bs a bs'" "serves inv vw disk (DataDir E) D1 (A(n \<mapsto> (f, bs')))"
    using md_run_Cons.hyps(1) by auto
  from md_run_Cons.IH [OF s(2) run_fits_step [OF md_run_Cons.prems(2) bs(1) s(1)]] obtain A' where "serves inv vw disk (DataDir E) D2 A'" "spec_run (A(n \<mapsto> (f, bs'))) tr A'" by blast
  then show ?case using spec_run_Cons [of A n f bs q a bs' tr, OF bs(1) s(1)] by blast
qed

end

end
