(* ===== verification/MdStore.thy ===== *)
theory MdStore
  imports MdPool
begin

text \<open>
  The storage manager on top of fd.c and a kernel: md.c, with the files of \<open>fd_ops\<close>, over every kernel that satisfies \<open>posix_files\<close>. The
  properties of the disk manager are stated here; the witnesses run it over \<open>fk_kernel\<close>.
\<close>

section \<open>md.c over fd.c over a kernel\<close>

locale posix_storage = posix_memory k fds pos ok files nm base limit
  for k :: "'o kernel" and fds pos ok files nm base limit +
  fixes E :: "'o fd_globals md_env" and dp :: string and indet :: int and dir :: string
  assumes over_fd: "file_ops E = fd_ops k dp indet" and rooted: "DataDir E = CHR ''/'' # dir"
    and palloc: "finite (dom h) \<Longrightarrow> \<exists>a. new_seg E h = Some a \<and> h a = None \<and> a \<noteq> 0"

sublocale posix_storage \<subseteq> md: segments "fd_ops k dp indet" "fs_ok fds pos ok nm base" "fd_view pos" "\<lambda>st. files (os st)" E dir
  by unfold_locales (fact over_fd rooted palloc)+

text \<open>The relation \<open>rel\<close> is open at entry \<open>f\<close>, with the segments \<open>Fs\<close>, of which those of \<open>rs\<close> are open.\<close>

definition md_rel ::
  "('o \<Rightarrow> int set) \<Rightarrow> ('o \<Rightarrow> int \<Rightarrow> int) \<Rightarrow> ('o \<Rightarrow> bool) \<Rightarrow> ('o \<Rightarrow> string \<rightharpoonup> byte list) \<Rightarrow> ('o \<Rightarrow> int \<Rightarrow> string) \<Rightarrow> int set \<Rightarrow>
   'o fd_globals md_env \<Rightarrow> RelationData \<Rightarrow> 'o fd_globals md \<Rightarrow> byte list list \<Rightarrow> md_ref list \<Rightarrow> bool" where
  "md_rel fds pos ok files nm base E rel D Fs rs \<longleftrightarrow> 0 \<le> rd_fd rel \<and>
     open_rel (fs_ok fds pos ok nm base) (fd_view pos) (\<lambda>st. files (os st)) (relpath (DataDir E) (rd_node rel)) (nat (rd_fd rel)) D Fs rs"

text \<open>What an operation on \<open>rel\<close> leaves alone.\<close>

definition md_only ::
  "('o \<Rightarrow> int \<Rightarrow> int) \<Rightarrow> ('o \<Rightarrow> string \<rightharpoonup> byte list) \<Rightarrow> 'o fd_globals md_env \<Rightarrow> RelationData \<Rightarrow> 'o fd_globals md \<Rightarrow> md_ref list \<Rightarrow> 'o fd_globals md \<Rightarrow> md_ref list \<Rightarrow> bool" where
  "md_only pos files E rel D rs D' rs' \<longleftrightarrow>
     md_frame (fd_view pos) (\<lambda>st. files (os st)) (relpath (DataDir E) (rd_node rel)) (nat (rd_fd rel)) D rs D' rs'"

definition md_serves ::
  "('o \<Rightarrow> int set) \<Rightarrow> ('o \<Rightarrow> int \<Rightarrow> int) \<Rightarrow> ('o \<Rightarrow> bool) \<Rightarrow> ('o \<Rightarrow> string \<rightharpoonup> byte list) \<Rightarrow> ('o \<Rightarrow> int \<Rightarrow> string) \<Rightarrow> int set \<Rightarrow>
   'o fd_globals md_env \<Rightarrow> 'o fd_globals md \<Rightarrow> (RelFileNode \<rightharpoonup> nat \<times> byte list list) \<Rightarrow> bool" where
  "md_serves fds pos ok files nm base E D A \<longleftrightarrow> serves (fs_ok fds pos ok nm base) (fd_view pos) (\<lambda>st. files (os st)) (DataDir E) D A"

context posix_storage
begin

lemma rel_of_md: "0 \<le> rd_fd rel \<Longrightarrow> md.rel_of rel (relpath (DataDir E) (rd_node rel)) (nat (rd_fd rel))"
  by (simp add: md.rel_of_def)

lemma md_relD:
  assumes "md_rel fds pos ok files nm base E rel D Fs rs"
  shows "open_rel (fs_ok fds pos ok nm base) (fd_view pos) (\<lambda>st. files (os st)) (relpath (DataDir E) (rd_node rel)) (nat (rd_fd rel)) D Fs rs"
    "md.rel_of rel (relpath (DataDir E) (rd_node rel)) (nat (rd_fd rel))" "0 \<le> rd_fd rel"
  using assms rel_of_md by (simp_all add: md_rel_def)

lemma read_rel:
  assumes "md_rel fds pos ok files nm base E rel D Fs rs" "length Fs < 2 ^ 14" "unat b < rel_blocks Fs" "length buffer = BLCKSZ"
  shows "(\<exists>st buffer' D' rs' Fs'. md_read E rel D b buffer = Inr (st, buffer', rel, D') \<and> md_rel fds pos ok files nm base E rel D' Fs' rs' \<and>
      md_only pos files E rel D rs D' rs' \<and> padded Fs Fs' \<and> (st = SM_SUCCESS \<and> buffer' = rel_block Fs (unat b) \<or> st = SM_FAIL)) \<or>
    md_read E rel D b buffer = Inl Elog_ERROR \<and> length (last Fs) = SEGSZ"
  using md.md_read_ok [OF md_relD(1,2) [OF assms(1)] assms(2-4)] md_relD(3) [OF assms(1)] unfolding md_rel_def md_only_def by simp

lemma write_rel:
  assumes "md_rel fds pos ok files nm base E rel D Fs rs" "length Fs < 2 ^ 14" "unat b < rel_blocks Fs" "length buffer = BLCKSZ"
  shows "\<exists>st D' rs' Fs'. md_write E rel D b buffer = Inr (st, rel, D') \<and> md_rel fds pos ok files nm base E rel D' Fs' rs' \<and>
    md_only pos files E rel D rs D' rs' \<and> length Fs' = length Fs \<and> rel_blocks Fs' = rel_blocks Fs \<and> (\<forall>c. c \<noteq> unat b \<longrightarrow> rel_block Fs' c = rel_block Fs c) \<and>
    (st = SM_SUCCESS \<and> rel_block Fs' (unat b) = buffer \<or> st = SM_FAIL)"
  using md.md_write_ok [OF md_relD(1,2) [OF assms(1)] assms(2-4)] md_relD(3) [OF assms(1)] unfolding md_rel_def md_only_def by simp

lemma nblocks_rel:
  assumes "md_rel fds pos ok files nm base E rel D Fs rs" "length Fs < 2 ^ 14"
  shows "(\<exists>D' rs' Fs'. md_nblocks E rel D = Inr (int (rel_blocks Fs), rel, D') \<and> md_rel fds pos ok files nm base E rel D' Fs' rs' \<and>
      md_only pos files E rel D rs D' rs' \<and> length rs' = length Fs' \<and> Fs' = (if length (last Fs) = SEGSZ then Fs @ [[]] else Fs)) \<or>
    md_nblocks E rel D = Inl Elog_ERROR \<and> length (last Fs) = SEGSZ"
  using md.md_nblocks_ok [OF md_relD(1,2) [OF assms(1)] assms(2)] md_relD(3) [OF assms(1)] unfolding md_rel_def md_only_def by auto

lemma extend_rel:
  assumes "md_rel fds pos ok files nm base E rel D Fs rs" "length Fs < 2 ^ 14" "length buffer = BLCKSZ"
  shows "(\<exists>st D' rs' Fs'. md_extend E rel D buffer = Inr (st, rel, D') \<and> md_rel fds pos ok files nm base E rel D' Fs' rs' \<and> md_only pos files E rel D rs D' rs' \<and>
      (\<forall>c < rel_blocks Fs. rel_block Fs' c = rel_block Fs c) \<and>
      (st = SM_SUCCESS \<and> rel_blocks Fs' = Suc (rel_blocks Fs) \<and> rel_block Fs' (rel_blocks Fs) = buffer \<or> st = SM_FAIL \<and> rel_blocks Fs' = rel_blocks Fs)) \<or>
    md_extend E rel D buffer = Inl Elog_ERROR \<and> length (last Fs) = SEGSZ"
  using md.md_extend_ok [OF md_relD(1,2) [OF assms(1)] assms(2,3)] md_relD(3) [OF assms(1)] unfolding md_rel_def md_only_def by simp

lemma run_refines:
  assumes "md_run E D tr D'" "serves (fs_ok fds pos ok nm base) (fd_view pos) (\<lambda>st. files (os st)) (DataDir E) D A" "run_fits A tr"
  shows "\<exists>A'. serves (fs_ok fds pos ok nm base) (fd_view pos) (\<lambda>st. files (os st)) (DataDir E) D' A' \<and> spec_run A tr A'"
  by (rule md.md_run_ok [OF assms])

lemma write_read_rel:
  assumes "md_rel fds pos ok files nm base E rel D Fs rs" "length Fs < 2 ^ 14" "unat b < rel_blocks Fs" "length buffer = BLCKSZ" "unat c < rel_blocks Fs"
    "length out = BLCKSZ" "length (last Fs) \<noteq> SEGSZ"
  shows "\<exists>st D1 st2 out' D2. md_write E rel D b buffer = Inr (st, rel, D1) \<and> md_read E rel D1 c out = Inr (st2, out', rel, D2) \<and>
    (st = SM_SUCCESS \<or> st = SM_FAIL) \<and> (st2 = SM_FAIL \<or> st2 = SM_SUCCESS \<and> (c \<noteq> b \<longrightarrow> out' = rel_block Fs (unat c)) \<and> (c = b \<and> st = SM_SUCCESS \<longrightarrow> out' = buffer))"
proof -
  obtain st D1 rs1 F1 where w: "md_write E rel D b buffer = Inr (st, rel, D1)" "md_rel fds pos ok files nm base E rel D1 F1 rs1" "length F1 = length Fs"
    "rel_blocks F1 = rel_blocks Fs" "\<forall>c. c \<noteq> unat b \<longrightarrow> rel_block F1 c = rel_block Fs c" "st = SM_SUCCESS \<and> rel_block F1 (unat b) = buffer \<or> st = SM_FAIL"
    using write_rel [OF assms(1-4)] by blast
  have nf: "length (last F1) \<noteq> SEGSZ"
  proof
    assume "length (last F1) = SEGSZ"
    then have "length (last Fs) div BLCKSZ = RELSEG_SIZE" using w(3,4) by (simp add: rel_blocks_def sizes)
    moreover have "length (last Fs) \<le> SEGSZ" using md_relD(1) [OF assms(1)] by (simp add: open_rel_def disk_rel_def)
    ultimately show False using full_seg(1) assms(7) by blast
  qed
  have len: "length F1 < 2 ^ 14" "unat c < rel_blocks F1" using assms(2,5) w(3,4) by simp_all
  obtain st2 out' D2 where r: "md_read E rel D1 c out = Inr (st2, out', rel, D2)" "st2 = SM_SUCCESS \<and> out' = rel_block F1 (unat c) \<or> st2 = SM_FAIL"
    using read_rel [OF w(2) len assms(6)] nf by blast
  have st: "st = SM_SUCCESS \<or> st = SM_FAIL" using w(6) by blast
  have other: "rel_block F1 (unat c) = rel_block Fs (unat c)" if "c \<noteq> b"
  proof -
    have "unat c \<noteq> unat b" using that by (metis word_unat_eq_iff)
    then show ?thesis using w(5) by blast
  qed
  have same: "rel_block F1 (unat b) = buffer" if "st = SM_SUCCESS" using w(6) that by (auto simp: SM_FAIL_def SM_SUCCESS_def)
  have "st2 = SM_FAIL \<or> st2 = SM_SUCCESS \<and> (c \<noteq> b \<longrightarrow> out' = rel_block Fs (unat c)) \<and> (c = b \<and> st = SM_SUCCESS \<longrightarrow> out' = buffer)"
    using r(2) other same by auto
  then show ?thesis using w(1) st r(1) by blast
qed

lemmas open_pool = md.pool_open_ok [folded md_serves_def]
lemmas create_pool = md.pool_create_ok [folded md_serves_def]
lemmas close_pool = md.pool_close_ok [folded md_serves_def]
lemmas truncate_pool = md.pool_truncate_ok [folded md_serves_def]

end

section \<open>Writing and reading through fd.c\<close>

context posix_memory
begin

lemma write_read_fd:
  assumes i: "fs_ok fds pos ok nm base st" and v: "fd_view pos st e = Some v" "in_range v" "v_sure v" and bs: "files (os st) (v_name v) = Some bs"
  shows "\<exists>r st1 st2 r2 out st3. file_write k st e data = Inr (r, st1) \<and> file_seek k st1 e (v_loc v) SEEK_SET = Inr (v_loc v, st2) \<and>
    file_read k st2 e (int (length data)) = Inr (r2, out, st3) \<and> fs_ok fds pos ok nm base st3 \<and> -1 \<le> r \<and> r \<le> int (length data) \<and>
    (r2 = -1 \<or> 0 \<le> r2 \<and> length out = nat r2 \<and> take (nat r) out = take (nat r2) (take (nat r) data)) \<and>
    (\<forall>n. n \<noteq> v_name v \<longrightarrow> files (os st3) n = files (os st) n) \<and> (\<forall>i. i \<noteq> e \<longrightarrow> fv_le (fd_view pos st i) (fd_view pos st3 i))"
proof -
  have p: "0 \<le> v_loc v" using v(2) by (simp add: in_range_def)
  obtain r st1 v1 bs1 where w: "file_write k st e data = Inr (r, st1)" "fs_ok fds pos ok nm base st1" "-1 \<le> r" "r \<le> int (length data)"
    "bs1 = write_at bs (nat (v_loc v)) (take (nat r) data)" "files (os st1) = (files (os st))(v_name v \<mapsto> bs1)" "v_name v1 = v_name v"
    "fv_upd (fd_view pos st) (fd_view pos st1) e (Some v1)"
  proof -
    obtain r st1 where h: "file_write k st e data = Inr (r, st1)" "fs_ok fds pos ok nm base st1"
      "r = -1 \<and> files (os st1) = files (os st) \<and> fv_upd (fd_view pos st) (fd_view pos st1) e (Some (v\<lparr>v_sure := False\<rparr>)) \<or>
       0 \<le> r \<and> r \<le> int (length data) \<and> files (os st1) = (files (os st))(v_name v \<mapsto> write_at bs (nat (v_loc v)) (take (nat r) data)) \<and>
       fv_upd (fd_view pos st) (fd_view pos st1) e (Some (v\<lparr>v_loc := v_loc v + r, v_sure := 0 < r\<rparr>))"
      using fdf.write_law [OF i v(1-3) bs, of _ _ data] by (auto simp: fd_ops_def)
    from h(3) show ?thesis
    proof (elim disjE conjE)
      assume a: "r = -1" "files (os st1) = files (os st)" "fv_upd (fd_view pos st) (fd_view pos st1) e (Some (v\<lparr>v_sure := False\<rparr>))"
      have "files (os st1) = (files (os st))(v_name v \<mapsto> bs)" using a(2) bs by (simp add: fun_upd_idem)
      then show ?thesis using that [OF h(1,2) _ _ _ _ _ a(3), of bs] a(1) by (simp add: write_at_def)
    next
      assume a: "0 \<le> r" "r \<le> int (length data)" "files (os st1) = (files (os st))(v_name v \<mapsto> write_at bs (nat (v_loc v)) (take (nat r) data))"
        "fv_upd (fd_view pos st) (fd_view pos st1) e (Some (v\<lparr>v_loc := v_loc v + r, v_sure := 0 < r\<rparr>))"
      then show ?thesis using that [OF h(1,2) _ a(2) refl a(3) _ a(4)] by simp
    qed
  qed
  obtain v1' where v1: "fd_view pos st1 e = Some v1'" "v_name v1' = v_name v" using w(7,8) by (auto simp: fv_upd_def fv_le_Some)
  obtain st2 where s: "file_seek k st1 e (v_loc v) SEEK_SET = Inr (v_loc v, st2)" "fs_ok fds pos ok nm base st2" "files (os st2) = files (os st1)"
    "fv_upd (fd_view pos st1) (fd_view pos st2) e (Some (v1'\<lparr>v_loc := v_loc v, v_sure := True\<rparr>))"
    using fdf.seek_set_law [OF w(2) v1(1) p] by (auto simp: fd_ops_def)
  obtain v2 where v2: "fd_view pos st2 e = Some v2" "v_name v2 = v_name v" "v_loc v2 = v_loc v" "v_sure v2" using s(4) v1(2) by (auto simp: fv_upd_def fv_le_Some)
  have r2: "in_range v2" "files (os st2) (v_name v2) = Some bs1" using v(2) v2(2,3) s(3) w(6) by (simp_all add: in_range_def)
  have n0: "0 \<le> int (length data)" by simp
  obtain r2 out st3 where rd: "file_read k st2 e (int (length data)) = Inr (r2, out, st3)" "fs_ok fds pos ok nm base st3" "files (os st3) = files (os st2)"
    and c: "r2 = -1 \<and> fv_upd (fd_view pos st2) (fd_view pos st3) e (Some (v2\<lparr>v_sure := False\<rparr>)) \<or>
       0 \<le> r2 \<and> r2 \<le> int (length data) \<and> out = take (nat r2) (drop (nat (v_loc v2)) bs1) \<and> length out = nat r2 \<and>
       (r2 = 0 \<and> 0 < int (length data) \<longrightarrow> length bs1 \<le> nat (v_loc v2)) \<and> fv_upd (fd_view pos st2) (fd_view pos st3) e (Some (v2\<lparr>v_loc := v_loc v2 + r2, v_sure := 0 < r2\<rparr>))"
    using fdf.read_law [OF s(2) v2(1) r2(1) v2(4) r2(2) n0] unfolding fd_ops_def file_ops.simps by blast
  obtain v3 where u3: "fv_upd (fd_view pos st2) (fd_view pos st3) e (Some v3)" using c by blast
  have rd4: "r2 = -1 \<or> 0 \<le> r2 \<and> out = take (nat r2) (drop (nat (v_loc v)) bs1) \<and> length out = nat r2" using c unfolding v2(3) by blast
  have tk: "take (nat r) out = take (nat r2) (take (nat r) data)" if "out = take (nat r2) (drop (nat (v_loc v)) bs1)"
  proof (cases "take (nat r) data = []")
    case True
    then have "nat r = 0" using w(4) by auto
    then show ?thesis by simp
  next
    case False
    let ?p = "nat (v_loc v)"
    have "length (take ?p (bs @ replicate (?p - length bs) 0)) = ?p" by simp
    then have "bs1 = take ?p (bs @ replicate (?p - length bs) 0) @ take (nat r) data @ drop (?p + length (take (nat r) data)) bs"
      unfolding w(5) write_at_def using False by (simp only: if_False)
    then obtain ys where d: "drop ?p bs1 = take (nat r) data @ ys" by simp
    have l: "length (take (nat r) data) = nat r" using w(4) by simp
    have "take (nat r) out = take (nat r2) (take (nat r) (drop ?p bs1))" unfolding that take_take by (simp only: min.commute)
    also have "take (nat r) (drop ?p bs1) = take (nat r) data" unfolding d using l by simp
    finally show ?thesis .
  qed
  have vs: "fv_le (fd_view pos st i) (fd_view pos st3 i)" if "i \<noteq> e" for i
  proof -
    have "fv_le (fd_view pos st i) (fd_view pos st1 i)" "fv_le (fd_view pos st1 i) (fd_view pos st2 i)" "fv_le (fd_view pos st2 i) (fd_view pos st3 i)"
      using that w(8) s(4) u3 by (simp_all add: fv_upd_def)
    then show ?thesis using fv_le_trans by blast
  qed
  have fl: "files (os st3) n = files (os st) n" if "n \<noteq> v_name v" for n using that by (simp add: rd(3) s(3) w(6))
  have res: "r2 = -1 \<or> 0 \<le> r2 \<and> length out = nat r2 \<and> take (nat r) out = take (nat r2) (take (nat r) data)" using rd4 tk by blast
  show ?thesis
    by (rule exI [of _ r], rule exI [of _ st1], rule exI [of _ st2], rule exI [of _ r2], rule exI [of _ out], rule exI [of _ st3])
      (intro conjI allI impI w(1) s(1) rd(1,2) w(3,4) res fl vs)
qed

end

section \<open>A concrete storage\<close>

text \<open>The first free address from \<open>a\<close> on.\<close>

partial_function (option) first_free :: "(nat \<rightharpoonup> 'b) \<Rightarrow> nat \<Rightarrow> nat option" where
  "first_free h a = (if h a = None then Some a else first_free h (Suc a))"

lemma first_free:
  assumes "finite (dom h)"
  shows "\<exists>b. first_free h a = Some b \<and> h b = None \<and> a \<le> b"
  using assms
proof (induction "card (dom h \<inter> {a..})" arbitrary: a rule: less_induct)
  case less
  show ?case
  proof (cases "h a = None")
    case True
    then show ?thesis by (simp add: first_free.simps)
  next
    case False
    then have "a \<in> dom h \<inter> {a..}" "a \<notin> dom h \<inter> {Suc a..}" "dom h \<inter> {Suc a..} \<subseteq> dom h \<inter> {a..}" by auto
    then have "dom h \<inter> {Suc a..} \<subset> dom h \<inter> {a..}" by blast
    then have "card (dom h \<inter> {Suc a..}) < card (dom h \<inter> {a..})" using less.prems by (intro psubset_card_mono) simp_all
    then obtain b where "first_free h (Suc a) = Some b" "h b = None" "Suc a \<le> b" using less by blast
    then show ?thesis using False by (subst first_free.simps) auto
  qed
qed

definition fk_env :: "file_kernel fd_globals md_env" where
  "fk_env = \<lparr>file_ops = fd_ops fk_kernel ''/pg'' 0, DataDir = ''/pg'', bootstrap = False, new_seg = (\<lambda>h. first_free h 1)\<rparr>"

interpretation fks: posix_storage fk_kernel fk_fds fk_pos fk_ok kfiles kname "{}" 246 fk_env "''/pg''" 0 "''pg''"
proof unfold_locales
  show "file_ops fk_env = fd_ops fk_kernel ''/pg'' 0" "DataDir fk_env = CHR ''/'' # ''pg''" by (simp_all add: fk_env_def)
  show "\<exists>a. new_seg fk_env h = Some a \<and> h a = None \<and> a \<noteq> 0" if "finite (dom h)" for h
    using first_free [OF that, of 1] by (auto simp: fk_env_def)
qed

text \<open>No file is open; \<open>fls\<close> are the files on disk.\<close>

definition fk_start :: "(string \<rightharpoonup> byte list) \<Rightarrow> file_kernel fd_globals" where
  "fk_start fls = \<lparr>VfdCache = (\<lambda>_. zero_vfd), SizeVfdCache = 0, NFile = 0, AllocatedFiles = [], TempFileCounter = 0,
     EnableFsync = True, exit_hook = False, os = \<lparr>kfiles = fls, kopen = Map.empty, kname = (\<lambda>_. [])\<rparr>\<rparr>"

definition fk_md :: "(string \<rightharpoonup> byte list) \<Rightarrow> file_kernel fd_globals md" where
  "fk_md fls = snd (md_init \<lparr>Nfds = 100, Md_fdvec = (\<lambda>_. zero_mdfdvec), MdFree = -1, CurFd = 0, md_segs = Map.empty, fs = fk_start fls\<rparr>)"

definition fk_node :: RelFileNode where
  "fk_node = \<lparr>tbl_node = 1, rel_node = 2\<rparr>"

text \<open>One relation of one block.\<close>

definition fk_disk :: "string \<rightharpoonup> byte list" where
  "fk_disk = [''/pg/base/1/2'' \<mapsto> replicate BLCKSZ 7]"

abbreviation fk_serves :: "file_kernel fd_globals md \<Rightarrow> (RelFileNode \<rightharpoonup> nat \<times> byte list list) \<Rightarrow> bool" where
  "fk_serves \<equiv> md_serves fk_fds fk_pos fk_ok kfiles kname {} fk_env"

abbreviation fk_md_rel :: "RelationData \<Rightarrow> file_kernel fd_globals md \<Rightarrow> byte list list \<Rightarrow> md_ref list \<Rightarrow> bool" where
  "fk_md_rel \<equiv> md_rel fk_fds fk_pos fk_ok kfiles kname {} fk_env"

lemma fk_opens:
  "case file_name_open_file fk_kernel ''/pg'' (fk_start [''/pg/base/1/2'' \<mapsto> bs]) ''/pg/base/1/2'' O_RDWR 384 of Inr (r, s) \<Rightarrow> 0 \<le> r | Inl _ \<Rightarrow> False"
  by code_simp

lemma fk_creates:
  "case file_name_open_file fk_kernel ''/pg'' (fk_start Map.empty) ''/pg/base/1/2'' (O_RDWR OR O_CREAT OR O_EXCL) 384 of Inr (r, s) \<Rightarrow> 0 \<le> r | Inl _ \<Rightarrow> False"
  by code_simp

lemma fk_path: "relpath (DataDir fk_env) fk_node = ''/pg/base/1/2''"
  by (simp add: fk_env_def) code_simp

lemma fk_initial:
  "fs_ok fk_fds fk_pos fk_ok kname {} (fs (fk_md fls))" "fdvec_ok (fk_md fls) []" "finite (dom (md_segs (fk_md fls)))" "fs (fk_md fls) = fk_start fls"
  "fk_serves (fk_md fls) Map.empty"
proof -
  let ?D = "\<lparr>Nfds = 100, Md_fdvec = (\<lambda>_. zero_mdfdvec), MdFree = -1, CurFd = 0, md_segs = Map.empty, fs = fk_start fls\<rparr>"
  obtain D' where D': "md_init ?D = (SM_SUCCESS, D')" "fdvec_ok D' []" "fs D' = fk_start fls" "md_segs D' = Map.empty" using md_init_fdvec [of ?D] by auto
  then have e: "fk_md fls = D'" by (simp add: fk_md_def)
  have "vfd_init fk_ok (fk_start fls) \<and> fk_fds (os (fk_start fls)) \<subseteq> {}" by (simp add: vfd_init_def fk_start_def fk_ok_def fk_fds_def)
  then show i: "fs_ok fk_fds fk_pos fk_ok kname {} (fs (fk_md fls))" using D'(3) e by (simp add: fs_ok_def)
  show "fdvec_ok (fk_md fls) []" "finite (dom (md_segs (fk_md fls)))" "fs (fk_md fls) = fk_start fls" using D' e by simp_all
  then have "pool_ok (fs_ok fk_fds fk_pos fk_ok kname {}) (fd_view fk_pos) (\<lambda>st. kfiles (os st)) (DataDir fk_env) (fk_md fls) Map.empty"
    using i by (intro pool_okI) simp_all
  then show "fk_serves (fk_md fls) Map.empty" unfolding md_serves_def serves_def by (intro exI [of _ Map.empty]) simp
qed

lemma fk_disk_rel: "disk_rel (kfiles (os (fs (fk_md fk_disk)))) (relpath (DataDir fk_env) fk_node) [replicate BLCKSZ 7]"
proof -
  have s: "sname ''/pg/base/1/2'' i = ''/pg/base/1/2'' \<longleftrightarrow> i = 0" for i using sname_inj [of "''/pg/base/1/2''" i 0] by (simp add: sname_def seg_path_def)
  show ?thesis unfolding fk_path fk_initial(4) by (auto simp: disk_rel_def fk_start_def fk_disk_def s sizes)
qed

lemma open_succeeds:
  assumes "f_open (file_ops E) (fs D) (relpath (DataDir E) n) O_RDWR 384 = Inr (r, s)" "0 \<le> r"
  shows "md_open E (closed_handle n) D \<noteq> Inr (-1, D')"
  using assms by (auto simp: md_open_def closed_handle_def Let_def cbind_eq_Inr c_assert_def split: prod.splits)

lemma fk_opened:
  obtains f D where "md_open fk_env (closed_handle fk_node) (fk_md fk_disk) = Inr (int f, D)" "fk_md_rel (handle fk_node f) D [replicate BLCKSZ 7] [Entry f]"
    "fk_serves D [fk_node \<mapsto> (f, [replicate BLCKSZ 7])]" "\<exists>ys. fdvec_ok D ys"
proof -
  have nb: "\<not> bootstrap fk_env" by (simp add: fk_env_def)
  obtain r s where rs: "f_open (file_ops fk_env) (fs (fk_md fk_disk)) (relpath (DataDir fk_env) fk_node) O_RDWR 384 = Inr (r, s)" "0 \<le> r"
    using fk_opens [of "replicate BLCKSZ 7"] unfolding fk_path fk_initial(4)
    by (auto simp: fk_env_def fd_ops_def fk_disk_def split: sum.splits prod.splits)
  note fl = open_succeeds [OF rs]
  have rel: "rd_fd (closed_handle fk_node) < 0" "relpath (DataDir fk_env) fk_node = relpath (DataDir fk_env) (rd_node (closed_handle fk_node))"
    by (simp_all add: closed_handle_def)
  obtain f D where o: "md_open fk_env (closed_handle fk_node) (fk_md fk_disk) = Inr (int f, D)"
    "open_rel (fs_ok fk_fds fk_pos fk_ok kname {}) (fd_view fk_pos) (\<lambda>st. kfiles (os st)) (relpath (DataDir fk_env) fk_node) f D [replicate BLCKSZ 7] [Entry f]"
    "\<exists>ys. fdvec_ok D ys"
    using fks.md.md_open_ok [OF fk_initial(1-3) nb rel fk_disk_rel] fl by (auto simp: entered_def)
  have "contents [replicate BLCKSZ 7] = [replicate BLCKSZ 7]" by (simp add: contents_def rel_blocks_def rel_block_def sizes)
  then have "fk_serves D [fk_node \<mapsto> (f, [replicate BLCKSZ 7])]"
    using fks.md.pool_open_ok [OF fk_initial(5)[unfolded md_serves_def] _ nb fk_disk_rel] fl o(1) unfolding md_serves_def by auto
  then show ?thesis using that [OF o(1) _ _ o(3)] o(2) by (simp add: md_rel_def handle_def)
qed

lemmas fk_posix_storage = fks.posix_storage_axioms

lemma fk_bounds:
  "length [replicate BLCKSZ (7 :: byte)] < 2 ^ 14" "unat (0 :: 32 word) < rel_blocks [replicate BLCKSZ 7]" "length (replicate BLCKSZ (9 :: byte)) = BLCKSZ"
  "length [replicate BLCKSZ (7 :: byte)] < max_blocks" "\<not> RELSEG_SIZE dvd length [replicate BLCKSZ (7 :: byte)]" "length (last [replicate BLCKSZ (7 :: byte)]) \<noteq> SEGSZ"
  by (simp_all add: rel_blocks_def sizes max_blocks_def)

section \<open>Properties\<close>



text \<open>
  C4. \<open>md_write\<close> of an existing block returns \<open>SM_SUCCESS\<close>, and the block is the buffer, or \<open>SM_FAIL\<close>; no other block of the
  relation changes, no other file, and no other open file or entry of the table.
\<close>

theorem md_write_correct:
  assumes "posix_storage k fds pos ok files nm base limit E dp indet dir" "md_rel fds pos ok files nm base E rel D Fs rs" "length Fs < 2 ^ 14"
    "unat b < rel_blocks Fs" "length buffer = BLCKSZ"
  shows "\<exists>st D' rs' Fs'. md_write E rel D b buffer = Inr (st, rel, D') \<and> md_rel fds pos ok files nm base E rel D' Fs' rs' \<and>
    md_only pos files E rel D rs D' rs' \<and> length Fs' = length Fs \<and> rel_blocks Fs' = rel_blocks Fs \<and> (\<forall>c. c \<noteq> unat b \<longrightarrow> rel_block Fs' c = rel_block Fs c) \<and>
    (st = SM_SUCCESS \<and> rel_block Fs' (unat b) = buffer \<or> st = SM_FAIL)"
  by (rule posix_storage.write_rel [OF assms])

theorem md_write_correct_witness:
  "\<exists>rel D st D' rs Fs'. md_write fk_env rel D 0 (replicate BLCKSZ 9) = Inr (st, rel, D') \<and> fk_md_rel rel D' Fs' rs \<and>
    (st = SM_SUCCESS \<and> rel_block Fs' 0 = replicate BLCKSZ 9 \<or> st = SM_FAIL)"
proof -
  obtain f D where o: "fk_md_rel (handle fk_node f) D [replicate BLCKSZ 7] [Entry f]" by (rule fk_opened)
  from md_write_correct [OF fk_posix_storage o fk_bounds(1-3)] show ?thesis by (simp only: unat_0) blast
qed

text \<open>
  \<open>md_read\<close> of an existing block returns \<open>SM_SUCCESS\<close> and exactly the block, or \<open>SM_FAIL\<close>, and writes nothing. It raises an error
  only where it counts the blocks of a relation whose last segment is full.
\<close>

theorem md_read_correct:
  assumes "posix_storage k fds pos ok files nm base limit E dp indet dir" "md_rel fds pos ok files nm base E rel D Fs rs" "length Fs < 2 ^ 14"
    "unat b < rel_blocks Fs" "length buffer = BLCKSZ"
  shows "(\<exists>st buffer' D' rs' Fs'. md_read E rel D b buffer = Inr (st, buffer', rel, D') \<and> md_rel fds pos ok files nm base E rel D' Fs' rs' \<and>
      md_only pos files E rel D rs D' rs' \<and> padded Fs Fs' \<and> (st = SM_SUCCESS \<and> buffer' = rel_block Fs (unat b) \<or> st = SM_FAIL)) \<or>
    md_read E rel D b buffer = Inl Elog_ERROR \<and> length (last Fs) = SEGSZ"
  by (rule posix_storage.read_rel [OF assms])

theorem md_read_correct_witness:
  "\<exists>rel D st buffer D'. md_read fk_env rel D 0 (replicate BLCKSZ 9) = Inr (st, buffer, rel, D') \<and> (st = SM_SUCCESS \<and> buffer = replicate BLCKSZ 7 \<or> st = SM_FAIL)"
proof -
  obtain f D where o: "fk_md_rel (handle fk_node f) D [replicate BLCKSZ 7] [Entry f]" by (rule fk_opened)
  have rb: "rel_block [replicate BLCKSZ 7] 0 = replicate BLCKSZ 7" by (simp add: rel_block_def sizes)
  from md_read_correct [OF fk_posix_storage o fk_bounds(1-3)] fk_bounds(6) rb show ?thesis by (simp only: unat_0) metis
qed



text \<open>
  C3. \<open>md_extend\<close> returns \<open>SM_SUCCESS\<close>, and the relation has one block more, the buffer, behind the last whole block; or
  \<open>SM_FAIL\<close>, and the relation has the blocks it had, also when a part of the block had been written. It opens or creates a further segment
  when the last one is full; an error is raised only there.
\<close>

theorem md_extend_correct:
  assumes "posix_storage k fds pos ok files nm base limit E dp indet dir" "md_rel fds pos ok files nm base E rel D Fs rs" "length Fs < 2 ^ 14" "length buffer = BLCKSZ"
  shows "(\<exists>st D' rs' Fs'. md_extend E rel D buffer = Inr (st, rel, D') \<and> md_rel fds pos ok files nm base E rel D' Fs' rs' \<and> md_only pos files E rel D rs D' rs' \<and>
      (\<forall>c < rel_blocks Fs. rel_block Fs' c = rel_block Fs c) \<and>
      (st = SM_SUCCESS \<and> rel_blocks Fs' = Suc (rel_blocks Fs) \<and> rel_block Fs' (rel_blocks Fs) = buffer \<or> st = SM_FAIL \<and> rel_blocks Fs' = rel_blocks Fs)) \<or>
    md_extend E rel D buffer = Inl Elog_ERROR \<and> length (last Fs) = SEGSZ"
  by (rule posix_storage.extend_rel [OF assms])

theorem md_extend_correct_witness:
  "\<exists>rel D st D' Fs' rs. md_extend fk_env rel D (replicate BLCKSZ 9) = Inr (st, rel, D') \<and> fk_md_rel rel D' Fs' rs \<and>
    (st = SM_SUCCESS \<and> rel_blocks Fs' = 2 \<or> st = SM_FAIL \<and> rel_blocks Fs' = 1)"
proof -
  obtain f D where o: "fk_md_rel (handle fk_node f) D [replicate BLCKSZ 7] [Entry f]" by (rule fk_opened)
  have rb: "rel_blocks [replicate BLCKSZ 7] = 1" "Suc 1 = 2" by (simp_all add: rel_blocks_def sizes)
  from md_extend_correct [OF fk_posix_storage o fk_bounds(1,3)] fk_bounds(6) show ?thesis unfolding rb by metis
qed



text \<open>
  \<open>md_close\<close> of an open relation always ends: its descriptors are closed, its vectors freed, its entry of the table free again; what is
  on disk and the other open relations are as before.
\<close>

theorem md_close_correct:
  assumes "posix_storage k fds pos ok files nm base limit E dp indet dir" "md_serves fds pos ok files nm base E D A" "A n = Some (f, bs)"
  shows "\<exists>D'. md_close E (handle n f) D = Some (Inr (SM_SUCCESS, closed_handle n, D')) \<and> md_serves fds pos ok files nm base E D' (A(n := None)) \<and>
    files (os (fs D')) = files (os (fs D))"
  by (rule posix_storage.close_pool [OF assms])

theorem md_close_correct_witness:
  "\<exists>f D D'. md_close fk_env (handle fk_node f) D = Some (Inr (SM_SUCCESS, closed_handle fk_node, D')) \<and> fk_serves D' Map.empty"
proof -
  obtain f D where o: "fk_serves D [fk_node \<mapsto> (f, [replicate BLCKSZ 7])]" by (rule fk_opened)
  have a: "[fk_node \<mapsto> (f, [replicate BLCKSZ 7])] fk_node = Some (f, [replicate BLCKSZ 7])" by simp
  have e: "[fk_node \<mapsto> (f, [replicate BLCKSZ 7])](fk_node := None) = Map.empty" by simp
  from md_close_correct [OF fk_posix_storage o a] show ?thesis unfolding e by blast
qed



text \<open>
  \<open>md_create\<close> returns -1 and changes nothing, or the relation had no file and is now open and empty. Every open relation keeps its
  blocks.
\<close>

theorem md_create_correct:
  assumes "posix_storage k fds pos ok files nm base limit E dp indet dir" "md_serves fds pos ok files nm base E D A" "A n = None" "\<not> bootstrap E"
    "\<forall>i > 0. files (os (fs D)) (sname (relpath (DataDir E) n) i) \<in> {None, Some []}"
  shows "(\<exists>D'. md_create E (closed_handle n) D = Inr (-1, D') \<and> md_serves fds pos ok files nm base E D' A) \<or>
    files (os (fs D)) (relpath (DataDir E) n) = None \<and>
    (\<exists>f D'. md_create E (closed_handle n) D = Inr (int f, D') \<and> md_serves fds pos ok files nm base E D' (A(n \<mapsto> (f, []))))"
  by (rule posix_storage.create_pool [OF assms(1-4)]) (use assms(5) in blast)

theorem md_create_correct_witness:
  "\<exists>r D. md_create fk_env (closed_handle fk_node) (fk_md Map.empty) = Inr (r, D) \<and> (r = -1 \<and> fk_serves D Map.empty \<or> (\<exists>f. r = int f \<and> fk_serves D [fk_node \<mapsto> (f, [])]))"
proof -
  have nb: "\<not> bootstrap fk_env" by (simp add: fk_env_def)
  have "kfiles (os (fs (fk_md Map.empty))) n \<in> {None, Some []}" for n by (simp add: fk_initial(4) fk_start_def)
  then have empty: "\<forall>i > 0. kfiles (os (fs (fk_md Map.empty))) (sname (relpath (DataDir fk_env) fk_node) i) \<in> {None, Some []}" by simp
  have n: "Map.empty fk_node = None" by simp
  note c = md_create_correct [OF fk_posix_storage fk_initial(5) n nb empty]
  from c show ?thesis by (elim disjE exE conjE) (rule exI, rule exI, rule conjI, assumption, simp)+
qed

text \<open>
  C7. Block numbers are unsigned, \<open>md_fd_get_seg\<close> takes an \<open>int\<close>: a block from \<open>2 ^ 31\<close> on is negative there, the loop over the
  segments is not entered, and the write goes to the block of the same position in the first segment, with success.
\<close>

theorem md_high_blocks:
  assumes "0 \<le> rd_fd rel" "2 ^ 31 \<le> unat (b :: 32 word)"
  shows "md_write E rel D b buffer = md_write E rel D (b mod of_nat RELSEG_SIZE) buffer"
proof -
  have first: "md_fd_get_seg E rel D x = Inr (Entry (nat (rd_fd rel)), rel, D)" if "x < int RELSEG_SIZE" for x
  proof -
    have "x div int RELSEG_SIZE \<le> 0" using that by (cases "x < 0") (simp_all add: sizes div_neg_pos_less0 less_imp_le)
    then show ?thesis using assms(1) by (simp add: md_fd_get_seg_def md_fd_get_reln_fd_def)
  qed
  have "sint b < 0"
  proof (rule ccontr)
    assume "\<not> sint b < 0"
    then have s: "0 \<le> sint b" "sint b < 2 ^ 31" using sint_lt [of b] by simp_all
    have "uint b = sint b mod 2 ^ 32" using uint_sint [of b] by (simp add: take_bit_eq_mod)
    then have "unat b < 2 ^ 31" using s by (simp add: nat_less_iff flip: nat_uint_eq)
    then show False using assms(2) by simp
  qed
  then have hi: "sint b < int RELSEG_SIZE" by (simp add: sizes)
  have ub: "unat (b mod of_nat RELSEG_SIZE) < RELSEG_SIZE" by (simp add: unat_mod sizes)
  then have "sint (b mod of_nat RELSEG_SIZE) = int (unat (b mod of_nat RELSEG_SIZE))" by (intro block_number) (simp add: sizes)
  then have lo: "sint (b mod of_nat RELSEG_SIZE) < int RELSEG_SIZE" using ub by linarith
  have "block_pos (b mod of_nat RELSEG_SIZE) = block_pos b" by (simp add: block_pos unat_mod sizes)
  then show ?thesis by (simp add: md_write_def first [OF hi] first [OF lo])
qed

theorem md_high_blocks_witness:
  "md_write fk_env (handle fk_node 0) (fk_md fk_disk) 0x80000000 (replicate BLCKSZ 9) = md_write fk_env (handle fk_node 0) (fk_md fk_disk) 0 (replicate BLCKSZ 9)"
proof -
  have h: "0 \<le> rd_fd (handle fk_node 0)" "2 ^ 31 \<le> unat (0x80000000 :: 32 word)" by (simp_all add: handle_def)
  have m: "(0x80000000 :: 32 word) mod of_nat RELSEG_SIZE = 0" by (simp add: sizes)
  show ?thesis by (rule md_high_blocks [OF h, unfolded m])
qed

text \<open>
  The files of different relations, and of different segments of one, have different names, whatever the numbers of the relations.
\<close>

theorem relation_files_distinct: "sname (relpath d m) i = sname (relpath d n) j \<longleftrightarrow> m = n \<and> i = j"
proof
  assume e: "sname (relpath d m) i = sname (relpath d n) j"
  then have "m = n" by (rule relpath_names)
  then show "m = n \<and> i = j" using e sname_inj by simp
qed simp



text \<open>
  Through fd.c: what \<open>file_write\<close> wrote at a known position, \<open>file_seek\<close> back and \<open>file_read\<close> read again, as far as the two
  transfers went, whichever descriptors had to be closed and opened again; other files and other open files are as before.
\<close>

theorem fd_write_read:
  assumes "posix_memory k fds pos ok files nm base limit" "fs_ok fds pos ok nm base st" "fd_view pos st e = Some v" "in_range v" "v_sure v"
    "files (os st) (v_name v) = Some bs"
  shows "\<exists>r st1 st2 r2 out st3. file_write k st e data = Inr (r, st1) \<and> file_seek k st1 e (v_loc v) SEEK_SET = Inr (v_loc v, st2) \<and>
    file_read k st2 e (int (length data)) = Inr (r2, out, st3) \<and> fs_ok fds pos ok nm base st3 \<and> -1 \<le> r \<and> r \<le> int (length data) \<and>
    (r2 = -1 \<or> 0 \<le> r2 \<and> length out = nat r2 \<and> take (nat r) out = take (nat r2) (take (nat r) data)) \<and>
    (\<forall>n. n \<noteq> v_name v \<longrightarrow> files (os st3) n = files (os st) n) \<and> (\<forall>i. i \<noteq> e \<longrightarrow> fv_le (fd_view pos st i) (fd_view pos st3 i))"
  by (rule posix_memory.write_read_fd [OF assms])

theorem fd_write_read_witness:
  "\<exists>st e r st1 st2 r2 out st3. file_write fk_kernel st e [1, 2, 3] = Inr (r, st1) \<and> file_seek fk_kernel st1 e 0 SEEK_SET = Inr (0, st2) \<and>
    file_read fk_kernel st2 e 3 = Inr (r2, out, st3) \<and> (r2 = -1 \<or> take (nat r) out = take (nat r2) (take (nat r) [1, 2, 3]))"
proof -
  have i: "fs_ok fk_fds fk_pos fk_ok kname {} (fk_start fk_disk)" using fk_initial(1) [of fk_disk] by (simp add: fk_initial(4))
  have rs: "\<exists>r s. f_open (fd_ops fk_kernel ''/pg'' 0) (fk_start fk_disk) ''/pg/base/1/2'' O_RDWR 384 = Inr (r, s) \<and> 0 \<le> r"
    using fk_opens [of "replicate BLCKSZ 7"] by (auto simp: fd_ops_def fk_disk_def split: sum.splits prod.splits)
  obtain e s1 where o: "fs_ok fk_fds fk_pos fk_ok kname {} s1" "opens (kfiles (os (fk_start fk_disk))) ''/pg/base/1/2'' O_RDWR (kfiles (os s1))"
    "fv_upd (fd_view fk_pos (fk_start fk_disk)) (fd_view fk_pos s1) e (Some \<lparr>v_name = ''/pg/base/1/2'', v_loc = 0, v_sure = True, v_tmp = False\<rparr>)"
    using fk.fdf.open_law [OF i fks.md.open_flags(1), of "''/pg''" 0 "''pg/base/1/2''" 384] rs by auto
  have d: "kfiles (os s1) ''/pg/base/1/2'' = Some (replicate BLCKSZ 7)" using o(2) by (simp add: opens_def fk_start_def fk_disk_def)
  obtain v where v: "fd_view fk_pos s1 e = Some v" "v_name v = ''/pg/base/1/2''" "v_loc v = 0" "v_sure v" using o(3) by (auto simp: fv_upd_def fv_le_Some)
  have rg: "in_range v" "kfiles (os s1) (v_name v) = Some (replicate BLCKSZ 7)" using v(2,3) d by (simp_all add: in_range_def)
  from fd_write_read [OF fk.posix_memory_axioms o(1) v(1) rg(1) v(4) rg(2), of "[1, 2, 3]"] show ?thesis unfolding v(3) by (simp del: take.simps) blast
qed

end
