(* ===== verification/Mctx.thy ===== *)
theory Mctx
  imports Links
begin

text \<open>
  Memory contexts, \<^verbatim>\<open>utils/mmgr/mctx.c\<close>. A context is a node at an address, linked to its parent and
  to its first child and next sibling; the operations of its type are the function table \<open>methods\<close>,
  functions on the memory \<open>'m\<close>. What the code reads and writes of memory directly (the chunk header in
  front of a pointer, \<open>malloc\<close>, a string) is a record of functions. The recursion over the tree has
  fuel; \<open>None\<close> is fuel that ran out.
\<close>

section \<open>Contexts\<close>

record 'm MemoryContextMethods =
  alloc_m :: "'m \<Rightarrow> nat \<Rightarrow> nat \<Rightarrow> (nat \<times> 'm) cres"
  free_m :: "'m \<Rightarrow> nat \<Rightarrow> nat \<Rightarrow> 'm cres"
  realloc_m :: "'m \<Rightarrow> nat \<Rightarrow> nat \<Rightarrow> nat \<Rightarrow> (nat \<times> 'm) cres"
  init_m :: "'m \<Rightarrow> nat \<Rightarrow> 'm"
  reset_m :: "'m \<Rightarrow> nat \<Rightarrow> 'm cres"
  delete_m :: "'m \<Rightarrow> nat \<Rightarrow> 'm cres"

datatype NodeTag = T_AllocSetContext | T_Other nat

record 'm MemoryContextData =
  ctype :: NodeTag
  methods :: "'m MemoryContextMethods"
  parent :: nat
  firstchild :: nat
  nextchild :: nat
  cname :: string

record 'm mctx =
  node :: "nat \<Rightarrow> 'm MemoryContextData"
  TopMemoryContext :: nat
  CurrentMemoryContext :: nat
  ErrorContext :: nat
  mem :: 'm

record 'm cmem =
  m_header :: "'m \<Rightarrow> nat \<Rightarrow> nat \<times> nat"
  m_malloc :: "'m \<Rightarrow> nat \<Rightarrow> nat \<times> 'm"
  m_store :: "'m \<Rightarrow> nat \<Rightarrow> string \<Rightarrow> 'm"

definition MAX_ALLOC_SIZE :: nat where "MAX_ALLOC_SIZE = 0x3fffffff"

definition ALLOC_SIZE_IS_VALID :: "nat \<Rightarrow> bool" where
  "ALLOC_SIZE_IS_VALID sz \<longleftrightarrow> 0 < sz \<and> sz \<le> MAX_ALLOC_SIZE"

definition STANDARD_CHUNK_HEADER_SIZE :: nat where "STANDARD_CHUNK_HEADER_SIZE = MAX_ALIGN 16"

definition MEMORY_CONTEXT_IS_VALID :: "'m mctx \<Rightarrow> nat \<Rightarrow> bool" where
  "MEMORY_CONTEXT_IS_VALID st c \<longleftrightarrow> c \<noteq> 0 \<and> ctype (node st c) = T_AllocSetContext"

definition upd_node :: "'m mctx \<Rightarrow> nat \<Rightarrow> ('m MemoryContextData \<Rightarrow> 'm MemoryContextData) \<Rightarrow> 'm mctx" where
  "upd_node st c f = st\<lparr>node := (node st)(c := f (node st c))\<rparr>"

definition lift_mem :: "'m mctx \<Rightarrow> 'm cres \<Rightarrow> 'm mctx cres option" where
  "lift_mem st r = Some (cbind r (\<lambda>m. Inr (st\<lparr>mem := m\<rparr>)))"

section \<open>Allocation and release\<close>

definition memory_context_alloc :: "'m mctx \<Rightarrow> nat \<Rightarrow> nat \<Rightarrow> (nat \<times> 'm mctx) cres" where
  "memory_context_alloc st c sz =
     c_assert (MEMORY_CONTEXT_IS_VALID st c)
       (if \<not> ALLOC_SIZE_IS_VALID sz then Inl Elog_ERROR
        else cbind (alloc_m (methods (node st c)) (mem st) c sz) (\<lambda>(p, m). Inr (p, st\<lparr>mem := m\<rparr>)))"

definition palloc :: "'m mctx \<Rightarrow> nat \<Rightarrow> (nat \<times> 'm mctx) cres" where
  "palloc st sz = memory_context_alloc st (CurrentMemoryContext st) sz"

definition memory_context_strdup :: "'m cmem \<Rightarrow> 'm mctx \<Rightarrow> nat \<Rightarrow> string \<Rightarrow> (nat \<times> 'm mctx) cres" where
  "memory_context_strdup cm st c s =
     cbind (memory_context_alloc st c (length s + 1))
       (\<lambda>(nstr, st1). Inr (nstr, st1\<lparr>mem := m_store cm (mem st1) nstr (s @ [CHR 0x00])\<rparr>))"

definition pfree :: "'m cmem \<Rightarrow> 'm mctx \<Rightarrow> nat \<Rightarrow> 'm mctx cres" where
  "pfree cm st pointer =
     c_assert (pointer \<noteq> 0) (c_assert (pointer = MAX_ALIGN pointer)
       (case m_header cm (mem st) (pointer - STANDARD_CHUNK_HEADER_SIZE) of (context, hsize) \<Rightarrow>
          c_assert (MEMORY_CONTEXT_IS_VALID st context)
            (cbind (free_m (methods (node st context)) (mem st) context pointer) (\<lambda>m. Inr (st\<lparr>mem := m\<rparr>)))))"

definition repalloc :: "'m cmem \<Rightarrow> 'm mctx \<Rightarrow> nat \<Rightarrow> nat \<Rightarrow> (nat \<times> 'm mctx) cres" where
  "repalloc cm st pointer sz =
     c_assert (pointer \<noteq> 0) (c_assert (pointer = MAX_ALIGN pointer)
       (case m_header cm (mem st) (pointer - STANDARD_CHUNK_HEADER_SIZE) of (context, hsize) \<Rightarrow>
          c_assert (MEMORY_CONTEXT_IS_VALID st context)
            (if \<not> ALLOC_SIZE_IS_VALID sz then Inl Elog_ERROR
             else cbind (realloc_m (methods (node st context)) (mem st) context pointer sz) (\<lambda>(p, m). Inr (p, st\<lparr>mem := m\<rparr>)))))"

definition memory_context_contains :: "'m cmem \<Rightarrow> 'm mctx \<Rightarrow> nat \<Rightarrow> nat \<Rightarrow> bool" where
  "memory_context_contains cm st c pointer =
     (if pointer = 0 \<or> pointer \<noteq> MAX_ALIGN pointer then False
      else case m_header cm (mem st) (pointer - STANDARD_CHUNK_HEADER_SIZE) of (context, hsize) \<Rightarrow>
        context = c \<and> ALLOC_SIZE_IS_VALID hsize)"

definition memory_context_switch_to :: "'m mctx \<Rightarrow> nat \<Rightarrow> (nat \<times> 'm mctx) cres" where
  "memory_context_switch_to st c =
     c_assert (MEMORY_CONTEXT_IS_VALID st c) (Inr (CurrentMemoryContext st, st\<lparr>CurrentMemoryContext := c\<rparr>))"

section \<open>Creation\<close>

definition memory_context_create ::
  "'m cmem \<Rightarrow> 'm mctx \<Rightarrow> NodeTag \<Rightarrow> nat \<Rightarrow> 'm MemoryContextMethods \<Rightarrow> nat \<Rightarrow> string \<Rightarrow> (nat \<times> 'm mctx) cres" where
  "memory_context_create cm st tag sz mths par name =
     (let needed = sz + length name + 1
      in cbind (if TopMemoryContext st \<noteq> 0 then memory_context_alloc st (TopMemoryContext st) needed
                else case m_malloc cm (mem st) needed of (p, m) \<Rightarrow> c_assert (p \<noteq> 0) (Inr (p, st\<lparr>mem := m\<rparr>)))
           (\<lambda>(nd, st1).
              let st2 = upd_node st1 nd (\<lambda>_. \<lparr>ctype = tag, methods = mths, parent = 0, firstchild = 0, nextchild = 0, cname = name\<rparr>);
                  st3 = st2\<lparr>mem := init_m mths (mem st2) nd\<rparr>
              in Inr (nd, if par \<noteq> 0 then
                   let st4 = upd_node st3 nd (\<lambda>x. x\<lparr>parent := par, nextchild := firstchild (node st3 par)\<rparr>)
                   in upd_node st4 par (\<lambda>x. x\<lparr>firstchild := nd\<rparr>)
                 else st3)))"

text \<open>\<open>finish\<close> is the rest of \<open>alloc_set_context_create\<close> on the new node, \<open>sizeof(AllocSetContext)\<close> is 160.\<close>

definition alloc_set_create ::
  "'m cmem \<Rightarrow> 'm MemoryContextMethods \<Rightarrow> ('m \<Rightarrow> nat \<Rightarrow> nat \<Rightarrow> nat \<Rightarrow> nat \<Rightarrow> 'm cres) \<Rightarrow> 'm mctx \<Rightarrow> nat \<Rightarrow> string \<Rightarrow>
   nat \<Rightarrow> nat \<Rightarrow> nat \<Rightarrow> (nat \<times> 'm mctx) cres" where
  "alloc_set_create cm AllocSetMethods finish st par name mn ini mx =
     cbind (memory_context_create cm st T_AllocSetContext 160 AllocSetMethods par name)
       (\<lambda>(c, st1). cbind (finish (mem st1) c mn ini mx) (\<lambda>m. Inr (c, st1\<lparr>mem := m\<rparr>)))"

definition memory_context_init ::
  "'m cmem \<Rightarrow> 'm MemoryContextMethods \<Rightarrow> ('m \<Rightarrow> nat \<Rightarrow> nat \<Rightarrow> nat \<Rightarrow> nat \<Rightarrow> 'm cres) \<Rightarrow> 'm mctx \<Rightarrow> 'm mctx cres" where
  "memory_context_init cm AllocSetMethods finish st =
     c_assert (TopMemoryContext st = 0)
       (cbind (alloc_set_create cm AllocSetMethods finish st 0 ''TopMemoryContext'' (8 * 1024) (8 * 1024) (8 * 1024)) (\<lambda>(top, st1).
          let st2 = st1\<lparr>TopMemoryContext := top, CurrentMemoryContext := top\<rparr>
          in cbind (alloc_set_create cm AllocSetMethods finish st2 top ''ErrorContext'' (8 * 1024) (8 * 1024) (8 * 1024))
               (\<lambda>(err, st3). Inr (st3\<lparr>ErrorContext := err\<rparr>))))"

section \<open>Reset and deletion of trees of contexts\<close>

fun memory_context_reset :: "nat \<Rightarrow> 'm mctx \<Rightarrow> nat \<Rightarrow> 'm mctx cres option"
  and memory_context_reset_children :: "nat \<Rightarrow> 'm mctx \<Rightarrow> nat \<Rightarrow> 'm mctx cres option"
  and reset_siblings :: "nat \<Rightarrow> 'm mctx \<Rightarrow> nat \<Rightarrow> 'm mctx cres option" where
  "memory_context_reset 0 st c = None"
| "memory_context_reset (Suc n) st c =
     r_assert (MEMORY_CONTEXT_IS_VALID st c)
       (rbind (memory_context_reset_children n st c) (\<lambda>st1.
          lift_mem st1 (reset_m (methods (node st1 c)) (mem st1) c)))"
| "memory_context_reset_children 0 st c = None"
| "memory_context_reset_children (Suc n) st c =
     r_assert (MEMORY_CONTEXT_IS_VALID st c) (reset_siblings n st (firstchild (node st c)))"
| "reset_siblings 0 st child = None"
| "reset_siblings (Suc n) st child =
     (if child \<noteq> 0 then rbind (memory_context_reset n st child) (\<lambda>st1. reset_siblings n st1 (nextchild (node st1 child)))
      else Some (Inr st))"

text \<open>The search for the sibling in front of \<open>c\<close> in \<open>memory_context_delete\<close>: 0 when there is none.\<close>

partial_function (option) find_prev :: "(nat \<Rightarrow> nat) \<Rightarrow> nat \<Rightarrow> nat \<Rightarrow> nat option" where
  "find_prev nxt c child =
     (if child \<noteq> 0 then if c = nxt child then Some child else find_prev nxt c (nxt child) else Some 0)"

definition delink :: "'m mctx \<Rightarrow> nat \<Rightarrow> 'm mctx option" where
  "delink st c =
     (let p = parent (node st c)
      in if p \<noteq> 0 then
           if c = firstchild (node st p) then Some (upd_node st p (\<lambda>x. x\<lparr>firstchild := nextchild (node st c)\<rparr>))
           else case find_prev (\<lambda>i. nextchild (node st i)) c (firstchild (node st p)) of None \<Rightarrow> None
             | Some child \<Rightarrow> Some (if child \<noteq> 0 then upd_node st child (\<lambda>x. x\<lparr>nextchild := nextchild (node st c)\<rparr>) else st)
         else Some st)"

fun memory_context_delete :: "'m cmem \<Rightarrow> nat \<Rightarrow> 'm mctx \<Rightarrow> nat \<Rightarrow> 'm mctx cres option"
  and memory_context_delete_children :: "'m cmem \<Rightarrow> nat \<Rightarrow> 'm mctx \<Rightarrow> nat \<Rightarrow> 'm mctx cres option"
  and delete_while :: "'m cmem \<Rightarrow> nat \<Rightarrow> 'm mctx \<Rightarrow> nat \<Rightarrow> 'm mctx cres option" where
  "memory_context_delete cm 0 st c = None"
| "memory_context_delete cm (Suc n) st c =
     r_assert (MEMORY_CONTEXT_IS_VALID st c) (r_assert (c \<noteq> TopMemoryContext st) (r_assert (c \<noteq> CurrentMemoryContext st)
       (rbind (memory_context_delete_children cm n st c) (\<lambda>st1.
          case delink st1 c of None \<Rightarrow> None
          | Some st2 \<Rightarrow> rbind (lift_mem st2 (delete_m (methods (node st2 c)) (mem st2) c)) (\<lambda>st3. Some (pfree cm st3 c))))))"
| "memory_context_delete_children cm 0 st c = None"
| "memory_context_delete_children cm (Suc n) st c = r_assert (MEMORY_CONTEXT_IS_VALID st c) (delete_while cm n st c)"
| "delete_while cm 0 st c = None"
| "delete_while cm (Suc n) st c =
     (if firstchild (node st c) \<noteq> 0
      then rbind (memory_context_delete cm n st (firstchild (node st c))) (\<lambda>st1. delete_while cm n st1 c)
      else Some (Inr st))"

definition memory_context_reset_and_delete_children :: "'m cmem \<Rightarrow> nat \<Rightarrow> 'm mctx \<Rightarrow> nat \<Rightarrow> 'm mctx cres option" where
  "memory_context_reset_and_delete_children cm n st c =
     r_assert (MEMORY_CONTEXT_IS_VALID st c)
       (rbind (memory_context_delete_children cm n st c) (\<lambda>st1. lift_mem st1 (reset_m (methods (node st1 c)) (mem st1) c)))"

section \<open>Trees\<close>

text \<open>The tree below a context: its address and the trees of its children.\<close>

datatype ctree = CNode nat "ctree list"

fun root :: "ctree \<Rightarrow> nat" where "root (CNode c ts) = c"

fun nodes_of :: "ctree \<Rightarrow> nat list" where "nodes_of (CNode c ts) = c # concat (map nodes_of ts)"

text \<open>The order in which contexts are reset and deleted: children first.\<close>

fun postorder :: "ctree \<Rightarrow> nat list" where "postorder (CNode c ts) = concat (map postorder ts) @ [c]"

fun fuel_for :: "ctree \<Rightarrow> nat" where "fuel_for (CNode c ts) = 3 + (\<Sum>t \<leftarrow> ts. Suc (fuel_for t))"

fun tree_ok :: "(nat \<Rightarrow> 'm MemoryContextData) \<Rightarrow> ctree \<Rightarrow> bool" where
  "tree_ok nd (CNode c ts) \<longleftrightarrow> c \<noteq> 0 \<and> ctype (nd c) = T_AllocSetContext \<and>
     path (\<lambda>i. nextchild (nd i)) (firstchild (nd c)) (map root ts) \<and>
     (\<forall>t \<in> set ts. tree_ok nd t \<and> parent (nd (root t)) = c)"

text \<open>A sequence of operations on memory that stops at the first error.\<close>

fun run_all :: "('m \<Rightarrow> nat \<Rightarrow> 'm cres) \<Rightarrow> 'm \<Rightarrow> nat list \<Rightarrow> 'm cres" where
  "run_all f m [] = Inr m"
| "run_all f m (c # cs) = cbind (f m c) (\<lambda>m1. run_all f m1 cs)"

lemma run_all_append: "run_all f m (xs @ ys) = cbind (run_all f m xs) (\<lambda>m1. run_all f m1 ys)"
proof (induction xs arbitrary: m)
  case (Cons x xs)
  then show ?case by (cases "f m x") auto
qed simp

lemma rbind_lift: "rbind (lift_mem st r) f = (case r of Inl e \<Rightarrow> Some (Inl e) | Inr m \<Rightarrow> f (st\<lparr>mem := m\<rparr>))"
  by (cases r) (simp_all add: rbind_def lift_mem_def)

lemma lift_mem_twice: "lift_mem (st\<lparr>mem := m\<rparr>) r = lift_mem st r"
  by (cases r) (simp_all add: lift_mem_def)

lemma lift_mem_Inl [simp]: "lift_mem st (Inl e) = Some (Inl e)"
  by (simp add: lift_mem_def)

lemma lift_mem_cbind: "lift_mem st (cbind r f) = (case r of Inl e \<Rightarrow> Some (Inl e) | Inr m \<Rightarrow> lift_mem st (f m))"
  by (cases r) (simp_all add: lift_mem_def)

text \<open>Resetting a tree runs the reset methods in postorder.\<close>

lemma tree_reset_ok:
  "tree_ok (node st) t \<Longrightarrow> fuel_for t \<le> n \<Longrightarrow>
   memory_context_reset n st (root t) = lift_mem st (run_all (\<lambda>m c. reset_m (methods (node st c)) m c) (mem st) (postorder t))"
proof (induction t arbitrary: n st)
  case (CNode c ts)
  let ?f = "\<lambda>m c. reset_m (methods (node st c)) m c"
  have sib: "reset_siblings k (st\<lparr>mem := m\<rparr>) i = lift_mem st (run_all ?f m (concat (map postorder us)))"
    if "path (\<lambda>i. nextchild (node st i)) i (map root us)" "set us \<subseteq> set ts" "1 + (\<Sum>t \<leftarrow> us. Suc (fuel_for t)) \<le> k" for us k m i
    using that
  proof (induction us arbitrary: k m i)
    case Nil
    then obtain k' where "k = Suc k'" by (cases k) auto
    then show ?case using Nil by (simp add: lift_mem_def)
  next
    case (Cons u us)
    then obtain k' where k: "k = Suc k'" by (cases k) auto
    have u: "tree_ok (node st) u" "u \<in> set ts" "i = root u" "root u \<noteq> 0" using Cons.prems CNode.prems(1) by auto
    have r: "memory_context_reset k' (st\<lparr>mem := m\<rparr>) (root u) = lift_mem st (run_all ?f m (postorder u))"
      using CNode.IH [OF u(2), of "st\<lparr>mem := m\<rparr>" k'] u(1) Cons.prems(3) k by (simp add: lift_mem_twice)
    have "reset_siblings k' (st\<lparr>mem := m1\<rparr>) (nextchild (node st (root u))) = lift_mem st (run_all ?f m1 (concat (map postorder us)))" for m1
      using Cons.prems k by (intro Cons.IH) auto
    then show ?case using k u(3,4)
      by (cases "run_all ?f m (postorder u)") (simp_all add: r rbind_lift run_all_append lift_mem_cbind)
  qed
  obtain n' where n: "n = Suc (Suc n')" "1 + (\<Sum>t \<leftarrow> ts. Suc (fuel_for t)) \<le> n'"
    using CNode.prems(2) by (intro that [of "n - 2"]) auto
  have v: "MEMORY_CONTEXT_IS_VALID st c" using CNode.prems(1) by (simp add: MEMORY_CONTEXT_IS_VALID_def)
  have "reset_siblings n' st (firstchild (node st c)) = lift_mem st (run_all ?f (mem st) (concat (map postorder ts)))"
    using sib [of "firstchild (node st c)" ts n' "mem st"] CNode.prems(1) n(2) by simp
  moreover have "cbind (reset_m (methods (node st c)) m c) Inr = reset_m (methods (node st c)) m c" for m
    by (cases "reset_m (methods (node st c)) m c") auto
  ultimately show ?case using v n(1)
    by (cases "run_all ?f (mem st) (concat (map postorder ts))")
      (simp_all add: r_assert_def rbind_lift run_all_append lift_mem_cbind lift_mem_twice)
qed

section \<open>Deletion\<close>

text \<open>Deleting one context: its delete method, then \<open>pfree\<close> of the node.\<close>

definition release :: "'m cmem \<Rightarrow> 'm mctx \<Rightarrow> 'm \<Rightarrow> nat \<Rightarrow> 'm cres" where
  "release cm st m c =
     cbind (delete_m (methods (node st c)) m c) (\<lambda>m1. cbind (pfree cm (st\<lparr>mem := m1\<rparr>) c) (\<lambda>st'. Inr (mem st')))"

definition same_kind :: "(nat \<Rightarrow> 'm MemoryContextData) \<Rightarrow> (nat \<Rightarrow> 'm MemoryContextData) \<Rightarrow> bool" where
  "same_kind nd nd' \<longleftrightarrow> (\<forall>i. ctype (nd i) = ctype (nd' i) \<and> methods (nd i) = methods (nd' i))"

lemma release_cong: "same_kind nd (node st) \<Longrightarrow> release cm (st\<lparr>node := nd\<rparr>) = release cm st"
  by (auto simp: fun_eq_iff release_def pfree_def same_kind_def MEMORY_CONTEXT_IS_VALID_def c_assert_def cbind_def
      split: sum.splits prod.splits if_splits)

lemma release_step:
  "rbind (lift_mem st (delete_m (methods (node st c)) m c)) (\<lambda>st3. Some (pfree cm st3 c)) = lift_mem st (release cm st m c)"
proof (cases "delete_m (methods (node st c)) m c")
  case (Inr m1)
  have "pfree cm (st\<lparr>mem := m1\<rparr>) c = cbind (pfree cm (st\<lparr>mem := m1\<rparr>) c) (\<lambda>st'. Inr (st\<lparr>mem := mem st'\<rparr>))"
    by (auto simp: pfree_def c_assert_def cbind_def split: sum.splits prod.splits)
  then show ?thesis using Inr by (cases "pfree cm (st\<lparr>mem := m1\<rparr>) c") (simp_all add: release_def lift_mem_def rbind_def)
qed (simp add: release_def lift_mem_def rbind_def)

lemma find_prev_ok:
  "path nxt i (ys @ c # zs) \<Longrightarrow> ys \<noteq> [] \<Longrightarrow> c \<notin> set ys \<Longrightarrow> find_prev nxt c i = Some (last ys)"
proof (induction ys arbitrary: i)
  case (Cons y ys)
  show ?case
  proof (cases "ys = []")
    case True
    then show ?thesis using Cons.prems by (subst find_prev.simps) auto
  next
    case False
    then have "nxt y \<noteq> c" using Cons.prems by (cases ys) auto
    then have "find_prev nxt c i = find_prev nxt c (nxt y)" using Cons.prems by (subst find_prev.simps) auto
    then show ?thesis using Cons False by auto
  qed
qed simp

text \<open>Links outside the removed tree: only the place that pointed to it has changed.\<close>

definition links_kept :: "(nat \<Rightarrow> 'm MemoryContextData) \<Rightarrow> (nat \<Rightarrow> 'm MemoryContextData) \<Rightarrow> nat \<Rightarrow> nat list \<Rightarrow> nat \<Rightarrow> bool" where
  "links_kept nd nd' p ys i \<longleftrightarrow> parent (nd' i) = parent (nd i) \<and> (i \<noteq> p \<longrightarrow> firstchild (nd' i) = firstchild (nd i)) \<and>
     (ys = [] \<or> i \<noteq> last ys \<longrightarrow> nextchild (nd' i) = nextchild (nd i))"

lemma delink_ok:
  assumes p: "parent (node st c) = p" and
    l: "p \<noteq> 0 \<Longrightarrow> path (\<lambda>i. nextchild (node st i)) (firstchild (node st p)) (ys @ c # zs) \<and> distinct (ys @ c # zs)"
  shows "\<exists>nd. delink st c = Some (st\<lparr>node := nd\<rparr>) \<and> same_kind nd (node st) \<and> (\<forall>i. links_kept (node st) nd p ys i) \<and>
    (p \<noteq> 0 \<longrightarrow> path (\<lambda>i. nextchild (nd i)) (firstchild (nd p)) (ys @ zs))"
proof (cases "p = 0")
  case True
  then show ?thesis using p by (intro exI [of _ "node st"]) (simp add: delink_def same_kind_def links_kept_def)
next
  case False
  then have P: "path (\<lambda>i. nextchild (node st i)) (firstchild (node st p)) (ys @ c # zs)" "distinct (ys @ c # zs)" using l by auto
  show ?thesis
  proof (cases ys)
    case Nil
    define nd where "nd = (node st)(p := (node st p)\<lparr>firstchild := nextchild (node st c)\<rparr>)"
    have "delink st c = Some (st\<lparr>node := nd\<rparr>)" using False P Nil p by (simp add: delink_def upd_node_def nd_def Let_def)
    moreover have "path (\<lambda>i. nextchild (nd i)) (firstchild (nd p)) (ys @ zs)"
    proof -
      have "(\<lambda>i. nextchild (nd i)) = (\<lambda>i. nextchild (node st i))" by (auto simp: nd_def)
      then show ?thesis using P(1) Nil by (simp add: nd_def)
    qed
    ultimately show ?thesis by (intro exI [of _ nd]) (auto simp: nd_def same_kind_def links_kept_def Nil)
  next
    case (Cons y ys')
    define q where "q = last ys"
    define nd where "nd = (node st)(q := (node st q)\<lparr>nextchild := nextchild (node st c)\<rparr>)"
    have ne: "c \<noteq> firstchild (node st p)" using P Cons by auto
    have "find_prev (\<lambda>i. nextchild (node st i)) c (firstchild (node st p)) = Some q"
      unfolding q_def by (rule find_prev_ok [OF P(1)]) (use Cons P(2) in auto)
    moreover have "q \<noteq> 0" using path_nonzero [OF P(1), of q] Cons by (simp add: q_def)
    ultimately have d: "delink st c = Some (st\<lparr>node := nd\<rparr>)" using False p ne by (simp add: delink_def upd_node_def nd_def Let_def)
    have "path (\<lambda>i. nextchild (nd i)) (nextchild (nd y)) (ys' @ zs)"
      by (rule path_remove [where m = "\<lambda>i. nextchild (node st i)" and x = c]) (use P Cons in \<open>auto simp: nd_def q_def\<close>)
    then have "path (\<lambda>i. nextchild (nd i)) (firstchild (nd p)) (ys @ zs)" using P Cons by (auto simp: nd_def)
    moreover have "same_kind nd (node st)" by (simp add: nd_def same_kind_def)
    moreover have "links_kept (node st) nd p ys i" for i by (auto simp: nd_def links_kept_def q_def Cons)
    ultimately show ?thesis using d by (intro exI [of _ nd]) simp
  qed
qed

lemma tree_ok_cong:
  "tree_ok nd t \<Longrightarrow>
   (\<And>i. i \<in> set (nodes_of t) \<Longrightarrow> ctype (nd' i) = ctype (nd i) \<and> firstchild (nd' i) = firstchild (nd i) \<and> nextchild (nd' i) = nextchild (nd i) \<and> parent (nd' i) = parent (nd i)) \<Longrightarrow>
   tree_ok nd' t"
proof (induction t rule: ctree.induct)
  case (CNode c ts)
  have root_in: "root t \<in> set (nodes_of t)" for t by (cases t) auto
  have sub: "i \<in> set (nodes_of (CNode c ts))" if "t \<in> set ts" "i \<in> set (nodes_of t)" for t i using that by auto
  have "path (\<lambda>i. nextchild (nd' i)) (firstchild (nd' c)) (map root ts) = path (\<lambda>i. nextchild (nd i)) (firstchild (nd c)) (map root ts)"
    using CNode.prems(2) sub root_in by (simp, intro path_cong) auto
  moreover have "tree_ok nd' t \<and> parent (nd' (root t)) = c" if t: "t \<in> set ts" for t
  proof
    show "tree_ok nd' t" using CNode.prems sub [OF t] by (intro CNode.IH [OF t]) (auto simp: t)
    show "parent (nd' (root t)) = c" using CNode.prems(1) CNode.prems(2) [OF sub [OF t root_in]] t by simp
  qed
  moreover have "ctype (nd' c) = ctype (nd c)" using CNode.prems(2) [of c] by simp
  ultimately show ?case using CNode.prems(1) by simp
qed

text \<open>A tree placed below \<open>p\<close> between the siblings \<open>ys\<close> and \<open>zs\<close>, and the result of deleting it.\<close>

definition placed :: "'m mctx \<Rightarrow> ctree \<Rightarrow> nat \<Rightarrow> nat list \<Rightarrow> nat list \<Rightarrow> bool" where
  "placed st t p ys zs \<longleftrightarrow> tree_ok (node st) t \<and> distinct (nodes_of t) \<and>
     TopMemoryContext st \<notin> set (nodes_of t) \<and> CurrentMemoryContext st \<notin> set (nodes_of t) \<and>
     parent (node st (root t)) = p \<and> p \<notin> set (nodes_of t) \<and>
     (p \<noteq> 0 \<longrightarrow> path (\<lambda>i. nextchild (node st i)) (firstchild (node st p)) (ys @ root t # zs) \<and> distinct (ys @ zs) \<and>
        set (ys @ zs) \<inter> set (nodes_of t) = {})"

definition deleted :: "'m cmem \<Rightarrow> 'm mctx \<Rightarrow> nat \<Rightarrow> ctree \<Rightarrow> nat \<Rightarrow> nat list \<Rightarrow> nat list \<Rightarrow> bool" where
  "deleted cm st n t p ys zs \<longleftrightarrow> (\<exists>nd.
     memory_context_delete cm n st (root t) = lift_mem (st\<lparr>node := nd\<rparr>) (run_all (release cm st) (mem st) (postorder t)) \<and>
     same_kind nd (node st) \<and> (\<forall>i. i \<notin> set (nodes_of t) \<longrightarrow> links_kept (node st) nd p ys i) \<and>
     (p \<noteq> 0 \<longrightarrow> path (\<lambda>i. nextchild (nd i)) (firstchild (nd p)) (ys @ zs)))"

lemma root_in_nodes: "root t \<in> set (nodes_of t)"
  by (cases t) simp

lemma roots_distinct: "distinct (concat (map nodes_of us)) \<Longrightarrow> distinct (map root us)"
proof (induction us)
  case (Cons u us)
  have "root v \<in> set (concat (map nodes_of us))" if "v \<in> set us" for v using that root_in_nodes [of v] by auto
  then have "root u \<notin> root ` set us" using Cons.prems root_in_nodes [of u] by auto
  then show ?case using Cons by simp
qed simp

lemma release_mem: "release cm (st\<lparr>mem := m\<rparr>) = release cm st"
proof -
  have "pfree cm (st\<lparr>mem := m, mem := m1\<rparr>) c = pfree cm (st\<lparr>mem := m1\<rparr>) c" for m1 c by simp
  then show ?thesis by (simp add: fun_eq_iff release_def)
qed

lemma delink_mem: "delink (st\<lparr>mem := m\<rparr>) c = map_option (\<lambda>s. s\<lparr>mem := m\<rparr>) (delink st c)"
  by (auto simp: delink_def upd_node_def Let_def split: option.splits)

lemma lift_mem_node: "lift_mem (st\<lparr>mem := m, node := nd\<rparr>) r = lift_mem (st\<lparr>node := nd\<rparr>) r"
  by (cases r) (simp_all add: lift_mem_def)

lemma delete_while_ok:
  assumes "\<forall>u \<in> set us. \<forall>st n p ys zs. placed st u p ys zs \<longrightarrow> fuel_for u \<le> n \<longrightarrow> deleted cm st n u p ys zs"
    and "path (\<lambda>i. nextchild (nd i)) (firstchild (nd c)) (map root us)" "distinct (c # concat (map nodes_of us))" "c \<noteq> 0"
    and "\<forall>u \<in> set us. tree_ok nd u \<and> parent (nd (root u)) = c" "same_kind nd (node st)"
    and "TopMemoryContext st \<notin> set (concat (map nodes_of us))" "CurrentMemoryContext st \<notin> set (concat (map nodes_of us))"
    and "1 + (\<Sum>t \<leftarrow> us. Suc (fuel_for t)) \<le> k"
  shows "\<exists>nd'. delete_while cm k (st\<lparr>node := nd, mem := m\<rparr>) c =
      lift_mem (st\<lparr>node := nd'\<rparr>) (run_all (release cm st) m (concat (map postorder us))) \<and>
    same_kind nd' nd \<and> (\<forall>i. i \<notin> set (concat (map nodes_of us)) \<longrightarrow> links_kept nd nd' c [] i) \<and> firstchild (nd' c) = 0"
  using assms
proof (induction us arbitrary: nd k m)
  case Nil
  then obtain k' where "k = Suc k'" by (cases k) auto
  then show ?case using Nil by (intro exI [of _ nd]) (simp add: lift_mem_def same_kind_def links_kept_def)
next
  case (Cons u us)
  obtain k' where k: "k = Suc k'" using Cons.prems(9) by (cases k) auto
  define s where "s = st\<lparr>node := nd, mem := m\<rparr>"
  have fc: "firstchild (nd c) = root u" "root u \<noteq> 0" using Cons.prems(2) by auto
  have roots: "distinct (map root us)" "set (map root us) \<inter> set (nodes_of u) = {}"
    using Cons.prems(3) root_in_nodes by (auto intro!: roots_distinct)
  have "placed s u c [] (map root us)"
    using Cons.prems fc roots by (auto simp: placed_def s_def)
  then have "deleted cm s k' u c [] (map root us)" using Cons.prems(1,9) k by auto
  then obtain nd1 where d: "memory_context_delete cm k' s (root u) = lift_mem (st\<lparr>node := nd1\<rparr>) (run_all (release cm st) m (postorder u))"
    and k1: "same_kind nd1 nd" and l1: "\<And>i. i \<notin> set (nodes_of u) \<Longrightarrow> links_kept nd nd1 c [] i"
    and p1: "path (\<lambda>i. nextchild (nd1 i)) (firstchild (nd1 c)) (map root us)"
    using Cons.prems(4,6) by (auto simp: deleted_def s_def lift_mem_node release_mem release_cong)
  have t1: "tree_ok nd1 v \<and> parent (nd1 (root v)) = c" if v: "v \<in> set us" for v
  proof -
    have o: "i \<notin> set (nodes_of u) \<and> i \<noteq> c" if "i \<in> set (nodes_of v)" for i using v that Cons.prems(3) by auto
    have "tree_ok nd1 v" using Cons.prems(5) v k1 l1 o by (intro tree_ok_cong [of nd v nd1]) (auto simp: links_kept_def same_kind_def)
    then show ?thesis using Cons.prems(5) v l1 [of "root v"] o [OF root_in_nodes] by (simp add: links_kept_def)
  qed
  have ih: "\<exists>nd'. delete_while cm k' (st\<lparr>node := nd1, mem := m1\<rparr>) c =
      lift_mem (st\<lparr>node := nd'\<rparr>) (run_all (release cm st) m1 (concat (map postorder us))) \<and>
    same_kind nd' nd1 \<and> (\<forall>i. i \<notin> set (concat (map nodes_of us)) \<longrightarrow> links_kept nd1 nd' c [] i) \<and> firstchild (nd' c) = 0" for m1
    using Cons.prems k1 t1 p1 k by (intro Cons.IH) (auto simp: same_kind_def)
  define m1 where "m1 = (case run_all (release cm st) m (postorder u) of Inl e \<Rightarrow> m | Inr m1 \<Rightarrow> m1)"
  obtain nd' where n: "delete_while cm k' (st\<lparr>node := nd1, mem := m1\<rparr>) c =
      lift_mem (st\<lparr>node := nd'\<rparr>) (run_all (release cm st) m1 (concat (map postorder us)))" "same_kind nd' nd1"
    "\<And>i. i \<notin> set (concat (map nodes_of us)) \<Longrightarrow> links_kept nd1 nd' c [] i" "firstchild (nd' c) = 0"
    using ih [of m1] by auto
  have "delete_while cm k s c = lift_mem (st\<lparr>node := nd'\<rparr>) (run_all (release cm st) m (concat (map postorder (u # us))))"
    using k fc d n(1) by (cases "run_all (release cm st) m (postorder u)")
      (simp_all add: s_def m1_def rbind_lift run_all_append lift_mem_cbind)
  moreover have "same_kind nd' nd" using n(2) k1 by (simp add: same_kind_def)
  moreover have "links_kept nd nd' c [] i" if "i \<notin> set (concat (map nodes_of (u # us)))" for i
    using n(3) [of i] l1 [of i] that by (auto simp: links_kept_def)
  ultimately show ?case using n(4) unfolding s_def by blast
qed

lemma tree_delete_ok: "placed st t p ys zs \<Longrightarrow> fuel_for t \<le> n \<Longrightarrow> deleted cm st n t p ys zs"
proof (induction t arbitrary: n st p ys zs)
  case (CNode c ts)
  let ?cs = "concat (map nodes_of ts)" and ?f = "release cm st"
  have pl: "tree_ok (node st) (CNode c ts)" "distinct (c # ?cs)" "TopMemoryContext st \<notin> set (c # ?cs)"
      "CurrentMemoryContext st \<notin> set (c # ?cs)" "parent (node st c) = p" "p \<notin> set (c # ?cs)"
    and sb: "p \<noteq> 0 \<Longrightarrow> path (\<lambda>i. nextchild (node st i)) (firstchild (node st p)) (ys @ c # zs) \<and> distinct (ys @ c # zs)"
      "p \<noteq> 0 \<Longrightarrow> set (ys @ c # zs) \<inter> set ?cs = {}"
    using CNode.prems(1) by (auto simp: placed_def)
  obtain n' where n: "n = Suc (Suc n')" "1 + (\<Sum>t \<leftarrow> ts. Suc (fuel_for t)) \<le> n'"
    using CNode.prems(2) by (intro that [of "n - 2"]) auto
  have v: "MEMORY_CONTEXT_IS_VALID st c" using pl(1) by (simp add: MEMORY_CONTEXT_IS_VALID_def)
  obtain nd1 where w: "delete_while cm n' (st\<lparr>node := node st, mem := mem st\<rparr>) c =
      lift_mem (st\<lparr>node := nd1\<rparr>) (run_all ?f (mem st) (concat (map postorder ts)))"
    and k1: "same_kind nd1 (node st)" and l1: "\<And>i. i \<notin> set ?cs \<Longrightarrow> links_kept (node st) nd1 c [] i"
    using delete_while_ok [of ts cm "node st" c st n' "mem st"] CNode.IH pl(1-4) n(2) by (auto simp: same_kind_def)
  have p1: "parent (nd1 c) = p" using l1 [of c] pl(2,5) by (simp add: links_kept_def)
  have s1: "path (\<lambda>i. nextchild (nd1 i)) (firstchild (nd1 p)) (ys @ c # zs) \<and> distinct (ys @ c # zs)" if "p \<noteq> 0"
  proof -
    have "path (\<lambda>i. nextchild (nd1 i)) (firstchild (node st p)) (ys @ c # zs) =
        path (\<lambda>i. nextchild (node st i)) (firstchild (node st p)) (ys @ c # zs)"
    proof (rule path_cong)
      fix x assume "x \<in> set (ys @ c # zs)"
      then have "x \<notin> set ?cs" using sb(2) [OF that] by blast
      then show "nextchild (nd1 x) = nextchild (node st x)" using l1 [of x] by (simp add: links_kept_def)
    qed
    moreover have "firstchild (nd1 p) = firstchild (node st p)" using l1 [of p] pl(6) by (simp add: links_kept_def)
    ultimately show ?thesis using sb(1) [OF that] by simp
  qed
  obtain nd2 where d: "delink (st\<lparr>node := nd1\<rparr>) c = Some (st\<lparr>node := nd2\<rparr>)" and k2: "same_kind nd2 nd1"
    and l2: "\<And>i. links_kept nd1 nd2 p ys i" and s2: "p \<noteq> 0 \<longrightarrow> path (\<lambda>i. nextchild (nd2 i)) (firstchild (nd2 p)) (ys @ zs)"
    using delink_ok [of "st\<lparr>node := nd1\<rparr>" c p ys zs] p1 s1 by auto
  have k: "same_kind nd2 (node st)" using k1 k2 by (simp add: same_kind_def)
  have step: "rbind (lift_mem (st\<lparr>node := nd2, mem := m\<rparr>) (delete_m (methods (nd2 c)) m c)) (\<lambda>st3. Some (pfree cm st3 c)) =
      lift_mem (st\<lparr>node := nd2\<rparr>) (?f m c)" for m
    using release_step [of "st\<lparr>node := nd2, mem := m\<rparr>" c m cm] by (simp add: lift_mem_twice release_mem release_cong [OF k])
  have one: "cbind (?f m c) Inr = ?f m c" for m by (cases "?f m c") auto
  have "memory_context_delete cm n st c = lift_mem (st\<lparr>node := nd2\<rparr>) (run_all ?f (mem st) (postorder (CNode c ts)))"
    using v n(1) pl(3,4) w by (cases "run_all ?f (mem st) (concat (map postorder ts))")
      (simp_all add: r_assert_def rbind_lift run_all_append lift_mem_cbind delink_mem d step [unfolded rbind_lift] one)
  moreover have "links_kept (node st) nd2 p ys i" if "i \<notin> set (nodes_of (CNode c ts))" for i
    using l1 [of i] l2 [of i] that by (auto simp: links_kept_def)
  ultimately show ?case using k s2 unfolding deleted_def by (auto intro!: exI [of _ nd2])
qed

section \<open>Correctness\<close>

text \<open>
  A concrete tree for the witnesses: memory is the log of the calls of its methods. Context 16 is
  \<open>TopMemoryContext\<close>; 32 is its child, with the children 48 and 64; all nodes are allocated in 16.
\<close>

definition log_methods :: "nat list MemoryContextMethods" where
  "log_methods = \<lparr>alloc_m = \<lambda>m c sz. Inr (96, m @ [c, sz]), free_m = \<lambda>m c p. Inr (m @ [c, p]),
     realloc_m = \<lambda>m c p sz. Inr (p, m @ [c, p, sz]), init_m = \<lambda>m c. m @ [c],
     reset_m = \<lambda>m c. Inr (m @ [c]), delete_m = \<lambda>m c. Inr (m @ [c])\<rparr>"

definition log_node :: "nat \<Rightarrow> nat \<Rightarrow> nat \<Rightarrow> nat list MemoryContextData" where
  "log_node p f x = \<lparr>ctype = T_AllocSetContext, methods = log_methods, parent = p, firstchild = f, nextchild = x, cname = ''c''\<rparr>"

definition log_state :: "nat list mctx" where
  "log_state = \<lparr>node = (\<lambda>_. log_node 0 0 0)(16 := log_node 0 80 0, 80 := log_node 16 0 32, 32 := log_node 16 48 0,
       48 := log_node 32 0 64, 64 := log_node 32 0 0),
     TopMemoryContext = 16, CurrentMemoryContext = 16, ErrorContext = 80, mem = []\<rparr>"

definition log_cmem :: "nat list cmem" where
  "log_cmem = \<lparr>m_header = \<lambda>m a. (16, 200), m_malloc = \<lambda>m sz. (96, m), m_store = \<lambda>m a s. m\<rparr>"

definition log_tree :: ctree where "log_tree = CNode 32 [CNode 48 [], CNode 64 []]"

lemmas log_defs = log_methods_def log_node_def log_state_def log_cmem_def log_tree_def

text \<open>
  C33. Resetting a context with enough fuel terminates and calls the reset method of every context
  of its tree exactly once, children before their parent and siblings in the order of the list, each on the memory
  the previous one left; it stops at the first error, and no context, link or global variable changes.
\<close>

theorem memory_context_reset_correct:
  assumes "tree_ok (node st) t" "fuel_for t \<le> n"
  shows "memory_context_reset n st (root t) =
    Some (cbind (run_all (\<lambda>m c. reset_m (methods (node st c)) m c) (mem st) (postorder t)) (\<lambda>m. Inr (st\<lparr>mem := m\<rparr>)))"
  using tree_reset_ok [OF assms] by (simp add: lift_mem_def)

theorem memory_context_reset_correct_witness:
  "tree_ok (node log_state) log_tree \<and> fuel_for log_tree \<le> 20 \<and>
   memory_context_reset 20 log_state 32 = Some (Inr (log_state\<lparr>mem := [48, 64, 32]\<rparr>))"
proof -
  have "tree_ok (node log_state) log_tree" "fuel_for log_tree \<le> 20" by (simp_all add: log_defs)
  then show ?thesis using memory_context_reset_correct [of log_state log_tree 20] by (simp add: log_defs)
qed

text \<open>
  C32. Deleting a context with enough fuel terminates. Every context of its tree is deleted exactly
  once, children before their parent: its delete method runs and its node is released by \<open>pfree\<close>. The first error
  stops the deletion. When all succeeds the context is gone from the child list of its parent, the
  order of its siblings is kept, and no other link of a context outside the tree has changed.
\<close>

theorem memory_context_delete_correct:
  assumes "placed st t p ys zs" "fuel_for t \<le> n"
  shows "\<exists>nd. memory_context_delete cm n st (root t) =
      Some (cbind (run_all (release cm st) (mem st) (postorder t)) (\<lambda>m. Inr (st\<lparr>node := nd, mem := m\<rparr>))) \<and>
    (p \<noteq> 0 \<longrightarrow> path (\<lambda>i. nextchild (nd i)) (firstchild (nd p)) (ys @ zs)) \<and>
    (\<forall>i. i \<notin> set (nodes_of t) \<longrightarrow> parent (nd i) = parent (node st i) \<and>
       (i \<noteq> p \<longrightarrow> firstchild (nd i) = firstchild (node st i)) \<and>
       (ys = [] \<or> i \<noteq> last ys \<longrightarrow> nextchild (nd i) = nextchild (node st i)))"
  using tree_delete_ok [OF assms, of cm] by (auto simp: deleted_def links_kept_def lift_mem_def)

lemma log_placed: "placed log_state log_tree 16 [80] []"
  by (simp add: placed_def log_defs)

theorem memory_context_delete_correct_witness:
  "placed log_state log_tree 16 [80] [] \<and> fuel_for log_tree \<le> 20 \<and>
   (\<exists>nd. memory_context_delete log_cmem 20 log_state 32 =
      Some (Inr (log_state\<lparr>node := nd, mem := [48, 16, 48, 64, 16, 64, 32, 16, 32]\<rparr>)) \<and>
    path (\<lambda>i. nextchild (nd i)) (firstchild (nd 16)) [80])"
proof -
  have f: "fuel_for log_tree \<le> 20" and r: "root log_tree = 32" by (simp_all add: log_tree_def)
  have "run_all (release log_cmem log_state) (mem log_state) (postorder log_tree) = Inr [48, 16, 48, 64, 16, 64, 32, 16, 32]"
    by (simp add: log_defs release_def pfree_def c_assert_def MAX_ALIGN_eq MEMORY_CONTEXT_IS_VALID_def)
  then show ?thesis using memory_context_delete_correct [OF log_placed f, of log_cmem] log_placed f r by auto
qed

text \<open>
  Once \<open>TopMemoryContext\<close> exists and the node has been allocated, creating a context makes it the
  first child of its parent, without children, and runs the init method of its type on the memory the
  allocation left; the tree stays well formed and no other context changes.
\<close>

theorem memory_context_create_correct:
  assumes "TopMemoryContext st \<noteq> 0"
    and "memory_context_alloc st (TopMemoryContext st) (sz + length name + 1) = Inr (nd, st1)"
    and "tree_ok (node st) (CNode par ts)" "distinct (nd # nodes_of (CNode par ts))" "nd \<noteq> 0"
  shows "\<exists>st'. memory_context_create cm st T_AllocSetContext sz mths par name = Inr (nd, st') \<and>
    tree_ok (node st') (CNode par (CNode nd [] # ts)) \<and> methods (node st' nd) = mths \<and> cname (node st' nd) = name \<and>
    mem st' = init_m mths (mem st1) nd \<and> (\<forall>i. i \<noteq> nd \<longrightarrow> i \<noteq> par \<longrightarrow> node st' i = node st i)"
proof -
  define nd' where "nd' = (node st)(
    nd := \<lparr>ctype = T_AllocSetContext, methods = mths, parent = par, firstchild = 0, nextchild = firstchild (node st par), cname = name\<rparr>,
    par := (node st par)\<lparr>firstchild := nd\<rparr>)"
  have st1: "node st1 = node st"
    using assms(2) by (auto simp: memory_context_alloc_def c_assert_def cbind_def split: if_splits sum.splits)
  have ne: "par \<noteq> 0" "par \<noteq> nd" using assms(3,4) by auto
  have c: "memory_context_create cm st T_AllocSetContext sz mths par name =
      Inr (nd, st1\<lparr>node := nd', mem := init_m mths (mem st1) nd\<rparr>)"
    using assms(1,2) ne st1 by (simp add: memory_context_create_def upd_node_def nd'_def Let_def)
  have out: "nd' i = node st i" if "i \<in> set (concat (map nodes_of ts))" for i using that assms(4) by (auto simp: nd'_def)
  have "tree_ok nd' t \<and> parent (nd' (root t)) = par" if t: "t \<in> set ts" for t
  proof -
    have o: "nd' i = node st i" if "i \<in> set (nodes_of t)" for i using out [of i] t that by auto
    have a: "tree_ok (node st) t" "parent (node st (root t)) = par" using assms(3) t by auto
    have "tree_ok nd' t" by (rule tree_ok_cong [OF a(1)]) (simp add: o)
    then show ?thesis using a(2) o [OF root_in_nodes] by simp
  qed
  moreover have "path (\<lambda>i. nextchild (nd' i)) (firstchild (nd' par)) (map root (CNode nd [] # ts))"
  proof -
    have "nextchild (nd' x) = nextchild (node st x)" if "x \<in> set (map root ts)" for x
      using that out root_in_nodes by fastforce
    then have "path (\<lambda>i. nextchild (nd' i)) (firstchild (node st par)) (map root ts)"
      using assms(3) path_cong [of "map root ts" "\<lambda>i. nextchild (nd' i)" "\<lambda>i. nextchild (node st i)"] by simp
    then show ?thesis using assms(5) ne by (simp add: nd'_def)
  qed
  ultimately have "tree_ok nd' (CNode par (CNode nd [] # ts))"
    using assms(3,5) ne by (auto simp: nd'_def)
  then show ?thesis using c ne by (auto simp: nd'_def)
qed

theorem memory_context_create_correct_witness:
  "memory_context_alloc log_state 16 163 = Inr (96, log_state\<lparr>mem := [16, 163]\<rparr>) \<and>
   tree_ok (node log_state) log_tree \<and>
   (\<exists>st'. memory_context_create log_cmem log_state T_AllocSetContext 160 log_methods 32 ''ab'' = Inr (96, st') \<and>
      tree_ok (node st') (CNode 32 [CNode 96 [], CNode 48 [], CNode 64 []]) \<and> mem st' = [16, 163, 96])"
proof -
  have a: "memory_context_alloc log_state 16 163 = Inr (96, log_state\<lparr>mem := [16, 163]\<rparr>)"
    by (simp add: log_defs memory_context_alloc_def c_assert_def MEMORY_CONTEXT_IS_VALID_def ALLOC_SIZE_IS_VALID_def MAX_ALLOC_SIZE_def)
  have t: "tree_ok (node log_state) log_tree" using log_placed by (simp add: placed_def)
  have "\<exists>st'. memory_context_create log_cmem log_state T_AllocSetContext 160 log_methods 32 ''ab'' = Inr (96, st') \<and>
      tree_ok (node st') (CNode 32 (CNode 96 [] # [CNode 48 [], CNode 64 []])) \<and> methods (node st' 96) = log_methods \<and>
      cname (node st' 96) = ''ab'' \<and> mem st' = init_m log_methods (mem (log_state\<lparr>mem := [16, 163]\<rparr>)) 96 \<and>
      (\<forall>i. i \<noteq> 96 \<longrightarrow> i \<noteq> 32 \<longrightarrow> node st' i = node log_state i)"
    by (rule memory_context_create_correct) (use a t in \<open>simp_all add: log_state_def log_tree_def\<close>)
  then show ?thesis using a t by (auto simp: log_methods_def)
qed

end
