(* ===== verification/PgList.thy ===== *)
theory PgList
  imports Links
begin

text \<open>
  Nodes and lists, \<^verbatim>\<open>nodes/nodes.c\<close> and \<^verbatim>\<open>nodes/list.c\<close>. A \<open>List\<close> cell and a \<open>Value\<close> have their tag
  at offset 0 and a 64-bit union at offset 8 (a pointer or an \<open>int\<close> in a cell, a \<open>long\<close> or a pointer in a
  value); a cell has its link at offset 16. With \<^verbatim>\<open>utils/palloc.h\<close> included, \<open>palloc\<close> is \<open>malloc\<close> and
  \<open>pfree\<close> is \<open>free\<close>, the parameters \<open>malloc\<close> and \<open>mfree\<close>. \<open>None\<close> is a walk along a cyclic list that does not end.
\<close>

section \<open>Nodes\<close>

record 'h nodes =
  n_type :: "nat \<Rightarrow> nat"
  n_word :: "nat \<Rightarrow> 64 word"
  n_next :: "nat \<Rightarrow> nat"
  n_heap :: 'h

definition T_Value :: nat where "T_Value = 500"
definition T_List :: nat where "T_List = 501"
definition T_Integer :: nat where "T_Integer = 502"
definition T_Float :: nat where "T_Float = 503"
definition T_String :: nat where "T_String = 504"

definition LFIRST :: "'h nodes \<Rightarrow> nat \<Rightarrow> 64 word" where "LFIRST st l = n_word st l"

definition LFIRSTI :: "'h nodes \<Rightarrow> nat \<Rightarrow> 32 word" where "LFIRSTI st l = ucast (n_word st l)"

definition set_LFIRST :: "nat \<Rightarrow> 64 word \<Rightarrow> 'h nodes \<Rightarrow> 'h nodes" where
  "set_LFIRST l d st = st\<lparr>n_word := (n_word st)(l := d)\<rparr>"

text \<open>A store to the \<open>int\<close> member of the union leaves the upper half alone.\<close>

definition set_LFIRSTI :: "nat \<Rightarrow> 32 word \<Rightarrow> 'h nodes \<Rightarrow> 'h nodes" where
  "set_LFIRSTI l d st = st\<lparr>n_word := (n_word st)(l := (n_word st l AND NOT (mask 32)) OR ucast d)\<rparr>"

definition set_LNEXT :: "nat \<Rightarrow> nat \<Rightarrow> 'h nodes \<Rightarrow> 'h nodes" where
  "set_LNEXT l p st = st\<lparr>n_next := (n_next st)(l := p)\<rparr>"

text \<open>The node is cleared before it is tagged; when \<open>malloc\<close> fails the clearing writes through NULL.\<close>

definition new_node :: "('h \<Rightarrow> nat \<Rightarrow> nat \<times> 'h) \<Rightarrow> 'h nodes \<Rightarrow> nat \<Rightarrow> nat \<Rightarrow> (nat \<times> 'h nodes) cres" where
  "new_node malloc st sz tag =
     c_assert (sz \<ge> 4)
       (case malloc (n_heap st) sz of (p, hp) \<Rightarrow>
          if p = 0 then Inl Bad_pointer
          else Inr (p, \<lparr>n_type = (n_type st)(p := tag),
            n_word = (if sz \<ge> 16 then (n_word st)(p := 0) else n_word st),
            n_next = (if sz \<ge> 24 then (n_next st)(p := 0) else n_next st), n_heap = hp\<rparr>))"

definition make_list_node :: "('h \<Rightarrow> nat \<Rightarrow> nat \<times> 'h) \<Rightarrow> 'h nodes \<Rightarrow> (nat \<times> 'h nodes) cres" where
  "make_list_node malloc st = new_node malloc st 24 T_List"

definition make_value_node :: "('h \<Rightarrow> nat \<Rightarrow> nat \<times> 'h) \<Rightarrow> 'h nodes \<Rightarrow> (nat \<times> 'h nodes) cres" where
  "make_value_node malloc st = new_node malloc st 16 T_Value"

definition make_integer :: "('h \<Rightarrow> nat \<Rightarrow> nat \<times> 'h) \<Rightarrow> 'h nodes \<Rightarrow> 64 word \<Rightarrow> (nat \<times> 'h nodes) cres" where
  "make_integer malloc st i = cbind (make_value_node malloc st)
     (\<lambda>(v, st1). Inr (v, st1\<lparr>n_type := (n_type st1)(v := T_Integer), n_word := (n_word st1)(v := i)\<rparr>))"

definition make_float :: "('h \<Rightarrow> nat \<Rightarrow> nat \<times> 'h) \<Rightarrow> 'h nodes \<Rightarrow> 64 word \<Rightarrow> (nat \<times> 'h nodes) cres" where
  "make_float malloc st numeric_str = cbind (make_value_node malloc st)
     (\<lambda>(v, st1). Inr (v, st1\<lparr>n_type := (n_type st1)(v := T_Float), n_word := (n_word st1)(v := numeric_str)\<rparr>))"

definition make_string :: "('h \<Rightarrow> nat \<Rightarrow> nat \<times> 'h) \<Rightarrow> 'h nodes \<Rightarrow> 64 word \<Rightarrow> (nat \<times> 'h nodes) cres" where
  "make_string malloc st str = cbind (make_value_node malloc st)
     (\<lambda>(v, st1). Inr (v, st1\<lparr>n_type := (n_type st1)(v := T_String), n_word := (n_word st1)(v := str)\<rparr>))"

section \<open>Construction\<close>

partial_function (option) length_loop :: "(nat \<Rightarrow> nat) \<Rightarrow> nat \<Rightarrow> 32 word \<Rightarrow> 32 word option" where
  "length_loop nxt l i = (if l \<noteq> 0 then length_loop nxt (nxt l) (i + 1) else Some i)"

definition list_length :: "'h nodes \<Rightarrow> nat \<Rightarrow> 32 word option" where
  "list_length st l = length_loop (n_next st) l 0"

partial_function (option) last_cell :: "(nat \<Rightarrow> nat) \<Rightarrow> nat \<Rightarrow> nat option" where
  "last_cell nxt temp = (if nxt temp \<noteq> 0 then last_cell nxt (nxt temp) else Some temp)"

definition nconc :: "'h nodes \<Rightarrow> nat \<Rightarrow> nat \<Rightarrow> (nat \<times> 'h nodes) cres option" where
  "nconc st list1 list2 =
     (if list1 = 0 then Some (Inr (list2, st))
      else if list2 = 0 then Some (Inr (list1, st))
      else if list1 = list2 then Some (Inl Elog_ERROR)
      else case last_cell (n_next st) list1 of None \<Rightarrow> None
        | Some temp \<Rightarrow> Some (Inr (list1, set_LNEXT list1 list2 st)))"

definition lcons :: "('h \<Rightarrow> nat \<Rightarrow> nat \<times> 'h) \<Rightarrow> 'h nodes \<Rightarrow> 64 word \<Rightarrow> nat \<Rightarrow> (nat \<times> 'h nodes) cres" where
  "lcons malloc st datum list =
     cbind (make_list_node malloc st) (\<lambda>(l, st1). Inr (l, set_LNEXT l list (set_LFIRST l datum st1)))"

definition lconsi :: "('h \<Rightarrow> nat \<Rightarrow> nat \<times> 'h) \<Rightarrow> 'h nodes \<Rightarrow> 32 word \<Rightarrow> nat \<Rightarrow> (nat \<times> 'h nodes) cres" where
  "lconsi malloc st datum list =
     cbind (make_list_node malloc st) (\<lambda>(l, st1). Inr (l, set_LNEXT l list (set_LFIRSTI l datum st1)))"

definition lappend :: "('h \<Rightarrow> nat \<Rightarrow> nat \<times> 'h) \<Rightarrow> 'h nodes \<Rightarrow> nat \<Rightarrow> 64 word \<Rightarrow> (nat \<times> 'h nodes) cres option" where
  "lappend malloc st list datum = rbind (Some (lcons malloc st datum 0)) (\<lambda>(l, st1). nconc st1 list l)"

definition lappendi :: "('h \<Rightarrow> nat \<Rightarrow> nat \<times> 'h) \<Rightarrow> 'h nodes \<Rightarrow> nat \<Rightarrow> 32 word \<Rightarrow> (nat \<times> 'h nodes) cres option" where
  "lappendi malloc st list datum = rbind (Some (lconsi malloc st datum 0)) (\<lambda>(l, st1). nconc st1 list l)"

text \<open>
  The variable arguments are a list that has to contain the terminator -1; reading past its end is
  undefined. \<open>temp_cons\<close> keeps the value NIL it is initialised with.
\<close>

fun make_list_loop :: "('h \<Rightarrow> nat \<Rightarrow> nat \<times> 'h) \<Rightarrow> 'h nodes \<Rightarrow> nat \<Rightarrow> nat \<Rightarrow> 64 word list \<Rightarrow> (nat \<times> 'h nodes) cres" where
  "make_list_loop malloc st retval temp_cons [] = Inl Bad_pointer"
| "make_list_loop malloc st retval temp_cons (temp # args) =
     (if temp \<noteq> -1 then
        cbind (lcons malloc st temp 0) (\<lambda>(t, st1).
          if temp_cons = 0 then make_list_loop malloc st1 t temp_cons args
          else make_list_loop malloc (set_LNEXT temp_cons t st1) retval temp_cons args)
      else Inr (retval, st))"

definition make_list :: "('h \<Rightarrow> nat \<Rightarrow> nat \<times> 'h) \<Rightarrow> 'h nodes \<Rightarrow> 64 word list \<Rightarrow> (nat \<times> 'h nodes) cres" where
  "make_list malloc st args = make_list_loop malloc st 0 0 args"

partial_function (option) copy_loop ::
  "('h \<Rightarrow> nat \<Rightarrow> nat \<times> 'h) \<Rightarrow> 'h nodes \<Rightarrow> nat \<Rightarrow> nat \<Rightarrow> 'h nodes cres option" where
  "copy_loop malloc st nl l =
     (if l \<noteq> 0 then
        case lcons malloc st (LFIRST st l) 0 of Inl e \<Rightarrow> Some (Inl e)
        | Inr r \<Rightarrow> let st2 = set_LNEXT nl (fst r) (snd r) in copy_loop malloc st2 (n_next st2 nl) (n_next st2 l)
      else Some (Inr st))"

definition list_copy :: "('h \<Rightarrow> nat \<Rightarrow> nat \<times> 'h) \<Rightarrow> 'h nodes \<Rightarrow> nat \<Rightarrow> (nat \<times> 'h nodes) cres option" where
  "list_copy malloc st list =
     (if list = 0 then Some (Inl Bad_pointer)
      else rbind (Some (lcons malloc st (LFIRST st list) 0)) (\<lambda>(nl, st1).
        rbind (copy_loop malloc st1 nl (n_next st1 list)) (\<lambda>st2. Some (Inr (nl, st2)))))"

section \<open>Access\<close>

fun walk :: "(nat \<Rightarrow> nat) \<Rightarrow> nat \<Rightarrow> nat \<Rightarrow> nat cres" where
  "walk nxt 0 l = (if l = 0 then Inl Bad_pointer else Inr l)"
| "walk nxt (Suc n) l = (if l = 0 then Inl Bad_pointer else walk nxt n (nxt l))"

definition nth_cell :: "'h nodes \<Rightarrow> int \<Rightarrow> nat \<Rightarrow> 64 word cres" where
  "nth_cell st n l = cbind (walk (n_next st) (nat n) l) (\<lambda>c. Inr (LFIRST st c))"

definition nthi :: "'h nodes \<Rightarrow> int \<Rightarrow> nat \<Rightarrow> 32 word cres" where
  "nthi st n l = cbind (walk (n_next st) (nat n) l) (\<lambda>c. Inr (LFIRSTI st c))"

definition set_nth :: "'h nodes \<Rightarrow> nat \<Rightarrow> int \<Rightarrow> 64 word \<Rightarrow> 'h nodes cres" where
  "set_nth st l n elem = cbind (walk (n_next st) (nat n) l) (\<lambda>c. Inr (set_LFIRST c elem st))"

definition member :: "'h nodes \<Rightarrow> 64 word \<Rightarrow> nat \<Rightarrow> bool" where
  "member st datum list = False"

partial_function (option) int_member :: "'h nodes \<Rightarrow> 32 word \<Rightarrow> nat \<Rightarrow> bool option" where
  "int_member st datum i =
     (if i \<noteq> 0 then if datum = LFIRSTI st i then Some True else int_member st datum (n_next st i) else Some False)"

section \<open>Removal\<close>

partial_function (option) find_cell :: "(64 word \<Rightarrow> bool) \<Rightarrow> 'h nodes \<Rightarrow> nat \<Rightarrow> nat \<Rightarrow> (nat \<times> nat) option" where
  "find_cell P st prev l =
     (if l \<noteq> 0 then if P (LFIRST st l) then Some (prev, l) else find_cell P st l (n_next st l) else Some (prev, 0))"

definition unlink_cell :: "'h nodes \<Rightarrow> nat \<Rightarrow> nat \<Rightarrow> nat \<Rightarrow> nat \<times> 'h nodes" where
  "unlink_cell st list prev l =
     (if l \<noteq> 0 then if prev = 0 then (n_next st l, st) else (list, set_LNEXT prev (n_next st l) st) else (list, st))"

definition lremove :: "'h nodes \<Rightarrow> 64 word \<Rightarrow> nat \<Rightarrow> (nat \<times> 'h nodes) option" where
  "lremove st elem list =
     (case find_cell (\<lambda>w. elem = w) st 0 list of None \<Rightarrow> None | Some (prev, l) \<Rightarrow> Some (unlink_cell st list prev l))"

text \<open>\<open>equal\<close> is the node comparison of \<^verbatim>\<open>nodes/equalfuncs.c\<close>.\<close>

definition lisp_remove :: "(64 word \<Rightarrow> 64 word \<Rightarrow> bool) \<Rightarrow> 'h nodes \<Rightarrow> 64 word \<Rightarrow> nat \<Rightarrow> (nat \<times> 'h nodes) option" where
  "lisp_remove equal st elem list =
     (case find_cell (equal elem) st 0 list of None \<Rightarrow> None | Some (prev, l) \<Rightarrow> Some (unlink_cell st list prev l))"

partial_function (option) truncate_loop :: "'h nodes \<Rightarrow> int \<Rightarrow> nat \<Rightarrow> 'h nodes option" where
  "truncate_loop st n ptr =
     (if ptr \<noteq> 0 then if n - 1 = 0 then Some (set_LNEXT ptr 0 st) else truncate_loop st (n - 1) (n_next st ptr) else Some st)"

definition ltruncate :: "'h nodes \<Rightarrow> int \<Rightarrow> nat \<Rightarrow> (nat \<times> 'h nodes) option" where
  "ltruncate st n list = (if n \<le> 0 then Some (0, st) else map_option (Pair list) (truncate_loop st n list))"

partial_function (option) free_list :: "('h \<Rightarrow> nat \<Rightarrow> 'h) \<Rightarrow> 'h nodes \<Rightarrow> nat \<Rightarrow> 'h nodes option" where
  "free_list mfree st list =
     (if list \<noteq> 0 then let l = list; list' = n_next st list in free_list mfree (st\<lparr>n_heap := mfree (n_heap st) l\<rparr>) list'
      else Some st)"

section \<open>Lists as sets\<close>

partial_function (option) difference_loop ::
  "('h \<Rightarrow> nat \<Rightarrow> nat \<times> 'h) \<Rightarrow> 'h nodes \<Rightarrow> nat \<Rightarrow> nat \<Rightarrow> nat \<Rightarrow> (nat \<times> 'h nodes) cres option" where
  "difference_loop malloc st list2 result i =
     (if i \<noteq> 0 then
        if \<not> member st (LFIRST st i) list2 then
          case lappend malloc st result (LFIRST st i) of None \<Rightarrow> None
          | Some r \<Rightarrow> (case r of Inl e \<Rightarrow> Some (Inl e) | Inr x \<Rightarrow> difference_loop malloc (snd x) list2 (fst x) (n_next (snd x) i))
        else difference_loop malloc st list2 result (n_next st i)
      else Some (Inr (result, st)))"

definition set_difference :: "('h \<Rightarrow> nat \<Rightarrow> nat \<times> 'h) \<Rightarrow> 'h nodes \<Rightarrow> nat \<Rightarrow> nat \<Rightarrow> (nat \<times> 'h nodes) cres option" where
  "set_difference malloc st list1 list2 =
     (if list2 = 0 then list_copy malloc st list1 else difference_loop malloc st list2 0 list1)"

partial_function (option) differencei_loop ::
  "('h \<Rightarrow> nat \<Rightarrow> nat \<times> 'h) \<Rightarrow> 'h nodes \<Rightarrow> nat \<Rightarrow> nat \<Rightarrow> nat \<Rightarrow> (nat \<times> 'h nodes) cres option" where
  "differencei_loop malloc st list2 result i =
     (if i \<noteq> 0 then
        case int_member st (LFIRSTI st i) list2 of None \<Rightarrow> None
        | Some m \<Rightarrow>
          if \<not> m then
            case lappendi malloc st result (LFIRSTI st i) of None \<Rightarrow> None
            | Some r \<Rightarrow> (case r of Inl e \<Rightarrow> Some (Inl e) | Inr x \<Rightarrow> differencei_loop malloc (snd x) list2 (fst x) (n_next (snd x) i))
          else differencei_loop malloc st list2 result (n_next st i)
      else Some (Inr (result, st)))"

definition set_differencei :: "('h \<Rightarrow> nat \<Rightarrow> nat \<times> 'h) \<Rightarrow> 'h nodes \<Rightarrow> nat \<Rightarrow> nat \<Rightarrow> (nat \<times> 'h nodes) cres option" where
  "set_differencei malloc st list1 list2 =
     (if list2 = 0 then list_copy malloc st list1 else differencei_loop malloc st list2 0 list1)"

partial_function (option) union_loop ::
  "('h \<Rightarrow> nat \<Rightarrow> nat \<times> 'h) \<Rightarrow> 'h nodes \<Rightarrow> nat \<Rightarrow> nat \<Rightarrow> (nat \<times> 'h nodes) cres option" where
  "union_loop malloc st retval i =
     (if i \<noteq> 0 then
        if \<not> member st (LFIRST st i) retval then
          case lappend malloc st retval (LFIRST st i) of None \<Rightarrow> None
          | Some r \<Rightarrow> (case r of Inl e \<Rightarrow> Some (Inl e) | Inr x \<Rightarrow> union_loop malloc (snd x) (fst x) (n_next (snd x) i))
        else union_loop malloc st retval (n_next st i)
      else Some (Inr (retval, st)))"

definition lisp_union :: "('h \<Rightarrow> nat \<Rightarrow> nat \<times> 'h) \<Rightarrow> 'h nodes \<Rightarrow> nat \<Rightarrow> nat \<Rightarrow> (nat \<times> 'h nodes) cres option" where
  "lisp_union malloc st list1 list2 = rbind (list_copy malloc st list1) (\<lambda>(retval, st1). union_loop malloc st1 retval list2)"

partial_function (option) unioni_loop ::
  "('h \<Rightarrow> nat \<Rightarrow> nat \<times> 'h) \<Rightarrow> 'h nodes \<Rightarrow> nat \<Rightarrow> nat \<Rightarrow> (nat \<times> 'h nodes) cres option" where
  "unioni_loop malloc st retval i =
     (if i \<noteq> 0 then
        case int_member st (LFIRSTI st i) retval of None \<Rightarrow> None
        | Some m \<Rightarrow>
          if \<not> m then
            case lappendi malloc st retval (LFIRSTI st i) of None \<Rightarrow> None
            | Some r \<Rightarrow> (case r of Inl e \<Rightarrow> Some (Inl e) | Inr x \<Rightarrow> unioni_loop malloc (snd x) (fst x) (n_next (snd x) i))
          else unioni_loop malloc st retval (n_next st i)
      else Some (Inr (retval, st)))"

definition lisp_unioni :: "('h \<Rightarrow> nat \<Rightarrow> nat \<times> 'h) \<Rightarrow> 'h nodes \<Rightarrow> nat \<Rightarrow> nat \<Rightarrow> (nat \<times> 'h nodes) cres option" where
  "lisp_unioni malloc st list1 list2 = rbind (list_copy malloc st list1) (\<lambda>(retval, st1). unioni_loop malloc st1 retval list2)"

partial_function (option) is_subseti :: "'h nodes \<Rightarrow> nat \<Rightarrow> nat \<Rightarrow> bool option" where
  "is_subseti st x list2 =
     (if x \<noteq> 0 then
        case int_member st (LFIRSTI st x) list2 of None \<Rightarrow> None
        | Some m \<Rightarrow> if \<not> m then Some False else is_subseti st (n_next st x) list2
      else Some True)"

partial_function (option) non_overlap_setsi :: "'h nodes \<Rightarrow> nat \<Rightarrow> nat \<Rightarrow> bool option" where
  "non_overlap_setsi st x list2 =
     (if x \<noteq> 0 then
        case int_member st (LFIRSTI st x) list2 of None \<Rightarrow> None
        | Some m \<Rightarrow> if m then Some False else non_overlap_setsi st (n_next st x) list2
      else Some True)"

partial_function (option) all_members :: "'h nodes \<Rightarrow> nat \<Rightarrow> nat \<Rightarrow> bool option" where
  "all_members st temp list2 =
     (if temp \<noteq> 0 then
        case int_member st (LFIRSTI st temp) list2 of None \<Rightarrow> None
        | Some m \<Rightarrow> if \<not> m then Some False else all_members st (n_next st temp) list2
      else Some True)"

definition same_seti :: "'h nodes \<Rightarrow> nat \<Rightarrow> nat \<Rightarrow> bool option" where
  "same_seti st list1 list2 =
     (if list1 = 0 then Some (list2 = 0)
      else if list2 = 0 then Some False
      else case list_length st list1 of None \<Rightarrow> None
        | Some n1 \<Rightarrow> (case list_length st list2 of None \<Rightarrow> None
          | Some n2 \<Rightarrow> if n1 \<noteq> n2 then Some False else all_members st list1 list2))"

lemmas list_loops [code] = length_loop.simps last_cell.simps int_member.simps find_cell.simps truncate_loop.simps
  free_list.simps copy_loop.simps difference_loop.simps differencei_loop.simps union_loop.simps unioni_loop.simps
  is_subseti.simps non_overlap_setsi.simps all_members.simps

section \<open>Walks\<close>

text \<open>The integers of a list, in order.\<close>

abbreviation ints :: "'h nodes \<Rightarrow> nat list \<Rightarrow> 32 word list" where "ints st xs \<equiv> map (LFIRSTI st) xs"

lemma length_loop_ok: "path nxt l xs \<Longrightarrow> length_loop nxt l i = Some (i + of_nat (length xs))"
proof (induction xs arbitrary: l i)
  case (Cons x xs)
  then have "length_loop nxt l i = length_loop nxt (nxt x) (i + 1)" by (subst length_loop.simps) simp
  then show ?case using Cons.IH [of "nxt x" "i + 1"] Cons.prems by (simp add: algebra_simps)
qed (subst length_loop.simps, simp)

lemma last_cell_ok: "path nxt (nxt a) xs \<Longrightarrow> last_cell nxt a = Some (last (a # xs))"
proof (induction xs arbitrary: a)
  case (Cons x xs)
  then have "last_cell nxt a = last_cell nxt x" by (subst last_cell.simps) simp
  then show ?case using Cons.IH [of x] Cons.prems by simp
qed (subst last_cell.simps, simp)

lemma int_member_ok: "path (n_next st) l xs \<Longrightarrow> int_member st d l = Some (d \<in> set (ints st xs))"
proof (induction xs arbitrary: l)
  case (Cons x xs)
  then show ?case using Cons.IH [of "n_next st x"] by (subst int_member.simps) auto
qed (subst int_member.simps, simp)

lemma is_subseti_ok:
  "path (n_next st) l xs \<Longrightarrow> path (n_next st) l2 ys \<Longrightarrow> is_subseti st l l2 = Some (set (ints st xs) \<subseteq> set (ints st ys))"
proof (induction xs arbitrary: l)
  case (Cons x xs)
  then show ?case using Cons.IH [of "n_next st x"] by (subst is_subseti.simps) (auto simp: int_member_ok)
qed (subst is_subseti.simps, simp)

lemma all_members_ok:
  "path (n_next st) l xs \<Longrightarrow> path (n_next st) l2 ys \<Longrightarrow> all_members st l l2 = Some (set (ints st xs) \<subseteq> set (ints st ys))"
proof (induction xs arbitrary: l)
  case (Cons x xs)
  then show ?case using Cons.IH [of "n_next st x"] by (subst all_members.simps) (auto simp: int_member_ok)
qed (subst all_members.simps, simp)

lemma non_overlap_setsi_ok:
  "path (n_next st) l xs \<Longrightarrow> path (n_next st) l2 ys \<Longrightarrow>
   non_overlap_setsi st l l2 = Some (set (ints st xs) \<inter> set (ints st ys) = {})"
proof (induction xs arbitrary: l)
  case (Cons x xs)
  then show ?case using Cons.IH [of "n_next st x"] by (subst non_overlap_setsi.simps) (auto simp: int_member_ok)
qed (subst non_overlap_setsi.simps, simp)

lemma subset_same_length:
  "distinct xs \<Longrightarrow> length xs = length ys \<Longrightarrow> set xs \<subseteq> set ys \<Longrightarrow> set xs = set ys"
  using card_mono [of "set ys" "set xs"] card_length [of ys] by (intro card_subset_eq) (simp_all add: distinct_card)

lemma same_seti_ok:
  assumes "path (n_next st) l xs" "path (n_next st) l2 ys" "distinct (ints st xs)" "distinct (ints st ys)"
    "length xs < 2 ^ 31" "length ys < 2 ^ 31"
  shows "same_seti st l l2 = Some (set (ints st xs) = set (ints st ys))"
proof -
  have e: "l = 0 \<longleftrightarrow> xs = []" "l2 = 0 \<longleftrightarrow> ys = []" using assms(1,2) by (cases xs; cases ys; auto)+
  have n: "(word_of_nat (length xs) :: 32 word) = word_of_nat (length ys) \<longleftrightarrow> length xs = length ys"
    using assms(5,6) by (simp add: word_of_nat_eq_iff take_bit_nat_eq_self)
  have "length xs = length ys" if "set (ints st xs) = set (ints st ys)"
    using distinct_card [OF assms(3)] distinct_card [OF assms(4)] that by simp
  moreover have "set (ints st xs) = set (ints st ys)" if "length xs = length ys" "set (ints st xs) \<subseteq> set (ints st ys)"
    using subset_same_length [OF assms(3), of "ints st ys"] that by simp
  ultimately show ?thesis
    using e n by (auto simp: same_seti_def list_length_def length_loop_ok [OF assms(1)] length_loop_ok [OF assms(2)] all_members_ok [OF assms(1,2)])
qed

lemma find_cell_found:
  "path (n_next st) l (ys @ x # zs) \<Longrightarrow> \<forall>y \<in> set ys. \<not> P (LFIRST st y) \<Longrightarrow> P (LFIRST st x) \<Longrightarrow>
   find_cell P st p l = Some (last (p # ys), x)"
proof (induction ys arbitrary: l p)
  case (Cons y ys)
  then have "find_cell P st p l = find_cell P st y (n_next st y)" by (subst find_cell.simps) simp
  then show ?case using Cons.IH [of "n_next st y" y] Cons.prems by simp
qed (subst find_cell.simps, simp)

lemma find_cell_none:
  "path (n_next st) l xs \<Longrightarrow> \<forall>y \<in> set xs. \<not> P (LFIRST st y) \<Longrightarrow> find_cell P st p l = Some (last (p # xs), 0)"
proof (induction xs arbitrary: l p)
  case (Cons y ys)
  then have "find_cell P st p l = find_cell P st y (n_next st y)" by (subst find_cell.simps) simp
  then show ?case using Cons.IH [of "n_next st y" y] Cons.prems by simp
qed (subst find_cell.simps, simp)

lemma unlink_cell_ok:
  assumes "path (n_next st) l (ys @ x # zs)" "distinct (ys @ x # zs)" "unlink_cell st l (last (0 # ys)) x = (l', st')"
  shows "path (n_next st') l' (ys @ zs) \<and> n_word st' = n_word st \<and> n_heap st' = n_heap st \<and>
    (\<forall>a. a \<notin> set ys \<longrightarrow> n_next st' a = n_next st a)"
proof (cases ys)
  case Nil
  then show ?thesis using assms by (auto simp: unlink_cell_def)
next
  case (Cons y ys')
  define q where "q = last ys"
  have q: "q \<in> set ys" "last (0 # ys) = q" using Cons by (auto simp: q_def)
  have nz: "q \<noteq> 0" "x \<noteq> 0" "l = y" using assms(1) Cons path_nonzero [OF assms(1)] q by auto
  have st': "l' = l" "st' = set_LNEXT q (n_next st x) st" using assms(3) q nz by (auto simp: unlink_cell_def)
  have "path (n_next st') (n_next st' y) (ys' @ zs)"
    by (rule path_remove [where m = "n_next st" and x = x]) (use assms Cons st' in \<open>auto simp: set_LNEXT_def q_def\<close>)
  then show ?thesis using assms(1) st' q nz Cons by (auto simp: set_LNEXT_def)
qed

lemma remove_first_ok:
  assumes "path (n_next st) l xs" "distinct xs"
  obtains prev x l' st' ys where "find_cell P st 0 l = Some (prev, x)" "unlink_cell st l prev x = (l', st')" "path (n_next st') l' ys"
    "n_word st' = n_word st" "\<forall>a. a \<notin> set xs \<longrightarrow> n_next st' a = n_next st a"
    "set ys \<subseteq> set xs" "\<forall>(f :: nat \<Rightarrow> 'v) v. (\<forall>c \<in> set xs. P (LFIRST st c) \<longleftrightarrow> f c = v) \<longrightarrow> map f ys = remove1 v (map f xs)"
proof (cases "\<exists>c \<in> set xs. P (LFIRST st c)")
  case True
  then obtain us x vs where x: "xs = us @ x # vs" "P (LFIRST st x)" "\<forall>y \<in> set us. \<not> P (LFIRST st y)"
    using split_list_first_prop [of xs "\<lambda>x. P (LFIRST st x)"] by auto
  obtain l' st' where u: "unlink_cell st l (last (0 # us)) x = (l', st')" by fastforce
  have p: "path (n_next st') l' (us @ vs)" "n_word st' = n_word st" "\<forall>a. a \<notin> set us \<longrightarrow> n_next st' a = n_next st a"
    using unlink_cell_ok [OF _ _ u] assms x(1) by auto
  have r: "map f (us @ vs) = remove1 v (map f xs)" if "\<forall>c \<in> set xs. P (LFIRST st c) \<longleftrightarrow> f c = v" for f :: "nat \<Rightarrow> 'v" and v
  proof -
    have "v \<notin> set (map f us)" "f x = v" using that x by auto
    then show ?thesis using x(1) by (simp add: remove1_append)
  qed
  show ?thesis
    by (rule that [of "last (0 # us)" x l' st' "us @ vs"]) (use find_cell_found [of st l us x vs P 0] assms(1) x u p r in auto)
next
  case False
  have r: "map f xs = remove1 v (map f xs)" if "\<forall>c \<in> set xs. P (LFIRST st c) \<longleftrightarrow> f c = v" for f :: "nat \<Rightarrow> 'v" and v
  proof -
    have "v \<notin> set (map f xs)" using that False by auto
    then show ?thesis by (rule remove1_idem [symmetric])
  qed
  show ?thesis
    by (rule that [of "last (0 # xs)" 0 l st xs]) (use find_cell_none [OF assms(1), of P 0] False assms(1) r in \<open>auto simp: unlink_cell_def\<close>)
qed

text \<open>The comparison that \<open>lisp_remove\<close> is given decides equality of some value of the elements.\<close>

locale element_comparison =
  fixes same :: "64 word \<Rightarrow> 64 word \<Rightarrow> bool" and value_of :: "64 word \<Rightarrow> 'v" and comparable :: "64 word \<Rightarrow> bool"
  assumes same_iff: "comparable x \<Longrightarrow> comparable y \<Longrightarrow> same x y \<longleftrightarrow> value_of x = value_of y"
begin

lemma lisp_remove_ok:
  assumes "path (n_next st) l xs" "distinct xs" "comparable e" "\<forall>c \<in> set xs. comparable (LFIRST st c)"
  shows "\<exists>l' st' ys. lisp_remove same st e l = Some (l', st') \<and> path (n_next st') l' ys \<and> n_word st' = n_word st \<and>
    map (\<lambda>c. value_of (LFIRST st' c)) ys = remove1 (value_of e) (map (\<lambda>c. value_of (LFIRST st c)) xs) \<and>
    set ys \<subseteq> set xs \<and> (\<forall>a. a \<notin> set xs \<longrightarrow> n_next st' a = n_next st a)"
proof -
  obtain prev x l' st' ys where r: "find_cell (same e) st 0 l = Some (prev, x)" "unlink_cell st l prev x = (l', st')"
    "path (n_next st') l' ys" "n_word st' = n_word st" "\<forall>a. a \<notin> set xs \<longrightarrow> n_next st' a = n_next st a"
    "set ys \<subseteq> set xs" "\<forall>(f :: nat \<Rightarrow> 'v) v. (\<forall>c \<in> set xs. same e (LFIRST st c) \<longleftrightarrow> f c = v) \<longrightarrow> map f ys = remove1 v (map f xs)"
    by (rule remove_first_ok [OF assms(1,2)])
  have s: "same e (LFIRST st c) \<longleftrightarrow> value_of (LFIRST st c) = value_of e" if "c \<in> set xs" for c using that assms(3,4) same_iff by auto
  have "map (\<lambda>c. value_of (LFIRST st c)) ys = remove1 (value_of e) (map (\<lambda>c. value_of (LFIRST st c)) xs)"
    by (rule r(7) [rule_format], rule s)
  moreover have "LFIRST st' = LFIRST st" using r(4) by (simp add: fun_eq_iff LFIRST_def)
  ultimately show ?thesis using r(1-6) by (intro exI [of _ l'] exI [of _ st'] exI [of _ ys]) (simp add: lisp_remove_def)
qed

end

lemma truncate_loop_ok:
  "path (n_next st) l xs \<Longrightarrow> 0 < n \<Longrightarrow>
   truncate_loop st n l = Some (if length xs < nat n then st else set_LNEXT (xs ! (nat n - 1)) 0 st)"
proof (induction xs arbitrary: l n)
  case (Cons x xs)
  show ?case
  proof (cases "n = 1")
    case True
    then show ?thesis using Cons.prems by (subst truncate_loop.simps) simp
  next
    case False
    then have "truncate_loop st n l = truncate_loop st (n - 1) (n_next st x)"
      using Cons.prems by (subst truncate_loop.simps) simp
    moreover have "nat n - 1 = Suc (nat (n - 1) - 1)" using False Cons.prems(2) by simp
    ultimately show ?thesis using Cons.IH [of "n_next st x" "n - 1"] Cons.prems False by auto
  qed
qed (subst truncate_loop.simps, simp)

lemma path_cut:
  "path m l xs \<Longrightarrow> distinct xs \<Longrightarrow> 0 < n \<Longrightarrow> n \<le> length xs \<Longrightarrow> path (m(xs ! (n - 1) := 0)) l (take n xs)"
proof (induction xs arbitrary: l n)
  case (Cons x xs)
  show ?case
  proof (cases "n = 1")
    case False
    then obtain k where k: "n = Suc k" "0 < k" "k \<le> length xs" using Cons.prems by (cases n) auto
    have "xs ! (k - 1) \<in> set xs" using k by simp
    then have "x \<noteq> xs ! (k - 1)" using Cons.prems(2) by auto
    moreover have "(x # xs) ! (n - 1) = xs ! (k - 1)" using k by (cases k) auto
    ultimately show ?thesis using Cons.IH [of "m x" k] Cons.prems k by simp
  qed (use Cons.prems in simp)
qed simp

section \<open>Copies\<close>

lemma lcons_eq:
  "malloc (n_heap st) 24 = (e, hp) \<Longrightarrow> lcons malloc st d r =
     (if e = 0 then Inl Bad_pointer
      else Inr (e, \<lparr>n_type = (n_type st)(e := T_List), n_word = (n_word st)(e := d), n_next = (n_next st)(e := r), n_heap = hp\<rparr>))"
  by (simp add: lcons_def make_list_node_def new_node_def set_LNEXT_def set_LFIRST_def c_assert_def)

lemma path_snoc:
  "path m h (ds @ [nl]) \<Longrightarrow> distinct (ds @ [nl]) \<Longrightarrow> e \<noteq> 0 \<Longrightarrow> e \<notin> set (ds @ [nl]) \<Longrightarrow>
   path (m(e := 0, nl := e)) h (ds @ [nl, e])"
proof (induction ds arbitrary: h)
  case (Cons x ds)
  then show ?case using Cons.IH [of "m x"] by auto
qed auto

text \<open>
  \<open>copied\<close>: memory \<open>st'\<close> has the live blocks of \<open>st\<close> as they were and new, linked cells \<open>ys\<close> with the elements of \<open>xs\<close>.
\<close>

definition copied ::
  "('h \<Rightarrow> nat \<rightharpoonup> nat) \<Rightarrow> ('h \<Rightarrow> bool) \<Rightarrow> 'h nodes \<Rightarrow> nat list \<Rightarrow> nat \<Rightarrow> nat list \<Rightarrow> 'h nodes \<Rightarrow> bool" where
  "copied blocks valid st xs l' ys st' \<longleftrightarrow> valid (n_heap st') \<and> path (n_next st') l' ys \<and> distinct ys \<and>
     map (n_word st') ys = map (n_word st) xs \<and>
     (\<forall>a \<in> set ys. blocks (n_heap st) a = None \<and> n_type st' a = T_List \<and> (\<exists>m \<ge> 24. blocks (n_heap st') a = Some m)) \<and>
     (\<forall>a m. blocks (n_heap st) a = Some m \<longrightarrow> blocks (n_heap st') a = Some m \<and>
        n_word st' a = n_word st a \<and> n_next st' a = n_next st a \<and> n_type st' a = n_type st a)"

context allocator
begin

lemma copy_loop_ok:
  assumes "copied blocks valid st0 ds h (ys @ [nl]) st" "path (n_next st) l xs" "\<forall>x \<in> set xs. blocks (n_heap st0) x \<noteq> None"
  shows "(copy_loop alloc st nl l = Some (Inl Bad_pointer) \<and> (\<exists>hp hp'. valid hp \<and> alloc hp 24 = (0, hp'))) \<or>
    (\<exists>st' zs. copy_loop alloc st nl l = Some (Inr st') \<and> copied blocks valid st0 (ds @ xs) h (ys @ nl # zs) st')"
  using assms
proof (induction xs arbitrary: st ds ys nl l)
  case Nil
  then have "copy_loop alloc st nl l = Some (Inr st)" by (subst copy_loop.simps) simp
  then show ?case using Nil by auto
next
  case (Cons x xs)
  obtain e hp where a: "alloc (n_heap st) 24 = (e, hp)" by fastforce
  have l: "l = x" "x \<noteq> 0" using Cons.prems(2) by auto
  have v: "valid (n_heap st)" using Cons.prems(1) by (simp add: copied_def)
  show ?case
  proof (cases "e = 0")
    case True
    then have "copy_loop alloc st nl l = Some (Inl Bad_pointer)" using l a by (subst copy_loop.simps) (simp add: lcons_eq [of alloc st, OF a])
    then show ?thesis using a True v by blast
  next
    case False
    obtain m where b: "valid hp" "blocks (n_heap st) e = None" "24 \<le> m" "blocks hp = (blocks (n_heap st))(e \<mapsto> m)"
      using alloc_block [OF v a False] by auto
    define st2 where "st2 = \<lparr>n_type = (n_type st)(e := T_List), n_word = (n_word st)(e := LFIRST st x),
      n_next = (n_next st)(e := 0, nl := e), n_heap = hp\<rparr>"
    have old: "blocks (n_heap st) c \<noteq> None \<and> c \<noteq> e \<and> c \<noteq> nl \<and> n_word st c = n_word st0 c" if "blocks (n_heap st0) c \<noteq> None" for c
    proof -
      obtain k where k: "blocks (n_heap st0) c = Some k" using \<open>blocks (n_heap st0) c \<noteq> None\<close> by blast
      then have "blocks (n_heap st) c = Some k" "n_word st c = n_word st0 c" using Cons.prems(1) unfolding copied_def by blast+
      moreover have "blocks (n_heap st0) nl = None" using Cons.prems(1) by (simp add: copied_def)
      ultimately show ?thesis using k b(2) by auto
    qed
    have ne: "e \<notin> set (ys @ [nl])"
    proof
      assume "e \<in> set (ys @ [nl])"
      then obtain k where "blocks (n_heap st) e = Some k" using Cons.prems(1) unfolding copied_def by blast
      then show False using b(2) by simp
    qed
    have step: "copy_loop alloc st nl l = copy_loop alloc st2 e (n_next st x)"
      using l False ne old [of x] Cons.prems(3)
      by (subst copy_loop.simps) (simp add: lcons_eq [of alloc st, OF a] set_LNEXT_def st2_def Let_def)
    have "copied blocks valid st0 (ds @ [x]) h ((ys @ [nl]) @ [e]) st2"
    proof -
      have "path (n_next st2) h ((ys @ [nl]) @ [e])"
        using path_snoc [of "n_next st" h ys nl e] Cons.prems(1) False ne by (simp add: copied_def st2_def)
      moreover have "map (n_word st2) ((ys @ [nl]) @ [e]) = map (n_word st0) (ds @ [x])"
      proof -
        have "map (n_word st2) (ys @ [nl]) = map (n_word st) (ys @ [nl])" using ne by (auto simp: st2_def)
        moreover have "map (n_word st) (ys @ [nl]) = map (n_word st0) ds" using Cons.prems(1) unfolding copied_def by blast
        moreover have "n_word st2 e = n_word st0 x" using Cons.prems(3) old [of x] by (simp add: st2_def LFIRST_def)
        ultimately show ?thesis by (simp only: map_append [of _ "ys @ [nl]"] map_append [of _ ds] list.map)
      qed
      moreover have "distinct ((ys @ [nl]) @ [e])" using ne Cons.prems(1) by (simp add: copied_def)
      moreover have "blocks (n_heap st0) c = None \<and> n_type st2 c = T_List \<and> (\<exists>m \<ge> 24. blocks (n_heap st2) c = Some m)"
        if "c \<in> set ((ys @ [nl]) @ [e])" for c
      proof (cases "c = e")
        case True
        moreover have "blocks (n_heap st0) e = None" using old by blast
        ultimately show ?thesis using b by (simp add: st2_def)
      next
        case False
        then have "c \<in> set (ys @ [nl])" using that by auto
        then show ?thesis using Cons.prems(1) False b(4) unfolding copied_def st2_def by auto
      qed
      moreover have "blocks (n_heap st2) c = Some k \<and> n_word st2 c = n_word st0 c \<and> n_next st2 c = n_next st0 c \<and> n_type st2 c = n_type st0 c"
        if "blocks (n_heap st0) c = Some k" for c k
        using old [of c] that Cons.prems(1) b(4) unfolding copied_def by (auto simp: st2_def)
      ultimately show ?thesis using b(1) unfolding copied_def st2_def by simp
    qed
    moreover have "path (n_next st2) (n_next st x) xs"
    proof -
      have "path (n_next st2) (n_next st x) xs = path (n_next st) (n_next st x) xs"
        using Cons.prems(3) old by (intro path_cong) (simp add: st2_def)
      then show ?thesis using Cons.prems(2) l by simp
    qed
    ultimately show ?thesis
      using Cons.IH [of "ds @ [x]" "ys @ [nl]" e st2 "n_next st x"] Cons.prems(3) by (auto simp: step)
  qed
qed

lemma list_copy_ok:
  assumes "valid (n_heap st)" "path (n_next st) l (x # xs)" "\<forall>c \<in> set (x # xs). blocks (n_heap st) c \<noteq> None"
  shows "(list_copy alloc st l = Some (Inl Bad_pointer) \<and> (\<exists>hp hp'. valid hp \<and> alloc hp 24 = (0, hp'))) \<or>
    (\<exists>l' ys st'. list_copy alloc st l = Some (Inr (l', st')) \<and> copied blocks valid st (x # xs) l' ys st')"
proof -
  obtain e hp where a: "alloc (n_heap st) 24 = (e, hp)" by fastforce
  have l: "l = x" "x \<noteq> 0" using assms(2) by auto
  show ?thesis
  proof (cases "e = 0")
    case True
    then show ?thesis using l a assms(1) by (auto simp: list_copy_def lcons_eq [of alloc st, OF a])
  next
    case False
    obtain m where b: "valid hp" "blocks (n_heap st) e = None" "24 \<le> m" "blocks hp = (blocks (n_heap st))(e \<mapsto> m)"
      using alloc_block [OF assms(1) a False] by auto
    define st1 where "st1 = \<lparr>n_type = (n_type st)(e := T_List), n_word = (n_word st)(e := LFIRST st x), n_next = (n_next st)(e := 0), n_heap = hp\<rparr>"
    have ne: "c \<noteq> e" if "blocks (n_heap st) c \<noteq> None" for c using that b(2) by auto
    have "copied blocks valid st [x] e ([] @ [e]) st1"
      using b False ne by (auto simp: copied_def st1_def LFIRST_def)
    moreover have "path (n_next st1) (n_next st1 x) xs"
    proof -
      have "path (n_next st1) (n_next st x) xs = path (n_next st) (n_next st x) xs"
        using assms(3) ne by (intro path_cong) (simp add: st1_def)
      then show ?thesis using assms(2,3) ne [of x] by (simp add: st1_def)
    qed
    ultimately show ?thesis
      using copy_loop_ok [of st "[x]" e "[]" e st1 "n_next st1 x" xs] assms(3) l False
      by (auto simp: list_copy_def lcons_eq [of alloc st, OF a] st1_def [symmetric])
  qed
qed

end

section \<open>Correctness\<close>

text \<open>Concrete lists: cells 32, 64, 96 with the elements 7, 8, 9, and cells 128, 160 with 9 and 7.\<close>

definition list0 :: "bump nodes" where
  "list0 = \<lparr>n_type = (\<lambda>_. T_List), n_word = (\<lambda>_. 0)(32 := 7, 64 := 8, 96 := 9, 128 := 9, 160 := 7),
     n_next = (\<lambda>_. 0)(32 := 64, 64 := 96, 128 := 160), n_heap = (1000, [32 \<mapsto> 24, 64 \<mapsto> 24, 96 \<mapsto> 24, 128 \<mapsto> 24, 160 \<mapsto> 24])\<rparr>"

lemma list0_ok:
  "path (n_next list0) 32 [32, 64, 96]" "path (n_next list0) 128 [128, 160]"
  "ints list0 [32, 64, 96] = [7, 8, 9]" "ints list0 [128, 160] = [9, 7]"
  "bump_valid (n_heap list0)" "\<forall>c \<in> set [32, 64, 96]. snd (n_heap list0) c \<noteq> None"
  by (auto simp: list0_def LFIRSTI_def bump_valid_def split: if_splits)

text \<open>
  C34. Copying a non-empty list whose cells are live ends. Either \<open>malloc\<close> has failed, and the
  code writes through NULL, or the result is a list of new \<open>List\<close> cells with the same elements
  in the same order, and every node that was live before is as it was.
\<close>

theorem list_copy_correct:
  assumes "allocator malloc mfree blocks valid" "valid (n_heap st)" "path (n_next st) l xs" "xs \<noteq> []"
    "\<forall>c \<in> set xs. blocks (n_heap st) c \<noteq> None"
  shows "(list_copy malloc st l = Some (Inl Bad_pointer) \<and> (\<exists>hp hp'. valid hp \<and> malloc hp 24 = (0, hp'))) \<or>
    (\<exists>l' ys st'. list_copy malloc st l = Some (Inr (l', st')) \<and> copied blocks valid st xs l' ys st')"
  using allocator.list_copy_ok [OF assms(1,2), of l "hd xs" "tl xs"] assms(3-5) by simp

lemma bump_alloc_nonzero: "bump_valid hp \<Longrightarrow> bump_alloc hp n \<noteq> (0, hp')"
  by (simp add: bump_alloc_def bump_valid_def)

theorem list_copy_correct_witness:
  "\<exists>l' ys st'. list_copy bump_alloc list0 32 = Some (Inr (l', st')) \<and> copied snd bump_valid list0 [32, 64, 96] l' ys st'"
  using list_copy_correct [OF bump_allocator list0_ok(5,1) _ list0_ok(6)]
  by (auto simp: bump_alloc_nonzero)

text \<open>
  On integer lists without duplicates and shorter than \<open>2^31\<close> the set routines end and decide what they
  say: \<open>int_member\<close> membership, \<open>same_seti\<close> equality of the sets, \<open>is_subseti\<close> inclusion and
  \<open>non_overlap_setsi\<close> disjointness.
\<close>

theorem integer_sets_correct:
  assumes "path (n_next st) list1 xs" "path (n_next st) list2 ys" "distinct (ints st xs)" "distinct (ints st ys)"
    "length xs < 2 ^ 31" "length ys < 2 ^ 31"
  shows "same_seti st list1 list2 = Some (set (ints st xs) = set (ints st ys)) \<and>
    is_subseti st list1 list2 = Some (set (ints st xs) \<subseteq> set (ints st ys)) \<and>
    non_overlap_setsi st list1 list2 = Some (set (ints st xs) \<inter> set (ints st ys) = {}) \<and>
    int_member st d list1 = Some (d \<in> set (ints st xs))"
  using same_seti_ok [OF assms] is_subseti_ok [OF assms(1,2)] non_overlap_setsi_ok [OF assms(1,2)] int_member_ok [OF assms(1), of d] by simp

theorem integer_sets_correct_witness:
  "same_seti list0 32 128 = Some False \<and> is_subseti list0 32 128 = Some False \<and>
   non_overlap_setsi list0 32 128 = Some False \<and> int_member list0 8 32 = Some True"
proof -
  have "distinct (ints list0 [32, 64, 96])" "distinct (ints list0 [128, 160])" by (simp_all only: list0_ok) simp_all
  moreover have "(8 :: 32 word) \<notin> {9, 7}" by simp
  then have "{7, 8, 9 :: 32 word} \<noteq> {9, 7}" by blast
  ultimately show ?thesis
    using integer_sets_correct [OF list0_ok(1,2), of 8] by (simp only: list0_ok) simp
qed

text \<open>
  \<open>lremove\<close> ends and takes the first cell with the given pointer out of the list, \<open>ltruncate\<close>
  ends and keeps the first \<open>n\<close> cells; both keep the order and the elements of the cells that remain.
\<close>

theorem lremove_ltruncate_correct:
  assumes "path (n_next st) l xs" "distinct xs"
  shows "(\<exists>l' st' ys. lremove st e l = Some (l', st') \<and> path (n_next st') l' ys \<and> n_word st' = n_word st \<and>
      map (LFIRST st') ys = remove1 e (map (LFIRST st) xs) \<and> (\<forall>a. a \<notin> set xs \<longrightarrow> n_next st' a = n_next st a)) \<and>
    (\<exists>l' st'. ltruncate st n l = Some (l', st') \<and> path (n_next st') l' (take (nat n) xs) \<and> n_word st' = n_word st \<and>
      (\<forall>a. a \<notin> set xs \<longrightarrow> n_next st' a = n_next st a))"
proof
  show "\<exists>l' st' ys. lremove st e l = Some (l', st') \<and> path (n_next st') l' ys \<and> n_word st' = n_word st \<and>
      map (LFIRST st') ys = remove1 e (map (LFIRST st) xs) \<and> (\<forall>a. a \<notin> set xs \<longrightarrow> n_next st' a = n_next st a)"
  proof -
    obtain prev x l' st' ys where r: "find_cell (\<lambda>w. e = w) st 0 l = Some (prev, x)" "unlink_cell st l prev x = (l', st')"
      "path (n_next st') l' ys" "n_word st' = n_word st" "\<forall>a. a \<notin> set xs \<longrightarrow> n_next st' a = n_next st a"
      "set ys \<subseteq> set xs" "\<forall>(f :: nat \<Rightarrow> 64 word) v. (\<forall>c \<in> set xs. e = LFIRST st c \<longleftrightarrow> f c = v) \<longrightarrow> map f ys = remove1 v (map f xs)"
      by (rule remove_first_ok [OF assms])
    have "map (LFIRST st) ys = remove1 e (map (LFIRST st) xs)" by (rule r(7) [rule_format]) auto
    moreover have "LFIRST st' = LFIRST st" using r(4) by (simp add: fun_eq_iff LFIRST_def)
    ultimately show ?thesis using r(1-5) by (intro exI [of _ l'] exI [of _ st'] exI [of _ ys]) (simp add: lremove_def)
  qed
  show "\<exists>l' st'. ltruncate st n l = Some (l', st') \<and> path (n_next st') l' (take (nat n) xs) \<and> n_word st' = n_word st \<and>
      (\<forall>a. a \<notin> set xs \<longrightarrow> n_next st' a = n_next st a)"
  proof (cases "0 < n \<and> nat n \<le> length xs")
    case True
    then have "path ((n_next st)(xs ! (nat n - 1) := 0)) l (take (nat n) xs)" using path_cut [OF assms, of "nat n"] by simp
    moreover have "xs ! (nat n - 1) \<in> set xs" using True by (intro nth_mem) linarith
    ultimately show ?thesis using True truncate_loop_ok [OF assms(1), of n] by (auto simp: ltruncate_def set_LNEXT_def)
  next
    case False
    then show ?thesis using assms(1) truncate_loop_ok [OF assms(1), of n] by (auto simp: ltruncate_def)
  qed
qed

theorem lremove_ltruncate_correct_witness:
  "(\<exists>l' st' ys. lremove list0 8 32 = Some (l', st') \<and> path (n_next st') l' ys \<and> map (LFIRST st') ys = [7, 9]) \<and>
   (\<exists>l' st'. ltruncate list0 2 32 = Some (l', st') \<and> path (n_next st') l' [32, 64])"
proof -
  have "remove1 8 (map (LFIRST list0) [32, 64, 96]) = [7, 9]" "take (nat 2) [32, 64, 96 :: nat] = [32, 64]" "distinct [32, 64, 96 :: nat]"
    by (simp_all add: list0_def LFIRST_def)
  then show ?thesis using lremove_ltruncate_correct [OF list0_ok(1), of 8 2] by metis
qed

text \<open>
  \<open>nconc\<close> links the second list behind the first cell of the first list: of a first list with more than one
  element all but the first are lost, so that the result is not the concatenation.
\<close>

theorem nconc_loses_elements:
  assumes "path (n_next st) list1 (x # xs)" "path (n_next st) list2 (y # ys)" "x \<notin> set (y # ys)"
  shows "\<exists>st'. nconc st list1 list2 = Some (Inr (list1, st')) \<and> path (n_next st') list1 (x # y # ys) \<and>
    map (LFIRST st') (x # y # ys) = LFIRST st x # map (LFIRST st) (y # ys) \<and>
    (map (LFIRST st') (x # y # ys) = map (LFIRST st) (x # xs) @ map (LFIRST st) (y # ys) \<longleftrightarrow> xs = [])"
proof -
  have l: "list1 = x" "list2 = y" "x \<noteq> 0" "y \<noteq> 0" "x \<noteq> y" using assms by auto
  have "last_cell (n_next st) list1 = Some (last (x # xs))" using last_cell_ok [of "n_next st" x xs] assms(1) by simp
  then have n: "nconc st list1 list2 = Some (Inr (list1, set_LNEXT x y st))" using l by (simp add: nconc_def)
  have "path ((n_next st)(x := y)) y (y # ys) = path (n_next st) y (y # ys)" using assms(3) by (intro path_cong) auto
  then have "path (n_next (set_LNEXT x y st)) list1 (x # y # ys)" using assms(2) l by (simp add: set_LNEXT_def)
  moreover have "LFIRST (set_LNEXT x y st) = LFIRST st" by (simp add: fun_eq_iff LFIRST_def set_LNEXT_def)
  ultimately show ?thesis using n by (intro exI [of _ "set_LNEXT x y st"]) auto
qed

theorem nconc_loses_elements_witness:
  "\<exists>st'. nconc list0 32 128 = Some (Inr (32, st')) \<and> path (n_next st') 32 [32, 128, 160]"
  using nconc_loses_elements [OF list0_ok(1,2)] by auto

end
