(* ===== verification/HeapTuple.thy ===== *)
theory HeapTuple
  imports Prelude
begin

text \<open>
  Heap tuples, \<^verbatim>\<open>access/common/heaptuple.c\<close>, with the macros of \<^verbatim>\<open>htup.h\<close>, \<^verbatim>\<open>tupmacs.h\<close>, \<^verbatim>\<open>heapam.h\<close> and the
  varlena macros of \<^verbatim>\<open>postgres.h\<close>. Memory is bytes: the tuple header, its null bitmap, the attribute
  data and the values that a datum points to. A datum is a 64-bit word. The arrays \<open>attrs\<close>, \<open>value\<close> and
  \<open>nulls\<close> are lists; a tuple handle (\<open>HeapTupleData\<close>) is a record with its address. \<open>palloc\<close> is a
  parameter. The file still calls some routines by the names they had before they were renamed (\<open>DataFill\<close>
  for \<open>data_fill\<close>, and so on); they are read as the renamed ones.
\<close>

section \<open>Attributes\<close>

record pg_attribute =
  attrelid :: "32 word"
  attname :: "byte list"
  atttypid :: "32 word"
  attdispersion :: "32 word"
  attlen :: int
  att_attnum :: int
  attnelems :: int
  attcacheoff :: int
  atttypmod :: int
  attbyval :: bool
  attstorage :: char
  attisset :: bool
  attalign :: char
  attnotnull :: bool
  atthasdef :: bool

type_synonym column = "pg_attribute \<times> 64 word \<times> char"

definition get64 :: "mem \<Rightarrow> nat \<Rightarrow> 64 word" where
  "get64 m a = ucast (get32 m a) OR push_bit 32 (ucast (get32 m (a + 4)))"

definition put64 :: "mem \<Rightarrow> nat \<Rightarrow> 64 word \<Rightarrow> mem" where
  "put64 m a w = put32 (put32 m a (ucast w)) (a + 4) (ucast (drop_bit 32 w))"

definition VARATT_SIZE :: "mem \<Rightarrow> nat \<Rightarrow> nat" where "VARATT_SIZE m p = unat (get32 m p AND 0x3fffffff)"

definition VARATT_IS_EXTERNAL :: "mem \<Rightarrow> nat \<Rightarrow> bool" where "VARATT_IS_EXTERNAL m p \<longleftrightarrow> get32 m p AND 0x80000000 \<noteq> 0"

definition VARATT_IS_COMPRESSED :: "mem \<Rightarrow> nat \<Rightarrow> bool" where "VARATT_IS_COMPRESSED m p \<longleftrightarrow> get32 m p AND 0x40000000 \<noteq> 0"

definition ATT_ALIGN :: "nat \<Rightarrow> int \<Rightarrow> char \<Rightarrow> nat" where
  "ATT_ALIGN cur_offset len al =
     (if al = CHR ''i'' then INT_ALIGN cur_offset else if al = CHR ''c'' then cur_offset
      else if al = CHR ''d'' then DOUBLE_ALIGN cur_offset else SHORT_ALIGN cur_offset)"

definition ATT_ADD_LENGTH :: "mem \<Rightarrow> nat \<Rightarrow> int \<Rightarrow> nat \<Rightarrow> nat" where
  "ATT_ADD_LENGTH m cur_offset len attval = (if len \<noteq> -1 then nat (int cur_offset + len) else cur_offset + VARATT_SIZE m attval)"

definition ATT_IS_NULL :: "mem \<Rightarrow> nat \<Rightarrow> nat \<Rightarrow> bool" where
  "ATT_IS_NULL m att bits \<longleftrightarrow> m (bits + att div 8) AND push_bit (att mod 8) 1 = 0"

definition FETCH_ATT :: "mem \<Rightarrow> pg_attribute \<Rightarrow> nat \<Rightarrow> 64 word" where
  "FETCH_ATT m a t =
     (if attbyval a then
        if attlen a = 8 then get64 m t
        else if attlen a = 4 then ucast (get32 m t)
        else if attlen a = 2 then ucast (get16 m t)
        else ucast (m t)
      else of_nat t)"

definition STORE_ATT_BY_VAL :: "mem \<Rightarrow> nat \<Rightarrow> 64 word \<Rightarrow> int \<Rightarrow> mem cres" where
  "STORE_ATT_BY_VAL m t newdatum len =
     (if len = 1 then Inr (m(t := ucast newdatum))
      else if len = 2 then Inr (put16 m t (ucast newdatum))
      else if len = 4 then Inr (put32 m t (ucast newdatum))
      else if len = 8 then Inr (put64 m t newdatum)
      else Inl Elog_ERROR)"

section \<open>Tuples\<close>

record HeapTupleData =
  t_addr :: nat
  t_len :: nat
  t_self :: "32 word \<times> 16 word"
  t_table_oid :: "32 word"
  t_data_mcxt :: nat
  t_data :: nat

definition HEAP_TUPLE_SIZE :: nat where "HEAP_TUPLE_SIZE = MAX_ALIGN 32"
definition MAX_HEAP_ATTRIBUTE_NUMBER :: nat where "MAX_HEAP_ATTRIBUTE_NUMBER = 1600"

text \<open>Offsets of the fields of \<open>HeapTupleHeaderData\<close>: \<open>t_oid\<close> is at 0, \<open>t_ctid\<close> at 20.\<close>

definition T_NATTS :: nat where "T_NATTS = 26"
definition T_INFO_MASK :: nat where "T_INFO_MASK = 28"
definition T_HOFF :: nat where "T_HOFF = 30"
definition T_BITS :: nat where "T_BITS = 31"

definition HEAP_HASNULL :: "16 word" where "HEAP_HASNULL = 0x0001"
definition HEAP_HASVARLENA :: "16 word" where "HEAP_HASVARLENA = 0x0002"
definition HEAP_HASEXTERNAL :: "16 word" where "HEAP_HASEXTERNAL = 0x0004"
definition HEAP_HASCOMPRESSED :: "16 word" where "HEAP_HASCOMPRESSED = 0x0008"
definition HEAP_XMAX_INVALID :: "16 word" where "HEAP_XMAX_INVALID = 0x0800"
definition HEAP_XACT_MASK :: "16 word" where "HEAP_XACT_MASK = 0xFF00"

lemmas heap_consts = HEAP_TUPLE_SIZE_def MAX_HEAP_ATTRIBUTE_NUMBER_def T_NATTS_def T_INFO_MASK_def T_HOFF_def T_BITS_def
  HEAP_HASNULL_def HEAP_HASVARLENA_def HEAP_HASEXTERNAL_def HEAP_HASCOMPRESSED_def HEAP_XMAX_INVALID_def HEAP_XACT_MASK_def

definition BIT_MAP_LEN :: "nat \<Rightarrow> int" where
  "BIT_MAP_LEN natts = ((drop_bit 3 (int natts - 1) + 4 - 4) AND NOT 3) + 4"

definition t_info_mask :: "mem \<Rightarrow> HeapTupleData \<Rightarrow> 16 word" where "t_info_mask m tup = get16 m (t_data tup + T_INFO_MASK)"

definition HEAP_TUPLE_NO_NULLS :: "mem \<Rightarrow> HeapTupleData \<Rightarrow> bool" where
  "HEAP_TUPLE_NO_NULLS m tup \<longleftrightarrow> t_info_mask m tup AND HEAP_HASNULL = 0"

definition HEAP_TUPLE_ALL_FIXED :: "mem \<Rightarrow> HeapTupleData \<Rightarrow> bool" where
  "HEAP_TUPLE_ALL_FIXED m tup \<longleftrightarrow> t_info_mask m tup AND HEAP_HASVARLENA = 0"

definition t_natts :: "mem \<Rightarrow> HeapTupleData \<Rightarrow> int" where "t_natts m tup = sint (get16 m (t_data tup + T_NATTS))"

definition t_hoff :: "mem \<Rightarrow> HeapTupleData \<Rightarrow> nat" where "t_hoff m tup = unat (m (t_data tup + T_HOFF))"

section \<open>Forming tuples\<close>

text \<open>\<open>data_length\<close> is a \<open>uint32\<close>.\<close>

fun data_size_loop :: "mem \<Rightarrow> column list \<Rightarrow> nat \<Rightarrow> nat" where
  "data_size_loop m [] data_length = data_length"
| "data_size_loop m ((att, value, isnull) # cols) data_length =
     (if isnull \<noteq> CHR '' '' then data_size_loop m cols data_length
      else let d1 = ATT_ALIGN data_length (attlen att) (attalign att) mod 2 ^ 32;
               d2 = ATT_ADD_LENGTH m d1 (attlen att) (unat value) mod 2 ^ 32
           in data_size_loop m cols d2)"

definition compute_data_size :: "mem \<Rightarrow> column list \<Rightarrow> nat" where
  "compute_data_size m cols = data_size_loop m cols 0"

text \<open>The store of one attribute: the new flags and memory.\<close>

definition store_column :: "mem \<Rightarrow> nat \<Rightarrow> pg_attribute \<Rightarrow> 64 word \<Rightarrow> 16 word \<Rightarrow> (16 word \<times> mem) cres" where
  "store_column m data att value infomask =
     (if attbyval att then cbind (STORE_ATT_BY_VAL m data value (attlen att)) (\<lambda>m1. Inr (infomask, m1))
      else if attlen att = -1 then
        (let i1 = infomask OR HEAP_HASVARLENA;
             i2 = (if VARATT_IS_EXTERNAL m (unat value) then i1 OR HEAP_HASEXTERNAL else i1);
             i3 = (if VARATT_IS_COMPRESSED m (unat value) then i2 OR HEAP_HASCOMPRESSED else i2)
         in Inr (i3, memcpy_list m data (bytes_at m (unat value) (VARATT_SIZE m (unat value)))))
      else c_assert (attlen att \<ge> 0) (Inr (infomask, memcpy_list m data (bytes_at m (unat value) (nat (attlen att))))))"

fun data_fill_loop ::
  "mem \<Rightarrow> nat \<Rightarrow> column list \<Rightarrow> 16 word \<Rightarrow> bool \<Rightarrow> nat \<Rightarrow> nat \<Rightarrow> (16 word \<times> mem) cres" where
  "data_fill_loop m data [] infomask has_bits bitp bitmask = Inr (infomask, m)"
| "data_fill_loop m data ((att, value, isnull) # cols) infomask has_bits bitp bitmask =
     (case (if \<not> has_bits then (bitp, bitmask, m)
            else if bitmask \<noteq> 0x80 then (bitp, 2 * bitmask, m) else (bitp + 1, 1, m(bitp + 1 := 0))) of (bitp, bitmask, m) \<Rightarrow>
        if has_bits \<and> isnull = CHR ''n'' then data_fill_loop m data cols (infomask OR HEAP_HASNULL) has_bits bitp bitmask
        else let m1 = (if has_bits then m(bitp := m bitp OR of_nat bitmask) else m);
                 d1 = ATT_ALIGN data (attlen att) (attalign att)
             in cbind (store_column m1 d1 att value infomask) (\<lambda>(infomask, m2).
                  data_fill_loop m2 (ATT_ADD_LENGTH m2 d1 (attlen att) (unat value)) cols infomask has_bits bitp bitmask))"

text \<open>The null bitmap is at \<open>bits\<close>, if there is one.\<close>

definition data_fill :: "mem \<Rightarrow> nat \<Rightarrow> column list \<Rightarrow> 16 word \<Rightarrow> nat option \<Rightarrow> (16 word \<times> mem) cres" where
  "data_fill m data cols infomask bits =
     (case bits of None \<Rightarrow> data_fill_loop m data cols (infomask AND HEAP_XACT_MASK) False 0 0
      | Some b \<Rightarrow> data_fill_loop m data cols (infomask AND HEAP_XACT_MASK) True (b - 1) 0x80)"

definition heap_form_tuple ::
  "('h \<Rightarrow> nat \<Rightarrow> (nat \<times> 'h) cres) \<Rightarrow> nat \<Rightarrow> 'h \<Rightarrow> mem \<Rightarrow> pg_attribute list \<Rightarrow> 64 word list \<Rightarrow> char list \<Rightarrow>
   (HeapTupleData \<times> 'h \<times> mem) cres" where
  "heap_form_tuple palloc CurrentMemoryContext hp m atts value nulls =
     (let natts = length atts
      in if natts > MAX_HEAP_ATTRIBUTE_NUMBER then Inl Elog_ERROR
      else if length value < natts \<or> length nulls < natts then Inl Bad_pointer
      else let cols = zip atts (zip value nulls);
               has_null = list_ex (\<lambda>(_, _, c). c \<noteq> CHR '' '') cols;
               len0 = (if has_null then nat (int T_BITS + BIT_MAP_LEN natts) else T_BITS);
               hoff = MAX_ALIGN len0;
               len = hoff + compute_data_size m cols
           in cbind (palloc hp (HEAP_TUPLE_SIZE + len)) (\<lambda>(tuple, hp1).
             let td = tuple + HEAP_TUPLE_SIZE;
                 m1 = memset m td 0 len;
                 m2 = put16 m1 (td + T_NATTS) (of_nat natts);
                 m3 = m2(td + T_HOFF := of_nat hoff)
             in cbind (data_fill m3 (td + unat (m3 (td + T_HOFF))) cols (get16 m3 (td + T_INFO_MASK))
                        (if has_null then Some (td + T_BITS) else None)) (\<lambda>(infomask, m4).
                  Inr (\<lparr>t_addr = tuple, t_len = len, t_self = (0, 0), t_table_oid = 0,
                        t_data_mcxt = CurrentMemoryContext, t_data = td\<rparr>, hp1,
                       put16 m4 (td + T_INFO_MASK) (infomask OR HEAP_XMAX_INVALID)))))"

text \<open>A tuple made of a header and a copy of the bytes of a structure.\<close>

definition heap_add_header ::
  "('h \<Rightarrow> nat \<Rightarrow> (nat \<times> 'h) cres) \<Rightarrow> nat \<Rightarrow> 'h \<Rightarrow> mem \<Rightarrow> nat \<Rightarrow> byte list \<Rightarrow> (HeapTupleData \<times> 'h \<times> mem) cres" where
  "heap_add_header palloc CurrentMemoryContext hp m natts structure =
     (let hoff = MAX_ALIGN T_BITS;
          len = hoff + length structure
        in cbind (palloc hp (HEAP_TUPLE_SIZE + len)) (\<lambda>(tuple, hp1).
          let td = tuple + HEAP_TUPLE_SIZE;
              m1 = memset m td 0 len;
              m2 = m1(td + T_HOFF := of_nat hoff);
              m3 = put16 m2 (td + T_NATTS) (of_nat natts);
              m4 = put16 m3 (td + T_INFO_MASK) 0;
              m5 = put16 m4 (td + T_INFO_MASK) (get16 m4 (td + T_INFO_MASK) OR HEAP_XMAX_INVALID)
          in Inr (\<lparr>t_addr = tuple, t_len = len, t_self = (0, 0), t_table_oid = 0,
                   t_data_mcxt = CurrentMemoryContext, t_data = td\<rparr>, hp1,
                  if length structure > 0 then memcpy_list m5 (td + hoff) structure else m5)))"

section \<open>Copying and freeing\<close>

definition heap_copy_tuple ::
  "('h \<Rightarrow> nat \<Rightarrow> (nat \<times> 'h) cres) \<Rightarrow> nat \<Rightarrow> 'h \<Rightarrow> mem \<Rightarrow> HeapTupleData option \<Rightarrow> (HeapTupleData option \<times> 'h \<times> mem) cres" where
  "heap_copy_tuple palloc CurrentMemoryContext hp m tuple =
     (case tuple of None \<Rightarrow> Inr (None, hp, m)
      | Some t \<Rightarrow> if t_data t = 0 then Inr (None, hp, m)
        else cbind (palloc hp (HEAP_TUPLE_SIZE + t_len t)) (\<lambda>(new, hp1).
          Inr (Some \<lparr>t_addr = new, t_len = t_len t, t_self = t_self t, t_table_oid = t_table_oid t,
                     t_data_mcxt = CurrentMemoryContext, t_data = new + HEAP_TUPLE_SIZE\<rparr>, hp1,
               memcpy_list m (new + HEAP_TUPLE_SIZE) (bytes_at m (t_data t) (t_len t)))))"

definition heap_copy_tuple_with_tuple ::
  "('h \<Rightarrow> nat \<Rightarrow> (nat \<times> 'h) cres) \<Rightarrow> nat \<Rightarrow> 'h \<Rightarrow> mem \<Rightarrow> HeapTupleData option \<Rightarrow> HeapTupleData \<Rightarrow> (HeapTupleData \<times> 'h \<times> mem) cres" where
  "heap_copy_tuple_with_tuple palloc CurrentMemoryContext hp m src dest =
     (case src of None \<Rightarrow> Inr (dest\<lparr>t_data := 0\<rparr>, hp, m)
      | Some s \<Rightarrow> if t_data s = 0 then Inr (dest\<lparr>t_data := 0\<rparr>, hp, m)
        else cbind (palloc hp (t_len s)) (\<lambda>(new, hp1).
          Inr (dest\<lparr>t_len := t_len s, t_self := t_self s, t_table_oid := t_table_oid s,
                    t_data_mcxt := CurrentMemoryContext, t_data := new\<rparr>, hp1,
               memcpy_list m new (bytes_at m (t_data s) (t_len s)))))"

definition heap_free_tuple :: "('h \<Rightarrow> nat \<Rightarrow> 'h cres) \<Rightarrow> 'h \<Rightarrow> HeapTupleData \<Rightarrow> 'h cres" where
  "heap_free_tuple pfree hp tuple =
     cbind (if t_data tuple \<noteq> 0 \<and> t_data_mcxt tuple \<noteq> 0 \<and> t_data tuple \<noteq> t_addr tuple + HEAP_TUPLE_SIZE
            then pfree hp (t_data tuple) else Inr hp) (\<lambda>hp1. pfree hp1 (t_addr tuple))"

section \<open>Reading attributes\<close>

definition heap_att_is_null :: "mem \<Rightarrow> HeapTupleData \<Rightarrow> int \<Rightarrow> bool cres" where
  "heap_att_is_null m tup attnum =
     (if attnum > t_natts m tup then Inr True
      else if HEAP_TUPLE_NO_NULLS m tup then Inr False
      else if attnum > 0 then Inr (ATT_IS_NULL m (nat (attnum - 1)) (t_data tup + T_BITS))
      else if attnum \<in> {-7, -1, -2, -3, -4, -5, -6} then Inr False
      else Inl Elog_ERROR)"

text \<open>Is one of the attributes before \<open>attnum\<close> null?\<close>

definition nulls_before :: "mem \<Rightarrow> nat \<Rightarrow> nat \<Rightarrow> bool" where
  "nulls_before m bp attnum \<longleftrightarrow>
     NOT (m (bp + attnum div 8)) AND (push_bit (attnum mod 8) 1 - 1) \<noteq> 0 \<or>
     list_ex (\<lambda>i. m (bp + i) \<noteq> 0xFF) [0..<attnum div 8]"

function skip_cached :: "pg_attribute list \<Rightarrow> nat \<Rightarrow> nat \<Rightarrow> nat" where
  "skip_cached atts attnum j =
     (if j < attnum \<and> attcacheoff (atts ! j) > 0 then skip_cached atts attnum (j + 1) else j)"
  by pat_completeness auto
termination by (relation "measure (\<lambda>(_, n, j). n - j)") auto

declare skip_cached.simps [simp del]

function cache_loop :: "mem \<Rightarrow> HeapTupleData \<Rightarrow> nat \<Rightarrow> pg_attribute list \<Rightarrow> nat \<Rightarrow> nat \<Rightarrow> pg_attribute list cres" where
  "cache_loop m tup attnum atts j off =
     (if \<not> (j \<le> attnum \<or> int j < t_natts m tup) then Inr atts
      else if j \<ge> length atts then Inl Bad_pointer
      else if j \<le> attnum \<or>
          (attcacheoff (atts ! j) = -1 \<and>
           (HEAP_TUPLE_NO_NULLS m tup \<or> \<not> ATT_IS_NULL m j (t_data tup + T_BITS)) \<and>
           (HEAP_TUPLE_ALL_FIXED m tup \<or> attlen (atts ! j) > 0))
      then let off1 = ATT_ALIGN off (attlen (atts ! j)) (attalign (atts ! j))
           in cache_loop m tup attnum (atts[j := (atts ! j)\<lparr>attcacheoff := int off1\<rparr>]) (j + 1)
                (ATT_ADD_LENGTH m off1 (attlen (atts ! j)) (t_data tup + t_hoff m tup + off1))
      else Inr atts)"
  by pat_completeness auto
termination by (relation "measure (\<lambda>(_, _, _, atts, j, _). length atts - j)") auto

declare cache_loop.simps [simp del]

text \<open>The walk over the attributes before \<open>attnum\<close>; the result is the offset behind them.\<close>

function slow_walk :: "mem \<Rightarrow> HeapTupleData \<Rightarrow> nat \<Rightarrow> pg_attribute list \<Rightarrow> nat \<Rightarrow> nat \<Rightarrow> bool \<Rightarrow> nat \<times> pg_attribute list" where
  "slow_walk m tup attnum atts i off usecache =
     (if i < attnum then
        if \<not> HEAP_TUPLE_NO_NULLS m tup \<and> ATT_IS_NULL m i (t_data tup + T_BITS)
        then slow_walk m tup attnum atts (i + 1) off False
        else let att = atts ! i;
                 cached = usecache \<and> attcacheoff att \<noteq> -1;
                 off1 = (if cached then nat (attcacheoff att) else ATT_ALIGN off (attlen att) (attalign att));
                 atts1 = (if \<not> cached \<and> usecache then atts[i := att\<lparr>attcacheoff := int off1\<rparr>] else atts);
                 off2 = ATT_ADD_LENGTH m off1 (attlen att) (t_data tup + t_hoff m tup + off1)
             in slow_walk m tup attnum atts1 (i + 1) off2 (usecache \<and> attlen att \<noteq> -1)
      else (off, atts))"
  by pat_completeness auto
termination by (relation "measure (\<lambda>(_, _, n, _, i, _). n - i)") auto

declare slow_walk.simps [simp del]

text \<open>\<open>attnum\<close> counts from 1. An attribute number beyond the descriptor reads outside the array.\<close>

definition no_cache_get_attr ::
  "mem \<Rightarrow> HeapTupleData \<Rightarrow> nat \<Rightarrow> pg_attribute list \<Rightarrow> (64 word \<times> pg_attribute list) cres" where
  "no_cache_get_attr m tup attnum1 atts =
     (let attnum = attnum1 - 1; bp = t_data tup + T_BITS; tp = t_data tup + t_hoff m tup;
          slow = (\<not> HEAP_TUPLE_NO_NULLS m tup \<and> nulls_before m bp attnum)
      in if attnum \<ge> length atts then Inl Bad_pointer
      else if \<not> slow \<and> attcacheoff (atts ! attnum) \<noteq> -1
      then Inr (FETCH_ATT m (atts ! attnum) (tp + nat (attcacheoff (atts ! attnum))), atts)
      else let slow = (slow \<or> \<not> HEAP_TUPLE_ALL_FIXED m tup \<and> list_ex (\<lambda>a. attlen a \<le> 0) (take (attnum + 1) atts))
      in if \<not> slow
      then let atts1 = atts[0 := (atts ! 0)\<lparr>attcacheoff := 0\<rparr>];
               j = skip_cached atts1 attnum 1;
               off = nat (attcacheoff (atts1 ! (j - 1)) + attlen (atts1 ! (j - 1)))
           in cbind (cache_loop m tup attnum atts1 j off) (\<lambda>atts2.
                Inr (FETCH_ATT m (atts2 ! attnum) (tp + nat (attcacheoff (atts2 ! attnum))), atts2))
      else case slow_walk m tup attnum atts 0 0 True of (off, atts1) \<Rightarrow>
        Inr (FETCH_ATT m (atts1 ! attnum) (tp + ATT_ALIGN off (attlen (atts1 ! attnum)) (attalign (atts1 ! attnum))), atts1))"

text \<open>The macro returns the datum, \<open>*isnull\<close> and the descriptor.\<close>

definition FAST_GET_ATTR ::
  "mem \<Rightarrow> HeapTupleData \<Rightarrow> nat \<Rightarrow> pg_attribute list \<Rightarrow> (64 word \<times> bool \<times> pg_attribute list) cres" where
  "FAST_GET_ATTR m tup attnum atts =
     (if HEAP_TUPLE_NO_NULLS m tup
      then if attnum - 1 \<ge> length atts then Inl Bad_pointer
        else if attcacheoff (atts ! (attnum - 1)) \<ge> 0
        then Inr (FETCH_ATT m (atts ! (attnum - 1)) (t_data tup + t_hoff m tup + nat (attcacheoff (atts ! (attnum - 1)))), False, atts)
        else cbind (no_cache_get_attr m tup attnum atts) (\<lambda>(d, atts1). Inr (d, False, atts1))
      else if ATT_IS_NULL m (attnum - 1) (t_data tup + T_BITS) then Inr (0, True, atts)
      else cbind (no_cache_get_attr m tup attnum atts) (\<lambda>(d, atts1). Inr (d, False, atts1)))"

definition HEAP_GET_ATTR ::
  "(mem \<Rightarrow> HeapTupleData \<Rightarrow> int \<Rightarrow> (64 word \<times> bool) cres) \<Rightarrow> mem \<Rightarrow> HeapTupleData \<Rightarrow> int \<Rightarrow> pg_attribute list \<Rightarrow>
   (64 word \<times> bool \<times> pg_attribute list) cres" where
  "HEAP_GET_ATTR heap_get_sys_attr m tup attnum atts =
     (if attnum > 0 then
        if attnum > t_natts m tup then Inr (0, True, atts) else FAST_GET_ATTR m tup (nat attnum) atts
      else cbind (heap_get_sys_attr m tup attnum) (\<lambda>(d, isnull). Inr (d, isnull, atts)))"

text \<open>
  The arrays \<open>value\<close> and \<open>nulls\<close> of \<open>heap_modify_tuple\<close>: the columns that are not replaced are read
  from the tuple. The local \<open>infomask\<close> is a \<open>uint8\<close>.
\<close>

fun modified_columns ::
  "(mem \<Rightarrow> HeapTupleData \<Rightarrow> int \<Rightarrow> (64 word \<times> bool) cres) \<Rightarrow> mem \<Rightarrow> HeapTupleData \<Rightarrow> nat \<Rightarrow> pg_attribute list \<Rightarrow>
   (64 word \<times> char \<times> char) list \<Rightarrow> (64 word list \<times> char list \<times> pg_attribute list) cres" where
  "modified_columns sysattr m tup attoff atts [] = Inr ([], [], atts)"
| "modified_columns sysattr m tup attoff atts ((repl_value, repl_null, repl) # rest) =
     cbind (if repl = CHR '' '' then
              cbind (HEAP_GET_ATTR sysattr m tup (int attoff + 1) atts)
                (\<lambda>(v, isnull, atts1). Inr (v, if isnull then CHR ''n'' else CHR '' '', atts1))
            else if repl \<noteq> CHR ''r'' then Inl Elog_ERROR
            else Inr (repl_value, repl_null, atts)) (\<lambda>(v, c, atts1).
       cbind (modified_columns sysattr m tup (attoff + 1) atts1 rest) (\<lambda>(vs, cs, atts2). Inr (v # vs, c # cs, atts2)))"

definition heap_modify_tuple ::
  "(mem \<Rightarrow> HeapTupleData \<Rightarrow> int \<Rightarrow> (64 word \<times> bool) cres) \<Rightarrow> ('h \<Rightarrow> nat \<Rightarrow> (nat \<times> 'h) cres) \<Rightarrow> nat \<Rightarrow> 'h \<Rightarrow> mem \<Rightarrow>
   HeapTupleData \<Rightarrow> pg_attribute list \<Rightarrow> (64 word \<times> char \<times> char) list \<Rightarrow> (HeapTupleData \<times> 'h \<times> mem \<times> pg_attribute list) cres" where
  "heap_modify_tuple sysattr palloc CurrentMemoryContext hp m tuple atts repl =
     cbind (palloc hp (length repl * 8)) (\<lambda>(_, hp1). cbind (palloc hp1 (length repl)) (\<lambda>(_, hp2).
       cbind (modified_columns sysattr m tuple 0 atts repl) (\<lambda>(value, nulls, atts1).
         cbind (heap_form_tuple palloc CurrentMemoryContext hp2 m atts1 value nulls) (\<lambda>(new, hp3, m1).
           let infomask = ucast (t_info_mask m1 new) :: 8 word;
               m2 = memmove m1 (t_data new) (t_data tuple) T_HOFF;
               m3 = put16 m2 (t_data new + T_INFO_MASK) (ucast infomask);
               m4 = put16 m3 (t_data new + T_NATTS) (of_nat (length repl))
           in Inr (new\<lparr>t_self := t_self tuple, t_table_oid := t_table_oid tuple\<rparr>, hp3, m4, atts1)))))"

section \<open>Words of 64 bits and alignment\<close>

lemma get64_cong: "(\<And>i. i < 8 \<Longrightarrow> m (a + i) = m' (b + i)) \<Longrightarrow> get64 m a = get64 m' b"
proof -
  assume eq: "\<And>i. i < 8 \<Longrightarrow> m (a + i) = m' (b + i)"
  have "get32 m a = get32 m' b" by (rule get32_cong) (simp add: eq)
  moreover have "get32 m (a + 4) = get32 m' (b + 4)"
    by (rule get32_cong) (use eq in \<open>auto simp: add.assoc\<close>)
  ultimately show ?thesis by (simp add: get64_def)
qed

lemma put64_other [mem_simps]: "i < a \<or> a + 8 \<le> i \<Longrightarrow> put64 m a w i = m i"
  by (simp add: put64_def mem_simps) (auto simp: mem_simps)

lemma get64_put64 [mem_simps]: "get64 (put64 m a w) a = w"
proof -
  have "get32 (put64 m a w) a = ucast w" "get32 (put64 m a w) (a + 4) = ucast (drop_bit 32 w)"
    by (simp_all add: put64_def mem_simps)
  moreover have "ucast (ucast w :: 32 word) OR push_bit 32 (ucast (ucast (drop_bit 32 w) :: 32 word)) = w"
    by (rule bit_word_eqI) (auto simp: bit_simps)
  ultimately show ?thesis by (simp add: get64_def)
qed

lemma ATT_ALIGN_ge: "n \<le> ATT_ALIGN n l al"
  by (auto simp: ATT_ALIGN_def align_simps; arith)

lemma ATT_ALIGN_0 [simp]: "ATT_ALIGN 0 l al = 0"
  by (simp add: ATT_ALIGN_def align_simps)

lemma ATT_ALIGN_add: "8 dvd t \<Longrightarrow> ATT_ALIGN (t + n) l al = t + ATT_ALIGN n l al"
proof -
  assume "8 dvd t"
  then obtain k where "t = 8 * k" by auto
  then show ?thesis by (auto simp: ATT_ALIGN_def align_simps; arith)
qed

section \<open>Layout of a tuple\<close>

definition present :: "column \<Rightarrow> bool" where "present c \<longleftrightarrow> snd (snd c) \<noteq> CHR ''n''"

definition col_size :: "mem \<Rightarrow> column \<Rightarrow> nat" where
  "col_size m c = (if attlen (fst c) \<noteq> -1 then nat (attlen (fst c)) else VARATT_SIZE m (unat (fst (snd c))))"

definition col_align :: "column \<Rightarrow> nat \<Rightarrow> nat" where
  "col_align c off = ATT_ALIGN off (attlen (fst c)) (attalign (fst c))"

text \<open>The offset behind the given columns, and the offset of a column; null columns take no space.\<close>

fun pos :: "mem \<Rightarrow> column list \<Rightarrow> nat \<Rightarrow> nat" where
  "pos m [] off = off"
| "pos m (c # cs) off = (if present c then pos m cs (col_align c off + col_size m c) else pos m cs off)"

definition start :: "mem \<Rightarrow> column list \<Rightarrow> nat \<Rightarrow> nat" where
  "start m cs i = col_align (cs ! i) (pos m (take i cs) 0)"

text \<open>An attribute that the type system allows, and a column whose value can be read outside \<open>[lo, hi)\<close>.\<close>

definition att_ok :: "pg_attribute \<Rightarrow> bool" where
  "att_ok a \<longleftrightarrow> (attlen a = -1 \<or> 0 < attlen a) \<and> (attbyval a \<longrightarrow> attlen a \<in> {1, 2, 4, 8})"

definition col_ok :: "mem \<Rightarrow> nat \<Rightarrow> nat \<Rightarrow> column \<Rightarrow> bool" where
  "col_ok m lo hi c \<longleftrightarrow> att_ok (fst c) \<and> snd (snd c) \<in> {CHR '' '', CHR ''n''} \<and>
     (present c \<longrightarrow> (attlen (fst c) = -1 \<longrightarrow> 4 \<le> col_size m c) \<and>
        (\<not> attbyval (fst c) \<longrightarrow> {unat (fst (snd c))..<unat (fst (snd c)) + col_size m c} \<inter> {lo..<hi} = {}))"

text \<open>The value that a by-value attribute can hold, and what it means that a column is stored at an address.\<close>

definition narrow :: "pg_attribute \<Rightarrow> 64 word \<Rightarrow> 64 word" where
  "narrow a v = take_bit (8 * nat (attlen a)) v"

definition stored :: "mem \<Rightarrow> mem \<Rightarrow> nat \<Rightarrow> column \<Rightarrow> bool" where
  "stored m0 m a c \<longleftrightarrow> (if attbyval (fst c) then FETCH_ATT m (fst c) a = narrow (fst c) (fst (snd c))
     else bytes_at m a (col_size m0 c) = bytes_at m0 (unat (fst (snd c))) (col_size m0 c))"

lemma pos_append: "pos m (xs @ ys) off = pos m ys (pos m xs off)"
  by (induction xs arbitrary: off) auto

lemma col_align_ge: "off \<le> col_align c off"
  by (simp add: col_align_def ATT_ALIGN_ge)

lemma pos_ge: "off \<le> pos m cs off"
proof (induction cs arbitrary: off)
  case (Cons c cs)
  have "off \<le> col_align c off + col_size m c" using col_align_ge [of off c] by linarith
  then have "off \<le> pos m cs (col_align c off + col_size m c)" using Cons.IH by (rule order_trans)
  then show ?case using Cons.IH by simp
qed simp

lemma stored_cong:
  assumes "stored m0 m a c" "\<And>x. a \<le> x \<Longrightarrow> x < a + col_size m0 c \<Longrightarrow> m' x = m x" "att_ok (fst c)"
  shows "stored m0 m' a c"
proof (cases "attbyval (fst c)")
  case True
  then have l: "attlen (fst c) \<in> {1, 2, 4, 8}" using assms(3) by (simp add: att_ok_def)
  then have s: "m' (a + i) = m (a + i)" if "i < nat (attlen (fst c))" for i
    using that assms(2) [of "a + i"] by (auto simp: col_size_def)
  consider "attlen (fst c) = 1" | "attlen (fst c) = 2" | "attlen (fst c) = 4" | "attlen (fst c) = 8" using l by auto
  then have "FETCH_ATT m' (fst c) a = FETCH_ATT m (fst c) a"
  proof cases
    case 1
    then show ?thesis using True s [of 0] by (simp add: FETCH_ATT_def)
  next
    case 2
    then have "get16 m' a = get16 m a" using s [of 0] s [of 1] by (intro get16_cong) simp_all
    then show ?thesis using True 2 by (simp add: FETCH_ATT_def)
  next
    case 3
    then have "get32 m' a = get32 m a" using s by (intro get32_cong) simp
    then show ?thesis using True 3 by (simp add: FETCH_ATT_def)
  next
    case 4
    then have "get64 m' a = get64 m a" using s by (intro get64_cong) simp
    then show ?thesis using True 4 by (simp add: FETCH_ATT_def)
  qed
  then show ?thesis using assms(1) True by (simp add: stored_def)
next
  case False
  have "bytes_at m' a (col_size m0 c) = bytes_at m a (col_size m0 c)" by (rule bytes_at_eqI) (simp add: assms(2))
  then show ?thesis using assms(1) False by (simp add: stored_def)
qed

lemma store_by_val_ok:
  assumes "att_ok a" "attbyval a"
  shows "\<exists>m'. STORE_ATT_BY_VAL m t v (attlen a) = Inr m' \<and> FETCH_ATT m' a t = narrow a v \<and>
    (\<forall>x. x < t \<or> t + nat (attlen a) \<le> x \<longrightarrow> m' x = m x)"
proof -
  have n: "ucast (ucast v :: 32 word) = take_bit 32 v" "ucast (ucast v :: 16 word) = take_bit 16 v" "ucast (ucast v :: byte) = take_bit 8 v"
    by (rule bit_word_eqI, auto simp: bit_simps)+
  consider "attlen a = 1" | "attlen a = 2" | "attlen a = 4" | "attlen a = 8" using assms by (auto simp: att_ok_def)
  then show ?thesis
  proof cases
    case 4
    then show ?thesis using assms by (auto simp: STORE_ATT_BY_VAL_def FETCH_ATT_def narrow_def mem_simps n take_bit_word_eq_self)
  qed (use assms in \<open>auto simp: STORE_ATT_BY_VAL_def FETCH_ATT_def narrow_def mem_simps n\<close>)
qed

section \<open>Filling the data area\<close>

text \<open>How the flags grow: only \<open>HEAP_HASNULL\<close> and \<open>HEAP_HASVARLENA\<close> matter to the readers.\<close>

definition flags_are :: "16 word \<Rightarrow> bool \<Rightarrow> bool \<Rightarrow> bool" where
  "flags_are i n v \<longleftrightarrow> (i AND HEAP_HASNULL \<noteq> 0 \<longleftrightarrow> n) \<and> (i AND HEAP_HASVARLENA \<noteq> 0 \<longleftrightarrow> v)"

lemma flag_bits: "(i AND HEAP_HASNULL \<noteq> 0) = bit i 0" "(i AND HEAP_HASVARLENA \<noteq> 0) = bit i 1"
  using and_exp_eq_0_iff_not_bit [of i 0] and_exp_eq_0_iff_not_bit [of i 1] by (auto simp: heap_consts)

lemma const_bits:
  "bit HEAP_HASNULL 0" "\<not> bit HEAP_HASNULL 1" "\<not> bit HEAP_HASVARLENA 0" "bit HEAP_HASVARLENA 1"
  "\<not> bit HEAP_HASEXTERNAL 0" "\<not> bit HEAP_HASEXTERNAL 1" "\<not> bit HEAP_HASCOMPRESSED 0" "\<not> bit HEAP_HASCOMPRESSED 1"
  "\<not> bit HEAP_XMAX_INVALID 0" "\<not> bit HEAP_XMAX_INVALID 1"
  by (simp_all add: heap_consts bit_numeral_rec)

lemma flags_step:
  assumes "flags_are i n v"
  shows "flags_are (i OR HEAP_HASNULL) True v" "flags_are (i OR HEAP_HASVARLENA) n True"
    "flags_are (i OR HEAP_HASEXTERNAL) n v" "flags_are (i OR HEAP_HASCOMPRESSED) n v" "flags_are (i OR HEAP_XMAX_INVALID) n v"
  using assms unfolding flags_are_def flag_bits bit_or_iff by (simp_all add: const_bits [unfolded One_nat_def])

lemma store_column_ok:
  assumes ok: "col_ok m0 lo hi (att, v, c)" "present (att, v, c)" and src: "\<And>x. x < lo \<or> hi \<le> x \<Longrightarrow> m x = m0 x"
    and f: "flags_are i n vl"
  shows "\<exists>i' m'. store_column m d att v i = Inr (i', m') \<and> flags_are i' n (vl \<or> attlen att = -1) \<and>
    stored m0 m' d (att, v, c) \<and> (\<forall>x. x < d \<or> d + col_size m0 (att, v, c) \<le> x \<longrightarrow> m' x = m x)"
proof (cases "attbyval att")
  case True
  have a: "att_ok att" using ok by (simp add: col_ok_def)
  then have "attlen att \<noteq> -1" using True by (auto simp: att_ok_def)
  then show ?thesis using store_by_val_ok [OF a True, of m d v] True f
    by (auto simp: store_column_def stored_def col_size_def)
next
  case False
  let ?s = "col_size m0 (att, v, c)" and ?p = "unat v"
  have eq: "m x = m0 x" if "?p \<le> x" "x < ?p + ?s" for x
  proof -
    have "x \<in> {?p..<?p + ?s}" using that by simp
    moreover have "{?p..<?p + ?s} \<inter> {lo..<hi} = {}" using ok False by (simp add: col_ok_def)
    ultimately have "x \<notin> {lo..<hi}" by blast
    then show ?thesis by (intro src) auto
  qed
  have b: "bytes_at m ?p ?s = bytes_at m0 ?p ?s" by (rule bytes_at_eqI) (simp add: eq)
  have cp: "stored m0 (memcpy_list m d (bytes_at m0 ?p ?s)) d (att, v, c)"
    "\<forall>x. x < d \<or> d + ?s \<le> x \<longrightarrow> memcpy_list m d (bytes_at m0 ?p ?s) x = m x"
    using bytes_at_memcpy_list [of m d "bytes_at m0 ?p ?s"] False by (auto simp: stored_def mem_simps)
  show ?thesis
  proof (cases "attlen att = -1")
    case True
    then have g: "get32 m ?p = get32 m0 ?p" using ok by (intro get32_cong eq) (auto simp: col_ok_def)
    then have s: "VARATT_SIZE m ?p = ?s" using True by (simp add: VARATT_SIZE_def col_size_def)
    show ?thesis using True False f s b cp by (auto simp: store_column_def Let_def flags_step)
  next
    case v: False
    then have "nat (attlen att) = ?s" "0 \<le> attlen att" using ok by (auto simp: col_size_def col_ok_def att_ok_def)
    then show ?thesis using v False f b cp by (auto simp: store_column_def)
  qed
qed

text \<open>The bitmap after \<open>k\<close> columns: the bits of its bytes say which of them are present.\<close>

definition bits_ok :: "mem \<Rightarrow> nat \<Rightarrow> column list \<Rightarrow> nat \<Rightarrow> bool" where
  "bits_ok m bp C k \<longleftrightarrow> (\<forall>i < 8 * ((k + 7) div 8). bit (m (bp + i div 8)) (i mod 8) \<longleftrightarrow> i < k \<and> present (C ! i))"

lemma bits_ok_cong:
  assumes "bits_ok m bp C k" "\<And>x. bp \<le> x \<Longrightarrow> x < bp + (k + 7) div 8 \<Longrightarrow> m' x = m x"
  shows "bits_ok m' bp C k"
  using assms by (auto simp: bits_ok_def less_mult_imp_div_less mult.commute)

lemma ceil8: "0 < s \<Longrightarrow> s < 8 \<Longrightarrow> (q * 8 + s + 7) div 8 = Suc q"
  by (rule div_nat_eqI) simp_all

lemma bits_step:
  assumes b: "bits_ok m bp C k"
    and m1: "m1 = (if k mod 8 = 0 then m(bp + k div 8 := 0) else m)"
    and m2: "m2 = (if present (C ! k) then m1(bp + k div 8 := m1 (bp + k div 8) OR of_nat (2 ^ (k mod 8))) else m1)"
  shows "bits_ok m2 bp C (k + 1)"
  unfolding bits_ok_def
proof (intro allI impI)
  fix i assume "i < 8 * ((k + 1 + 7) div 8)"
  moreover have "(k + 1 + 7) div 8 = Suc (k div 8)" by simp
  ultimately have "i < Suc (k div 8) * 8" by (simp add: mult.commute)
  then have i: "i div 8 \<le> k div 8" by (simp only: less_mult_imp_div_less less_Suc_eq_le [symmetric])
  show "bit (m2 (bp + i div 8)) (i mod 8) \<longleftrightarrow> i < k + 1 \<and> present (C ! i)"
  proof (cases "i div 8 = k div 8")
    case False
    then have lt: "i div 8 < k div 8" using i by simp
    then have "i < 8 * (k div 8)" by (simp add: less_mult_imp_div_less div_less_iff_less_mult mult.commute)
    then have "i < 8 * ((k + 7) div 8)" "i < k" by (auto intro: less_le_trans)
    then show ?thesis using b lt by (auto simp: bits_ok_def m1 m2)
  next
    case True
    define q where "q = k div 8"
    have "i = q * 8 + i mod 8" "k = q * 8 + k mod 8"
      using True div_mult_mod_eq [of i 8] div_mult_mod_eq [of k 8] by (simp_all add: q_def)
    note ik = this
    then have r: "i < k \<longleftrightarrow> i mod 8 < k mod 8" "i = k \<longleftrightarrow> i mod 8 = k mod 8" by linarith+
    have "bit (m1 (bp + k div 8)) (i mod 8) \<longleftrightarrow> i < k \<and> present (C ! i)"
    proof (cases "k mod 8 = 0")
      case True
      then show ?thesis using r by (simp add: m1)
    next
      case False
      have "0 < k mod 8" "k mod 8 < 8" "i mod 8 < 8" using False by simp_all
      then have "(k + 7) div 8 = Suc q" using ceil8 [of "k mod 8" q] ik(2) by metis
      then have "i < 8 * ((k + 7) div 8)" using ik(1) \<open>i mod 8 < 8\<close> by simp
      then show ?thesis using b True False by (auto simp: bits_ok_def m1)
    qed
    moreover have "bit (of_nat (2 ^ (k mod 8)) :: byte) (i mod 8) \<longleftrightarrow> i mod 8 = k mod 8"
      by (auto simp: bit_exp_iff)
    ultimately show ?thesis using r True by (auto simp: m2 bit_or_iff)
  qed
qed

text \<open>
  The state after the columns \<open>pre\<close> of \<open>C\<close>: the data are stored at their offsets from \<open>tp\<close>, the bitmap at \<open>bp\<close> is
  right, and nothing outside \<open>[lo, hi)\<close> has changed.
\<close>

definition filled :: "mem \<Rightarrow> nat \<Rightarrow> nat \<Rightarrow> nat \<Rightarrow> bool \<Rightarrow> nat \<Rightarrow> column list \<Rightarrow> nat \<Rightarrow> mem \<Rightarrow> 16 word \<Rightarrow> bool" where
  "filled m0 lo hi tp bits bp C k m i \<longleftrightarrow>
     (\<forall>x. x < lo \<or> hi \<le> x \<longrightarrow> m x = m0 x) \<and>
     (\<forall>j < k. present (C ! j) \<longrightarrow> stored m0 m (tp + start m0 C j) (C ! j)) \<and>
     (bits \<longrightarrow> bits_ok m bp C k) \<and>
     flags_are i (\<exists>j < k. \<not> present (C ! j)) (\<exists>j < k. present (C ! j) \<and> attlen (fst (C ! j)) = -1)"

lemma start_end: "j < k \<Longrightarrow> k \<le> length C \<Longrightarrow> present (C ! j) \<Longrightarrow> start m C j + col_size m (C ! j) \<le> pos m (take k C) 0"
proof -
  assume j: "j < k" "k \<le> length C" "present (C ! j)"
  then have "take k C = take j C @ C ! j # drop (Suc j) (take k C)"
    using id_take_nth_drop [of j "take k C"] by (simp add: min_def)
  then have "pos m (take k C) 0 = pos m (drop (Suc j) (take k C)) (start m C j + col_size m (C ! j))"
    using j(3) by (metis pos.simps(2) pos_append start_def)
  then show ?thesis by (simp add: pos_ge)
qed

lemma pos_take_le: "pos m (take k C) 0 \<le> pos m C 0"
  using pos_append [of m "take k C" "drop k C" 0] by (simp add: pos_ge)

lemma add_length_ok:
  assumes "col_ok m0 lo hi (att, v, n)" "present (att, v, n)" "\<And>x. x < lo \<or> hi \<le> x \<Longrightarrow> m x = m0 x"
  shows "ATT_ADD_LENGTH m d (attlen att) (unat v) = d + col_size m0 (att, v, n)"
proof (cases "attlen att = -1")
  case True
  have "m (unat v + i) = m0 (unat v + i)" if "i < 4" for i
  proof -
    have s: "4 \<le> col_size m0 (att, v, n)" "\<not> attbyval att" using assms(1,2) True by (auto simp: col_ok_def att_ok_def)
    then have "unat v + i \<in> {unat v..<unat v + col_size m0 (att, v, n)}" using that by simp
    then have "unat v + i \<notin> {lo..<hi}" using assms(1,2) s(2) unfolding col_ok_def by auto
    then show ?thesis by (intro assms(3)) auto
  qed
  then have "get32 m (unat v) = get32 m0 (unat v)" by (rule get32_cong)
  then show ?thesis using True by (simp add: ATT_ADD_LENGTH_def col_size_def VARATT_SIZE_def)
next
  case False
  then have "0 < attlen att" using assms(1) by (auto simp: col_ok_def att_ok_def)
  then show ?thesis using False by (simp add: ATT_ADD_LENGTH_def col_size_def nat_add_distrib)
qed

text \<open>One more column: null, or stored behind the ones before it.\<close>

lemma filled_null:
  assumes f: "filled m0 lo hi tp True bp C k m i" and k: "k < length C" "\<not> present (C ! k)"
    and C: "\<forall>c \<in> set C. col_ok m0 lo hi c" and g: "lo \<le> bp" "bp + (length C + 7) div 8 \<le> tp" "tp \<le> hi"
    and m1: "m1 = (if k mod 8 = 0 then m(bp + k div 8 := 0) else m)"
  shows "filled m0 lo hi tp True bp C (k + 1) m1 (i OR HEAP_HASNULL)"
proof -
  have kb: "bp + k div 8 < tp" using k(1) g(2) by linarith
  have eq: "m1 x = m x" if "x \<noteq> bp + k div 8" for x using that by (simp add: m1)
  have "stored m0 m1 (tp + start m0 C j) (C ! j)" if "j < k" "present (C ! j)" for j
    using f that k C kb by (intro stored_cong [of m0 m _ _ m1] eq) (auto simp: filled_def col_ok_def)
  moreover have "m1 x = m0 x" if "x < lo \<or> hi \<le> x" for x
    using f that eq [of x] kb g by (auto simp: filled_def)
  moreover have "bits_ok m1 bp C (k + 1)" using bits_step [of m bp C k m1 m1] f k(2) m1 by (simp add: filled_def)
  moreover have "flags_are (i OR HEAP_HASNULL) True (\<exists>j < k. present (C ! j) \<and> attlen (fst (C ! j)) = -1)"
    using f by (auto simp: filled_def intro: flags_step)
  moreover have "(\<exists>j < k + 1. \<not> present (C ! j)) = True" using k(2) by (auto intro!: exI [of _ k])
  moreover have "(\<exists>j < k + 1. present (C ! j) \<and> attlen (fst (C ! j)) = -1) = (\<exists>j < k. present (C ! j) \<and> attlen (fst (C ! j)) = -1)"
    using k(2) by (auto simp: less_Suc_eq)
  ultimately show ?thesis using k(2) unfolding filled_def by (auto simp: less_Suc_eq)
qed

lemma filled_present:
  assumes f: "filled m0 lo hi tp bits bp C k m i" and k: "k < length C" "present (C ! k)" "C ! k = (att, v, n)"
    and C: "\<forall>c \<in> set C. col_ok m0 lo hi c" and g: "bits \<Longrightarrow> lo \<le> bp \<and> bp + (length C + 7) div 8 \<le> tp" "lo \<le> tp" "tp + pos m0 C 0 \<le> hi"
    and m1: "m1 = (if bits \<and> k mod 8 = 0 then m(bp + k div 8 := 0) else m)"
    and m2: "m2 = (if bits then m1(bp + k div 8 := m1 (bp + k div 8) OR of_nat (2 ^ (k mod 8))) else m1)"
  shows "\<exists>i' m'. store_column m2 (tp + start m0 C k) att v i = Inr (i', m') \<and> filled m0 lo hi tp bits bp C (k + 1) m' i'"
proof -
  have kb: "bits \<Longrightarrow> lo \<le> bp + k div 8 \<and> bp + k div 8 < tp" using k(1) g(1) by force
  have eq: "m2 x = m x" if "\<not> bits \<or> x \<noteq> bp + k div 8" for x using that by (auto simp: m1 m2)
  have ck: "col_ok m0 lo hi (att, v, n)" using C k nth_mem by metis
  have hi: "tp \<le> hi" using g(3) by simp
  have src: "m2 x = m0 x" if "x < lo \<or> hi \<le> x" for x
  proof -
    have "\<not> bits \<or> x \<noteq> bp + k div 8" using kb hi that by auto
    then show ?thesis using f that eq [of x] by (auto simp: filled_def)
  qed
  let ?d = "tp + start m0 C k" and ?n = "\<exists>j < k. \<not> present (C ! j)" and ?v = "\<exists>j < k. present (C ! j) \<and> attlen (fst (C ! j)) = -1"
  have fl: "flags_are i ?n ?v" using f by (simp add: filled_def)
  obtain i' m' where s: "store_column m2 ?d att v i = Inr (i', m')" "flags_are i' ?n (?v \<or> attlen att = -1)"
    "stored m0 m' ?d (C ! k)" "\<And>x. x < ?d \<or> ?d + col_size m0 (C ! k) \<le> x \<Longrightarrow> m' x = m2 x"
    using store_column_ok [OF ck _ src fl, of ?d] k by auto
  have e: "start m0 C k + col_size m0 (C ! k) \<le> pos m0 C 0"
    using start_end [of k "Suc k" C m0] pos_take_le [of m0 "Suc k" C] k by simp
  have st: "pos m0 (take k C) 0 \<le> start m0 C k" by (simp add: start_def col_align_ge)
  have "stored m0 m' (tp + start m0 C j) (C ! j)" if "j < k" "present (C ! j)" for j
  proof (rule stored_cong)
    show "stored m0 m (tp + start m0 C j) (C ! j)" using f that by (simp add: filled_def)
    show "att_ok (fst (C ! j))" using C that k(1) by (simp add: col_ok_def)
    fix x assume x: "tp + start m0 C j \<le> x" "x < tp + start m0 C j + col_size m0 (C ! j)"
    then have "x < ?d" using start_end [of j k C m0] st that k(1) by simp
    then have "m' x = m2 x" by (simp add: s(4))
    moreover have "\<not> bits \<or> x \<noteq> bp + k div 8" using kb x by auto
    ultimately show "m' x = m x" using eq by simp
  qed
  moreover have "m' x = m0 x" if "x < lo \<or> hi \<le> x" for x
    using that s(4) [of x] src [OF that] e g(2,3) by auto
  moreover have "bits_ok m' bp C (k + 1)" if bits
  proof (rule bits_ok_cong)
    show "bits_ok m2 bp C (k + 1)" using bits_step [of m bp C k m1 m2] f that k(2) m1 m2 by (simp add: filled_def)
    fix x assume "bp \<le> x" "x < bp + (k + 1 + 7) div 8"
    then have "x < tp" using kb [OF that] by auto
    then show "m' x = m2 x" by (simp add: s(4))
  qed
  moreover have "flags_are i' (\<exists>j < k + 1. \<not> present (C ! j)) (\<exists>j < k + 1. present (C ! j) \<and> attlen (fst (C ! j)) = -1)"
  proof -
    have "(\<exists>j < k + 1. \<not> present (C ! j)) = ?n" using k(2) by (auto simp: less_Suc_eq)
    moreover have "(\<exists>j < k + 1. present (C ! j) \<and> attlen (fst (C ! j)) = -1) = (?v \<or> attlen att = -1)"
      using k(2,3) by (auto simp: less_Suc_eq)
    ultimately show ?thesis using s(2) by simp
  qed
  ultimately have "filled m0 lo hi tp bits bp C (k + 1) m' i'" using s(3) by (simp add: filled_def less_Suc_eq)
  then show ?thesis using s(1) by blast
qed

text \<open>The bitmap cursor after \<open>k\<close> columns, and how the loop advances it.\<close>

definition cursor :: "nat \<Rightarrow> nat \<Rightarrow> nat \<Rightarrow> nat \<Rightarrow> bool" where
  "cursor bp k bitp bitmask \<longleftrightarrow> bitp + 1 = bp + (k + 7) div 8 \<and> bitmask = 2 ^ ((k + 7) mod 8)"

lemma cursor_step:
  assumes "cursor bp k bitp bitmask"
  shows "(if bitmask \<noteq> 0x80 then (bitp, 2 * bitmask, m) else (bitp + 1, 1, m(bitp + 1 := 0))) =
      (bp + k div 8, 2 ^ (k mod 8), if k mod 8 = 0 then m(bp + k div 8 := 0) else m)"
    and "cursor bp (k + 1) (bp + k div 8) (2 ^ (k mod 8))"
proof -
  define q s where "q = k div 8" and "s = k mod 8"
  have k: "k = q * 8 + s" "s < 8" by (simp_all add: q_def s_def)
  show "cursor bp (k + 1) (bp + k div 8) (2 ^ (k mod 8))" by (simp add: cursor_def)
  show "(if bitmask \<noteq> 0x80 then (bitp, 2 * bitmask, m) else (bitp + 1, 1, m(bitp + 1 := 0))) =
      (bp + k div 8, 2 ^ (k mod 8), if k mod 8 = 0 then m(bp + k div 8 := 0) else m)"
  proof (cases "s = 0")
    case True
    then have "k + 7 = q * 8 + 7" using k(1) by simp
    moreover have "(q * 8 + 7) div 8 = q" "(q * 8 + 7) mod 8 = 7" by simp_all
    ultimately have "(k + 7) div 8 = q" "(k + 7) mod 8 = 7" by metis+
    then show ?thesis using assms True by (simp add: cursor_def q_def s_def)
  next
    case False
    have d: "(k + 7) div 8 = Suc q" using ceil8 [of s q] False k by simp
    then have "(k + 7) mod 8 = s - 1" using k False by (simp add: minus_div_mult_eq_mod [symmetric])
    then have b: "bitp = bp + q" "bitmask = 2 ^ (s - 1)" using assms d by (simp_all add: cursor_def)
    have "2 * (2 :: nat) ^ (s - 1) = 2 ^ s" using False by (cases s) auto
    moreover have "(2 :: nat) ^ (s - 1) < 2 ^ 7" using k(2) by (intro power_strict_increasing) auto
    ultimately show ?thesis using b False by (simp add: q_def s_def)
  qed
qed

lemma data_fill_loop_ok:
  assumes "C = pre @ cols" "filled m0 lo hi tp bits bp C (length pre) m i" "\<forall>c \<in> set C. col_ok m0 lo hi c"
    "8 dvd tp" "bits \<Longrightarrow> cursor bp (length pre) bitp bitmask" "bits \<Longrightarrow> lo \<le> bp \<and> bp + (length C + 7) div 8 \<le> tp"
    "lo \<le> tp" "tp + pos m0 C 0 \<le> hi" "\<not> bits \<Longrightarrow> \<forall>c \<in> set C. present c"
  shows "\<exists>i' m'. data_fill_loop m (tp + pos m0 pre 0) cols i bits bitp bitmask = Inr (i', m') \<and>
    filled m0 lo hi tp bits bp C (length C) m' i'"
  using assms
proof (induction cols arbitrary: pre m i bitp bitmask)
  case (Cons c cols)
  obtain att v n where c: "c = (att, v, n)" by (cases c) auto
  define k where "k = length pre"
  have k: "k < length C" "C ! k = c" "take k C = pre" using Cons.prems(1) by (auto simp: k_def)
  have next_pre: "C = (pre @ [c]) @ cols" "length (pre @ [c]) = k + 1" using Cons.prems(1) by (auto simp: k_def)
  define m1 where "m1 = (if bits \<and> k mod 8 = 0 then m(bp + k div 8 := 0) else m)"
  define bp' bm' where "bp' = (if bits then bp + k div 8 else bitp)" and "bm' = (if bits then 2 ^ (k mod 8) else bitmask)"
  have cur: "(if \<not> bits then (bitp, bitmask, m)
            else if bitmask \<noteq> 0x80 then (bitp, 2 * bitmask, m) else (bitp + 1, 1, m(bitp + 1 := 0))) = (bp', bm', m1)"
    using cursor_step(1) [OF Cons.prems(5), of m] by (simp add: bp'_def bm'_def m1_def k_def)
  have cur': "bits \<Longrightarrow> cursor bp (length (pre @ [c])) bp' bm'"
    using cursor_step(2) [OF Cons.prems(5)] by (simp add: bp'_def bm'_def k_def)
  have f: "filled m0 lo hi tp bits bp C k m i" using Cons.prems(2) by (simp add: k_def)
  have n: "n = CHR ''n'' \<longleftrightarrow> \<not> present c" by (simp add: c present_def)
  have step: "data_fill_loop m d (c # cols) i bits bitp bitmask =
      (if bits \<and> n = CHR ''n'' then data_fill_loop m1 d cols (i OR HEAP_HASNULL) bits bp' bm'
       else let m2 = (if bits then m1(bp' := m1 bp' OR of_nat bm') else m1); d1 = ATT_ALIGN d (attlen att) (attalign att)
            in cbind (store_column m2 d1 att v i) (\<lambda>(i', m').
                 data_fill_loop m' (ATT_ADD_LENGTH m' d1 (attlen att) (unat v)) cols i' bits bp' bm'))" for d
    by (simp only: c data_fill_loop.simps cur prod.case)
  show ?case
  proof (cases "present c")
    case False
    then have b: bits using Cons.prems(1,9) by auto
    have "filled m0 lo hi tp bits bp C (length (pre @ [c])) m1 (i OR HEAP_HASNULL)"
      using filled_null [of m0 lo hi tp bp C k m i m1] f k False Cons.prems(3,6,8) b next_pre(2) by (simp add: m1_def)
    then have "\<exists>i' m'. data_fill_loop m1 (tp + pos m0 (pre @ [c]) 0) cols (i OR HEAP_HASNULL) bits bp' bm' = Inr (i', m') \<and>
        filled m0 lo hi tp bits bp C (length C) m' i'"
      by (intro Cons.IH next_pre(1) cur') (use Cons.prems in auto)
    moreover have "pos m0 (pre @ [c]) 0 = pos m0 pre 0" using False by (simp add: pos_append)
    ultimately show ?thesis unfolding step using False b n by simp
  next
    case True
    define m2 where "m2 = (if bits then m1(bp + k div 8 := m1 (bp + k div 8) OR of_nat (2 ^ (k mod 8))) else m1)"
    have d: "ATT_ALIGN (tp + pos m0 pre 0) (attlen att) (attalign att) = tp + start m0 C k"
      using k by (simp add: start_def c col_align_def ATT_ALIGN_add [OF Cons.prems(4)])
    have kk: "present (C ! k)" "C ! k = (att, v, n)" using True k c by simp_all
    obtain i' m' where s: "store_column m2 (tp + start m0 C k) att v i = Inr (i', m')" "filled m0 lo hi tp bits bp C (k + 1) m' i'"
      using filled_present [OF f k(1) kk Cons.prems(3,6,7,8) m1_def m2_def] by blast
    have ck: "col_ok m0 lo hi (att, v, n)" using Cons.prems(1,3) c by simp
    have "ATT_ADD_LENGTH m' (tp + start m0 C k) (attlen att) (unat v) = tp + start m0 C k + col_size m0 (att, v, n)"
      using s(2) True c by (intro add_length_ok [OF ck]) (auto simp: filled_def)
    moreover have "start m0 C k + col_size m0 (att, v, n) = pos m0 (pre @ [c]) 0"
      using True k c by (simp add: pos_append start_def)
    moreover have "\<exists>i'' m''. data_fill_loop m' (tp + pos m0 (pre @ [c]) 0) cols i' bits bp' bm' = Inr (i'', m'') \<and>
        filled m0 lo hi tp bits bp C (length C) m'' i''"
      by (intro Cons.IH next_pre(1) cur') (use Cons.prems s(2) next_pre(2) in auto)
    moreover have "(if bits then m1(bp' := m1 bp' OR of_nat bm') else m1) = m2" by (simp add: m2_def bp'_def bm'_def)
    ultimately show ?thesis unfolding step using True n s(1) by (simp add: d Let_def add.assoc)
  qed
qed auto

section \<open>Formed tuples\<close>

lemma data_size_loop_ok:
  "\<forall>c \<in> set cols. col_ok m lo hi c \<Longrightarrow> pos m cols off < 2 ^ 32 \<Longrightarrow> data_size_loop m cols off = pos m cols off"
proof (induction cols arbitrary: off)
  case (Cons c cols)
  obtain att v n where c: "c = (att, v, n)" by (cases c) auto
  have ok: "col_ok m lo hi (att, v, n)" using Cons.prems(1) c by simp
  show ?case
  proof (cases "present c")
    case True
    then have n: "n = CHR '' ''" using ok c by (auto simp: col_ok_def present_def)
    let ?d = "ATT_ALIGN off (attlen att) (attalign att)"
    have p: "pos m (c # cols) off = pos m cols (?d + col_size m c)" using True by (simp add: col_align_def c)
    then have "?d + col_size m c < 2 ^ 32" using Cons.prems(2) pos_ge [of "?d + col_size m c" m cols] by linarith
    moreover have "ATT_ADD_LENGTH m d (attlen att) (unat v) = d + col_size m c" for d
      using add_length_ok [OF ok, of m d] True c by simp
    ultimately have "data_size_loop m (c # cols) off = data_size_loop m cols (?d + col_size m c)" using n by (simp add: c Let_def)
    then show ?thesis using Cons.IH [of "?d + col_size m c"] Cons.prems p by simp
  next
    case False
    then have "n \<noteq> CHR '' ''" by (simp add: c present_def)
    then show ?thesis using Cons False by (simp add: c)
  qed
qed simp

lemma BIT_MAP_LEN_eq: "0 < n \<Longrightarrow> BIT_MAP_LEN n = int ((n - 1) div 8 div 4 * 4 + 4)"
  using int_and_not_mask [of "int ((n - 1) div 8)" 2] by (simp add: BIT_MAP_LEN_def drop_bit_eq_div zdiv_int of_nat_diff)

lemma BIT_MAP_LEN_bounds: "0 < n \<Longrightarrow> n \<le> 1600 \<Longrightarrow> (n + 7) div 8 \<le> nat (BIT_MAP_LEN n) \<and> BIT_MAP_LEN n \<le> 200 \<and> 0 \<le> BIT_MAP_LEN n"
proof -
  assume n: "0 < n" "n \<le> 1600"
  define x where "x = (n - 1) div 8"
  have "(n + 7) div 8 = x + 1" using n(1) by (cases n) (simp_all add: x_def)
  moreover have "x \<le> 199" using n(2) by (simp add: x_def)
  then have "x div 4 * 4 + 4 \<le> 200" using div_le_mono [of x 199 4] by simp
  moreover have "x + 1 \<le> x div 4 * 4 + 4" using div_mult_mod_eq [of x 4] mod_less_divisor [of 4 x] by linarith
  moreover have "BIT_MAP_LEN n = int (x div 4 * 4 + 4)" using BIT_MAP_LEN_eq [OF n(1)] by (simp only: x_def)
  ultimately show ?thesis by simp
qed

text \<open>Changing memory only in \<open>[lo, hi)\<close> changes nothing of columns that are read elsewhere.\<close>

lemma col_transfer:
  assumes ok: "col_ok m lo hi c" and eq: "\<And>x. x < lo \<or> hi \<le> x \<Longrightarrow> m' x = m x" and p: "present c"
  shows "col_size m' c = col_size m c"
    and "\<not> attbyval (fst c) \<Longrightarrow> bytes_at m' (unat (fst (snd c))) (col_size m c) = bytes_at m (unat (fst (snd c))) (col_size m c)"
proof -
  let ?p = "unat (fst (snd c))"
  have e: "m' (?p + i) = m (?p + i)" if "i < col_size m c" "\<not> attbyval (fst c)" for i
  proof -
    have "?p + i \<in> {?p..<?p + col_size m c}" using that by simp
    then have "?p + i \<notin> {lo..<hi}" using ok p that(2) unfolding col_ok_def by auto
    then show ?thesis by (intro eq) auto
  qed
  show "\<not> attbyval (fst c) \<Longrightarrow> bytes_at m' ?p (col_size m c) = bytes_at m ?p (col_size m c)"
    using e by (intro bytes_at_eqI) simp
  show "col_size m' c = col_size m c"
  proof (cases "attlen (fst c) = -1")
    case True
    then have "4 \<le> col_size m c" "\<not> attbyval (fst c)" using ok p by (auto simp: col_ok_def att_ok_def)
    then have "get32 m' ?p = get32 m ?p" using e by (intro get32_cong) simp
    then show ?thesis using True by (simp add: col_size_def VARATT_SIZE_def)
  qed (simp add: col_size_def)
qed

lemma pos_cong: "(\<And>c. c \<in> set cs \<Longrightarrow> present c \<Longrightarrow> col_size m' c = col_size m c) \<Longrightarrow> pos m' cs off = pos m cs off"
  by (induction cs arbitrary: off) auto

lemma start_cong:
  "(\<And>c. c \<in> set cs \<Longrightarrow> present c \<Longrightarrow> col_size m' c = col_size m c) \<Longrightarrow> start m' cs i = start m cs i"
proof -
  assume "\<And>c. c \<in> set cs \<Longrightarrow> present c \<Longrightarrow> col_size m' c = col_size m c"
  then have "pos m' (take i cs) 0 = pos m (take i cs) 0" by (intro pos_cong) (meson in_set_takeD)
  then show ?thesis by (simp add: start_def)
qed

text \<open>
  A tuple in memory \<open>m\<close> that holds the columns \<open>C\<close>, whose values were read in memory \<open>m0\<close>: its header
  describes them, the null bitmap tells the present ones, and these are stored at their offsets.
\<close>

definition tuple_ok :: "mem \<Rightarrow> mem \<Rightarrow> HeapTupleData \<Rightarrow> column list \<Rightarrow> bool" where
  "tuple_ok m0 m tup C \<longleftrightarrow> t_natts m tup = int (length C) \<and>
     (HEAP_TUPLE_NO_NULLS m tup \<longleftrightarrow> (\<forall>c \<in> set C. present c)) \<and>
     (HEAP_TUPLE_ALL_FIXED m tup \<longleftrightarrow> (\<forall>c \<in> set C. present c \<longrightarrow> attlen (fst c) \<noteq> -1)) \<and>
     (\<not> HEAP_TUPLE_NO_NULLS m tup \<longrightarrow> (\<forall>i < length C. ATT_IS_NULL m i (t_data tup + T_BITS) \<longleftrightarrow> \<not> present (C ! i))) \<and>
     (\<forall>i < length C. present (C ! i) \<longrightarrow> stored m0 m (t_data tup + t_hoff m tup + start m0 C i) (C ! i))"

definition header_size :: "column list \<Rightarrow> nat" where
  "header_size C = MAX_ALIGN (if \<forall>c \<in> set C. present c then T_BITS else T_BITS + nat (BIT_MAP_LEN (length C)))"

lemma header_size_bounds:
  assumes "length C \<le> 1600"
  shows "32 \<le> header_size C" "header_size C \<le> 240" "16 dvd header_size C"
    "\<not> (\<forall>c \<in> set C. present c) \<Longrightarrow> T_BITS + (length C + 7) div 8 \<le> header_size C"
proof -
  have b: "\<not> (\<forall>c \<in> set C. present c) \<Longrightarrow> (length C + 7) div 8 \<le> nat (BIT_MAP_LEN (length C)) \<and> BIT_MAP_LEN (length C) \<le> 200 \<and> 0 \<le> BIT_MAP_LEN (length C)"
    using assms by (intro BIT_MAP_LEN_bounds) auto
  let ?n = "if \<forall>c \<in> set C. present c then T_BITS else T_BITS + nat (BIT_MAP_LEN (length C))"
  have "31 \<le> ?n \<and> ?n \<le> 231"
  proof (cases "\<forall>c \<in> set C. present c")
    case False
    then have "nat (BIT_MAP_LEN (length C)) \<le> 200" using b by linarith
    then show ?thesis using False by (simp add: T_BITS_def)
  qed (simp add: T_BITS_def)
  then have n: "31 \<le> ?n" "?n \<le> 231" by blast+
  show "32 \<le> header_size C" using MAX_ALIGN_mono [OF n(1)] by (simp add: header_size_def MAX_ALIGN_eq)
  show "header_size C \<le> 240" using MAX_ALIGN_mono [OF n(2)] by (simp add: header_size_def MAX_ALIGN_eq)
  show "16 dvd header_size C" unfolding header_size_def by (rule MAX_ALIGN_dvd)
  show "T_BITS + (length C + 7) div 8 \<le> header_size C" if "\<not> (\<forall>c \<in> set C. present c)"
  proof -
    have "T_BITS + (length C + 7) div 8 \<le> T_BITS + nat (BIT_MAP_LEN (length C))" using b [OF that] by simp
    also have "\<dots> \<le> header_size C" unfolding header_size_def if_not_P [OF that] by (rule MAX_ALIGN_ge)
    finally show ?thesis .
  qed
qed

lemma ATT_IS_NULL_bit: "ATT_IS_NULL m i b \<longleftrightarrow> \<not> bit (m (b + i div 8)) (i mod 8)"
  by (simp add: ATT_IS_NULL_def push_bit_eq_mult and_exp_eq_0_iff_not_bit)

text \<open>The data area, filled from a header that is already in memory.\<close>

lemma data_fill_ok:
  assumes C: "\<forall>c \<in> set C. col_ok m td (td + len) c" "length C \<le> 1600"
    and td: "16 dvd td" and len: "len = header_size C + pos m C 0"
    and eq: "\<And>x. x < td \<or> td + len \<le> x \<Longrightarrow> m3 x = m x"
    and bs: "bs = (if \<forall>c \<in> set C. present c then None else Some (td + T_BITS))"
  shows "\<exists>i m4. data_fill m3 (td + header_size C) C 0 bs = Inr (i, m4) \<and>
    filled m3 (td + T_BITS) (td + len) (td + header_size C) (bs \<noteq> None) (td + T_BITS) C (length C) m4 i"
proof -
  let ?lo = "td + T_BITS" and ?tp = "td + header_size C" and ?b = "bs \<noteq> None"
  note h = header_size_bounds [OF C(2)]
  have sz: "col_size m3 c = col_size m c" if "c \<in> set C" "present c" for c
    using C(1) that by (intro col_transfer(1) [of m td "td + len" c m3]) (auto simp: eq)
  have p: "pos m3 C 0 = pos m C 0" by (rule pos_cong) (rule sz)
  have ok3: "\<forall>c \<in> set C. col_ok m3 ?lo (td + len) c"
  proof
    fix c assume c: "c \<in> set C"
    then have "col_ok m td (td + len) c" using C(1) by blast
    moreover have "{?lo..<td + len} \<subseteq> {td..<td + len}" by auto
    ultimately show "col_ok m3 ?lo (td + len) c" using sz [OF c] unfolding col_ok_def by auto
  qed
  have f0: "filled m3 ?lo (td + len) ?tp ?b ?lo C (length ([] :: column list)) m3 0"
    by (simp add: filled_def bits_ok_def flags_are_def)
  have b: "?b \<Longrightarrow> \<not> (\<forall>c \<in> set C. present c)" "\<not> ?b \<Longrightarrow> \<forall>c \<in> set C. present c" using bs by (auto split: if_splits)
  have "data_fill m3 ?tp C 0 bs = data_fill_loop m3 (?tp + pos m3 [] 0) C 0 ?b
      (if ?b then ?lo - 1 else 0) (if ?b then 0x80 else 0)"
    using bs by (auto simp: data_fill_def split: if_splits)
  moreover have "\<exists>i m4. data_fill_loop m3 (?tp + pos m3 [] 0) C 0 ?b (if ?b then ?lo - 1 else 0) (if ?b then 0x80 else 0) = Inr (i, m4) \<and>
      filled m3 ?lo (td + len) ?tp ?b ?lo C (length C) m4 i"
  proof (rule data_fill_loop_ok [of C "[]" C, OF _ f0 ok3])
    have "16 dvd ?tp" using td h(3) by (rule dvd_add)
    then show "8 dvd ?tp" by (rule dvd_trans [rotated]) simp
    show "cursor ?lo (length ([] :: column list)) (if ?b then ?lo - 1 else 0) (if ?b then 128 else 0)" if ?b
      using that by (simp add: cursor_def T_BITS_def)
    show "?lo \<le> ?lo \<and> ?lo + (length C + 7) div 8 \<le> ?tp" if ?b
      using h(4) [OF b(1) [OF that]] by simp
    show "?lo \<le> ?tp" using h(1) by (simp add: T_BITS_def)
    show "?tp + pos m3 C 0 \<le> td + len" using len p by simp
  qed (use b in auto)
  ultimately show ?thesis by simp
qed

lemma Bex_set_nth: "(\<exists>c \<in> set C. P c) \<longleftrightarrow> (\<exists>j < length C. P (C ! j))"
  by (metis in_set_conv_nth)

lemma sint_small: "n \<le> 1600 \<Longrightarrow> sint (of_nat n :: 16 word) = int n"
  by (simp add: signed_of_nat signed_take_bit_int_eq_self)

text \<open>What \<open>filled\<close> gives once the flags have been stored in the header.\<close>

lemma filled_tuple_ok:
  assumes f: "filled m3 (td + T_BITS) hi (td + header_size C) (\<not> (\<forall>c \<in> set C. present c)) (td + T_BITS) C (length C) m4 i"
    and C: "length C \<le> 1600" "\<forall>c \<in> set C. col_ok m td hi c" and hi: "td + T_BITS \<le> hi"
    and eq: "\<And>x. x < td \<or> hi \<le> x \<Longrightarrow> m3 x = m x"
    and hd: "get16 m3 (td + T_NATTS) = of_nat (length C)" "m3 (td + T_HOFF) = of_nat (header_size C)"
    and m5: "m5 = put16 m4 (td + T_INFO_MASK) (i OR HEAP_XMAX_INVALID)" and t: "t_data tup = td"
  shows "tuple_ok m m5 tup C" "\<And>x. x < td \<or> hi \<le> x \<Longrightarrow> m5 x = m x" "t_hoff m5 tup = header_size C"
proof -
  note h = header_size_bounds [OF C(1)]
  have low: "m4 x = m3 x" if "x < td + T_BITS" for x using f that by (simp add: filled_def)
  have up: "m5 x = m4 x" if "x < td + T_INFO_MASK \<or> td + T_HOFF \<le> x" for x
    using that by (auto simp: m5 heap_consts mem_simps)
  have sz: "col_size m3 c = col_size m c" "stored m3 m4 a c \<Longrightarrow> stored m m4 a c" if "c \<in> set C" "present c" for a c
    using col_transfer [of m td hi c m3] C(2) that eq by (auto simp: stored_def)
  have natts: "t_natts m5 tup = int (length C)"
  proof -
    have "get16 m5 (td + T_NATTS) = get16 m3 (td + T_NATTS)"
      by (rule get16_cong) (simp_all add: up low heap_consts)
    then show ?thesis using hd(1) C(1) by (simp add: t_natts_def t sint_small)
  qed
  have hoff: "t_hoff m5 tup = header_size C"
    using hd(2) h(2) by (simp add: t_hoff_def t up low heap_consts unat_of_nat)
  have flags: "flags_are (t_info_mask m5 tup) (\<exists>c \<in> set C. \<not> present c) (\<exists>c \<in> set C. present c \<and> attlen (fst c) = -1)"
  proof -
    have "flags_are i (\<exists>j < length C. \<not> present (C ! j)) (\<exists>j < length C. present (C ! j) \<and> attlen (fst (C ! j)) = -1)"
      using f by (simp add: filled_def)
    moreover have "t_info_mask m5 tup = i OR HEAP_XMAX_INVALID" by (simp add: t_info_mask_def m5 t mem_simps)
    ultimately show ?thesis by (simp add: Bex_set_nth flags_step)
  qed
  have bits: "ATT_IS_NULL m5 j (td + T_BITS) \<longleftrightarrow> \<not> present (C ! j)" if "\<not> (\<forall>c \<in> set C. present c)" "j < length C" for j
  proof -
    have "bits_ok m4 (td + T_BITS) C (length C)" using f that(1) by (simp add: filled_def)
    moreover have "j < 8 * ((length C + 7) div 8)" using that(2) by linarith
    ultimately show ?thesis using that(2) by (simp add: ATT_IS_NULL_bit bits_ok_def up heap_consts)
  qed
  have st: "stored m m5 (td + header_size C + start m C j) (C ! j)" if j: "j < length C" "present (C ! j)" for j
  proof (rule stored_cong)
    have "stored m3 m4 (td + header_size C + start m3 C j) (C ! j)" using f j by (simp add: filled_def)
    moreover have "start m3 C j = start m C j" by (rule start_cong) (rule sz(1))
    ultimately show "stored m m4 (td + header_size C + start m C j) (C ! j)" using sz(2) j by simp
    show "att_ok (fst (C ! j))" using C(2) j by (simp add: col_ok_def)
    fix x assume "td + header_size C + start m C j \<le> x"
    then show "m5 x = m4 x" using h(1) by (intro up) (simp add: heap_consts)
  qed
  show "tuple_ok m m5 tup C"
    using natts hoff flags bits st
    by (auto simp: tuple_ok_def t HEAP_TUPLE_NO_NULLS_def HEAP_TUPLE_ALL_FIXED_def flags_are_def)
  show "m5 x = m x" if "x < td \<or> hi \<le> x" for x
    using that up [of x] eq [OF that] f hi by (auto simp: filled_def heap_consts)
  show "t_hoff m5 tup = header_size C" using hoff t by simp
qed

lemma zip_columns: "length atts \<le> length value \<Longrightarrow> length atts \<le> length nulls \<Longrightarrow> length (zip atts (zip value nulls)) = length atts"
  by simp

lemma heap_form_tuple_ok:
  assumes C: "C = zip atts (zip value nulls)" "length atts \<le> 1600" "length atts \<le> length value" "length atts \<le> length nulls"
    and al: "palloc hp (HEAP_TUPLE_SIZE + header_size C + pos m C 0) = Inr (a, hp')" "16 dvd a"
    and ok: "\<forall>c \<in> set C. col_ok m (a + HEAP_TUPLE_SIZE) (a + HEAP_TUPLE_SIZE + header_size C + pos m C 0) c" "pos m C 0 < 2 ^ 32"
  shows "\<exists>tup m'. heap_form_tuple palloc cxt hp m atts value nulls = Inr (tup, hp', m') \<and> tuple_ok m m' tup C \<and> t_hoff m' tup = header_size C \<and>
    t_addr tup = a \<and> t_data tup = a + HEAP_TUPLE_SIZE \<and> t_len tup = header_size C + pos m C 0 \<and>
    (\<forall>x. x < a + HEAP_TUPLE_SIZE \<or> a + HEAP_TUPLE_SIZE + header_size C + pos m C 0 \<le> x \<longrightarrow> m' x = m x)"
proof -
  define td len where "td = a + HEAP_TUPLE_SIZE" and "len = header_size C + pos m C 0"
  have lC: "length C = length atts" using C by simp
  have C16: "length C \<le> 1600" using C(2) lC by simp
  note h = header_size_bounds [OF C16]
  have ok': "\<forall>c \<in> set C. col_ok m td (td + len) c" using ok(1) by (simp add: td_def len_def add.assoc)
  have sp: "c = CHR '' '' \<longleftrightarrow> present (att, v, c)" if "(att, v, c) \<in> set C" for att v c
    using ok' that by (auto simp: col_ok_def present_def)
  have hn: "list_ex (\<lambda>(_, _, c). c \<noteq> CHR '' '') C \<longleftrightarrow> \<not> (\<forall>c \<in> set C. present c)"
  proof -
    have "(case c of (_, _, n) \<Rightarrow> n \<noteq> CHR '' '') \<longleftrightarrow> \<not> present c" if "c \<in> set C" for c
      using sp that by (cases c) auto
    then show ?thesis by (auto simp: list_ex_iff)
  qed
  have hs: "MAX_ALIGN (if list_ex (\<lambda>(_, _, c). c \<noteq> CHR '' '') C then nat (int T_BITS + BIT_MAP_LEN (length atts)) else T_BITS) = header_size C"
  proof (cases "\<forall>c \<in> set C. present c")
    case False
    then have "0 < length C" by auto
    then have "0 \<le> BIT_MAP_LEN (length C)" using BIT_MAP_LEN_bounds C16 by blast
    then show ?thesis using False by (auto simp: hn header_size_def lC nat_add_distrib)
  qed (simp add: hn header_size_def)
  have ds: "compute_data_size m C = pos m C 0"
    unfolding compute_data_size_def by (rule data_size_loop_ok [OF ok' ok(2)])
  define m1 where "m1 = memset m td 0 len"
  define m3 where "m3 = (put16 m1 (td + T_NATTS) (of_nat (length atts)))(td + T_HOFF := of_nat (header_size C))"
  have l32: "32 \<le> len" using h(1) by (simp add: len_def)
  have eq: "m3 x = m x" if "x < td \<or> td + len \<le> x" for x
    using that l32 by (auto simp: m3_def m1_def heap_consts mem_simps)
  have hoff2: "unat (of_nat (header_size C) :: byte) = header_size C" using h(2) by (simp add: unat_of_nat)
  have mask0: "get16 m3 (td + T_INFO_MASK) = 0"
  proof -
    have "get16 m3 (td + T_INFO_MASK) = get16 (\<lambda>_. 0) 0"
      by (rule get16_cong) (use l32 in \<open>simp_all add: m3_def m1_def heap_consts mem_simps\<close>)
    then show ?thesis by (simp add: get16_def)
  qed
  have natts: "get16 m3 (td + T_NATTS) = of_nat (length C)"
  proof -
    have "get16 m3 (td + T_NATTS) = get16 (put16 m1 (td + T_NATTS) (of_nat (length atts))) (td + T_NATTS)"
      by (rule get16_cong) (simp_all add: m3_def heap_consts)
    then show ?thesis by (simp add: mem_simps lC)
  qed
  define bs where "bs = (if \<forall>c \<in> set C. present c then None else Some (td + T_BITS))"
  have a32: "16 dvd td" using al(2) by (simp add: td_def HEAP_TUPLE_SIZE_def MAX_ALIGN_eq)
  obtain i m4 where f: "data_fill m3 (td + header_size C) C 0 bs = Inr (i, m4)"
      "filled m3 (td + T_BITS) (td + len) (td + header_size C) (bs \<noteq> None) (td + T_BITS) C (length C) m4 i"
    using data_fill_ok [OF ok' C16 a32 len_def eq bs_def] by blast
  define m5 where "m5 = put16 m4 (td + T_INFO_MASK) (i OR HEAP_XMAX_INVALID)"
  let ?tup = "\<lparr>t_addr = a, t_len = len, t_self = (0, 0), t_table_oid = 0, t_data_mcxt = cxt, t_data = td\<rparr>"
  have al': "palloc hp (HEAP_TUPLE_SIZE + len) = Inr (a, hp')" using al(1) by (simp add: len_def add.assoc)
  have bs2: "(if list_ex (\<lambda>(_, _, c). c \<noteq> CHR '' '') C then Some (td + T_BITS) else None) = bs" by (simp add: hn bs_def)
  have "heap_form_tuple palloc cxt hp m atts value nulls = Inr (?tup, hp', m5)"
    unfolding heap_form_tuple_def C(1) [symmetric] Let_def hs ds len_def [symmetric]
    using C(2-4) al' f(1) [folded bs2] hoff2
    by (simp add: MAX_HEAP_ATTRIBUTE_NUMBER_def not_less td_def [symmetric] m1_def [symmetric] m3_def [symmetric] mask0 m5_def split: if_splits)
  moreover have b: "(bs \<noteq> None) = (\<not> (\<forall>c \<in> set C. present c))" by (simp add: bs_def)
  have "tuple_ok m m5 ?tup C" "\<And>x. x < td \<or> td + len \<le> x \<Longrightarrow> m5 x = m x" "t_hoff m5 ?tup = header_size C"
  proof -
    have T: "td + T_BITS \<le> td + len" using l32 by (simp add: T_BITS_def)
    have H: "m3 (td + T_HOFF) = of_nat (header_size C)" by (simp add: m3_def)
    show "tuple_ok m m5 ?tup C"
      by (rule filled_tuple_ok [OF f(2) [unfolded b] C16 ok' T eq natts H m5_def]) simp_all
    show "m5 x = m x" if "x < td \<or> td + len \<le> x" for x
      by (rule filled_tuple_ok(2) [OF f(2) [unfolded b] C16 ok' T eq natts H m5_def, of ?tup]) (use that in simp_all)
    show "t_hoff m5 ?tup = header_size C"
      by (rule filled_tuple_ok(3) [OF f(2) [unfolded b] C16 ok' T eq natts H m5_def]) simp_all
  qed
  ultimately show ?thesis by (auto simp: td_def len_def add.assoc)
qed

section \<open>Reading a formed tuple\<close>

text \<open>The descriptor of the reader: the attributes of the columns, up to the cached offsets.\<close>

definition same_atts :: "pg_attribute list \<Rightarrow> column list \<Rightarrow> bool" where
  "same_atts atts C \<longleftrightarrow> length atts = length C \<and> (\<forall>i < length C. attlen (atts ! i) = attlen (fst (C ! i)) \<and>
     attbyval (atts ! i) = attbyval (fst (C ! i)) \<and> attalign (atts ! i) = attalign (fst (C ! i)))"

text \<open>The offset behind the first \<open>j\<close> columns when all are present and of fixed length: it depends on the types only.\<close>

fun fpos :: "column list \<Rightarrow> nat \<Rightarrow> nat" where
  "fpos C 0 = 0"
| "fpos C (Suc j) = col_align (C ! j) (fpos C j) + nat (attlen (fst (C ! j)))"

definition cache_ok :: "pg_attribute list \<Rightarrow> column list \<Rightarrow> bool" where
  "cache_ok atts C \<longleftrightarrow> (\<forall>j < length C. attcacheoff (atts ! j) \<noteq> -1 \<longrightarrow>
     (\<forall>k < j. 0 < attlen (fst (C ! k))) \<and> attcacheoff (atts ! j) = int (col_align (C ! j) (fpos C j)))"

lemma pos_fixed:
  "\<forall>k < j. present (C ! k) \<and> 0 < attlen (fst (C ! k)) \<Longrightarrow> j \<le> length C \<Longrightarrow> pos m (take j C) 0 = fpos C j"
proof (induction j)
  case (Suc j)
  then have "pos m (take j C) 0 = fpos C j" "present (C ! j)" "0 < attlen (fst (C ! j))" by auto
  then show ?case using Suc.prems(2) by (simp add: take_Suc_conv_app_nth pos_append col_size_def)
qed simp

lemma cache_update:
  assumes "same_atts atts C" "cache_ok atts C" "j < length C" "\<forall>k < j. 0 < attlen (fst (C ! k))"
    "off = col_align (C ! j) (fpos C j)"
  shows "same_atts (atts[j := (atts ! j)\<lparr>attcacheoff := int off\<rparr>]) C" "cache_ok (atts[j := (atts ! j)\<lparr>attcacheoff := int off\<rparr>]) C"
  using assms by (auto simp: same_atts_def cache_ok_def nth_list_update)

lemma ex_low_bit: "(NOT b AND (2 ^ r - 1) \<noteq> (0 :: byte)) \<longleftrightarrow> (\<exists>k < r. k < 8 \<and> \<not> bit b k)"
proof -
  have "2 ^ r - 1 = (mask r :: byte)" by (simp add: mask_eq_decr_exp)
  then show ?thesis by (auto simp: bit_eq_iff bit_simps)
qed

lemma byte_not_full: "b \<noteq> (0xFF :: byte) \<longleftrightarrow> (\<exists>k < 8. \<not> bit b k)"
proof -
  have "(0xFF :: byte) = mask 8" by (simp add: mask_eq_decr_exp)
  then show ?thesis by (auto simp: bit_eq_iff bit_simps dest: bit_imp_le_length)
qed

lemma nulls_before_iff: "nulls_before m bp a \<longleftrightarrow> (\<exists>i < a. ATT_IS_NULL m i bp)"
proof
  assume "nulls_before m bp a"
  then consider k where "k < a mod 8" "\<not> bit (m (bp + a div 8)) k" | j k where "j < a div 8" "k < 8" "\<not> bit (m (bp + j)) k"
    by (auto simp: nulls_before_def ex_low_bit byte_not_full list_ex_iff)
  then show "\<exists>i < a. ATT_IS_NULL m i bp"
  proof cases
    case 1
    moreover have "k < 8" using 1(1) by (rule less_trans) simp
    ultimately have "ATT_IS_NULL m (a div 8 * 8 + k) bp" by (simp add: ATT_IS_NULL_bit)
    moreover have "a div 8 * 8 + k < a" using 1(1) div_mult_mod_eq [of a 8] by linarith
    ultimately show ?thesis by blast
  next
    case 2
    then have "ATT_IS_NULL m (j * 8 + k) bp" by (simp add: ATT_IS_NULL_bit)
    moreover have "j * 8 + k < a"
    proof -
      have "Suc j * 8 \<le> a div 8 * 8" using 2(1) by simp
      then show ?thesis using 2(2) div_mult_mod_eq [of a 8] by simp
    qed
    ultimately show ?thesis by blast
  qed
next
  assume "\<exists>i < a. ATT_IS_NULL m i bp"
  then obtain i where i: "i < a" "\<not> bit (m (bp + i div 8)) (i mod 8)" by (auto simp: ATT_IS_NULL_bit)
  show "nulls_before m bp a"
  proof (cases "i div 8 = a div 8")
    case True
    then have "i mod 8 < a mod 8" using i(1) div_mult_mod_eq [of a 8] div_mult_mod_eq [of i 8] by linarith
    then show ?thesis using i(2) True by (auto simp: nulls_before_def ex_low_bit)
  next
    case False
    then have "i div 8 < a div 8" using i(1) div_le_mono [of i a 8] by simp
    moreover have "m (bp + i div 8) \<noteq> 0xFF" using i(2) byte_not_full by fastforce
    ultimately show ?thesis unfolding nulls_before_def list_ex_iff by auto
  qed
qed

text \<open>A tuple and the descriptor it is read with.\<close>

definition readable :: "mem \<Rightarrow> mem \<Rightarrow> HeapTupleData \<Rightarrow> column list \<Rightarrow> pg_attribute list \<Rightarrow> bool" where
  "readable m0 m tup C atts \<longleftrightarrow> tuple_ok m0 m tup C \<and> same_atts atts C \<and> cache_ok atts C \<and>
     (\<forall>c \<in> set C. att_ok (fst c) \<and> (present c \<longrightarrow> attlen (fst c) = -1 \<longrightarrow> 4 \<le> col_size m0 c))"

lemma readable_update:
  assumes "readable m0 m tup C atts" "j < length C" "\<forall>k < j. 0 < attlen (fst (C ! k))" "off = col_align (C ! j) (fpos C j)"
  shows "readable m0 m tup C (atts[j := (atts ! j)\<lparr>attcacheoff := int off\<rparr>])"
  using assms cache_update [of atts C j off] by (simp add: readable_def)

lemma readable_add_length:
  assumes r: "readable m0 m tup C atts" and i: "i < length C" "present (C ! i)"
  shows "ATT_ADD_LENGTH m (start m0 C i) (attlen (fst (C ! i))) (t_data tup + t_hoff m tup + start m0 C i) =
    start m0 C i + col_size m0 (C ! i)"
proof (cases "attlen (fst (C ! i)) = -1")
  case True
  let ?a = "t_data tup + t_hoff m tup + start m0 C i" and ?s = "col_size m0 (C ! i)" and ?p = "unat (fst (snd (C ! i)))"
  have "\<not> attbyval (fst (C ! i))" "4 \<le> ?s" using r i True by (auto simp: readable_def att_ok_def)
  moreover have "stored m0 m ?a (C ! i)" using r i by (simp add: readable_def tuple_ok_def)
  ultimately have b: "bytes_at m ?a ?s = bytes_at m0 ?p ?s" "4 \<le> ?s" by (simp_all add: stored_def)
  have "m (?a + k) = m0 (?p + k)" if "k < 4" for k
    using arg_cong [OF b(1), of "\<lambda>xs. xs ! k"] that b(2) by simp
  then have "get32 m ?a = get32 m0 ?p" by (rule get32_cong)
  then show ?thesis using True by (simp add: ATT_ADD_LENGTH_def col_size_def VARATT_SIZE_def)
next
  case False
  then have "0 < attlen (fst (C ! i))" using r i by (auto simp: readable_def att_ok_def)
  then show ?thesis using False by (simp add: ATT_ADD_LENGTH_def col_size_def nat_add_distrib)
qed

lemma readable_null: "readable m0 m tup C atts \<Longrightarrow> i < length C \<Longrightarrow>
  (\<not> HEAP_TUPLE_NO_NULLS m tup \<and> ATT_IS_NULL m i (t_data tup + T_BITS)) \<longleftrightarrow> \<not> present (C ! i)"
  by (auto simp: readable_def tuple_ok_def)

lemma readable_fields: "readable m0 m tup C atts \<Longrightarrow> i < length C \<Longrightarrow>
  length atts = length C \<and> attlen (atts ! i) = attlen (fst (C ! i)) \<and> attbyval (atts ! i) = attbyval (fst (C ! i)) \<and>
  attalign (atts ! i) = attalign (fst (C ! i))"
  by (simp add: readable_def same_atts_def)

lemma readable_cached: "readable m0 m tup C atts \<Longrightarrow> i < length C \<Longrightarrow> attcacheoff (atts ! i) \<noteq> -1 \<Longrightarrow>
  attcacheoff (atts ! i) = int (col_align (C ! i) (fpos C i))"
  by (simp add: readable_def cache_ok_def)

lemma slow_walk_ok:
  "readable m0 m tup C atts \<Longrightarrow> i \<le> n \<Longrightarrow> n \<le> length C \<Longrightarrow> off = pos m0 (take i C) 0 \<Longrightarrow>
   (usecache \<Longrightarrow> \<forall>k < i. present (C ! k) \<and> 0 < attlen (fst (C ! k))) \<Longrightarrow>
   \<exists>atts'. slow_walk m tup n atts i off usecache = (pos m0 (take n C) 0, atts') \<and> readable m0 m tup C atts'"
proof (induction "n - i" arbitrary: i atts off usecache)
  case 0
  then show ?case by (subst slow_walk.simps) auto
next
  case (Suc d)
  then have i: "i < n" "i < length C" "n - Suc i = d" by auto
  note null = readable_null [OF Suc.prems(1) i(2)]
  note f = readable_fields [OF Suc.prems(1) i(2)]
  have tk: "take (Suc i) C = take i C @ [C ! i]" using i(2) by (simp add: take_Suc_conv_app_nth)
  show ?case
  proof (cases "present (C ! i)")
    case False
    then have "slow_walk m tup n atts i off usecache = slow_walk m tup n atts (Suc i) off False"
      using i(1) null by (subst slow_walk.simps) simp
    moreover have "off = pos m0 (take (Suc i) C) 0" using False Suc.prems(4) by (simp add: tk pos_append)
    ultimately show ?thesis using Suc.hyps(1) [of "Suc i" atts off False] i Suc.prems by simp
  next
    case True
    define cached where "cached \<longleftrightarrow> usecache \<and> attcacheoff (atts ! i) \<noteq> -1"
    define off1 where "off1 = (if cached then nat (attcacheoff (atts ! i)) else ATT_ALIGN off (attlen (atts ! i)) (attalign (atts ! i)))"
    define atts1 where "atts1 = (if \<not> cached \<and> usecache then atts[i := (atts ! i)\<lparr>attcacheoff := int off1\<rparr>] else atts)"
    have fx: "off = fpos C i" if usecache using pos_fixed Suc.prems(3-5) that i by simp
    have s: "off1 = start m0 C i"
      using fx readable_cached [OF Suc.prems(1) i(2)] Suc.prems(4) f
      by (auto simp: off1_def cached_def start_def col_align_def)
    have r1: "readable m0 m tup C atts1"
    proof (cases "\<not> cached \<and> usecache")
      case c: True
      then have "off1 = col_align (C ! i) (fpos C i)" using s fx Suc.prems(4) by (simp add: start_def)
      then show ?thesis using readable_update [OF Suc.prems(1) i(2)] Suc.prems(5) c by (simp add: atts1_def)
    qed (use Suc.prems(1) in \<open>auto simp: atts1_def\<close>)
    have "slow_walk m tup n atts i off usecache =
        slow_walk m tup n atts1 (Suc i) (start m0 C i + col_size m0 (C ! i)) (usecache \<and> attlen (fst (C ! i)) \<noteq> -1)"
    proof -
      have nn: "\<not> (\<not> HEAP_TUPLE_NO_NULLS m tup \<and> ATT_IS_NULL m i (t_data tup + T_BITS))" using null True by blast
      have "slow_walk m tup n atts i off usecache = slow_walk m tup n atts1 (Suc i)
          (ATT_ADD_LENGTH m off1 (attlen (atts ! i)) (t_data tup + t_hoff m tup + off1)) (usecache \<and> attlen (atts ! i) \<noteq> -1)"
        unfolding slow_walk.simps [of m tup n atts i off usecache] Let_def if_P [OF i(1)] if_not_P [OF nn] atts1_def off1_def cached_def
        by (simp only: Suc_eq_plus1)
      then show ?thesis using readable_add_length [OF Suc.prems(1) i(2) True] f s by simp
    qed
    moreover have "start m0 C i + col_size m0 (C ! i) = pos m0 (take (Suc i) C) 0"
      using True by (simp add: tk pos_append start_def)
    moreover have "\<forall>k < Suc i. present (C ! k) \<and> 0 < attlen (fst (C ! k))" if "usecache \<and> attlen (fst (C ! i)) \<noteq> -1"
    proof -
      have "0 < attlen (fst (C ! i))" using that Suc.prems(1) i(2) by (auto simp: readable_def att_ok_def)
      then show ?thesis using that Suc.prems(5) True by (auto simp: less_Suc_eq)
    qed
    ultimately show ?thesis using Suc.hyps(1) [of "Suc i" atts1] r1 i Suc.prems(3) by simp
  qed
qed

lemma skip_cached_ok:
  "1 \<le> j \<Longrightarrow> let j' = skip_cached atts n j in j \<le> j' \<and> (j' \<le> n \<or> j' = j) \<and> (\<forall>k. j \<le> k \<longrightarrow> k < j' \<longrightarrow> attcacheoff (atts ! k) > 0)"
proof (induction atts n j rule: skip_cached.induct)
  case (1 atts n j)
  show ?case
  proof (cases "j < n \<and> attcacheoff (atts ! j) > 0")
    case True
    then have "skip_cached atts n j = skip_cached atts n (j + 1)" by (subst skip_cached.simps) simp
    moreover have "attcacheoff (atts ! k) > 0" if "j \<le> k" "k < skip_cached atts n (j + 1)" for k
      using "1.IH" [OF True] that True by (cases "k = j") (auto simp: Let_def)
    ultimately show ?thesis using "1.IH" [OF True] True by (auto simp: Let_def)
  next
    case False
    then have "skip_cached atts n j = j" by (subst skip_cached.simps) auto
    then show ?thesis by simp
  qed
qed

lemma cache_loop_ok:
  "readable m0 m tup C atts \<Longrightarrow> n < length C \<Longrightarrow> \<forall>k \<le> n. present (C ! k) \<and> 0 < attlen (fst (C ! k)) \<Longrightarrow>
   j \<le> length C \<Longrightarrow> \<forall>k < j. 0 < attlen (fst (C ! k)) \<Longrightarrow> off = fpos C j \<Longrightarrow>
   \<exists>atts'. cache_loop m tup n atts j off = Inr atts' \<and> readable m0 m tup C atts' \<and>
     (n < j \<longrightarrow> attcacheoff (atts' ! n) = attcacheoff (atts ! n)) \<and>
     (j \<le> n \<longrightarrow> attcacheoff (atts' ! n) = int (col_align (C ! n) (fpos C n)))"
proof (induction "length C - j" arbitrary: j atts off)
  case 0
  then have "\<not> (j \<le> n \<or> int j < t_natts m tup)" by (simp add: readable_def tuple_ok_def)
  then have "cache_loop m tup n atts j off = Inr atts" by (subst cache_loop.simps) simp
  then show ?case using 0 by auto
next
  case (Suc d)
  then have j: "j < length C" "length C - Suc j = d" by auto
  note f = readable_fields [OF Suc.prems(1) j(1)]
  have na: "int j < t_natts m tup" using Suc.prems(1) j(1) by (simp add: readable_def tuple_ok_def)
  let ?go = "j \<le> n \<or> (attcacheoff (atts ! j) = -1 \<and>
           (HEAP_TUPLE_NO_NULLS m tup \<or> \<not> ATT_IS_NULL m j (t_data tup + T_BITS)) \<and>
           (HEAP_TUPLE_ALL_FIXED m tup \<or> attlen (atts ! j) > 0))"
  show ?case
  proof (cases ?go)
    case False
    then have "cache_loop m tup n atts j off = Inr atts" using j f by (subst cache_loop.simps) auto
    then show ?thesis using False Suc.prems(1) by auto
  next
    case True
    define off1 where "off1 = col_align (C ! j) (fpos C j)"
    define atts1 where "atts1 = atts[j := (atts ! j)\<lparr>attcacheoff := int off1\<rparr>]"
    have fixed: "0 < attlen (fst (C ! j))"
    proof (cases "j \<le> n")
      case False
      then have p: "present (C ! j)" using True readable_null [OF Suc.prems(1) j(1)] by blast
      have "attlen (fst (C ! j)) \<noteq> -1"
        using True False f p Suc.prems(1) j(1) by (auto simp: readable_def tuple_ok_def)
      then show ?thesis using Suc.prems(1) j(1) by (auto simp: readable_def att_ok_def)
    qed (use Suc.prems(3) in blast)
    have "cache_loop m tup n atts j off = cache_loop m tup n atts1 (Suc j) (fpos C (Suc j))"
    proof -
      have "ATT_ALIGN off (attlen (atts ! j)) (attalign (atts ! j)) = off1" using f Suc.prems(6) by (simp add: off1_def col_align_def)
      moreover have "ATT_ADD_LENGTH m off1 (attlen (atts ! j)) (t_data tup + t_hoff m tup + off1) = fpos C (Suc j)"
        using f fixed by (simp add: ATT_ADD_LENGTH_def off1_def nat_add_distrib)
      moreover have "\<not> \<not> (j \<le> n \<or> int j < t_natts m tup)" "\<not> length atts \<le> j" using na f j(1) by auto
      ultimately show ?thesis
        unfolding cache_loop.simps [of m tup n atts j off] by (simp only: True if_True if_False not_not not_True_eq_False Let_def atts1_def Suc_eq_plus1)
    qed
    moreover have r1: "readable m0 m tup C atts1"
      unfolding atts1_def by (rule readable_update [OF Suc.prems(1) j(1) Suc.prems(5) off1_def])
    moreover have "\<forall>k < Suc j. 0 < attlen (fst (C ! k))" using Suc.prems(5) fixed by (auto simp: less_Suc_eq)
    ultimately obtain atts' where a: "cache_loop m tup n atts j off = Inr atts'" "readable m0 m tup C atts'"
      "n < Suc j \<longrightarrow> attcacheoff (atts' ! n) = attcacheoff (atts1 ! n)"
      "Suc j \<le> n \<longrightarrow> attcacheoff (atts' ! n) = int (col_align (C ! n) (fpos C n))"
      using Suc.hyps(1) [of "Suc j" atts1 "fpos C (Suc j)"] j Suc.prems(2,3) by auto
    have "attcacheoff (atts1 ! n) = (if n = j then int off1 else attcacheoff (atts ! n))"
      using j(1) f by (simp add: atts1_def nth_list_update)
    then show ?thesis using a by (auto simp: off1_def less_Suc_eq Suc_le_eq)
  qed
qed

lemma FETCH_ATT_cong: "attlen a = attlen b \<Longrightarrow> attbyval a = attbyval b \<Longrightarrow> FETCH_ATT m a t = FETCH_ATT m b t"
  by (simp add: FETCH_ATT_def)

lemma no_cache_get_attr_ok:
  assumes r: "readable m0 m tup C atts" and n: "n < length C" "present (C ! n)"
  shows "\<exists>atts'. no_cache_get_attr m tup (Suc n) atts =
      Inr (FETCH_ATT m (fst (C ! n)) (t_data tup + t_hoff m tup + start m0 C n), atts') \<and> readable m0 m tup C atts'"
proof -
  let ?bp = "t_data tup + T_BITS" and ?tp = "t_data tup + t_hoff m tup"
  let ?slow = "\<not> HEAP_TUPLE_NO_NULLS m tup \<and> nulls_before m ?bp n"
  have len: "length atts = length C" using readable_fields [OF r n(1)] by simp
  have fetch: "FETCH_ATT m (a ! n) t = FETCH_ATT m (fst (C ! n)) t" if "readable m0 m tup C a" for a t
    using readable_fields [OF that n(1)] by (intro FETCH_ATT_cong) auto
  have pres: "\<not> ?slow \<longleftrightarrow> (\<forall>k \<le> n. present (C ! k))"
  proof -
    have "?slow \<longleftrightarrow> (\<exists>k < n. \<not> present (C ! k))"
      using readable_null [OF r] n(1) by (auto simp: nulls_before_iff) (meson less_trans)+
    then show ?thesis using n(2) le_less by blast
  qed
  have st: "start m0 C n = col_align (C ! n) (fpos C n)" if "\<forall>k < n. present (C ! k) \<and> 0 < attlen (fst (C ! k))"
    using pos_fixed [OF that] n(1) by (simp add: start_def)
  show ?thesis
  proof (cases "\<not> ?slow \<and> attcacheoff (atts ! n) \<noteq> -1")
    case True
    then have c: "attcacheoff (atts ! n) = int (col_align (C ! n) (fpos C n))" "\<forall>k < n. 0 < attlen (fst (C ! k))"
      using r n(1) by (auto simp: readable_def cache_ok_def)
    have "\<forall>k < n. present (C ! k)" using pres True by auto
    then have "nat (attcacheoff (atts ! n)) = start m0 C n" using st c by simp
    then show ?thesis using True n(1) len fetch [OF r] r by (simp add: no_cache_get_attr_def Let_def)
  next
    case nc: False
    let ?slow2 = "?slow \<or> \<not> HEAP_TUPLE_ALL_FIXED m tup \<and> list_ex (\<lambda>a. attlen a \<le> 0) (take (n + 1) atts)"
    show ?thesis
    proof (cases ?slow2)
      case True
      obtain atts' where w: "slow_walk m tup n atts 0 0 True = (pos m0 (take n C) 0, atts')" "readable m0 m tup C atts'"
        using slow_walk_ok [OF r, of 0 n 0 True] n(1) by auto
      have "ATT_ALIGN (pos m0 (take n C) 0) (attlen (atts' ! n)) (attalign (atts' ! n)) = start m0 C n"
        using readable_fields [OF w(2) n(1)] by (simp add: start_def col_align_def)
      then show ?thesis using w n(1) len nc True fetch [OF w(2)]
        by (auto simp: no_cache_get_attr_def Let_def)
    next
      case False
      then have ns: "\<not> ?slow" by blast
      have all: "\<forall>k \<le> n. present (C ! k) \<and> 0 < attlen (fst (C ! k))"
      proof (intro allI impI conjI)
        fix k assume k: "k \<le> n"
        then show p: "present (C ! k)" using pres ns by blast
        have kl: "k < length C" using k n(1) by simp
        note f = readable_fields [OF r kl]
        have "attlen (fst (C ! k)) \<noteq> -1"
        proof (cases "HEAP_TUPLE_ALL_FIXED m tup")
          case True
          then show ?thesis using r p kl by (auto simp: readable_def tuple_ok_def)
        next
          case fx: False
          have "atts ! k \<in> set (take (n + 1) atts)" using k kl len by (auto simp: in_set_conv_nth intro!: exI [of _ k])
          then show ?thesis using False fx f by (auto simp: list_ex_iff)
        qed
        then show "0 < attlen (fst (C ! k))" using r kl by (auto simp: readable_def att_ok_def)
      qed
      define atts1 where "atts1 = atts[0 := (atts ! 0)\<lparr>attcacheoff := 0\<rparr>]"
      define j where "j = skip_cached atts1 n 1"
      have zero: "col_align (C ! 0) (fpos C 0) = 0" by (simp add: col_align_def)
      have r1: "readable m0 m tup C atts1"
        using readable_update [OF r, of 0 0] n(1) zero by (force simp: atts1_def)
      have j: "1 \<le> j" "j \<le> n \<or> j = 1" "\<And>k. 1 \<le> k \<Longrightarrow> k < j \<Longrightarrow> attcacheoff (atts1 ! k) > 0"
        using skip_cached_ok [of 1 atts1 n] by (auto simp: j_def Let_def)
      have c0: "attcacheoff (atts1 ! 0) = 0" using n(1) len by (cases atts) (auto simp: atts1_def)
      have jl: "j - 1 < length C" "j - 1 \<le> n" using j n(1) by auto
      have "attcacheoff (atts1 ! (j - 1)) \<noteq> -1"
      proof (cases "j = 1")
        case False
        then have "1 \<le> j - 1" "j - 1 < j" using j(1) by auto
        then show ?thesis using j(3) [of "j - 1"] by auto
      qed (simp add: c0)
      then have "attcacheoff (atts1 ! (j - 1)) = int (col_align (C ! (j - 1)) (fpos C (j - 1)))" by (rule readable_cached [OF r1 jl(1)])
      moreover have "attlen (atts1 ! (j - 1)) = attlen (fst (C ! (j - 1)))" "0 < attlen (fst (C ! (j - 1)))"
        using readable_fields [OF r1 jl(1)] all jl(2) by auto
      moreover have "fpos C j = col_align (C ! (j - 1)) (fpos C (j - 1)) + nat (attlen (fst (C ! (j - 1))))"
        using j(1) by (cases j) simp_all
      ultimately have off: "nat (attcacheoff (atts1 ! (j - 1)) + attlen (atts1 ! (j - 1))) = fpos C j" by (simp add: nat_add_distrib)
      obtain atts2 where c: "cache_loop m tup n atts1 j (fpos C j) = Inr atts2" "readable m0 m tup C atts2"
        "n < j \<longrightarrow> attcacheoff (atts2 ! n) = attcacheoff (atts1 ! n)"
        "j \<le> n \<longrightarrow> attcacheoff (atts2 ! n) = int (col_align (C ! n) (fpos C n))"
        using cache_loop_ok [OF r1 n(1) all, of j "fpos C j"] jl all by force
      have "attcacheoff (atts2 ! n) = int (col_align (C ! n) (fpos C n))"
      proof (cases "j \<le> n")
        case jn: False
        then have "n = 0" using j(2) by auto
        then show ?thesis using c(3) jn c0 zero by simp
      qed (use c(4) in blast)
      then have "nat (attcacheoff (atts2 ! n)) = start m0 C n" using st all by simp
      then show ?thesis using False nc n(1) len fetch [OF c(2)] c(1,2) off
        by (simp add: no_cache_get_attr_def Let_def atts1_def [symmetric] j_def [symmetric, unfolded One_nat_def])
    qed
  qed
qed

lemma heap_get_attr_ok:
  assumes r: "readable m0 m tup C atts" and n: "n < length C"
  shows "\<exists>d atts'. HEAP_GET_ATTR sysattr m tup (int n + 1) atts = Inr (d, \<not> present (C ! n), atts') \<and> readable m0 m tup C atts' \<and>
    (present (C ! n) \<longrightarrow> d = FETCH_ATT m (fst (C ! n)) (t_data tup + t_hoff m tup + start m0 C n))"
proof -
  have na: "\<not> t_natts m tup < int n + 1" using r n by (simp add: readable_def tuple_ok_def)
  have nat1: "nat (int n + 1) = Suc n" by simp
  have "HEAP_GET_ATTR sysattr m tup (int n + 1) atts = FAST_GET_ATTR m tup (Suc n) atts"
    using na nat1 by (simp add: HEAP_GET_ATTR_def)
  moreover have "\<exists>d atts'. FAST_GET_ATTR m tup (Suc n) atts = Inr (d, \<not> present (C ! n), atts') \<and> readable m0 m tup C atts' \<and>
    (present (C ! n) \<longrightarrow> d = FETCH_ATT m (fst (C ! n)) (t_data tup + t_hoff m tup + start m0 C n))"
  proof (cases "present (C ! n)")
    case False
    then show ?thesis using r readable_null [OF r n] by (simp add: FAST_GET_ATTR_def)
  next
    case True
    obtain atts' where g: "no_cache_get_attr m tup (Suc n) atts =
      Inr (FETCH_ATT m (fst (C ! n)) (t_data tup + t_hoff m tup + start m0 C n), atts')" "readable m0 m tup C atts'"
      using no_cache_get_attr_ok [OF r n True] by blast
    show ?thesis
    proof (cases "HEAP_TUPLE_NO_NULLS m tup \<and> attcacheoff (atts ! n) \<ge> 0")
      case c: True
      have f: "FETCH_ATT m (atts ! n) t = FETCH_ATT m (fst (C ! n)) t" for t
        using readable_fields [OF r n] by (intro FETCH_ATT_cong) auto
      have co: "\<forall>k < n. 0 < attlen (fst (C ! k))" "attcacheoff (atts ! n) = int (col_align (C ! n) (fpos C n))"
        using r n c by (auto simp: readable_def cache_ok_def)
      moreover have "\<forall>k < n. present (C ! k)" using c r n by (auto simp: readable_def tuple_ok_def)
      ultimately have "nat (attcacheoff (atts ! n)) = start m0 C n" using pos_fixed [of n C m0] n by (simp add: start_def)
      then show ?thesis using c True r n readable_fields [OF r n] f by (simp add: FAST_GET_ATTR_def)
    next
      case c: False
      then show ?thesis using g True readable_null [OF r n] readable_fields [OF r n] n by (auto simp: FAST_GET_ATTR_def)
    qed
  qed
  ultimately show ?thesis by simp
qed

section \<open>Correctness\<close>

text \<open>
  The assumptions of \<open>heap_form_tuple\<close>: \<open>palloc\<close> gave an aligned address below \<open>2^64\<close>, the types are sane, and the
  values that the datums point to lie outside the new memory.
\<close>

definition formable ::
  "('h \<Rightarrow> nat \<Rightarrow> (nat \<times> 'h) cres) \<Rightarrow> 'h \<Rightarrow> mem \<Rightarrow> pg_attribute list \<Rightarrow> 64 word list \<Rightarrow> char list \<Rightarrow> nat \<Rightarrow> 'h \<Rightarrow> bool" where
  "formable palloc hp m atts value nulls a hp' \<longleftrightarrow> (let C = zip atts (zip value nulls); n = HEAP_TUPLE_SIZE + header_size C + pos m C 0
     in length atts \<le> 1600 \<and> length atts \<le> length value \<and> length atts \<le> length nulls \<and>
        palloc hp n = Inr (a, hp') \<and> 16 dvd a \<and> a + n < 2 ^ 64 \<and> pos m C 0 < 2 ^ 32 \<and>
        (\<forall>c \<in> set C. col_ok m (a + HEAP_TUPLE_SIZE) (a + n) c))"

text \<open>A table with four columns, the third of them null, and memory with a 6-byte varlena at 1000.\<close>

definition att4 :: "int \<Rightarrow> bool \<Rightarrow> char \<Rightarrow> pg_attribute" where
  "att4 len byval al = \<lparr>attrelid = 0, attname = replicate 32 0, atttypid = 0, attdispersion = 0, attlen = len, att_attnum = 0, attnelems = 0,
     attcacheoff = -1, atttypmod = -1, attbyval = byval, attstorage = CHR ''p'', attisset = False, attalign = al,
     attnotnull = False, atthasdef = False\<rparr>"

definition atts4 :: "pg_attribute list" where
  "atts4 = [att4 4 True (CHR ''i''),
     att4 (-1) False (CHR ''i''),
     att4 2 True (CHR ''s''),
     att4 8 True (CHR ''d'')]"

lemmas atts4_defs = atts4_def att4_def

definition value4 :: "64 word list" where "value4 = [7, 1000, 0, 9]"
definition nulls4 :: "char list" where "nulls4 = '' '' @ '' '' @ ''n'' @ '' ''"
definition mem4 :: mem where "mem4 = (put32 (\<lambda>_. 0) 1000 6)(1004 := 65, 1005 := 66)"
definition palloc4 :: "nat \<Rightarrow> nat \<Rightarrow> (nat \<times> nat) cres" where "palloc4 hp n = Inr (hp, hp + MAX_ALIGN n)"

lemma varlena4: "VARATT_SIZE mem4 1000 = 6"
proof -
  have "get32 mem4 1000 = get32 (put32 (\<lambda>_. 0) 1000 6) 1000" by (rule get32_cong) (simp add: mem4_def)
  then show ?thesis by (simp add: VARATT_SIZE_def mem_simps)
qed

lemma formable4: "formable palloc4 4096 mem4 atts4 value4 nulls4 4096 4208"
proof -
  let ?C = "zip atts4 (zip value4 nulls4)"
  have h: "header_size ?C = 48"
    by (simp add: header_size_def atts4_defs value4_def nulls4_def present_def BIT_MAP_LEN_eq heap_consts MAX_ALIGN_eq)
  have p: "pos mem4 ?C 0 = 24"
    by (simp add: atts4_defs value4_def nulls4_def present_def col_align_def col_size_def ATT_ALIGN_def align_simps varlena4)
  show ?thesis unfolding formable_def Let_def h p
    by (auto simp: palloc4_def HEAP_TUPLE_SIZE_def MAX_ALIGN_eq atts4_defs value4_def nulls4_def col_ok_def att_ok_def col_size_def varlena4)
qed

lemma formable_ok:
  assumes "formable palloc hp m atts value nulls a hp'" and C: "C = zip atts (zip value nulls)"
  shows "\<exists>tup m'. heap_form_tuple palloc cxt hp m atts value nulls = Inr (tup, hp', m') \<and> tuple_ok m m' tup C \<and> t_hoff m' tup = header_size C \<and>
    t_addr tup = a \<and> t_data tup = a + HEAP_TUPLE_SIZE \<and> t_len tup = header_size C + pos m C 0 \<and>
    (\<forall>x. x < a + HEAP_TUPLE_SIZE \<or> a + HEAP_TUPLE_SIZE + header_size C + pos m C 0 \<le> x \<longrightarrow> m' x = m x)"
  by (rule heap_form_tuple_ok [OF C]) (use assms(1) in \<open>simp_all add: formable_def Let_def add.assoc C\<close>)

text \<open>A datum for a stored column: the value itself, or a pointer to a copy of the bytes of the value.\<close>

definition datum_of :: "mem \<Rightarrow> mem \<Rightarrow> pg_attribute \<Rightarrow> 64 word \<Rightarrow> 64 word \<Rightarrow> bool" where
  "datum_of m m' att v d \<longleftrightarrow>
     (if attbyval att then d = take_bit (8 * nat (attlen att)) v
      else let s = (if attlen att = -1 then VARATT_SIZE m (unat v) else nat (attlen att))
           in bytes_at m' (unat d) s = bytes_at m (unat v) s)"

lemma stored_datum:
  assumes "stored m m' t c" "t < 2 ^ 64"
  shows "datum_of m m' (fst c) (fst (snd c)) (FETCH_ATT m' (fst c) t)"
proof (cases "attbyval (fst c)")
  case False
  then have "unat (FETCH_ATT m' (fst c) t) = t" using assms(2) by (simp add: FETCH_ATT_def unat_of_nat)
  then show ?thesis using False assms(1) by (auto simp: datum_of_def stored_def col_size_def)
qed (use assms(1) in \<open>simp add: datum_of_def stored_def narrow_def\<close>)

text \<open>
  C36. Forming a tuple from sane columns succeeds, and writes only inside the memory it allocated.
  The header, the null bitmap and the flags of the result describe the columns, and every column that is not null
  is stored, properly aligned, at its place.
\<close>

theorem heap_form_tuple_correct:
  assumes "formable palloc hp m atts value nulls a hp'"
  shows "\<exists>tup m'. heap_form_tuple palloc cxt hp m atts value nulls = Inr (tup, hp', m') \<and>
    tuple_ok m m' tup (zip atts (zip value nulls)) \<and> t_addr tup = a \<and> t_data tup = a + HEAP_TUPLE_SIZE \<and>
    (\<forall>x. x < t_data tup \<or> t_data tup + t_len tup \<le> x \<longrightarrow> m' x = m x) \<and>
    palloc hp (HEAP_TUPLE_SIZE + t_len tup) = Inr (a, hp')"
  using formable_ok [OF assms refl, of cxt] assms by (auto simp: formable_def Let_def add.assoc)

theorem heap_form_tuple_correct_witness:
  "\<exists>tup m'. heap_form_tuple palloc4 0 4096 mem4 atts4 value4 nulls4 = Inr (tup, 4208, m') \<and>
     tuple_ok mem4 m' tup (zip atts4 (zip value4 nulls4))"
  using heap_form_tuple_correct [OF formable4] by blast

text \<open>
  C35. What \<open>heap_form_tuple\<close> stores, \<open>heap_getattr\<close> reads back. For every column of the new tuple, and for every
  state of the offset cache in the descriptor that earlier reads can have left, the read reports null exactly when
  the column was null, returns the stored datum cut to the length of the attribute, or a pointer to a copy of
  the bytes it pointed to, and leaves the cache in such a state again; \<open>heap_att_is_null\<close> agrees.
\<close>

theorem heap_tuple_roundtrip:
  assumes "formable palloc hp m atts value nulls a hp'"
  shows "\<exists>tup m'. heap_form_tuple palloc cxt hp m atts value nulls = Inr (tup, hp', m') \<and>
    (\<forall>n atts1. n < length atts \<longrightarrow> same_atts atts1 (zip atts (zip value nulls)) \<longrightarrow> cache_ok atts1 (zip atts (zip value nulls)) \<longrightarrow>
      heap_att_is_null m' tup (int n + 1) = Inr (nulls ! n = CHR ''n'') \<and>
      (\<exists>d atts2. HEAP_GET_ATTR sysattr m' tup (int n + 1) atts1 = Inr (d, nulls ! n = CHR ''n'', atts2) \<and>
        same_atts atts2 (zip atts (zip value nulls)) \<and> cache_ok atts2 (zip atts (zip value nulls)) \<and>
        (nulls ! n \<noteq> CHR ''n'' \<longrightarrow> datum_of m m' (atts ! n) (value ! n) d)))"
proof -
  define C where "C = zip atts (zip value nulls)"
  have F: "length atts \<le> length value" "length atts \<le> length nulls"
    "a + HEAP_TUPLE_SIZE + header_size C + pos m C 0 < 2 ^ 64"
    "\<forall>c \<in> set C. col_ok m (a + HEAP_TUPLE_SIZE) (a + HEAP_TUPLE_SIZE + header_size C + pos m C 0) c"
    using assms by (simp_all add: formable_def Let_def C_def add.assoc)
  obtain tup m' where f: "heap_form_tuple palloc cxt hp m atts value nulls = Inr (tup, hp', m')" "tuple_ok m m' tup C"
    "t_data tup = a + HEAP_TUPLE_SIZE" "t_hoff m' tup = header_size C"
    using formable_ok [OF assms C_def, of cxt] by blast
  have len: "length C = length atts" using F(1,2) by (simp add: C_def)
  have rd: "readable m m' tup C atts1" if "same_atts atts1 C" "cache_ok atts1 C" for atts1
    using that f(2) F(4) by (auto simp: readable_def col_ok_def)
  have "heap_att_is_null m' tup (int n + 1) = Inr (nulls ! n = CHR ''n'') \<and>
      (\<exists>d atts2. HEAP_GET_ATTR sysattr m' tup (int n + 1) atts1 = Inr (d, nulls ! n = CHR ''n'', atts2) \<and>
        same_atts atts2 C \<and> cache_ok atts2 C \<and> (nulls ! n \<noteq> CHR ''n'' \<longrightarrow> datum_of m m' (atts ! n) (value ! n) d))"
    if n: "n < length atts" and c: "same_atts atts1 C" "cache_ok atts1 C" for n atts1
  proof -
    have nC: "n < length C" using n len by simp
    have col: "C ! n = (atts ! n, value ! n, nulls ! n)" "(\<not> present (C ! n)) = (nulls ! n = CHR ''n'')"
      using n F(1,2) by (simp_all add: C_def present_def)
    have "t_natts m' tup = int (length C)" using f(2) by (simp add: tuple_ok_def)
    then have isn: "heap_att_is_null m' tup (int n + 1) = Inr (nulls ! n = CHR ''n'')"
      using readable_null [OF rd [OF c] nC] nC col(2) by (auto simp: heap_att_is_null_def)
    obtain d atts2 where g: "HEAP_GET_ATTR sysattr m' tup (int n + 1) atts1 = Inr (d, \<not> present (C ! n), atts2)" "readable m m' tup C atts2"
      "present (C ! n) \<longrightarrow> d = FETCH_ATT m' (fst (C ! n)) (t_data tup + t_hoff m' tup + start m C n)"
      using heap_get_attr_ok [OF rd [OF c] nC] by blast
    have "datum_of m m' (atts ! n) (value ! n) d" if p: "present (C ! n)"
    proof -
      have "t_data tup + t_hoff m' tup + start m C n < 2 ^ 64"
        using start_end [of n "length C" C m] nC p F(3) f(3,4) by simp
      moreover have "stored m m' (t_data tup + t_hoff m' tup + start m C n) (C ! n)" using f(2) nC p by (simp add: tuple_ok_def)
      ultimately show ?thesis using stored_datum g(3) p col(1) by fastforce
    qed
    then show ?thesis using g isn col(2) by (auto simp: readable_def)
  qed
  then show ?thesis using f(1) unfolding C_def by blast
qed

theorem heap_tuple_roundtrip_witness:
  "\<exists>tup m'. heap_form_tuple palloc4 0 4096 mem4 atts4 value4 nulls4 = Inr (tup, 4208, m') \<and>
     heap_att_is_null m' tup 3 = Inr True \<and>
     (\<exists>atts2. HEAP_GET_ATTR (\<lambda>_ _ _. Inl Elog_ERROR) m' tup 4 atts4 = Inr (9, False, atts2))"
proof -
  let ?C = "zip atts4 (zip value4 nulls4)"
  have c: "same_atts atts4 ?C" "cache_ok atts4 ?C"
    by (auto simp: same_atts_def cache_ok_def atts4_defs value4_def nulls4_def nth_Cons split: nat.splits)
  obtain tup m' where f: "heap_form_tuple palloc4 0 4096 mem4 atts4 value4 nulls4 = Inr (tup, 4208, m')" and
    r: "\<And>n. n < length atts4 \<Longrightarrow> heap_att_is_null m' tup (int n + 1) = Inr (nulls4 ! n = CHR ''n'') \<and>
      (\<exists>d atts2. HEAP_GET_ATTR (\<lambda>_ _ _. Inl Elog_ERROR) m' tup (int n + 1) atts4 = Inr (d, nulls4 ! n = CHR ''n'', atts2) \<and>
        (nulls4 ! n \<noteq> CHR ''n'' \<longrightarrow> datum_of mem4 m' (atts4 ! n) (value4 ! n) d))"
    using heap_tuple_roundtrip [OF formable4, of 0 "\<lambda>_ _ _. Inl Elog_ERROR"] c by blast
  have "heap_att_is_null m' tup 3 = Inr True" using r [of 2] by (simp add: atts4_defs nulls4_def)
  moreover have "\<exists>atts2. HEAP_GET_ATTR (\<lambda>_ _ _. Inl Elog_ERROR) m' tup 4 atts4 = Inr (9, False, atts2)"
    using r [of 3] by (auto simp: atts4_defs nulls4_def value4_def datum_of_def)
  ultimately show ?thesis using f by blast
qed

text \<open>A tuple remains a tuple when its bytes behind \<open>t_hoff\<close>, its number of attributes and its two low flags are kept.\<close>

lemma tuple_ok_transfer:
  assumes ok: "tuple_ok m0 m tup C" "\<forall>c \<in> set C. att_ok (fst c)" and hoff: "T_HOFF \<le> t_hoff m tup" and t: "t_data tup' = t_data tup"
    and eq: "\<And>x. t_data tup + T_HOFF \<le> x \<Longrightarrow> m' x = m x"
    and hd: "t_natts m' tup' = t_natts m tup" "\<And>i. i < 2 \<Longrightarrow> bit (t_info_mask m' tup') i = bit (t_info_mask m tup) i"
  shows "tuple_ok m0 m' tup' C"
proof -
  have fl: "HEAP_TUPLE_NO_NULLS m' tup' = HEAP_TUPLE_NO_NULLS m tup" "HEAP_TUPLE_ALL_FIXED m' tup' = HEAP_TUPLE_ALL_FIXED m tup"
    using hd(2) [of 0] hd(2) [of 1] flag_bits [of "t_info_mask m' tup'"] flag_bits [of "t_info_mask m tup"]
    by (auto simp: HEAP_TUPLE_NO_NULLS_def HEAP_TUPLE_ALL_FIXED_def)
  have ho: "t_hoff m' tup' = t_hoff m tup" using eq [of "t_data tup + T_HOFF"] by (simp add: t_hoff_def t)
  have nu: "ATT_IS_NULL m' i (t_data tup + T_BITS) = ATT_IS_NULL m i (t_data tup + T_BITS)" for i
    by (simp add: ATT_IS_NULL_def eq heap_consts)
  have st: "stored m0 m' (t_data tup + t_hoff m tup + start m0 C i) (C ! i)" if i: "i < length C" "present (C ! i)" for i
  proof (rule stored_cong)
    show "stored m0 m (t_data tup + t_hoff m tup + start m0 C i) (C ! i)" using ok(1) i by (simp add: tuple_ok_def)
    show "att_ok (fst (C ! i))" using ok(2) i by simp
    show "m' x = m x" if "t_data tup + t_hoff m tup + start m0 C i \<le> x" for x using that hoff by (intro eq) simp
  qed
  show ?thesis using ok(1) st nu by (auto simp: tuple_ok_def t fl ho hd(1))
qed

lemma low_byte_and: "w = push_bit 8 v \<Longrightarrow> (ucast (b :: 8 word) :: 16 word) AND w = 0"
  by (rule bit_word_eqI) (auto simp: bit_simps dest: bit_imp_le_length)

text \<open>
  C37. \<open>heap_modify_tuple\<close> on sane columns makes a tuple that holds the old and the replaced columns and has the
  header of the old one. But the flags pass through a variable of eight bits: of the new tuple's \<open>t_info_mask\<close>
  the high byte is lost, so \<open>HEAP_XMAX_INVALID\<close>, which \<open>heap_form_tuple\<close> had set, is not set.
\<close>

theorem heap_modify_tuple_loses_flags:
  assumes p: "palloc hp (length repl * 8) = Inr (x, hp1)" "palloc hp1 (length repl) = Inr (y, hp2)"
    and cols: "modified_columns sysattr m tuple 0 atts repl = Inr (value, nulls, atts1)" "length repl = length atts1"
    and f: "formable palloc hp2 m atts1 value nulls a hp'"
    and old: "t_data tuple + T_HOFF \<le> a"
  shows "\<exists>new m'. heap_modify_tuple sysattr palloc cxt hp m tuple atts repl = Inr (new, hp', m', atts1) \<and>
    tuple_ok m m' new (zip atts1 (zip value nulls)) \<and> t_self new = t_self tuple \<and> t_table_oid new = t_table_oid tuple \<and>
    bytes_at m' (t_data new) T_NATTS = bytes_at m (t_data tuple) T_NATTS \<and>
    t_info_mask m' new AND HEAP_XACT_MASK = 0 \<and> t_info_mask m' new AND HEAP_XMAX_INVALID = 0"
proof -
  let ?C = "zip atts1 (zip value nulls)"
  obtain tup m1 where g: "heap_form_tuple palloc cxt hp2 m atts1 value nulls = Inr (tup, hp', m1)" "tuple_ok m m1 tup ?C"
    "t_data tup = a + HEAP_TUPLE_SIZE" "\<And>x. x < a + HEAP_TUPLE_SIZE \<Longrightarrow> m1 x = m x" "t_hoff m1 tup = header_size ?C"
    using formable_ok [OF f refl, of cxt] by blast
  define td where "td = a + HEAP_TUPLE_SIZE"
  define i8 where "i8 = (ucast (t_info_mask m1 tup) :: 8 word)"
  define m2 where "m2 = put16 (memmove m1 td (t_data tuple) T_HOFF) (td + T_INFO_MASK) (ucast i8)"
  define m' where "m' = put16 m2 (td + T_NATTS) (of_nat (length repl))"
  define new where "new = tup\<lparr>t_self := t_self tuple, t_table_oid := t_table_oid tuple\<rparr>"
  have run: "heap_modify_tuple sysattr palloc cxt hp m tuple atts repl = Inr (new, hp', m', atts1)"
    using p cols g(1,3) by (simp add: heap_modify_tuple_def Let_def new_def m'_def m2_def i8_def td_def)
  have len: "length atts1 \<le> 1600" "length ?C = length atts1" "\<forall>c \<in> set ?C. att_ok (fst c)"
    using f by (auto simp: formable_def Let_def col_ok_def)
  have tn: "t_data new = td" using g(3) by (simp add: new_def td_def)
  have mask: "t_info_mask m' new = ucast i8"
    by (simp add: t_info_mask_def tn m'_def m2_def heap_consts mem_simps)
  have nat: "t_natts m' new = int (length ?C)" using len cols(2) sint_small [OF len(1)] by (simp add: t_natts_def tn m'_def mem_simps)
  have "tuple_ok m m' new ?C"
  proof (rule tuple_ok_transfer [OF g(2) len(3)])
    show "T_HOFF \<le> t_hoff m1 tup" using header_size_bounds(1) [of ?C] len g(5) by (simp add: heap_consts)
    show "t_data new = t_data tup" by (simp add: new_def)
    show "m' x = m1 x" if "t_data tup + T_HOFF \<le> x" for x
      using that g(3) by (simp add: m'_def m2_def td_def heap_consts mem_simps)
    show "t_natts m' new = t_natts m1 tup" using nat g(2) by (simp add: tuple_ok_def)
    show "bit (t_info_mask m' new) i = bit (t_info_mask m1 tup) i" if "i < 2" for i
      using that by (simp add: mask i8_def bit_simps)
  qed
  moreover have "bytes_at m' (t_data new) T_NATTS = bytes_at m (t_data tuple) T_NATTS"
    by (rule bytes_at_eqI) (use old g(4) in \<open>simp add: tn m'_def m2_def heap_consts mem_simps\<close>)
  moreover have "t_info_mask m' new AND HEAP_XACT_MASK = 0" "t_info_mask m' new AND HEAP_XMAX_INVALID = 0"
    unfolding mask by (rule low_byte_and [of _ 255] low_byte_and [of _ 8], simp add: heap_consts)+
  ultimately show ?thesis using run by (auto simp: new_def)
qed

theorem heap_modify_tuple_loses_flags_witness:
  "\<exists>new m'. heap_modify_tuple (\<lambda>_ _ _. Inl Elog_ERROR) palloc4 0 4048 mem4
       \<lparr>t_addr = 168, t_len = 72, t_self = (1, 1), t_table_oid = 5, t_data_mcxt = 0, t_data = 200\<rparr> atts4
       [(7, CHR '' '', CHR ''r''), (1000, CHR '' '', CHR ''r''), (0, CHR ''n'', CHR ''r''), (9, CHR '' '', CHR ''r'')] = Inr (new, 4208, m', atts4) \<and>
     t_self new = (1, 1) \<and> t_info_mask m' new AND HEAP_XMAX_INVALID = 0"
proof -
  let ?repl = "[(7, CHR '' '', CHR ''r''), (1000, CHR '' '', CHR ''r''), (0, CHR ''n'', CHR ''r''), (9, CHR '' '', CHR ''r'')] :: (64 word \<times> char \<times> char) list"
    and ?t = "\<lparr>t_addr = 168, t_len = 72, t_self = (1, 1), t_table_oid = 5, t_data_mcxt = 0, t_data = 200\<rparr>"
  have "modified_columns (\<lambda>_ _ _. Inl Elog_ERROR) mem4 ?t 0 atts4 ?repl = Inr (value4, nulls4, atts4)"
    by (simp add: value4_def nulls4_def)
  moreover have "palloc4 4048 (length ?repl * 8) = Inr (4048, 4080)" "palloc4 4080 (length ?repl) = Inr (4080, 4096)"
    "length ?repl = length atts4" "t_data ?t + T_HOFF \<le> 4096"
    by (simp_all add: palloc4_def MAX_ALIGN_eq atts4_defs heap_consts)
  ultimately show ?thesis
    using heap_modify_tuple_loses_flags [OF _ _ _ _ formable4, of 4048 ?repl 4048 4080 4080 "\<lambda>_ _ _. Inl Elog_ERROR" ?t atts4 0]
    by (metis HeapTupleData.select_convs(3))
qed

end
