(* ===== verification/DataHeap.thy ===== *)
theory DataHeap
  imports Aset
begin

text \<open>
  Memory contexts as their clients use them: \<open>palloc\<close>, \<open>repalloc\<close>, \<open>pfree\<close> and the bytes of the chunks. The
  operations are a record, so that a client is written once for every context; the interface
  \<open>data_heap\<close> says what the clients rely on, and the allocation sets of \<open>Aset\<close> provide it over any \<open>malloc\<close>.
  With \<open>PALLOC_IS_MALLOC\<close> defined, as \<^verbatim>\<open>utils/palloc.h\<close> does, \<open>palloc\<close> is \<open>malloc\<close> itself, the other provider.
  When memory is exhausted an allocation leaves through \<open>elog\<close> or returns NULL.
\<close>

record 's heap_ops =
  palloc :: "'s \<Rightarrow> nat \<Rightarrow> (nat \<times> 's) cres option"
  repalloc :: "'s \<Rightarrow> nat \<Rightarrow> nat \<Rightarrow> (nat \<times> 's) cres option"
  pfree :: "'s \<Rightarrow> nat \<Rightarrow> 's cres option"
  bytes_of :: "'s \<Rightarrow> mem"
  set_bytes :: "'s \<Rightarrow> mem \<Rightarrow> 's"

text \<open>Every chunk of \<open>s\<close> but the one at \<open>p\<close> has its size and bytes in \<open>s'\<close>.\<close>

definition same_chunks :: "'s heap_ops \<Rightarrow> ('s \<Rightarrow> nat \<rightharpoonup> nat) \<Rightarrow> 's \<Rightarrow> 's \<Rightarrow> nat \<Rightarrow> bool" where
  "same_chunks H chunk s s' p \<longleftrightarrow> (\<forall>x k. x \<noteq> p \<longrightarrow> chunk s x = Some k \<longrightarrow> chunk s' x = Some k \<and>
     (\<forall>i < k. bytes_of H s' (x + i) = bytes_of H s (x + i)))"

lemma same_chunks_refl: "same_chunks H chunk s s p"
  by (simp add: same_chunks_def)

lemma same_chunks_trans:
  "same_chunks H chunk s s' p \<Longrightarrow> same_chunks H chunk s' s'' q \<Longrightarrow> q = p \<or> chunk s q = None \<Longrightarrow> same_chunks H chunk s s'' p"
  unfolding same_chunks_def by (metis option.distinct(1))

locale data_heap =
  fixes H :: "'s heap_ops" and chunk :: "'s \<Rightarrow> nat \<rightharpoonup> nat" and ok :: "'s \<Rightarrow> bool"
  assumes palloc_law: "ok s \<Longrightarrow> palloc H s n = Some (Inl Elog_ERROR) \<or> (\<exists>s'. palloc H s n = Some (Inr (0, s'))) \<or>
      (\<exists>p s' m. palloc H s n = Some (Inr (p, s')) \<and> ok s' \<and> 0 < p \<and> chunk s p = None \<and> n \<le> m \<and>
        chunk s' = (chunk s)(p \<mapsto> m) \<and> bytes_of H s' = bytes_of H s)"
    and repalloc_law: "ok s \<Longrightarrow> chunk s p = Some m \<Longrightarrow> repalloc H s p n = Some (Inl Elog_ERROR) \<or> (\<exists>s'. repalloc H s p n = Some (Inr (0, s'))) \<or>
      (\<exists>q s' l. repalloc H s p n = Some (Inr (q, s')) \<and> ok s' \<and> 0 < q \<and> ((chunk s)(p := None)) q = None \<and> n \<le> l \<and>
        chunk s' = (chunk s)(p := None, q \<mapsto> l) \<and> (\<forall>i < min m n. bytes_of H s' (q + i) = bytes_of H s (p + i)) \<and>
        (\<forall>x k i. x \<noteq> p \<longrightarrow> chunk s x = Some k \<longrightarrow> i < k \<longrightarrow> bytes_of H s' (x + i) = bytes_of H s (x + i)))"
    and pfree_law: "ok s \<Longrightarrow> chunk s p = Some m \<Longrightarrow>
      \<exists>s'. pfree H s p = Some (Inr s') \<and> ok s' \<and> chunk s' = (chunk s)(p := None) \<and> bytes_of H s' = bytes_of H s"
    and chunks_disjoint: "ok s \<Longrightarrow> chunk s p = Some m \<Longrightarrow> chunk s q = Some k \<Longrightarrow> p \<noteq> q \<Longrightarrow> {p..<p + m} \<inter> {q..<q + k} = {}"
    and bytes_set [simp]: "bytes_of H (set_bytes H s b) = b"
    and ok_set [simp]: "ok (set_bytes H s b) = ok s"
    and chunk_set [simp]: "chunk (set_bytes H s b) = chunk s"
begin

lemma same_chunksI: "ok s \<Longrightarrow> chunk s p = Some m \<Longrightarrow> (\<And>x. x < p \<or> p + m \<le> x \<Longrightarrow> b x = bytes_of H s x) \<Longrightarrow> same_chunks H chunk s (set_bytes H s b) p"
  unfolding same_chunks_def
proof (intro allI impI conjI)
  fix x k i
  assume "ok s" "chunk s p = Some m" and b: "\<And>x. x < p \<or> p + m \<le> x \<Longrightarrow> b x = bytes_of H s x" and "x \<noteq> p" "chunk s x = Some k" "i < k"
  then have "x + i \<notin> {p..<p + m}" using chunks_disjoint [of s p m x k] by (auto simp: disjoint_iff)
  then show "bytes_of H (set_bytes H s b) (x + i) = bytes_of H s (x + i)" using b [of "x + i"] by auto
qed simp

end

definition aset_heap ::
  "('h \<Rightarrow> nat \<Rightarrow> nat \<times> 'h) \<Rightarrow> ('h \<Rightarrow> nat \<Rightarrow> 'h) \<Rightarrow> ('h \<Rightarrow> nat \<Rightarrow> nat \<Rightarrow> nat \<times> 'h) \<Rightarrow> 'h AllocSetContext heap_ops" where
  "aset_heap malloc mfree mrealloc = \<lparr>palloc = alloc_set_alloc malloc, repalloc = alloc_set_realloc malloc mfree mrealloc,
     pfree = alloc_set_free mfree, bytes_of = dat, set_bytes = (\<lambda>st b. st\<lparr>dat := b\<rparr>)\<rparr>"

lemma aset_heap_fields [simp]:
  "palloc (aset_heap malloc mfree mrealloc) = alloc_set_alloc malloc"
  "repalloc (aset_heap malloc mfree mrealloc) = alloc_set_realloc malloc mfree mrealloc"
  "pfree (aset_heap malloc mfree mrealloc) = alloc_set_free mfree" "bytes_of (aset_heap malloc mfree mrealloc) = dat"
  "set_bytes (aset_heap malloc mfree mrealloc) = (\<lambda>st b. st\<lparr>dat := b\<rparr>)"
  by (simp_all add: aset_heap_def)

lemma as_ok_bytes: "as_ok hb (st\<lparr>dat := b\<rparr>) bs chs fl = as_ok hb st bs chs fl"
  by (simp add: as_ok_def blks_ok_def blk_ok_def chunk_ok_def fls_ok_def)

lemma aset_blocks_dat: "aset_blocks blocks (st\<lparr>dat := b\<rparr>) = aset_blocks blocks st"
  by (rule ext) (auto simp: aset_blocks_def as_ok_bytes)

lemma aset_valid_dat: "aset_valid blocks valid (st\<lparr>dat := b\<rparr>) = aset_valid blocks valid st" "dat (st\<lparr>dat := b\<rparr>) = b"
  by (simp_all add: aset_valid_def as_ok_bytes)

lemma aset_blocks_insert:
  assumes ok: "as_ok (blocks (os_heap st)) st bs chs fl" and ok': "as_ok (blocks (os_heap st')) st' bs' chs' fl'"
    and l: "live bs' chs' fl' = insert (q - 16) (live bs chs fl - C)" "16 \<le> q" "\<forall>d \<in> live bs chs fl - C. c_size st' d = c_size st d"
  shows "aset_blocks blocks st' = (\<lambda>x. if x = q then Some (c_size st' (q - 16)) else if 16 \<le> x \<and> x - 16 \<in> C then None else aset_blocks blocks st x)"
proof -
  have "x - 16 \<noteq> q - 16" if "x \<noteq> q" "16 \<le> x" for x using that l(2) by auto
  then show ?thesis
    unfolding aset_blocks_live [of blocks st' bs' chs' fl', OF ok'] aset_blocks_live [of blocks st bs chs fl, OF ok] using l by (auto simp: fun_eq_iff)
qed

text \<open>The three operations, in the terms of the interface.\<close>

context aligned_allocator
begin

lemma aset_palloc_law:
  assumes "aset_valid blocks valid st"
  shows "alloc_set_alloc malloc st n = Some (Inl Elog_ERROR) \<or> (\<exists>st'. alloc_set_alloc malloc st n = Some (Inr (0, st'))) \<or>
    (\<exists>p st' m. alloc_set_alloc malloc st n = Some (Inr (p, st')) \<and> aset_valid blocks valid st' \<and> 0 < p \<and> aset_blocks blocks st p = None \<and>
      n \<le> m \<and> aset_blocks blocks st' = (aset_blocks blocks st)(p \<mapsto> m) \<and> dat st' = dat st)"
proof -
  obtain bs chs fl where ok: "as_ok (blocks (os_heap st)) st bs chs fl" and v: "valid (os_heap st)"
    using assms by (auto simp: aset_valid_def)
  show ?thesis
  proof (rule disjE [OF alloc_ok [OF ok v, of n]])
    assume "\<exists>p st' bs' chs' fl'. alloc_set_alloc malloc st n = Some (Inr (p, st')) \<and> allocated blocks valid st bs chs fl n p st' bs' chs' fl'"
    then obtain p st' bs' chs' fl' where r: "alloc_set_alloc malloc st n = Some (Inr (p, st'))"
      "allocated blocks valid st bs chs fl n p st' bs' chs' fl'" by blast
    have p: "p \<noteq> 0" "dat st' = dat st" using r(2) by (auto simp: allocated_def)
    have "aset_alloc malloc st n = (p, st')" using r(1) by (simp add: aset_alloc_def)
    then show ?thesis using aset_alloc_block [OF assms _ p(1)] p r(1) by blast
  qed blast
qed

lemma aset_repalloc_law:
  assumes V: "aset_valid blocks valid st" and p: "aset_blocks blocks st p = Some m"
  shows "alloc_set_realloc malloc mfree mrealloc st p n = Some (Inl Elog_ERROR) \<or>
    (\<exists>st'. alloc_set_realloc malloc mfree mrealloc st p n = Some (Inr (0, st'))) \<or>
    (\<exists>q st' l. alloc_set_realloc malloc mfree mrealloc st p n = Some (Inr (q, st')) \<and> aset_valid blocks valid st' \<and> 0 < q \<and>
      ((aset_blocks blocks st)(p := None)) q = None \<and> n \<le> l \<and> aset_blocks blocks st' = (aset_blocks blocks st)(p := None, q \<mapsto> l) \<and>
      (\<forall>i < min m n. dat st' (q + i) = dat st (p + i)) \<and>
      (\<forall>x k i. x \<noteq> p \<longrightarrow> aset_blocks blocks st x = Some k \<longrightarrow> i < k \<longrightarrow> dat st' (x + i) = dat st (x + i)))"
proof -
  obtain bs chs fl where ok: "as_ok (blocks (os_heap st)) st bs chs fl" and v: "valid (os_heap st)"
    using V by (auto simp: aset_valid_def)
  note B = aset_blocks_live [of blocks st bs chs fl, OF ok]
  have c: "16 \<le> p" "p - 16 \<in> live bs chs fl" "m = c_size st (p - 16)" using p B by (auto split: if_splits)
  show ?thesis
  proof (rule disjE [OF realloc_ok [OF ok v c(2), of n]])
    assume "\<exists>q st' bs' chs' fl'. alloc_set_realloc malloc mfree mrealloc st (p - 16 + 16) n = Some (Inr (q, st')) \<and>
      reallocated blocks valid st bs chs fl (p - 16) n q st' bs' chs' fl'"
    then obtain q st' bs' chs' fl' where r: "alloc_set_realloc malloc mfree mrealloc st p n = Some (Inr (q, st'))"
      and R: "reallocated blocks valid st bs chs fl (p - 16) n q st' bs' chs' fl'" using c(1) by auto
    note R = R [unfolded reallocated_def]
    have ok': "as_ok (blocks (os_heap st')) st' bs' chs' fl'" using R by blast
    have "x - 16 \<noteq> p - 16" if "x \<noteq> p" "16 \<le> x" for x using that c(1) by auto
    then have "aset_blocks blocks st' = (aset_blocks blocks st)(p := None, q \<mapsto> c_size st' (q - 16))"
      using aset_blocks_insert [of blocks st bs chs fl st' bs' chs' fl' q "{p - 16}", OF ok ok'] R c(1) by (auto simp: fun_eq_iff)
    moreover have "((aset_blocks blocks st)(p := None)) q = None"
    proof -
      have "16 \<le> q" using R by blast
      then have "q = p" if "q - 16 = p - 16" using that c(1) by linarith
      then show ?thesis using R B by auto
    qed
    moreover have "dat st' (x + i) = dat st (x + i)" if "x \<noteq> p" "aset_blocks blocks st x = Some k" "i < k" for x k i
    proof -
      have "16 \<le> x" "x - 16 \<in> live bs chs fl - {p - 16}" "k = c_size st (x - 16)" using that B c(1) by (auto split: if_splits)
      then show ?thesis using R that(3) by fastforce
    qed
    ultimately show ?thesis using R r c ok' by (intro disjI2 [OF disjI2] exI [of _ q] exI [of _ st'] exI [of _ "c_size st' (q - 16)"]) (auto simp: aset_valid_def)
  qed (use c(1) in simp)
qed

lemma aset_pfree_law:
  assumes V: "aset_valid blocks valid st" and p: "aset_blocks blocks st p = Some m"
  shows "\<exists>st'. alloc_set_free mfree st p = Some (Inr st') \<and> aset_valid blocks valid st' \<and>
    aset_blocks blocks st' = (aset_blocks blocks st)(p := None) \<and> dat st' = dat st"
proof -
  obtain bs chs fl where ok: "as_ok (blocks (os_heap st)) st bs chs fl" and v: "valid (os_heap st)"
    using V by (auto simp: aset_valid_def)
  have c: "16 \<le> p" "p - 16 \<in> live bs chs fl" using p aset_blocks_live [of blocks st bs chs fl p, OF ok] by (auto split: if_splits)
  obtain st' bs' chs' fl' where f: "alloc_set_free mfree st (p - 16 + 16) = Some (Inr st')" "freed blocks valid st bs chs fl (p - 16) st' bs' chs' fl'"
    using free_ok [OF ok v c(2)] by blast
  then have "aset_free mfree st p = st'" "dat st' = dat st" using c(1) by (auto simp: aset_free_def freed_def)
  then show ?thesis using palloc.free_block [OF V p] f(1) c(1) by auto
qed

end

sublocale aligned_allocator \<subseteq> mcxt: data_heap "aset_heap malloc mfree mrealloc" "aset_blocks blocks" "aset_valid blocks valid"
proof unfold_locales
  show "{p..<p + m} \<inter> {q..<q + k} = {}"
    if V: "aset_valid blocks valid st" and p: "aset_blocks blocks st p = Some m" and q: "aset_blocks blocks st q = Some k" "p \<noteq> q" for st p m q k
  proof -
    obtain bs chs fl where ok: "as_ok (blocks (os_heap st)) st bs chs fl" using V by (auto simp: aset_valid_def)
    then have "16 \<le> p" "p - 16 \<in> live bs chs fl" "m = c_size st (p - 16)"
      using p aset_blocks_live [of blocks st bs chs fl p, OF ok] by (auto split: if_splits)
    then show ?thesis using aset_blocks_apart [of blocks st bs chs fl "p - 16" q k, OF ok _ q(1)] q(2) by simp
  qed
qed (simp_all only: aset_heap_fields aset_palloc_law aset_repalloc_law aset_pfree_law aset_blocks_dat aset_valid_dat)

context aligned_allocator
begin

lemma aset_data_heap: "data_heap (aset_heap malloc mfree mrealloc) (aset_blocks blocks) (aset_valid blocks valid)"
  by (rule mcxt.data_heap_axioms)

end

section \<open>malloc as the provider\<close>

text \<open>The heap of the allocator and the bytes; \<open>realloc\<close> copies the bytes of the old block as far as they fit.\<close>

definition malloc_heap ::
  "('h \<Rightarrow> nat \<Rightarrow> nat \<times> 'h) \<Rightarrow> ('h \<Rightarrow> nat \<Rightarrow> 'h) \<Rightarrow> ('h \<Rightarrow> nat \<Rightarrow> nat \<Rightarrow> nat \<times> 'h) \<Rightarrow> ('h \<Rightarrow> nat \<rightharpoonup> nat) \<Rightarrow> ('h \<times> mem) heap_ops" where
  "malloc_heap malloc mfree mrealloc blocks =
     \<lparr>palloc = (\<lambda>(hp, b) n. case malloc hp n of (p, hp') \<Rightarrow> Some (Inr (p, hp', b))),
      repalloc = (\<lambda>(hp, b) p n. case mrealloc hp p n of (q, hp') \<Rightarrow>
        Some (Inr (q, hp', if q = 0 then b else memmove b q p (min (case blocks hp p of None \<Rightarrow> 0 | Some m \<Rightarrow> m) n)))),
      pfree = (\<lambda>(hp, b) p. Some (Inr (mfree hp p, b))), bytes_of = snd, set_bytes = (\<lambda>(hp, _) b. (hp, b))\<rparr>"

lemma malloc_heap_fields [simp]:
  "bytes_of (malloc_heap malloc mfree mrealloc blocks) = snd"
  "set_bytes (malloc_heap malloc mfree mrealloc blocks) s b = (fst s, b)"
  by (auto simp: malloc_heap_def split: prod.splits)

definition malloc_valid :: "('h \<Rightarrow> nat \<rightharpoonup> nat) \<Rightarrow> ('h \<Rightarrow> bool) \<Rightarrow> 'h \<times> mem \<Rightarrow> bool" where
  "malloc_valid blocks valid s \<longleftrightarrow> valid (fst s) \<and>
     (\<forall>p m q k. blocks (fst s) p = Some m \<longrightarrow> blocks (fst s) q = Some k \<longrightarrow> p \<noteq> q \<longrightarrow> {p..<p + m} \<inter> {q..<q + k} = {})"

lemma malloc_valid_snd: "malloc_valid blocks valid (fst s, b) = malloc_valid blocks valid s" "fst (fst s, b) = fst s"
  by (simp_all add: malloc_valid_def)

definition malloc_chunk :: "('h \<Rightarrow> nat \<rightharpoonup> nat) \<Rightarrow> 'h \<times> mem \<Rightarrow> nat \<rightharpoonup> nat" where
  "malloc_chunk blocks s = blocks (fst s)"

context aligned_allocator
begin

lemma malloc_palloc_law:
  assumes "malloc_valid blocks valid s"
  shows "palloc (malloc_heap malloc mfree mrealloc blocks) s n = Some (Inl Elog_ERROR) \<or>
    (\<exists>s'. palloc (malloc_heap malloc mfree mrealloc blocks) s n = Some (Inr (0, s'))) \<or>
    (\<exists>p s' m. palloc (malloc_heap malloc mfree mrealloc blocks) s n = Some (Inr (p, s')) \<and> malloc_valid blocks valid s' \<and> 0 < p \<and>
      blocks (fst s) p = None \<and> n \<le> m \<and> blocks (fst s') = (blocks (fst s))(p \<mapsto> m) \<and> snd s' = snd s)"
proof -
  obtain hp b where s: "s = (hp, b)" by (cases s)
  obtain p hp' where r: "malloc hp n = (p, hp')" by (cases "malloc hp n")
  have v: "valid hp" using assms s by (simp add: malloc_valid_def)
  show ?thesis
  proof (cases "p = 0")
    case False
    obtain m where m: "valid hp'" "blocks hp p = None" "n \<le> m" "blocks hp' = (blocks hp)(p \<mapsto> m)"
      "\<And>x k. blocks hp x = Some k \<Longrightarrow> {p..<p + m} \<inter> {x..<x + k} = {}" using alloc_block [OF v r False] by auto
    have "malloc_valid blocks valid (hp', b)" using assms m s by (auto simp: malloc_valid_def split: if_splits)
    then show ?thesis using r m False s by (intro disjI2 [OF disjI2] exI [of _ p] exI [of _ "(hp', b)"] exI [of _ m]) (auto simp: malloc_heap_def)
  qed (use r s in \<open>simp add: malloc_heap_def\<close>)
qed

lemma malloc_repalloc_law:
  assumes V: "malloc_valid blocks valid s" and p: "blocks (fst s) p = Some m"
  shows "repalloc (malloc_heap malloc mfree mrealloc blocks) s p n = Some (Inl Elog_ERROR) \<or>
    (\<exists>s'. repalloc (malloc_heap malloc mfree mrealloc blocks) s p n = Some (Inr (0, s'))) \<or>
    (\<exists>q s' l. repalloc (malloc_heap malloc mfree mrealloc blocks) s p n = Some (Inr (q, s')) \<and> malloc_valid blocks valid s' \<and> 0 < q \<and>
      ((blocks (fst s))(p := None)) q = None \<and> n \<le> l \<and> blocks (fst s') = (blocks (fst s))(p := None, q \<mapsto> l) \<and>
      (\<forall>i < min m n. snd s' (q + i) = snd s (p + i)) \<and>
      (\<forall>x k i. x \<noteq> p \<longrightarrow> blocks (fst s) x = Some k \<longrightarrow> i < k \<longrightarrow> snd s' (x + i) = snd s (x + i)))"
proof -
  obtain hp b where s: "s = (hp, b)" by (cases s)
  obtain q hp' where r: "mrealloc hp p n = (q, hp')" by (cases "mrealloc hp p n")
  have v: "valid hp" "blocks hp p = Some m" using V p s by (simp_all add: malloc_valid_def)
  show ?thesis
  proof (cases "q = 0")
    case False
    obtain l where l: "valid hp'" "((blocks hp)(p := None)) q = None" "n \<le> l" "blocks hp' = (blocks hp)(p := None, q \<mapsto> l)"
      "\<And>x k. x \<noteq> p \<Longrightarrow> blocks hp x = Some k \<Longrightarrow> {q..<q + l} \<inter> {x..<x + k} = {}" using realloc_block [OF v r False] by blast
    let ?b = "memmove b q p (min m n)"
    have "malloc_valid blocks valid (hp', ?b)" using V l s by (auto simp: malloc_valid_def split: if_splits)
    moreover have "?b (x + i) = b (x + i)" if "x \<noteq> p" "blocks hp x = Some k" "i < k" for x k i
    proof -
      have "x + i \<in> {x..<x + k}" using that(3) by simp
      then have "x + i \<notin> {q..<q + l}" using l(5) [OF that(1,2)] by (auto simp: disjoint_iff)
      then show ?thesis using l(3) by (auto simp: memmove_def)
    qed
    ultimately show ?thesis using r l False s v
      by (intro disjI2 [OF disjI2] exI [of _ q] exI [of _ "(hp', ?b)"] exI [of _ l]) (auto simp: malloc_heap_def memmove_def)
  qed (use r s in \<open>simp add: malloc_heap_def\<close>)
qed

end

sublocale aligned_allocator \<subseteq> sys: data_heap "malloc_heap malloc mfree mrealloc blocks" "malloc_chunk blocks" "malloc_valid blocks valid"
proof unfold_locales
  show "\<exists>s'. pfree (malloc_heap malloc mfree mrealloc blocks) s p = Some (Inr s') \<and> malloc_valid blocks valid s' \<and>
      malloc_chunk blocks s' = (malloc_chunk blocks s)(p := None) \<and>
      bytes_of (malloc_heap malloc mfree mrealloc blocks) s' = bytes_of (malloc_heap malloc mfree mrealloc blocks) s"
    if "malloc_valid blocks valid s" "malloc_chunk blocks s p = Some m" for s p m
    using that free_block [of "fst s" p m] by (cases s) (auto simp: malloc_heap_def malloc_valid_def malloc_chunk_def)
  show "{p..<p + m} \<inter> {q..<q + k} = {}"
    if "malloc_valid blocks valid s" "malloc_chunk blocks s p = Some m" "malloc_chunk blocks s q = Some k" "p \<noteq> q" for s p m q k
    using that unfolding malloc_valid_def malloc_chunk_def by blast
qed (simp_all only: malloc_chunk_def malloc_palloc_law malloc_repalloc_law malloc_heap_fields malloc_valid_snd snd_conv)

context aligned_allocator
begin

lemma malloc_data_heap: "data_heap (malloc_heap malloc mfree mrealloc blocks) (malloc_chunk blocks) (malloc_valid blocks valid)"
  by (rule sys.data_heap_axioms)

end

lemmas bump_data_heap = aligned_allocator.malloc_data_heap [OF bump_aligned] aligned_allocator.aset_data_heap [OF bump_aligned]

end
