(* ===== verification/StringInfo.thy ===== *)
theory StringInfo
  imports DataHeap
begin

text \<open>
  Extensible strings, \<^verbatim>\<open>lib/stringinfo.c\<close> and \<^verbatim>\<open>lib/stringinfo.h\<close>. The buffer of a string lies in a memory
  context or in a block of \<open>malloc\<close> (\<open>DataHeap\<close>);
  its header is a record. \<open>int\<close> arithmetic is checked, so that an overflow is
  an error of the model. The text that a format and its arguments expand to is an argument; \<open>vsnprintf\<close>
  is that of C99. A loop that does not end has the value \<open>None\<close>.
\<close>

section \<open>Routines\<close>

record StringInfoData =
  str_data :: nat
  str_len :: int
  str_maxlen :: int

definition sizeof_StringInfoData :: nat where "sizeof_StringInfoData = 16"

definition init_string_info :: "'s heap_ops \<Rightarrow> 's \<Rightarrow> (StringInfoData \<times> 's) cres option" where
  "init_string_info H s =
     rbind (palloc H s 256) (\<lambda>(p, s1).
       if p = 0 then Some (Inl Elog_ERROR)
       else Some (Inr (\<lparr>str_data = p, str_len = 0, str_maxlen = 256\<rparr>, set_bytes H s1 ((bytes_of H s1)(p := 0)))))"

definition make_string_info :: "'s heap_ops \<Rightarrow> 's \<Rightarrow> (nat \<times> StringInfoData \<times> 's) cres option" where
  "make_string_info H s =
     rbind (palloc H s sizeof_StringInfoData) (\<lambda>(res, s1).
       if res = 0 then Some (Inl Elog_ERROR)
       else rbind (init_string_info H s1) (\<lambda>(str, s2). Some (Inr (res, str, s2))))"

text \<open>The doubling loop of \<open>enlarge_string_info\<close>.\<close>

partial_function (option) double_newlen :: "int \<Rightarrow> int \<Rightarrow> int cres option" where
  "double_newlen needed newlen =
     (if needed > newlen then case c_int (2 * newlen) of Inl e \<Rightarrow> Some (Inl e) | Inr newlen1 \<Rightarrow> double_newlen needed newlen1
      else Some (Inr newlen))"

definition enlarge_string_info :: "'s heap_ops \<Rightarrow> 's \<Rightarrow> StringInfoData \<Rightarrow> int \<Rightarrow> (StringInfoData \<times> 's) cres option" where
  "enlarge_string_info H s str needed0 =
     rbind (Some (c_int (needed0 + (str_len str + 1)))) (\<lambda>needed.
       if needed \<le> str_maxlen str then Some (Inr (str, s))
       else rbind (Some (c_int (2 * str_maxlen str))) (\<lambda>newlen0.
            rbind (double_newlen needed newlen0) (\<lambda>newlen.
            rbind (repalloc H s (str_data str) (nat newlen)) (\<lambda>(p, s1).
              if p = 0 then Some (Inl Elog_ERROR)
              else Some (Inr (str\<lparr>str_data := p, str_maxlen := newlen\<rparr>, s1))))))"

text \<open>\<open>vsnprintf\<close> writes at most \<open>avail\<close> bytes, the last of them zero, and returns the length of the whole text.\<close>

definition vsnprintf :: "mem \<Rightarrow> nat \<Rightarrow> nat \<Rightarrow> byte list \<Rightarrow> int \<times> mem" where
  "vsnprintf m buf avail expansion =
     (if length expansion < 2 ^ 31 then int (length expansion) else -1,
      memcpy_list m buf (take (avail - 1) expansion @ [0]))"

partial_function (option) append_string_info ::
  "'s heap_ops \<Rightarrow> 's \<Rightarrow> StringInfoData \<Rightarrow> byte list \<Rightarrow> (StringInfoData \<times> 's) cres option" where
  "append_string_info H s str expansion =
     (let avail = str_maxlen str - str_len str - 1;
          (nprinted, s1) = (if avail > 16
             then case vsnprintf (bytes_of H s) (str_data str + nat (str_len str)) (nat avail) expansion of (n, m) \<Rightarrow> (n, set_bytes H s m)
             else (-1, s))
      in if avail > 16 \<and> nprinted \<ge> 0 \<and> nprinted < avail - 1
         then Some (Inr (str\<lparr>str_len := str_len str + nprinted\<rparr>, s1))
         else case enlarge_string_info H s1 str (str_maxlen str) of
                None \<Rightarrow> None | Some (Inl e) \<Rightarrow> Some (Inl e)
              | Some (Inr (str1, s2)) \<Rightarrow> append_string_info H s2 str1 expansion)"

definition append_string_info_char :: "'s heap_ops \<Rightarrow> 's \<Rightarrow> StringInfoData \<Rightarrow> byte \<Rightarrow> (StringInfoData \<times> 's) cres option" where
  "append_string_info_char H s str ch =
     rbind (if str_len str + 1 \<ge> str_maxlen str then enlarge_string_info H s str 1 else Some (Inr (str, s))) (\<lambda>(str1, s1).
       let m1 = (bytes_of H s1)(str_data str1 + nat (str_len str1) := ch);
           str2 = str1\<lparr>str_len := str_len str1 + 1\<rparr>
       in Some (Inr (str2, set_bytes H s1 (m1(str_data str2 + nat (str_len str2) := 0)))))"

definition APPEND_STRING_INFO_CHAR_MACRO :: "'s heap_ops \<Rightarrow> 's \<Rightarrow> StringInfoData \<Rightarrow> byte \<Rightarrow> (StringInfoData \<times> 's) cres option" where
  "APPEND_STRING_INFO_CHAR_MACRO H s str ch =
     (if str_len str + 1 \<ge> str_maxlen str then append_string_info_char H s str ch
      else let m1 = (bytes_of H s)(str_data str + nat (str_len str) := ch);
               str1 = str\<lparr>str_len := str_len str + 1\<rparr>
           in Some (Inr (str1, set_bytes H s (m1(str_data str1 + nat (str_len str1) := 0)))))"

definition append_binary_string_info :: "'s heap_ops \<Rightarrow> 's \<Rightarrow> StringInfoData \<Rightarrow> byte list \<Rightarrow> (StringInfoData \<times> 's) cres option" where
  "append_binary_string_info H s str bytes =
     rbind (enlarge_string_info H s str (int (length bytes))) (\<lambda>(str1, s1).
       let m1 = memcpy_list (bytes_of H s1) (str_data str1 + nat (str_len str1)) bytes;
           str2 = str1\<lparr>str_len := str_len str1 + int (length bytes)\<rparr>
       in Some (Inr (str2, set_bytes H s1 (m1(str_data str2 + nat (str_len str2) := 0)))))"

section \<open>The invariant\<close>

text \<open>The buffer is a chunk of at least \<open>maxlen\<close> bytes; the string ends in it with a zero byte.\<close>

definition si_core :: "('s \<Rightarrow> nat \<rightharpoonup> nat) \<Rightarrow> ('s \<Rightarrow> bool) \<Rightarrow> 's \<Rightarrow> StringInfoData \<Rightarrow> bool" where
  "si_core chunk ok s str \<longleftrightarrow> ok s \<and> (\<exists>m. chunk s (str_data str) = Some m \<and> str_maxlen str \<le> int m) \<and>
     0 \<le> str_len str \<and> str_len str < str_maxlen str \<and> str_maxlen str < 2 ^ 31"

definition si_ok :: "'s heap_ops \<Rightarrow> ('s \<Rightarrow> nat \<rightharpoonup> nat) \<Rightarrow> ('s \<Rightarrow> bool) \<Rightarrow> 's \<Rightarrow> StringInfoData \<Rightarrow> bool" where
  "si_ok H chunk ok s str \<longleftrightarrow> si_core chunk ok s str \<and> bytes_of H s (str_data str + nat (str_len str)) = 0"

definition si_text :: "'s heap_ops \<Rightarrow> 's \<Rightarrow> StringInfoData \<Rightarrow> byte list" where
  "si_text H s str = bytes_at (bytes_of H s) (str_data str) (nat (str_len str))"

text \<open>The same string in another buffer.\<close>

definition moved :: "'s heap_ops \<Rightarrow> ('s \<Rightarrow> nat \<rightharpoonup> nat) \<Rightarrow> ('s \<Rightarrow> bool) \<Rightarrow> 's \<Rightarrow> StringInfoData \<Rightarrow> StringInfoData \<Rightarrow> 's \<Rightarrow> bool" where
  "moved H chunk ok s str str' s' \<longleftrightarrow> si_core chunk ok s' str' \<and> str_len str' = str_len str \<and> si_text H s' str' = si_text H s str \<and>
     same_chunks H chunk s s' (str_data str) \<and> (str_data str' = str_data str \<or> chunk s (str_data str') = None)"

text \<open>What appending promises: the new text, and every chunk but the buffer as it was.\<close>

definition appended :: "'s heap_ops \<Rightarrow> ('s \<Rightarrow> nat \<rightharpoonup> nat) \<Rightarrow> ('s \<Rightarrow> bool) \<Rightarrow> 's \<Rightarrow> StringInfoData \<Rightarrow> byte list \<Rightarrow> StringInfoData \<Rightarrow> 's \<Rightarrow> bool" where
  "appended H chunk ok s str t str' s' \<longleftrightarrow> si_ok H chunk ok s' str' \<and> si_text H s' str' = si_text H s str @ t \<and>
     same_chunks H chunk s s' (str_data str)"

lemma double_newlen_ok:
  assumes "0 < newlen" "newlen < 2 ^ 31" "needed \<le> 2 ^ 30"
  shows "\<exists>l. double_newlen needed newlen = Some (Inr l) \<and> needed \<le> l \<and> newlen \<le> l \<and> l < 2 ^ 31"
  using assms(1,2)
proof (induction "nat (needed - newlen)" arbitrary: newlen rule: less_induct)
  case less
  show ?case
  proof (cases "needed > newlen")
    case True
    then have "2 * newlen < 2 ^ 31" using assms(3) by simp
    then show ?thesis
      using True less.hyps [of "2 * newlen"] less.prems by (subst double_newlen.simps) (auto simp: c_int_def)
  qed (use less.prems in \<open>auto simp: double_newlen.simps\<close>)
qed

context data_heap
begin

text \<open>Writing behind the string, inside the buffer.\<close>

lemma written_core:
  assumes si: "si_core chunk ok s str"
    and b: "\<And>x. x < str_data str + nat (str_len str) \<or> str_data str + nat (str_maxlen str) \<le> x \<Longrightarrow> b x = bytes_of H s x"
  shows "moved H chunk ok s str str (set_bytes H s b)"
proof -
  obtain m where m: "chunk s (str_data str) = Some m" "str_maxlen str \<le> int m" using si by (auto simp: si_core_def)
  have "same_chunks H chunk s (set_bytes H s b) (str_data str)"
  proof (rule same_chunksI [OF _ m(1)])
    show "ok s" using si by (simp add: si_core_def)
    have "nat (str_maxlen str) \<le> m" using m(2) by simp
    then show "b x = bytes_of H s x" if "x < str_data str \<or> str_data str + m \<le> x" for x
      using that by (intro b) linarith
  qed
  moreover have "bytes_at b (str_data str) (nat (str_len str)) = bytes_at (bytes_of H s) (str_data str) (nat (str_len str))"
    by (rule bytes_at_eqI) (simp add: b)
  ultimately show ?thesis using si by (simp add: moved_def si_core_def si_text_def)
qed

lemma written_ok:
  assumes si: "si_core chunk ok s str" and l: "str_len str + int (length t) < str_maxlen str"
    and b: "\<And>x. x < str_data str + nat (str_len str) \<or> str_data str + nat (str_maxlen str) \<le> x \<Longrightarrow> b x = bytes_of H s x"
      "\<And>i. i < length t \<Longrightarrow> b (str_data str + nat (str_len str) + i) = t ! i"
      "b (str_data str + nat (str_len str) + length t) = 0"
  shows "appended H chunk ok s str t (str\<lparr>str_len := str_len str + int (length t)\<rparr>) (set_bytes H s b)"
proof -
  have n: "nat (str_len str + int (length t)) = nat (str_len str) + length t" using si by (simp add: si_core_def nat_add_distrib)
  have "bytes_at b (str_data str) (nat (str_len str) + length t) = bytes_at (bytes_of H s) (str_data str) (nat (str_len str)) @ t"
  proof (rule nth_equalityI)
    fix i assume "i < length (bytes_at b (str_data str) (nat (str_len str) + length t))"
    then show "bytes_at b (str_data str) (nat (str_len str) + length t) ! i = (bytes_at (bytes_of H s) (str_data str) (nat (str_len str)) @ t) ! i"
      using b(1) [of "str_data str + i"] b(2) [of "i - nat (str_len str)"] by (auto simp: nth_append bytes_at_def)
  qed simp
  then show ?thesis using written_core [OF si b(1)] l b(3) by (auto simp: appended_def moved_def si_core_def si_ok_def si_text_def n add.assoc)
qed

lemma moved_append: "moved H chunk ok s str str1 s1 \<Longrightarrow> appended H chunk ok s1 str1 t str2 s2 \<Longrightarrow> appended H chunk ok s str t str2 s2"
  using same_chunks_trans [of H chunk s s1 "str_data str" s2 "str_data str1"] by (auto simp: appended_def moved_def)

lemma moved_trans: "moved H chunk ok s str str s1 \<Longrightarrow> moved H chunk ok s1 str str2 s2 \<Longrightarrow> chunk s1 = chunk s \<Longrightarrow> moved H chunk ok s str str2 s2"
  using same_chunks_trans [of H chunk s s1 "str_data str" s2 "str_data str"] by (auto simp: moved_def)

lemma enlarge_string_ok:
  assumes si: "si_core chunk ok s str" and n: "0 \<le> needed" "str_len str + needed < 2 ^ 30"
  shows "enlarge_string_info H s str needed = Some (Inl Elog_ERROR) \<or>
    (\<exists>str' s'. enlarge_string_info H s str needed = Some (Inr (str', s')) \<and> moved H chunk ok s str str' s' \<and>
      str_len str + needed < str_maxlen str' \<and> str_maxlen str \<le> str_maxlen str')"
proof (cases "needed + (str_len str + 1) \<le> str_maxlen str")
  case True
  then show ?thesis using si n by (auto simp: enlarge_string_info_def moved_def same_chunks_refl si_core_def c_int_def)
next
  case False
  let ?p = "str_data str"
  obtain m where m: "chunk s ?p = Some m" "str_maxlen str \<le> int m" using si by (auto simp: si_core_def)
  have c: "c_int (needed + (str_len str + 1)) = Inr (needed + (str_len str + 1))" "c_int (2 * str_maxlen str) = Inr (2 * str_maxlen str)"
    using False n si by (auto simp: c_int_def si_core_def)
  obtain l where l: "double_newlen (needed + (str_len str + 1)) (2 * str_maxlen str) = Some (Inr l)" "needed + (str_len str + 1) \<le> l"
    "2 * str_maxlen str \<le> l" "l < 2 ^ 31"
    using double_newlen_ok [of "2 * str_maxlen str" "needed + (str_len str + 1)"] False n si by (auto simp: si_core_def)
  have run: "enlarge_string_info H s str needed = rbind (repalloc H s ?p (nat l)) (\<lambda>(p, s1).
      if p = 0 then Some (Inl Elog_ERROR) else Some (Inr (str\<lparr>str_data := p, str_maxlen := l\<rparr>, s1)))"
    using False c l(1) by (simp add: enlarge_string_info_def)
  have ok: "ok s" using si by (simp add: si_core_def)
  show ?thesis
  proof (rule outcome_cases [OF repalloc_law [OF ok m(1), of "nat l"]])
    assume "\<exists>q s' l'. repalloc H s ?p (nat l) = Some (Inr (q, s')) \<and> ok s' \<and> 0 < q \<and> ((chunk s)(?p := None)) q = None \<and> nat l \<le> l' \<and>
      chunk s' = (chunk s)(?p := None, q \<mapsto> l') \<and> (\<forall>i < min m (nat l). bytes_of H s' (q + i) = bytes_of H s (?p + i)) \<and>
      (\<forall>x k i. x \<noteq> ?p \<longrightarrow> chunk s x = Some k \<longrightarrow> i < k \<longrightarrow> bytes_of H s' (x + i) = bytes_of H s (x + i))"
    then obtain q s' l' where q: "repalloc H s ?p (nat l) = Some (Inr (q, s'))" "ok s'" "0 < q" "((chunk s)(?p := None)) q = None" "nat l \<le> l'"
      "chunk s' = (chunk s)(?p := None, q \<mapsto> l')" "\<And>i. i < min m (nat l) \<Longrightarrow> bytes_of H s' (q + i) = bytes_of H s (?p + i)"
      "\<And>x k i. x \<noteq> ?p \<Longrightarrow> chunk s x = Some k \<Longrightarrow> i < k \<Longrightarrow> bytes_of H s' (x + i) = bytes_of H s (x + i)" by blast
    let ?str = "str\<lparr>str_data := q, str_maxlen := l\<rparr>"
    have len: "nat (str_len str) < min m (nat l)" using si m(2) l by (auto simp: si_core_def)
    have "same_chunks H chunk s s' ?p" unfolding same_chunks_def using q(4,6,8) by auto
    moreover have "si_text H s' ?str = si_text H s str"
      unfolding si_text_def by (rule nth_equalityI) (use q(7) len in \<open>auto simp: bytes_at_def\<close>)
    moreover have "q = ?p \<or> chunk s q = None" using q(4) by (simp split: if_splits)
    ultimately have "moved H chunk ok s str ?str s'" using si q(2,5,6) l False n by (auto simp: moved_def si_core_def)
    then show ?thesis using q(1,3) l False si n by (auto simp: run si_core_def)
  qed (auto simp: run)
qed

lemma append_binary_ok:
  assumes si: "si_core chunk ok s str" and n: "str_len str + int (length bytes) < 2 ^ 30"
  shows "append_binary_string_info H s str bytes = Some (Inl Elog_ERROR) \<or>
    (\<exists>str' s'. append_binary_string_info H s str bytes = Some (Inr (str', s')) \<and> appended H chunk ok s str bytes str' s')"
proof (rule disjE [OF enlarge_string_ok [OF si _ n]])
  assume "\<exists>str1 s1. enlarge_string_info H s str (int (length bytes)) = Some (Inr (str1, s1)) \<and> moved H chunk ok s str str1 s1 \<and>
      str_len str + int (length bytes) < str_maxlen str1 \<and> str_maxlen str \<le> str_maxlen str1"
  then obtain str1 s1 where e: "enlarge_string_info H s str (int (length bytes)) = Some (Inr (str1, s1))" "moved H chunk ok s str str1 s1"
    "str_len str1 + int (length bytes) < str_maxlen str1" by (auto simp: moved_def)
  have si1: "si_core chunk ok s1 str1" using e(2) by (simp add: moved_def)
  then have nn: "nat (str_len str1 + int (length bytes)) = nat (str_len str1) + length bytes" by (simp add: si_core_def nat_add_distrib)
  let ?b = "(memcpy_list (bytes_of H s1) (str_data str1 + nat (str_len str1)) bytes)(str_data str1 + nat (str_len str1 + int (length bytes)) := 0)"
  have "appended H chunk ok s1 str1 bytes (str1\<lparr>str_len := str_len str1 + int (length bytes)\<rparr>) (set_bytes H s1 ?b)"
    by (rule written_ok [OF si1 e(3)]) (use e(3) si1 in \<open>auto simp: nn memcpy_list_def si_core_def\<close>)
  then show ?thesis using moved_append [OF e(2)] e(1) by (auto simp: append_binary_string_info_def Let_def)
qed (simp_all add: append_binary_string_info_def)

text \<open>A character is appended as a string of length one.\<close>

lemma append_char_eq: "si_core chunk ok s str \<Longrightarrow> str_len str + 1 < 2 ^ 30 \<Longrightarrow>
    append_string_info_char H s str ch = append_binary_string_info H s str [ch] \<and>
    APPEND_STRING_INFO_CHAR_MACRO H s str ch = append_binary_string_info H s str [ch]"
proof -
  assume si: "si_core chunk ok s str" and l: "str_len str + 1 < 2 ^ 30"
  have one: "memcpy_list m a [ch] = m(a := ch)" for m a by (auto simp: memcpy_list_def fun_eq_iff)
  have e: "enlarge_string_info H s str 1 = Some (Inr (str, s))" if "\<not> str_len str + 1 \<ge> str_maxlen str"
    using that si l by (simp add: enlarge_string_info_def c_int_def si_core_def)
  show ?thesis
    using e by (simp add: append_string_info_char_def append_binary_string_info_def APPEND_STRING_INFO_CHAR_MACRO_def one Let_def)
qed

lemma append_string_ok:
  assumes "si_core chunk ok s str" "2 * str_len str + int (length t) + 20 < 2 ^ 30"
  shows "append_string_info H s str t = Some (Inl Elog_ERROR) \<or>
    (\<exists>str' s'. append_string_info H s str t = Some (Inr (str', s')) \<and> appended H chunk ok s str t str' s')"
  using assms
proof (induction "nat (str_len str + int (length t) + 20 - str_maxlen str)" arbitrary: s str rule: less_induct)
  case less
  define avail where "avail = str_maxlen str - str_len str - 1"
  define b where "b = memcpy_list (bytes_of H s) (str_data str + nat (str_len str)) (take (nat avail - 1) t @ [0])"
  have vs: "vsnprintf (bytes_of H s) (str_data str + nat (str_len str)) (nat avail) t = (int (length t), b)"
    using less.prems(2) less.prems(1) by (simp add: vsnprintf_def b_def si_core_def)
  have out: "b x = bytes_of H s x"
    if "16 < avail" "x < str_data str + nat (str_len str) \<or> str_data str + nat (str_maxlen str) \<le> x" for x
    using that less.prems(1) by (auto simp: b_def memcpy_list_def si_core_def avail_def)
  show ?case
  proof (cases "16 < avail \<and> int (length t) < avail - 1")
    case True
    have "append_string_info H s str t = Some (Inr (str\<lparr>str_len := str_len str + int (length t)\<rparr>, set_bytes H s b))"
      using True vs by (subst append_string_info.simps) (simp add: avail_def [symmetric])
    moreover have "appended H chunk ok s str t (str\<lparr>str_len := str_len str + int (length t)\<rparr>) (set_bytes H s b)"
    proof (rule written_ok [OF less.prems(1)])
      have "length t \<le> nat avail - 1" using True by linarith
      then have t: "b = memcpy_list (bytes_of H s) (str_data str + nat (str_len str)) (t @ [0])" by (simp add: b_def)
      show "str_len str + int (length t) < str_maxlen str" using True by (simp add: avail_def)
      show "b x = bytes_of H s x" if "x < str_data str + nat (str_len str) \<or> str_data str + nat (str_maxlen str) \<le> x" for x
        using True out that by blast
      show "b (str_data str + nat (str_len str) + i) = t ! i" if "i < length t" for i
        using that by (simp add: t memcpy_list_def nth_append)
      show "b (str_data str + nat (str_len str) + length t) = 0" by (simp add: t memcpy_list_def nth_append)
    qed
    ultimately show ?thesis by blast
  next
    case False
    define s1 where "s1 = (if 16 < avail then set_bytes H s b else s)"
    have m1: "moved H chunk ok s str str s1" "chunk s1 = chunk s"
      using less.prems(1) written_core [OF less.prems(1) out] by (auto simp: s1_def moved_def same_chunks_refl)
    have run: "append_string_info H s str t = (case enlarge_string_info H s1 str (str_maxlen str) of
        None \<Rightarrow> None | Some (Inl e) \<Rightarrow> Some (Inl e) | Some (Inr (str1, s2)) \<Rightarrow> append_string_info H s2 str1 t)"
      using False vs by (subst append_string_info.simps) (auto simp: avail_def [symmetric] s1_def)
    have si1: "si_core chunk ok s1 str" using m1(1) by (simp add: moved_def)
    have n: "0 \<le> str_maxlen str" "str_len str + str_maxlen str < 2 ^ 30"
      using False less.prems by (auto simp: si_core_def avail_def)
    show ?thesis
    proof (rule disjE [OF enlarge_string_ok [OF si1 n]])
      assume "\<exists>str2 s2. enlarge_string_info H s1 str (str_maxlen str) = Some (Inr (str2, s2)) \<and> moved H chunk ok s1 str str2 s2 \<and>
        str_len str + str_maxlen str < str_maxlen str2 \<and> str_maxlen str \<le> str_maxlen str2"
      then obtain str2 s2 where e: "enlarge_string_info H s1 str (str_maxlen str) = Some (Inr (str2, s2))" "moved H chunk ok s1 str str2 s2"
        "str_len str + str_maxlen str < str_maxlen str2" by blast
      have m2: "moved H chunk ok s str str2 s2" by (rule moved_trans [OF m1(1) e(2) m1(2)])
      have p: "si_core chunk ok s2 str2" "str_len str2 = str_len str" using m2 by (auto simp: moved_def)
      have "nat (str_len str2 + int (length t) + 20 - str_maxlen str2) < nat (str_len str + int (length t) + 20 - str_maxlen str)"
        using e(3) p(2) False less.prems(1) by (auto simp: avail_def si_core_def)
      then have "append_string_info H s2 str2 t = Some (Inl Elog_ERROR) \<or>
          (\<exists>str' s'. append_string_info H s2 str2 t = Some (Inr (str', s')) \<and> appended H chunk ok s2 str2 t str' s')"
        using less.hyps p less.prems(2) by simp
      then show ?thesis using run e(1) moved_append [OF m2] by auto
    qed (simp add: run)
  qed
qed

lemma init_ok:
  assumes "ok s"
  shows "init_string_info H s = Some (Inl Elog_ERROR) \<or>
    (\<exists>str s'. init_string_info H s = Some (Inr (str, s')) \<and> si_ok H chunk ok s' str \<and> si_text H s' str = [] \<and>
      (\<forall>x. same_chunks H chunk s s' x))"
proof (rule outcome_cases [OF palloc_law [OF assms, of 256]])
  assume "\<exists>p s1 m. palloc H s 256 = Some (Inr (p, s1)) \<and> ok s1 \<and> 0 < p \<and> chunk s p = None \<and> 256 \<le> m \<and>
    chunk s1 = (chunk s)(p \<mapsto> m) \<and> bytes_of H s1 = bytes_of H s"
  then obtain p s1 m where p: "palloc H s 256 = Some (Inr (p, s1))" "ok s1" "0 < p" "chunk s p = None" "256 \<le> m"
    "chunk s1 = (chunk s)(p \<mapsto> m)" "bytes_of H s1 = bytes_of H s" by blast
  let ?b = "(bytes_of H s1)(p := 0)"
  have c: "chunk s1 p = Some m" using p(6) by simp
  have "same_chunks H chunk s1 (set_bytes H s1 ?b) p" by (rule same_chunksI [OF p(2) c]) (use p(5) in auto)
  then have "same_chunks H chunk s (set_bytes H s1 ?b) x" for x using p(4,6,7) by (auto simp: same_chunks_def)
  then show ?thesis using p by (auto simp: init_string_info_def si_ok_def si_core_def si_text_def bytes_at_def)
qed (auto simp: init_string_info_def)

end

section \<open>Correctness\<close>


text \<open>An empty string of 16 bytes, in a block of \<open>malloc\<close> and in the chunk of \<open>aset1\<close>.\<close>

definition str1 :: StringInfoData where "str1 = \<lparr>str_data = 64, str_len = 0, str_maxlen = 16\<rparr>"

definition heap1 :: "bump \<times> mem" where "heap1 = ((4096, [64 \<mapsto> 16]), \<lambda>_. 0)"

lemma str1_ok:
  "si_ok (aset_heap bump_malloc bump_free bump_realloc) (aset_blocks snd) (aset_valid snd bump_ok) aset1 str1"
  "si_ok (malloc_heap bump_malloc bump_free bump_realloc snd) (malloc_chunk snd) (malloc_valid snd bump_ok) heap1 str1"
proof -
  have "aset_blocks snd aset1 64 = Some (c_size aset1 48)"
    using aset_blocks_live [of snd aset1 "[16]" "\<lambda>_. [48]" "\<lambda>_. []" 64] aset1_ok(2,3) by simp
  moreover have "aset_valid snd bump_ok aset1" using aset1_ok(1,2) by (auto simp: aset_valid_def)
  ultimately show "si_ok (aset_heap bump_malloc bump_free bump_realloc) (aset_blocks snd) (aset_valid snd bump_ok) aset1 str1"
    by (simp add: si_ok_def si_core_def str1_def aset1_def aset0_def)
qed (simp add: si_ok_def si_core_def str1_def heap1_def malloc_valid_def malloc_chunk_def bump_ok_def bump_valid_def)


text \<open>
  \<open>append_string_info\<close> ends: the buffer is enlarged until the formatted text fits. Unless memory is exhausted,
  the string is then the old text followed by the whole expansion of the format, although \<open>vsnprintf\<close> has
  written truncated text on the way, and no other chunk changes.
\<close>

theorem append_string_info_correct:
  assumes D: "data_heap H chunk ok" and si: "si_ok H chunk ok s str" and l: "2 * str_len str + int (length expansion) + 20 < 2 ^ 30"
  shows "append_string_info H s str expansion = Some (Inl Elog_ERROR) \<or>
      (\<exists>str' s'. append_string_info H s str expansion = Some (Inr (str', s')) \<and> appended H chunk ok s str expansion str' s')"
  using data_heap.append_string_ok [OF D _ l] si by (auto simp: si_ok_def)

theorem append_string_info_correct_witness:
  "\<exists>r. append_string_info (malloc_heap bump_malloc bump_free bump_realloc snd) heap1 str1 (replicate 40 65) = Some r"
  using append_string_info_correct [OF bump_data_heap(1) str1_ok(2), of "replicate 40 65"] by (auto simp: str1_def)

end
