(* ===== verification/Datum.thy ===== *)
theory Datum
  imports HeapTuple DataHeap
begin

text \<open>
  Small values: datums (\<^verbatim>\<open>utils/adt/datum.c\<close>), whose bytes lie in a memory context or in blocks of \<open>malloc\<close> (\<open>DataHeap\<close>); names
  (\<^verbatim>\<open>utils/adt/name.c\<close>), arrays of \<open>NAME_DATA_LEN\<close> bytes; block identifiers and item pointers
  (\<^verbatim>\<open>storage/block.h\<close>, \<^verbatim>\<open>storage/itemptr.h\<close>, \<^verbatim>\<open>storage/page/itemptr.c\<close>). A C string is the list of its bytes before the
  terminating zero; a pointer that the code tests against NULL is an option.
\<close>

section \<open>Datums\<close>

text \<open>\<open>len\<close> has the unsigned type \<open>Size\<close>: the test against \<open>-1\<close> compares with the largest value. The type is used in a message only.\<close>

definition datum_get_size :: "mem \<Rightarrow> 64 word \<Rightarrow> bool \<Rightarrow> 64 word \<Rightarrow> nat cres" where
  "datum_get_size m value by_val len =
     (if by_val then if len \<le> 8 then Inr (unat len) else Inl Elog_ERROR
      else if len = -1 then if value = 0 then Inl Elog_ERROR else Inr (VARATT_SIZE m (unat value))
      else Inr (unat len))"

definition datum_copy :: "'s heap_ops \<Rightarrow> 's \<Rightarrow> 64 word \<Rightarrow> bool \<Rightarrow> 64 word \<Rightarrow> (64 word \<times> 's) cres option" where
  "datum_copy H s value by_val len =
     (if by_val then Some (Inr (value, s))
      else if value = 0 then Some (Inr (0, s))
      else rbind (Some (datum_get_size (bytes_of H s) value by_val len)) (\<lambda>real_size.
        rbind (palloc H s real_size) (\<lambda>(p, s1).
          if p = 0 then Some (Inl Elog_ERROR)
          else Some (Inr (of_nat p, set_bytes H s1 (memmove (bytes_of H s1) p (unat value) real_size))))))"

definition datum_free :: "'s heap_ops \<Rightarrow> 's \<Rightarrow> 64 word \<Rightarrow> bool \<Rightarrow> 64 word \<Rightarrow> 's cres option" where
  "datum_free H s value by_val len =
     rbind (Some (datum_get_size (bytes_of H s) value by_val len)) (\<lambda>_.
       if \<not> by_val then pfree H s (unat value) else Some (Inr s))"

definition datum_is_equal :: "mem \<Rightarrow> 64 word \<Rightarrow> 64 word \<Rightarrow> bool \<Rightarrow> 64 word \<Rightarrow> bool cres" where
  "datum_is_equal m value1 value2 by_val len =
     (if by_val then Inr (value1 = value2)
      else cbind (datum_get_size m value1 by_val len) (\<lambda>size1.
        cbind (datum_get_size m value2 by_val len) (\<lambda>size2.
          if size1 \<noteq> size2 then Inr False
          else Inr (bytes_at m (unat value1) size1 = bytes_at m (unat value2) size1))))"

section \<open>Names\<close>

definition NAME_DATA_LEN :: nat where "NAME_DATA_LEN = 32"

text \<open>\<open>strncpy\<close> copies up to the terminating zero and pads with zeros; \<open>strncmp\<close> compares at most \<open>n\<close> bytes.\<close>

definition strncpy :: "byte list \<Rightarrow> nat \<Rightarrow> byte list" where
  "strncpy src n = take n (takeWhile (\<lambda>b. b \<noteq> 0) src @ replicate n 0)"

fun strncmp :: "byte list \<Rightarrow> byte list \<Rightarrow> nat \<Rightarrow> int" where
  "strncmp xs ys 0 = 0"
| "strncmp xs ys (Suc n) =
     (let a = (case xs of [] \<Rightarrow> 0 | x # _ \<Rightarrow> x); b = (case ys of [] \<Rightarrow> 0 | y # _ \<Rightarrow> y)
      in if a \<noteq> b then uint a - uint b else if a = 0 then 0 else strncmp (tl xs) (tl ys) n)"

definition STR_N_CPY :: "byte list \<Rightarrow> byte list \<Rightarrow> nat \<Rightarrow> byte list" where
  "STR_N_CPY dst src len = (if len > 0 then (strncpy src len)[len - 1 := 0] else dst)"

text \<open>The result and the new content of the first argument.\<close>

definition name_cpy :: "byte list option \<Rightarrow> byte list option \<Rightarrow> int \<times> byte list option" where
  "name_cpy n1 n2 = (case (n1, n2) of (Some _, Some src) \<Rightarrow> (0, Some (strncpy src NAME_DATA_LEN)) | _ \<Rightarrow> (-1, n1))"

definition name_strcpy :: "byte list option \<Rightarrow> byte list option \<Rightarrow> int \<times> byte list option" where
  "name_strcpy name str = (case (name, str) of (Some dst, Some src) \<Rightarrow> (0, Some (STR_N_CPY dst src NAME_DATA_LEN)) | _ \<Rightarrow> (-1, name))"

definition name_strcmp :: "byte list option \<Rightarrow> byte list option \<Rightarrow> int" where
  "name_strcmp name str =
     (case name of None \<Rightarrow> (case str of None \<Rightarrow> 0 | Some _ \<Rightarrow> -1)
      | Some n \<Rightarrow> (case str of None \<Rightarrow> 1 | Some s \<Rightarrow> strncmp n s NAME_DATA_LEN))"

section \<open>Block identifiers and item pointers\<close>

record BlockIdData =
  bi_hi :: "16 word"
  bi_lo :: "16 word"

record ItemPointerData =
  ip_blk_id :: BlockIdData
  ip_pos_id :: "16 word"

definition INVALID_BLOCK_NUMBER :: "32 word" where "INVALID_BLOCK_NUMBER = 0xFFFFFFFF"

definition BLOCK_ID_SET :: "BlockIdData \<Rightarrow> 32 word \<Rightarrow> BlockIdData" where
  "BLOCK_ID_SET block_id block_number = block_id\<lparr>bi_hi := ucast (drop_bit 16 block_number), bi_lo := ucast (block_number AND 0xffff)\<rparr>"

definition BLOCK_ID_GET_BLOCK_NUMBER :: "BlockIdData \<Rightarrow> 32 word" where
  "BLOCK_ID_GET_BLOCK_NUMBER block_id = push_bit 16 (ucast (bi_hi block_id)) OR ucast (bi_lo block_id)"

definition ITEM_POINTER_IS_VALID :: "ItemPointerData option \<Rightarrow> bool" where
  "ITEM_POINTER_IS_VALID pointer = (case pointer of None \<Rightarrow> False | Some p \<Rightarrow> ip_pos_id p \<noteq> 0)"

definition ITEM_POINTER_GET_BLOCK_NUMBER :: "ItemPointerData option \<Rightarrow> 32 word cres" where
  "ITEM_POINTER_GET_BLOCK_NUMBER pointer = c_assert (ITEM_POINTER_IS_VALID pointer) (Inr (BLOCK_ID_GET_BLOCK_NUMBER (ip_blk_id (the pointer))))"

definition ITEM_POINTER_GET_OFFSET_NUMBER :: "ItemPointerData option \<Rightarrow> 16 word cres" where
  "ITEM_POINTER_GET_OFFSET_NUMBER pointer = c_assert (ITEM_POINTER_IS_VALID pointer) (Inr (ip_pos_id (the pointer)))"

definition ITEM_POINTER_SET :: "ItemPointerData \<Rightarrow> 32 word \<Rightarrow> 16 word \<Rightarrow> ItemPointerData" where
  "ITEM_POINTER_SET pointer block_num off_num = pointer\<lparr>ip_blk_id := BLOCK_ID_SET (ip_blk_id pointer) block_num, ip_pos_id := off_num\<rparr>"

definition ITEM_POINTER_SET_INVALID :: "ItemPointerData \<Rightarrow> ItemPointerData" where
  "ITEM_POINTER_SET_INVALID pointer = pointer\<lparr>ip_blk_id := BLOCK_ID_SET (ip_blk_id pointer) 0, ip_pos_id := 0\<rparr>"

text \<open>The second half of the conjunction is evaluated when the first one holds.\<close>

definition item_pointer_equals :: "ItemPointerData option \<Rightarrow> ItemPointerData option \<Rightarrow> bool cres" where
  "item_pointer_equals pointer1 pointer2 =
     cbind (ITEM_POINTER_GET_BLOCK_NUMBER pointer1) (\<lambda>b1. cbind (ITEM_POINTER_GET_BLOCK_NUMBER pointer2) (\<lambda>b2.
       if b1 \<noteq> b2 then Inr False
       else cbind (ITEM_POINTER_GET_OFFSET_NUMBER pointer1) (\<lambda>o1. cbind (ITEM_POINTER_GET_OFFSET_NUMBER pointer2) (\<lambda>o2.
         Inr (o1 = o2)))))"

section \<open>Properties of datums\<close>

context data_heap
begin

lemma datum_copy_ok:
  assumes ok: "ok s" and v: "value \<noteq> 0" and sz: "datum_get_size (bytes_of H s) value False len = Inr n"
    and c: "chunk s q = Some k" "q \<le> unat value" "unat value + n \<le> q + k" and v4: "len = -1 \<longrightarrow> 4 \<le> n"
    and addr: "\<And>p s1. palloc H s n = Some (Inr (p, s1)) \<Longrightarrow> p < 2 ^ 64"
  shows "datum_copy H s value False len = Some (Inl Elog_ERROR) \<or>
    (\<exists>d s' s''. datum_copy H s value False len = Some (Inr (d, s')) \<and> ok s' \<and> chunk s (unat d) = None \<and>
      datum_is_equal (bytes_of H s') value d False len = Inr True \<and> (\<forall>x. same_chunks H chunk s s' x) \<and>
      datum_free H s' d False len = Some (Inr s'') \<and> ok s'' \<and> chunk s'' = chunk s)"
proof (rule outcome_cases [OF palloc_law [OF ok, of n]])
  assume "\<exists>p s1 m. palloc H s n = Some (Inr (p, s1)) \<and> ok s1 \<and> 0 < p \<and> chunk s p = None \<and> n \<le> m \<and>
    chunk s1 = (chunk s)(p \<mapsto> m) \<and> bytes_of H s1 = bytes_of H s"
  then obtain p s1 m where p: "palloc H s n = Some (Inr (p, s1))" "ok s1" "0 < p" "chunk s p = None" "n \<le> m"
    "chunk s1 = (chunk s)(p \<mapsto> m)" "bytes_of H s1 = bytes_of H s" by blast
  let ?b = "memmove (bytes_of H s1) p (unat value) n"
  let ?s' = "set_bytes H s1 ?b"
  have up: "unat (of_nat p :: 64 word) = p" using addr [OF p(1)] by (simp add: unat_of_nat)
  have "same_chunks H chunk s1 ?s' p" by (rule same_chunksI [OF p(2), of p m]) (use p(5,6) in \<open>auto simp: mem_simps\<close>)
  then have same: "same_chunks H chunk s ?s' x" for x using p(4,6,7) by (auto simp: same_chunks_def)
  have src: "?b (unat value + i) = bytes_of H s (unat value + i)" if "i < n" for i
  proof -
    have "chunk s1 q = Some k" "chunk s1 p = Some m" "q \<noteq> p" using p(4,6) c(1) by auto
    then have "{q..<q + k} \<inter> {p..<p + m} = {}" using chunks_disjoint [OF p(2)] by blast
    moreover have "unat value + i \<in> {q..<q + k}" using that c by auto
    ultimately have "unat value + i \<notin> {p..<p + n}" using p(5) by (auto simp: disjoint_iff)
    then show ?thesis using p(7) by (auto simp: memmove_def)
  qed
  have dst: "?b (p + i) = bytes_of H s (unat value + i)" if "i < n" for i using that p(7) by (simp add: memmove_def)
  have vs: "VARATT_SIZE ?b a = n" if "len = -1" "\<And>i. i < n \<Longrightarrow> ?b (a + i) = bytes_of H s (unat value + i)" for a
  proof -
    have "get32 ?b a = get32 (bytes_of H s) (unat value)" using that v4 by (intro get32_cong) simp
    then show ?thesis using sz that(1) v by (simp add: datum_get_size_def VARATT_SIZE_def)
  qed
  have ne: "(of_nat p :: 64 word) \<noteq> 0" using p(3) up by (metis less_irrefl unat_0)
  have sizes: "datum_get_size ?b value False len = Inr n" "datum_get_size ?b (of_nat p) False len = Inr n"
    using vs [OF _ src] vs [OF _ dst] sz v ne by (auto simp: datum_get_size_def up split: if_splits)
  have "bytes_at ?b (unat value) n = bytes_at ?b p n" using src dst by (intro bytes_at_eqI) simp
  then have eq: "datum_is_equal ?b value (of_nat p) False len = Inr True" using sizes by (simp add: datum_is_equal_def up)
  obtain s'' where f: "pfree H ?s' p = Some (Inr s'')" "ok s''" "chunk s'' = (chunk ?s')(p := None)"
    using pfree_law [of ?s' p m] p(2,6) by auto
  have "chunk s'' = chunk s" using f(3) p(4,6) by auto
  then show ?thesis
    using p f sz v eq same sizes ne by (intro disjI2 exI [of _ "of_nat p"] exI [of _ ?s'] exI [of _ s'']) (simp add: datum_copy_def datum_free_def up)
qed (use v sz in \<open>auto simp: datum_copy_def\<close>)

end

text \<open>
  For any memory that keeps the contract of \<open>palloc\<close>: a copy of a datum that is passed by reference and whose bytes lie
  in a chunk is equal to the original, in new memory, and leaves every other chunk alone; freeing the copy succeeds
  and gives back exactly its memory. (The only failure is an exhausted memory.)
\<close>

theorem datum_copy_correct:
  assumes "data_heap H chunk ok" "ok s" "value \<noteq> 0" "datum_get_size (bytes_of H s) value False len = Inr n"
    and "chunk s q = Some k" "q \<le> unat value" "unat value + n \<le> q + k" "len = -1 \<longrightarrow> 4 \<le> n"
    and "\<And>p s1. palloc H s n = Some (Inr (p, s1)) \<Longrightarrow> p < 2 ^ 64"
  shows "datum_copy H s value False len = Some (Inl Elog_ERROR) \<or>
    (\<exists>d s' s''. datum_copy H s value False len = Some (Inr (d, s')) \<and> ok s' \<and> chunk s (unat d) = None \<and>
      datum_is_equal (bytes_of H s') value d False len = Inr True \<and> (\<forall>x. same_chunks H chunk s s' x) \<and>
      datum_free H s' d False len = Some (Inr s'') \<and> ok s'' \<and> chunk s'' = chunk s)"
  by (rule data_heap.datum_copy_ok [OF assms])

theorem datum_copy_correct_witness:
  "\<exists>r. datum_copy (malloc_heap bump_malloc bump_free bump_realloc snd) ((4096, [64 \<mapsto> 16]), \<lambda>_. 0) 64 False 8 = Some r"
proof -
  let ?H = "malloc_heap bump_malloc bump_free bump_realloc snd" and ?s = "((4096, [64 \<mapsto> 16]), \<lambda>_. 0) :: bump \<times> mem"
  have "malloc_valid snd bump_ok ?s" "malloc_chunk snd ?s 64 = Some 16"
    by (simp_all add: malloc_valid_def malloc_chunk_def bump_ok_def bump_valid_def)
  moreover have "p < 2 ^ 64" if "palloc ?H ?s 8 = Some (Inr (p, s1))" for p s1
    using that by (simp add: malloc_heap_def bump_malloc_def bump_alloc_def)
  ultimately show ?thesis
    using datum_copy_correct [OF bump_data_heap(1), of ?s 64 8 8 64 16] by (auto simp: datum_get_size_def)
qed

section \<open>Properties of item pointers and names\<close>

text \<open>
  An item pointer gives back the block number and the offset that were stored in it, for all
  \<open>2^32\<close> block numbers, and two pointers are equal exactly when both agree. The invalid pointer, however,
  holds block number 0 and not \<open>INVALID_BLOCK_NUMBER\<close>.
\<close>

theorem item_pointer_roundtrip:
  assumes "off_num \<noteq> 0" "off_num' \<noteq> 0"
  shows "ITEM_POINTER_GET_BLOCK_NUMBER (Some (ITEM_POINTER_SET p block_num off_num)) = Inr block_num \<and>
    ITEM_POINTER_GET_OFFSET_NUMBER (Some (ITEM_POINTER_SET p block_num off_num)) = Inr off_num \<and>
    item_pointer_equals (Some (ITEM_POINTER_SET p block_num off_num)) (Some (ITEM_POINTER_SET q block_num' off_num')) =
      Inr (block_num = block_num' \<and> off_num = off_num') \<and>
    ITEM_POINTER_IS_VALID (Some (ITEM_POINTER_SET_INVALID p)) = False \<and>
    BLOCK_ID_GET_BLOCK_NUMBER (ip_blk_id (ITEM_POINTER_SET_INVALID p)) = 0 \<and>
    BLOCK_ID_GET_BLOCK_NUMBER (ip_blk_id (ITEM_POINTER_SET_INVALID p)) \<noteq> INVALID_BLOCK_NUMBER"
proof -
  have "BLOCK_ID_GET_BLOCK_NUMBER (BLOCK_ID_SET b n) = n" for b n
  proof (rule bit_word_eqI)
    have m: "(0xffff :: 32 word) = mask 16" by (simp add: mask_eq_exp_minus_1)
    show "bit (BLOCK_ID_GET_BLOCK_NUMBER (BLOCK_ID_SET b n)) i = bit n i" if "i < LENGTH(32)" for i
      using that unfolding BLOCK_ID_GET_BLOCK_NUMBER_def BLOCK_ID_SET_def m by (auto simp: bit_simps not_le)
  qed
  then show ?thesis
    using assms by (simp add: ITEM_POINTER_GET_BLOCK_NUMBER_def ITEM_POINTER_GET_OFFSET_NUMBER_def ITEM_POINTER_SET_def
        ITEM_POINTER_IS_VALID_def ITEM_POINTER_SET_INVALID_def item_pointer_equals_def INVALID_BLOCK_NUMBER_def)
qed

theorem item_pointer_roundtrip_witness:
  "ITEM_POINTER_GET_BLOCK_NUMBER (Some (ITEM_POINTER_SET \<lparr>ip_blk_id = \<lparr>bi_hi = 0, bi_lo = 0\<rparr>, ip_pos_id = 0\<rparr> 0x12345 7)) = Inr 0x12345"
  using item_pointer_roundtrip [of 7 7 "\<lparr>ip_blk_id = \<lparr>bi_hi = 0, bi_lo = 0\<rparr>, ip_pos_id = 0\<rparr>" "0x12345"] by simp

lemma strncmp_zero: "strncmp xs ys n = 0 \<longleftrightarrow> take n (takeWhile (\<lambda>b. b \<noteq> 0) xs) = take n (takeWhile (\<lambda>b. b \<noteq> 0) ys)"
proof (induction n arbitrary: xs ys)
  case (Suc n)
  have "uint a = 0 \<longleftrightarrow> a = 0" "uint a = uint b \<longleftrightarrow> a = b" for a b :: byte by (simp_all add: word_uint_eq_iff)
  then show ?case using Suc by (cases xs; cases ys) (auto simp: Let_def)
qed simp

text \<open>
  A name holds the first \<open>NAME_DATA_LEN - 1\<close> bytes of a string and ends in a zero byte: copying a string into a
  name and comparing the two gives equality exactly when the string is shorter than \<open>NAME_DATA_LEN\<close>.
\<close>

theorem name_strcpy_truncates:
  assumes "0 \<notin> set str"
  shows "\<exists>n'. name_strcpy (Some n) (Some str) = (0, Some n') \<and> length n' = NAME_DATA_LEN \<and> n' ! (NAME_DATA_LEN - 1) = 0 \<and>
    takeWhile (\<lambda>b. b \<noteq> 0) n' = take (NAME_DATA_LEN - 1) str \<and>
    (name_strcmp (Some n') (Some str) = 0 \<longleftrightarrow> length str < NAME_DATA_LEN)"
proof -
  define n' where "n' = STR_N_CPY n str NAME_DATA_LEN"
  have tw: "takeWhile (\<lambda>b. b \<noteq> 0) str = str" using assms by (auto simp: takeWhile_eq_all_conv)
  have "n' = (take 32 (str @ replicate 32 0))[31 := 0]" by (simp add: n'_def STR_N_CPY_def strncpy_def NAME_DATA_LEN_def tw)
  also have "\<dots> = take 31 str @ replicate (32 - min 31 (length str)) 0"
    by (rule nth_equalityI) (auto simp: nth_append nth_list_update less_Suc_eq)
  finally have eq: "n' = take 31 str @ replicate (32 - min 31 (length str)) 0" .
  have "32 - min 31 (length str) = Suc (31 - min 31 (length str))" by simp
  then have t': "takeWhile (\<lambda>b. b \<noteq> 0) n' = take 31 str"
    using assms unfolding eq by (subst takeWhile_append2) (auto dest: in_set_takeD)
  have "name_strcmp (Some n') (Some str) = 0 \<longleftrightarrow> take 32 (take 31 str) = take 32 str"
    by (simp add: name_strcmp_def strncmp_zero t' tw NAME_DATA_LEN_def)
  also have "\<dots> \<longleftrightarrow> length str < 32"
  proof -
    have "length (take 32 (take 31 str)) = min 31 (length str)" "length (take 32 str) = min 32 (length str)" by simp_all
    then show ?thesis by (auto dest: arg_cong [of _ _ length])
  qed
  finally have c: "name_strcmp (Some n') (Some str) = 0 \<longleftrightarrow> length str < 32" .
  have "length n' = 32" "n' ! 31 = 0" unfolding eq by (auto simp: nth_append)
  moreover have "name_strcpy (Some n) (Some str) = (0, Some n')" by (simp add: name_strcpy_def n'_def)
  ultimately show ?thesis using t' c by (simp add: NAME_DATA_LEN_def)
qed

theorem name_strcpy_truncates_witness:
  "\<exists>n'. name_strcpy (Some []) (Some (replicate 40 65)) = (0, Some n') \<and> length n' = 32 \<and> name_strcmp (Some n') (Some (replicate 40 65)) \<noteq> 0"
  using name_strcpy_truncates [of "replicate 40 65" "[]"] by (auto simp: NAME_DATA_LEN_def)

end
