(* ===== verification/Dllist.thy ===== *)
theory Dllist
  imports Links
begin

text \<open>
  Doubly linked lists with a head and a tail, \<^verbatim>\<open>lib/dllist.c\<close> and \<^verbatim>\<open>lib/dllist.h\<close>. The fields of list headers and
  elements are functions from addresses; \<open>malloc\<close> and \<open>free\<close> are parameters. The result of \<open>malloc\<close> is
  not checked, so that an exhausted memory is a write through NULL. The list of a header is
  a list of elements (\<open>dl_rep\<close>), on which every routine is an operation.
\<close>

section \<open>Routines\<close>

record 'h dl_state =
  dle_next :: "nat \<Rightarrow> nat"
  dle_prev :: "nat \<Rightarrow> nat"
  dle_val :: "nat \<Rightarrow> nat"
  dle_list :: "nat \<Rightarrow> nat"
  dll_head :: "nat \<Rightarrow> nat"
  dll_tail :: "nat \<Rightarrow> nat"
  dl_heap :: 'h

definition set_next :: "nat \<Rightarrow> nat \<Rightarrow> 'h dl_state \<Rightarrow> 'h dl_state" where
  "set_next e v st = st\<lparr>dle_next := (dle_next st)(e := v)\<rparr>"

definition set_prev :: "nat \<Rightarrow> nat \<Rightarrow> 'h dl_state \<Rightarrow> 'h dl_state" where
  "set_prev e v st = st\<lparr>dle_prev := (dle_prev st)(e := v)\<rparr>"

definition set_list :: "nat \<Rightarrow> nat \<Rightarrow> 'h dl_state \<Rightarrow> 'h dl_state" where
  "set_list e v st = st\<lparr>dle_list := (dle_list st)(e := v)\<rparr>"

definition set_head :: "nat \<Rightarrow> nat \<Rightarrow> 'h dl_state \<Rightarrow> 'h dl_state" where
  "set_head l v st = st\<lparr>dll_head := (dll_head st)(l := v)\<rparr>"

definition set_tail :: "nat \<Rightarrow> nat \<Rightarrow> 'h dl_state \<Rightarrow> 'h dl_state" where
  "set_tail l v st = st\<lparr>dll_tail := (dll_tail st)(l := v)\<rparr>"

lemmas dl_sets = set_next_def set_prev_def set_list_def set_head_def set_tail_def

definition DLInitList :: "'h dl_state \<Rightarrow> nat \<Rightarrow> 'h dl_state" where
  "DLInitList st l = set_tail l 0 (set_head l 0 st)"

definition DLNewList :: "('h \<Rightarrow> nat \<Rightarrow> nat \<times> 'h) \<Rightarrow> 'h dl_state \<Rightarrow> (nat \<times> 'h dl_state) cres" where
  "DLNewList malloc st =
     (case malloc (dl_heap st) 16 of (l, hp) \<Rightarrow>
        if l = 0 then Inl Bad_pointer else Inr (l, set_tail l 0 (set_head l 0 (st\<lparr>dl_heap := hp\<rparr>))))"

definition DLInitElem :: "'h dl_state \<Rightarrow> nat \<Rightarrow> nat \<Rightarrow> 'h dl_state" where
  "DLInitElem st e val = (set_list e 0 (set_prev e 0 (set_next e 0 st)))\<lparr>dle_val := (dle_val st)(e := val)\<rparr>"

definition DLNewElem :: "('h \<Rightarrow> nat \<Rightarrow> nat \<times> 'h) \<Rightarrow> 'h dl_state \<Rightarrow> nat \<Rightarrow> (nat \<times> 'h dl_state) cres" where
  "DLNewElem malloc st val =
     (case malloc (dl_heap st) 32 of (e, hp) \<Rightarrow>
        if e = 0 then Inl Bad_pointer else Inr (e, DLInitElem (st\<lparr>dl_heap := hp\<rparr>) e val))"

definition DLFreeElem :: "('h \<Rightarrow> nat \<Rightarrow> 'h) \<Rightarrow> 'h dl_state \<Rightarrow> nat \<Rightarrow> 'h dl_state" where
  "DLFreeElem mfree st e = st\<lparr>dl_heap := mfree (dl_heap st) e\<rparr>"

definition DLRemove :: "'h dl_state \<Rightarrow> nat \<Rightarrow> 'h dl_state cres" where
  "DLRemove st e =
     (let l = dle_list st e
      in cbind (if dle_prev st e \<noteq> 0 then Inr (set_next (dle_prev st e) (dle_next st e) st)
                else c_assert (e = dll_head st l) (Inr (set_head l (dle_next st e) st))) (\<lambda>st1.
         cbind (if dle_next st1 e \<noteq> 0 then Inr (set_prev (dle_next st1 e) (dle_prev st1 e) st1)
                else c_assert (e = dll_tail st1 l) (Inr (set_tail l (dle_prev st1 e) st1))) (\<lambda>st2.
         Inr (set_list e 0 (set_prev e 0 (set_next e 0 st2))))))"

definition DLAddHead :: "'h dl_state \<Rightarrow> nat \<Rightarrow> nat \<Rightarrow> 'h dl_state" where
  "DLAddHead st l e =
     (let st1 = set_list e l st;
          st2 = (if dll_head st1 l \<noteq> 0 then set_prev (dll_head st1 l) e st1 else st1);
          st3 = set_prev e 0 (set_next e (dll_head st2 l) st2);
          st4 = set_head l e st3
      in if dll_tail st4 l = 0 then set_tail l e st4 else st4)"

definition DLAddTail :: "'h dl_state \<Rightarrow> nat \<Rightarrow> nat \<Rightarrow> 'h dl_state" where
  "DLAddTail st l e =
     (let st1 = set_list e l st;
          st2 = (if dll_tail st1 l \<noteq> 0 then set_next (dll_tail st1 l) e st1 else st1);
          st3 = set_next e 0 (set_prev e (dll_tail st2 l) st2);
          st4 = set_tail l e st3
      in if dll_head st4 l = 0 then set_head l e st4 else st4)"

definition DLRemHead :: "'h dl_state \<Rightarrow> nat \<Rightarrow> nat \<times> 'h dl_state" where
  "DLRemHead st l =
     (let result = dll_head st l
      in if result = 0 then (result, st)
         else let st1 = (if dle_next st result \<noteq> 0 then set_prev (dle_next st result) 0 st else st);
                  st2 = set_head l (dle_next st1 result) st1;
                  st3 = (if result = dll_tail st2 l then set_tail l 0 st2 else st2)
              in (result, set_list result 0 (set_next result 0 st3)))"

definition DLRemTail :: "'h dl_state \<Rightarrow> nat \<Rightarrow> nat \<times> 'h dl_state" where
  "DLRemTail st l =
     (let result = dll_tail st l
      in if result = 0 then (result, st)
         else let st1 = (if dle_prev st result \<noteq> 0 then set_next (dle_prev st result) 0 st else st);
                  st2 = set_tail l (dle_prev st1 result) st1;
                  st3 = (if result = dll_head st2 l then set_head l 0 st2 else st2)
              in (result, set_list result 0 (set_prev result 0 st3)))"

definition DLMoveToFront :: "'h dl_state \<Rightarrow> nat \<Rightarrow> 'h dl_state cres" where
  "DLMoveToFront st e =
     (let l = dle_list st e
      in if dll_head st l = e then Inr st
         else c_assert (dle_prev st e \<noteq> 0)
           (let st1 = set_next (dle_prev st e) (dle_next st e) st
            in cbind (if dle_next st1 e \<noteq> 0 then Inr (set_prev (dle_next st1 e) (dle_prev st1 e) st1)
                      else c_assert (e = dll_tail st1 l) (Inr (set_tail l (dle_prev st1 e) st1))) (\<lambda>st2.
                 let st3 = set_prev (dll_head st2 l) e st2;
                     st4 = set_prev e 0 (set_next e (dll_head st3 l) st3)
                 in Inr (set_head l e st4))))"

text \<open>The loop of \<open>DLFreeList\<close>.\<close>

partial_function (option) free_elems :: "('h \<Rightarrow> nat \<Rightarrow> 'h) \<Rightarrow> 'h dl_state \<Rightarrow> nat \<Rightarrow> 'h dl_state option" where
  "free_elems mfree st l =
     (case DLRemHead st l of (cur, st1) \<Rightarrow>
        if cur \<noteq> 0 then free_elems mfree (st1\<lparr>dl_heap := mfree (dl_heap st1) cur\<rparr>) l else Some st1)"

definition DLFreeList :: "('h \<Rightarrow> nat \<Rightarrow> 'h) \<Rightarrow> 'h dl_state \<Rightarrow> nat \<Rightarrow> 'h dl_state option" where
  "DLFreeList mfree st l = map_option (\<lambda>st1. st1\<lparr>dl_heap := mfree (dl_heap st1) l\<rparr>) (free_elems mfree st l)"

section \<open>The list of a header\<close>

text \<open>\<open>linked nx pv p xs n\<close>: the links of \<open>xs\<close> are right when \<open>p\<close> comes before and \<open>n\<close> after it.\<close>

fun linked :: "(nat \<Rightarrow> nat) \<Rightarrow> (nat \<Rightarrow> nat) \<Rightarrow> nat \<Rightarrow> nat list \<Rightarrow> nat \<Rightarrow> bool" where
  "linked nx pv p [] n = True"
| "linked nx pv p (x # xs) n = (x \<noteq> 0 \<and> pv x = p \<and> nx x = hd (xs @ [n]) \<and> linked nx pv x xs n)"

definition dl_rep :: "'h dl_state \<Rightarrow> nat \<Rightarrow> nat list \<Rightarrow> bool" where
  "dl_rep st l xs \<longleftrightarrow> distinct xs \<and> linked (dle_next st) (dle_prev st) 0 xs 0 \<and> (\<forall>x \<in> set xs. dle_list st x = l) \<and>
     dll_head st l = hd (xs @ [0]) \<and> dll_tail st l = last (0 # xs)"

lemma linked_append: "linked nx pv p (xs @ ys) n \<longleftrightarrow> linked nx pv p xs (hd (ys @ [n])) \<and> linked nx pv (last (p # xs)) ys n"
  by (induction xs arbitrary: p) (auto simp: hd_append)

lemma linked_cong: "(\<And>x. x \<in> set xs \<Longrightarrow> nx' x = nx x \<and> pv' x = pv x) \<Longrightarrow> linked nx' pv' p xs n = linked nx pv p xs n"
  by (induction xs arbitrary: p) auto

lemma linked_nonzero: "linked nx pv p xs n \<Longrightarrow> x \<in> set xs \<Longrightarrow> x \<noteq> 0"
  by (induction xs arbitrary: p) auto

text \<open>Changing what comes before or after.\<close>

lemma linked_prev:
  assumes "linked nx pv p (x # xs) n" "distinct (x # xs)" "pv' x = p'" "\<And>y. y \<in> set xs \<Longrightarrow> pv' y = pv y" "\<And>y. y \<in> set (x # xs) \<Longrightarrow> nx' y = nx y"
  shows "linked nx' pv' p' (x # xs) n"
proof -
  have "linked nx' pv' x xs n = linked nx pv x xs n" by (rule linked_cong) (use assms in auto)
  then show ?thesis using assms by simp
qed

lemma linked_next:
  assumes "linked nx pv p (xs @ [x]) n" "distinct (xs @ [x])" "nx' x = n'" "\<And>y. y \<in> set xs \<Longrightarrow> nx' y = nx y" "\<And>y. y \<in> set (xs @ [x]) \<Longrightarrow> pv' y = pv y"
  shows "linked nx' pv' p (xs @ [x]) n'"
proof -
  have "linked nx' pv' p xs x = linked nx pv p xs x" by (rule linked_cong) (use assms in auto)
  then show ?thesis using assms by (simp add: linked_append)
qed

lemma dl_rep_ends: "dl_rep st l xs \<Longrightarrow> dll_head st l = 0 \<longleftrightarrow> xs = []" "dl_rep st l xs \<Longrightarrow> dll_tail st l = 0 \<longleftrightarrow> xs = []"
  using linked_nonzero [of "dle_next st" "dle_prev st" 0 xs 0 "last xs"] by (cases xs; auto simp: dl_rep_def)+

text \<open>Only the elements in \<open>E\<close> and the header \<open>l\<close> have changed; then every other list is as it was.\<close>

definition dl_frame :: "'h dl_state \<Rightarrow> 'h dl_state \<Rightarrow> nat set \<Rightarrow> nat \<Rightarrow> bool" where
  "dl_frame st st' E l \<longleftrightarrow> (\<forall>x. x \<notin> E \<longrightarrow> dle_next st' x = dle_next st x \<and> dle_prev st' x = dle_prev st x \<and> dle_list st' x = dle_list st x) \<and>
     (\<forall>k. k \<noteq> l \<longrightarrow> dll_head st' k = dll_head st k \<and> dll_tail st' k = dll_tail st k) \<and> dle_val st' = dle_val st \<and> dl_heap st' = dl_heap st"

lemma dl_rep_frame:
  assumes "dl_rep st k xs" "dl_frame st st' E l" "k \<noteq> l" "set xs \<inter> E = {}"
  shows "dl_rep st' k xs"
proof -
  have eq: "dle_next st' x = dle_next st x \<and> dle_prev st' x = dle_prev st x" "dle_list st' x = dle_list st x" if "x \<in> set xs" for x
    using that assms by (auto simp: dl_frame_def)
  then have "linked (dle_next st') (dle_prev st') 0 xs 0 = linked (dle_next st) (dle_prev st) 0 xs 0" by (intro linked_cong) blast
  then show ?thesis using assms eq by (simp add: dl_rep_def dl_frame_def)
qed

lemma hd_in: "hd (xs @ [0]) \<noteq> 0 \<Longrightarrow> hd (xs @ [0]) \<in> set xs" "last (0 # xs) \<noteq> 0 \<Longrightarrow> last (0 # xs) \<in> set xs"
  by (cases xs; auto)+

lemma add_frame:
  assumes "dl_rep st l xs"
  shows "dl_frame st (DLAddHead st l e) (insert e (set xs)) l" "dl_frame st (DLAddTail st l e) (insert e (set xs)) l"
  using assms hd_in [of xs] by (auto simp: dl_rep_def dl_frame_def DLAddHead_def DLAddTail_def dl_sets Let_def)

lemma add_head_ok:
  assumes r: "dl_rep st l xs" and e: "e \<noteq> 0" "e \<notin> set xs"
  shows "dl_rep (DLAddHead st l e) l (e # xs)"
proof (cases xs)
  case Nil
  then show ?thesis using r e by (simp add: dl_rep_def DLAddHead_def dl_sets)
next
  case (Cons x ys)
  have h: "dll_head st l = x" "dll_tail st l \<noteq> 0" "x \<noteq> 0" "e \<noteq> x"
    using r e Cons dl_rep_ends(2) [OF r] by (auto simp: dl_rep_def)
  have "linked ((dle_next st)(e := x)) ((dle_prev st)(x := e, e := 0)) e (x # ys) 0"
    by (rule linked_prev [of "dle_next st" "dle_prev st" 0]) (use r e Cons in \<open>auto simp: dl_rep_def\<close>)
  then show ?thesis using r e h Cons by (auto simp: dl_rep_def DLAddHead_def dl_sets)
qed

lemma add_tail_ok:
  assumes r: "dl_rep st l xs" and e: "e \<noteq> 0" "e \<notin> set xs"
  shows "dl_rep (DLAddTail st l e) l (xs @ [e])"
proof (cases xs rule: rev_cases)
  case Nil
  then show ?thesis using r e by (simp add: dl_rep_def DLAddTail_def dl_sets)
next
  case (snoc ys x)
  have h: "dll_tail st l = x" "dll_head st l \<noteq> 0" "x \<noteq> 0" "e \<noteq> x" "hd (ys @ [x, e]) = hd (ys @ [x])"
    using r e snoc dl_rep_ends(1) [OF r] linked_nonzero [of "dle_next st" "dle_prev st" 0 xs 0 x] by (auto simp: dl_rep_def hd_append)
  have "linked ((dle_next st)(x := e, e := 0)) ((dle_prev st)(e := x)) 0 (ys @ [x]) e"
    by (rule linked_next [of "dle_next st" "dle_prev st" 0 ys x 0]) (use r e snoc in \<open>auto simp: dl_rep_def\<close>)
  then have "linked ((dle_next st)(x := e, e := 0)) ((dle_prev st)(e := x)) 0 (ys @ [x, e]) 0"
    using e linked_append [of _ _ 0 "ys @ [x]" "[e]"] by simp
  then show ?thesis using r e h snoc by (auto simp: dl_rep_def DLAddTail_def dl_sets hd_append split: if_splits)
qed

lemma linked_unlink:
  assumes l: "linked nx pv 0 (ys @ e # zs) 0" and d: "distinct (ys @ e # zs)"
    and nx: "\<And>x. x \<in> set (ys @ zs) \<Longrightarrow> nx' x = (if ys \<noteq> [] \<and> x = last ys then nx e else nx x)"
    and pv: "\<And>x. x \<in> set (ys @ zs) \<Longrightarrow> pv' x = (if zs \<noteq> [] \<and> x = hd zs then pv e else pv x)"
  shows "linked nx' pv' 0 (ys @ zs) 0"
proof -
  have e: "nx e = hd (zs @ [0])" "pv e = last (0 # ys)" "linked nx pv e zs 0" "linked nx pv 0 ys e" using l by (auto simp: linked_append)
  have dz: "last ys \<notin> set zs" if "ys \<noteq> []" using d last_in_set [OF that] by auto
  have dy: "hd zs \<notin> set ys" if "zs \<noteq> []" using d hd_in_set [OF that] by auto
  have "linked nx' pv' (last (0 # ys)) zs 0"
  proof (cases zs)
    case (Cons z us)
    have "linked nx' pv' (last (0 # ys)) (z # us) 0"
    proof (rule linked_prev [of nx pv e z us 0])
      show "nx' y = nx y" if "y \<in> set (z # us)" for y using nx [of y] dz that Cons by auto
    qed (use e d Cons pv in auto)
    then show ?thesis by (simp add: Cons)
  qed simp
  moreover have "linked nx' pv' 0 ys (hd (zs @ [0]))"
  proof (cases ys rule: rev_cases)
    case (snoc us y)
    have "linked nx' pv' 0 (us @ [y]) (hd (zs @ [0]))"
    proof (rule linked_next [of nx pv 0 us y e])
      show "pv' x = pv x" if "x \<in> set (us @ [y])" for x using pv [of x] dy that snoc by auto
    qed (use e d snoc nx in auto)
    then show ?thesis by (simp add: snoc)
  qed simp
  ultimately show ?thesis by (simp add: linked_append)
qed

text \<open>The links and the ends around an element of a list.\<close>

lemma dl_rep_at:
  assumes "dl_rep st l (ys @ e # zs)"
  shows "dle_next st e = hd (zs @ [0])" "dle_prev st e = last (0 # ys)" "dle_list st e = l" "e \<noteq> 0"
    "dle_next st e = 0 \<longleftrightarrow> zs = []" "dle_prev st e = 0 \<longleftrightarrow> ys = []"
    "dll_head st l = e \<longleftrightarrow> ys = []" "dll_tail st l = e \<longleftrightarrow> zs = []"
proof -
  have l: "linked (dle_next st) (dle_prev st) 0 (ys @ e # zs) 0" and d: "distinct (ys @ e # zs)" using assms by (auto simp: dl_rep_def)
  have nz: "x \<noteq> 0" if "x \<in> set (ys @ e # zs)" for x using linked_nonzero [OF l that] .
  show n: "dle_next st e = hd (zs @ [0])" and p: "dle_prev st e = last (0 # ys)" and "dle_list st e = l" "e \<noteq> 0"
    using l assms by (auto simp: dl_rep_def linked_append)
  show "dle_next st e = 0 \<longleftrightarrow> zs = []" using n nz by (cases zs) auto
  show "dle_prev st e = 0 \<longleftrightarrow> ys = []" using p nz [of "last ys"] by (cases "ys = []") auto
  have "dll_head st l = (if ys = [] then e else hd ys)" using assms by (simp add: dl_rep_def hd_append)
  moreover have "hd ys \<noteq> e" if "ys \<noteq> []" using d hd_in_set [OF that] by auto
  ultimately show "dll_head st l = e \<longleftrightarrow> ys = []" by simp
  have "dll_tail st l = (if zs = [] then e else last zs)" using assms by (simp add: dl_rep_def)
  moreover have "last zs \<noteq> e" if "zs \<noteq> []" using d last_in_set [OF that] by auto
  ultimately show "dll_tail st l = e \<longleftrightarrow> zs = []" by simp
qed

lemma remove_ok:
  assumes r: "dl_rep st l (ys @ e # zs)"
  shows "\<exists>st'. DLRemove st e = Inr st' \<and> dl_rep st' l (ys @ zs) \<and> dl_frame st st' (set (ys @ e # zs)) l \<and>
    dle_next st' e = 0 \<and> dle_prev st' e = 0 \<and> dle_list st' e = 0"
proof -
  note a = dl_rep_at [OF r]
  have l: "linked (dle_next st) (dle_prev st) 0 (ys @ e # zs) 0" and d: "distinct (ys @ e # zs)" using r by (auto simp: dl_rep_def)
  have ne: "last ys \<noteq> e" if "ys \<noteq> []" using d last_in_set [OF that] by auto
  have ne2: "hd zs \<noteq> e" "hd zs \<notin> set ys" if "zs \<noteq> []" using d hd_in_set [OF that] by auto
  define st' where "st' = st\<lparr>dle_next := (if ys = [] then dle_next st else (dle_next st)(last ys := dle_next st e))(e := 0),
    dle_prev := (if zs = [] then dle_prev st else (dle_prev st)(hd zs := dle_prev st e))(e := 0), dle_list := (dle_list st)(e := 0),
    dll_head := (if ys = [] then (dll_head st)(l := dle_next st e) else dll_head st),
    dll_tail := (if zs = [] then (dll_tail st)(l := dle_prev st e) else dll_tail st)\<rparr>"
  have "DLRemove st e = Inr st'"
    using a ne ne2 by (auto simp: DLRemove_def dl_sets st'_def Let_def)
  moreover have "linked (dle_next st') (dle_prev st') 0 (ys @ zs) 0"
    by (rule linked_unlink [OF l d]) (use d ne ne2 in \<open>auto simp: st'_def\<close>)
  then have "dl_rep st' l (ys @ zs)"
    using r a d by (auto simp: dl_rep_def st'_def hd_append)
  moreover have "dl_frame st st' (set (ys @ e # zs)) l" by (auto simp: dl_frame_def st'_def)
  moreover have "dle_next st' e = 0 \<and> dle_prev st' e = 0 \<and> dle_list st' e = 0" by (simp add: st'_def)
  ultimately show ?thesis by blast
qed

text \<open>Removing an end of a list is removing that element.\<close>

lemma rem_head_eq:
  assumes r: "dl_rep st l (e # zs)"
  shows "DLRemove st e = Inr (snd (DLRemHead st l)) \<and> fst (DLRemHead st l) = e"
proof -
  note a = dl_rep_at [of st l "[]" e zs, simplified, OF r]
  have "dle_prev (set_prev x 0 st) e = 0" for x using a(2) by (simp add: dl_sets)
  then show ?thesis
    using a by (cases "zs = []") (simp_all add: DLRemove_def DLRemHead_def dl_sets Let_def fun_upd_idem fun_upd_twist)
qed

lemma rem_tail_eq:
  assumes r: "dl_rep st l (ys @ [e])"
  shows "DLRemove st e = Inr (snd (DLRemTail st l)) \<and> fst (DLRemTail st l) = e"
proof -
  note a = dl_rep_at [OF r, simplified]
  show ?thesis
    using a by (cases "ys = []") (simp_all add: DLRemove_def DLRemTail_def dl_sets Let_def fun_upd_idem fun_upd_twist)
qed

lemma move_to_front_eq:
  assumes r: "dl_rep st l (ys @ e # zs)"
  shows "DLMoveToFront st e = cbind (DLRemove st e) (\<lambda>st1. Inr (DLAddHead st1 l e))"
proof (cases "ys = []")
  case True
  note a = dl_rep_at [OF r]
  have "dle_prev st (dle_next st e) = e" if "dle_next st e \<noteq> 0" using r True that by (cases zs) (auto simp: dl_rep_def)
  moreover have "e \<noteq> dle_next st e" using r True by (cases zs) (auto simp: dl_rep_def)
  moreover have "dll_tail st l \<noteq> 0" using dl_rep_ends(2) [OF r] by simp
  ultimately show ?thesis
    using a True by (cases "zs = []") (simp_all add: DLMoveToFront_def DLRemove_def DLAddHead_def dl_sets Let_def fun_eq_iff)
next
  case False
  note a = dl_rep_at [OF r]
  have d: "distinct (ys @ e # zs)" and h: "dll_head st l = hd ys" and nz: "\<And>x. x \<in> set (ys @ e # zs) \<Longrightarrow> x \<noteq> 0"
    using r False linked_nonzero by (auto simp: dl_rep_def hd_append)
  have "last ys \<noteq> e" "hd ys \<noteq> e" "hd ys \<noteq> 0" "last ys \<noteq> 0" using d nz last_in_set [OF False] hd_in_set [OF False] by auto
  moreover have "hd zs \<noteq> e" "hd zs \<noteq> 0" "hd zs \<noteq> hd ys" if "zs \<noteq> []" using d nz hd_in_set [OF that] hd_in_set [OF False] by auto
  moreover have "dll_tail st l \<noteq> 0" using dl_rep_ends(2) [OF r] by simp
  ultimately show ?thesis
    using a False h by (cases "zs = []") (simp_all add: DLMoveToFront_def DLRemove_def DLAddHead_def dl_sets Let_def fun_eq_iff)
qed

lemma free_elems_ok: "dl_rep st l xs \<Longrightarrow> \<exists>st'. free_elems mfree st l = Some st' \<and> dl_rep st' l [] \<and> dl_heap st' = fold (\<lambda>x hp. mfree hp x) xs (dl_heap st)"
proof (induction xs arbitrary: st)
  case Nil
  then have "DLRemHead st l = (0, st)" using dl_rep_ends(1) [OF Nil] by (simp add: DLRemHead_def)
  then show ?case using Nil by (subst free_elems.simps) simp
next
  case (Cons x xs)
  obtain st1 where s1: "DLRemHead st l = (x, st1)" "DLRemove st x = Inr st1" using rem_head_eq [OF Cons.prems] by (cases "DLRemHead st l") auto
  have r1: "dl_rep st1 l xs" "dl_heap st1 = dl_heap st"
    using remove_ok [of st l "[]" x xs] Cons.prems s1(2) by (auto simp: dl_frame_def)
  have "dl_rep (st1\<lparr>dl_heap := mfree (dl_heap st1) x\<rparr>) l xs" using r1(1) by (simp add: dl_rep_def)
  moreover have "x \<noteq> 0" using Cons.prems by (simp add: dl_rep_def)
  ultimately show ?case using Cons.IH s1(1) r1(2) by (subst free_elems.simps) fastforce
qed

section \<open>Correctness\<close>

text \<open>
  C39. The routines on a list act as operations on the sequence of its elements: adding at either end,
  removing any element, removing and returning an end. The assertions hold, the removed element is unlinked completely, and
  every other list is as it was.
\<close>

theorem dllist_refines_sequence:
  assumes r: "dl_rep st l xs"
  shows "(e \<noteq> 0 \<and> e \<notin> set xs \<longrightarrow> dl_rep (DLAddHead st l e) l (e # xs) \<and> dl_frame st (DLAddHead st l e) (insert e (set xs)) l \<and>
      dl_rep (DLAddTail st l e) l (xs @ [e]) \<and> dl_frame st (DLAddTail st l e) (insert e (set xs)) l) \<and>
    (e \<in> set xs \<longrightarrow> (\<exists>st'. DLRemove st e = Inr st' \<and> dl_rep st' l (remove1 e xs) \<and> dl_frame st st' (set xs) l \<and>
      dle_next st' e = 0 \<and> dle_prev st' e = 0 \<and> dle_list st' e = 0)) \<and>
    (if xs = [] then DLRemHead st l = (0, st) \<and> DLRemTail st l = (0, st)
     else (\<exists>st'. DLRemHead st l = (hd xs, st') \<and> dl_rep st' l (tl xs) \<and> dl_frame st st' (set xs) l) \<and>
       (\<exists>st'. DLRemTail st l = (last xs, st') \<and> dl_rep st' l (butlast xs) \<and> dl_frame st st' (set xs) l))"
proof (intro conjI impI)
  show "\<exists>st'. DLRemove st e = Inr st' \<and> dl_rep st' l (remove1 e xs) \<and> dl_frame st st' (set xs) l \<and>
      dle_next st' e = 0 \<and> dle_prev st' e = 0 \<and> dle_list st' e = 0" if e: "e \<in> set xs"
  proof -
    obtain ys zs where xs: "xs = ys @ e # zs" "e \<notin> set ys" using e by (meson split_list_first)
    then show ?thesis using remove_ok [of st l ys e zs] r by (simp add: remove1_append)
  qed
  show "if xs = [] then DLRemHead st l = (0, st) \<and> DLRemTail st l = (0, st)
     else (\<exists>st'. DLRemHead st l = (hd xs, st') \<and> dl_rep st' l (tl xs) \<and> dl_frame st st' (set xs) l) \<and>
       (\<exists>st'. DLRemTail st l = (last xs, st') \<and> dl_rep st' l (butlast xs) \<and> dl_frame st st' (set xs) l)"
  proof (cases "xs = []")
    case True
    then show ?thesis using dl_rep_ends [OF r] by (simp add: DLRemHead_def DLRemTail_def)
  next
    case False
    have "dl_rep st l ([] @ hd xs # tl xs)" "dl_rep st l (butlast xs @ last xs # [])" using False r by simp_all
    note h = this
    have "\<exists>st'. DLRemHead st l = (hd xs, st') \<and> dl_rep st' l (tl xs) \<and> dl_frame st st' (set xs) l"
      using remove_ok [OF h(1)] rem_head_eq [of st l "hd xs" "tl xs"] h(1) False by (cases "DLRemHead st l") auto
    moreover have "\<exists>st'. DLRemTail st l = (last xs, st') \<and> dl_rep st' l (butlast xs) \<and> dl_frame st st' (set xs) l"
      using remove_ok [OF h(2)] rem_tail_eq [of st l "butlast xs" "last xs"] h(2) False append_butlast_last_id [OF False]
      by (cases "DLRemTail st l") (auto simp del: append_butlast_last_id)
    ultimately show ?thesis using False by simp
  qed
qed (use add_head_ok [OF r] add_tail_ok [OF r] add_frame [OF r] in auto)

text \<open>A list at address 7 with the elements 1, 2 and 3.\<close>

definition dl3 :: "unit dl_state" where
  "dl3 = \<lparr>dle_next = (\<lambda>_. 0)(1 := 2, 2 := 3), dle_prev = (\<lambda>_. 0)(2 := 1, 3 := 2), dle_val = (\<lambda>_. 0), dle_list = (\<lambda>_. 7),
     dll_head = (\<lambda>_. 1), dll_tail = (\<lambda>_. 3), dl_heap = ()\<rparr>"

lemma dl3_rep: "dl_rep dl3 7 [1, 2, 3]"
  by (simp add: dl_rep_def dl3_def)

theorem dllist_refines_sequence_witness:
  "\<exists>st'. DLRemove dl3 2 = Inr st' \<and> dl_rep st' 7 [1, 3] \<and> dl_rep (DLAddTail dl3 7 9) 7 [1, 2, 3, 9]"
  using dllist_refines_sequence [OF dl3_rep, of 2] dllist_refines_sequence [OF dl3_rep, of 9] by auto

text \<open>
  \<open>DLMoveToFront\<close> does what its comment says: the state it leaves is the one that \<open>DLRemove\<close> followed by \<open>DLAddHead\<close>
  leaves, field by field, and the element is then the first of its list.
\<close>

theorem DLMoveToFront_equivalent:
  assumes r: "dl_rep st l xs" and e: "e \<in> set xs"
  shows "\<exists>st'. DLMoveToFront st e = Inr st' \<and> cbind (DLRemove st e) (\<lambda>st1. Inr (DLAddHead st1 l e)) = Inr st' \<and>
    dl_rep st' l (e # remove1 e xs)"
proof -
  obtain ys zs where xs: "xs = ys @ e # zs" "e \<notin> set ys" using e by (meson split_list_first)
  obtain st1 where s1: "DLRemove st e = Inr st1" "dl_rep st1 l (ys @ zs)" using remove_ok [of st l ys e zs] r xs(1) by blast
  have "e \<noteq> 0" "e \<notin> set (ys @ zs)" using dl_rep_at(4) [of st l ys e zs] r xs by (auto simp: dl_rep_def)
  then have "dl_rep (DLAddHead st1 l e) l (e # ys @ zs)" by (rule add_head_ok [OF s1(2)])
  then show ?thesis using move_to_front_eq [of st l ys e zs] r xs s1(1) by (simp add: remove1_append)
qed

theorem DLMoveToFront_equivalent_witness: "\<exists>st'. DLMoveToFront dl3 3 = Inr st' \<and> dl_rep st' 7 [3, 1, 2]"
  using DLMoveToFront_equivalent [OF dl3_rep, of 3] by auto

text \<open>\<open>DLFreeList\<close> ends and frees every element once, then the header.\<close>

lemma DLFreeList_ok:
  "dl_rep st l xs \<Longrightarrow> \<exists>st'. DLFreeList mfree st l = Some st' \<and> dl_heap st' = mfree (fold (\<lambda>x hp. mfree hp x) xs (dl_heap st)) l"
  using free_elems_ok [of st l xs mfree] by (auto simp: DLFreeList_def)

end
