(* ===== verification/Nodes.thy ===== *)
theory Nodes
  imports PgList Datum
begin

text \<open>
  The structs of parse and plan trees that \<^verbatim>\<open>nodes/equalfuncs.c\<close> compares (\<^verbatim>\<open>nodes/primnodes.h\<close>, \<^verbatim>\<open>nodes/relation.h\<close>,
  \<^verbatim>\<open>nodes/parsenodes.h\<close>), one record each, and the memory they lie in. The tag at the start of every node and the fields of
  list cells and values are those of \<open>PgList\<close>; the other fields of a struct are in the record, so the record has no
  field for the tag. A pointer is an address with 0 for NULL. A struct whose first member is another struct extends
  its record, so that the routines of the first one apply, as after the cast in C.
\<close>

section \<open>Primitive nodes\<close>

record Resdom =
  res_no :: "16 word"
  res_type :: "32 word"
  res_type_mod :: "32 word"
  res_name :: nat
  res_sort_group_ref :: "32 word"
  res_key :: "32 word"
  res_key_op :: "32 word"
  res_junk :: bool

record Fjoin =
  fj_initialized :: bool
  fj_n_nodes :: "32 word"
  fj_inner_node :: nat
  fj_results :: nat
  fj_always_done :: nat

datatype OpType = OP_EXPR | FUNC_EXPR | OR_EXPR | AND_EXPR | NOT_EXPR | SUBPLAN_EXPR

record Expr =
  ex_type_oid :: "32 word"
  ex_op_type :: OpType
  ex_oper :: nat
  ex_args :: nat

record Var =
  varno :: "32 word"
  var_attno :: "16 word"
  var_type :: "32 word"
  var_type_mod :: "32 word"
  var_levels_up :: "32 word"
  varno_old :: "32 word"
  var_oattno :: "16 word"

record Oper =
  op_no :: "32 word"
  op_id :: "32 word"
  op_result_type :: "32 word"
  op_size :: "32 word"
  op_fcache :: nat

record Const =
  const_type :: "32 word"
  const_len :: "32 word"
  const_value :: "64 word"
  const_is_null :: bool
  const_by_val :: bool
  const_is_set :: bool
  const_is_cast :: bool

definition PARAM_NAMED :: "32 word" where "PARAM_NAMED = 11"
definition PARAM_NUM :: "32 word" where "PARAM_NUM = 12"
definition PARAM_NEW :: "32 word" where "PARAM_NEW = 13"
definition PARAM_OLD :: "32 word" where "PARAM_OLD = 14"
definition PARAM_EXEC :: "32 word" where "PARAM_EXEC = 15"
definition PARAM_INVALID :: "32 word" where "PARAM_INVALID = 100"

lemmas param_kinds = PARAM_NAMED_def PARAM_NUM_def PARAM_NEW_def PARAM_OLD_def PARAM_EXEC_def PARAM_INVALID_def

record Param =
  param_kind :: "32 word"
  param_id :: "16 word"
  param_name :: nat
  param_type :: "32 word"
  param_tlist :: nat

record Func =
  func_id :: "32 word"
  func_type :: "32 word"
  func_is_index :: bool
  func_size :: "32 word"
  func_fcache :: nat
  func_tlist :: nat
  func_planlist :: nat

record Iter =
  iter_expr :: nat
  iter_type :: "32 word"

record Aggref =
  agg_name :: nat
  agg_base_type :: "32 word"
  agg_type :: "32 word"
  agg_target :: nat
  agg_use_nulls :: bool
  agg_star :: bool
  agg_distinct :: bool
  aggno :: "32 word"

datatype SubLinkType = EXISTS_SUBLINK | ALL_SUBLINK | ANY_SUBLINK | MULTIEXPR_SUBLINK | EXPR_SUBLINK

record SubLink =
  sublink_type :: SubLinkType
  sl_use_or :: bool
  sl_lefthand :: nat
  sl_oper :: nat
  sl_subselect :: nat

text \<open>An \<open>IntArray\<close> has \<open>MAX_DIM\<close> (6) elements, here a function from the index.\<close>

record Array =
  array_elem_type :: "32 word"
  array_elem_length :: "32 word"
  array_elem_by_val :: bool
  array_ndim :: "32 word"
  array_low :: "nat \<Rightarrow> 32 word"
  array_high :: "nat \<Rightarrow> 32 word"
  array_len :: "32 word"

record ArrayRef =
  ref_attr_length :: "32 word"
  ref_elem_length :: "32 word"
  ref_elem_type :: "32 word"
  ref_elem_by_val :: bool
  ref_upper_ind_expr :: nat
  ref_lower_ind_expr :: nat
  ref_expr :: nat
  ref_assgn_expr :: nat

record RelabelType =
  rl_arg :: nat
  rl_result_type :: "32 word"
  rl_result_type_mod :: "32 word"

section \<open>Planner nodes\<close>

text \<open>A \<open>double\<close> (\<open>Cost\<close>, \<open>Selectivity\<close>) is its bit pattern.\<close>

record RelOptInfo =
  relids :: nat
  ro_rows :: "64 word"
  ro_width :: "32 word"
  ro_target_list :: nat
  ro_path_list :: nat
  ro_cheapest_startup_path :: nat
  ro_cheapest_total_path :: nat
  ro_pruneable :: bool
  ro_indexed :: bool
  ro_pages :: "64 word"
  ro_tuples :: "64 word"
  ro_base_restrict_info :: nat
  ro_base_restrict_cost :: "64 word"
  ro_join_info :: nat
  ro_inner_join :: nat

record IndexOptInfo =
  index_oid :: "32 word"
  ix_pages :: "64 word"
  ix_tuples :: "64 word"
  ix_class_list :: nat
  ix_index_keys :: nat
  ix_ordering :: nat
  ix_rel_am :: "32 word"
  ix_am_cost_estimate :: "32 word"
  ix_ind_proc :: "32 word"
  ix_ind_pred :: nat
  ix_lossy :: bool

record PathKeyItem =
  pk_key :: nat
  pk_sort_op :: "32 word"

record Path =
  pt_parent :: nat
  pt_startup_cost :: "64 word"
  pt_total_cost :: "64 word"
  path_type :: nat
  path_keys :: nat

datatype ScanDirection = BackwardScanDirection | NoMovementScanDirection | ForwardScanDirection

record IndexPath = Path +
  ip_index_id :: nat
  ip_index_qual :: nat
  index_scan_dir :: ScanDirection
  ip_join_rel_ids :: nat
  ip_rows :: "64 word"

record TidPath = Path +
  tid_eval :: nat
  tid_unjoined_rel_ids :: nat

record JoinPath = Path +
  outer_join_path :: nat
  inner_join_path :: nat
  join_restrict_info :: nat

type_synonym NestPath = JoinPath

record MergePath = JoinPath +
  path_merge_clauses :: nat
  outer_sort_keys :: nat
  inner_sort_keys :: nat

record HashPath = JoinPath +
  path_hash_clauses :: nat

record RestrictInfo =
  ri_clause :: nat
  sub_clause_indices :: nat
  merge_join_operator :: "32 word"
  left_sort_op :: "32 word"
  right_sort_op :: "32 word"
  hash_join_operator :: "32 word"

record JoinInfo =
  ji_unjoined_relids :: nat
  jinfo_restrict_info :: nat

record Stream =
  path_ptr :: nat
  cinfo :: nat
  clause_type :: nat
  upstream :: nat
  downstream :: nat
  group_up :: bool
  group_cost :: "64 word"
  group_sel :: "64 word"

section \<open>Parse tree nodes\<close>

datatype CmdType = CMD_UNKNOWN | CMD_SELECT | CMD_UPDATE | CMD_INSERT | CMD_DELETE | CMD_UTILITY | CMD_NOTHING

record Query =
  q_command_type :: CmdType
  q_utility_stmt :: nat
  q_result_relation :: "32 word"
  q_into :: nat
  q_is_portal :: bool
  q_is_binary :: bool
  q_is_temp :: bool
  q_has_aggs :: bool
  q_has_sublinks :: bool
  q_rtable :: nat
  q_jointree :: nat
  q_row_marks :: nat
  q_target_list :: nat
  q_group_clause :: nat
  q_having_qual :: nat
  q_distinct_clause :: nat
  q_sort_clause :: nat
  q_limit_offset :: nat
  q_limit_count :: nat
  q_set_operations :: nat
  q_result_relations :: nat
  q_base_rel_list :: nat
  q_join_rel_list :: nat
  q_equi_key_list :: nat
  q_query_pathkeys :: nat

text \<open>
  \<open>equal_query\<close> and \<open>equal_range_tbl_entry\<close> also read members that the structs of \<^verbatim>\<open>parsenodes.h\<close> do not declare (they are
  those of an earlier release). They are kept apart: the extensions hold exactly these members.
\<close>

record QueryRead = Query +
  q_union_all :: bool
  q_qual :: nat
  q_row_mark :: nat
  q_intersect_clause :: nat
  q_union_clause :: nat

record TargetEntry =
  te_res_dom :: nat
  te_fjoin :: nat
  te_expr :: nat

record RangeTblEntry =
  rte_rel_name :: nat
  rte_rel_id :: "32 word"
  rte_subquery :: nat
  rte_alias :: nat
  rte_eref :: nat
  rte_inh :: bool
  rte_in_from_cl :: bool
  rte_check_for_read :: bool
  rte_check_for_write :: bool
  rte_check_as_user :: "32 word"

record RangeTblEntryRead = RangeTblEntry +
  rte_ref :: nat
  rte_in_join_set :: bool
  rte_skip_acl :: bool

record SortClause =
  tle_sort_group_ref :: "32 word"
  sc_sort_op :: "32 word"

record Attr =
  at_rel_name :: nat
  at_param_no :: nat
  at_attrs :: nat
  at_indirection :: nat

record CaseExpr =
  ce_case_type :: "32 word"
  ce_arg :: nat
  ce_args :: nat
  ce_def_result :: nat

record CaseWhen =
  cw_expr :: nat
  cw_result :: nat

section \<open>Tags\<close>

definition T_IndexScan :: nat where "T_IndexScan = 15"
definition T_SubPlan :: nat where "T_SubPlan = 28"
definition T_TidScan :: nat where "T_TidScan = 29"
definition T_Resdom :: nat where "T_Resdom = 100"
definition T_Fjoin :: nat where "T_Fjoin = 101"
definition T_Expr :: nat where "T_Expr = 102"
definition T_Var :: nat where "T_Var = 103"
definition T_Oper :: nat where "T_Oper = 104"
definition T_Const :: nat where "T_Const = 105"
definition T_Param :: nat where "T_Param = 106"
definition T_Aggref :: nat where "T_Aggref = 107"
definition T_SubLink :: nat where "T_SubLink = 108"
definition T_Func :: nat where "T_Func = 109"
definition T_ArrayRef :: nat where "T_ArrayRef = 111"
definition T_Iter :: nat where "T_Iter = 112"
definition T_RelabelType :: nat where "T_RelabelType = 113"
definition T_RelOptInfo :: nat where "T_RelOptInfo = 200"
definition T_Path :: nat where "T_Path = 201"
definition T_IndexPath :: nat where "T_IndexPath = 202"
definition T_NestPath :: nat where "T_NestPath = 203"
definition T_MergePath :: nat where "T_MergePath = 204"
definition T_HashPath :: nat where "T_HashPath = 205"
definition T_TidPath :: nat where "T_TidPath = 206"
definition T_PathKeyItem :: nat where "T_PathKeyItem = 208"
definition T_RestrictInfo :: nat where "T_RestrictInfo = 209"
definition T_JoinInfo :: nat where "T_JoinInfo = 210"
definition T_Stream :: nat where "T_Stream = 211"
definition T_IndexOptInfo :: nat where "T_IndexOptInfo = 212"
definition T_EState :: nat where "T_EState = 307"
definition T_Query :: nat where "T_Query = 600"
definition T_Attr :: nat where "T_Attr = 701"
definition T_TargetEntry :: nat where "T_TargetEntry = 717"
definition T_RangeTblEntry :: nat where "T_RangeTblEntry = 718"
definition T_SortClause :: nat where "T_SortClause = 719"
definition T_GroupClause :: nat where "T_GroupClause = 720"
definition T_CaseExpr :: nat where "T_CaseExpr = 723"
definition T_CaseWhen :: nat where "T_CaseWhen = 724"

lemmas node_tags = T_IndexScan_def T_SubPlan_def T_TidScan_def T_Resdom_def T_Fjoin_def T_Expr_def T_Var_def T_Oper_def T_Const_def
  T_Param_def T_Aggref_def T_SubLink_def T_Func_def T_ArrayRef_def T_Iter_def T_RelabelType_def T_RelOptInfo_def
  T_Path_def T_IndexPath_def T_NestPath_def T_MergePath_def T_HashPath_def T_TidPath_def T_PathKeyItem_def
  T_RestrictInfo_def T_JoinInfo_def T_Stream_def T_IndexOptInfo_def T_EState_def T_Query_def T_Attr_def T_TargetEntry_def
  T_RangeTblEntry_def T_SortClause_def T_GroupClause_def T_CaseExpr_def T_CaseWhen_def
  T_List_def T_Integer_def T_Float_def T_String_def

section \<open>Memory\<close>

text \<open>
  One map per struct. \<open>n_strs\<close> gives the C string at an address (its bytes before the terminating zero),
  \<open>n_raw\<close> the bytes of arrays and of datums that are passed by reference, \<open>n_lists\<close> the tags, list cells and values.
\<close>

record 'h node_store =
  n_lists :: "'h nodes"
  n_strs :: "nat \<Rightarrow> 8 word list"
  n_raw :: mem
  h_Resdom :: "nat \<Rightarrow> Resdom"
  h_Fjoin :: "nat \<Rightarrow> Fjoin"
  h_Expr :: "nat \<Rightarrow> Expr"
  h_Var :: "nat \<Rightarrow> Var"
  h_Oper :: "nat \<Rightarrow> Oper"
  h_Const :: "nat \<Rightarrow> Const"
  h_Param :: "nat \<Rightarrow> Param"
  h_Func :: "nat \<Rightarrow> Func"
  h_Iter :: "nat \<Rightarrow> Iter"
  h_Aggref :: "nat \<Rightarrow> Aggref"
  h_SubLink :: "nat \<Rightarrow> SubLink"
  h_Array :: "nat \<Rightarrow> Array"
  h_ArrayRef :: "nat \<Rightarrow> ArrayRef"
  h_RelabelType :: "nat \<Rightarrow> RelabelType"
  h_RelOptInfo :: "nat \<Rightarrow> RelOptInfo"
  h_IndexOptInfo :: "nat \<Rightarrow> IndexOptInfo"
  h_PathKeyItem :: "nat \<Rightarrow> PathKeyItem"
  h_Path :: "nat \<Rightarrow> Path"
  h_IndexPath :: "nat \<Rightarrow> IndexPath"
  h_TidPath :: "nat \<Rightarrow> TidPath"
  h_NestPath :: "nat \<Rightarrow> NestPath"
  h_MergePath :: "nat \<Rightarrow> MergePath"
  h_HashPath :: "nat \<Rightarrow> HashPath"
  h_RestrictInfo :: "nat \<Rightarrow> RestrictInfo"
  h_JoinInfo :: "nat \<Rightarrow> JoinInfo"
  h_Stream :: "nat \<Rightarrow> Stream"
  h_Query :: "nat \<Rightarrow> QueryRead"
  h_TargetEntry :: "nat \<Rightarrow> TargetEntry"
  h_RangeTblEntry :: "nat \<Rightarrow> RangeTblEntryRead"
  h_SortClause :: "nat \<Rightarrow> SortClause"
  h_Attr :: "nat \<Rightarrow> Attr"
  h_CaseExpr :: "nat \<Rightarrow> CaseExpr"
  h_CaseWhen :: "nat \<Rightarrow> CaseWhen"

definition NODE_TAG :: "'h node_store \<Rightarrow> nat \<Rightarrow> nat" where "NODE_TAG st p = n_type (n_lists st) p"

end
