(* ===== verification/EqualFuncs.thy ===== *)
theory EqualFuncs
  imports Nodes
begin

text \<open>
  The comparison of nodes, \<^verbatim>\<open>nodes/equalfuncs.c\<close>. A test that leaves with \<open>false\<close> is an \<open>if\<close>, or
  \<open>need\<close> where the test is a call. The routine of a struct takes the comparison of the nodes it points to as its
  parameter \<open>eq\<close>; \<open>equal_nodes\<close> ties the knot, with a bound on the depth of the recursion: \<open>None\<close> is a comparison
  that needs more depth, or a walk along a list that does not end.
\<close>

type_synonym eqfun = "nat \<Rightarrow> nat \<Rightarrow> bool cres option"

abbreviation ret :: "bool \<Rightarrow> bool cres option" where "ret r \<equiv> Some (Inr r)"

definition need :: "bool cres option \<Rightarrow> bool cres option \<Rightarrow> bool cres option" where
  "need test k = rbind test (\<lambda>r. if r then k else ret False)"

lemma need_simps [simp]: "need (ret True) k = k" "need (ret False) k = ret False" "need (Some (Inl e)) k = Some (Inl e)" "need None k = None"
  by (simp_all add: need_def)

section \<open>Strings, bytes and floating-point numbers\<close>

text \<open>\<open>strcmp (p, q) == 0\<close> and \<open>memcmp (p, q, n * sz) == 0\<close>, \<open>n\<close> an \<open>int\<close>; a negative one asks for more bytes than memory has.\<close>

definition c_strcmp :: "'h node_store \<Rightarrow> nat \<Rightarrow> nat \<Rightarrow> bool cres" where
  "c_strcmp st p q = (if p = 0 \<or> q = 0 then Inl Bad_pointer else Inr (n_strs st p = n_strs st q))"

definition same_string :: "'h node_store \<Rightarrow> nat \<Rightarrow> nat \<Rightarrow> bool cres option" where
  "same_string st p q = (if p \<noteq> 0 \<and> q \<noteq> 0 then Some (c_strcmp st p q) else ret (p = q))"

definition c_memcmp :: "'h node_store \<Rightarrow> nat \<Rightarrow> nat \<Rightarrow> 32 word \<Rightarrow> nat \<Rightarrow> bool cres option" where
  "c_memcmp st p q n sz =
     (if p = 0 \<or> q = 0 \<or> sint n < 0 then Some (Inl Bad_pointer)
      else ret (bytes_at (n_raw st) p (unat n * sz) = bytes_at (n_raw st) q (unat n * sz)))"

text \<open>Equality of two \<open>double\<close>s on their bit patterns: no NaN is equal to anything, the two zeros are equal.\<close>

definition is_nan :: "64 word \<Rightarrow> bool" where "is_nan x \<longleftrightarrow> 0x7FF0000000000000 < x AND 0x7FFFFFFFFFFFFFFF"

definition is_zero :: "64 word \<Rightarrow> bool" where "is_zero x \<longleftrightarrow> x AND 0x7FFFFFFFFFFFFFFF = 0"

definition dbl_eq :: "64 word \<Rightarrow> 64 word \<Rightarrow> bool" where
  "dbl_eq x y \<longleftrightarrow> \<not> is_nan x \<and> \<not> is_nan y \<and> (x = y \<or> is_zero x \<and> is_zero y)"

section \<open>Lists\<close>

partial_function (option) equali :: "'h nodes \<Rightarrow> nat \<Rightarrow> nat \<Rightarrow> bool cres option" where
  "equali st l b =
     (if l \<noteq> 0 then
        if b = 0 then ret False
        else if LFIRSTI st l \<noteq> LFIRSTI st b then ret False
        else equali st (n_next st l) (n_next st b)
      else if b \<noteq> 0 then ret False
      else ret True)"

text \<open>The loop over the elements has no test for the end of the second list: the lengths were compared.\<close>

partial_function (option) equal_elems :: "eqfun \<Rightarrow> 'h nodes \<Rightarrow> nat \<Rightarrow> nat \<Rightarrow> bool cres option" where
  "equal_elems eq st l lb =
     (if l \<noteq> 0 then
        if lb = 0 then Some (Inl Bad_pointer)
        else case eq (unat (LFIRST st l)) (unat (LFIRST st lb)) of None \<Rightarrow> None
          | Some r \<Rightarrow> (case r of Inl e \<Rightarrow> Some (Inl e)
             | Inr same \<Rightarrow> if \<not> same then ret False else equal_elems eq st (n_next st l) (n_next st lb))
      else ret True)"

definition equal_list :: "eqfun \<Rightarrow> 'h nodes \<Rightarrow> nat \<Rightarrow> nat \<Rightarrow> bool cres option" where
  "equal_list eq st a b =
     (case list_length st a of None \<Rightarrow> None
      | Some na \<Rightarrow> (case list_length st b of None \<Rightarrow> None
        | Some nb \<Rightarrow> if na \<noteq> nb then ret False else equal_elems eq st a b))"

definition equal_value :: "'h node_store \<Rightarrow> nat \<Rightarrow> nat \<Rightarrow> bool cres option" where
  "equal_value st a b =
     (if NODE_TAG st a \<noteq> NODE_TAG st b then ret False
      else if NODE_TAG st a = T_Integer then ret (n_word (n_lists st) a = n_word (n_lists st) b)
      else if NODE_TAG st a \<in> {T_Float, T_String} then
        Some (c_strcmp st (unat (n_word (n_lists st) a)) (unat (n_word (n_lists st) b)))
      else ret True)"

lemmas equal_loops [code] = equali.simps equal_elems.simps

section \<open>Primitive nodes\<close>

definition equal_resdom :: "'h node_store \<Rightarrow> Resdom \<Rightarrow> Resdom \<Rightarrow> bool cres option" where
  "equal_resdom st a b =
     (if res_no a \<noteq> res_no b then ret False else
      if res_type a \<noteq> res_type b then ret False else
      if res_type_mod a \<noteq> res_type_mod b then ret False else
      need (same_string st (res_name a) (res_name b)) (
      if res_sort_group_ref a \<noteq> res_sort_group_ref b then ret False else
      if res_key a \<noteq> res_key b then ret False else
      if res_key_op a \<noteq> res_key_op b then ret False else
      ret True))"

text \<open>The second comparison of memory has the array of the first node on both sides.\<close>

definition equal_fjoin :: "eqfun \<Rightarrow> 'h node_store \<Rightarrow> Fjoin \<Rightarrow> Fjoin \<Rightarrow> bool cres option" where
  "equal_fjoin eq st a b =
     (if fj_initialized a \<noteq> fj_initialized b then ret False else
      if fj_n_nodes a \<noteq> fj_n_nodes b then ret False else
      need (eq (fj_inner_node a) (fj_inner_node b)) (
      need (c_memcmp st (fj_results a) (fj_results b) (fj_n_nodes a) 8) (
      need (c_memcmp st (fj_always_done a) (fj_always_done a) (fj_n_nodes a) 1) (
      ret True))))"

definition equal_expr :: "eqfun \<Rightarrow> Expr \<Rightarrow> Expr \<Rightarrow> bool cres option" where
  "equal_expr eq a b =
     (if ex_op_type a \<noteq> ex_op_type b then ret False else
      need (eq (ex_oper a) (ex_oper b)) (
      need (eq (ex_args a) (ex_args b)) (
      ret True)))"

definition equal_attr :: "eqfun \<Rightarrow> 'h node_store \<Rightarrow> Attr \<Rightarrow> Attr \<Rightarrow> bool cres option" where
  "equal_attr eq st a b =
     (need (Some (c_strcmp st (at_rel_name a) (at_rel_name b))) (
      need (eq (at_attrs a) (at_attrs b)) (
      ret True)))"

definition equal_var :: "Var \<Rightarrow> Var \<Rightarrow> bool cres option" where
  "equal_var a b =
     (if varno a \<noteq> varno b then ret False else
      if var_attno a \<noteq> var_attno b then ret False else
      if var_type a \<noteq> var_type b then ret False else
      if var_type_mod a \<noteq> var_type_mod b then ret False else
      if var_levels_up a \<noteq> var_levels_up b then ret False else
      if varno_old a \<noteq> varno_old b then ret False else
      if var_oattno a \<noteq> var_oattno b then ret False else
      ret True)"

definition equal_oper :: "Oper \<Rightarrow> Oper \<Rightarrow> bool cres option" where
  "equal_oper a b =
     (if op_no a \<noteq> op_no b then ret False else
      if op_result_type a \<noteq> op_result_type b then ret False else
      ret True)"

text \<open>The length is an \<open>int\<close> and the parameter of \<open>datum_is_equal\<close> a \<open>Size\<close>: the value is extended with its sign.\<close>

definition equal_const :: "'h node_store \<Rightarrow> Const \<Rightarrow> Const \<Rightarrow> bool cres option" where
  "equal_const st a b =
     (if const_type a \<noteq> const_type b then ret False else
      if const_len a \<noteq> const_len b then ret False else
      if const_is_null a \<noteq> const_is_null b then ret False else
      if const_by_val a \<noteq> const_by_val b then ret False else
      if const_is_null a then ret True
      else Some (datum_is_equal (n_raw st) (const_value a) (const_value b) (const_by_val a) (scast (const_len a))))"

definition equal_param :: "eqfun \<Rightarrow> 'h node_store \<Rightarrow> Param \<Rightarrow> Param \<Rightarrow> bool cres option" where
  "equal_param eq st a b =
     (if param_kind a \<noteq> param_kind b then ret False else
      if param_type a \<noteq> param_type b then ret False else
      need (eq (param_tlist a) (param_tlist b)) (
      if param_kind a \<in> {PARAM_NAMED, PARAM_NEW, PARAM_OLD} then
         need (Some (c_strcmp st (param_name a) (param_name b))) (ret True)
       else if param_kind a \<in> {PARAM_NUM, PARAM_EXEC} then
         (if param_id a \<noteq> param_id b then ret False else ret True)
       else if param_kind a = PARAM_INVALID then ret True
       else Some (Inl Elog_ERROR)))"

definition equal_func :: "eqfun \<Rightarrow> Func \<Rightarrow> Func \<Rightarrow> bool cres option" where
  "equal_func eq a b =
     (if func_id a \<noteq> func_id b then ret False else
      if func_type a \<noteq> func_type b then ret False else
      if func_is_index a \<noteq> func_is_index b then ret False else
      if func_size a \<noteq> func_size b then ret False else
      need (eq (func_tlist a) (func_tlist b)) (
      need (eq (func_planlist a) (func_planlist b)) (
      ret True)))"

definition equal_aggref :: "eqfun \<Rightarrow> 'h node_store \<Rightarrow> Aggref \<Rightarrow> Aggref \<Rightarrow> bool cres option" where
  "equal_aggref eq st a b =
     (need (Some (c_strcmp st (agg_name a) (agg_name b))) (
      if agg_base_type a \<noteq> agg_base_type b then ret False else
      if agg_type a \<noteq> agg_type b then ret False else
      need (eq (agg_target a) (agg_target b)) (
      if agg_use_nulls a \<noteq> agg_use_nulls b then ret False else
      if agg_star a \<noteq> agg_star b then ret False else
      if agg_distinct a \<noteq> agg_distinct b then ret False else
      ret True)))"

definition equal_sublink :: "eqfun \<Rightarrow> SubLink \<Rightarrow> SubLink \<Rightarrow> bool cres option" where
  "equal_sublink eq a b =
     (if sublink_type a \<noteq> sublink_type b then ret False else
      if sl_use_or a \<noteq> sl_use_or b then ret False else
      need (eq (sl_lefthand a) (sl_lefthand b)) (
      need (eq (sl_oper a) (sl_oper b)) (
      need (eq (sl_subselect a) (sl_subselect b)) (
      ret True))))"

definition equal_relabel_type :: "eqfun \<Rightarrow> RelabelType \<Rightarrow> RelabelType \<Rightarrow> bool cres option" where
  "equal_relabel_type eq a b =
     (need (eq (rl_arg a) (rl_arg b)) (
      if rl_result_type a \<noteq> rl_result_type b then ret False else
      if rl_result_type_mod a \<noteq> rl_result_type_mod b then ret False else
      ret True))"

text \<open>Of the bounds only those of the first dimension are compared.\<close>

definition equal_array :: "Array \<Rightarrow> Array \<Rightarrow> bool cres option" where
  "equal_array a b =
     (if array_elem_type a \<noteq> array_elem_type b then ret False else
      if array_ndim a \<noteq> array_ndim b then ret False else
      if array_low a 0 \<noteq> array_low b 0 then ret False else
      if array_high a 0 \<noteq> array_high b 0 then ret False else
      if array_len a \<noteq> array_len b then ret False else
      ret True)"

definition equal_array_ref :: "eqfun \<Rightarrow> ArrayRef \<Rightarrow> ArrayRef \<Rightarrow> bool cres option" where
  "equal_array_ref eq a b =
     (if ref_elem_type a \<noteq> ref_elem_type b then ret False else
      if ref_attr_length a \<noteq> ref_attr_length b then ret False else
      if ref_elem_length a \<noteq> ref_elem_length b then ret False else
      if ref_elem_by_val a \<noteq> ref_elem_by_val b then ret False else
      need (eq (ref_upper_ind_expr a) (ref_upper_ind_expr b)) (
      need (eq (ref_lower_ind_expr a) (ref_lower_ind_expr b)) (
      need (eq (ref_expr a) (ref_expr b)) (
      eq (ref_assgn_expr a) (ref_assgn_expr b)))))"

section \<open>Planner nodes\<close>

definition equal_rel_opt_info :: "'h node_store \<Rightarrow> RelOptInfo \<Rightarrow> RelOptInfo \<Rightarrow> bool cres option" where
  "equal_rel_opt_info st a b =
     (equali (n_lists st) (relids a) (relids b))"

definition equal_index_opt_info :: "IndexOptInfo \<Rightarrow> IndexOptInfo \<Rightarrow> bool cres option" where
  "equal_index_opt_info a b =
     (if index_oid a \<noteq> index_oid b then ret False else
      ret True)"

definition equal_path_key_item :: "eqfun \<Rightarrow> PathKeyItem \<Rightarrow> PathKeyItem \<Rightarrow> bool cres option" where
  "equal_path_key_item eq a b =
     (if pk_sort_op a \<noteq> pk_sort_op b then ret False else
      need (eq (pk_key a) (pk_key b)) (
      ret True))"

definition equal_path :: "eqfun \<Rightarrow> 'a Path_scheme \<Rightarrow> 'a Path_scheme \<Rightarrow> bool cres option" where
  "equal_path eq a b =
     (if path_type a \<noteq> path_type b then ret False else
      need (eq (pt_parent a) (pt_parent b)) (
      need (eq (path_keys a) (path_keys b)) (
      ret True)))"

definition equal_index_path :: "eqfun \<Rightarrow> 'h node_store \<Rightarrow> IndexPath \<Rightarrow> IndexPath \<Rightarrow> bool cres option" where
  "equal_index_path eq st a b =
     (need (equal_path eq a b) (
      need (equali (n_lists st) (ip_index_id a) (ip_index_id b)) (
      need (eq (ip_index_qual a) (ip_index_qual b)) (
      if index_scan_dir a \<noteq> index_scan_dir b then ret False else
      need (equali (n_lists st) (ip_join_rel_ids a) (ip_join_rel_ids b)) (
      ret True)))))"

definition equal_tid_path :: "eqfun \<Rightarrow> 'h node_store \<Rightarrow> TidPath \<Rightarrow> TidPath \<Rightarrow> bool cres option" where
  "equal_tid_path eq st a b =
     (need (equal_path eq a b) (
      need (eq (tid_eval a) (tid_eval b)) (
      need (equali (n_lists st) (tid_unjoined_rel_ids a) (tid_unjoined_rel_ids b)) (
      ret True))))"

definition equal_join_path :: "eqfun \<Rightarrow> 'a JoinPath_scheme \<Rightarrow> 'a JoinPath_scheme \<Rightarrow> bool cres option" where
  "equal_join_path eq a b =
     (need (equal_path eq a b) (
      need (eq (outer_join_path a) (outer_join_path b)) (
      need (eq (inner_join_path a) (inner_join_path b)) (
      need (eq (join_restrict_info a) (join_restrict_info b)) (
      ret True)))))"

definition equal_nest_path :: "eqfun \<Rightarrow> NestPath \<Rightarrow> NestPath \<Rightarrow> bool cres option" where
  "equal_nest_path eq a b =
     (need (equal_join_path eq a b) (
      ret True))"

definition equal_merge_path :: "eqfun \<Rightarrow> MergePath \<Rightarrow> MergePath \<Rightarrow> bool cres option" where
  "equal_merge_path eq a b =
     (need (equal_join_path eq a b) (
      need (eq (path_merge_clauses a) (path_merge_clauses b)) (
      need (eq (outer_sort_keys a) (outer_sort_keys b)) (
      need (eq (inner_sort_keys a) (inner_sort_keys b)) (
      ret True)))))"

definition equal_hash_path :: "eqfun \<Rightarrow> HashPath \<Rightarrow> HashPath \<Rightarrow> bool cres option" where
  "equal_hash_path eq a b =
     (need (equal_join_path eq a b) (
      need (eq (path_hash_clauses a) (path_hash_clauses b)) (
      ret True)))"

definition equal_restrict_info :: "eqfun \<Rightarrow> RestrictInfo \<Rightarrow> RestrictInfo \<Rightarrow> bool cres option" where
  "equal_restrict_info eq a b =
     (need (eq (ri_clause a) (ri_clause b)) (
      need (eq (sub_clause_indices a) (sub_clause_indices b)) (
      if merge_join_operator a \<noteq> merge_join_operator b then ret False else
      if left_sort_op a \<noteq> left_sort_op b then ret False else
      if right_sort_op a \<noteq> right_sort_op b then ret False else
      if hash_join_operator a \<noteq> hash_join_operator b then ret False else
      ret True)))"

definition equal_join_info :: "eqfun \<Rightarrow> 'h node_store \<Rightarrow> JoinInfo \<Rightarrow> JoinInfo \<Rightarrow> bool cres option" where
  "equal_join_info eq st a b =
     (need (equali (n_lists st) (ji_unjoined_relids a) (ji_unjoined_relids b)) (
      need (eq (jinfo_restrict_info a) (jinfo_restrict_info b)) (
      ret True)))"

definition equal_iter :: "eqfun \<Rightarrow> Iter \<Rightarrow> Iter \<Rightarrow> bool cres option" where
  "equal_iter eq a b =
     (eq (iter_expr a) (iter_expr b))"

text \<open>\<open>clause_type\<close> is a pointer to an \<open>int\<close>, and the pointers are compared.\<close>

definition equal_stream :: "eqfun \<Rightarrow> Stream \<Rightarrow> Stream \<Rightarrow> bool cres option" where
  "equal_stream eq a b =
     (if clause_type a \<noteq> clause_type b then ret False else
      if group_up a \<noteq> group_up b then ret False else
      if \<not> dbl_eq (group_cost a) (group_cost b) then ret False else
      if \<not> dbl_eq (group_sel a) (group_sel b) then ret False else
      need (eq (path_ptr a) (path_ptr b)) (
      need (eq (cinfo a) (cinfo b)) (
      need (eq (upstream a) (upstream b)) (
      eq (downstream a) (downstream b)))))"

section \<open>Parse tree nodes\<close>

definition equal_query :: "eqfun \<Rightarrow> 'h node_store \<Rightarrow> QueryRead \<Rightarrow> QueryRead \<Rightarrow> bool cres option" where
  "equal_query eq st a b =
     (if q_command_type a \<noteq> q_command_type b then ret False else
      need (eq (q_utility_stmt a) (q_utility_stmt b)) (
      if q_result_relation a \<noteq> q_result_relation b then ret False else
      need (same_string st (q_into a) (q_into b)) (
      if q_is_portal a \<noteq> q_is_portal b then ret False else
      if q_is_binary a \<noteq> q_is_binary b then ret False else
      if q_is_temp a \<noteq> q_is_temp b then ret False else
      if q_union_all a \<noteq> q_union_all b then ret False else
      if q_has_aggs a \<noteq> q_has_aggs b then ret False else
      if q_has_sublinks a \<noteq> q_has_sublinks b then ret False else
      need (eq (q_rtable a) (q_rtable b)) (
      need (eq (q_target_list a) (q_target_list b)) (
      need (eq (q_qual a) (q_qual b)) (
      need (eq (q_row_mark a) (q_row_mark b)) (
      need (eq (q_distinct_clause a) (q_distinct_clause b)) (
      need (eq (q_sort_clause a) (q_sort_clause b)) (
      need (eq (q_group_clause a) (q_group_clause b)) (
      need (eq (q_having_qual a) (q_having_qual b)) (
      need (eq (q_intersect_clause a) (q_intersect_clause b)) (
      need (eq (q_union_clause a) (q_union_clause b)) (
      need (eq (q_limit_offset a) (q_limit_offset b)) (
      need (eq (q_limit_count a) (q_limit_count b)) (
      ret True)))))))))))))))"

definition equal_range_tbl_entry :: "eqfun \<Rightarrow> 'h node_store \<Rightarrow> RangeTblEntryRead \<Rightarrow> RangeTblEntryRead \<Rightarrow> bool cres option" where
  "equal_range_tbl_entry eq st a b =
     (need (same_string st (rte_rel_name a) (rte_rel_name b)) (
      need (eq (rte_ref a) (rte_ref b)) (
      if rte_rel_id a \<noteq> rte_rel_id b then ret False else
      if rte_inh a \<noteq> rte_inh b then ret False else
      if rte_in_from_cl a \<noteq> rte_in_from_cl b then ret False else
      if rte_in_join_set a \<noteq> rte_in_join_set b then ret False else
      if rte_skip_acl a \<noteq> rte_skip_acl b then ret False else
      ret True)))"

definition equal_sort_clause :: "SortClause \<Rightarrow> SortClause \<Rightarrow> bool cres option" where
  "equal_sort_clause a b =
     (if tle_sort_group_ref a \<noteq> tle_sort_group_ref b then ret False else
      if sc_sort_op a \<noteq> sc_sort_op b then ret False else
      ret True)"

definition equal_target_entry :: "eqfun \<Rightarrow> TargetEntry \<Rightarrow> TargetEntry \<Rightarrow> bool cres option" where
  "equal_target_entry eq a b =
     (need (eq (te_res_dom a) (te_res_dom b)) (
      need (eq (te_fjoin a) (te_fjoin b)) (
      need (eq (te_expr a) (te_expr b)) (
      ret True))))"

definition equal_case_expr :: "eqfun \<Rightarrow> CaseExpr \<Rightarrow> CaseExpr \<Rightarrow> bool cres option" where
  "equal_case_expr eq a b =
     (if ce_case_type a \<noteq> ce_case_type b then ret False else
      need (eq (ce_arg a) (ce_arg b)) (
      need (eq (ce_args a) (ce_args b)) (
      need (eq (ce_def_result a) (ce_def_result b)) (
      ret True))))"

definition equal_case_when :: "eqfun \<Rightarrow> CaseWhen \<Rightarrow> CaseWhen \<Rightarrow> bool cres option" where
  "equal_case_when eq a b =
     (need (eq (cw_expr a) (cw_expr b)) (
      need (eq (cw_result a) (cw_result b)) (
      ret True)))"

section \<open>All nodes\<close>

text \<open>
  The tag \<open>T_Array\<close> is declared nowhere in the repository; it is the parameter \<open>tArray\<close>. The routines for plan and state
  nodes are commented out in the source and leave \<open>retval\<close> false, as the branch for unknown tags does after its message.
\<close>

definition equal_step :: "nat \<Rightarrow> eqfun \<Rightarrow> 'h node_store \<Rightarrow> nat \<Rightarrow> nat \<Rightarrow> bool cres option" where
  "equal_step tArray eq st a b =
     (if a = b then ret True
      else if a = 0 \<or> b = 0 then ret False
      else if NODE_TAG st a \<noteq> NODE_TAG st b then ret False
      else let t = NODE_TAG st a in
      if t = T_Resdom then equal_resdom st (h_Resdom st a) (h_Resdom st b)
      else if t = T_Fjoin then equal_fjoin eq st (h_Fjoin st a) (h_Fjoin st b)
      else if t = T_Expr then equal_expr eq (h_Expr st a) (h_Expr st b)
      else if t = T_Iter then equal_iter eq (h_Iter st a) (h_Iter st b)
      else if t = T_Stream then equal_stream eq (h_Stream st a) (h_Stream st b)
      else if t = T_Attr then equal_attr eq st (h_Attr st a) (h_Attr st b)
      else if t = T_Var then equal_var (h_Var st a) (h_Var st b)
      else if t = T_ArrayRef then equal_array_ref eq (h_ArrayRef st a) (h_ArrayRef st b)
      else if t = T_Oper then equal_oper (h_Oper st a) (h_Oper st b)
      else if t = T_Const then equal_const st (h_Const st a) (h_Const st b)
      else if t = T_Param then equal_param eq st (h_Param st a) (h_Param st b)
      else if t = T_Aggref then equal_aggref eq st (h_Aggref st a) (h_Aggref st b)
      else if t = T_SubLink then equal_sublink eq (h_SubLink st a) (h_SubLink st b)
      else if t = T_RelabelType then equal_relabel_type eq (h_RelabelType st a) (h_RelabelType st b)
      else if t = T_Func then equal_func eq (h_Func st a) (h_Func st b)
      else if t = T_RestrictInfo then equal_restrict_info eq (h_RestrictInfo st a) (h_RestrictInfo st b)
      else if t = T_RelOptInfo then equal_rel_opt_info st (h_RelOptInfo st a) (h_RelOptInfo st b)
      else if t = T_IndexOptInfo then equal_index_opt_info (h_IndexOptInfo st a) (h_IndexOptInfo st b)
      else if t = T_PathKeyItem then equal_path_key_item eq (h_PathKeyItem st a) (h_PathKeyItem st b)
      else if t = T_Path then equal_path eq (h_Path st a) (h_Path st b)
      else if t = T_IndexPath then equal_index_path eq st (h_IndexPath st a) (h_IndexPath st b)
      else if t = T_TidPath then equal_tid_path eq st (h_TidPath st a) (h_TidPath st b)
      else if t = T_NestPath then equal_nest_path eq (h_NestPath st a) (h_NestPath st b)
      else if t = T_MergePath then equal_merge_path eq (h_MergePath st a) (h_MergePath st b)
      else if t = T_HashPath then equal_hash_path eq (h_HashPath st a) (h_HashPath st b)
      else if t = T_IndexScan then ret False
      else if t = T_TidScan then ret False
      else if t = T_SubPlan then ret False
      else if t = T_JoinInfo then equal_join_info eq st (h_JoinInfo st a) (h_JoinInfo st b)
      else if t = T_EState then ret False
      else if t \<in> {T_Integer, T_Float, T_String} then equal_value st a b
      else if t = T_List then equal_list eq (n_lists st) a b
      else if t = T_Query then equal_query eq st (h_Query st a) (h_Query st b)
      else if t = T_RangeTblEntry then equal_range_tbl_entry eq st (h_RangeTblEntry st a) (h_RangeTblEntry st b)
      else if t = T_SortClause then equal_sort_clause (h_SortClause st a) (h_SortClause st b)
      else if t = T_GroupClause then equal_sort_clause (h_SortClause st a) (h_SortClause st b)
      else if t = T_TargetEntry then equal_target_entry eq (h_TargetEntry st a) (h_TargetEntry st b)
      else if t = T_CaseExpr then equal_case_expr eq (h_CaseExpr st a) (h_CaseExpr st b)
      else if t = T_CaseWhen then equal_case_when eq (h_CaseWhen st a) (h_CaseWhen st b)
      else if t = tArray then equal_array (h_Array st a) (h_Array st b)
      else ret False)"

fun equal_nodes :: "nat \<Rightarrow> nat \<Rightarrow> 'h node_store \<Rightarrow> nat \<Rightarrow> nat \<Rightarrow> bool cres option" where
  "equal_nodes tArray 0 st a b = None"
| "equal_nodes tArray (Suc depth) st a b = equal_step tArray (equal_nodes tArray depth st) st a b"

end
