(* ===== verification/EqualSpec.thy ===== *)
theory EqualSpec
  imports EqualFuncs
begin

text \<open>
  What \<open>equal\<close> compares. Every node is read as a label list and the list of the nodes it points to (\<open>node_view\<close>); a
  pointer whose nodes below it can all be read has a tree (\<open>shape\<close>). Two pointers are equal for the code exactly
  when they have the same tree; the cases where the code fails or does not end are stated on their own.
\<close>

section \<open>Reading a node\<close>

datatype label = L_flag bool | L_nat nat | L_w16 "16 word" | L_w32 "32 word" | L_w64 "64 word"
  | L_str "8 word list option" | L_bytes "8 word list" | L_ints "32 word list"
  | L_op OpType | L_sub SubLinkType | L_dir ScanDirection | L_cmd CmdType

type_synonym view = "label list \<times> nat list"

definition node_of :: "label option list \<Rightarrow> nat list \<Rightarrow> view option" where
  "node_of ls kids = (case those ls of None \<Rightarrow> None | Some xs \<Rightarrow> Some (xs, kids))"

definition str_of :: "'h node_store \<Rightarrow> nat \<Rightarrow> 8 word list option" where
  "str_of st p = (if p = 0 then None else Some (n_strs st p))"

definition str_label :: "'h node_store \<Rightarrow> nat \<Rightarrow> label option" where
  "str_label st p = (if p = 0 then None else Some (L_str (str_of st p)))"

definition bytes_label :: "'h node_store \<Rightarrow> nat \<Rightarrow> 32 word \<Rightarrow> nat \<Rightarrow> label option" where
  "bytes_label st p n sz = (if p = 0 \<or> sint n < 0 then None else Some (L_bytes (bytes_at (n_raw st) p (unat n * sz))))"

text \<open>The two zeros are one number.\<close>

definition dbl_label :: "64 word \<Rightarrow> label option" where
  "dbl_label x = (if is_nan x then None else Some (L_w64 (if is_zero x then 0 else x)))"

definition datum_label :: "mem \<Rightarrow> 64 word \<Rightarrow> bool \<Rightarrow> 32 word \<Rightarrow> label option" where
  "datum_label m v by_val len =
     (if by_val then Some (L_w64 v)
      else case datum_get_size m v False (scast len) of Inl e \<Rightarrow> None | Inr n \<Rightarrow> Some (L_bytes (bytes_at m (unat v) n)))"

text \<open>The cells of a list that ends.\<close>

partial_function (option) cells :: "(nat \<Rightarrow> nat) \<Rightarrow> nat \<Rightarrow> nat list option" where
  "cells nxt l = (if l = 0 then Some [] else Option.bind (cells nxt (nxt l)) (\<lambda>xs. Some (l # xs)))"

lemmas [code] = cells.simps

definition ints_label :: "'h nodes \<Rightarrow> nat \<Rightarrow> label option" where
  "ints_label st l = (case cells (n_next st) l of None \<Rightarrow> None | Some xs \<Rightarrow> Some (L_ints (ints st xs)))"

definition list_view :: "'h nodes \<Rightarrow> nat \<Rightarrow> view option" where
  "list_view st l =
     (case cells (n_next st) l of None \<Rightarrow> None
      | Some xs \<Rightarrow> if length xs < 2 ^ 32 then Some ([], map (\<lambda>c. unat (LFIRST st c)) xs) else None)"

definition value_view :: "'h node_store \<Rightarrow> nat \<Rightarrow> view option" where
  "value_view st p =
     (if NODE_TAG st p = T_Integer then Some ([L_w64 (n_word (n_lists st) p)], [])
      else node_of [str_label st (unat (n_word (n_lists st) p))] [])"

definition resdom_view :: "'h node_store \<Rightarrow> Resdom \<Rightarrow> view option" where
  "resdom_view st a = node_of [Some (L_w16 (res_no a)), Some (L_w32 (res_type a)), Some (L_w32 (res_type_mod a)),
        Some (L_str (str_of st (res_name a))), Some (L_w32 (res_sort_group_ref a)), Some (L_w32 (res_key a)),
        Some (L_w32 (res_key_op a))]
     []"

definition fjoin_view :: "'h node_store \<Rightarrow> Fjoin \<Rightarrow> view option" where
  "fjoin_view st a = node_of ([Some (L_flag (fj_initialized a)), Some (L_w32 (fj_n_nodes a)), bytes_label st (fj_results a) (fj_n_nodes a) 8] @
     (if fj_always_done a = 0 then [None] else []))
     [fj_inner_node a]"

definition expr_view :: "Expr \<Rightarrow> view option" where
  "expr_view a = node_of [Some (L_op (ex_op_type a))]
     [ex_oper a, ex_args a]"

definition attr_view :: "'h node_store \<Rightarrow> Attr \<Rightarrow> view option" where
  "attr_view st a = node_of [str_label st (at_rel_name a)]
     [at_attrs a]"

definition var_view :: "Var \<Rightarrow> view option" where
  "var_view a = node_of [Some (L_w32 (varno a)), Some (L_w16 (var_attno a)), Some (L_w32 (var_type a)), Some (L_w32 (var_type_mod a)),
        Some (L_w32 (var_levels_up a)), Some (L_w32 (varno_old a)), Some (L_w16 (var_oattno a))]
     []"

definition oper_view :: "Oper \<Rightarrow> view option" where
  "oper_view a = node_of [Some (L_w32 (op_no a)), Some (L_w32 (op_result_type a))]
     []"

definition const_view :: "'h node_store \<Rightarrow> Const \<Rightarrow> view option" where
  "const_view st a = node_of ([Some (L_w32 (const_type a)), Some (L_w32 (const_len a)), Some (L_flag (const_is_null a)),
        Some (L_flag (const_by_val a))] @
     (if const_is_null a then [] else [datum_label (n_raw st) (const_value a) (const_by_val a) (const_len a)]))
     []"

definition param_view :: "'h node_store \<Rightarrow> Param \<Rightarrow> view option" where
  "param_view st a = node_of ([Some (L_w32 (param_kind a)), Some (L_w32 (param_type a))] @
     (if param_kind a \<in> {PARAM_NAMED, PARAM_NEW, PARAM_OLD} then [str_label st (param_name a)]
      else if param_kind a \<in> {PARAM_NUM, PARAM_EXEC} then [Some (L_w16 (param_id a))]
      else if param_kind a = PARAM_INVALID then [] else [None]))
     [param_tlist a]"

definition func_view :: "Func \<Rightarrow> view option" where
  "func_view a = node_of [Some (L_w32 (func_id a)), Some (L_w32 (func_type a)), Some (L_flag (func_is_index a)),
        Some (L_w32 (func_size a))]
     [func_tlist a, func_planlist a]"

definition aggref_view :: "'h node_store \<Rightarrow> Aggref \<Rightarrow> view option" where
  "aggref_view st a = node_of [str_label st (agg_name a), Some (L_w32 (agg_base_type a)), Some (L_w32 (agg_type a)),
        Some (L_flag (agg_use_nulls a)), Some (L_flag (agg_star a)), Some (L_flag (agg_distinct a))]
     [agg_target a]"

definition sublink_view :: "SubLink \<Rightarrow> view option" where
  "sublink_view a = node_of [Some (L_sub (sublink_type a)), Some (L_flag (sl_use_or a))]
     [sl_lefthand a, sl_oper a, sl_subselect a]"

definition relabel_type_view :: "RelabelType \<Rightarrow> view option" where
  "relabel_type_view a = node_of [Some (L_w32 (rl_result_type a)), Some (L_w32 (rl_result_type_mod a))]
     [rl_arg a]"

definition array_view :: "Array \<Rightarrow> view option" where
  "array_view a = node_of [Some (L_w32 (array_elem_type a)), Some (L_w32 (array_ndim a)), Some (L_w32 (array_low a 0)),
        Some (L_w32 (array_high a 0)), Some (L_w32 (array_len a))]
     []"

definition array_ref_view :: "ArrayRef \<Rightarrow> view option" where
  "array_ref_view a = node_of [Some (L_w32 (ref_elem_type a)), Some (L_w32 (ref_attr_length a)), Some (L_w32 (ref_elem_length a)),
        Some (L_flag (ref_elem_by_val a))]
     [ref_upper_ind_expr a, ref_lower_ind_expr a, ref_expr a, ref_assgn_expr a]"

definition rel_opt_info_view :: "'h node_store \<Rightarrow> RelOptInfo \<Rightarrow> view option" where
  "rel_opt_info_view st a = node_of [ints_label (n_lists st) (relids a)]
     []"

definition index_opt_info_view :: "IndexOptInfo \<Rightarrow> view option" where
  "index_opt_info_view a = node_of [Some (L_w32 (index_oid a))]
     []"

definition path_key_item_view :: "PathKeyItem \<Rightarrow> view option" where
  "path_key_item_view a = node_of [Some (L_w32 (pk_sort_op a))]
     [pk_key a]"

definition path_view :: "Path \<Rightarrow> view option" where
  "path_view a = node_of [Some (L_nat (path_type a))]
     [pt_parent a, path_keys a]"

definition index_path_view :: "'h node_store \<Rightarrow> IndexPath \<Rightarrow> view option" where
  "index_path_view st a = node_of [Some (L_nat (path_type a)), ints_label (n_lists st) (ip_index_id a), Some (L_dir (index_scan_dir a)),
        ints_label (n_lists st) (ip_join_rel_ids a)]
     [pt_parent a, path_keys a, ip_index_qual a]"

definition tid_path_view :: "'h node_store \<Rightarrow> TidPath \<Rightarrow> view option" where
  "tid_path_view st a = node_of [Some (L_nat (path_type a)), ints_label (n_lists st) (tid_unjoined_rel_ids a)]
     [pt_parent a, path_keys a, tid_eval a]"

definition nest_path_view :: "NestPath \<Rightarrow> view option" where
  "nest_path_view a = node_of [Some (L_nat (path_type a))]
     [pt_parent a, path_keys a, outer_join_path a, inner_join_path a, join_restrict_info a]"

definition merge_path_view :: "MergePath \<Rightarrow> view option" where
  "merge_path_view a = node_of [Some (L_nat (path_type a))]
     [pt_parent a, path_keys a, outer_join_path a, inner_join_path a, join_restrict_info a, path_merge_clauses a,
        outer_sort_keys a, inner_sort_keys a]"

definition hash_path_view :: "HashPath \<Rightarrow> view option" where
  "hash_path_view a = node_of [Some (L_nat (path_type a))]
     [pt_parent a, path_keys a, outer_join_path a, inner_join_path a, join_restrict_info a, path_hash_clauses a]"

definition restrict_info_view :: "RestrictInfo \<Rightarrow> view option" where
  "restrict_info_view a = node_of [Some (L_w32 (merge_join_operator a)), Some (L_w32 (left_sort_op a)), Some (L_w32 (right_sort_op a)),
        Some (L_w32 (hash_join_operator a))]
     [ri_clause a, sub_clause_indices a]"

definition join_info_view :: "'h node_store \<Rightarrow> JoinInfo \<Rightarrow> view option" where
  "join_info_view st a = node_of [ints_label (n_lists st) (ji_unjoined_relids a)]
     [jinfo_restrict_info a]"

definition iter_view :: "Iter \<Rightarrow> view option" where
  "iter_view a = node_of []
     [iter_expr a]"

definition stream_view :: "Stream \<Rightarrow> view option" where
  "stream_view a = node_of [Some (L_nat (clause_type a)), Some (L_flag (group_up a)), dbl_label (group_cost a), dbl_label (group_sel a)]
     [path_ptr a, cinfo a, upstream a, downstream a]"

definition query_view :: "'h node_store \<Rightarrow> QueryRead \<Rightarrow> view option" where
  "query_view st a = node_of [Some (L_cmd (q_command_type a)), Some (L_w32 (q_result_relation a)), Some (L_str (str_of st (q_into a))),
        Some (L_flag (q_is_portal a)), Some (L_flag (q_is_binary a)), Some (L_flag (q_is_temp a)),
        Some (L_flag (q_union_all a)), Some (L_flag (q_has_aggs a)), Some (L_flag (q_has_sublinks a))]
     [q_utility_stmt a, q_rtable a, q_target_list a, q_qual a, q_row_mark a, q_distinct_clause a, q_sort_clause a,
        q_group_clause a, q_having_qual a, q_intersect_clause a, q_union_clause a, q_limit_offset a, q_limit_count a]"

definition range_tbl_entry_view :: "'h node_store \<Rightarrow> RangeTblEntryRead \<Rightarrow> view option" where
  "range_tbl_entry_view st a = node_of [Some (L_str (str_of st (rte_rel_name a))), Some (L_w32 (rte_rel_id a)), Some (L_flag (rte_inh a)),
        Some (L_flag (rte_in_from_cl a)), Some (L_flag (rte_in_join_set a)), Some (L_flag (rte_skip_acl a))]
     [rte_ref a]"

definition sort_clause_view :: "SortClause \<Rightarrow> view option" where
  "sort_clause_view a = node_of [Some (L_w32 (tle_sort_group_ref a)), Some (L_w32 (sc_sort_op a))]
     []"

definition target_entry_view :: "TargetEntry \<Rightarrow> view option" where
  "target_entry_view a = node_of []
     [te_res_dom a, te_fjoin a, te_expr a]"

definition case_expr_view :: "CaseExpr \<Rightarrow> view option" where
  "case_expr_view a = node_of [Some (L_w32 (ce_case_type a))]
     [ce_arg a, ce_args a, ce_def_result a]"

definition case_when_view :: "CaseWhen \<Rightarrow> view option" where
  "case_when_view a = node_of []
     [cw_expr a, cw_result a]"

definition node_view :: "nat \<Rightarrow> 'h node_store \<Rightarrow> nat \<Rightarrow> view option" where
  "node_view tArray st p =
     (let t = NODE_TAG st p in
      if t = T_Resdom then resdom_view st (h_Resdom st p)
      else if t = T_Fjoin then fjoin_view st (h_Fjoin st p)
      else if t = T_Expr then expr_view (h_Expr st p)
      else if t = T_Iter then iter_view (h_Iter st p)
      else if t = T_Stream then stream_view (h_Stream st p)
      else if t = T_Attr then attr_view st (h_Attr st p)
      else if t = T_Var then var_view (h_Var st p)
      else if t = T_ArrayRef then array_ref_view (h_ArrayRef st p)
      else if t = T_Oper then oper_view (h_Oper st p)
      else if t = T_Const then const_view st (h_Const st p)
      else if t = T_Param then param_view st (h_Param st p)
      else if t = T_Aggref then aggref_view st (h_Aggref st p)
      else if t = T_SubLink then sublink_view (h_SubLink st p)
      else if t = T_RelabelType then relabel_type_view (h_RelabelType st p)
      else if t = T_Func then func_view (h_Func st p)
      else if t = T_RestrictInfo then restrict_info_view (h_RestrictInfo st p)
      else if t = T_RelOptInfo then rel_opt_info_view st (h_RelOptInfo st p)
      else if t = T_IndexOptInfo then index_opt_info_view (h_IndexOptInfo st p)
      else if t = T_PathKeyItem then path_key_item_view (h_PathKeyItem st p)
      else if t = T_Path then path_view (h_Path st p)
      else if t = T_IndexPath then index_path_view st (h_IndexPath st p)
      else if t = T_TidPath then tid_path_view st (h_TidPath st p)
      else if t = T_NestPath then nest_path_view (h_NestPath st p)
      else if t = T_MergePath then merge_path_view (h_MergePath st p)
      else if t = T_HashPath then hash_path_view (h_HashPath st p)
      else if t = T_IndexScan then None
      else if t = T_TidScan then None
      else if t = T_SubPlan then None
      else if t = T_JoinInfo then join_info_view st (h_JoinInfo st p)
      else if t = T_EState then None
      else if t \<in> {T_Integer, T_Float, T_String} then value_view st p
      else if t = T_List then list_view (n_lists st) p
      else if t = T_Query then query_view st (h_Query st p)
      else if t = T_RangeTblEntry then range_tbl_entry_view st (h_RangeTblEntry st p)
      else if t = T_SortClause then sort_clause_view (h_SortClause st p)
      else if t = T_GroupClause then sort_clause_view (h_SortClause st p)
      else if t = T_TargetEntry then target_entry_view (h_TargetEntry st p)
      else if t = T_CaseExpr then case_expr_view (h_CaseExpr st p)
      else if t = T_CaseWhen then case_when_view (h_CaseWhen st p)
      else if t = tArray then array_view (h_Array st p)
      else None)"

datatype ntree = N_null | N_node nat "label list" "ntree list"

inductive shape :: "nat \<Rightarrow> 'h node_store \<Rightarrow> nat \<Rightarrow> ntree \<Rightarrow> bool" for tArray st where
  shape_null: "shape tArray st 0 N_null"
| shape_node: "p \<noteq> 0 \<Longrightarrow> node_view tArray st p = Some (ls, ks) \<Longrightarrow> list_all2 (shape tArray st) ks ts \<Longrightarrow>
    shape tArray st p (N_node (NODE_TAG st p) ls ts)"

inductive_cases shape_elims: "shape tArray st p t"

fun height :: "ntree \<Rightarrow> nat" where
  "height N_null = 1"
| "height (N_node _ _ ts) = Suc (foldr max (map height ts) 0)"

section \<open>One step of the comparison\<close>

text \<open>A routine with result \<open>r\<close> compares two nodes correctly, if \<open>eq\<close> compares the nodes below correctly.\<close>

definition agree :: "(nat \<Rightarrow> ntree) \<Rightarrow> eqfun \<Rightarrow> view option \<Rightarrow> view option \<Rightarrow> bool cres option \<Rightarrow> bool" where
  "agree V eq x y r \<longleftrightarrow> (\<forall>ls ks ls' ks'. x = Some (ls, ks) \<longrightarrow> y = Some (ls', ks') \<longrightarrow>
     (\<forall>c \<in> set ks. \<forall>d \<in> set ks'. eq c d = ret (V c = V d)) \<longrightarrow> r = ret (ls = ls' \<and> map V ks = map V ks'))"

lemma agreeI: "(\<And>ls ks ls' ks'. x = Some (ls, ks) \<Longrightarrow> y = Some (ls', ks') \<Longrightarrow>
    (\<And>c d. c \<in> set ks \<Longrightarrow> d \<in> set ks' \<Longrightarrow> eq c d = ret (V c = V d)) \<Longrightarrow> r = ret (ls = ls' \<and> map V ks = map V ks')) \<Longrightarrow> agree V eq x y r"
  unfolding agree_def by blast

lemma agree_None [simp, intro]: "agree V eq None y r"
  by (simp add: agree_def)

lemma agree_if: "(c \<Longrightarrow> agree V eq x y r) \<Longrightarrow> (\<not> c \<Longrightarrow> agree V eq x' y' r') \<Longrightarrow>
    agree V eq (if c then x else x') (if c then y else y') (if c then r else r')"
  by simp

named_theorems test_simps \<open>a chain of tests is the conjunction of the tests\<close>

lemma need_ret [test_simps]: "need (ret p) (ret q) = ret (p \<and> q)"
  by (cases p) simp_all

lemma need_cong: "p = p' \<Longrightarrow> (p' \<Longrightarrow> k = k') \<Longrightarrow> need (ret p) k = need (ret p') k'"
  by (cases p') simp_all

lemma if_test [test_simps]: "(if p then ret q else ret False) = ret (p \<and> q)" "(if \<not> p then ret False else ret q) = ret (p \<and> q)"
  by simp_all

lemma if_need [test_simps]: "(if \<not> p then ret False else k) = need (ret p) k"
  by simp

lemma same_string_eq [test_simps]: "same_string st p q = ret (str_of st p = str_of st q)"
  by (auto simp: same_string_def str_of_def c_strcmp_def)

lemma those_simps [simp]: "those [] = Some []" "those (None # xs) = None"
  "those (Some x # xs) = (case those xs of None \<Rightarrow> None | Some ys \<Rightarrow> Some (x # ys))"
  by (simp_all split: option.split)

lemma path_cells: "path nxt l xs \<Longrightarrow> cells nxt l = Some xs"
proof (induction xs arbitrary: l)
  case (Cons x xs)
  then show ?case by (subst cells.simps) auto
qed (subst cells.simps, simp)

lemma cells_path: "cells nxt l = Some xs \<Longrightarrow> path nxt l xs"
  by (rule cells.raw_induct [where P = path]) (auto split: if_splits simp: bind_eq_Some_conv)

lemma cells_iff: "cells nxt l = Some xs \<longleftrightarrow> path nxt l xs"
  using path_cells cells_path by metis

lemma equali_ok: "path (n_next st) l xs \<Longrightarrow> path (n_next st) b ys \<Longrightarrow> equali st l b = ret (ints st xs = ints st ys)"
proof (induction xs arbitrary: l b ys)
  case Nil
  then show ?case by (cases ys) (subst equali.simps, simp)+
next
  case (Cons x xs)
  then show ?case by (cases ys) (subst equali.simps, simp)+
qed

lemma equali_label: "ints_label st l = Some x \<Longrightarrow> ints_label st b = Some y \<Longrightarrow> equali st l b = ret (x = y)"
  by (auto simp: ints_label_def cells_iff equali_ok split: option.splits)

lemma strcmp_label: "str_label st p = Some x \<Longrightarrow> str_label st q = Some y \<Longrightarrow> c_strcmp st p q = Inr (x = y)"
  by (auto simp: str_label_def str_of_def c_strcmp_def split: if_splits)

lemma memcmp_label: "bytes_label st p n sz = Some x \<Longrightarrow> bytes_label st q n sz = Some y \<Longrightarrow> c_memcmp st p q n sz = ret (x = y)"
  by (auto simp: bytes_label_def c_memcmp_def split: if_splits)

lemma memcmp_self: "bytes_label st p n sz = Some x \<Longrightarrow> 0 < q \<Longrightarrow> c_memcmp st q q n k = ret True"
  by (auto simp: bytes_label_def c_memcmp_def split: if_splits)

lemma dbl_label_eq: "dbl_label x = Some u \<Longrightarrow> dbl_label y = Some v \<Longrightarrow> dbl_eq x y \<longleftrightarrow> u = v"
  by (auto simp: dbl_label_def dbl_eq_def is_zero_def split: if_splits)

lemma length_bytes_eq: "bytes_at m p n = bytes_at m q k \<Longrightarrow> n = k"
  by (metis length_bytes_at)

lemma datum_label_eq: "datum_label m v by_val len = Some x \<Longrightarrow> datum_label m w by_val len = Some y \<Longrightarrow>
    datum_is_equal m v w by_val (scast len) = Inr (x = y)"
  by (auto simp: datum_label_def datum_is_equal_def split: if_splits sum.splits dest: length_bytes_eq)

lemmas label_simps = equali_label strcmp_label memcmp_label dbl_label_eq datum_label_eq

lemma resdom_ok: "agree V eq (resdom_view st a) (resdom_view st b) (equal_resdom st a b)"
  unfolding equal_resdom_def resdom_view_def node_of_def by (rule agreeI) (clarsimp simp: test_simps conj_ac)

lemma fjoin_ok: "agree V eq (fjoin_view st a) (fjoin_view st b) (equal_fjoin eq st a b)"
  unfolding equal_fjoin_def fjoin_view_def node_of_def
  by (rule agreeI) (clarsimp split: option.splits if_splits, simp add: test_simps label_simps memcmp_self conj_ac cong: need_cong)

lemma expr_ok: "agree V eq (expr_view a) (expr_view b) (equal_expr eq a b)"
  unfolding equal_expr_def expr_view_def node_of_def by (rule agreeI) (clarsimp simp: test_simps conj_ac)

lemma attr_ok: "agree V eq (attr_view st a) (attr_view st b) (equal_attr eq st a b)"
  unfolding equal_attr_def attr_view_def node_of_def
  by (rule agreeI) (clarsimp split: option.splits, simp add: test_simps label_simps conj_ac)

lemma var_ok: "agree V eq (var_view a) (var_view b) (equal_var a b)"
  unfolding equal_var_def var_view_def node_of_def by (rule agreeI) (clarsimp simp: test_simps conj_ac)

lemma oper_ok: "agree V eq (oper_view a) (oper_view b) (equal_oper a b)"
  unfolding equal_oper_def oper_view_def node_of_def by (rule agreeI) (clarsimp simp: test_simps conj_ac)

lemma const_ok: "agree V eq (const_view st a) (const_view st b) (equal_const st a b)"
  unfolding equal_const_def const_view_def node_of_def
  by (rule agreeI) (clarsimp split: option.splits if_splits; simp add: test_simps label_simps conj_ac cong: need_cong)

lemma param_ok: "agree V eq (param_view st a) (param_view st b) (equal_param eq st a b)"
proof (cases "param_kind a = param_kind b")
  case False
  then show ?thesis unfolding equal_param_def param_view_def node_of_def
    by (intro agreeI) (auto simp del: insert_iff split: option.splits)
next
  case True
  then show ?thesis unfolding equal_param_def param_view_def node_of_def
    by (intro agreeI; cases "param_kind b \<in> {PARAM_NAMED, PARAM_NEW, PARAM_OLD}"; cases "param_kind b \<in> {PARAM_NUM, PARAM_EXEC}"; cases "param_kind b = PARAM_INVALID")
      (clarsimp simp add: test_simps label_simps conj_ac singleton_iff simp del: insert_iff split: option.splits)+
qed

lemma func_ok: "agree V eq (func_view a) (func_view b) (equal_func eq a b)"
  unfolding equal_func_def func_view_def node_of_def by (rule agreeI) (clarsimp simp: test_simps conj_ac)

lemma aggref_ok: "agree V eq (aggref_view st a) (aggref_view st b) (equal_aggref eq st a b)"
  unfolding equal_aggref_def aggref_view_def node_of_def
  by (rule agreeI) (clarsimp split: option.splits, simp add: test_simps label_simps conj_ac)

lemma sublink_ok: "agree V eq (sublink_view a) (sublink_view b) (equal_sublink eq a b)"
  unfolding equal_sublink_def sublink_view_def node_of_def by (rule agreeI) (clarsimp simp: test_simps conj_ac)

lemma relabel_type_ok: "agree V eq (relabel_type_view a) (relabel_type_view b) (equal_relabel_type eq a b)"
  unfolding equal_relabel_type_def relabel_type_view_def node_of_def by (rule agreeI) (clarsimp simp: test_simps conj_ac)

lemma array_ok: "agree V eq (array_view a) (array_view b) (equal_array a b)"
  unfolding equal_array_def array_view_def node_of_def by (rule agreeI) (clarsimp simp: test_simps conj_ac)

lemma array_ref_ok: "agree V eq (array_ref_view a) (array_ref_view b) (equal_array_ref eq a b)"
  unfolding equal_array_ref_def array_ref_view_def node_of_def by (rule agreeI) (clarsimp simp: test_simps conj_ac)

lemma rel_opt_info_ok: "agree V eq (rel_opt_info_view st a) (rel_opt_info_view st b) (equal_rel_opt_info st a b)"
  unfolding equal_rel_opt_info_def rel_opt_info_view_def node_of_def
  by (rule agreeI) (clarsimp split: option.splits, simp add: test_simps label_simps conj_ac)

lemma index_opt_info_ok: "agree V eq (index_opt_info_view a) (index_opt_info_view b) (equal_index_opt_info a b)"
  unfolding equal_index_opt_info_def index_opt_info_view_def node_of_def by (rule agreeI) (clarsimp simp: test_simps conj_ac)

lemma path_key_item_ok: "agree V eq (path_key_item_view a) (path_key_item_view b) (equal_path_key_item eq a b)"
  unfolding equal_path_key_item_def path_key_item_view_def node_of_def by (rule agreeI) (clarsimp simp: test_simps conj_ac)

lemma path_ok: "agree V eq (path_view a) (path_view b) (equal_path eq a b)"
  unfolding equal_path_def path_view_def node_of_def by (rule agreeI) (clarsimp simp: test_simps conj_ac)

lemma index_path_ok: "agree V eq (index_path_view st a) (index_path_view st b) (equal_index_path eq st a b)"
  unfolding equal_index_path_def index_path_view_def equal_path_def node_of_def
  by (rule agreeI) (clarsimp split: option.splits, simp add: test_simps label_simps conj_ac)

lemma tid_path_ok: "agree V eq (tid_path_view st a) (tid_path_view st b) (equal_tid_path eq st a b)"
  unfolding equal_tid_path_def tid_path_view_def equal_path_def node_of_def
  by (rule agreeI) (clarsimp split: option.splits, simp add: test_simps label_simps conj_ac)

lemma nest_path_ok: "agree V eq (nest_path_view a) (nest_path_view b) (equal_nest_path eq a b)"
  unfolding equal_nest_path_def nest_path_view_def equal_join_path_def equal_path_def node_of_def by (rule agreeI) (clarsimp simp: test_simps conj_ac)

lemma merge_path_ok: "agree V eq (merge_path_view a) (merge_path_view b) (equal_merge_path eq a b)"
  unfolding equal_merge_path_def merge_path_view_def equal_join_path_def equal_path_def node_of_def by (rule agreeI) (clarsimp simp: test_simps conj_ac)

lemma hash_path_ok: "agree V eq (hash_path_view a) (hash_path_view b) (equal_hash_path eq a b)"
  unfolding equal_hash_path_def hash_path_view_def equal_join_path_def equal_path_def node_of_def by (rule agreeI) (clarsimp simp: test_simps conj_ac)

lemma restrict_info_ok: "agree V eq (restrict_info_view a) (restrict_info_view b) (equal_restrict_info eq a b)"
  unfolding equal_restrict_info_def restrict_info_view_def node_of_def by (rule agreeI) (clarsimp simp: test_simps conj_ac)

lemma join_info_ok: "agree V eq (join_info_view st a) (join_info_view st b) (equal_join_info eq st a b)"
  unfolding equal_join_info_def join_info_view_def node_of_def
  by (rule agreeI) (clarsimp split: option.splits, simp add: test_simps label_simps conj_ac)

lemma iter_ok: "agree V eq (iter_view a) (iter_view b) (equal_iter eq a b)"
  unfolding equal_iter_def iter_view_def node_of_def by (rule agreeI) (clarsimp simp: test_simps conj_ac)

lemma stream_ok: "agree V eq (stream_view a) (stream_view b) (equal_stream eq a b)"
  unfolding equal_stream_def stream_view_def node_of_def
  by (rule agreeI) (clarsimp split: option.splits, simp add: test_simps label_simps conj_ac)

lemma query_ok: "agree V eq (query_view st a) (query_view st b) (equal_query eq st a b)"
  unfolding equal_query_def query_view_def node_of_def by (rule agreeI) (clarsimp simp: test_simps conj_ac)

lemma range_tbl_entry_ok: "agree V eq (range_tbl_entry_view st a) (range_tbl_entry_view st b) (equal_range_tbl_entry eq st a b)"
  unfolding equal_range_tbl_entry_def range_tbl_entry_view_def node_of_def by (rule agreeI) (clarsimp simp: test_simps conj_ac)

lemma sort_clause_ok: "agree V eq (sort_clause_view a) (sort_clause_view b) (equal_sort_clause a b)"
  unfolding equal_sort_clause_def sort_clause_view_def node_of_def by (rule agreeI) (clarsimp simp: test_simps conj_ac)

lemma target_entry_ok: "agree V eq (target_entry_view a) (target_entry_view b) (equal_target_entry eq a b)"
  unfolding equal_target_entry_def target_entry_view_def node_of_def by (rule agreeI) (clarsimp simp: test_simps conj_ac)

lemma case_expr_ok: "agree V eq (case_expr_view a) (case_expr_view b) (equal_case_expr eq a b)"
  unfolding equal_case_expr_def case_expr_view_def node_of_def by (rule agreeI) (clarsimp simp: test_simps conj_ac)

lemma case_when_ok: "agree V eq (case_when_view a) (case_when_view b) (equal_case_when eq a b)"
  unfolding equal_case_when_def case_when_view_def node_of_def by (rule agreeI) (clarsimp simp: test_simps conj_ac)

lemma equal_elems_ok:
  "path (n_next st) a xs \<Longrightarrow> path (n_next st) b ys \<Longrightarrow> length xs = length ys \<Longrightarrow>
   \<forall>c \<in> set xs. \<forall>d \<in> set ys. eq (unat (LFIRST st c)) (unat (LFIRST st d)) = ret (V (unat (LFIRST st c)) = V (unat (LFIRST st d))) \<Longrightarrow>
   equal_elems eq st a b = ret (map (\<lambda>c. V (unat (LFIRST st c))) xs = map (\<lambda>c. V (unat (LFIRST st c))) ys)"
proof (induction xs arbitrary: a b ys)
  case Nil
  then show ?case by (subst equal_elems.simps) simp
next
  case (Cons x xs)
  then obtain y ys' where ys: "ys = y # ys'" by (cases ys) auto
  have "equal_elems eq st (n_next st x) (n_next st y) =
      ret (map (\<lambda>c. V (unat (LFIRST st c))) xs = map (\<lambda>c. V (unat (LFIRST st c))) ys')"
    using Cons.prems ys by (intro Cons.IH) auto
  then show ?case using Cons.prems ys by (subst equal_elems.simps) simp
qed

lemma list_ok: "agree V eq (list_view st a) (list_view st b) (equal_list eq st a b)"
proof (rule agreeI)
  fix ls ks ls' ks'
  assume "list_view st a = Some (ls, ks)" "list_view st b = Some (ls', ks')"
    and eq: "\<And>c d. c \<in> set ks \<Longrightarrow> d \<in> set ks' \<Longrightarrow> eq c d = ret (V c = V d)"
  then obtain xs ys where x: "path (n_next st) a xs" "length xs < 2 ^ 32" "ls = []" "ks = map (\<lambda>c. unat (LFIRST st c)) xs"
    and y: "path (n_next st) b ys" "length ys < 2 ^ 32" "ls' = []" "ks' = map (\<lambda>c. unat (LFIRST st c)) ys"
    by (auto simp: list_view_def cells_iff split: option.splits if_splits)
  have len: "list_length st a = Some (of_nat (length xs))" "list_length st b = Some (of_nat (length ys))"
    using x(1) y(1) by (simp_all add: list_length_def length_loop_ok)
  have inj: "(of_nat (length xs) = (of_nat (length ys) :: 32 word)) = (length xs = length ys)"
    using x(2) y(2) by (simp add: word_unat_eq_iff unat_of_nat)
  show "equal_list eq st a b = ret (ls = ls' \<and> map V ks = map V ks')"
  proof (cases "length xs = length ys")
    case True
    have "equal_elems eq st a b = ret (map (\<lambda>c. V (unat (LFIRST st c))) xs = map (\<lambda>c. V (unat (LFIRST st c))) ys)"
      using eq x(4) y(4) by (intro equal_elems_ok [OF x(1) y(1) True]) simp
    then show ?thesis using len True x(3,4) y(3,4) by (simp add: equal_list_def comp_def)
  next
    case False
    then have "map V ks \<noteq> map V ks'" using x(4) y(4) by (metis length_map)
    then show ?thesis using len False inj by (simp add: equal_list_def)
  qed
qed

lemma value_ok: "NODE_TAG st b = NODE_TAG st a \<Longrightarrow> NODE_TAG st a \<in> {T_Integer, T_Float, T_String} \<Longrightarrow>
    agree V eq (value_view st a) (value_view st b) (equal_value st a b)"
  by (rule agreeI) (auto simp: value_view_def equal_value_def node_of_def strcmp_label split: option.splits if_splits)

lemmas routine_ok = resdom_ok fjoin_ok expr_ok attr_ok var_ok oper_ok const_ok param_ok func_ok aggref_ok sublink_ok relabel_type_ok
  array_ok array_ref_ok rel_opt_info_ok index_opt_info_ok path_key_item_ok path_ok index_path_ok tid_path_ok nest_path_ok
  merge_path_ok hash_path_ok restrict_info_ok join_info_ok iter_ok stream_ok query_ok range_tbl_entry_ok sort_clause_ok
  target_entry_ok case_expr_ok case_when_ok list_ok agree_None

lemma equal_step_ok:
  assumes "a \<noteq> b" "a \<noteq> 0" "b \<noteq> 0" "NODE_TAG st b = NODE_TAG st a"
  shows "agree V eq (node_view tArray st a) (node_view tArray st b) (equal_step tArray eq st a b)"
  using assms unfolding equal_step_def node_view_def Let_def
  by (simp only: if_False simp_thms) (intro agree_if routine_ok value_ok; assumption)

section \<open>Trees\<close>

lemma shape_null_iff [simp]: "shape tArray st 0 t \<longleftrightarrow> t = N_null"
  by (auto intro: shape_null elim: shape_elims)

lemma shape_deterministic: "shape tArray st p t \<Longrightarrow> shape tArray st p u \<Longrightarrow> t = u"
proof (induction arbitrary: u rule: shape.induct)
  case (shape_node p ls ks ts)
  from shape_node.prems shape_node.hyps(1,2) obtain us where u: "u = N_node (NODE_TAG st p) ls us" "list_all2 (shape tArray st) ks us"
    by (auto elim: shape_elims)
  have "ts = us"
  proof (rule nth_equalityI)
    show l: "length ts = length us" using list_all2_lengthD [OF shape_node.IH] list_all2_lengthD [OF u(2)] by simp
    show "ts ! i = us ! i" if "i < length ts" for i
      using shape_node.IH u(2) that l by (auto simp: list_all2_conv_all_nth)
  qed
  then show ?case using u(1) by simp
qed simp

lemma height_child: "t \<in> set ts \<Longrightarrow> height t \<le> foldr max (map height ts) 0"
  by (induction ts) (auto simp: le_max_iff_disj)

definition tree_of :: "nat \<Rightarrow> 'h node_store \<Rightarrow> nat \<Rightarrow> ntree" where
  "tree_of tArray st p = (THE t. shape tArray st p t)"

lemma tree_of_shape: "shape tArray st p t \<Longrightarrow> tree_of tArray st p = t"
  unfolding tree_of_def using shape_deterministic by blast

lemma map_tree_of: "list_all2 (shape tArray st) ks ts \<Longrightarrow> map (tree_of tArray st) ks = ts"
  by (induction rule: list_all2_induct) (simp_all add: tree_of_shape)

lemma equal_nodes_ok:
  "shape tArray st a t \<Longrightarrow> shape tArray st b u \<Longrightarrow> height t \<le> n \<Longrightarrow> equal_nodes tArray n st a b = ret (t = u)"
proof (induction arbitrary: b u n rule: shape.induct)
  case shape_null
  then obtain m where "n = Suc m" by (cases n) auto
  moreover have "b = 0 \<longleftrightarrow> u = N_null" using shape_null.prems(1) by (auto elim: shape_elims)
  ultimately show ?case by (auto simp: equal_step_def)
next
  case (shape_node p ls ks ts)
  obtain m where n: "n = Suc m" "foldr max (map height ts) 0 \<le> m" using shape_node.prems(2) by (cases n) auto
  have ks: "list_all2 (shape tArray st) ks ts" using shape_node.IH by (rule list_all2_mono) simp
  then have self: "shape tArray st p (N_node (NODE_TAG st p) ls ts)" using shape_node.hyps by (intro shape.shape_node)
  show ?case
  proof (cases "p = b \<or> b = 0 \<or> NODE_TAG st p \<noteq> NODE_TAG st b")
    case True
    then have "(N_node (NODE_TAG st p) ls ts = u) = (p = b)"
      using self shape_node.prems(1) shape_deterministic by (auto elim: shape_elims)
    then show ?thesis using True n shape_node.hyps(1) by (auto simp: equal_step_def)
  next
    case False
    then obtain ls' ks' us where b: "node_view tArray st b = Some (ls', ks')" "list_all2 (shape tArray st) ks' us"
      "u = N_node (NODE_TAG st p) ls' us"
      using shape_node.prems(1) by (auto elim: shape_elims)
    have "\<forall>c \<in> set ks. \<forall>d \<in> set ks'. equal_nodes tArray m st c d = ret (tree_of tArray st c = tree_of tArray st d)"
    proof (intro ballI)
      fix c d
      assume "c \<in> set ks" "d \<in> set ks'"
      then obtain i j where i: "i < length ks" "c = ks ! i" "j < length ks'" "d = ks' ! j" by (auto simp: in_set_conv_nth)
      then have s: "shape tArray st c (ts ! i)" "shape tArray st d (us ! j)" "i < length ts"
        using ks b(2) by (auto simp: list_all2_conv_all_nth)
      then have "height (ts ! i) \<le> m" using height_child [of "ts ! i" ts] n(2) nth_mem by fastforce
      then have "equal_nodes tArray m st c d = ret (ts ! i = us ! j)"
        using shape_node.IH i s by (auto simp: list_all2_conv_all_nth)
      then show "equal_nodes tArray m st c d = ret (tree_of tArray st c = tree_of tArray st d)"
        using s by (simp add: tree_of_shape)
    qed
    moreover have "agree (tree_of tArray st) (equal_nodes tArray m st) (Some (ls, ks)) (Some (ls', ks')) (equal_step tArray (equal_nodes tArray m st) st p b)"
      using equal_step_ok [of p b st "tree_of tArray st" "equal_nodes tArray m st" tArray] False shape_node.hyps b(1) by auto
    ultimately show ?thesis
      using n(1) b(2,3) ks by (simp add: agree_def map_tree_of)
  qed
qed

section \<open>Lists and the comparison\<close>

definition node_same :: "nat \<Rightarrow> nat \<Rightarrow> 'h node_store \<Rightarrow> 64 word \<Rightarrow> 64 word \<Rightarrow> bool" where
  "node_same tArray n st x y \<longleftrightarrow> equal_nodes tArray n st (unat x) (unat y) = ret True"

definition node_comparable :: "nat \<Rightarrow> nat \<Rightarrow> 'h node_store \<Rightarrow> 64 word \<Rightarrow> bool" where
  "node_comparable tArray n st x \<longleftrightarrow> (\<exists>t. shape tArray st (unat x) t \<and> height t \<le> n)"

text \<open>\<open>equal\<close> is a comparison of elements as \<open>lisp_remove\<close> needs it: the value of an element is its tree.\<close>

interpretation eqn: element_comparison "node_same tArray n st" "\<lambda>x. tree_of tArray st (unat x)" "node_comparable tArray n st" for tArray n st
  by unfold_locales (auto simp: node_same_def node_comparable_def tree_of_shape equal_nodes_ok)

lemma equal_nodes_self: "equal_nodes tArray (Suc n) st p p = ret True"
  by (simp add: equal_step_def)

lemma equal_list_same_elements:
  assumes "path (n_next st) a xs" "path (n_next st) b ys" "map (n_word st) xs = map (n_word st) ys" "\<And>p. eq p p = ret True"
  shows "equal_list eq st a b = ret True"
proof -
  have len: "length xs = length ys" using assms(3) by (rule map_eq_imp_length_eq)
  have "equal_elems eq st a b = ret True" using assms(1-3)
  proof (induction xs arbitrary: a b ys)
    case Nil
    then show ?case by (subst equal_elems.simps) simp
  next
    case (Cons x xs)
    then obtain y ys' where ys: "ys = y # ys'" by (cases ys) auto
    have "equal_elems eq st (n_next st x) (n_next st y) = ret True" using Cons.prems ys by (intro Cons.IH) auto
    then show ?case using Cons.prems ys assms(4) by (subst equal_elems.simps) (simp add: LFIRST_def)
  qed
  then show ?thesis
    using len by (simp add: equal_list_def list_length_def length_loop_ok [OF assms(1)] length_loop_ok [OF assms(2)])
qed

lemma equal_step_List: "a \<noteq> b \<Longrightarrow> a \<noteq> 0 \<Longrightarrow> b \<noteq> 0 \<Longrightarrow> NODE_TAG st a = T_List \<Longrightarrow> NODE_TAG st b = T_List \<Longrightarrow>
    equal_step tArray eq st a b = equal_list eq (n_lists st) a b"
  by (simp add: equal_step_def node_tags)

lemma equal_step_Stream: "a \<noteq> b \<Longrightarrow> a \<noteq> 0 \<Longrightarrow> b \<noteq> 0 \<Longrightarrow> NODE_TAG st a = T_Stream \<Longrightarrow> NODE_TAG st b = T_Stream \<Longrightarrow>
    equal_step tArray eq st a b = equal_stream eq (h_Stream st a) (h_Stream st b)"
  by (simp add: equal_step_def node_tags)

text \<open>Two streams that differ in their links only.\<close>

definition alike :: "Stream \<Rightarrow> Stream \<Rightarrow> bool" where
  "alike x y \<longleftrightarrow> clause_type x = clause_type y \<and> group_up x = group_up y \<and> dbl_eq (group_cost x) (group_cost y) \<and>
     dbl_eq (group_sel x) (group_sel y) \<and> path_ptr x = path_ptr y \<and> cinfo x = cinfo y"

lemma equal_stream_diverges:
  assumes "alike x y" "\<And>p. eq p p = ret True \<or> eq p p = None"
    "eq (upstream x) (upstream y) = None \<or> upstream x = upstream y \<and> eq (downstream x) (downstream y) = None"
  shows "equal_stream eq x y = None"
  using assms(1,3) assms(2) [of "path_ptr y"] assms(2) [of "cinfo y"] assms(2) [of "upstream y"]
  by (auto simp: equal_stream_def alike_def)

section \<open>Properties\<close>

text \<open>
  A small memory. The expressions at 2 and 3 apply the operator 96 to a column and a constant and lie in separate nodes;
  the operators differ in fields that the code does not look at. The expression at 4 has the constant only. The streams 5 and 6
  are linked with each other, and so are 7 and 8.
\<close>

definition demo_var :: Var where
  "demo_var = \<lparr>varno = 1, var_attno = 2, var_type = 23, var_type_mod = -1, var_levels_up = 0, varno_old = 1, var_oattno = 2\<rparr>"

definition demo_const :: Const where
  "demo_const = \<lparr>const_type = 23, const_len = 4, const_value = 7, const_is_null = False, const_by_val = True,
     const_is_set = False, const_is_cast = False\<rparr>"

definition demo_oper :: "32 word \<Rightarrow> Oper" where
  "demo_oper i = \<lparr>op_no = 96, op_id = i, op_result_type = 16, op_size = 1, op_fcache = 0\<rparr>"

definition demo_expr :: "nat \<Rightarrow> nat \<Rightarrow> Expr" where
  "demo_expr p l = \<lparr>ex_type_oid = 16, ex_op_type = OP_EXPR, ex_oper = p, ex_args = l\<rparr>"

definition demo_stream :: "nat \<Rightarrow> nat \<Rightarrow> Stream" where
  "demo_stream up down = \<lparr>path_ptr = 0, cinfo = 0, clause_type = 0, upstream = up, downstream = down,
     group_up = True, group_cost = 0, group_sel = 0\<rparr>"

definition demo :: "'h node_store \<Rightarrow> 'h node_store" where
  "demo st = st\<lparr>n_lists := (n_lists st)\<lparr>
       n_type := (\<lambda>_. T_List)(2 := T_Expr, 3 := T_Expr, 4 := T_Expr, 5 := T_Stream, 6 := T_Stream, 7 := T_Stream, 8 := T_Stream,
         10 := T_Oper, 11 := T_Var, 12 := T_Const, 20 := T_Oper, 21 := T_Var, 22 := T_Const),
       n_word := (\<lambda>_. 0)(13 := 11, 14 := 12, 23 := 21, 24 := 22, 30 := 2, 31 := 4),
       n_next := (\<lambda>_. 0)(13 := 14, 23 := 24, 30 := 31)\<rparr>,
     h_Var := (\<lambda>_. demo_var), h_Const := (\<lambda>_. demo_const), h_Oper := (\<lambda>p. demo_oper (of_nat p)),
     h_Expr := (\<lambda>_. demo_expr 10 13)(3 := demo_expr 20 23, 4 := demo_expr 10 14),
     h_Stream := (\<lambda>_. demo_stream 0 0)(5 := demo_stream 6 0, 6 := demo_stream 0 5, 7 := demo_stream 8 0, 8 := demo_stream 0 7)\<rparr>"

definition tree_oper :: ntree where "tree_oper = N_node T_Oper [L_w32 96, L_w32 16] []"

definition tree_var :: ntree where
  "tree_var = N_node T_Var [L_w32 1, L_w16 2, L_w32 23, L_w32 (-1), L_w32 0, L_w32 1, L_w16 2] []"

definition tree_const :: ntree where
  "tree_const = N_node T_Const [L_w32 23, L_w32 4, L_flag False, L_flag True, L_w64 7] []"

definition tree_expr :: "ntree list \<Rightarrow> ntree" where
  "tree_expr ts = N_node T_Expr [L_op OP_EXPR] [tree_oper, N_node T_List [] ts]"

lemma demo_fields:
  "NODE_TAG (demo st) p = ((\<lambda>_. T_List)(2 := T_Expr, 3 := T_Expr, 4 := T_Expr, 5 := T_Stream, 6 := T_Stream, 7 := T_Stream, 8 := T_Stream,
     10 := T_Oper, 11 := T_Var, 12 := T_Const, 20 := T_Oper, 21 := T_Var, 22 := T_Const)) p"
  "LFIRST (n_lists (demo st)) p = ((\<lambda>_. 0)(13 := 11, 14 := 12, 23 := 21, 24 := 22, 30 := 2, 31 := 4)) p"
  "n_next (n_lists (demo st)) = (\<lambda>_. 0)(13 := 14, 23 := 24, 30 := 31)"
  "h_Var (demo st) p = demo_var" "h_Const (demo st) p = demo_const" "h_Oper (demo st) p = demo_oper (of_nat p)"
  "h_Expr (demo st) p = ((\<lambda>_. demo_expr 10 13)(3 := demo_expr 20 23, 4 := demo_expr 10 14)) p"
  "h_Stream (demo st) p =
     ((\<lambda>_. demo_stream 0 0)(5 := demo_stream 6 0, 6 := demo_stream 0 5, 7 := demo_stream 8 0, 8 := demo_stream 0 7)) p"
  by (simp_all add: demo_def NODE_TAG_def LFIRST_def)

lemma node_view_tag:
  "NODE_TAG st p = T_Expr \<Longrightarrow> node_view tArray st p = expr_view (h_Expr st p)"
  "NODE_TAG st p = T_Oper \<Longrightarrow> node_view tArray st p = oper_view (h_Oper st p)"
  "NODE_TAG st p = T_Var \<Longrightarrow> node_view tArray st p = var_view (h_Var st p)"
  "NODE_TAG st p = T_Const \<Longrightarrow> node_view tArray st p = const_view st (h_Const st p)"
  "NODE_TAG st p = T_List \<Longrightarrow> node_view tArray st p = list_view (n_lists st) p"
  by (simp_all add: node_view_def node_tags)

lemma shapeI:
  "NODE_TAG st p = g \<Longrightarrow> node_view tArray st p = Some (ls, ks) \<Longrightarrow> p \<noteq> 0 \<Longrightarrow> list_all2 (shape tArray st) ks ts \<Longrightarrow>
   shape tArray st p (N_node g ls ts)"
  using shape_node by metis

lemma demo_leaves:
  "shape 999 (demo st) 10 tree_oper" "shape 999 (demo st) 20 tree_oper" "shape 999 (demo st) 11 tree_var"
  "shape 999 (demo st) 21 tree_var" "shape 999 (demo st) 12 tree_const" "shape 999 (demo st) 22 tree_const"
  unfolding tree_oper_def tree_var_def tree_const_def
  by (rule shapeI; simp add: demo_fields node_view_tag oper_view_def var_view_def const_view_def node_of_def
      demo_oper_def demo_var_def demo_const_def datum_label_def)+

lemma demo_cells:
  "cells (n_next (n_lists (demo st))) 13 = Some [13, 14]" "cells (n_next (n_lists (demo st))) 14 = Some [14]"
  "cells (n_next (n_lists (demo st))) 23 = Some [23, 24]"
  by (rule path_cells, simp add: demo_fields)+

lemma demo_lists:
  "shape 999 (demo st) 13 (N_node T_List [] [tree_var, tree_const])" "shape 999 (demo st) 14 (N_node T_List [] [tree_const])"
  "shape 999 (demo st) 23 (N_node T_List [] [tree_var, tree_const])"
  by (rule shapeI, simp add: demo_fields(1), simp add: demo_fields(1) node_view_tag list_view_def demo_cells demo_fields(2), simp, simp add: demo_leaves)+

lemma demo_exprs:
  "shape 999 (demo st) 2 (tree_expr [tree_var, tree_const])" "shape 999 (demo st) 3 (tree_expr [tree_var, tree_const])"
  "shape 999 (demo st) 4 (tree_expr [tree_const])"
  unfolding tree_expr_def
  by (rule shapeI, simp add: demo_fields(1), simp add: demo_fields(1,7) node_view_tag expr_view_def node_of_def demo_expr_def, simp, simp add: demo_leaves demo_lists)+

lemma tree_heights: "height (tree_expr [tree_var, tree_const]) = 3" "height (tree_expr [tree_const]) = 3"
  "tree_expr [tree_var, tree_const] \<noteq> tree_expr [tree_const]"
  by (simp_all add: tree_expr_def tree_oper_def tree_var_def tree_const_def)

text \<open>
  C9. \<open>equal\<close> decides equality of trees. When all nodes below two pointers can be read (no NULL string is handed to
  \<open>strcmp\<close>, no NaN, no cycle, only tags that the code knows), the recursion ends at a depth of at most the height of the
  first tree, without an error, and its result is whether the two trees are equal; hence \<open>equal\<close> is an equivalence relation.
\<close>

theorem equal_compares_trees:
  assumes "shape tArray st a t" "shape tArray st b u" "height t \<le> depth"
  shows "equal_nodes tArray depth st a b = ret (t = u)"
  by (rule equal_nodes_ok [OF assms])

theorem equal_compares_trees_witness:
  "\<forall>st. equal_nodes 999 3 (demo st) 2 3 = ret True \<and> equal_nodes 999 3 (demo st) 2 4 = ret False"
proof (intro allI conjI)
  fix st
  show "equal_nodes 999 3 (demo st) 2 3 = ret True" "equal_nodes 999 3 (demo st) 2 4 = ret False"
    using equal_compares_trees [OF demo_exprs(1,2) [of st], of 3] equal_compares_trees [OF demo_exprs(1,3) [of st], of 3]
    by (simp_all add: tree_heights)
qed

text \<open>
  C12. \<open>equal\<close> does not end on streams that are linked in both directions, as their declaration has them: when \<open>a\<close> and \<open>b\<close> are
  the lower neighbours of \<open>u\<close> and \<open>v\<close>, and nothing else tells the two chains apart, comparing \<open>a\<close> with \<open>b\<close> goes up to \<open>u\<close> and \<open>v\<close>
  and from there down to \<open>a\<close> and \<open>b\<close> again, for every bound on the depth.
\<close>

theorem equal_streams_never_end:
  assumes "a \<noteq> b" "u \<noteq> v" "0 \<notin> {a, b, u, v}" "\<forall>p \<in> {a, b, u, v}. NODE_TAG st p = T_Stream"
    "alike (h_Stream st a) (h_Stream st b)" "alike (h_Stream st u) (h_Stream st v)"
    "upstream (h_Stream st a) = u" "upstream (h_Stream st b) = v" "downstream (h_Stream st u) = a" "downstream (h_Stream st v) = b"
    "upstream (h_Stream st u) = upstream (h_Stream st v)"
  shows "equal_nodes tArray depth st a b = None"
proof -
  have "equal_nodes tArray depth st a b = None \<and> equal_nodes tArray depth st u v = None"
  proof (induction depth)
    case (Suc d)
    have "equal_nodes tArray d st p p = ret True \<or> equal_nodes tArray d st p p = None" for p
      by (cases d) (simp_all add: equal_nodes_self del: equal_nodes.simps(2))
    then show ?case using Suc assms by (simp add: equal_step_Stream equal_stream_diverges)
  qed simp
  then show ?thesis by blast
qed

theorem equal_streams_never_end_witness: "\<forall>st depth. equal_nodes 999 depth (demo st) 5 7 = None"
proof (intro allI)
  fix st depth
  show "equal_nodes 999 depth (demo st) 5 7 = None"
    by (rule equal_streams_never_end [of 5 7 6 8]) (simp_all add: demo_fields demo_stream_def alike_def dbl_eq_def is_nan_def)
qed

text \<open>
  C10. \<open>lisp_remove\<close> with \<open>equal\<close>: from a list whose elements can be compared it removes the first cell whose element has the
  same tree as the given node, and no other; the cells that remain keep their order and elements, and no other cell changes.
\<close>

theorem lisp_remove_equal:
  assumes "path (n_next (n_lists st)) l xs" "distinct xs" "shape tArray st (unat e) t" "height t \<le> depth"
    "list_all2 (\<lambda>c u. shape tArray st (unat (LFIRST (n_lists st) c)) u \<and> height u \<le> depth) xs us"
  shows "\<exists>l' L ys. lisp_remove (\<lambda>x y. equal_nodes tArray depth st (unat x) (unat y) = ret True) (n_lists st) e l = Some (l', L) \<and>
    path (n_next L) l' ys \<and> set ys \<subseteq> set xs \<and> n_word L = n_word (n_lists st) \<and>
    list_all2 (\<lambda>c u. shape tArray st (unat (LFIRST L c)) u) ys (remove1 t us) \<and>
    (\<forall>a. a \<notin> set xs \<longrightarrow> n_next L a = n_next (n_lists st) a)"
proof -
  let ?V = "\<lambda>x. tree_of tArray st (unat x)"
  have us: "us = map (\<lambda>c. ?V (LFIRST (n_lists st) c)) xs"
    using assms(5) by (induction rule: list_all2_induct) (auto simp: tree_of_shape)
  have cmp: "node_comparable tArray depth st e" "\<forall>c \<in> set xs. node_comparable tArray depth st (LFIRST (n_lists st) c)"
    using assms(3-5) by (auto simp: node_comparable_def list_all2_conv_all_nth in_set_conv_nth) blast+
  obtain l' L ys where r: "lisp_remove (node_same tArray depth st) (n_lists st) e l = Some (l', L)" "path (n_next L) l' ys"
    "n_word L = n_word (n_lists st)" "map (\<lambda>c. ?V (LFIRST L c)) ys = remove1 t us" "set ys \<subseteq> set xs"
    "\<forall>a. a \<notin> set xs \<longrightarrow> n_next L a = n_next (n_lists st) a"
    using eqn.lisp_remove_ok [OF assms(1,2) cmp] us tree_of_shape [OF assms(3)] by auto
  have "\<exists>u. shape tArray st (unat (LFIRST L c)) u" if "c \<in> set ys" for c
    using that r(3,5) cmp(2) by (auto simp: node_comparable_def LFIRST_def)
  then have "shape tArray st (unat (LFIRST L c)) (?V (LFIRST L c))" if "c \<in> set ys" for c
    using that tree_of_shape by metis
  then have "list_all2 (\<lambda>c u. shape tArray st (unat (LFIRST L c)) u) ys (map (\<lambda>c. ?V (LFIRST L c)) ys)"
    by (simp add: list.rel_map list.rel_refl_strong)
  moreover have "node_same tArray depth st = (\<lambda>x y. equal_nodes tArray depth st (unat x) (unat y) = ret True)"
    by (simp add: fun_eq_iff node_same_def)
  ultimately show ?thesis using r by (intro exI [of _ l'] exI [of _ L] exI [of _ ys]) simp
qed

theorem lisp_remove_equal_witness:
  "\<forall>st. \<exists>l' L c. lisp_remove (\<lambda>x y. equal_nodes 999 3 (demo st) (unat x) (unat y) = ret True) (n_lists (demo st)) 3 30 = Some (l', L) \<and>
     path (n_next L) l' [c] \<and> shape 999 (demo st) (unat (LFIRST L c)) (tree_expr [tree_const])"
proof
  fix st
  have e: "path (n_next (n_lists (demo st))) 30 [30, 31]" "shape 999 (demo st) (unat (3 :: 64 word)) (tree_expr [tree_var, tree_const])"
    "list_all2 (\<lambda>c u. shape 999 (demo st) (unat (LFIRST (n_lists (demo st)) c)) u \<and> height u \<le> 3) [30, 31]
      [tree_expr [tree_var, tree_const], tree_expr [tree_const]]"
    by (simp_all add: demo_fields(2,3) demo_exprs tree_heights)
  obtain l' L ys where r: "lisp_remove (\<lambda>x y. equal_nodes 999 3 (demo st) (unat x) (unat y) = ret True) (n_lists (demo st)) 3 30 = Some (l', L)"
    "path (n_next L) l' ys" "list_all2 (\<lambda>c u. shape 999 (demo st) (unat (LFIRST L c)) u) ys [tree_expr [tree_const]]"
    using lisp_remove_equal [OF e(1) _ e(2) _ e(3)] by (auto simp: tree_heights)
  then obtain c where "ys = [c]" "shape 999 (demo st) (unat (LFIRST L c)) (tree_expr [tree_const])" by (auto simp: list_all2_Cons2)
  then show "\<exists>l' L c. lisp_remove (\<lambda>x y. equal_nodes 999 3 (demo st) (unat x) (unat y) = ret True) (n_lists (demo st)) 3 30 = Some (l', L) \<and>
     path (n_next L) l' [c] \<and> shape 999 (demo st) (unat (LFIRST L c)) (tree_expr [tree_const])" using r by blast
qed

text \<open>
  C11. A copy of a list is equal to the list. For any \<open>malloc\<close> that keeps its contract, \<open>list_copy\<close> of a non-empty pointer list
  of live cells runs out of memory or gives a new list, and \<open>equal\<close> of the two is true, whatever the elements are.
\<close>

theorem list_copy_equal:
  assumes "allocator malloc mfree blocks valid" "valid (n_heap (n_lists st))" "path (n_next (n_lists st)) l xs" "xs \<noteq> []"
    "\<forall>c \<in> set xs. blocks (n_heap (n_lists st)) c \<noteq> None" "NODE_TAG st l = T_List" "2 \<le> depth"
  shows "(list_copy malloc (n_lists st) l = Some (Inl Bad_pointer) \<and> (\<exists>hp hp'. valid hp \<and> malloc hp 24 = (0, hp'))) \<or>
    (\<exists>l' L. list_copy malloc (n_lists st) l = Some (Inr (l', L)) \<and> l' \<noteq> l \<and> blocks (n_heap (n_lists st)) l' = None \<and>
       equal_nodes tArray depth (st\<lparr>n_lists := L\<rparr>) l l' = ret True)"
proof -
  let ?old = "blocks (n_heap (n_lists st))"
  have l: "l = hd xs" "l \<noteq> 0" "?old l \<noteq> None" using assms(3-5) by (cases xs; auto)+
  obtain d where "depth = 2 + d" using le_Suc_ex [OF assms(7)] by blast
  then have d: "depth = Suc (Suc d)" by simp
  have eq: "l' \<noteq> l \<and> ?old l' = None \<and> equal_nodes tArray depth (st\<lparr>n_lists := L\<rparr>) l l' = ret True"
    if "copied blocks valid (n_lists st) xs l' ys L" for l' ys L
  proof -
    have c: "path (n_next L) l' ys" "map (n_word L) ys = map (n_word (n_lists st)) xs"
      "\<forall>a \<in> set ys. ?old a = None \<and> n_type L a = T_List"
      "\<forall>a \<in> set xs. n_word L a = n_word (n_lists st) a \<and> n_next L a = n_next (n_lists st) a"
      "n_type L l = n_type (n_lists st) l"
      using that assms(5) l(3) unfolding copied_def by fast+
    have "path (n_next L) l xs" using assms(3) c(4) path_cong [of xs "n_next L" "n_next (n_lists st)"] by simp
    moreover have "map (n_word L) xs = map (n_word L) ys" using c(2,4) by simp
    ultimately have e: "equal_list (equal_nodes tArray (Suc d) (st\<lparr>n_lists := L\<rparr>)) L l l' = ret True"
      using c(1) by (intro equal_list_same_elements [of L l xs l' ys] equal_nodes_self)
    have "ys \<noteq> []" using c(2) assms(4) by auto
    then have l': "l' \<in> set ys" "l' \<noteq> 0" using c(1) by (cases ys; auto)+
    moreover have "l \<noteq> l'" using l' c(3) l(3) by auto
    ultimately show ?thesis using c(3,5) l(2) assms(6) e d by (simp add: equal_step_List NODE_TAG_def)
  qed
  have "path (n_next (n_lists st)) l (hd xs # tl xs)" "\<forall>c \<in> set (hd xs # tl xs). ?old c \<noteq> None" using assms(3-5) by simp_all
  then show ?thesis using allocator.list_copy_ok [OF assms(1,2)] assms(4) eq by (metis list.collapse)
qed

theorem list_copy_equal_witness:
  "\<forall>st. \<exists>l' L. list_copy bump_alloc list0 32 = Some (Inr (l', L)) \<and> l' \<noteq> 32 \<and> equal_nodes 999 2 (st\<lparr>n_lists := L\<rparr>) 32 l' = ret True"
proof
  fix st :: "bump node_store"
  have "NODE_TAG (st\<lparr>n_lists := list0\<rparr>) 32 = T_List" by (simp add: NODE_TAG_def list0_def)
  then show "\<exists>l' L. list_copy bump_alloc list0 32 = Some (Inr (l', L)) \<and> l' \<noteq> 32 \<and> equal_nodes 999 2 (st\<lparr>n_lists := L\<rparr>) 32 l' = ret True"
    using list_copy_equal [OF bump_allocator, of "st\<lparr>n_lists := list0\<rparr>" 32 "[32, 64, 96]" 2 999] list0_ok by (auto simp: bump_alloc_nonzero)
qed

end
