(* ===== verification/Spec2Isabelle.thy ===== *)
theory Spec2Isabelle
  imports ShmQueue BufTable Page Aset MdStore Mctx PgList HeapTuple StringInfo Datum Dllist EqualSpec
begin

text \<open>
  A verification library for the storage and memory layers of a PostgreSQL 7 back end written in C
  (\<^verbatim>\<open>src/src/backend\<close> and \<^verbatim>\<open>src/src/include/rdbms\<close>).

  \<^bold>\<open>The program.\<close> The back end keeps its data in slotted disk pages. The magnetic disk manager keeps the pages of a
  relation in segments, one file each. Files are reached through virtual
  file descriptors, a cache that keeps more files open than the kernel allows. Pages live in a pool of
  shared buffers: a hash table finds the buffer of a page, a free list yields the next victim. Queues
  in shared memory link the structures that processes share. All private memory comes from a tree of memory
  contexts, each an allocation set over \<open>malloc\<close>; the hash tables allocate in such a context. Lists of
  nodes carry parse and plan trees. Rows are heap tuples: a header, a null bitmap and the packed attributes.

  \<^bold>\<open>The theories and what they model.\<close>

  \<^item> \<open>Prelude\<close>: the ways a routine stops (\<open>c_error\<close>: a failed assertion, \<open>elog\<close>, undefined behaviour),
    results, the alignment macros of \<^verbatim>\<open>c.h\<close>, and byte-addressed memory with loads, stores, \<open>memmove\<close>.
  \<^item> \<open>Ring\<close>: circular doubly linked lists and the interface \<open>ring_ops\<close> of a component that links and
    unlinks their elements. \<open>ShmQueue\<close>, \<open>BufFreelist\<close> and \<open>Fd\<close> interpret it on their own routines.
  \<^item> \<open>Links\<close>: singly linked lists through memory (\<open>path\<close>), the interface \<open>allocator\<close> of a memory
    allocator, and a concrete allocator.
  \<^item> \<open>Page\<close> (\<^verbatim>\<open>storage/page/bufpage.c\<close>): pages as bytes. Adding an item appends or inserts exactly one line
    pointer and keeps every other item; deleting an index tuple removes exactly it; defragmentation
    keeps all used items and leaves no gaps; set-up and the temporary page are correct.
  \<^item> \<open>Hashfn\<close> (\<^verbatim>\<open>utils/hash/hashfn.c\<close>): both hash functions at their machine width; the jump table of
    \<open>tag_hash\<close> equals its loop.
  \<^item> \<open>Dynahash\<close> (\<^verbatim>\<open>utils/hash/dynahash.c\<close>): linear hashing over explicit memory. A table represents a map
    (\<open>ht_rep\<close>); search, insertion, removal, growth, creation and the scan refine operations on that map
    (locale \<open>assoc_table\<close>), for every hash function and allocator.
  \<^item> \<open>BufTable\<close> (\<^verbatim>\<open>storage/buffer/buf_table.c\<close>): the map from page tags to buffers as a client of \<open>assoc_table\<close>.
  \<^item> \<open>BufFreelist\<close> (\<^verbatim>\<open>storage/buffer/freelist.c\<close>, \<^verbatim>\<open>buf_init.c\<close>): buffer descriptors, pinning, and LRU order of the
    free list.
  \<^item> \<open>ShmQueue\<close> (\<^verbatim>\<open>storage/ipc/shmqueue.c\<close>): queues whose links are offsets in shared memory.
  \<^item> \<open>Aset\<close> (\<^verbatim>\<open>utils/mmgr/aset.c\<close>): allocation sets. \<open>as_ok\<close> says that the blocks of a set are tiled by chunks
    and that its free lists hold free chunks of their size; every operation keeps it, allocation
    returns memory that overlaps nothing in use, and a set over any \<open>malloc\<close> (locale
    \<open>aligned_allocator\<close>) is again an \<open>allocator\<close> (a sublocale), the interface the hash tables and lists rely on.
  \<^item> \<open>Mctx\<close> (\<^verbatim>\<open>utils/mmgr/mctx.c\<close>): the tree of contexts. A context type is the function table of its nodes.
    Reset and deletion visit every context of a tree once, children first; creation and deletion keep the tree.
  \<^item> \<open>Fd\<close> (\<^verbatim>\<open>storage/file/fd.c\<close>): virtual file descriptors over a kernel that is a parameter (locale \<open>posix\<close>). The
    descriptor limit is respected, file positions survive closing and reopening, only least
    recently used files are closed.
  \<^item> \<open>FdFiles\<close> and \<open>FileLayer\<close>: the same routines over a kernel with files (locale \<open>posix_files\<close>: contents, short and failing
    transfers, refused opens). \<open>FileLayer\<close> states what a client of fd.c relies on (\<open>file_layer\<close>), proves that \<^verbatim>\<open>fd.c\<close> provides it
    (a sublocale) and gives a concrete kernel.
  \<^item> \<open>Md\<close> (\<^verbatim>\<open>storage/smgr/md.c\<close>, \<open>relpath\<close> of \<^verbatim>\<open>catalog/catalog.c\<close>): the magnetic disk manager; its table of open relations keeps
    \<open>fdvec_ok\<close>. \<open>MdSpec\<close> and \<open>MdGrow\<close> prove each operation against the list of segments of a relation, in the locale \<open>segments\<close> over
    a \<open>file_layer\<close>; \<open>MdPool\<close> has several open relations, each of them a list of blocks (\<open>serves\<close>), and runs of operations;
    \<open>MdStore\<close> puts md.c on fd.c on a kernel (\<open>posix_storage\<close>) and states the properties.
  \<^item> \<open>PgList\<close> (\<^verbatim>\<open>nodes/list.c\<close>, \<^verbatim>\<open>nodes/nodes.c\<close>): nodes and lists in explicit memory over an \<open>allocator\<close>.
  \<^item> \<open>Nodes\<close> and \<open>EqualFuncs\<close> (\<^verbatim>\<open>nodes/primnodes.h\<close>, \<^verbatim>\<open>relation.h\<close>, \<^verbatim>\<open>parsenodes.h\<close>, \<^verbatim>\<open>nodes/equalfuncs.c\<close>): the structs of parse and
    plan trees, one record each, and \<open>equal\<close> with one routine per struct. \<open>EqualSpec\<close> reads a node as labels and children and
    proves that \<open>equal\<close> decides equality of the trees (\<open>shape\<close>), that \<open>lisp_remove\<close> and \<open>list_copy\<close> of \<open>PgList\<close> go well with it (locale
    \<open>element_comparison\<close>), and that it does not end on linked streams.
  \<^item> \<open>HeapTuple\<close> (\<^verbatim>\<open>access/common/heaptuple.c\<close>, \<^verbatim>\<open>access/htup.h\<close>, \<^verbatim>\<open>tupmacs.h\<close>, \<^verbatim>\<open>heapam.h\<close>): tuples as bytes. A formed tuple stays
    inside its memory and describes its columns; every column reads back what was stored, through every
    path of the offset cache; modifying a tuple loses flags.
  \<^item> \<open>DataHeap\<close>: the interface \<open>data_heap\<close> of memory that holds bytes (\<open>palloc\<close>, \<open>repalloc\<close>, \<open>pfree\<close>), provided by the allocation
    sets and, as the build is configured, by \<open>malloc\<close> itself. \<open>StringInfo\<close> and \<open>Datum\<close> are its clients.
  \<^item> \<open>StringInfo\<close> (\<^verbatim>\<open>lib/stringinfo.c\<close>): growing strings with checked \<open>int\<close> arithmetic; appending ends, appends exactly
    the bytes and stays inside the buffer.
  \<^item> \<open>Datum\<close> (\<^verbatim>\<open>utils/adt/datum.c\<close>, \<^verbatim>\<open>utils/adt/name.c\<close>, \<^verbatim>\<open>storage/block.h\<close>, \<^verbatim>\<open>storage/itemptr.h\<close>): copies of datums, names, item pointers.
  \<^item> \<open>Dllist\<close> (\<^verbatim>\<open>lib/dllist.c\<close>): doubly linked lists as sequences; moving to the front equals removing and adding.
  \<^item> this theory: the composition of the hash tables with the allocation sets.

  \<^bold>\<open>State and results.\<close> A struct is a record, a static variable a field of the component's state record,
  a pointer the address (or array index) of what it points to, with 0 for NULL. Memory that several pointers
  reach is a function from addresses, one per field, or from bytes where layouts overlap (pages). A
  routine returns its result and the new state; \<open>Inl\<close> is an error of \<open>c_error\<close>. Integers are words where the
  code can wrap around, else naturals or integers.

  \<^bold>\<open>Loops and fuel.\<close> Loops with a decreasing measure are total functions with their termination proofs. Walks
  along linked structures are partial functions whose value \<open>None\<close> is a walk that does not end; every property
  of such a routine states that its result is \<open>Some\<close>. The mutual recursion over the context tree takes
  fuel; \<open>fuel_for t\<close> (three per context and one per child) is enough for the tree \<open>t\<close>, and the
  properties hold for any fuel from there on. The comparison of nodes has a bound on the depth of its recursion; the
  height of the first tree is enough. The disk manager is specified for relations of fewer than
  \<open>2 ^ 14\<close> segments of 1 GB, where the block numbers fit in an \<open>int\<close>; what happens to larger block numbers is a property of its own.

  \<^bold>\<open>Assumptions.\<close> The data model is LP64, little endian. Code outside the repository is a parameter with a
  contract: \<open>malloc\<close>, \<open>free\<close>, \<open>realloc\<close> (\<open>allocator\<close>, \<open>aligned_allocator\<close>), \<open>qsort\<close>, the system calls (\<open>posix\<close>, \<open>posix_files\<close>).
  The tag \<open>T_Array\<close> and some members of \<open>Query\<close> and \<open>RangeTblEntry\<close>, which \<^verbatim>\<open>equalfuncs.c\<close> reads and no header declares, are a
  parameter and records of their own. Each contract has a concrete instance in the library, which the witnesses use. Spin locks held by callers
  and debugging output are left out.

  \<^bold>\<open>Not modelled.\<close> Left for extensions of this library: tuple descriptors (\<^verbatim>\<open>common/tupdesc.c\<close>), the switch of storage managers (\<^verbatim>\<open>smgr.c\<close>, whose table does not fit its struct), \<^verbatim>\<open>utils/misc/fstack.c\<close> and \<^verbatim>\<open>utils/mmgr/oset.c\<close>,
  shared-memory and semaphore set-up (\<^verbatim>\<open>storage/ipc\<close>), the lock manager (\<^verbatim>\<open>storage/lmgr\<close>) and the catalog caches,
  of which the repository holds fragments. Out of reach are generated tables (\<^verbatim>\<open>fmgrtab.c\<close>, catalog headers),
  error output (\<^verbatim>\<open>utils/error\<close>, \<^verbatim>\<open>trace.c\<close>, \<^verbatim>\<open>guc.c\<close>), and the entry points that only start other parts.
\<close>

section \<open>Hash tables in a memory context\<close>






end
